(* ===== verification/Prelude.thy ===== *)
theory Prelude
  imports Main "HOL-Library.Word" "HOL-Library.Multiset"
begin

text \<open>
  Shared material of the development: the named collections the component proofs use, C's
  unsigned 64-bit arithmetic written out on natural numbers, and the generic lemmas on lists and
  on cyclic index ranges that several components need.

  An unsigned integer of the C code that takes part in the protocol (a counter, a window bound, a
  version) is a natural number below \<open>W64 = 2 ^ 64\<close>; \<open>add64\<close>, \<open>sub64\<close> and
  \<open>mul64\<close> are C's wrapping operations on it.
\<close>

section \<open>Collections\<close>

named_theorems u64 \<open>C's 64-bit arithmetic where it does not wrap\<close>
named_theorems prog_unfold \<open>what evaluates a program on a concrete state\<close>

declare One_nat_def [simp del]

section \<open>Unsigned 64-bit arithmetic\<close>

type_synonym u64 = nat

definition W64 :: nat where
  "W64 = 18446744073709551616"

definition add64 :: "u64 \<Rightarrow> u64 \<Rightarrow> u64" where
  "add64 a b = (a + b) mod W64"

definition sub64 :: "u64 \<Rightarrow> u64 \<Rightarrow> u64" where
  "sub64 a b = (a + (W64 - b mod W64)) mod W64"

definition mul64 :: "u64 \<Rightarrow> u64 \<Rightarrow> u64" where
  "mul64 a b = (a * b) mod W64"

definition add16 :: "nat \<Rightarrow> nat \<Rightarrow> nat" where
  "add16 a b = (a + b) mod 65536"

lemma add16_eq: "a + b < 65536 \<Longrightarrow> add16 a b = a + b"
  by (simp add: add16_def)

lemma W64_pos [simp]: "0 < W64"
  by (simp add: W64_def)

lemma W64_pow: "W64 = 2 ^ 64"
  by (simp add: W64_def)

lemma add64_eq [u64]: "a + b < W64 \<Longrightarrow> add64 a b = a + b"
  by (simp add: add64_def)

lemma mul64_eq [u64]: "a * b < W64 \<Longrightarrow> mul64 a b = a * b"
  by (simp add: mul64_def)

lemma sub64_eq [u64]: "b \<le> a \<Longrightarrow> a < W64 \<Longrightarrow> sub64 a b = a - b"
proof -
  assume ab: "b \<le> a" "a < W64"
  then have "b mod W64 = b" by simp
  then have "sub64 a b = ((a - b) + W64) mod W64" using ab by (simp add: sub64_def)
  also have "\<dots> = a - b" using ab by (simp only: mod_add_self2) simp
  finally show ?thesis .
qed

lemma sub64_wraps: "a < b \<Longrightarrow> b < W64 \<Longrightarrow> sub64 a b = W64 - (b - a)"
proof -
  assume ab: "a < b" "b < W64"
  then have "b mod W64 = b" by simp
  then have "sub64 a b = (W64 - (b - a)) mod W64" using ab by (simp add: sub64_def)
  also have "\<dots> = W64 - (b - a)" using ab by (intro mod_less) simp
  finally show ?thesis .
qed

lemma add64_less [simp]: "add64 a b < W64"
  by (simp add: add64_def)

lemma sub64_less [simp]: "sub64 a b < W64"
  by (simp add: sub64_def)

lemma mul64_less [simp]: "mul64 a b < W64"
  by (simp add: mul64_def)

lemmas u64_unfold [prog_unfold] = add64_def sub64_def mul64_def W64_def add16_def

section \<open>Lists\<close>

text \<open>Array access: out of range is no value.\<close>

definition at :: "'a list \<Rightarrow> nat \<Rightarrow> 'a option" where
  "at xs i = (if i < length xs then Some (xs ! i) else None)"

lemma at_Some [simp]: "i < length xs \<Longrightarrow> at xs i = Some (xs ! i)"
  by (simp add: at_def)

lemma at_eq_Some: "at xs i = Some x \<longleftrightarrow> i < length xs \<and> x = xs ! i"
  by (auto simp: at_def)

lemma replicate_num [prog_unfold]: "replicate (numeral k) x = x # replicate (pred_numeral k) x"
  by (simp add: numeral_eq_Suc)

lemma length_concat_update:
  "i < length xss \<Longrightarrow> length (concat (xss[i := ys])) + length (xss ! i) = length (concat xss) + length ys"
proof (induction xss arbitrary: i)
  case (Cons xs xss)
  then show ?case by (cases i) auto
qed simp

lemma mset_concat_update:
  "i < length xss \<Longrightarrow> mset (concat (xss[i := ys])) + mset (xss ! i) = mset (concat xss) + mset ys"
proof (induction xss arbitrary: i)
  case (Cons xs xss)
  then show ?case
  proof (cases i)
    case 0
    then show ?thesis by (simp add: ac_simps)
  next
    case (Suc j)
    with Cons.prems Cons.IH [of j] show ?thesis by (simp add: ac_simps)
  qed
qed simp

lemma sum_list_update_nat:
  fixes xs :: "nat list"
  shows "i < length xs \<Longrightarrow> sum_list (xs[i := v]) + xs ! i = sum_list xs + v"
proof (induction xs arbitrary: i)
  case (Cons x xs)
  then show ?case by (cases i) auto
qed simp

lemma all_nth_update:
  "(\<forall>j < length xs. P j (xs ! j)) \<Longrightarrow> P i v \<Longrightarrow> \<forall>j < length xs. P j (xs[i := v] ! j)"
  by (metis nth_list_update_eq nth_list_update_neq)

section \<open>Cyclic index ranges\<close>

text \<open>
  Every window search walks the sub-structures from some index onwards, wrapping at the width.
  \<open>behind w i k\<close> is the index \<open>k\<close> places behind \<open>i\<close>, and a walk of \<open>w\<close> places has seen every
  index.
\<close>

definition next_index :: "nat \<Rightarrow> nat \<Rightarrow> nat" where
  "next_index w i = (if i + 1 \<ge> w then 0 else i + 1)"

definition behind :: "nat \<Rightarrow> nat \<Rightarrow> nat \<Rightarrow> nat" where
  "behind w i k = (i + w - k) mod w"

lemma next_index_less: "0 < w \<Longrightarrow> next_index w i < w"
  by (simp add: next_index_def)

lemma behind_less: "0 < w \<Longrightarrow> behind w i k < w"
  by (simp add: behind_def)

lemma behind_zero: "i < w \<Longrightarrow> behind w i 0 = i"
  by (simp add: behind_def)

lemma behind_next:
  assumes "i < w" "k < w"
  shows "behind w (next_index w i) (Suc k) = behind w i k"
proof (cases "i + 1 \<ge> w")
  case True
  with assms have i: "i = w - 1" by simp
  with assms have "behind w i k = w - 1 - k"
  proof -
    have "behind w i k = ((w - 1 - k) + w) mod w" using i assms by (simp add: behind_def)
    also have "\<dots> = w - 1 - k" using assms by (simp only: mod_add_self2) simp
    finally show ?thesis .
  qed
  moreover have "behind w (next_index w i) (Suc k) = w - Suc k"
    using True assms by (simp add: behind_def next_index_def)
  ultimately show ?thesis by simp
next
  case False
  then have "next_index w i = i + 1" by (simp add: next_index_def)
  then show ?thesis using assms by (simp add: behind_def)
qed

lemma behind_surj:
  assumes "i < w" "j < w"
  shows "\<exists>k < w. behind w i k = j"
proof (cases "j \<le> i")
  case True
  then have "behind w i (i - j) = j" using assms by (simp add: behind_def)
  moreover have "i - j < w" using assms by simp
  ultimately show ?thesis by blast
next
  case False
  then have "behind w i (i + w - j) = j" using assms by (simp add: behind_def)
  moreover have "i + w - j < w" using False assms by simp
  ultimately show ?thesis by blast
qed

text \<open>
  What a walk knows: \<open>seen w i n P\<close> says that \<open>P\<close> holds at the last \<open>n\<close> indices the walk left.
\<close>

definition seen :: "nat \<Rightarrow> nat \<Rightarrow> nat \<Rightarrow> (nat \<Rightarrow> bool) \<Rightarrow> bool" where
  "seen w i n P \<longleftrightarrow> (\<forall>k. 1 \<le> k \<and> k \<le> n \<longrightarrow> P (behind w i k))"

lemma seen_0 [simp]: "seen w i 0 P"
  by (simp add: seen_def)

lemma seen_next:
  assumes "seen w i n P" "P i" "i < w" "n < w"
  shows "seen w (next_index w i) (n + 1) P"
  unfolding seen_def
proof (intro allI impI)
  fix k
  assume k: "1 \<le> k \<and> k \<le> n + 1"
  then obtain k' where k': "k = Suc k'" by (cases k) auto
  then have "behind w (next_index w i) k = behind w i k'"
    using k assms by (simp add: behind_next)
  moreover have "P (behind w i k')"
    using assms k k' by (cases k') (auto simp: seen_def behind_zero)
  ultimately show "P (behind w (next_index w i) k)" by simp
qed

lemma seen_all:
  assumes "seen w i w P" "i < w"
  shows "\<forall>j < w. P j"
proof (intro allI impI)
  fix j
  assume "j < w"
  then obtain k where k: "k < w" "behind w i k = j" using assms(2) behind_surj by blast
  show "P j"
  proof (cases k)
    case 0
    have "behind w i w = i" using assms(2) by (simp add: behind_def)
    moreover have "P (behind w i w)" using assms by (auto simp: seen_def)
    ultimately show ?thesis using k 0 assms(2) by (simp add: behind_zero)
  next
    case (Suc n)
    then show ?thesis using assms(1) k by (auto simp: seen_def)
  qed
qed

lemma seen_mono: "seen w i n P \<Longrightarrow> (\<And>j. P j \<Longrightarrow> P' j) \<Longrightarrow> seen w i n P'"
  by (auto simp: seen_def)

end
