(* ===== verification/Programs.thy ===== *)
theory Programs
  imports Prelude
begin

text \<open>
  The language the C functions are translated into. A function of the repository that works on
  shared memory becomes a \<open>prog\<close>: a tree of atomic actions on the shared state, where one
  \<open>Act\<close> is one access to shared memory (a load, a store, a compare-and-exchange) and everything
  a thread does on its own variables happens between two actions. \<open>Fault\<close> is a failed
  \<^verbatim>\<open>assert\<close>, a division by zero, a null or dangling pointer dereference or an access outside an array;
  \<open>NoFuel\<close> marks a loop cut off after the number of iterations it was given.

  A program has two semantics. \<open>run\<close> and its weakest precondition \<open>wp\<close> execute it alone, to the
  end: \<open>wp\<close> is total correctness, so it holds only if the program returns. Under concurrency the
  actions of any number of threads interleave (\<open>pool_step\<close>); \<open>ok\<close> is a rely/guarantee judgement
  over the steps (\<open>astep\<close>) the protocol allows each thread, and the theorem \<open>pool_ok\<close> says that
  threads that are \<open>ok\<close> one by one never fault together, and make only the steps of the protocol.
\<close>

section \<open>Programs\<close>

datatype ('g, 'a) prog =
    Ret 'a
  | Fault
  | NoFuel
  | Act "'g \<Rightarrow> 'g" "'g \<Rightarrow> ('g, 'a) prog"

primrec pbind :: "('g, 'a) prog \<Rightarrow> ('a \<Rightarrow> ('g, 'b) prog) \<Rightarrow> ('g, 'b) prog" where
  "pbind (Ret a) f = f a"
| "pbind Fault f = Fault"
| "pbind NoFuel f = NoFuel"
| "pbind (Act u k) f = Act u (\<lambda>g. pbind (k g) f)"

lemma pbind_assoc: "pbind (pbind p f) h = pbind p (\<lambda>a. pbind (f a) h)"
  by (induction p) auto

lemma pbind_Ret: "pbind p Ret = p"
  by (induction p) auto

lemma pbind_if: "pbind (if b then p else q) f = (if b then pbind p f else pbind q f)"
  by simp

section \<open>Atomic actions\<close>

text \<open>
  A load of shared memory, a store, \<^verbatim>\<open>__atomic_compare_exchange\<close> (the result is whether it
  succeeded and the value that was found, which C writes back into the expected value on failure),
  \<^verbatim>\<open>__sync_val_compare_and_swap\<close> is the same action, and \<^verbatim>\<open>__atomic_exchange_n\<close>.
\<close>

definition rd :: "('g \<Rightarrow> 'v) \<Rightarrow> ('g, 'v) prog" where
  "rd f = Act id (\<lambda>g. Ret (f g))"

definition wr :: "('g \<Rightarrow> 'g) \<Rightarrow> ('g, unit) prog" where
  "wr u = Act u (\<lambda>g. Ret ())"

definition cae :: "('g \<Rightarrow> 'v) \<Rightarrow> ('v \<Rightarrow> 'g \<Rightarrow> 'g) \<Rightarrow> 'v \<Rightarrow> 'v \<Rightarrow> ('g, bool \<times> 'v) prog" where
  "cae f put expected desired =
     Act (\<lambda>g. if f g = expected then put desired g else g) (\<lambda>g. Ret (f g = expected, f g))"

definition swp :: "('g \<Rightarrow> 'v) \<Rightarrow> ('v \<Rightarrow> 'g \<Rightarrow> 'g) \<Rightarrow> 'v \<Rightarrow> ('g, 'v) prog" where
  "swp f put v = Act (put v) (\<lambda>g. Ret (f g))"

definition assert :: "bool \<Rightarrow> ('g, unit) prog" where
  "assert b = (if b then Ret () else Fault)"

text \<open>A load that may fault: an access through a null or dangling pointer or past an array.\<close>

definition rd_opt :: "('g \<Rightarrow> 'v option) \<Rightarrow> ('g, 'v) prog" where
  "rd_opt f = Act id (\<lambda>g. case f g of None \<Rightarrow> Fault | Some v \<Rightarrow> Ret v)"

lemmas action_defs [prog_unfold] = rd_def wr_def cae_def swp_def assert_def rd_opt_def Let_def One_nat_def

text \<open>
  Evaluating a program by rewriting: only the action that comes next is unfolded. A loop
  with a numeral as fuel is unfolded by the equation for the successor of its predecessor.
\<close>

lemma Act_eval_cong: "Act u k = Act u k"
  by (rule refl)

lemma pbind_eval_cong: "p = p' \<Longrightarrow> pbind p f = pbind p' f"
  by simp

lemmas eval_cong = Act_eval_cong pbind_eval_cong

section \<open>Running alone\<close>

datatype 'a outcome = Done 'a | Faulted | OutOfFuel

primrec run :: "('g, 'a) prog \<Rightarrow> 'g \<Rightarrow> 'a outcome \<times> 'g" where
  "run (Ret a) g = (Done a, g)"
| "run Fault g = (Faulted, g)"
| "run NoFuel g = (OutOfFuel, g)"
| "run (Act u k) g = run (k g) (u g)"

primrec wp :: "('g, 'a) prog \<Rightarrow> ('a \<Rightarrow> 'g \<Rightarrow> bool) \<Rightarrow> 'g \<Rightarrow> bool" where
  "wp (Ret a) Q g = Q a g"
| "wp Fault Q g = False"
| "wp NoFuel Q g = False"
| "wp (Act u k) Q g = wp (k g) Q (u g)"

lemma wp_Ret_fun [simp]: "wp (Ret a) Q = Q a"
  by (rule ext) simp

lemma wp_run: "wp p Q g \<longleftrightarrow> (\<exists>a g'. run p g = (Done a, g') \<and> Q a g')"
  by (induction p arbitrary: g) auto

lemma wp_runD: "wp p Q g \<Longrightarrow> \<exists>a g'. run p g = (Done a, g') \<and> Q a g'"
  by (simp add: wp_run)

lemma wp_bind [simp]: "wp (pbind p f) Q g = wp p (\<lambda>a. wp (f a) Q) g"
  by (induction p arbitrary: g) auto

lemma wp_rd [simp]: "wp (rd f) Q g = Q (f g) g"
  by (simp add: rd_def)

lemma wp_wr [simp]: "wp (wr u) Q g = Q () (u g)"
  by (simp add: wr_def)

lemma wp_cae [simp]:
  "wp (cae f put e d) Q g = (if f g = e then Q (True, f g) (put d g) else Q (False, f g) g)"
  by (simp add: cae_def)

lemma wp_swp [simp]: "wp (swp f put v) Q g = Q (f g) (put v g)"
  by (simp add: swp_def)

lemma wp_assert [simp]: "wp (assert b) Q g = (b \<and> Q () g)"
  by (simp add: assert_def)

lemma wp_rd_opt [simp]: "wp (rd_opt f) Q g = (\<exists>v. f g = Some v \<and> Q v g)"
  by (simp add: rd_opt_def split: option.split)

lemma wp_mono: "wp p Q g \<Longrightarrow> (\<And>a h. Q a h \<Longrightarrow> Q' a h) \<Longrightarrow> wp p Q' g"
  by (induction p arbitrary: g) auto

lemma wp_if [simp]: "wp (if b then p else q) Q g = (if b then wp p Q g else wp q Q g)"
  by simp

section \<open>Running concurrently\<close>

text \<open>
  A pool is a list of threads, each the rest of its program, over one shared state. A step lets
  one thread perform its next action. \<open>A\<close> restricts attention to the executions in which the
  64-bit counters of the shared state have not run out: a step into a state without \<open>A\<close> is not
  followed.
\<close>

type_synonym ('g, 'a) pool = "('g, 'a) prog list \<times> 'g"

inductive pool_step :: "('g \<Rightarrow> bool) \<Rightarrow> ('g, 'a) pool \<Rightarrow> ('g, 'a) pool \<Rightarrow> bool" for A where
  pool_act: "i < length ps \<Longrightarrow> ps ! i = Act u k \<Longrightarrow> A (u g) \<Longrightarrow>
     pool_step A (ps, g) (ps[i := k g], u g)"

inductive_cases pool_stepE: "pool_step A (ps, g) c"

abbreviation pool_reaches :: "('g \<Rightarrow> bool) \<Rightarrow> ('g, 'a) pool \<Rightarrow> ('g, 'a) pool \<Rightarrow> bool" where
  "pool_reaches A \<equiv> (pool_step A)\<^sup>*\<^sup>*"

text \<open>An executable scheduler: run the pool along a list of thread numbers.\<close>

fun sched :: "('g \<Rightarrow> bool) \<Rightarrow> nat list \<Rightarrow> ('g, 'a) pool \<Rightarrow> ('g, 'a) pool" where
  "sched A [] c = c"
| "sched A (i # is) (ps, g) =
     (if i < length ps then
        (case ps ! i of
           Act u k \<Rightarrow> if A (u g) then sched A is (ps[i := k g], u g) else sched A is (ps, g)
         | _ \<Rightarrow> sched A is (ps, g))
      else sched A is (ps, g))"

lemma sched_reaches: "pool_reaches A c (sched A is c)"
proof (induction "is" arbitrary: c)
  case Nil
  then show ?case by simp
next
  case (Cons i "is")
  obtain ps g where c: "c = (ps, g)" by (cases c)
  show ?case
  proof (cases "i < length ps \<and> (\<exists>u k. ps ! i = Act u k \<and> A (u g))")
    case True
    then obtain u k where a: "i < length ps" "ps ! i = Act u k" "A (u g)" by blast
    then have "pool_step A (ps, g) (ps[i := k g], u g)" by (auto intro: pool_act)
    then show ?thesis using a c Cons.IH [of "(ps[i := k g], u g)"]
      by (simp add: converse_rtranclp_into_rtranclp)
  next
    case False
    then have "sched A (i # is) c = sched A is c" using c by (auto split: prog.split)
    then show ?thesis using Cons.IH by simp
  qed
qed

primrec prog_result :: "('g, 'a) prog \<Rightarrow> 'a option" where
  "prog_result (Ret a) = Some a"
| "prog_result Fault = None"
| "prog_result NoFuel = None"
| "prog_result (Act u k) = None"

lemma prog_result_Some [simp]: "prog_result p = Some a \<longleftrightarrow> p = Ret a"
  by (cases p) auto

section \<open>The rely/guarantee judgement\<close>

text \<open>
  \<open>astep t g g'\<close> says that the protocol lets thread \<open>t\<close> change the shared state from \<open>g\<close> to
  \<open>g'\<close>. Thread \<open>t\<close> relies on the steps of the others (\<open>env astep A t\<close>), and \<open>ok\<close> demands
  that each of its own actions either leaves the state as it is or is a step of the protocol.
\<close>

type_synonym 'g protocol = "nat \<Rightarrow> 'g \<Rightarrow> 'g \<Rightarrow> bool"

definition env1 :: "'g protocol \<Rightarrow> ('g \<Rightarrow> bool) \<Rightarrow> nat \<Rightarrow> 'g \<Rightarrow> 'g \<Rightarrow> bool" where
  "env1 astep A t g g' \<longleftrightarrow> A g' \<and> (\<exists>u. u \<noteq> t \<and> astep u g g')"

abbreviation env :: "'g protocol \<Rightarrow> ('g \<Rightarrow> bool) \<Rightarrow> nat \<Rightarrow> 'g \<Rightarrow> 'g \<Rightarrow> bool" where
  "env astep A t \<equiv> (env1 astep A t)\<^sup>*\<^sup>*"

primrec ok :: "'g protocol \<Rightarrow> ('g \<Rightarrow> bool) \<Rightarrow> nat \<Rightarrow> ('g, 'a) prog \<Rightarrow> ('a \<Rightarrow> 'g \<Rightarrow> bool) \<Rightarrow> 'g \<Rightarrow> bool" where
  "ok astep A t (Ret a) Q g = (\<forall>g'. env astep A t g g' \<longrightarrow> Q a g')"
| "ok astep A t Fault Q g = False"
| "ok astep A t NoFuel Q g = True"
| "ok astep A t (Act u k) Q g =
     (\<forall>g'. env astep A t g g' \<longrightarrow> A (u g') \<longrightarrow>
        (u g' = g' \<or> astep t g' (u g')) \<and> ok astep A t (k g') Q (u g'))"

lemma ok_env: "ok astep A t p Q g \<Longrightarrow> env astep A t g h \<Longrightarrow> ok astep A t p Q h"
  by (cases p) (auto intro: rtranclp_trans)

lemma ok_mono: "ok astep A t p Q g \<Longrightarrow> (\<And>a h. Q a h \<Longrightarrow> Q' a h) \<Longrightarrow> ok astep A t p Q' g"
  by (induction p arbitrary: g) auto

lemma ok_bind:
  "ok astep A t p (\<lambda>a h. ok astep A t (f a) Q h) g \<Longrightarrow> ok astep A t (pbind p f) Q g"
  by (induction p arbitrary: g) auto

lemma ok_bind_mono:
  assumes "ok astep A t p P g"
    and "\<And>a h. P a h \<Longrightarrow> ok astep A t (f a) Q h"
  shows "ok astep A t (pbind p f) Q g"
  using ok_mono [OF assms(1), of "\<lambda>a h. ok astep A t (f a) Q h"] assms(2) by (intro ok_bind) blast

lemma ok_Ret: "(\<And>h. env astep A t g h \<Longrightarrow> Q a h) \<Longrightarrow> ok astep A t (Ret a) Q g"
  by simp

lemma ok_Act:
  assumes "\<And>h. env astep A t g h \<Longrightarrow> A (u h) \<Longrightarrow>
      (u h = h \<or> astep t h (u h)) \<and> ok astep A t (k h) Q (u h)"
  shows "ok astep A t (Act u k) Q g"
  using assms by simp

lemma ok_if:
  "(b \<Longrightarrow> ok astep A t p Q g) \<Longrightarrow> (\<not> b \<Longrightarrow> ok astep A t q Q g) \<Longrightarrow> ok astep A t (if b then p else q) Q g"
  by simp

lemma ok_assert: "b \<Longrightarrow> ok astep A t (k ()) Q g \<Longrightarrow> ok astep A t (pbind (assert b) k) Q g"
  by (simp add: assert_def)

lemma ok_rd:
  assumes "\<And>h. env astep A t g h \<Longrightarrow> ok astep A t (k (f h)) Q h"
  shows "ok astep A t (pbind (rd f) k) Q g"
  using assms by (simp add: rd_def)

lemma ok_rd_opt:
  assumes "\<And>h. env astep A t g h \<Longrightarrow> \<exists>v. f h = Some v \<and> ok astep A t (k v) Q h"
  shows "ok astep A t (pbind (rd_opt f) k) Q g"
  using assms by (fastforce simp: rd_opt_def)

lemma ok_wr:
  assumes "\<And>h. env astep A t g h \<Longrightarrow> A (u h) \<Longrightarrow>
      (u h = h \<or> astep t h (u h)) \<and> ok astep A t (k ()) Q (u h)"
  shows "ok astep A t (pbind (wr u) k) Q g"
  using assms by (simp add: wr_def)

lemma ok_cae:
  assumes "\<And>h. env astep A t g h \<Longrightarrow> f h = e \<Longrightarrow> A (put d h) \<Longrightarrow>
      (put d h = h \<or> astep t h (put d h)) \<and> ok astep A t (k (True, e)) Q (put d h)"
    and "\<And>h. env astep A t g h \<Longrightarrow> f h \<noteq> e \<Longrightarrow> ok astep A t (k (False, f h)) Q h"
  shows "ok astep A t (pbind (cae f put e d) k) Q g"
  using assms by (simp add: cae_def)

section \<open>Threads that are ok one by one are ok together\<close>

definition any_step :: "'g protocol \<Rightarrow> 'g \<Rightarrow> 'g \<Rightarrow> bool" where
  "any_step astep g g' \<longleftrightarrow> (\<exists>t. astep t g g')"

abbreviation any_steps :: "'g protocol \<Rightarrow> 'g \<Rightarrow> 'g \<Rightarrow> bool" where
  "any_steps astep \<equiv> (any_step astep)\<^sup>*\<^sup>*"

definition pool_sat :: "'g protocol \<Rightarrow> ('g \<Rightarrow> bool) \<Rightarrow> (nat \<Rightarrow> 'a \<Rightarrow> 'g \<Rightarrow> bool) \<Rightarrow> ('g, 'a) pool \<Rightarrow> bool" where
  "pool_sat astep A Q c \<longleftrightarrow> (\<forall>i < length (fst c). ok astep A i (fst c ! i) (Q i) (snd c))"

lemma pool_step_sat:
  assumes "pool_sat astep A Q c" "pool_step A c c'"
  shows "pool_sat astep A Q c' \<and> (any_step astep)\<^sup>=\<^sup>= (snd c) (snd c')"
  using assms(2)
proof (cases rule: pool_step.cases)
  case (pool_act i ps u k g)
  let ?h = "u g"
  have all: "\<forall>i < length ps. ok astep A i (ps ! i) (Q i) g"
    using assms(1) pool_act(1) by (simp add: pool_sat_def)
  then have "ok astep A i (ps ! i) (Q i) g" using pool_act(3) by blast
  then have "ok astep A i (Act u k) (Q i) g" by (simp only: pool_act(4))
  then have "A (u g) \<longrightarrow> (?h = g \<or> astep i g ?h) \<and> ok astep A i (k g) (Q i) ?h" by auto
  then have step: "?h = g \<or> astep i g ?h" and ki: "ok astep A i (k g) (Q i) ?h"
    using pool_act by blast+
  have "ok astep A j (ps[i := k g] ! j) (Q j) ?h" if "j < length ps" for j
  proof (cases "j = i")
    case True
    then show ?thesis using ki that by simp
  next
    case False
    have "ok astep A j (ps ! j) (Q j) g" using all that by blast
    moreover have "?h = g \<or> env1 astep A j g ?h"
      using step False pool_act(5) by (auto simp: env1_def)
    then have "env astep A j g ?h" by (metis r_into_rtranclp rtranclp.rtrancl_refl)
    ultimately show ?thesis using False by (auto intro: ok_env)
  qed
  then show ?thesis using pool_act step by (auto simp: pool_sat_def any_step_def)
qed

theorem pool_ok:
  assumes "pool_reaches A c c'" "pool_sat astep A Q c"
  shows "pool_sat astep A Q c' \<and> any_steps astep (snd c) (snd c')"
  using assms
proof (induction rule: rtranclp_induct)
  case base
  then show ?case by simp
next
  case (step c1 c2)
  then have sat: "pool_sat astep A Q c1" and st: "any_steps astep (snd c) (snd c1)" by auto
  from pool_step_sat [OF sat step.hyps(2)]
  show ?case using st by (auto intro: rtranclp.rtrancl_into_rtrancl)
qed

text \<open>For a thread number outside the pool, the pool is all environment.\<close>

lemma pool_env:
  assumes "pool_reaches A c c'" "pool_sat astep A Q c" "length (fst c) \<le> t"
  shows "env astep A t (snd c) (snd c')"
  using assms
proof (induction rule: rtranclp_induct)
  case (step c1 c2)
  have sat: "pool_sat astep A Q c1" using pool_ok [OF step.hyps(1) step.prems(1)] by simp
  have len: "length (fst c1) = length (fst c)"
    using step.hyps(1) by (induction rule: rtranclp_induct) (auto elim!: pool_step.cases)
  from step.hyps(2) have "snd c2 = snd c1 \<or> env1 astep A t (snd c1) (snd c2)"
  proof (cases rule: pool_step.cases)
    case (pool_act i ps u k g)
    have "ok astep A i (ps ! i) (Q i) g" using sat pool_act(1,3) by (simp add: pool_sat_def)
    then have "ok astep A i (Act u k) (Q i) g" by (simp only: pool_act(4))
    then have "u g = g \<or> astep i g (u g)" using pool_act(5) by auto
    moreover have "i \<noteq> t" using pool_act(1,3) len step.prems(2) by auto
    ultimately show ?thesis using pool_act(1,2,5) by (auto simp: env1_def)
  qed
  then show ?case using step by (auto intro: rtranclp.rtrancl_into_rtrancl)
qed simp

lemma pool_sat_no_fault: "pool_sat astep A Q c \<Longrightarrow> Fault \<notin> set (fst c)"
  by (auto simp: pool_sat_def in_set_conv_nth)

lemma pool_sat_result:
  "pool_sat astep A Q c \<Longrightarrow> i < length (fst c) \<Longrightarrow> fst c ! i = Ret a \<Longrightarrow> Q i a (snd c)"
  by (auto simp: pool_sat_def)

section \<open>Invariants of a protocol\<close>

text \<open>
  The contract between a data structure and its threads: an invariant that every step of the
  protocol keeps (while the counters have not run out).
\<close>

locale protocol =
  fixes astep :: "'g protocol" and A Inv :: "'g \<Rightarrow> bool"
  assumes inv_step: "Inv g \<Longrightarrow> astep t g g' \<Longrightarrow> A g' \<Longrightarrow> Inv g'"
begin

lemma env_inv: "env astep A t g g' \<Longrightarrow> Inv g \<Longrightarrow> Inv g'"
  by (induction rule: rtranclp_induct) (auto simp: env1_def intro: inv_step)

lemma env_A: "env astep A t g g' \<Longrightarrow> A g \<Longrightarrow> A g'"
  by (induction rule: rtranclp_induct) (auto simp: env1_def)

lemma pool_inv:
  assumes "pool_reaches A c c'" "pool_sat astep A Q c" "Inv (snd c)"
  shows "Inv (snd c') \<and> Fault \<notin> set (fst c') \<and>
    (\<forall>i a. i < length (fst c') \<longrightarrow> fst c' ! i = Ret a \<longrightarrow> Q i a (snd c'))"
proof -
  have sat: "pool_sat astep A Q c'" using pool_ok [OF assms(1,2)] by simp
  have "Inv (snd c') \<and> pool_sat astep A Q c'"
    using assms
  proof (induction rule: rtranclp_induct)
    case base
    then show ?case by simp
  next
    case (step c1 c2)
    then have I: "Inv (snd c1)" and S: "pool_sat astep A Q c1" by auto
    have "A (snd c2)" using step.hyps(2) by (cases rule: pool_step.cases) simp
    then show ?case using pool_step_sat [OF S step.hyps(2)] I by (auto simp: any_step_def intro: inv_step)
  qed
  then show ?thesis using pool_sat_no_fault [OF sat] pool_sat_result [OF sat] by blast
qed

end

section \<open>Calls one after the other\<close>

text \<open>
  \<open>exec_calls f cs (ls, g)\<close> runs a list of calls, each by some thread, one after the other to the
  end: \<open>f t c l\<close> is the program of call \<open>c\<close> by thread \<open>t\<close> with local variables \<open>l\<close>. The result has
  what the calls returned; \<open>None\<close> is a call that faults or does not return.
\<close>

fun exec_calls :: "(nat \<Rightarrow> 'c \<Rightarrow> 'l \<Rightarrow> ('g, 'r \<times> 'l) prog) \<Rightarrow> (nat \<times> 'c) list \<Rightarrow> 'l list \<times> 'g \<Rightarrow>
  ('r list \<times> 'l list \<times> 'g) option" where
  "exec_calls f [] (ls, g) = Some ([], ls, g)"
| "exec_calls f ((t, c) # cs) (ls, g) =
     (if t < length ls then
        (case run (f t c (ls ! t)) g of
           (Done (r, l), g') \<Rightarrow> map_option (\<lambda>(rs, s). (r # rs, s)) (exec_calls f cs (ls[t := l], g'))
         | _ \<Rightarrow> None)
      else None)"

lemma exec_calls_append:
  "exec_calls f (cs @ ds) s =
     (case exec_calls f cs s of None \<Rightarrow> None | Some (rs, s') \<Rightarrow> map_option (\<lambda>(rs', s''). (rs @ rs', s'')) (exec_calls f ds s'))"
proof (induction cs arbitrary: s)
  case Nil
  then show ?case by (cases s) (auto simp: option.map_id split: option.split)
next
  case (Cons c cs)
  obtain ls g where s: "s = (ls, g)" by (cases s)
  obtain t k where c: "c = (t, k)" by (cases c)
  show ?case unfolding s c by (auto simp: Cons.IH option.map_comp comp_def case_prod_unfold split: prod.splits outcome.splits option.splits)
qed

text \<open>
  \<open>spec_run sp cs s rs s'\<close>: an abstract component with the transition relation \<open>sp\<close> may answer
  the calls \<open>cs\<close> with \<open>rs\<close> and go from \<open>s\<close> to \<open>s'\<close>.
\<close>

fun spec_run :: "('c \<Rightarrow> 's \<Rightarrow> 'r \<Rightarrow> 's \<Rightarrow> bool) \<Rightarrow> 'c list \<Rightarrow> 's \<Rightarrow> 'r list \<Rightarrow> 's \<Rightarrow> bool" where
  "spec_run sp [] s [] s' = (s' = s)"
| "spec_run sp (c # cs) s (r # rs) s' = (\<exists>s1. sp c s r s1 \<and> spec_run sp cs s1 rs s')"
| "spec_run sp _ s _ s' = False"

text \<open>
  The contract of a component whose calls always return and refine an abstract component: an
  invariant with a budget, of which every call uses one unit (the 64-bit counters do not wrap while
  it lasts), and an abstraction function. The calls may be restricted to legal ones.
\<close>

locale guarded_calls =
  fixes f :: "nat \<Rightarrow> 'c \<Rightarrow> 'l \<Rightarrow> ('g, 'r \<times> 'l) prog" and I :: "nat \<Rightarrow> 'l list \<Rightarrow> 'g \<Rightarrow> bool"
    and abs :: "'g \<Rightarrow> 's" and sp :: "'c \<Rightarrow> 's \<Rightarrow> 'r \<Rightarrow> 's \<Rightarrow> bool" and legal :: "'c \<Rightarrow> bool"
  assumes guarded_step: "I (Suc n) ls g \<Longrightarrow> t < length ls \<Longrightarrow> legal c \<Longrightarrow>
    wp (f t c (ls ! t)) (\<lambda>(r, l) g'. I n (ls[t := l]) g' \<and> sp c (abs g) r (abs g')) g"
begin

lemma guarded_returns:
  assumes "I (length cs + n) ls g" "\<forall>(t, c) \<in> set cs. t < length ls \<and> legal c"
  shows "\<exists>rs ls' g'. exec_calls f cs (ls, g) = Some (rs, ls', g') \<and> I n ls' g' \<and>
    length ls' = length ls \<and> spec_run sp (map snd cs) (abs g) rs (abs g')"
  using assms
proof (induction cs arbitrary: ls g)
  case Nil
  then show ?case by simp
next
  case (Cons tc cs)
  obtain t c where tc: "tc = (t, c)" by (cases tc)
  have t: "t < length ls" "legal c" using Cons.prems(2) tc by simp_all
  have "wp (f t c (ls ! t)) (\<lambda>(r, l) g'. I (length cs + n) (ls[t := l]) g' \<and> sp c (abs g) r (abs g')) g"
    using Cons.prems(1) t by (intro guarded_step) simp_all
  then obtain r l g' where r: "run (f t c (ls ! t)) g = (Done (r, l), g')" "sp c (abs g) r (abs g')"
    and I: "I (length cs + n) (ls[t := l]) g'"
    by (auto simp: wp_run)
  show ?case using Cons.IH [OF I] Cons.prems(2) r t tc by auto
qed

end

text \<open>Most components take every call.\<close>

locale budgeted_calls =
  fixes f :: "nat \<Rightarrow> 'c \<Rightarrow> 'l \<Rightarrow> ('g, 'r \<times> 'l) prog" and I :: "nat \<Rightarrow> 'l list \<Rightarrow> 'g \<Rightarrow> bool"
    and abs :: "'g \<Rightarrow> 's" and sp :: "'c \<Rightarrow> 's \<Rightarrow> 'r \<Rightarrow> 's \<Rightarrow> bool"
  assumes call_step: "I (Suc n) ls g \<Longrightarrow> t < length ls \<Longrightarrow>
    wp (f t c (ls ! t)) (\<lambda>(r, l) g'. I n (ls[t := l]) g' \<and> sp c (abs g) r (abs g')) g"

sublocale budgeted_calls \<subseteq> unguarded: guarded_calls f I abs sp "\<lambda>_. True"
  by unfold_locales (rule call_step)

context budgeted_calls
begin

lemma exec_calls_returns:
  assumes "I (length cs + n) ls g" "\<forall>(t, c) \<in> set cs. t < length ls"
  shows "\<exists>rs ls' g'. exec_calls f cs (ls, g) = Some (rs, ls', g') \<and> I n ls' g' \<and>
    length ls' = length ls \<and> spec_run sp (map snd cs) (abs g) rs (abs g')"
  by (rule unguarded.guarded_returns [OF assms(1)]) (use assms(2) in simp)

end

section \<open>Threads that run lists of calls\<close>

fun client :: "(nat \<Rightarrow> 'c \<Rightarrow> 'l \<Rightarrow> ('g, 'r \<times> 'l) prog) \<Rightarrow> nat \<Rightarrow> 'c list \<Rightarrow> 'l \<Rightarrow> ('g, 'r list) prog" where
  "client f t [] l = Ret []"
| "client f t (c # cs) l =
     pbind (f t c l) (\<lambda>(r, l). pbind (client f t cs l) (\<lambda>rs. Ret (r # rs)))"

definition client_pool :: "(nat \<Rightarrow> 'c \<Rightarrow> 'l \<Rightarrow> ('g, 'r \<times> 'l) prog) \<Rightarrow> 'c list list \<Rightarrow> 'l list \<Rightarrow> ('g, 'r list) prog list" where
  "client_pool f css ls = map (\<lambda>t. client f t (css ! t) (ls ! t)) [0 ..< length css]"

text \<open>
  The contract of a component under concurrency. Between its calls thread \<open>t\<close> knows \<open>rest t s\<close> of
  the shared state, whatever the others do, where \<open>s\<close> is the history of the thread's own effects;
  a call moves \<open>s\<close> along \<open>tr\<close>.
\<close>

locale threads = protocol astep A Inv
  for astep :: "'g protocol" and A Inv :: "'g \<Rightarrow> bool" +
  fixes f :: "nat \<Rightarrow> 'c \<Rightarrow> 'l \<Rightarrow> ('g, 'r \<times> 'l) prog" and rest :: "nat \<Rightarrow> 's \<Rightarrow> 'g \<Rightarrow> bool"
    and fit :: "'l \<Rightarrow> bool" and tr :: "'c \<Rightarrow> 's \<Rightarrow> 'r \<Rightarrow> 's \<Rightarrow> bool"
  assumes rest_env: "rest t s g \<Longrightarrow> env1 astep A t g g' \<Longrightarrow> rest t s g'"
    and call_ok: "rest t s g \<Longrightarrow> fit l \<Longrightarrow>
      ok astep A t (f t c l) (\<lambda>(r, l') h. fit l' \<and> (\<exists>s'. tr c s r s' \<and> rest t s' h)) g"
begin

lemma rest_envs: "env astep A t g h \<Longrightarrow> rest t s g \<Longrightarrow> rest t s h"
  by (induction rule: rtranclp_induct) (auto intro: rest_env)

lemma client_ok:
  assumes "rest t s g" "fit l"
  shows "ok astep A t (client f t cs l) (\<lambda>rs h. \<exists>s'. spec_run tr cs s rs s' \<and> rest t s' h) g"
  using assms
proof (induction cs arbitrary: s l g)
  case Nil
  then show ?case using rest_envs by auto
next
  case (Cons c cs)
  have fin: "ok astep A t (Ret (r # rs)) (\<lambda>rs h. \<exists>s'. spec_run tr (c # cs) s rs s' \<and> rest t s' h) h"
    if "tr c s r s1" "\<exists>s'. spec_run tr cs s1 rs s' \<and> rest t s' h" for r rs s1 h
    using that rest_envs by (intro ok_Ret) (simp, blast)
  show ?case unfolding client.simps
  proof (rule ok_bind_mono [OF call_ok [OF Cons.prems]], clarify)
    fix r l' h s1
    assume st: "fit l'" "tr c s r s1" "rest t s1 h"
    show "ok astep A t (pbind (client f t cs l') (\<lambda>rs. Ret (r # rs)))
      (\<lambda>rs h. \<exists>s'. spec_run tr (c # cs) s rs s' \<and> rest t s' h) h"
      by (rule ok_bind_mono [OF Cons.IH [OF st(3,1)]], rule fin [OF st(2)])
  qed
qed

lemma pool_clients:
  assumes run: "pool_reaches A (client_pool f css ls, g0) (ps, g)"
    and "\<And>t. rest t s0 g0" "length ls = length css" "\<forall>l \<in> set ls. fit l" "Inv g0"
  shows "Fault \<notin> set ps \<and> Inv g"
    and "map prog_result ps = map Some rss \<Longrightarrow> t < length css \<Longrightarrow> \<exists>s. spec_run tr (css ! t) s0 (rss ! t) s \<and> rest t s g"
    and "length css \<le> t \<Longrightarrow> rest t s0 g"
proof -
  let ?Q = "\<lambda>t rs h. \<exists>s'. spec_run tr (css ! t) s0 rs s' \<and> rest t s' h"
  have sat: "pool_sat astep A ?Q (client_pool f css ls, g0)"
    using client_ok assms(2-4) by (simp add: pool_sat_def client_pool_def del: ok.simps)
  show "Fault \<notin> set ps \<and> Inv g" using pool_inv [OF run sat] assms(5) by simp
  have len: "length ps = length css"
    using run by (induction rule: rtranclp_induct2) (auto simp: client_pool_def elim!: pool_step.cases)
  show "\<exists>s. spec_run tr (css ! t) s0 (rss ! t) s \<and> rest t s g"
    if r: "map prog_result ps = map Some rss" and t: "t < length css"
  proof -
    have "length rss = length ps" using map_eq_imp_length_eq [OF r] by simp
    then have "prog_result (ps ! t) = Some (rss ! t)" using arg_cong [OF r, of "\<lambda>xs. xs ! t"] t len by simp
    then have "ps ! t = Ret (rss ! t)" by simp
    then show ?thesis using pool_sat_result [OF conjunct1 [OF pool_ok [OF run sat]], of t "rss ! t"] t len by simp
  qed
  show "rest t s0 g" if "length css \<le> t"
    using pool_env [OF run sat, of t] rest_envs assms(2) that by (simp add: client_pool_def)
qed

end

end
