(* ===== verification/Thread_Random.thy ===== *)
theory Thread_Random
  imports Programs
begin

text \<open>
  The per-thread pseudo random generator of \<^verbatim>\<open>include/random.h\<close> and the thread-local variables
  every benchmark thread has: its generator seeds and its statistics counters (the
  \<^verbatim>\<open>__thread unsigned long my_..._count\<close> variables of the data structure headers). Thread-local
  variables are a record that each operation takes and returns.
\<close>

unbundle bit_operations_syntax

type_synonym seeds = "64 word \<times> 64 word \<times> 64 word"

record tls =
  seeds :: seeds
  my_put_cas_fail_count :: u64
  my_get_cas_fail_count :: u64
  my_null_count :: u64
  my_hop_count :: u64
  my_slide_count :: u64
  my_slide_fail_count :: u64

fun xorshf96 :: "seeds \<Rightarrow> 64 word \<times> seeds" where
  "xorshf96 (x, y, z) =
     (let x = x XOR push_bit 16 x;
          x = x XOR drop_bit 5 x;
          x = x XOR push_bit 1 x;
          t = x;
          x = y;
          y = z;
          z = t XOR x XOR y
      in (z, (x, y, z)))"

text \<open>
  \<open>random_mod w l\<close> is \<^verbatim>\<open>my_random(&(seeds[0]), &(seeds[1]), &(seeds[2])) % w\<close>: a division by zero
  faults. The generator's state is thread local, so this is no action on shared memory.
\<close>

definition random_mod :: "nat \<Rightarrow> 'l tls_scheme \<Rightarrow> ('g, nat \<times> 'l tls_scheme) prog" where
  "random_mod w l =
     (let (z, s) = xorshf96 (seeds l)
      in if w = 0 then Fault else Ret (unat z mod w, l\<lparr>seeds := s\<rparr>))"

lemmas random_unfold [prog_unfold] = random_mod_def

text \<open>The three shifts of the generator only mix \<open>x\<close>: the step is injective, so no state is lost.\<close>

lemma xor_push_bit_inj:
  fixes a b :: "64 word"
  assumes "a XOR push_bit n a = b XOR push_bit n b" "0 < n"
  shows "a = b"
proof (rule bit_word_eqI)
  fix i
  assume i: "i < LENGTH(64)"
  have "bit a i = bit b i"
    using i
  proof (induction i rule: less_induct)
    case (less i)
    have eq: "bit (a XOR push_bit n a) i = bit (b XOR push_bit n b) i" using assms(1) by simp
    show ?case
    proof (cases "i < n")
      case True
      then show ?thesis using eq by (simp add: bit_xor_iff bit_push_bit_iff)
    next
      case False
      then have "bit a (i - n) = bit b (i - n)" using less assms(2) by simp
      then show ?thesis using eq False less.prems
        by (simp add: bit_xor_iff bit_push_bit_iff) blast
    qed
  qed
  then show "bit a i = bit b i" .
qed

lemma xor_drop_bit_inj:
  fixes a b :: "64 word"
  assumes "a XOR drop_bit n a = b XOR drop_bit n b" "0 < n"
  shows "a = b"
proof (rule bit_word_eqI)
  fix i
  assume "i < LENGTH(64)"
  have "bit a i = bit b i" for i
  proof (induction "64 - i" arbitrary: i rule: less_induct)
    case less
    have eq: "bit (a XOR drop_bit n a) i = bit (b XOR drop_bit n b) i" using assms(1) by simp
    show ?case
    proof (cases "64 \<le> i + n")
      case True
      then have "\<not> bit a (i + n)" "\<not> bit b (i + n)"
        using bit_imp_le_length [of a "i + n"] bit_imp_le_length [of b "i + n"] by auto
      then show ?thesis using eq by (simp add: bit_xor_iff bit_drop_bit_eq ac_simps)
    next
      case False
      then have "bit a (i + n) = bit b (i + n)" using less [of "i + n"] assms(2) by simp
      then show ?thesis using eq by (simp add: bit_xor_iff bit_drop_bit_eq ac_simps) blast
    qed
  qed
  then show "bit a i = bit b i" .
qed

lemma xor_left_inj:
  fixes a b c :: "64 word"
  assumes "a XOR c = b XOR c"
  shows "a = b"
proof (rule bit_word_eqI)
  fix i
  have "bit (a XOR c) i = bit (b XOR c) i" using assms by simp
  then show "bit a i = bit b i" by (simp add: bit_xor_iff) blast
qed

lemma xorshf96_inj: "inj (\<lambda>s. snd (xorshf96 s))"
proof (rule injI)
  fix s s'
  assume eq: "snd (xorshf96 s) = snd (xorshf96 s')"
  obtain x y z x' y' z' where s: "s = (x, y, z)" "s' = (x', y', z')" by (cases s, cases s') auto
  let ?f = "\<lambda>x :: 64 word. x XOR push_bit 16 x"
  let ?g = "\<lambda>x :: 64 word. x XOR drop_bit 5 x"
  let ?h = "\<lambda>x :: 64 word. x XOR push_bit 1 x"
  from eq s have "(y, z, ?h (?g (?f x)) XOR y XOR z) = (y', z', ?h (?g (?f x')) XOR y' XOR z')"
    by (simp only: xorshf96.simps Let_def snd_conv)
  then have yz: "y = y'" "z = z'" and "?h (?g (?f x)) XOR y XOR z = ?h (?g (?f x')) XOR y' XOR z'"
    by (metis prod.inject)+
  then have "?h (?g (?f x)) XOR (y XOR z) = ?h (?g (?f x')) XOR (y XOR z)"
    by (simp only: xor.assoc)
  then have "?h (?g (?f x)) = ?h (?g (?f x'))" by (rule xor_left_inj)
  then have "?g (?f x) = ?g (?f x')" by (rule xor_push_bit_inj) simp
  then have "?f x = ?f x'" by (rule xor_drop_bit_inj) simp
  then have "x = x'" by (rule xor_push_bit_inj) simp
  with yz s show "s = s'" by simp
qed

lemma wp_random_mod:
  "0 < w \<Longrightarrow> (\<And>i s. i < w \<Longrightarrow> Q (i, l\<lparr>seeds := s\<rparr>) g) \<Longrightarrow> wp (random_mod w l) Q g"
  by (simp add: random_mod_def Let_def split: prod.split)

lemma ok_random_mod:
  assumes "0 < w" "\<And>i s. i < w \<Longrightarrow> ok astep A t (k (i, l\<lparr>seeds := s\<rparr>)) Q g"
  shows "ok astep A t (pbind (random_mod w l) k) Q g"
  using assms by (simp add: random_mod_def Let_def split: prod.split)

section \<open>Hops\<close>

text \<open>
  Every window search looks for a sub-structure with a function \<^verbatim>\<open>hop\<close>, of which the repository has several that differ in their integers. The contract: while fewer than
  \<open>random_tries\<close> hops were random, the next index is random, and after that it is the one that follows, at most as often as there are indices. \<open>wide w g\<close> says
  that the width \<open>w\<close> fits the integers.
\<close>

locale hopping =
  fixes hop :: "'l tls_scheme \<Rightarrow> nat \<Rightarrow> nat \<Rightarrow> nat \<Rightarrow> nat \<Rightarrow> ('g, nat \<times> nat \<times> nat \<times> 'l tls_scheme) prog"
    and random_tries :: nat and wide :: "nat \<Rightarrow> 'g \<Rightarrow> bool"
  assumes hop_random: "wide w g \<Longrightarrow> index < w \<Longrightarrow> random < random_tries \<Longrightarrow>
      (\<And>i s. i < w \<Longrightarrow> Q (i, random + 1, hops, l\<lparr>my_hop_count := add64 (my_hop_count l) 1, seeds := s\<rparr>) g) \<Longrightarrow>
      wp (hop l index random hops w) Q g"
    and hop_next: "wide w g \<Longrightarrow> index < w \<Longrightarrow> hops < w \<Longrightarrow>
      Q (next_index w index, random_tries, hops + 1, l\<lparr>my_hop_count := add64 (my_hop_count l) 1\<rparr>) g \<Longrightarrow>
      wp (hop l index random_tries hops w) Q g"
begin

text \<open>One more hop of a search that has found \<open>P\<close> at the current index and at all others it has walked over: it keeps what the search knows, and there are fewer hops left.\<close>

lemma hop_search:
  assumes "wide w g" "index < w" "hops < w" "random \<le> random_tries" "random < random_tries \<longrightarrow> hops = 0" "seen w index hops P" "P index"
    and found: "\<And>i r h c s. i < w \<Longrightarrow> h \<le> w \<Longrightarrow> r \<le> random_tries \<Longrightarrow> (r < random_tries \<longrightarrow> h = 0) \<Longrightarrow> seen w i h P \<Longrightarrow>
      random_tries - r + (w - h) < random_tries - random + (w - hops) \<Longrightarrow> Q (i, r, h, l\<lparr>my_hop_count := c, seeds := s\<rparr>) g"
  shows "wp (hop l index random hops w) Q g"
proof (cases "random < random_tries")
  case True
  then show ?thesis using assms(1,2,5) by (intro hop_random found) auto
next
  case False
  then have r: "random = random_tries" using assms(4) by simp
  have "0 < w" using assms(2) by simp
  then have "Q (next_index w index, random_tries, hops + 1, l\<lparr>my_hop_count := add64 (my_hop_count l) 1, seeds := seeds l\<rparr>) g"
    using assms(3) r seen_next [OF assms(6,7,2,3)] by (intro found) (auto simp: next_index_less)
  then show ?thesis using hop_next [OF assms(1-3)] r by simp
qed

end

end
