(* ===== verification/Window2Dc.thy ===== *)
theory Window2Dc
  imports Thread_Random
begin

text \<open>
  The coupled window of \<^verbatim>\<open>include/2Dc-window.c\<close>, included by the 2Dc stack and the 2Dc counter:
  one window \<^verbatim>\<open>global_Window\<close> with an upper bound and a version, over the array of sub-structures
  of the data structure.

  The C file is a template: it uses \<^verbatim>\<open>DS_TYPE\<close> and \<^verbatim>\<open>descriptor_t\<close> of the file that includes it.
  The model is parametric in the same way: in the descriptor type, in its \<^verbatim>\<open>count\<close> field
  (\<open>cnt\<close>) and in how the struct is loaded from the array (\<open>load\<close>; a struct of two words
  is not loaded atomically). The constant fields of \<^verbatim>\<open>*set\<close> are the record \<open>ds2Dc\<close>,
  the shared memory the window code touches is \<open>sh2Dc\<close> (extended by each data structure), and
  the thread-local variables are \<open>tl2Dc\<close>.

  In \<^verbatim>\<open>get_window\<close> the source declares \<^verbatim>\<open>hops\<close> and \<^verbatim>\<open>random\<close> as \<^verbatim>\<open>uint16_t\<close> and passes their
  addresses to \<^verbatim>\<open>hop\<close>, which takes \<^verbatim>\<open>uint64_t*\<close>; the C standard gives that no meaning. The model
  gives both counters the 64 bits that \<^verbatim>\<open>hop\<close> reads and writes.
\<close>

section \<open>State\<close>

record window2Dc =
  win_max :: u64
  win_version :: u64

record ds2Dc =
  random_hops :: u64
  width :: u64
  depth :: u64
  shift :: u64
  relaxation_bound :: u64
  k_mode :: nat

record 'd sh2Dc =
  global_Window :: window2Dc
  set_array :: "'d list"

record tl2Dc = tls +
  thread_Window :: window2Dc
  thread_index :: u64

section \<open>Operations\<close>

definition random_index_2Dc :: "u64 \<Rightarrow> 'l tls_scheme \<Rightarrow> ('g, u64 \<times> 'l tls_scheme) prog" where
  "random_index_2Dc w l = random_mod (w mod 65536) l"

definition hop_2Dc ::
  "ds2Dc \<Rightarrow> 'l tl2Dc_scheme \<Rightarrow> u64 \<Rightarrow> u64 \<Rightarrow> u64 \<Rightarrow> ('g, u64 \<times> u64 \<times> u64 \<times> 'l tl2Dc_scheme) prog" where
  "hop_2Dc cfg l index random hops =
     (let l = l\<lparr>my_hop_count := add64 (my_hop_count l) 1\<rparr>
      in if random < random_hops cfg
         then pbind (random_index_2Dc (width cfg) l) (\<lambda>(index, l). Ret (index, add64 random 1, hops, l))
         else let index = add64 index 1
              in Ret (if index \<ge> width cfg then 0 else index, random, add64 hops 1, l))"

definition read_window :: "(('d, 'z) sh2Dc_scheme, window2Dc) prog" where
  "read_window = rd global_Window"

definition cae_window ::
  "window2Dc \<Rightarrow> window2Dc \<Rightarrow> (('d, 'z) sh2Dc_scheme, bool \<times> window2Dc) prog" where
  "cae_window = cae global_Window (\<lambda>w g. g\<lparr>global_Window := w\<rparr>)"

text \<open>The common first lines of \<^verbatim>\<open>put_window\<close> and \<^verbatim>\<open>get_window\<close>.\<close>

definition enter_window_2Dc ::
  "ds2Dc \<Rightarrow> 'l tl2Dc_scheme \<Rightarrow> bool \<Rightarrow> (('d, 'z) sh2Dc_scheme, 'l tl2Dc_scheme) prog" where
  "enter_window_2Dc cfg l contention =
     pbind (rd (\<lambda>g. win_version (global_Window g))) (\<lambda>gv.
     pbind (if win_version (thread_Window l) \<noteq> gv
            then pbind read_window (\<lambda>w. Ret (l\<lparr>thread_Window := w\<rparr>)) else Ret l) (\<lambda>l.
     if contention
     then pbind (random_index_2Dc (width cfg) l) (\<lambda>(i, l). Ret (l\<lparr>thread_index := i\<rparr>))
     else Ret l))"

fun put_window_loop ::
  "nat \<Rightarrow> ds2Dc \<Rightarrow> (u64 \<Rightarrow> (('d, 'z) sh2Dc_scheme, 'd) prog) \<Rightarrow> ('d \<Rightarrow> u64) \<Rightarrow>
   'l tl2Dc_scheme \<Rightarrow> u64 \<Rightarrow> u64 \<Rightarrow> (('d, 'z) sh2Dc_scheme, 'd \<times> 'l tl2Dc_scheme) prog" where
  "put_window_loop 0 cfg load cnt l hops random = NoFuel"
| "put_window_loop (Suc n) cfg load cnt l hops random =
     pbind (load (thread_index l)) (\<lambda>descriptor.
     pbind (rd (\<lambda>g. win_version (global_Window g))) (\<lambda>gv.
     if gv \<noteq> win_version (thread_Window l) then
       pbind read_window (\<lambda>w. put_window_loop n cfg load cnt (l\<lparr>thread_Window := w\<rparr>) 0 random)
     else if cnt descriptor < win_max (thread_Window l) then
       Ret (descriptor, l)
     else if hops \<noteq> width cfg then
       pbind (hop_2Dc cfg l (thread_index l) random hops) (\<lambda>(index, random, hops, l).
         put_window_loop n cfg load cnt (l\<lparr>thread_index := index\<rparr>) hops random)
     else
       let new_window = \<lparr>win_max = add64 (win_max (thread_Window l)) (shift cfg),
                         win_version = add64 (win_version (thread_Window l)) 1\<rparr>
       in pbind (rd (\<lambda>g. win_version (global_Window g))) (\<lambda>gv.
          if win_version (thread_Window l) = gv then
            pbind (cae_window (thread_Window l) new_window) (\<lambda>(success, found).
            if success then
              put_window_loop n cfg load cnt
                (l\<lparr>thread_Window := new_window, my_slide_count := add64 (my_slide_count l) 1\<rparr>) 0 random
            else
              pbind read_window (\<lambda>w.
              put_window_loop n cfg load cnt
                (l\<lparr>thread_Window := w, my_slide_fail_count := add64 (my_slide_fail_count l) 1\<rparr>) 0 random))
          else put_window_loop n cfg load cnt l 0 random)))"

definition put_window_2Dc ::
  "nat \<Rightarrow> ds2Dc \<Rightarrow> (u64 \<Rightarrow> (('d, 'z) sh2Dc_scheme, 'd) prog) \<Rightarrow> ('d \<Rightarrow> u64) \<Rightarrow>
   'l tl2Dc_scheme \<Rightarrow> bool \<Rightarrow> (('d, 'z) sh2Dc_scheme, 'd \<times> 'l tl2Dc_scheme) prog" where
  "put_window_2Dc fuel cfg load cnt l contention =
     pbind (enter_window_2Dc cfg l contention) (\<lambda>l. put_window_loop fuel cfg load cnt l 0 0)"

fun get_window_loop ::
  "nat \<Rightarrow> ds2Dc \<Rightarrow> (u64 \<Rightarrow> (('d, 'z) sh2Dc_scheme, 'd) prog) \<Rightarrow> ('d \<Rightarrow> u64) \<Rightarrow>
   'l tl2Dc_scheme \<Rightarrow> u64 \<Rightarrow> u64 \<Rightarrow> bool \<Rightarrow> (('d, 'z) sh2Dc_scheme, 'd \<times> 'l tl2Dc_scheme) prog" where
  "get_window_loop 0 cfg load cnt l hops random emp = NoFuel"
| "get_window_loop (Suc n) cfg load cnt l hops random emp =
     pbind (load (thread_index l)) (\<lambda>descriptor.
     pbind (rd (\<lambda>g. win_version (global_Window g))) (\<lambda>gv.
     if gv \<noteq> win_version (thread_Window l) then
       pbind read_window (\<lambda>w. get_window_loop n cfg load cnt (l\<lparr>thread_Window := w\<rparr>) 0 random True)
     else if add64 (cnt descriptor) (depth cfg) > win_max (thread_Window l) then
       Ret (descriptor, l)
     else if hops \<noteq> width cfg then
       (let emp = (if cnt descriptor > 0 then False else emp)
        in pbind (hop_2Dc cfg l (thread_index l) random hops) (\<lambda>(index, random, hops, l).
           get_window_loop n cfg load cnt (l\<lparr>thread_index := index\<rparr>) hops random emp))
     else if emp then
       Ret (descriptor, l)
     else
       let new_window = \<lparr>win_max = sub64 (win_max (thread_Window l)) (shift cfg),
                         win_version = add64 (win_version (thread_Window l)) 1\<rparr>
       in pbind (rd (\<lambda>g. win_version (global_Window g))) (\<lambda>gv.
          if win_version (thread_Window l) = gv \<and> win_max new_window \<ge> depth cfg then
            pbind (cae_window (thread_Window l) new_window) (\<lambda>(success, found).
            if success then
              get_window_loop n cfg load cnt
                (l\<lparr>thread_Window := new_window, my_slide_count := add64 (my_slide_count l) 1\<rparr>) 0 random True
            else
              pbind read_window (\<lambda>w.
              get_window_loop n cfg load cnt
                (l\<lparr>thread_Window := w, my_slide_fail_count := add64 (my_slide_fail_count l) 1\<rparr>) 0 random True))
          else get_window_loop n cfg load cnt l 0 random True)))"

definition get_window_2Dc ::
  "nat \<Rightarrow> ds2Dc \<Rightarrow> (u64 \<Rightarrow> (('d, 'z) sh2Dc_scheme, 'd) prog) \<Rightarrow> ('d \<Rightarrow> u64) \<Rightarrow>
   'l tl2Dc_scheme \<Rightarrow> bool \<Rightarrow> (('d, 'z) sh2Dc_scheme, 'd \<times> 'l tl2Dc_scheme) prog" where
  "get_window_2Dc fuel cfg load cnt l contention =
     pbind (enter_window_2Dc cfg l contention) (\<lambda>l. get_window_loop fuel cfg load cnt l 0 0 True)"

definition initialize_global_window_2Dc :: "u64 \<Rightarrow> window2Dc" where
  "initialize_global_window_2Dc d = \<lparr>win_max = d mod 65536, win_version = 1\<rparr>"

lemmas window2Dc_unfold [prog_unfold] =
  random_index_2Dc_def hop_2Dc_def read_window_def cae_window_def enter_window_2Dc_def put_window_2Dc_def
  get_window_2Dc_def initialize_global_window_2Dc_def
  put_window_loop.simps(2) [of "pred_numeral k" for k, folded numeral_eq_Suc]
  get_window_loop.simps(2) [of "pred_numeral k" for k, folded numeral_eq_Suc]

section \<open>Running alone\<close>

text \<open>
  What the window guarantees between operations that do not overlap: every sub-structure's count
  lies in the window, and the window's upper bound is its depth plus a multiple of the shift.
\<close>

definition ds2Dc_ok :: "ds2Dc \<Rightarrow> bool" where
  "ds2Dc_ok cfg \<longleftrightarrow> 0 < width cfg \<and> width cfg < 65536 \<and> 1 \<le> shift cfg \<and> shift cfg \<le> depth cfg \<and>
     random_hops cfg < W64"

definition win_inv2Dc :: "ds2Dc \<Rightarrow> ('d \<Rightarrow> u64) \<Rightarrow> ('d, 'z) sh2Dc_scheme \<Rightarrow> bool" where
  "win_inv2Dc cfg cnt g \<longleftrightarrow>
     length (set_array g) = width cfg \<and>
     depth cfg \<le> win_max (global_Window g) \<and>
     shift cfg dvd (win_max (global_Window g) - depth cfg) \<and>
     (\<forall>i < width cfg. cnt (set_array g ! i) \<le> win_max (global_Window g) \<and>
        win_max (global_Window g) \<le> cnt (set_array g ! i) + depth cfg)"

text \<open>Room left in the 64-bit counters for one more window shift.\<close>

definition room2Dc :: "ds2Dc \<Rightarrow> ('d, 'z) sh2Dc_scheme \<Rightarrow> bool" where
  "room2Dc cfg g \<longleftrightarrow> win_max (global_Window g) + depth cfg + shift cfg < W64 \<and>
     win_version (global_Window g) + 1 < W64"

definition shifted_up :: "ds2Dc \<Rightarrow> window2Dc \<Rightarrow> window2Dc" where
  "shifted_up cfg w = \<lparr>win_max = win_max w + shift cfg, win_version = win_version w + 1\<rparr>"

definition shifted_down :: "ds2Dc \<Rightarrow> window2Dc \<Rightarrow> window2Dc" where
  "shifted_down cfg w = \<lparr>win_max = win_max w - shift cfg, win_version = win_version w + 1\<rparr>"

text \<open>The fuel that is enough for one call by a thread that runs alone.\<close>

definition fuel2Dc :: "ds2Dc \<Rightarrow> nat" where
  "fuel2Dc cfg = random_hops cfg + width cfg + 2"

text \<open>A thread's window is current, or carries another version than the global one.\<close>

definition synced :: "'l tl2Dc_scheme \<Rightarrow> ('d, 'z) sh2Dc_scheme \<Rightarrow> bool" where
  "synced l g \<longleftrightarrow> (win_version (thread_Window l) = win_version (global_Window g) \<longrightarrow>
     thread_Window l = global_Window g)"

text \<open>
  What a call returns to a thread that runs alone: the index of a sub-structure whose count lies
  inside the window. \<open>put_window\<close> has shifted the window up if every sub-structure was full,
  \<open>get_window\<close> has shifted it down if every sub-structure was at the bottom of the window, and it
  returns a descriptor outside the window only if every sub-structure is empty.
\<close>

definition put_post :: "ds2Dc \<Rightarrow> ('d \<Rightarrow> u64) \<Rightarrow> ('d, 'z) sh2Dc_scheme \<Rightarrow> 'd \<times> 'l tl2Dc_scheme \<Rightarrow> ('d, 'z) sh2Dc_scheme \<Rightarrow> bool" where
  "put_post cfg cnt g = (\<lambda>(d, l') g'.
     thread_index l' < width cfg \<and> d = set_array g ! thread_index l' \<and>
     thread_Window l' = global_Window g' \<and> cnt d < win_max (global_Window g') \<and>
     (g' = g \<or>
      g' = g\<lparr>global_Window := shifted_up cfg (global_Window g)\<rparr> \<and>
      (\<forall>j < width cfg. cnt (set_array g ! j) = win_max (global_Window g))))"

definition get_post :: "ds2Dc \<Rightarrow> ('d \<Rightarrow> u64) \<Rightarrow> ('d, 'z) sh2Dc_scheme \<Rightarrow> 'd \<times> 'l tl2Dc_scheme \<Rightarrow> ('d, 'z) sh2Dc_scheme \<Rightarrow> bool" where
  "get_post cfg cnt g = (\<lambda>(d, l') g'.
     thread_index l' < width cfg \<and> d = set_array g ! thread_index l' \<and>
     thread_Window l' = global_Window g' \<and>
     (win_max (global_Window g') < cnt d + depth cfg \<and>
       (g' = g \<or>
        g' = g\<lparr>global_Window := shifted_down cfg (global_Window g)\<rparr> \<and>
        depth cfg + shift cfg \<le> win_max (global_Window g) \<and>
        (\<forall>j < width cfg. cnt (set_array g ! j) + depth cfg = win_max (global_Window g))) \<or>
      g' = g \<and> (\<forall>j < width cfg. cnt (set_array g ! j) = 0)))"

text \<open>The window invariant after a shift and after a change of one count inside the window.\<close>

lemma win_inv2Dc_shifted_up:
  assumes "win_inv2Dc cfg cnt g" "ds2Dc_ok cfg" "\<forall>j < width cfg. cnt (set_array g ! j) = win_max (global_Window g)"
  shows "win_inv2Dc cfg cnt (g\<lparr>global_Window := shifted_up cfg (global_Window g)\<rparr>)"
proof -
  have "win_max (global_Window g) + shift cfg - depth cfg = (win_max (global_Window g) - depth cfg) + shift cfg"
    using assms(1) by (simp add: win_inv2Dc_def)
  moreover have "shift cfg dvd (win_max (global_Window g) - depth cfg) + shift cfg"
    using assms(1) unfolding win_inv2Dc_def by (intro dvd_add) (blast, simp)
  ultimately have "shift cfg dvd win_max (global_Window g) + shift cfg - depth cfg" by (simp only:)
  then show ?thesis using assms by (auto simp: win_inv2Dc_def shifted_up_def ds2Dc_ok_def)
qed

lemma win_inv2Dc_shifted_down:
  assumes "win_inv2Dc cfg cnt g" "ds2Dc_ok cfg" "depth cfg + shift cfg \<le> win_max (global_Window g)"
    and "\<forall>j < width cfg. cnt (set_array g ! j) + depth cfg = win_max (global_Window g)"
  shows "win_inv2Dc cfg cnt (g\<lparr>global_Window := shifted_down cfg (global_Window g)\<rparr>)"
proof -
  have "win_max (global_Window g) - shift cfg - depth cfg = (win_max (global_Window g) - depth cfg) - shift cfg"
    by simp
  moreover have "shift cfg dvd (win_max (global_Window g) - depth cfg) - shift cfg"
    by (rule dvd_diff_nat) (use assms(1) in \<open>simp_all add: win_inv2Dc_def\<close>)
  moreover have "cnt (set_array g ! j) \<le> win_max (global_Window g) - shift cfg" if "j < width cfg" for j
    using assms that by (auto simp: ds2Dc_ok_def)
  ultimately show ?thesis using assms by (auto simp: win_inv2Dc_def shifted_down_def ds2Dc_ok_def)
qed

lemma win_inv2Dc_update:
  assumes "win_inv2Dc cfg cnt g" "cnt d \<le> win_max (global_Window g)" "win_max (global_Window g) \<le> cnt d + depth cfg"
  shows "win_inv2Dc cfg cnt (g\<lparr>set_array := (set_array g)[i := d]\<rparr>)"
  using assms by (cases "i < width cfg") (auto simp: win_inv2Dc_def nth_list_update list_update_beyond)

lemma put_post_inv:
  assumes "win_inv2Dc cfg cnt g" "ds2Dc_ok cfg" "put_post cfg cnt g (d, l) g'" "cnt d' = cnt d + 1"
  shows "win_inv2Dc cfg cnt (g'\<lparr>set_array := (set_array g')[thread_index l := d']\<rparr>)"
proof (rule win_inv2Dc_update)
  show inv: "win_inv2Dc cfg cnt g'"
    using assms win_inv2Dc_shifted_up by (auto simp: put_post_def)
  have "d = set_array g' ! thread_index l" "thread_index l < width cfg" "cnt d < win_max (global_Window g')"
    using assms(3) by (auto simp: put_post_def)
  then show "cnt d' \<le> win_max (global_Window g')" "win_max (global_Window g') \<le> cnt d' + depth cfg"
    using inv assms(4) by (auto simp: win_inv2Dc_def)
qed

lemma get_post_inv:
  assumes "win_inv2Dc cfg cnt g" "ds2Dc_ok cfg" "get_post cfg cnt g (d, l) g'" "cnt d' + 1 = cnt d"
  shows "win_inv2Dc cfg cnt (g'\<lparr>set_array := (set_array g')[thread_index l := d']\<rparr>)"
proof (rule win_inv2Dc_update)
  show inv: "win_inv2Dc cfg cnt g'"
    using assms win_inv2Dc_shifted_down by (auto simp: get_post_def)
  have d: "d = set_array g' ! thread_index l" "thread_index l < width cfg"
    and "win_max (global_Window g') < cnt d + depth cfg"
    using assms(3,4) by (auto simp: get_post_def)
  then show "cnt d' \<le> win_max (global_Window g')" "win_max (global_Window g') \<le> cnt d' + depth cfg"
    using inv assms(4) by (auto simp: win_inv2Dc_def)
qed

lemma put_postD:
  assumes "put_post cfg cnt g (d, l) g'"
  shows "thread_index l < width cfg" "d = set_array g' ! thread_index l" "set_array g' = set_array g"
    "thread_Window l = global_Window g'" "cnt d < win_max (global_Window g')"
    "g' = g \<or> g' = g\<lparr>global_Window := shifted_up cfg (global_Window g)\<rparr>"
  using assms by (auto simp: put_post_def)

lemma get_postD:
  assumes "get_post cfg cnt g (d, l) g'"
  shows "thread_index l < width cfg" "d = set_array g' ! thread_index l" "set_array g' = set_array g"
    "thread_Window l = global_Window g'"
    "g' = g \<or> g' = g\<lparr>global_Window := shifted_down cfg (global_Window g)\<rparr>"
    "win_max (global_Window g') < cnt d + depth cfg \<or> (\<forall>j < width cfg. cnt (set_array g ! j) = 0)"
  using assms by (auto simp: get_post_def)

lemma get_post_depth:
  assumes "win_inv2Dc cfg cnt g" "get_post cfg cnt g (d, l) g'"
  shows "depth cfg \<le> win_max (global_Window g')"
proof -
  have "depth cfg \<le> win_max (global_Window g)" using assms(1) by (simp add: win_inv2Dc_def)
  then show ?thesis using assms(2) by (auto simp: get_post_def shifted_down_def)
qed

interpretation hop2Dc: hopping "\<lambda>l i r h w. hop_2Dc cfg l i r h" "random_hops cfg" "\<lambda>w _. ds2Dc_ok cfg \<and> w = width cfg" for cfg
proof (unfold_locales, goal_cases)
  case 1
  then show ?case by (auto simp: hop_2Dc_def random_index_2Dc_def ds2Dc_ok_def add64_eq intro!: wp_random_mod)
next
  case 2
  then show ?case by (auto simp: hop_2Dc_def ds2Dc_ok_def add64_eq W64_def Let_def next_index_def split: if_splits)
qed

text \<open>The contract of the data structure: alone, loading the descriptor at an index returns it.\<close>

locale loads2Dc =
  fixes load :: "u64 \<Rightarrow> (('d, 'z) sh2Dc_scheme, 'd) prog" and cnt :: "'d \<Rightarrow> u64"
  assumes wp_load: "i < length (set_array g) \<Longrightarrow> wp (load i) Q g = Q (set_array g ! i) g"
begin

lemma put_loop_hit:
  assumes "thread_Window l = global_Window g" "thread_index l < length (set_array g)"
    and "cnt (set_array g ! thread_index l) < win_max (global_Window g)"
  shows "wp (put_window_loop (Suc n) cfg load cnt l hops random) Q g =
    Q (set_array g ! thread_index l, l) g"
  using assms by (simp add: wp_load)

lemma put_loop_seq:
  assumes dsok: "ds2Dc_ok cfg" and inv: "win_inv2Dc cfg cnt g" and room: "room2Dc cfg g"
    and "thread_Window l = global_Window g" "thread_index l < width cfg" "hops \<le> width cfg"
    and "random \<le> random_hops cfg" "random < random_hops cfg \<longrightarrow> hops = 0"
    and "seen (width cfg) (thread_index l) hops (\<lambda>j. win_max (global_Window g) \<le> cnt (set_array g ! j))"
    and "(random_hops cfg - random) + (width cfg - hops) + 2 \<le> n"
  shows "wp (put_window_loop n cfg load cnt l hops random) (put_post cfg cnt g) g"
  using assms(4-)
proof (induction n arbitrary: l hops random)
  case 0
  then show ?case by simp
next
  case (Suc n)
  let ?i = "thread_index l" and ?m = "win_max (global_Window g)"
  have len: "length (set_array g) = width cfg" using inv by (simp add: win_inv2Dc_def)
  show ?case
  proof (cases "cnt (set_array g ! ?i) < ?m")
    case True
    then show ?thesis using Suc.prems len
      by (subst put_loop_hit) (auto simp: put_post_def)
  next
    case full: False
    show ?thesis
    proof (cases "hops = width cfg")
      case False
      then have hops: "hops < width cfg" using Suc.prems by simp
      have "wp (hop_2Dc cfg l ?i random hops)
        (\<lambda>(index, random, hops, l). wp (put_window_loop n cfg load cnt (l\<lparr>thread_index := index\<rparr>) hops random)
           (put_post cfg cnt g)) g"
        by (rule hop2Dc.hop_search [OF _ Suc.prems(2) hops Suc.prems(4-6)]) (use Suc.prems full dsok in \<open>auto intro!: Suc.IH\<close>)
      then show ?thesis using Suc.prems full False len by (simp add: wp_load case_prod_unfold)
    next
      case True
      have all: "\<forall>j < width cfg. ?m \<le> cnt (set_array g ! j)"
        using Suc.prems True by (intro seen_all) auto
      then have eq: "\<forall>j < width cfg. cnt (set_array g ! j) = ?m"
        using inv by (auto simp: win_inv2Dc_def intro: antisym)
      let ?new = "shifted_up cfg (global_Window g)"
      have new: "\<lparr>win_max = add64 ?m (shift cfg), win_version = add64 (win_version (global_Window g)) 1\<rparr> = ?new"
        using room by (simp add: shifted_up_def add64_eq room2Dc_def)
      obtain n' where n': "n = Suc n'" using Suc.prems by (cases n) auto
      let ?g = "g\<lparr>global_Window := ?new\<rparr>"
      let ?l = "l\<lparr>thread_Window := ?new, my_slide_count := add64 (my_slide_count l) 1\<rparr>"
      have "wp (put_window_loop n cfg load cnt ?l 0 random) (put_post cfg cnt g) ?g"
        unfolding n' using Suc.prems len eq dsok
        by (subst put_loop_hit) (auto simp: put_post_def shifted_up_def ds2Dc_ok_def)
      then show ?thesis using Suc.prems full True len
        by (simp add: wp_load Let_def new cae_window_def)
    qed
  qed
qed

lemma wp_enter_window:
  assumes "ds2Dc_ok cfg" "synced l g" "thread_index l < width cfg"
    and Q: "\<And>i s. i < width cfg \<Longrightarrow> Q (l\<lparr>thread_Window := global_Window g, seeds := s, thread_index := i\<rparr>) g"
  shows "wp (enter_window_2Dc cfg l contention) Q g"
proof -
  have w: "width cfg mod 65536 = width cfg" "0 < width cfg" using assms(1) by (auto simp: ds2Dc_ok_def)
  have "win_version (thread_Window l) = win_version (global_Window g) \<Longrightarrow> l\<lparr>thread_Window := global_Window g\<rparr> = l"
    using assms(2) by (simp add: synced_def)
  moreover have "Q (l\<lparr>thread_Window := global_Window g\<rparr>) g" using Q [OF assms(3), of "seeds l"] by simp
  moreover have "wp (random_index_2Dc (width cfg) (l\<lparr>thread_Window := global_Window g\<rparr>))
    (\<lambda>(i, l). Q (l\<lparr>thread_index := i\<rparr>)) g"
    using w Q by (auto simp: random_index_2Dc_def intro!: wp_random_mod)
  ultimately show ?thesis
    by (auto simp: enter_window_2Dc_def read_window_def case_prod_unfold)
qed

lemma put_window_seq:
  assumes "ds2Dc_ok cfg" "win_inv2Dc cfg cnt g" "room2Dc cfg g" "synced l g"
    and "thread_index l < width cfg" "fuel2Dc cfg \<le> n"
  shows "wp (put_window_2Dc n cfg load cnt l contention) (put_post cfg cnt g) g"
proof -
  have "wp (put_window_loop n cfg load cnt (l\<lparr>thread_Window := global_Window g, seeds := s, thread_index := i\<rparr>) 0 0)
          (put_post cfg cnt g) g" if "i < width cfg" for i s
    using assms that by (intro put_loop_seq) (auto simp: fuel2Dc_def)
  then show ?thesis using assms
    by (auto simp: put_window_2Dc_def intro!: wp_enter_window)
qed

lemma get_loop_hit:
  assumes "thread_Window l = global_Window g" "thread_index l < length (set_array g)"
    and "win_max (global_Window g) < add64 (cnt (set_array g ! thread_index l)) (depth cfg)"
  shows "wp (get_window_loop (Suc n) cfg load cnt l hops random emp) Q g =
    Q (set_array g ! thread_index l, l) g"
  using assms by (simp add: wp_load)

lemma get_loop_seq:
  assumes dsok: "ds2Dc_ok cfg" and inv: "win_inv2Dc cfg cnt g" and room: "room2Dc cfg g"
    and "thread_Window l = global_Window g" "thread_index l < width cfg" "hops \<le> width cfg"
    and "random \<le> random_hops cfg" "random < random_hops cfg \<longrightarrow> hops = 0"
    and "seen (width cfg) (thread_index l) hops (\<lambda>j. cnt (set_array g ! j) + depth cfg \<le> win_max (global_Window g) \<and>
           (emp \<longrightarrow> cnt (set_array g ! j) = 0))"
    and "\<not> emp \<longrightarrow> depth cfg < win_max (global_Window g)"
    and "(random_hops cfg - random) + (width cfg - hops) + 2 \<le> n"
  shows "wp (get_window_loop n cfg load cnt l hops random emp) (get_post cfg cnt g) g"
  using assms(4-)
proof (induction n arbitrary: l hops random emp)
  case 0
  then show ?case by simp
next
  case (Suc n)
  let ?i = "thread_index l" and ?m = "win_max (global_Window g)"
  let ?c = "\<lambda>j. cnt (set_array g ! j)"
  let ?P = "\<lambda>e j. ?c j + depth cfg \<le> ?m \<and> (e \<longrightarrow> ?c j = 0)"
  have len: "length (set_array g) = width cfg" using inv by (simp add: win_inv2Dc_def)
  have bound: "?c j \<le> ?m" "?m \<le> ?c j + depth cfg" if "j < width cfg" for j
    using inv that by (auto simp: win_inv2Dc_def)
  have add: "add64 (?c j) (depth cfg) = ?c j + depth cfg" if "j < width cfg" for j
    using bound [OF that] room by (intro add64_eq) (auto simp: room2Dc_def)
  show ?case
  proof (cases "?m < ?c ?i + depth cfg")
    case True
    then show ?thesis using Suc.prems len add
      by (subst get_loop_hit) (auto simp: get_post_def)
  next
    case miss: False
    show ?thesis
    proof (cases "hops = width cfg")
      case False
      then have hops: "hops < width cfg" using Suc.prems by simp
      define e where "e = (if 0 < ?c ?i then False else emp)"
      have e: "\<not> e \<longrightarrow> depth cfg < ?m" using Suc.prems miss by (auto simp: e_def split: if_splits)
      have pe: "?P e ?i" using miss by (simp add: e_def)
      have sn: "seen (width cfg) ?i hops (?P e)" using Suc.prems(6) by (rule seen_mono) (auto simp: e_def split: if_splits)
      have "wp (hop_2Dc cfg l ?i random hops)
        (\<lambda>(index, random, hops, l). wp (get_window_loop n cfg load cnt (l\<lparr>thread_index := index\<rparr>) hops random e)
           (get_post cfg cnt g)) g"
        by (rule hop2Dc.hop_search [OF _ Suc.prems(2) hops Suc.prems(4,5) sn pe]) (use Suc.prems dsok e in \<open>auto intro!: Suc.IH\<close>)
      then show ?thesis using Suc.prems miss False len add
        by (auto simp: wp_load case_prod_unfold e_def split: if_splits)
    next
      case True
      have all: "\<forall>j < width cfg. ?P emp j"
        using Suc.prems True by (intro seen_all) auto
      show ?thesis
      proof (cases emp)
        case emp: True
        then show ?thesis using Suc.prems miss True len add all
          by (auto simp: wp_load get_post_def)
      next
        case nonempty: False
        have eq: "\<forall>j < width cfg. ?c j + depth cfg = ?m" using all bound by (auto intro: antisym)
        have "shift cfg dvd ?m - depth cfg" "0 < ?m - depth cfg"
          using inv Suc.prems nonempty by (auto simp: win_inv2Dc_def)
        then have le: "shift cfg \<le> ?m - depth cfg" by (rule dvd_imp_le)
        then have le': "depth cfg + shift cfg \<le> ?m" using Suc.prems nonempty by simp
        let ?new = "shifted_down cfg (global_Window g)"
        have new: "\<lparr>win_max = sub64 ?m (shift cfg), win_version = add64 (win_version (global_Window g)) 1\<rparr> = ?new"
          using room le' by (simp add: shifted_down_def add64_eq sub64_eq room2Dc_def)
        have sub: "depth cfg \<le> win_max ?new"
          using le' by (simp add: shifted_down_def)
        obtain n' where n': "n = Suc n'" using Suc.prems by (cases n) auto
        let ?g = "g\<lparr>global_Window := ?new\<rparr>"
        let ?l = "l\<lparr>thread_Window := ?new, my_slide_count := add64 (my_slide_count l) 1\<rparr>"
        have "wp (get_window_loop n cfg load cnt ?l 0 random True) (get_post cfg cnt g) ?g"
          unfolding n' using Suc.prems len eq dsok add le'
          by (subst get_loop_hit) (auto simp: get_post_def shifted_down_def ds2Dc_ok_def)
        then show ?thesis using Suc.prems miss True nonempty len add le' sub
          by (simp add: wp_load Let_def new cae_window_def)
      qed
    qed
  qed
qed

lemma get_window_seq:
  assumes "ds2Dc_ok cfg" "win_inv2Dc cfg cnt g" "room2Dc cfg g" "synced l g"
    and "thread_index l < width cfg" "fuel2Dc cfg \<le> n"
  shows "wp (get_window_2Dc n cfg load cnt l contention) (get_post cfg cnt g) g"
proof -
  have "wp (get_window_loop n cfg load cnt (l\<lparr>thread_Window := global_Window g, seeds := s, thread_index := i\<rparr>) 0 0 True)
          (get_post cfg cnt g) g" if "i < width cfg" for i s
    using assms that by (intro get_loop_seq) (auto simp: fuel2Dc_def)
  then show ?thesis using assms
    by (auto simp: get_window_2Dc_def intro!: wp_enter_window)
qed

end

section \<open>Threads that have seen older windows\<close>

text \<open>
  A window value a thread may hold: one that was the global window at some time, so that it
  either is the global window or has an older version.
\<close>

definition past :: "window2Dc \<Rightarrow> ('d, 'z) sh2Dc_scheme \<Rightarrow> bool" where
  "past w g \<longleftrightarrow> win_version w \<le> win_version (global_Window g) \<and>
     (win_version w = win_version (global_Window g) \<longrightarrow> w = global_Window g)"

lemma past_refl [simp]: "past (global_Window g) g"
  by (simp add: past_def)

lemma past_synced: "past (thread_Window l) g \<Longrightarrow> synced l g"
  by (simp add: past_def synced_def)

text \<open>The window has stayed as it was or moved on by one version: what was past stays past.\<close>

definition win_next :: "('d, 'z) sh2Dc_scheme \<Rightarrow> ('d, 'z) sh2Dc_scheme \<Rightarrow> bool" where
  "win_next g g' \<longleftrightarrow> global_Window g' = global_Window g \<or>
     win_version (global_Window g') = win_version (global_Window g) + 1"

lemma past_next: "past w g \<Longrightarrow> win_next g g' \<Longrightarrow> past w g'"
  unfolding past_def win_next_def by (elim conjE disjE) simp_all

section \<open>Under interference\<close>

text \<open>
  The contract between the window code and a concurrent data structure. \<open>J\<close> is what the calling
  thread knows of the shared state and \<open>L i d\<close> what it knows after loading descriptor \<open>d\<close> at
  index \<open>i\<close>; both survive the other threads' steps and the thread's own window shifts, which the
  protocol allows.
\<close>

locale window2Dc_env =
  fixes astep :: "('d, 'z) sh2Dc_scheme protocol" and A :: "('d, 'z) sh2Dc_scheme \<Rightarrow> bool" and t :: nat
    and cfg :: ds2Dc and load :: "u64 \<Rightarrow> (('d, 'z) sh2Dc_scheme, 'd) prog" and cnt :: "'d \<Rightarrow> u64"
    and J :: "('d, 'z) sh2Dc_scheme \<Rightarrow> bool" and L :: "u64 \<Rightarrow> 'd \<Rightarrow> ('d, 'z) sh2Dc_scheme \<Rightarrow> bool"
  assumes width_ok: "J g \<Longrightarrow> 0 < width cfg" "J g \<Longrightarrow> width cfg < 65536"
    and J_env: "J g \<Longrightarrow> env1 astep A t g g' \<Longrightarrow> J g'"
    and L_env: "J g \<Longrightarrow> L i d g \<Longrightarrow> env1 astep A t g g' \<Longrightarrow> L i d g'"
    and load_ok: "J g \<Longrightarrow> i < width cfg \<Longrightarrow> ok astep A t (load i) (\<lambda>d h. J h \<and> L i d h) g"
    and up_ok: "J g \<Longrightarrow> w = \<lparr>win_max = add64 (win_max (global_Window g)) (shift cfg),
                               win_version = add64 (win_version (global_Window g)) 1\<rparr> \<Longrightarrow>
        A (g\<lparr>global_Window := w\<rparr>) \<Longrightarrow>
        astep t g (g\<lparr>global_Window := w\<rparr>) \<and> J (g\<lparr>global_Window := w\<rparr>)"
    and down_ok: "J g \<Longrightarrow> w = \<lparr>win_max = sub64 (win_max (global_Window g)) (shift cfg),
                                 win_version = add64 (win_version (global_Window g)) 1\<rparr> \<Longrightarrow>
        depth cfg \<le> win_max w \<Longrightarrow> A (g\<lparr>global_Window := w\<rparr>) \<Longrightarrow>
        astep t g (g\<lparr>global_Window := w\<rparr>) \<and> J (g\<lparr>global_Window := w\<rparr>)"
begin

lemma J_envs: "env astep A t g g' \<Longrightarrow> J g \<Longrightarrow> J g'"
  by (induction rule: rtranclp_induct) (auto intro: J_env)

lemma L_envs: "env astep A t g g' \<Longrightarrow> J g \<Longrightarrow> L i d g \<Longrightarrow> L i d g'"
proof (induction rule: rtranclp_induct)
  case (step y z)
  then show ?case using J_envs [OF step.hyps(1)] by (blast intro: L_env)
qed

lemma ok_hop:
  assumes "J g" "index < width cfg"
    and "\<And>i r h s c. i < width cfg \<Longrightarrow> ok astep A t (k (i, r, h, l\<lparr>my_hop_count := c, seeds := s\<rparr>)) Q g"
  shows "ok astep A t (pbind (hop_2Dc cfg l index random hops) k) Q g"
proof -
  have w: "width cfg mod 65536 = width cfg" "0 < width cfg" using width_ok [OF assms(1)] by simp_all
  have "ok astep A t (k (i, r, h, l\<lparr>my_hop_count := c\<rparr>)) Q g" if "i < width cfg" for i r h c
    using assms(3) [OF that, of r h "seeds l" c] by simp
  moreover have "(if add64 index 1 \<ge> width cfg then 0 else add64 index 1) < width cfg"
    using w by simp
  ultimately show ?thesis
    using assms w
    by (auto simp: hop_2Dc_def Let_def random_index_2Dc_def w pbind_assoc case_prod_unfold intro!: ok_random_mod)
qed

lemma ok_read_window:
  assumes "J g" "\<And>h. J h \<Longrightarrow> ok astep A t (k (global_Window h)) Q h"
  shows "ok astep A t (pbind read_window k) Q g"
  unfolding read_window_def using assms by (intro ok_rd) (auto intro: J_envs)

lemma ok_version:
  assumes "J g" "\<And>h. J h \<Longrightarrow> ok astep A t (k (win_version (global_Window h))) Q h"
  shows "ok astep A t (pbind (rd (\<lambda>g. win_version (global_Window g))) k) Q g"
  using assms by (intro ok_rd) (auto intro: J_envs)

lemma ok_shift:
  assumes "J g"
    and "w' = \<lparr>win_max = add64 (win_max w) (shift cfg), win_version = add64 (win_version w) 1\<rparr> \<or>
         w' = \<lparr>win_max = sub64 (win_max w) (shift cfg), win_version = add64 (win_version w) 1\<rparr> \<and>
         depth cfg \<le> win_max w'"
    and "\<And>h. J h \<Longrightarrow> ok astep A t (k (True, w)) Q h"
    and "\<And>h w''. J h \<Longrightarrow> ok astep A t (k (False, w'')) Q h"
  shows "ok astep A t (pbind (cae_window w w') k) Q g"
  unfolding cae_window_def
proof (rule ok_cae)
  fix h
  assume e: "env astep A t g h" "global_Window h = w" "A (h\<lparr>global_Window := w'\<rparr>)"
  then have "J h" using J_envs assms(1) by blast
  then have "astep t h (h\<lparr>global_Window := w'\<rparr>) \<and> J (h\<lparr>global_Window := w'\<rparr>)"
    using assms(2) up_ok [of h w'] down_ok [of h w'] e by auto
  then show "(h\<lparr>global_Window := w'\<rparr> = h \<or> astep t h (h\<lparr>global_Window := w'\<rparr>)) \<and>
     ok astep A t (k (True, w)) Q (h\<lparr>global_Window := w'\<rparr>)"
    using assms(3) by simp
next
  fix h
  assume "env astep A t g h" "global_Window h \<noteq> w"
  then show "ok astep A t (k (False, global_Window h)) Q h" using assms(1,4) J_envs by blast
qed

text \<open>What the calling thread knows when the call returns.\<close>

definition handed :: "'d \<times> 'l tl2Dc_scheme \<Rightarrow> ('d, 'z) sh2Dc_scheme \<Rightarrow> bool" where
  "handed = (\<lambda>(d, l) g. J g \<and> thread_index l < width cfg \<and> L (thread_index l) d g)"

lemma handed_env: "env astep A t g g' \<Longrightarrow> handed r g \<Longrightarrow> handed r g'"
  by (auto simp: handed_def intro: J_envs L_envs)

lemma ok_handed:
  "J g \<Longrightarrow> thread_index l < width cfg \<Longrightarrow> L (thread_index l) d g \<Longrightarrow>
   ok astep A t (Ret (d, l)) handed g"
  using handed_env [of g _ "(d, l)"] by (auto simp: handed_def)

lemma ok_load:
  assumes "J g" "i < width cfg"
    and "\<And>d h. J h \<Longrightarrow> L i d h \<Longrightarrow> ok astep A t (k d) Q h"
  shows "ok astep A t (pbind (load i) k) Q g"
  using load_ok [OF assms(1,2)] by (rule ok_bind_mono) (use assms(3) in blast)

lemma ok_version_L:
  assumes "J g" "L i d g"
    and "\<And>h. J h \<Longrightarrow> L i d h \<Longrightarrow> ok astep A t (k (win_version (global_Window h))) Q h"
  shows "ok astep A t (pbind (rd (\<lambda>g. win_version (global_Window g))) k) Q g"
  using assms by (intro ok_rd) (auto intro: J_envs L_envs)

lemmas window_rules = ok_read_window ok_handed ok_hop ok_shift

lemma put_loop_ok:
  "J g \<Longrightarrow> thread_index l < width cfg \<Longrightarrow>
   ok astep A t (put_window_loop n cfg load cnt l hops random) handed g"
proof (induction n arbitrary: l hops random g)
  case 0
  then show ?case by simp
next
  case (Suc n)
  show ?case
    unfolding put_window_loop.simps
    by (rule ok_load [OF Suc.prems], rule ok_version_L)
      (auto simp: Let_def Suc.prems simp del: ok.simps
        intro!: window_rules ok_version Suc.IH)
qed

lemma get_loop_ok:
  "J g \<Longrightarrow> thread_index l < width cfg \<Longrightarrow>
   ok astep A t (get_window_loop n cfg load cnt l hops random emp) handed g"
proof (induction n arbitrary: l hops random emp g)
  case 0
  then show ?case by simp
next
  case (Suc n)
  show ?case
    unfolding get_window_loop.simps
    by (rule ok_load [OF Suc.prems], rule ok_version_L)
      (auto simp: Let_def Suc.prems simp del: ok.simps
        intro!: window_rules ok_version Suc.IH)
qed

lemma ok_enter:
  assumes "J g" "thread_index l < width cfg"
    and k: "\<And>l' h. J h \<Longrightarrow> thread_index l' < width cfg \<Longrightarrow> ok astep A t (k l') Q h"
  shows "ok astep A t (pbind (enter_window_2Dc cfg l contention) k) Q g"
proof -
  have w: "width cfg mod 65536 = width cfg" "0 < width cfg" using width_ok [OF assms(1)] by simp_all
  show ?thesis
    unfolding enter_window_2Dc_def pbind_assoc
    by (rule ok_version [OF assms(1)])
      (auto simp: pbind_assoc assms(2) random_index_2Dc_def w simp del: ok.simps
        intro!: ok_read_window ok_random_mod k)
qed

lemma put_window_ok:
  "J g \<Longrightarrow> thread_index l < width cfg \<Longrightarrow>
   ok astep A t (put_window_2Dc n cfg load cnt l contention) handed g"
  unfolding put_window_2Dc_def by (rule ok_enter) (auto simp del: ok.simps intro: put_loop_ok)

lemma get_window_ok:
  "J g \<Longrightarrow> thread_index l < width cfg \<Longrightarrow>
   ok astep A t (get_window_2Dc n cfg load cnt l contention) handed g"
  unfolding get_window_2Dc_def by (rule ok_enter) (auto simp del: ok.simps intro: get_loop_ok)

end

end
