(* ===== verification/Node_Stacks.thy ===== *)
theory Node_Stacks
  imports Programs
begin

text \<open>
  The linked nodes of the stack designs (\<^verbatim>\<open>node_t\<close> of \<^verbatim>\<open>2Dc-stack.h\<close>, \<^verbatim>\<open>2Dd-stack.h\<close> and the
  Treiber stack) and the memory they live in, with the steps a thread makes on that memory: take a
  node from the allocator, write its \<^verbatim>\<open>next\<close> field while nobody else can see it, publish it as the
  new top of a sub-stack, unlink the top of a sub-stack, hand an unlinked node to the reclaimer.

  The allocator (ssmem, a binary library) is a parameter: what is used of it is that it hands out
  a non-null address that no node in use has. ssmem reclaims by epochs: an address freed is not
  handed out again while a thread may still hold it, so in the model a freed address is never
  handed out again. Four fields are no part of the C state and are written only together
  with an action of the code: \<open>owner\<close> (the thread that has allocated a node), \<open>removed\<close> (nodes unlinked and not yet freed, with the thread that unlinked them), \<open>hist\<close>
  (the nodes published so far, latest first) and \<open>freed\<close> (with the thread that freed them). A node is
  \<open>mine\<close>, private to a thread, from its allocation until it is published.
\<close>

section \<open>Nodes and memory\<close>

type_synonym ptr = nat

abbreviation (input) NULL :: ptr where
  "NULL \<equiv> 0"

record mnode =
  n_key :: int
  n_val :: int
  n_next :: ptr

type_synonym heap = "ptr \<Rightarrow> mnode option"

record node_mem =
  heap :: heap
  allocd :: "ptr list"
  owner :: "ptr \<Rightarrow> nat option"
  removed :: "(ptr \<times> nat) list"
  hist :: "ptr list"
  freed :: "(ptr \<times> nat) list"

definition empty_mem :: node_mem where
  "empty_mem = \<lparr>heap = (\<lambda>_. None), allocd = [], owner = (\<lambda>_. None), removed = [], hist = [], freed = []\<rparr>"

type_synonym allocator = "nat \<Rightarrow> ptr list \<Rightarrow> ptr"

definition alloc_fresh :: "allocator \<Rightarrow> bool" where
  "alloc_fresh al \<longleftrightarrow> (\<forall>t used. al t used \<noteq> NULL \<and> al t used \<notin> set used)"

definition mem_alloc :: "nat \<Rightarrow> ptr \<Rightarrow> mnode \<Rightarrow> node_mem \<Rightarrow> node_mem" where
  "mem_alloc t p nd m = m\<lparr>heap := (heap m)(p \<mapsto> nd), allocd := p # allocd m, owner := (owner m)(p \<mapsto> t)\<rparr>"

definition mem_set_next :: "ptr \<Rightarrow> ptr \<Rightarrow> node_mem \<Rightarrow> node_mem" where
  "mem_set_next p q m =
     (case heap m p of None \<Rightarrow> m | Some nd \<Rightarrow> m\<lparr>heap := (heap m)(p \<mapsto> nd\<lparr>n_next := q\<rparr>)\<rparr>)"

definition mem_publish :: "ptr \<Rightarrow> node_mem \<Rightarrow> node_mem" where
  "mem_publish p m = m\<lparr>hist := p # hist m\<rparr>"

definition mem_remove :: "nat \<Rightarrow> ptr \<Rightarrow> node_mem \<Rightarrow> node_mem" where
  "mem_remove t p m = m\<lparr>removed := (p, t) # removed m\<rparr>"

definition mem_free :: "nat \<Rightarrow> ptr \<Rightarrow> node_mem \<Rightarrow> node_mem" where
  "mem_free t p m = m\<lparr>removed := remove1 (p, t) (removed m), freed := (p, t) # freed m\<rparr>"

definition mine :: "node_mem \<Rightarrow> nat \<Rightarrow> ptr \<Rightarrow> bool" where
  "mine m t p \<longleftrightarrow> owner m p = Some t \<and> p \<notin> set (hist m)"

lemmas mem_defs [prog_unfold] = mem_alloc_def mem_set_next_def mem_publish_def mem_remove_def mem_free_def

lemma mem_alloc_sel [simp]:
  "hist (mem_alloc t p nd m) = hist m" "freed (mem_alloc t p nd m) = freed m"
  "removed (mem_alloc t p nd m) = removed m" "heap (mem_alloc t p nd m) = (heap m)(p \<mapsto> nd)"
  "allocd (mem_alloc t p nd m) = p # allocd m" "owner (mem_alloc t p nd m) = (owner m)(p \<mapsto> t)"
  by (simp_all add: mem_alloc_def)

lemma mem_set_next_sel [simp]:
  "hist (mem_set_next p q m) = hist m" "freed (mem_set_next p q m) = freed m" "removed (mem_set_next p q m) = removed m"
  "owner (mem_set_next p q m) = owner m" "allocd (mem_set_next p q m) = allocd m"
  by (simp_all add: mem_set_next_def split: option.split)

lemma mine_simps [simp]:
  "mine (m\<lparr>heap := h\<rparr>) t p = mine m t p"
  "mine (mem_set_next q r m) t p = mine m t p"
  "mine (mem_remove u q m) t p = mine m t p"
  "mine (mem_free u q m) t p = mine m t p"
  by (simp_all add: mine_def mem_remove_def mem_free_def)

text \<open>An allocator that satisfies the assumption: one more than every address in use.\<close>

definition bump_alloc :: allocator where
  "bump_alloc t used = Suc (foldr max used 0)"

lemmas alloc_unfold [prog_unfold] = bump_alloc_def empty_mem_def

lemma foldr_max_ge: "(x :: nat) \<in> set xs \<Longrightarrow> x \<le> foldr max xs 0"
  by (induction xs) auto

lemma bump_alloc_fresh: "alloc_fresh bump_alloc"
  using foldr_max_ge by (fastforce simp: alloc_fresh_def bump_alloc_def)

section \<open>Linked lists in the heap\<close>

text \<open>\<open>follow h p n\<close> lists the first \<open>n\<close> nodes from \<open>p\<close> along \<^verbatim>\<open>next\<close>; \<open>chain\<close> says they end in \<open>NULL\<close>.\<close>

fun follow :: "heap \<Rightarrow> ptr \<Rightarrow> nat \<Rightarrow> ptr list" where
  "follow h p 0 = []"
| "follow h p (Suc n) = p # (case h p of None \<Rightarrow> [] | Some nd \<Rightarrow> follow h (n_next nd) n)"

lemma follow_add1 [simp]:
  "follow h p (n + 1) = p # (case h p of None \<Rightarrow> [] | Some nd \<Rightarrow> follow h (n_next nd) n)"
  by (simp flip: Suc_eq_plus1)

fun chain :: "heap \<Rightarrow> ptr \<Rightarrow> ptr list \<Rightarrow> bool" where
  "chain h p [] = (p = NULL)"
| "chain h p (x # xs) = (p = x \<and> x \<noteq> NULL \<and> (case h x of None \<Rightarrow> False | Some nd \<Rightarrow> chain h (n_next nd) xs))"

lemma chain_follow: "chain h p xs \<Longrightarrow> follow h p (length xs) = xs"
  by (induction xs arbitrary: p) (auto split: option.splits)

lemma chain_upd: "q \<notin> set xs \<Longrightarrow> chain (h(q := v)) p xs = chain h p xs"
  by (induction xs arbitrary: p) (auto split: option.splits)

lemma follow_upd: "q \<notin> set (follow h p n) \<Longrightarrow> follow (h(q := v)) p n = follow h p n"
  by (induction n arbitrary: p) (auto split: option.splits)

lemma chain_null: "chain h NULL xs \<Longrightarrow> xs = []"
  by (cases xs) auto

lemma chain_top: "chain h p xs \<Longrightarrow> p \<noteq> NULL \<Longrightarrow> \<exists>nd ys. xs = p # ys \<and> h p = Some nd \<and> chain h (n_next nd) ys"
  by (cases xs) (auto split: option.splits)

section \<open>Several stacks in one memory\<close>

text \<open>
  \<open>tops\<close> lists, for every sub-stack, its top pointer and its count, as the descriptors hold them;
  \<open>subs\<close> are the sub-stacks themselves, top first.
\<close>

type_synonym tops = "(ptr \<times> u64) list"

definition subs :: "node_mem \<Rightarrow> tops \<Rightarrow> ptr list list" where
  "subs m tops = map (\<lambda>(p, n). follow (heap m) p n) tops"

definition stacks_ok :: "node_mem \<Rightarrow> tops \<Rightarrow> bool" where
  "stacks_ok m tops \<longleftrightarrow>
     dom (heap m) = set (allocd m) \<and> NULL \<notin> set (allocd m) \<and>
     (\<forall>i < length tops. chain (heap m) (fst (tops ! i)) (subs m tops ! i) \<and>
        length (subs m tops ! i) = snd (tops ! i)) \<and>
     distinct (hist m) \<and> set (hist m) \<subseteq> set (allocd m) \<and>
     mset (hist m) = mset (concat (subs m tops)) + mset (map fst (removed m)) + mset (map fst (freed m)) \<and>
     dom (owner m) = set (allocd m)"

lemma stacks_okD:
  assumes "stacks_ok m tops"
  shows "dom (heap m) = set (allocd m)" "NULL \<notin> set (allocd m)"
    "i < length tops \<Longrightarrow> chain (heap m) (fst (tops ! i)) (subs m tops ! i)"
    "i < length tops \<Longrightarrow> length (subs m tops ! i) = snd (tops ! i)"
    "distinct (hist m)" "set (hist m) \<subseteq> set (allocd m)"
    "mset (hist m) = mset (concat (subs m tops)) + mset (map fst (removed m)) + mset (map fst (freed m))"
    "dom (owner m) = set (allocd m)" "mine m t p \<Longrightarrow> p \<in> set (allocd m) \<and> p \<notin> set (hist m)"
  using assms by (auto simp: stacks_ok_def mine_def)

lemma length_subs [simp]: "length (subs m tops) = length tops"
  by (simp add: subs_def)

lemma subs_nth: "i < length tops \<Longrightarrow> subs m tops ! i = follow (heap m) (fst (tops ! i)) (snd (tops ! i))"
  by (simp add: subs_def case_prod_unfold)

lemma in_subs_hist:
  assumes "stacks_ok m tops" "i < length tops" "p \<in> set (subs m tops ! i)"
  shows "p \<in> set (hist m)"
proof -
  have "p \<in> set (concat (subs m tops))" using assms(2,3) by auto
  then have "p \<in># mset (hist m)" unfolding stacks_okD(7) [OF assms(1)] by simp
  then show ?thesis by simp
qed

lemma subs_heap_upd:
  assumes "stacks_ok m tops" "p \<notin> set (hist m)"
  shows "subs (m\<lparr>heap := (heap m)(p := v)\<rparr>) tops = subs m tops"
proof (rule nth_equalityI)
  show "length (subs (m\<lparr>heap := (heap m)(p := v)\<rparr>) tops) = length (subs m tops)" by simp
  fix i
  assume "i < length (subs (m\<lparr>heap := (heap m)(p := v)\<rparr>) tops)"
  then have i: "i < length tops" by simp
  then have "p \<notin> set (subs m tops ! i)" using in_subs_hist assms by blast
  then show "subs (m\<lparr>heap := (heap m)(p := v)\<rparr>) tops ! i = subs m tops ! i"
    using i by (simp add: subs_nth follow_upd)
qed

lemma subs_cong: "heap m = heap m' \<Longrightarrow> subs m tops = subs m' tops"
  by (simp add: subs_def)

lemma stacks_ok_heap_upd:
  assumes "stacks_ok m tops" "p \<notin> set (hist m)" "p \<noteq> NULL"
    and "set as = insert p (set (allocd m))"
    and "dom pr = insert p (dom (owner m))"
  shows "stacks_ok (m\<lparr>heap := (heap m)(p \<mapsto> nd), allocd := as, owner := pr\<rparr>) tops"
proof -
  let ?m = "m\<lparr>heap := (heap m)(p \<mapsto> nd)\<rparr>"
  let ?m' = "m\<lparr>heap := (heap m)(p \<mapsto> nd), allocd := as, owner := pr\<rparr>"
  have s: "subs ?m' tops = subs m tops"
    using subs_heap_upd [OF assms(1,2)] subs_cong [of ?m' ?m] by simp
  have "chain ((heap m)(p \<mapsto> nd)) (fst (tops ! i)) (subs m tops ! i)" if "i < length tops" for i
    using stacks_okD(3) [OF assms(1) that] in_subs_hist [OF assms(1) that] assms(2)
    by (subst chain_upd) auto
  moreover have "dom pr = set as" using assms(4,5) stacks_okD(8) [OF assms(1)] by simp
  ultimately show ?thesis
    unfolding stacks_ok_def s using stacks_okD(1-7) [OF assms(1)] assms(2-4) by auto
qed

lemma stacks_ok_alloc:
  "stacks_ok m tops \<Longrightarrow> p \<notin> set (allocd m) \<Longrightarrow> p \<noteq> NULL \<Longrightarrow> stacks_ok (mem_alloc t p nd m) tops"
  unfolding mem_alloc_def
  by (rule stacks_ok_heap_upd) (auto dest: stacks_okD(6) split: if_splits)

lemma stacks_ok_set_next:
  assumes "stacks_ok m tops" "mine m t p"
  shows "stacks_ok (mem_set_next p q m) tops"
proof (cases "heap m p")
  case None
  then show ?thesis using assms by (simp add: mem_set_next_def)
next
  case (Some nd)
  let ?nd = "nd\<lparr>n_next := q\<rparr>"
  have p: "p \<in> set (allocd m)" "p \<notin> set (hist m)" using stacks_okD(9) assms by blast+
  then have "p \<noteq> NULL" using stacks_okD(2) [OF assms(1)] by metis
  then have "stacks_ok (m\<lparr>heap := (heap m)(p \<mapsto> ?nd), allocd := allocd m, owner := owner m\<rparr>) tops"
    using p assms(1) stacks_okD(8) [OF assms(1)] by (intro stacks_ok_heap_upd) auto
  then show ?thesis using Some by (simp add: mem_set_next_def)
qed

lemma subs_publish:
  assumes "stacks_ok m tops" "i < length tops" "heap m p = Some nd" "n_next nd = fst (tops ! i)"
  shows "subs m (tops[i := (p, snd (tops ! i) + 1)]) = (subs m tops)[i := p # subs m tops ! i]"
proof (rule nth_equalityI)
  fix j
  assume "j < length (subs m (tops[i := (p, snd (tops ! i) + 1)]))"
  then show "subs m (tops[i := (p, snd (tops ! i) + 1)]) ! j = (subs m tops)[i := p # subs m tops ! i] ! j"
    using assms by (cases "i = j") (auto simp: subs_nth)
qed simp

lemma stacks_ok_publish:
  assumes ok: "stacks_ok m tops" and i: "i < length tops" and p: "mine m t p"
    and nd: "heap m p = Some nd" "n_next nd = fst (tops ! i)"
  shows "stacks_ok (mem_publish p m) (tops[i := (p, snd (tops ! i) + 1)])"
proof -
  let ?tops = "tops[i := (p, snd (tops ! i) + 1)]"
  have s: "subs (mem_publish p m) ?tops = (subs m tops)[i := p # subs m tops ! i]"
    using subs_publish [OF ok i nd] subs_cong [of "mem_publish p m" m] by (simp add: mem_publish_def)
  have p': "p \<in> set (allocd m)" "p \<notin> set (hist m)" using stacks_okD(9) ok p by blast+
  then have "p \<noteq> NULL" using stacks_okD(2) [OF ok] by metis
  then have "chain (heap m) (fst (?tops ! j)) (subs (mem_publish p m) ?tops ! j) \<and>
      length (subs (mem_publish p m) ?tops ! j) = snd (?tops ! j)" if "j < length tops" for j
    unfolding s using that stacks_okD(3,4) [OF ok] i nd by (cases "i = j") auto
  moreover have "mset (p # hist m) = mset (concat ((subs m tops)[i := p # subs m tops ! i])) +
      mset (map fst (removed m)) + mset (map fst (freed m))"
    using mset_concat_update [of i "subs m tops" "p # subs m tops ! i"] i stacks_okD(7) [OF ok] by simp
  ultimately show ?thesis
    using stacks_okD [OF ok] p' unfolding stacks_ok_def s by (auto simp: mem_publish_def)
qed

lemma subs_remove:
  assumes "stacks_ok m tops" "i < length tops" "fst (tops ! i) = p" "p \<noteq> NULL" "heap m p = Some nd"
  shows "subs m tops ! i = p # follow (heap m) (n_next nd) (snd (tops ! i) - 1)"
    and "0 < snd (tops ! i)"
    and "subs m (tops[i := (n_next nd, snd (tops ! i) - 1)]) = (subs m tops)[i := tl (subs m tops ! i)]"
proof -
  have "chain (heap m) p (subs m tops ! i)" using stacks_okD(3) [OF assms(1,2)] assms(3) by simp
  then obtain ys where ys: "subs m tops ! i = p # ys" "chain (heap m) (n_next nd) ys"
    using chain_top assms(4,5) by fastforce
  then have n: "snd (tops ! i) = Suc (length ys)" using stacks_okD(4) [OF assms(1,2)] by simp
  then show "0 < snd (tops ! i)" by simp
  show "subs m tops ! i = p # follow (heap m) (n_next nd) (snd (tops ! i) - 1)"
    using n ys chain_follow by simp
  then have y: "ys = follow (heap m) (n_next nd) (snd (tops ! i) - 1)" using ys by simp
  show "subs m (tops[i := (n_next nd, snd (tops ! i) - 1)]) = (subs m tops)[i := tl (subs m tops ! i)]"
  proof (rule nth_equalityI)
    fix j
    assume "j < length (subs m (tops[i := (n_next nd, snd (tops ! i) - 1)]))"
    then show "subs m (tops[i := (n_next nd, snd (tops ! i) - 1)]) ! j = (subs m tops)[i := tl (subs m tops ! i)] ! j"
      using ys y by (cases "i = j") (auto simp: subs_nth)
  qed simp
qed

lemma stacks_ok_remove:
  assumes ok: "stacks_ok m tops" and i: "i < length tops" and p: "fst (tops ! i) = p" "p \<noteq> NULL"
    and nd: "heap m p = Some nd"
  shows "stacks_ok (mem_remove t p m) (tops[i := (n_next nd, snd (tops ! i) - 1)])"
proof -
  let ?tops = "tops[i := (n_next nd, snd (tops ! i) - 1)]"
  note r = subs_remove [OF ok i p nd]
  have s: "subs (mem_remove t p m) ?tops = (subs m tops)[i := tl (subs m tops ! i)]"
    using r(3) subs_cong [of "mem_remove t p m" m] by (simp add: mem_remove_def)
  have ch: "chain (heap m) (n_next nd) (tl (subs m tops ! i))"
    using stacks_okD(3) [OF ok i] r(1) nd by simp
  have len: "length (tl (subs m tops ! i)) = snd (tops ! i) - 1" using stacks_okD(4) [OF ok i] by simp
  have "chain (heap m) (fst (?tops ! j)) (subs (mem_remove t p m) ?tops ! j) \<and>
      length (subs (mem_remove t p m) ?tops ! j) = snd (?tops ! j)" if "j < length tops" for j
    unfolding s using that stacks_okD(3,4) [OF ok] i ch len by (cases "i = j") simp_all
  moreover have "mset (hist m) = mset (concat ((subs m tops)[i := tl (subs m tops ! i)])) +
      mset (map fst ((p, t) # removed m)) + mset (map fst (freed m))"
    using mset_concat_update [of i "subs m tops" "tl (subs m tops ! i)"] i stacks_okD(7) [OF ok] r(1)
    by (simp add: ac_simps)
  ultimately show ?thesis
    using stacks_okD [OF ok] unfolding stacks_ok_def s by (auto simp: mem_remove_def)
qed

lemma mset_remove1_fst:
  "(p, t) \<in> set xs \<Longrightarrow> mset (map fst xs) = add_mset p (mset (map fst (remove1 (p, t) xs)))"
  by (induction xs) auto

lemma stacks_ok_free:
  assumes "stacks_ok m tops" "(p, t) \<in> set (removed m)"
  shows "stacks_ok (mem_free t p m) tops"
proof -
  have s: "subs (mem_free t p m) tops = subs m tops" by (rule subs_cong) (simp add: mem_free_def)
  have "mset (hist m) = mset (concat (subs m tops)) + mset (map fst (remove1 (p, t) (removed m))) + mset (map fst ((p, t) # freed m))"
    unfolding stacks_okD(7) [OF assms(1)] using mset_remove1_fst [OF assms(2)] by simp
  then show ?thesis using stacks_okD [OF assms(1)] unfolding stacks_ok_def s by (auto simp: mem_free_def)
qed

lemma stacks_ok_empty: "stacks_ok empty_mem (replicate w (NULL, 0))"
proof -
  have "subs empty_mem (replicate w (NULL, 0)) = replicate w []" by (simp add: subs_def map_replicate_const)
  then show ?thesis by (simp add: stacks_ok_def empty_mem_def)
qed

text \<open>No node is freed twice, and no freed node is in a stack.\<close>

lemma stacks_ok_freed:
  assumes "stacks_ok m tops"
  shows "distinct (map fst (freed m))" "fst ` set (freed m) \<inter> set (concat (subs m tops)) = {}"
proof -
  let ?a = "concat (subs m tops)" and ?b = "map fst (removed m)" and ?c = "map fst (freed m)"
  have "mset (hist m) = mset (?a @ ?b @ ?c)" using stacks_okD(7) [OF assms] by simp
  then have "distinct (?a @ ?b @ ?c)" using stacks_okD(5) [OF assms] by (metis mset_eq_imp_distinct_iff)
  then show "distinct (map fst (freed m))" "fst ` set (freed m) \<inter> set (concat (subs m tops)) = {}" by auto
qed

section \<open>The steps of a thread\<close>

text \<open>
  The protocol on the node memory: what one action of thread \<open>t\<close> may do to the memory and to the
  tops of the sub-stacks.
\<close>

inductive node_step :: "nat \<Rightarrow> node_mem \<times> tops \<Rightarrow> node_mem \<times> tops \<Rightarrow> bool" for t where
  ns_alloc: "p \<notin> set (allocd m) \<Longrightarrow> p \<noteq> NULL \<Longrightarrow> node_step t (m, ts) (mem_alloc t p nd m, ts)"
| ns_set_next: "mine m t p \<Longrightarrow> node_step t (m, ts) (mem_set_next p q m, ts)"
| ns_publish: "i < length ts \<Longrightarrow> mine m t p \<Longrightarrow> heap m p = Some nd \<Longrightarrow> n_next nd = fst (ts ! i) \<Longrightarrow>
    node_step t (m, ts) (mem_publish p m, ts[i := (p, snd (ts ! i) + 1)])"
| ns_remove: "i < length ts \<Longrightarrow> fst (ts ! i) = p \<Longrightarrow> p \<noteq> NULL \<Longrightarrow> heap m p = Some nd \<Longrightarrow>
    node_step t (m, ts) (mem_remove t p m, ts[i := (n_next nd, snd (ts ! i) - 1)])"
| ns_free: "(p, t) \<in> set (removed m) \<Longrightarrow> node_step t (m, ts) (mem_free t p m, ts)"

inductive_cases node_stepE: "node_step t (m, ts) (m', ts')"

lemma node_step_ok:
  assumes "node_step t (m, ts) (m', ts')" "stacks_ok m ts"
  shows "stacks_ok m' ts'"
  using assms by (cases rule: node_step.cases)
    (auto intro: stacks_ok_alloc stacks_ok_set_next stacks_ok_publish stacks_ok_remove stacks_ok_free)

lemma node_step_length: "node_step t (m, ts) (m', ts') \<Longrightarrow> length ts' = length ts"
  by (cases rule: node_step.cases) auto

text \<open>A published node stays published and is never written again.\<close>

lemma node_step_hist:
  assumes "node_step u (m, ts) (m', ts')" "stacks_ok m ts" "p \<in> set (hist m)"
  shows "p \<in> set (hist m')" "heap m' p = heap m p" "owner m' p = owner m p"
proof -
  have "p \<in> set (allocd m)" using assms(2,3) stacks_okD(6) by blast
  with assms(1) have "p \<in> set (hist m') \<and> heap m' p = heap m p \<and> owner m' p = owner m p"
    using assms(3) by (cases rule: node_step.cases) (auto simp: mem_defs mine_def split: option.splits)
  then show "p \<in> set (hist m')" "heap m' p = heap m p" "owner m' p = owner m p" by auto
qed

text \<open>The other threads leave alone the nodes that are private to thread \<open>t\<close> and those it has unlinked.\<close>

lemma node_step_others:
  assumes "node_step u (m, ts) (m', ts')" "stacks_ok m ts" "u \<noteq> t"
  shows "mine m t p \<Longrightarrow> mine m' t p \<and> heap m' p = heap m p"
    and "(p, t) \<in> set (removed m) \<Longrightarrow> (p, t) \<in> set (removed m')"
proof -
  assume p: "mine m t p"
  then have "p \<in> set (allocd m)" using assms(2) stacks_okD(9) by blast
  with assms(1) show "mine m' t p \<and> heap m' p = heap m p"
    using assms(3) p by (cases rule: node_step.cases) (auto simp: mem_defs mine_def split: option.splits)
next
  assume "(p, t) \<in> set (removed m)"
  with assms(1,3) show "(p, t) \<in> set (removed m')"
    by (cases rule: node_step.cases) (auto simp: mem_remove_def mem_free_def mem_publish_def)
qed

text \<open>The values a thread has published (latest first) and the values of the nodes it has unlinked.\<close>

definition node_val :: "node_mem \<Rightarrow> ptr \<Rightarrow> int" where
  "node_val m p = n_val (the (heap m p))"

definition pushed_by :: "nat \<Rightarrow> node_mem \<Rightarrow> int list" where
  "pushed_by t m = map (node_val m) (filter (\<lambda>p. owner m p = Some t) (hist m))"

definition popped_by :: "nat \<Rightarrow> node_mem \<Rightarrow> int multiset" where
  "popped_by t m = image_mset (node_val m \<circ> fst) (filter_mset (\<lambda>(p, u). u = t) (mset (removed m) + mset (freed m)))"

lemma freed_hist:
  assumes "stacks_ok m ts" "(p, u) \<in> set (freed m)"
  shows "p \<in> set (hist m)"
proof -
  have "p \<in># mset (hist m)" unfolding stacks_okD(7) [OF assms(1)] using assms(2) by force
  then show ?thesis by simp
qed

lemma removed_hist:
  assumes "stacks_ok m ts" "(p, u) \<in> set (removed m)"
  shows "p \<in> set (hist m)"
proof -
  have "p \<in># mset (hist m)" unfolding stacks_okD(7) [OF assms(1)] using assms(2) by force
  then show ?thesis by simp
qed

lemma values_cong:
  assumes "stacks_ok m ts" "\<And>p. p \<in> set (hist m) \<Longrightarrow> node_val m' p = node_val m p \<and> owner m' p = owner m p"
  shows "hist m' = hist m \<Longrightarrow> pushed_by t m' = pushed_by t m"
    and "filter_mset (\<lambda>(p, u). u = t) (mset (removed m') + mset (freed m')) =
      filter_mset (\<lambda>(p, u). u = t) (mset (removed m) + mset (freed m)) \<Longrightarrow> popped_by t m' = popped_by t m"
proof -
  assume "hist m' = hist m"
  then have "filter (\<lambda>p. owner m' p = Some t) (hist m') = filter (\<lambda>p. owner m p = Some t) (hist m)"
    using assms(2) by (auto intro: filter_cong)
  then show "pushed_by t m' = pushed_by t m" using assms(2) by (auto simp: pushed_by_def)
next
  assume "filter_mset (\<lambda>(p, u). u = t) (mset (removed m') + mset (freed m')) =
      filter_mset (\<lambda>(p, u). u = t) (mset (removed m) + mset (freed m))"
  then show "popped_by t m' = popped_by t m"
    unfolding popped_by_def using assms(2) freed_hist [OF assms(1)] removed_hist [OF assms(1)]
    by (simp only:) (auto intro!: image_mset_cong simp del: filter_union_mset image_mset_union)
qed

lemma node_val_step: "node_step u (m, ts) (m', ts') \<Longrightarrow> stacks_ok m ts \<Longrightarrow> p \<in> set (hist m) \<Longrightarrow>
  node_val m' p = node_val m p \<and> owner m' p = owner m p"
  by (simp add: node_val_def node_step_hist)

lemma node_step_values:
  assumes "node_step u (m, ts) (m', ts')" "stacks_ok m ts" "u \<noteq> t"
  shows "pushed_by t m' = pushed_by t m" "popped_by t m' = popped_by t m"
proof -
  note same = node_val_step [OF assms(1,2)]
  have "filter_mset (\<lambda>(p, u). u = t) (mset (removed m') + mset (freed m')) =
      filter_mset (\<lambda>(p, u). u = t) (mset (removed m) + mset (freed m))"
    using assms(1,3) by (cases rule: node_step.cases) (auto simp: mem_defs filter_diff_mset split: option.splits)
  then show "popped_by t m' = popped_by t m" using values_cong(2) [OF assms(2), of m' t] same by blast
  show "pushed_by t m' = pushed_by t m"
  proof (cases "hist m' = hist m")
    case True
    then show ?thesis using values_cong(1) [OF assms(2), of m' t] same by blast
  next
    case False
    with assms(1,3) obtain p where p: "m' = mem_publish p m" "owner m p = Some u"
      by (cases rule: node_step.cases) (auto simp: mem_defs mine_def split: option.splits)
    then show ?thesis using assms(3) by (simp add: pushed_by_def mem_publish_def node_val_def)
  qed
qed

text \<open>What thread \<open>t\<close>'s own steps do to its values.\<close>

lemma own_values:
  assumes "stacks_ok m ts"
  shows "p \<notin> set (allocd m) \<Longrightarrow> pushed_by t (mem_alloc u p nd m) = pushed_by t m"
    and "p \<notin> set (allocd m) \<Longrightarrow> popped_by t (mem_alloc u p nd m) = popped_by t m"
    and "pushed_by t (mem_set_next p q m) = pushed_by t m" and "popped_by t (mem_set_next p q m) = popped_by t m"
    and "mine m t p \<Longrightarrow> pushed_by t (mem_publish p m) = node_val m p # pushed_by t m"
    and "popped_by t (mem_publish p m) = popped_by t m"
    and "pushed_by t (mem_remove u p m) = pushed_by t m"
    and "popped_by t (mem_remove t p m) = add_mset (node_val m p) (popped_by t m)"
    and "pushed_by t (mem_free u p m) = pushed_by t m"
    and "(p, t) \<in> set (removed m) \<Longrightarrow> popped_by t (mem_free t p m) = popped_by t m"
proof -
  have nv: "node_val (mem_set_next p q m) = node_val m"
    by (auto simp: node_val_def mem_set_next_def fun_eq_iff split: option.split)
  then show "pushed_by t (mem_set_next p q m) = pushed_by t m" "popped_by t (mem_set_next p q m) = popped_by t m"
    by (simp_all add: pushed_by_def popped_by_def)
  assume p: "p \<notin> set (allocd m)"
  then have same: "node_val (mem_alloc u p nd m) r = node_val m r \<and> owner (mem_alloc u p nd m) r = owner m r"
    if "r \<in> set (hist m)" for r
    using that stacks_okD(6) [OF assms] by (auto simp: node_val_def)
  show "pushed_by t (mem_alloc u p nd m) = pushed_by t m" by (rule values_cong(1) [OF assms same]) simp_all
  show "popped_by t (mem_alloc u p nd m) = popped_by t m" by (rule values_cong(2) [OF assms same]) simp_all
qed (simp_all add: pushed_by_def popped_by_def node_val_def mem_publish_def mem_remove_def mem_free_def mine_def
    filter_diff_mset multiset.map_comp comp_def)

section \<open>Conservation\<close>

lemma mset_partition:
  assumes "\<And>x. x \<in># M \<Longrightarrow> f x < (n :: nat)"
  shows "(\<Sum>t < n. filter_mset (\<lambda>x. f x = t) M) = M"
  using assms
proof (induction M)
  case (add x M)
  have "(\<Sum>t < n. filter_mset (\<lambda>x. f x = t) (add_mset x M)) =
      (\<Sum>t < n. filter_mset (\<lambda>x. f x = t) M + (if t = f x then {#x#} else {#}))"
    by (intro sum.cong) auto
  also have "\<dots> = M + {#x#}" using add by (simp add: sum.distrib)
  finally show ?case by simp
qed simp

lemma sum_image_mset: "(\<Sum>t < (n :: nat). image_mset f (F t)) = image_mset f (\<Sum>t < n. F t)"
  by (induction n) auto

text \<open>
  If every thread has a number below \<open>n\<close>, then at any moment the values the threads have pushed
  are the values in the stacks and the values the threads have unlinked, with multiplicities.
\<close>

lemma node_conservation:
  assumes ok: "stacks_ok m ts" and n: "\<And>t. n \<le> t \<Longrightarrow> pushed_by t m = [] \<and> popped_by t m = {#}"
  shows "(\<Sum>t < n. mset (pushed_by t m)) = image_mset (node_val m) (mset (concat (subs m ts))) + (\<Sum>t < n. popped_by t m)"
proof -
  have own: "\<exists>u. owner m p = Some u" if "p \<in> set (hist m)" for p
    using that stacks_okD(6,8) [OF ok] by blast
  have push: "mset (pushed_by t m) = image_mset (node_val m) (filter_mset (\<lambda>p. the (owner m p) = t) (mset (hist m)))" for t
    using own unfolding pushed_by_def mset_map mset_filter
    by (intro arg_cong [where f = "image_mset (node_val m)"] filter_mset_cong) force+
  have lt: "the (owner m p) < n" if "p \<in># mset (hist m)" for p
  proof (rule ccontr)
    assume "\<not> the (owner m p) < n"
    then have "mset (pushed_by (the (owner m p)) m) = {#}" using n by simp
    then show False using that unfolding push by (auto simp: filter_mset_eq_conv)
  qed
  let ?R = "mset (removed m) + mset (freed m)"
  have pop: "popped_by t m = image_mset (node_val m \<circ> fst) (filter_mset (\<lambda>x. snd x = t) ?R)" for t
    by (simp add: popped_by_def case_prod_unfold)
  have lt': "snd x < n" if "x \<in># ?R" for x
  proof (rule ccontr)
    assume "\<not> snd x < n"
    then have "popped_by (snd x) m = {#}" using n by simp
    then show False using that unfolding pop by (auto simp: filter_mset_eq_conv)
  qed
  have "(\<Sum>t < n. mset (pushed_by t m)) = image_mset (node_val m) (mset (hist m))"
    unfolding push sum_image_mset using mset_partition [of "mset (hist m)" "\<lambda>p. the (owner m p)", OF lt] by simp
  moreover have "(\<Sum>t < n. popped_by t m) = image_mset (node_val m \<circ> fst) ?R"
    unfolding pop sum_image_mset using mset_partition [of ?R snd, OF lt'] by (simp only:)
  moreover have "mset (hist m) = mset (concat (subs m ts)) + image_mset fst ?R"
    using stacks_okD(7) [OF ok] by (simp add: ac_simps)
  ultimately show ?thesis by (simp add: multiset.map_comp comp_def)
qed

section \<open>Whole operations of a thread that runs alone\<close>

lemma stacks_push_alone:
  assumes ok: "stacks_ok m tops" and i: "i < length tops" and p: "p \<noteq> NULL" "p \<notin> set (allocd m)"
    and m': "m' = mem_publish p (mem_set_next p (fst (tops ! i)) (mem_alloc t p nd m))"
  shows "stacks_ok m' (tops[i := (p, snd (tops ! i) + 1)])" "subs m' (tops[i := (p, snd (tops ! i) + 1)]) = (subs m tops)[i := p # subs m tops ! i]"
    "heap m' p = Some (nd\<lparr>n_next := fst (tops ! i)\<rparr>)" "q \<in> set (hist m) \<Longrightarrow> heap m' q = heap m q" "hist m' = p # hist m"
    "p \<notin> set (hist m)"
proof -
  let ?q = "fst (tops ! i)"
  let ?nd = "nd\<lparr>n_next := ?q\<rparr>" and ?m1 = "mem_alloc t p nd m"
  let ?m2 = "mem_set_next p ?q ?m1"
  show nh: "p \<notin> set (hist m)" using p stacks_okD(6) [OF ok] by blast
  have m1: "stacks_ok ?m1 tops" "mine ?m1 t p" using stacks_ok_alloc [OF ok p(2,1)] nh by (auto simp: mine_def)
  have m2: "stacks_ok ?m2 tops" "mine ?m2 t p" using stacks_ok_set_next [OF m1] m1(2) by simp_all
  have h2: "heap ?m2 p = Some ?nd" "heap ?m2 = (heap m)(p \<mapsto> ?nd)" by (simp_all add: mem_set_next_def)
  have n: "n_next ?nd = ?q" by simp
  show "stacks_ok m' (tops[i := (p, snd (tops ! i) + 1)])" unfolding m' by (rule stacks_ok_publish [OF m2(1) i m2(2) h2(1) n])
  have "subs ?m2 tops = subs m tops"
    using subs_heap_upd [OF ok nh, of "Some ?nd"] subs_cong [of ?m2 "m\<lparr>heap := (heap m)(p \<mapsto> ?nd)\<rparr>"] h2(2) by simp
  then show "subs m' (tops[i := (p, snd (tops ! i) + 1)]) = (subs m tops)[i := p # subs m tops ! i]"
    using subs_publish [OF m2(1) i h2(1) n] subs_cong [of m' ?m2] by (simp add: m' mem_publish_def)
  show "heap m' p = Some ?nd" "q \<in> set (hist m) \<Longrightarrow> heap m' q = heap m q" "hist m' = p # hist m"
    using h2 nh by (auto simp: m' mem_publish_def)
qed

lemma stacks_pop_alone:
  assumes ok: "stacks_ok m tops" and i: "i < length tops" and p: "fst (tops ! i) = p" "p \<noteq> NULL"
  obtains nd where "heap m p = Some nd" "subs m tops ! i = p # tl (subs m tops ! i)" "0 < snd (tops ! i)"
    "stacks_ok (mem_free t p (mem_remove t p m)) (tops[i := (n_next nd, snd (tops ! i) - 1)])"
    "subs (mem_free t p (mem_remove t p m)) (tops[i := (n_next nd, snd (tops ! i) - 1)]) = (subs m tops)[i := tl (subs m tops ! i)]"
proof -
  let ?m = "mem_free t p (mem_remove t p m)"
  obtain nd where nd: "heap m p = Some nd" and top: "subs m tops ! i = p # tl (subs m tops ! i)"
    using chain_top [OF stacks_okD(3) [OF ok i]] p by auto
  let ?ts = "tops[i := (n_next nd, snd (tops ! i) - 1)]"
  have "stacks_ok ?m ?ts"
    using stacks_ok_free [of "mem_remove t p m" ?ts p t] stacks_ok_remove [OF ok i p nd] by (simp add: mem_remove_def)
  moreover have "subs ?m ?ts = (subs m tops)[i := tl (subs m tops ! i)]"
    using subs_remove(3) [OF ok i p nd] subs_cong [of ?m m] by (simp add: mem_remove_def mem_free_def)
  ultimately show thesis using that nd top subs_remove(2) [OF ok i p nd] by blast
qed

section \<open>Counting the nodes\<close>

text \<open>
  The \<^verbatim>\<open>stack_size\<close> functions of the array designs: the inner loop walks one linked list, the outer one the array.
  \<open>getm\<close> shows the node memory and \<open>topf\<close> the top pointer at an index.
\<close>

fun size_walk :: "('g \<Rightarrow> node_mem) \<Rightarrow> nat \<Rightarrow> ptr \<Rightarrow> u64 \<Rightarrow> ('g, u64) prog" where
  "size_walk getm 0 node sz = NoFuel"
| "size_walk getm (Suc n) node sz =
     (if node \<noteq> NULL then
        pbind (rd_opt (\<lambda>g. map_option n_next (heap (getm g) node))) (\<lambda>nxt.
        size_walk getm n nxt (add64 sz 1))
      else Ret sz)"

fun size_loop :: "('g \<Rightarrow> node_mem) \<Rightarrow> ('g \<Rightarrow> nat \<Rightarrow> ptr option) \<Rightarrow> nat \<Rightarrow> u64 list \<Rightarrow> u64 \<Rightarrow> ('g, u64) prog" where
  "size_loop getm topf fuel [] sz = Ret sz"
| "size_loop getm topf fuel (i # is) sz =
     pbind (rd_opt (\<lambda>g. topf g i)) (\<lambda>node.
     pbind (size_walk getm fuel node sz) (\<lambda>sz.
     size_loop getm topf fuel is sz))"

lemmas size_walk_num [prog_unfold] = size_walk.simps(2) [of _ "pred_numeral k" for k, folded numeral_eq_Suc]

lemma size_walk_seq:
  assumes "chain (heap (getm g)) p xs" "length xs < n" "sz + length xs < W64"
  shows "wp (size_walk getm n p sz) (\<lambda>r h. r = sz + length xs \<and> h = g) g"
  using assms
proof (induction n arbitrary: p xs sz)
  case (Suc n)
  show ?case
  proof (cases xs)
    case Nil
    then show ?thesis using Suc.prems by simp
  next
    case (Cons x ys)
    then obtain nd where nd: "p = x" "x \<noteq> NULL" "heap (getm g) x = Some nd" "chain (heap (getm g)) (n_next nd) ys"
      using Suc.prems(1) by (auto split: option.splits)
    then have "wp (size_walk getm n (n_next nd) (sz + 1)) (\<lambda>r h. r = (sz + 1) + length ys \<and> h = g) g"
      using Suc.prems Cons by (intro Suc.IH) auto
    moreover have "(sz + 1) + length ys = sz + length xs" using Cons by simp
    ultimately have "wp (size_walk getm n (n_next nd) (sz + 1)) (\<lambda>r h. r = sz + length xs \<and> h = g) g" by (simp only:)
    then show ?thesis using nd Cons Suc.prems(3) by (simp add: add64_eq)
  qed
qed simp

lemma size_loop_seq:
  assumes ok: "stacks_ok (getm g) tops" and topf: "\<And>i. i < length tops \<Longrightarrow> topf g i = Some (fst (tops ! i))"
    and "\<forall>j \<in> set is. j < length tops \<and> length (subs (getm g) tops ! j) < fuel"
    and "sz + (\<Sum>j \<leftarrow> is. length (subs (getm g) tops ! j)) < W64"
  shows "wp (size_loop getm topf fuel is sz) (\<lambda>r h. r = sz + (\<Sum>j \<leftarrow> is. length (subs (getm g) tops ! j)) \<and> h = g) g"
  using assms(3,4)
proof (induction "is" arbitrary: sz)
  case (Cons i "is")
  have i: "i < length tops" using Cons.prems by simp
  note c = stacks_okD(3) [OF ok i]
  let ?n = "length (subs (getm g) tops ! i)" and ?m = "\<Sum>j \<leftarrow> is. length (subs (getm g) tops ! j)"
  have rest: "wp (size_loop getm topf fuel is (sz + ?n)) (\<lambda>r h. r = (sz + ?n) + ?m \<and> h = g) g"
    using Cons.prems by (intro Cons.IH) auto
  have "wp (size_walk getm fuel (fst (tops ! i)) sz)
     (\<lambda>r. wp (size_loop getm topf fuel is r) (\<lambda>r h. r = sz + (\<Sum>j \<leftarrow> i # is. length (subs (getm g) tops ! j)) \<and> h = g)) g"
    using Cons.prems rest by (intro wp_mono [OF size_walk_seq [of getm g, OF c]]) (auto simp: add.assoc)
  then show ?case using topf [OF i] by simp
qed simp

lemma run_size_loop:
  assumes ok: "stacks_ok (getm g) tops" and topf: "\<And>i. i < length tops \<Longrightarrow> topf g i = Some (fst (tops ! i))"
    and "length (concat (subs (getm g) tops)) < W64" "\<forall>xs \<in> set (subs (getm g) tops). length xs < fuel"
  shows "run (size_loop getm topf fuel [0 ..< length tops] 0) g = (Done (length (concat (subs (getm g) tops))), g)"
proof -
  have "map (\<lambda>j. length (subs (getm g) tops ! j)) [0 ..< length tops] = map length (subs (getm g) tops)"
    by (intro nth_equalityI) simp_all
  then have sum: "(\<Sum>j \<leftarrow> [0 ..< length tops]. length (subs (getm g) tops ! j)) = length (concat (subs (getm g) tops))"
    by (simp add: length_concat)
  have "wp (size_loop getm topf fuel [0 ..< length tops] 0)
      (\<lambda>r h. r = 0 + (\<Sum>j \<leftarrow> [0 ..< length tops]. length (subs (getm g) tops ! j)) \<and> h = g) g"
    using assms sum by (intro size_loop_seq) auto
  then show ?thesis using sum by (auto simp: wp_run)
qed

end
