(* ===== verification/Node_Queues.thy ===== *)
theory Node_Queues
  imports Node_Stacks
begin

text \<open>
  The linked nodes of the queue designs (\<^verbatim>\<open>node_t\<close> of \<^verbatim>\<open>2Dd-queue.h\<close>, the elastic queues and the
  Michael-Scott queue) and the steps a thread makes on them: take a node from the allocator, link
  it behind the last node of a sub-queue, advance the tail of a sub-queue, advance its head, free the
  node that was the head.

  Two fields are no part of the C state. \<open>links\<close> lists, for every sub-queue, all nodes ever linked
  into it: the first is the sentinel that \<^verbatim>\<open>create_queue\<close> puts there, and the number of a node in this list is the number of
  enqueues up to its own. \<open>taken\<close> lists the nodes whose values were dequeued, with the thread that
  did it. The heads and tails are pairs of a pointer and a count, as the descriptors
  hold them; the invariant says that the count is the number of the node.
\<close>

section \<open>Memory\<close>

record queue_mem =
  nodes :: node_mem
  links :: "ptr list list"
  taken :: "(ptr \<times> nat) list"

definition qm_alloc :: "nat \<Rightarrow> ptr \<Rightarrow> mnode \<Rightarrow> queue_mem \<Rightarrow> queue_mem" where
  "qm_alloc t p nd m = m\<lparr>nodes := mem_alloc t p nd (nodes m)\<rparr>"

definition qm_link :: "nat \<Rightarrow> ptr \<Rightarrow> ptr \<Rightarrow> queue_mem \<Rightarrow> queue_mem" where
  "qm_link i tail p m =
     m\<lparr>nodes := mem_publish p (mem_set_next tail p (nodes m)), links := (links m)[i := links m ! i @ [p]]\<rparr>"

definition qm_take :: "nat \<Rightarrow> ptr \<Rightarrow> ptr \<Rightarrow> queue_mem \<Rightarrow> queue_mem" where
  "qm_take t head nxt m = m\<lparr>nodes := mem_remove t head (nodes m), taken := (nxt, t) # taken m\<rparr>"

definition qm_free :: "nat \<Rightarrow> ptr \<Rightarrow> queue_mem \<Rightarrow> queue_mem" where
  "qm_free t p m = m\<lparr>nodes := mem_free t p (nodes m)\<rparr>"

lemmas qm_defs [prog_unfold] = qm_alloc_def qm_link_def qm_take_def qm_free_def

section \<open>Well-formed queues\<close>

definition next_link :: "ptr list \<Rightarrow> nat \<Rightarrow> ptr" where
  "next_link q k = (if k + 1 < length q then q ! (k + 1) else NULL)"

definition linked :: "heap \<Rightarrow> ptr list \<Rightarrow> bool" where
  "linked h q \<longleftrightarrow> q \<noteq> [] \<and> (\<forall>k < length q. map_option n_next (h (q ! k)) = Some (next_link q k))"

definition sub_ok :: "heap \<Rightarrow> ptr list \<Rightarrow> ptr \<times> nat \<Rightarrow> ptr \<times> nat \<Rightarrow> bool" where
  "sub_ok h q a b \<longleftrightarrow> linked h q \<and> snd a \<le> snd b \<and> snd b < length q \<and> length q \<le> snd b + 2 \<and>
     fst a = q ! snd a \<and> fst b = q ! snd b"

definition queues_ok :: "queue_mem \<Rightarrow> tops \<Rightarrow> tops \<Rightarrow> bool" where
  "queues_ok m hs ts \<longleftrightarrow>
     dom (heap (nodes m)) = set (allocd (nodes m)) \<and> NULL \<notin> set (allocd (nodes m)) \<and>
     dom (owner (nodes m)) = set (allocd (nodes m)) \<and>
     length hs = length (links m) \<and> length ts = length (links m) \<and>
     (\<forall>i < length (links m). sub_ok (heap (nodes m)) (links m ! i) (hs ! i) (ts ! i)) \<and>
     distinct (concat (links m)) \<and> set (concat (links m)) \<subseteq> set (allocd (nodes m)) \<and>
     mset (hist (nodes m)) = mset (concat (map tl (links m))) \<and>
     mset (map fst (taken m)) = mset (concat (map2 (\<lambda>q h. take (snd h) (tl q)) (links m) hs)) \<and>
     mset (map fst (removed (nodes m))) + mset (map fst (freed (nodes m))) =
       mset (concat (map2 (\<lambda>q h. take (snd h) q) (links m) hs))"

lemma queues_okD:
  assumes "queues_ok m hs ts"
  shows "dom (heap (nodes m)) = set (allocd (nodes m))" "NULL \<notin> set (allocd (nodes m))"
    "dom (owner (nodes m)) = set (allocd (nodes m))"
    "length hs = length (links m)" "length ts = length (links m)"
    "i < length (links m) \<Longrightarrow> sub_ok (heap (nodes m)) (links m ! i) (hs ! i) (ts ! i)"
    "distinct (concat (links m))" "set (concat (links m)) \<subseteq> set (allocd (nodes m))"
    "mset (hist (nodes m)) = mset (concat (map tl (links m)))"
    "mset (map fst (taken m)) = mset (concat (map2 (\<lambda>q h. take (snd h) (tl q)) (links m) hs))"
    "mset (map fst (removed (nodes m))) + mset (map fst (freed (nodes m))) =
       mset (concat (map2 (\<lambda>q h. take (snd h) q) (links m) hs))"
  using assms by (auto simp: queues_ok_def)

lemma queues_okI:
  assumes "dom (heap (nodes m)) = set (allocd (nodes m))" "NULL \<notin> set (allocd (nodes m))"
    "dom (owner (nodes m)) = set (allocd (nodes m))"
    "length hs = length (links m)" "length ts = length (links m)"
    "\<And>i. i < length (links m) \<Longrightarrow> sub_ok (heap (nodes m)) (links m ! i) (hs ! i) (ts ! i)"
    "distinct (concat (links m))" "set (concat (links m)) \<subseteq> set (allocd (nodes m))"
    "mset (hist (nodes m)) = mset (concat (map tl (links m)))"
    "mset (map fst (taken m)) = mset (concat (map2 (\<lambda>q h. take (snd h) (tl q)) (links m) hs))"
    "mset (map fst (removed (nodes m))) + mset (map fst (freed (nodes m))) =
       mset (concat (map2 (\<lambda>q h. take (snd h) q) (links m) hs))"
  shows "queues_ok m hs ts"
  using assms by (simp add: queues_ok_def)

lemma linked_upd: "linked h q \<Longrightarrow> p \<notin> set q \<Longrightarrow> linked (h(p := v)) q"
  by (auto simp: linked_def dest: nth_mem)

lemma sub_ok_upd: "sub_ok h q a b \<Longrightarrow> p \<notin> set q \<Longrightarrow> sub_ok (h(p := v)) q a b"
  by (simp add: sub_ok_def linked_upd)

lemma in_links: "i < length (links m) \<Longrightarrow> k < length (links m ! i) \<Longrightarrow> links m ! i ! k \<in> set (concat (links m))"
  by (auto intro!: bexI [of _ "links m ! i"])

lemma in_links_set: "i < length (links m) \<Longrightarrow> set (links m ! i) \<subseteq> set (concat (links m))"
  by (auto intro!: bexI [of _ "links m ! i"])

text \<open>A node is in one place only.\<close>

lemma links_inj:
  assumes "queues_ok m hs ts" "i < length (links m)" "k < length (links m ! i)" "k' < length (links m ! i)"
    "links m ! i ! k = links m ! i ! k'"
  shows "k = k'"
proof -
  have "distinct (links m ! i)" using queues_okD(7) [OF assms(1)] assms(2) by (simp add: distinct_concat_iff)
  then show ?thesis using assms(3-) by (simp add: nth_eq_iff_index_eq)
qed

lemma links_null:
  assumes "queues_ok m hs ts" "i < length (links m)" "k < length (links m ! i)"
  shows "links m ! i ! k \<noteq> NULL" "\<exists>nd. heap (nodes m) (links m ! i ! k) = Some nd"
proof -
  have "links m ! i ! k \<in> set (allocd (nodes m))" using in_links [OF assms(2,3)] queues_okD(8) [OF assms(1)] by blast
  then show "links m ! i ! k \<noteq> NULL" "\<exists>nd. heap (nodes m) (links m ! i ! k) = Some nd"
    using queues_okD(1,2) [OF assms(1)] by metis (use \<open>links m ! i ! k \<in> set (allocd (nodes m))\<close> queues_okD(1) [OF assms(1)] in blast)
qed

text \<open>What the \<^verbatim>\<open>next\<close> field of the node with number \<open>k\<close> holds.\<close>

lemma links_next:
  assumes "queues_ok m hs ts" "i < length (links m)" "k < length (links m ! i)" "heap (nodes m) (links m ! i ! k) = Some nd"
  shows "n_next nd = NULL \<longleftrightarrow> k + 1 = length (links m ! i)"
    and "k + 1 < length (links m ! i) \<Longrightarrow> n_next nd = links m ! i ! (k + 1)"
proof -
  have l: "linked (heap (nodes m)) (links m ! i)" using queues_okD(6) [OF assms(1,2)] by (simp add: sub_ok_def)
  have "map_option n_next (heap (nodes m) (links m ! i ! k)) = Some (next_link (links m ! i) k)"
    using l assms(3) by (simp add: linked_def)
  then have n: "n_next nd = (if k + 1 < length (links m ! i) then links m ! i ! (k + 1) else NULL)"
    using assms(4) by (simp add: next_link_def)
  then show "k + 1 < length (links m ! i) \<Longrightarrow> n_next nd = links m ! i ! (k + 1)" by simp
  show "n_next nd = NULL \<longleftrightarrow> k + 1 = length (links m ! i)"
    using n assms(3) links_null(1) [OF assms(1,2), of "k + 1"] by (cases "k + 1 < length (links m ! i)") auto
qed

lemma queues_hist:
  assumes "queues_ok m hs ts"
  shows "set (hist (nodes m)) \<subseteq> set (concat (links m))"
proof
  fix p
  assume "p \<in> set (hist (nodes m))"
  then have "p \<in># mset (concat (map tl (links m)))" using queues_okD(9) [OF assms] by (metis set_mset_mset)
  then obtain q where "q \<in> set (links m)" "p \<in> set (tl q)" by auto
  moreover have "set (tl q) \<subseteq> set q" by (cases q) auto
  ultimately show "p \<in> set (concat (links m))" by auto
qed

section \<open>The steps of a thread\<close>

inductive queue_step :: "nat \<Rightarrow> queue_mem \<times> tops \<times> tops \<Rightarrow> queue_mem \<times> tops \<times> tops \<Rightarrow> bool" for t where
  qs_alloc: "p \<notin> set (allocd (nodes m)) \<Longrightarrow> p \<noteq> NULL \<Longrightarrow> queue_step t (m, hs, ts) (qm_alloc t p nd m, hs, ts)"
| qs_link: "i < length (links m) \<Longrightarrow> links m ! i ! snd (ts ! i) = q \<Longrightarrow> snd (ts ! i) + 1 = length (links m ! i) \<Longrightarrow>
    mine (nodes m) t p \<Longrightarrow> p \<notin> set (concat (links m)) \<Longrightarrow> heap (nodes m) p = Some nd \<Longrightarrow> n_next nd = NULL \<Longrightarrow>
    queue_step t (m, hs, ts) (qm_link i q p m, hs, ts)"
| qs_advance: "i < length (links m) \<Longrightarrow> snd (ts ! i) + 1 < length (links m ! i) \<Longrightarrow>
    queue_step t (m, hs, ts) (m, hs, ts[i := (links m ! i ! (snd (ts ! i) + 1), snd (ts ! i) + 1)])"
| qs_take: "i < length (links m) \<Longrightarrow> snd (hs ! i) < snd (ts ! i) \<Longrightarrow> k = snd (hs ! i) \<Longrightarrow>
    queue_step t (m, hs, ts) (qm_take t (links m ! i ! k) (links m ! i ! (k + 1)) m, hs[i := (links m ! i ! (k + 1), k + 1)], ts)"
| qs_free: "(p, t) \<in> set (removed (nodes m)) \<Longrightarrow> queue_step t (m, hs, ts) (qm_free t p m, hs, ts)"

inductive_cases queue_stepE: "queue_step t (m, hs, ts) (m', hs', ts')"

lemma queues_ok_alloc:
  assumes ok: "queues_ok m hs ts" and p: "p \<notin> set (allocd (nodes m))" "p \<noteq> NULL"
  shows "queues_ok (qm_alloc t p nd m) hs ts"
proof -
  have "p \<notin> set (links m ! i)" if "i < length (links m)" for i
    using queues_okD(8) [OF ok] in_links_set [OF that] p(1) by blast
  then have "sub_ok ((heap (nodes m))(p \<mapsto> nd)) (links m ! i) (hs ! i) (ts ! i)" if "i < length (links m)" for i
    using queues_okD(6) [OF ok that] that by (intro sub_ok_upd)
  then show ?thesis using ok p by (auto simp: queues_ok_def qm_alloc_def mem_alloc_def)
qed

lemma linked_append:
  assumes l: "linked h q" and q: "distinct q" "p \<notin> set q" "last q = e" and p: "h p = Some nd" "n_next nd = NULL" and e: "h e = Some nl"
  shows "linked (h(e \<mapsto> nl\<lparr>n_next := p\<rparr>)) (q @ [p])"
proof -
  have ne: "q \<noteq> []" and last: "e = q ! (length q - 1)" using l q(3) by (auto simp: linked_def last_conv_nth)
  have pe: "p \<noteq> e" using q(2,3) ne by auto
  have "map_option n_next ((h(e \<mapsto> nl\<lparr>n_next := p\<rparr>)) ((q @ [p]) ! k)) = Some (next_link (q @ [p]) k)"
    if k: "k < length q + 1" for k
  proof -
    consider "k = length q" | "k + 1 = length q" "k = length q - 1" | "k + 1 < length q" using k by fastforce
    then show ?thesis
    proof cases
      case 1
      then show ?thesis using p pe by (simp add: nth_append next_link_def)
    next
      case 2
      then have "q ! k = e" "k < length q" using last by auto
      then show ?thesis using 2(1) by (simp add: nth_append next_link_def)
    next
      case 3
      then have "q ! k \<noteq> e" using last q(1) by (simp add: nth_eq_iff_index_eq)
      moreover have "map_option n_next (h (q ! k)) = Some (next_link q k)" using l 3 unfolding linked_def by (meson add_lessD1)
      moreover have "next_link (q @ [p]) k = next_link q k" "(q @ [p]) ! k = q ! k" using 3 by (auto simp: nth_append next_link_def)
      ultimately show ?thesis unfolding fun_upd_def by (simp only: if_False)
    qed
  qed
  then show ?thesis using ne by (simp add: linked_def)
qed

lemma distinct_concat_nth:
  "distinct (concat xss) \<Longrightarrow> i < length xss \<Longrightarrow> j < length xss \<Longrightarrow> i \<noteq> j \<Longrightarrow> set (xss ! i) \<inter> set (xss ! j) = {}"
proof (induction xss arbitrary: i j)
  case (Cons xs xss)
  have "set xs \<inter> set (xss ! k) = {}" if "k < length xss" for k
    using Cons.prems(1) nth_mem [OF that] unfolding concat.simps distinct_append set_concat by blast
  then show ?case using Cons by (cases i; cases j) auto
qed simp

lemma map2_update: "length xs = length ys \<Longrightarrow> map2 f (xs[i := x]) (ys[i := y]) = (map2 f xs ys)[i := f x y]"
  by (simp add: map_update zip_update)

lemma map2_update_same:
  assumes "length xs = length ys" "i < length xs" "f x (ys ! i) = f (xs ! i) (ys ! i)"
  shows "map2 f (xs[i := x]) ys = map2 f xs ys"
  using map2_update [OF assms(1), of f i x "ys ! i"] assms list_update_id [of "map2 f xs ys" i] by simp

lemma map2_nth: "length xs = length ys \<Longrightarrow> i < length xs \<Longrightarrow> map2 f xs ys ! i = f (xs ! i) (ys ! i)"
  by simp

text \<open>Adding one element to one of the lists adds it to their union.\<close>

lemma mset_concat_snoc:
  "i < length xss \<Longrightarrow> mset (concat (xss[i := xss ! i @ [x]])) = add_mset x (mset (concat xss))"
  using mset_concat_update [of i xss "xss ! i @ [x]"] by simp

lemma queues_ok_link:
  assumes ok: "queues_ok m hs ts" and i: "i < length (links m)" and e: "links m ! i ! snd (ts ! i) = e"
    and lst: "snd (ts ! i) + 1 = length (links m ! i)"
    and p: "p \<notin> set (concat (links m))" "p \<in> set (allocd (nodes m))" "heap (nodes m) p = Some nd" "n_next nd = NULL"
  shows "queues_ok (qm_link i e p m) hs ts"
proof -
  let ?q = "links m ! i" and ?m = "qm_link i e p m"
  note D = queues_okD [OF ok]
  have dist: "distinct ?q" using D(7) i by (simp add: distinct_concat_iff)
  have ne: "?q \<noteq> []" using lst by auto
  have "length ?q - 1 = snd (ts ! i)" using lst by simp
  then have q: "?q \<noteq> []" "last ?q = e" using ne e by (simp_all add: last_conv_nth)
  have pq: "p \<notin> set (links m ! j)" if "j < length (links m)" for j using p(1) in_links_set [OF that] by blast
  obtain nl where nl: "heap (nodes m) e = Some nl" using links_null(2) [OF ok i, of "snd (ts ! i)"] e lst by auto
  have heap: "heap (nodes ?m) = (heap (nodes m))(e \<mapsto> nl\<lparr>n_next := p\<rparr>)"
    using nl by (simp add: qm_link_def mem_set_next_def mem_publish_def)
  have sub: "sub_ok (heap (nodes ?m)) (links ?m ! j) (hs ! j) (ts ! j)" if j: "j < length (links m)" for j
  proof (cases "j = i")
    case True
    have l: "linked (heap (nodes ?m)) (?q @ [p])"
      unfolding heap using D(6) [OF i] dist pq [OF i] q(2) p(3,4) nl by (intro linked_append) (auto simp: sub_ok_def)
    then show ?thesis using True D(6) [OF i] i lst by (simp add: sub_ok_def qm_link_def nth_append)
  next
    case False
    have "e \<notin> set (links m ! j)"
    proof
      assume "e \<in> set (links m ! j)"
      moreover have "e \<in> set ?q" using q by auto
      ultimately show False using distinct_concat_nth [OF D(7) j i False] by blast
    qed
    then show ?thesis using False D(6) [OF j] unfolding heap by (simp add: qm_link_def sub_ok_upd)
  qed
  have tls: "mset (concat (map tl (links ?m))) = add_mset p (mset (concat (map tl (links m))))"
  proof -
    have "map tl (links ?m) = (map tl (links m))[i := map tl (links m) ! i @ [p]]"
      using i q by (simp add: qm_link_def map_update)
    then show ?thesis using mset_concat_snoc [of i "map tl (links m)" p] i by simp
  qed
  have all: "mset (concat (links ?m)) = mset (p # concat (links m))"
    using mset_concat_snoc [OF i, of p] by (simp add: qm_link_def)
  have d': "distinct (concat (links ?m))" using mset_eq_imp_distinct_iff [OF all] D(7) p(1) by simp
  have s': "set (concat (links ?m)) = insert p (set (concat (links m)))" using mset_eq_setD [OF all] by simp
  have h: "snd (hs ! i) \<le> length (tl ?q)" "snd (hs ! i) \<le> length ?q" using D(6) [OF i] by (auto simp: sub_ok_def)
  have lk: "links ?m = (links m)[i := ?q @ [p]]" by (simp add: qm_link_def)
  have tk: "map2 (\<lambda>q h. take (snd h) (tl q)) (links ?m) hs = map2 (\<lambda>q h. take (snd h) (tl q)) (links m) hs"
    unfolding lk by (rule map2_update_same) (use D(4) h(1) q(1) i in simp_all)
  have rm: "map2 (\<lambda>q h. take (snd h) q) (links ?m) hs = map2 (\<lambda>q h. take (snd h) q) (links m) hs"
    unfolding lk by (rule map2_update_same) (use D(4) h(2) i in simp_all)
  have sel: "allocd (nodes ?m) = allocd (nodes m)" "owner (nodes ?m) = owner (nodes m)" "hist (nodes ?m) = p # hist (nodes m)"
    "removed (nodes ?m) = removed (nodes m)" "freed (nodes ?m) = freed (nodes m)" "taken ?m = taken m" "length (links ?m) = length (links m)"
    by (simp_all add: qm_link_def mem_publish_def)
  have dom: "dom (heap (nodes ?m)) = set (allocd (nodes m))" unfolding heap using D(1) nl by auto
  show ?thesis
    by (rule queues_okI) (use D(2-5,8-11) dom sub d' s' tls tk rm p(2) in \<open>simp_all add: sel\<close>)
qed

lemma queues_ok_advance:
  assumes ok: "queues_ok m hs ts" and i: "i < length (links m)" and k: "snd (ts ! i) + 1 < length (links m ! i)"
  shows "queues_ok m hs (ts[i := (links m ! i ! (snd (ts ! i) + 1), snd (ts ! i) + 1)])"
proof -
  note D = queues_okD [OF ok]
  have "sub_ok (heap (nodes m)) (links m ! j) (hs ! j) (ts[i := (links m ! i ! (snd (ts ! i) + 1), snd (ts ! i) + 1)] ! j)"
    if "j < length (links m)" for j
    using D(6) [OF that] D(5) i k by (cases "j = i") (auto simp: sub_ok_def)
  then show ?thesis by (intro queues_okI) (use D in simp_all)
qed

lemma queues_ok_take:
  assumes ok: "queues_ok m hs ts" and i: "i < length (links m)" and k: "snd (hs ! i) < snd (ts ! i)" "k = snd (hs ! i)"
  shows "queues_ok (qm_take t (links m ! i ! k) (links m ! i ! (k + 1)) m) (hs[i := (links m ! i ! (k + 1), k + 1)]) ts"
proof -
  let ?q = "links m ! i" and ?hs = "hs[i := (links m ! i ! (k + 1), k + 1)]"
  let ?m = "qm_take t (links m ! i ! k) (links m ! i ! (k + 1)) m"
  note D = queues_okD [OF ok]
  have len: "k + 1 < length ?q" "i < length hs" using D(6) [OF i] D(4) i k by (auto simp: sub_ok_def)
  have sub: "sub_ok (heap (nodes m)) (links m ! j) (?hs ! j) (ts ! j)" if "j < length (links m)" for j
    using D(6) [OF that] len k by (cases "j = i") (auto simp: sub_ok_def)
  have upd: "map2 f (links m) ?hs = (map2 f (links m) hs)[i := f ?q (links m ! i ! (k + 1), k + 1)]"
    for f :: "ptr list \<Rightarrow> ptr \<times> nat \<Rightarrow> ptr list"
    using map2_update [OF D(4) [symmetric], of f i ?q] by simp
  have tk: "mset (concat (map2 (\<lambda>q h. take (snd h) (tl q)) (links m) ?hs)) =
      add_mset (?q ! (k + 1)) (mset (concat (map2 (\<lambda>q h. take (snd h) (tl q)) (links m) hs)))"
  proof -
    have "take (k + 1) (tl ?q) = take k (tl ?q) @ [?q ! (k + 1)]" 
      using len(1) take_Suc_conv_app_nth [of k "tl ?q"] unfolding Suc_eq_plus1 by (simp add: nth_tl Suc_eq_plus1)
    then show ?thesis
      using mset_concat_snoc [of i "map2 (\<lambda>q h. take (snd h) (tl q)) (links m) hs" "?q ! (k + 1)"] i len k(2) unfolding upd by simp
  qed
  have rm: "mset (concat (map2 (\<lambda>q h. take (snd h) q) (links m) ?hs)) =
      add_mset (?q ! k) (mset (concat (map2 (\<lambda>q h. take (snd h) q) (links m) hs)))"
  proof -
    have "take (k + 1) ?q = take k ?q @ [?q ! k]"
      using len(1) take_Suc_conv_app_nth [of k ?q] unfolding Suc_eq_plus1 by simp
    then show ?thesis
      using mset_concat_snoc [of i "map2 (\<lambda>q h. take (snd h) q) (links m) hs" "?q ! k"] i len k(2) unfolding upd by simp
  qed
  show ?thesis
    by (rule queues_okI) (use D(1-5,7-11) sub tk rm in \<open>simp_all add: qm_take_def mem_remove_def\<close>)
qed

lemma queues_ok_free:
  assumes ok: "queues_ok m hs ts" and p: "(p, t) \<in> set (removed (nodes m))"
  shows "queues_ok (qm_free t p m) hs ts"
  by (rule queues_okI) (use queues_okD [OF ok] mset_remove1_fst [OF p] in \<open>simp_all add: qm_free_def mem_free_def\<close>)

lemma queue_step_ok:
  assumes "queue_step t (m, hs, ts) (m', hs', ts')" "queues_ok m hs ts"
  shows "queues_ok m' hs' ts'"
  using assms(1)
proof cases
  case (qs_link i q p nd)
  have "p \<in> set (allocd (nodes m))" using queues_okD(1) [OF assms(2)] qs_link(9) by blast
  then show ?thesis using queues_ok_link [OF assms(2) qs_link(4,5,6,8) _ qs_link(9,10)] qs_link(1-3) by simp
qed (use assms(2) in \<open>auto intro: queues_ok_alloc queues_ok_advance queues_ok_take queues_ok_free\<close>)

section \<open>What lasts\<close>

text \<open>\<open>place m i k p\<close>: the node \<open>p\<close> has number \<open>k\<close> in sub-queue \<open>i\<close>. It keeps it for ever.\<close>

definition place :: "queue_mem \<Rightarrow> nat \<Rightarrow> nat \<Rightarrow> ptr \<Rightarrow> bool" where
  "place m i k p \<longleftrightarrow> i < length (links m) \<and> k < length (links m ! i) \<and> links m ! i ! k = p"

text \<open>A node that thread \<open>t\<close> has allocated and not linked yet.\<close>

definition unlinked :: "queue_mem \<Rightarrow> nat \<Rightarrow> ptr \<Rightarrow> bool" where
  "unlinked m t p \<longleftrightarrow> mine (nodes m) t p \<and> p \<notin> set (concat (links m))"

lemma place_inj: "queues_ok m hs ts \<Longrightarrow> place m i k p \<Longrightarrow> place m i k' p \<Longrightarrow> k = k'"
  by (auto simp: place_def intro: links_inj)

lemma qm_link_links:
  "links (qm_link i e p m) = (links m)[i := links m ! i @ [p]]"
  by (simp add: qm_link_def)

lemma queue_step_mono:
  assumes "queue_step u (m, hs, ts) (m', hs', ts')" "queues_ok m hs ts"
  shows "place m i k p \<Longrightarrow> place m' i k p" "snd (hs ! i) \<le> snd (hs' ! i)" "snd (ts ! i) \<le> snd (ts' ! i)"
    "length (links m ! i) \<le> length (links m' ! i)" "length (links m') = length (links m)"
proof -
  have len: "length hs = length (links m)" "length ts = length (links m)" using queues_okD(4,5) [OF assms(2)] by auto
  have "place m i k p \<longrightarrow> place m' i k p"
    using assms(1) by cases (auto simp: place_def qm_alloc_def qm_link_def qm_take_def qm_free_def nth_list_update nth_append)
  then show "place m i k p \<Longrightarrow> place m' i k p" by blast
  show "snd (hs ! i) \<le> snd (hs' ! i)" "snd (ts ! i) \<le> snd (ts' ! i)"
    using assms(1) len by (cases; auto simp: nth_list_update split: if_splits)+
  show "length (links m ! i) \<le> length (links m' ! i)" "length (links m') = length (links m)"
    using assms(1) by (cases; auto simp: qm_alloc_def qm_link_def qm_take_def qm_free_def nth_list_update)+
qed

text \<open>Values never change once a node is allocated.\<close>

lemma queue_step_val:
  assumes "queue_step u (m, hs, ts) (m', hs', ts')" "p \<in> set (allocd (nodes m))"
  shows "node_val (nodes m') p = node_val (nodes m) p" "owner (nodes m') p = owner (nodes m) p" "p \<in> set (allocd (nodes m'))"
  using assms
  by (cases; auto simp: node_val_def qm_alloc_def qm_link_def qm_take_def qm_free_def mem_defs split: option.splits)+

lemma queue_step_others:
  assumes "queue_step u (m, hs, ts) (m', hs', ts')" "queues_ok m hs ts" "u \<noteq> t"
  shows "unlinked m t p \<Longrightarrow> unlinked m' t p \<and> heap (nodes m') p = heap (nodes m) p"
    and "(p, t) \<in> set (removed (nodes m)) \<Longrightarrow> (p, t) \<in> set (removed (nodes m'))"
proof -
  assume p: "unlinked m t p"
  then have pa: "p \<in> set (allocd (nodes m))" using queues_okD(3) [OF assms(2)] by (auto simp: unlinked_def mine_def)
  show "unlinked m' t p \<and> heap (nodes m') p = heap (nodes m) p"
    using assms(1)
  proof cases
    case (qs_link i e q nd)
    have "p \<noteq> q" using p qs_link(7) assms(3) by (auto simp: unlinked_def mine_def)
    moreover have "p \<noteq> e" using p qs_link(4-6) in_links [OF qs_link(4), of "snd (ts ! i)"] by (auto simp: unlinked_def)
    moreover have "set (concat (links m')) = insert q (set (concat (links m)))"
      using mset_eq_setD [of "concat (links m')" "q # concat (links m)"] mset_concat_snoc [OF qs_link(4), of q]
      by (simp add: qs_link(1) qm_link_links)
    ultimately show ?thesis using p
      by (auto simp: unlinked_def mine_def qs_link(1) qm_link_def mem_publish_def mem_set_next_def split: option.split)
  next
    case (qs_alloc q nd)
    then show ?thesis using p pa by (auto simp: unlinked_def mine_def qm_alloc_def mem_alloc_def)
  qed (use p in \<open>auto simp: unlinked_def mine_def qm_take_def qm_free_def mem_remove_def mem_free_def\<close>)
next
  assume "(p, t) \<in> set (removed (nodes m))"
  with assms(1,3) show "(p, t) \<in> set (removed (nodes m'))"
    by cases (auto simp: qm_alloc_def qm_link_def qm_take_def qm_free_def mem_remove_def mem_free_def mem_publish_def)
qed

section \<open>What the threads have enqueued and dequeued\<close>

definition taken_by :: "nat \<Rightarrow> queue_mem \<Rightarrow> int list" where
  "taken_by t m = map (\<lambda>(p, u). node_val (nodes m) p) (filter (\<lambda>(p, u). u = t) (taken m))"

abbreviation sent_by :: "nat \<Rightarrow> queue_mem \<Rightarrow> int list" where
  "sent_by t m \<equiv> pushed_by t (nodes m)"

text \<open>The nodes in the queue: those behind the head of every sub-queue.\<close>

definition waiting :: "queue_mem \<Rightarrow> tops \<Rightarrow> ptr list list" where
  "waiting m hs = map2 (\<lambda>q h. drop (snd h + 1) q) (links m) hs"

lemma queues_allocd:
  assumes "queues_ok m hs ts"
  shows "set (hist (nodes m)) \<subseteq> set (allocd (nodes m))" "fst ` set (taken m) \<subseteq> set (allocd (nodes m))"
proof -
  show "set (hist (nodes m)) \<subseteq> set (allocd (nodes m))" using queues_hist [OF assms] queues_okD(8) [OF assms] by blast
  have "set (map fst (taken m)) = set (concat (map2 (\<lambda>q h. take (snd h) (tl q)) (links m) hs))"
    using queues_okD(10) [OF assms] by (rule mset_eq_setD)
  also have "\<dots> \<subseteq> set (concat (links m))"
    by (auto simp: set_zip dest!: in_set_takeD) (metis list.set_sel(2) list.sel(2) nth_mem)
  finally show "fst ` set (taken m) \<subseteq> set (allocd (nodes m))" using queues_okD(8) [OF assms] by auto
qed

lemma hist_cong:
  assumes "queues_ok m hs ts" "\<And>p. p \<in> set (allocd (nodes m)) \<Longrightarrow> node_val (nodes m') p = node_val (nodes m) p \<and> owner (nodes m') p = owner (nodes m) p"
  shows "hist (nodes m') = hist (nodes m) \<Longrightarrow> sent_by t m' = sent_by t m"
    "taken m' = taken m \<Longrightarrow> taken_by t m' = taken_by t m"
proof -
  assume h: "hist (nodes m') = hist (nodes m)"
  have same: "node_val (nodes m') p = node_val (nodes m) p \<and> owner (nodes m') p = owner (nodes m) p" if "p \<in> set (hist (nodes m))" for p
    using that queues_allocd(1) [OF assms(1)] assms(2) by blast
  then have "filter (\<lambda>p. owner (nodes m') p = Some t) (hist (nodes m')) = filter (\<lambda>p. owner (nodes m) p = Some t) (hist (nodes m))"
    using h by (auto intro: filter_cong)
  then show "sent_by t m' = sent_by t m" using same by (auto simp: pushed_by_def)
next
  assume "taken m' = taken m"
  moreover have "node_val (nodes m') p = node_val (nodes m) p" if "(p, u) \<in> set (taken m)" for p u
    using that queues_allocd(2) [OF assms(1)] assms(2) by force
  ultimately show "taken_by t m' = taken_by t m" by (auto simp: taken_by_def)
qed

lemma queue_step_values:
  assumes st: "queue_step u (m, hs, ts) (m', hs', ts')" and ok: "queues_ok m hs ts" and "u \<noteq> t"
  shows "sent_by t m' = sent_by t m" "taken_by t m' = taken_by t m"
proof -
  note same = queue_step_val [OF st]
  show "sent_by t m' = sent_by t m"
  proof (cases "hist (nodes m') = hist (nodes m)")
    case True
    then show ?thesis using hist_cong(1) [OF ok, of m' t] same by blast
  next
    case False
    with st obtain i e p where p: "m' = qm_link i e p m" "owner (nodes m) p = Some u"
      by cases (auto simp: qm_defs mem_defs mine_def)
    have "node_val (nodes m') = node_val (nodes m)"
      by (auto simp: p(1) qm_link_def mem_publish_def mem_set_next_def node_val_def fun_eq_iff split: option.split)
    then show ?thesis using assms(3) p by (simp add: pushed_by_def qm_link_def mem_publish_def)
  qed
  show "taken_by t m' = taken_by t m"
  proof (cases "taken m' = taken m")
    case True
    then show ?thesis using hist_cong(2) [OF ok, of m' t] same by blast
  next
    case False
    with st obtain p q where "m' = qm_take u p q m" by cases (auto simp: qm_alloc_def qm_link_def qm_free_def)
    then show ?thesis using assms(3) by (simp add: taken_by_def qm_take_def mem_remove_def node_val_def)
  qed
qed

text \<open>What thread \<open>t\<close>'s own steps do to its values.\<close>

lemma own_queue_values:
  assumes "queues_ok m hs ts"
  shows "p \<notin> set (allocd (nodes m)) \<Longrightarrow> sent_by t (qm_alloc u p nd m) = sent_by t m"
    and "p \<notin> set (allocd (nodes m)) \<Longrightarrow> taken_by t (qm_alloc u p nd m) = taken_by t m"
    and "mine (nodes m) t p \<Longrightarrow> sent_by t (qm_link i e p m) = node_val (nodes m) p # sent_by t m"
    and "taken_by t (qm_link i e p m) = taken_by t m"
    and "sent_by t (qm_take u p q m) = sent_by t m"
    and "taken_by t (qm_take t p q m) = node_val (nodes m) q # taken_by t m"
    and "sent_by t (qm_free u p m) = sent_by t m" and "taken_by t (qm_free u p m) = taken_by t m"
proof -
  have nv: "node_val (nodes (qm_link i e p m)) = node_val (nodes m)"
    by (auto simp: qm_link_def mem_publish_def mem_set_next_def node_val_def fun_eq_iff split: option.split)
  show "mine (nodes m) t p \<Longrightarrow> sent_by t (qm_link i e p m) = node_val (nodes m) p # sent_by t m"
    "taken_by t (qm_link i e p m) = taken_by t m"
    using nv by (simp_all add: pushed_by_def taken_by_def qm_link_def mem_publish_def mine_def)
  assume p: "p \<notin> set (allocd (nodes m))"
  have same: "node_val (nodes (qm_alloc u p nd m)) r = node_val (nodes m) r \<and> owner (nodes (qm_alloc u p nd m)) r = owner (nodes m) r"
    if "r \<in> set (allocd (nodes m))" for r
    using that p by (auto simp: node_val_def qm_alloc_def)
  show "sent_by t (qm_alloc u p nd m) = sent_by t m" "taken_by t (qm_alloc u p nd m) = taken_by t m"
    by (rule hist_cong [OF assms same]; simp add: qm_alloc_def)+
qed (simp_all add: pushed_by_def taken_by_def qm_take_def qm_free_def mem_remove_def mem_free_def node_val_def)

section \<open>Conservation\<close>

lemma mset_concat_split:
  "length xs = length ys \<Longrightarrow>
   mset (concat (map2 (\<lambda>q h. take (snd h) (tl q)) xs ys)) + mset (concat (map2 (\<lambda>q h. drop (snd h + 1) q) xs ys)) =
   mset (concat (map tl xs))"
proof (induction xs ys rule: list_induct2)
  case (Cons x xs y ys)
  have "drop (snd y + 1) x = drop (snd y) (tl x)" by (simp add: drop_Suc flip: Suc_eq_plus1)
  then have "mset (take (snd y) (tl x)) + mset (drop (snd y + 1) x) = mset (tl x)"
    by (metis append_take_drop_id mset_append)
  then show ?case using Cons by (simp add: ac_simps)
qed simp

text \<open>
  If every thread has a number below \<open>n\<close>, then at any moment the values the threads have enqueued
  are the values in the queue and the values the threads have dequeued, with multiplicities.
\<close>

lemma queue_conservation:
  assumes ok: "queues_ok m hs ts" and n: "\<And>t. n \<le> t \<Longrightarrow> sent_by t m = [] \<and> taken_by t m = []"
  shows "(\<Sum>t < n. mset (sent_by t m)) =
    image_mset (node_val (nodes m)) (mset (concat (waiting m hs))) + (\<Sum>t < n. mset (taken_by t m))"
proof -
  let ?v = "node_val (nodes m)"
  have own: "\<exists>u. owner (nodes m) p = Some u" if "p \<in> set (hist (nodes m))" for p
    using that queues_allocd(1) [OF ok] queues_okD(3) [OF ok] by blast
  have push: "mset (sent_by t m) = image_mset ?v (filter_mset (\<lambda>p. the (owner (nodes m) p) = t) (mset (hist (nodes m))))" for t
    using own unfolding pushed_by_def mset_map mset_filter
    by (intro arg_cong [where f = "image_mset ?v"] filter_mset_cong) force+
  have lt: "the (owner (nodes m) p) < n" if "p \<in># mset (hist (nodes m))" for p
  proof (rule ccontr)
    assume "\<not> the (owner (nodes m) p) < n"
    then have "mset (sent_by (the (owner (nodes m) p)) m) = {#}" using n by simp
    then show False using that unfolding push by (auto simp: filter_mset_eq_conv)
  qed
  have pop: "mset (taken_by t m) = image_mset (?v \<circ> fst) (filter_mset (\<lambda>x. snd x = t) (mset (taken m)))" for t
    by (simp add: taken_by_def case_prod_unfold comp_def)
  have lt': "snd x < n" if "x \<in># mset (taken m)" for x
  proof (rule ccontr)
    assume "\<not> snd x < n"
    then have "mset (taken_by (snd x) m) = {#}" using n by simp
    then show False using that unfolding pop by (auto simp: filter_mset_eq_conv)
  qed
  have "(\<Sum>t < n. mset (sent_by t m)) = image_mset ?v (mset (hist (nodes m)))"
    unfolding push sum_image_mset using mset_partition [of "mset (hist (nodes m))" "\<lambda>p. the (owner (nodes m) p)", OF lt] by simp
  moreover have "(\<Sum>t < n. mset (taken_by t m)) = image_mset (?v \<circ> fst) (mset (taken m))"
    unfolding pop sum_image_mset using mset_partition [of "mset (taken m)" snd, OF lt'] by (simp only:)
  moreover have "mset (hist (nodes m)) = mset (concat (waiting m hs)) + image_mset fst (mset (taken m))"
    using mset_concat_split [OF queues_okD(4) [OF ok, symmetric]] queues_okD(9,10) [OF ok] by (simp add: waiting_def ac_simps)
  ultimately show ?thesis by (simp add: multiset.map_comp comp_def)
qed

text \<open>No node is freed twice, and no node that can still be reached from a head is freed.\<close>

lemma queues_ok_freed:
  assumes "queues_ok m hs ts"
  shows "distinct (map fst (freed (nodes m)))" "fst ` set (freed (nodes m)) \<inter> set (concat (waiting m hs)) = {}"
proof -
  let ?b = "map fst (removed (nodes m))" and ?c = "map fst (freed (nodes m))"
  let ?t = "concat (map2 (\<lambda>q h. take (snd h) q) (links m) hs)" and ?d = "concat (map2 (\<lambda>q h. drop (snd h) q) (links m) hs)"
  have split: "mset (concat (map2 (\<lambda>q h. take (snd h) q) xs ys)) + mset (concat (map2 (\<lambda>q h. drop (snd h) q) xs ys)) = mset (concat xs)"
    if "length xs = length ys" for xs :: "ptr list list" and ys :: tops
    using that
  proof (induction xs ys rule: list_induct2)
    case (Cons x xs y ys)
    have "mset (take (snd y) x) + mset (drop (snd y) x) = mset x" by (metis append_take_drop_id mset_append)
    then show ?case using Cons by (simp add: ac_simps)
  qed simp
  have "mset (concat (links m)) = mset (?t @ ?d)" using split [OF queues_okD(4) [OF assms, symmetric]] by simp
  then have d: "distinct (?t @ ?d)" using queues_okD(7) [OF assms] mset_eq_imp_distinct_iff by blast
  have t: "mset (?b @ ?c) = mset ?t" using queues_okD(11) [OF assms] by simp
  then have "distinct (?b @ ?c)" using d mset_eq_imp_distinct_iff [OF t] by simp
  then show "distinct ?c" by simp
  have "set ?c \<subseteq> set ?t" using mset_eq_setD [OF t] unfolding set_append by blast
  moreover have "set (concat (waiting m hs)) \<subseteq> set ?d"
    unfolding waiting_def by (auto simp: set_zip) (metis Suc_eq_plus1 drop_Suc in_set_dropD drop_drop add.commute plus_1_eq_Suc)
  moreover have "set ?t \<inter> set ?d = {}" using d unfolding distinct_append by blast
  ultimately show "fst ` set (freed (nodes m)) \<inter> set (concat (waiting m hs)) = {}" unfolding set_map by blast
qed


section \<open>New queues\<close>

text \<open>
  The last loop of \<^verbatim>\<open>create_queue\<close>, in every linked queue, gives each sub-queue a sentinel, whose key and value it
  leaves as the memory is (\<open>junk\<close>).
\<close>

primrec add_sentinels :: "allocator \<Rightarrow> nat \<Rightarrow> mnode \<Rightarrow> nat \<Rightarrow> queue_mem" where
  "add_sentinels al t junk 0 = \<lparr>nodes = empty_mem, links = [], taken = []\<rparr>"
| "add_sentinels al t junk (Suc i) =
     (let m = add_sentinels al t junk i;
          node = al t (allocd (nodes m))
      in (qm_alloc t node (junk\<lparr>n_next := NULL\<rparr>) m)\<lparr>links := links m @ [[node]]\<rparr>)"

lemma add_sentinels_ok:
  assumes "alloc_fresh al"
  shows "queues_ok (add_sentinels al t junk n) (map (\<lambda>q. (hd q, 0)) (links (add_sentinels al t junk n)))
      (map (\<lambda>q. (hd q, 0)) (links (add_sentinels al t junk n)))"
    and "length (links (add_sentinels al t junk n)) = n" "\<forall>q \<in> set (links (add_sentinels al t junk n)). length q = 1"
    "hist (nodes (add_sentinels al t junk n)) = []" "taken (add_sentinels al t junk n) = []"
    "removed (nodes (add_sentinels al t junk n)) = []" "freed (nodes (add_sentinels al t junk n)) = []"
proof -
  let ?m = "\<lambda>n. add_sentinels al t junk n"
  show len: "length (links (?m n)) = n" "\<forall>q \<in> set (links (?m n)). length q = 1" "hist (nodes (?m n)) = []" "taken (?m n) = []"
    "removed (nodes (?m n)) = []" "freed (nodes (?m n)) = []" for n
    by (induction n) (simp_all add: empty_mem_def Let_def qm_alloc_def)
  show "queues_ok (?m n) (map (\<lambda>q. (hd q, 0)) (links (?m n))) (map (\<lambda>q. (hd q, 0)) (links (?m n)))"
  proof (induction n)
    case 0
    then show ?case by (simp add: queues_ok_def empty_mem_def)
  next
    case (Suc n)
    let ?p = "al t (allocd (nodes (?m n)))" and ?f = "\<lambda>q :: ptr list. (hd q, 0 :: nat)"
    have np: "?p \<noteq> NULL" "?p \<notin> set (allocd (nodes (?m n)))" using assms by (auto simp: alloc_fresh_def)
    note D = queues_okD [OF queues_ok_alloc [OF Suc np(2,1), of t "junk\<lparr>n_next := NULL\<rparr>"]]
    have m: "nodes (?m (Suc n)) = mem_alloc t ?p (junk\<lparr>n_next := NULL\<rparr>) (nodes (?m n))" "links (?m (Suc n)) = links (?m n) @ [[?p]]"
      by (simp_all add: Let_def qm_alloc_def)
    have "?p \<notin> set (concat (links (?m n)))" using queues_okD(8) [OF Suc] np(2) by blast
    moreover have "sub_ok (heap (nodes (?m (Suc n)))) (links (?m (Suc n)) ! i) (map ?f (links (?m (Suc n))) ! i) (map ?f (links (?m (Suc n))) ! i)"
      if "i < length (links (?m (Suc n)))" for i
      using that D(6) [of i] unfolding m
      by (cases "i < length (links (?m n))") (auto simp: qm_alloc_def nth_append sub_ok_def linked_def next_link_def)
    moreover have "concat (map2 (\<lambda>q h. take (snd h) (F q)) xs (map ?f ys)) = ([] :: ptr list)" for F xs ys
      by (auto simp: set_zip)
    moreover have "concat (map tl (links (?m (Suc n)))) = []" using len(2) [of "Suc n"] by (auto simp: length_Suc_conv One_nat_def)
    ultimately show ?case
      by (intro queues_okI) (use D(1-3,7,8) len(3-6) [of "Suc n"] in \<open>simp_all add: m qm_alloc_def del: add_sentinels.simps\<close>)
  qed
qed

text \<open>Two sentinels, for concrete executions.\<close>

lemma two_sentinels: "add_sentinels bump_alloc 0 \<lparr>n_key = 0, n_val = 0, n_next = 0\<rparr> 2 =
  \<lparr>nodes = \<lparr>heap = [1 \<mapsto> \<lparr>n_key = 0, n_val = 0, n_next = 0\<rparr>, 2 \<mapsto> \<lparr>n_key = 0, n_val = 0, n_next = 0\<rparr>],
     allocd = [2, 1], owner = [1 \<mapsto> 0, 2 \<mapsto> 0], removed = [], hist = [], freed = []\<rparr>, links = [[1], [2]], taken = []\<rparr>"
  by (simp add: numeral_2_eq_2 prog_unfold)

end
