(* ===== verification/Histories.thy ===== *)
theory Histories
  imports Node_Queues
begin

text \<open>
  The calls that the threads of a stack and of a queue make, and the accounting of what they put in and take out:
  how a call moves the history of its thread (the values it has put in and taken out so far), and that
  the histories of all threads add up, when all have finished, to what is still in the data
  structure. A get that finds nothing returns 0, so the null value is left out on both sides.
\<close>

section \<open>Stacks\<close>

datatype stack_call = Push int int | Pop

definition took :: "int \<Rightarrow> int multiset \<Rightarrow> int multiset \<Rightarrow> bool" where
  "took r ys ys' \<longleftrightarrow> ys' = add_mset r ys \<or> r = 0 \<and> ys' = ys"

text \<open>How a call moves the history of its thread: the values pushed, latest first, and the values taken.\<close>

fun stack_hist :: "stack_call \<Rightarrow> int list \<times> int multiset \<Rightarrow> int \<Rightarrow> int list \<times> int multiset \<Rightarrow> bool" where
  "stack_hist (Push key val) (xs, ys) r (xs', ys') = (r = 1 \<and> xs' = val # xs \<and> ys' = ys)"
| "stack_hist Pop (xs, ys) r (xs', ys') = (xs' = xs \<and> took r ys ys')"

text \<open>The values a list of calls pushes, and those of its results that are popped values.\<close>

fun push_values :: "stack_call list \<Rightarrow> int list" where
  "push_values [] = []"
| "push_values (Push key val # cs) = val # push_values cs"
| "push_values (Pop # cs) = push_values cs"

fun pop_values :: "stack_call list \<Rightarrow> int list \<Rightarrow> int list" where
  "pop_values (Pop # cs) (r # rs) = (if r = 0 then [] else [r]) @ pop_values cs rs"
| "pop_values (Push key val # cs) (r # rs) = pop_values cs rs"
| "pop_values cs rs = []"

abbreviation nonnull :: "int multiset \<Rightarrow> int multiset" where
  "nonnull \<equiv> filter_mset (\<lambda>v. v \<noteq> 0)"

lemma stack_hist_run:
  assumes "spec_run stack_hist cs (xs, ys) rs (xs', ys')"
  shows "xs' = rev (push_values cs) @ xs \<and> nonnull ys' = mset (pop_values cs rs) + nonnull ys"
  using assms
proof (induction cs arbitrary: xs ys rs)
  case Nil
  then show ?case by (cases rs) auto
next
  case (Cons c cs)
  then obtain r rs1 s1 where rs: "rs = r # rs1" and st: "stack_hist c (xs, ys) r s1" and run: "spec_run stack_hist cs s1 rs1 (xs', ys')"
    by (cases rs) auto
  obtain xs1 ys1 where s1: "s1 = (xs1, ys1)" by (cases s1)
  show ?case using Cons.IH [OF run [unfolded s1]] st s1 rs by (cases c) (auto simp: took_def)
qed

section \<open>Queues\<close>

datatype queue_call = Enq int int | Deq

text \<open>The values enqueued and the values dequeued by a thread, both latest first.\<close>

fun queue_hist :: "queue_call \<Rightarrow> int list \<times> int list \<Rightarrow> int \<Rightarrow> int list \<times> int list \<Rightarrow> bool" where
  "queue_hist (Enq key val) (xs, ys) r (xs', ys') = (r = 1 \<and> xs' = val # xs \<and> ys' = ys)"
| "queue_hist Deq (xs, ys) r (xs', ys') = (xs' = xs \<and> (r = 0 \<and> ys' = ys \<or> ys' = r # ys))"

fun enq_values :: "queue_call list \<Rightarrow> int list" where
  "enq_values [] = []"
| "enq_values (Enq key val # cs) = val # enq_values cs"
| "enq_values (Deq # cs) = enq_values cs"

fun deq_values :: "queue_call list \<Rightarrow> int list \<Rightarrow> int list" where
  "deq_values (Deq # cs) (r # rs) = (if r = 0 then [] else [r]) @ deq_values cs rs"
| "deq_values (Enq key val # cs) (r # rs) = deq_values cs rs"
| "deq_values cs rs = []"

lemma queue_hist_run:
  assumes "spec_run queue_hist cs (xs, ys) rs (xs', ys')"
  shows "xs' = rev (enq_values cs) @ xs \<and> filter (\<lambda>v. v \<noteq> 0) ys' = rev (deq_values cs rs) @ filter (\<lambda>v. v \<noteq> 0) ys"
  using assms
proof (induction cs arbitrary: xs ys rs)
  case Nil
  then show ?case by (cases rs) auto
next
  case (Cons c cs)
  then obtain r rs1 s1 where rs: "rs = r # rs1" and st: "queue_hist c (xs, ys) r s1" and run: "spec_run queue_hist cs s1 rs1 (xs', ys')"
    by (cases rs) auto
  obtain xs1 ys1 where s1: "s1 = (xs1, ys1)" by (cases s1)
  show ?case using Cons.IH [OF run [unfolded s1]] st s1 rs by (cases c) auto
qed

section \<open>Adding up\<close>

lemma mset_concat_upt: "mset (concat (map f [0 ..< n])) = (\<Sum>t < n. mset (f t))"
  by (induction n) auto

lemma nonnull_sum: "nonnull (\<Sum>t < (n :: nat). F t) = (\<Sum>t < n. nonnull (F t))"
  by (induction n) auto

lemma mset_concat_nth: "mset (concat (map f css)) = (\<Sum>t < length css. mset (f (css ! t)))"
proof -
  have "map f css = map (\<lambda>t. f (css ! t)) [0 ..< length css]" by (rule nth_equalityI) simp_all
  then show ?thesis by (simp only: mset_concat_upt)
qed

lemma stack_histories_add_up:
  assumes ok: "stacks_ok m ts"
    and t: "\<And>t. t < length css \<Longrightarrow> pushed_by t m = rev (push_values (css ! t)) \<and> nonnull (popped_by t m) = mset (pop_values (css ! t) (rss ! t))"
    and out: "\<And>t. length css \<le> t \<Longrightarrow> pushed_by t m = [] \<and> popped_by t m = {#}"
  shows "nonnull (mset (concat (map push_values css))) =
    mset (concat (map (\<lambda>t. pop_values (css ! t) (rss ! t)) [0 ..< length css])) +
    nonnull (image_mset (node_val m) (mset (concat (subs m ts))))"
proof -
  have "mset (concat (map push_values css)) = (\<Sum>t < length css. mset (pushed_by t m))"
    using t by (simp add: mset_concat_nth)
  also have "\<dots> = image_mset (node_val m) (mset (concat (subs m ts))) + (\<Sum>t < length css. popped_by t m)"
    by (rule node_conservation [OF ok out])
  finally have "nonnull (mset (concat (map push_values css))) =
    nonnull (image_mset (node_val m) (mset (concat (subs m ts)))) + (\<Sum>t < length css. nonnull (popped_by t m))"
    by (simp add: nonnull_sum)
  also have "(\<Sum>t < length css. nonnull (popped_by t m)) = mset (concat (map (\<lambda>t. pop_values (css ! t) (rss ! t)) [0 ..< length css]))"
    unfolding mset_concat_upt using t by simp
  finally show ?thesis by (simp add: ac_simps)
qed

lemma queue_histories_add_up:
  assumes ok: "queues_ok m hs ts"
    and t: "\<And>t. t < length css \<Longrightarrow> sent_by t m = rev (enq_values (css ! t)) \<and>
      filter (\<lambda>v. v \<noteq> 0) (taken_by t m) = rev (deq_values (css ! t) (rss ! t))"
    and out: "\<And>t. length css \<le> t \<Longrightarrow> sent_by t m = [] \<and> taken_by t m = []"
  shows "nonnull (mset (concat (map enq_values css))) =
    mset (concat (map (\<lambda>t. deq_values (css ! t) (rss ! t)) [0 ..< length css])) +
    nonnull (image_mset (node_val (nodes m)) (mset (concat (waiting m hs))))"
proof -
  have "mset (concat (map enq_values css)) = (\<Sum>t < length css. mset (sent_by t m))"
    using t by (simp add: mset_concat_nth)
  also have "\<dots> = image_mset (node_val (nodes m)) (mset (concat (waiting m hs))) + (\<Sum>t < length css. mset (taken_by t m))"
    by (rule queue_conservation [OF ok out])
  finally have "nonnull (mset (concat (map enq_values css))) =
    nonnull (image_mset (node_val (nodes m)) (mset (concat (waiting m hs)))) + (\<Sum>t < length css. nonnull (mset (taken_by t m)))"
    by (simp add: nonnull_sum)
  also have "(\<Sum>t < length css. nonnull (mset (taken_by t m))) = mset (concat (map (\<lambda>t. deq_values (css ! t) (rss ! t)) [0 ..< length css]))"
    unfolding mset_concat_upt
  proof (rule sum.cong)
    fix u
    assume "u \<in> {..< length css}"
    then have "mset (filter (\<lambda>v. v \<noteq> 0) (taken_by u m)) = mset (deq_values (css ! u) (rss ! u))" using t by simp
    then show "nonnull (mset (taken_by u m)) = mset (deq_values (css ! u) (rss ! u))" by simp
  qed simp
  finally show ?thesis by (simp add: ac_simps)
qed

end
