(* ===== verification/Relaxed_Stack.thy ===== *)
theory Relaxed_Stack
  imports Prelude
begin

text \<open>
  What the coupled 2D window promises of a stack: an abstract stack of sub-stacks under a window,
  and the proof that it is k-out-of-order. The abstract state has the sub-stacks (items, top
  first), the upper bound of the window, and the items pushed so far, latest first. A push adds on
  a sub-stack that is below the window's upper bound, a pop removes from one that is above its lower
  bound, and the window moves up only if every sub-stack has reached its top, down only if every
  sub-stack has reached its bottom.

  \<open>newer\<close> counts the items of the stack that were pushed after a given one: it is how far
  from the top of a strict stack that item is. The theorem \<open>pop_newer_bound\<close> bounds it, for every item a
  pop may return, by \<open>(2 * depth - 1) * (width - 1)\<close>.
\<close>

section \<open>The abstract stack\<close>

record 'a wstack =
  w_subs :: "'a list list"
  w_max :: nat
  w_hist :: "'a list"

datatype 'a stack_event = Pushed 'a | Popped 'a | PoppedNull

text \<open>\<open>spec_stack w d sh\<close>: a stack of \<open>w\<close> sub-stacks with window depth \<open>d\<close> and shift \<open>sh\<close>.\<close>

inductive spec_stack :: "nat \<Rightarrow> nat \<Rightarrow> nat \<Rightarrow> 'a wstack \<Rightarrow> 'a stack_event \<Rightarrow> 'a wstack \<Rightarrow> bool" for w d sh where
  spec_push: "i < w \<Longrightarrow>
     m = w_max s \<or> m = w_max s + sh \<and> (\<forall>j < w. length (w_subs s ! j) = w_max s) \<Longrightarrow>
     length (w_subs s ! i) < m \<Longrightarrow> p \<notin> set (w_hist s) \<Longrightarrow>
     spec_stack w d sh s (Pushed p)
       \<lparr>w_subs = (w_subs s)[i := p # w_subs s ! i], w_max = m, w_hist = p # w_hist s\<rparr>"
| spec_pop: "i < w \<Longrightarrow>
     m = w_max s \<or> m = w_max s - sh \<and> d + sh \<le> w_max s \<and> (\<forall>j < w. length (w_subs s ! j) + d = w_max s) \<Longrightarrow>
     w_subs s ! i = p # ps \<Longrightarrow> m < length (w_subs s ! i) + d \<Longrightarrow>
     spec_stack w d sh s (Popped p) (s\<lparr>w_subs := (w_subs s)[i := ps], w_max := m\<rparr>)"
| spec_null: "concat (w_subs s) = [] \<Longrightarrow> spec_stack w d sh s PoppedNull s"

inductive_cases spec_pushE: "spec_stack w d sh s (Pushed p) s'"
inductive_cases spec_popE: "spec_stack w d sh s (Popped p) s'"
inductive_cases spec_nullE: "spec_stack w d sh s PoppedNull s'"

inductive spec_reach :: "nat \<Rightarrow> nat \<Rightarrow> nat \<Rightarrow> 'a wstack \<Rightarrow> bool" for w d sh where
  spec_init: "spec_reach w d sh \<lparr>w_subs = replicate w [], w_max = d, w_hist = []\<rparr>"
| spec_next: "spec_reach w d sh s \<Longrightarrow> spec_stack w d sh s e s' \<Longrightarrow> spec_reach w d sh s'"

section \<open>Push times\<close>

text \<open>The time of an item in a history: how many pushes were made up to and with its own.\<close>

definition push_time :: "'a list \<Rightarrow> 'a \<Rightarrow> nat" where
  "push_time h p = length (dropWhile (\<lambda>q. q \<noteq> p) h)"

definition newer :: "'a wstack \<Rightarrow> 'a \<Rightarrow> nat" where
  "newer s p = length (filter (\<lambda>q. push_time (w_hist s) p < push_time (w_hist s) q) (concat (w_subs s)))"

lemma push_time_hd [simp]: "push_time (p # h) p = length h + 1"
  by (simp add: push_time_def)

lemma push_time_tl: "p \<noteq> q \<Longrightarrow> push_time (q # h) p = push_time h p"
  by (simp add: push_time_def)

lemma push_time_le: "push_time h p \<le> length h"
  by (simp add: push_time_def length_dropWhile_le)

section \<open>The invariant\<close>

text \<open>
  Counting from the bottom, item \<open>b\<close> of sub-stack \<open>j\<close> is older than item \<open>a\<close> of sub-stack
  \<open>i\<close> whenever \<open>a\<close> is at least a window depth higher; within one sub-stack an item is older
  than everything above it.
\<close>

definition height_ordered :: "nat \<Rightarrow> nat \<Rightarrow> 'a wstack \<Rightarrow> bool" where
  "height_ordered w d s \<longleftrightarrow>
     (\<forall>i < w. \<forall>j < w. \<forall>a < length (w_subs s ! i). \<forall>b < length (w_subs s ! j).
        (if i = j then b < a else b + d \<le> a) \<longrightarrow>
        push_time (w_hist s) (rev (w_subs s ! j) ! b) < push_time (w_hist s) (rev (w_subs s ! i) ! a))"

definition spec_inv :: "nat \<Rightarrow> nat \<Rightarrow> 'a wstack \<Rightarrow> bool" where
  "spec_inv w d s \<longleftrightarrow>
     length (w_subs s) = w \<and> (\<forall>i < w. set (w_subs s ! i) \<subseteq> set (w_hist s)) \<and>
     (\<forall>i < w. length (w_subs s ! i) \<le> w_max s \<and> w_max s \<le> length (w_subs s ! i) + d) \<and>
     height_ordered w d s"

lemma height_orderedD:
  assumes "height_ordered w d s" "i < w" "j < w" "a < length (w_subs s ! i)" "b < length (w_subs s ! j)"
    and "if i = j then b < a else b + d \<le> a"
  shows "push_time (w_hist s) (rev (w_subs s ! j) ! b) < push_time (w_hist s) (rev (w_subs s ! i) ! a)"
  using assms unfolding height_ordered_def by blast

lemma height_ordered_push:
  assumes inv: "spec_inv w d s" and i: "i < w" and p: "p \<notin> set (w_hist s)"
    and top: "\<forall>j < w. length (w_subs s ! j) \<le> length (w_subs s ! i) + d"
  shows "height_ordered w d \<lparr>w_subs = (w_subs s)[i := p # w_subs s ! i], w_max = m, w_hist = p # w_hist s\<rparr>"
    (is "height_ordered w d ?s")
  unfolding height_ordered_def
proof (intro allI impI)
  fix k j a b
  assume k: "k < w" "j < w" and a: "a < length (w_subs ?s ! k)" and b: "b < length (w_subs ?s ! j)"
    and ord: "if k = j then b < a else b + d \<le> a"
  let ?S = "w_subs s" and ?h = "w_hist s"
  have len: "length ?S = w" and sub: "\<And>i. i < w \<Longrightarrow> set (?S ! i) \<subseteq> set ?h" using inv by (auto simp: spec_inv_def)
  have item: "rev (w_subs ?s ! k) ! a = (if k = i \<and> a = length (?S ! i) then p else rev (?S ! k) ! a)"
    if "k < w" "a < length (w_subs ?s ! k)" for k a
    using that len by (cases "k = i") (auto simp: nth_append)
  have old: "push_time (p # ?h) (rev (?S ! k) ! a) = push_time ?h (rev (?S ! k) ! a)"
    if "k < w" "a < length (?S ! k)" for k a
  proof -
    have "rev (?S ! k) ! a \<in> set (rev (?S ! k))" using that by (intro nth_mem) simp
    then have "rev (?S ! k) ! a \<noteq> p" using sub [OF that(1)] p by auto
    then show ?thesis by (rule push_time_tl)
  qed
  have bj: "b < length (?S ! j)"
  proof (cases "j = i")
    case True
    show ?thesis
    proof (rule ccontr)
      assume "\<not> b < length (?S ! j)"
      then have "b = length (?S ! i)" using b True len i by simp
      then show False using ord a True k top i len by (cases "k = j") (auto split: if_splits)
    qed
  next
    case False
    then show ?thesis using b by simp
  qed
  show "push_time (w_hist ?s) (rev (w_subs ?s ! j) ! b) < push_time (w_hist ?s) (rev (w_subs ?s ! k) ! a)"
  proof (cases "k = i \<and> a = length (?S ! i)")
    case True
    have "push_time ?h (rev (?S ! j) ! b) < length ?h + 1" using push_time_le [of ?h "rev (?S ! j) ! b"] by simp
    then show ?thesis using True item [OF k(1) a] item [OF k(2) b] bj old [OF k(2) bj] by auto
  next
    case False
    then have ak: "a < length (?S ! k)" using a len i by (cases "k = i") auto
    have "push_time ?h (rev (?S ! j) ! b) < push_time ?h (rev (?S ! k) ! a)"
      using inv k ak bj ord by (intro height_orderedD) (auto simp: spec_inv_def)
    then show ?thesis using False item [OF k(1) a] item [OF k(2) b] bj old [OF k(2) bj] old [OF k(1) ak] by auto
  qed
qed

lemma height_ordered_pop:
  assumes "height_ordered w d s" "length (w_subs s) = w" "i < w" "w_subs s ! i = p # ps"
  shows "height_ordered w d (s\<lparr>w_subs := (w_subs s)[i := ps], w_max := m\<rparr>)"
  unfolding height_ordered_def
proof (intro allI impI)
  let ?s = "s\<lparr>w_subs := (w_subs s)[i := ps], w_max := m\<rparr>"
  fix k j a b
  assume *: "k < w" "j < w" "a < length (w_subs ?s ! k)" "b < length (w_subs ?s ! j)"
    "if k = j then b < a else b + d \<le> a"
  have item: "a < length (w_subs s ! k) \<and> rev (w_subs ?s ! k) ! a = rev (w_subs s ! k) ! a"
    if "k < w" "a < length (w_subs ?s ! k)" for k a
    using that assms(2-4) by (cases "k = i") (auto simp: nth_append)
  show "push_time (w_hist ?s) (rev (w_subs ?s ! j) ! b) < push_time (w_hist ?s) (rev (w_subs ?s ! k) ! a)"
    using height_orderedD [OF assms(1) *(1,2) _ _ *(5)] item [OF *(1,3)] item [OF *(2,4)] by simp
qed

lemma spec_inv_step:
  assumes inv: "spec_inv w d s" and step: "spec_stack w d sh s e s'" and sh: "sh \<le> d"
  shows "spec_inv w d s'"
  using step
proof cases
  case (spec_push i m p)
  have len: "length (w_subs s) = w" and win: "\<And>j. j < w \<Longrightarrow> length (w_subs s ! j) \<le> w_max s \<and> w_max s \<le> length (w_subs s ! j) + d"
    using inv by (auto simp: spec_inv_def)
  have "length (w_subs s ! j) \<le> length (w_subs s ! i) + d" if "j < w" for j
    using win [OF that] win [OF spec_push(3)] by simp
  then have "height_ordered w d s'"
    unfolding spec_push(2) using inv spec_push by (intro height_ordered_push) auto
  moreover have "length (w_subs s' ! j) \<le> w_max s' \<and> w_max s' \<le> length (w_subs s' ! j) + d" if "j < w" for j
    using spec_push win [OF that] win [OF spec_push(3)] sh len that by (cases "i = j") auto
  moreover have "set (w_subs s' ! j) \<subseteq> set (w_hist s')" if "j < w" for j
    using inv that spec_push len by (cases "i = j") (auto simp: spec_inv_def)
  ultimately show ?thesis using spec_push len by (simp add: spec_inv_def)
next
  case (spec_pop i m p ps)
  have len: "length (w_subs s) = w" and win: "\<And>j. j < w \<Longrightarrow> length (w_subs s ! j) \<le> w_max s \<and> w_max s \<le> length (w_subs s ! j) + d"
    using inv by (auto simp: spec_inv_def)
  have "height_ordered w d s'"
    unfolding spec_pop(2) using inv spec_pop by (intro height_ordered_pop) (auto simp: spec_inv_def)
  moreover have "length (w_subs s' ! j) \<le> w_max s' \<and> w_max s' \<le> length (w_subs s' ! j) + d" if "j < w" for j
    using spec_pop win [OF that] win [OF spec_pop(3)] sh len that by (cases "i = j") auto
  moreover have "set ps \<subseteq> set (w_subs s ! i)" using spec_pop by auto
  then have "set (w_subs s' ! j) \<subseteq> set (w_hist s')" if "j < w" for j
    using inv that spec_pop(2,3) len by (cases "i = j") (auto simp: spec_inv_def)
  ultimately show ?thesis using spec_pop len by (simp add: spec_inv_def)
next
  case spec_null
  then show ?thesis using inv by simp
qed

lemma spec_inv_reach: "spec_reach w d sh s \<Longrightarrow> sh \<le> d \<Longrightarrow> spec_inv w d s"
proof (induction rule: spec_reach.induct)
  case spec_init
  then show ?case by (simp add: spec_inv_def height_ordered_def)
next
  case (spec_next s e s')
  then show ?case by (blast intro: spec_inv_step)
qed

section \<open>The bound\<close>

lemma length_filter_prefix:
  assumes "\<And>b. k \<le> b \<Longrightarrow> b < length xs \<Longrightarrow> \<not> P (xs ! b)"
  shows "length (filter P xs) \<le> k"
proof -
  have "filter P (drop k xs) = []" using assms by (auto simp: filter_empty_conv in_set_conv_nth)
  then have "filter P xs = filter P (take k xs)"
    by (metis append_Nil2 append_take_drop_id filter_append)
  then show ?thesis by (metis length_filter_le length_take min.bounded_iff)
qed

lemma sum_list_bound_except:
  fixes xs :: "nat list"
  assumes "i < length xs" "xs ! i = 0" "\<And>j. j < length xs \<Longrightarrow> xs ! j \<le> B"
  shows "sum_list xs \<le> B * (length xs - 1)"
proof -
  have *: "sum_list xs = sum_list (take i xs) + sum_list (drop (Suc i) xs)"
    using assms(1,2) by (metis add.left_neutral id_take_nth_drop sum_list.Cons sum_list_append)
  have "sum_list ys \<le> B * length ys" if "set ys \<subseteq> set xs" for ys
    using that
  proof (induction ys)
    case (Cons y ys)
    then have "y \<le> B" using assms(3) by (auto simp: in_set_conv_nth)
    then show ?case using Cons by simp
  qed simp
  then have "sum_list (take i xs) \<le> B * i" "sum_list (drop (Suc i) xs) \<le> B * (length xs - Suc i)"
    using assms(1) by (metis length_take min.absorb2 less_imp_le set_take_subset,
      metis length_drop set_drop_subset)
  then have "sum_list xs \<le> B * i + B * (length xs - Suc i)" using * by simp
  also have "\<dots> = B * (i + (length xs - Suc i))" by (rule distrib_left [symmetric])
  also have "i + (length xs - Suc i) = length xs - 1" using assms(1) by simp
  finally show ?thesis .
qed

lemma newer_in_sub:
  assumes inv: "spec_inv w d s" and ij: "i < w" "j < w" and top: "w_subs s ! i = p # ps"
    and m: "length (w_subs s ! j) \<le> m" "m < length (w_subs s ! i) + d"
  shows "length (filter (\<lambda>q. push_time (w_hist s) p < push_time (w_hist s) q) (w_subs s ! j)) \<le>
    (if i = j then 0 else 2 * d - 1)" (is "length (filter ?P _) \<le> _")
proof -
  let ?S = "w_subs s"
  let ?n = "length (?S ! j)" and ?a = "length (?S ! i) - 1"
  have p: "rev (?S ! i) ! ?a = p" and a: "?a < length (?S ! i)" using top by (simp_all add: nth_append)
  have old: "\<not> ?P (?S ! j ! b)" if b: "b < ?n" "if i = j then ?n - 1 - b < ?a else ?n - 1 - b + d \<le> ?a" for b
  proof -
    have "push_time (w_hist s) (rev (?S ! j) ! (?n - 1 - b)) < push_time (w_hist s) (rev (?S ! i) ! ?a)"
      using inv ij a b by (intro height_orderedD) (auto simp: spec_inv_def)
    moreover have "rev (?S ! j) ! (?n - 1 - b) = ?S ! j ! b" using b by (simp add: rev_nth)
    ultimately show ?thesis using p by simp
  qed
  show ?thesis
  proof (cases "i = j")
    case True
    have "\<not> ?P (?S ! j ! b)" if "b < ?n" for b
      using old [of b] that True top by (cases b) auto
    then have "length (filter ?P (?S ! j)) \<le> 0" by (intro length_filter_prefix) auto
    then show ?thesis using True by simp
  next
    case False
    have "length (filter ?P (?S ! j)) \<le> 2 * d - 1"
    proof (rule length_filter_prefix)
      fix b
      assume "2 * d - 1 \<le> b" "b < ?n"
      then show "\<not> ?P (?S ! j ! b)" using old [of b] m False by simp
    qed
    then show ?thesis using False by simp
  qed
qed

lemma pop_newer_bound:
  assumes inv: "spec_inv w d s" and sh: "sh \<le> d" and step: "spec_stack w d sh s (Popped p) s'"
  shows "newer s p \<le> (2 * d - 1) * (w - 1)"
  using step
proof cases
  case 1: (spec_pop i m ps)
  let ?P = "\<lambda>q. push_time (w_hist s) p < push_time (w_hist s) q"
  let ?ls = "map (\<lambda>xs. length (filter ?P xs)) (w_subs s)"
  have len: "length (w_subs s) = w" using inv by (simp add: spec_inv_def)
  have m: "length (w_subs s ! j) \<le> m" if "j < w" for j
  proof -
    have "length (w_subs s ! j) \<le> w_max s" using inv that by (simp add: spec_inv_def)
    then show ?thesis using 1(3) that sh by fastforce
  qed
  have b: "?ls ! j \<le> (if i = j then 0 else 2 * d - 1)" if "j < w" for j
    using newer_in_sub [OF inv 1(2) that 1(4) m [OF that]] 1(5) that len by simp
  have "sum_list ?ls \<le> (2 * d - 1) * (length ?ls - 1)"
  proof (rule sum_list_bound_except)
    show "i < length ?ls" "?ls ! i = 0" using b [OF 1(2)] 1(2) len by simp_all
    show "?ls ! j \<le> 2 * d - 1" if "j < length ?ls" for j
      using order_trans [OF b [of j], of "2 * d - 1"] that len by (cases "i = j") simp_all
  qed
  then show ?thesis using len by (simp add: newer_def filter_concat length_concat comp_def)
qed

end
