(* ===== verification/Params.thy ===== *)
theory Params
  imports Prelude
begin

text \<open>
  How the \<^verbatim>\<open>create_...\<close> functions of the 2D designs turn the command-line parameters into a width
  and a depth. The same piece of code stands at the top of every one of them, with another factor
  \<open>c\<close> between the relaxation bound and \<open>depth * (width - 1)\<close> (1 for the queues, 2 for the 2Dc
  designs and the 2Dd counter, 3 for the 2Dd stack) and other integer types: \<open>tw\<close> and \<open>td\<close> are
  what storing a 64-bit value in the width and in the depth keeps of it, and \<open>bound0\<close> computes
  the bound reported in mode 0. \<open>None\<close> is the machine's division by zero, or a signed overflow.
\<close>

definition fixed_width ::
  "u64 \<Rightarrow> (u64 \<Rightarrow> u64) \<Rightarrow> (u64 \<Rightarrow> u64) \<Rightarrow> u64 \<Rightarrow> u64 \<Rightarrow> (u64 \<times> u64 \<times> u64) option" where
  "fixed_width c tw td width relaxation_bound =
     (if width < 2 then Some (1, td relaxation_bound, 0)
      else let q = mul64 c (width - 1)
           in if q = 0 then None
              else let depth = td (relaxation_bound div q)
                   in if depth < 1
                      then Some (tw (add64 (relaxation_bound div mul64 c 1) 1), 1, relaxation_bound)
                      else Some (width, depth, relaxation_bound))"

definition calc_params ::
  "u64 \<Rightarrow> (u64 \<Rightarrow> u64) \<Rightarrow> (u64 \<Rightarrow> u64) \<Rightarrow> (u64 \<Rightarrow> u64 \<Rightarrow> u64 option) \<Rightarrow>
   nat \<Rightarrow> u64 \<Rightarrow> u64 \<Rightarrow> u64 \<Rightarrow> u64 \<Rightarrow> (u64 \<times> u64 \<times> u64) option" where
  "calc_params c tw td bound0 k_mode num_threads width depth relaxation_bound =
     (if k_mode = 3 then
        fixed_width c tw td (tw (mul64 num_threads width)) relaxation_bound
      else if k_mode = 2 then
        (let q = mul64 c depth
         in if q = 0 then None
            else let width = tw (add64 (relaxation_bound div q) 1)
                 in if width < 1 then Some (1, td relaxation_bound, 0)
                    else Some (width, depth, relaxation_bound))
      else if k_mode = 1 then
        fixed_width c tw td width relaxation_bound
      else if k_mode = 0 then
        map_option (\<lambda>bound. (width, depth, bound)) (bound0 depth width)
      else Some (width, depth, relaxation_bound))"

text \<open>The integer types of the designs: all 64 bits, a 32-bit width, 16-bit width and depth.\<close>

definition keep64 :: "u64 \<Rightarrow> u64" where
  "keep64 x = x mod W64"

definition keep32 :: "u64 \<Rightarrow> u64" where
  "keep32 x = x mod 4294967296"

definition keep16 :: "u64 \<Rightarrow> u64" where
  "keep16 x = x mod 65536"

definition bound64 :: "u64 \<Rightarrow> u64 \<Rightarrow> u64 \<Rightarrow> u64 option" where
  "bound64 c depth width = Some (mul64 (mul64 c depth) (sub64 width 1))"

definition bound32 :: "u64 \<Rightarrow> u64 \<Rightarrow> u64 option" where
  "bound32 depth width = Some (mul64 depth (if width = 0 then 4294967295 else width - 1))"

text \<open>With 16-bit operands C multiplies in \<^verbatim>\<open>int\<close>: a product of \<open>2 ^ 31\<close> or more is undefined.\<close>

definition bound16 :: "u64 \<Rightarrow> u64 \<Rightarrow> u64 \<Rightarrow> u64 option" where
  "bound16 c depth width =
     (if width = 0 then Some (sub64 0 (c * depth))
      else if c * depth * (width - 1) < 2147483648 then Some (c * depth * (width - 1))
      else None)"

lemma fixed_width_bound:
  assumes "fixed_width c tw td w rb = Some (w', d', k')" "0 < c" "c * w < W64" "rb < W64"
    and "\<And>x. tw x \<le> x" "\<And>x. td x \<le> x"
  shows "c * d' * (w' - 1) \<le> rb"
proof (cases "w < 2")
  case True
  then show ?thesis using assms(1) by (simp add: fixed_width_def)
next
  case False
  have "c * (w - 1) < W64" using assms(3) by (simp add: diff_mult_distrib2)
  then have q: "mul64 c (w - 1) = c * (w - 1)" by (rule mul64_eq)
  have "c < W64" using assms(3) False by (metis le_less_trans mult_le_mono2 nat_mult_1_right not_less one_le_numeral order.trans)
  then have c1: "mul64 c 1 = c" by (simp add: mul64_eq)
  have pos: "0 < c * (w - 1)" using assms(2) False by simp
  show ?thesis
  proof (cases "td (rb div (c * (w - 1))) < 1")
    case True
    then have w': "w' = tw (add64 (rb div c) 1)" and d': "d' = 1"
      using assms(1) False q c1 pos by (auto simp: fixed_width_def Let_def)
    have "w' \<le> rb div c + 1" unfolding w'
      by (rule order_trans [OF assms(5)]) (simp add: add64_def)
    then have "c * (w' - 1) \<le> c * (rb div c)" by (intro mult_le_mono2) linarith
    also have "\<dots> \<le> rb" by simp
    finally show ?thesis using d' by simp
  next
    case big: False
    then have w': "w' = w" and d': "d' = td (rb div (c * (w - 1)))"
      using assms(1) False q pos by (auto simp: fixed_width_def Let_def)
    have "c * d' * (w' - 1) \<le> (rb div (c * (w - 1))) * (c * (w - 1))"
      using assms(6) by (simp add: w' d' ac_simps mult_le_mono)
    also have "\<dots> \<le> rb" by (rule div_times_less_eq_dividend)
    finally show ?thesis .
  qed
qed

lemma calc_params_mode2_bound:
  assumes "rb div (c * d) + 1 \<ge> w'" "0 < c * d"
  shows "c * d * (w' - 1) \<le> (rb :: nat)"
proof -
  have "c * d * (w' - 1) \<le> c * d * (rb div (c * d))" using assms(1) by (intro mult_le_mono2) simp
  also have "\<dots> \<le> rb" by simp
  finally show ?thesis .
qed

lemma calc_params_bound:
  assumes r: "calc_params c tw td b0 k_mode nt w d rb = Some (w', d', k')"
    and k: "k_mode = 1 \<or> k_mode = 2 \<or> k_mode = 3" and "0 < c" "rb < W64"
    and small: "c * w < W64" "c * (nt * w) < W64" "c * d < W64"
    and tw: "\<And>x. tw x \<le> x" "\<And>x. td x \<le> x"
  shows "c * d' * (w' - 1) \<le> rb"
  using k
proof (elim disjE)
  assume "k_mode = 1"
  then have "fixed_width c tw td w rb = Some (w', d', k')" using r by (simp add: calc_params_def)
  then show ?thesis using assms by (blast intro: fixed_width_bound)
next
  assume m: "k_mode = 2"
  have q: "mul64 c d = c * d" using small by (simp add: mul64_eq)
  then have pos: "0 < c * d" using r m by (auto simp: calc_params_def Let_def split: if_splits)
  have *: "w' = 1 \<or> w' = tw (add64 (rb div (c * d)) 1) \<and> d' = d"
    using r m q pos by (auto simp: calc_params_def Let_def split: if_splits)
  moreover have "tw (add64 (rb div (c * d)) 1) \<le> rb div (c * d) + 1"
    by (rule order_trans [OF tw(1)]) (simp add: add64_def)
  ultimately show ?thesis using calc_params_mode2_bound [OF _ pos, of w' rb] by auto
next
  assume m: "k_mode = 3"
  have "nt * w < W64" using small(2) \<open>0 < c\<close> by (metis le_less_trans mult_le_mono1 nat_mult_1 Suc_leI One_nat_def)
  then have e: "mul64 nt w = nt * w" by (rule mul64_eq)
  then have f: "fixed_width c tw td (tw (nt * w)) rb = Some (w', d', k')"
    using r m by (simp add: calc_params_def)
  have "c * tw (nt * w) \<le> c * (nt * w)" using tw(1) by simp
  then have "c * tw (nt * w) < W64" using small(2) by linarith
  with f show ?thesis using assms by (blast intro: fixed_width_bound)
qed

end
