(* ===== verification/Stack2Dc_Conc.thy ===== *)
theory Stack2Dc_Conc
  imports Stack2Dc
begin

text \<open>
  The 2Dc stack under concurrency: any number of threads, each running its own list of pushes
  and pops, interleaved at every access to shared memory. \<open>stack_step_2Dc\<close> is the protocol of the
  threads: a step on the node memory and the descriptor array (\<open>node_step\<close>) or a shift of the window
  by one version that leaves its upper bound at least the depth. \<open>known_2Dc\<close> is what a thread knows at every
  moment whatever the others do: the invariant, its unpublished node, and the values it has
  pushed and popped so far.
\<close>

section \<open>The protocol\<close>

definition stack_step_2Dc :: "ds2Dc \<Rightarrow> stack2Dc protocol" where
  "stack_step_2Dc cfg t g g' \<longleftrightarrow>
     node_step t (mem g, tops_2Dc g) (mem g', tops_2Dc g') \<and> global_Window g' = global_Window g \<or>
     g' = g\<lparr>global_Window := shifted_up cfg (global_Window g)\<rparr> \<or>
     g' = g\<lparr>global_Window := shifted_down cfg (global_Window g)\<rparr> \<and>
       depth cfg + shift cfg \<le> win_max (global_Window g)"

text \<open>The 64-bit counters have not run out.\<close>

definition stack_room_2Dc :: "ds2Dc \<Rightarrow> stack2Dc \<Rightarrow> bool" where
  "stack_room_2Dc cfg g \<longleftrightarrow> room2Dc cfg g \<and> (\<forall>d \<in> set (set_array g). d_count d + 1 < W64)"

definition conc_inv_2Dc :: "ds2Dc \<Rightarrow> stack2Dc \<Rightarrow> bool" where
  "conc_inv_2Dc cfg g \<longleftrightarrow> ds2Dc_ok cfg \<and> stack_inv_2Dc cfg g \<and> depth cfg \<le> win_max (global_Window g) \<and>
     shift cfg dvd (win_max (global_Window g) - depth cfg)"

lemma window_step_dvd:
  fixes sh d m :: nat
  assumes "sh dvd (m - d)" "d \<le> m"
  shows "sh dvd (m + sh - d)" and "d + sh \<le> m \<Longrightarrow> sh dvd (m - sh - d)"
proof -
  have "m + sh - d = (m - d) + sh" using assms(2) by simp
  then show "sh dvd (m + sh - d)" using assms(1) by simp
  assume "d + sh \<le> m"
  have "m - sh - d = (m - d) - sh" by simp
  moreover have "sh dvd (m - d) - sh" by (rule dvd_diff_nat [OF assms(1)]) simp
  ultimately show "sh dvd (m - sh - d)" by (simp only:)
qed

interpretation stk_conc: protocol "stack_step_2Dc cfg" "stack_room_2Dc cfg" "conc_inv_2Dc cfg" for cfg
proof
  fix g t g'
  assume inv: "conc_inv_2Dc cfg g" and st: "stack_step_2Dc cfg t g g'"
  have "length (set_array g') = length (set_array g) \<and> stacks_ok (mem g') (tops_2Dc g')"
    if "node_step t (mem g, tops_2Dc g) (mem g', tops_2Dc g')"
    using node_step_ok [OF that] node_step_length [OF that] inv by (simp add: conc_inv_2Dc_def stack_inv_2Dc_def)
  then show "conc_inv_2Dc cfg g'"
    using inv st window_step_dvd [of "shift cfg" "win_max (global_Window g)" "depth cfg"]
    unfolding stack_step_2Dc_def
    by (elim disjE) (auto simp: conc_inv_2Dc_def stack_inv_2Dc_def shifted_up_def shifted_down_def)
qed

section \<open>What a thread knows\<close>

definition known_2Dc ::
  "ds2Dc \<Rightarrow> nat \<Rightarrow> (ptr \<times> mnode) option \<Rightarrow> int list \<Rightarrow> int multiset \<Rightarrow> stack2Dc \<Rightarrow> bool" where
  "known_2Dc cfg t po xs ys g \<longleftrightarrow> conc_inv_2Dc cfg g \<and> stack_room_2Dc cfg g \<and>
     (\<forall>p nd. po = Some (p, nd) \<longrightarrow> mine (mem g) t p \<and> heap (mem g) p = Some nd) \<and>
     pushed_by t (mem g) = xs \<and> popped_by t (mem g) = ys"

text \<open>A descriptor a thread has loaded: its pointer is null or was published.\<close>

definition loaded_2Dc :: "u64 \<Rightarrow> descriptor2Dc \<Rightarrow> stack2Dc \<Rightarrow> bool" where
  "loaded_2Dc i d g \<longleftrightarrow> d_node d = NULL \<or> d_node d \<in> set (hist (mem g))"

lemma known_env_2Dc:
  assumes "known_2Dc cfg t po xs ys g" "env1 (stack_step_2Dc cfg) (stack_room_2Dc cfg) t g g'"
  shows "known_2Dc cfg t po xs ys g'"
proof -
  obtain u where u: "u \<noteq> t" "stack_step_2Dc cfg u g g'" and A: "stack_room_2Dc cfg g'"
    using assms(2) by (auto simp: env1_def)
  have "stacks_ok (mem g) (tops_2Dc g)" using assms(1) by (simp add: known_2Dc_def conc_inv_2Dc_def stack_inv_2Dc_def)
  moreover have "conc_inv_2Dc cfg g'" using stk_conc.inv_step u A assms(1) by (auto simp: known_2Dc_def)
  ultimately show ?thesis
    using u A assms(1) node_step_others [of u "mem g" "tops_2Dc g" "mem g'" "tops_2Dc g'" t]
      node_step_values [of u "mem g" "tops_2Dc g" "mem g'" "tops_2Dc g'" t]
    unfolding stack_step_2Dc_def known_2Dc_def by (elim disjE) auto
qed

lemma loaded_env:
  assumes "known_2Dc cfg t po xs ys g" "loaded_2Dc i d g" "env1 (stack_step_2Dc cfg) (stack_room_2Dc cfg) t g g'"
  shows "loaded_2Dc i d g'"
  using assms node_step_hist(1) [of _ "mem g" "tops_2Dc g" "mem g'" "tops_2Dc g'" "d_node d"]
  by (auto simp: env1_def stack_step_2Dc_def known_2Dc_def conc_inv_2Dc_def stack_inv_2Dc_def loaded_2Dc_def)

lemma top_published_2Dc:
  assumes "known_2Dc cfg t po xs ys g" "i < width cfg"
  shows "i < length (set_array g)" "d_node (set_array g ! i) = NULL \<or> d_node (set_array g ! i) \<in> set (hist (mem g))"
proof -
  have ok: "stacks_ok (mem g) (tops_2Dc g)" and len: "length (set_array g) = width cfg"
    using assms(1) by (auto simp: known_2Dc_def conc_inv_2Dc_def stack_inv_2Dc_def)
  then show i: "i < length (set_array g)" using assms(2) by simp
  then have "chain (heap (mem g)) (d_node (set_array g ! i)) (subs (mem g) (tops_2Dc g) ! i)"
    using stacks_okD(3) [OF ok, of i] by simp
  then show "d_node (set_array g ! i) = NULL \<or> d_node (set_array g ! i) \<in> set (hist (mem g))"
    using in_subs_hist [OF ok, of i] i by (cases "subs (mem g) (tops_2Dc g) ! i") auto
qed

lemma window_step_known:
  assumes "known_2Dc cfg t po xs ys g" "stack_step_2Dc cfg t g (g\<lparr>global_Window := w\<rparr>)"
    and "stack_room_2Dc cfg (g\<lparr>global_Window := w\<rparr>)"
  shows "known_2Dc cfg t po xs ys (g\<lparr>global_Window := w\<rparr>)"
  using assms stk_conc.inv_step [OF _ assms(2,3)] by (auto simp: known_2Dc_def)

lemma known_envs_2Dc:
  assumes "env (stack_step_2Dc cfg) (stack_room_2Dc cfg) t g h" "known_2Dc cfg t po xs ys g"
  shows "known_2Dc cfg t po xs ys h" and "loaded_2Dc i d g \<Longrightarrow> loaded_2Dc i d h"
proof -
  have "known_2Dc cfg t po xs ys h \<and> (loaded_2Dc i d g \<longrightarrow> loaded_2Dc i d h)"
    using assms
  proof (induction rule: rtranclp_induct)
    case (step y z)
    then have "known_2Dc cfg t po xs ys z" using known_env_2Dc [OF _ step.hyps(2)] by blast
    moreover have "loaded_2Dc i d y \<longrightarrow> loaded_2Dc i d z" using step loaded_env [OF _ _ step.hyps(2)] by blast
    ultimately show ?case using step by blast
  qed simp
  then show "known_2Dc cfg t po xs ys h" "loaded_2Dc i d g \<Longrightarrow> loaded_2Dc i d h"
    by blast+
qed

lemma load_descriptor_ok:
  assumes "known_2Dc cfg t po xs ys g" "i < width cfg"
  shows "ok (stack_step_2Dc cfg) (stack_room_2Dc cfg) t (load_descriptor_2Dc i)
    (\<lambda>d h. known_2Dc cfg t po xs ys h \<and> loaded_2Dc i d h) g"
  unfolding load_descriptor_2Dc_def
proof (rule ok_rd_opt)
  fix h
  assume h: "env (stack_step_2Dc cfg) (stack_room_2Dc cfg) t g h"
  note k = known_envs_2Dc(1) [OF h assms(1)] and top = top_published_2Dc [OF known_envs_2Dc(1) [OF h assms(1)] assms(2)]
  let ?n = "d_node (set_array h ! i)"
  have "ok (stack_step_2Dc cfg) (stack_room_2Dc cfg) t
     (pbind (rd_opt (\<lambda>g. map_option d_count (at (set_array g) i))) (\<lambda>c. Ret \<lparr>d_node = ?n, d_count = c\<rparr>))
     (\<lambda>d h. known_2Dc cfg t po xs ys h \<and> loaded_2Dc i d h) h"
  proof (rule ok_rd_opt)
    fix h'
    assume h': "env (stack_step_2Dc cfg) (stack_room_2Dc cfg) t h h'"
    note k' = known_envs_2Dc [OF h' k] and top' = top_published_2Dc [OF known_envs_2Dc(1) [OF h' k] assms(2)]
    have "loaded_2Dc i \<lparr>d_node = ?n, d_count = c\<rparr> h" for c using top by (simp add: loaded_2Dc_def)
    then show "\<exists>v. map_option d_count (at (set_array h') i) = Some v \<and>
       ok (stack_step_2Dc cfg) (stack_room_2Dc cfg) t (Ret \<lparr>d_node = ?n, d_count = v\<rparr>)
        (\<lambda>d h. known_2Dc cfg t po xs ys h \<and> loaded_2Dc i d h) h'"
      using top'(1) known_envs_2Dc [OF _ k'(1)] k'(2) by auto
  qed
  then show "\<exists>v. map_option d_node (at (set_array h) i) = Some v \<and>
     ok (stack_step_2Dc cfg) (stack_room_2Dc cfg) t
      (pbind (rd_opt (\<lambda>g. map_option d_count (at (set_array g) i))) (\<lambda>c. Ret \<lparr>d_node = v, d_count = c\<rparr>))
      (\<lambda>d h. known_2Dc cfg t po xs ys h \<and> loaded_2Dc i d h) h"
    using top(1) by simp
qed

interpretation stk_win: window2Dc_env "stack_step_2Dc cfg" "stack_room_2Dc cfg" t cfg load_descriptor_2Dc d_count
  "known_2Dc cfg t po xs ys" loaded_2Dc for cfg t po xs ys
proof
  fix g g' i d w
  show "known_2Dc cfg t po xs ys g \<Longrightarrow> 0 < width cfg" "known_2Dc cfg t po xs ys g \<Longrightarrow> width cfg < 65536"
    by (auto simp: known_2Dc_def conc_inv_2Dc_def ds2Dc_ok_def)
  assume k: "known_2Dc cfg t po xs ys g"
  show "env1 (stack_step_2Dc cfg) (stack_room_2Dc cfg) t g g' \<Longrightarrow> known_2Dc cfg t po xs ys g'"
    by (rule known_env_2Dc [OF k])
  show "loaded_2Dc i d g \<Longrightarrow> env1 (stack_step_2Dc cfg) (stack_room_2Dc cfg) t g g' \<Longrightarrow> loaded_2Dc i d g'"
    by (rule loaded_env [OF k])
  have room: "win_max (global_Window g) + depth cfg + shift cfg < W64" "win_version (global_Window g) + 1 < W64"
    and sh: "1 \<le> shift cfg" "shift cfg \<le> depth cfg" "depth cfg \<le> win_max (global_Window g)"
    using k by (auto simp: known_2Dc_def stack_room_2Dc_def room2Dc_def conc_inv_2Dc_def ds2Dc_ok_def)
  show "w = \<lparr>win_max = add64 (win_max (global_Window g)) (shift cfg), win_version = add64 (win_version (global_Window g)) 1\<rparr> \<Longrightarrow>
      stack_room_2Dc cfg (g\<lparr>global_Window := w\<rparr>) \<Longrightarrow>
      stack_step_2Dc cfg t g (g\<lparr>global_Window := w\<rparr>) \<and> known_2Dc cfg t po xs ys (g\<lparr>global_Window := w\<rparr>)"
    using room by (auto simp: stack_step_2Dc_def shifted_up_def add64_eq intro!: window_step_known [OF k])
  assume w: "w = \<lparr>win_max = sub64 (win_max (global_Window g)) (shift cfg), win_version = add64 (win_version (global_Window g)) 1\<rparr>"
    "depth cfg \<le> win_max w" and r: "stack_room_2Dc cfg (g\<lparr>global_Window := w\<rparr>)"
  have "w = shifted_down cfg (global_Window g)" "depth cfg + shift cfg \<le> win_max (global_Window g)"
    using w room sh by (auto simp: shifted_down_def add64_eq sub64_eq)
  then show "stack_step_2Dc cfg t g (g\<lparr>global_Window := w\<rparr>) \<and> known_2Dc cfg t po xs ys (g\<lparr>global_Window := w\<rparr>)"
    using r by (auto simp: stack_step_2Dc_def intro!: window_step_known [OF k])
next
  fix g i
  assume "known_2Dc cfg t po xs ys g" "i < width cfg"
  then show "ok (stack_step_2Dc cfg) (stack_room_2Dc cfg) t (load_descriptor_2Dc i)
      (\<lambda>d h. known_2Dc cfg t po xs ys h \<and> loaded_2Dc i d h) g"
    by (rule load_descriptor_ok)
qed

section \<open>Push and pop under interference\<close>

lemma known_stacks_ok: "known_2Dc cfg t po xs ys g \<Longrightarrow> stacks_ok (mem g) (tops_2Dc g)"
  by (simp add: known_2Dc_def conc_inv_2Dc_def stack_inv_2Dc_def)

text \<open>What survives the others' steps: the contents of a published node, and that a node is unlinked by \<open>t\<close>.\<close>

lemma node_envs:
  assumes "env (stack_step_2Dc cfg) (stack_room_2Dc cfg) t g h" "known_2Dc cfg t po xs ys g"
  shows "p \<in> set (hist (mem g)) \<Longrightarrow> p \<in> set (hist (mem h)) \<and> heap (mem h) p = heap (mem g) p"
    and "(p, t) \<in> set (removed (mem g)) \<Longrightarrow> (p, t) \<in> set (removed (mem h))"
proof -
  have "(p \<in> set (hist (mem g)) \<longrightarrow> p \<in> set (hist (mem h)) \<and> heap (mem h) p = heap (mem g) p) \<and>
     ((p, t) \<in> set (removed (mem g)) \<longrightarrow> (p, t) \<in> set (removed (mem h)))"
    using assms
  proof (induction rule: rtranclp_induct)
    case (step y z)
    obtain u where u: "u \<noteq> t" "stack_step_2Dc cfg u y z" using step.hyps(2) by (auto simp: env1_def)
    have ok: "stacks_ok (mem y) (tops_2Dc y)"
      using known_envs_2Dc(1) [OF step.hyps(1) step.prems] by (rule known_stacks_ok)
    have "(p \<in> set (hist (mem y)) \<longrightarrow> p \<in> set (hist (mem z)) \<and> heap (mem z) p = heap (mem y) p) \<and>
       ((p, t) \<in> set (removed (mem y)) \<longrightarrow> (p, t) \<in> set (removed (mem z)))"
      using u(2) node_step_hist [OF _ ok] node_step_others(2) [OF _ ok u(1)] unfolding stack_step_2Dc_def
      by (elim disjE) auto
    then show ?case using step by auto
  qed simp
  then show "p \<in> set (hist (mem g)) \<Longrightarrow> p \<in> set (hist (mem h)) \<and> heap (mem h) p = heap (mem g) p"
    "(p, t) \<in> set (removed (mem g)) \<Longrightarrow> (p, t) \<in> set (removed (mem h))" by blast+
qed

lemma room_mem [simp]: "stack_room_2Dc cfg (g\<lparr>mem := m\<rparr>) = stack_room_2Dc cfg g"
  by (simp add: stack_room_2Dc_def)

text \<open>A step of the thread itself on the node memory, with what it knows afterwards.\<close>

lemma own_step_2Dc:
  assumes k: "known_2Dc cfg t po xs ys g" and st: "node_step t (mem g, tops_2Dc g) (mem g', tops_2Dc g')"
    and "global_Window g' = global_Window g" and A: "stack_room_2Dc cfg g'"
    and "\<And>p nd. po' = Some (p, nd) \<Longrightarrow> mine (mem g') t p \<and> heap (mem g') p = Some nd"
    and "pushed_by t (mem g') = xs'" "popped_by t (mem g') = ys'"
  shows "stack_step_2Dc cfg t g g' \<and> known_2Dc cfg t po' xs' ys' g'"
proof
  show s: "stack_step_2Dc cfg t g g'" using st assms(3) by (simp add: stack_step_2Dc_def)
  show "known_2Dc cfg t po' xs' ys' g'"
    using stk_conc.inv_step [OF _ s A] k assms(4-) by (simp add: known_2Dc_def)
qed

lemma ok_stack_cae:
  assumes "\<And>h. env (stack_step_2Dc cfg) (stack_room_2Dc cfg) t g h \<Longrightarrow> at (set_array h) i = Some d \<Longrightarrow>
      stack_room_2Dc cfg (h\<lparr>set_array := (set_array h)[i := d'], mem := gh (mem h)\<rparr>) \<Longrightarrow>
      stack_step_2Dc cfg t h (h\<lparr>set_array := (set_array h)[i := d'], mem := gh (mem h)\<rparr>) \<and>
      ok (stack_step_2Dc cfg) (stack_room_2Dc cfg) t (k True) Q (h\<lparr>set_array := (set_array h)[i := d'], mem := gh (mem h)\<rparr>)"
    and "\<And>h. env (stack_step_2Dc cfg) (stack_room_2Dc cfg) t g h \<Longrightarrow>
      ok (stack_step_2Dc cfg) (stack_room_2Dc cfg) t (k False) Q h"
  shows "ok (stack_step_2Dc cfg) (stack_room_2Dc cfg) t (pbind (stack_cae_2Dc i d d' gh) k) Q g"
  using assms by (simp add: stack_cae_2Dc_def)

text \<open>A thread between two calls.\<close>

definition at_rest_2Dc :: "ds2Dc \<Rightarrow> nat \<Rightarrow> int list \<Rightarrow> int multiset \<Rightarrow> tl2Dc \<Rightarrow> stack2Dc \<Rightarrow> bool" where
  "at_rest_2Dc cfg t xs ys l g \<longleftrightarrow> known_2Dc cfg t None xs ys g \<and> thread_index l < width cfg"

lemma at_rest_envs:
  "env (stack_step_2Dc cfg) (stack_room_2Dc cfg) t g h \<Longrightarrow> at_rest_2Dc cfg t xs ys l g \<Longrightarrow> at_rest_2Dc cfg t xs ys l h"
  by (auto simp: at_rest_2Dc_def intro: known_envs_2Dc)

lemma publish_step:
  assumes k: "known_2Dc cfg t (Some (p, nd)) xs ys g" and i: "i < width cfg"
    and d: "at (set_array g) i = Some d" "n_next nd = d_node d"
    and g': "g' = g\<lparr>set_array := (set_array g)[i := \<lparr>d_node = p, d_count = add64 (d_count d) 1\<rparr>],
                  mem := mem_publish p (mem g)\<rparr>" and A: "stack_room_2Dc cfg g'"
  shows "stack_step_2Dc cfg t g g' \<and> known_2Dc cfg t None (n_val nd # xs) ys g'"
proof (rule own_step_2Dc [OF k _ _ A])
  note ok = known_stacks_ok [OF k]
  have p: "mine (mem g) t p" "heap (mem g) p = Some nd" "pushed_by t (mem g) = xs" "popped_by t (mem g) = ys"
    using k by (auto simp: known_2Dc_def)
  have il: "i < length (set_array g)" "d = set_array g ! i" using d(1) by (auto simp: at_eq_Some)
  have "d_count d + 1 < W64" using k il by (auto simp: known_2Dc_def stack_room_2Dc_def)
  then have "tops_2Dc g' = (tops_2Dc g)[i := (p, snd (tops_2Dc g ! i) + 1)]"
    using il by (simp add: g' tops_2Dc_def map_update add64_eq)
  then show "node_step t (mem g, tops_2Dc g) (mem g', tops_2Dc g')"
    using ns_publish [of i "tops_2Dc g" "mem g" t p nd] p il d by (simp add: g')
  show "pushed_by t (mem g') = n_val nd # xs" "popped_by t (mem g') = ys"
    using own_values(5,6) [OF ok, of t p] p by (simp_all add: g' node_val_def)
qed (simp_all add: g')

lemma set_next_step:
  assumes k: "known_2Dc cfg t (Some (p, nd)) xs ys g"
  shows "stack_step_2Dc cfg t g (g\<lparr>mem := mem_set_next p q (mem g)\<rparr>) \<and>
    known_2Dc cfg t (Some (p, nd\<lparr>n_next := q\<rparr>)) xs ys (g\<lparr>mem := mem_set_next p q (mem g)\<rparr>)"
proof (rule own_step_2Dc [OF k])
  have p: "mine (mem g) t p" "heap (mem g) p = Some nd" "stack_room_2Dc cfg g" "pushed_by t (mem g) = xs"
    "popped_by t (mem g) = ys" using k by (auto simp: known_2Dc_def)
  show "node_step t (mem g, tops_2Dc g)
      (mem (g\<lparr>mem := mem_set_next p q (mem g)\<rparr>), tops_2Dc (g\<lparr>mem := mem_set_next p q (mem g)\<rparr>))"
    using ns_set_next [OF p(1)] by simp
  show "pushed_by t (mem (g\<lparr>mem := mem_set_next p q (mem g)\<rparr>)) = xs"
    "popped_by t (mem (g\<lparr>mem := mem_set_next p q (mem g)\<rparr>)) = ys"
    using own_values(3,4) [OF known_stacks_ok [OF k]] p by simp_all
  fix p' nd'
  assume "Some (p, nd\<lparr>n_next := q\<rparr>) = Some (p', nd')"
  then show "mine (mem (g\<lparr>mem := mem_set_next p q (mem g)\<rparr>)) t p' \<and>
      heap (mem (g\<lparr>mem := mem_set_next p q (mem g)\<rparr>)) p' = Some nd'"
    using p by (auto simp: mem_set_next_def)
qed (use k in \<open>simp_all add: known_2Dc_def\<close>)

lemma at_rest_Ret:
  assumes "at_rest_2Dc cfg t xs ys l g" "P r"
  shows "ok (stack_step_2Dc cfg) (stack_room_2Dc cfg) t (Ret (r, l)) (\<lambda>(r, l') h. P r \<and> at_rest_2Dc cfg t xs ys l' h) g"
  using assms at_rest_envs by auto

lemma push_cas_ok:
  assumes k: "known_2Dc cfg t (Some (p, nd)) xs ys g" and d: "n_next nd = d_node d"
    and i: "thread_index l < width cfg"
    and finish: "\<And>h. at_rest_2Dc cfg t (n_val nd # xs) ys l h \<Longrightarrow>
        ok (stack_step_2Dc cfg) (stack_room_2Dc cfg) t (f True) Q h"
    and retry: "\<And>h. known_2Dc cfg t (Some (p, nd)) xs ys h \<Longrightarrow>
        ok (stack_step_2Dc cfg) (stack_room_2Dc cfg) t (f False) Q h"
  shows "ok (stack_step_2Dc cfg) (stack_room_2Dc cfg) t
    (pbind (stack_cae_2Dc (thread_index l) d \<lparr>d_node = p, d_count = add64 (d_count d) 1\<rparr> (mem_publish p)) f) Q g"
proof (rule ok_stack_cae)
  fix h
  assume e: "env (stack_step_2Dc cfg) (stack_room_2Dc cfg) t g h"
  note k' = known_envs_2Dc(1) [OF e k]
  show "ok (stack_step_2Dc cfg) (stack_room_2Dc cfg) t (f False) Q h" by (rule retry [OF k'])
  let ?h = "h\<lparr>set_array := (set_array h)[thread_index l := \<lparr>d_node = p, d_count = add64 (d_count d) 1\<rparr>],
    mem := mem_publish p (mem h)\<rparr>"
  assume "at (set_array h) (thread_index l) = Some d" "stack_room_2Dc cfg ?h"
  then have st: "stack_step_2Dc cfg t h ?h \<and> known_2Dc cfg t None (n_val nd # xs) ys ?h"
    using publish_step [OF k' i _ d refl] by simp
  then have "at_rest_2Dc cfg t (n_val nd # xs) ys l ?h"
    using i by (simp add: at_rest_2Dc_def)
  then show "stack_step_2Dc cfg t h ?h \<and> ok (stack_step_2Dc cfg) (stack_room_2Dc cfg) t (f True) Q ?h"
    using st finish by blast
qed

lemma push_loop_ok:
  assumes "known_2Dc cfg t (Some (p, nd)) xs ys g" "thread_index l < width cfg"
  shows "ok (stack_step_2Dc cfg) (stack_room_2Dc cfg) t (push_loop_2Dc n fuel cfg t p l c)
    (\<lambda>(r, l') h. r = 1 \<and> at_rest_2Dc cfg t (n_val nd # xs) ys l' h) g"
  using assms
proof (induction n arbitrary: nd l c g)
  case 0
  then show ?case by simp
next
  case (Suc n)
  show ?case
    unfolding push_loop_2Dc.simps
  proof (rule ok_bind_mono [OF stk_win.put_window_ok [OF Suc.prems]], clarify, rule ok_wr)
    fix d and l' :: tl2Dc and h h'
    assume "stk_win.handed cfg t (Some (p, nd)) xs ys (d, l') h" "env (stack_step_2Dc cfg) (stack_room_2Dc cfg) t h h'"
    then have "stk_win.handed cfg t (Some (p, nd)) xs ys (d, l') h'" by (blast intro: stk_win.handed_env)
    then have k: "known_2Dc cfg t (Some (p, nd)) xs ys h'" and w: "thread_index l' < width cfg"
      by (auto simp: stk_win.handed_def)
    let ?h = "h'\<lparr>mem := mem_set_next p (d_node d) (mem h')\<rparr>"
    note st = set_next_step [OF k, of "d_node d"]
    have "ok (stack_step_2Dc cfg) (stack_room_2Dc cfg) t
       (pbind (stack_cae_2Dc (thread_index l') d \<lparr>d_node = p, d_count = add64 (d_count d) 1\<rparr> (mem_publish p)) (\<lambda>success.
          if success then Ret (1, l') else push_loop_2Dc n fuel cfg t p
            (l'\<lparr>my_put_cas_fail_count := add64 (my_put_cas_fail_count l') 1\<rparr>) True))
       (\<lambda>(r, l') h. r = 1 \<and> at_rest_2Dc cfg t (n_val nd # xs) ys l' h) ?h"
      using st w Suc.IH [of "nd\<lparr>n_next := d_node d\<rparr>"]
      by (intro push_cas_ok [of _ _ _ "nd\<lparr>n_next := d_node d\<rparr>"]) (auto simp del: ok.simps intro: at_rest_Ret)
    then show "(?h = h' \<or> stack_step_2Dc cfg t h' ?h) \<and> ok (stack_step_2Dc cfg) (stack_room_2Dc cfg) t
       (let new_descriptor = \<lparr>d_node = p, d_count = add64 (d_count d) 1\<rparr>
        in pbind (stack_cae_2Dc (thread_index l') d new_descriptor (mem_publish p)) (\<lambda>success.
          if success then Ret (1, l') else push_loop_2Dc n fuel cfg t p
            (l'\<lparr>my_put_cas_fail_count := add64 (my_put_cas_fail_count l') 1\<rparr>) True))
       (\<lambda>(r, l') h. r = 1 \<and> at_rest_2Dc cfg t (n_val nd # xs) ys l' h) ?h"
      using st by simp
  qed
qed

lemma push_ok_2Dc:
  assumes "alloc_fresh al" "at_rest_2Dc cfg t xs ys l g"
  shows "ok (stack_step_2Dc cfg) (stack_room_2Dc cfg) t (push_2Dc al fuel cfg t key val l)
    (\<lambda>(r, l') h. r = 1 \<and> at_rest_2Dc cfg t (val # xs) ys l' h) g"
  unfolding push_2Dc_def create_node_2Dc_def pbind.simps
proof (rule ok_Act)
  fix h
  assume e: "env (stack_step_2Dc cfg) (stack_room_2Dc cfg) t g h"
  let ?p = "al t (allocd (mem h))" and ?nd = "\<lparr>n_key = key, n_val = val, n_next = NULL\<rparr>"
  let ?h = "h\<lparr>mem := mem_alloc t ?p ?nd (mem h)\<rparr>"
  have k: "known_2Dc cfg t None xs ys h" and w: "thread_index l < width cfg"
    using at_rest_envs [OF e assms(2)] by (auto simp: at_rest_2Dc_def)
  note ok = known_stacks_ok [OF k]
  have p: "?p \<noteq> NULL" "?p \<notin> set (allocd (mem h))" using assms(1) by (auto simp: alloc_fresh_def)
  have st: "stack_step_2Dc cfg t h ?h \<and> known_2Dc cfg t (Some (?p, ?nd)) xs ys ?h"
  proof (rule own_step_2Dc [OF k])
    show "node_step t (mem h, tops_2Dc h) (mem ?h, tops_2Dc ?h)" using ns_alloc [OF p(2,1)] by simp
    show "pushed_by t (mem ?h) = xs" "popped_by t (mem ?h) = ys"
      using own_values(1,2) [OF ok p(2)] k by (simp_all add: known_2Dc_def)
    have "?p \<notin> set (hist (mem h))" using p(2) stacks_okD(6) [OF ok] by blast
    then show "mine (mem ?h) t q \<and> heap (mem ?h) q = Some nd" if "Some (?p, ?nd) = Some (q, nd)" for q nd
      using that by (auto simp: mine_def)
  qed (use k in \<open>simp_all add: known_2Dc_def\<close>)
  then have "ok (stack_step_2Dc cfg) (stack_room_2Dc cfg) t (push_loop_2Dc fuel fuel cfg t ?p l False)
    (\<lambda>(r, l') h. r = 1 \<and> at_rest_2Dc cfg t (n_val ?nd # xs) ys l' h) ?h"
    using w by (intro push_loop_ok) auto
  then show "(?h = h \<or> stack_step_2Dc cfg t h ?h) \<and> ok (stack_step_2Dc cfg) (stack_room_2Dc cfg) t
      (push_loop_2Dc fuel fuel cfg t ?p l False) (\<lambda>(r, l') h. r = 1 \<and> at_rest_2Dc cfg t (val # xs) ys l' h) ?h"
    using st by simp
qed

lemma remove_step:
  assumes k: "known_2Dc cfg t None xs ys g" and i: "i < width cfg"
    and d: "at (set_array g) i = Some d" "d_node d \<noteq> NULL" "heap (mem g) (d_node d) = Some nd"
    and g': "g' = g\<lparr>set_array := (set_array g)[i := \<lparr>d_node = n_next nd, d_count = sub64 (d_count d) 1\<rparr>],
                  mem := mem_remove t (d_node d) (mem g)\<rparr>" and A: "stack_room_2Dc cfg g'"
  shows "stack_step_2Dc cfg t g g' \<and> known_2Dc cfg t None xs (add_mset (n_val nd) ys) g'"
proof (rule own_step_2Dc [OF k _ _ A])
  note ok = known_stacks_ok [OF k]
  have il: "i < length (set_array g)" "d = set_array g ! i" using d(1) by (auto simp: at_eq_Some)
  have "d_count d + 1 < W64" using k il by (auto simp: known_2Dc_def stack_room_2Dc_def)
  moreover have "0 < d_count d"
    using subs_remove(2) [OF ok, of i "d_node d" nd] il d by simp
  ultimately have "tops_2Dc g' = (tops_2Dc g)[i := (n_next nd, snd (tops_2Dc g ! i) - 1)]"
    using il by (simp add: g' tops_2Dc_def map_update sub64_eq)
  then show "node_step t (mem g, tops_2Dc g) (mem g', tops_2Dc g')"
    using ns_remove [of i "tops_2Dc g" "d_node d" "mem g" nd t] il d by (simp add: g')
  show "pushed_by t (mem g') = xs" "popped_by t (mem g') = add_mset (n_val nd) ys"
    using own_values(7,8) [OF ok] k d by (simp_all add: g' node_val_def known_2Dc_def)
qed (simp_all add: g')

lemma free_step:
  assumes k: "known_2Dc cfg t None xs ys g" and p: "(p, t) \<in> set (removed (mem g))"
  shows "stack_step_2Dc cfg t g (g\<lparr>mem := mem_free t p (mem g)\<rparr>) \<and>
    known_2Dc cfg t None xs ys (g\<lparr>mem := mem_free t p (mem g)\<rparr>)"
proof (rule own_step_2Dc [OF k])
  show "node_step t (mem g, tops_2Dc g)
     (mem (g\<lparr>mem := mem_free t p (mem g)\<rparr>), tops_2Dc (g\<lparr>mem := mem_free t p (mem g)\<rparr>))"
    using ns_free [OF p] by simp
  show "pushed_by t (mem (g\<lparr>mem := mem_free t p (mem g)\<rparr>)) = xs"
    "popped_by t (mem (g\<lparr>mem := mem_free t p (mem g)\<rparr>)) = ys"
    using own_values(9,10) [OF known_stacks_ok [OF k]] k p by (simp_all add: known_2Dc_def)
qed (use k in \<open>simp_all add: known_2Dc_def\<close>)

text \<open>What a pop adds to the values its thread has taken: its result, unless that is the null value.\<close>



definition popped_ok_2Dc :: "ds2Dc \<Rightarrow> nat \<Rightarrow> int list \<Rightarrow> int multiset \<Rightarrow> int \<times> tl2Dc \<Rightarrow> stack2Dc \<Rightarrow> bool" where
  "popped_ok_2Dc cfg t xs ys = (\<lambda>(r, l) h. \<exists>ys'. took r ys ys' \<and> at_rest_2Dc cfg t xs ys' l h)"

lemma popped_ok_Ret:
  assumes "at_rest_2Dc cfg t xs ys' l g" "took r ys ys'"
  shows "ok (stack_step_2Dc cfg) (stack_room_2Dc cfg) t (Ret (r, l)) (popped_ok_2Dc cfg t xs ys) g"
  using assms at_rest_envs [of cfg t g _ xs ys' l] by (auto simp: popped_ok_2Dc_def)

lemma pop_finish_ok:
  assumes r: "at_rest_2Dc cfg t xs (add_mset (n_val nd) ys) l g" and p: "(p, t) \<in> set (removed (mem g))"
    and nd: "heap (mem g) p = Some nd"
  shows "ok (stack_step_2Dc cfg) (stack_room_2Dc cfg) t
    (pbind (rd_opt (\<lambda>g. map_option n_val (heap (mem g) p))) (\<lambda>node_val.
     pbind (wr (\<lambda>g. g\<lparr>mem := mem_free t p (mem g)\<rparr>)) (\<lambda>_. Ret (node_val, l)))) (popped_ok_2Dc cfg t xs ys) g"
proof (rule ok_rd_opt)
  fix h
  assume e: "env (stack_step_2Dc cfg) (stack_room_2Dc cfg) t g h"
  have k: "known_2Dc cfg t None xs (add_mset (n_val nd) ys) g" using r by (simp add: at_rest_2Dc_def)
  have "p \<in> set (hist (mem g))" using removed_hist known_stacks_ok [OF k] p by blast
  then have h: "heap (mem h) p = Some nd" "(p, t) \<in> set (removed (mem h))" using node_envs [OF e k] nd p by auto
  note rh = at_rest_envs [OF e r]
  have "ok (stack_step_2Dc cfg) (stack_room_2Dc cfg) t
      (pbind (wr (\<lambda>g. g\<lparr>mem := mem_free t p (mem g)\<rparr>)) (\<lambda>_. Ret (n_val nd, l))) (popped_ok_2Dc cfg t xs ys) h"
  proof (rule ok_wr)
    fix h'
    assume e': "env (stack_step_2Dc cfg) (stack_room_2Dc cfg) t h h'"
    have k': "known_2Dc cfg t None xs (add_mset (n_val nd) ys) h" using rh by (simp add: at_rest_2Dc_def)
    note rh' = at_rest_envs [OF e' rh]
    have "(p, t) \<in> set (removed (mem h'))" using node_envs(2) [OF e' k'] h by blast
    then have st: "stack_step_2Dc cfg t h' (h'\<lparr>mem := mem_free t p (mem h')\<rparr>) \<and>
        at_rest_2Dc cfg t xs (add_mset (n_val nd) ys) l (h'\<lparr>mem := mem_free t p (mem h')\<rparr>)"
      using free_step rh' by (auto simp: at_rest_2Dc_def)
    then show "((h'\<lparr>mem := mem_free t p (mem h')\<rparr>) = h' \<or> stack_step_2Dc cfg t h' (h'\<lparr>mem := mem_free t p (mem h')\<rparr>)) \<and>
      ok (stack_step_2Dc cfg) (stack_room_2Dc cfg) t (Ret (n_val nd, l)) (popped_ok_2Dc cfg t xs ys)
        (h'\<lparr>mem := mem_free t p (mem h')\<rparr>)"
      using popped_ok_Ret [of cfg t xs "add_mset (n_val nd) ys" l _ "n_val nd" ys] by (simp add: took_def del: ok.simps)
  qed
  then show "\<exists>v. map_option n_val (heap (mem h) p) = Some v \<and> ok (stack_step_2Dc cfg) (stack_room_2Dc cfg) t
      (pbind (wr (\<lambda>g. g\<lparr>mem := mem_free t p (mem g)\<rparr>)) (\<lambda>_. Ret (v, l))) (popped_ok_2Dc cfg t xs ys) h"
    using h by simp
qed

lemma pop_cas_ok:
  assumes r: "at_rest_2Dc cfg t xs ys l g" and d: "d_node d \<noteq> NULL" "d_node d \<in> set (hist (mem g))"
    and nd: "heap (mem g) (d_node d) = Some nd"
    and retry: "\<And>h. at_rest_2Dc cfg t xs ys l h \<Longrightarrow> ok (stack_step_2Dc cfg) (stack_room_2Dc cfg) t q (popped_ok_2Dc cfg t xs ys) h"
  shows "ok (stack_step_2Dc cfg) (stack_room_2Dc cfg) t
    (pbind (stack_cae_2Dc (thread_index l) d \<lparr>d_node = n_next nd, d_count = sub64 (d_count d) 1\<rparr> (mem_remove t (d_node d)))
      (\<lambda>success. if success then
         pbind (rd_opt (\<lambda>g. map_option n_val (heap (mem g) (d_node d)))) (\<lambda>node_val.
         pbind (wr (\<lambda>g. g\<lparr>mem := mem_free t (d_node d) (mem g)\<rparr>)) (\<lambda>_. Ret (node_val, l))) else q))
    (popped_ok_2Dc cfg t xs ys) g"
proof (rule ok_stack_cae, goal_cases)
  case (1 h)
  have k: "known_2Dc cfg t None xs ys g" and i: "thread_index l < width cfg" using r by (auto simp: at_rest_2Dc_def)
  note rh = at_rest_envs [OF 1(1) r]
  have nd': "heap (mem h) (d_node d) = Some nd" using node_envs(1) [OF 1(1) k d(2)] nd by simp
  let ?h = "h\<lparr>set_array := (set_array h)[thread_index l := \<lparr>d_node = n_next nd, d_count = sub64 (d_count d) 1\<rparr>],
    mem := mem_remove t (d_node d) (mem h)\<rparr>"
  have st: "stack_step_2Dc cfg t h ?h \<and> known_2Dc cfg t None xs (add_mset (n_val nd) ys) ?h"
    using remove_step [OF _ i 1(2) d(1) nd' refl 1(3), of xs ys] rh by (auto simp: at_rest_2Dc_def)
  then have "at_rest_2Dc cfg t xs (add_mset (n_val nd) ys) l ?h" using rh by (simp add: at_rest_2Dc_def)
  then show ?case using st nd' by (auto simp del: ok.simps simp: mem_remove_def intro!: pop_finish_ok)
next
  case (2 h)
  then show ?case using retry at_rest_envs [OF _ r] by simp
qed

lemma pop_try_ok:
  assumes r: "at_rest_2Dc cfg t xs ys l g" and d: "d_node d \<noteq> NULL" "d_node d \<in> set (hist (mem g))"
    and retry: "\<And>h. at_rest_2Dc cfg t xs ys l h \<Longrightarrow> ok (stack_step_2Dc cfg) (stack_room_2Dc cfg) t q (popped_ok_2Dc cfg t xs ys) h"
  shows "ok (stack_step_2Dc cfg) (stack_room_2Dc cfg) t
    (pbind (rd_opt (\<lambda>g. map_option n_next (heap (mem g) (d_node d)))) (\<lambda>nxt.
     pbind (stack_cae_2Dc (thread_index l) d \<lparr>d_node = nxt, d_count = sub64 (d_count d) 1\<rparr> (mem_remove t (d_node d)))
      (\<lambda>success. if success then
         pbind (rd_opt (\<lambda>g. map_option n_val (heap (mem g) (d_node d)))) (\<lambda>node_val.
         pbind (wr (\<lambda>g. g\<lparr>mem := mem_free t (d_node d) (mem g)\<rparr>)) (\<lambda>_. Ret (node_val, l))) else q)))
    (popped_ok_2Dc cfg t xs ys) g"
proof (rule ok_rd_opt, goal_cases)
  case (1 h)
  have k: "known_2Dc cfg t None xs ys g" using r by (simp add: at_rest_2Dc_def)
  have p: "d_node d \<in> set (hist (mem h))" using node_envs(1) [OF 1 k] d by simp
  note r' = at_rest_envs [OF 1 r]
  then have ok: "stacks_ok (mem h) (tops_2Dc h)" by (auto simp: at_rest_2Dc_def intro: known_stacks_ok)
  have "d_node d \<in> dom (heap (mem h))" using p stacks_okD(1,6) [OF ok] by blast
  then show ?case using pop_cas_ok [OF r' d(1) p _ retry] by auto
qed

lemma pop_loop_ok:
  assumes "at_rest_2Dc cfg t xs ys l g"
  shows "ok (stack_step_2Dc cfg) (stack_room_2Dc cfg) t (pop_loop_2Dc n fuel cfg t l c) (popped_ok_2Dc cfg t xs ys) g"
  using assms
proof (induction n arbitrary: l c g)
  case 0
  then show ?case by simp
next
  case (Suc n)
  have get: "ok (stack_step_2Dc cfg) (stack_room_2Dc cfg) t (get_window_2Dc fuel cfg load_descriptor_2Dc d_count l c)
      (stk_win.handed cfg t None xs ys) g"
    using Suc.prems by (intro stk_win.get_window_ok) (auto simp: at_rest_2Dc_def)
  show ?case
    unfolding pop_loop_2Dc.simps
  proof (rule ok_bind_mono [OF get], clarify, goal_cases)
    case (1 d l' h)
    then have r: "at_rest_2Dc cfg t xs ys l' h" and d: "d_node d = NULL \<or> d_node d \<in> set (hist (mem h))"
      by (auto simp: stk_win.handed_def at_rest_2Dc_def loaded_2Dc_def)
    have retry: "ok (stack_step_2Dc cfg) (stack_room_2Dc cfg) t
        (pop_loop_2Dc n fuel cfg t (l'\<lparr>my_get_cas_fail_count := m\<rparr>) True) (popped_ok_2Dc cfg t xs ys) h'"
      if "at_rest_2Dc cfg t xs ys l' h'" for h' m
      using that by (intro Suc.IH) (simp add: at_rest_2Dc_def)
    have null: "ok (stack_step_2Dc cfg) (stack_room_2Dc cfg) t (Ret (0, l'\<lparr>my_null_count := m\<rparr>)) (popped_ok_2Dc cfg t xs ys) h" for m
      by (rule popped_ok_Ret [of _ _ _ ys]) (use r in \<open>simp_all add: at_rest_2Dc_def took_def\<close>)
    show ?case
      using d null pop_try_ok [OF r _ _ retry] by (cases "d_node d = NULL") (simp_all add: Let_def del: ok.simps)
  qed
qed

section \<open>Threads that run lists of calls\<close>

interpretation stk_threads: threads "stack_step_2Dc cfg" "stack_room_2Dc cfg" "conc_inv_2Dc cfg"
  "stack_call_2Dc al fuel cfg" "\<lambda>t (xs, ys) g. alloc_fresh al \<and> known_2Dc cfg t None xs ys g"
  "\<lambda>l. thread_index l < width cfg" stack_hist for cfg al fuel
proof (unfold_locales, goal_cases)
  case (1 t s g g')
  then show ?case by (cases s) (auto intro: known_env_2Dc)
next
  case (2 t s g l c)
  obtain xs ys where s: "s = (xs, ys)" by (cases s)
  then have r: "alloc_fresh al" "at_rest_2Dc cfg t xs ys l g" using 2 by (simp_all add: at_rest_2Dc_def)
  show ?case
  proof (cases c)
    case (Push key val)
    show ?thesis unfolding Push s stack_call_2Dc_def stack_call.case
      by (rule ok_mono [OF push_ok_2Dc [OF r]]) (auto simp: r at_rest_2Dc_def intro!: exI [of _ "(val # xs, ys)"])
  next
    case Pop
    show ?thesis unfolding Pop s stack_call_2Dc_def stack_call.case pop_2Dc_def
      by (rule ok_mono [OF pop_loop_ok [OF r(2)]]) (auto simp: r popped_ok_2Dc_def at_rest_2Dc_def)
  qed
qed

lemma create_stack_known:
  assumes c: "create_stack_2Dc nt w d mode bound = Some (cfg, g)" "usable_2Dc cfg"
  shows "known_2Dc cfg t None [] {#} g"
proof -
  obtain n where m: "mem g = empty_mem" and arr: "set_array g = replicate n \<lparr>d_node = NULL, d_count = 0\<rparr>"
    using c(1) by (auto simp: create_stack_2Dc_def split: option.splits)
  have "stack_room_2Dc cfg g"
    using create_stack_ok(4,8) [OF c] c(2) arr by (auto simp: stack_room_2Dc_def room2Dc_def usable_2Dc_def W64_def)
  then show ?thesis using create_stack_ok [OF c] m
    by (simp add: known_2Dc_def conc_inv_2Dc_def win_inv2Dc_def pushed_by_def popped_by_def empty_mem_def)
qed

section \<open>Properties\<close>

text \<open>
  C2. Safety of the 2Dc stack under concurrency. Any number of threads run any lists of pushes and
  pops, interleaved at every load, store and compare-and-exchange, as long as no 64-bit counter
  reaches its last value. In every state they can reach no thread has faulted (no null or dangling
  pointer is followed, no index is out of range), every sub-stack is a linear list of published
  nodes as long as its count says, the window's upper bound is the depth plus a multiple of the
  shift, and no node has been freed twice or freed while in the stack.
\<close>

theorem stack_2Dc_threads_safe:
  assumes c: "create_stack_2Dc nt w d mode bound = Some (cfg, g0)" "usable_2Dc cfg" and "alloc_fresh al"
    and ls: "length ls = length css"
      "\<forall>l \<in> set ls. thread_index l < width cfg"
    and run: "pool_reaches (stack_room_2Dc cfg) (client_pool (stack_call_2Dc al fuel cfg) css ls, g0) (ps, g)"
  shows "Fault \<notin> set ps \<and> stack_inv_2Dc cfg g \<and>
    depth cfg \<le> win_max (global_Window g) \<and> shift cfg dvd (win_max (global_Window g) - depth cfg) \<and>
    distinct (map fst (freed (mem g))) \<and> fst ` set (freed (mem g)) \<inter> set (concat (sub_stacks_2Dc g)) = {}"
proof -
  have "conc_inv_2Dc cfg g0" using create_stack_known [OF c] by (simp add: known_2Dc_def)
  then have "Fault \<notin> set ps \<and> conc_inv_2Dc cfg g"
    using stk_threads.pool_clients(1) [OF run, of "([], {#})"] create_stack_known [OF c] assms(3) ls by simp
  then show ?thesis
    using stacks_ok_freed [of "mem g" "tops_2Dc g"] by (auto simp: conc_inv_2Dc_def stack_inv_2Dc_def sub_stacks_2Dc_def)
qed

text \<open>Two threads, interleaved action by action until both are done.\<close>

definition demo_calls_2Dc :: "stack_call list list" where
  "demo_calls_2Dc = [[Push 1 10, Pop], [Push 3 30]]"

definition demo_run_2Dc :: "(stack2Dc, int list) prog list \<times> stack2Dc" where
  "demo_run_2Dc = sched (stack_room_2Dc (fst demo_2Dc)) (concat (replicate 20 [0, 1, 1]))
     (client_pool (stack_call_2Dc bump_alloc 7 (fst demo_2Dc)) demo_calls_2Dc demo_tls_2Dc, snd demo_2Dc)"

lemma demo_run_reaches:
  "pool_reaches (stack_room_2Dc (fst demo_2Dc))
     (client_pool (stack_call_2Dc bump_alloc 7 (fst demo_2Dc)) demo_calls_2Dc demo_tls_2Dc, snd demo_2Dc) (fst demo_run_2Dc, snd demo_run_2Dc)"
  unfolding demo_run_2Dc_def prod.collapse by (rule sched_reaches)

lemma demo_run_results: "map prog_result (fst demo_run_2Dc) = [Some [1, 10], Some [1]]"
  by (simp add: demo_run_2Dc_def demo_calls_2Dc_def client_pool_def stack_room_2Dc_def room2Dc_def prog_unfold upt_rec
      cong: eval_cong)

lemmas demo_facts_2Dc = demo_2Dc_usable demo_tls_2Dc_ok bump_alloc_fresh demo_run_reaches

theorem stack_2Dc_threads_safe_witness:
  "Fault \<notin> set (fst demo_run_2Dc) \<and> stack_inv_2Dc (fst demo_2Dc) (snd demo_run_2Dc) \<and>
    depth (fst demo_2Dc) \<le> win_max (global_Window (snd demo_run_2Dc)) \<and>
    shift (fst demo_2Dc) dvd (win_max (global_Window (snd demo_run_2Dc)) - depth (fst demo_2Dc)) \<and>
    distinct (map fst (freed (mem (snd demo_run_2Dc)))) \<and>
    fst ` set (freed (mem (snd demo_run_2Dc))) \<inter> set (concat (sub_stacks_2Dc (snd demo_run_2Dc))) = {}"
  by (rule stack_2Dc_threads_safe [of 2 3 4 0 0])
    (use demo_facts_2Dc in \<open>simp_all add: demo_2Dc_eq(2) demo_tls_2Dc_def demo_calls_2Dc_def\<close>)

text \<open>
  C3. Nothing is lost, duplicated or invented. When all threads have finished, the values they pushed
  are, with multiplicities, the values their pops have returned together with the values that are
  still in the stack. (A pop that finds nothing returns 0, so the null value is left out on both
  sides.)
\<close>

theorem stack_2Dc_conservation:
  assumes c: "create_stack_2Dc nt w d mode bound = Some (cfg, g0)" "usable_2Dc cfg" and "alloc_fresh al"
    and ls: "length ls = length css"
      "\<forall>l \<in> set ls. thread_index l < width cfg"
    and run: "pool_reaches (stack_room_2Dc cfg) (client_pool (stack_call_2Dc al fuel cfg) css ls, g0) (ps, g)"
    and rss: "map prog_result ps = map Some rss"
  shows "nonnull (mset (concat (map push_values css))) =
    mset (concat (map (\<lambda>t. pop_values (css ! t) (rss ! t)) [0 ..< length css])) +
    nonnull (image_mset (node_val (mem g)) (mset (concat (sub_stacks_2Dc g))))"
proof -
  let ?n = "length css"
  have "conc_inv_2Dc cfg g0" using create_stack_known [OF c] by (simp add: known_2Dc_def)
  then have p: "map prog_result ps = map Some rss \<Longrightarrow> t < ?n \<Longrightarrow>
        \<exists>s. spec_run stack_hist (css ! t) ([], {#}) (rss ! t) s \<and> (case s of (xs, ys) \<Rightarrow> alloc_fresh al \<and> known_2Dc cfg t None xs ys g)"
      "?n \<le> t \<Longrightarrow> known_2Dc cfg t None [] {#} g" for t
    using stk_threads.pool_clients(2,3) [OF run, of "([], {#})"] create_stack_known [OF c] assms(3) ls by simp_all
  have t: "pushed_by t (mem g) = rev (push_values (css ! t)) \<and> nonnull (popped_by t (mem g)) = mset (pop_values (css ! t) (rss ! t))"
    if "t < ?n" for t using p(1) [OF rss that] by (auto simp: known_2Dc_def dest: stack_hist_run)
  have out: "pushed_by t (mem g) = [] \<and> popped_by t (mem g) = {#}" "stacks_ok (mem g) (tops_2Dc g)" if "?n \<le> t" for t
    using p(2) [OF that] by (auto simp: known_2Dc_def conc_inv_2Dc_def stack_inv_2Dc_def)
  show ?thesis unfolding sub_stacks_2Dc_def by (rule stack_histories_add_up [OF out(2) t out(1)]) auto
qed

theorem stack_2Dc_conservation_witness:
  "nonnull (mset (concat (map push_values demo_calls_2Dc))) =
    mset (concat (map (\<lambda>t. pop_values (demo_calls_2Dc ! t) ([[1, 10], [1]] ! t)) [0 ..< length demo_calls_2Dc])) +
    nonnull (image_mset (node_val (mem (snd demo_run_2Dc))) (mset (concat (sub_stacks_2Dc (snd demo_run_2Dc)))))"
proof (rule stack_2Dc_conservation [of 2 3 4 0 0])
  show "map prog_result (fst demo_run_2Dc) = map Some [[1, 10], [1]]" by (simp add: demo_run_results)
qed (use demo_facts_2Dc in \<open>simp_all add: demo_2Dc_eq(2) demo_tls_2Dc_def demo_calls_2Dc_def\<close>)

section \<open>A pop that misses the stack's contents\<close>

text \<open>
  Three threads: thread 0 pushes on sub-stack 1 and is done before the others start; thread 1
  pops, starting at sub-stack 0; thread 2 pushes on sub-stack 0. Thread 1 loads the pointer of
  descriptor 0 before thread 2's push and its count after it.
\<close>

definition torn_pool_2Dc :: "(stack2Dc, int list) prog list \<times> stack2Dc" where
  "torn_pool_2Dc =
     (client_pool (stack_call_2Dc bump_alloc 7 (fst demo_2Dc)) [[Push 1 10], [Pop], [Push 2 20]]
        [fresh_tl2Dc (1, 2, 3) 1, fresh_tl2Dc (1, 2, 3) 0, fresh_tl2Dc (1, 2, 3) 0], snd demo_2Dc)"

definition torn_run_2Dc :: "nat \<Rightarrow> (stack2Dc, int list) prog list \<times> stack2Dc" where
  "torn_run_2Dc n = sched (stack_room_2Dc (fst demo_2Dc)) (take n ([1, 1, 1] @ replicate 8 2 @ [1, 1]))
     (sched (stack_room_2Dc (fst demo_2Dc)) (replicate 8 0) torn_pool_2Dc)"

text \<open>
  C4. Under concurrency a pop of the 2Dc stack may return the null value although the stack is not
  empty at any moment of the pop. The descriptor is copied with a plain struct assignment
  while \<^verbatim>\<open>push\<close> replaces both words at once: if the pointer is read before a push and the count after it, \<^verbatim>\<open>get_window\<close>
  accepts the descriptor and \<^verbatim>\<open>pop\<close> takes its null pointer for an empty stack.
\<close>

theorem stack_2Dc_pop_torn_null:
  "list_all (\<lambda>n. concat (sub_stacks_2Dc (snd (torn_run_2Dc n))) \<noteq> []) [0 ..< 14] \<and>
   prog_result (fst (torn_run_2Dc 0) ! 0) = Some [1] \<and> prog_result (fst (torn_run_2Dc 13) ! 1) = Some [0]"
proof -
  have "concat (sub_stacks_2Dc (snd (torn_run_2Dc n))) \<noteq> []" if "n \<in> {0,1,2,3,4,5,6,7,8,9,10,11,12,13}" for n
    using that
    by (elim insertE emptyE; simp add: torn_run_2Dc_def torn_pool_2Dc_def client_pool_def stack_room_2Dc_def
        room2Dc_def prog_unfold upt_rec sub_stacks_2Dc_def subs_def tops_2Dc_def cong: eval_cong)
  moreover have "n \<in> {0,1,2,3,4,5,6,7,8,9,10,11,12,13}" if "n \<in> {0 ..< 14}" for n :: nat
    using that by simp arith
  moreover have "prog_result (fst (torn_run_2Dc 0) ! 0) = Some [1]" "prog_result (fst (torn_run_2Dc 13) ! 1) = Some [0]"
    by (simp_all add: torn_run_2Dc_def torn_pool_2Dc_def client_pool_def stack_room_2Dc_def room2Dc_def prog_unfold
        upt_rec cong: eval_cong)
  ultimately show ?thesis by (simp add: list_all_iff)
qed

end
