(* ===== verification/Relaxed_Counter.thy ===== *)
theory Relaxed_Counter
  imports Programs
begin

text \<open>
  What the relaxed counters promise, shared by the 2Dc and the 2Dd counter: an abstract counter that
  is exact in its state and may be off in its answers, the value the code answers, and the accounting
  of a thread's increments and decrements under concurrency.
\<close>

text \<open>The value an operation returns; the macro \<^verbatim>\<open>VALIDATESIZE\<close> is the parameter \<open>vs\<close>.\<close>

definition counter_value :: "bool \<Rightarrow> u64 \<Rightarrow> u64 \<Rightarrow> u64" where
  "counter_value vs n w = (if vs then 1 else mul64 n w)"

lemmas counter_value_unfold [prog_unfold] = counter_value_def

datatype counter_call = Inc | Dec

text \<open>
  The abstract counter: exact in its state, and an answer that is off by at most \<open>D\<close>.
\<close>

definition counter_spec :: "bool \<Rightarrow> nat \<Rightarrow> counter_call \<Rightarrow> nat \<Rightarrow> nat \<Rightarrow> nat \<Rightarrow> bool" where
  "counter_spec vs D c s r s' \<longleftrightarrow>
     s' = (case c of Inc \<Rightarrow> s + 1 | Dec \<Rightarrow> s - 1) \<and>
     (if vs then r = (case c of Inc \<Rightarrow> 1 | Dec \<Rightarrow> min s 1) else r \<le> s' + D \<and> s' \<le> r + D)"

text \<open>If every count differs from count \<open>i\<close> by at most \<open>d\<close>, that count times the width is close to the total.\<close>

lemma sum_list_close:
  fixes xs :: "nat list"
  assumes "i < length xs" "\<And>j. j < length xs \<Longrightarrow> xs ! j \<le> xs ! i + d \<and> xs ! i \<le> xs ! j + d"
  shows "sum_list xs \<le> xs ! i * length xs + d * (length xs - 1)" "xs ! i * length xs \<le> sum_list xs + d * (length xs - 1)"
proof -
  let ?ys = "take i xs @ drop (Suc i) xs"
  have "sum_list ys \<le> length ys * (xs ! i + d) \<and> length ys * xs ! i \<le> sum_list ys + length ys * d" if "set ys \<subseteq> set xs" for ys
    using that
  proof (induction ys)
    case (Cons y ys)
    then obtain j where "j < length xs" "y = xs ! j" by (auto simp: in_set_conv_nth)
    then show ?case using assms(2) [of j] Cons by auto
  qed simp
  note b = this [of ?ys]
  have sub: "set ?ys \<subseteq> set xs" using set_take_subset set_drop_subset by fastforce
  have "sum_list xs = sum_list (take i xs @ xs ! i # drop (Suc i) xs)" using id_take_nth_drop [OF assms(1)] by simp
  then have sum: "sum_list xs = xs ! i + sum_list ?ys" by simp
  obtain k where k: "length xs = Suc k" "length ?ys = k" using assms(1) by (cases "length xs") auto
  show "sum_list xs \<le> xs ! i * length xs + d * (length xs - 1)" "xs ! i * length xs \<le> sum_list xs + d * (length xs - 1)"
    using b [OF sub] unfolding k sum by (simp_all add: algebra_simps)
qed

text \<open>
  Under concurrency, with \<^verbatim>\<open>VALIDATESIZE\<close>: what the calls of a thread do to the numbers of its
  increments and decrements.
\<close>

fun counter_hist :: "counter_call \<Rightarrow> nat \<times> nat \<Rightarrow> nat \<Rightarrow> nat \<times> nat \<Rightarrow> bool" where
  "counter_hist Inc (a, b) r s = (s = (a + 1, b))"
| "counter_hist Dec (a, b) r s = (r = 0 \<and> s = (a, b) \<or> r = 1 \<and> s = (a, b + 1))"

fun dec_results :: "counter_call list \<Rightarrow> nat list \<Rightarrow> nat" where
  "dec_results (Dec # cs) (r # rs) = r + dec_results cs rs"
| "dec_results (Inc # cs) (r # rs) = dec_results cs rs"
| "dec_results cs rs = 0"

lemma counter_hist_run:
  assumes "spec_run counter_hist cs (a, b) rs (a', b')"
  shows "a' = a + count_list cs Inc \<and> b' = b + dec_results cs rs"
  using assms
proof (induction cs arbitrary: a b rs)
  case Nil
  then show ?case by (cases rs) auto
next
  case (Cons c cs)
  then obtain r rs1 s1 where rs: "rs = r # rs1" and st: "counter_hist c (a, b) r s1"
    and run: "spec_run counter_hist cs s1 rs1 (a', b')" by (cases rs) auto
  obtain a1 b1 where s1: "s1 = (a1, b1)" by (cases s1)
  show ?case using Cons.IH [OF run [unfolded s1]] st s1 rs by (cases c) auto
qed

lemma length_by_thread:
  fixes xs :: "nat list"
  assumes "\<And>t. n \<le> t \<Longrightarrow> count_list xs t = 0"
  shows "length xs = (\<Sum>t < n. count_list xs t)"
proof -
  have "set xs \<subseteq> {..< n}"
  proof
    fix t
    assume "t \<in> set xs"
    then have "count_list xs t \<noteq> 0" by (simp add: count_list_0_iff)
    then show "t \<in> {..< n}" using assms [of t] by (cases "n \<le> t") simp_all
  qed
  then show ?thesis using sum_count_set [of xs "{..< n}"] by simp
qed

section \<open>Counters under interference\<close>

text \<open>
  The contract of a counter whose threads log their own increments and decrements: every step of the
  protocol adds at most the acting thread to one of the logs. Between two actions a thread knows the
  invariant and how often it stands in the logs.
\<close>

locale counter_protocol = protocol astep A Inv
  for astep :: "'g protocol" and A Inv :: "'g \<Rightarrow> bool" +
  fixes incs_of decs_of :: "'g \<Rightarrow> nat list"
  assumes step_logs: "astep t g g' \<Longrightarrow>
    (incs_of g', decs_of g') \<in> {(incs_of g, decs_of g), (t # incs_of g, decs_of g), (incs_of g, t # decs_of g)}"
begin

definition known :: "nat \<Rightarrow> nat \<times> nat \<Rightarrow> 'g \<Rightarrow> bool" where
  "known t s g \<longleftrightarrow> Inv g \<and> A g \<and> s = (count_list (incs_of g) t, count_list (decs_of g) t)"

lemma known_env:
  assumes k: "known t s g" and e: "env1 astep A t g g'"
  shows "known t s g'"
proof -
  obtain u where u: "u \<noteq> t" "astep u g g'" "A g'" using e by (auto simp: env1_def)
  then have "Inv g'" using k by (auto simp: known_def intro: inv_step)
  then show ?thesis using u(1,3) k step_logs [OF u(2)] by (auto simp: known_def)
qed

lemma known_envs: "env astep A t g h \<Longrightarrow> known t s g \<Longrightarrow> known t s h"
  by (induction rule: rtranclp_induct) (auto intro: known_env)

lemma knownD: "known t s g \<Longrightarrow> Inv g \<and> A g"
  by (simp add: known_def)

lemma ok_read:
  assumes "known t s g" "\<And>h. known t s h \<Longrightarrow> \<exists>v. f h = Some v \<and> ok astep A t (k v) Q h"
  shows "ok astep A t (pbind (rd_opt f) k) Q g"
  using assms(2) [OF known_envs [OF _ assms(1)]] by (intro ok_rd_opt)

lemma ok_attempt:
  assumes k: "known t (a, b) g"
    and step: "\<And>h. known t (a, b) h \<Longrightarrow> c h \<Longrightarrow> A (u h) \<Longrightarrow> astep t h (u h) \<and>
        s = (count_list (incs_of (u h)) t, count_list (decs_of (u h)) t) \<and> (\<forall>h'. known t s h' \<longrightarrow> ok astep A t (f h) Q h')"
    and retry: "\<And>h. known t (a, b) h \<Longrightarrow> \<not> c h \<Longrightarrow> ok astep A t (f h) Q h"
  shows "ok astep A t (Act (\<lambda>g. if c g then u g else g) f) Q g"
proof (rule ok_Act, goal_cases)
  case (1 h)
  note k' = known_envs [OF 1(1) k]
  show ?case
  proof (cases "c h")
    case True
    then have A: "A (u h)" using 1(2) by simp
    note st = step [OF k' True A]
    have "known t s (u h)" using st A inv_step [of h t "u h"] knownD [OF k'] by (simp add: known_def)
    then show ?thesis using True st by simp
  next
    case False
    then show ?thesis using retry [OF k'] by simp
  qed
qed

lemma ok_done:
  assumes "known t s' g" "counter_hist c s r s'" "fit l"
  shows "ok astep A t (Ret (r, l)) (\<lambda>(r, l) h. fit l \<and> (\<exists>s'. counter_hist c s r s' \<and> known t s' h)) g"
  using assms known_envs [of t g _ s'] by (auto simp del: split_paired_Ex)

lemma logs_of_threads:
  assumes "\<And>t. t < n \<Longrightarrow> \<exists>s. spec_run counter_hist (css ! t) (0, 0) (rss ! t) s \<and> known t s g"
    and "\<And>t. n \<le> t \<Longrightarrow> known t (0, 0) g"
  shows "length (incs_of g) = (\<Sum>t < n. count_list (css ! t) Inc)"
    and "length (decs_of g) = (\<Sum>t < n. dec_results (css ! t) (rss ! t))"
proof -
  have t: "count_list (incs_of g) t = count_list (css ! t) Inc" "count_list (decs_of g) t = dec_results (css ! t) (rss ! t)"
    if "t < n" for t using assms(1) [OF that] by (auto simp: known_def dest: counter_hist_run)
  have out: "count_list (incs_of g) t = 0" "count_list (decs_of g) t = 0" if "n \<le> t" for t
    using assms(2) [OF that] by (auto simp: known_def)
  show "length (incs_of g) = (\<Sum>t < n. count_list (css ! t) Inc)"
    "length (decs_of g) = (\<Sum>t < n. dec_results (css ! t) (rss ! t))"
    using length_by_thread [OF out(1)] length_by_thread [OF out(2)] t by simp_all
qed

end

end
