(* ===== verification/Counter2Dc.thy ===== *)
theory Counter2Dc
  imports Window2Dc Params Relaxed_Counter
begin

text \<open>
  The 2Dc counter of \<^verbatim>\<open>src/2Dc-counter/2Dc-counter.c\<close>: an array of sub-counters under the coupled
  window of \<open>Window2Dc\<close>. A descriptor is one word, so it is loaded atomically. The macro
  \<^verbatim>\<open>VALIDATESIZE\<close> is the parameter \<open>vs\<close>. The fields \<open>incs\<close> and \<open>decs\<close> are no part of the C
  state: they record which threads have made the successful compare-and-exchanges, latest first.

  Alone, the counter is exact in its total, and what an operation returns differs from the total
  by at most \<open>depth * (width - 1)\<close>. Together, the threads lose no update.
\<close>

section \<open>State\<close>

record cdescriptor2Dc =
  c_count :: u64

record counter2Dc = "cdescriptor2Dc sh2Dc" +
  incs :: "nat list"
  decs :: "nat list"

section \<open>Operations\<close>

definition load_counter_2Dc :: "u64 \<Rightarrow> (counter2Dc, cdescriptor2Dc) prog" where
  "load_counter_2Dc i = rd_opt (\<lambda>g. at (set_array g) i)"

definition counter_cae_2Dc ::
  "u64 \<Rightarrow> cdescriptor2Dc \<Rightarrow> cdescriptor2Dc \<Rightarrow> (counter2Dc \<Rightarrow> counter2Dc) \<Rightarrow> (counter2Dc, bool) prog" where
  "counter_cae_2Dc i descriptor new_descriptor ghost =
     Act (\<lambda>g. if at (set_array g) i = Some descriptor
              then ghost (g\<lparr>set_array := (set_array g)[i := new_descriptor]\<rparr>) else g)
         (\<lambda>g. Ret (at (set_array g) i = Some descriptor))"

fun increment_loop_2Dc ::
  "nat \<Rightarrow> nat \<Rightarrow> bool \<Rightarrow> ds2Dc \<Rightarrow> nat \<Rightarrow> tl2Dc \<Rightarrow> bool \<Rightarrow> (counter2Dc, u64 \<times> tl2Dc) prog" where
  "increment_loop_2Dc 0 fuel vs cfg t l contention = NoFuel"
| "increment_loop_2Dc (Suc n) fuel vs cfg t l contention =
     pbind (put_window_2Dc fuel cfg load_counter_2Dc c_count l contention) (\<lambda>(descriptor, l).
     let new_descriptor = \<lparr>c_count = add64 (c_count descriptor) 1\<rparr>
     in pbind (counter_cae_2Dc (thread_index l) descriptor new_descriptor (\<lambda>g. g\<lparr>incs := t # incs g\<rparr>)) (\<lambda>success.
        if success then Ret (counter_value vs (c_count new_descriptor) (width cfg), l)
        else increment_loop_2Dc n fuel vs cfg t
               (l\<lparr>my_put_cas_fail_count := add64 (my_put_cas_fail_count l) 1\<rparr>) True))"

definition increment_2Dc :: "nat \<Rightarrow> bool \<Rightarrow> ds2Dc \<Rightarrow> nat \<Rightarrow> tl2Dc \<Rightarrow> (counter2Dc, u64 \<times> tl2Dc) prog" where
  "increment_2Dc fuel vs cfg t l = increment_loop_2Dc fuel fuel vs cfg t l False"

fun decrement_loop_2Dc ::
  "nat \<Rightarrow> nat \<Rightarrow> bool \<Rightarrow> ds2Dc \<Rightarrow> nat \<Rightarrow> tl2Dc \<Rightarrow> bool \<Rightarrow> (counter2Dc, u64 \<times> tl2Dc) prog" where
  "decrement_loop_2Dc 0 fuel vs cfg t l contention = NoFuel"
| "decrement_loop_2Dc (Suc n) fuel vs cfg t l contention =
     pbind (get_window_2Dc fuel cfg load_counter_2Dc c_count l contention) (\<lambda>(descriptor, l).
     if c_count descriptor > 0 then
       let new_descriptor = \<lparr>c_count = sub64 (c_count descriptor) 1\<rparr>
       in pbind (counter_cae_2Dc (thread_index l) descriptor new_descriptor (\<lambda>g. g\<lparr>decs := t # decs g\<rparr>)) (\<lambda>success.
          if success then Ret (counter_value vs (c_count new_descriptor) (width cfg), l)
          else decrement_loop_2Dc n fuel vs cfg t
                 (l\<lparr>my_get_cas_fail_count := add64 (my_get_cas_fail_count l) 1\<rparr>) True)
     else Ret (0, l\<lparr>my_null_count := add64 (my_null_count l) 1\<rparr>))"

definition decrement_2Dc :: "nat \<Rightarrow> bool \<Rightarrow> ds2Dc \<Rightarrow> nat \<Rightarrow> tl2Dc \<Rightarrow> (counter2Dc, u64 \<times> tl2Dc) prog" where
  "decrement_2Dc fuel vs cfg t l = decrement_loop_2Dc fuel fuel vs cfg t l False"

fun counter_size_loop_2Dc :: "u64 list \<Rightarrow> u64 \<Rightarrow> (counter2Dc, u64) prog" where
  "counter_size_loop_2Dc [] sz = Ret sz"
| "counter_size_loop_2Dc (i # is) sz =
     pbind (load_counter_2Dc i) (\<lambda>descriptor. counter_size_loop_2Dc is (add64 sz (c_count descriptor)))"

definition counter_size_2Dc :: "ds2Dc \<Rightarrow> (counter2Dc, u64) prog" where
  "counter_size_2Dc cfg = counter_size_loop_2Dc [0 ..< width cfg] 0"

definition create_counter_2Dc ::
  "u64 \<Rightarrow> u64 \<Rightarrow> u64 \<Rightarrow> nat \<Rightarrow> u64 \<Rightarrow> (ds2Dc \<times> counter2Dc) option" where
  "create_counter_2Dc num_threads w d mode bound =
     (case calc_params 2 keep64 keep64 (bound64 2) mode num_threads w d bound of
        None \<Rightarrow> None
      | Some (w, d, bound) \<Rightarrow> Some
          (\<lparr>random_hops = 2, width = w, depth = d, shift = (if d div 2 > 1 then d div 2 else 1),
            relaxation_bound = bound, k_mode = mode\<rparr>,
           \<lparr>global_Window = \<lparr>win_max = d, win_version = 0\<rparr>,
            set_array = replicate w \<lparr>c_count = 0\<rparr>, incs = [], decs = []\<rparr>))"

lemmas counter2Dc_unfold [prog_unfold] =
  load_counter_2Dc_def counter_cae_2Dc_def increment_2Dc_def decrement_2Dc_def counter_size_2Dc_def
  increment_loop_2Dc.simps(2) [of "pred_numeral k" for k, folded numeral_eq_Suc]
  decrement_loop_2Dc.simps(2) [of "pred_numeral k" for k, folded numeral_eq_Suc]

section \<open>Abstraction\<close>

definition total_2Dc :: "counter2Dc \<Rightarrow> nat" where
  "total_2Dc g = sum_list (map c_count (set_array g))"

section \<open>Running alone\<close>

interpretation cnt: loads2Dc load_counter_2Dc c_count
  by unfold_locales (simp add: load_counter_2Dc_def)

definition quiet_counter_2Dc :: "ds2Dc \<Rightarrow> tl2Dc \<Rightarrow> counter2Dc \<Rightarrow> bool" where
  "quiet_counter_2Dc cfg l g \<longleftrightarrow> win_inv2Dc cfg c_count g \<and> past (thread_Window l) g \<and> thread_index l < width cfg"

definition counter_call_2Dc :: "nat \<Rightarrow> bool \<Rightarrow> ds2Dc \<Rightarrow> nat \<Rightarrow> counter_call \<Rightarrow> tl2Dc \<Rightarrow> (counter2Dc, u64 \<times> tl2Dc) prog" where
  "counter_call_2Dc fuel vs cfg t c l =
     (case c of Inc \<Rightarrow> increment_2Dc fuel vs cfg t l | Dec \<Rightarrow> decrement_2Dc fuel vs cfg t l)"

lemma total_update:
  assumes "i < length (set_array g)" "set_array g' = (set_array g)[i := d]"
  shows "total_2Dc g' + c_count (set_array g ! i) = total_2Dc g + c_count d"
  using sum_list_update_nat [of i "map c_count (set_array g)" "c_count d"] assms
  by (simp add: total_2Dc_def map_update)

lemma total_close:
  assumes inv: "win_inv2Dc cfg c_count g" and i: "i < width cfg" and small: "win_max (global_Window g) * width cfg < W64"
  shows "mul64 (c_count (set_array g ! i)) (width cfg) \<le> total_2Dc g + depth cfg * (width cfg - 1)"
    and "total_2Dc g \<le> mul64 (c_count (set_array g ! i)) (width cfg) + depth cfg * (width cfg - 1)"
proof -
  let ?xs = "map c_count (set_array g)"
  have len: "length (set_array g) = width cfg" and "c_count (set_array g ! i) \<le> win_max (global_Window g)"
    using inv i by (auto simp: win_inv2Dc_def)
  then have "c_count (set_array g ! i) * width cfg < W64" using small by (meson le_less_trans mult_le_mono1)
  then have "mul64 (c_count (set_array g ! i)) (width cfg) = ?xs ! i * length ?xs" using len i by (simp add: mul64_eq)
  moreover have "?xs ! j \<le> ?xs ! i + depth cfg \<and> ?xs ! i \<le> ?xs ! j + depth cfg" if "j < length ?xs" for j
  proof -
    have b: "?xs ! k \<le> win_max (global_Window g) \<and> win_max (global_Window g) \<le> ?xs ! k + depth cfg" if "k < width cfg" for k
      using inv that len by (auto simp: win_inv2Dc_def)
    show ?thesis using b [OF i] b [of j] that len by simp
  qed
  ultimately show "mul64 (c_count (set_array g ! i)) (width cfg) \<le> total_2Dc g + depth cfg * (width cfg - 1)"
    "total_2Dc g \<le> mul64 (c_count (set_array g ! i)) (width cfg) + depth cfg * (width cfg - 1)"
    using sum_list_close [of i ?xs "depth cfg"] len i by (simp_all add: total_2Dc_def)
qed

text \<open>What a call leaves behind: a window that has moved at most once, and the abstract counter's step.\<close>

definition counted_2Dc :: "bool \<Rightarrow> ds2Dc \<Rightarrow> counter_call \<Rightarrow> counter2Dc \<Rightarrow> u64 \<times> tl2Dc \<Rightarrow> counter2Dc \<Rightarrow> bool" where
  "counted_2Dc vs cfg c g = (\<lambda>(r, l) g'.
     quiet_counter_2Dc cfg l g' \<and> win_next g g' \<and> win_max (global_Window g') \<le> win_max (global_Window g) + shift cfg \<and>
     counter_spec vs (depth cfg * (width cfg - 1)) c (total_2Dc g) r (total_2Dc g'))"

definition counter_room_2Dc :: "ds2Dc \<Rightarrow> counter2Dc \<Rightarrow> bool" where
  "counter_room_2Dc cfg g \<longleftrightarrow> room2Dc cfg g \<and> (win_max (global_Window g) + shift cfg) * width cfg < W64"

lemma increment_commit_2Dc:
  assumes "ds2Dc_ok cfg" and room: "counter_room_2Dc cfg g" and q: "quiet_counter_2Dc cfg l g"
    and post: "put_post cfg c_count g (d, l') g'"
    and h: "h = g'\<lparr>set_array := (set_array g')[thread_index l' := \<lparr>c_count = add64 (c_count d) 1\<rparr>], incs := t # incs g'\<rparr>"
  shows "counted_2Dc vs cfg Inc g (counter_value vs (add64 (c_count d) 1) (width cfg), l') h"
proof -
  note D = put_postD [OF post]
  have winmax: "win_max (global_Window g') \<le> win_max (global_Window g) + shift cfg" and nx: "win_next g h"
    using D(6) by (auto simp: shifted_up_def win_next_def h)
  then have "win_max (global_Window g') < W64" using room by (auto simp: counter_room_2Dc_def room2Dc_def)
  then have add: "add64 (c_count d) 1 = c_count d + 1" using D(5) by (intro add64_eq) simp
  have "win_inv2Dc cfg c_count (g'\<lparr>set_array := (set_array g')[thread_index l' := \<lparr>c_count = add64 (c_count d) 1\<rparr>]\<rparr>)"
    using put_post_inv [OF _ assms(1) post, of "\<lparr>c_count = add64 (c_count d) 1\<rparr>"] q add by (simp add: quiet_counter_2Dc_def)
  then have inv: "win_inv2Dc cfg c_count h" by (simp add: win_inv2Dc_def h)
  have len: "length (set_array g') = width cfg" using q D(3) by (simp add: quiet_counter_2Dc_def win_inv2Dc_def)
  have h_i: "set_array h ! thread_index l' = \<lparr>c_count = add64 (c_count d) 1\<rparr>" using D(1) len by (simp add: h)
  have "total_2Dc h = total_2Dc g + 1"
    using total_update [of "thread_index l'" g h "\<lparr>c_count = add64 (c_count d) 1\<rparr>"] D len add by (simp add: h)
  moreover have "win_max (global_Window h) * width cfg \<le> (win_max (global_Window g) + shift cfg) * width cfg"
    using winmax by (intro mult_le_mono1) (simp add: h)
  then have "win_max (global_Window h) * width cfg < W64"
    using room unfolding counter_room_2Dc_def by (elim conjE) (rule le_less_trans)
  note total_close [OF inv D(1) this, unfolded h_i]
  ultimately show ?thesis using inv D winmax nx
    by (simp add: counted_2Dc_def quiet_counter_2Dc_def counter_spec_def counter_value_def past_def h)
qed

lemma decrement_commit_2Dc:
  assumes "ds2Dc_ok cfg" and room: "counter_room_2Dc cfg g" and q: "quiet_counter_2Dc cfg l g"
    and post: "get_post cfg c_count g (d, l') g'" and d: "0 < c_count d"
    and h: "h = g'\<lparr>set_array := (set_array g')[thread_index l' := \<lparr>c_count = sub64 (c_count d) 1\<rparr>], decs := t # decs g'\<rparr>"
  shows "counted_2Dc vs cfg Dec g (counter_value vs (sub64 (c_count d) 1) (width cfg), l') h"
proof -
  note D = get_postD [OF post]
  have winmax: "win_max (global_Window g') \<le> win_max (global_Window g)" and nx: "win_next g h"
    using D(5) by (auto simp: shifted_down_def win_next_def h)
  have "c_count d \<le> win_max (global_Window g)" using q D(1-3) by (simp add: quiet_counter_2Dc_def win_inv2Dc_def)
  then have sub: "sub64 (c_count d) 1 = c_count d - 1" using room d by (intro sub64_eq) (auto simp: counter_room_2Dc_def room2Dc_def)
  have "win_inv2Dc cfg c_count (g'\<lparr>set_array := (set_array g')[thread_index l' := \<lparr>c_count = sub64 (c_count d) 1\<rparr>]\<rparr>)"
    using get_post_inv [OF _ assms(1) post, of "\<lparr>c_count = sub64 (c_count d) 1\<rparr>"] q sub d by (simp add: quiet_counter_2Dc_def)
  then have inv: "win_inv2Dc cfg c_count h" by (simp add: win_inv2Dc_def h)
  have len: "length (set_array g') = width cfg" using q D(3) by (simp add: quiet_counter_2Dc_def win_inv2Dc_def)
  have h_i: "set_array h ! thread_index l' = \<lparr>c_count = sub64 (c_count d) 1\<rparr>" using D(1) len by (simp add: h)
  have tot: "total_2Dc h + 1 = total_2Dc g"
    using total_update [of "thread_index l'" g h "\<lparr>c_count = sub64 (c_count d) 1\<rparr>"] D len sub d by (simp add: h)
  have "win_max (global_Window h) * width cfg \<le> (win_max (global_Window g) + shift cfg) * width cfg"
    using winmax by (intro mult_le_mono1) (simp add: h)
  then have "win_max (global_Window h) * width cfg < W64"
    using room unfolding counter_room_2Dc_def by (elim conjE) (rule le_less_trans)
  note close = total_close [OF inv D(1) this, unfolded h_i]
  have "total_2Dc h = total_2Dc g - 1" "min (total_2Dc g) 1 = 1" using tot by simp_all
  then show ?thesis using inv D winmax nx close
    by (simp add: counted_2Dc_def quiet_counter_2Dc_def counter_spec_def counter_value_def past_def h)
qed

lemma decrement_null_2Dc:
  assumes q: "quiet_counter_2Dc cfg l g" and post: "get_post cfg c_count g (d, l') g'" and d: "c_count d = 0"
  shows "counted_2Dc vs cfg Dec g (0, l'\<lparr>my_null_count := n\<rparr>) g'"
proof -
  note D = get_postD [OF post]
  have inv: "win_inv2Dc cfg c_count g" using q by (simp add: quiet_counter_2Dc_def)
  have "depth cfg \<le> win_max (global_Window g')" by (rule get_post_depth [OF inv post])
  then have z: "\<forall>j < width cfg. c_count (set_array g ! j) = 0" and g': "g' = g" using post d by (auto simp: get_post_def)
  have "total_2Dc g = 0" using z inv by (auto simp: total_2Dc_def win_inv2Dc_def sum_list_eq_0_iff in_set_conv_nth)
  then show ?thesis using q D g'
    by (auto simp: counted_2Dc_def quiet_counter_2Dc_def counter_spec_def win_next_def)
qed

lemma wp_counter_cae_2Dc:
  "wp (counter_cae_2Dc i d d' ghost) Q g =
     (if at (set_array g) i = Some d then Q True (ghost (g\<lparr>set_array := (set_array g)[i := d']\<rparr>)) else Q False g)"
  by (simp add: counter_cae_2Dc_def)

lemma counter_seq_2Dc:
  assumes "ds2Dc_ok cfg" "counter_room_2Dc cfg g" "quiet_counter_2Dc cfg l g" "fuel2Dc cfg \<le> fuel"
  shows "wp (counter_call_2Dc fuel vs cfg t c l) (counted_2Dc vs cfg c g) g"
proof -
  note q = assms(3) [unfolded quiet_counter_2Dc_def]
  have room: "room2Dc cfg g" using assms(2) by (simp add: counter_room_2Dc_def)
  obtain n where n: "fuel = Suc n" using assms(4) by (cases fuel) (auto simp: fuel2Dc_def)
  have put: "wp (put_window_2Dc fuel cfg load_counter_2Dc c_count l False) (put_post cfg c_count g) g"
    and get: "wp (get_window_2Dc fuel cfg load_counter_2Dc c_count l False) (get_post cfg c_count g) g"
    using assms q room by (auto intro!: cnt.put_window_seq cnt.get_window_seq past_synced)
  have len: "length (set_array g) = width cfg" using q by (simp add: win_inv2Dc_def)
  show ?thesis
  proof (cases c)
    case Inc
    have at: "at (set_array h) (thread_index k) = Some d" if "put_post cfg c_count g (d, k) h" for d k h
      using put_postD [OF that] len by simp
    show ?thesis unfolding Inc counter_call_2Dc_def counter_call.case increment_2Dc_def n increment_loop_2Dc.simps wp_bind
      by (rule wp_mono [OF put [unfolded n]])
        (use increment_commit_2Dc [OF assms(1-3) _ refl] in \<open>auto simp: at wp_counter_cae_2Dc Let_def\<close>)
  next
    case Dec
    have at: "at (set_array h) (thread_index k) = Some d" if "get_post cfg c_count g (d, k) h" for d k h
      using get_postD [OF that] len by simp
    show ?thesis unfolding Dec counter_call_2Dc_def counter_call.case decrement_2Dc_def n decrement_loop_2Dc.simps wp_bind
      by (rule wp_mono [OF get [unfolded n]])
        (use decrement_commit_2Dc [OF assms(1-3) _ _ refl] decrement_null_2Dc [OF assms(3)] in
          \<open>auto simp: at wp_counter_cae_2Dc Let_def\<close>)
  qed
qed

section \<open>Calls one after the other\<close>

definition counter_calls_inv_2Dc :: "nat \<Rightarrow> ds2Dc \<Rightarrow> nat \<Rightarrow> tl2Dc list \<Rightarrow> counter2Dc \<Rightarrow> bool" where
  "counter_calls_inv_2Dc fuel cfg n ls g \<longleftrightarrow> ds2Dc_ok cfg \<and> fuel2Dc cfg \<le> fuel \<and>
     (\<forall>l \<in> set ls. quiet_counter_2Dc cfg l g) \<and>
     (win_max (global_Window g) + (n + 1) * shift cfg) * width cfg < W64 \<and>
     win_max (global_Window g) + depth cfg + (n + 1) * shift cfg < W64 \<and> win_version (global_Window g) + n + 1 < W64"

lemma counter_calls_room: "counter_calls_inv_2Dc fuel cfg n ls g \<Longrightarrow> counter_room_2Dc cfg g"
  by (simp add: counter_calls_inv_2Dc_def counter_room_2Dc_def room2Dc_def algebra_simps)

lemma counter_calls_step:
  assumes inv: "counter_calls_inv_2Dc fuel cfg (Suc n) ls g" and c: "counted_2Dc vs cfg c g (r, l) g'"
  shows "counter_calls_inv_2Dc fuel cfg n (ls[t := l]) g'"
proof -
  have nx: "win_next g g'" and q: "quiet_counter_2Dc cfg l g'"
    and m: "win_max (global_Window g') \<le> win_max (global_Window g) + shift cfg" using c by (auto simp: counted_2Dc_def)
  have "quiet_counter_2Dc cfg k g'" if "k \<in> set ls" for k
    using inv q that past_next [OF _ nx] by (auto simp: counter_calls_inv_2Dc_def quiet_counter_2Dc_def)
  then have "\<forall>k \<in> set (ls[t := l]). quiet_counter_2Dc cfg k g'"
    using q set_update_subset_insert [of ls t l] by auto
  moreover have m': "win_max (global_Window g') + (n + 1) * shift cfg \<le> win_max (global_Window g) + (Suc n + 1) * shift cfg"
    using m by simp
  then have "(win_max (global_Window g') + (n + 1) * shift cfg) * width cfg < W64"
    using inv mult_le_mono1 [OF m', of "width cfg"] unfolding counter_calls_inv_2Dc_def by linarith
  moreover have "win_version (global_Window g') \<le> win_version (global_Window g) + 1" using nx by (auto simp: win_next_def)
  ultimately show ?thesis using inv m' by (auto simp: counter_calls_inv_2Dc_def)
qed

interpretation cnt_calls: budgeted_calls "counter_call_2Dc fuel vs cfg" "counter_calls_inv_2Dc fuel cfg" total_2Dc
  "counter_spec vs (depth cfg * (width cfg - 1))" for fuel vs cfg
proof
  fix n ls g t c
  assume inv: "counter_calls_inv_2Dc fuel cfg (Suc n) ls g" and t: "t < length ls"
  have "wp (counter_call_2Dc fuel vs cfg t c (ls ! t)) (counted_2Dc vs cfg c g) g"
    using inv t counter_calls_room [OF inv] by (intro counter_seq_2Dc) (auto simp: counter_calls_inv_2Dc_def)
  then show "wp (counter_call_2Dc fuel vs cfg t c (ls ! t)) (\<lambda>(r, l) g'. counter_calls_inv_2Dc fuel cfg n (ls[t := l]) g' \<and>
      counter_spec vs (depth cfg * (width cfg - 1)) c (total_2Dc g) r (total_2Dc g')) g"
    by (rule wp_mono) (auto intro: counter_calls_step [OF inv] simp: counted_2Dc_def)
qed

section \<open>Properties\<close>

text \<open>
  C6. Refinement of an exact counter by the 2Dc counter, for calls that do not overlap, by threads
  that have synchronised with the window. Every call returns, the sum of the sub-counters goes up
  by one with every increment and down by one with every decrement that does not find it zero, and
  each call returns a value that differs from the sum by at most \<open>depth * (width - 1)\<close> (with
  \<^verbatim>\<open>VALIDATESIZE\<close>: 1, or 0 for a decrement of zero).
\<close>

theorem counter_2Dc_refines_counter:
  assumes "ds2Dc_ok cfg" "fuel2Dc cfg \<le> fuel" "win_inv2Dc cfg c_count g"
    and "\<forall>l \<in> set ls. thread_Window l = global_Window g \<and> thread_index l < width cfg"
    and "(win_max (global_Window g) + (length cs + 1) * shift cfg) * width cfg < W64"
    and "win_max (global_Window g) + depth cfg + (length cs + 1) * shift cfg < W64"
    and "win_version (global_Window g) + length cs + 1 < W64" "\<forall>(t, c) \<in> set cs. t < length ls"
  shows "\<exists>rs ls' g'. exec_calls (counter_call_2Dc fuel vs cfg) cs (ls, g) = Some (rs, ls', g') \<and>
    spec_run (counter_spec vs (depth cfg * (width cfg - 1))) (map snd cs) (total_2Dc g) rs (total_2Dc g')"
proof -
  have "counter_calls_inv_2Dc fuel cfg (length cs + 0) ls g"
    using assms by (auto simp: counter_calls_inv_2Dc_def quiet_counter_2Dc_def)
  from cnt_calls.exec_calls_returns [OF this assms(8)] show ?thesis by blast
qed

text \<open>A counter for two threads with width 3 and depth 4, and threads that have just been started.\<close>

definition demo_counter_2Dc :: "ds2Dc \<times> counter2Dc" where
  "demo_counter_2Dc = the (create_counter_2Dc 2 3 4 0 0)"

definition fresh_counter_tl :: "seeds \<Rightarrow> window2Dc \<Rightarrow> u64 \<Rightarrow> tl2Dc" where
  "fresh_counter_tl s w i = \<lparr>seeds = s, my_put_cas_fail_count = 0, my_get_cas_fail_count = 0, my_null_count = 0,
     my_hop_count = 0, my_slide_count = 0, my_slide_fail_count = 0, thread_Window = w, thread_index = i\<rparr>"

lemma demo_counter_2Dc_eq:
  "demo_counter_2Dc =
     (\<lparr>random_hops = 2, width = 3, depth = 4, shift = 2, relaxation_bound = 16, k_mode = 0\<rparr>,
      \<lparr>global_Window = \<lparr>win_max = 4, win_version = 0\<rparr>, set_array = replicate 3 \<lparr>c_count = 0\<rparr>, incs = [], decs = []\<rparr>)"
  by (simp add: demo_counter_2Dc_def create_counter_2Dc_def calc_params_def bound64_def prog_unfold)

theorem counter_2Dc_refines_counter_witness:
  "\<exists>rs ls' g'. exec_calls (counter_call_2Dc 7 False (fst demo_counter_2Dc)) [(0, Inc), (1, Dec), (1, Dec)]
      (replicate 2 (fresh_counter_tl (1, 2, 3) \<lparr>win_max = 4, win_version = 0\<rparr> 1), snd demo_counter_2Dc) = Some (rs, ls', g') \<and>
    spec_run (counter_spec False (depth (fst demo_counter_2Dc) * (width (fst demo_counter_2Dc) - 1)))
      (map snd [(0 :: nat, Inc), (1, Dec), (1, Dec)]) (total_2Dc (snd demo_counter_2Dc)) rs (total_2Dc g')"
  by (rule counter_2Dc_refines_counter)
    (auto simp: demo_counter_2Dc_eq ds2Dc_ok_def fuel2Dc_def win_inv2Dc_def fresh_counter_tl_def W64_def)


end
