(* ===== verification/Counter2Dc_Conc.thy ===== *)
theory Counter2Dc_Conc
  imports Counter2Dc
begin

text \<open>
  The 2Dc counter under concurrency: any number of threads, each running its own list of
  increments and decrements, interleaved at every access to shared memory. No update is lost: at
  every moment the sum of the sub-counters is the number of successful increments less
  the number of successful decrements.
\<close>

section \<open>The protocol\<close>

inductive counter_step_2Dc :: "ds2Dc \<Rightarrow> nat \<Rightarrow> counter2Dc \<Rightarrow> counter2Dc \<Rightarrow> bool" for cfg t g where
  cs_inc: "i < length (set_array g) \<Longrightarrow>
     counter_step_2Dc cfg t g
       (g\<lparr>set_array := (set_array g)[i := \<lparr>c_count = c_count (set_array g ! i) + 1\<rparr>], incs := t # incs g\<rparr>)"
| cs_dec: "i < length (set_array g) \<Longrightarrow> 0 < c_count (set_array g ! i) \<Longrightarrow>
     counter_step_2Dc cfg t g
       (g\<lparr>set_array := (set_array g)[i := \<lparr>c_count = c_count (set_array g ! i) - 1\<rparr>], decs := t # decs g\<rparr>)"
| cs_up: "counter_step_2Dc cfg t g (g\<lparr>global_Window := shifted_up cfg (global_Window g)\<rparr>)"
| cs_down: "depth cfg + shift cfg \<le> win_max (global_Window g) \<Longrightarrow>
     counter_step_2Dc cfg t g (g\<lparr>global_Window := shifted_down cfg (global_Window g)\<rparr>)"

definition counters_left_2Dc :: "ds2Dc \<Rightarrow> counter2Dc \<Rightarrow> bool" where
  "counters_left_2Dc cfg g \<longleftrightarrow> room2Dc cfg g \<and> (\<forall>d \<in> set (set_array g). c_count d + 1 < W64)"

definition counter_inv_2Dc :: "ds2Dc \<Rightarrow> counter2Dc \<Rightarrow> bool" where
  "counter_inv_2Dc cfg g \<longleftrightarrow> ds2Dc_ok cfg \<and> length (set_array g) = width cfg \<and>
     depth cfg \<le> win_max (global_Window g) \<and> total_2Dc g + length (decs g) = length (incs g)"

interpretation cnt_conc: protocol "counter_step_2Dc cfg" "counters_left_2Dc cfg" "counter_inv_2Dc cfg" for cfg
proof
  fix g t g'
  assume inv: "counter_inv_2Dc cfg g" and st: "counter_step_2Dc cfg t g g'"
  from st show "counter_inv_2Dc cfg g'"
  proof cases
    case (cs_inc i)
    then show ?thesis using inv total_update [of i g g' "\<lparr>c_count = c_count (set_array g ! i) + 1\<rparr>"]
      by (simp add: counter_inv_2Dc_def)
  next
    case (cs_dec i)
    have "total_2Dc g' + 1 = total_2Dc g"
      using total_update [OF cs_dec(2), of g' "\<lparr>c_count = c_count (set_array g ! i) - 1\<rparr>"] cs_dec by simp
    then show ?thesis using inv cs_dec(1) by (simp add: counter_inv_2Dc_def)
  qed (use inv in \<open>auto simp: counter_inv_2Dc_def total_2Dc_def shifted_up_def shifted_down_def\<close>)
qed

section \<open>What a thread knows\<close>

definition counter_known_2Dc :: "ds2Dc \<Rightarrow> nat \<Rightarrow> nat \<times> nat \<Rightarrow> counter2Dc \<Rightarrow> bool" where
  "counter_known_2Dc cfg t s g \<longleftrightarrow> counter_inv_2Dc cfg g \<and> counters_left_2Dc cfg g \<and>
     s = (count_list (incs g) t, count_list (decs g) t)"

lemma counter_known_env:
  assumes "counter_known_2Dc cfg t s g" "env1 (counter_step_2Dc cfg) (counters_left_2Dc cfg) t g g'"
  shows "counter_known_2Dc cfg t s g'"
proof -
  obtain u where u: "u \<noteq> t" "counter_step_2Dc cfg u g g'" and A: "counters_left_2Dc cfg g'"
    using assms(2) by (auto simp: env1_def)
  moreover have "counter_inv_2Dc cfg g'" using cnt_conc.inv_step u A assms(1) by (auto simp: counter_known_2Dc_def)
  moreover have "count_list (incs g') t = count_list (incs g) t \<and> count_list (decs g') t = count_list (decs g) t"
    using u(2,1) by cases auto
  ultimately show ?thesis using assms(1) by (simp add: counter_known_2Dc_def)
qed

lemma counter_known_envs:
  "env (counter_step_2Dc cfg) (counters_left_2Dc cfg) t g h \<Longrightarrow> counter_known_2Dc cfg t s g \<Longrightarrow> counter_known_2Dc cfg t s h"
  by (induction rule: rtranclp_induct) (auto intro: counter_known_env)

lemma counter_window_known:
  assumes "counter_known_2Dc cfg t s g" "counter_step_2Dc cfg t g (g\<lparr>global_Window := w\<rparr>)"
    and "counters_left_2Dc cfg (g\<lparr>global_Window := w\<rparr>)"
  shows "counter_known_2Dc cfg t s (g\<lparr>global_Window := w\<rparr>)"
  using assms cnt_conc.inv_step [OF _ assms(2,3)] by (auto simp: counter_known_2Dc_def)

interpretation cnt_win: window2Dc_env "counter_step_2Dc cfg" "counters_left_2Dc cfg" t cfg load_counter_2Dc c_count
  "counter_known_2Dc cfg t s" "\<lambda>i d g. True" for cfg t s
proof
  fix g g' i d w
  show "counter_known_2Dc cfg t s g \<Longrightarrow> 0 < width cfg" "counter_known_2Dc cfg t s g \<Longrightarrow> width cfg < 65536"
    by (auto simp: counter_known_2Dc_def counter_inv_2Dc_def ds2Dc_ok_def)
  assume k: "counter_known_2Dc cfg t s g"
  show "env1 (counter_step_2Dc cfg) (counters_left_2Dc cfg) t g g' \<Longrightarrow> counter_known_2Dc cfg t s g'"
    by (rule counter_known_env [OF k])
  show "True" ..
  have room: "win_max (global_Window g) + depth cfg + shift cfg < W64" "win_version (global_Window g) + 1 < W64"
    and sh: "1 \<le> shift cfg" "shift cfg \<le> depth cfg" "depth cfg \<le> win_max (global_Window g)"
    using k by (auto simp: counter_known_2Dc_def counters_left_2Dc_def room2Dc_def counter_inv_2Dc_def ds2Dc_ok_def)
  show "w = \<lparr>win_max = add64 (win_max (global_Window g)) (shift cfg), win_version = add64 (win_version (global_Window g)) 1\<rparr> \<Longrightarrow>
      counters_left_2Dc cfg (g\<lparr>global_Window := w\<rparr>) \<Longrightarrow>
      counter_step_2Dc cfg t g (g\<lparr>global_Window := w\<rparr>) \<and> counter_known_2Dc cfg t s (g\<lparr>global_Window := w\<rparr>)"
    using room cs_up [of cfg t g] counter_window_known [OF k] by (simp add: shifted_up_def add64_eq)
  assume w: "w = \<lparr>win_max = sub64 (win_max (global_Window g)) (shift cfg), win_version = add64 (win_version (global_Window g)) 1\<rparr>"
    "depth cfg \<le> win_max w" and r: "counters_left_2Dc cfg (g\<lparr>global_Window := w\<rparr>)"
  have "w = shifted_down cfg (global_Window g)" "depth cfg + shift cfg \<le> win_max (global_Window g)"
    using w room sh by (auto simp: shifted_down_def add64_eq sub64_eq)
  then show "counter_step_2Dc cfg t g (g\<lparr>global_Window := w\<rparr>) \<and> counter_known_2Dc cfg t s (g\<lparr>global_Window := w\<rparr>)"
    using r cs_down [of cfg g t] counter_window_known [OF k] by simp
next
  fix g i
  assume k: "counter_known_2Dc cfg t s g" "i < width cfg"
  have "ok (counter_step_2Dc cfg) (counters_left_2Dc cfg) t (pbind (load_counter_2Dc i) Ret)
      (\<lambda>d h. counter_known_2Dc cfg t s h \<and> True) g"
    unfolding load_counter_2Dc_def
  proof (rule ok_rd_opt, goal_cases)
    case (1 h)
    note k' = counter_known_envs [OF 1 k(1)]
    then have "i < length (set_array h)" using k(2) by (simp add: counter_known_2Dc_def counter_inv_2Dc_def)
    then show ?case using counter_known_envs [OF _ k'] by simp
  qed
  then show "ok (counter_step_2Dc cfg) (counters_left_2Dc cfg) t (load_counter_2Dc i)
      (\<lambda>d h. counter_known_2Dc cfg t s h \<and> True) g" by (simp only: pbind_Ret)
qed

section \<open>Increment and decrement under interference\<close>

lemma ok_counter_cae:
  assumes k: "counter_known_2Dc cfg t (a, b) g"
    and step: "\<And>h. counter_known_2Dc cfg t (a, b) h \<Longrightarrow> i < length (set_array h) \<Longrightarrow> d = set_array h ! i \<Longrightarrow>
        counter_step_2Dc cfg t h (gh (h\<lparr>set_array := (set_array h)[i := d']\<rparr>)) \<and>
        (count_list (incs (gh (h\<lparr>set_array := (set_array h)[i := d']\<rparr>))) t,
         count_list (decs (gh (h\<lparr>set_array := (set_array h)[i := d']\<rparr>))) t) = s"
    and finish: "\<And>h. counter_known_2Dc cfg t s h \<Longrightarrow> ok (counter_step_2Dc cfg) (counters_left_2Dc cfg) t (f True) Q h"
    and retry: "\<And>h. counter_known_2Dc cfg t (a, b) h \<Longrightarrow> ok (counter_step_2Dc cfg) (counters_left_2Dc cfg) t (f False) Q h"
  shows "ok (counter_step_2Dc cfg) (counters_left_2Dc cfg) t (pbind (counter_cae_2Dc i d d' gh) f) Q g"
  unfolding counter_cae_2Dc_def pbind.simps
proof (rule ok_Act, goal_cases)
  case (1 h)
  note k' = counter_known_envs [OF 1(1) k]
  show ?case
  proof (cases "at (set_array h) i = Some d")
    case True
    then have st: "counter_step_2Dc cfg t h (gh (h\<lparr>set_array := (set_array h)[i := d']\<rparr>))"
      and s: "s = (count_list (incs (gh (h\<lparr>set_array := (set_array h)[i := d']\<rparr>))) t,
         count_list (decs (gh (h\<lparr>set_array := (set_array h)[i := d']\<rparr>))) t)"
      using step [OF k'] by (auto simp: at_eq_Some)
    moreover have A: "counters_left_2Dc cfg (gh (h\<lparr>set_array := (set_array h)[i := d']\<rparr>))" using 1(2) True by simp
    moreover have "counter_inv_2Dc cfg (gh (h\<lparr>set_array := (set_array h)[i := d']\<rparr>))"
      using cnt_conc.inv_step [OF _ st A] k' by (simp add: counter_known_2Dc_def)
    ultimately have "counter_known_2Dc cfg t s (gh (h\<lparr>set_array := (set_array h)[i := d']\<rparr>))"
      by (simp add: counter_known_2Dc_def)
    then show ?thesis using True finish st by simp
  next
    case False
    then show ?thesis using retry [OF k'] by simp
  qed
qed

lemma counter_small:
  "counter_known_2Dc cfg t s g \<Longrightarrow> i < length (set_array g) \<Longrightarrow> c_count (set_array g ! i) + 1 < W64"
  by (simp add: counter_known_2Dc_def counters_left_2Dc_def)

definition counter_post :: "ds2Dc \<Rightarrow> nat \<Rightarrow> counter_call \<Rightarrow> nat \<times> nat \<Rightarrow> nat \<times> tl2Dc \<Rightarrow> counter2Dc \<Rightarrow> bool" where
  "counter_post cfg t c s = (\<lambda>(r, l) h. thread_index l < width cfg \<and> (\<exists>s'. counter_hist c s r s' \<and> counter_known_2Dc cfg t s' h))"

lemma counter_post_Ret:
  assumes "counter_known_2Dc cfg t s' g" "counter_hist c s r s'" "thread_index l < width cfg"
  shows "ok (counter_step_2Dc cfg) (counters_left_2Dc cfg) t (Ret (r, l)) (counter_post cfg t c s) g"
  using assms counter_known_envs [of cfg t g _ s'] by (auto simp: counter_post_def simp del: split_paired_Ex)

lemma increment_ok:
  assumes "counter_known_2Dc cfg t s g" "thread_index l < width cfg"
  shows "ok (counter_step_2Dc cfg) (counters_left_2Dc cfg) t (increment_loop_2Dc n fuel True cfg t l c)
    (counter_post cfg t Inc s) g"
  using assms
proof (induction n arbitrary: l c g)
  case 0
  then show ?case by simp
next
  case (Suc n)
  obtain a b where s: "s = (a, b)" by (cases s)
  show ?case
    unfolding increment_loop_2Dc.simps
  proof (rule ok_bind_mono [OF cnt_win.put_window_ok [OF Suc.prems]], clarify)
    fix d and l' :: tl2Dc and h
    assume "cnt_win.handed cfg t s (d, l') h"
    then have k: "counter_known_2Dc cfg t (a, b) h" and i: "thread_index l' < width cfg"
      by (auto simp: cnt_win.handed_def s)
    show "ok (counter_step_2Dc cfg) (counters_left_2Dc cfg) t
       (let new_descriptor = \<lparr>c_count = add64 (c_count d) 1\<rparr>
        in pbind (counter_cae_2Dc (thread_index l') d new_descriptor (\<lambda>g. g\<lparr>incs := t # incs g\<rparr>)) (\<lambda>success.
           if success then Ret (counter_value True (c_count new_descriptor) (width cfg), l')
           else increment_loop_2Dc n fuel True cfg t
             (l'\<lparr>my_put_cas_fail_count := add64 (my_put_cas_fail_count l') 1\<rparr>) True)) (counter_post cfg t Inc s) h"
      unfolding Let_def
    proof (rule ok_counter_cae [OF k, where s = "(a + 1, b)"], goal_cases)
      case (1 h')
      then show ?case using cs_inc [of "thread_index l'" h' cfg t] counter_small [OF 1(1,2)]
        by (simp add: add64_eq counter_known_2Dc_def)
    next
      case (2 h')
      then show ?case using i s by (simp add: counter_value_def counter_post_Ret del: ok.simps)
    next
      case (3 h')
      then show ?case using Suc.IH [of h'] i s by (simp del: ok.simps)
    qed
  qed
qed

lemma decrement_ok:
  assumes "counter_known_2Dc cfg t s g" "thread_index l < width cfg"
  shows "ok (counter_step_2Dc cfg) (counters_left_2Dc cfg) t (decrement_loop_2Dc n fuel True cfg t l c)
    (counter_post cfg t Dec s) g"
  using assms
proof (induction n arbitrary: l c g)
  case 0
  then show ?case by simp
next
  case (Suc n)
  obtain a b where s: "s = (a, b)" by (cases s)
  show ?case
    unfolding decrement_loop_2Dc.simps
  proof (rule ok_bind_mono [OF cnt_win.get_window_ok [OF Suc.prems]], clarify)
    fix d and l' :: tl2Dc and h
    assume "cnt_win.handed cfg t s (d, l') h"
    then have k: "counter_known_2Dc cfg t (a, b) h" and i: "thread_index l' < width cfg"
      by (auto simp: cnt_win.handed_def s)
    have "ok (counter_step_2Dc cfg) (counters_left_2Dc cfg) t
       (pbind (counter_cae_2Dc (thread_index l') d \<lparr>c_count = sub64 (c_count d) 1\<rparr> (\<lambda>g. g\<lparr>decs := t # decs g\<rparr>)) (\<lambda>success.
           if success then Ret (counter_value True (c_count \<lparr>c_count = sub64 (c_count d) 1\<rparr>) (width cfg), l')
           else decrement_loop_2Dc n fuel True cfg t
             (l'\<lparr>my_get_cas_fail_count := add64 (my_get_cas_fail_count l') 1\<rparr>) True)) (counter_post cfg t Dec s) h"
      if "0 < c_count d"
    proof (rule ok_counter_cae [OF k, where s = "(a, b + 1)"], goal_cases)
      case (1 h')
      then show ?case using cs_dec [of "thread_index l'" h' cfg t] counter_small [OF 1(1,2)] that
        by (simp add: sub64_eq counter_known_2Dc_def)
    next
      case (2 h')
      then show ?case using i s by (simp add: counter_value_def counter_post_Ret del: ok.simps)
    next
      case (3 h')
      then show ?case using Suc.IH [of h'] i s by (simp del: ok.simps)
    qed
    moreover have "ok (counter_step_2Dc cfg) (counters_left_2Dc cfg) t (Ret (0, l'\<lparr>my_null_count := m\<rparr>)) (counter_post cfg t Dec s) h" for m
      using k i s by (intro counter_post_Ret [of _ _ "(a, b)"]) auto
    ultimately show "ok (counter_step_2Dc cfg) (counters_left_2Dc cfg) t
       (if 0 < c_count d then let new_descriptor = \<lparr>c_count = sub64 (c_count d) 1\<rparr>
        in pbind (counter_cae_2Dc (thread_index l') d new_descriptor (\<lambda>g. g\<lparr>decs := t # decs g\<rparr>)) (\<lambda>success.
           if success then Ret (counter_value True (c_count new_descriptor) (width cfg), l')
           else decrement_loop_2Dc n fuel True cfg t
             (l'\<lparr>my_get_cas_fail_count := add64 (my_get_cas_fail_count l') 1\<rparr>) True)
        else Ret (0, l'\<lparr>my_null_count := add64 (my_null_count l') 1\<rparr>)) (counter_post cfg t Dec s) h"
      by (simp add: Let_def del: ok.simps)
  qed
qed

interpretation cnt_threads: threads "counter_step_2Dc cfg" "counters_left_2Dc cfg" "counter_inv_2Dc cfg"
  "counter_call_2Dc fuel True cfg" "counter_known_2Dc cfg" "\<lambda>l. thread_index l < width cfg" counter_hist for cfg fuel
proof (unfold_locales, goal_cases)
  case (1 t s g g')
  then show ?case by (rule counter_known_env)
next
  case (2 t s g l c)
  show ?case
    by (cases c; simp only: counter_call_2Dc_def counter_call.case increment_2Dc_def decrement_2Dc_def)
      (use increment_ok [OF 2] decrement_ok [OF 2] in \<open>auto simp: counter_post_def simp del: ok.simps\<close>)
qed

section \<open>Properties\<close>

lemma create_counter_known:
  assumes c: "create_counter_2Dc nt w d mode bound = Some (cfg, g)"
    and u: "1 \<le> width cfg" "width cfg < 65536" "1 \<le> depth cfg" "3 * depth cfg < W64"
  shows "counter_known_2Dc cfg t (0, 0) g"
proof -
  obtain w' d' k' where
    cfg: "cfg = \<lparr>random_hops = 2, width = w', depth = d', shift = (if d' div 2 > 1 then d' div 2 else 1),
            relaxation_bound = k', k_mode = mode\<rparr>" and
    g: "g = \<lparr>global_Window = \<lparr>win_max = d', win_version = 0\<rparr>, set_array = replicate w' \<lparr>c_count = 0\<rparr>, incs = [], decs = []\<rparr>"
    using c by (auto simp: create_counter_2Dc_def split: option.splits)
  have "ds2Dc_ok cfg" "shift cfg \<le> depth cfg" using u by (auto simp: cfg ds2Dc_ok_def W64_def)
  then show ?thesis using u
    by (auto simp: counter_known_2Dc_def counter_inv_2Dc_def counters_left_2Dc_def room2Dc_def total_2Dc_def g
        cfg W64_def map_replicate_const sum_list_replicate)
qed

text \<open>
  C8. The 2Dc counter loses no update under concurrency. Any number of threads run any lists of
  increments and decrements, interleaved at every access to shared memory, from a new counter and as
  long as no 64-bit counter reaches its last value; the threads may start with any local
  window. No thread faults, and when all have finished, the sum of the sub-counters is the
  number of increments less the number of decrements that returned 1 (with \<^verbatim>\<open>VALIDATESIZE\<close>, 0 is the answer of a
  decrement that had no effect).
\<close>

theorem counter_2Dc_no_lost_update:
  assumes c: "create_counter_2Dc nt w d mode bound = Some (cfg, g0)"
    and u: "1 \<le> width cfg" "width cfg < 65536" "1 \<le> depth cfg" "3 * depth cfg < W64"
    and ls: "length ls = length css" "\<forall>l \<in> set ls. thread_index l < width cfg"
    and run: "pool_reaches (counters_left_2Dc cfg) (client_pool (counter_call_2Dc fuel True cfg) css ls, g0) (ps, g)"
    and rss: "map prog_result ps = map Some rss"
  shows "Fault \<notin> set ps \<and>
    total_2Dc g + (\<Sum>t < length css. dec_results (css ! t) (rss ! t)) = (\<Sum>t < length css. count_list (css ! t) Inc)"
proof -
  let ?n = "length css"
  note k0 = create_counter_known [OF c u]
  have i0: "counter_inv_2Dc cfg g0" using k0 by (simp add: counter_known_2Dc_def)
  note p = cnt_threads.pool_clients [OF run, of "(0, 0)", OF k0 ls i0]
  have t: "count_list (incs g) t = count_list (css ! t) Inc" "count_list (decs g) t = dec_results (css ! t) (rss ! t)"
    if "t < ?n" for t using p(2) [OF rss that] by (auto simp: counter_known_2Dc_def dest: counter_hist_run)
  have out: "count_list (incs g) t = 0" "count_list (decs g) t = 0" if "?n \<le> t" for t
    using p(3) [OF that] by (auto simp: counter_known_2Dc_def)
  have "length (incs g) = (\<Sum>t < ?n. count_list (css ! t) Inc)" "length (decs g) = (\<Sum>t < ?n. dec_results (css ! t) (rss ! t))"
    using length_by_thread [OF out(1)] length_by_thread [OF out(2)] t by simp_all
  then show ?thesis using p(1) by (simp add: counter_inv_2Dc_def)
qed

definition demo_counter_run :: "(counter2Dc, nat list) prog list \<times> counter2Dc" where
  "demo_counter_run = sched (counters_left_2Dc (fst demo_counter_2Dc)) (concat (replicate 40 [0, 1]))
     (client_pool (counter_call_2Dc 10 True (fst demo_counter_2Dc)) [[Inc, Dec], [Inc, Inc]]
        [fresh_counter_tl (1, 2, 3) \<lparr>win_max = 0, win_version = 0\<rparr> 0, fresh_counter_tl (4, 5, 6) \<lparr>win_max = 0, win_version = 0\<rparr> 1],
      snd demo_counter_2Dc)"

theorem counter_2Dc_no_lost_update_witness:
  "Fault \<notin> set (fst demo_counter_run) \<and> total_2Dc (snd demo_counter_run) +
     (\<Sum>t < length [[Inc, Dec], [Inc, Inc]]. dec_results ([[Inc, Dec], [Inc, Inc]] ! t) ([[1, 1], [1, 1]] ! t)) =
     (\<Sum>t < length [[Inc, Dec], [Inc, Inc]]. count_list ([[Inc, Dec], [Inc, Inc]] ! t) Inc)"
proof (rule counter_2Dc_no_lost_update [of 2 3 4 0 0 "fst demo_counter_2Dc" "snd demo_counter_2Dc"])
  show "create_counter_2Dc 2 3 4 0 0 = Some (fst demo_counter_2Dc, snd demo_counter_2Dc)"
    by (simp add: demo_counter_2Dc_def create_counter_2Dc_def calc_params_def bound64_def)
  show "pool_reaches (counters_left_2Dc (fst demo_counter_2Dc))
      (client_pool (counter_call_2Dc 10 True (fst demo_counter_2Dc)) [[Inc, Dec], [Inc, Inc]]
        [fresh_counter_tl (1, 2, 3) \<lparr>win_max = 0, win_version = 0\<rparr> 0, fresh_counter_tl (4, 5, 6) \<lparr>win_max = 0, win_version = 0\<rparr> 1],
       snd demo_counter_2Dc) (fst demo_counter_run, snd demo_counter_run)"
    unfolding demo_counter_run_def prod.collapse by (rule sched_reaches)
  show "map prog_result (fst demo_counter_run) = map Some [[1, 1], [1, 1]]"
    by (simp add: demo_counter_run_def demo_counter_2Dc_eq client_pool_def counter_call_2Dc_def fresh_counter_tl_def
        counters_left_2Dc_def room2Dc_def prog_unfold upt_rec cong: eval_cong)
qed (simp_all add: demo_counter_2Dc_eq W64_def fresh_counter_tl_def)

end
