(* ===== verification/Window2Dd.thy ===== *)
theory Window2Dd
  imports Thread_Random
begin

text \<open>
  The decoupled windows of \<^verbatim>\<open>include/2Dd-window.c\<close>, included by the 2Dd queue, stack and counter: a
  put window \<^verbatim>\<open>global_PWindow\<close> and a get window \<^verbatim>\<open>global_GWindow\<close>, each an upper bound on the
  number of puts (gets) made on every sub-structure so far. Both only grow, by the depth.

  The C file is a template over \<^verbatim>\<open>DS_TYPE\<close> and \<^verbatim>\<open>descriptor_t\<close>. The model is parametric in the
  descriptor, in how it is loaded from \<^verbatim>\<open>put_array\<close> (\<open>loadp\<close>) and \<^verbatim>\<open>get_array\<close> (\<open>loadg\<close>), in how
  \<^verbatim>\<open>put_array[i].descriptor.put_count\<close> alone is loaded (\<open>loadpc\<close>), and in the fields \<^verbatim>\<open>put_count\<close>
  and \<^verbatim>\<open>get_count\<close> (\<open>pcnt\<close>, \<open>gcnt\<close>). The window structs have one field, \<^verbatim>\<open>max\<close>, and are that number.
\<close>

section \<open>State\<close>

record ds2Dd =
  random_hops :: u64
  width :: u64
  depth :: u64
  relaxation_bound :: u64
  k_mode :: nat

record sh2Dd =
  global_PWindow :: u64
  global_GWindow :: u64

record tl2Dd = tls +
  thread_PWindow :: u64
  thread_GWindow :: u64
  thread_index :: u64

section \<open>Operations\<close>

definition random_index_2Dd :: "u64 \<Rightarrow> 'l tls_scheme \<Rightarrow> ('g, u64 \<times> 'l tls_scheme) prog" where
  "random_index_2Dd w l = random_mod (w mod 4294967296) l"

definition hop_2Dd ::
  "ds2Dd \<Rightarrow> 'l tl2Dd_scheme \<Rightarrow> u64 \<Rightarrow> u64 \<Rightarrow> u64 \<Rightarrow> ('g, u64 \<times> u64 \<times> u64 \<times> 'l tl2Dd_scheme) prog" where
  "hop_2Dd cfg l index random hops =
     (let l = l\<lparr>my_hop_count := add64 (my_hop_count l) 1\<rparr>
      in if random < random_hops cfg
         then pbind (random_index_2Dd (width cfg) l) (\<lambda>(index, l). Ret (index, add64 random 1, hops, l))
         else let index = add64 index 1
              in Ret (if index \<ge> width cfg then 0 else index, random, add64 hops 1, l))"

definition cae_PWindow :: "u64 \<Rightarrow> u64 \<Rightarrow> ('z sh2Dd_scheme, bool \<times> u64) prog" where
  "cae_PWindow = cae global_PWindow (\<lambda>w g. g\<lparr>global_PWindow := w\<rparr>)"

definition cae_GWindow :: "u64 \<Rightarrow> u64 \<Rightarrow> ('z sh2Dd_scheme, bool \<times> u64) prog" where
  "cae_GWindow = cae global_GWindow (\<lambda>w g. g\<lparr>global_GWindow := w\<rparr>)"

fun put_window_loop_2Dd ::
  "nat \<Rightarrow> ds2Dd \<Rightarrow> (u64 \<Rightarrow> ('z sh2Dd_scheme, 'd) prog) \<Rightarrow> ('d \<Rightarrow> u64) \<Rightarrow>
   'l tl2Dd_scheme \<Rightarrow> u64 \<Rightarrow> u64 \<Rightarrow> ('z sh2Dd_scheme, 'd \<times> 'l tl2Dd_scheme) prog" where
  "put_window_loop_2Dd 0 cfg loadp pcnt l hops random = NoFuel"
| "put_window_loop_2Dd (Suc n) cfg loadp pcnt l hops random =
     pbind (assert (thread_index l < width cfg)) (\<lambda>_.
     pbind (loadp (thread_index l)) (\<lambda>descriptor.
     pbind (rd global_PWindow) (\<lambda>read_global_PWindow.
     if read_global_PWindow \<noteq> thread_PWindow l then
       put_window_loop_2Dd n cfg loadp pcnt (l\<lparr>thread_PWindow := read_global_PWindow\<rparr>) 0 random
     else if pcnt descriptor < read_global_PWindow then
       Ret (descriptor, l)
     else if hops \<noteq> width cfg then
       pbind (hop_2Dd cfg l (thread_index l) random hops) (\<lambda>(index, random, hops, l).
         put_window_loop_2Dd n cfg loadp pcnt (l\<lparr>thread_index := index\<rparr>) hops random)
     else
       pbind (rd global_PWindow) (\<lambda>gp.
       pbind (if thread_PWindow l = gp then
                pbind (cae_PWindow (thread_PWindow l) (add64 (thread_PWindow l) (depth cfg))) (\<lambda>(success, found).
                Ret (if success then l\<lparr>my_slide_count := add64 (my_slide_count l) 1\<rparr> else l\<lparr>thread_PWindow := found\<rparr>))
              else Ret l) (\<lambda>l.
       pbind (rd global_PWindow) (\<lambda>w.
       put_window_loop_2Dd n cfg loadp pcnt (l\<lparr>thread_PWindow := w\<rparr>) 0 random))))))"

definition put_window_2Dd ::
  "nat \<Rightarrow> ds2Dd \<Rightarrow> (u64 \<Rightarrow> ('z sh2Dd_scheme, 'd) prog) \<Rightarrow> ('d \<Rightarrow> u64) \<Rightarrow>
   'l tl2Dd_scheme \<Rightarrow> bool \<Rightarrow> ('z sh2Dd_scheme, 'd \<times> 'l tl2Dd_scheme) prog" where
  "put_window_2Dd fuel cfg loadp pcnt l contention =
     pbind (if contention
            then pbind (random_index_2Dd (width cfg) l) (\<lambda>(i, l). Ret (l\<lparr>thread_index := i\<rparr>))
            else Ret l) (\<lambda>l.
     pbind (rd global_PWindow) (\<lambda>gp.
     pbind (if thread_PWindow l \<noteq> gp
            then pbind (rd global_PWindow) (\<lambda>w. Ret (l\<lparr>thread_PWindow := w\<rparr>)) else Ret l) (\<lambda>l.
     put_window_loop_2Dd fuel cfg loadp pcnt l 0 0)))"

fun get_window_loop_2Dd ::
  "nat \<Rightarrow> ds2Dd \<Rightarrow> (u64 \<Rightarrow> ('z sh2Dd_scheme, 'd) prog) \<Rightarrow> (u64 \<Rightarrow> ('z sh2Dd_scheme, u64) prog) \<Rightarrow> ('d \<Rightarrow> u64) \<Rightarrow>
   'l tl2Dd_scheme \<Rightarrow> u64 \<Rightarrow> u64 \<Rightarrow> bool \<Rightarrow> ('z sh2Dd_scheme, 'd \<times> 'l tl2Dd_scheme) prog" where
  "get_window_loop_2Dd 0 cfg loadg loadpc gcnt l hops random notempty = NoFuel"
| "get_window_loop_2Dd (Suc n) cfg loadg loadpc gcnt l hops random notempty =
     pbind (loadg (thread_index l)) (\<lambda>descriptor.
     pbind (loadpc (thread_index l)) (\<lambda>put_count.
     pbind (rd global_GWindow) (\<lambda>read_global_GWindow.
     if read_global_GWindow \<noteq> thread_GWindow l then
       get_window_loop_2Dd n cfg loadg loadpc gcnt (l\<lparr>thread_GWindow := read_global_GWindow\<rparr>) 0 random False
     else if gcnt descriptor < read_global_GWindow \<and> put_count \<noteq> gcnt descriptor then
       Ret (descriptor, l)
     else if hops \<noteq> width cfg then
       (let notempty = (notempty \<or> put_count \<noteq> gcnt descriptor)
        in pbind (hop_2Dd cfg l (thread_index l) random hops) (\<lambda>(index, random, hops, l).
           get_window_loop_2Dd n cfg loadg loadpc gcnt (l\<lparr>thread_index := index\<rparr>) hops random notempty))
     else if notempty then
       pbind (rd global_GWindow) (\<lambda>gg.
       pbind (if thread_GWindow l = gg then
                pbind (cae_GWindow (thread_GWindow l) (add64 (thread_GWindow l) (depth cfg))) (\<lambda>(success, found).
                Ret (if success then l\<lparr>my_slide_count := add64 (my_slide_count l) 1\<rparr> else l\<lparr>thread_GWindow := found\<rparr>))
              else Ret l) (\<lambda>l.
       pbind (rd global_GWindow) (\<lambda>w.
       get_window_loop_2Dd n cfg loadg loadpc gcnt (l\<lparr>thread_GWindow := w\<rparr>) 0 random False)))
     else Ret (descriptor, l))))"

definition get_window_2Dd ::
  "nat \<Rightarrow> ds2Dd \<Rightarrow> (u64 \<Rightarrow> ('z sh2Dd_scheme, 'd) prog) \<Rightarrow> (u64 \<Rightarrow> ('z sh2Dd_scheme, u64) prog) \<Rightarrow> ('d \<Rightarrow> u64) \<Rightarrow>
   'l tl2Dd_scheme \<Rightarrow> bool \<Rightarrow> ('z sh2Dd_scheme, 'd \<times> 'l tl2Dd_scheme) prog" where
  "get_window_2Dd fuel cfg loadg loadpc gcnt l contention =
     pbind (rd global_GWindow) (\<lambda>w.
     let l = l\<lparr>thread_GWindow := w\<rparr>
     in pbind (if contention
               then pbind (random_index_2Dd (width cfg) l) (\<lambda>(i, l). Ret (l\<lparr>thread_index := i\<rparr>))
               else Ret l) (\<lambda>l.
        pbind (rd global_GWindow) (\<lambda>gg.
        pbind (if thread_GWindow l \<noteq> gg
               then pbind (rd global_GWindow) (\<lambda>w. Ret (l\<lparr>thread_GWindow := w\<rparr>)) else Ret l) (\<lambda>l.
        get_window_loop_2Dd fuel cfg loadg loadpc gcnt l 0 0 False))))"

definition initialize_global_window_2Dd :: "u64 \<Rightarrow> sh2Dd \<Rightarrow> sh2Dd" where
  "initialize_global_window_2Dd d g = g\<lparr>global_PWindow := d, global_GWindow := d\<rparr>"

lemmas window2Dd_unfold [prog_unfold] =
  random_index_2Dd_def hop_2Dd_def cae_PWindow_def cae_GWindow_def put_window_2Dd_def get_window_2Dd_def
  initialize_global_window_2Dd_def
  put_window_loop_2Dd.simps(2) [of "pred_numeral k" for k, folded numeral_eq_Suc]
  get_window_loop_2Dd.simps(2) [of "pred_numeral k" for k, folded numeral_eq_Suc]

section \<open>The invariant between operations that do not overlap\<close>

definition ds2Dd_ok :: "ds2Dd \<Rightarrow> bool" where
  "ds2Dd_ok cfg \<longleftrightarrow> 0 < width cfg \<and> width cfg < 4294967296 \<and> 1 \<le> depth cfg \<and> random_hops cfg < W64"

text \<open>
  \<open>pc i\<close> and \<open>gc i\<close> are the puts and gets made on sub-structure \<open>i\<close>: all puts lie in the put window, all
  gets in the get window, and the get window is never ahead of the put window.
\<close>

definition win_inv2Dd :: "ds2Dd \<Rightarrow> u64 \<Rightarrow> u64 \<Rightarrow> (nat \<Rightarrow> nat) \<Rightarrow> (nat \<Rightarrow> nat) \<Rightarrow> bool" where
  "win_inv2Dd cfg P G pc gc \<longleftrightarrow> depth cfg dvd P \<and> depth cfg dvd G \<and> G \<le> P \<and>
     (\<forall>i < width cfg. pc i \<le> P \<and> P \<le> pc i + depth cfg \<and> gc i \<le> G \<and> G \<le> gc i + depth cfg \<and> gc i \<le> pc i)"

definition room2Dd :: "ds2Dd \<Rightarrow> 'z sh2Dd_scheme \<Rightarrow> bool" where
  "room2Dd cfg g \<longleftrightarrow> global_PWindow g + depth cfg < W64 \<and> global_GWindow g + depth cfg < W64"

definition fuel2Dd :: "ds2Dd \<Rightarrow> nat" where
  "fuel2Dd cfg = random_hops cfg + 2 * width cfg + 3"

text \<open>What the callers get: an index whose sub-structure the windows allow, after at most one shift.\<close>

definition put_post_2Dd ::
  "ds2Dd \<Rightarrow> (nat \<Rightarrow> 'd) \<Rightarrow> ('d \<Rightarrow> u64) \<Rightarrow> 'z sh2Dd_scheme \<Rightarrow> 'd \<times> 'l tl2Dd_scheme \<Rightarrow> 'z sh2Dd_scheme \<Rightarrow> bool" where
  "put_post_2Dd cfg putd pcnt g = (\<lambda>(d, l') g'.
     thread_index l' < width cfg \<and> d = putd (thread_index l') \<and> thread_PWindow l' = global_PWindow g' \<and>
     pcnt d < global_PWindow g' \<and>
     (g' = g \<or>
      g' = g\<lparr>global_PWindow := global_PWindow g + depth cfg\<rparr> \<and> (\<forall>j < width cfg. pcnt (putd j) = global_PWindow g)))"

definition get_post_2Dd ::
  "ds2Dd \<Rightarrow> (nat \<Rightarrow> nat) \<Rightarrow> (nat \<Rightarrow> 'd) \<Rightarrow> ('d \<Rightarrow> u64) \<Rightarrow> 'z sh2Dd_scheme \<Rightarrow> 'd \<times> 'l tl2Dd_scheme \<Rightarrow> 'z sh2Dd_scheme \<Rightarrow> bool" where
  "get_post_2Dd cfg pc getd gcnt g = (\<lambda>(d, l') g'.
     thread_index l' < width cfg \<and> d = getd (thread_index l') \<and>
     (gcnt d < global_GWindow g' \<and> pc (thread_index l') \<noteq> gcnt d \<and>
       (g' = g \<or>
        g' = g\<lparr>global_GWindow := global_GWindow g + depth cfg\<rparr> \<and>
        (\<forall>j < width cfg. gcnt (getd j) = global_GWindow g \<or> pc j = gcnt (getd j)) \<and>
        (\<exists>j < width cfg. pc j \<noteq> gcnt (getd j))) \<or>
      g' = g \<and> (\<forall>j < width cfg. pc j = gcnt (getd j))))"

lemma win_inv2Dd_put:
  assumes "win_inv2Dd cfg P G pc gc" "P' = P \<or> P' = P + depth cfg \<and> (\<forall>j < width cfg. pc j = P)"
    and "i < width cfg" "pc i < P'"
  shows "win_inv2Dd cfg P' G (pc(i := pc i + 1)) gc"
  using assms by (auto simp: win_inv2Dd_def)

lemma win_inv2Dd_get:
  assumes inv: "win_inv2Dd cfg P G pc gc"
    and G': "G' = G \<or> G' = G + depth cfg \<and> (\<forall>j < width cfg. gc j = G \<or> pc j = gc j) \<and> (\<exists>j < width cfg. pc j \<noteq> gc j)"
    and i: "i < width cfg" "gc i < G'" "pc i \<noteq> gc i"
  shows "win_inv2Dd cfg P G' pc (gc(i := gc i + 1))"
proof -
  have dvd: "depth cfg dvd G'" using inv G' by (auto simp: win_inv2Dd_def)
  have le: "G' \<le> P"
  proof (cases "G' = G")
    case False
    then obtain j where j: "j < width cfg" "pc j \<noteq> gc j" "gc j = G" and G'': "G' = G + depth cfg" using G' by auto
    then have "G < P" using inv by (force simp: win_inv2Dd_def)
    moreover have "depth cfg dvd P - G" using inv by (simp add: win_inv2Dd_def dvd_diff_nat)
    ultimately have "depth cfg \<le> P - G" by (simp add: dvd_imp_le)
    then show ?thesis using G'' \<open>G < P\<close> by simp
  qed (use inv in \<open>simp add: win_inv2Dd_def\<close>)
  have b: "G' \<le> gc j + depth cfg \<and> gc j \<le> G'" if "j < width cfg" for j
    using inv G' that le by (fastforce simp: win_inv2Dd_def)
  have "G' \<le> gc i + 1 + depth cfg" using b [OF i(1)] by simp
  then show ?thesis using inv i dvd le b by (auto simp: win_inv2Dd_def)
qed

section \<open>Running alone\<close>

interpretation hop2Dd: hopping "\<lambda>l i r h w. hop_2Dd cfg l i r h" "random_hops cfg" "\<lambda>w _. ds2Dd_ok cfg \<and> w = width cfg" for cfg
proof (unfold_locales, goal_cases)
  case 1
  then show ?case by (auto simp: hop_2Dd_def random_index_2Dd_def ds2Dd_ok_def add64_eq intro!: wp_random_mod)
next
  case 2
  then show ?case by (auto simp: hop_2Dd_def ds2Dd_ok_def add64_eq W64_def Let_def next_index_def split: if_splits)
qed

text \<open>
  The contract of the data structure, for a thread that runs alone: what the three loads return,
  and that they do not depend on the windows.
\<close>

locale loads2Dd =
  fixes loadp loadg :: "u64 \<Rightarrow> ('z sh2Dd_scheme, 'd) prog" and loadpc :: "u64 \<Rightarrow> ('z sh2Dd_scheme, u64) prog"
    and pcnt gcnt :: "'d \<Rightarrow> u64" and putd getd :: "'z sh2Dd_scheme \<Rightarrow> nat \<Rightarrow> 'd" and alen :: "'z sh2Dd_scheme \<Rightarrow> nat"
  assumes wp_loadp: "i < alen g \<Longrightarrow> wp (loadp i) Q g = Q (putd g i) g"
    and wp_loadg: "i < alen g \<Longrightarrow> wp (loadg i) Q g = Q (getd g i) g"
    and wp_loadpc: "i < alen g \<Longrightarrow> wp (loadpc i) R g = R (pcnt (putd g i)) g"
    and putd_window: "putd (g\<lparr>global_PWindow := x\<rparr>) = putd g" "alen (g\<lparr>global_PWindow := x\<rparr>) = alen g"
    and getd_window: "getd (g\<lparr>global_GWindow := x\<rparr>) = getd g" "putd (g\<lparr>global_GWindow := x\<rparr>) = putd g"
      "alen (g\<lparr>global_GWindow := x\<rparr>) = alen g"
begin

abbreviation pc :: "'z sh2Dd_scheme \<Rightarrow> nat \<Rightarrow> nat" where
  "pc g i \<equiv> pcnt (putd g i)"

abbreviation gc :: "'z sh2Dd_scheme \<Rightarrow> nat \<Rightarrow> nat" where
  "gc g i \<equiv> gcnt (getd g i)"

definition quiet :: "ds2Dd \<Rightarrow> 'z sh2Dd_scheme \<Rightarrow> bool" where
  "quiet cfg g \<longleftrightarrow> ds2Dd_ok cfg \<and> alen g = width cfg \<and> room2Dd cfg g \<and>
     win_inv2Dd cfg (global_PWindow g) (global_GWindow g) (pc g) (gc g)"

lemma put_loop_hit_2Dd:
  assumes "thread_PWindow l = global_PWindow g" "thread_index l < alen g" "thread_index l < width cfg"
    and "pc g (thread_index l) < global_PWindow g"
  shows "wp (put_window_loop_2Dd (Suc n) cfg loadp pcnt l hops random) Q g = Q (putd g (thread_index l), l) g"
  using assms by (simp add: wp_loadp)

lemma put_loop_seq_2Dd:
  assumes q: "quiet cfg g"
    and "thread_PWindow l = global_PWindow g" "thread_index l < width cfg" "hops \<le> width cfg"
    and "random \<le> random_hops cfg" "random < random_hops cfg \<longrightarrow> hops = 0"
    and "seen (width cfg) (thread_index l) hops (\<lambda>j. global_PWindow g \<le> pc g j)"
    and "(random_hops cfg - random) + (width cfg - hops) + 2 \<le> n"
  shows "wp (put_window_loop_2Dd n cfg loadp pcnt l hops random) (put_post_2Dd cfg (putd g) pcnt g) g"
  using assms(2-)
proof (induction n arbitrary: l hops random)
  case 0
  then show ?case by simp
next
  case (Suc n)
  let ?i = "thread_index l" and ?P = "global_PWindow g"
  have dsok: "ds2Dd_ok cfg" and len: "alen g = width cfg" using q by (auto simp: quiet_def)
  show ?case
  proof (cases "pc g ?i < ?P")
    case True
    then show ?thesis using Suc.prems len by (subst put_loop_hit_2Dd) (auto simp: put_post_2Dd_def)
  next
    case miss: False
    show ?thesis
    proof (cases "hops = width cfg")
      case False
      then have hops: "hops < width cfg" using Suc.prems by simp
      have "wp (hop_2Dd cfg l ?i random hops)
        (\<lambda>(index, random, hops, l). wp (put_window_loop_2Dd n cfg loadp pcnt (l\<lparr>thread_index := index\<rparr>) hops random)
           (put_post_2Dd cfg (putd g) pcnt g)) g"
        by (rule hop2Dd.hop_search [OF _ Suc.prems(2) hops Suc.prems(4-6)]) (use Suc.prems miss dsok in \<open>auto intro!: Suc.IH\<close>)
      then show ?thesis using Suc.prems miss False len by (auto simp: wp_loadp case_prod_unfold)
    next
      case True
      have all: "\<forall>j < width cfg. ?P \<le> pc g j" using Suc.prems True by (intro seen_all) auto
      then have eq: "\<forall>j < width cfg. pc g j = ?P" using q by (auto simp: quiet_def win_inv2Dd_def intro: antisym)
      have new: "add64 ?P (depth cfg) = ?P + depth cfg" using q by (simp add: quiet_def room2Dd_def add64_eq)
      obtain n' where n': "n = Suc n'" using Suc.prems by (cases n) auto
      let ?g = "g\<lparr>global_PWindow := ?P + depth cfg\<rparr>"
      let ?l = "l\<lparr>my_slide_count := add64 (my_slide_count l) 1, thread_PWindow := ?P + depth cfg\<rparr>"
      have "wp (put_window_loop_2Dd n cfg loadp pcnt ?l 0 random) (put_post_2Dd cfg (putd g) pcnt g) ?g"
        unfolding n' using Suc.prems len eq dsok
        by (subst put_loop_hit_2Dd) (auto simp: put_post_2Dd_def putd_window ds2Dd_ok_def)
      then show ?thesis using Suc.prems miss True len by (simp add: wp_loadp new cae_PWindow_def)
    qed
  qed
qed

lemma put_window_seq_2Dd:
  assumes "quiet cfg g" "thread_index l < width cfg" "fuel2Dd cfg \<le> n"
  shows "wp (put_window_2Dd n cfg loadp pcnt l contention) (put_post_2Dd cfg (putd g) pcnt g) g"
proof -
  have ok: "ds2Dd_ok cfg" using assms(1) by (simp add: quiet_def)
  then have w: "width cfg mod 4294967296 = width cfg" "0 < width cfg" by (simp_all add: ds2Dd_ok_def)
  have loop: "wp (put_window_loop_2Dd n cfg loadp pcnt l' 0 0) (put_post_2Dd cfg (putd g) pcnt g) g"
    if "thread_PWindow l' = global_PWindow g" "thread_index l' < width cfg" for l' :: "'b tl2Dd_scheme"
    using assms that by (intro put_loop_seq_2Dd) (auto simp: fuel2Dd_def)
  show ?thesis
    using assms(2) by (auto simp: put_window_2Dd_def random_index_2Dd_def w intro!: wp_random_mod loop)
qed

text \<open>
  The walk of \<^verbatim>\<open>get_window\<close> over the sub-structures: it stops at one that the window allows and that is
  not empty, or it comes to the end knowing that there is none and whether all are empty.
\<close>

definition ready :: "'z sh2Dd_scheme \<Rightarrow> nat \<Rightarrow> bool" where
  "ready g i \<longleftrightarrow> gc g i < global_GWindow g \<and> pc g i \<noteq> gc g i"

lemma get_walk:
  assumes dsok: "ds2Dd_ok cfg" and len: "alen g = width cfg"
    and hit: "\<And>l'. thread_index l' < width cfg \<Longrightarrow> ready g (thread_index l') \<Longrightarrow> Q (getd g (thread_index l'), l') g"
    and stop: "\<And>l' m ne'. thread_GWindow l' = global_GWindow g \<Longrightarrow> thread_index l' < width cfg \<Longrightarrow>
        \<forall>j < width cfg. \<not> ready g j \<Longrightarrow> (ne' \<longleftrightarrow> (\<exists>j < width cfg. pc g j \<noteq> gc g j)) \<Longrightarrow> extra \<le> m \<Longrightarrow>
        wp (get_window_loop_2Dd (Suc m) cfg loadg loadpc gcnt l' (width cfg) (random_hops cfg) ne') Q g"
    and "thread_GWindow l = global_GWindow g" "thread_index l < width cfg" "hops \<le> width cfg"
    and "random \<le> random_hops cfg" "random < random_hops cfg \<longrightarrow> hops = 0"
    and "seen (width cfg) (thread_index l) hops (\<lambda>j. \<not> ready g j \<and> (\<not> ne \<longrightarrow> pc g j = gc g j))"
    and "ne \<Longrightarrow> \<exists>j < width cfg. pc g j \<noteq> gc g j"
    and "(random_hops cfg - random) + (width cfg - hops) + 1 + extra \<le> n"
  shows "wp (get_window_loop_2Dd n cfg loadg loadpc gcnt l hops random ne) Q g"
  using assms(5-)
proof (induction n arbitrary: l hops random ne)
  case 0
  then show ?case by simp
next
  case (Suc n)
  let ?i = "thread_index l"
  show ?case
  proof (cases "ready g ?i")
    case True
    then show ?thesis using Suc.prems len hit [of l] by (auto simp: wp_loadg wp_loadpc ready_def)
  next
    case miss: False
    show ?thesis
    proof (cases "hops = width cfg")
      case False
      then have hops: "hops < width cfg" using Suc.prems by simp
      define e where "e \<longleftrightarrow> ne \<or> pc g ?i \<noteq> gc g ?i"
      have e: "e \<Longrightarrow> \<exists>j < width cfg. pc g j \<noteq> gc g j" using Suc.prems by (auto simp: e_def)
      have sn: "seen (width cfg) ?i hops (\<lambda>j. \<not> ready g j \<and> (\<not> e \<longrightarrow> pc g j = gc g j))"
        using Suc.prems(6) by (rule seen_mono) (auto simp: e_def)
      have "wp (hop_2Dd cfg l ?i random hops)
        (\<lambda>(index, random, hops, l). wp (get_window_loop_2Dd n cfg loadg loadpc gcnt (l\<lparr>thread_index := index\<rparr>) hops random e) Q) g"
        by (rule hop2Dd.hop_search [OF _ Suc.prems(2) hops Suc.prems(4,5) sn]) (use Suc.prems miss dsok e in \<open>auto simp: e_def intro!: Suc.IH\<close>)
      then show ?thesis using Suc.prems miss False len
        by (auto simp: wp_loadg wp_loadpc ready_def case_prod_unfold e_def)
    next
      case True
      have all: "\<forall>j < width cfg. \<not> ready g j \<and> (\<not> ne \<longrightarrow> pc g j = gc g j)"
        using Suc.prems True by (intro seen_all) auto
      have "random = random_hops cfg" using Suc.prems(4,5) True dsok by (auto simp: ds2Dd_ok_def)
      moreover have "ne \<longleftrightarrow> (\<exists>j < width cfg. pc g j \<noteq> gc g j)" using all Suc.prems(7) by blast
      ultimately show ?thesis using stop [OF Suc.prems(1,2)] all Suc.prems(8) True
        by (simp del: get_window_loop_2Dd.simps)
    qed
  qed
qed

lemma get_loop_seq_2Dd:
  assumes q: "quiet cfg g" and "thread_GWindow l = global_GWindow g" "thread_index l < width cfg" "fuel2Dd cfg \<le> n"
  shows "wp (get_window_loop_2Dd n cfg loadg loadpc gcnt l 0 0 False) (get_post_2Dd cfg (pc g) (getd g) gcnt g) g"
proof (rule get_walk [where extra = "width cfg + 1"])
  show dsok: "ds2Dd_ok cfg" and len: "alen g = width cfg" using q by (auto simp: quiet_def)
  fix l' m ne'
  assume l': "thread_GWindow l' = global_GWindow g" "thread_index l' < width cfg" "\<forall>j < width cfg. \<not> ready g j"
    and ne: "ne' \<longleftrightarrow> (\<exists>j < width cfg. pc g j \<noteq> gc g j)" and m: "width cfg + 1 \<le> m"
  have miss: "\<not> (gc g (thread_index l') < global_GWindow g \<and> pc g (thread_index l') \<noteq> gc g (thread_index l'))"
    using l' by (simp add: ready_def)
  show "wp (get_window_loop_2Dd (Suc m) cfg loadg loadpc gcnt l' (width cfg) (random_hops cfg) ne') (get_post_2Dd cfg (pc g) (getd g) gcnt g) g"
  proof (cases ne')
    case False
    then have "\<forall>j < width cfg. pc g j = gc g j" using ne by blast
    then show ?thesis using l' miss len False by (simp add: wp_loadg wp_loadpc get_post_2Dd_def)
  next
    case True
    let ?G = "global_GWindow g + depth cfg"
    let ?g = "g\<lparr>global_GWindow := ?G\<rparr>" and ?l = "l'\<lparr>my_slide_count := add64 (my_slide_count l') 1, thread_GWindow := ?G\<rparr>"
    have new: "add64 (global_GWindow g) (depth cfg) = ?G" using q by (simp add: quiet_def room2Dd_def add64_eq)
    have le: "gc g j \<le> global_GWindow g" if "j < width cfg" for j using q that by (simp add: quiet_def win_inv2Dd_def)
    have stuck: "\<forall>j < width cfg. gc g j = global_GWindow g \<or> pc g j = gc g j"
      using l'(3) le by (force simp: ready_def)
    obtain j where j: "j < width cfg" "pc g j \<noteq> gc g j" using True ne by blast
    then have rj: "ready ?g j" using le [OF j(1)] dsok by (simp add: ready_def getd_window ds2Dd_ok_def)
    have "wp (get_window_loop_2Dd m cfg loadg loadpc gcnt ?l 0 (random_hops cfg) False) (get_post_2Dd cfg (pc g) (getd g) gcnt g) ?g"
    proof (rule get_walk [OF dsok, where extra = 0])
      show "alen ?g = width cfg" using len by (simp add: getd_window)
      show "get_post_2Dd cfg (pc g) (getd g) gcnt g (getd ?g (thread_index k), k) ?g"
        if "thread_index k < width cfg" "ready ?g (thread_index k)" for k :: "'b tl2Dd_scheme"
        using that j stuck by (auto simp: getd_window ready_def get_post_2Dd_def)
      show "wp (get_window_loop_2Dd (Suc k) cfg loadg loadpc gcnt l'' (width cfg) (random_hops cfg) e) (get_post_2Dd cfg (pc g) (getd g) gcnt g) ?g"
        if "\<forall>j < width cfg. \<not> ready ?g j" for k e and l'' :: "'b tl2Dd_scheme"
        using that rj j(1) by blast
    qed (use l' m in simp_all)
    then show ?thesis using l' miss len True by (auto simp: wp_loadg wp_loadpc new cae_GWindow_def)
  qed
qed (use assms in \<open>auto simp: fuel2Dd_def get_post_2Dd_def ready_def\<close>)

lemma get_window_seq_2Dd:
  assumes "quiet cfg g" "thread_index l < width cfg" "fuel2Dd cfg \<le> n"
  shows "wp (get_window_2Dd n cfg loadg loadpc gcnt l contention) (get_post_2Dd cfg (pc g) (getd g) gcnt g) g"
proof -
  have ok: "ds2Dd_ok cfg" using assms(1) by (simp add: quiet_def)
  then have w: "width cfg mod 4294967296 = width cfg" "0 < width cfg" by (simp_all add: ds2Dd_ok_def)
  show ?thesis
    using assms by (auto simp: get_window_2Dd_def Let_def random_index_2Dd_def w intro!: wp_random_mod get_loop_seq_2Dd)
qed

end

section \<open>Under interference\<close>

text \<open>
  The contract between the window code and a concurrent data structure: \<open>J\<close> is what the calling
  thread knows of the shared state, \<open>L i d\<close> what it knows after loading the put descriptor \<open>d\<close> at index
  \<open>i\<close>, \<open>M i d\<close> the same for the get descriptor, and \<open>pcs g i\<close> is the number of puts made on
  sub-structure \<open>i\<close>. Knowledge survives the other threads' steps and the thread's
  own window shifts; puts and the put window only grow. The window code promises in turn that it shifts the put window only when every
  sub-structure is full: although the sub-structures are looked at one after the other, the counts
  seen are lower bounds for ever.
\<close>

locale window2Dd_env =
  fixes astep :: "'z sh2Dd_scheme protocol" and A :: "'z sh2Dd_scheme \<Rightarrow> bool" and t :: nat
    and cfg :: ds2Dd and loadp loadg :: "u64 \<Rightarrow> ('z sh2Dd_scheme, 'd) prog" and loadpc :: "u64 \<Rightarrow> ('z sh2Dd_scheme, u64) prog"
    and pcnt gcnt :: "'d \<Rightarrow> u64" and J :: "'z sh2Dd_scheme \<Rightarrow> bool" and L M :: "u64 \<Rightarrow> 'd \<Rightarrow> 'z sh2Dd_scheme \<Rightarrow> bool"
    and pcs :: "'z sh2Dd_scheme \<Rightarrow> nat \<Rightarrow> nat"
  assumes cfg_ok: "J g \<Longrightarrow> ds2Dd_ok cfg"
    and J_env: "J g \<Longrightarrow> env1 astep A t g g' \<Longrightarrow> J g'"
    and L_env: "J g \<Longrightarrow> L i d g \<Longrightarrow> env1 astep A t g g' \<Longrightarrow> L i d g'"
    and M_env: "J g \<Longrightarrow> M i d g \<Longrightarrow> env1 astep A t g g' \<Longrightarrow> M i d g'"
    and P_env: "J g \<Longrightarrow> env1 astep A t g g' \<Longrightarrow> global_PWindow g \<le> global_PWindow g'"
    and pcs_env: "J g \<Longrightarrow> env1 astep A t g g' \<Longrightarrow> pcs g i \<le> pcs g' i"
    and L_pcs: "J g \<Longrightarrow> i < width cfg \<Longrightarrow> L i d g \<Longrightarrow> pcnt d \<le> pcs g i"
    and pcs_window: "pcs (g\<lparr>global_PWindow := w\<rparr>) = pcs g"
    and loadp_ok: "J g \<Longrightarrow> i < width cfg \<Longrightarrow> ok astep A t (loadp i) (\<lambda>d h. J h \<and> L i d h \<and> (\<forall>j. pcs g j \<le> pcs h j)) g"
    and loadg_ok: "J g \<Longrightarrow> i < width cfg \<Longrightarrow> ok astep A t (loadg i) (\<lambda>d h. J h \<and> M i d h) g"
    and loadpc_ok: "J g \<Longrightarrow> i < width cfg \<Longrightarrow> M i d g \<Longrightarrow> ok astep A t (loadpc i) (\<lambda>c h. J h \<and> M i d h) g"
    and upP_ok: "J g \<Longrightarrow> w = add64 (global_PWindow g) (depth cfg) \<Longrightarrow> A (g\<lparr>global_PWindow := w\<rparr>) \<Longrightarrow>
        \<forall>i < width cfg. global_PWindow g \<le> pcs g i \<Longrightarrow>
        astep t g (g\<lparr>global_PWindow := w\<rparr>) \<and> J (g\<lparr>global_PWindow := w\<rparr>)"
    and upG_ok: "J g \<Longrightarrow> w = add64 (global_GWindow g) (depth cfg) \<Longrightarrow> A (g\<lparr>global_GWindow := w\<rparr>) \<Longrightarrow>
        astep t g (g\<lparr>global_GWindow := w\<rparr>) \<and> J (g\<lparr>global_GWindow := w\<rparr>)"
begin

lemma width_ok: "J g \<Longrightarrow> 0 < width cfg" "J g \<Longrightarrow> width cfg < 4294967296"
  using cfg_ok by (auto simp: ds2Dd_ok_def)

lemma J_envs: "env astep A t g g' \<Longrightarrow> J g \<Longrightarrow> J g'"
  by (induction rule: rtranclp_induct) (auto intro: J_env)

lemma L_envs: "env astep A t g g' \<Longrightarrow> J g \<Longrightarrow> L i d g \<Longrightarrow> L i d g'"
proof (induction rule: rtranclp_induct)
  case (step y z)
  then show ?case using J_envs [OF step.hyps(1)] by (blast intro: L_env)
qed

lemma M_envs: "env astep A t g g' \<Longrightarrow> J g \<Longrightarrow> M i d g \<Longrightarrow> M i d g'"
proof (induction rule: rtranclp_induct)
  case (step y z)
  then show ?case using J_envs [OF step.hyps(1)] by (blast intro: M_env)
qed

lemma up_envs: "env astep A t g g' \<Longrightarrow> J g \<Longrightarrow> global_PWindow g \<le> global_PWindow g' \<and> pcs g i \<le> pcs g' i"
proof (induction rule: rtranclp_induct)
  case (step y z)
  then have "J y" using J_envs [OF step.hyps(1)] by blast
  then have "global_PWindow y \<le> global_PWindow z" "pcs y i \<le> pcs z i" using P_env pcs_env step.hyps(2) by blast+
  then show ?case using step by (meson order_trans)
qed simp

text \<open>Having walked past \<open>n\<close> full sub-structures is knowledge that lasts.\<close>

lemma seen_envs:
  assumes "env astep A t g h" "J g" "seen w i n (\<lambda>j. b \<le> pcs g j)"
  shows "seen w i n (\<lambda>j. b \<le> pcs h j)"
  using assms(3) by (rule seen_mono) (use up_envs [OF assms(1,2)] in \<open>blast intro: order_trans\<close>)

lemma ok_hop:
  assumes "J g" "index < width cfg"
    and "\<And>i r h s c. i < width cfg \<Longrightarrow> ok astep A t (k (i, r, h, l\<lparr>my_hop_count := c, seeds := s\<rparr>)) Q g"
  shows "ok astep A t (pbind (hop_2Dd cfg l index random hops) k) Q g"
proof -
  have w: "width cfg mod 4294967296 = width cfg" "0 < width cfg" using width_ok [OF assms(1)] by simp_all
  have "ok astep A t (k (i, r, h, l\<lparr>my_hop_count := c\<rparr>)) Q g" if "i < width cfg" for i r h c
    using assms(3) [OF that, of r h "seeds l" c] by simp
  moreover have "(if add64 index 1 \<ge> width cfg then 0 else add64 index 1) < width cfg"
    using w by simp
  ultimately show ?thesis
    using assms w
    by (auto simp: hop_2Dd_def Let_def random_index_2Dd_def w pbind_assoc case_prod_unfold intro!: ok_random_mod)
qed

text \<open>The same for a walk that counts its hops: only a hop to the next index counts.\<close>

lemma ok_hop_walk:
  assumes "J g" "index < width cfg" "hops < width cfg" "random \<le> random_hops cfg"
    and rnd: "\<And>i s c. random < random_hops cfg \<Longrightarrow> i < width cfg \<Longrightarrow>
      ok astep A t (k (i, random + 1, hops, l\<lparr>my_hop_count := c, seeds := s\<rparr>)) Q g"
    and nxt: "\<And>c. random = random_hops cfg \<Longrightarrow>
      ok astep A t (k (next_index (width cfg) index, random, hops + 1, l\<lparr>my_hop_count := c\<rparr>)) Q g"
  shows "ok astep A t (pbind (hop_2Dd cfg l index random hops) k) Q g"
proof (cases "random < random_hops cfg")
  case True
  have w: "width cfg mod 4294967296 = width cfg" "0 < width cfg" "add64 random 1 = random + 1"
    using cfg_ok [OF assms(1)] True by (simp_all add: ds2Dd_ok_def add64_eq)
  then show ?thesis using True
    by (auto simp: hop_2Dd_def Let_def random_index_2Dd_def w pbind_assoc case_prod_unfold intro!: ok_random_mod rnd)
next
  case False
  then have r: "random = random_hops cfg" using assms(4) by simp
  have "add64 index 1 = index + 1" "add64 hops 1 = hops + 1"
    using assms(2,3) width_ok [OF assms(1)] by (simp_all add: add64_eq W64_def)
  then show ?thesis using r nxt [OF r] by (simp add: hop_2Dd_def Let_def next_index_def split: if_splits)
qed

lemma ok_random_index:
  assumes "J g" "\<And>i s. i < width cfg \<Longrightarrow> ok astep A t (k (i, l\<lparr>seeds := s\<rparr>)) Q g"
  shows "ok astep A t (pbind (random_index_2Dd (width cfg) l) k) Q g"
proof -
  have w: "width cfg mod 4294967296 = width cfg" "0 < width cfg" using width_ok [OF assms(1)] by simp_all
  show ?thesis unfolding random_index_2Dd_def w by (rule ok_random_mod) (use w assms in blast)+
qed

lemma ok_read:
  assumes "J g" "\<And>h. J h \<Longrightarrow> ok astep A t (k (f h)) Q h"
  shows "ok astep A t (pbind (rd f) k) Q g"
  using assms by (intro ok_rd) (auto intro: J_envs)

lemma ok_read_M:
  assumes "J g" "M i d g" "\<And>h. J h \<Longrightarrow> M i d h \<Longrightarrow> ok astep A t (k (f h)) Q h"
  shows "ok astep A t (pbind (rd f) k) Q g"
  using assms by (intro ok_rd) (auto intro: J_envs M_envs)

lemma ok_shift_P:
  assumes "J g" "\<forall>j < width cfg. w \<le> pcs g j" "\<And>h r. J h \<Longrightarrow> ok astep A t (k r) Q h"
  shows "ok astep A t (pbind (cae_PWindow w (add64 w (depth cfg))) k) Q g"
  unfolding cae_PWindow_def
proof (rule ok_cae, goal_cases)
  case (1 h)
  have "J h" "\<forall>j < width cfg. global_PWindow h \<le> pcs h j"
    using J_envs [OF 1(1) assms(1)] up_envs [OF 1(1) assms(1)] assms(2) 1(2) order_trans by blast+
  from upP_ok [OF this(1) refl _ this(2)] show ?case using 1(2,3) assms(3) by blast
next
  case (2 h)
  then show ?case using assms(1,3) J_envs by blast
qed

lemma ok_shift_G:
  assumes "J g" "\<And>h r. J h \<Longrightarrow> ok astep A t (k r) Q h"
  shows "ok astep A t (pbind (cae_GWindow w (add64 w (depth cfg))) k) Q g"
  unfolding cae_GWindow_def by (rule ok_cae) (use assms J_envs upG_ok in \<open>blast+\<close>)

definition handed_put :: "'d \<times> 'l tl2Dd_scheme \<Rightarrow> 'z sh2Dd_scheme \<Rightarrow> bool" where
  "handed_put = (\<lambda>(d, l) g. J g \<and> thread_index l < width cfg \<and> L (thread_index l) d g \<and>
     pcnt d < thread_PWindow l \<and> thread_PWindow l \<le> global_PWindow g)"

definition handed_get :: "'d \<times> 'l tl2Dd_scheme \<Rightarrow> 'z sh2Dd_scheme \<Rightarrow> bool" where
  "handed_get = (\<lambda>(d, l) g. J g \<and> thread_index l < width cfg \<and> M (thread_index l) d g)"

lemma handed_put_env:
  assumes "env astep A t g g'" "handed_put r g"
  shows "handed_put r g'"
proof -
  have "J g" using assms(2) by (auto simp: handed_put_def)
  then show ?thesis using assms J_envs L_envs up_envs [OF assms(1)] by (fastforce simp: handed_put_def intro: order_trans)
qed

lemma handed_get_env: "env astep A t g g' \<Longrightarrow> handed_get r g \<Longrightarrow> handed_get r g'"
  by (auto simp: handed_get_def intro: J_envs M_envs)

lemma ok_handed_put: "handed_put (d, l) g \<Longrightarrow> ok astep A t (Ret (d, l)) handed_put g"
  using handed_put_env [of g _ "(d, l)"] by simp

lemma ok_handed_get:
  "J g \<Longrightarrow> thread_index l < width cfg \<Longrightarrow> M (thread_index l) d g \<Longrightarrow> ok astep A t (Ret (d, l)) handed_get g"
  using handed_get_env [of g _ "(d, l)"] by (auto simp: handed_get_def)

lemmas window_rules = ok_handed_get ok_hop ok_shift_G ok_read

lemma put_loop_ok:
  assumes "J g" "thread_index l < width cfg" "hops \<le> width cfg" "random \<le> random_hops cfg"
    and "random < random_hops cfg \<longrightarrow> hops = 0"
    and "seen (width cfg) (thread_index l) hops (\<lambda>j. thread_PWindow l \<le> pcs g j)"
  shows "ok astep A t (put_window_loop_2Dd n cfg loadp pcnt l hops random) handed_put g"
  using assms
proof (induction n arbitrary: l hops random g)
  case 0
  then show ?case by simp
next
  case (Suc n)
  let ?i = "thread_index l"
  show ?case
    unfolding put_window_loop_2Dd.simps
  proof (rule ok_assert [OF Suc.prems(2)], rule ok_bind_mono [OF loadp_ok [OF Suc.prems(1,2)]], elim conjE, rule ok_rd, goal_cases)
    case (1 d h h')
    note J' = J_envs [OF 1(4) 1(1)]
    have L': "L ?i d h'" by (rule L_envs [OF 1(4,1,2)])
    have "seen (width cfg) ?i hops (\<lambda>j. thread_PWindow l \<le> pcs h j)"
      using Suc.prems(6) by (rule seen_mono) (use 1(3) in \<open>blast intro: order_trans\<close>)
    then have sn: "seen (width cfg) ?i hops (\<lambda>j. thread_PWindow l \<le> pcs h' j)" by (rule seen_envs [OF 1(4,1)])
    have le: "pcnt d \<le> pcs h' ?i" by (rule L_pcs [OF J' Suc.prems(2) L'])
    have sync: "ok astep A t (put_window_loop_2Dd n cfg loadp pcnt (l'\<lparr>thread_PWindow := w\<rparr>) 0 random) handed_put k"
      if "J k" "thread_index l' = ?i" for w k and l' :: "'a tl2Dd_scheme"
      using that Suc.prems by (intro Suc.IH) auto
    have hit: "ok astep A t (Ret (d, l)) handed_put h'" if "pcnt d < global_PWindow h'" "global_PWindow h' = thread_PWindow l"
      using J' L' that Suc.prems(2) by (intro ok_handed_put) (simp add: handed_put_def)
    have walk: "ok astep A t (pbind (hop_2Dd cfg l ?i random hops) (\<lambda>(index, random, hops, l).
         put_window_loop_2Dd n cfg loadp pcnt (l\<lparr>thread_index := index\<rparr>) hops random)) handed_put h'"
      if "hops \<noteq> width cfg" "thread_PWindow l \<le> pcnt d"
    proof (rule ok_hop_walk [OF J' Suc.prems(2) _ Suc.prems(4)], use that Suc.prems(3) in simp, goal_cases)
      case (1 i s c)
      then show ?case using J' Suc.prems by (simp del: ok.simps) (intro Suc.IH, auto)
    next
      case (2 c)
      have "seen (width cfg) (next_index (width cfg) ?i) (hops + 1) (\<lambda>j. thread_PWindow l \<le> pcs h' j)"
        using sn that le Suc.prems by (intro seen_next) auto
      then show ?case using 2 J' Suc.prems that width_ok [OF J'] by (simp del: ok.simps) (intro Suc.IH, auto simp: next_index_less)
    qed
    have slide: "ok astep A t (pbind (rd global_PWindow) (\<lambda>gp.
       pbind (if thread_PWindow l = gp then
                pbind (cae_PWindow (thread_PWindow l) (add64 (thread_PWindow l) (depth cfg))) (\<lambda>(success, found).
                Ret (if success then l\<lparr>my_slide_count := add64 (my_slide_count l) 1\<rparr> else l\<lparr>thread_PWindow := found\<rparr>))
              else Ret l) (\<lambda>l.
       pbind (rd global_PWindow) (\<lambda>w.
       put_window_loop_2Dd n cfg loadp pcnt (l\<lparr>thread_PWindow := w\<rparr>) 0 random)))) handed_put h'"
      if "hops = width cfg"
    proof (rule ok_rd, goal_cases)
      case (1 k)
      have "\<forall>j < width cfg. thread_PWindow l \<le> pcs k j"
        using seen_envs [OF 1 J' sn] that Suc.prems(2) by (intro seen_all) auto
      then show ?case using J_envs [OF 1 J'] sync
        by (auto simp: pbind_assoc simp del: ok.simps intro!: ok_shift_P ok_read)
    qed
    show ?case using sync [OF J', of l] hit walk slide by (simp del: ok.simps)
  qed
qed

lemma get_loop_ok:
  "J g \<Longrightarrow> thread_index l < width cfg \<Longrightarrow>
   ok astep A t (get_window_loop_2Dd n cfg loadg loadpc gcnt l hops random ne) handed_get g"
proof (induction n arbitrary: l hops random ne g)
  case 0
  then show ?case by simp
next
  case (Suc n)
  show ?case
    unfolding get_window_loop_2Dd.simps
    by (rule ok_bind_mono [OF loadg_ok [OF Suc.prems]], elim conjE,
        rule ok_bind_mono [OF loadpc_ok [OF _ Suc.prems(2)]], assumption, assumption, elim conjE, rule ok_read_M)
      (auto simp: Suc.prems Let_def pbind_assoc simp del: ok.simps intro!: window_rules Suc.IH)
qed

lemma put_window_ok:
  "J g \<Longrightarrow> thread_index l < width cfg \<Longrightarrow> ok astep A t (put_window_2Dd n cfg loadp pcnt l contention) handed_put g"
  unfolding put_window_2Dd_def
  by (auto simp: pbind_assoc simp del: ok.simps intro!: ok_random_index ok_read put_loop_ok)

lemma get_window_ok:
  "J g \<Longrightarrow> thread_index l < width cfg \<Longrightarrow>
   ok astep A t (get_window_2Dd n cfg loadg loadpc gcnt l contention) handed_get g"
  unfolding get_window_2Dd_def Let_def
  by (rule ok_read, assumption) (auto simp: pbind_assoc simp del: ok.simps intro!: ok_random_index ok_read get_loop_ok)

end

end
