(* ===== verification/Counter2Dd.thy ===== *)
theory Counter2Dd
  imports Window2Dd Params Relaxed_Counter
begin

text \<open>
  The 2Dd counter of \<^verbatim>\<open>src/2Dd-counter/2Dd-counter.c\<close>: an array of sub-counters, each the
  difference of its increments and its decrements, under the decoupled windows of \<open>Window2Dd\<close>.
  \<^verbatim>\<open>get_array\<close> and \<^verbatim>\<open>put_array\<close> are the same array. A descriptor is two words and is loaded one word
  at a time. \<^verbatim>\<open>create_counter\<close> does not initialise the windows: they are zeroed globals.
  \<open>incs\<close> and \<open>decs\<close> are no part of the C state (see \<open>Counter2Dc\<close>).
\<close>

section \<open>State\<close>

record cdescriptor2Dd =
  cd_get_count :: u64
  cd_put_count :: u64

record counter2Dd = sh2Dd +
  cnt_array :: "cdescriptor2Dd list"
  incs :: "nat list"
  decs :: "nat list"

section \<open>Operations\<close>

definition load_counter_2Dd :: "u64 \<Rightarrow> (counter2Dd, cdescriptor2Dd) prog" where
  "load_counter_2Dd i =
     pbind (rd_opt (\<lambda>g. map_option cd_get_count (at (cnt_array g) i))) (\<lambda>gc.
     pbind (rd_opt (\<lambda>g. map_option cd_put_count (at (cnt_array g) i))) (\<lambda>pc.
     Ret \<lparr>cd_get_count = gc, cd_put_count = pc\<rparr>))"

definition load_put_count_2Dd :: "u64 \<Rightarrow> (counter2Dd, u64) prog" where
  "load_put_count_2Dd i = rd_opt (\<lambda>g. map_option cd_put_count (at (cnt_array g) i))"

definition counter_cae_2Dd ::
  "u64 \<Rightarrow> cdescriptor2Dd \<Rightarrow> cdescriptor2Dd \<Rightarrow> (counter2Dd \<Rightarrow> counter2Dd) \<Rightarrow> (counter2Dd, bool) prog" where
  "counter_cae_2Dd i descriptor new_descriptor ghost =
     Act (\<lambda>g. if at (cnt_array g) i = Some descriptor
              then ghost (g\<lparr>cnt_array := (cnt_array g)[i := new_descriptor]\<rparr>) else g)
         (\<lambda>g. Ret (at (cnt_array g) i = Some descriptor))"

fun increment_loop_2Dd ::
  "nat \<Rightarrow> nat \<Rightarrow> bool \<Rightarrow> ds2Dd \<Rightarrow> nat \<Rightarrow> tl2Dd \<Rightarrow> bool \<Rightarrow> (counter2Dd, u64 \<times> tl2Dd) prog" where
  "increment_loop_2Dd 0 fuel vs cfg t l contention = NoFuel"
| "increment_loop_2Dd (Suc n) fuel vs cfg t l contention =
     pbind (put_window_2Dd fuel cfg load_counter_2Dd cd_put_count l contention) (\<lambda>(descriptor, l).
     let new_descriptor = \<lparr>cd_get_count = cd_get_count descriptor, cd_put_count = add64 (cd_put_count descriptor) 1\<rparr>
     in pbind (counter_cae_2Dd (thread_index l) descriptor new_descriptor (\<lambda>g. g\<lparr>incs := t # incs g\<rparr>)) (\<lambda>success.
        if success
        then Ret (counter_value vs (sub64 (cd_put_count new_descriptor) (cd_get_count new_descriptor)) (width cfg), l)
        else increment_loop_2Dd n fuel vs cfg t
               (l\<lparr>my_put_cas_fail_count := add64 (my_put_cas_fail_count l) 1\<rparr>) True))"

definition increment_2Dd :: "nat \<Rightarrow> bool \<Rightarrow> ds2Dd \<Rightarrow> nat \<Rightarrow> tl2Dd \<Rightarrow> (counter2Dd, u64 \<times> tl2Dd) prog" where
  "increment_2Dd fuel vs cfg t l = increment_loop_2Dd fuel fuel vs cfg t l False"

fun decrement_loop_2Dd ::
  "nat \<Rightarrow> nat \<Rightarrow> bool \<Rightarrow> ds2Dd \<Rightarrow> nat \<Rightarrow> tl2Dd \<Rightarrow> bool \<Rightarrow> (counter2Dd, u64 \<times> tl2Dd) prog" where
  "decrement_loop_2Dd 0 fuel vs cfg t l contention = NoFuel"
| "decrement_loop_2Dd (Suc n) fuel vs cfg t l contention =
     pbind (get_window_2Dd fuel cfg load_counter_2Dd load_put_count_2Dd cd_get_count l contention) (\<lambda>(descriptor, l).
     if sub64 (cd_put_count descriptor) (cd_get_count descriptor) > 0 then
       let new_descriptor = \<lparr>cd_get_count = add64 (cd_get_count descriptor) 1, cd_put_count = cd_put_count descriptor\<rparr>
       in pbind (counter_cae_2Dd (thread_index l) descriptor new_descriptor (\<lambda>g. g\<lparr>decs := t # decs g\<rparr>)) (\<lambda>success.
          if success
          then Ret (counter_value vs (sub64 (cd_put_count new_descriptor) (cd_get_count new_descriptor)) (width cfg), l)
          else decrement_loop_2Dd n fuel vs cfg t
                 (l\<lparr>my_get_cas_fail_count := add64 (my_get_cas_fail_count l) 1\<rparr>) True)
     else Ret (0, l\<lparr>my_null_count := add64 (my_null_count l) 1\<rparr>))"

definition decrement_2Dd :: "nat \<Rightarrow> bool \<Rightarrow> ds2Dd \<Rightarrow> nat \<Rightarrow> tl2Dd \<Rightarrow> (counter2Dd, u64 \<times> tl2Dd) prog" where
  "decrement_2Dd fuel vs cfg t l = decrement_loop_2Dd fuel fuel vs cfg t l False"

fun counter_size_loop_2Dd :: "u64 list \<Rightarrow> u64 \<Rightarrow> (counter2Dd, u64) prog" where
  "counter_size_loop_2Dd [] sz = Ret sz"
| "counter_size_loop_2Dd (i # is) sz =
     pbind (load_counter_2Dd i) (\<lambda>descriptor.
     counter_size_loop_2Dd is (add64 sz (sub64 (cd_put_count descriptor) (cd_get_count descriptor))))"

definition counter_size_2Dd :: "ds2Dd \<Rightarrow> (counter2Dd, u64) prog" where
  "counter_size_2Dd cfg = counter_size_loop_2Dd [0 ..< width cfg] 0"

definition create_counter_2Dd ::
  "u64 \<Rightarrow> u64 \<Rightarrow> u64 \<Rightarrow> nat \<Rightarrow> u64 \<Rightarrow> (ds2Dd \<times> counter2Dd) option" where
  "create_counter_2Dd num_threads w d mode bound =
     (case calc_params 2 keep64 keep64 (bound64 2) mode num_threads w d bound of
        None \<Rightarrow> None
      | Some (w, d, bound) \<Rightarrow> Some
          (\<lparr>random_hops = 2, width = w, depth = d, relaxation_bound = bound, k_mode = mode\<rparr>,
           \<lparr>global_PWindow = 0, global_GWindow = 0,
            cnt_array = replicate w \<lparr>cd_get_count = 0, cd_put_count = 0\<rparr>, incs = [], decs = []\<rparr>))"

lemmas counter2Dd_unfold [prog_unfold] =
  load_counter_2Dd_def load_put_count_2Dd_def counter_cae_2Dd_def increment_2Dd_def decrement_2Dd_def counter_size_2Dd_def
  increment_loop_2Dd.simps(2) [of "pred_numeral k" for k, folded numeral_eq_Suc]
  decrement_loop_2Dd.simps(2) [of "pred_numeral k" for k, folded numeral_eq_Suc]

section \<open>Abstraction\<close>

definition cval :: "cdescriptor2Dd \<Rightarrow> nat" where
  "cval d = cd_put_count d - cd_get_count d"

definition total_2Dd :: "counter2Dd \<Rightarrow> nat" where
  "total_2Dd g = sum_list (map cval (cnt_array g))"

lemma total_update_2Dd:
  assumes "i < length (cnt_array g)" "cnt_array g' = (cnt_array g)[i := d]"
  shows "total_2Dd g' + cval (cnt_array g ! i) = total_2Dd g + cval d"
  using sum_list_update_nat [of i "map cval (cnt_array g)" "cval d"] assms
  by (simp add: total_2Dd_def map_update)

section \<open>Running alone\<close>

lemma cdescriptor2Dd_eta [simp]: "\<lparr>cd_get_count = cd_get_count d, cd_put_count = cd_put_count d\<rparr> = d"
  by simp

interpretation cntd: loads2Dd load_counter_2Dd load_counter_2Dd load_put_count_2Dd cd_put_count cd_get_count
  "\<lambda>g. (!) (cnt_array g)" "\<lambda>g. (!) (cnt_array g)" "\<lambda>g. length (cnt_array g)"
  by unfold_locales (simp_all add: load_counter_2Dd_def load_put_count_2Dd_def)

abbreviation quiet_counter_2Dd :: "ds2Dd \<Rightarrow> counter2Dd \<Rightarrow> bool" where
  "quiet_counter_2Dd \<equiv> cntd.quiet"

text \<open>The windows bound how far two sub-counters are apart.\<close>

lemma counter_spread_2Dd:
  assumes "win_inv2Dd cfg P G (\<lambda>i. cd_put_count (a ! i)) (\<lambda>i. cd_get_count (a ! i))" "i < width cfg" "j < width cfg"
  shows "cval (a ! j) \<le> cval (a ! i) + 2 * depth cfg"
proof -
  have b: "cd_put_count (a ! k) \<le> P \<and> P \<le> cd_put_count (a ! k) + depth cfg \<and> cd_get_count (a ! k) \<le> G \<and>
      G \<le> cd_get_count (a ! k) + depth cfg \<and> cd_get_count (a ! k) \<le> cd_put_count (a ! k)" if "k < width cfg" for k
    using assms(1) that by (auto simp: win_inv2Dd_def)
  show ?thesis using b [OF assms(2)] b [OF assms(3)] unfolding cval_def by linarith
qed

lemma total_close_2Dd:
  assumes inv: "win_inv2Dd cfg P G (\<lambda>i. cd_put_count (cnt_array g ! i)) (\<lambda>i. cd_get_count (cnt_array g ! i))"
    and len: "length (cnt_array g) = width cfg" and i: "i < width cfg" and small: "P * width cfg < W64" "P < W64"
    and d: "d = cnt_array g ! i"
  shows "mul64 (sub64 (cd_put_count d) (cd_get_count d)) (width cfg) \<le> total_2Dd g + 2 * depth cfg * (width cfg - 1)"
    and "total_2Dd g \<le> mul64 (sub64 (cd_put_count d) (cd_get_count d)) (width cfg) + 2 * depth cfg * (width cfg - 1)"
proof -
  let ?xs = "map cval (cnt_array g)"
  have b: "cd_put_count d \<le> P" "cd_get_count d \<le> cd_put_count d" using inv i d by (auto simp: win_inv2Dd_def)
  then have s: "sub64 (cd_put_count d) (cd_get_count d) = cval d" using small by (simp add: sub64_eq cval_def)
  have "cval d * width cfg \<le> P * width cfg" using b by (intro mult_le_mono1) (simp add: cval_def)
  then have "cval d * width cfg < W64" using small(1) by (rule le_less_trans)
  then have "mul64 (cval d) (width cfg) = ?xs ! i * length ?xs" using len i d by (simp add: mul64_eq)
  moreover have "?xs ! j \<le> ?xs ! i + 2 * depth cfg \<and> ?xs ! i \<le> ?xs ! j + 2 * depth cfg" if "j < length ?xs" for j
    using counter_spread_2Dd [OF inv i, of j] counter_spread_2Dd [OF inv _ i, of j] that len i by simp
  ultimately show "mul64 (sub64 (cd_put_count d) (cd_get_count d)) (width cfg) \<le> total_2Dd g + 2 * depth cfg * (width cfg - 1)"
    "total_2Dd g \<le> mul64 (sub64 (cd_put_count d) (cd_get_count d)) (width cfg) + 2 * depth cfg * (width cfg - 1)"
    using sum_list_close [of i ?xs "2 * depth cfg"] len i s by (simp_all add: total_2Dd_def)
qed

text \<open>What a call leaves behind: windows that have moved at most once, and the abstract counter's step.\<close>

definition counted_2Dd :: "bool \<Rightarrow> ds2Dd \<Rightarrow> counter_call \<Rightarrow> counter2Dd \<Rightarrow> u64 \<times> tl2Dd \<Rightarrow> counter2Dd \<Rightarrow> bool" where
  "counted_2Dd vs cfg c g = (\<lambda>(r, l) g'.
     length (cnt_array g') = width cfg \<and> thread_index l < width cfg \<and>
     win_inv2Dd cfg (global_PWindow g') (global_GWindow g') (\<lambda>i. cd_put_count (cnt_array g' ! i)) (\<lambda>i. cd_get_count (cnt_array g' ! i)) \<and>
     global_PWindow g' \<le> global_PWindow g + depth cfg \<and>
     counter_spec vs (2 * depth cfg * (width cfg - 1)) c (total_2Dd g) r (total_2Dd g'))"

definition counter_room_2Dd :: "ds2Dd \<Rightarrow> counter2Dd \<Rightarrow> bool" where
  "counter_room_2Dd cfg g \<longleftrightarrow> (global_PWindow g + depth cfg) * width cfg < W64 \<and> global_PWindow g + depth cfg < W64"

lemma counter_room_le:
  assumes "counter_room_2Dd cfg g" "P \<le> global_PWindow g + depth cfg"
  shows "P * width cfg < W64" "P < W64"
  using assms mult_le_mono1 [OF assms(2), of "width cfg"] unfolding counter_room_2Dd_def by linarith+

lemma increment_commit_2Dd:
  assumes q: "quiet_counter_2Dd cfg g" and room: "counter_room_2Dd cfg g"
    and post: "put_post_2Dd cfg ((!) (cnt_array g)) cd_put_count g (d, l') g'"
    and d': "d' = \<lparr>cd_get_count = cd_get_count d, cd_put_count = add64 (cd_put_count d) 1\<rparr>"
    and h: "h = g'\<lparr>cnt_array := (cnt_array g')[thread_index l' := d'], incs := t # incs g'\<rparr>"
  shows "counted_2Dd vs cfg Inc g (counter_value vs (sub64 (cd_put_count d') (cd_get_count d')) (width cfg), l') h"
proof -
  let ?i = "thread_index l'"
  have i: "?i < width cfg" and d: "d = cnt_array g ! ?i" and lt: "cd_put_count d < global_PWindow g'"
    and arr: "cnt_array g' = cnt_array g" and G: "global_GWindow g' = global_GWindow g"
    and P: "global_PWindow g' = global_PWindow g \<or>
      global_PWindow g' = global_PWindow g + depth cfg \<and> (\<forall>j < width cfg. cd_put_count (cnt_array g ! j) = global_PWindow g)"
    using post by (auto simp: put_post_2Dd_def)
  have len: "length (cnt_array g) = width cfg"
    and inv: "win_inv2Dd cfg (global_PWindow g) (global_GWindow g) (\<lambda>i. cd_put_count (cnt_array g ! i)) (\<lambda>i. cd_get_count (cnt_array g ! i))"
    using q by (simp_all add: cntd.quiet_def)
  have Pl: "global_PWindow g' \<le> global_PWindow g + depth cfg" using P by auto
  note r = counter_room_le [OF room Pl]
  have add: "add64 (cd_put_count d) 1 = cd_put_count d + 1" using lt r(2) by (intro add64_eq) simp
  have "(\<lambda>k. cd_put_count (cnt_array h ! k)) = (\<lambda>k. cd_put_count (cnt_array g ! k))(?i := cd_put_count (cnt_array g ! ?i) + 1)"
    "(\<lambda>k. cd_get_count (cnt_array h ! k)) = (\<lambda>k. cd_get_count (cnt_array g ! k))"
    using i len add d by (auto simp: h arr d' nth_list_update fun_eq_iff)
  then have inv': "win_inv2Dd cfg (global_PWindow h) (global_GWindow h) (\<lambda>i. cd_put_count (cnt_array h ! i)) (\<lambda>i. cd_get_count (cnt_array h ! i))"
    using win_inv2Dd_put [OF inv P i] lt d by (simp add: h G)
  have len': "length (cnt_array h) = width cfg" and h_i: "d' = cnt_array h ! ?i" using i len by (simp_all add: h arr)
  have "cd_get_count d \<le> cd_put_count d" using inv i d by (simp add: win_inv2Dd_def)
  then have "total_2Dd h = total_2Dd g + 1"
    using total_update_2Dd [of ?i g h d'] i len d add by (simp add: h arr cval_def d')
  then show ?thesis
    using total_close_2Dd [OF inv' len' i _ _ h_i] r inv' len' i Pl
    by (simp add: counted_2Dd_def counter_spec_def counter_value_def h)
qed

lemma decrement_commit_2Dd:
  assumes q: "quiet_counter_2Dd cfg g" and room: "counter_room_2Dd cfg g"
    and post: "get_post_2Dd cfg (\<lambda>i. cd_put_count (cnt_array g ! i)) ((!) (cnt_array g)) cd_get_count g (d, l') g'"
    and pos: "0 < sub64 (cd_put_count d) (cd_get_count d)"
    and d': "d' = \<lparr>cd_get_count = add64 (cd_get_count d) 1, cd_put_count = cd_put_count d\<rparr>"
    and h: "h = g'\<lparr>cnt_array := (cnt_array g')[thread_index l' := d'], decs := t # decs g'\<rparr>"
  shows "counted_2Dd vs cfg Dec g (counter_value vs (sub64 (cd_put_count d') (cd_get_count d')) (width cfg), l') h"
proof -
  let ?i = "thread_index l'"
  have i: "?i < width cfg" and d: "d = cnt_array g ! ?i" and arr: "cnt_array g' = cnt_array g"
    and P: "global_PWindow g' = global_PWindow g"
    using post by (auto simp: get_post_2Dd_def)
  have len: "length (cnt_array g) = width cfg"
    and inv: "win_inv2Dd cfg (global_PWindow g) (global_GWindow g) (\<lambda>i. cd_put_count (cnt_array g ! i)) (\<lambda>i. cd_get_count (cnt_array g ! i))"
    using q by (simp_all add: cntd.quiet_def)
  have r: "global_PWindow g * width cfg < W64" "global_PWindow g < W64" by (rule counter_room_le [OF room], simp)+
  have b: "cd_get_count d \<le> cd_put_count d" "cd_put_count d \<le> global_PWindow g" using inv i d by (auto simp: win_inv2Dd_def)
  then have ne: "cd_put_count d \<noteq> cd_get_count d" using pos r by (auto simp: sub64_eq)
  then have add: "add64 (cd_get_count d) 1 = cd_get_count d + 1" using b r(2) by (intro add64_eq) simp
  have lt: "cd_get_count d < global_GWindow g'"
    and G: "global_GWindow g' = global_GWindow g \<or> global_GWindow g' = global_GWindow g + depth cfg \<and>
      (\<forall>j < width cfg. cd_get_count (cnt_array g ! j) = global_GWindow g \<or> cd_put_count (cnt_array g ! j) = cd_get_count (cnt_array g ! j)) \<and>
      (\<exists>j < width cfg. cd_put_count (cnt_array g ! j) \<noteq> cd_get_count (cnt_array g ! j))"
    using post ne i d by (auto simp: get_post_2Dd_def)
  have "(\<lambda>k. cd_get_count (cnt_array h ! k)) = (\<lambda>k. cd_get_count (cnt_array g ! k))(?i := cd_get_count (cnt_array g ! ?i) + 1)"
    "(\<lambda>k. cd_put_count (cnt_array h ! k)) = (\<lambda>k. cd_put_count (cnt_array g ! k))"
    using i len add d by (auto simp: h arr d' nth_list_update fun_eq_iff)
  then have inv': "win_inv2Dd cfg (global_PWindow h) (global_GWindow h) (\<lambda>i. cd_put_count (cnt_array h ! i)) (\<lambda>i. cd_get_count (cnt_array h ! i))"
    using win_inv2Dd_get [OF inv G i] lt ne d by (simp add: h P)
  have len': "length (cnt_array h) = width cfg" and h_i: "d' = cnt_array h ! ?i" using i len by (simp_all add: h arr)
  have "total_2Dd h + 1 = total_2Dd g"
    using total_update_2Dd [of ?i g h d'] i len d add b ne by (simp add: h arr cval_def d')
  then have "total_2Dd h = total_2Dd g - 1" "min (total_2Dd g) 1 = 1" by simp_all
  then show ?thesis
    using total_close_2Dd [OF inv' len' i _ _ h_i] r inv' len' i P
    by (simp add: counted_2Dd_def counter_spec_def counter_value_def h)
qed

lemma decrement_null_2Dd:
  assumes q: "quiet_counter_2Dd cfg g" and room: "counter_room_2Dd cfg g"
    and post: "get_post_2Dd cfg (\<lambda>i. cd_put_count (cnt_array g ! i)) ((!) (cnt_array g)) cd_get_count g (d, l') g'"
    and z: "sub64 (cd_put_count d) (cd_get_count d) = 0"
  shows "counted_2Dd vs cfg Dec g (0, l'\<lparr>my_null_count := n\<rparr>) g'"
proof -
  have i: "thread_index l' < width cfg" and d: "d = cnt_array g ! thread_index l'" using post by (auto simp: get_post_2Dd_def)
  have len: "length (cnt_array g) = width cfg"
    and inv: "win_inv2Dd cfg (global_PWindow g) (global_GWindow g) (\<lambda>i. cd_put_count (cnt_array g ! i)) (\<lambda>i. cd_get_count (cnt_array g ! i))"
    using q by (simp_all add: cntd.quiet_def)
  have "global_PWindow g < W64" by (rule counter_room_le [OF room]) simp
  moreover have "cd_get_count d \<le> cd_put_count d" "cd_put_count d \<le> global_PWindow g" using inv i d by (auto simp: win_inv2Dd_def)
  ultimately have "cd_put_count d = cd_get_count d" using z by (simp add: sub64_eq)
  then have g': "g' = g" and all: "\<forall>j < width cfg. cd_put_count (cnt_array g ! j) = cd_get_count (cnt_array g ! j)"
    using post d by (auto simp: get_post_2Dd_def)
  have "total_2Dd g = 0" using all len by (auto simp: total_2Dd_def sum_list_eq_0_iff in_set_conv_nth cval_def)
  then show ?thesis using len inv i g' by (simp add: counted_2Dd_def counter_spec_def)
qed

lemma wp_counter_cae_2Dd:
  "wp (counter_cae_2Dd i d d' ghost) Q g =
     (if at (cnt_array g) i = Some d then Q True (ghost (g\<lparr>cnt_array := (cnt_array g)[i := d']\<rparr>)) else Q False g)"
  by (simp add: counter_cae_2Dd_def)

definition counter_call_2Dd :: "nat \<Rightarrow> bool \<Rightarrow> ds2Dd \<Rightarrow> nat \<Rightarrow> counter_call \<Rightarrow> tl2Dd \<Rightarrow> (counter2Dd, u64 \<times> tl2Dd) prog" where
  "counter_call_2Dd fuel vs cfg t c l =
     (case c of Inc \<Rightarrow> increment_2Dd fuel vs cfg t l | Dec \<Rightarrow> decrement_2Dd fuel vs cfg t l)"

lemma counter_seq_2Dd:
  assumes q: "quiet_counter_2Dd cfg g" and "counter_room_2Dd cfg g" "thread_index l < width cfg" "fuel2Dd cfg \<le> fuel"
  shows "wp (counter_call_2Dd fuel vs cfg t c l) (counted_2Dd vs cfg c g) g"
proof -
  obtain n where n: "fuel = Suc n" using assms(4) by (cases fuel) (auto simp: fuel2Dd_def)
  have len: "length (cnt_array g) = width cfg" using q by (simp add: cntd.quiet_def)
  show ?thesis
  proof (cases c)
    case Inc
    have at: "at (cnt_array h) (thread_index k) = Some d" if "put_post_2Dd cfg ((!) (cnt_array g)) cd_put_count g (d, k) h" for d k h
      using that len by (auto simp: put_post_2Dd_def)
    show ?thesis unfolding Inc counter_call_2Dd_def counter_call.case increment_2Dd_def n increment_loop_2Dd.simps wp_bind
      by (rule wp_mono [OF cntd.put_window_seq_2Dd [OF q assms(3,4), unfolded n]])
        (use increment_commit_2Dd [OF assms(1,2) _ refl refl] in \<open>auto simp: at wp_counter_cae_2Dd Let_def\<close>)
  next
    case Dec
    have at: "at (cnt_array h) (thread_index k) = Some d"
      if "get_post_2Dd cfg (\<lambda>i. cd_put_count (cnt_array g ! i)) ((!) (cnt_array g)) cd_get_count g (d, k) h" for d k h
      using that len by (auto simp: get_post_2Dd_def)
    show ?thesis unfolding Dec counter_call_2Dd_def counter_call.case decrement_2Dd_def n decrement_loop_2Dd.simps wp_bind
      by (rule wp_mono [OF cntd.get_window_seq_2Dd [OF q assms(3,4), unfolded n]])
        (use decrement_commit_2Dd [OF assms(1,2) _ _ refl refl] decrement_null_2Dd [OF assms(1,2)] in
          \<open>auto simp: at wp_counter_cae_2Dd Let_def\<close>)
  qed
qed

section \<open>Calls one after the other\<close>

text \<open>The invariant between calls, with a budget of \<open>n\<close> more calls.\<close>

definition counter_calls_inv_2Dd :: "nat \<Rightarrow> ds2Dd \<Rightarrow> nat \<Rightarrow> tl2Dd list \<Rightarrow> counter2Dd \<Rightarrow> bool" where
  "counter_calls_inv_2Dd fuel cfg n ls g \<longleftrightarrow> ds2Dd_ok cfg \<and> fuel2Dd cfg \<le> fuel \<and> length (cnt_array g) = width cfg \<and>
     win_inv2Dd cfg (global_PWindow g) (global_GWindow g) (\<lambda>i. cd_put_count (cnt_array g ! i)) (\<lambda>i. cd_get_count (cnt_array g ! i)) \<and>
     (\<forall>l \<in> set ls. thread_index l < width cfg) \<and>
     (global_PWindow g + (n + 1) * depth cfg) * width cfg < W64"

lemma counter_calls_quiet:
  assumes "counter_calls_inv_2Dd fuel cfg n ls g"
  shows "counter_room_2Dd cfg g \<and> quiet_counter_2Dd cfg g"
proof -
  have w: "1 \<le> width cfg" "global_GWindow g \<le> global_PWindow g"
    using assms by (auto simp: counter_calls_inv_2Dd_def ds2Dd_ok_def win_inv2Dd_def)
  have "(global_PWindow g + depth cfg) * width cfg \<le> (global_PWindow g + (n + 1) * depth cfg) * width cfg"
    by (intro mult_le_mono) auto
  then have a: "(global_PWindow g + depth cfg) * width cfg < W64" using assms unfolding counter_calls_inv_2Dd_def by linarith
  have "global_PWindow g + depth cfg < W64"
    using mult_le_mono2 [OF w(1), of "global_PWindow g + depth cfg"] a unfolding mult_1_right by (rule le_less_trans)
  with a have "counter_room_2Dd cfg g" by (simp add: counter_room_2Dd_def)
  then show ?thesis using assms w by (auto simp: counter_calls_inv_2Dd_def counter_room_2Dd_def cntd.quiet_def room2Dd_def)
qed

lemma counter_calls_step_2Dd:
  assumes inv: "counter_calls_inv_2Dd fuel cfg (Suc n) ls g" and c: "counted_2Dd vs cfg c g (r, l) g'"
  shows "counter_calls_inv_2Dd fuel cfg n (ls[t := l]) g'"
proof -
  have "\<forall>k \<in> set (ls[t := l]). thread_index k < width cfg"
    using inv c set_update_subset_insert [of ls t l] by (auto simp: counter_calls_inv_2Dd_def counted_2Dd_def)
  moreover have m: "global_PWindow g' + (n + 1) * depth cfg \<le> global_PWindow g + (Suc n + 1) * depth cfg"
    using c by (simp add: counted_2Dd_def)
  have "(global_PWindow g' + (n + 1) * depth cfg) * width cfg < W64"
    using inv mult_le_mono1 [OF m, of "width cfg"] unfolding counter_calls_inv_2Dd_def by linarith
  ultimately show ?thesis using inv c by (simp add: counter_calls_inv_2Dd_def counted_2Dd_def)
qed

interpretation cntd_calls: budgeted_calls "counter_call_2Dd fuel vs cfg" "counter_calls_inv_2Dd fuel cfg" total_2Dd
  "counter_spec vs (2 * depth cfg * (width cfg - 1))" for fuel vs cfg
proof
  fix n ls g t c
  assume inv: "counter_calls_inv_2Dd fuel cfg (Suc n) ls g" and t: "t < length ls"
  have "wp (counter_call_2Dd fuel vs cfg t c (ls ! t)) (counted_2Dd vs cfg c g) g"
    using inv t counter_calls_quiet [OF inv] by (intro counter_seq_2Dd) (auto simp: counter_calls_inv_2Dd_def)
  then show "wp (counter_call_2Dd fuel vs cfg t c (ls ! t)) (\<lambda>(r, l) g'. counter_calls_inv_2Dd fuel cfg n (ls[t := l]) g' \<and>
      counter_spec vs (2 * depth cfg * (width cfg - 1)) c (total_2Dd g) r (total_2Dd g')) g"
    by (rule wp_mono) (auto intro: counter_calls_step_2Dd [OF inv] simp: counted_2Dd_def)
qed

section \<open>Properties\<close>

text \<open>
  C9. Refinement of an exact counter by the 2Dd counter, for calls that do not overlap, from a new
  counter and by threads with any local windows. Every call returns, the sum of the sub-counters
  goes up by one with every increment and down by one with every decrement that does not find it zero, and
  each call returns a value that differs from the sum by at most \<open>2 * depth * (width - 1)\<close> (with
  \<^verbatim>\<open>VALIDATESIZE\<close>: 1, or 0 for a decrement of zero).
\<close>

theorem counter_2Dd_refines_counter:
  assumes c: "create_counter_2Dd nt w d mode bound = Some (cfg, g)"
    and u: "1 \<le> width cfg" "width cfg < 4294967296" "1 \<le> depth cfg" "fuel2Dd cfg \<le> fuel"
      "(length cs + 1) * depth cfg * width cfg < W64"
    and ls: "\<forall>l \<in> set ls. thread_index l < width cfg" "\<forall>(t, c) \<in> set cs. t < length ls"
  shows "\<exists>rs ls' g'. exec_calls (counter_call_2Dd fuel vs cfg) cs (ls, g) = Some (rs, ls', g') \<and>
    spec_run (counter_spec vs (2 * depth cfg * (width cfg - 1))) (map snd cs) 0 rs (total_2Dd g')"
proof -
  have cfg: "random_hops cfg = 2" "global_PWindow g = 0" "global_GWindow g = 0"
    "cnt_array g = replicate (width cfg) \<lparr>cd_get_count = 0, cd_put_count = 0\<rparr>"
    using c by (auto simp: create_counter_2Dd_def split: option.splits)
  have "counter_calls_inv_2Dd fuel cfg (length cs + 0) ls g"
    using u ls by (auto simp: counter_calls_inv_2Dd_def cfg ds2Dd_ok_def win_inv2Dd_def W64_def)
  moreover have "total_2Dd g = 0" by (simp add: total_2Dd_def cfg map_replicate_const sum_list_replicate cval_def)
  ultimately show ?thesis using cntd_calls.exec_calls_returns [of fuel cfg cs 0 ls g vs] ls(2) by auto
qed

text \<open>A counter for two threads with width 3 and depth 4, and threads that have just been started.\<close>

definition demo_counter_2Dd :: "ds2Dd \<times> counter2Dd" where
  "demo_counter_2Dd = the (create_counter_2Dd 2 3 4 0 0)"

definition fresh_tl_2Dd :: "seeds \<Rightarrow> u64 \<Rightarrow> tl2Dd" where
  "fresh_tl_2Dd s i = \<lparr>seeds = s, my_put_cas_fail_count = 0, my_get_cas_fail_count = 0, my_null_count = 0,
     my_hop_count = 0, my_slide_count = 0, my_slide_fail_count = 0, thread_PWindow = 0, thread_GWindow = 0, thread_index = i\<rparr>"

lemma demo_counter_2Dd_eq:
  "demo_counter_2Dd =
     (\<lparr>random_hops = 2, width = 3, depth = 4, relaxation_bound = 16, k_mode = 0\<rparr>,
      \<lparr>global_PWindow = 0, global_GWindow = 0, cnt_array = replicate 3 \<lparr>cd_get_count = 0, cd_put_count = 0\<rparr>, incs = [], decs = []\<rparr>)"
  by (simp add: demo_counter_2Dd_def create_counter_2Dd_def calc_params_def bound64_def prog_unfold)

theorem counter_2Dd_refines_counter_witness:
  "\<exists>rs ls' g'. exec_calls (counter_call_2Dd 11 False (fst demo_counter_2Dd)) [(0, Inc), (1, Dec), (1, Dec)]
      (replicate 2 (fresh_tl_2Dd (1, 2, 3) 1), snd demo_counter_2Dd) = Some (rs, ls', g') \<and>
    spec_run (counter_spec False (2 * depth (fst demo_counter_2Dd) * (width (fst demo_counter_2Dd) - 1)))
      (map snd [(0 :: nat, Inc), (1, Dec), (1, Dec)]) 0 rs (total_2Dd g')"
proof (rule counter_2Dd_refines_counter [of 2 3 4 0 0])
  show "create_counter_2Dd 2 3 4 0 0 = Some (fst demo_counter_2Dd, snd demo_counter_2Dd)"
    by (simp add: demo_counter_2Dd_def create_counter_2Dd_def calc_params_def bound64_def)
qed (auto simp: demo_counter_2Dd_eq fuel2Dd_def fresh_tl_2Dd_def W64_def)

end
