(* ===== verification/Counter2Dd_Conc.thy ===== *)
theory Counter2Dd_Conc
  imports Counter2Dd
begin

text \<open>
  The 2Dd counter under concurrency: any number of threads, each running its own list of
  increments and decrements, interleaved at every access to shared memory. At every moment the
  increments lie in the put window, so the numbers of increments of any two sub-counters differ by at most the
  depth; and no update is lost.
\<close>

section \<open>The protocol\<close>

abbreviation puts_2Dd :: "counter2Dd \<Rightarrow> nat \<Rightarrow> nat" where
  "puts_2Dd g i \<equiv> cd_put_count (cnt_array g ! i)"

inductive counter_step_2Dd :: "ds2Dd \<Rightarrow> nat \<Rightarrow> counter2Dd \<Rightarrow> counter2Dd \<Rightarrow> bool" for cfg t g where
  ds_inc: "i < length (cnt_array g) \<Longrightarrow> d = cnt_array g ! i \<Longrightarrow> cd_put_count d < global_PWindow g \<Longrightarrow>
     counter_step_2Dd cfg t g
       (g\<lparr>cnt_array := (cnt_array g)[i := \<lparr>cd_get_count = cd_get_count d, cd_put_count = cd_put_count d + 1\<rparr>], incs := t # incs g\<rparr>)"
| ds_dec: "i < length (cnt_array g) \<Longrightarrow> d = cnt_array g ! i \<Longrightarrow> cd_get_count d < cd_put_count d \<Longrightarrow>
     counter_step_2Dd cfg t g
       (g\<lparr>cnt_array := (cnt_array g)[i := \<lparr>cd_get_count = cd_get_count d + 1, cd_put_count = cd_put_count d\<rparr>], decs := t # decs g\<rparr>)"
| ds_put_window: "\<forall>i < width cfg. global_PWindow g \<le> puts_2Dd g i \<Longrightarrow>
     counter_step_2Dd cfg t g (g\<lparr>global_PWindow := global_PWindow g + depth cfg\<rparr>)"
| ds_get_window: "counter_step_2Dd cfg t g (g\<lparr>global_GWindow := global_GWindow g + depth cfg\<rparr>)"

definition counter_inv_2Dd :: "ds2Dd \<Rightarrow> counter2Dd \<Rightarrow> bool" where
  "counter_inv_2Dd cfg g \<longleftrightarrow> ds2Dd_ok cfg \<and> length (cnt_array g) = width cfg \<and>
     (\<forall>i < width cfg. puts_2Dd g i \<le> global_PWindow g \<and> global_PWindow g \<le> puts_2Dd g i + depth cfg \<and>
        cd_get_count (cnt_array g ! i) \<le> puts_2Dd g i) \<and>
     total_2Dd g + length (decs g) = length (incs g)"

lemma counter_inv_upd:
  assumes inv: "counter_inv_2Dd cfg g" and i: "i < length (cnt_array g)" and h: "cnt_array h = (cnt_array g)[i := d]"
    and P: "global_PWindow h = global_PWindow g"
    and d: "puts_2Dd g i \<le> cd_put_count d" "cd_put_count d \<le> global_PWindow g" "cd_get_count d \<le> cd_put_count d"
    and hist: "cval d + length (decs h) + length (incs g) = cval (cnt_array g ! i) + length (decs g) + length (incs h)"
  shows "counter_inv_2Dd cfg h"
proof -
  have "total_2Dd h + cval (cnt_array g ! i) = total_2Dd g + cval d" using i h by (rule total_update_2Dd)
  moreover have "total_2Dd g + length (decs g) = length (incs g)" using inv by (simp add: counter_inv_2Dd_def)
  ultimately have "total_2Dd h + length (decs h) = length (incs h)" using hist by linarith
  moreover have "puts_2Dd h j \<le> global_PWindow h \<and> global_PWindow h \<le> puts_2Dd h j + depth cfg \<and>
      cd_get_count (cnt_array h ! j) \<le> puts_2Dd h j" if "j < width cfg" for j
  proof -
    have b: "puts_2Dd g j \<le> global_PWindow g \<and> global_PWindow g \<le> puts_2Dd g j + depth cfg \<and>
      cd_get_count (cnt_array g ! j) \<le> puts_2Dd g j" using inv that by (simp add: counter_inv_2Dd_def)
    then have "j = i \<Longrightarrow> global_PWindow g \<le> cd_put_count d + depth cfg" using d(1) by simp
    then show ?thesis using b d i P by (simp add: h nth_list_update)
  qed
  ultimately show ?thesis using inv by (simp add: counter_inv_2Dd_def h)
qed

interpretation cntd_conc: protocol "counter_step_2Dd cfg" "room2Dd cfg" "counter_inv_2Dd cfg" for cfg
proof
  fix g t g'
  assume inv: "counter_inv_2Dd cfg g" and st: "counter_step_2Dd cfg t g g'"
  have b: "cd_get_count (cnt_array g ! i) \<le> puts_2Dd g i \<and> puts_2Dd g i \<le> global_PWindow g" if "i < length (cnt_array g)" for i
    using inv that by (simp add: counter_inv_2Dd_def)
  from st show "counter_inv_2Dd cfg g'"
  proof cases
    case (ds_inc i d)
    show ?thesis
      by (rule counter_inv_upd [OF inv ds_inc(2), where d = "\<lparr>cd_get_count = cd_get_count d, cd_put_count = cd_put_count d + 1\<rparr>"])
        (use ds_inc b [OF ds_inc(2)] in \<open>auto simp: cval_def\<close>)
  next
    case (ds_dec i d)
    show ?thesis
      by (rule counter_inv_upd [OF inv ds_dec(2), where d = "\<lparr>cd_get_count = cd_get_count d + 1, cd_put_count = cd_put_count d\<rparr>"])
        (use ds_dec b [OF ds_dec(2)] in \<open>auto simp: cval_def\<close>)
  next
    case ds_put_window
    have "puts_2Dd g i = global_PWindow g" if "i < width cfg" for i
      using ds_put_window(2) that inv by (intro antisym) (auto simp: counter_inv_2Dd_def)
    then show ?thesis using inv ds_put_window(1) by (auto simp: counter_inv_2Dd_def total_2Dd_def)
  qed (use inv in \<open>auto simp: counter_inv_2Dd_def total_2Dd_def\<close>)
qed

section \<open>What a thread knows\<close>

definition counter_known_2Dd :: "ds2Dd \<Rightarrow> nat \<Rightarrow> nat \<times> nat \<Rightarrow> counter2Dd \<Rightarrow> bool" where
  "counter_known_2Dd cfg t s g \<longleftrightarrow> counter_inv_2Dd cfg g \<and> room2Dd cfg g \<and>
     s = (count_list (incs g) t, count_list (decs g) t)"

lemma counter_known_cfg: "counter_known_2Dd cfg t s g \<Longrightarrow> ds2Dd_ok cfg"
  by (simp add: counter_known_2Dd_def counter_inv_2Dd_def)

lemma counter_step_mono_2Dd:
  assumes "counter_step_2Dd cfg u g g'"
  shows "global_PWindow g \<le> global_PWindow g'" "puts_2Dd g i \<le> puts_2Dd g' i"
  using assms by (cases; simp add: nth_list_update)+

lemma counter_known_env_2Dd:
  assumes "counter_known_2Dd cfg t s g" "env1 (counter_step_2Dd cfg) (room2Dd cfg) t g g'"
  shows "counter_known_2Dd cfg t s g'" "global_PWindow g \<le> global_PWindow g'" "puts_2Dd g i \<le> puts_2Dd g' i"
proof -
  obtain u where u: "u \<noteq> t" "counter_step_2Dd cfg u g g'" and A: "room2Dd cfg g'"
    using assms(2) by (auto simp: env1_def)
  moreover have "counter_inv_2Dd cfg g'" using cntd_conc.inv_step u A assms(1) by (auto simp: counter_known_2Dd_def)
  moreover have "count_list (incs g') t = count_list (incs g) t \<and> count_list (decs g') t = count_list (decs g) t"
    using u(2,1) by cases auto
  ultimately show "counter_known_2Dd cfg t s g'" using assms(1) by (simp add: counter_known_2Dd_def)
  show "global_PWindow g \<le> global_PWindow g'" "puts_2Dd g i \<le> puts_2Dd g' i" by (rule counter_step_mono_2Dd [OF u(2)])+
qed

lemma counter_known_envs_2Dd:
  assumes "env (counter_step_2Dd cfg) (room2Dd cfg) t g h" "counter_known_2Dd cfg t s g"
  shows "counter_known_2Dd cfg t s h" "puts_2Dd g i \<le> puts_2Dd h i"
proof -
  have "counter_known_2Dd cfg t s h \<and> puts_2Dd g i \<le> puts_2Dd h i"
    using assms
  proof (induction rule: rtranclp_induct)
    case (step y z)
    then show ?case using counter_known_env_2Dd(1,3) [of cfg t s y z] by (meson order_trans)
  qed simp
  then show "counter_known_2Dd cfg t s h" "puts_2Dd g i \<le> puts_2Dd h i" by auto
qed

lemma counter_window_known_2Dd:
  assumes "counter_known_2Dd cfg t s g" "counter_step_2Dd cfg t g h" "room2Dd cfg h" "incs h = incs g" "decs h = decs g"
  shows "counter_known_2Dd cfg t s h"
  using assms cntd_conc.inv_step [OF _ assms(2,3)] by (auto simp: counter_known_2Dd_def)

lemma counter_loads_ok:
  assumes k: "counter_known_2Dd cfg t s g" and i: "i < width cfg"
  shows "ok (counter_step_2Dd cfg) (room2Dd cfg) t (load_counter_2Dd i)
      (\<lambda>d h. counter_known_2Dd cfg t s h \<and> cd_put_count d \<le> puts_2Dd h i \<and> (\<forall>j. puts_2Dd g j \<le> puts_2Dd h j)) g"
    and "ok (counter_step_2Dd cfg) (room2Dd cfg) t (load_put_count_2Dd i) (\<lambda>c h. counter_known_2Dd cfg t s h) g"
proof -
  have len: "i < length (cnt_array h)" if "counter_known_2Dd cfg t s h" for h
    using that i by (simp add: counter_known_2Dd_def counter_inv_2Dd_def)
  note E = counter_known_envs_2Dd
  show "ok (counter_step_2Dd cfg) (room2Dd cfg) t (load_counter_2Dd i)
      (\<lambda>d h. counter_known_2Dd cfg t s h \<and> cd_put_count d \<le> puts_2Dd h i \<and> (\<forall>j. puts_2Dd g j \<le> puts_2Dd h j)) g"
    unfolding load_counter_2Dd_def
  proof (rule ok_rd_opt, goal_cases)
    case (1 h)
    note k1 = E(1) [OF 1 k] and m1 = E(2) [OF 1 k]
    have "ok (counter_step_2Dd cfg) (room2Dd cfg) t
      (pbind (rd_opt (\<lambda>g. map_option cd_put_count (at (cnt_array g) i))) (\<lambda>pc. Ret \<lparr>cd_get_count = c, cd_put_count = pc\<rparr>))
      (\<lambda>d h. counter_known_2Dd cfg t s h \<and> cd_put_count d \<le> puts_2Dd h i \<and> (\<forall>j. puts_2Dd g j \<le> puts_2Dd h j)) h" for c
    proof (rule ok_rd_opt, goal_cases)
      case (1 h')
      note k2 = E(1) [OF 1 k1] and m2 = E(2) [OF 1 k1]
      have "puts_2Dd g j \<le> puts_2Dd h' j" for j using m1 [of j] m2 [of j] by simp
      then show ?case using len [OF k2] E(1) [OF _ k2] E(2) [OF _ k2] by (fastforce intro: order_trans)
    qed
    then show ?case using len [OF k1] by (simp del: ok.simps)
  qed
  have "ok (counter_step_2Dd cfg) (room2Dd cfg) t (pbind (load_put_count_2Dd i) Ret) (\<lambda>c h. counter_known_2Dd cfg t s h) g"
    unfolding load_put_count_2Dd_def
  proof (rule ok_rd_opt, goal_cases)
    case (1 h)
    show ?case using len [OF E(1) [OF 1 k]] E(1) [OF _ E(1) [OF 1 k]] by simp
  qed
  then show "ok (counter_step_2Dd cfg) (room2Dd cfg) t (load_put_count_2Dd i) (\<lambda>c h. counter_known_2Dd cfg t s h) g"
    by (simp only: pbind_Ret)
qed

interpretation cntd_win: window2Dd_env "counter_step_2Dd cfg" "room2Dd cfg" t cfg load_counter_2Dd load_counter_2Dd
  load_put_count_2Dd cd_put_count cd_get_count "counter_known_2Dd cfg t s" "\<lambda>i d g. cd_put_count d \<le> puts_2Dd g i"
  "\<lambda>i d g. True" puts_2Dd for cfg t s
proof (unfold_locales, goal_cases)
  case (3 g i d g')
  then show ?case using counter_known_env_2Dd(3) order_trans by blast
next
  case (9 g i)
  then show ?case by (rule counter_loads_ok)
next
  case (10 g i)
  show ?case by (rule ok_mono [OF counter_loads_ok(1) [OF 10]]) simp
next
  case (11 g i d)
  then show ?case using counter_loads_ok(2) [of cfg t s g i] by (simp del: ok.simps)
next
  case (12 g w)
  then have "w = global_PWindow g + depth cfg" by (simp add: counter_known_2Dd_def room2Dd_def add64_eq)
  then have "counter_step_2Dd cfg t g (g\<lparr>global_PWindow := w\<rparr>)" using ds_put_window [of cfg g t] 12(4) by simp
  then show ?case using counter_window_known_2Dd [OF 12(1)] 12(3) by simp
next
  case (13 g w)
  then have "w = global_GWindow g + depth cfg" by (simp add: counter_known_2Dd_def room2Dd_def add64_eq)
  then have "counter_step_2Dd cfg t g (g\<lparr>global_GWindow := w\<rparr>)" using ds_get_window [of cfg t g] by simp
  then show ?case using counter_window_known_2Dd [OF 13(1)] 13(3) by simp
qed (auto intro: counter_known_env_2Dd simp: counter_known_cfg)

section \<open>Increment and decrement under interference\<close>

lemma ok_counter_cae_2Dd:
  assumes k: "counter_known_2Dd cfg t (a, b) g" and Pb: "p \<le> global_PWindow g"
    and step: "\<And>h. counter_known_2Dd cfg t (a, b) h \<Longrightarrow> i < length (cnt_array h) \<Longrightarrow> d = cnt_array h ! i \<Longrightarrow> p \<le> global_PWindow h \<Longrightarrow>
        counter_step_2Dd cfg t h (gh (h\<lparr>cnt_array := (cnt_array h)[i := d']\<rparr>)) \<and>
        (count_list (incs (gh (h\<lparr>cnt_array := (cnt_array h)[i := d']\<rparr>))) t,
         count_list (decs (gh (h\<lparr>cnt_array := (cnt_array h)[i := d']\<rparr>))) t) = s"
    and finish: "\<And>h. counter_known_2Dd cfg t s h \<Longrightarrow> ok (counter_step_2Dd cfg) (room2Dd cfg) t (f True) Q h"
    and retry: "\<And>h. counter_known_2Dd cfg t (a, b) h \<Longrightarrow> ok (counter_step_2Dd cfg) (room2Dd cfg) t (f False) Q h"
  shows "ok (counter_step_2Dd cfg) (room2Dd cfg) t (pbind (counter_cae_2Dd i d d' gh) f) Q g"
  unfolding counter_cae_2Dd_def pbind.simps
proof (rule ok_Act, goal_cases)
  case (1 h)
  note k' = counter_known_envs_2Dd(1) [OF 1(1) k]
  have P': "p \<le> global_PWindow h" using cntd_win.up_envs [OF 1(1) k] Pb by (meson order_trans)
  show ?case
  proof (cases "at (cnt_array h) i = Some d")
    case True
    let ?h = "gh (h\<lparr>cnt_array := (cnt_array h)[i := d']\<rparr>)"
    have st: "counter_step_2Dd cfg t h ?h" and s: "s = (count_list (incs ?h) t, count_list (decs ?h) t)"
      using step [OF k' _ _ P'] True by (auto simp: at_eq_Some)
    moreover have A: "room2Dd cfg ?h" using 1(2) True by simp
    moreover have "counter_inv_2Dd cfg ?h" using cntd_conc.inv_step [OF _ st A] k' by (simp add: counter_known_2Dd_def)
    ultimately have "counter_known_2Dd cfg t s ?h" by (simp add: counter_known_2Dd_def)
    then show ?thesis using True finish st by simp
  next
    case False
    then show ?thesis using retry [OF k'] by simp
  qed
qed

lemma counter_small_2Dd:
  assumes "counter_known_2Dd cfg t s g" "i < length (cnt_array g)"
  shows "cd_get_count (cnt_array g ! i) \<le> puts_2Dd g i" "puts_2Dd g i < W64"
  using assms by (auto simp: counter_known_2Dd_def counter_inv_2Dd_def room2Dd_def intro: le_less_trans)

definition counter_post_2Dd :: "ds2Dd \<Rightarrow> nat \<Rightarrow> counter_call \<Rightarrow> nat \<times> nat \<Rightarrow> nat \<times> tl2Dd \<Rightarrow> counter2Dd \<Rightarrow> bool" where
  "counter_post_2Dd cfg t c s = (\<lambda>(r, l) h. thread_index l < width cfg \<and> (\<exists>s'. counter_hist c s r s' \<and> counter_known_2Dd cfg t s' h))"

lemma counter_post_Ret_2Dd:
  assumes "counter_known_2Dd cfg t s' g" "counter_hist c s r s'" "thread_index l < width cfg"
  shows "ok (counter_step_2Dd cfg) (room2Dd cfg) t (Ret (r, l)) (counter_post_2Dd cfg t c s) g"
  using assms counter_known_envs_2Dd(1) [of cfg t g _ s'] by (auto simp: counter_post_2Dd_def simp del: split_paired_Ex)

lemma increment_ok_2Dd:
  assumes "counter_known_2Dd cfg t s g" "thread_index l < width cfg"
  shows "ok (counter_step_2Dd cfg) (room2Dd cfg) t (increment_loop_2Dd n fuel True cfg t l c) (counter_post_2Dd cfg t Inc s) g"
  using assms
proof (induction n arbitrary: l c g)
  case 0
  then show ?case by simp
next
  case (Suc n)
  obtain a b where s: "s = (a, b)" by (cases s)
  show ?case
    unfolding increment_loop_2Dd.simps
  proof (rule ok_bind_mono [OF cntd_win.put_window_ok [OF Suc.prems]], goal_cases)
    case (1 r h)
    obtain d l' where r: "r = (d, l')" by (cases r)
    have k: "counter_known_2Dd cfg t (a, b) h" and i: "thread_index l' < width cfg" and P: "cd_put_count d + 1 \<le> global_PWindow h"
      using 1 by (auto simp: cntd_win.handed_put_def s r)
    show ?case unfolding r prod.case Let_def
    proof (rule ok_counter_cae_2Dd [OF k P, where s = "(a + 1, b)"], goal_cases)
      case (1 h')
      have "cd_put_count d + 1 < W64" using 1 by (auto simp: counter_known_2Dd_def room2Dd_def)
      then show ?case using 1 ds_inc [OF 1(2,3), of cfg t] by (simp add: add64_eq counter_known_2Dd_def)
    next
      case (2 h')
      then show ?case using i s by (simp add: counter_value_def counter_post_Ret_2Dd del: ok.simps)
    next
      case (3 h')
      then show ?case using Suc.IH [of h'] i s by (simp del: ok.simps)
    qed
  qed
qed

lemma decrement_ok_2Dd:
  assumes "counter_known_2Dd cfg t s g" "thread_index l < width cfg"
  shows "ok (counter_step_2Dd cfg) (room2Dd cfg) t (decrement_loop_2Dd n fuel True cfg t l c) (counter_post_2Dd cfg t Dec s) g"
  using assms
proof (induction n arbitrary: l c g)
  case 0
  then show ?case by simp
next
  case (Suc n)
  obtain a b where s: "s = (a, b)" by (cases s)
  show ?case
    unfolding decrement_loop_2Dd.simps
  proof (rule ok_bind_mono [OF cntd_win.get_window_ok [OF Suc.prems]], goal_cases)
    case (1 r h)
    obtain d l' where r: "r = (d, l')" by (cases r)
    have k: "counter_known_2Dd cfg t (a, b) h" and i: "thread_index l' < width cfg"
      using 1 by (auto simp: cntd_win.handed_get_def s r)
    show ?case
    proof (cases "0 < sub64 (cd_put_count d) (cd_get_count d)")
      case False
      have "ok (counter_step_2Dd cfg) (room2Dd cfg) t (Ret (0, l'\<lparr>my_null_count := m\<rparr>)) (counter_post_2Dd cfg t Dec s) h" for m
        using k i s by (intro counter_post_Ret_2Dd [of _ _ "(a, b)"]) auto
      with False show ?thesis unfolding r prod.case by (simp del: ok.simps)
    next
      case pos: True
      show ?thesis unfolding r prod.case Let_def if_P [OF pos]
      proof (rule ok_counter_cae_2Dd [OF k le0, where s = "(a, b + 1)"], goal_cases)
        case (1 h')
        have "cd_get_count d < cd_put_count d" "cd_put_count d < W64"
          using counter_small_2Dd [OF 1(1,2)] 1(3) pos by (cases "cd_get_count d = cd_put_count d"; simp add: sub64_eq)+
        then show ?case using 1 ds_dec [OF 1(2,3), of cfg t] by (simp add: add64_eq counter_known_2Dd_def)
      next
        case (2 h')
        then show ?case using i s by (simp add: counter_value_def counter_post_Ret_2Dd del: ok.simps)
      next
        case (3 h')
        then show ?case using Suc.IH [of h'] i s by (simp del: ok.simps)
      qed
    qed
  qed
qed

interpretation cntd_threads: threads "counter_step_2Dd cfg" "room2Dd cfg" "counter_inv_2Dd cfg"
  "counter_call_2Dd fuel True cfg" "counter_known_2Dd cfg" "\<lambda>l. thread_index l < width cfg" counter_hist for cfg fuel
proof (unfold_locales, goal_cases)
  case (1 t s g g')
  then show ?case by (rule counter_known_env_2Dd)
next
  case (2 t s g l c)
  show ?case
    by (cases c; simp only: counter_call_2Dd_def counter_call.case increment_2Dd_def decrement_2Dd_def)
      (use increment_ok_2Dd [OF 2] decrement_ok_2Dd [OF 2] in \<open>auto simp: counter_post_2Dd_def simp del: ok.simps\<close>)
qed

section \<open>Properties\<close>

lemma create_counter_known_2Dd:
  assumes c: "create_counter_2Dd nt w d mode bound = Some (cfg, g)"
    and u: "1 \<le> width cfg" "width cfg < 4294967296" "1 \<le> depth cfg" "depth cfg < W64"
  shows "counter_known_2Dd cfg t (0, 0) g"
proof -
  have cfg: "random_hops cfg = 2" "global_PWindow g = 0" "global_GWindow g = 0" "incs g = []" "decs g = []"
    "cnt_array g = replicate (width cfg) \<lparr>cd_get_count = 0, cd_put_count = 0\<rparr>"
    using c by (auto simp: create_counter_2Dd_def split: option.splits)
  have "total_2Dd g = 0" by (simp add: total_2Dd_def cfg map_replicate_const sum_list_replicate cval_def)
  then show ?thesis using u by (simp add: counter_known_2Dd_def counter_inv_2Dd_def room2Dd_def cfg ds2Dd_ok_def W64_def)
qed

lemma counter_2Dd_put_window:
  assumes c: "create_counter_2Dd nt w d mode bound = Some (cfg, g0)"
    and u: "1 \<le> width cfg" "width cfg < 4294967296" "1 \<le> depth cfg" "depth cfg < W64"
    and ls: "length ls = length css" "\<forall>l \<in> set ls. thread_index l < width cfg"
    and run: "pool_reaches (room2Dd cfg) (client_pool (counter_call_2Dd fuel True cfg) css ls, g0) (ps, g)"
    and ij: "i < width cfg" "j < width cfg"
  shows "Fault \<notin> set ps \<and> puts_2Dd g i \<le> global_PWindow g \<and> global_PWindow g \<le> puts_2Dd g i + depth cfg \<and>
    puts_2Dd g i \<le> puts_2Dd g j + depth cfg"
proof -
  note k0 = create_counter_known_2Dd [OF c u]
  have i0: "counter_inv_2Dd cfg g0" using k0 by (simp add: counter_known_2Dd_def)
  note p = cntd_threads.pool_clients(1) [OF run, of "(0, 0)", OF k0 ls i0]
  then have "Fault \<notin> set ps" and b: "puts_2Dd g k \<le> global_PWindow g \<and> global_PWindow g \<le> puts_2Dd g k + depth cfg"
    if "k < width cfg" for k using that by (auto simp: counter_inv_2Dd_def)
  then show ?thesis using b [OF ij(1)] b [OF ij(2)] p by linarith
qed

lemma counter_2Dd_total:
  assumes c: "create_counter_2Dd nt w d mode bound = Some (cfg, g0)"
    and u: "1 \<le> width cfg" "width cfg < 4294967296" "1 \<le> depth cfg" "depth cfg < W64"
    and ls: "length ls = length css" "\<forall>l \<in> set ls. thread_index l < width cfg"
    and run: "pool_reaches (room2Dd cfg) (client_pool (counter_call_2Dd fuel True cfg) css ls, g0) (ps, g)"
    and rss: "map prog_result ps = map Some rss"
  shows "total_2Dd g + (\<Sum>t < length css. dec_results (css ! t) (rss ! t)) = (\<Sum>t < length css. count_list (css ! t) Inc)"
proof -
  let ?n = "length css"
  note k0 = create_counter_known_2Dd [OF c u]
  have i0: "counter_inv_2Dd cfg g0" using k0 by (simp add: counter_known_2Dd_def)
  note p = cntd_threads.pool_clients [OF run, of "(0, 0)", OF k0 ls i0]
  have t: "count_list (incs g) t = count_list (css ! t) Inc" "count_list (decs g) t = dec_results (css ! t) (rss ! t)"
    if "t < ?n" for t using p(2) [OF rss that] by (auto simp: counter_known_2Dd_def dest: counter_hist_run)
  have out: "count_list (incs g) t = 0" "count_list (decs g) t = 0" if "?n \<le> t" for t
    using p(3) [OF that] by (auto simp: counter_known_2Dd_def)
  have "length (incs g) = (\<Sum>t < ?n. count_list (css ! t) Inc)" "length (decs g) = (\<Sum>t < ?n. dec_results (css ! t) (rss ! t))"
    using length_by_thread [OF out(1)] length_by_thread [OF out(2)] t by simp_all
  then show ?thesis using p(1) by (simp add: counter_inv_2Dd_def)
qed

text \<open>
  C10. The 2Dd counter under concurrency. Any number of threads run any lists of
  increments and decrements, interleaved at every access to shared memory, from a new counter and as
  long as the 64-bit windows do not wrap. At every moment no thread has faulted, no sub-counter
  has been incremented beyond the put window, and the window is at most the depth ahead: the numbers of increments of any
  two sub-counters differ by at most the depth, although the window is
  shifted after looking at one sub-counter after the other. No update is lost: when all threads have
  finished, the sum of the sub-counters is the number of increments less the number of
  decrements that returned 1 (with \<^verbatim>\<open>VALIDATESIZE\<close>, 0 is the answer of a decrement that had no effect).
\<close>

theorem counter_2Dd_threads_exact:
  assumes "create_counter_2Dd nt w d mode bound = Some (cfg, g0)"
    and "1 \<le> width cfg" "width cfg < 4294967296" "1 \<le> depth cfg" "depth cfg < W64"
    and "length ls = length css" "\<forall>l \<in> set ls. thread_index l < width cfg"
    and "pool_reaches (room2Dd cfg) (client_pool (counter_call_2Dd fuel True cfg) css ls, g0) (ps, g)"
    and "i < width cfg" "j < width cfg"
  shows "Fault \<notin> set ps \<and> puts_2Dd g i \<le> global_PWindow g \<and> global_PWindow g \<le> puts_2Dd g i + depth cfg \<and>
    puts_2Dd g i \<le> puts_2Dd g j + depth cfg \<and>
    (\<forall>rss. map prog_result ps = map Some rss \<longrightarrow>
      total_2Dd g + (\<Sum>t < length css. dec_results (css ! t) (rss ! t)) = (\<Sum>t < length css. count_list (css ! t) Inc))"
  using counter_2Dd_put_window [OF assms] counter_2Dd_total [OF assms(1-8)] by blast

definition demo_run_2Dd :: "nat list \<Rightarrow> (counter2Dd, nat list) prog list \<times> counter2Dd" where
  "demo_run_2Dd is = sched (room2Dd (fst demo_counter_2Dd)) is
     (client_pool (counter_call_2Dd 12 True (fst demo_counter_2Dd)) [[Inc, Dec], [Inc, Inc]]
        [fresh_tl_2Dd (1, 2, 3) 0, fresh_tl_2Dd (4, 5, 6) 1], snd demo_counter_2Dd)"

lemma demo_run_2Dd_reaches:
  "pool_reaches (room2Dd (fst demo_counter_2Dd))
     (client_pool (counter_call_2Dd 12 True (fst demo_counter_2Dd)) [[Inc, Dec], [Inc, Inc]]
        [fresh_tl_2Dd (1, 2, 3) 0, fresh_tl_2Dd (4, 5, 6) 1], snd demo_counter_2Dd)
     (fst (demo_run_2Dd is), snd (demo_run_2Dd is))"
  unfolding demo_run_2Dd_def prod.collapse by (rule sched_reaches)

lemma demo_counter_2Dd_created: "create_counter_2Dd 2 3 4 0 0 = Some (fst demo_counter_2Dd, snd demo_counter_2Dd)"
  by (simp add: demo_counter_2Dd_def create_counter_2Dd_def calc_params_def bound64_def)

lemma demo_run_2Dd_results:
  "map prog_result (fst (demo_run_2Dd (concat (replicate 60 [0, 1])))) = map Some [[1, 1], [1, 1]]"
  by (simp add: demo_run_2Dd_def demo_counter_2Dd_eq client_pool_def counter_call_2Dd_def fresh_tl_2Dd_def
      room2Dd_def prog_unfold upt_rec cong: eval_cong)

theorem counter_2Dd_threads_exact_witness:
  "let (ps, g) = demo_run_2Dd (concat (replicate 60 [0, 1])) in
   Fault \<notin> set ps \<and> puts_2Dd g 0 \<le> global_PWindow g \<and> global_PWindow g \<le> puts_2Dd g 0 + depth (fst demo_counter_2Dd) \<and>
   puts_2Dd g 0 \<le> puts_2Dd g 1 + depth (fst demo_counter_2Dd) \<and>
   total_2Dd g + (\<Sum>t < length [[Inc, Dec], [Inc, Inc]]. dec_results ([[Inc, Dec], [Inc, Inc]] ! t) ([[1, 1], [1, 1]] ! t)) =
     (\<Sum>t < length [[Inc, Dec], [Inc, Inc]]. count_list ([[Inc, Dec], [Inc, Inc]] ! t) Inc)"
proof -
  let ?ls = "[fresh_tl_2Dd (1, 2, 3) 0, fresh_tl_2Dd (4, 5, 6) 1]" and ?cfg = "fst demo_counter_2Dd"
  have u: "1 \<le> width ?cfg" "width ?cfg < 4294967296" "1 \<le> depth ?cfg" "depth ?cfg < W64" "length ?ls = length [[Inc, Dec], [Inc, Inc]]"
    "\<forall>l \<in> set ?ls. thread_index l < width ?cfg" "0 < width ?cfg" "1 < width ?cfg"
    by (simp_all add: demo_counter_2Dd_eq W64_def fresh_tl_2Dd_def)
  show ?thesis unfolding Let_def case_prod_unfold
    using counter_2Dd_threads_exact [OF demo_counter_2Dd_created u(1-6) demo_run_2Dd_reaches u(7,8)] demo_run_2Dd_results by blast
qed

end
