(* ===== verification/Relaxed_Queue.thy ===== *)
theory Relaxed_Queue
  imports Relaxed_Stack
begin

text \<open>
  What the decoupled 2D windows promise of a queue: an abstract queue of sub-queues under a put and a
  get window, and the proof that it is k-out-of-order. The abstract state has, for every
  sub-queue, all items ever enqueued on it and how many of them have been dequeued, the two windows, and the items
  enqueued so far, latest first. An enqueue adds to a sub-queue that is below the put window, a
  dequeue takes the first item of a sub-queue below the get window, and a window moves up by the depth only
  if no sub-queue is left for it.

  \<open>older\<close> counts the items of the queue that were enqueued before a given one: it is how far
  from the head of a strict queue that item is. The theorem \<open>deq_older_bound\<close> bounds it, for every item a
  dequeue may return, by \<open>depth * (width - 1)\<close>.
\<close>

section \<open>The abstract queue\<close>

record 'a wqueue =
  q_items :: "'a list list"
  q_gets :: "nat list"
  q_put_max :: nat
  q_get_max :: nat
  q_hist :: "'a list"

datatype 'a queue_event = Enqueued 'a | Dequeued 'a | DequeuedNull

text \<open>\<open>spec_queue w d\<close>: a queue of \<open>w\<close> sub-queues with window depth \<open>d\<close>.\<close>

inductive spec_queue :: "nat \<Rightarrow> nat \<Rightarrow> 'a wqueue \<Rightarrow> 'a queue_event \<Rightarrow> 'a wqueue \<Rightarrow> bool" for w d where
  spec_enq: "i < w \<Longrightarrow>
     m = q_put_max s \<or> m = q_put_max s + d \<and> (\<forall>j < w. length (q_items s ! j) = q_put_max s) \<Longrightarrow>
     length (q_items s ! i) < m \<Longrightarrow> p \<notin> set (q_hist s) \<Longrightarrow>
     spec_queue w d s (Enqueued p)
       (s\<lparr>q_items := (q_items s)[i := q_items s ! i @ [p]], q_put_max := m, q_hist := p # q_hist s\<rparr>)"
| spec_deq: "i < w \<Longrightarrow>
     m = q_get_max s \<or> m = q_get_max s + d \<and>
       (\<forall>j < w. q_gets s ! j = q_get_max s \<or> q_gets s ! j = length (q_items s ! j)) \<and>
       (\<exists>j < w. q_gets s ! j \<noteq> length (q_items s ! j)) \<Longrightarrow>
     q_gets s ! i < m \<Longrightarrow> q_gets s ! i < length (q_items s ! i) \<Longrightarrow> p = q_items s ! i ! (q_gets s ! i) \<Longrightarrow>
     spec_queue w d s (Dequeued p) (s\<lparr>q_gets := (q_gets s)[i := q_gets s ! i + 1], q_get_max := m\<rparr>)"
| spec_deq_null: "\<forall>j < w. q_gets s ! j = length (q_items s ! j) \<Longrightarrow> spec_queue w d s DequeuedNull s"

inductive_cases spec_enqE: "spec_queue w d s (Enqueued p) s'"
inductive_cases spec_deqE: "spec_queue w d s (Dequeued p) s'"
inductive_cases spec_deq_nullE: "spec_queue w d s DequeuedNull s'"

definition in_queue :: "'a wqueue \<Rightarrow> 'a list list" where
  "in_queue s = map2 drop (q_gets s) (q_items s)"

definition older :: "'a wqueue \<Rightarrow> 'a \<Rightarrow> nat" where
  "older s p = length (filter (\<lambda>q. push_time (q_hist s) q < push_time (q_hist s) p) (concat (in_queue s)))"

section \<open>The invariant\<close>

text \<open>
  Cut every sub-queue into rows of \<open>d\<close> items: an item is newer than every item of an
  earlier row, of any sub-queue, and than the items before it in its own sub-queue.
\<close>

definition row_ordered :: "nat \<Rightarrow> nat \<Rightarrow> 'a wqueue \<Rightarrow> bool" where
  "row_ordered w d s \<longleftrightarrow>
     (\<forall>i < w. \<forall>j < w. \<forall>a < length (q_items s ! i). \<forall>b < length (q_items s ! j).
        (a div d < b div d \<or> i = j \<and> a < b) \<longrightarrow>
        push_time (q_hist s) (q_items s ! i ! a) < push_time (q_hist s) (q_items s ! j ! b))"

definition queue_spec_inv :: "nat \<Rightarrow> nat \<Rightarrow> 'a wqueue \<Rightarrow> bool" where
  "queue_spec_inv w d s \<longleftrightarrow> 0 < d \<and>
     length (q_items s) = w \<and> length (q_gets s) = w \<and> (\<forall>i < w. set (q_items s ! i) \<subseteq> set (q_hist s)) \<and>
     d dvd q_put_max s \<and> d dvd q_get_max s \<and>
     (\<forall>i < w. length (q_items s ! i) \<le> q_put_max s \<and> q_put_max s \<le> length (q_items s ! i) + d \<and>
        q_gets s ! i \<le> q_get_max s \<and> q_get_max s \<le> q_gets s ! i + d \<and> q_gets s ! i \<le> length (q_items s ! i)) \<and>
     row_ordered w d s"

lemma row_less:
  fixes a d P :: nat
  assumes "d dvd P" "a < P" "0 < d"
  shows "a div d < P div d"
  using assms by (metis dvd_div_mult_self less_mult_imp_div_less)

lemma row_ge:
  fixes b d P :: nat
  assumes "d dvd P" "P \<le> b + d" "0 < d"
  shows "P div d \<le> b div d + 1"
proof -
  have "P div d \<le> (b + d) div d" using assms(2) by (rule div_le_mono)
  also have "\<dots> = b div d + 1" using assms(3) by (intro div_add_self2) simp
  finally show ?thesis .
qed

lemma row_ordered_enq:
  assumes inv: "queue_spec_inv w d s" and i: "i < w" and p: "p \<notin> set (q_hist s)"
    and m: "d dvd m" "\<And>j. j < w \<Longrightarrow> length (q_items s ! j) \<le> m" "m \<le> length (q_items s ! i) + d"
  shows "row_ordered w d (s\<lparr>q_items := (q_items s)[i := q_items s ! i @ [p]], q_put_max := m, q_hist := p # q_hist s\<rparr>)"
    (is "row_ordered w d ?s")
  unfolding row_ordered_def
proof (intro allI impI)
  fix k j a b
  assume k: "k < w" "j < w" and a: "a < length (q_items ?s ! k)" and b: "b < length (q_items ?s ! j)"
    and ord: "a div d < b div d \<or> k = j \<and> a < b"
  let ?S = "q_items s" and ?h = "q_hist s"
  have d: "0 < d" and len: "length ?S = w" and sub: "\<And>i. i < w \<Longrightarrow> set (?S ! i) \<subseteq> set ?h"
    using inv by (auto simp: queue_spec_inv_def)
  have item: "q_items ?s ! k ! a = (if k = i \<and> a = length (?S ! i) then p else ?S ! k ! a)"
    if "k < w" "a < length (q_items ?s ! k)" for k a
    using that len by (cases "k = i") (auto simp: nth_append)
  have old: "push_time (p # ?h) (?S ! k ! a) = push_time ?h (?S ! k ! a)" if "k < w" "a < length (?S ! k)" for k a
    using sub [OF that(1)] nth_mem [OF that(2)] p by (intro push_time_tl) auto
  have ak: "a < length (?S ! k)"
  proof (rule ccontr)
    assume "\<not> a < length (?S ! k)"
    then have a': "k = i" "a = length (?S ! i)" using a len k by (cases "k = i"; simp)+
    have "b < m \<or> j = i \<and> b = length (?S ! i)" using b m(2) [OF k(2)] len i by (cases "j = i") auto
    moreover have "b div d \<le> a div d" if "b < m"
      using row_less [OF m(1) that d] row_ge [OF m(1) _ d, of a] m(3) a' by simp
    moreover have "j = i \<Longrightarrow> b \<le> a" using b a' len i by simp
    ultimately show False using ord a' by auto
  qed
  show "push_time (q_hist ?s) (q_items ?s ! k ! a) < push_time (q_hist ?s) (q_items ?s ! j ! b)"
  proof (cases "j = i \<and> b = length (?S ! i)")
    case True
    have "push_time ?h (?S ! k ! a) < length ?h + 1" using push_time_le [of ?h "?S ! k ! a"] by simp
    then show ?thesis using True item [OF k(1) a] item [OF k(2) b] ak old [OF k(1) ak] by auto
  next
    case False
    then have bj: "b < length (?S ! j)" using b len i by (cases "j = i") auto
    have "push_time ?h (?S ! k ! a) < push_time ?h (?S ! j ! b)"
      using inv k ak bj ord unfolding queue_spec_inv_def row_ordered_def by blast
    then show ?thesis using False item [OF k(1) a] item [OF k(2) b] ak old [OF k(1) ak] old [OF k(2) bj] by auto
  qed
qed

lemma queue_spec_inv_step:
  assumes inv: "queue_spec_inv w d s" and step: "spec_queue w d s e s'"
  shows "queue_spec_inv w d s'"
  using step
proof cases
  case (spec_enq i m p)
  have win: "length (q_items s ! j) \<le> m \<and> m \<le> length (q_items s ! j) + d" if "j < w" for j
    using inv spec_enq(4) that by (auto simp: queue_spec_inv_def)
  have dvd: "d dvd m" using inv spec_enq(4) by (auto simp: queue_spec_inv_def)
  have "row_ordered w d s'" unfolding spec_enq(2) using inv spec_enq win dvd by (intro row_ordered_enq) auto
  moreover have "length (q_items s' ! j) \<le> q_put_max s' \<and> q_put_max s' \<le> length (q_items s' ! j) + d \<and>
      q_gets s' ! j \<le> q_get_max s' \<and> q_get_max s' \<le> q_gets s' ! j + d \<and> q_gets s' ! j \<le> length (q_items s' ! j)"
    if "j < w" for j
    using spec_enq win [OF that] inv that by (cases "i = j") (auto simp: queue_spec_inv_def)
  moreover have "set (q_items s' ! j) \<subseteq> set (q_hist s')" if "j < w" for j
    using inv that spec_enq by (cases "i = j") (auto simp: queue_spec_inv_def)
  ultimately show ?thesis using spec_enq inv dvd by (simp add: queue_spec_inv_def)
next
  case (spec_deq i m p)
  have dvd: "d dvd m" using inv spec_deq(4) by (auto simp: queue_spec_inv_def)
  have le: "m \<le> q_put_max s"
  proof (cases "m = q_get_max s")
    case False
    then obtain j where j: "j < w" "q_gets s ! j = q_get_max s" "q_gets s ! j \<noteq> length (q_items s ! j)"
      and m: "m = q_get_max s + d" using spec_deq(4) by auto
    then have "q_get_max s < q_put_max s" using inv by (force simp: queue_spec_inv_def)
    moreover have "d dvd q_put_max s - q_get_max s" using inv by (simp add: queue_spec_inv_def dvd_diff_nat)
    ultimately have "d \<le> q_put_max s - q_get_max s" by (simp add: dvd_imp_le)
    then show ?thesis using m \<open>q_get_max s < q_put_max s\<close> by simp
  next
    case True
    have b: "q_get_max s \<le> q_gets s ! i + d" "q_gets s ! i < q_put_max s"
      using inv spec_deq(3,6) by (auto simp: queue_spec_inv_def intro: less_le_trans)
    show ?thesis
    proof (rule ccontr)
      assume "\<not> m \<le> q_put_max s"
      then have lt: "q_put_max s < q_get_max s" using True by simp
      have "d dvd q_get_max s - q_put_max s" using inv by (simp add: queue_spec_inv_def dvd_diff_nat)
      then have "d \<le> q_get_max s - q_put_max s" using lt by (simp add: dvd_imp_le)
      then show False using b lt by simp
    qed
  qed
  have win: "q_gets s ! j \<le> m \<and> m \<le> q_gets s ! j + d" if "j < w" for j
    using inv spec_deq(4) that le by (fastforce simp: queue_spec_inv_def)
  have "length (q_items s' ! j) \<le> q_put_max s' \<and> q_put_max s' \<le> length (q_items s' ! j) + d \<and>
      q_gets s' ! j \<le> q_get_max s' \<and> q_get_max s' \<le> q_gets s' ! j + d \<and> q_gets s' ! j \<le> length (q_items s' ! j)"
    if "j < w" for j
    using spec_deq win [OF that] inv that by (cases "i = j") (auto simp: queue_spec_inv_def)
  then show ?thesis using spec_deq inv dvd by (simp add: queue_spec_inv_def row_ordered_def)
next
  case spec_deq_null
  then show ?thesis using inv by simp
qed

section \<open>The bound\<close>

lemma length_filter_last:
  assumes "\<And>b. b < length xs \<Longrightarrow> P (xs ! b) \<Longrightarrow> b < k"
  shows "length (filter P xs) \<le> k"
  by (rule length_filter_prefix) (use assms in \<open>force simp: not_less\<close>)

lemma deq_older_bound:
  assumes inv: "queue_spec_inv w d s" and step: "spec_queue w d s (Dequeued p) s'"
  shows "older s p \<le> d * (w - 1)"
  using step
proof cases
  case 1: (spec_deq i m)
  let ?P = "\<lambda>q. push_time (q_hist s) q < push_time (q_hist s) p"
  let ?ls = "map (\<lambda>xs. length (filter ?P xs)) (in_queue s)"
  have d: "0 < d" and len: "length (q_items s) = w" "length (q_gets s) = w" using inv by (auto simp: queue_spec_inv_def)
  have s': "queue_spec_inv w d s'" by (rule queue_spec_inv_step [OF inv step])
  then have dvd: "d dvd m" using 1(1) by (simp add: queue_spec_inv_def)
  have sub: "in_queue s ! j = drop (q_gets s ! j) (q_items s ! j)" if "j < w" for j using that len by (simp add: in_queue_def)
  have m: "m \<le> q_gets s ! j + d" if "j < w" "j \<noteq> i" for j
    using s' 1(1) that len by (auto simp: queue_spec_inv_def)
  have older: "b < (if j = i then 0 else d)" if j: "j < w" and b: "b < length (in_queue s ! j)" "?P (in_queue s ! j ! b)" for j b
  proof -
    let ?b = "q_gets s ! j + b"
    have lb: "?b < length (q_items s ! j)" "in_queue s ! j ! b = q_items s ! j ! ?b" using b(1) sub [OF j] by auto
    have "\<not> (q_gets s ! i div d < ?b div d \<or> i = j \<and> q_gets s ! i < ?b)"
    proof
      assume "q_gets s ! i div d < ?b div d \<or> i = j \<and> q_gets s ! i < ?b"
      then have "push_time (q_hist s) p < push_time (q_hist s) (q_items s ! j ! ?b)"
        using inv 1 j lb unfolding queue_spec_inv_def row_ordered_def by blast
      then show False using b(2) lb by simp
    qed
    then have r: "?b div d \<le> q_gets s ! i div d" "i = j \<Longrightarrow> b = 0" by auto
    show ?thesis
    proof (cases "j = i")
      case True
      then show ?thesis using r(2) b(2) lb 1 by simp
    next
      case False
      have "?b div d < m div d" using r(1) row_less [OF dvd 1(4) d] by simp
      then have "?b < m" using dvd d by (metis dvd_div_mult_self div_less_iff_less_mult)
      then show ?thesis using m [OF j False] False by simp
    qed
  qed
  have b: "?ls ! j \<le> (if i = j then 0 else d)" if "j < w" for j
  proof -
    have "length (filter ?P (in_queue s ! j)) \<le> (if j = i then 0 else d)"
      by (rule length_filter_last) (rule older [OF that])
    then show ?thesis using that len by (cases "i = j") (simp_all add: in_queue_def)
  qed
  have "sum_list ?ls \<le> d * (length ?ls - 1)"
  proof (rule sum_list_bound_except)
    show "i < length ?ls" "?ls ! i = 0" using b [OF 1(2)] 1(2) len by (simp_all add: in_queue_def)
    show "?ls ! j \<le> d" if "j < length ?ls" for j using b [of j] that len by (simp add: in_queue_def split: if_splits)
  qed
  then show ?thesis using len by (simp add: older_def filter_concat length_concat in_queue_def comp_def)
qed

end
