(* ===== verification/Queue2Dd.thy ===== *)
theory Queue2Dd
  imports Window2Dd Histories Relaxed_Queue Params
begin

text \<open>
  The 2Dd queue of \<^verbatim>\<open>src/2Dd-queue/2Dd-queue.c\<close>: an array of Michael-Scott queues, each with a
  get descriptor (head node and number of dequeues) and a put descriptor (tail node and number of
  enqueues), under the decoupled windows of \<open>Window2Dd\<close>. The union of \<^verbatim>\<open>put_count\<close> and
  \<^verbatim>\<open>get_count\<close> in \<^verbatim>\<open>descriptor_t\<close> is the one field \<open>qd_count\<close>. A descriptor is loaded as two
  words, the pointer first. The code is the one without the build option \<^verbatim>\<open>RELAXATION_ANALYSIS\<close>
  and with \<^verbatim>\<open>GC == 1\<close>.

  Alone, the queue is k-out-of-order with \<open>k = depth * (width - 1)\<close>, the bound the code
  documents. Together, the threads keep every sub-queue a first-in-first-out list, lose and duplicate
  nothing, and keep the enqueues within the put window.
\<close>

section \<open>State\<close>

record qdescriptor2Dd =
  qd_node :: ptr
  qd_count :: u64

record queue2Dd = sh2Dd +
  get_array :: "qdescriptor2Dd list"
  put_array :: "qdescriptor2Dd list"
  qmem :: queue_mem

section \<open>Operations\<close>

definition create_node_q2Dd :: "allocator \<Rightarrow> nat \<Rightarrow> int \<Rightarrow> int \<Rightarrow> ptr \<Rightarrow> (queue2Dd, ptr) prog" where
  "create_node_q2Dd al t key val nxt =
     Act (\<lambda>g. g\<lparr>qmem := qm_alloc t (al t (allocd (nodes (qmem g)))) \<lparr>n_key = key, n_val = val, n_next = nxt\<rparr> (qmem g)\<rparr>)
         (\<lambda>g. Ret (al t (allocd (nodes (qmem g)))))"

definition load_desc :: "(queue2Dd \<Rightarrow> qdescriptor2Dd list) \<Rightarrow> u64 \<Rightarrow> (queue2Dd, qdescriptor2Dd) prog" where
  "load_desc arr i =
     pbind (rd_opt (\<lambda>g. map_option qd_node (at (arr g) i))) (\<lambda>n.
     pbind (rd_opt (\<lambda>g. map_option qd_count (at (arr g) i))) (\<lambda>c.
     Ret \<lparr>qd_node = n, qd_count = c\<rparr>))"

definition load_count :: "u64 \<Rightarrow> (queue2Dd, u64) prog" where
  "load_count i = rd_opt (\<lambda>g. map_option qd_count (at (put_array g) i))"

definition load_next :: "ptr \<Rightarrow> (queue2Dd, ptr) prog" where
  "load_next p = rd_opt (\<lambda>g. map_option n_next (heap (nodes (qmem g)) p))"

definition load_val :: "ptr \<Rightarrow> (queue2Dd, int) prog" where
  "load_val p = rd_opt (\<lambda>g. map_option n_val (heap (nodes (qmem g)) p))"

definition free_node_q2Dd :: "nat \<Rightarrow> ptr \<Rightarrow> (queue2Dd, unit) prog" where
  "free_node_q2Dd t p = wr (\<lambda>g. g\<lparr>qmem := qm_free t p (qmem g)\<rparr>)"

definition put_cae_q2Dd :: "u64 \<Rightarrow> qdescriptor2Dd \<Rightarrow> qdescriptor2Dd \<Rightarrow> (queue2Dd, bool) prog" where
  "put_cae_q2Dd i descriptor new_descriptor =
     Act (\<lambda>g. if at (put_array g) i = Some descriptor then g\<lparr>put_array := (put_array g)[i := new_descriptor]\<rparr> else g)
         (\<lambda>g. Ret (at (put_array g) i = Some descriptor))"

text \<open>\<^verbatim>\<open>enq_cas\<close> links the new node behind \<open>tail\<close>; the sub-queue \<open>i\<close> is for the ghost field only.\<close>

definition enq_cas_q2Dd :: "u64 \<Rightarrow> ptr \<Rightarrow> ptr \<Rightarrow> (queue2Dd, bool) prog" where
  "enq_cas_q2Dd i tail new_node =
     Act (\<lambda>g. if map_option n_next (heap (nodes (qmem g)) tail) = Some NULL
              then g\<lparr>qmem := qm_link i tail new_node (qmem g)\<rparr> else g)
         (\<lambda>g. case heap (nodes (qmem g)) tail of None \<Rightarrow> Fault | Some nd \<Rightarrow> Ret (n_next nd = NULL))"

definition deq_cae_q2Dd :: "u64 \<Rightarrow> qdescriptor2Dd \<Rightarrow> qdescriptor2Dd \<Rightarrow> (queue_mem \<Rightarrow> queue_mem) \<Rightarrow> (queue2Dd, bool) prog" where
  "deq_cae_q2Dd i read_des new_des ghost =
     Act (\<lambda>g. if at (get_array g) i = Some read_des
              then g\<lparr>get_array := (get_array g)[i := new_des], qmem := ghost (qmem g)\<rparr> else g)
         (\<lambda>g. Ret (at (get_array g) i = Some read_des))"

fun enqueue_loop_2Dd ::
  "nat \<Rightarrow> nat \<Rightarrow> ds2Dd \<Rightarrow> ptr \<Rightarrow> tl2Dd \<Rightarrow> bool \<Rightarrow> (queue2Dd, int \<times> tl2Dd) prog" where
  "enqueue_loop_2Dd 0 fuel cfg new_node l contention = NoFuel"
| "enqueue_loop_2Dd (Suc n) fuel cfg new_node l contention =
     pbind (put_window_2Dd fuel cfg (load_desc put_array) qd_count l contention) (\<lambda>(descriptor, l).
     let tail = qd_node descriptor;
         new_count = add64 (qd_count descriptor) 1;
         fail_l = l\<lparr>my_put_cas_fail_count := add64 (my_put_cas_fail_count l) 1\<rparr>
     in pbind (load_next tail) (\<lambda>nxt.
        if nxt = NULL then
          pbind (load_count (thread_index l)) (\<lambda>put_count.
          if put_count \<ge> thread_PWindow l then enqueue_loop_2Dd n fuel cfg new_node l contention
          else pbind (enq_cas_q2Dd (thread_index l) tail new_node) (\<lambda>success.
            if success then
              pbind (put_cae_q2Dd (thread_index l) descriptor \<lparr>qd_node = new_node, qd_count = new_count\<rparr>) (\<lambda>_. Ret (1, l))
            else enqueue_loop_2Dd n fuel cfg new_node fail_l True))
        else
          pbind (load_next tail) (\<lambda>nxt.
          pbind (put_cae_q2Dd (thread_index l) descriptor \<lparr>qd_node = nxt, qd_count = new_count\<rparr>) (\<lambda>success.
          enqueue_loop_2Dd n fuel cfg new_node fail_l (contention \<or> \<not> success)))))"

definition enqueue_2Dd ::
  "allocator \<Rightarrow> nat \<Rightarrow> ds2Dd \<Rightarrow> nat \<Rightarrow> int \<Rightarrow> int \<Rightarrow> tl2Dd \<Rightarrow> (queue2Dd, int \<times> tl2Dd) prog" where
  "enqueue_2Dd al fuel cfg t key val l =
     pbind (create_node_q2Dd al t key val NULL) (\<lambda>new_node. enqueue_loop_2Dd fuel fuel cfg new_node l False)"

fun dequeue_loop_2Dd :: "nat \<Rightarrow> nat \<Rightarrow> ds2Dd \<Rightarrow> nat \<Rightarrow> tl2Dd \<Rightarrow> bool \<Rightarrow> (queue2Dd, int \<times> tl2Dd) prog" where
  "dequeue_loop_2Dd 0 fuel cfg t l contention = NoFuel"
| "dequeue_loop_2Dd (Suc n) fuel cfg t l contention =
     pbind (get_window_2Dd fuel cfg (load_desc get_array) load_count qd_count l contention) (\<lambda>(deq_descriptor, l).
     let head = qd_node deq_descriptor;
         fail_l = l\<lparr>my_get_cas_fail_count := add64 (my_get_cas_fail_count l) 1\<rparr>
     in pbind (load_desc put_array (thread_index l)) (\<lambda>enq_descriptor.
        let tail = qd_node enq_descriptor
        in if head = tail then
             pbind (load_next head) (\<lambda>nxt.
             if nxt = NULL then Ret (0, l\<lparr>my_null_count := add64 (my_null_count l) 1\<rparr>)
             else
               pbind (load_next tail) (\<lambda>nxt.
               pbind (put_cae_q2Dd (thread_index l) enq_descriptor \<lparr>qd_node = nxt, qd_count = add64 (qd_count enq_descriptor) 1\<rparr>) (\<lambda>success.
               dequeue_loop_2Dd n fuel cfg t fail_l (contention \<or> \<not> success))))
           else
             pbind (load_next head) (\<lambda>nxt.
             pbind (deq_cae_q2Dd (thread_index l) deq_descriptor \<lparr>qd_node = nxt, qd_count = add64 (qd_count deq_descriptor) 1\<rparr>
                      (qm_take t head nxt)) (\<lambda>success.
             if success then
               pbind (load_next head) (\<lambda>nxt.
               pbind (load_val nxt) (\<lambda>val.
               pbind (free_node_q2Dd t head) (\<lambda>_. Ret (val, l))))
             else dequeue_loop_2Dd n fuel cfg t fail_l True))))"

definition dequeue_2Dd :: "nat \<Rightarrow> ds2Dd \<Rightarrow> nat \<Rightarrow> tl2Dd \<Rightarrow> (queue2Dd, int \<times> tl2Dd) prog" where
  "dequeue_2Dd fuel cfg t l = dequeue_loop_2Dd fuel fuel cfg t l False"

text \<open>\<^verbatim>\<open>queue_size\<close>: the inner loop walks one sub-queue from its head to its tail.\<close>

fun queue_walk_2Dd :: "nat \<Rightarrow> ptr \<Rightarrow> ptr \<Rightarrow> u64 \<Rightarrow> (queue2Dd, u64) prog" where
  "queue_walk_2Dd 0 head tail sz = NoFuel"
| "queue_walk_2Dd (Suc n) head tail sz =
     (if head \<noteq> tail then pbind (load_next head) (\<lambda>head. queue_walk_2Dd n head tail (add64 sz 1)) else Ret sz)"

fun queue_size_loop_2Dd :: "nat \<Rightarrow> u64 list \<Rightarrow> u64 \<Rightarrow> (queue2Dd, u64) prog" where
  "queue_size_loop_2Dd fuel [] sz = Ret sz"
| "queue_size_loop_2Dd fuel (q # qs) sz =
     pbind (rd_opt (\<lambda>g. map_option qd_node (at (get_array g) q))) (\<lambda>head.
     pbind (rd_opt (\<lambda>g. map_option qd_node (at (put_array g) q))) (\<lambda>tail.
     pbind (queue_walk_2Dd fuel head tail sz) (\<lambda>sz.
     queue_size_loop_2Dd fuel qs sz)))"

definition queue_size_2Dd :: "nat \<Rightarrow> ds2Dd \<Rightarrow> (queue2Dd, u64) prog" where
  "queue_size_2Dd fuel cfg = queue_size_loop_2Dd fuel [0 ..< width cfg] 0"

definition create_queue_2Dd ::
  "allocator \<Rightarrow> nat \<Rightarrow> mnode \<Rightarrow> u64 \<Rightarrow> u64 \<Rightarrow> u64 \<Rightarrow> nat \<Rightarrow> u64 \<Rightarrow> (ds2Dd \<times> queue2Dd) option" where
  "create_queue_2Dd al t junk num_threads w d mode bound =
     (case calc_params 1 keep32 keep64 bound32 mode num_threads w d bound of
        None \<Rightarrow> None
      | Some (w, d, bound) \<Rightarrow>
          let m = add_sentinels al t junk w;
              win = initialize_global_window_2Dd d \<lparr>global_PWindow = 0, global_GWindow = 0\<rparr>;
              arr = map (\<lambda>q. \<lparr>qd_node = hd q, qd_count = 0\<rparr>) (links m)
          in Some (\<lparr>random_hops = 2, width = w, depth = d, relaxation_bound = bound, k_mode = mode\<rparr>,
                   \<lparr>global_PWindow = global_PWindow win, global_GWindow = global_GWindow win,
                    get_array = arr, put_array = arr, qmem = m\<rparr>))"

lemmas queue2Dd_unfold [prog_unfold] =
  create_node_q2Dd_def load_desc_def load_count_def load_next_def load_val_def free_node_q2Dd_def put_cae_q2Dd_def
  enq_cas_q2Dd_def deq_cae_q2Dd_def enqueue_2Dd_def dequeue_2Dd_def queue_size_2Dd_def
  enqueue_loop_2Dd.simps(2) [of "pred_numeral k" for k, folded numeral_eq_Suc]
  dequeue_loop_2Dd.simps(2) [of "pred_numeral k" for k, folded numeral_eq_Suc]
  queue_walk_2Dd.simps(2) [of "pred_numeral k" for k, folded numeral_eq_Suc]

section \<open>Abstraction\<close>

definition ends :: "qdescriptor2Dd list \<Rightarrow> tops" where
  "ends arr = map (\<lambda>d. (qd_node d, qd_count d)) arr"

abbreviation heads_2Dd :: "queue2Dd \<Rightarrow> tops" where
  "heads_2Dd g \<equiv> ends (get_array g)"

abbreviation tails_2Dd :: "queue2Dd \<Rightarrow> tops" where
  "tails_2Dd g \<equiv> ends (put_array g)"

definition queue_inv_2Dd :: "ds2Dd \<Rightarrow> queue2Dd \<Rightarrow> bool" where
  "queue_inv_2Dd cfg g \<longleftrightarrow> length (links (qmem g)) = width cfg \<and> queues_ok (qmem g) (heads_2Dd g) (tails_2Dd g)"

definition abs_queue_2Dd :: "queue2Dd \<Rightarrow> ptr wqueue" where
  "abs_queue_2Dd g = \<lparr>q_items = map tl (links (qmem g)), q_gets = map qd_count (get_array g),
     q_put_max = global_PWindow g, q_get_max = global_GWindow g, q_hist = hist (nodes (qmem g))\<rparr>"

lemma ends_simps [simp]:
  "length (ends arr) = length arr" "i < length arr \<Longrightarrow> ends arr ! i = (qd_node (arr ! i), qd_count (arr ! i))"
  "ends (arr[i := d]) = (ends arr)[i := (qd_node d, qd_count d)]"
  by (simp_all add: ends_def map_update)

lemma queue_invD:
  assumes "queue_inv_2Dd cfg g"
  shows "length (links (qmem g)) = width cfg" "queues_ok (qmem g) (heads_2Dd g) (tails_2Dd g)"
    "length (get_array g) = width cfg" "length (put_array g) = width cfg"
  using assms queues_okD(4,5) [of "qmem g" "heads_2Dd g" "tails_2Dd g"] by (auto simp: queue_inv_2Dd_def)

text \<open>Where the head and the tail of a sub-queue are.\<close>

lemma queue_inv_place:
  assumes "queue_inv_2Dd cfg g" "i < width cfg"
  shows "place (qmem g) i (qd_count (get_array g ! i)) (qd_node (get_array g ! i))"
    "place (qmem g) i (qd_count (put_array g ! i)) (qd_node (put_array g ! i))"
    "qd_count (get_array g ! i) \<le> qd_count (put_array g ! i)"
    "qd_count (put_array g ! i) < length (links (qmem g) ! i)" "length (links (qmem g) ! i) \<le> qd_count (put_array g ! i) + 2"
  using queues_okD(6) [OF queue_invD(2) [OF assms(1)], of i] queue_invD [OF assms(1)] assms(2)
  by (auto simp: place_def sub_ok_def)

lemma place_next:
  assumes "queues_ok m hs ts" "place m i k p"
  obtains nd where "heap (nodes m) p = Some nd" "n_next nd = NULL \<longleftrightarrow> k + 1 = length (links m ! i)"
    "k + 1 < length (links m ! i) \<Longrightarrow> place m i (k + 1) (n_next nd)"
proof -
  have p: "i < length (links m)" "k < length (links m ! i)" "links m ! i ! k = p" using assms(2) by (auto simp: place_def)
  obtain nd where "heap (nodes m) p = Some nd" using links_null(2) [OF assms(1) p(1,2)] p(3) by blast
  then show thesis using that links_next [OF assms(1) p(1,2), of nd] p by (auto simp: place_def)
qed

section \<open>Running alone\<close>

lemma qdescriptor2Dd_eta [simp]: "\<lparr>qd_node = qd_node d, qd_count = qd_count d\<rparr> = (d :: qdescriptor2Dd)"
  by simp

interpretation que: loads2Dd "load_desc put_array" "load_desc get_array" load_count qd_count qd_count
  "\<lambda>g. (!) (put_array g)" "\<lambda>g. (!) (get_array g)" "\<lambda>g. min (length (get_array g)) (length (put_array g))"
  by unfold_locales (simp_all add: load_desc_def load_count_def)

lemma wp_loads:
  "wp (load_next p) Q g = (\<exists>nd. heap (nodes (qmem g)) p = Some nd \<and> Q (n_next nd) g)"
  "wp (load_val p) R g = (\<exists>nd. heap (nodes (qmem g)) p = Some nd \<and> R (n_val nd) g)"
  "i < length (put_array g) \<Longrightarrow> wp (load_count i) Q g = Q (qd_count (put_array g ! i)) g"
  "i < length (arr g) \<Longrightarrow> wp (load_desc arr i) S g = S (arr g ! i) g"
  by (auto simp: load_next_def load_val_def load_count_def load_desc_def)

lemma wp_cas:
  "wp (put_cae_q2Dd i d d') Q g =
     (if at (put_array g) i = Some d then Q True (g\<lparr>put_array := (put_array g)[i := d']\<rparr>) else Q False g)"
  "wp (deq_cae_q2Dd i d d' gh) Q g =
     (if at (get_array g) i = Some d then Q True (g\<lparr>get_array := (get_array g)[i := d'], qmem := gh (qmem g)\<rparr>) else Q False g)"
  "heap (nodes (qmem g)) p = Some nd \<Longrightarrow> wp (enq_cas_q2Dd i p x) Q g =
     (if n_next nd = NULL then Q True (g\<lparr>qmem := qm_link i p x (qmem g)\<rparr>) else Q False g)"
  "wp (free_node_q2Dd t p) R g = R () (g\<lparr>qmem := qm_free t p (qmem g)\<rparr>)"
  "wp (create_node_q2Dd al t key val nxt) S g = S (al t (allocd (nodes (qmem g))))
     (g\<lparr>qmem := qm_alloc t (al t (allocd (nodes (qmem g)))) \<lparr>n_key = key, n_val = val, n_next = nxt\<rparr> (qmem g)\<rparr>)"
  by (simp_all add: put_cae_q2Dd_def deq_cae_q2Dd_def enq_cas_q2Dd_def free_node_q2Dd_def create_node_q2Dd_def)

text \<open>A queue at rest: no enqueue is half done, and all enqueues and dequeues lie in the windows.\<close>

definition quiet_queue_2Dd :: "ds2Dd \<Rightarrow> queue2Dd \<Rightarrow> bool" where
  "quiet_queue_2Dd cfg g \<longleftrightarrow> ds2Dd_ok cfg \<and> queue_inv_2Dd cfg g \<and>
     (\<forall>i < width cfg. length (links (qmem g) ! i) = qd_count (put_array g ! i) + 1) \<and>
     win_inv2Dd cfg (global_PWindow g) (global_GWindow g) (\<lambda>i. qd_count (put_array g ! i)) (\<lambda>i. qd_count (get_array g ! i))"

lemma quiet_que:
  assumes "quiet_queue_2Dd cfg g" "room2Dd cfg g"
  shows "que.quiet cfg g"
  using assms queue_invD(3,4) [of cfg g] by (simp add: quiet_queue_2Dd_def que.quiet_def)

definition enqueued_2Dd :: "ds2Dd \<Rightarrow> queue2Dd \<Rightarrow> ptr \<Rightarrow> int \<Rightarrow> int \<times> tl2Dd \<Rightarrow> queue2Dd \<Rightarrow> bool" where
  "enqueued_2Dd cfg g p val = (\<lambda>(r, l') g'. r = 1 \<and> quiet_queue_2Dd cfg g' \<and> thread_index l' < width cfg \<and>
     global_PWindow g' \<le> global_PWindow g + depth cfg \<and> global_GWindow g' = global_GWindow g \<and>
     node_val (nodes (qmem g')) p = val \<and>
     (\<forall>q \<in> set (allocd (nodes (qmem g))). q \<noteq> p \<longrightarrow> node_val (nodes (qmem g')) q = node_val (nodes (qmem g)) q) \<and>
     spec_queue (width cfg) (depth cfg) (abs_queue_2Dd g) (Enqueued p) (abs_queue_2Dd g'))"

definition dequeued_2Dd :: "ds2Dd \<Rightarrow> queue2Dd \<Rightarrow> int \<times> tl2Dd \<Rightarrow> queue2Dd \<Rightarrow> bool" where
  "dequeued_2Dd cfg g = (\<lambda>(r, l') g'. quiet_queue_2Dd cfg g' \<and> thread_index l' < width cfg \<and>
     global_PWindow g' = global_PWindow g \<and> global_GWindow g' \<le> global_GWindow g + depth cfg \<and>
     heap (nodes (qmem g')) = heap (nodes (qmem g)) \<and>
     (r = 0 \<and> spec_queue (width cfg) (depth cfg) (abs_queue_2Dd g) DequeuedNull (abs_queue_2Dd g') \<or>
      (\<exists>p. r = node_val (nodes (qmem g)) p \<and> spec_queue (width cfg) (depth cfg) (abs_queue_2Dd g) (Dequeued p) (abs_queue_2Dd g'))))"

lemma queue_inv_frame [simp]:
  "queue_inv_2Dd cfg (g\<lparr>global_PWindow := w\<rparr>) = queue_inv_2Dd cfg g"
  "queue_inv_2Dd cfg (g\<lparr>global_GWindow := w\<rparr>) = queue_inv_2Dd cfg g"
  by (simp_all add: queue_inv_2Dd_def)

text \<open>An enqueue that runs alone: link the node behind the tail, then advance the tail.\<close>

lemma enqueue_commit_2Dd:
  assumes q: "quiet_queue_2Dd cfg g" and room: "room2Dd cfg g"
    and p: "unlinked (qmem g) t p" "heap (nodes (qmem g)) p = Some nd" "n_next nd = NULL" "n_val nd = val"
    and post: "put_post_2Dd cfg ((!) (put_array g)) qd_count g (d, l') g'"
    and h: "h = g'\<lparr>qmem := qm_link (thread_index l') (qd_node d) p (qmem g'),
                   put_array := (put_array g')[thread_index l' := \<lparr>qd_node = p, qd_count = add64 (qd_count d) 1\<rparr>]\<rparr>"
  shows "enqueued_2Dd cfg g p val (1, l') h"
proof -
  let ?i = "thread_index l'" and ?m = "qmem g"
  let ?m' = "qm_link ?i (qd_node d) p ?m"
  have i: "?i < width cfg" and d: "d = put_array g ! ?i" and lt: "qd_count d < global_PWindow g'"
    and P: "global_PWindow g' = global_PWindow g \<or>
      global_PWindow g' = global_PWindow g + depth cfg \<and> (\<forall>j < width cfg. qd_count (put_array g ! j) = global_PWindow g)"
    and same: "put_array g' = put_array g" "get_array g' = get_array g" "qmem g' = qmem g" "global_GWindow g' = global_GWindow g"
    using post by (auto simp: put_post_2Dd_def)
  have inv: "queue_inv_2Dd cfg g" and len: "\<And>j. j < width cfg \<Longrightarrow> length (links ?m ! j) = qd_count (put_array g ! j) + 1"
    and win: "win_inv2Dd cfg (global_PWindow g) (global_GWindow g) (\<lambda>i. qd_count (put_array g ! i)) (\<lambda>i. qd_count (get_array g ! i))"
    using q by (auto simp: quiet_queue_2Dd_def)
  note I = queue_invD [OF inv] and pl = queue_inv_place [OF inv i]
  have "global_PWindow g' < W64" using P room by (auto simp: room2Dd_def)
  then have add: "add64 (qd_count d) 1 = qd_count d + 1" using lt by (intro add64_eq) simp
  have e: "links ?m ! ?i ! snd (tails_2Dd g ! ?i) = qd_node d" and t: "tails_2Dd g ! ?i = (qd_node d, qd_count d)"
    using pl(2) i I d by (auto simp: place_def)
  have st: "queue_step t (?m, heads_2Dd g, tails_2Dd g) (?m', heads_2Dd g, tails_2Dd g)"
    using qs_link [of ?i ?m "tails_2Dd g" "qd_node d" t p nd "heads_2Dd g"] p e t len [OF i] i d I(1) by (simp add: unlinked_def)
  have ok1: "queues_ok ?m' (heads_2Dd g) (tails_2Dd g)" by (rule queue_step_ok [OF st I(2)])
  have lk: "links ?m' ! ?i = links ?m ! ?i @ [p]" "length (links ?m') = width cfg" using i I(1) by (simp_all add: qm_link_links)
  have ok2: "queues_ok ?m' (heads_2Dd g) ((tails_2Dd g)[?i := (p, qd_count d + 1)])"
    using queues_ok_advance [OF ok1, of ?i] i lk len [OF i] t d by (simp add: nth_append)
  have inv': "queue_inv_2Dd cfg h" using ok2 lk add by (simp add: queue_inv_2Dd_def h same)
  have arr: "put_array h = (put_array g)[?i := \<lparr>qd_node = p, qd_count = qd_count d + 1\<rparr>]" "get_array h = get_array g" "qmem h = ?m'"
    by (simp_all add: h same add)
  have "(\<lambda>k. qd_count (put_array h ! k)) = (\<lambda>k. qd_count (put_array g ! k))(?i := qd_count (put_array g ! ?i) + 1)"
    using i I d by (auto simp: arr nth_list_update fun_eq_iff)
  then have win': "win_inv2Dd cfg (global_PWindow h) (global_GWindow h) (\<lambda>i. qd_count (put_array h ! i)) (\<lambda>i. qd_count (get_array h ! i))"
    using win_inv2Dd_put [OF win P i] lt d by (simp add: h same)
  have len': "length (links (qmem h) ! j) = qd_count (put_array h ! j) + 1" if "j < width cfg" for j
    using len [OF that] that i I d by (cases "j = ?i") (simp_all add: arr qm_link_links)
  have "links ?m ! ?i \<noteq> []" using len [OF i] by auto
  then have items: "map tl (links ?m') = (map tl (links ?m))[?i := tl (links ?m ! ?i) @ [p]]"
    by (simp add: qm_link_links map_update)
  have "p \<notin> set (hist (nodes ?m))" using p(1) by (simp add: unlinked_def mine_def)
  then have "spec_queue (width cfg) (depth cfg) (abs_queue_2Dd g) (Enqueued p) (abs_queue_2Dd h)"
    using spec_enq [of ?i "width cfg" "global_PWindow g'" "abs_queue_2Dd g" "depth cfg" p] i P lt d len I(1) items
    by (simp add: abs_queue_2Dd_def h same qm_link_def mem_publish_def)
  moreover have "node_val (nodes ?m') = node_val (nodes ?m)"
    by (auto simp: qm_link_def mem_publish_def mem_set_next_def node_val_def fun_eq_iff split: option.split)
  ultimately show ?thesis using inv' win' len' i P p q
    by (auto simp: enqueued_2Dd_def quiet_queue_2Dd_def h same node_val_def [of "nodes ?m"])
qed

lemma enqueue_loop_seq_2Dd:
  assumes q: "quiet_queue_2Dd cfg g" and room: "room2Dd cfg g" and l: "thread_index l < width cfg" and fuel: "fuel2Dd cfg \<le> fuel"
    and p: "unlinked (qmem g) t p" "heap (nodes (qmem g)) p = Some nd" "n_next nd = NULL" "n_val nd = val"
  shows "wp (enqueue_loop_2Dd (Suc n) fuel cfg p l False) (enqueued_2Dd cfg g p val) g"
  unfolding enqueue_loop_2Dd.simps wp_bind
proof (rule wp_mono [OF que.put_window_seq_2Dd [OF quiet_que [OF q room] l fuel]], goal_cases)
  case (1 r h)
  obtain d l' where r: "r = (d, l')" by (cases r)
  let ?i = "thread_index l'"
  have inv: "queue_inv_2Dd cfg g" using q by (simp add: quiet_queue_2Dd_def)
  have h: "?i < width cfg" "d = put_array g ! ?i" "qd_count d < thread_PWindow l'" "put_array h = put_array g" "qmem h = qmem g"
    using 1 by (auto simp: put_post_2Dd_def r)
  have a: "?i < length (put_array g)" using h(1) queue_invD(4) [OF inv] by simp
  have len: "qd_count d + 1 = length (links (qmem g) ! ?i)" using q h(1,2) by (simp add: quiet_queue_2Dd_def)
  have "place (qmem g) ?i (qd_count d) (qd_node d)" using queue_inv_place(2) [OF inv h(1)] h(2) by simp
  then obtain nl where nl: "heap (nodes (qmem g)) (qd_node d) = Some nl" "n_next nl = NULL"
    using place_next [OF queue_invD(2) [OF inv]] len by metis
  show ?case unfolding r prod.case Let_def
    using nl h a enqueue_commit_2Dd [OF q room p 1 [unfolded r] refl] by (simp add: wp_loads wp_cas)
qed

lemma quiet_alloc_2Dd:
  assumes q: "quiet_queue_2Dd cfg g" and np: "p \<noteq> NULL" "p \<notin> set (allocd (nodes (qmem g)))"
  shows "quiet_queue_2Dd cfg (g\<lparr>qmem := qm_alloc t p nd (qmem g)\<rparr>)" "unlinked (qm_alloc t p nd (qmem g)) t p"
    "heap (nodes (qm_alloc t p nd (qmem g))) p = Some nd"
proof -
  have inv: "queue_inv_2Dd cfg g" using q by (simp add: quiet_queue_2Dd_def)
  have "queue_inv_2Dd cfg (g\<lparr>qmem := qm_alloc t p nd (qmem g)\<rparr>)"
    using queues_ok_alloc [OF queue_invD(2) [OF inv] np(2,1), of t nd] queue_invD(1) [OF inv]
    by (simp add: queue_inv_2Dd_def) (simp add: qm_alloc_def)
  then show "quiet_queue_2Dd cfg (g\<lparr>qmem := qm_alloc t p nd (qmem g)\<rparr>)"
    using q by (simp add: quiet_queue_2Dd_def) (simp add: qm_alloc_def)
  have "p \<notin> set (hist (nodes (qmem g)))" "p \<notin> set (concat (links (qmem g)))"
    using np(2) queues_allocd(1) [OF queue_invD(2) [OF inv]] queues_okD(8) [OF queue_invD(2) [OF inv]] by blast+
  then show "unlinked (qm_alloc t p nd (qmem g)) t p" "heap (nodes (qm_alloc t p nd (qmem g))) p = Some nd"
    by (simp_all add: unlinked_def mine_def qm_alloc_def)
qed

lemma enqueue_seq_2Dd:
  assumes al: "alloc_fresh al" and q: "quiet_queue_2Dd cfg g" and room: "room2Dd cfg g"
    and l: "thread_index l < width cfg" and fuel: "fuel2Dd cfg \<le> fuel" and p: "p = al t (allocd (nodes (qmem g)))"
  shows "wp (enqueue_2Dd al fuel cfg t key val l) (enqueued_2Dd cfg g p val) g"
proof -
  let ?nd = "\<lparr>n_key = key, n_val = val, n_next = NULL\<rparr>"
  let ?g = "g\<lparr>qmem := qm_alloc t p ?nd (qmem g)\<rparr>"
  obtain n where n: "fuel = Suc n" using fuel by (cases fuel) (auto simp: fuel2Dd_def)
  have np: "p \<noteq> NULL" "p \<notin> set (allocd (nodes (qmem g)))" using al p by (auto simp: alloc_fresh_def)
  note A = quiet_alloc_2Dd [OF q np, of t ?nd]
  have "wp (enqueue_loop_2Dd (Suc n) fuel cfg p l False) (enqueued_2Dd cfg ?g p val) ?g"
    using A room l fuel by (intro enqueue_loop_seq_2Dd [where t = t and nd = ?nd]) (auto simp: room2Dd_def)
  then have "wp (enqueue_loop_2Dd fuel fuel cfg p l False) (enqueued_2Dd cfg g p val) ?g"
    unfolding n by (rule wp_mono) (use np(2) in \<open>auto simp: enqueued_2Dd_def abs_queue_2Dd_def qm_alloc_def node_val_def\<close>)
  then show ?thesis by (simp add: enqueue_2Dd_def wp_cas p)
qed

text \<open>A dequeue that runs alone: advance the head, read the value of the next node, free the old sentinel.\<close>

lemma dequeue_commit_2Dd:
  assumes q: "quiet_queue_2Dd cfg g" and room: "room2Dd cfg g"
    and post: "get_post_2Dd cfg (\<lambda>i. qd_count (put_array g ! i)) ((!) (get_array g)) qd_count g (d, l') g'"
    and ne: "qd_count (put_array g ! thread_index l') \<noteq> qd_count d"
    and nd: "heap (nodes (qmem g)) (qd_node d) = Some nd"
    and h: "h = g'\<lparr>get_array := (get_array g')[thread_index l' := \<lparr>qd_node = n_next nd, qd_count = add64 (qd_count d) 1\<rparr>],
                   qmem := qm_free t (qd_node d) (qm_take t (qd_node d) (n_next nd) (qmem g'))\<rparr>"
  shows "dequeued_2Dd cfg g (node_val (nodes (qmem g)) (n_next nd), l') h \<and> (\<exists>nn. heap (nodes (qmem g)) (n_next nd) = Some nn)"
proof -
  let ?i = "thread_index l'" and ?m = "qmem g" and ?k = "qd_count d"
  let ?m1 = "qm_take t (qd_node d) (n_next nd) ?m"
  have i: "?i < width cfg" and d: "d = get_array g ! ?i"
    and same: "put_array g' = put_array g" "get_array g' = get_array g" "qmem g' = qmem g" "global_PWindow g' = global_PWindow g"
    using post by (auto simp: get_post_2Dd_def)
  have inv: "queue_inv_2Dd cfg g" and len: "\<And>j. j < width cfg \<Longrightarrow> length (links ?m ! j) = qd_count (put_array g ! j) + 1"
    and win: "win_inv2Dd cfg (global_PWindow g) (global_GWindow g) (\<lambda>i. qd_count (put_array g ! i)) (\<lambda>i. qd_count (get_array g ! i))"
    using q by (auto simp: quiet_queue_2Dd_def)
  note I = queue_invD [OF inv] and pl = queue_inv_place [OF inv i]
  have lt: "?k < global_GWindow g'"
    and G: "global_GWindow g' = global_GWindow g \<or> global_GWindow g' = global_GWindow g + depth cfg \<and>
      (\<forall>j < width cfg. qd_count (get_array g ! j) = global_GWindow g \<or> qd_count (put_array g ! j) = qd_count (get_array g ! j)) \<and>
      (\<exists>j < width cfg. qd_count (put_array g ! j) \<noteq> qd_count (get_array g ! j))"
    using post ne i d by (auto simp: get_post_2Dd_def)
  have kp: "?k < qd_count (put_array g ! ?i)" using pl(3) ne d by simp
  have pk: "place ?m ?i ?k (qd_node d)" using pl(1) d by simp
  have pn: "place ?m ?i (?k + 1) (n_next nd)" 
    by (rule place_next [OF I(2) pk]) (use nd kp len [OF i] in simp)
  have "global_GWindow g' < W64" using G room by (auto simp: room2Dd_def)
  then have add: "add64 ?k 1 = ?k + 1" using lt by (intro add64_eq) simp
  have hd: "heads_2Dd g ! ?i = (qd_node d, ?k)" "tails_2Dd g ! ?i = (qd_node (put_array g ! ?i), qd_count (put_array g ! ?i))"
    using i I d by simp_all
  have ok1: "queues_ok ?m1 ((heads_2Dd g)[?i := (n_next nd, ?k + 1)]) (tails_2Dd g)"
  proof -
    have "?i < length (links ?m)" "snd (heads_2Dd g ! ?i) < snd (tails_2Dd g ! ?i)" "?k = snd (heads_2Dd g ! ?i)"
      using i I(1) hd kp by simp_all
    note t = queues_ok_take [OF I(2) this, of t]
    have "links ?m ! ?i ! ?k = qd_node d" "links ?m ! ?i ! (?k + 1) = n_next nd" using pk pn by (simp_all add: place_def)
    then show ?thesis using t by (simp only:)
  qed
  have ok2: "queues_ok (qm_free t (qd_node d) ?m1) ((heads_2Dd g)[?i := (n_next nd, ?k + 1)]) (tails_2Dd g)"
    by (rule queues_ok_free [OF ok1]) (simp add: qm_take_def mem_remove_def)
  have arr: "get_array h = (get_array g)[?i := \<lparr>qd_node = n_next nd, qd_count = ?k + 1\<rparr>]" "put_array h = put_array g"
    and lk: "links (qmem h) = links ?m" and sel: "hist (nodes (qmem h)) = hist (nodes ?m)" "heap (nodes (qmem h)) = heap (nodes ?m)"
    by (simp_all add: h same add qm_take_def qm_free_def mem_remove_def mem_free_def)
  have inv': "queue_inv_2Dd cfg h" using ok2 lk I(1) arr add by (simp add: queue_inv_2Dd_def) (simp add: h same)
  have "(\<lambda>k. qd_count (get_array h ! k)) = (\<lambda>k. qd_count (get_array g ! k))(?i := qd_count (get_array g ! ?i) + 1)"
    using i I d by (auto simp: arr nth_list_update fun_eq_iff)
  then have win': "win_inv2Dd cfg (global_PWindow h) (global_GWindow h) (\<lambda>i. qd_count (put_array h ! i)) (\<lambda>i. qd_count (get_array h ! i))"
    using win_inv2Dd_get [OF win G i] lt ne d by (simp add: h same)
  let ?a = "abs_queue_2Dd g"
  have v: "q_gets ?a ! j = qd_count (get_array g ! j)" "length (q_items ?a ! j) = qd_count (put_array g ! j)" if "j < width cfg" for j
    using that I len by (simp_all add: abs_queue_2Dd_def)
  have G': "global_GWindow g' = q_get_max ?a \<or> global_GWindow g' = q_get_max ?a + depth cfg \<and>
      (\<forall>j < width cfg. q_gets ?a ! j = q_get_max ?a \<or> q_gets ?a ! j = length (q_items ?a ! j)) \<and>
      (\<exists>j < width cfg. q_gets ?a ! j \<noteq> length (q_items ?a ! j))"
  proof (cases "global_GWindow g' = global_GWindow g")
    case False
    then obtain j where "j < width cfg" "qd_count (put_array g ! j) \<noteq> qd_count (get_array g ! j)" using G by auto
    then show ?thesis using G False v by (force simp: abs_queue_2Dd_def)
  qed (simp add: abs_queue_2Dd_def)
  have it: "n_next nd = q_items ?a ! ?i ! (q_gets ?a ! ?i)"
    using pn i I(1) len [OF i] kp v(1) [OF i] d by (simp add: abs_queue_2Dd_def place_def nth_tl Suc_eq_plus1)
  have "q_gets ?a ! ?i < global_GWindow g'" "q_gets ?a ! ?i < length (q_items ?a ! ?i)" using v [OF i] lt kp d by simp_all
  from spec_deq [OF i G' this it]
  have "spec_queue (width cfg) (depth cfg) ?a (Dequeued (n_next nd)) (abs_queue_2Dd h)"
    using v(1) [OF i] lk sel(1) arr(1) d by (simp add: abs_queue_2Dd_def map_update) (simp add: h same)
  moreover have "\<exists>nn. heap (nodes ?m) (n_next nd) = Some nn" using place_next [OF I(2) pn] by metis
  ultimately show ?thesis using inv' win' len i G q lk arr sel
    by (auto simp: dequeued_2Dd_def quiet_queue_2Dd_def h same)
qed

lemma dequeue_null_2Dd:
  assumes q: "quiet_queue_2Dd cfg g"
    and post: "get_post_2Dd cfg (\<lambda>i. qd_count (put_array g ! i)) ((!) (get_array g)) qd_count g (d, l') g'"
    and eq: "qd_count (put_array g ! thread_index l') = qd_count d"
  shows "dequeued_2Dd cfg g (0, l'\<lparr>my_null_count := n\<rparr>) g'"
proof -
  have i: "thread_index l' < width cfg" and g': "g' = g"
    and all: "\<forall>j < width cfg. qd_count (put_array g ! j) = qd_count (get_array g ! j)"
    using post eq by (auto simp: get_post_2Dd_def)
  have inv: "queue_inv_2Dd cfg g" using q by (simp add: quiet_queue_2Dd_def)
  have "spec_queue (width cfg) (depth cfg) (abs_queue_2Dd g) DequeuedNull (abs_queue_2Dd g)"
    using all q queue_invD [OF inv] by (intro spec_deq_null) (auto simp: abs_queue_2Dd_def quiet_queue_2Dd_def)
  then show ?thesis using q i g' by (simp add: dequeued_2Dd_def)
qed

lemma dequeue_seq_2Dd:
  assumes q: "quiet_queue_2Dd cfg g" and room: "room2Dd cfg g" and l: "thread_index l < width cfg" and fuel: "fuel2Dd cfg \<le> fuel"
  shows "wp (dequeue_2Dd fuel cfg t l) (dequeued_2Dd cfg g) g"
proof -
  obtain n where n: "fuel = Suc n" using fuel by (cases fuel) (auto simp: fuel2Dd_def)
  have inv: "queue_inv_2Dd cfg g" using q by (simp add: quiet_queue_2Dd_def)
  show ?thesis unfolding dequeue_2Dd_def n dequeue_loop_2Dd.simps wp_bind
  proof (rule wp_mono [OF que.get_window_seq_2Dd [OF quiet_que [OF q room] l fuel, unfolded n]], goal_cases)
    case (1 r h)
    obtain d l' where r: "r = (d, l')" by (cases r)
    note post = 1 [unfolded r]
    let ?i = "thread_index l'"
    have h: "?i < width cfg" "d = get_array g ! ?i" "put_array h = put_array g" "get_array h = get_array g" "qmem h = qmem g"
      using post by (auto simp: get_post_2Dd_def)
    have a: "?i < length (put_array g)" "?i < length (get_array g)" using h(1) queue_invD(3,4) [OF inv] by simp_all
    have pl: "place (qmem g) ?i (qd_count d) (qd_node d)" "place (qmem g) ?i (qd_count (put_array g ! ?i)) (qd_node (put_array g ! ?i))"
      using queue_inv_place(1,2) [OF inv h(1)] h(2) by simp_all
    obtain nd where nd: "heap (nodes (qmem g)) (qd_node d) = Some nd" "n_next nd = NULL \<longleftrightarrow> qd_count d + 1 = length (links (qmem g) ! ?i)"
      using place_next [OF queue_invD(2) [OF inv] pl(1)] by metis
    show ?case
    proof (cases "qd_count (put_array g ! ?i) = qd_count d")
      case True
      then have "qd_node (put_array g ! ?i) = qd_node d" "n_next nd = NULL"
        using pl nd(2) q h(1) by (auto simp: place_def quiet_queue_2Dd_def)
      then show ?thesis unfolding r prod.case Let_def
        using nd(1) h a dequeue_null_2Dd [OF q post True] by (simp add: wp_loads)
    next
      case False
      then have "qd_node d \<noteq> qd_node (put_array g ! ?i)" using pl place_inj [OF queue_invD(2) [OF inv]] by metis
      moreover obtain nn where "heap (nodes (qmem g)) (n_next nd) = Some nn"
        using dequeue_commit_2Dd [OF q room post False nd(1) refl] by blast
      ultimately show ?thesis unfolding r prod.case Let_def
        using nd(1) h a dequeue_commit_2Dd [OF q room post False nd(1) refl]
        by (auto simp: wp_loads wp_cas node_val_def qm_take_def mem_remove_def)
    qed
  qed
qed

section \<open>Calls one after the other\<close>

definition queue_call_2Dd :: "allocator \<Rightarrow> nat \<Rightarrow> ds2Dd \<Rightarrow> nat \<Rightarrow> queue_call \<Rightarrow> tl2Dd \<Rightarrow> (queue2Dd, int \<times> tl2Dd) prog" where
  "queue_call_2Dd al fuel cfg t c l =
     (case c of Enq key val \<Rightarrow> enqueue_2Dd al fuel cfg t key val l | Deq \<Rightarrow> dequeue_2Dd fuel cfg t l)"

text \<open>The invariant between calls, with a budget of \<open>n\<close> more calls.\<close>

definition queue_calls_inv_2Dd :: "allocator \<Rightarrow> nat \<Rightarrow> ds2Dd \<Rightarrow> nat \<Rightarrow> tl2Dd list \<Rightarrow> queue2Dd \<Rightarrow> bool" where
  "queue_calls_inv_2Dd al fuel cfg n ls g \<longleftrightarrow> alloc_fresh al \<and> fuel2Dd cfg \<le> fuel \<and> quiet_queue_2Dd cfg g \<and>
     queue_spec_inv (width cfg) (depth cfg) (abs_queue_2Dd g) \<and> (\<forall>l \<in> set ls. thread_index l < width cfg) \<and>
     global_PWindow g + (n + 1) * depth cfg < W64"

lemma queue_calls_room: "queue_calls_inv_2Dd al fuel cfg n ls g \<Longrightarrow> room2Dd cfg g"
  by (simp add: queue_calls_inv_2Dd_def room2Dd_def quiet_queue_2Dd_def win_inv2Dd_def distrib_right)

lemma queue_calls_step:
  assumes inv: "queue_calls_inv_2Dd al fuel cfg (Suc n) ls g" and q: "quiet_queue_2Dd cfg g'" and l: "thread_index l < width cfg"
    and P: "global_PWindow g' \<le> global_PWindow g + depth cfg"
    and st: "spec_queue (width cfg) (depth cfg) (abs_queue_2Dd g) e (abs_queue_2Dd g')"
  shows "queue_calls_inv_2Dd al fuel cfg n (ls[t := l]) g'"
proof -
  have "\<forall>k \<in> set (ls[t := l]). thread_index k < width cfg"
    using inv l set_update_subset_insert [of ls t l] by (auto simp: queue_calls_inv_2Dd_def)
  moreover have "queue_spec_inv (width cfg) (depth cfg) (abs_queue_2Dd g')"
    using queue_spec_inv_step [OF _ st] inv by (simp add: queue_calls_inv_2Dd_def)
  ultimately show ?thesis using inv q P by (simp add: queue_calls_inv_2Dd_def algebra_simps)
qed

text \<open>What the abstract queue lets a call do.\<close>

definition queue_spec :: "nat \<Rightarrow> nat \<Rightarrow> queue_call \<Rightarrow> ptr wqueue \<Rightarrow> int \<Rightarrow> ptr wqueue \<Rightarrow> bool" where
  "queue_spec w d c s r s' \<longleftrightarrow>
     (case c of
        Enq key val \<Rightarrow> r = 1 \<and> (\<exists>p. spec_queue w d s (Enqueued p) s')
      | Deq \<Rightarrow> r = 0 \<and> spec_queue w d s DequeuedNull s' \<or> (\<exists>p. spec_queue w d s (Dequeued p) s'))"

interpretation que_calls: budgeted_calls "queue_call_2Dd al fuel cfg" "queue_calls_inv_2Dd al fuel cfg" abs_queue_2Dd
  "queue_spec (width cfg) (depth cfg)" for al fuel cfg
proof
  fix n ls g t c
  assume inv: "queue_calls_inv_2Dd al fuel cfg (Suc n) ls g" and t: "t < length ls"
  then have c: "alloc_fresh al" "quiet_queue_2Dd cfg g" "thread_index (ls ! t) < width cfg" "fuel2Dd cfg \<le> fuel"
    by (simp_all add: queue_calls_inv_2Dd_def)
  note r = queue_calls_room [OF inv]
  show "wp (queue_call_2Dd al fuel cfg t c (ls ! t)) (\<lambda>(r, l) g'. queue_calls_inv_2Dd al fuel cfg n (ls[t := l]) g' \<and>
      queue_spec (width cfg) (depth cfg) c (abs_queue_2Dd g) r (abs_queue_2Dd g')) g"
  proof (cases c)
    case (Enq key val)
    show ?thesis unfolding Enq queue_call_2Dd_def queue_call.case
      by (rule wp_mono [OF enqueue_seq_2Dd [OF c(1,2) r c(3,4) refl]])
        (auto simp: enqueued_2Dd_def queue_spec_def intro: queue_calls_step [OF inv])
  next
    case Deq
    show ?thesis unfolding Deq queue_call_2Dd_def queue_call.case
      by (rule wp_mono [OF dequeue_seq_2Dd [OF c(2) r c(3,4)]])
        (auto simp: dequeued_2Dd_def queue_spec_def intro: queue_calls_step [OF inv])
  qed
qed

section \<open>What create\_queue sets up\<close>

lemma create_queue_ok:
  assumes c: "create_queue_2Dd al t junk nt w d mode bound = Some (cfg, g)" and al: "alloc_fresh al"
    and u: "1 \<le> width cfg" "width cfg < 4294967296" "1 \<le> depth cfg"
  shows "quiet_queue_2Dd cfg g" "queue_spec_inv (width cfg) (depth cfg) (abs_queue_2Dd g)"
    "global_PWindow g = depth cfg" "random_hops cfg = 2" "hist (nodes (qmem g)) = []" "taken (qmem g) = []"
proof -
  let ?m = "add_sentinels al t junk (width cfg)"
  have g: "g = \<lparr>global_PWindow = depth cfg, global_GWindow = depth cfg,
      get_array = map (\<lambda>q. \<lparr>qd_node = hd q, qd_count = 0\<rparr>) (links ?m), put_array = map (\<lambda>q. \<lparr>qd_node = hd q, qd_count = 0\<rparr>) (links ?m),
      qmem = ?m\<rparr>" and hops: "random_hops cfg = 2"
    using c by (auto simp: create_queue_2Dd_def initialize_global_window_2Dd_def Let_def split: option.splits)
  note S = add_sentinels_ok [OF al, of t junk "width cfg"]
  have one: "length (links ?m ! i) = 1" if "i < width cfg" for i using S(2,3) that by simp
  have "heads_2Dd g = map (\<lambda>q. (hd q, 0)) (links ?m)" "tails_2Dd g = map (\<lambda>q. (hd q, 0)) (links ?m)" by (simp_all add: g ends_def)
  then have "queue_inv_2Dd cfg g" using S(1,2) by (simp add: queue_inv_2Dd_def g)
  then show "quiet_queue_2Dd cfg g"
    using u hops S(2) one by (simp add: quiet_queue_2Dd_def g ds2Dd_ok_def win_inv2Dd_def W64_def)
  have "tl (links ?m ! i) = []" if "i < width cfg" for i using one [OF that] by (cases "links ?m ! i") auto
  then have "map tl (links ?m) = replicate (width cfg) []" using S(2) by (intro nth_equalityI) auto
  then have "abs_queue_2Dd g = \<lparr>q_items = replicate (width cfg) [], q_gets = replicate (width cfg) 0, q_put_max = depth cfg,
      q_get_max = depth cfg, q_hist = []\<rparr>"
    using S(2,4) by (simp add: abs_queue_2Dd_def g map_replicate_const comp_def)
  then show "queue_spec_inv (width cfg) (depth cfg) (abs_queue_2Dd g)" using u by (simp add: queue_spec_inv_def row_ordered_def)
  show "global_PWindow g = depth cfg" "random_hops cfg = 2" "hist (nodes (qmem g)) = []" "taken (qmem g) = []"
    using hops S by (simp_all add: g)
qed

section \<open>Properties\<close>

lemma dequeued_older:
  assumes inv: "queue_calls_inv_2Dd al fuel cfg n ls g" and d: "dequeued_2Dd cfg g (r, l') g'"
  shows "r = 0 \<and> concat (in_queue (abs_queue_2Dd g)) = [] \<or>
    (\<exists>p. p \<in> set (concat (in_queue (abs_queue_2Dd g))) \<and> r = node_val (nodes (qmem g)) p \<and>
       older (abs_queue_2Dd g) p \<le> depth cfg * (width cfg - 1))"
proof -
  let ?a = "abs_queue_2Dd g"
  have inv': "queue_spec_inv (width cfg) (depth cfg) ?a" using inv by (simp add: queue_calls_inv_2Dd_def)
  then have len: "length (q_items ?a) = width cfg" "length (q_gets ?a) = width cfg" by (auto simp: queue_spec_inv_def)
  then have nth: "in_queue ?a ! i = drop (q_gets ?a ! i) (q_items ?a ! i)" "i < length (in_queue ?a)" if "i < width cfg" for i
    using that by (simp_all add: in_queue_def)
  have mem: "p \<in> set (concat (in_queue ?a))" if st: "spec_queue (width cfg) (depth cfg) ?a (Dequeued p) s'" for p s'
  proof -
    obtain i where i: "i < width cfg" "q_gets ?a ! i < length (q_items ?a ! i)" "p = q_items ?a ! i ! (q_gets ?a ! i)"
      using st by (auto elim: spec_deqE)
    then have "p \<in> set (in_queue ?a ! i)" using nth [OF i(1)] by (auto simp: in_set_conv_nth intro!: exI [of _ 0])
    then show ?thesis using nth(2) [OF i(1)] by auto
  qed
  have null: "concat (in_queue ?a) = []" if "spec_queue (width cfg) (depth cfg) ?a DequeuedNull s'" for s'
    using that len by (auto simp: in_queue_def set_zip elim!: spec_deq_nullE)
  have "r = 0 \<and> spec_queue (width cfg) (depth cfg) ?a DequeuedNull (abs_queue_2Dd g') \<or>
      (\<exists>p. r = node_val (nodes (qmem g)) p \<and> spec_queue (width cfg) (depth cfg) ?a (Dequeued p) (abs_queue_2Dd g'))"
    using d by (simp add: dequeued_2Dd_def)
  then show ?thesis using mem null deq_older_bound [OF inv'] by blast
qed

text \<open>
  C11. The 2Dd queue is k-out-of-order, for calls that do not overlap. Take the queue that
  \<^verbatim>\<open>create_queue\<close> returns, with any parameters for which it has computed a width of 1 to \<open>2 ^ 32 - 1\<close> and
  a depth of at least 1, and any list of enqueues and dequeues by any threads with any local
  windows, short enough for the 64-bit windows not to wrap. Every call returns. A dequeue that follows them
  returns too: 0 only if the queue is empty, and else the value of a node of the queue before which at most
  \<open>depth * (width - 1)\<close> of the nodes now in the queue were enqueued.
\<close>

theorem queue_2Dd_k_out_of_order:
  assumes c: "create_queue_2Dd al t0 junk nt w d mode bound = Some (cfg, g0)" and al: "alloc_fresh al"
    and u: "1 \<le> width cfg" "width cfg < 4294967296" "1 \<le> depth cfg" "fuel2Dd cfg \<le> fuel" "(length cs + 3) * depth cfg < W64"
    and ls: "\<forall>l \<in> set ls. thread_index l < width cfg" "\<forall>(t, c) \<in> set cs. t < length ls" "t < length ls"
  shows "\<exists>rs ls' g r l g'. exec_calls (queue_call_2Dd al fuel cfg) cs (ls, g0) = Some (rs, ls', g) \<and>
    run (dequeue_2Dd fuel cfg t (ls' ! t)) g = (Done (r, l), g') \<and>
    (r = 0 \<and> concat (in_queue (abs_queue_2Dd g)) = [] \<or>
     (\<exists>p. p \<in> set (concat (in_queue (abs_queue_2Dd g))) \<and> r = node_val (nodes (qmem g)) p \<and>
        older (abs_queue_2Dd g) p \<le> depth cfg * (width cfg - 1)))"
proof -
  note C = create_queue_ok [OF c al u(1-3)]
  have "queue_calls_inv_2Dd al fuel cfg (length cs + 1) ls g0"
    using C al u(4,5) ls(1) by (simp add: queue_calls_inv_2Dd_def algebra_simps)
  then obtain rs ls' g where e: "exec_calls (queue_call_2Dd al fuel cfg) cs (ls, g0) = Some (rs, ls', g)"
    and inv: "queue_calls_inv_2Dd al fuel cfg 1 ls' g" and len: "length ls' = length ls"
    using que_calls.exec_calls_returns [of al fuel cfg cs 1 ls g0] ls(2) by auto
  have "wp (dequeue_2Dd fuel cfg t (ls' ! t)) (dequeued_2Dd cfg g) g"
    using inv len ls(3) queue_calls_room [OF inv] by (intro dequeue_seq_2Dd) (auto simp: queue_calls_inv_2Dd_def)
  then obtain r l g' where "run (dequeue_2Dd fuel cfg t (ls' ! t)) g = (Done (r, l), g')" "dequeued_2Dd cfg g (r, l) g'"
    by (auto simp: wp_run)
  then show ?thesis using e dequeued_older [OF inv, of r l g']
    by (intro exI [of _ rs] exI [of _ ls'] exI [of _ g] exI [of _ r] exI [of _ l] exI [of _ g']) simp
qed

text \<open>A queue for two threads with width 3 and depth 2, as mode 0 creates it, and threads that have just been started.\<close>

definition demo_queue_2Dd :: "ds2Dd \<times> queue2Dd" where
  "demo_queue_2Dd = the (create_queue_2Dd bump_alloc 0 \<lparr>n_key = 0, n_val = 0, n_next = 0\<rparr> 2 3 2 0 0)"

definition fresh_qtl :: "seeds \<Rightarrow> u64 \<Rightarrow> tl2Dd" where
  "fresh_qtl s i = \<lparr>seeds = s, my_put_cas_fail_count = 0, my_get_cas_fail_count = 0, my_null_count = 0,
     my_hop_count = 0, my_slide_count = 0, my_slide_fail_count = 0, thread_PWindow = 0, thread_GWindow = 0, thread_index = i\<rparr>"

lemma demo_queue_created:
  "create_queue_2Dd bump_alloc 0 \<lparr>n_key = 0, n_val = 0, n_next = 0\<rparr> 2 3 2 0 0 = Some (fst demo_queue_2Dd, snd demo_queue_2Dd)"
  by (simp add: demo_queue_2Dd_def create_queue_2Dd_def calc_params_def bound32_def Let_def)

lemma demo_queue_cfg:
  "fst demo_queue_2Dd = \<lparr>random_hops = 2, width = 3, depth = 2, relaxation_bound = 4, k_mode = 0\<rparr>"
  by (simp add: demo_queue_2Dd_def create_queue_2Dd_def calc_params_def bound32_def Let_def mul64_def W64_def)

theorem queue_2Dd_k_out_of_order_witness:
  "\<exists>rs ls' g r l g'. exec_calls (queue_call_2Dd bump_alloc 11 (fst demo_queue_2Dd))
       [(0, Enq 1 10), (1, Enq 2 20), (0, Deq)] (replicate 2 (fresh_qtl (1, 2, 3) 1), snd demo_queue_2Dd) = Some (rs, ls', g) \<and>
    run (dequeue_2Dd 11 (fst demo_queue_2Dd) 1 (ls' ! 1)) g = (Done (r, l), g') \<and>
    (r = 0 \<and> concat (in_queue (abs_queue_2Dd g)) = [] \<or>
     (\<exists>p. p \<in> set (concat (in_queue (abs_queue_2Dd g))) \<and> r = node_val (nodes (qmem g)) p \<and>
        older (abs_queue_2Dd g) p \<le> depth (fst demo_queue_2Dd) * (width (fst demo_queue_2Dd) - 1)))"
  by (rule queue_2Dd_k_out_of_order [OF demo_queue_created bump_alloc_fresh])
    (simp_all add: demo_queue_cfg fuel2Dd_def W64_def fresh_qtl_def)

text \<open>
  C12. The relaxation bound of the 2Dd queue. Whatever \<^verbatim>\<open>create_queue\<close> computes from the mode, the
  number of threads, a width, a depth and a relaxation bound that do not overflow, the width and the depth it chooses
  satisfy \<open>depth * (width - 1) \<le> relaxation_bound\<close> for the bound it stores; in the modes 1 to 3 the bound is
  the one asked for or 0.
\<close>

theorem queue_2Dd_bound:
  assumes c: "create_queue_2Dd al t0 junk nt w d mode bound = Some (cfg, g)" and m: "mode \<le> 3"
    and small: "bound < W64" "w < 4294967296" "nt * w < 4294967296" "d * w < W64" "d < W64" "1 \<le> w"
  shows "depth cfg * (width cfg - 1) \<le> relaxation_bound cfg \<and> (mode = 0 \<or> relaxation_bound cfg \<in> {0, bound})"
proof -
  obtain w' d' k' where p: "calc_params 1 keep32 keep64 bound32 mode nt w d bound = Some (w', d', k')"
    and cfg: "width cfg = w'" "depth cfg = d'" "relaxation_bound cfg = k'"
    using c by (auto simp: create_queue_2Dd_def Let_def split: option.splits)
  show ?thesis
  proof (cases "mode = 0")
    case True
    have "d * (w - 1) < W64" using small(4) by (rule le_less_trans [rotated]) (simp add: mult_le_mono2)
    then show ?thesis using p True small(6) by (auto simp: calc_params_def bound32_def mul64_eq cfg)
  next
    case False
    then have md: "mode = 1 \<or> mode = 2 \<or> mode = 3" using m by auto
    have k: "k' = bound \<or> w' = 1 \<and> k' = 0"
      using p md by (auto simp: calc_params_def fixed_width_def Let_def split: if_splits)
    have "1 * d' * (w' - 1) \<le> bound"
      by (rule calc_params_bound [OF p md]) (use small in \<open>auto simp: keep32_def keep64_def W64_def\<close>)
    then show ?thesis using k by (auto simp: cfg)
  qed
qed

theorem queue_2Dd_bound_witness:
  "depth (fst demo_queue_2Dd) * (width (fst demo_queue_2Dd) - 1) \<le> relaxation_bound (fst demo_queue_2Dd) \<and>
   ((0 :: nat) = 0 \<or> relaxation_bound (fst demo_queue_2Dd) \<in> {0, 0})"
  by (rule queue_2Dd_bound [OF demo_queue_created]) (simp_all add: W64_def)

text \<open>\<^verbatim>\<open>queue_size\<close> walks every sub-queue from its head to its tail.\<close>

lemma queue_walk_seq:
  assumes ok: "queues_ok (qmem g) hs ts" and "place (qmem g) i k p" "place (qmem g) i k' p'" "k \<le> k'" "k' - k < n" "sz + (k' - k) < W64"
  shows "wp (queue_walk_2Dd n p p' sz) (\<lambda>r h. r = sz + (k' - k) \<and> h = g) g"
  using assms(2-)
proof (induction n arbitrary: k p sz)
  case (Suc n)
  show ?case
  proof (cases "k = k'")
    case True
    then show ?thesis using Suc.prems by (auto simp: place_def)
  next
    case False
    then have ne: "p \<noteq> p'" using place_inj [OF ok Suc.prems(1)] Suc.prems(2) by blast
    have lt: "k + 1 < length (links (qmem g) ! i)" using Suc.prems(2,3) False by (auto simp: place_def)
    obtain nd where nd: "heap (nodes (qmem g)) p = Some nd" "place (qmem g) i (k + 1) (n_next nd)"
      using place_next [OF ok Suc.prems(1)] lt by metis
    have "wp (queue_walk_2Dd n (n_next nd) p' (sz + 1)) (\<lambda>r h. r = (sz + 1) + (k' - (k + 1)) \<and> h = g) g"
      using Suc.prems False nd by (intro Suc.IH) auto
    moreover have "(sz + 1) + (k' - (k + 1)) = sz + (k' - k)" "add64 sz 1 = sz + 1"
      using Suc.prems False by (auto simp: add64_eq)
    ultimately show ?thesis using ne nd by (simp add: wp_loads)
  qed
qed simp

lemma queue_size_loop_seq:
  assumes inv: "queue_inv_2Dd cfg g"
    and "\<forall>j \<in> set is. j < width cfg \<and> qd_count (put_array g ! j) - qd_count (get_array g ! j) < fuel"
    and "sz + (\<Sum>j \<leftarrow> is. qd_count (put_array g ! j) - qd_count (get_array g ! j)) < W64"
  shows "wp (queue_size_loop_2Dd fuel is sz)
    (\<lambda>r h. r = sz + (\<Sum>j \<leftarrow> is. qd_count (put_array g ! j) - qd_count (get_array g ! j)) \<and> h = g) g"
  using assms(2,3)
proof (induction "is" arbitrary: sz)
  case (Cons i "is")
  have i: "i < width cfg" using Cons.prems by simp
  note pl = queue_inv_place [OF inv i]
  let ?n = "qd_count (put_array g ! i) - qd_count (get_array g ! i)"
  let ?m = "\<Sum>j \<leftarrow> is. qd_count (put_array g ! j) - qd_count (get_array g ! j)"
  have rest: "wp (queue_size_loop_2Dd fuel is (sz + ?n)) (\<lambda>r h. r = (sz + ?n) + ?m \<and> h = g) g"
    using Cons.prems by (intro Cons.IH) auto
  have "wp (queue_walk_2Dd fuel (qd_node (get_array g ! i)) (qd_node (put_array g ! i)) sz)
     (\<lambda>r. wp (queue_size_loop_2Dd fuel is r) (\<lambda>r h. r = sz + (\<Sum>j \<leftarrow> i # is. qd_count (put_array g ! j) - qd_count (get_array g ! j)) \<and> h = g)) g"
    using Cons.prems rest
    by (intro wp_mono [OF queue_walk_seq [OF queue_invD(2) [OF inv] pl(1,2,3)]]) (auto simp: add.assoc)
  then show ?case using i queue_invD [OF inv] by simp
qed simp

text \<open>
  \<^verbatim>\<open>queue_size\<close>, run alone on a well-formed queue with less than \<open>2 ^ 64\<close> items, returns the number of
  items from the heads to the tails of all sub-queues and changes nothing, given the fuel to walk the longest one. It
  does not count an item whose enqueue has not advanced the tail yet.
\<close>

lemma run_queue_size_2Dd:
  assumes inv: "queue_inv_2Dd cfg g"
    and "\<forall>j < width cfg. qd_count (put_array g ! j) - qd_count (get_array g ! j) < fuel"
    and "(\<Sum>j \<leftarrow> [0 ..< width cfg]. qd_count (put_array g ! j) - qd_count (get_array g ! j)) < W64"
  shows "run (queue_size_2Dd fuel cfg) g =
    (Done (\<Sum>j \<leftarrow> [0 ..< width cfg]. qd_count (put_array g ! j) - qd_count (get_array g ! j)), g)"
proof -
  have "wp (queue_size_2Dd fuel cfg)
    (\<lambda>r h. r = 0 + (\<Sum>j \<leftarrow> [0 ..< width cfg]. qd_count (put_array g ! j) - qd_count (get_array g ! j)) \<and> h = g) g"
    unfolding queue_size_2Dd_def using assms by (intro queue_size_loop_seq) auto
  then show ?thesis by (auto simp: wp_run)
qed

lemma demo_queue_sized:
  "queue_inv_2Dd (fst demo_queue_2Dd) (snd demo_queue_2Dd)" "put_array (snd demo_queue_2Dd) = get_array (snd demo_queue_2Dd)"
proof -
  have "quiet_queue_2Dd (fst demo_queue_2Dd) (snd demo_queue_2Dd)"
    by (rule create_queue_ok(1) [OF demo_queue_created bump_alloc_fresh]) (simp_all add: demo_queue_cfg)
  then show "queue_inv_2Dd (fst demo_queue_2Dd) (snd demo_queue_2Dd)" by (simp add: quiet_queue_2Dd_def)
  show "put_array (snd demo_queue_2Dd) = get_array (snd demo_queue_2Dd)"
    by (simp add: demo_queue_2Dd_def create_queue_2Dd_def calc_params_def bound32_def Let_def)
qed

end
