(* ===== verification/Queue2Dd_Conc.thy ===== *)
theory Queue2Dd_Conc
  imports Queue2Dd
begin

text \<open>
  The 2Dd queue under concurrency: any number of threads, each running its own list of enqueues
  and dequeues, interleaved at every access to shared memory. \<open>queue_proto_2Dd\<close> is the protocol of the
  threads: a step on the linked queues (\<open>queue_step\<close>) that links no node beyond the put window, or a
  shift of a window. \<open>qknown\<close> is what a thread knows at every moment whatever the others do: the
  invariant, its unlinked node, the sentinel it has still to free, and the values it has enqueued and dequeued.
\<close>

section \<open>The protocol\<close>

abbreviation enqs :: "queue2Dd \<Rightarrow> nat \<Rightarrow> nat" where
  "enqs g i \<equiv> qd_count (put_array g ! i)"

abbreviation deqs :: "queue2Dd \<Rightarrow> nat \<Rightarrow> nat" where
  "deqs g i \<equiv> qd_count (get_array g ! i)"

definition linked_in_window :: "ds2Dd \<Rightarrow> queue2Dd \<Rightarrow> bool" where
  "linked_in_window cfg g \<longleftrightarrow> (\<forall>i < width cfg. length (links (qmem g) ! i) \<le> global_PWindow g + 1)"

definition queue_proto_2Dd :: "ds2Dd \<Rightarrow> queue2Dd protocol" where
  "queue_proto_2Dd cfg t g g' \<longleftrightarrow>
     queue_step t (qmem g, heads_2Dd g, tails_2Dd g) (qmem g', heads_2Dd g', tails_2Dd g') \<and> linked_in_window cfg g' \<and>
       global_PWindow g' = global_PWindow g \<and> global_GWindow g' = global_GWindow g \<or>
     g' = g\<lparr>global_PWindow := global_PWindow g + depth cfg\<rparr> \<and> (\<forall>i < width cfg. global_PWindow g \<le> enqs g i) \<or>
     g' = g\<lparr>global_GWindow := global_GWindow g + depth cfg\<rparr>"

definition queue_conc_inv :: "ds2Dd \<Rightarrow> queue2Dd \<Rightarrow> bool" where
  "queue_conc_inv cfg g \<longleftrightarrow> ds2Dd_ok cfg \<and> queue_inv_2Dd cfg g \<and> linked_in_window cfg g \<and>
     (\<forall>i < width cfg. global_PWindow g \<le> enqs g i + depth cfg)"

text \<open>What the steps of all threads keep: nodes stay where they are, counts and windows grow, values do not change.\<close>

definition later :: "queue2Dd \<Rightarrow> queue2Dd \<Rightarrow> bool" where
  "later g h \<longleftrightarrow> (\<forall>i k p. place (qmem g) i k p \<longrightarrow> place (qmem h) i k p) \<and>
     (\<forall>i. deqs g i \<le> deqs h i \<and> enqs g i \<le> enqs h i) \<and> global_PWindow g \<le> global_PWindow h \<and>
     (\<forall>p \<in> set (allocd (nodes (qmem g))). p \<in> set (allocd (nodes (qmem h))) \<and> node_val (nodes (qmem h)) p = node_val (nodes (qmem g)) p)"

lemma laterD:
  assumes "later g h"
  shows "place (qmem g) i k p \<Longrightarrow> place (qmem h) i k p" "deqs g i \<le> deqs h i" "enqs g i \<le> enqs h i"
    "global_PWindow g \<le> global_PWindow h"
    "p \<in> set (allocd (nodes (qmem g))) \<Longrightarrow> node_val (nodes (qmem h)) p = node_val (nodes (qmem g)) p"
  using assms by (auto simp: later_def)

lemma later_refl [simp]: "later g g"
  by (simp add: later_def)

lemma later_trans: "later g h \<Longrightarrow> later h k \<Longrightarrow> later g k"
  unfolding later_def by (auto intro: order_trans)

lemma ends_inj: "ends arr' = ends arr \<longleftrightarrow> arr' = arr"
proof -
  have "inj (\<lambda>d :: qdescriptor2Dd. (qd_node d, qd_count d))" by (auto intro!: injI)
  then show ?thesis unfolding ends_def by (rule inj_map_eq_map)
qed

lemma ends_update: "ends arr' = (ends arr)[i := (n, c)] \<longleftrightarrow> arr' = arr[i := \<lparr>qd_node = n, qd_count = c\<rparr>]"
  using ends_inj [of arr' "arr[i := \<lparr>qd_node = n, qd_count = c\<rparr>]"] by simp

lemma proto_later:
  assumes "queue_proto_2Dd cfg u g g'" "queue_conc_inv cfg g"
  shows "later g g'"
proof -
  have inv: "queue_inv_2Dd cfg g" using assms(2) by (simp add: queue_conc_inv_def)
  show ?thesis
  proof (cases "queue_step u (qmem g, heads_2Dd g, tails_2Dd g) (qmem g', heads_2Dd g', tails_2Dd g')")
    case True
    note m = queue_step_mono [OF True queue_invD(2) [OF inv]] and v = queue_step_val [OF True]
    have "deqs g i \<le> deqs g' i \<and> enqs g i \<le> enqs g' i" for i
      using True queue_invD [OF inv] by cases (auto simp: ends_inj ends_update nth_list_update)
    moreover have "global_PWindow g \<le> global_PWindow g'" using assms(1) by (auto simp: queue_proto_2Dd_def)
    ultimately show ?thesis using m(1) v by (simp add: later_def)
  next
    case False
    then show ?thesis using assms(1) by (auto simp: queue_proto_2Dd_def later_def)
  qed
qed

interpretation que_conc: protocol "queue_proto_2Dd cfg" "room2Dd cfg" "queue_conc_inv cfg" for cfg
proof
  fix g t g'
  assume inv: "queue_conc_inv cfg g" and st: "queue_proto_2Dd cfg t g g'"
  note L = laterD [OF proto_later [OF st inv]]
  have w: "\<forall>i < width cfg. global_PWindow g \<le> enqs g i + depth cfg" and qi: "queue_inv_2Dd cfg g" and win: "linked_in_window cfg g"
    and ok: "ds2Dd_ok cfg" using inv by (auto simp: queue_conc_inv_def)
  have step: "queue_inv_2Dd cfg g'" if s: "queue_step t (qmem g, heads_2Dd g, tails_2Dd g) (qmem g', heads_2Dd g', tails_2Dd g')"
    using queue_step_ok [OF s queue_invD(2) [OF qi]] queue_step_mono(5) [OF s queue_invD(2) [OF qi]] queue_invD(1) [OF qi]
    by (simp add: queue_inv_2Dd_def)
  from st show "queue_conc_inv cfg g'"
    unfolding queue_proto_2Dd_def
  proof (elim disjE conjE)
    assume s: "queue_step t (qmem g, heads_2Dd g, tails_2Dd g) (qmem g', heads_2Dd g', tails_2Dd g')" "linked_in_window cfg g'"
      "global_PWindow g' = global_PWindow g"
    then show ?thesis using step ok w L(3) by (fastforce simp: queue_conc_inv_def intro: order_trans)
  qed (use ok qi win w in \<open>auto simp: queue_conc_inv_def linked_in_window_def intro: order_trans\<close>)
qed

section \<open>What a thread knows\<close>

definition qknown ::
  "ds2Dd \<Rightarrow> nat \<Rightarrow> (ptr \<times> mnode) option \<Rightarrow> ptr option \<Rightarrow> int list \<Rightarrow> int list \<Rightarrow> queue2Dd \<Rightarrow> bool" where
  "qknown cfg t po fo xs ys g \<longleftrightarrow> queue_conc_inv cfg g \<and> room2Dd cfg g \<and>
     (\<forall>p nd. po = Some (p, nd) \<longrightarrow> unlinked (qmem g) t p \<and> heap (nodes (qmem g)) p = Some nd) \<and>
     (\<forall>p. fo = Some p \<longrightarrow> (p, t) \<in> set (removed (nodes (qmem g)))) \<and>
     sent_by t (qmem g) = xs \<and> taken_by t (qmem g) = ys"

lemma qknownD:
  assumes "qknown cfg t po fo xs ys g"
  shows "queue_conc_inv cfg g" "room2Dd cfg g" "queue_inv_2Dd cfg g" "queues_ok (qmem g) (heads_2Dd g) (tails_2Dd g)"
    "linked_in_window cfg g" "ds2Dd_ok cfg" "sent_by t (qmem g) = xs" "taken_by t (qmem g) = ys"
  using assms by (auto simp: qknown_def queue_conc_inv_def queue_inv_2Dd_def)

lemma qknown_env:
  assumes k: "qknown cfg t po fo xs ys g" and e: "env1 (queue_proto_2Dd cfg) (room2Dd cfg) t g g'"
  shows "qknown cfg t po fo xs ys g'" "later g g'"
proof -
  obtain u where u: "u \<noteq> t" "queue_proto_2Dd cfg u g g'" and A: "room2Dd cfg g'" using e by (auto simp: env1_def)
  note D = qknownD [OF k]
  show "later g g'" by (rule proto_later [OF u(2) D(1)])
  have "queue_conc_inv cfg g'" using que_conc.inv_step [OF D(1) u(2) A] .
  then show "qknown cfg t po fo xs ys g'"
    using u A k queue_step_others [OF _ D(4) u(1)] queue_step_values [OF _ D(4) u(1)]
    unfolding queue_proto_2Dd_def qknown_def by (elim disjE) auto
qed

lemma qknown_envs:
  assumes "env (queue_proto_2Dd cfg) (room2Dd cfg) t g h" "qknown cfg t po fo xs ys g"
  shows "qknown cfg t po fo xs ys h" "later g h"
proof -
  have "qknown cfg t po fo xs ys h \<and> later g h"
    using assms
  proof (induction rule: rtranclp_induct)
    case (step y z)
    then have k: "qknown cfg t po fo xs ys y" "later g y" by auto
    show ?case using qknown_env [OF k(1) step.hyps(2)] later_trans [OF k(2)] by blast
  qed simp
  then show "qknown cfg t po fo xs ys h" "later g h" by auto
qed

text \<open>
  A descriptor a thread has loaded, word by word: its node is some node of the sub-queue that was the
  tail (or the head), its count was the number of enqueues (dequeues), neither at a known moment.
\<close>

definition put_loaded :: "u64 \<Rightarrow> qdescriptor2Dd \<Rightarrow> queue2Dd \<Rightarrow> bool" where
  "put_loaded i d g \<longleftrightarrow> qd_count d \<le> enqs g i \<and> (\<exists>k. place (qmem g) i k (qd_node d) \<and> k \<le> enqs g i)"

definition get_loaded :: "u64 \<Rightarrow> qdescriptor2Dd \<Rightarrow> queue2Dd \<Rightarrow> bool" where
  "get_loaded i d g \<longleftrightarrow> (\<exists>k. place (qmem g) i k (qd_node d) \<and> k \<le> deqs g i)"

lemma loaded_later:
  assumes "later g h"
  shows "put_loaded i d g \<Longrightarrow> put_loaded i d h" "get_loaded i d g \<Longrightarrow> get_loaded i d h"
  using laterD(1-3) [OF assms] unfolding put_loaded_def get_loaded_def by (meson order_trans)+

text \<open>Loading the put descriptor: its node has at least the number of the node that was the head before.\<close>

lemma load_put_ok:
  assumes k: "qknown cfg t po fo xs ys g" and i: "i < width cfg"
  shows "ok (queue_proto_2Dd cfg) (room2Dd cfg) t (load_desc put_array i)
    (\<lambda>d h. qknown cfg t po fo xs ys h \<and> later g h \<and> qd_count d \<le> enqs h i \<and>
       (\<exists>k. place (qmem h) i k (qd_node d) \<and> k \<le> enqs h i \<and> deqs g i \<le> k)) g"
  unfolding load_desc_def
proof (rule ok_rd_opt, goal_cases)
  case (1 h)
  note k1 = qknown_envs(1) [OF 1 k] and l1 = qknown_envs(2) [OF 1 k]
  note pl = queue_inv_place [OF qknownD(3) [OF k1] i] and len = queue_invD(4) [OF qknownD(3) [OF k1]]
  let ?n = "qd_node (put_array h ! i)"
  have "ok (queue_proto_2Dd cfg) (room2Dd cfg) t
     (pbind (rd_opt (\<lambda>g. map_option qd_count (at (put_array g) i))) (\<lambda>c. Ret \<lparr>qd_node = ?n, qd_count = c\<rparr>))
     (\<lambda>d h. qknown cfg t po fo xs ys h \<and> later g h \<and> qd_count d \<le> enqs h i \<and>
       (\<exists>k. place (qmem h) i k (qd_node d) \<and> k \<le> enqs h i \<and> deqs g i \<le> k)) h"
  proof (rule ok_rd_opt, goal_cases)
    case (1 h')
    note k2 = qknown_envs(1) [OF 1 k1] and l2 = qknown_envs(2) [OF 1 k1]
    have "i < length (put_array h')" using i queue_invD(4) [OF qknownD(3) [OF k2]] by simp
    moreover have "qknown cfg t po fo xs ys h'' \<and> later g h'' \<and> enqs h' i \<le> enqs h'' i \<and>
        (\<exists>k. place (qmem h'') i k ?n \<and> k \<le> enqs h'' i \<and> deqs g i \<le> k)"
      if e: "env (queue_proto_2Dd cfg) (room2Dd cfg) t h' h''" for h''
    proof -
      note k3 = qknown_envs(1) [OF e k2] and l3 = qknown_envs(2) [OF e k2]
      have l: "later h h''" by (rule later_trans [OF l2 l3])
      have "place (qmem h'') i (enqs h i) ?n" "enqs h i \<le> enqs h'' i" "deqs g i \<le> enqs h i"
        using laterD(1) [OF l pl(2)] laterD(3) [OF l, of i] laterD(2) [OF l1, of i] pl(3) by auto
      then show ?thesis using k3 later_trans [OF l1 l] laterD(3) [OF l3, of i] by blast
    qed
    ultimately show ?case by simp
  qed
  then show ?case using i len by (simp del: ok.simps)
qed

lemma load_get_ok:
  assumes k: "qknown cfg t po fo xs ys g" and i: "i < width cfg"
  shows "ok (queue_proto_2Dd cfg) (room2Dd cfg) t (load_desc get_array i)
    (\<lambda>d h. qknown cfg t po fo xs ys h \<and> get_loaded i d h) g"
  unfolding load_desc_def
proof (rule ok_rd_opt, goal_cases)
  case (1 h)
  note k1 = qknown_envs(1) [OF 1 k]
  note pl = queue_inv_place [OF qknownD(3) [OF k1] i] and len = queue_invD(3) [OF qknownD(3) [OF k1]]
  let ?n = "qd_node (get_array h ! i)"
  have "ok (queue_proto_2Dd cfg) (room2Dd cfg) t
     (pbind (rd_opt (\<lambda>g. map_option qd_count (at (get_array g) i))) (\<lambda>c. Ret \<lparr>qd_node = ?n, qd_count = c\<rparr>))
     (\<lambda>d h. qknown cfg t po fo xs ys h \<and> get_loaded i d h) h"
  proof (rule ok_rd_opt, goal_cases)
    case (1 h')
    note k2 = qknown_envs(1) [OF 1 k1] and l2 = qknown_envs(2) [OF 1 k1]
    have "i < length (get_array h')" using i queue_invD(3) [OF qknownD(3) [OF k2]] by simp
    moreover have "get_loaded i \<lparr>qd_node = ?n, qd_count = c\<rparr> h" for c using pl(1) by (auto simp: get_loaded_def)
    ultimately show ?case using qknown_envs [OF _ k2] loaded_later(2) [OF later_trans [OF l2]] by (simp del: ok.simps) (auto)
  qed
  then show ?case using i len by (simp del: ok.simps)
qed

lemma load_count_ok:
  assumes k: "qknown cfg t po fo xs ys g" and i: "i < width cfg"
  shows "ok (queue_proto_2Dd cfg) (room2Dd cfg) t (load_count i)
    (\<lambda>c h. qknown cfg t po fo xs ys h \<and> later g h \<and> enqs g i \<le> c \<and> c \<le> enqs h i) g"
proof -
  have "ok (queue_proto_2Dd cfg) (room2Dd cfg) t (pbind (load_count i) Ret)
    (\<lambda>c h. qknown cfg t po fo xs ys h \<and> later g h \<and> enqs g i \<le> c \<and> c \<le> enqs h i) g"
    unfolding load_count_def
  proof (rule ok_rd_opt, goal_cases)
    case (1 h)
    note k1 = qknown_envs(1) [OF 1 k] and l1 = qknown_envs(2) [OF 1 k]
    have "i < length (put_array h)" using i queue_invD(4) [OF qknownD(3) [OF k1]] by simp
    then show ?case using qknown_envs [OF _ k1] later_trans [OF l1] laterD(3) [OF l1, of i] laterD(3) by auto
  qed
  then show ?thesis by (simp only: pbind_Ret)
qed

text \<open>A shift of a window by the thread itself.\<close>

lemma own_shift:
  assumes k: "qknown cfg t po fo xs ys g" and st: "queue_proto_2Dd cfg t g h" and A: "room2Dd cfg h" and m: "qmem h = qmem g"
  shows "qknown cfg t po fo xs ys h"
  using que_conc.inv_step [OF qknownD(1) [OF k] st A] k A m by (simp add: qknown_def)

interpretation que_win: window2Dd_env "queue_proto_2Dd cfg" "room2Dd cfg" t cfg "load_desc put_array" "load_desc get_array"
  load_count qd_count qd_count "qknown cfg t po fo xs ys" put_loaded get_loaded enqs for cfg t po fo xs ys
proof (unfold_locales, goal_cases)
  case (1 g)
  then show ?case by (rule qknownD)
next
  case (2 g g')
  then show ?case by (rule qknown_env)
next
  case (3 g i d g')
  then show ?case using qknown_env(2) loaded_later(1) by blast
next
  case (4 g i d g')
  then show ?case using qknown_env(2) loaded_later(2) by blast
next
  case (5 g g')
  then show ?case using qknown_env(2) laterD(4) by blast
next
  case (6 g g' i)
  then show ?case using qknown_env(2) laterD(3) by blast
next
  case (7 g i d)
  then show ?case by (simp add: put_loaded_def)
next
  case (9 g i)
  show ?case by (rule ok_mono [OF load_put_ok [OF 9]]) (auto simp: put_loaded_def dest: laterD(3))
next
  case (10 g i)
  then show ?case by (rule load_get_ok)
next
  case (11 g i d)
  show ?case by (rule ok_mono [OF load_count_ok [OF 11(1,2)]]) (use 11(3) loaded_later(2) in blast)
next
  case (12 g w)
  then have "w = global_PWindow g + depth cfg" using qknownD(2) [OF 12(1)] by (simp add: room2Dd_def add64_eq)
  then have "queue_proto_2Dd cfg t g (g\<lparr>global_PWindow := w\<rparr>)" using 12(4) by (simp add: queue_proto_2Dd_def)
  then show ?case using own_shift [OF 12(1)] 12(3) by simp
next
  case (13 g w)
  then have "w = global_GWindow g + depth cfg" using qknownD(2) [OF 13(1)] by (simp add: room2Dd_def add64_eq)
  then have "queue_proto_2Dd cfg t g (g\<lparr>global_GWindow := w\<rparr>)" by (simp add: queue_proto_2Dd_def)
  then show ?case using own_shift [OF 13(1)] 13(3) by simp
qed simp

section \<open>Reading and changing nodes under interference\<close>

lemma qknown_place:
  assumes "qknown cfg t po fo xs ys g" "place (qmem g) i k p"
  obtains nd where "heap (nodes (qmem g)) p = Some nd" "n_next nd = NULL \<longleftrightarrow> k + 1 = length (links (qmem g) ! i)"
    "n_next nd \<noteq> NULL \<Longrightarrow> place (qmem g) i (k + 1) (n_next nd)" "p \<in> set (allocd (nodes (qmem g)))"
proof -
  note ok = qknownD(4) [OF assms(1)]
  obtain nd where nd: "heap (nodes (qmem g)) p = Some nd" "n_next nd = NULL \<longleftrightarrow> k + 1 = length (links (qmem g) ! i)"
    "k + 1 < length (links (qmem g) ! i) \<Longrightarrow> place (qmem g) i (k + 1) (n_next nd)"
    using place_next [OF ok assms(2)] by metis
  moreover have "k < length (links (qmem g) ! i)" using assms(2) by (simp add: place_def)
  moreover have "p \<in> set (allocd (nodes (qmem g)))" using nd(1) queues_okD(1) [OF ok] by blast
  ultimately show thesis using that by fastforce
qed

lemma ok_load_next_2Dd:
  assumes k: "qknown cfg t po fo xs ys g" and p: "place (qmem g) i k p"
    and null: "\<And>h. qknown cfg t po fo xs ys h \<Longrightarrow> later g h \<Longrightarrow> ok (queue_proto_2Dd cfg) (room2Dd cfg) t (f NULL) Q h"
    and more: "\<And>h n. qknown cfg t po fo xs ys h \<Longrightarrow> later g h \<Longrightarrow> n \<noteq> NULL \<Longrightarrow> place (qmem h) i (k + 1) n \<Longrightarrow>
      ok (queue_proto_2Dd cfg) (room2Dd cfg) t (f n) Q h"
  shows "ok (queue_proto_2Dd cfg) (room2Dd cfg) t (pbind (load_next p) f) Q g"
  unfolding load_next_def
proof (rule ok_rd_opt, goal_cases)
  case (1 h)
  note k1 = qknown_envs(1) [OF 1 k] and l1 = qknown_envs(2) [OF 1 k]
  obtain nd where nd: "heap (nodes (qmem h)) p = Some nd" "n_next nd \<noteq> NULL \<Longrightarrow> place (qmem h) i (k + 1) (n_next nd)"
    using qknown_place [OF k1 laterD(1) [OF l1 p]] by metis
  show ?case using nd null [OF k1 l1] more [OF k1 l1, of "n_next nd"] by (cases "n_next nd = NULL") auto
qed

text \<open>The same when the thread knows already that there is a next node.\<close>

lemma ok_load_next_some_2Dd:
  assumes k: "qknown cfg t po fo xs ys g" and p: "place (qmem g) i k p" "place (qmem g) i (k + 1) n"
    and more: "\<And>h. qknown cfg t po fo xs ys h \<Longrightarrow> later g h \<Longrightarrow> ok (queue_proto_2Dd cfg) (room2Dd cfg) t (f n) Q h"
  shows "ok (queue_proto_2Dd cfg) (room2Dd cfg) t (pbind (load_next p) f) Q g"
  unfolding load_next_def
proof (rule ok_rd_opt, goal_cases)
  case (1 h)
  note k1 = qknown_envs(1) [OF 1 k] and l1 = qknown_envs(2) [OF 1 k]
  obtain nd where nd: "heap (nodes (qmem h)) p = Some nd" "n_next nd = NULL \<longleftrightarrow> k + 1 = length (links (qmem h) ! i)"
    "n_next nd \<noteq> NULL \<Longrightarrow> place (qmem h) i (k + 1) (n_next nd)"
    using qknown_place [OF k1 laterD(1) [OF l1 p(1)]] by metis
  have n: "place (qmem h) i (k + 1) n" by (rule laterD(1) [OF l1 p(2)])
  then have "n_next nd \<noteq> NULL" using nd(2) by (auto simp: place_def)
  then have "n_next nd = n" using nd(3) n by (auto simp: place_def)
  then show ?case using nd(1) more [OF k1 l1] by simp
qed

lemma ok_load_val_2Dd:
  assumes k: "qknown cfg t po fo xs ys g" and p: "place (qmem g) i k p"
    and more: "\<And>h. qknown cfg t po fo xs ys h \<Longrightarrow> later g h \<Longrightarrow>
      ok (queue_proto_2Dd cfg) (room2Dd cfg) t (f (node_val (nodes (qmem g)) p)) Q h"
  shows "ok (queue_proto_2Dd cfg) (room2Dd cfg) t (pbind (load_val p) f) Q g"
  unfolding load_val_def
proof (rule ok_rd_opt, goal_cases)
  case (1 h)
  note k1 = qknown_envs(1) [OF 1 k] and l1 = qknown_envs(2) [OF 1 k]
  obtain nd where nd: "heap (nodes (qmem h)) p = Some nd" using qknown_place [OF k1 laterD(1) [OF l1 p]] by metis
  have "p \<in> set (allocd (nodes (qmem g)))" using qknown_place [OF k p] by metis
  then have "n_val nd = node_val (nodes (qmem g)) p" using laterD(5) [OF l1, of p] nd by (simp add: node_val_def)
  then show ?case using nd more [OF k1 l1] by simp
qed

text \<open>A step of the thread itself on the queues.\<close>

lemma own_queue_step:
  assumes k: "qknown cfg t po fo xs ys g" and st: "queue_step t (qmem g, heads_2Dd g, tails_2Dd g) (qmem h, heads_2Dd h, tails_2Dd h)"
    and w: "linked_in_window cfg h" "global_PWindow h = global_PWindow g" "global_GWindow h = global_GWindow g"
    and "\<And>p nd. po' = Some (p, nd) \<Longrightarrow> unlinked (qmem h) t p \<and> heap (nodes (qmem h)) p = Some nd"
    and "\<And>p. fo' = Some p \<Longrightarrow> (p, t) \<in> set (removed (nodes (qmem h)))"
    and "sent_by t (qmem h) = xs'" "taken_by t (qmem h) = ys'"
  shows "queue_proto_2Dd cfg t g h" "qknown cfg t po' fo' xs' ys' h" "later g h"
proof -
  show s: "queue_proto_2Dd cfg t g h" using st w by (simp add: queue_proto_2Dd_def)
  have A: "room2Dd cfg h" using qknownD(2) [OF k] w by (simp add: room2Dd_def)
  show "qknown cfg t po' fo' xs' ys' h" using que_conc.inv_step [OF qknownD(1) [OF k] s A] A assms(6-) by (simp add: qknown_def)
  show "later g h" by (rule proto_later [OF s qknownD(1) [OF k]])
qed

text \<open>
  The compare-and-exchange of a put descriptor, by the enqueuer or by a helper: if it succeeds, the
  descriptor was not torn, so its node is the tail and \<open>nxt\<close>, the node behind it, becomes the tail.
\<close>

lemma ok_put_cae:
  assumes k: "qknown cfg t po fo xs ys g" and i: "i < width cfg"
    and p: "place (qmem g) i k (qd_node d)" "place (qmem g) i (k + 1) nxt"
    and go: "\<And>h b. qknown cfg t po fo xs ys h \<Longrightarrow> later g h \<Longrightarrow> ok (queue_proto_2Dd cfg) (room2Dd cfg) t (f b) Q h"
  shows "ok (queue_proto_2Dd cfg) (room2Dd cfg) t
    (pbind (put_cae_q2Dd i d \<lparr>qd_node = nxt, qd_count = add64 (qd_count d) 1\<rparr>) f) Q g"
  unfolding put_cae_q2Dd_def pbind.simps
proof (rule ok_Act, goal_cases)
  case (1 h)
  note k1 = qknown_envs(1) [OF 1(1) k] and l1 = qknown_envs(2) [OF 1(1) k]
  note inv = qknownD(3) [OF k1] and ok = qknownD(4) [OF k1]
  show ?case
  proof (cases "at (put_array h) i = Some d")
    case True
    let ?h = "h\<lparr>put_array := (put_array h)[i := \<lparr>qd_node = nxt, qd_count = add64 (qd_count d) 1\<rparr>]\<rparr>"
    have d: "d = put_array h ! i" using True by (simp add: at_eq_Some)
    have kd: "k = qd_count d" using place_inj [OF ok laterD(1) [OF l1 p(1)]] queue_inv_place(2) [OF inv i] d by blast
    have nx: "place (qmem h) i (qd_count d + 1) nxt" using laterD(1) [OF l1 p(2)] kd by simp
    then have len: "qd_count d + 1 < length (links (qmem h) ! i)" "i < length (links (qmem h))" by (auto simp: place_def)
    have "length (links (qmem h) ! i) \<le> global_PWindow h + 1" using qknownD(5) [OF k1] i by (simp add: linked_in_window_def)
    then have add: "add64 (qd_count d) 1 = qd_count d + 1" using len qknownD(2) [OF k1] by (intro add64_eq) (simp add: room2Dd_def)
    have t: "tails_2Dd h ! i = (qd_node d, qd_count d)" using d i queue_invD(4) [OF inv] by simp
    have "queue_step t (qmem h, heads_2Dd h, tails_2Dd h) (qmem ?h, heads_2Dd ?h, tails_2Dd ?h)"
      using qs_advance [OF len(2), of "tails_2Dd h" t "heads_2Dd h"] t len nx add by (simp add: place_def)
    from own_queue_step [OF k1 this, of po fo xs ys] have "queue_proto_2Dd cfg t h ?h" "qknown cfg t po fo xs ys ?h" "later h ?h"
      using k1 by (simp_all add: qknown_def linked_in_window_def queue_conc_inv_def)
    then show ?thesis using True go later_trans [OF l1] by simp
  next
    case False
    then show ?thesis using go [OF k1 l1] by simp
  qed
qed


text \<open>
  The compare-and-swap that links the new node: the tail the thread has loaded, number \<open>k\<close>, was a
  tail, so it is the last node when its next pointer is null.
\<close>

lemma ok_enq_cas:
  assumes k: "qknown cfg t (Some (p, nd)) fo xs ys g" and nd: "n_next nd = NULL" and i: "i < width cfg"
    and q: "place (qmem g) i k q" "k \<le> enqs g i" "k < global_PWindow g"
    and finish: "\<And>h. qknown cfg t None fo (n_val nd # xs) ys h \<Longrightarrow> place (qmem h) i k q \<Longrightarrow> place (qmem h) i (k + 1) p \<Longrightarrow>
      ok (queue_proto_2Dd cfg) (room2Dd cfg) t (f True) Q h"
    and retry: "\<And>h. qknown cfg t (Some (p, nd)) fo xs ys h \<Longrightarrow> ok (queue_proto_2Dd cfg) (room2Dd cfg) t (f False) Q h"
  shows "ok (queue_proto_2Dd cfg) (room2Dd cfg) t (pbind (enq_cas_q2Dd i q p) f) Q g"
  unfolding enq_cas_q2Dd_def pbind.simps
proof (rule ok_Act, goal_cases)
  case (1 h)
  note k1 = qknown_envs(1) [OF 1(1) k] and l1 = qknown_envs(2) [OF 1(1) k]
  note inv = qknownD(3) [OF k1] and ok = qknownD(4) [OF k1]
  have pl: "place (qmem h) i k q" by (rule laterD(1) [OF l1 q(1)])
  obtain ndq where ndq: "heap (nodes (qmem h)) q = Some ndq" "n_next ndq = NULL \<longleftrightarrow> k + 1 = length (links (qmem h) ! i)"
    using qknown_place [OF k1 pl] by metis
  show ?case
  proof (cases "n_next ndq = NULL")
    case True
    let ?h = "h\<lparr>qmem := qm_link i q p (qmem h)\<rparr>"
    have len: "length (links (qmem h) ! i) = k + 1" "i < length (links (qmem h))" "links (qmem h) ! i ! k = q"
      using True ndq(2) pl by (auto simp: place_def)
    have ke: "enqs h i = k" using q(2) laterD(3) [OF l1, of i] queue_inv_place(4) [OF inv i] len by linarith
    have own: "mine (nodes (qmem h)) t p" "p \<notin> set (concat (links (qmem h)))" "heap (nodes (qmem h)) p = Some nd"
      using k1 by (auto simp: qknown_def unlinked_def)
    have t: "snd (tails_2Dd h ! i) = k" using ke i queue_invD(4) [OF inv] by simp
    have st: "queue_step t (qmem h, heads_2Dd h, tails_2Dd h) (qmem ?h, heads_2Dd ?h, tails_2Dd ?h)"
      using qs_link [OF len(2), of "tails_2Dd h" q t p nd "heads_2Dd h"] own nd len t by simp
    have w: "linked_in_window cfg ?h"
      using qknownD(5) [OF k1] q(3) laterD(4) [OF l1] len i
      by (auto simp: linked_in_window_def qm_link_links nth_list_update)
    have v: "sent_by t (qmem ?h) = n_val nd # xs" "taken_by t (qmem ?h) = ys"
      using own_queue_values(3,4) [OF ok] own(1,3) qknownD(7,8) [OF k1] by (simp_all add: node_val_def)
    have f: "\<And>p. fo = Some p \<Longrightarrow> (p, t) \<in> set (removed (nodes (qmem ?h)))"
      using k1 by (auto simp: qknown_def qm_link_def mem_publish_def mem_set_next_def split: option.splits)
    note S = own_queue_step [OF k1 st w _ _ _ f v, of None]
    have "place (qmem ?h) i k q" "place (qmem ?h) i (k + 1) p"
      using len by (simp_all add: place_def qm_link_links nth_append)
    then show ?thesis using True ndq(1) S finish [of ?h] by simp
  next
    case False
    then show ?thesis using ndq(1) retry [OF k1] by simp
  qed
qed

lemma ok_create_node:
  assumes k: "qknown cfg t None fo xs ys g" and al: "alloc_fresh al"
    and go: "\<And>p h. qknown cfg t (Some (p, \<lparr>n_key = key, n_val = val, n_next = NULL\<rparr>)) fo xs ys h \<Longrightarrow>
      ok (queue_proto_2Dd cfg) (room2Dd cfg) t (f p) Q h"
  shows "ok (queue_proto_2Dd cfg) (room2Dd cfg) t (pbind (create_node_q2Dd al t key val NULL) f) Q g"
  unfolding create_node_q2Dd_def pbind.simps
proof (rule ok_Act, goal_cases)
  case (1 h)
  note k1 = qknown_envs(1) [OF 1(1) k]
  note ok = qknownD(4) [OF k1]
  let ?p = "al t (allocd (nodes (qmem h)))" and ?nd = "\<lparr>n_key = key, n_val = val, n_next = NULL\<rparr>"
  let ?h = "h\<lparr>qmem := qm_alloc t ?p ?nd (qmem h)\<rparr>"
  have np: "?p \<noteq> NULL" "?p \<notin> set (allocd (nodes (qmem h)))" using al by (auto simp: alloc_fresh_def)
  have st: "queue_step t (qmem h, heads_2Dd h, tails_2Dd h) (qmem ?h, heads_2Dd ?h, tails_2Dd ?h)"
    using qs_alloc [OF np(2,1), of t "heads_2Dd h" "tails_2Dd h" ?nd] by simp
  have new: "?p \<notin> set (hist (nodes (qmem h)))" "?p \<notin> set (concat (links (qmem h)))"
    using np(2) queues_allocd(1) [OF ok] queues_okD(8) [OF ok] by blast+
  have v: "sent_by t (qmem ?h) = xs" "taken_by t (qmem ?h) = ys"
    using own_queue_values(1,2) [OF ok np(2)] qknownD(7,8) [OF k1] by simp_all
  have w: "linked_in_window cfg ?h" using qknownD(5) [OF k1] by (simp add: linked_in_window_def qm_alloc_def)
  have f: "\<And>p. fo = Some p \<Longrightarrow> (p, t) \<in> set (removed (nodes (qmem ?h)))" using k1 by (auto simp: qknown_def qm_alloc_def)
  have po: "\<And>p nd. Some (?p, ?nd) = Some (p, nd) \<Longrightarrow> unlinked (qmem ?h) t p \<and> heap (nodes (qmem ?h)) p = Some nd"
    using new by (auto simp: unlinked_def mine_def qm_alloc_def)
  note S = own_queue_step [where po' = "Some (?p, ?nd)" and fo' = fo, OF k1 st w _ _ po f v]
  show ?case using S go [of ?p ?h] by simp
qed

text \<open>
  The compare-and-exchange that takes the next node: if it succeeds, the head the thread
  loaded is the head, and the tail it loaded after it, another node, shows that there is a next node before the tail.
\<close>

lemma ok_deq_cae:
  assumes k: "qknown cfg t po None xs ys g" and i: "i < width cfg"
    and q: "place (qmem g) i k (qd_node d)" "place (qmem g) i (k + 1) nxt" "k < enqs g i"
    and finish: "\<And>h. qknown cfg t po (Some (qd_node d)) xs (node_val (nodes (qmem g)) nxt # ys) h \<Longrightarrow> later g h \<Longrightarrow>
      ok (queue_proto_2Dd cfg) (room2Dd cfg) t (f True) Q h"
    and retry: "\<And>h. qknown cfg t po None xs ys h \<Longrightarrow> ok (queue_proto_2Dd cfg) (room2Dd cfg) t (f False) Q h"
  shows "ok (queue_proto_2Dd cfg) (room2Dd cfg) t
    (pbind (deq_cae_q2Dd i d \<lparr>qd_node = nxt, qd_count = add64 (qd_count d) 1\<rparr> (qm_take t (qd_node d) nxt)) f) Q g"
  unfolding deq_cae_q2Dd_def pbind.simps
proof (rule ok_Act, goal_cases)
  case (1 h)
  note k1 = qknown_envs(1) [OF 1(1) k] and l1 = qknown_envs(2) [OF 1(1) k]
  note inv = qknownD(3) [OF k1] and ok = qknownD(4) [OF k1]
  show ?case
  proof (cases "at (get_array h) i = Some d")
    case True
    let ?h = "h\<lparr>get_array := (get_array h)[i := \<lparr>qd_node = nxt, qd_count = add64 (qd_count d) 1\<rparr>], qmem := qm_take t (qd_node d) nxt (qmem h)\<rparr>"
    have d: "d = get_array h ! i" using True by (simp add: at_eq_Some)
    have kd: "k = qd_count d" using place_inj [OF ok laterD(1) [OF l1 q(1)]] queue_inv_place(1) [OF inv i] d by blast
    have lk: "links (qmem h) ! i ! k = qd_node d" "links (qmem h) ! i ! (k + 1) = nxt" "i < length (links (qmem h))"
      using laterD(1) [OF l1 q(1)] laterD(1) [OF l1 q(2)] by (auto simp: place_def)
    have lt: "k < enqs h i" using q(3) laterD(3) [OF l1, of i] by simp
    have "enqs h i < W64"
      using queue_inv_place(4) [OF inv i] qknownD(5) [OF k1] i qknownD(2) [OF k1] by (auto simp: linked_in_window_def room2Dd_def)
    then have add: "add64 (qd_count d) 1 = k + 1" using lt kd by (simp add: add64_eq)
    have hd: "snd (heads_2Dd h ! i) = k" "snd (heads_2Dd h ! i) < snd (tails_2Dd h ! i)"
      using kd d i queue_invD(3,4) [OF inv] lt by simp_all
    have st: "queue_step t (qmem h, heads_2Dd h, tails_2Dd h) (qmem ?h, heads_2Dd ?h, tails_2Dd ?h)"
      using qs_take [OF lk(3) hd(2) hd(1) [symmetric], of t] add lk by simp
    have w: "linked_in_window cfg ?h" using qknownD(5) [OF k1] by (simp add: linked_in_window_def qm_take_def)
    have "nxt \<in> set (allocd (nodes (qmem g)))" using qknown_place [OF k q(2)] by metis
    then have "node_val (nodes (qmem h)) nxt = node_val (nodes (qmem g)) nxt" by (rule laterD(5) [OF l1])
    then have v: "sent_by t (qmem ?h) = xs" "taken_by t (qmem ?h) = node_val (nodes (qmem g)) nxt # ys"
      using own_queue_values(5,6) [OF ok] qknownD(7,8) [OF k1] by simp_all
    have f: "\<And>p. Some (qd_node d) = Some p \<Longrightarrow> (p, t) \<in> set (removed (nodes (qmem ?h)))" by (simp add: qm_take_def mem_remove_def)
    have po: "\<And>p nd. po = Some (p, nd) \<Longrightarrow> unlinked (qmem ?h) t p \<and> heap (nodes (qmem ?h)) p = Some nd"
      using k1 by (auto simp: qknown_def unlinked_def qm_take_def mem_remove_def mine_def)
    note S = own_queue_step [where po' = po and fo' = "Some (qd_node d)", OF k1 st w _ _ po f v]
    then show ?thesis using True later_trans [OF l1 S(3)] finish [of ?h] by simp
  next
    case False
    then show ?thesis using retry [OF k1] by simp
  qed
qed

lemma ok_free_node:
  assumes k: "qknown cfg t po (Some p) xs ys g"
    and go: "\<And>h. qknown cfg t po None xs ys h \<Longrightarrow> ok (queue_proto_2Dd cfg) (room2Dd cfg) t (f ()) Q h"
  shows "ok (queue_proto_2Dd cfg) (room2Dd cfg) t (pbind (free_node_q2Dd t p) f) Q g"
  unfolding free_node_q2Dd_def
proof (rule ok_wr, goal_cases)
  case (1 h)
  note k1 = qknown_envs(1) [OF 1(1) k]
  note ok = qknownD(4) [OF k1]
  let ?h = "h\<lparr>qmem := qm_free t p (qmem h)\<rparr>"
  have st: "queue_step t (qmem h, heads_2Dd h, tails_2Dd h) (qmem ?h, heads_2Dd ?h, tails_2Dd ?h)"
    using qs_free [of p t "qmem h"] k1 by (simp add: qknown_def)
  have w: "linked_in_window cfg ?h" using qknownD(5) [OF k1] by (simp add: linked_in_window_def qm_free_def)
  have v: "sent_by t (qmem ?h) = xs" "taken_by t (qmem ?h) = ys"
    using own_queue_values(7,8) [OF ok] qknownD(7,8) [OF k1] by simp_all
  have po: "\<And>p nd. po = Some (p, nd) \<Longrightarrow> unlinked (qmem ?h) t p \<and> heap (nodes (qmem ?h)) p = Some nd"
    using k1 by (auto simp: qknown_def unlinked_def qm_free_def mem_free_def mine_def)
  note S = own_queue_step [where po' = po and fo' = None, OF k1 st w _ _ po _ v]
  show ?case using S go [of ?h] by simp
qed


section \<open>Enqueue and dequeue under interference\<close>

definition queue_rest_2Dd :: "allocator \<Rightarrow> ds2Dd \<Rightarrow> nat \<Rightarrow> int list \<times> int list \<Rightarrow> queue2Dd \<Rightarrow> bool" where
  "queue_rest_2Dd al cfg t s g \<longleftrightarrow> alloc_fresh al \<and> qknown cfg t None None (fst s) (snd s) g"

definition queue_post_2Dd :: "allocator \<Rightarrow> ds2Dd \<Rightarrow> nat \<Rightarrow> queue_call \<Rightarrow> int list \<times> int list \<Rightarrow> int \<times> tl2Dd \<Rightarrow> queue2Dd \<Rightarrow> bool" where
  "queue_post_2Dd al cfg t c s = (\<lambda>(r, l) h. thread_index l < width cfg \<and> (\<exists>s'. queue_hist c s r s' \<and> queue_rest_2Dd al cfg t s' h))"

lemma queue_post_Ret:
  assumes "qknown cfg t None None xs' ys' g" "alloc_fresh al" "queue_hist c s r (xs', ys')" "thread_index l < width cfg"
  shows "ok (queue_proto_2Dd cfg) (room2Dd cfg) t (Ret (r, l)) (queue_post_2Dd al cfg t c s) g"
proof (rule ok_Ret)
  fix h
  assume "env (queue_proto_2Dd cfg) (room2Dd cfg) t g h"
  then have "queue_rest_2Dd al cfg t (xs', ys') h" using qknown_envs(1) assms(1,2) by (simp add: queue_rest_2Dd_def)
  then show "queue_post_2Dd al cfg t c s (r, l) h" unfolding queue_post_2Dd_def prod.case using assms(3,4) by blast
qed

lemma enqueue_ok_2Dd:
  assumes "alloc_fresh al" and k: "qknown cfg t (Some (p, nd)) None xs ys g" and nd: "n_next nd = NULL" "n_val nd = val"
    and "thread_index l < width cfg"
  shows "ok (queue_proto_2Dd cfg) (room2Dd cfg) t (enqueue_loop_2Dd n fuel cfg p l contention)
    (queue_post_2Dd al cfg t (Enq key val) (xs, ys)) g"
  using k assms(5)
proof (induction n arbitrary: l contention g)
  case 0
  then show ?case by simp
next
  case (Suc n)
  show ?case
    unfolding enqueue_loop_2Dd.simps
  proof (rule ok_bind_mono [OF que_win.put_window_ok [OF Suc.prems]], goal_cases)
    case (1 r h)
    obtain d l' where r: "r = (d, l')" by (cases r)
    let ?i = "thread_index l'"
    have k1: "qknown cfg t (Some (p, nd)) None xs ys h" and i: "?i < width cfg" and w: "thread_PWindow l' \<le> global_PWindow h"
      and L: "put_loaded ?i d h" using 1 by (auto simp: que_win.handed_put_def r)
    obtain m where m: "place (qmem h) ?i m (qd_node d)" "m \<le> enqs h ?i" using L by (auto simp: put_loaded_def)
    have again: "ok (queue_proto_2Dd cfg) (room2Dd cfg) t (enqueue_loop_2Dd n fuel cfg p (l'\<lparr>my_put_cas_fail_count := c\<rparr>) b)
        (queue_post_2Dd al cfg t (Enq key val) (xs, ys)) h'" if "qknown cfg t (Some (p, nd)) None xs ys h'" for c b h'
      using that i by (intro Suc.IH) auto
    show ?case unfolding r prod.case Let_def
    proof (rule ok_load_next_2Dd [OF k1 m(1)], goal_cases)
      case (1 h2)
      note m2 = laterD(1) [OF 1(2) m(1)]
      have e2: "m \<le> enqs h2 ?i" "thread_PWindow l' \<le> global_PWindow h2" using m(2) w laterD(3,4) [OF 1(2)] order_trans by blast+
      have step: "ok (queue_proto_2Dd cfg) (room2Dd cfg) t
          (if c \<ge> thread_PWindow l' then enqueue_loop_2Dd n fuel cfg p l' contention
           else pbind (enq_cas_q2Dd ?i (qd_node d) p) (\<lambda>success.
             if success then
               pbind (put_cae_q2Dd ?i d \<lparr>qd_node = p, qd_count = add64 (qd_count d) 1\<rparr>) (\<lambda>_. Ret (1, l'))
             else enqueue_loop_2Dd n fuel cfg p (l'\<lparr>my_put_cas_fail_count := add64 (my_put_cas_fail_count l') 1\<rparr>) True))
          (queue_post_2Dd al cfg t (Enq key val) (xs, ys)) h3"
        if c: "qknown cfg t (Some (p, nd)) None xs ys h3" "later h2 h3" "enqs h2 ?i \<le> c" for c h3
      proof (cases "c \<ge> thread_PWindow l'")
        case True
        then show ?thesis using Suc.IH [OF c(1) i] by (simp del: ok.simps)
      next
        case False
        have "m < global_PWindow h3" "m \<le> enqs h3 ?i" using False e2 c(3) laterD(3,4) [OF c(2)] by (meson leD leI order_trans)+
        then show ?thesis using False
          by (simp del: ok.simps, intro ok_enq_cas [OF c(1) nd(1) i laterD(1) [OF c(2) m2]])
            (use again i nd assms(1) in \<open>auto simp del: ok.simps intro!: ok_put_cae queue_post_Ret\<close>)
      qed
      show ?case unfolding if_P [OF refl]
        by (rule ok_bind_mono [OF load_count_ok [OF 1(1) i]], elim conjE, rule step)
    next
      case (2 h2 nxt)
      note m2 = laterD(1) [OF 2(2) m(1)]
      show ?case
        using 2(3) by (simp del: ok.simps, intro ok_load_next_some_2Dd [OF 2(1) m2 2(4)])
          (use again i laterD(1) m2 2(4) in \<open>auto simp del: ok.simps intro!: ok_put_cae\<close>)
    qed
  qed
qed


lemma dequeue_ok_2Dd:
  assumes al: "alloc_fresh al" and k: "qknown cfg t None None xs ys g" and "thread_index l < width cfg"
  shows "ok (queue_proto_2Dd cfg) (room2Dd cfg) t (dequeue_loop_2Dd n fuel cfg t l contention)
    (queue_post_2Dd al cfg t Deq (xs, ys)) g"
  using k assms(3)
proof (induction n arbitrary: l contention g)
  case 0
  then show ?case by simp
next
  case (Suc n)
  show ?case
    unfolding dequeue_loop_2Dd.simps
  proof (rule ok_bind_mono [OF que_win.get_window_ok [OF Suc.prems]], goal_cases)
    case (1 r h)
    obtain d l' where r: "r = (d, l')" by (cases r)
    let ?i = "thread_index l'"
    have k1: "qknown cfg t None None xs ys h" and i: "?i < width cfg"
      and L: "get_loaded ?i d h" using 1 by (auto simp: que_win.handed_get_def r)
    obtain m where m: "place (qmem h) ?i m (qd_node d)" "m \<le> deqs h ?i" using L by (auto simp: get_loaded_def)
    have again: "ok (queue_proto_2Dd cfg) (room2Dd cfg) t (dequeue_loop_2Dd n fuel cfg t (l'\<lparr>my_get_cas_fail_count := c\<rparr>) b)
        (queue_post_2Dd al cfg t Deq (xs, ys)) h'" if "qknown cfg t None None xs ys h'" for c b h'
      using that i by (intro Suc.IH) auto
    have null: "ok (queue_proto_2Dd cfg) (room2Dd cfg) t (Ret (0, l'\<lparr>my_null_count := c\<rparr>)) (queue_post_2Dd al cfg t Deq (xs, ys)) h'"
      if "qknown cfg t None None xs ys h'" for c h' using that i al by (intro queue_post_Ret) auto
    show ?case unfolding r prod.case Let_def
    proof (rule ok_bind_mono [OF load_put_ok [OF k1 i]], elim conjE exE, goal_cases)
      case (1 e h2 mt)
      note m2 = laterD(1) [OF 1(2) m(1)] and ok2 = qknownD(4) [OF 1(1)]
      show ?case
      proof (cases "qd_node d = qd_node e")
        case True
        show ?thesis unfolding if_P [OF True]
        proof (rule ok_load_next_2Dd [OF 1(1) m2], goal_cases)
          case (1 h3)
          then show ?case using null by (simp del: ok.simps)
        next
          case (2 h3 nxt)
          note m3 = laterD(1) [OF 2(2) m2]
          show ?case using 2(3) unfolding True [symmetric]
            by (simp del: ok.simps, intro ok_load_next_some_2Dd [OF 2(1) m3 2(4)])
              (use again i laterD(1) m3 2(4) True in \<open>auto simp del: ok.simps intro!: ok_put_cae\<close>)
        qed
      next
        case False
        have lt: "m < mt" using m(2) 1(6) False m2 1(4) by (cases "m = mt") (auto simp: place_def)
        have val: "ok (queue_proto_2Dd cfg) (room2Dd cfg) t
             (pbind (load_next (qd_node d)) (\<lambda>nxt. pbind (load_val nxt) (\<lambda>val. pbind (free_node_q2Dd t (qd_node d)) (\<lambda>_. Ret (val, l')))))
             (queue_post_2Dd al cfg t Deq (xs, ys)) h4"
          if k: "qknown cfg t None (Some (qd_node d)) xs (v # ys) h4" "place (qmem h4) ?i m (qd_node d)" "place (qmem h4) ?i (m + 1) nxt"
            "node_val (nodes (qmem h4)) nxt = v" for nxt v h4
        proof (rule ok_load_next_some_2Dd [OF k(1-3)], goal_cases)
          case (1 h5)
          have p: "place (qmem h5) ?i (m + 1) nxt" by (rule laterD(1) [OF 1(2) k(3)])
          have "nxt \<in> set (allocd (nodes (qmem h4)))" using qknown_place [OF k(1,3)] by metis
          then have v: "node_val (nodes (qmem h5)) nxt = v" using laterD(5) [OF 1(2)] k(4) by simp
          show ?case
            by (rule ok_load_val_2Dd [OF 1(1) p]) (use v al i in \<open>auto simp del: ok.simps intro!: ok_free_node queue_post_Ret\<close>)
        qed
        define nxt where "nxt = links (qmem h2) ! ?i ! (m + 1)"
        have nx: "place (qmem h2) ?i (m + 1) nxt" and me: "m < enqs h2 ?i" using 1(4,5) lt by (auto simp: place_def nxt_def)
        show ?thesis unfolding if_not_P [OF False]
        proof (rule ok_load_next_some_2Dd [OF 1(1) m2 nx], goal_cases)
          case (1 h3)
          note l3 = laterD [OF 1(2)]
          have p3: "place (qmem h3) ?i m (qd_node d)" "place (qmem h3) ?i (m + 1) nxt" "m < enqs h3 ?i"
            using l3(1) [OF m2] l3(1) [OF nx] l3(3) [of ?i] me by auto
          show ?case
          proof (rule ok_deq_cae [OF 1(1) i p3], goal_cases)
            case (1 h4)
            have "nxt \<in> set (allocd (nodes (qmem h3)))" using qknown_place [OF \<open>qknown cfg t None None xs ys h3\<close> p3(2)] by metis
            then have "node_val (nodes (qmem h4)) nxt = node_val (nodes (qmem h3)) nxt" by (rule laterD(5) [OF 1(2)])
            then show ?case unfolding if_P [OF TrueI] using val [OF 1(1)] laterD(1) [OF 1(2)] p3 by blast
          next
            case (2 h4)
            then show ?case using again by (simp del: ok.simps)
          qed
        qed
      qed
    qed
  qed
qed

interpretation que_threads: threads "queue_proto_2Dd cfg" "room2Dd cfg" "queue_conc_inv cfg"
  "queue_call_2Dd al fuel cfg" "queue_rest_2Dd al cfg" "\<lambda>l. thread_index l < width cfg" queue_hist for cfg fuel al
proof (unfold_locales, goal_cases)
  case (1 t s g g')
  then show ?case unfolding queue_rest_2Dd_def using qknown_env(1) by blast
next
  case (2 t s g l c)
  obtain xs ys where s: "s = (xs, ys)" by (cases s)
  have al: "alloc_fresh al" and k: "qknown cfg t None None xs ys g" using 2(1) by (simp_all add: queue_rest_2Dd_def s)
  have "ok (queue_proto_2Dd cfg) (room2Dd cfg) t (queue_call_2Dd al fuel cfg t c l) (queue_post_2Dd al cfg t c (xs, ys)) g"
  proof (cases c)
    case (Enq key val)
    show ?thesis unfolding Enq queue_call_2Dd_def queue_call.case enqueue_2Dd_def
      by (rule ok_create_node [OF k al], rule enqueue_ok_2Dd [OF al _ _ _ 2(2)]) auto
  next
    case Deq
    show ?thesis unfolding Deq queue_call_2Dd_def queue_call.case dequeue_2Dd_def by (rule dequeue_ok_2Dd [OF al k 2(2)])
  qed
  then show ?case unfolding queue_post_2Dd_def s .
qed

section \<open>Properties\<close>

lemma create_queue_rest:
  assumes c: "create_queue_2Dd al t0 junk nt w d mode bound = Some (cfg, g)" and al: "alloc_fresh al"
    and u: "1 \<le> width cfg" "width cfg < 4294967296" "1 \<le> depth cfg" "2 * depth cfg < W64"
  shows "queue_rest_2Dd al cfg t ([], []) g" "queue_conc_inv cfg g"
proof -
  note C = create_queue_ok [OF c al u(1-3)]
  have q: "ds2Dd_ok cfg" "queue_inv_2Dd cfg g" "\<And>i. i < width cfg \<Longrightarrow> length (links (qmem g) ! i) = enqs g i + 1"
    "\<And>i. i < width cfg \<Longrightarrow> enqs g i \<le> global_PWindow g \<and> global_PWindow g \<le> enqs g i + depth cfg"
    using C(1,3) by (auto simp: quiet_queue_2Dd_def win_inv2Dd_def)
  show inv: "queue_conc_inv cfg g" unfolding queue_conc_inv_def linked_in_window_def using q by simp
  have "global_GWindow g = depth cfg"
    using c by (auto simp: create_queue_2Dd_def initialize_global_window_2Dd_def Let_def split: option.splits)
  then show "queue_rest_2Dd al cfg t ([], []) g"
    using inv al C(3,5,6) u(4) by (simp add: queue_rest_2Dd_def qknown_def room2Dd_def pushed_by_def taken_by_def)
qed


lemma queue_2Dd_safe:
  assumes c: "create_queue_2Dd al t0 junk nt w d mode bound = Some (cfg, g0)" and al: "alloc_fresh al"
    and u: "1 \<le> width cfg" "width cfg < 4294967296" "1 \<le> depth cfg" "2 * depth cfg < W64"
    and ls: "length ls = length css" "\<forall>l \<in> set ls. thread_index l < width cfg"
    and run: "pool_reaches (room2Dd cfg) (client_pool (queue_call_2Dd al fuel cfg) css ls, g0) (ps, g)"
    and ij: "i < width cfg" "j < width cfg"
  shows "Fault \<notin> set ps \<and> queue_inv_2Dd cfg g \<and> enqs g i \<le> enqs g j + depth cfg \<and>
    length (links (qmem g) ! i) \<le> global_PWindow g + 1 \<and> distinct (map fst (freed (nodes (qmem g)))) \<and>
    fst ` set (freed (nodes (qmem g))) \<inter> set (concat (waiting (qmem g) (heads_2Dd g))) = {}"
proof -
  note R = create_queue_rest [OF c al u]
  have p: "Fault \<notin> set ps" "queue_conc_inv cfg g" using que_threads.pool_clients(1) [OF run R(1) ls R(2)] by auto
  then have inv: "queue_inv_2Dd cfg g" and w: "length (links (qmem g) ! i) \<le> global_PWindow g + 1" "global_PWindow g \<le> enqs g j + depth cfg"
    using ij by (auto simp: queue_conc_inv_def linked_in_window_def)
  have "enqs g i < length (links (qmem g) ! i)" by (rule queue_inv_place(4) [OF inv ij(1)])
  then have "enqs g i \<le> enqs g j + depth cfg" using w by linarith
  then show ?thesis using p(1) inv w(1) queues_ok_freed [OF queue_invD(2) [OF inv]] by simp
qed

lemma queue_2Dd_conservation:
  assumes c: "create_queue_2Dd al t0 junk nt w d mode bound = Some (cfg, g0)" and al: "alloc_fresh al"
    and u: "1 \<le> width cfg" "width cfg < 4294967296" "1 \<le> depth cfg" "2 * depth cfg < W64"
    and ls: "length ls = length css" "\<forall>l \<in> set ls. thread_index l < width cfg"
    and run: "pool_reaches (room2Dd cfg) (client_pool (queue_call_2Dd al fuel cfg) css ls, g0) (ps, g)"
    and rss: "map prog_result ps = map Some rss"
  shows "nonnull (mset (concat (map enq_values css))) =
    mset (concat (map (\<lambda>t. deq_values (css ! t) (rss ! t)) [0 ..< length css])) +
    nonnull (image_mset (node_val (nodes (qmem g))) (mset (concat (waiting (qmem g) (heads_2Dd g)))))"
proof -
  note R = create_queue_rest [OF c al u]
  note p = que_threads.pool_clients [OF run R(1) ls R(2)]
  have ok: "queues_ok (qmem g) (heads_2Dd g) (tails_2Dd g)" using p(1) by (simp add: queue_conc_inv_def queue_inv_2Dd_def)
  show ?thesis
  proof (rule queue_histories_add_up [OF ok])
    fix t
    assume t: "t < length css"
    obtain xs ys where "spec_run queue_hist (css ! t) ([], []) (rss ! t) (xs, ys)" "queue_rest_2Dd al cfg t (xs, ys) g"
      using p(2) [OF rss t] by auto
    then show "sent_by t (qmem g) = rev (enq_values (css ! t)) \<and>
        filter (\<lambda>v. v \<noteq> 0) (taken_by t (qmem g)) = rev (deq_values (css ! t) (rss ! t))"
      using queue_hist_run [of "css ! t" "[]" "[]" "rss ! t" xs ys] by (simp add: queue_rest_2Dd_def qknown_def)
  next
    fix t
    assume "length css \<le> t"
    then show "sent_by t (qmem g) = [] \<and> taken_by t (qmem g) = []"
      using p(3) [of t] by (simp add: queue_rest_2Dd_def qknown_def)
  qed
qed

text \<open>
  C13. The 2Dd queue under concurrency. Any number of threads run any lists of enqueues and dequeues,
  interleaved at every access to shared memory, on a new queue and as long as the 64-bit windows do
  not wrap; descriptors are read word by word, tails are left behind and advanced by helpers. At every
  moment no thread has read through a null or dangling pointer, every sub-queue is a well-formed
  linked list from its sentinel with its counts right, no sub-queue has more
  than \<open>depth\<close> completed enqueues more than another, no node beyond the put window is linked,
  no node is freed twice, and no node a dequeue can still return is freed. Nothing is lost or duplicated: when all
  threads have finished, the values enqueued are those the dequeues returned and those still in the queue. The value
  0 is left out, since a dequeue returns it for an empty queue too.
\<close>

theorem queue_2Dd_threads_safe:
  assumes "create_queue_2Dd al t0 junk nt w d mode bound = Some (cfg, g0)" "alloc_fresh al"
    and "1 \<le> width cfg" "width cfg < 4294967296" "1 \<le> depth cfg" "2 * depth cfg < W64"
    and "length ls = length css" "\<forall>l \<in> set ls. thread_index l < width cfg"
    and "pool_reaches (room2Dd cfg) (client_pool (queue_call_2Dd al fuel cfg) css ls, g0) (ps, g)"
    and "i < width cfg" "j < width cfg"
  shows "Fault \<notin> set ps \<and> queue_inv_2Dd cfg g \<and> enqs g i \<le> enqs g j + depth cfg \<and>
    length (links (qmem g) ! i) \<le> global_PWindow g + 1 \<and> distinct (map fst (freed (nodes (qmem g)))) \<and>
    fst ` set (freed (nodes (qmem g))) \<inter> set (concat (waiting (qmem g) (heads_2Dd g))) = {} \<and>
    (\<forall>rss. map prog_result ps = map Some rss \<longrightarrow>
      nonnull (mset (concat (map enq_values css))) =
      mset (concat (map (\<lambda>t. deq_values (css ! t) (rss ! t)) [0 ..< length css])) +
      nonnull (image_mset (node_val (nodes (qmem g))) (mset (concat (waiting (qmem g) (heads_2Dd g))))))"
  using queue_2Dd_safe [OF assms] queue_2Dd_conservation [OF assms(1-9)] by blast

text \<open>Two threads on the demo queue, one access each in turn.\<close>

definition demo_queue_run :: "nat list \<Rightarrow> (queue2Dd, int list) prog list \<times> queue2Dd" where
  "demo_queue_run is = sched (room2Dd (fst demo_queue_2Dd)) is
     (client_pool (queue_call_2Dd bump_alloc 12 (fst demo_queue_2Dd)) [[Enq 1 10, Deq], [Enq 2 20]]
        [fresh_qtl (1, 2, 3) 0, fresh_qtl (4, 5, 6) 1], snd demo_queue_2Dd)"

lemma demo_queue_run_reaches:
  "pool_reaches (room2Dd (fst demo_queue_2Dd))
     (client_pool (queue_call_2Dd bump_alloc 12 (fst demo_queue_2Dd)) [[Enq 1 10, Deq], [Enq 2 20]]
        [fresh_qtl (1, 2, 3) 0, fresh_qtl (4, 5, 6) 1], snd demo_queue_2Dd)
     (fst (demo_queue_run is), snd (demo_queue_run is))"
  unfolding demo_queue_run_def prod.collapse by (rule sched_reaches)

lemma demo_sentinels: "add_sentinels bump_alloc 0 \<lparr>n_key = 0, n_val = 0, n_next = 0\<rparr> 3 =
  \<lparr>nodes = \<lparr>heap = [1 \<mapsto> \<lparr>n_key = 0, n_val = 0, n_next = 0\<rparr>, 2 \<mapsto> \<lparr>n_key = 0, n_val = 0, n_next = 0\<rparr>, 3 \<mapsto> \<lparr>n_key = 0, n_val = 0, n_next = 0\<rparr>],
     allocd = [3, 2, 1], owner = [1 \<mapsto> 0, 2 \<mapsto> 0, 3 \<mapsto> 0], removed = [], hist = [], freed = []\<rparr>, links = [[1], [2], [3]], taken = []\<rparr>"
    by (simp add: numeral_3_eq_3 numeral_2_eq_2 prog_unfold empty_mem_def bump_alloc_def)

lemma demo_queue_eq: "demo_queue_2Dd = (\<lparr>random_hops = 2, width = 3, depth = 2, relaxation_bound = 4, k_mode = 0\<rparr>,
  \<lparr>global_PWindow = 2, global_GWindow = 2, get_array = [\<lparr>qd_node = 1, qd_count = 0\<rparr>, \<lparr>qd_node = 2, qd_count = 0\<rparr>, \<lparr>qd_node = 3, qd_count = 0\<rparr>],
   put_array = [\<lparr>qd_node = 1, qd_count = 0\<rparr>, \<lparr>qd_node = 2, qd_count = 0\<rparr>, \<lparr>qd_node = 3, qd_count = 0\<rparr>],
   qmem = add_sentinels bump_alloc 0 \<lparr>n_key = 0, n_val = 0, n_next = 0\<rparr> 3\<rparr>)"
    by (simp add: demo_queue_2Dd_def create_queue_2Dd_def calc_params_def bound32_def initialize_global_window_2Dd_def
       mul64_def W64_def Let_def demo_sentinels)

lemma demo_queue_run_results:
  "map prog_result (fst (demo_queue_run (concat (replicate 36 [0, 1])))) = map Some [[1, 10], [1]]"
  by (simp add: demo_queue_run_def demo_queue_eq demo_sentinels client_pool_def queue_call_2Dd_def fresh_qtl_def
      room2Dd_def prog_unfold upt_rec cong: eval_cong)

theorem queue_2Dd_threads_safe_witness:
  "let (ps, g) = demo_queue_run (concat (replicate 36 [0, 1])) in
   Fault \<notin> set ps \<and> queue_inv_2Dd (fst demo_queue_2Dd) g \<and> enqs g 0 \<le> enqs g 1 + depth (fst demo_queue_2Dd) \<and>
    length (links (qmem g) ! 0) \<le> global_PWindow g + 1 \<and> distinct (map fst (freed (nodes (qmem g)))) \<and>
    fst ` set (freed (nodes (qmem g))) \<inter> set (concat (waiting (qmem g) (heads_2Dd g))) = {} \<and>
    nonnull (mset (concat (map enq_values [[Enq 1 10, Deq], [Enq 2 20]]))) =
      mset (concat (map (\<lambda>t. deq_values ([[Enq 1 10, Deq], [Enq 2 20]] ! t) ([[1, 10], [1]] ! t)) [0 ..< length [[Enq 1 10, Deq], [Enq 2 20]]])) +
      nonnull (image_mset (node_val (nodes (qmem g))) (mset (concat (waiting (qmem g) (heads_2Dd g)))))"
proof -
  let ?ls = "[fresh_qtl (1, 2, 3) 0, fresh_qtl (4, 5, 6) 1]" and ?cfg = "fst demo_queue_2Dd"
  have u: "1 \<le> width ?cfg" "width ?cfg < 4294967296" "1 \<le> depth ?cfg" "2 * depth ?cfg < W64" "length ?ls = length [[Enq 1 10, Deq], [Enq 2 20]]"
    "\<forall>l \<in> set ?ls. thread_index l < width ?cfg" "0 < width ?cfg" "1 < width ?cfg"
    by (simp_all add: demo_queue_cfg W64_def fresh_qtl_def)
  show ?thesis unfolding Let_def case_prod_unfold
    using queue_2Dd_threads_safe [OF demo_queue_created bump_alloc_fresh u(1-6) demo_queue_run_reaches u(7,8)] demo_queue_run_results by blast
qed

end
