(* ===== verification/Stack_Threads.thy ===== *)
theory Stack_Threads
  imports Histories
begin

text \<open>
  What the threads of every linked stack have in common. A component says how its state shows the
  node memory (\<open>getm\<close>, \<open>setm\<close>) and the tops of its sub-stacks (\<open>gett\<close>), and that each step of its
  protocol either leaves both alone or is a \<open>node_step\<close>. In return it gets, proved once, what a thread knows
  whatever the others do, and the rules for the actions of a push and a pop: allocate a node, set
  its next pointer, publish it, read a published node, unlink the top, free it.
\<close>

locale stack_protocol = protocol astep A Inv
  for astep :: "'g protocol" and A Inv :: "'g \<Rightarrow> bool" +
  fixes getm :: "'g \<Rightarrow> node_mem" and setm :: "node_mem \<Rightarrow> 'g \<Rightarrow> 'g" and gett :: "'g \<Rightarrow> tops" and same :: "'g \<Rightarrow> 'g \<Rightarrow> bool"
  assumes inv_stacks: "Inv g \<Longrightarrow> stacks_ok (getm g) (gett g)"
    and step_cases: "Inv g \<Longrightarrow> astep u g g' \<Longrightarrow>
      getm g' = getm g \<and> gett g' = gett g \<or> node_step u (getm g, gett g) (getm g', gett g')"
    and step_intro: "node_step u (getm g, gett g) (getm g', gett g') \<Longrightarrow> same g g' \<Longrightarrow> astep u g g'"
    and mem_same: "same g (setm m g)" "getm (setm m g) = m" "gett (setm m g) = gett g" "A (setm m g) = A g"
begin

text \<open>Thread \<open>t\<close> owns the unpublished node \<open>po\<close>, has still to free \<open>fo\<close>, has pushed \<open>xs\<close> and popped \<open>ys\<close>.\<close>

definition known :: "nat \<Rightarrow> (ptr \<times> mnode) option \<Rightarrow> ptr option \<Rightarrow> int list \<Rightarrow> int multiset \<Rightarrow> 'g \<Rightarrow> bool" where
  "known t po fo xs ys g \<longleftrightarrow> Inv g \<and> A g \<and>
     (\<forall>p nd. po = Some (p, nd) \<longrightarrow> mine (getm g) t p \<and> heap (getm g) p = Some nd) \<and>
     (\<forall>p. fo = Some p \<longrightarrow> (p, t) \<in> set (removed (getm g))) \<and>
     pushed_by t (getm g) = xs \<and> popped_by t (getm g) = ys"

definition published :: "ptr \<Rightarrow> 'g \<Rightarrow> bool" where
  "published p g \<longleftrightarrow> p = NULL \<or> p \<in> set (hist (getm g))"

text \<open>What a published node holds never changes.\<close>

definition after :: "'g \<Rightarrow> 'g \<Rightarrow> bool" where
  "after g h \<longleftrightarrow> (\<forall>p \<in> set (hist (getm g)). p \<in> set (hist (getm h)) \<and> heap (getm h) p = heap (getm g) p) \<and>
     length (gett h) = length (gett g)"

lemma after_refl [simp]: "after g g"
  by (simp add: after_def)

lemma after_trans: "after g h \<Longrightarrow> after h k \<Longrightarrow> after g k"
  by (auto simp: after_def)

lemma afterD:
  assumes "after g h"
  shows "published p g \<Longrightarrow> published p h" "p \<in> set (hist (getm g)) \<Longrightarrow> heap (getm h) p = heap (getm g) p"
    "length (gett h) = length (gett g)" "p \<in> set (hist (getm g)) \<Longrightarrow> p \<in> set (hist (getm h))"
  using assms by (auto simp: after_def published_def)

lemma knownD:
  assumes "known t po fo xs ys g"
  shows "Inv g" "A g" "stacks_ok (getm g) (gett g)" "pushed_by t (getm g) = xs" "popped_by t (getm g) = ys"
    "po = Some (p, nd) \<Longrightarrow> mine (getm g) t p \<and> heap (getm g) p = Some nd" "fo = Some q \<Longrightarrow> (q, t) \<in> set (removed (getm g))"
  using assms inv_stacks by (auto simp: known_def)

lemma step_after:
  assumes "Inv g" "astep u g g'"
  shows "after g g'"
  using step_cases [OF assms] node_step_hist [OF _ inv_stacks [OF assms(1)]] node_step_length by (auto simp: after_def)

lemma known_env:
  assumes k: "known t po fo xs ys g" and e: "env1 astep A t g g'"
  shows "known t po fo xs ys g'" "after g g'"
proof -
  obtain u where u: "u \<noteq> t" "astep u g g'" and A: "A g'" using e by (auto simp: env1_def)
  note D = knownD(1-3) [OF k]
  have inv: "Inv g'" by (rule inv_step [OF D(1) u(2) A])
  show "after g g'" by (rule step_after [OF D(1) u(2)])
  show "known t po fo xs ys g'"
  proof (cases "getm g' = getm g \<and> gett g' = gett g")
    case True
    then show ?thesis using k inv A by (simp add: known_def)
  next
    case False
    then have st: "node_step u (getm g, gett g) (getm g', gett g')" using step_cases [OF D(1) u(2)] by blast
    show ?thesis using k inv A node_step_others [OF st D(3) u(1)] node_step_values [OF st D(3) u(1)] by (simp add: known_def)
  qed
qed

lemma known_envs:
  assumes "env astep A t g h" "known t po fo xs ys g"
  shows "known t po fo xs ys h" "after g h"
proof -
  have "known t po fo xs ys h \<and> after g h"
    using assms
  proof (induction rule: rtranclp_induct)
    case (step y z)
    then have k: "known t po fo xs ys y" "after g y" by auto
    show ?case using known_env [OF k(1) step.hyps(2)] after_trans [OF k(2)] by blast
  qed simp
  then show "known t po fo xs ys h" "after g h" by auto
qed

text \<open>A pointer read from a top is published.\<close>

lemma top_published:
  assumes "stacks_ok (getm g) (gett g)" "i < length (gett g)"
  shows "published (fst (gett g ! i)) g"
proof -
  have "chain (heap (getm g)) (fst (gett g ! i)) (subs (getm g) (gett g) ! i)" by (rule stacks_okD(3) [OF assms])
  then show ?thesis using in_subs_hist [OF assms] by (cases "subs (getm g) (gett g) ! i") (auto simp: published_def)
qed

lemma own_step:
  assumes k: "known t po fo xs ys g" and st: "node_step t (getm g, gett g) (getm h, gett h)" "same g h" and A: "A h"
    and "\<And>p nd. po' = Some (p, nd) \<Longrightarrow> mine (getm h) t p \<and> heap (getm h) p = Some nd"
    and "\<And>p. fo' = Some p \<Longrightarrow> (p, t) \<in> set (removed (getm h))"
    and "pushed_by t (getm h) = xs'" "popped_by t (getm h) = ys'"
  shows "astep t g h" "known t po' fo' xs' ys' h" "after g h"
proof -
  note D = knownD(1-3) [OF k]
  show s: "astep t g h" by (rule step_intro [OF st])
  show "known t po' fo' xs' ys' h" using inv_step [OF D(1) s A] A assms(5-) by (simp add: known_def)
  show "after g h" by (rule step_after [OF D(1) s])
qed

text \<open>Another action of the thread on the state that leaves nodes and tops alone.\<close>

lemma own_other:
  assumes k: "known t po fo xs ys g" and st: "astep t g h" "A h" and m: "getm h = getm g"
  shows "known t po fo xs ys h"
  using inv_step [OF knownD(1) [OF k] st] k st m by (simp add: known_def)

section \<open>Actions\<close>

lemma ok_new_node:
  assumes k: "known t None fo xs ys g" and al: "alloc_fresh al"
    and go: "\<And>p h. known t (Some (p, nd)) fo xs ys h \<Longrightarrow> ok astep A t (f p) Q h"
  shows "ok astep A t (pbind (Act (\<lambda>g. setm (mem_alloc t (al t (allocd (getm g))) nd (getm g)) g)
    (\<lambda>g. Ret (al t (allocd (getm g))))) f) Q g"
  unfolding pbind.simps
proof (rule ok_Act, goal_cases)
  case (1 h)
  note [simp] = mem_same
  note k1 = known_envs(1) [OF 1(1) k]
  note ok = knownD(3) [OF k1]
  let ?p = "al t (allocd (getm h))"
  let ?h = "setm (mem_alloc t ?p nd (getm h)) h"
  have np: "?p \<noteq> NULL" "?p \<notin> set (allocd (getm h))" using al by (auto simp: alloc_fresh_def)
  have st: "node_step t (getm h, gett h) (getm ?h, gett ?h)" using ns_alloc [OF np(2,1)] by simp
  have "?p \<notin> set (hist (getm h))" using np(2) stacks_okD(6) [OF ok] by blast
  then have "known t (Some (?p, nd)) fo xs ys ?h"
    using own_values(1,2) [OF ok np(2)] knownD(2,4,5,7) [OF k1]
    by (intro own_step(2) [OF k1 st]) (auto simp: mine_def)
  then show ?case using go own_step(1) [OF k1 st, of None None "pushed_by t (getm ?h)"] knownD(2) [OF k1] by simp
qed

lemma ok_set_next_env:
  assumes k: "known t (Some (p, nd)) fo xs ys g"
    and go: "\<And>h h'. env astep A t g h \<Longrightarrow> h' = setm (mem_set_next p q (getm h)) h \<Longrightarrow>
      known t (Some (p, nd\<lparr>n_next := q\<rparr>)) fo xs ys h' \<Longrightarrow> after g h' \<Longrightarrow> ok astep A t (f ()) Q h'"
  shows "ok astep A t (pbind (wr (\<lambda>g. setm (mem_set_next p q (getm g)) g)) f) Q g"
proof (rule ok_wr, goal_cases)
  case (1 h)
  note [simp] = mem_same
  note k1 = known_envs(1) [OF 1(1) k] and a1 = known_envs(2) [OF 1(1) k]
  note ok = knownD(3) [OF k1]
  let ?h = "setm (mem_set_next p q (getm h)) h"
  have p: "mine (getm h) t p" "heap (getm h) p = Some nd" using knownD(6) [OF k1] by blast+
  have st: "node_step t (getm h, gett h) (getm ?h, gett ?h)" using ns_set_next [OF p(1)] by simp
  have po: "\<And>r m. Some (p, nd\<lparr>n_next := q\<rparr>) = Some (r, m) \<Longrightarrow> mine (getm ?h) t r \<and> heap (getm ?h) r = Some m"
    using p by (auto simp: mem_set_next_def)
  have fo: "\<And>r. fo = Some r \<Longrightarrow> (r, t) \<in> set (removed (getm ?h))" using knownD(7) [OF k1] p by (simp add: mem_set_next_def)
  note S = own_step [where po' = "Some (p, nd\<lparr>n_next := q\<rparr>)" and fo' = fo and xs' = xs and ys' = ys, OF k1 st _ _ po fo]
  show ?case using S own_values(3,4) [OF ok, of t p q] knownD(2,4,5) [OF k1] go [OF 1(1) refl] after_trans [OF a1] by simp
qed

lemma ok_set_next:
  assumes k: "known t (Some (p, nd)) fo xs ys g"
    and go: "\<And>h. known t (Some (p, nd\<lparr>n_next := q\<rparr>)) fo xs ys h \<Longrightarrow> after g h \<Longrightarrow> ok astep A t (f ()) Q h"
  shows "ok astep A t (pbind (wr (\<lambda>g. setm (mem_set_next p q (getm g)) g)) f) Q g"
  using k go by (rule ok_set_next_env)

text \<open>
  A conditional update in one action, for a compare-and-swap: \<open>c\<close> is the test and \<open>u\<close> the update.
  Publishing makes the thread's node the top of sub-stack \<open>i\<close>.
\<close>

lemma ok_publish_env:
  assumes k: "known t (Some (p, nd)) fo xs ys g"
    and cas: "\<And>h. env astep A t g h \<Longrightarrow> known t (Some (p, nd)) fo xs ys h \<Longrightarrow> c h \<Longrightarrow> A (u h) \<Longrightarrow> same h (u h) \<and> getm (u h) = mem_publish p (getm h) \<and>
      (\<exists>i < length (gett h). n_next nd = fst (gett h ! i) \<and> gett (u h) = (gett h)[i := (p, snd (gett h ! i) + 1)])"
    and finish: "\<And>h. known t None fo (n_val nd # xs) ys h \<Longrightarrow> ok astep A t (f True) Q h"
    and retry: "\<And>h. known t (Some (p, nd)) fo xs ys h \<Longrightarrow> ok astep A t (f False) Q h"
  shows "ok astep A t (pbind (Act (\<lambda>g. if c g then u g else g) (\<lambda>g. Ret (c g))) f) Q g"
  unfolding pbind.simps
proof (rule ok_Act, goal_cases)
  case (1 h)
  note k1 = known_envs(1) [OF 1(1) k]
  note ok = knownD(3) [OF k1]
  show ?case
  proof (cases "c h")
    case True
    have p: "mine (getm h) t p" "heap (getm h) p = Some nd" using knownD(6) [OF k1] by blast+
    have A: "A (u h)" using 1(2) True by simp
    obtain i where i: "i < length (gett h)" "n_next nd = fst (gett h ! i)" "gett (u h) = (gett h)[i := (p, snd (gett h ! i) + 1)]"
      and m: "getm (u h) = mem_publish p (getm h)" "same h (u h)" using cas [OF 1(1) k1 True A] by auto
    have st: "node_step t (getm h, gett h) (getm (u h), gett (u h))" using ns_publish [OF i(1) p i(2)] i(3) m(1) by simp
    have v: "pushed_by t (getm (u h)) = n_val nd # xs" "popped_by t (getm (u h)) = ys"
      using own_values(5,6) [OF ok] p knownD(4,5) [OF k1] m(1) by (simp_all add: node_val_def)
    have fo: "\<And>r. fo = Some r \<Longrightarrow> (r, t) \<in> set (removed (getm (u h)))" using knownD(7) [OF k1] m(1) by (simp add: mem_publish_def)
    note S = own_step [where po' = None and fo' = fo, OF k1 st m(2) A _ fo v]
    show ?thesis using S finish True by simp
  next
    case False
    then show ?thesis using retry [OF k1] by simp
  qed
qed

lemma ok_publish:
  assumes k: "known t (Some (p, nd)) fo xs ys g"
    and cas: "\<And>h. known t (Some (p, nd)) fo xs ys h \<Longrightarrow> c h \<Longrightarrow> A (u h) \<Longrightarrow> same h (u h) \<and> getm (u h) = mem_publish p (getm h) \<and>
      (\<exists>i < length (gett h). n_next nd = fst (gett h ! i) \<and> gett (u h) = (gett h)[i := (p, snd (gett h ! i) + 1)])"
    and finish: "\<And>h. known t None fo (n_val nd # xs) ys h \<Longrightarrow> ok astep A t (f True) Q h"
    and retry: "\<And>h. known t (Some (p, nd)) fo xs ys h \<Longrightarrow> ok astep A t (f False) Q h"
  shows "ok astep A t (pbind (Act (\<lambda>g. if c g then u g else g) (\<lambda>g. Ret (c g))) f) Q g"
  using k cas finish retry by (rule ok_publish_env)

lemma ok_unlink:
  assumes k: "known t po None xs ys g" and p: "p \<noteq> NULL" "p \<in> set (hist (getm g))" "heap (getm g) p = Some nd"
    and cas: "\<And>h. known t po None xs ys h \<Longrightarrow> after g h \<Longrightarrow> c h \<Longrightarrow> A (u h) \<Longrightarrow> same h (u h) \<and> getm (u h) = mem_remove t p (getm h) \<and>
      (\<exists>i < length (gett h). fst (gett h ! i) = p \<and> (0 < snd (gett h ! i) \<longrightarrow> gett (u h) = (gett h)[i := (n_next nd, snd (gett h ! i) - 1)]))"
    and finish: "\<And>h. known t po (Some p) xs (add_mset (n_val nd) ys) h \<Longrightarrow> p \<in> set (hist (getm h)) \<Longrightarrow> heap (getm h) p = Some nd \<Longrightarrow>
      ok astep A t (f True) Q h"
    and retry: "\<And>h. known t po None xs ys h \<Longrightarrow> after g h \<Longrightarrow> ok astep A t (f False) Q h"
  shows "ok astep A t (pbind (Act (\<lambda>g. if c g then u g else g) (\<lambda>g. Ret (c g))) f) Q g"
  unfolding pbind.simps
proof (rule ok_Act, goal_cases)
  case (1 h)
  note k1 = known_envs(1) [OF 1(1) k] and a1 = known_envs(2) [OF 1(1) k]
  note ok = knownD(3) [OF k1]
  show ?case
  proof (cases "c h")
    case True
    have A: "A (u h)" using 1(2) True by simp
    obtain i where i: "i < length (gett h)" "fst (gett h ! i) = p"
      "0 < snd (gett h ! i) \<longrightarrow> gett (u h) = (gett h)[i := (n_next nd, snd (gett h ! i) - 1)]"
      and m: "getm (u h) = mem_remove t p (getm h)" "same h (u h)" using cas [OF k1 a1 True A] by auto
    have nd: "heap (getm h) p = Some nd" "p \<in> set (hist (getm h))" using afterD(2,4) [OF a1 p(2)] p(3) by auto
    have "0 < snd (gett h ! i)" by (rule subs_remove(2) [OF ok i(1,2) p(1) nd(1)])
    then have st: "node_step t (getm h, gett h) (getm (u h), gett (u h))" using ns_remove [OF i(1,2) p(1) nd(1)] i(3) m(1) by simp
    have v: "pushed_by t (getm (u h)) = xs" "popped_by t (getm (u h)) = add_mset (n_val nd) ys"
      using own_values(7,8) [OF ok] nd knownD(4,5) [OF k1] m(1) by (simp_all add: node_val_def)
    have po: "\<And>r n. po = Some (r, n) \<Longrightarrow> mine (getm (u h)) t r \<and> heap (getm (u h)) r = Some n"
      using knownD(6) [OF k1] m(1) by (simp add: mem_remove_def mine_def)
    note S = own_step [where po' = po and fo' = "Some p", OF k1 st m(2) A po _ v]
    show ?thesis using S finish [of "u h"] True nd m(1) by (simp add: mem_remove_def)
  next
    case False
    then show ?thesis using retry [OF k1 a1] by simp
  qed
qed

lemma ok_free:
  assumes k: "known t po (Some p) xs ys g"
    and go: "\<And>h. known t po None xs ys h \<Longrightarrow> after g h \<Longrightarrow> ok astep A t (f ()) Q h"
  shows "ok astep A t (pbind (wr (\<lambda>g. setm (mem_free t p (getm g)) g)) f) Q g"
proof (rule ok_wr, goal_cases)
  case (1 h)
  note [simp] = mem_same
  note k1 = known_envs(1) [OF 1(1) k] and a1 = known_envs(2) [OF 1(1) k]
  note ok = knownD(3) [OF k1]
  let ?h = "setm (mem_free t p (getm h)) h"
  have p: "(p, t) \<in> set (removed (getm h))" using knownD(7) [OF k1] by blast
  have st: "node_step t (getm h, gett h) (getm ?h, gett ?h)" using ns_free [OF p] by simp
  have po: "\<And>r n. po = Some (r, n) \<Longrightarrow> mine (getm ?h) t r \<and> heap (getm ?h) r = Some n"
    using knownD(6) [OF k1] by (simp add: mem_free_def mine_def)
  note S = own_step [where po' = po and fo' = None and xs' = xs and ys' = ys, OF k1 st _ _ po]
  show ?case using S own_values(9,10) [OF ok] p knownD(2,4,5) [OF k1] go after_trans [OF a1] by simp
qed

text \<open>Reading a field of a published node.\<close>

lemma ok_node_field:
  assumes k: "known t po fo xs ys g" and p: "p \<in> set (hist (getm g))"
    and go: "\<And>h nd. known t po fo xs ys h \<Longrightarrow> after g h \<Longrightarrow> heap (getm g) p = Some nd \<Longrightarrow> heap (getm h) p = Some nd \<Longrightarrow>
      ok astep A t (f (sel nd)) Q h"
  shows "ok astep A t (pbind (rd_opt (\<lambda>g. map_option sel (heap (getm g) p))) f) Q g"
proof (rule ok_rd_opt, goal_cases)
  case (1 h)
  note k1 = known_envs(1) [OF 1 k] and a1 = known_envs(2) [OF 1 k]
  have "p \<in> dom (heap (getm g))" using p stacks_okD(1,6) [OF knownD(3) [OF k]] by blast
  then obtain nd where nd: "heap (getm g) p = Some nd" by blast
  then have "heap (getm h) p = Some nd" using afterD(2) [OF a1 p] by simp
  then show ?case using go [OF k1 a1 nd] by simp
qed

lemma ok_read:
  assumes "known t po fo xs ys g" "\<And>h. known t po fo xs ys h \<Longrightarrow> after g h \<Longrightarrow> ok astep A t (k (f h)) Q h"
  shows "ok astep A t (pbind (rd f) k) Q g"
  using assms by (intro ok_rd) (auto intro: known_envs)

section \<open>Histories of calls\<close>

definition rest :: "allocator \<Rightarrow> nat \<Rightarrow> int list \<times> int multiset \<Rightarrow> 'g \<Rightarrow> bool" where
  "rest al t s g \<longleftrightarrow> alloc_fresh al \<and> known t None None (fst s) (snd s) g"

definition post :: "allocator \<Rightarrow> nat \<Rightarrow> stack_call \<Rightarrow> int list \<times> int multiset \<Rightarrow> ('l \<Rightarrow> bool) \<Rightarrow> int \<times> 'l \<Rightarrow> 'g \<Rightarrow> bool" where
  "post al t c s fit = (\<lambda>(r, l) h. fit l \<and> (\<exists>s'. stack_hist c s r s' \<and> rest al t s' h))"

lemma rest_env: "rest al t s g \<Longrightarrow> env1 astep A t g g' \<Longrightarrow> rest al t s g'"
  unfolding rest_def using known_env(1) by blast

lemma post_Ret:
  assumes "known t None None xs' ys' g" "alloc_fresh al" "stack_hist c s r (xs', ys')" "fit l"
  shows "ok astep A t (Ret (r, l)) (post al t c s fit) g"
proof (rule ok_Ret)
  fix h
  assume "env astep A t g h"
  then have "rest al t (xs', ys') h" using known_envs(1) assms(1,2) by (simp add: rest_def)
  then show "post al t c s fit (r, l) h" unfolding post_def prod.case using assms(3,4) by blast
qed

text \<open>The end of a run: what was pushed is what was popped and what is left.\<close>

lemma histories:
  assumes inv: "Inv g"
    and t: "\<And>t. t < length css \<Longrightarrow> \<exists>s. spec_run stack_hist (css ! t) ([], {#}) (rss ! t) s \<and> rest al t s g"
    and out: "\<And>t. length css \<le> t \<Longrightarrow> rest al t ([], {#}) g"
  shows "nonnull (mset (concat (map push_values css))) =
    mset (concat (map (\<lambda>t. pop_values (css ! t) (rss ! t)) [0 ..< length css])) +
    nonnull (image_mset (node_val (getm g)) (mset (concat (subs (getm g) (gett g)))))"
proof (rule stack_histories_add_up [OF inv_stacks [OF inv]])
  fix u
  assume u: "u < length css"
  obtain xs ys where "spec_run stack_hist (css ! u) ([], {#}) (rss ! u) (xs, ys)" "rest al u (xs, ys) g" using t [OF u] by auto
  then show "pushed_by u (getm g) = rev (push_values (css ! u)) \<and> nonnull (popped_by u (getm g)) = mset (pop_values (css ! u) (rss ! u))"
    by (auto simp: rest_def known_def dest: stack_hist_run)
next
  fix u
  assume "length css \<le> u"
  then show "pushed_by u (getm g) = [] \<and> popped_by u (getm g) = {#}" using out by (simp add: rest_def known_def)
qed

end

end
