(* ===== verification/Treiber.thy ===== *)
theory Treiber
  imports Stack_Threads
begin

text \<open>
  The lock-free stack of Treiber, \<^verbatim>\<open>src/stack-treiber\<close>, the stack the relaxed ones are compared
  with: \<^verbatim>\<open>mstack_treiber_insert\<close> and \<^verbatim>\<open>mstack_treiber_delete\<close> of \<^verbatim>\<open>stack-treiber.c\<close> and the
  node and size functions of \<^verbatim>\<open>stack-lockfree.c\<close>. The state is the top pointer and the node
  memory; \<open>size_tr\<close> is a ghost field, the number of nodes.

  Alone, the calls are those of a list; together, the threads keep the stack a linear list, follow no bad pointer, and
  lose and duplicate nothing.
\<close>

section \<open>State and operations\<close>

record treiber =
  top_tr :: ptr
  mem_tr :: node_mem
  size_tr :: nat

record treiber_tl =
  my_push_cas_fail_count :: u64
  my_pop_cas_fail_count :: u64
  my_null_count_tr :: u64

definition mstack_new_node :: "allocator \<Rightarrow> nat \<Rightarrow> int \<Rightarrow> int \<Rightarrow> ptr \<Rightarrow> (treiber, ptr) prog" where
  "mstack_new_node al t key val nxt =
     Act (\<lambda>g. g\<lparr>mem_tr := mem_alloc t (al t (allocd (mem_tr g))) \<lparr>n_key = key, n_val = val, n_next = nxt\<rparr> (mem_tr g)\<rparr>)
         (\<lambda>g. Ret (al t (allocd (mem_tr g))))"

definition cas_top :: "ptr \<Rightarrow> ptr \<Rightarrow> (treiber \<Rightarrow> treiber) \<Rightarrow> (treiber, bool) prog" where
  "cas_top old new ghost =
     Act (\<lambda>g. if top_tr g = old then ghost (g\<lparr>top_tr := new\<rparr>) else g) (\<lambda>g. Ret (top_tr g = old))"

fun treiber_insert_loop :: "nat \<Rightarrow> ptr \<Rightarrow> treiber_tl \<Rightarrow> (treiber, int \<times> treiber_tl) prog" where
  "treiber_insert_loop 0 node l = NoFuel"
| "treiber_insert_loop (Suc n) node l =
     pbind (rd top_tr) (\<lambda>top.
     pbind (wr (\<lambda>g. g\<lparr>mem_tr := mem_set_next node top (mem_tr g)\<rparr>)) (\<lambda>_.
     pbind (cas_top top node (\<lambda>g. g\<lparr>mem_tr := mem_publish node (mem_tr g), size_tr := size_tr g + 1\<rparr>)) (\<lambda>success.
     if success then Ret (1, l)
     else treiber_insert_loop n node (l\<lparr>my_push_cas_fail_count := add64 (my_push_cas_fail_count l) 1\<rparr>))))"

definition mstack_treiber_insert ::
  "allocator \<Rightarrow> nat \<Rightarrow> nat \<Rightarrow> int \<Rightarrow> int \<Rightarrow> treiber_tl \<Rightarrow> (treiber, int \<times> treiber_tl) prog" where
  "mstack_treiber_insert al fuel t key val l =
     pbind (mstack_new_node al t key val NULL) (\<lambda>node. treiber_insert_loop fuel node l)"

text \<open>
  \<^verbatim>\<open>mstack_treiber_delete\<close> reads \<^verbatim>\<open>top->val\<close> after it has handed the node to \<^verbatim>\<open>ssmem_free\<close>: the epoch
  based collector keeps it readable while the operation lasts, which is why freed nodes stay in the heap.
\<close>

fun treiber_delete_loop :: "nat \<Rightarrow> nat \<Rightarrow> treiber_tl \<Rightarrow> (treiber, int \<times> treiber_tl) prog" where
  "treiber_delete_loop 0 t l = NoFuel"
| "treiber_delete_loop (Suc n) t l =
     pbind (rd top_tr) (\<lambda>top.
     if top = NULL then Ret (0, l\<lparr>my_null_count_tr := add64 (my_null_count_tr l) 1\<rparr>)
     else
       pbind (rd_opt (\<lambda>g. map_option n_next (heap (mem_tr g) top))) (\<lambda>nxt.
       pbind (cas_top top nxt (\<lambda>g. g\<lparr>mem_tr := mem_remove t top (mem_tr g), size_tr := size_tr g - 1\<rparr>)) (\<lambda>success.
       if success then
         pbind (wr (\<lambda>g. g\<lparr>mem_tr := mem_free t top (mem_tr g)\<rparr>)) (\<lambda>_.
         pbind (rd_opt (\<lambda>g. map_option n_val (heap (mem_tr g) top))) (\<lambda>val. Ret (val, l)))
       else treiber_delete_loop n t (l\<lparr>my_pop_cas_fail_count := add64 (my_pop_cas_fail_count l) 1\<rparr>))))"

definition mstack_treiber_delete :: "nat \<Rightarrow> nat \<Rightarrow> treiber_tl \<Rightarrow> (treiber, int \<times> treiber_tl) prog" where
  "mstack_treiber_delete fuel t l = treiber_delete_loop fuel t l"

definition mstack_treiber_find :: "int \<Rightarrow> (treiber, int) prog" where
  "mstack_treiber_find key = Ret 1"

definition mstack_new :: treiber where
  "mstack_new = \<lparr>top_tr = NULL, mem_tr = empty_mem, size_tr = 0\<rparr>"

text \<open>\<^verbatim>\<open>mstack_size\<close> counts in an \<^verbatim>\<open>int\<close>, whose overflow is undefined.\<close>

fun mstack_size_walk :: "nat \<Rightarrow> ptr \<Rightarrow> int \<Rightarrow> (treiber, int) prog" where
  "mstack_size_walk 0 node sz = NoFuel"
| "mstack_size_walk (Suc n) node sz =
     (if node \<noteq> NULL then
        pbind (assert (sz < 2147483647)) (\<lambda>_.
        pbind (rd_opt (\<lambda>g. map_option n_next (heap (mem_tr g) node))) (\<lambda>node. mstack_size_walk n node (sz + 1)))
      else Ret sz)"

definition mstack_size :: "nat \<Rightarrow> (treiber, int) prog" where
  "mstack_size fuel = pbind (rd top_tr) (\<lambda>node. mstack_size_walk fuel node 0)"

definition treiber_call :: "allocator \<Rightarrow> nat \<Rightarrow> nat \<Rightarrow> stack_call \<Rightarrow> treiber_tl \<Rightarrow> (treiber, int \<times> treiber_tl) prog" where
  "treiber_call al fuel t c l =
     (case c of Push key val \<Rightarrow> mstack_treiber_insert al fuel t key val l | Pop \<Rightarrow> mstack_treiber_delete fuel t l)"

lemmas treiber_unfold [prog_unfold] =
  mstack_new_node_def cas_top_def mstack_treiber_insert_def mstack_treiber_delete_def mstack_new_def mstack_size_def treiber_call_def
  treiber_insert_loop.simps(2) [of "pred_numeral k" for k, folded numeral_eq_Suc]
  treiber_delete_loop.simps(2) [of "pred_numeral k" for k, folded numeral_eq_Suc]
  mstack_size_walk.simps(2) [of "pred_numeral k" for k, folded numeral_eq_Suc]

section \<open>The protocol\<close>

definition tops_tr :: "treiber \<Rightarrow> tops" where
  "tops_tr g = [(top_tr g, size_tr g)]"

definition treiber_inv :: "treiber \<Rightarrow> bool" where
  "treiber_inv g \<longleftrightarrow> stacks_ok (mem_tr g) (tops_tr g)"

definition treiber_step :: "treiber protocol" where
  "treiber_step t g g' \<longleftrightarrow> node_step t (mem_tr g, tops_tr g) (mem_tr g', tops_tr g')"

text \<open>The nodes of the stack, top first, and their values.\<close>

definition nodes_tr :: "treiber \<Rightarrow> ptr list" where
  "nodes_tr g = subs (mem_tr g) (tops_tr g) ! 0"

definition values_tr :: "treiber \<Rightarrow> int list" where
  "values_tr g = map (node_val (mem_tr g)) (nodes_tr g)"

lemma tops_tr_simps [simp]:
  "length (tops_tr g) = 1" "tops_tr g ! 0 = (top_tr g, size_tr g)" "tops_tr (g\<lparr>mem_tr := m\<rparr>) = tops_tr g"
  by (simp_all add: tops_tr_def)

interpretation tr: stack_protocol treiber_step "\<lambda>_. True" treiber_inv mem_tr "\<lambda>m g. g\<lparr>mem_tr := m\<rparr>" tops_tr "\<lambda>_ _. True"
  by unfold_locales (auto simp: treiber_inv_def treiber_step_def intro: node_step_ok)

section \<open>Under interference\<close>

lemma top_published_tr: "tr.known t po fo xs ys g \<Longrightarrow> tr.published (top_tr g) g"
  using tr.top_published [OF tr.knownD(3), of t po fo xs ys g 0] by simp

lemma insert_ok_tr:
  assumes al: "alloc_fresh al" and k: "tr.known t (Some (p, nd)) None xs ys g" and val: "n_val nd = val"
  shows "ok treiber_step (\<lambda>_. True) t (treiber_insert_loop n p l) (tr.post al t (Push key val) (xs, ys) (\<lambda>_. True)) g"
  using k val
proof (induction n arbitrary: l nd g)
  case 0
  then show ?case by simp
next
  case (Suc n)
  show ?case
    unfolding treiber_insert_loop.simps
  proof (rule tr.ok_read [OF Suc.prems(1)], rule tr.ok_set_next, assumption, goal_cases)
    case (1 h h')
    show ?case unfolding cas_top_def
    proof (rule tr.ok_publish [OF 1(3)], goal_cases)
      case (1 k)
      then show ?case by (simp add: tops_tr_def)
    next
      case (2 k)
      then show ?case using Suc.prems al by (simp del: ok.simps) (rule tr.post_Ret, auto)
    next
      case (3 k)
      then show ?case using Suc.IH Suc.prems(2) by (simp del: ok.simps)
    qed
  qed
qed

lemma delete_ok_tr:
  assumes al: "alloc_fresh al" and "tr.known t None None xs ys g"
  shows "ok treiber_step (\<lambda>_. True) t (treiber_delete_loop n t l) (tr.post al t Pop (xs, ys) (\<lambda>_. True)) g"
  using assms(2)
proof (induction n arbitrary: l g)
  case 0
  then show ?case by simp
next
  case (Suc n)
  have null: "ok treiber_step (\<lambda>_. True) t (Ret (0, l')) (tr.post al t Pop (xs, ys) (\<lambda>_. True)) h"
    if "tr.known t None None xs ys h" for h l' using that al by (intro tr.post_Ret) (auto simp: took_def)
  show ?case
    unfolding treiber_delete_loop.simps
  proof (rule ok_rd, goal_cases)
    case (1 h)
    note k = tr.known_envs(1) [OF 1 Suc.prems]
    let ?p = "top_tr h"
    show ?case
    proof (cases "?p = NULL")
      case True
      then show ?thesis using null [OF k] by (simp del: ok.simps)
    next
      case False
      then have p: "?p \<in> set (hist (mem_tr h))" using top_published_tr [OF k] by (simp add: tr.published_def)
      show ?thesis unfolding if_not_P [OF False]
      proof (rule tr.ok_node_field [OF k p], goal_cases)
        case (1 h1 nd)
        have p1: "?p \<in> set (hist (mem_tr h1))" by (rule tr.afterD(4) [OF 1(2) p])
        show ?case unfolding cas_top_def
        proof (rule tr.ok_unlink [OF 1(1) False p1 1(4)], goal_cases)
          case (1 h2)
          then show ?case by (simp add: tops_tr_def)
        next
          case (2 h2)
          show ?case unfolding if_P [OF TrueI]
          proof (rule tr.ok_free [OF 2(1)], goal_cases)
            case (1 h3)
            have "?p \<in> set (hist (mem_tr h3))" "heap (mem_tr h3) ?p = Some nd"
              using tr.afterD(2,4) [OF 1(2) 2(2)] 2(3) by auto
            then show ?case using 1(1) al by (intro tr.ok_node_field) (auto simp: took_def simp del: ok.simps intro!: tr.post_Ret)
          qed
        next
          case (3 h2)
          then show ?case using Suc.IH by (simp del: ok.simps)
        qed
      qed
    qed
  qed
qed

interpretation tr_threads: threads treiber_step "\<lambda>_. True" treiber_inv "treiber_call al fuel" "tr.rest al" "\<lambda>_. True" stack_hist for al fuel
proof (unfold_locales, goal_cases)
  case (1 t s g g')
  then show ?case by (rule tr.rest_env)
next
  case (2 t s g l c)
  obtain xs ys where s: "s = (xs, ys)" by (cases s)
  have al: "alloc_fresh al" and k: "tr.known t None None xs ys g" using 2(1) by (simp_all add: tr.rest_def s)
  have "ok treiber_step (\<lambda>_. True) t (treiber_call al fuel t c l) (tr.post al t c (xs, ys) (\<lambda>_. True)) g"
  proof (cases c)
    case (Push key val)
    show ?thesis unfolding Push treiber_call_def stack_call.case mstack_treiber_insert_def mstack_new_node_def
      by (rule tr.ok_new_node [OF k al], rule insert_ok_tr [OF al], assumption) simp
  next
    case Pop
    show ?thesis unfolding Pop treiber_call_def stack_call.case mstack_treiber_delete_def by (rule delete_ok_tr [OF al k])
  qed
  then show ?case unfolding tr.post_def s .
qed

lemma mstack_new_ok: "treiber_inv mstack_new" "alloc_fresh al \<Longrightarrow> tr.rest al t ([], {#}) mstack_new"
proof -
  show i: "treiber_inv mstack_new" using stacks_ok_empty [of "Suc 0"] by (simp add: treiber_inv_def mstack_new_def tops_tr_def)
  then show "alloc_fresh al \<Longrightarrow> tr.rest al t ([], {#}) mstack_new"
    by (simp add: tr.rest_def tr.known_def mstack_new_def empty_mem_def pushed_by_def popped_by_def)
qed


section \<open>Running alone\<close>

text \<open>The reference: a stack as a list.\<close>

fun lifo :: "stack_call \<Rightarrow> int list \<Rightarrow> int \<Rightarrow> int list \<Rightarrow> bool" where
  "lifo (Push key val) xs r ys = (r = 1 \<and> ys = val # xs)"
| "lifo Pop [] r ys = (r = 0 \<and> ys = [])"
| "lifo Pop (x # xs) r ys = (r = x \<and> ys = xs)"

fun lifo_results :: "stack_call list \<Rightarrow> int list \<Rightarrow> int list" where
  "lifo_results [] xs = []"
| "lifo_results (Push key val # cs) xs = 1 # lifo_results cs (val # xs)"
| "lifo_results (Pop # cs) [] = 0 # lifo_results cs []"
| "lifo_results (Pop # cs) (x # xs) = x # lifo_results cs xs"

lemma spec_run_lifo: "spec_run lifo cs xs rs ys \<Longrightarrow> rs = lifo_results cs xs"
proof (induction cs xs arbitrary: rs rule: lifo_results.induct)
  case (1 xs)
  then show ?case by (cases rs) auto
qed (case_tac [!] rs, auto)

lemma top_values_tr:
  assumes "treiber_inv g"
  shows "top_tr g = NULL \<Longrightarrow> values_tr g = []"
    and "top_tr g \<noteq> NULL \<Longrightarrow> \<exists>nd. heap (mem_tr g) (top_tr g) = Some nd \<and> nodes_tr g = top_tr g # tl (nodes_tr g)"
proof -
  have c: "chain (heap (mem_tr g)) (top_tr g) (nodes_tr g)"
    using assms stacks_okD(3) [of "mem_tr g" "tops_tr g" 0] by (simp add: treiber_inv_def nodes_tr_def)
  then show "top_tr g = NULL \<Longrightarrow> values_tr g = []" using chain_null by (auto simp: values_tr_def)
  show "top_tr g \<noteq> NULL \<Longrightarrow> \<exists>nd. heap (mem_tr g) (top_tr g) = Some nd \<and> nodes_tr g = top_tr g # tl (nodes_tr g)"
    using chain_top [OF c] by auto
qed

lemma insert_seq_tr:
  assumes inv: "treiber_inv g" and al: "alloc_fresh al"
  shows "wp (mstack_treiber_insert al (Suc n) t key val l)
    (\<lambda>(r, l') g'. r = 1 \<and> treiber_inv g' \<and> values_tr g' = val # values_tr g) g"
proof -
  let ?m = "mem_tr g" and ?p = "al t (allocd (mem_tr g))" and ?nd = "\<lparr>n_key = key, n_val = val, n_next = NULL\<rparr>"
  let ?m1 = "mem_alloc t ?p ?nd ?m" and ?nd' = "\<lparr>n_key = key, n_val = val, n_next = top_tr g\<rparr>"
  let ?m2 = "mem_set_next ?p (top_tr g) ?m1"
  let ?g = "g\<lparr>top_tr := ?p, mem_tr := mem_publish ?p ?m2, size_tr := size_tr g + 1\<rparr>"
  have ok: "stacks_ok ?m (tops_tr g)" using inv by (simp add: treiber_inv_def)
  have np: "?p \<noteq> NULL" "?p \<notin> set (allocd ?m)" using al by (auto simp: alloc_fresh_def)
  then have nh: "?p \<notin> set (hist ?m)" using stacks_okD(6) [OF ok] by blast
  have m1: "stacks_ok ?m1 (tops_tr g)" "mine ?m1 t ?p" using stacks_ok_alloc [OF ok np(2,1)] nh by (auto simp: mine_def)
  have ok2: "stacks_ok ?m2 (tops_tr g)" and h2: "heap ?m2 ?p = Some ?nd'" "heap ?m2 = (heap ?m)(?p \<mapsto> ?nd')"
    using stacks_ok_set_next [OF m1] by (simp_all add: mem_set_next_def mem_alloc_def)
  have i: "0 < length (tops_tr g)" "n_next ?nd' = fst (tops_tr g ! 0)" by simp_all
  have t: "tops_tr ?g = (tops_tr g)[0 := (?p, snd (tops_tr g ! 0) + 1)]" by (simp add: tops_tr_def)
  have "mine ?m2 t ?p" using m1(2) by simp
  then have inv': "treiber_inv ?g" using stacks_ok_publish [OF ok2 i(1) _ h2(1) i(2)] t by (simp add: treiber_inv_def)
  have same: "subs ?m2 (tops_tr g) = subs ?m (tops_tr g)"
    using subs_heap_upd [OF ok nh, of "Some ?nd'"] subs_cong [of ?m2 "?m\<lparr>heap := (heap ?m)(?p \<mapsto> ?nd')\<rparr>"] h2(2) by simp
  have "nodes_tr ?g = ?p # nodes_tr g"
    using subs_publish [OF ok2 i(1) h2(1) i(2)] same subs_cong [of "mem_publish ?p ?m2" ?m2] t
    by (simp add: nodes_tr_def mem_publish_def)
  moreover have "node_val (mem_publish ?p ?m2) q = node_val ?m q" if "q \<in> set (nodes_tr g)" for q
    using that in_subs_hist [OF ok, of 0 q] nh h2(2) by (auto simp: node_val_def mem_publish_def nodes_tr_def)
  ultimately have "values_tr ?g = val # values_tr g" using h2(1) by (simp add: values_tr_def node_val_def mem_publish_def)
  then show ?thesis using inv' np by (simp add: mstack_treiber_insert_def mstack_new_node_def cas_top_def)
qed

lemma delete_seq_tr:
  assumes inv: "treiber_inv g"
  shows "wp (mstack_treiber_delete (Suc n) t l) (\<lambda>(r, l') g'. treiber_inv g' \<and> lifo Pop (values_tr g) r (values_tr g')) g"
proof (cases "top_tr g = NULL")
  case True
  then show ?thesis using inv top_values_tr(1) [OF inv] by (simp add: mstack_treiber_delete_def)
next
  case False
  let ?m = "mem_tr g" and ?p = "top_tr g"
  have ok: "stacks_ok ?m (tops_tr g)" using inv by (simp add: treiber_inv_def)
  obtain nd where nd: "heap ?m ?p = Some nd" and ns: "nodes_tr g = ?p # tl (nodes_tr g)" using top_values_tr(2) [OF inv False] by blast
  let ?m' = "mem_free t ?p (mem_remove t ?p ?m)"
  let ?g = "g\<lparr>top_tr := n_next nd, size_tr := size_tr g - 1, mem_tr := ?m'\<rparr>"
  have i: "0 < length (tops_tr g)" "fst (tops_tr g ! 0) = ?p" by simp_all
  have t: "tops_tr ?g = (tops_tr g)[0 := (n_next nd, snd (tops_tr g ! 0) - 1)]" by (simp add: tops_tr_def)
  have "stacks_ok (mem_remove t ?p ?m) ((tops_tr g)[0 := (n_next nd, snd (tops_tr g ! 0) - 1)])"
    by (rule stacks_ok_remove [OF ok i False nd])
  then have inv': "treiber_inv ?g" using stacks_ok_free [of "mem_remove t ?p ?m" _ ?p t] t by (simp add: treiber_inv_def mem_remove_def)
  have "nodes_tr ?g = tl (nodes_tr g)"
    using subs_remove(3) [OF ok i False nd] t subs_cong [of ?m' ?m] by (simp add: nodes_tr_def mem_remove_def mem_free_def)
  moreover have "node_val ?m' = node_val ?m" by (simp add: fun_eq_iff node_val_def mem_free_def mem_remove_def)
  ultimately have "values_tr ?g = map (node_val ?m) (tl (nodes_tr g))" by (simp add: values_tr_def)
  moreover have "values_tr g = map (node_val ?m) (?p # tl (nodes_tr g))" unfolding values_tr_def ns [symmetric] ..
  ultimately have v: "values_tr g = n_val nd # values_tr ?g" using nd by (simp add: node_val_def)
  show ?thesis using False nd inv' v by (simp add: mstack_treiber_delete_def cas_top_def mem_free_def mem_remove_def)
qed

interpretation tr_calls: budgeted_calls "treiber_call al fuel" "\<lambda>_ _ g. alloc_fresh al \<and> 0 < fuel \<and> treiber_inv g" values_tr lifo for al fuel
proof (unfold_locales, goal_cases)
  case (1 n ls g t c)
  then obtain m where m: "fuel = Suc m" by (cases fuel) auto
  show ?case
  proof (cases c)
    case (Push key val)
    show ?thesis unfolding Push treiber_call_def stack_call.case m
      by (rule wp_mono [OF insert_seq_tr]) (use 1 in auto)
  next
    case Pop
    show ?thesis unfolding Pop treiber_call_def stack_call.case m
      by (rule wp_mono [OF delete_seq_tr]) (use 1 in auto)
  qed
qed


section \<open>Properties\<close>

text \<open>
  C14. The Treiber stack is a stack, for calls that do not overlap: any list of inserts and deletes, by
  any threads, on a new stack returns exactly what a list with the same pushes and pops returns, and the stack then
  has the contents of that list.
\<close>

theorem treiber_is_lifo:
  assumes "alloc_fresh al" "0 < fuel" "\<forall>(t, c) \<in> set cs. t < length ls"
  shows "\<exists>ls' g. exec_calls (treiber_call al fuel) cs (ls, mstack_new) = Some (lifo_results (map snd cs) [], ls', g) \<and>
    spec_run lifo (map snd cs) [] (lifo_results (map snd cs) []) (values_tr g)"
proof -
  have "values_tr mstack_new = []" by (rule top_values_tr(1) [OF mstack_new_ok(1)]) (simp add: mstack_new_def)
  then show ?thesis
    using tr_calls.exec_calls_returns [of al fuel mstack_new cs ls] assms mstack_new_ok(1) spec_run_lifo
    by (simp del: split_paired_Ex) blast
qed

theorem treiber_is_lifo_witness:
  "\<exists>ls' g. exec_calls (treiber_call bump_alloc 1) [(0, Push 1 10), (1, Push 2 20), (1, Pop), (0, Pop), (0, Pop)]
      (replicate 2 \<lparr>my_push_cas_fail_count = 0, my_pop_cas_fail_count = 0, my_null_count_tr = 0\<rparr>, mstack_new) =
      Some ([1, 1, 20, 10, 0], ls', g) \<and>
    spec_run lifo [Push 1 10, Push 2 20, Pop, Pop, Pop] [] [1, 1, 20, 10, 0] (values_tr g)"
  using treiber_is_lifo [OF bump_alloc_fresh zero_less_one, of "[(0, Push 1 10), (1, Push 2 20), (1, Pop), (0, Pop), (0, Pop)]"
    "replicate 2 \<lparr>my_push_cas_fail_count = 0, my_pop_cas_fail_count = 0, my_null_count_tr = 0\<rparr>"]
  by simp

text \<open>
  C15. The Treiber stack under concurrency. Any number of threads run any lists of inserts and deletes,
  interleaved at every load, store and compare-and-swap, on a new stack. At every moment no thread has followed a null or
  dangling pointer, the stack is a linear list of the nodes that were inserted and not deleted,
  and no node is freed twice or while it is in the stack; and when all threads have finished, the values inserted are those
  deleted and those still in the stack (0 left out, the answer for an empty stack).
\<close>

theorem treiber_threads_safe:
  assumes al: "alloc_fresh al" and ls: "length ls = length css"
    and run: "pool_reaches (\<lambda>_. True) (client_pool (treiber_call al fuel) css ls, mstack_new) (ps, g)"
  shows "Fault \<notin> set ps \<and> treiber_inv g \<and> distinct (map fst (freed (mem_tr g))) \<and>
    fst ` set (freed (mem_tr g)) \<inter> set (nodes_tr g) = {} \<and>
    (map prog_result ps \<noteq> map Some rss \<or>
     nonnull (mset (concat (map push_values css))) =
       mset (concat (map (\<lambda>t. pop_values (css ! t) (rss ! t)) [0 ..< length css])) + nonnull (mset (values_tr g)))"
proof -
  note p = tr_threads.pool_clients [OF run mstack_new_ok(2) [OF al] ls _ mstack_new_ok(1)]
  have inv: "treiber_inv g" "Fault \<notin> set ps" using p(1) by auto
  have one: "subs (mem_tr g) (tops_tr g) = [nodes_tr g]" by (simp add: nodes_tr_def tops_tr_def subs_def)
  have "stacks_ok (mem_tr g) (tops_tr g)" using inv(1) by (simp add: treiber_inv_def)
  note fr = stacks_ok_freed [OF this]
  have "nonnull (mset (concat (map push_values css))) =
       mset (concat (map (\<lambda>t. pop_values (css ! t) (rss ! t)) [0 ..< length css])) + nonnull (mset (values_tr g))"
    if "map prog_result ps = map Some rss"
    using tr.histories [OF inv(1) p(2) [OF _ that] p(3)] one by (simp add: values_tr_def)
  then show ?thesis using inv fr one by auto
qed

definition demo_run_tr :: "(treiber, int list) prog list \<times> treiber" where
  "demo_run_tr = sched (\<lambda>_. True) (concat (replicate 12 [0, 1]))
     (client_pool (treiber_call bump_alloc 5) [[Push 1 10, Pop], [Push 2 20]]
        (replicate 2 \<lparr>my_push_cas_fail_count = 0, my_pop_cas_fail_count = 0, my_null_count_tr = 0\<rparr>), mstack_new)"

theorem treiber_threads_safe_witness:
  "Fault \<notin> set (fst demo_run_tr) \<and> map prog_result (fst demo_run_tr) = map Some [[1, 10], [1]] \<and>
   nonnull (mset (concat (map push_values [[Push 1 10, Pop], [Push 2 20]]))) =
     mset (concat (map (\<lambda>t. pop_values ([[Push 1 10, Pop], [Push 2 20]] ! t) ([[1, 10], [1]] ! t)) [0 ..< length [[Push 1 10, Pop], [Push 2 20]]])) +
     nonnull (mset (values_tr (snd demo_run_tr)))"
proof -
  have r: "map prog_result (fst demo_run_tr) = map Some [[1, 10], [1]]"
    by (simp add: demo_run_tr_def client_pool_def prog_unfold upt_rec cong: eval_cong)
  have "pool_reaches (\<lambda>_. True) (client_pool (treiber_call bump_alloc 5) [[Push 1 10, Pop], [Push 2 20]]
        (replicate 2 \<lparr>my_push_cas_fail_count = 0, my_pop_cas_fail_count = 0, my_null_count_tr = 0\<rparr>), mstack_new)
      (fst demo_run_tr, snd demo_run_tr)" unfolding demo_run_tr_def prod.collapse by (rule sched_reaches)
  from treiber_threads_safe [OF bump_alloc_fresh _ this, of "[[1, 10], [1]]"] r show ?thesis by fastforce
qed

end
