(* ===== verification/Choice_Stacks.thy ===== *)
theory Choice_Stacks
  imports Stack_Threads Thread_Random
begin

text \<open>
  The two relaxed stacks that pick a sub-stack by random choice: \<^verbatim>\<open>src/stack-dra/stack-dra.c\<close>
  and \<^verbatim>\<open>src/multi-stack_random-relaxed/multi-stack_random-relaxed.c\<close>. The two files differ in the line that
  sets the time stamp of a new node (the top's stamp plus one, or the processor's tick counter), so the
  loops are defined once, over the stamp rule. With the build option \<^verbatim>\<open>NUM_CHOICES\<close> an
  operation looks at that many random sub-stacks (\<open>Some c\<close>), without it at one (\<open>None\<close>).

  An entry of the array is the top pointer with, as ghost, the height of the sub-stack; the compare-and-exchange compares the
  pointer alone. Node stamps are a function beside the node memory.
\<close>

section \<open>State\<close>

record cstack =
  array_cs :: tops
  mem_cs :: node_mem
  stamp_cs :: "ptr \<Rightarrow> u64"

record ctl = tls +
  tick_reads :: nat

section \<open>Choosing a sub-stack\<close>

definition random_index_cs :: "nat \<Rightarrow> ctl \<Rightarrow> (cstack, nat \<times> ctl) prog" where
  "random_index_cs w l = random_mod w l"

definition load_top_cs :: "nat \<Rightarrow> (cstack, ptr) prog" where
  "load_top_cs i = rd_opt (\<lambda>g. map_option fst (at (array_cs g) i))"

definition load_stamp_cs :: "ptr \<Rightarrow> (cstack, u64) prog" where
  "load_stamp_cs p = rd_opt (\<lambda>g. map_option (\<lambda>_. stamp_cs g p) (heap (mem_cs g) p))"

fun get_push_index_loop :: "nat \<Rightarrow> nat \<Rightarrow> nat \<Rightarrow> ptr \<Rightarrow> ctl \<Rightarrow> (cstack, (ptr \<times> nat) \<times> ctl) prog" where
  "get_push_index_loop 0 w index node l = Ret ((node, index), l)"
| "get_push_index_loop (Suc n) w index node l =
     pbind (random_index_cs w l) (\<lambda>(index2, l).
     pbind (load_top_cs index2) (\<lambda>node2.
     if node2 = NULL then Ret ((node2, index2), l)
     else pbind (load_stamp_cs node2) (\<lambda>s2.
          pbind (load_stamp_cs node) (\<lambda>s.
          if s2 < s then get_push_index_loop n w index2 node2 l
          else get_push_index_loop n w index node l))))"

definition get_push_index :: "nat \<Rightarrow> nat \<Rightarrow> ctl \<Rightarrow> (cstack, (ptr \<times> nat) \<times> ctl) prog" where
  "get_push_index c w l =
     pbind (random_index_cs w l) (\<lambda>(index, l).
     pbind (load_top_cs index) (\<lambda>node.
     if node = NULL then Ret ((node, index), l)
     else get_push_index_loop (c - 1) w index node l))"

fun get_pop_index_loop :: "nat \<Rightarrow> nat \<Rightarrow> nat \<Rightarrow> ptr \<Rightarrow> ctl \<Rightarrow> (cstack, (ptr \<times> nat) \<times> ctl) prog" where
  "get_pop_index_loop 0 w index node l = Ret ((node, index), l)"
| "get_pop_index_loop (Suc n) w index node l =
     pbind (random_index_cs w l) (\<lambda>(index2, l).
     pbind (load_top_cs index2) (\<lambda>node2.
     if node = NULL then get_pop_index_loop n w index2 node2 l
     else if node2 = NULL then get_pop_index_loop n w index node l
     else pbind (load_stamp_cs node2) (\<lambda>s2.
          pbind (load_stamp_cs node) (\<lambda>s.
          if s2 > s then get_pop_index_loop n w index2 node2 l
          else get_pop_index_loop n w index node l))))"

definition get_pop_index :: "nat \<Rightarrow> nat \<Rightarrow> ctl \<Rightarrow> (cstack, (ptr \<times> nat) \<times> ctl) prog" where
  "get_pop_index c w l =
     pbind (random_index_cs w l) (\<lambda>(index, l).
     pbind (load_top_cs index) (\<lambda>node.
     get_pop_index_loop (c - 1) w index node l))"

text \<open>The two branches of \<^verbatim>\<open>#if defined(NUM_CHOICES)\<close> at the head of the loops.\<close>

definition pick_index :: "(nat \<Rightarrow> nat \<Rightarrow> ctl \<Rightarrow> (cstack, (ptr \<times> nat) \<times> ctl) prog) \<Rightarrow> nat option \<Rightarrow> nat \<Rightarrow> ctl \<Rightarrow>
  (cstack, (ptr \<times> nat) \<times> ctl) prog" where
  "pick_index get ch w l =
     (case ch of
        Some c \<Rightarrow> get c w l
      | None \<Rightarrow> pbind (random_index_cs w l) (\<lambda>(index, l). pbind (load_top_cs index) (\<lambda>node. Ret ((node, index), l))))"

section \<open>Operations\<close>

definition create_node_cs :: "allocator \<Rightarrow> nat \<Rightarrow> int \<Rightarrow> int \<Rightarrow> ptr \<Rightarrow> (cstack, ptr) prog" where
  "create_node_cs al t key val nxt =
     Act (\<lambda>g. g\<lparr>mem_cs := mem_alloc t (al t (allocd (mem_cs g))) \<lparr>n_key = key, n_val = val, n_next = nxt\<rparr> (mem_cs g)\<rparr>)
         (\<lambda>g. Ret (al t (allocd (mem_cs g))))"

definition stack_cae_cs :: "nat \<Rightarrow> ptr \<Rightarrow> ptr \<Rightarrow> (nat \<Rightarrow> nat) \<Rightarrow> (node_mem \<Rightarrow> node_mem) \<Rightarrow> (cstack, bool) prog" where
  "stack_cae_cs i old new height ghost =
     Act (\<lambda>g. if map_option fst (at (array_cs g) i) = Some old
              then g\<lparr>array_cs := (array_cs g)[i := (new, height (snd (array_cs g ! i)))], mem_cs := ghost (mem_cs g)\<rparr> else g)
         (\<lambda>g. Ret (map_option fst (at (array_cs g) i) = Some old))"

text \<open>The stamp of a new node whose next node is \<open>node\<close>: in the d-RA stack and by the tick counter.\<close>

definition stamp_dra :: "ptr \<Rightarrow> ctl \<Rightarrow> (cstack, u64 \<times> ctl) prog" where
  "stamp_dra node l =
     (if node \<noteq> NULL then pbind (load_stamp_cs node) (\<lambda>s. Ret (add64 s 1, l)) else Ret (0, l))"

definition stamp_ticks :: "(nat \<Rightarrow> u64) \<Rightarrow> ptr \<Rightarrow> ctl \<Rightarrow> (cstack, u64 \<times> ctl) prog" where
  "stamp_ticks clock node l = Ret (clock (tick_reads l), l\<lparr>tick_reads := tick_reads l + 1\<rparr>)"

fun push_loop_cs :: "(ptr \<Rightarrow> ctl \<Rightarrow> (cstack, u64 \<times> ctl) prog) \<Rightarrow> nat option \<Rightarrow> nat \<Rightarrow> nat \<Rightarrow> ptr \<Rightarrow> ctl \<Rightarrow> (cstack, int \<times> ctl) prog" where
  "push_loop_cs st ch w 0 new_node l = NoFuel"
| "push_loop_cs st ch w (Suc n) new_node l =
     pbind (pick_index get_push_index ch w l) (\<lambda>((node, index), l).
     pbind (wr (\<lambda>g. g\<lparr>mem_cs := mem_set_next new_node node (mem_cs g)\<rparr>)) (\<lambda>_.
     pbind (st node l) (\<lambda>(s, l).
     pbind (wr (\<lambda>g. g\<lparr>stamp_cs := (stamp_cs g)(new_node := s)\<rparr>)) (\<lambda>_.
     pbind (stack_cae_cs index node new_node (\<lambda>h. h + 1) (mem_publish new_node)) (\<lambda>success.
     if success then Ret (1, l)
     else push_loop_cs st ch w n new_node (l\<lparr>my_put_cas_fail_count := add64 (my_put_cas_fail_count l) 1\<rparr>))))))"

fun pop_loop_cs :: "nat option \<Rightarrow> nat \<Rightarrow> nat \<Rightarrow> nat \<Rightarrow> ctl \<Rightarrow> (cstack, int \<times> ctl) prog" where
  "pop_loop_cs ch w 0 t l = NoFuel"
| "pop_loop_cs ch w (Suc n) t l =
     pbind (pick_index get_pop_index ch w l) (\<lambda>((node, index), l).
     if node \<noteq> NULL then
       pbind (rd_opt (\<lambda>g. map_option n_next (heap (mem_cs g) node))) (\<lambda>nxt.
       pbind (stack_cae_cs index node nxt (\<lambda>h. h - 1) (mem_remove t node)) (\<lambda>success.
       if success then
         pbind (rd_opt (\<lambda>g. map_option n_val (heap (mem_cs g) node))) (\<lambda>node_val.
         pbind (wr (\<lambda>g. g\<lparr>mem_cs := mem_free t node (mem_cs g)\<rparr>)) (\<lambda>_. Ret (node_val, l)))
       else pop_loop_cs ch w n t (l\<lparr>my_get_cas_fail_count := add64 (my_get_cas_fail_count l) 1\<rparr>)))
     else Ret (0, l\<lparr>my_null_count := add64 (my_null_count l) 1\<rparr>))"

definition push_dra :: "nat option \<Rightarrow> allocator \<Rightarrow> nat \<Rightarrow> nat \<Rightarrow> nat \<Rightarrow> int \<Rightarrow> int \<Rightarrow> ctl \<Rightarrow> (cstack, int \<times> ctl) prog" where
  "push_dra ch al fuel w t key val l =
     pbind (create_node_cs al t key val NULL) (\<lambda>new_node. push_loop_cs stamp_dra ch w fuel new_node l)"

definition pop_dra :: "nat option \<Rightarrow> nat \<Rightarrow> nat \<Rightarrow> nat \<Rightarrow> ctl \<Rightarrow> (cstack, int \<times> ctl) prog" where
  "pop_dra ch fuel w t l = pop_loop_cs ch w fuel t l"

definition create_stack_dra :: "(ptr \<Rightarrow> u64) \<Rightarrow> u64 \<Rightarrow> u64 \<Rightarrow> u64 \<Rightarrow> cstack" where
  "create_stack_dra junk num_threads w relaxation_bound =
     \<lparr>array_cs = replicate w (NULL, 0), mem_cs = empty_mem, stamp_cs = junk\<rparr>"

fun size_walk_dra :: "nat \<Rightarrow> ptr \<Rightarrow> u64 \<Rightarrow> (cstack, u64) prog" where
  "size_walk_dra 0 node sz = NoFuel"
| "size_walk_dra (Suc n) node sz =
     (if node \<noteq> NULL then
        pbind (rd_opt (\<lambda>g. map_option n_next (heap (mem_cs g) node))) (\<lambda>node. size_walk_dra n node (add64 sz 1))
      else Ret sz)"

fun stack_size_loop_dra :: "nat \<Rightarrow> nat list \<Rightarrow> u64 \<Rightarrow> (cstack, u64) prog" where
  "stack_size_loop_dra fuel [] sz = Ret sz"
| "stack_size_loop_dra fuel (i # is) sz =
     pbind (load_top_cs i) (\<lambda>node. pbind (size_walk_dra fuel node sz) (\<lambda>sz. stack_size_loop_dra fuel is sz))"

definition stack_size_dra :: "nat \<Rightarrow> nat \<Rightarrow> (cstack, u64) prog" where
  "stack_size_dra fuel w = stack_size_loop_dra fuel [0 ..< w] 0"

text \<open>The operations of the multi-stack. Its other functions have the text of those above.\<close>

definition push_multi :: "(nat \<Rightarrow> u64) \<Rightarrow> nat option \<Rightarrow> allocator \<Rightarrow> nat \<Rightarrow> nat \<Rightarrow> nat \<Rightarrow> int \<Rightarrow> int \<Rightarrow> ctl \<Rightarrow> (cstack, int \<times> ctl) prog" where
  "push_multi clock ch al fuel w t key val l =
     pbind (create_node_cs al t key val NULL) (\<lambda>new_node. push_loop_cs (stamp_ticks clock) ch w fuel new_node l)"

definition pop_multi :: "nat option \<Rightarrow> nat \<Rightarrow> nat \<Rightarrow> nat \<Rightarrow> ctl \<Rightarrow> (cstack, int \<times> ctl) prog" where
  "pop_multi ch fuel w t l = pop_loop_cs ch w fuel t l"

definition create_stack_multi :: "(ptr \<Rightarrow> u64) \<Rightarrow> u64 \<Rightarrow> u64 \<Rightarrow> u64 \<Rightarrow> cstack" where
  "create_stack_multi junk num_threads w relaxation_bound =
     \<lparr>array_cs = replicate w (NULL, 0), mem_cs = empty_mem, stamp_cs = junk\<rparr>"

definition stack_size_multi :: "nat \<Rightarrow> nat \<Rightarrow> (cstack, u64) prog" where
  "stack_size_multi fuel w = stack_size_loop_dra fuel [0 ..< w] 0"

definition dra_call :: "nat option \<Rightarrow> allocator \<Rightarrow> nat \<Rightarrow> nat \<Rightarrow> nat \<Rightarrow> stack_call \<Rightarrow> ctl \<Rightarrow> (cstack, int \<times> ctl) prog" where
  "dra_call ch al fuel w t c l = (case c of Push key val \<Rightarrow> push_dra ch al fuel w t key val l | Pop \<Rightarrow> pop_dra ch fuel w t l)"

definition multi_call :: "(nat \<Rightarrow> nat \<Rightarrow> u64) \<Rightarrow> nat option \<Rightarrow> allocator \<Rightarrow> nat \<Rightarrow> nat \<Rightarrow> nat \<Rightarrow> stack_call \<Rightarrow> ctl \<Rightarrow> (cstack, int \<times> ctl) prog" where
  "multi_call clock ch al fuel w t c l =
     (case c of Push key val \<Rightarrow> push_multi (clock t) ch al fuel w t key val l | Pop \<Rightarrow> pop_multi ch fuel w t l)"

lemmas choice_unfold [prog_unfold] =
  random_index_cs_def load_top_cs_def load_stamp_cs_def get_push_index_def get_pop_index_def pick_index_def create_node_cs_def
  stack_cae_cs_def stamp_dra_def stamp_ticks_def push_dra_def pop_dra_def create_stack_dra_def push_multi_def pop_multi_def
  create_stack_multi_def dra_call_def multi_call_def stack_size_dra_def stack_size_multi_def
  get_push_index_loop.simps(2) [of _ "pred_numeral k" for k, folded numeral_eq_Suc]
  get_pop_index_loop.simps(2) [of _ "pred_numeral k" for k, folded numeral_eq_Suc]
  push_loop_cs.simps(2) [of _ _ _ "pred_numeral k" for k, folded numeral_eq_Suc]
  pop_loop_cs.simps(2) [of _ _ "pred_numeral k" for k, folded numeral_eq_Suc]
  size_walk_dra.simps(2) [of "pred_numeral k" for k, folded numeral_eq_Suc]

section \<open>The protocol\<close>

definition choice_inv :: "nat \<Rightarrow> cstack \<Rightarrow> bool" where
  "choice_inv w g \<longleftrightarrow> 0 < w \<and> length (array_cs g) = w \<and> stacks_ok (mem_cs g) (array_cs g)"

definition choice_step :: "cstack protocol" where
  "choice_step t g g' \<longleftrightarrow> mem_cs g' = mem_cs g \<and> array_cs g' = array_cs g \<or>
     node_step t (mem_cs g, array_cs g) (mem_cs g', array_cs g')"

interpretation cs: stack_protocol choice_step "\<lambda>_. True" "choice_inv w" mem_cs "\<lambda>m g. g\<lparr>mem_cs := m\<rparr>" array_cs "\<lambda>_ _. True" for w
  by unfold_locales (auto simp: choice_inv_def choice_step_def dest: node_step_ok node_step_length)

section \<open>Under interference\<close>

lemma ok_load_top:
  assumes k: "cs.known w t po fo xs ys g" and i: "i < w"
    and go: "\<And>h p. cs.known w t po fo xs ys h \<Longrightarrow> cs.after g h \<Longrightarrow> cs.published p h \<Longrightarrow> ok choice_step (\<lambda>_. True) t (f p) Q h"
  shows "ok choice_step (\<lambda>_. True) t (pbind (load_top_cs i) f) Q g"
  unfolding load_top_cs_def
proof (rule ok_rd_opt, goal_cases)
  case (1 h)
  note k1 = cs.known_envs(1) [OF 1 k] and a1 = cs.known_envs(2) [OF 1 k]
  have l: "i < length (array_cs h)" using cs.knownD(1) [OF k1] i by (simp add: choice_inv_def)
  then show ?case using go [OF k1 a1 cs.top_published [OF cs.knownD(3) [OF k1] l]] by simp
qed

lemma ok_load_stamp:
  assumes k: "cs.known w t po fo xs ys g" and p: "cs.published p g" "p \<noteq> NULL"
    and go: "\<And>h s. cs.known w t po fo xs ys h \<Longrightarrow> cs.after g h \<Longrightarrow> ok choice_step (\<lambda>_. True) t (f s) Q h"
  shows "ok choice_step (\<lambda>_. True) t (pbind (load_stamp_cs p) f) Q g"
  unfolding load_stamp_cs_def
proof (rule ok_rd_opt, goal_cases)
  case (1 h)
  note k1 = cs.known_envs(1) [OF 1 k] and a1 = cs.known_envs(2) [OF 1 k]
  have "p \<in> set (hist (mem_cs h))" using cs.afterD(1) [OF a1 p(1)] p(2) by (simp add: cs.published_def)
  then have "p \<in> dom (heap (mem_cs h))" using stacks_okD(1,6) [OF cs.knownD(3) [OF k1]] by blast
  then show ?case using go [OF k1 a1] by auto
qed

lemma ok_random_index_cs:
  assumes k: "cs.known w t po fo xs ys g" and go: "\<And>i s. i < w \<Longrightarrow> ok choice_step (\<lambda>_. True) t (f (i, l\<lparr>seeds := s\<rparr>)) Q g"
  shows "ok choice_step (\<lambda>_. True) t (pbind (random_index_cs w l) f) Q g"
  unfolding random_index_cs_def by (rule ok_random_mod) (use cs.knownD(1) [OF k] go in \<open>auto simp: choice_inv_def\<close>)

text \<open>What choosing hands out: an index in range and a pointer that is null or published.\<close>

definition chosen :: "nat \<Rightarrow> nat \<Rightarrow> (ptr \<times> mnode) option \<Rightarrow> int list \<Rightarrow> int multiset \<Rightarrow> (ptr \<times> nat) \<times> ctl \<Rightarrow> cstack \<Rightarrow> bool" where
  "chosen w t po xs ys = (\<lambda>((p, i), l) h. cs.known w t po None xs ys h \<and> i < w \<and> cs.published p h)"

lemma ok_chosen:
  assumes "cs.known w t po None xs ys g" "i < w" "cs.published p g"
  shows "ok choice_step (\<lambda>_. True) t (Ret ((p, i), l)) (chosen w t po xs ys) g"
proof (rule ok_Ret)
  fix h
  assume "env choice_step (\<lambda>_. True) t g h"
  from cs.known_envs [OF this assms(1)] show "chosen w t po xs ys ((p, i), l) h"
    using assms(2,3) cs.afterD(1) by (auto simp: chosen_def)
qed

lemma push_index_loop_ok:
  assumes "cs.known w t po None xs ys g" "i < w" "cs.published p g" "p \<noteq> NULL"
  shows "ok choice_step (\<lambda>_. True) t (get_push_index_loop n w i p l) (chosen w t po xs ys) g"
  using assms
proof (induction n arbitrary: i p l g)
  case 0
  then show ?case by (simp add: ok_chosen del: ok.simps)
next
  case (Suc n)
  show ?case
    unfolding get_push_index_loop.simps
  proof (rule ok_random_index_cs [OF Suc.prems(1)], unfold prod.case, rule ok_load_top [OF Suc.prems(1)], assumption, goal_cases)
    case (1 i2 s h p2)
    note p1 = cs.afterD(1) [OF 1(3) Suc.prems(3)]
    show ?case
    proof (cases "p2 = NULL")
      case True
      then show ?thesis using ok_chosen [OF 1(2,1,4)] by (simp del: ok.simps)
    next
      case False
      show ?thesis unfolding if_not_P [OF False]
      proof (rule ok_load_stamp [OF 1(2,4) False], rule ok_load_stamp [OF _ cs.afterD(1) [OF _ p1] Suc.prems(4)], assumption, assumption, goal_cases)
        case (1 h2 s2 h3 s3)
        have "cs.published p h3" "cs.published p2 h3"
          using cs.afterD(1) [OF 1(4)] cs.afterD(1) [OF 1(2)] p1 \<open>cs.published p2 h\<close> by blast+
        then show ?case using Suc.IH [OF 1(3)] \<open>i2 < w\<close> False Suc.prems(2,4) by (simp del: ok.simps)
      qed
    qed
  qed
qed

lemma pop_index_loop_ok:
  assumes "cs.known w t po None xs ys g" "i < w" "cs.published p g"
  shows "ok choice_step (\<lambda>_. True) t (get_pop_index_loop n w i p l) (chosen w t po xs ys) g"
  using assms
proof (induction n arbitrary: i p l g)
  case 0
  then show ?case by (simp add: ok_chosen del: ok.simps)
next
  case (Suc n)
  show ?case
    unfolding get_pop_index_loop.simps
  proof (rule ok_random_index_cs [OF Suc.prems(1)], unfold prod.case, rule ok_load_top [OF Suc.prems(1)], assumption, goal_cases)
    case (1 i2 s h p2)
    note p1 = cs.afterD(1) [OF 1(3) Suc.prems(3)]
    show ?case
    proof (cases "p = NULL \<or> p2 = NULL")
      case True
      then show ?thesis using Suc.IH [OF 1(2)] 1(1,4) p1 Suc.prems(2) by (auto simp del: ok.simps)
    next
      case False
      then have nn: "p \<noteq> NULL" "p2 \<noteq> NULL" by auto
      show ?thesis unfolding if_not_P [OF nn(1)] if_not_P [OF nn(2)]
      proof (rule ok_load_stamp [OF 1(2,4) nn(2)], rule ok_load_stamp [OF _ cs.afterD(1) [OF _ p1] nn(1)], assumption, assumption, goal_cases)
        case (1 h2 s2 h3 s3)
        have "cs.published p h3" "cs.published p2 h3"
          using cs.afterD(1) [OF 1(4)] cs.afterD(1) [OF 1(2)] p1 \<open>cs.published p2 h\<close> by blast+
        then show ?case using Suc.IH [OF 1(3)] \<open>i2 < w\<close> Suc.prems(2) by (simp del: ok.simps)
      qed
    qed
  qed
qed

lemma pick_index_ok:
  assumes k: "cs.known w t po None xs ys g"
  shows "ok choice_step (\<lambda>_. True) t (pick_index get_push_index ch w l) (chosen w t po xs ys) g"
    and "ok choice_step (\<lambda>_. True) t (pick_index get_pop_index ch w l) (chosen w t po xs ys) g"
  unfolding pick_index_def get_push_index_def get_pop_index_def
  by (cases ch; auto simp del: ok.simps intro!: ok_random_index_cs [OF k] ok_load_top [OF k] ok_chosen push_index_loop_ok pop_index_loop_ok)+


text \<open>The contract of a stamp rule: it reads, and changes nothing but the thread's own variables.\<close>

locale stamp_rule =
  fixes st :: "ptr \<Rightarrow> ctl \<Rightarrow> (cstack, u64 \<times> ctl) prog"
  assumes st_ok: "cs.known w t po fo xs ys g \<Longrightarrow> cs.published p g \<Longrightarrow>
    ok choice_step (\<lambda>_. True) t (st p l) (\<lambda>_ h. cs.known w t po fo xs ys h \<and> cs.after g h) g"
begin

lemma push_ok:
  assumes al: "alloc_fresh al" and k: "cs.known w t (Some (q, nd)) None xs ys g" and val: "n_val nd = val"
  shows "ok choice_step (\<lambda>_. True) t (push_loop_cs st ch w n q l) (cs.post w al t (Push key val) (xs, ys) (\<lambda>_. True)) g"
  using k val
proof (induction n arbitrary: l nd g)
  case 0
  then show ?case by simp
next
  case (Suc n)
  show ?case
    unfolding push_loop_cs.simps
  proof (rule ok_bind_mono [OF pick_index_ok(1) [OF Suc.prems(1)]], clarify, goal_cases)
    case (1 p i l' h)
    have k1: "cs.known w t (Some (q, nd)) None xs ys h" and i: "i < w" and p: "cs.published p h"
      using 1 by (auto simp: chosen_def)
    show ?case
    proof (rule cs.ok_set_next [OF k1], goal_cases)
      case (1 h2)
      show ?case
      proof (rule ok_bind_mono [OF st_ok [OF 1(1) cs.afterD(1) [OF 1(2) p]]], clarify, goal_cases)
        case (1 s l2 h3)
        show ?case
        proof (rule ok_wr, goal_cases)
          case (1 h4)
          note k4 = cs.known_envs(1) [OF 1(1) \<open>cs.known w t (Some (q, nd\<lparr>n_next := p\<rparr>)) None xs ys h3\<close>]
          let ?h = "h4\<lparr>stamp_cs := (stamp_cs h4)(q := s)\<rparr>"
          have st: "choice_step t h4 ?h" by (simp add: choice_step_def)
          have k5: "cs.known w t (Some (q, nd\<lparr>n_next := p\<rparr>)) None xs ys ?h" by (rule cs.own_other [OF k4 st]) simp_all
          have "ok choice_step (\<lambda>_. True) t (pbind (stack_cae_cs i p q (\<lambda>h. h + 1) (mem_publish q)) (\<lambda>success.
               if success then Ret (1, l2)
               else push_loop_cs st ch w n q (l2\<lparr>my_put_cas_fail_count := add64 (my_put_cas_fail_count l2) 1\<rparr>)))
             (cs.post w al t (Push key val) (xs, ys) (\<lambda>_. True)) ?h"
            unfolding stack_cae_cs_def
          proof (rule cs.ok_publish [OF k5], goal_cases)
            case (1 k)
            then show ?case using i by (auto simp: at_eq_Some intro!: exI [of _ i])
          next
            case (2 k)
            then show ?case using Suc.prems al by (simp del: ok.simps) (rule cs.post_Ret, auto)
          next
            case (3 k)
            then show ?case using Suc.IH Suc.prems(2) by (simp del: ok.simps)
          qed
          then show ?case using st by blast
        qed
      qed
    qed
  qed
qed

end

lemma stamp_dra_rule: "stamp_rule stamp_dra"
proof (unfold_locales, goal_cases)
  case (1 w t po fo xs ys g p l)
  have ret: "ok choice_step (\<lambda>_. True) t (Ret x) (\<lambda>_ h. cs.known w t po fo xs ys h \<and> cs.after g h) h"
    if "cs.known w t po fo xs ys h" "cs.after g h" for x :: "u64 \<times> ctl" and h
    using cs.known_envs [OF _ that(1)] cs.after_trans [OF that(2)] by (intro ok_Ret) blast
  show ?case
    unfolding stamp_dra_def using 1 ret
    by (cases "p = NULL") (auto simp del: ok.simps intro!: ok_load_stamp)
qed

interpretation dra_stamp: stamp_rule stamp_dra
  by (rule stamp_dra_rule)

interpretation ticks_stamp: stamp_rule "stamp_ticks clock" for clock
  by unfold_locales (use cs.known_envs in \<open>auto simp: stamp_ticks_def\<close>)

lemma pop_ok_cs:
  assumes al: "alloc_fresh al" and k: "cs.known w t None None xs ys g"
  shows "ok choice_step (\<lambda>_. True) t (pop_loop_cs ch w n t l) (cs.post w al t Pop (xs, ys) (\<lambda>_. True)) g"
  using k
proof (induction n arbitrary: l g)
  case 0
  then show ?case by simp
next
  case (Suc n)
  show ?case
    unfolding pop_loop_cs.simps
  proof (rule ok_bind_mono [OF pick_index_ok(2) [OF Suc.prems]], clarify, goal_cases)
    case (1 p i l' h)
    have k1: "cs.known w t None None xs ys h" and i: "i < w" and pub: "cs.published p h" using 1 by (auto simp: chosen_def)
    have null: "ok choice_step (\<lambda>_. True) t (Ret (0, l2)) (cs.post w al t Pop (xs, ys) (\<lambda>_. True)) h" for l2
      using k1 al by (intro cs.post_Ret) (auto simp: took_def)
    show ?case
    proof (cases "p = NULL")
      case True
      then show ?thesis using null by (simp del: ok.simps)
    next
      case False
      then have p: "p \<in> set (hist (mem_cs h))" using pub by (simp add: cs.published_def)
      show ?thesis unfolding if_P [OF False]
      proof (rule cs.ok_node_field [OF k1 p], goal_cases)
        case (1 h1 nd)
        have p1: "p \<in> set (hist (mem_cs h1))" by (rule cs.afterD(4) [OF 1(2) p])
        show ?case unfolding stack_cae_cs_def
        proof (rule cs.ok_unlink [OF 1(1) False p1 1(4)], goal_cases)
          case (1 h2)
          then show ?case using i by (auto simp: at_eq_Some intro!: exI [of _ i])
        next
          case (2 h2)
          show ?case unfolding if_P [OF TrueI]
          proof (rule cs.ok_node_field [OF 2(1,2)], goal_cases)
            case (1 h3 nd')
            then have "nd' = nd" using 2(3) by simp
            then show ?case using 1(1) al by (intro cs.ok_free) (auto simp: took_def simp del: ok.simps intro!: cs.post_Ret)
          qed
        next
          case (3 h2)
          then show ?case using Suc.IH by (simp del: ok.simps)
        qed
      qed
    qed
  qed
qed

lemma choice_push_ok:
  assumes "cs.known w t None None xs ys g" "alloc_fresh al" "stamp_rule st"
  shows "ok choice_step (\<lambda>_. True) t (pbind (create_node_cs al t key val NULL) (\<lambda>new_node. push_loop_cs st ch w fuel new_node l))
    (cs.post w al t (Push key val) (xs, ys) (\<lambda>_. True)) g"
  unfolding create_node_cs_def
  by (rule cs.ok_new_node [OF assms(1,2)], rule stamp_rule.push_ok [OF assms(3,2)], assumption) simp

interpretation dra_threads: threads choice_step "\<lambda>_. True" "choice_inv w" "dra_call ch al fuel w" "cs.rest w al" "\<lambda>_. True" stack_hist
  for ch al fuel w
proof (unfold_locales, goal_cases)
  case (1 t s g g')
  then show ?case by (rule cs.rest_env)
next
  case (2 t s g l c)
  obtain xs ys where s: "s = (xs, ys)" by (cases s)
  have al: "alloc_fresh al" and k: "cs.known w t None None xs ys g" using 2(1) by (simp_all add: cs.rest_def s)
  have "ok choice_step (\<lambda>_. True) t (dra_call ch al fuel w t c l) (cs.post w al t c (xs, ys) (\<lambda>_. True)) g"
    using choice_push_ok [OF k al stamp_dra_rule] pop_ok_cs [OF al k]
    by (cases c) (simp_all add: dra_call_def push_dra_def pop_dra_def del: ok.simps)
  then show ?case unfolding cs.post_def s .
qed

interpretation multi_threads: threads choice_step "\<lambda>_. True" "choice_inv w" "multi_call clock ch al fuel w" "cs.rest w al" "\<lambda>_. True" stack_hist
  for clock ch al fuel w
proof (unfold_locales, goal_cases)
  case (1 t s g g')
  then show ?case by (rule cs.rest_env)
next
  case (2 t s g l c)
  obtain xs ys where s: "s = (xs, ys)" by (cases s)
  have al: "alloc_fresh al" and k: "cs.known w t None None xs ys g" using 2(1) by (simp_all add: cs.rest_def s)
  have "ok choice_step (\<lambda>_. True) t (multi_call clock ch al fuel w t c l) (cs.post w al t c (xs, ys) (\<lambda>_. True)) g"
    using choice_push_ok [OF k al ticks_stamp.stamp_rule_axioms] pop_ok_cs [OF al k]
    by (cases c) (simp_all add: multi_call_def push_multi_def pop_multi_def del: ok.simps)
  then show ?case unfolding cs.post_def s .
qed

lemma create_choice_ok:
  assumes "0 < w"
  shows "choice_inv w (create_stack_dra junk nt w b)" "alloc_fresh al \<Longrightarrow> cs.rest w al t ([], {#}) (create_stack_dra junk nt w b)"
    "create_stack_multi junk nt w b = create_stack_dra junk nt w b"
proof -
  show i: "choice_inv w (create_stack_dra junk nt w b)"
    using assms stacks_ok_empty by (simp add: choice_inv_def create_stack_dra_def)
  then show "alloc_fresh al \<Longrightarrow> cs.rest w al t ([], {#}) (create_stack_dra junk nt w b)"
    by (simp add: cs.rest_def cs.known_def create_stack_dra_def empty_mem_def pushed_by_def popped_by_def)
qed (simp add: create_stack_dra_def create_stack_multi_def)

section \<open>Properties\<close>

definition choice_safe :: "nat \<Rightarrow> cstack \<Rightarrow> bool" where
  "choice_safe w g \<longleftrightarrow> choice_inv w g \<and> distinct (map fst (freed (mem_cs g))) \<and>
     fst ` set (freed (mem_cs g)) \<inter> set (concat (subs (mem_cs g) (array_cs g))) = {}"

lemma choice_inv_safe: "choice_inv w g \<Longrightarrow> choice_safe w g"
  using stacks_ok_freed by (auto simp: choice_safe_def choice_inv_def)

text \<open>
  The two stacks differ in the calls and in what a sub-stack holds besides its nodes; the argument is the same.
\<close>

lemma dra_stack_safe:
  assumes "0 < w" "alloc_fresh al" "length ls = length css"
    and run: "pool_reaches (\<lambda>_. True) (client_pool (dra_call ch al fuel w) css ls, create_stack_dra junk nt w b) (ps, g)"
  shows "Fault \<notin> set ps \<and> choice_safe w g \<and>
    (map prog_result ps \<noteq> map Some rss \<or>
     nonnull (mset (concat (map push_values css))) =
       mset (concat (map (\<lambda>t. pop_values (css ! t) (rss ! t)) [0 ..< length css])) +
       nonnull (image_mset (node_val (mem_cs g)) (mset (concat (subs (mem_cs g) (array_cs g))))))"
proof -
  note p = dra_threads.pool_clients [OF run create_choice_ok(2) [OF assms(1,2)] assms(3) _ create_choice_ok(1) [OF assms(1)]]
  have inv: "choice_inv w g" "Fault \<notin> set ps" using p(1) by auto
  have "nonnull (mset (concat (map push_values css))) =
       mset (concat (map (\<lambda>t. pop_values (css ! t) (rss ! t)) [0 ..< length css])) +
       nonnull (image_mset (node_val (mem_cs g)) (mset (concat (subs (mem_cs g) (array_cs g)))))"
    if "map prog_result ps = map Some rss"
    using cs.histories [OF inv(1) p(2) [OF _ that] p(3)] by simp
  then show ?thesis using inv choice_inv_safe by blast
qed

lemma multi_stack_safe:
  assumes "0 < w" "alloc_fresh al" "length ls = length css"
    and run: "pool_reaches (\<lambda>_. True) (client_pool (multi_call clock ch al fuel w) css ls, create_stack_multi junk nt w b) (ps, g)"
  shows "Fault \<notin> set ps \<and> choice_safe w g \<and>
    (map prog_result ps \<noteq> map Some rss \<or>
     nonnull (mset (concat (map push_values css))) =
       mset (concat (map (\<lambda>t. pop_values (css ! t) (rss ! t)) [0 ..< length css])) +
       nonnull (image_mset (node_val (mem_cs g)) (mset (concat (subs (mem_cs g) (array_cs g))))))"
proof -
  note run' = run [unfolded create_choice_ok(3) [OF assms(1)]]
  note p = multi_threads.pool_clients [OF run' create_choice_ok(2) [OF assms(1,2)] assms(3) _ create_choice_ok(1) [OF assms(1)]]
  have inv: "choice_inv w g" "Fault \<notin> set ps" using p(1) by auto
  have "nonnull (mset (concat (map push_values css))) =
       mset (concat (map (\<lambda>t. pop_values (css ! t) (rss ! t)) [0 ..< length css])) +
       nonnull (image_mset (node_val (mem_cs g)) (mset (concat (subs (mem_cs g) (array_cs g)))))"
    if "map prog_result ps = map Some rss"
    using cs.histories [OF inv(1) p(2) [OF _ that] p(3)] by simp
  then show ?thesis using inv choice_inv_safe by blast
qed


text \<open>
  C16. The d-RA stack and the multi-stack under concurrency. Any number of threads run any lists of pushes and pops, interleaved at every
  access to shared memory, on a new stack of at least one sub-stack, with or without random choices, and in the multi-stack whatever values the
  threads read from the processor's tick counter. At every moment no thread has followed a bad pointer or left the array, every sub-stack is a
  linear list, and no node is freed twice or while it is in the stack; when all have finished, the values
  pushed are those popped and those still there.
\<close>

theorem choice_stacks_threads_safe:
  assumes "0 < w" "alloc_fresh al" "length ls = length css"
    and stack: "(call, g0) \<in> {(dra_call ch al fuel w, create_stack_dra junk nt w b), (multi_call clock ch al fuel w, create_stack_multi junk nt w b)}"
    and run: "pool_reaches (\<lambda>_. True) (client_pool call css ls, g0) (ps, g)"
  shows "Fault \<notin> set ps \<and> choice_safe w g \<and>
    (map prog_result ps \<noteq> map Some rss \<or>
     nonnull (mset (concat (map push_values css))) =
       mset (concat (map (\<lambda>t. pop_values (css ! t) (rss ! t)) [0 ..< length css])) +
       nonnull (image_mset (node_val (mem_cs g)) (mset (concat (subs (mem_cs g) (array_cs g))))))"
proof -
  from stack consider "call = dra_call ch al fuel w" "g0 = create_stack_dra junk nt w b"
    | "call = multi_call clock ch al fuel w" "g0 = create_stack_multi junk nt w b" by auto
  then show ?thesis using assms(1-3) run by cases (simp_all only: dra_stack_safe multi_stack_safe simp_thms)
qed

text \<open>Two threads on two sub-stacks with two choices, one access each in turn.\<close>

definition fresh_ctl :: "seeds \<Rightarrow> ctl" where
  "fresh_ctl s = \<lparr>seeds = s, my_put_cas_fail_count = 0, my_get_cas_fail_count = 0, my_null_count = 0, my_hop_count = 0,
     my_slide_count = 0, my_slide_fail_count = 0, tick_reads = 0\<rparr>"

definition choice_calls :: "stack_call list list" where
  "choice_calls = [[Push 1 10, Pop], [Push 2 20]]"

definition demo_run_dra :: "(cstack, int list) prog list \<times> cstack" where
  "demo_run_dra = sched (\<lambda>_. True) (concat (replicate 24 [0, 1]))
     (client_pool (dra_call (Some 2) bump_alloc 3 2) choice_calls [fresh_ctl (1, 2, 3), fresh_ctl (4, 5, 6)], create_stack_dra (\<lambda>_. 0) 2 2 0)"

definition demo_run_multi :: "(cstack, int list) prog list \<times> cstack" where
  "demo_run_multi = sched (\<lambda>_. True) (concat (replicate 24 [0, 1]))
     (client_pool (multi_call (\<lambda>t n. 100 * n + t) (Some 2) bump_alloc 3 2) choice_calls [fresh_ctl (1, 2, 3), fresh_ctl (4, 5, 6)],
      create_stack_multi (\<lambda>_. 0) 2 2 0)"

lemma demo_choice_results:
  "map prog_result (fst demo_run_dra) = map Some [[1, 20], [1]]"
  "map prog_result (fst demo_run_multi) = map Some [[1, 20], [1]]"
  by (simp_all add: demo_run_dra_def demo_run_multi_def client_pool_def choice_calls_def fresh_ctl_def prog_unfold upt_rec cong: eval_cong)

theorem choice_stacks_threads_safe_witness:
  "\<exists>rss. Fault \<notin> set (fst demo_run_dra) \<and> choice_safe 2 (snd demo_run_dra) \<and> map prog_result (fst demo_run_dra) = map Some rss \<and>
   nonnull (mset (concat (map push_values choice_calls))) =
     mset (concat (map (\<lambda>t. pop_values (choice_calls ! t) (rss ! t)) [0 ..< length choice_calls])) +
     nonnull (image_mset (node_val (mem_cs (snd demo_run_dra))) (mset (concat (subs (mem_cs (snd demo_run_dra)) (array_cs (snd demo_run_dra)))))) \<and>
   Fault \<notin> set (fst demo_run_multi) \<and> choice_safe 2 (snd demo_run_multi) \<and> map prog_result (fst demo_run_multi) = map Some rss \<and>
   nonnull (mset (concat (map push_values choice_calls))) =
     mset (concat (map (\<lambda>t. pop_values (choice_calls ! t) (rss ! t)) [0 ..< length choice_calls])) +
     nonnull (image_mset (node_val (mem_cs (snd demo_run_multi))) (mset (concat (subs (mem_cs (snd demo_run_multi)) (array_cs (snd demo_run_multi))))))"
proof -
  have d: "pool_reaches (\<lambda>_. True) (client_pool (dra_call (Some 2) bump_alloc 3 2) choice_calls [fresh_ctl (1, 2, 3), fresh_ctl (4, 5, 6)],
      create_stack_dra (\<lambda>_. 0) 2 2 0) (fst demo_run_dra, snd demo_run_dra)" unfolding demo_run_dra_def prod.collapse by (rule sched_reaches)
  have m: "pool_reaches (\<lambda>_. True) (client_pool (multi_call (\<lambda>t n. 100 * n + t) (Some 2) bump_alloc 3 2) choice_calls
      [fresh_ctl (1, 2, 3), fresh_ctl (4, 5, 6)], create_stack_multi (\<lambda>_. 0) 2 2 0) (fst demo_run_multi, snd demo_run_multi)"
    unfolding demo_run_multi_def prod.collapse by (rule sched_reaches)
  note D = choice_stacks_threads_safe [OF _ bump_alloc_fresh _ _ d, of 2 "Some 2" 3 "\<lambda>_. 0" 2 0 _ "[[1, 20], [1]]"]
  note M = choice_stacks_threads_safe [OF _ bump_alloc_fresh _ _ m, of 2 "Some 2" 3 "\<lambda>_. 0" 2 0 "\<lambda>t n. 100 * n + t" "[[1, 20], [1]]"]
  show ?thesis by (rule exI [of _ "[[1, 20], [1]]"], use D M demo_choice_results in \<open>simp add: choice_calls_def filter_filter_mset\<close>)
qed

end
