(* ===== verification/Queue_Threads.thy ===== *)
theory Queue_Threads
  imports Histories
begin

text \<open>
  What the threads of every linked queue have in common, as \<open>Stack_Threads\<close> does it for stacks. A
  component says how its state shows the queue memory (\<open>getm\<close>, \<open>setm\<close>), the heads and the tails of its sub-queues (\<open>geth\<close>,
  \<open>gett\<close>: node and number of the node), and that each step of its protocol either leaves them alone or is a
  \<open>queue_step\<close>. In return it gets the rules for the actions of an enqueue and a dequeue: allocate a node, link it behind the last
  one, advance a tail that was left behind, read a node, take the next node, free the old sentinel.
\<close>

locale queue_protocol = protocol astep A Inv
  for astep :: "'g protocol" and A Inv :: "'g \<Rightarrow> bool" +
  fixes getm :: "'g \<Rightarrow> queue_mem" and setm :: "queue_mem \<Rightarrow> 'g \<Rightarrow> 'g" and geth gett :: "'g \<Rightarrow> tops" and same :: "'g \<Rightarrow> 'g \<Rightarrow> bool"
  assumes inv_queues: "Inv g \<Longrightarrow> queues_ok (getm g) (geth g) (gett g)"
    and step_cases: "Inv g \<Longrightarrow> astep u g g' \<Longrightarrow>
      getm g' = getm g \<and> geth g' = geth g \<and> gett g' = gett g \<or>
      queue_step u (getm g, geth g, gett g) (getm g', geth g', gett g')"
    and step_intro: "queue_step u (getm g, geth g, gett g) (getm g', geth g', gett g') \<Longrightarrow> same g g' \<Longrightarrow> astep u g g'"
    and mem_same: "same g (setm m g)" "getm (setm m g) = m" "geth (setm m g) = geth g" "gett (setm m g) = gett g" "A (setm m g) = A g"
begin

definition known :: "nat \<Rightarrow> (ptr \<times> mnode) option \<Rightarrow> ptr option \<Rightarrow> int list \<Rightarrow> int list \<Rightarrow> 'g \<Rightarrow> bool" where
  "known t po fo xs ys g \<longleftrightarrow> Inv g \<and> A g \<and>
     (\<forall>p nd. po = Some (p, nd) \<longrightarrow> unlinked (getm g) t p \<and> heap (nodes (getm g)) p = Some nd) \<and>
     (\<forall>p. fo = Some p \<longrightarrow> (p, t) \<in> set (removed (nodes (getm g)))) \<and>
     sent_by t (getm g) = xs \<and> taken_by t (getm g) = ys"

definition after :: "'g \<Rightarrow> 'g \<Rightarrow> bool" where
  "after g h \<longleftrightarrow> (\<forall>i k p. place (getm g) i k p \<longrightarrow> place (getm h) i k p) \<and>
     (\<forall>i. snd (geth g ! i) \<le> snd (geth h ! i) \<and> snd (gett g ! i) \<le> snd (gett h ! i)) \<and> length (links (getm h)) = length (links (getm g)) \<and>
     (\<forall>p \<in> set (allocd (nodes (getm g))). p \<in> set (allocd (nodes (getm h))) \<and>
        node_val (nodes (getm h)) p = node_val (nodes (getm g)) p)"

lemma afterD:
  assumes "after g h"
  shows "place (getm g) i k p \<Longrightarrow> place (getm h) i k p" "snd (geth g ! i) \<le> snd (geth h ! i)" "snd (gett g ! i) \<le> snd (gett h ! i)"
    "length (links (getm h)) = length (links (getm g))"
    "p \<in> set (allocd (nodes (getm g))) \<Longrightarrow> node_val (nodes (getm h)) p = node_val (nodes (getm g)) p"
  using assms by (auto simp: after_def)

lemma after_refl: "after g g"
  by (simp add: after_def)

lemma after_trans: "after g h \<Longrightarrow> after h k \<Longrightarrow> after g k"
  unfolding after_def by (auto intro: order_trans)

lemma step_after:
  assumes "Inv g" "astep u g g'"
  shows "after g g'"
  using step_cases [OF assms]
proof
  assume st: "queue_step u (getm g, geth g, gett g) (getm g', geth g', gett g')"
  show ?thesis unfolding after_def
    using queue_step_mono [OF st inv_queues [OF assms(1)]] queue_step_val [OF st] by simp
qed (simp add: after_def)

lemma knownD:
  assumes "known t po fo xs ys g"
  shows "Inv g" "A g" "queues_ok (getm g) (geth g) (gett g)" "sent_by t (getm g) = xs" "taken_by t (getm g) = ys"
    "po = Some (p, nd) \<Longrightarrow> unlinked (getm g) t p \<and> heap (nodes (getm g)) p = Some nd"
    "fo = Some q \<Longrightarrow> (q, t) \<in> set (removed (nodes (getm g)))"
  using assms inv_queues by (auto simp: known_def)

lemma known_env:
  assumes k: "known t po fo xs ys g" and e: "env1 astep A t g g'"
  shows "known t po fo xs ys g'" "after g g'"
proof -
  obtain u where u: "u \<noteq> t" "astep u g g'" and A: "A g'" using e by (auto simp: env1_def)
  note D = knownD(1-3) [OF k]
  have inv: "Inv g'" by (rule inv_step [OF D(1) u(2) A])
  show "after g g'" by (rule step_after [OF D(1) u(2)])
  show "known t po fo xs ys g'"
  proof (cases "getm g' = getm g")
    case True
    then show ?thesis using k inv A by (simp add: known_def)
  next
    case False
    then have st: "queue_step u (getm g, geth g, gett g) (getm g', geth g', gett g')" using step_cases [OF D(1) u(2)] by blast
    show ?thesis using k inv A queue_step_others [OF st D(3) u(1)] queue_step_values [OF st D(3) u(1)] by (simp add: known_def)
  qed
qed

lemma known_envs:
  assumes "env astep A t g h" "known t po fo xs ys g"
  shows "known t po fo xs ys h" "after g h"
proof -
  have "known t po fo xs ys h \<and> after g h"
    using assms
  proof (induction rule: rtranclp_induct)
    case base
    then show ?case by (simp add: after_refl)
  next
    case (step y z)
    then have k: "known t po fo xs ys y" "after g y" by auto
    show ?case using known_env [OF k(1) step.hyps(2)] after_trans [OF k(2)] by blast
  qed
  then show "known t po fo xs ys h" "after g h" by auto
qed

lemma ends_place:
  assumes "Inv g" "i < length (links (getm g))"
  shows "place (getm g) i (snd (geth g ! i)) (fst (geth g ! i))" "place (getm g) i (snd (gett g ! i)) (fst (gett g ! i))"
    "snd (geth g ! i) \<le> snd (gett g ! i)" "snd (gett g ! i) < length (links (getm g) ! i)"
    "length (geth g) = length (links (getm g))" "length (gett g) = length (links (getm g))"
  using queues_okD(4,5) [OF inv_queues [OF assms(1)]] queues_okD(6) [OF inv_queues [OF assms(1)], of i] assms(2) by (auto simp: place_def sub_ok_def)

lemma place_node:
  assumes k: "known t po fo xs ys g" and p: "place (getm g) i k p"
  obtains nd where "heap (nodes (getm g)) p = Some nd" "n_next nd = NULL \<longleftrightarrow> k + 1 = length (links (getm g) ! i)"
    "n_next nd \<noteq> NULL \<Longrightarrow> place (getm g) i (k + 1) (n_next nd)" "p \<in> set (allocd (nodes (getm g)))"
proof -
  note ok = knownD(3) [OF k]
  have q: "i < length (links (getm g))" "k < length (links (getm g) ! i)" "links (getm g) ! i ! k = p" using p by (auto simp: place_def)
  obtain nd where nd: "heap (nodes (getm g)) p = Some nd" using links_null(2) [OF ok q(1,2)] q(3) by blast
  moreover have "p \<in> set (allocd (nodes (getm g)))" using nd queues_okD(1) [OF ok] by blast
  ultimately show thesis using that links_next [OF ok q(1,2), of nd] q by (auto simp: place_def)
qed

lemma own_step:
  assumes k: "known t po fo xs ys g" and st: "queue_step t (getm g, geth g, gett g) (getm h, geth h, gett h)" "same g h" and A: "A h"
    and "\<And>p nd. po' = Some (p, nd) \<Longrightarrow> unlinked (getm h) t p \<and> heap (nodes (getm h)) p = Some nd"
    and "\<And>p. fo' = Some p \<Longrightarrow> (p, t) \<in> set (removed (nodes (getm h)))"
    and "sent_by t (getm h) = xs'" "taken_by t (getm h) = ys'"
  shows "astep t g h" "known t po' fo' xs' ys' h" "after g h"
proof -
  note D = knownD(1-3) [OF k]
  show s: "astep t g h" by (rule step_intro [OF st])
  show "known t po' fo' xs' ys' h" using inv_step [OF D(1) s A] A assms(5-) by (simp add: known_def)
  show "after g h" by (rule step_after [OF D(1) s])
qed

lemma own_other:
  assumes k: "known t po fo xs ys g" and st: "astep t g h" "A h" and m: "getm h = getm g"
  shows "known t po fo xs ys h"
  using inv_step [OF knownD(1) [OF k] st] k st m by (simp add: known_def)

section \<open>Actions\<close>

lemma ok_read:
  assumes "known t po fo xs ys g" "\<And>h. known t po fo xs ys h \<Longrightarrow> after g h \<Longrightarrow> ok astep A t (k (f h)) Q h"
  shows "ok astep A t (pbind (rd f) k) Q g"
  using assms by (intro ok_rd) (auto intro: known_envs)

lemma ok_load_next:
  assumes k: "known t po fo xs ys g" and p: "place (getm g) i k p"
    and null: "\<And>h. known t po fo xs ys h \<Longrightarrow> after g h \<Longrightarrow> ok astep A t (f NULL) Q h"
    and more: "\<And>h n. known t po fo xs ys h \<Longrightarrow> after g h \<Longrightarrow> n \<noteq> NULL \<Longrightarrow> place (getm h) i (k + 1) n \<Longrightarrow> ok astep A t (f n) Q h"
  shows "ok astep A t (pbind (rd_opt (\<lambda>g. map_option n_next (heap (nodes (getm g)) p))) f) Q g"
proof (rule ok_rd_opt, goal_cases)
  case (1 h)
  note k1 = known_envs(1) [OF 1 k] and a1 = known_envs(2) [OF 1 k]
  obtain nd where nd: "heap (nodes (getm h)) p = Some nd" "n_next nd \<noteq> NULL \<Longrightarrow> place (getm h) i (k + 1) (n_next nd)"
    using place_node [OF k1 afterD(1) [OF a1 p]] by metis
  show ?case using nd null [OF k1 a1] more [OF k1 a1, of "n_next nd"] by (cases "n_next nd = NULL") auto
qed

text \<open>The same when the thread knows already that there is a next node.\<close>

lemma ok_load_next_some:
  assumes k: "known t po fo xs ys g" and p: "place (getm g) i k p" "place (getm g) i (k + 1) n"
    and more: "\<And>h. known t po fo xs ys h \<Longrightarrow> after g h \<Longrightarrow> ok astep A t (f n) Q h"
  shows "ok astep A t (pbind (rd_opt (\<lambda>g. map_option n_next (heap (nodes (getm g)) p))) f) Q g"
proof (rule ok_rd_opt, goal_cases)
  case (1 h)
  note k1 = known_envs(1) [OF 1 k] and a1 = known_envs(2) [OF 1 k]
  obtain nd where nd: "heap (nodes (getm h)) p = Some nd" "n_next nd = NULL \<longleftrightarrow> k + 1 = length (links (getm h) ! i)"
    "n_next nd \<noteq> NULL \<Longrightarrow> place (getm h) i (k + 1) (n_next nd)"
    using place_node [OF k1 afterD(1) [OF a1 p(1)]] by metis
  have n: "place (getm h) i (k + 1) n" by (rule afterD(1) [OF a1 p(2)])
  then have "n_next nd \<noteq> NULL" using nd(2) by (auto simp: place_def)
  then have "n_next nd = n" using nd(3) n by (auto simp: place_def)
  then show ?case using nd(1) more [OF k1 a1] by simp
qed

lemma ok_load_val:
  assumes k: "known t po fo xs ys g" and p: "place (getm g) i k p"
    and more: "\<And>h. known t po fo xs ys h \<Longrightarrow> after g h \<Longrightarrow> ok astep A t (f (node_val (nodes (getm g)) p)) Q h"
  shows "ok astep A t (pbind (rd_opt (\<lambda>g. map_option n_val (heap (nodes (getm g)) p))) f) Q g"
proof (rule ok_rd_opt, goal_cases)
  case (1 h)
  note k1 = known_envs(1) [OF 1 k] and a1 = known_envs(2) [OF 1 k]
  obtain nd where nd: "heap (nodes (getm h)) p = Some nd" using place_node [OF k1 afterD(1) [OF a1 p]] by metis
  have "p \<in> set (allocd (nodes (getm g)))" using place_node [OF k p] by metis
  then have "n_val nd = node_val (nodes (getm g)) p" using afterD(5) [OF a1, of p] nd by (simp add: node_val_def)
  then show ?case using nd more [OF k1 a1] by simp
qed

lemma ok_new_node:
  assumes k: "known t None fo xs ys g" and al: "alloc_fresh al"
    and go: "\<And>p h. known t (Some (p, nd)) fo xs ys h \<Longrightarrow> ok astep A t (f p) Q h"
  shows "ok astep A t (pbind (Act (\<lambda>g. setm (qm_alloc t (al t (allocd (nodes (getm g)))) nd (getm g)) g)
    (\<lambda>g. Ret (al t (allocd (nodes (getm g)))))) f) Q g"
  unfolding pbind.simps
proof (rule ok_Act, goal_cases)
  case (1 h)
  note [simp] = mem_same
  note k1 = known_envs(1) [OF 1(1) k]
  note ok = knownD(3) [OF k1]
  let ?p = "al t (allocd (nodes (getm h)))"
  let ?h = "setm (qm_alloc t ?p nd (getm h)) h"
  have np: "?p \<noteq> NULL" "?p \<notin> set (allocd (nodes (getm h)))" using al by (auto simp: alloc_fresh_def)
  have st: "queue_step t (getm h, geth h, gett h) (getm ?h, geth ?h, gett ?h)" using qs_alloc [OF np(2,1)] by simp
  have new: "?p \<notin> set (hist (nodes (getm h)))" "?p \<notin> set (concat (links (getm h)))"
    using np(2) queues_allocd(1) [OF ok] queues_okD(8) [OF ok] by blast+
  have v: "sent_by t (getm ?h) = xs" "taken_by t (getm ?h) = ys" using own_queue_values(1,2) [OF ok np(2)] knownD(4,5) [OF k1] by simp_all
  have fo: "\<And>p. fo = Some p \<Longrightarrow> (p, t) \<in> set (removed (nodes (getm ?h)))" using knownD(7) [OF k1] by (simp add: qm_alloc_def)
  have po: "\<And>p n. Some (?p, nd) = Some (p, n) \<Longrightarrow> unlinked (getm ?h) t p \<and> heap (nodes (getm ?h)) p = Some n"
    using new by (auto simp: unlinked_def mine_def qm_alloc_def)
  note S = own_step [where po' = "Some (?p, nd)" and fo' = fo, OF k1 st _ _ po fo v]
  show ?case using S go [of ?p ?h] knownD(2) [OF k1] by simp
qed

text \<open>Linking the thread's node behind node number \<open>k\<close>, which was the tail at some moment.\<close>

lemma ok_link:
  assumes k: "known t (Some (p, nd)) fo xs ys g" and nd: "n_next nd = NULL"
    and q: "place (getm g) i k q" "k \<le> snd (gett g ! i)"
    and same: "\<And>h. known t (Some (p, nd)) fo xs ys h \<Longrightarrow> after g h \<Longrightarrow> length (links (getm h) ! i) = k + 1 \<Longrightarrow>
      same h (setm (qm_link i q p (getm h)) h)"
    and finish: "\<And>h. known t None fo (n_val nd # xs) ys h \<Longrightarrow> after g h \<Longrightarrow> place (getm h) i (k + 1) p \<Longrightarrow> ok astep A t (f True) Q h"
    and retry: "\<And>h. known t (Some (p, nd)) fo xs ys h \<Longrightarrow> after g h \<Longrightarrow> ok astep A t (f False) Q h"
  shows "ok astep A t (pbind (Act
      (\<lambda>g. if map_option n_next (heap (nodes (getm g)) q) = Some NULL then setm (qm_link i q p (getm g)) g else g)
      (\<lambda>g. case heap (nodes (getm g)) q of None \<Rightarrow> Fault | Some nd \<Rightarrow> Ret (n_next nd = NULL))) f) Q g"
  unfolding pbind.simps
proof (rule ok_Act, goal_cases)
  case (1 h)
  note [simp] = mem_same
  note k1 = known_envs(1) [OF 1(1) k] and a1 = known_envs(2) [OF 1(1) k]
  note ok = knownD(3) [OF k1]
  have pl: "place (getm h) i k q" by (rule afterD(1) [OF a1 q(1)])
  obtain ndq where ndq: "heap (nodes (getm h)) q = Some ndq" "n_next ndq = NULL \<longleftrightarrow> k + 1 = length (links (getm h) ! i)"
    using place_node [OF k1 pl] by metis
  show ?case
  proof (cases "n_next ndq = NULL")
    case True
    let ?h = "setm (qm_link i q p (getm h)) h"
    have len: "length (links (getm h) ! i) = k + 1" "i < length (links (getm h))" "links (getm h) ! i ! k = q"
      using True ndq(2) pl by (auto simp: place_def)
    have ke: "snd (gett h ! i) = k"
      using q(2) afterD(3) [OF a1, of i] ends_place(4) [OF knownD(1) [OF k1] len(2)] len by linarith
    have own: "mine (nodes (getm h)) t p" "p \<notin> set (concat (links (getm h)))" "heap (nodes (getm h)) p = Some nd"
      using knownD(6) [OF k1] by (auto simp: unlinked_def)
    have st: "queue_step t (getm h, geth h, gett h) (getm ?h, geth ?h, gett ?h)"
      using qs_link [OF len(2), of "gett h" q t p nd "geth h"] own nd len ke by simp
    have v: "sent_by t (getm ?h) = n_val nd # xs" "taken_by t (getm ?h) = ys"
      using own_queue_values(3,4) [OF ok] own(1,3) knownD(4,5) [OF k1] by (simp_all add: node_val_def)
    have fo: "\<And>p. fo = Some p \<Longrightarrow> (p, t) \<in> set (removed (nodes (getm ?h)))"
      using knownD(7) [OF k1] by (auto simp: qm_link_def mem_publish_def mem_set_next_def split: option.splits)
    note S = own_step [where po' = None and fo' = fo, OF k1 st _ _ _ fo v]
    have "place (getm ?h) i (k + 1) p" using len by (simp add: place_def qm_link_links nth_append)
    then show ?thesis using True ndq(1) S finish [of ?h] after_trans [OF a1] same [OF k1 a1 len(1)] knownD(2) [OF k1] by simp
  next
    case False
    then show ?thesis using ndq(1) retry [OF k1 a1] by simp
  qed
qed

text \<open>
  Compare-and-swaps on a tail and on a head: \<open>c\<close> tests and \<open>u\<close> updates, in one action. If the test succeeds, the
  node the thread compares with, number \<open>k\<close>, is the tail (the head).
\<close>

lemma ok_advance:
  assumes k: "known t po fo xs ys g" and p: "place (getm g) i k d" "place (getm g) i (k + 1) nxt"
    and cas: "\<And>h. known t po fo xs ys h \<Longrightarrow> after g h \<Longrightarrow> c h \<Longrightarrow> A (u h) \<Longrightarrow> fst (gett h ! i) = d \<and> same h (u h) \<and> getm (u h) = getm h \<and>
      geth (u h) = geth h \<and> (snd (gett h ! i) = k \<longrightarrow> gett (u h) = (gett h)[i := (nxt, k + 1)])"
    and go: "\<And>h b. known t po fo xs ys h \<Longrightarrow> after g h \<Longrightarrow> ok astep A t (f b) Q h"
  shows "ok astep A t (pbind (Act (\<lambda>g. if c g then u g else g) (\<lambda>g. Ret (c g))) f) Q g"
  unfolding pbind.simps
proof (rule ok_Act, goal_cases)
  case (1 h)
  note k1 = known_envs(1) [OF 1(1) k] and a1 = known_envs(2) [OF 1(1) k]
  note ok = knownD(3) [OF k1]
  show ?case
  proof (cases "c h")
    case True
    have A: "A (u h)" using 1(2) True by simp
    note C = cas [OF k1 a1 True A]
    have nx: "place (getm h) i (k + 1) nxt" by (rule afterD(1) [OF a1 p(2)])
    then have len: "k + 1 < length (links (getm h) ! i)" "i < length (links (getm h))" "links (getm h) ! i ! (k + 1) = nxt"
      by (auto simp: place_def)
    have kd: "snd (gett h ! i) = k"
      using place_inj [OF ok afterD(1) [OF a1 p(1)]] ends_place(2) [OF knownD(1) [OF k1] len(2)] C by auto
    have st: "queue_step t (getm h, geth h, gett h) (getm (u h), geth (u h), gett (u h))"
      using qs_advance [OF len(2), of "gett h" t "geth h"] C kd len by simp
    note S = own_step [where po' = po and fo' = fo and xs' = xs and ys' = ys, OF k1 st _ A]
    show ?thesis using True S C knownD(4-7) [OF k1] go after_trans [OF a1] by simp
  next
    case False
    then show ?thesis using go [OF k1 a1] by simp
  qed
qed

lemma ok_take:
  assumes k: "known t po None xs ys g" and q: "place (getm g) i k d" "place (getm g) i (k + 1) nxt" "k < snd (gett g ! i)"
    and cas: "\<And>h. known t po None xs ys h \<Longrightarrow> after g h \<Longrightarrow> c h \<Longrightarrow> A (u h) \<Longrightarrow> fst (geth h ! i) = d \<and> same h (u h) \<and>
      getm (u h) = qm_take t d nxt (getm h) \<and> gett (u h) = gett h \<and> (snd (geth h ! i) = k \<longrightarrow> geth (u h) = (geth h)[i := (nxt, k + 1)])"
    and finish: "\<And>h. known t po (Some d) xs (node_val (nodes (getm g)) nxt # ys) h \<Longrightarrow> after g h \<Longrightarrow> ok astep A t (f True) Q h"
    and retry: "\<And>h. known t po None xs ys h \<Longrightarrow> after g h \<Longrightarrow> ok astep A t (f False) Q h"
  shows "ok astep A t (pbind (Act (\<lambda>g. if c g then u g else g) (\<lambda>g. Ret (c g))) f) Q g"
  unfolding pbind.simps
proof (rule ok_Act, goal_cases)
  case (1 h)
  note k1 = known_envs(1) [OF 1(1) k] and a1 = known_envs(2) [OF 1(1) k]
  note ok = knownD(3) [OF k1]
  show ?case
  proof (cases "c h")
    case True
    have A: "A (u h)" using 1(2) True by simp
    note C = cas [OF k1 a1 True A]
    have lk: "links (getm h) ! i ! k = d" "links (getm h) ! i ! (k + 1) = nxt" "i < length (links (getm h))"
      using afterD(1) [OF a1 q(1)] afterD(1) [OF a1 q(2)] by (auto simp: place_def)
    have kd: "snd (geth h ! i) = k"
      using place_inj [OF ok afterD(1) [OF a1 q(1)]] ends_place(1) [OF knownD(1) [OF k1] lk(3)] C by auto
    have lt: "snd (geth h ! i) < snd (gett h ! i)" using q(3) afterD(3) [OF a1, of i] kd by simp
    have st: "queue_step t (getm h, geth h, gett h) (getm (u h), geth (u h), gett (u h))"
      using qs_take [OF lk(3) lt kd [symmetric], of t] C kd lk by simp
    have "nxt \<in> set (allocd (nodes (getm g)))" using place_node [OF k q(2)] by metis
    then have "node_val (nodes (getm h)) nxt = node_val (nodes (getm g)) nxt" by (rule afterD(5) [OF a1])
    then have v: "sent_by t (getm (u h)) = xs" "taken_by t (getm (u h)) = node_val (nodes (getm g)) nxt # ys"
      using own_queue_values(5,6) [OF ok] knownD(4,5) [OF k1] C by simp_all
    have fo: "\<And>p. Some d = Some p \<Longrightarrow> (p, t) \<in> set (removed (nodes (getm (u h))))" using C by (simp add: qm_take_def mem_remove_def)
    have po: "\<And>p nd. po = Some (p, nd) \<Longrightarrow> unlinked (getm (u h)) t p \<and> heap (nodes (getm (u h))) p = Some nd"
      using knownD(6) [OF k1] C by (auto simp: unlinked_def qm_take_def mem_remove_def mine_def)
    note S = own_step [where po' = po and fo' = "Some d", OF k1 st _ A po fo v]
    show ?thesis using True C S finish [of "u h"] after_trans [OF a1] by simp
  next
    case False
    then show ?thesis using retry [OF k1 a1] by simp
  qed
qed

lemma ok_free:
  assumes k: "known t po (Some p) xs ys g"
    and go: "\<And>h. known t po None xs ys h \<Longrightarrow> after g h \<Longrightarrow> ok astep A t (f ()) Q h"
  shows "ok astep A t (pbind (wr (\<lambda>g. setm (qm_free t p (getm g)) g)) f) Q g"
proof (rule ok_wr, goal_cases)
  case (1 h)
  note [simp] = mem_same
  note k1 = known_envs(1) [OF 1(1) k] and a1 = known_envs(2) [OF 1(1) k]
  note ok = knownD(3) [OF k1]
  let ?h = "setm (qm_free t p (getm h)) h"
  have p: "(p, t) \<in> set (removed (nodes (getm h)))" using knownD(7) [OF k1] by blast
  have st: "queue_step t (getm h, geth h, gett h) (getm ?h, geth ?h, gett ?h)" using qs_free [OF p] by simp
  have v: "sent_by t (getm ?h) = xs" "taken_by t (getm ?h) = ys" using own_queue_values(7,8) [OF ok] knownD(4,5) [OF k1] by simp_all
  have po: "\<And>p nd. po = Some (p, nd) \<Longrightarrow> unlinked (getm ?h) t p \<and> heap (nodes (getm ?h)) p = Some nd"
    using knownD(6) [OF k1] by (auto simp: unlinked_def qm_free_def mem_free_def mine_def)
  note S = own_step [where po' = po and fo' = None, OF k1 st _ _ po _ v]
  show ?case using S go [of ?h] after_trans [OF a1] knownD(2) [OF k1] by simp
qed

section \<open>Histories of calls\<close>

definition rest :: "allocator \<Rightarrow> nat \<Rightarrow> int list \<times> int list \<Rightarrow> 'g \<Rightarrow> bool" where
  "rest al t s g \<longleftrightarrow> alloc_fresh al \<and> known t None None (fst s) (snd s) g"

definition post :: "allocator \<Rightarrow> nat \<Rightarrow> queue_call \<Rightarrow> int list \<times> int list \<Rightarrow> ('l \<Rightarrow> bool) \<Rightarrow> int \<times> 'l \<Rightarrow> 'g \<Rightarrow> bool" where
  "post al t c s fit = (\<lambda>(r, l) h. fit l \<and> (\<exists>s'. queue_hist c s r s' \<and> rest al t s' h))"

lemma rest_env: "rest al t s g \<Longrightarrow> env1 astep A t g g' \<Longrightarrow> rest al t s g'"
  unfolding rest_def using known_env(1) by blast

lemma post_Ret:
  assumes "known t None None xs' ys' g" "alloc_fresh al" "queue_hist c s r (xs', ys')" "fit l"
  shows "ok astep A t (Ret (r, l)) (post al t c s fit) g"
proof (rule ok_Ret)
  fix h
  assume "env astep A t g h"
  then have "rest al t (xs', ys') h" using known_envs(1) assms(1,2) by (simp add: rest_def)
  then show "post al t c s fit (r, l) h" unfolding post_def prod.case using assms(3,4) by blast
qed

lemma histories:
  assumes inv: "Inv g"
    and t: "\<And>t. t < length css \<Longrightarrow> \<exists>s. spec_run queue_hist (css ! t) ([], []) (rss ! t) s \<and> rest al t s g"
    and out: "\<And>t. length css \<le> t \<Longrightarrow> rest al t ([], []) g"
  shows "nonnull (mset (concat (map enq_values css))) =
    mset (concat (map (\<lambda>t. deq_values (css ! t) (rss ! t)) [0 ..< length css])) +
    nonnull (image_mset (node_val (nodes (getm g))) (mset (concat (waiting (getm g) (geth g)))))"
proof (rule queue_histories_add_up [OF inv_queues [OF inv]])
  fix u
  assume u: "u < length css"
  obtain xs ys where "spec_run queue_hist (css ! u) ([], []) (rss ! u) (xs, ys)" "rest al u (xs, ys) g" using t [OF u] by auto
  then show "sent_by u (getm g) = rev (enq_values (css ! u)) \<and>
      filter (\<lambda>v. v \<noteq> 0) (taken_by u (getm g)) = rev (deq_values (css ! u) (rss ! u))"
    using queue_hist_run [of "css ! u" "[]" "[]" "rss ! u" xs ys] by (simp add: rest_def known_def)
next
  fix u
  assume "length css \<le> u"
  then show "sent_by u (getm g) = [] \<and> taken_by u (getm g) = []" using out by (simp add: rest_def known_def)
qed

end

end
