(* ===== verification/Queue_MS.thy ===== *)
theory Queue_MS
  imports Queue_Threads
begin

text \<open>
  The lock-free queue of Michael and Scott, \<^verbatim>\<open>src/queue-ms\<close>, the queue the relaxed ones are compared
  with: \<^verbatim>\<open>queue_ms_insert\<close> and \<^verbatim>\<open>queue_ms_delete\<close> of \<^verbatim>\<open>queue-ms.c\<close> and the node and size functions
  of \<^verbatim>\<open>queue-lockfree.c\<close>. The head and the tail are pointers, each with the ghost number of its node.

  Alone, the calls are those of a list; together, the threads keep the queue a linked list with the tail at
  its last or last but one node, follow no bad pointer, and lose and duplicate nothing.
\<close>

section \<open>State and operations\<close>

record queue_ms =
  head_ms :: "ptr \<times> nat"
  tail_ms :: "ptr \<times> nat"
  mem_ms :: queue_mem

definition queue_new_node :: "allocator \<Rightarrow> nat \<Rightarrow> int \<Rightarrow> int \<Rightarrow> ptr \<Rightarrow> (queue_ms, ptr) prog" where
  "queue_new_node al t key val nxt =
     Act (\<lambda>g. g\<lparr>mem_ms := qm_alloc t (al t (allocd (nodes (mem_ms g)))) \<lparr>n_key = key, n_val = val, n_next = nxt\<rparr> (mem_ms g)\<rparr>)
         (\<lambda>g. Ret (al t (allocd (nodes (mem_ms g)))))"

definition load_next_ms :: "ptr \<Rightarrow> (queue_ms, ptr) prog" where
  "load_next_ms p = rd_opt (\<lambda>g. map_option n_next (heap (nodes (mem_ms g)) p))"

definition cas_next_ms :: "ptr \<Rightarrow> ptr \<Rightarrow> (queue_ms, bool) prog" where
  "cas_next_ms tail node =
     Act (\<lambda>g. if map_option n_next (heap (nodes (mem_ms g)) tail) = Some NULL
              then g\<lparr>mem_ms := qm_link 0 tail node (mem_ms g)\<rparr> else g)
         (\<lambda>g. case heap (nodes (mem_ms g)) tail of None \<Rightarrow> Fault | Some nd \<Rightarrow> Ret (n_next nd = NULL))"

definition cas_tail_ms :: "ptr \<Rightarrow> ptr \<Rightarrow> (queue_ms, bool) prog" where
  "cas_tail_ms old new =
     Act (\<lambda>g. if fst (tail_ms g) = old then g\<lparr>tail_ms := (new, snd (tail_ms g) + 1)\<rparr> else g)
         (\<lambda>g. Ret (fst (tail_ms g) = old))"

definition cas_head_ms :: "ptr \<Rightarrow> ptr \<Rightarrow> (queue_mem \<Rightarrow> queue_mem) \<Rightarrow> (queue_ms, bool) prog" where
  "cas_head_ms old new ghost =
     Act (\<lambda>g. if fst (head_ms g) = old then g\<lparr>head_ms := (new, snd (head_ms g) + 1), mem_ms := ghost (mem_ms g)\<rparr> else g)
         (\<lambda>g. Ret (fst (head_ms g) = old))"

fun queue_ms_insert_loop :: "nat \<Rightarrow> ptr \<Rightarrow> 'l \<Rightarrow> (queue_ms, int \<times> 'l) prog" where
  "queue_ms_insert_loop 0 node l = NoFuel"
| "queue_ms_insert_loop (Suc n) node l =
     pbind (rd (\<lambda>g. fst (tail_ms g))) (\<lambda>tail.
     pbind (load_next_ms tail) (\<lambda>nxt.
     pbind (rd (\<lambda>g. fst (tail_ms g))) (\<lambda>tail'.
     if tail = tail' then
       if nxt = NULL then
         pbind (cas_next_ms tail node) (\<lambda>success.
         if success then pbind (cas_tail_ms tail node) (\<lambda>_. Ret (1, l))
         else queue_ms_insert_loop n node l)
       else pbind (cas_tail_ms tail nxt) (\<lambda>_. queue_ms_insert_loop n node l)
     else queue_ms_insert_loop n node l)))"

definition queue_ms_insert :: "allocator \<Rightarrow> nat \<Rightarrow> nat \<Rightarrow> int \<Rightarrow> int \<Rightarrow> 'l \<Rightarrow> (queue_ms, int \<times> 'l) prog" where
  "queue_ms_insert al fuel t key val l =
     pbind (queue_new_node al t key val NULL) (\<lambda>node. queue_ms_insert_loop fuel node l)"

fun queue_ms_delete_loop :: "nat \<Rightarrow> nat \<Rightarrow> 'l \<Rightarrow> (queue_ms, int \<times> 'l) prog" where
  "queue_ms_delete_loop 0 t l = NoFuel"
| "queue_ms_delete_loop (Suc n) t l =
     pbind (rd (\<lambda>g. fst (head_ms g))) (\<lambda>head.
     pbind (rd (\<lambda>g. fst (tail_ms g))) (\<lambda>tail.
     pbind (load_next_ms head) (\<lambda>nxt.
     pbind (rd (\<lambda>g. fst (head_ms g))) (\<lambda>head'.
     if head = head' then
       if head = tail then
         if nxt = NULL then Ret (0, l)
         else pbind (cas_tail_ms tail nxt) (\<lambda>_. queue_ms_delete_loop n t l)
       else
         pbind (cas_head_ms head nxt (qm_take t head nxt)) (\<lambda>success.
         if success then
           pbind (wr (\<lambda>g. g\<lparr>mem_ms := qm_free t head (mem_ms g)\<rparr>)) (\<lambda>_.
           pbind (rd_opt (\<lambda>g. map_option n_val (heap (nodes (mem_ms g)) nxt))) (\<lambda>val. Ret (val, l)))
         else queue_ms_delete_loop n t l)
     else queue_ms_delete_loop n t l))))"

definition queue_ms_delete :: "nat \<Rightarrow> nat \<Rightarrow> 'l \<Rightarrow> (queue_ms, int \<times> 'l) prog" where
  "queue_ms_delete fuel t l = queue_ms_delete_loop fuel t l"

definition queue_ms_find :: "int \<Rightarrow> (queue_ms, int) prog" where
  "queue_ms_find key = Ret 1"

definition queue_new :: "allocator \<Rightarrow> nat \<Rightarrow> mnode \<Rightarrow> queue_ms" where
  "queue_new al t junk =
     (let m = add_sentinels al t junk 1;
          node = hd (links m ! 0)
      in \<lparr>head_ms = (node, 0), tail_ms = (node, 0), mem_ms = m\<rparr>)"

text \<open>\<^verbatim>\<open>queue_size\<close> counts in an \<^verbatim>\<open>int\<close>, whose overflow is undefined.\<close>

fun queue_size_walk_ms :: "nat \<Rightarrow> ptr \<Rightarrow> int \<Rightarrow> (queue_ms, int) prog" where
  "queue_size_walk_ms 0 node sz = NoFuel"
| "queue_size_walk_ms (Suc n) node sz =
     pbind (load_next_ms node) (\<lambda>nxt.
     if nxt \<noteq> NULL then
       pbind (assert (sz < 2147483647)) (\<lambda>_.
       pbind (load_next_ms node) (\<lambda>node. queue_size_walk_ms n node (sz + 1)))
     else Ret sz)"

definition queue_size_ms :: "nat \<Rightarrow> (queue_ms, int) prog" where
  "queue_size_ms fuel = pbind (rd (\<lambda>g. fst (head_ms g))) (\<lambda>node. queue_size_walk_ms fuel node 0)"

definition queue_ms_call :: "allocator \<Rightarrow> nat \<Rightarrow> nat \<Rightarrow> queue_call \<Rightarrow> 'l \<Rightarrow> (queue_ms, int \<times> 'l) prog" where
  "queue_ms_call al fuel t c l =
     (case c of Enq key val \<Rightarrow> queue_ms_insert al fuel t key val l | Deq \<Rightarrow> queue_ms_delete fuel t l)"

lemmas queue_ms_unfold [prog_unfold] =
  queue_new_node_def load_next_ms_def cas_next_ms_def cas_tail_ms_def cas_head_ms_def queue_ms_insert_def queue_ms_delete_def
  queue_new_def queue_size_ms_def queue_ms_call_def
  queue_ms_insert_loop.simps(2) [of "pred_numeral k" for k, folded numeral_eq_Suc]
  queue_ms_delete_loop.simps(2) [of "pred_numeral k" for k, folded numeral_eq_Suc]
  queue_size_walk_ms.simps(2) [of "pred_numeral k" for k, folded numeral_eq_Suc]

section \<open>The protocol\<close>

abbreviation heads_ms :: "queue_ms \<Rightarrow> tops" where
  "heads_ms g \<equiv> [head_ms g]"

abbreviation tails_ms :: "queue_ms \<Rightarrow> tops" where
  "tails_ms g \<equiv> [tail_ms g]"

definition queue_ms_inv :: "queue_ms \<Rightarrow> bool" where
  "queue_ms_inv g \<longleftrightarrow> queues_ok (mem_ms g) (heads_ms g) (tails_ms g)"

definition queue_ms_step :: "queue_ms protocol" where
  "queue_ms_step t g g' \<longleftrightarrow> queue_step t (mem_ms g, heads_ms g, tails_ms g) (mem_ms g', heads_ms g', tails_ms g')"

interpretation ms: queue_protocol queue_ms_step "\<lambda>_. True" queue_ms_inv mem_ms "\<lambda>m g. g\<lparr>mem_ms := m\<rparr>" heads_ms tails_ms "\<lambda>_ _. True"
  by unfold_locales (auto simp: queue_ms_inv_def queue_ms_step_def intro: queue_step_ok)

lemma ms_places:
  assumes "ms.known t po fo xs ys g"
  shows "place (mem_ms g) 0 (snd (head_ms g)) (fst (head_ms g))" "place (mem_ms g) 0 (snd (tail_ms g)) (fst (tail_ms g))"
    "snd (head_ms g) \<le> snd (tail_ms g)"
proof -
  have "length (links (mem_ms g)) = 1" using queues_okD(4) [OF ms.knownD(3) [OF assms]] by simp
  then have "0 < length (links (mem_ms g))" by simp
  from ms.ends_place [OF ms.knownD(1) [OF assms] this]
  show "place (mem_ms g) 0 (snd (head_ms g)) (fst (head_ms g))" "place (mem_ms g) 0 (snd (tail_ms g)) (fst (tail_ms g))"
    "snd (head_ms g) \<le> snd (tail_ms g)" by simp_all
qed

section \<open>Under interference\<close>

lemma ok_cas_tail_ms:
  assumes "ms.known t po fo xs ys g" "place (mem_ms g) 0 k d" "place (mem_ms g) 0 (k + 1) nxt"
    and "\<And>h b. ms.known t po fo xs ys h \<Longrightarrow> ok queue_ms_step (\<lambda>_. True) t (f b) Q h"
  shows "ok queue_ms_step (\<lambda>_. True) t (pbind (cas_tail_ms d nxt) f) Q g"
  unfolding cas_tail_ms_def by (rule ms.ok_advance [OF assms(1-3)]) (use assms(4) in auto)

lemma insert_ok_ms:
  assumes al: "alloc_fresh al" and k: "ms.known t (Some (p, nd)) None xs ys g" and nd: "n_next nd = NULL" "n_val nd = val"
  shows "ok queue_ms_step (\<lambda>_. True) t (queue_ms_insert_loop n p l) (ms.post al t (Enq key val) (xs, ys) (\<lambda>_. True)) g"
  using k
proof (induction n arbitrary: l g)
  case 0
  then show ?case by simp
next
  case (Suc n)
  show ?case
    unfolding queue_ms_insert_loop.simps
  proof (rule ok_rd, goal_cases)
    case (1 h)
    note k1 = ms.known_envs(1) [OF 1 Suc.prems]
    note P = ms_places(2) [OF k1]
    have link: "ok queue_ms_step (\<lambda>_. True) t (pbind (cas_next_ms (fst (tail_ms h)) p) (\<lambda>success.
         if success then pbind (cas_tail_ms (fst (tail_ms h)) p) (\<lambda>_. Ret (1, l)) else queue_ms_insert_loop n p l))
       (ms.post al t (Enq key val) (xs, ys) (\<lambda>_. True)) h2"
      if k2: "ms.known t (Some (p, nd)) None xs ys h2" and a: "ms.after h h2" for h2
      unfolding cas_next_ms_def
    proof (rule ms.ok_link [OF k2 nd(1) ms.afterD(1) [OF a P]], goal_cases)
      case 1
      then show ?case using ms.afterD(3) [OF a, of 0] by simp
    next
      case (3 h3)
      then show ?case using ms.afterD(1) [OF ms.after_trans [OF a 3(2)] P] nd al
        by (auto simp del: ok.simps intro!: ok_cas_tail_ms ms.post_Ret)
    qed (use Suc.IH in auto)
    show ?case unfolding load_next_ms_def
    proof (rule ms.ok_load_next [OF k1 P], goal_cases)
      case (1 h2)
      show ?case
      proof (rule ms.ok_read [OF 1(1)], goal_cases)
        case (1 h3)
        show ?case unfolding if_P [OF refl]
          by (intro ok_if) (use link [OF 1(1)] Suc.IH [OF 1(1)] ms.after_trans [OF \<open>ms.after h h2\<close> 1(2)] in blast)+
      qed
    next
      case (2 h2 nxt)
      show ?case
      proof (rule ms.ok_read [OF 2(1)], goal_cases)
        case (1 h3)
        have "place (mem_ms h3) 0 (snd (tail_ms h)) (fst (tail_ms h))" "place (mem_ms h3) 0 (snd (tail_ms h) + 1) nxt"
          using ms.afterD(1) [OF ms.after_trans [OF 2(2) 1(2)] P] ms.afterD(1) [OF 1(2) 2(4)] by auto
        then show ?case unfolding if_not_P [OF 2(3)] by (intro ok_if ok_cas_tail_ms [OF 1(1)]) (use Suc.IH 1(1) in blast)+
      qed
    qed
  qed
qed

lemma delete_ok_ms:
  assumes al: "alloc_fresh al" and k: "ms.known t None None xs ys g"
  shows "ok queue_ms_step (\<lambda>_. True) t (queue_ms_delete_loop n t l) (ms.post al t Deq (xs, ys) (\<lambda>_. True)) g"
  using k
proof (induction n arbitrary: l g)
  case 0
  then show ?case by simp
next
  case (Suc n)
  have null: "ok queue_ms_step (\<lambda>_. True) t (Ret (0, l)) (ms.post al t Deq (xs, ys) (\<lambda>_. True)) h"
    if "ms.known t None None xs ys h" for h using that al by (intro ms.post_Ret) auto
  show ?case
    unfolding queue_ms_delete_loop.simps
  proof (rule ok_rd, rule ok_rd, goal_cases)
    case (1 h h1)
    note k1 = ms.known_envs(1) [OF 1(1) Suc.prems]
    note k2 = ms.known_envs(1) [OF 1(2) k1] and a2 = ms.known_envs(2) [OF 1(2) k1]
    let ?d = "fst (head_ms h)" and ?m = "snd (head_ms h)" and ?e = "fst (tail_ms h1)" and ?mt = "snd (tail_ms h1)"
    note H = ms.afterD(1) [OF a2 ms_places(1) [OF k1]] and T = ms_places(2,3) [OF k2]
    have le: "?m \<le> ?mt" using ms.afterD(2) [OF a2, of 0] T(2) by simp
    show ?case
    proof (cases "?d = ?e")
      case True
      show ?thesis unfolding load_next_ms_def
      proof (rule ms.ok_load_next [OF k2 H], goal_cases)
        case (1 h2)
        show ?case unfolding if_P [OF True] if_P [OF refl]
          by (rule ms.ok_read [OF 1(1)], intro ok_if) (use Suc.IH null in blast)+
      next
        case (2 h2 nxt)
        show ?case
        proof (rule ms.ok_read [OF 2(1)], goal_cases)
          case (1 h3)
          have "place (mem_ms h3) 0 ?m ?d" "place (mem_ms h3) 0 (?m + 1) nxt"
            using ms.afterD(1) [OF ms.after_trans [OF 2(2) 1(2)] H] ms.afterD(1) [OF 1(2) 2(4)] by auto
          then show ?case unfolding if_P [OF True] if_not_P [OF 2(3)] True [symmetric]
            by (intro ok_if ok_cas_tail_ms [OF 1(1)]) (use Suc.IH 1(1) in blast)+
        qed
      qed
    next
      case False
      have lt: "?m < ?mt" using le False H T(1) by (cases "?m = ?mt") (auto simp: place_def)
      define nxt where "nxt = links (mem_ms h1) ! 0 ! (?m + 1)"
      have nx: "place (mem_ms h1) 0 (?m + 1) nxt" using T(1) lt by (auto simp: place_def nxt_def)
      have val: "ok queue_ms_step (\<lambda>_. True) t (pbind (wr (\<lambda>g. g\<lparr>mem_ms := qm_free t ?d (mem_ms g)\<rparr>)) (\<lambda>_.
           pbind (rd_opt (\<lambda>g. map_option n_val (heap (nodes (mem_ms g)) nxt))) (\<lambda>val. Ret (val, l))))
          (ms.post al t Deq (xs, ys) (\<lambda>_. True)) h4"
        if k: "ms.known t None (Some ?d) xs (v # ys) h4" "place (mem_ms h4) 0 (?m + 1) nxt" "node_val (nodes (mem_ms h4)) nxt = v" for v h4
      proof (rule ms.ok_free [OF k(1)], goal_cases)
        case (1 h5)
        have p: "place (mem_ms h5) 0 (?m + 1) nxt" by (rule ms.afterD(1) [OF 1(2) k(2)])
        have "nxt \<in> set (allocd (nodes (mem_ms h4)))" using ms.place_node [OF k(1,2)] by metis
        then have "node_val (nodes (mem_ms h5)) nxt = v" using ms.afterD(5) [OF 1(2)] k(3) by simp
        then show ?case by (intro ms.ok_load_val [OF 1(1) p]) (use al in \<open>auto simp del: ok.simps intro!: ms.post_Ret\<close>)
      qed
      show ?thesis unfolding load_next_ms_def
      proof (rule ms.ok_load_next_some [OF k2 H nx], rule ms.ok_read, assumption, goal_cases)
        case (1 h2 h3)
        note a3 = ms.after_trans [OF 1(2,4)]
        have p3: "place (mem_ms h3) 0 ?m ?d" "place (mem_ms h3) 0 (?m + 1) nxt" "?m < snd ([tail_ms h3] ! 0)"
          using ms.afterD(1) [OF a3 H] ms.afterD(1) [OF a3 nx] ms.afterD(3) [OF a3, of 0] lt by auto
        have "ok queue_ms_step (\<lambda>_. True) t (pbind (cas_head_ms ?d nxt (qm_take t ?d nxt)) (\<lambda>success.
             if success then
               pbind (wr (\<lambda>g. g\<lparr>mem_ms := qm_free t ?d (mem_ms g)\<rparr>)) (\<lambda>_.
               pbind (rd_opt (\<lambda>g. map_option n_val (heap (nodes (mem_ms g)) nxt))) (\<lambda>val. Ret (val, l)))
             else queue_ms_delete_loop n t l)) (ms.post al t Deq (xs, ys) (\<lambda>_. True)) h3"
          unfolding cas_head_ms_def
        proof (rule ms.ok_take [OF 1(3) p3], goal_cases)
          case (2 h4)
          have "nxt \<in> set (allocd (nodes (mem_ms h3)))" using ms.place_node [OF 1(3) p3(2)] by metis
          then have "node_val (nodes (mem_ms h4)) nxt = node_val (nodes (mem_ms h3)) nxt" by (rule ms.afterD(5) [OF 2(2)])
          then show ?case using val [OF 2(1)] ms.afterD(1) [OF 2(2) p3(2)] by (simp del: ok.simps)
        qed (use Suc.IH in \<open>auto simp del: ok.simps\<close>)
        then show ?case unfolding if_not_P [OF False] by (intro ok_if) (use Suc.IH [OF 1(3)] in blast)+
      qed
    qed
  qed
qed

interpretation ms_threads: threads queue_ms_step "\<lambda>_. True" queue_ms_inv "queue_ms_call al fuel" "ms.rest al" "\<lambda>_. True" queue_hist for al fuel
proof (unfold_locales, goal_cases)
  case (1 t s g g')
  then show ?case by (rule ms.rest_env)
next
  case (2 t s g l c)
  obtain xs ys where s: "s = (xs, ys)" by (cases s)
  have al: "alloc_fresh al" and k: "ms.known t None None xs ys g" using 2(1) by (simp_all add: ms.rest_def s)
  have "ok queue_ms_step (\<lambda>_. True) t (queue_ms_call al fuel t c l) (ms.post al t c (xs, ys) (\<lambda>_. True)) g"
  proof (cases c)
    case (Enq key val)
    show ?thesis unfolding Enq queue_ms_call_def queue_call.case queue_ms_insert_def queue_new_node_def
      by (rule ms.ok_new_node [OF k al], rule insert_ok_ms [OF al], assumption) simp_all
  next
    case Deq
    show ?thesis unfolding Deq queue_ms_call_def queue_call.case queue_ms_delete_def by (rule delete_ok_ms [OF al k])
  qed
  then show ?case unfolding ms.post_def s .
qed

lemma queue_new_ok:
  assumes "alloc_fresh al"
  shows "queue_ms_inv (queue_new al t0 junk)" "ms.rest al t ([], []) (queue_new al t0 junk)"
proof -
  note S = add_sentinels_ok [OF assms, of t0 junk 1]
  have "length (links (add_sentinels al t0 junk 1)) = 1" by (rule S(2))
  then have m: "map (\<lambda>q. (hd q, 0)) (links (add_sentinels al t0 junk 1)) = [(hd (links (add_sentinels al t0 junk 1) ! 0), 0)]"
    by (intro nth_equalityI) auto
  show i: "queue_ms_inv (queue_new al t0 junk)" using S(1) [unfolded m] by (simp only: queue_ms_inv_def queue_new_def Let_def queue_ms.simps)
  then show "ms.rest al t ([], []) (queue_new al t0 junk)"
    using S(4,5) assms by (simp add: ms.rest_def ms.known_def queue_new_def Let_def pushed_by_def taken_by_def)
qed


section \<open>Running alone\<close>

text \<open>The reference: a queue as a list.\<close>

fun fifo :: "queue_call \<Rightarrow> int list \<Rightarrow> int \<Rightarrow> int list \<Rightarrow> bool" where
  "fifo (Enq key val) xs r ys = (r = 1 \<and> ys = xs @ [val])"
| "fifo Deq [] r ys = (r = 0 \<and> ys = [])"
| "fifo Deq (x # xs) r ys = (r = x \<and> ys = xs)"

fun fifo_results :: "queue_call list \<Rightarrow> int list \<Rightarrow> int list" where
  "fifo_results [] xs = []"
| "fifo_results (Enq key val # cs) xs = 1 # fifo_results cs (xs @ [val])"
| "fifo_results (Deq # cs) [] = 0 # fifo_results cs []"
| "fifo_results (Deq # cs) (x # xs) = x # fifo_results cs xs"

lemma spec_run_fifo: "spec_run fifo cs xs rs ys \<Longrightarrow> rs = fifo_results cs xs"
proof (induction cs xs arbitrary: rs rule: fifo_results.induct)
  case (1 xs)
  then show ?case by (cases rs) auto
qed (case_tac [!] rs, auto)

text \<open>The values behind the sentinel, and a queue no enqueue of which is half done.\<close>

definition values_ms :: "queue_ms \<Rightarrow> int list" where
  "values_ms g = map (node_val (nodes (mem_ms g))) (drop (snd (head_ms g) + 1) (links (mem_ms g) ! 0))"

definition quiet_ms :: "queue_ms \<Rightarrow> bool" where
  "quiet_ms g \<longleftrightarrow> queue_ms_inv g \<and> length (links (mem_ms g) ! 0) = snd (tail_ms g) + 1"

lemma quiet_msD:
  assumes "quiet_ms g"
  shows "queues_ok (mem_ms g) (heads_ms g) (tails_ms g)" "0 < length (links (mem_ms g))" "snd (head_ms g) \<le> snd (tail_ms g)"
    "fst (head_ms g) = links (mem_ms g) ! 0 ! snd (head_ms g)" "fst (tail_ms g) = links (mem_ms g) ! 0 ! snd (tail_ms g)"
    "snd (tail_ms g) < length (links (mem_ms g) ! 0)" "length (links (mem_ms g) ! 0) = snd (tail_ms g) + 1"
proof -
  show ok: "queues_ok (mem_ms g) (heads_ms g) (tails_ms g)" and l: "length (links (mem_ms g) ! 0) = snd (tail_ms g) + 1"
    using assms by (auto simp: quiet_ms_def queue_ms_inv_def)
  show i: "0 < length (links (mem_ms g))" using queues_okD(4) [OF ok] by (cases "links (mem_ms g)") auto
  show "snd (head_ms g) \<le> snd (tail_ms g)" "fst (head_ms g) = links (mem_ms g) ! 0 ! snd (head_ms g)"
    "fst (tail_ms g) = links (mem_ms g) ! 0 ! snd (tail_ms g)" "snd (tail_ms g) < length (links (mem_ms g) ! 0)"
    using queues_okD(6) [OF ok i] by (auto simp: sub_ok_def)
qed

lemma insert_seq_ms:
  assumes q: "quiet_ms g" and al: "alloc_fresh al"
  shows "wp (queue_ms_insert al (Suc n) t key val l) (\<lambda>(r, l') g'. r = 1 \<and> quiet_ms g' \<and> values_ms g' = values_ms g @ [val]) g"
proof -
  let ?m = "mem_ms g" and ?p = "al t (allocd (nodes (mem_ms g)))" and ?nd = "\<lparr>n_key = key, n_val = val, n_next = NULL\<rparr>"
  let ?m1 = "qm_alloc t ?p ?nd ?m" and ?q = "fst (tail_ms g)" and ?k = "snd (tail_ms g)"
  let ?m2 = "qm_link 0 ?q ?p ?m1"
  let ?g = "g\<lparr>mem_ms := ?m2, tail_ms := (?p, ?k + 1)\<rparr>"
  note Q = quiet_msD [OF q]
  have np: "?p \<noteq> NULL" "?p \<notin> set (allocd (nodes ?m))" using al by (auto simp: alloc_fresh_def)
  have new: "?p \<notin> set (hist (nodes ?m))" "?p \<notin> set (concat (links ?m))"
    using np(2) queues_allocd(1) [OF Q(1)] queues_okD(8) [OF Q(1)] by blast+
  have ok1: "queues_ok ?m1 (heads_ms g) (tails_ms g)" by (rule queues_ok_alloc [OF Q(1) np(2,1)])
  have lk1: "links ?m1 = links ?m" "heap (nodes ?m1) ?p = Some ?nd" "mine (nodes ?m1) t ?p"
    using new by (simp_all add: qm_alloc_def mine_def)
  have st: "queue_step t (?m1, heads_ms g, tails_ms g) (?m2, heads_ms g, tails_ms g)"
    using qs_link [of 0 ?m1 "tails_ms g" ?q t ?p ?nd "heads_ms g"] Q lk1 new by simp
  have ok2: "queues_ok ?m2 (heads_ms g) (tails_ms g)" by (rule queue_step_ok [OF st ok1])
  have lk2: "links ?m2 ! 0 = links ?m ! 0 @ [?p]" "0 < length (links ?m2)" using Q(2) lk1 by (simp_all add: qm_link_links)
  have "queues_ok ?m2 (heads_ms g) [(?p, ?k + 1)]"
    using queues_ok_advance [OF ok2 lk2(2)] lk2(1) Q(7) by (simp add: nth_append)
  then have quiet: "quiet_ms ?g" using lk2 Q(7) by (simp add: quiet_ms_def queue_ms_inv_def)
  obtain ndq where ndq: "heap (nodes ?m) ?q = Some ndq" "n_next ndq = NULL"
    using links_null(2) [OF Q(1,2,6)] links_next [OF Q(1,2,6)] Q(5,7) by auto
  have "?q \<noteq> ?p" using np(2) ndq(1) queues_okD(1) [OF Q(1)] by auto
  then have h1: "heap (nodes ?m1) ?q = Some ndq" using ndq by (simp add: qm_alloc_def)
  have nv: "node_val (nodes ?m2) r = node_val (nodes ?m1) r" for r
    using h1 by (auto simp: node_val_def qm_link_def mem_publish_def mem_set_next_def)
  have "node_val (nodes ?m1) r = node_val (nodes ?m) r" if "r \<in> set (links ?m ! 0)" for r
    using that np(2) in_links_set [OF Q(2)] queues_okD(8) [OF Q(1)] by (auto simp: node_val_def qm_alloc_def)
  then have "values_ms ?g = values_ms g @ [val]"
    using Q(3,7) lk1(2) nv lk2(1) by (auto simp: values_ms_def node_val_def dest: in_set_dropD)
  then show ?thesis using quiet h1 ndq(2) \<open>?q \<noteq> ?p\<close>
    by (simp add: queue_ms_insert_def queue_new_node_def load_next_ms_def cas_next_ms_def cas_tail_ms_def)
qed

lemma delete_seq_ms:
  assumes q: "quiet_ms g"
  shows "wp (queue_ms_delete (Suc n) t l) (\<lambda>(r, l') g'. quiet_ms g' \<and> fifo Deq (values_ms g) r (values_ms g')) g"
proof -
  let ?m = "mem_ms g" and ?d = "fst (head_ms g)" and ?k = "snd (head_ms g)"
  note Q = quiet_msD [OF q]
  have kl: "?k < length (links ?m ! 0)" using Q(3,7) by simp
  obtain nd where nd: "heap (nodes ?m) ?d = Some nd" "n_next nd = (if ?k + 1 < length (links ?m ! 0) then links ?m ! 0 ! (?k + 1) else NULL)"
  proof -
    obtain nd where nd: "heap (nodes ?m) ?d = Some nd" using links_null(2) [OF Q(1,2) kl] Q(4) by auto
    note N = links_next [OF Q(1,2) kl, of nd]
    show thesis using that [OF nd] N nd Q(4) kl by (cases "?k + 1 < length (links ?m ! 0)") auto
  qed
  show ?thesis
  proof (cases "?k = snd (tail_ms g)")
    case True
    then have "values_ms g = []" "?d = fst (tail_ms g)" "n_next nd = NULL" using Q(4,5,7) nd(2) by (simp_all add: values_ms_def)
    then show ?thesis using q nd(1) by (simp add: queue_ms_delete_def load_next_ms_def)
  next
    case False
    let ?n = "links ?m ! 0 ! (?k + 1)"
    have lt: "?k + 1 < length (links ?m ! 0)" using False Q(3,7) by simp
    then have nx: "n_next nd = ?n" using nd(2) by simp
    have ne: "?d \<noteq> fst (tail_ms g)" using links_inj [OF Q(1,2) kl Q(6)] Q(4,5) False by auto
    let ?m' = "qm_free t ?d (qm_take t ?d ?n ?m)"
    let ?g = "g\<lparr>head_ms := (?n, ?k + 1), mem_ms := ?m'\<rparr>"
    have "queues_ok (qm_take t ?d ?n ?m) [(?n, ?k + 1)] (tails_ms g)"
    proof -
      have "snd (heads_ms g ! 0) < snd (tails_ms g ! 0)" using False Q(3) by simp
      from queue_step_ok [OF qs_take [OF Q(2) this, of ?k t] Q(1)] show ?thesis by (simp add: Q(4) [symmetric])
    qed
    then have "queues_ok ?m' [(?n, ?k + 1)] (tails_ms g)"
      using queues_ok_free [of "qm_take t ?d ?n ?m" _ _ ?d t] by (simp add: qm_take_def mem_remove_def)
    moreover have lk: "links ?m' = links ?m" "heap (nodes ?m') = heap (nodes ?m)"
      by (simp_all add: qm_free_def qm_take_def mem_free_def mem_remove_def)
    ultimately have quiet: "quiet_ms ?g" using Q(7) by (simp add: quiet_ms_def queue_ms_inv_def)
    have "node_val (nodes ?m') = node_val (nodes ?m)" using lk(2) by (simp add: fun_eq_iff node_val_def)
    then have v: "values_ms g = node_val (nodes ?m) ?n # values_ms ?g"
      using Cons_nth_drop_Suc [OF lt, symmetric] lk(1) unfolding Suc_eq_plus1 by (simp add: values_ms_def)
    obtain ndn where "heap (nodes ?m) ?n = Some ndn" using links_null(2) [OF Q(1,2) lt] by blast
    then show ?thesis using nd(1) nx ne quiet v lk(2)
      by (simp add: queue_ms_delete_def load_next_ms_def cas_head_ms_def node_val_def)
  qed
qed


interpretation ms_calls: budgeted_calls "queue_ms_call al fuel" "\<lambda>_ _ g. alloc_fresh al \<and> 0 < fuel \<and> quiet_ms g" values_ms fifo for al fuel
proof (unfold_locales, goal_cases)
  case (1 n ls g t c)
  then obtain m where m: "fuel = Suc m" by (cases fuel) auto
  show ?case
  proof (cases c)
    case (Enq key val)
    show ?thesis unfolding Enq queue_ms_call_def queue_call.case m by (rule wp_mono [OF insert_seq_ms]) (use 1 in auto)
  next
    case Deq
    show ?thesis unfolding Deq queue_ms_call_def queue_call.case m by (rule wp_mono [OF delete_seq_ms]) (use 1 in auto)
  qed
qed

lemma queue_new_quiet: "alloc_fresh al \<Longrightarrow> quiet_ms (queue_new al t0 junk) \<and> values_ms (queue_new al t0 junk) = []"
proof -
  assume al: "alloc_fresh al"
  have "length (links (add_sentinels al t0 junk 1) ! 0) = 1" using add_sentinels_ok(2,3) [OF al, of t0 junk 1] by simp
  then show ?thesis using queue_new_ok(1) [OF al, of t0 junk] by (simp add: quiet_ms_def values_ms_def queue_new_def Let_def)
qed

section \<open>Properties\<close>

text \<open>
  C17. The Michael-Scott queue is a queue, for calls that do not overlap: any list of inserts and deletes, by any threads, on a new
  queue returns exactly what a list with the same enqueues and dequeues returns, and the queue then has the contents of that list.
\<close>

theorem queue_ms_is_fifo:
  assumes "alloc_fresh al" "0 < fuel" "\<forall>(t, c) \<in> set cs. t < length ls"
  shows "\<exists>ls' g. exec_calls (queue_ms_call al fuel) cs (ls, queue_new al t0 junk) = Some (fifo_results (map snd cs) [], ls', g) \<and>
    spec_run fifo (map snd cs) [] (fifo_results (map snd cs) []) (values_ms g)"
  using ms_calls.exec_calls_returns [of al fuel "queue_new al t0 junk" cs ls] assms queue_new_quiet [OF assms(1), of t0 junk] spec_run_fifo
  by (simp del: split_paired_Ex) blast

theorem queue_ms_is_fifo_witness:
  "\<exists>ls' g. exec_calls (queue_ms_call bump_alloc 1) [(0, Enq 1 10), (1, Enq 2 20), (1, Deq), (0, Deq), (0, Deq)]
      ([(), ()], queue_new bump_alloc 0 \<lparr>n_key = 0, n_val = 0, n_next = 0\<rparr>) = Some ([1, 1, 10, 20, 0], ls', g) \<and>
    spec_run fifo [Enq 1 10, Enq 2 20, Deq, Deq, Deq] [] [1, 1, 10, 20, 0] (values_ms g)"
  using queue_ms_is_fifo [OF bump_alloc_fresh zero_less_one, of "[(0, Enq 1 10), (1, Enq 2 20), (1, Deq), (0, Deq), (0, Deq)]"
    "[(), ()]" 0 "\<lparr>n_key = 0, n_val = 0, n_next = 0\<rparr>"]
  by simp

text \<open>
  C18. The Michael-Scott queue under concurrency. Any number of threads run any lists of inserts and deletes, interleaved at every load,
  store and compare-and-swap, on a new queue. At every moment no thread has followed a null or dangling pointer, the
  queue is a linked list whose tail pointer is at the last or the last but one node and not before the head, and no
  node is freed twice or while a delete can still return it; when all have finished, the values inserted are those deleted and those
  still in the queue.
\<close>

theorem queue_ms_threads_safe:
  assumes al: "alloc_fresh al" and ls: "length ls = length css"
    and run: "pool_reaches (\<lambda>_. True) (client_pool (queue_ms_call al fuel) css ls, queue_new al t0 junk) (ps, g)"
  shows "Fault \<notin> set ps \<and> queue_ms_inv g \<and> distinct (map fst (freed (nodes (mem_ms g)))) \<and>
    fst ` set (freed (nodes (mem_ms g))) \<inter> set (concat (waiting (mem_ms g) (heads_ms g))) = {} \<and>
    (map prog_result ps \<noteq> map Some rss \<or>
     nonnull (mset (concat (map enq_values css))) =
       mset (concat (map (\<lambda>t. deq_values (css ! t) (rss ! t)) [0 ..< length css])) +
       nonnull (image_mset (node_val (nodes (mem_ms g))) (mset (concat (waiting (mem_ms g) (heads_ms g))))))"
proof -
  note p = ms_threads.pool_clients [OF run queue_new_ok(2) [OF al] ls _ queue_new_ok(1) [OF al]]
  have inv: "queue_ms_inv g" "Fault \<notin> set ps" using p(1) by auto
  have "nonnull (mset (concat (map enq_values css))) =
       mset (concat (map (\<lambda>t. deq_values (css ! t) (rss ! t)) [0 ..< length css])) +
       nonnull (image_mset (node_val (nodes (mem_ms g))) (mset (concat (waiting (mem_ms g) (heads_ms g)))))"
    if "map prog_result ps = map Some rss"
    using ms.histories [OF inv(1) p(2) [OF _ that] p(3)] by simp
  then show ?thesis using inv queues_ok_freed [of "mem_ms g" "heads_ms g" "tails_ms g"] unfolding queue_ms_inv_def by blast
qed

definition demo_run_ms :: "(queue_ms, int list) prog list \<times> queue_ms" where
  "demo_run_ms = sched (\<lambda>_. True) (concat (replicate 20 [0, 1]))
     (client_pool (queue_ms_call bump_alloc 4) [[Enq 1 10, Deq], [Enq 2 20]] [(), ()],
      queue_new bump_alloc 0 \<lparr>n_key = 0, n_val = 0, n_next = 0\<rparr>)"

theorem queue_ms_threads_safe_witness:
  "Fault \<notin> set (fst demo_run_ms) \<and> queue_ms_inv (snd demo_run_ms) \<and> map prog_result (fst demo_run_ms) = map Some [[1, 10], [1]] \<and>
   nonnull (mset (concat (map enq_values [[Enq 1 10, Deq], [Enq 2 20]]))) =
     mset (concat (map (\<lambda>t. deq_values ([[Enq 1 10, Deq], [Enq 2 20]] ! t) ([[1, 10], [1]] ! t)) [0 ..< length [[Enq 1 10, Deq], [Enq 2 20]]])) +
     nonnull (image_mset (node_val (nodes (mem_ms (snd demo_run_ms)))) (mset (concat (waiting (mem_ms (snd demo_run_ms)) (heads_ms (snd demo_run_ms))))))"
proof -
  have r: "map prog_result (fst demo_run_ms) = map Some [[1, 10], [1]]"
    by (simp add: demo_run_ms_def client_pool_def prog_unfold upt_rec cong: eval_cong)
  have "pool_reaches (\<lambda>_. True) (client_pool (queue_ms_call bump_alloc 4) [[Enq 1 10, Deq], [Enq 2 20]] [(), ()],
      queue_new bump_alloc 0 \<lparr>n_key = 0, n_val = 0, n_next = 0\<rparr>) (fst demo_run_ms, snd demo_run_ms)"
    unfolding demo_run_ms_def prod.collapse by (rule sched_reaches)
  from queue_ms_threads_safe [OF bump_alloc_fresh _ this, of "[[1, 10], [1]]"] r show ?thesis by (auto simp: filter_filter_mset)
qed

end
