(* ===== verification/Choice_Queues.thy ===== *)
theory Choice_Queues
  imports Queue_Threads Thread_Random
begin

text \<open>
  The two relaxed queues that pick a sub-queue by random choice: \<^verbatim>\<open>src/queue-dra/queue-dra.c\<close> and
  \<^verbatim>\<open>src/multi-queue_random-relaxed/multi-queue_random-relaxed.c\<close>. The files differ in the stamp of a new node (its
  number in the sub-queue, or the processor's tick counter), so the loops are defined once, over the
  stamp rule. With \<^verbatim>\<open>NUM_CHOICES\<close> an operation looks at that many random sub-queues (\<open>Some c\<close>), without it
  at one (\<open>None\<close>).

  An entry of the two arrays is a node pointer with, as ghost, the number of the node; a compare-and-exchange compares
  the pointer alone. Node stamps are a function beside the node memory; those of the sentinels are never set.
\<close>

section \<open>State\<close>

record cqueue =
  get_cq :: tops
  put_cq :: tops
  mem_cq :: queue_mem
  stamp_cq :: "ptr \<Rightarrow> u64"

record cqtl = tls +
  tick_reads_cq :: nat

section \<open>Choosing a sub-queue\<close>

definition random_index_cq :: "nat \<Rightarrow> cqtl \<Rightarrow> (cqueue, nat \<times> cqtl) prog" where
  "random_index_cq w l = random_mod w l"

definition load_node_cq :: "(cqueue \<Rightarrow> tops) \<Rightarrow> nat \<Rightarrow> (cqueue, ptr) prog" where
  "load_node_cq arr i = rd_opt (\<lambda>g. map_option fst (at (arr g) i))"

definition load_next_cq :: "ptr \<Rightarrow> (cqueue, ptr) prog" where
  "load_next_cq p = rd_opt (\<lambda>g. map_option n_next (heap (nodes (mem_cq g)) p))"

definition load_stamp_cq :: "ptr \<Rightarrow> (cqueue, u64) prog" where
  "load_stamp_cq p = rd_opt (\<lambda>g. map_option (\<lambda>_. stamp_cq g p) (heap (nodes (mem_cq g)) p))"

fun get_enqueue_index_loop :: "nat \<Rightarrow> nat \<Rightarrow> nat \<Rightarrow> ptr \<Rightarrow> cqtl \<Rightarrow> (cqueue, (ptr \<times> nat) \<times> cqtl) prog" where
  "get_enqueue_index_loop 0 w index node l = Ret ((node, index), l)"
| "get_enqueue_index_loop (Suc n) w index node l =
     pbind (random_index_cq w l) (\<lambda>(index2, l).
     pbind (load_node_cq put_cq index2) (\<lambda>node2.
     if node2 = NULL then Ret ((node2, index2), l)
     else pbind (load_stamp_cq node2) (\<lambda>s2.
          pbind (load_stamp_cq node) (\<lambda>s.
          if s2 < s then get_enqueue_index_loop n w index2 node2 l
          else get_enqueue_index_loop n w index node l))))"

definition get_enqueue_index :: "nat \<Rightarrow> nat \<Rightarrow> cqtl \<Rightarrow> (cqueue, (ptr \<times> nat) \<times> cqtl) prog" where
  "get_enqueue_index c w l =
     pbind (random_index_cq w l) (\<lambda>(index, l).
     pbind (load_node_cq put_cq index) (\<lambda>node.
     if node = NULL then Ret ((node, index), l)
     else get_enqueue_index_loop (c - 1) w index node l))"

fun get_dequeue_index_loop :: "nat \<Rightarrow> nat \<Rightarrow> nat \<Rightarrow> ptr \<Rightarrow> cqtl \<Rightarrow> (cqueue, (ptr \<times> nat) \<times> cqtl) prog" where
  "get_dequeue_index_loop 0 w index node l = Ret ((node, index), l)"
| "get_dequeue_index_loop (Suc n) w index node l =
     pbind (random_index_cq w l) (\<lambda>(index2, l).
     pbind (load_node_cq get_cq index2) (\<lambda>node2.
     pbind (load_next_cq node) (\<lambda>nxt.
     if nxt = NULL then get_dequeue_index_loop n w index2 node2 l
     else pbind (load_next_cq node2) (\<lambda>nxt2.
          if nxt2 = NULL then get_dequeue_index_loop n w index node l
          else pbind (load_stamp_cq node2) (\<lambda>s2.
               pbind (load_stamp_cq node) (\<lambda>s.
               if s2 < s then get_dequeue_index_loop n w index2 node2 l
               else get_dequeue_index_loop n w index node l))))))"

definition get_dequeue_index :: "nat \<Rightarrow> nat \<Rightarrow> cqtl \<Rightarrow> (cqueue, (ptr \<times> nat) \<times> cqtl) prog" where
  "get_dequeue_index c w l =
     pbind (random_index_cq w l) (\<lambda>(index, l).
     pbind (load_node_cq get_cq index) (\<lambda>node.
     get_dequeue_index_loop (c - 1) w index node l))"

definition pick_index_cq :: "(nat \<Rightarrow> nat \<Rightarrow> cqtl \<Rightarrow> (cqueue, (ptr \<times> nat) \<times> cqtl) prog) \<Rightarrow> (cqueue \<Rightarrow> tops) \<Rightarrow> nat option \<Rightarrow> nat \<Rightarrow> cqtl \<Rightarrow>
  (cqueue, (ptr \<times> nat) \<times> cqtl) prog" where
  "pick_index_cq get arr ch w l =
     (case ch of
        Some c \<Rightarrow> get c w l
      | None \<Rightarrow> pbind (random_index_cq w l) (\<lambda>(index, l). pbind (load_node_cq arr index) (\<lambda>node. Ret ((node, index), l))))"

section \<open>Operations\<close>

definition create_node_cq :: "allocator \<Rightarrow> nat \<Rightarrow> int \<Rightarrow> int \<Rightarrow> ptr \<Rightarrow> (cqueue, ptr) prog" where
  "create_node_cq al t key val nxt =
     Act (\<lambda>g. g\<lparr>mem_cq := qm_alloc t (al t (allocd (nodes (mem_cq g)))) \<lparr>n_key = key, n_val = val, n_next = nxt\<rparr> (mem_cq g)\<rparr>)
         (\<lambda>g. Ret (al t (allocd (nodes (mem_cq g)))))"

definition enq_cae_cq :: "nat \<Rightarrow> ptr \<Rightarrow> ptr \<Rightarrow> (cqueue, bool) prog" where
  "enq_cae_cq i tail new_node =
     Act (\<lambda>g. if map_option n_next (heap (nodes (mem_cq g)) tail) = Some NULL
              then g\<lparr>mem_cq := qm_link i tail new_node (mem_cq g)\<rparr> else g)
         (\<lambda>g. case heap (nodes (mem_cq g)) tail of None \<Rightarrow> Fault | Some nd \<Rightarrow> Ret (n_next nd = NULL))"

definition put_cas_cq :: "nat \<Rightarrow> ptr \<Rightarrow> ptr \<Rightarrow> (cqueue, bool) prog" where
  "put_cas_cq i old new =
     Act (\<lambda>g. if map_option fst (at (put_cq g) i) = Some old
              then g\<lparr>put_cq := (put_cq g)[i := (new, snd (put_cq g ! i) + 1)]\<rparr> else g)
         (\<lambda>g. Ret (map_option fst (at (put_cq g) i) = Some old))"

definition deq_cae_cq :: "nat \<Rightarrow> ptr \<Rightarrow> ptr \<Rightarrow> (queue_mem \<Rightarrow> queue_mem) \<Rightarrow> (cqueue, bool) prog" where
  "deq_cae_cq i old new ghost =
     Act (\<lambda>g. if map_option fst (at (get_cq g) i) = Some old
              then g\<lparr>get_cq := (get_cq g)[i := (new, snd (get_cq g ! i) + 1)], mem_cq := ghost (mem_cq g)\<rparr> else g)
         (\<lambda>g. Ret (map_option fst (at (get_cq g) i) = Some old))"

definition stamp_count :: "ptr \<Rightarrow> cqtl \<Rightarrow> (cqueue, u64 \<times> cqtl) prog" where
  "stamp_count tail l = pbind (load_stamp_cq tail) (\<lambda>s. Ret (add64 s 1, l))"

definition stamp_ticks_cq :: "(nat \<Rightarrow> u64) \<Rightarrow> ptr \<Rightarrow> cqtl \<Rightarrow> (cqueue, u64 \<times> cqtl) prog" where
  "stamp_ticks_cq clock tail l = Ret (clock (tick_reads_cq l), l\<lparr>tick_reads_cq := tick_reads_cq l + 1\<rparr>)"

fun enqueue_loop_cq :: "(ptr \<Rightarrow> cqtl \<Rightarrow> (cqueue, u64 \<times> cqtl) prog) \<Rightarrow> nat option \<Rightarrow> nat \<Rightarrow> nat \<Rightarrow> ptr \<Rightarrow> cqtl \<Rightarrow> (cqueue, int \<times> cqtl) prog" where
  "enqueue_loop_cq st ch w 0 new_node l = NoFuel"
| "enqueue_loop_cq st ch w (Suc n) new_node l =
     pbind (pick_index_cq get_enqueue_index put_cq ch w l) (\<lambda>((tail, index), l).
     pbind (st tail l) (\<lambda>(s, l).
     pbind (wr (\<lambda>g. g\<lparr>stamp_cq := (stamp_cq g)(new_node := s)\<rparr>)) (\<lambda>_.
     let fail_l = l\<lparr>my_put_cas_fail_count := add64 (my_put_cas_fail_count l) 1\<rparr>
     in pbind (load_next_cq tail) (\<lambda>nxt.
        if nxt = NULL then
          pbind (enq_cae_cq index tail new_node) (\<lambda>success.
          if success then pbind (put_cas_cq index tail new_node) (\<lambda>_. Ret (1, l))
          else enqueue_loop_cq st ch w n new_node fail_l)
        else
          pbind (load_next_cq tail) (\<lambda>nxt.
          pbind (put_cas_cq index tail nxt) (\<lambda>_. enqueue_loop_cq st ch w n new_node fail_l))))))"

fun dequeue_loop_cq :: "nat option \<Rightarrow> nat \<Rightarrow> nat \<Rightarrow> nat \<Rightarrow> cqtl \<Rightarrow> (cqueue, int \<times> cqtl) prog" where
  "dequeue_loop_cq ch w 0 t l = NoFuel"
| "dequeue_loop_cq ch w (Suc n) t l =
     pbind (pick_index_cq get_dequeue_index get_cq ch w l) (\<lambda>((head, index), l).
     pbind (load_node_cq put_cq index) (\<lambda>tail.
     if head = tail then
       pbind (load_next_cq head) (\<lambda>nxt.
       if nxt = NULL then Ret (0, l\<lparr>my_null_count := add64 (my_null_count l) 1\<rparr>)
       else
         pbind (load_next_cq tail) (\<lambda>nxt.
         pbind (put_cas_cq index tail nxt) (\<lambda>_. dequeue_loop_cq ch w n t l)))
     else
       pbind (load_next_cq head) (\<lambda>nxt.
       pbind (deq_cae_cq index head nxt (qm_take t head nxt)) (\<lambda>success.
       if success then
         pbind (load_next_cq head) (\<lambda>nxt.
         pbind (rd_opt (\<lambda>g. map_option n_val (heap (nodes (mem_cq g)) nxt))) (\<lambda>val.
         pbind (wr (\<lambda>g. g\<lparr>mem_cq := qm_free t head (mem_cq g)\<rparr>)) (\<lambda>_. Ret (val, l))))
       else dequeue_loop_cq ch w n t l))))"

definition enqueue_dra :: "nat option \<Rightarrow> allocator \<Rightarrow> nat \<Rightarrow> nat \<Rightarrow> nat \<Rightarrow> int \<Rightarrow> int \<Rightarrow> cqtl \<Rightarrow> (cqueue, int \<times> cqtl) prog" where
  "enqueue_dra ch al fuel w t key val l =
     pbind (create_node_cq al t key val NULL) (\<lambda>new_node. enqueue_loop_cq stamp_count ch w fuel new_node l)"

definition dequeue_dra :: "nat option \<Rightarrow> nat \<Rightarrow> nat \<Rightarrow> nat \<Rightarrow> cqtl \<Rightarrow> (cqueue, int \<times> cqtl) prog" where
  "dequeue_dra ch fuel w t l = dequeue_loop_cq ch w fuel t l"

definition create_queue_dra :: "allocator \<Rightarrow> nat \<Rightarrow> mnode \<Rightarrow> (ptr \<Rightarrow> u64) \<Rightarrow> u64 \<Rightarrow> u64 \<Rightarrow> u64 \<Rightarrow> cqueue" where
  "create_queue_dra al t junk stamps num_threads w relaxation_bound =
     (let m = add_sentinels al t junk w;
          arr = map (\<lambda>q. (hd q, 0)) (links m)
      in \<lparr>get_cq = arr, put_cq = arr, mem_cq = m, stamp_cq = stamps\<rparr>)"

fun size_walk_cq :: "nat \<Rightarrow> ptr \<Rightarrow> u64 \<Rightarrow> (cqueue, u64) prog" where
  "size_walk_cq 0 node sz = NoFuel"
| "size_walk_cq (Suc n) node sz =
     pbind (load_next_cq node) (\<lambda>nxt.
     if nxt \<noteq> NULL then pbind (load_next_cq node) (\<lambda>node. size_walk_cq n node (add64 sz 1)) else Ret sz)"

fun queue_size_loop_cq :: "nat \<Rightarrow> nat list \<Rightarrow> u64 \<Rightarrow> (cqueue, u64) prog" where
  "queue_size_loop_cq fuel [] sz = Ret sz"
| "queue_size_loop_cq fuel (i # is) sz =
     pbind (load_node_cq get_cq i) (\<lambda>node. pbind (size_walk_cq fuel node sz) (\<lambda>sz. queue_size_loop_cq fuel is sz))"

definition queue_size_dra :: "nat \<Rightarrow> nat \<Rightarrow> (cqueue, u64) prog" where
  "queue_size_dra fuel w = queue_size_loop_cq fuel [0 ..< w] 0"

text \<open>The operations of the multi-queue. Its other functions have the text of those above.\<close>

definition enqueue_multi :: "(nat \<Rightarrow> u64) \<Rightarrow> nat option \<Rightarrow> allocator \<Rightarrow> nat \<Rightarrow> nat \<Rightarrow> nat \<Rightarrow> int \<Rightarrow> int \<Rightarrow> cqtl \<Rightarrow> (cqueue, int \<times> cqtl) prog" where
  "enqueue_multi clock ch al fuel w t key val l =
     pbind (create_node_cq al t key val NULL) (\<lambda>new_node. enqueue_loop_cq (stamp_ticks_cq clock) ch w fuel new_node l)"

definition dequeue_multi :: "nat option \<Rightarrow> nat \<Rightarrow> nat \<Rightarrow> nat \<Rightarrow> cqtl \<Rightarrow> (cqueue, int \<times> cqtl) prog" where
  "dequeue_multi ch fuel w t l = dequeue_loop_cq ch w fuel t l"

definition create_queue_multi :: "allocator \<Rightarrow> nat \<Rightarrow> mnode \<Rightarrow> (ptr \<Rightarrow> u64) \<Rightarrow> u64 \<Rightarrow> u64 \<Rightarrow> u64 \<Rightarrow> cqueue" where
  "create_queue_multi al t junk stamps num_threads w relaxation_bound =
     (let m = add_sentinels al t junk w;
          arr = map (\<lambda>q. (hd q, 0)) (links m)
      in \<lparr>get_cq = arr, put_cq = arr, mem_cq = m, stamp_cq = stamps\<rparr>)"

definition queue_size_multi :: "nat \<Rightarrow> nat \<Rightarrow> (cqueue, u64) prog" where
  "queue_size_multi fuel w = queue_size_loop_cq fuel [0 ..< w] 0"

definition dra_queue_call :: "nat option \<Rightarrow> allocator \<Rightarrow> nat \<Rightarrow> nat \<Rightarrow> nat \<Rightarrow> queue_call \<Rightarrow> cqtl \<Rightarrow> (cqueue, int \<times> cqtl) prog" where
  "dra_queue_call ch al fuel w t c l = (case c of Enq key val \<Rightarrow> enqueue_dra ch al fuel w t key val l | Deq \<Rightarrow> dequeue_dra ch fuel w t l)"

definition multi_queue_call :: "(nat \<Rightarrow> nat \<Rightarrow> u64) \<Rightarrow> nat option \<Rightarrow> allocator \<Rightarrow> nat \<Rightarrow> nat \<Rightarrow> nat \<Rightarrow> queue_call \<Rightarrow> cqtl \<Rightarrow> (cqueue, int \<times> cqtl) prog" where
  "multi_queue_call clock ch al fuel w t c l =
     (case c of Enq key val \<Rightarrow> enqueue_multi (clock t) ch al fuel w t key val l | Deq \<Rightarrow> dequeue_multi ch fuel w t l)"

lemmas choice_queue_unfold [prog_unfold] =
  random_index_cq_def load_node_cq_def load_next_cq_def load_stamp_cq_def get_enqueue_index_def get_dequeue_index_def pick_index_cq_def
  create_node_cq_def enq_cae_cq_def put_cas_cq_def deq_cae_cq_def stamp_count_def stamp_ticks_cq_def enqueue_dra_def dequeue_dra_def
  create_queue_dra_def queue_size_dra_def enqueue_multi_def dequeue_multi_def create_queue_multi_def queue_size_multi_def
  dra_queue_call_def multi_queue_call_def
  get_enqueue_index_loop.simps(2) [of "pred_numeral k" for k, folded numeral_eq_Suc]
  get_dequeue_index_loop.simps(2) [of "pred_numeral k" for k, folded numeral_eq_Suc]
  enqueue_loop_cq.simps(2) [of _ _ _ "pred_numeral k" for k, folded numeral_eq_Suc]
  dequeue_loop_cq.simps(2) [of _ _ "pred_numeral k" for k, folded numeral_eq_Suc]
  size_walk_cq.simps(2) [of "pred_numeral k" for k, folded numeral_eq_Suc]

section \<open>The protocol\<close>

definition choice_queue_inv :: "nat \<Rightarrow> cqueue \<Rightarrow> bool" where
  "choice_queue_inv w g \<longleftrightarrow> 0 < w \<and> length (links (mem_cq g)) = w \<and> queues_ok (mem_cq g) (get_cq g) (put_cq g)"

definition choice_queue_step :: "cqueue protocol" where
  "choice_queue_step t g g' \<longleftrightarrow> mem_cq g' = mem_cq g \<and> get_cq g' = get_cq g \<and> put_cq g' = put_cq g \<or>
     queue_step t (mem_cq g, get_cq g, put_cq g) (mem_cq g', get_cq g', put_cq g')"

interpretation cq: queue_protocol choice_queue_step "\<lambda>_. True" "choice_queue_inv w" mem_cq "\<lambda>m g. g\<lparr>mem_cq := m\<rparr>" get_cq put_cq "\<lambda>_ _. True" for w
  by unfold_locales (auto simp: choice_queue_inv_def choice_queue_step_def dest: queue_step_ok queue_step_mono(5))

section \<open>Under interference\<close>

text \<open>A node pointer loaded from an entry of an array: a node of the sub-queue at or before the present one.\<close>

definition loaded_cq :: "(cqueue \<Rightarrow> tops) \<Rightarrow> nat \<Rightarrow> ptr \<Rightarrow> cqueue \<Rightarrow> bool" where
  "loaded_cq arr i p g \<longleftrightarrow> (\<exists>k. place (mem_cq g) i k p \<and> k \<le> snd (arr g ! i))"

lemma loaded_after:
  assumes "cq.after g h" "loaded_cq arr i p g" "arr = get_cq \<or> arr = put_cq"
  shows "loaded_cq arr i p h"
proof -
  obtain k where k: "place (mem_cq g) i k p" "k \<le> snd (arr g ! i)" using assms(2) by (auto simp: loaded_cq_def)
  have "snd (arr g ! i) \<le> snd (arr h ! i)" using cq.afterD(2,3) [OF assms(1)] assms(3) by auto
  then show ?thesis using cq.afterD(1) [OF assms(1) k(1)] k(2) order_trans unfolding loaded_cq_def by blast
qed

lemma ok_load_node:
  assumes k: "cq.known w t po fo xs ys g" and i: "i < w" and arr: "arr = get_cq \<or> arr = put_cq"
    and go: "\<And>h p. cq.known w t po fo xs ys h \<Longrightarrow> cq.after g h \<Longrightarrow> loaded_cq arr i p h \<Longrightarrow>
      (arr = put_cq \<longrightarrow> (\<exists>k. place (mem_cq h) i k p \<and> k \<le> snd (put_cq h ! i) \<and> snd (get_cq g ! i) \<le> k)) \<Longrightarrow>
      ok choice_queue_step (\<lambda>_. True) t (f p) Q h"
  shows "ok choice_queue_step (\<lambda>_. True) t (pbind (load_node_cq arr i) f) Q g"
  unfolding load_node_cq_def
proof (rule ok_rd_opt, goal_cases)
  case (1 h)
  note k1 = cq.known_envs(1) [OF 1 k] and a1 = cq.known_envs(2) [OF 1 k]
  have l: "i < length (links (mem_cq h))" using cq.knownD(1) [OF k1] i by (simp add: choice_queue_inv_def)
  note E = cq.ends_place [OF cq.knownD(1) [OF k1] l]
  have "at (arr h) i = Some (arr h ! i)" using arr E(5,6) l by (auto simp: at_eq_Some)
  moreover have "loaded_cq arr i (fst (arr h ! i)) h" using arr E(1,2) by (auto simp: loaded_cq_def)
  moreover have "arr = put_cq \<longrightarrow> (\<exists>k. place (mem_cq h) i k (fst (arr h ! i)) \<and> k \<le> snd (put_cq h ! i) \<and> snd (get_cq g ! i) \<le> k)"
    using E(2,3) cq.afterD(2) [OF a1, of i] order_trans by blast
  ultimately show ?case using go [OF k1 a1] by simp
qed

lemma ok_load_stamp_cq:
  assumes k: "cq.known w t po fo xs ys g" and p: "loaded_cq arr i p g"
    and go: "\<And>h s. cq.known w t po fo xs ys h \<Longrightarrow> cq.after g h \<Longrightarrow> ok choice_queue_step (\<lambda>_. True) t (f s) Q h"
  shows "ok choice_queue_step (\<lambda>_. True) t (pbind (load_stamp_cq p) f) Q g"
  unfolding load_stamp_cq_def
proof (rule ok_rd_opt, goal_cases)
  case (1 h)
  note k1 = cq.known_envs(1) [OF 1 k] and a1 = cq.known_envs(2) [OF 1 k]
  obtain m where "place (mem_cq g) i m p" using p by (auto simp: loaded_cq_def)
  then obtain nd where "heap (nodes (mem_cq h)) p = Some nd" using cq.place_node [OF k1 cq.afterD(1) [OF a1]] by metis
  then show ?case using go [OF k1 a1] by auto
qed

lemma ok_peek_next:
  assumes k: "cq.known w t po fo xs ys g" and p: "loaded_cq arr i p g"
    and go: "\<And>h s. cq.known w t po fo xs ys h \<Longrightarrow> cq.after g h \<Longrightarrow> ok choice_queue_step (\<lambda>_. True) t (f s) Q h"
  shows "ok choice_queue_step (\<lambda>_. True) t (pbind (load_next_cq p) f) Q g"
  using p go unfolding load_next_cq_def loaded_cq_def by (auto simp del: ok.simps intro!: cq.ok_load_next [OF k])

lemma ok_random_index_cq:
  assumes k: "cq.known w t po fo xs ys g" and go: "\<And>i s. i < w \<Longrightarrow> ok choice_queue_step (\<lambda>_. True) t (f (i, l\<lparr>seeds := s\<rparr>)) Q g"
  shows "ok choice_queue_step (\<lambda>_. True) t (pbind (random_index_cq w l) f) Q g"
  unfolding random_index_cq_def by (rule ok_random_mod) (use cq.knownD(1) [OF k] go in \<open>auto simp: choice_queue_inv_def\<close>)

definition chosen_cq :: "(cqueue \<Rightarrow> tops) \<Rightarrow> nat \<Rightarrow> nat \<Rightarrow> (ptr \<times> mnode) option \<Rightarrow> int list \<Rightarrow> int list \<Rightarrow> (ptr \<times> nat) \<times> cqtl \<Rightarrow> cqueue \<Rightarrow> bool" where
  "chosen_cq arr w t po xs ys = (\<lambda>((p, i), l) h. cq.known w t po None xs ys h \<and> i < w \<and> loaded_cq arr i p h)"

lemma ok_chosen_cq:
  assumes "cq.known w t po None xs ys g" "i < w" "loaded_cq arr i p g" "arr = get_cq \<or> arr = put_cq"
  shows "ok choice_queue_step (\<lambda>_. True) t (Ret ((p, i), l)) (chosen_cq arr w t po xs ys) g"
proof (rule ok_Ret)
  fix h
  assume "env choice_queue_step (\<lambda>_. True) t g h"
  from cq.known_envs [OF this assms(1)] show "chosen_cq arr w t po xs ys ((p, i), l) h"
    using assms(2-4) loaded_after by (auto simp: chosen_cq_def)
qed

lemma enqueue_index_loop_ok:
  assumes "cq.known w t po None xs ys g" "i < w" "loaded_cq put_cq i p g"
  shows "ok choice_queue_step (\<lambda>_. True) t (get_enqueue_index_loop n w i p l) (chosen_cq put_cq w t po xs ys) g"
  using assms
proof (induction n arbitrary: i p l g)
  case 0
  then show ?case by (simp add: ok_chosen_cq del: ok.simps)
next
  case (Suc n)
  show ?case
    unfolding get_enqueue_index_loop.simps
  proof (rule ok_random_index_cq [OF Suc.prems(1)], unfold prod.case, rule ok_load_node [OF Suc.prems(1)], assumption, simp, goal_cases)
    case (1 i2 s h p2)
    note p1 = loaded_after [OF 1(3) Suc.prems(3)]
    show ?case
    proof (rule ok_if, goal_cases)
      case 1
      show ?case by (rule ok_chosen_cq) (use \<open>cq.known w t po None xs ys h\<close> \<open>i2 < w\<close> \<open>loaded_cq put_cq i2 p2 h\<close> in auto)
    next
      case 2
      show ?case
      proof (rule ok_load_stamp_cq [OF 1(2,4)], rule ok_load_stamp_cq [OF _ loaded_after [OF _ p1]], assumption, assumption, simp, simp, goal_cases)
        case (1 h2 s2 h3 s3)
        have "loaded_cq put_cq i p h3" "loaded_cq put_cq i2 p2 h3"
          using loaded_after [OF cq.after_trans [OF 1(2,4)]] p1 \<open>loaded_cq put_cq i2 p2 h\<close> by blast+
        then show ?case using Suc.IH [OF 1(3)] \<open>i2 < w\<close> Suc.prems(2) by (intro ok_if) blast+
      qed
    qed
  qed
qed


lemma dequeue_index_loop_ok:
  assumes "cq.known w t po None xs ys g" "i < w" "loaded_cq get_cq i p g"
  shows "ok choice_queue_step (\<lambda>_. True) t (get_dequeue_index_loop n w i p l) (chosen_cq get_cq w t po xs ys) g"
  using assms
proof (induction n arbitrary: i p l g)
  case 0
  then show ?case by (simp add: ok_chosen_cq del: ok.simps)
next
  case (Suc n)
  show ?case
    unfolding get_dequeue_index_loop.simps
  proof (rule ok_random_index_cq [OF Suc.prems(1)], unfold prod.case, rule ok_load_node [OF Suc.prems(1)], assumption, simp, goal_cases)
    case (1 i2 s h p2)
    note p1 = loaded_after [OF 1(3) Suc.prems(3) disjI1 [OF refl]] and i2 = 1(1) and p2 = 1(4)
    have both: "loaded_cq get_cq i p h'" "loaded_cq get_cq i2 p2 h'" if "cq.after h h'" for h'
      using loaded_after [OF that] p1 p2 by blast+
    have IH: "ok choice_queue_step (\<lambda>_. True) t (get_dequeue_index_loop n w j q l') (chosen_cq get_cq w t po xs ys) h'"
      if "cq.known w t po None xs ys h'" "cq.after h h'" "j = i \<and> q = p \<or> j = i2 \<and> q = p2" for h' j q l'
      using that Suc.IH [OF that(1)] both [OF that(2)] Suc.prems(2) i2 by blast
    show ?case
    proof (rule ok_peek_next [OF 1(2) p1], goal_cases)
      case (1 h2 nxt)
      note a2 = 1(2)
      show ?case
      proof (rule ok_if, goal_cases)
        case 1
        show ?case using IH a2 \<open>cq.known w t po None xs ys h2\<close> by blast
      next
        case 2
        show ?case
        proof (rule ok_peek_next [OF 1(1) both(2) [OF a2]], goal_cases)
          case (1 h3 nxt2)
          note a3 = cq.after_trans [OF a2 1(2)]
          show ?case
          proof (rule ok_if, goal_cases)
            case 1
            show ?case using IH a3 \<open>cq.known w t po None xs ys h3\<close> by blast
          next
            case 2
            show ?case
            proof (rule ok_load_stamp_cq [OF 1(1) both(2) [OF a3]], rule ok_load_stamp_cq, assumption, rule both(1), erule cq.after_trans [OF a3], goal_cases)
              case (1 h4 s2 h5 s3)
              show ?case by (rule ok_if) (use IH 1(3) cq.after_trans [OF cq.after_trans [OF a3 1(2)] 1(4)] in blast)+
            qed
          qed
        qed
      qed
    qed
  qed
qed

lemma pick_index_cq_ok:
  assumes k: "cq.known w t po None xs ys g"
  shows "ok choice_queue_step (\<lambda>_. True) t (pick_index_cq get_enqueue_index put_cq ch w l) (chosen_cq put_cq w t po xs ys) g"
    and "ok choice_queue_step (\<lambda>_. True) t (pick_index_cq get_dequeue_index get_cq ch w l) (chosen_cq get_cq w t po xs ys) g"
  unfolding pick_index_cq_def get_enqueue_index_def get_dequeue_index_def
  by (cases ch; auto simp del: ok.simps intro!: ok_random_index_cq [OF k] ok_load_node [OF k] ok_chosen_cq enqueue_index_loop_ok
      dequeue_index_loop_ok)+

lemma ok_put_cas_cq:
  assumes k: "cq.known w t po fo xs ys g" and p: "place (mem_cq g) i k d" "place (mem_cq g) i (k + 1) nxt"
    and go: "\<And>h b. cq.known w t po fo xs ys h \<Longrightarrow> ok choice_queue_step (\<lambda>_. True) t (f b) Q h"
  shows "ok choice_queue_step (\<lambda>_. True) t (pbind (put_cas_cq i d nxt) f) Q g"
  unfolding put_cas_cq_def by (rule cq.ok_advance [OF k p]) (use go in \<open>auto simp: at_eq_Some\<close>)

text \<open>The contract of a stamp rule: it reads, and changes nothing but the thread's own variables.\<close>

locale queue_stamp_rule =
  fixes st :: "ptr \<Rightarrow> cqtl \<Rightarrow> (cqueue, u64 \<times> cqtl) prog"
  assumes st_ok: "cq.known w t po fo xs ys g \<Longrightarrow> loaded_cq put_cq i p g \<Longrightarrow>
    ok choice_queue_step (\<lambda>_. True) t (st p l) (\<lambda>_ h. cq.known w t po fo xs ys h \<and> cq.after g h) g"
begin

lemma enqueue_ok:
  assumes al: "alloc_fresh al" and k: "cq.known w t (Some (q, nd)) None xs ys g" and nd: "n_next nd = NULL" "n_val nd = val"
  shows "ok choice_queue_step (\<lambda>_. True) t (enqueue_loop_cq st ch w n q l) (cq.post w al t (Enq key val) (xs, ys) (\<lambda>_. True)) g"
  using k
proof (induction n arbitrary: l g)
  case 0
  then show ?case by simp
next
  case (Suc n)
  show ?case
    unfolding enqueue_loop_cq.simps
  proof (rule ok_bind_mono [OF pick_index_cq_ok(1) [OF Suc.prems]], clarify, goal_cases)
    case (1 p i l' h)
    have k1: "cq.known w t (Some (q, nd)) None xs ys h" and p: "loaded_cq put_cq i p h" using 1 by (auto simp: chosen_cq_def)
    show ?case
    proof (rule ok_bind_mono [OF st_ok [OF k1 p]], clarify, rule ok_wr, goal_cases)
      case (1 s l2 h2 h3)
      note k3 = cq.known_envs(1) [OF 1(3) 1(1)] and a3 = cq.after_trans [OF 1(2) cq.known_envs(2) [OF 1(3) 1(1)]]
      let ?h = "h3\<lparr>stamp_cq := (stamp_cq h3)(q := s)\<rparr>"
      have st: "choice_queue_step t h3 ?h" by (simp add: choice_queue_step_def)
      have k4: "cq.known w t (Some (q, nd)) None xs ys ?h" by (rule cq.own_other [OF k3 st]) simp_all
      have "loaded_cq put_cq i p ?h" using loaded_after [OF a3 p] by (simp add: loaded_cq_def)
      then obtain k where pl: "place (mem_cq ?h) i k p" "k \<le> snd (put_cq ?h ! i)" by (auto simp: loaded_cq_def)
      let ?fl = "l2\<lparr>my_put_cas_fail_count := add64 (my_put_cas_fail_count l2) 1\<rparr>"
      have link: "ok choice_queue_step (\<lambda>_. True) t (pbind (enq_cae_cq i p q) (\<lambda>success.
          if success then pbind (put_cas_cq i p q) (\<lambda>_. Ret (1, l2)) else enqueue_loop_cq st ch w n q ?fl))
          (cq.post w al t (Enq key val) (xs, ys) (\<lambda>_. True)) h5"
        if k5: "cq.known w t (Some (q, nd)) None xs ys h5" and a: "cq.after ?h h5" for h5
        unfolding enq_cae_cq_def
      proof (rule cq.ok_link [OF k5 nd(1) cq.afterD(1) [OF a pl(1)]], goal_cases)
        case 1
        then show ?case using cq.afterD(3) [OF a, of i] pl(2) by simp
      next
        case (3 h6)
        then show ?case using cq.afterD(1) [OF cq.after_trans [OF a 3(2)] pl(1)] nd al
          by (auto simp del: ok.simps intro!: ok_put_cas_cq cq.post_Ret)
      qed (use Suc.IH in auto)
      have "ok choice_queue_step (\<lambda>_. True) t (pbind (load_next_cq p) (\<lambda>nxt.
          if nxt = NULL then
            pbind (enq_cae_cq i p q) (\<lambda>success.
            if success then pbind (put_cas_cq i p q) (\<lambda>_. Ret (1, l2)) else enqueue_loop_cq st ch w n q ?fl)
          else pbind (load_next_cq p) (\<lambda>nxt. pbind (put_cas_cq i p nxt) (\<lambda>_. enqueue_loop_cq st ch w n q ?fl))))
          (cq.post w al t (Enq key val) (xs, ys) (\<lambda>_. True)) ?h"
        unfolding load_next_cq_def
      proof (rule cq.ok_load_next [OF k4 pl(1)], goal_cases)
        case (1 h5)
        then show ?case using link by (simp del: ok.simps)
      next
        case (2 h5 nxt)
        note m5 = cq.afterD(1) [OF 2(2) pl(1)]
        show ?case unfolding if_not_P [OF 2(3)]
        proof (rule cq.ok_load_next_some [OF 2(1) m5 2(4)], goal_cases)
          case (1 h6)
          show ?case by (rule ok_put_cas_cq [OF 1(1) cq.afterD(1) [OF 1(2) m5] cq.afterD(1) [OF 1(2) 2(4)]]) (rule Suc.IH)
        qed
      qed
      then show ?case using st unfolding Let_def by blast
    qed
  qed
qed

end

lemma stamp_count_rule: "queue_stamp_rule stamp_count"
proof (unfold_locales, goal_cases)
  case (1 w t po fo xs ys g i p l)
  have ret: "ok choice_queue_step (\<lambda>_. True) t (Ret x) (\<lambda>_ h. cq.known w t po fo xs ys h \<and> cq.after g h) h"
    if "cq.known w t po fo xs ys h" "cq.after g h" for x :: "u64 \<times> cqtl" and h
    using cq.known_envs [OF _ that(1)] cq.after_trans [OF that(2)] by (intro ok_Ret) blast
  show ?case unfolding stamp_count_def by (rule ok_load_stamp_cq [OF 1]) (rule ret)
qed

interpretation count_stamp: queue_stamp_rule stamp_count
  by (rule stamp_count_rule)

interpretation ticks_stamp_cq: queue_stamp_rule "stamp_ticks_cq clock" for clock
  by unfold_locales (use cq.known_envs in \<open>auto simp: stamp_ticks_cq_def\<close>)

lemma dequeue_ok_cq:
  assumes al: "alloc_fresh al" and k: "cq.known w t None None xs ys g"
  shows "ok choice_queue_step (\<lambda>_. True) t (dequeue_loop_cq ch w n t l) (cq.post w al t Deq (xs, ys) (\<lambda>_. True)) g"
  using k
proof (induction n arbitrary: l g)
  case 0
  then show ?case by simp
next
  case (Suc n)
  show ?case
    unfolding dequeue_loop_cq.simps
  proof (rule ok_bind_mono [OF pick_index_cq_ok(2) [OF Suc.prems]], clarify, goal_cases)
    case (1 d i l' h)
    have k1: "cq.known w t None None xs ys h" and i: "i < w" and L: "loaded_cq get_cq i d h" using 1 by (auto simp: chosen_cq_def)
    obtain m where m: "place (mem_cq h) i m d" "m \<le> snd (get_cq h ! i)" using L by (auto simp: loaded_cq_def)
    have null: "ok choice_queue_step (\<lambda>_. True) t (Ret (0, l2)) (cq.post w al t Deq (xs, ys) (\<lambda>_. True)) h'"
      if "cq.known w t None None xs ys h'" for l2 h' using that al by (intro cq.post_Ret) auto
    show ?case
    proof (rule ok_load_node [OF k1 i disjI2 [OF refl]], goal_cases)
      case (1 h2 e)
      obtain mt where mt: "place (mem_cq h2) i mt e" "mt \<le> snd (put_cq h2 ! i)" "snd (get_cq h ! i) \<le> mt" using 1(4) by auto
      note m2 = cq.afterD(1) [OF 1(2) m(1)]
      show ?case
      proof (cases "d = e")
        case True
        show ?thesis unfolding if_P [OF True] load_next_cq_def
        proof (rule cq.ok_load_next [OF 1(1) m2], goal_cases)
          case (1 h3)
          then show ?case using null by (simp del: ok.simps)
        next
          case (2 h3 nxt)
          note m3 = cq.afterD(1) [OF 2(2) m2]
          show ?case unfolding if_not_P [OF 2(3)] True [symmetric]
          proof (rule cq.ok_load_next_some [OF 2(1) m3 2(4)], goal_cases)
            case (1 h4)
            show ?case by (rule ok_put_cas_cq [OF 1(1) cq.afterD(1) [OF 1(2) m3] cq.afterD(1) [OF 1(2) 2(4)]]) (rule Suc.IH)
          qed
        qed
      next
        case False
        have lt: "m < mt" using m(2) mt(3) False m2 mt(1) by (cases "m = mt") (auto simp: place_def)
        define nxt where "nxt = links (mem_cq h2) ! i ! (m + 1)"
        have nx: "place (mem_cq h2) i (m + 1) nxt" and me: "m < snd (put_cq h2 ! i)" using mt(1,2) lt by (auto simp: place_def nxt_def)
        have val: "ok choice_queue_step (\<lambda>_. True) t
             (pbind (load_next_cq d) (\<lambda>nxt. pbind (rd_opt (\<lambda>g. map_option n_val (heap (nodes (mem_cq g)) nxt))) (\<lambda>val.
               pbind (wr (\<lambda>g. g\<lparr>mem_cq := qm_free t d (mem_cq g)\<rparr>)) (\<lambda>_. Ret (val, l')))))
             (cq.post w al t Deq (xs, ys) (\<lambda>_. True)) h4"
          if k: "cq.known w t None (Some d) xs (v # ys) h4" "place (mem_cq h4) i m d" "place (mem_cq h4) i (m + 1) nxt"
            "node_val (nodes (mem_cq h4)) nxt = v" for v h4
          unfolding load_next_cq_def
        proof (rule cq.ok_load_next_some [OF k(1-3)], goal_cases)
          case (1 h5)
          have p: "place (mem_cq h5) i (m + 1) nxt" by (rule cq.afterD(1) [OF 1(2) k(3)])
          have "nxt \<in> set (allocd (nodes (mem_cq h4)))" using cq.place_node [OF k(1,3)] by metis
          then have v: "node_val (nodes (mem_cq h5)) nxt = v" using cq.afterD(5) [OF 1(2)] k(4) by simp
          show ?case by (rule cq.ok_load_val [OF 1(1) p]) (use v al in \<open>auto simp del: ok.simps intro!: cq.ok_free cq.post_Ret\<close>)
        qed
        show ?thesis unfolding if_not_P [OF False] load_next_cq_def
        proof (rule cq.ok_load_next_some [OF 1(1) m2 nx], fold load_next_cq_def, goal_cases)
          case (1 h3)
          have p3: "place (mem_cq h3) i m d" "place (mem_cq h3) i (m + 1) nxt" "m < snd (put_cq h3 ! i)"
            using cq.afterD(1) [OF 1(2) m2] cq.afterD(1) [OF 1(2) nx] cq.afterD(3) [OF 1(2), of i] me by auto
          show ?case unfolding deq_cae_cq_def
          proof (rule cq.ok_take [OF 1(1) p3], goal_cases)
            case (1 h4)
            then show ?case by (auto simp: at_eq_Some)
          next
            case (2 h4)
            have "nxt \<in> set (allocd (nodes (mem_cq h3)))" using cq.place_node [OF 1(1) p3(2)] by metis
            then have "node_val (nodes (mem_cq h4)) nxt = node_val (nodes (mem_cq h3)) nxt" by (rule cq.afterD(5) [OF 2(2)])
            then show ?case using val [OF 2(1)] cq.afterD(1) [OF 2(2) p3(1)] cq.afterD(1) [OF 2(2) p3(2)] by (simp del: ok.simps)
          next
            case (3 h4)
            then show ?case using Suc.IH by (simp del: ok.simps)
          qed
        qed
      qed
    qed
  qed
qed


lemma choice_enqueue_ok:
  assumes "cq.known w t None None xs ys g" "alloc_fresh al" "queue_stamp_rule st"
  shows "ok choice_queue_step (\<lambda>_. True) t (pbind (create_node_cq al t key val NULL) (\<lambda>new_node. enqueue_loop_cq st ch w fuel new_node l))
    (cq.post w al t (Enq key val) (xs, ys) (\<lambda>_. True)) g"
  unfolding create_node_cq_def
  by (rule cq.ok_new_node [OF assms(1,2)], rule queue_stamp_rule.enqueue_ok [OF assms(3,2)], assumption) simp_all

interpretation dra_queue_threads: threads choice_queue_step "\<lambda>_. True" "choice_queue_inv w" "dra_queue_call ch al fuel w" "cq.rest w al" "\<lambda>_. True" queue_hist
  for ch al fuel w
proof (unfold_locales, goal_cases)
  case (1 t s g g')
  then show ?case by (rule cq.rest_env)
next
  case (2 t s g l c)
  obtain xs ys where s: "s = (xs, ys)" by (cases s)
  have al: "alloc_fresh al" and k: "cq.known w t None None xs ys g" using 2(1) by (simp_all add: cq.rest_def s)
  have "ok choice_queue_step (\<lambda>_. True) t (dra_queue_call ch al fuel w t c l) (cq.post w al t c (xs, ys) (\<lambda>_. True)) g"
    using choice_enqueue_ok [OF k al stamp_count_rule] dequeue_ok_cq [OF al k]
    by (cases c) (simp_all add: dra_queue_call_def enqueue_dra_def dequeue_dra_def del: ok.simps)
  then show ?case unfolding cq.post_def s .
qed

interpretation multi_queue_threads: threads choice_queue_step "\<lambda>_. True" "choice_queue_inv w" "multi_queue_call clock ch al fuel w" "cq.rest w al" "\<lambda>_. True" queue_hist
  for clock ch al fuel w
proof (unfold_locales, goal_cases)
  case (1 t s g g')
  then show ?case by (rule cq.rest_env)
next
  case (2 t s g l c)
  obtain xs ys where s: "s = (xs, ys)" by (cases s)
  have al: "alloc_fresh al" and k: "cq.known w t None None xs ys g" using 2(1) by (simp_all add: cq.rest_def s)
  have "ok choice_queue_step (\<lambda>_. True) t (multi_queue_call clock ch al fuel w t c l) (cq.post w al t c (xs, ys) (\<lambda>_. True)) g"
    using choice_enqueue_ok [OF k al ticks_stamp_cq.queue_stamp_rule_axioms] dequeue_ok_cq [OF al k]
    by (cases c) (simp_all add: multi_queue_call_def enqueue_multi_def dequeue_multi_def del: ok.simps)
  then show ?case unfolding cq.post_def s .
qed

lemma create_choice_queue_ok:
  assumes "0 < w" "alloc_fresh al"
  shows "choice_queue_inv w (create_queue_dra al t0 junk st0 nt w b)" "cq.rest w al t ([], []) (create_queue_dra al t0 junk st0 nt w b)"
    "create_queue_multi al t0 junk st0 nt w b = create_queue_dra al t0 junk st0 nt w b"
proof -
  note S = add_sentinels_ok [OF assms(2), of t0 junk w]
  show i: "choice_queue_inv w (create_queue_dra al t0 junk st0 nt w b)"
    using assms(1) S(1,2) by (simp add: choice_queue_inv_def create_queue_dra_def Let_def)
  then show "cq.rest w al t ([], []) (create_queue_dra al t0 junk st0 nt w b)"
    using S(4,5) assms(2) by (simp add: cq.rest_def cq.known_def create_queue_dra_def Let_def pushed_by_def taken_by_def)
qed (simp add: create_queue_dra_def create_queue_multi_def)

section \<open>Properties\<close>

definition choice_queue_safe :: "nat \<Rightarrow> cqueue \<Rightarrow> bool" where
  "choice_queue_safe w g \<longleftrightarrow> choice_queue_inv w g \<and> distinct (map fst (freed (nodes (mem_cq g)))) \<and>
     fst ` set (freed (nodes (mem_cq g))) \<inter> set (concat (waiting (mem_cq g) (get_cq g))) = {}"

lemma choice_queue_inv_safe: "choice_queue_inv w g \<Longrightarrow> choice_queue_safe w g"
  using queues_ok_freed by (fastforce simp: choice_queue_safe_def choice_queue_inv_def)

text \<open>
  Both queues run the Michael-Scott protocol on the sub-queue they have chosen; the argument is the same.
\<close>

lemma dra_queue_safe:
  assumes "0 < w" "alloc_fresh al" "length ls = length css"
    and run: "pool_reaches (\<lambda>_. True) (client_pool (dra_queue_call ch al fuel w) css ls, create_queue_dra al t0 junk st0 nt w b) (ps, g)"
  shows "Fault \<notin> set ps \<and> choice_queue_safe w g \<and>
    (map prog_result ps \<noteq> map Some rss \<or>
     nonnull (mset (concat (map enq_values css))) =
       mset (concat (map (\<lambda>t. deq_values (css ! t) (rss ! t)) [0 ..< length css])) +
       nonnull (image_mset (node_val (nodes (mem_cq g))) (mset (concat (waiting (mem_cq g) (get_cq g))))))"
proof -
  note run' = run
  note p = dra_queue_threads.pool_clients [OF run' create_choice_queue_ok(2) [OF assms(1,2)] assms(3) _ create_choice_queue_ok(1) [OF assms(1,2)]]
  have inv: "choice_queue_inv w g" "Fault \<notin> set ps" using p(1) by auto
  have "nonnull (mset (concat (map enq_values css))) =
       mset (concat (map (\<lambda>t. deq_values (css ! t) (rss ! t)) [0 ..< length css])) +
       nonnull (image_mset (node_val (nodes (mem_cq g))) (mset (concat (waiting (mem_cq g) (get_cq g)))))"
    if "map prog_result ps = map Some rss"
    using cq.histories [OF inv(1) p(2) [OF _ that] p(3)] by simp
  then show ?thesis using inv choice_queue_inv_safe by blast
qed

lemma multi_queue_safe:
  assumes "0 < w" "alloc_fresh al" "length ls = length css"
    and run: "pool_reaches (\<lambda>_. True) (client_pool (multi_queue_call clock ch al fuel w) css ls, create_queue_multi al t0 junk st0 nt w b) (ps, g)"
  shows "Fault \<notin> set ps \<and> choice_queue_safe w g \<and>
    (map prog_result ps \<noteq> map Some rss \<or>
     nonnull (mset (concat (map enq_values css))) =
       mset (concat (map (\<lambda>t. deq_values (css ! t) (rss ! t)) [0 ..< length css])) +
       nonnull (image_mset (node_val (nodes (mem_cq g))) (mset (concat (waiting (mem_cq g) (get_cq g))))))"
proof -
  note run' = run [unfolded create_choice_queue_ok(3) [OF assms(1,2)]]
  note p = multi_queue_threads.pool_clients [OF run' create_choice_queue_ok(2) [OF assms(1,2)] assms(3) _ create_choice_queue_ok(1) [OF assms(1,2)]]
  have inv: "choice_queue_inv w g" "Fault \<notin> set ps" using p(1) by auto
  have "nonnull (mset (concat (map enq_values css))) =
       mset (concat (map (\<lambda>t. deq_values (css ! t) (rss ! t)) [0 ..< length css])) +
       nonnull (image_mset (node_val (nodes (mem_cq g))) (mset (concat (waiting (mem_cq g) (get_cq g)))))"
    if "map prog_result ps = map Some rss"
    using cq.histories [OF inv(1) p(2) [OF _ that] p(3)] by simp
  then show ?thesis using inv choice_queue_inv_safe by blast
qed

text \<open>
  C19. The d-RA queue and the multi-queue under concurrency. Any number of threads run any lists of enqueues and dequeues, interleaved at every access to
  shared memory, on a new queue of at least one sub-queue, with or without random choices, and in the multi-queue whatever values the threads read from the
  processor's tick counter. At every moment no thread has followed a bad
  pointer or left the arrays, every sub-queue is a linked list whose head is not past its tail, and no node is freed twice or while a
  dequeue can still return it; when all have finished, the values enqueued are those dequeued and those still there.
\<close>

theorem choice_queues_threads_safe:
  assumes "0 < w" "alloc_fresh al" "length ls = length css"
    and queue: "(call, g0) \<in> {(dra_queue_call ch al fuel w, create_queue_dra al t0 junk st0 nt w b), (multi_queue_call clock ch al fuel w, create_queue_multi al t0 junk st0 nt w b)}"
    and run: "pool_reaches (\<lambda>_. True) (client_pool call css ls, g0) (ps, g)"
  shows "Fault \<notin> set ps \<and> choice_queue_safe w g \<and>
    (map prog_result ps \<noteq> map Some rss \<or>
     nonnull (mset (concat (map enq_values css))) =
       mset (concat (map (\<lambda>t. deq_values (css ! t) (rss ! t)) [0 ..< length css])) +
       nonnull (image_mset (node_val (nodes (mem_cq g))) (mset (concat (waiting (mem_cq g) (get_cq g))))))"
proof -
  from queue consider "call = dra_queue_call ch al fuel w" "g0 = create_queue_dra al t0 junk st0 nt w b"
    | "call = multi_queue_call clock ch al fuel w" "g0 = create_queue_multi al t0 junk st0 nt w b" by auto
  then show ?thesis using assms(1-3) run by cases (simp_all only: dra_queue_safe multi_queue_safe simp_thms)
qed

definition fresh_cqtl :: "seeds \<Rightarrow> cqtl" where
  "fresh_cqtl s = \<lparr>seeds = s, my_put_cas_fail_count = 0, my_get_cas_fail_count = 0, my_null_count = 0, my_hop_count = 0,
     my_slide_count = 0, my_slide_fail_count = 0, tick_reads_cq = 0\<rparr>"

definition choice_queue_calls :: "queue_call list list" where
  "choice_queue_calls = [[Enq 1 10, Deq], [Enq 2 20]]"

definition demo_run_dra_queue :: "(cqueue, int list) prog list \<times> cqueue" where
  "demo_run_dra_queue = sched (\<lambda>_. True) (concat (replicate 30 [0, 1]))
     (client_pool (dra_queue_call (Some 2) bump_alloc 3 2) choice_queue_calls [fresh_cqtl (1, 2, 3), fresh_cqtl (4, 5, 6)], create_queue_dra bump_alloc 0 \<lparr>n_key = 0, n_val = 0, n_next = 0\<rparr> (\<lambda>_. 0) 2 2 0)"

definition demo_run_multi_queue :: "(cqueue, int list) prog list \<times> cqueue" where
  "demo_run_multi_queue = sched (\<lambda>_. True) (concat (replicate 30 [0, 1]))
     (client_pool (multi_queue_call (\<lambda>t n. 100 * n + t) (Some 2) bump_alloc 3 2) choice_queue_calls [fresh_cqtl (1, 2, 3), fresh_cqtl (4, 5, 6)], create_queue_multi bump_alloc 0 \<lparr>n_key = 0, n_val = 0, n_next = 0\<rparr> (\<lambda>_. 0) 2 2 0)"

lemma demo_choice_queue_results:
  "map prog_result (fst demo_run_dra_queue) = map Some [[1, 10], [1]]"
  "map prog_result (fst demo_run_multi_queue) = map Some [[1, 10], [1]]"
  by (simp_all add: demo_run_dra_queue_def demo_run_multi_queue_def client_pool_def choice_queue_calls_def fresh_cqtl_def two_sentinels prog_unfold upt_rec cong: eval_cong)

theorem choice_queues_threads_safe_witness:
  "\<exists>rss. Fault \<notin> set (fst demo_run_dra_queue) \<and> choice_queue_safe 2 (snd demo_run_dra_queue) \<and> map prog_result (fst demo_run_dra_queue) = map Some rss \<and>
   nonnull (mset (concat (map enq_values choice_queue_calls))) =
     mset (concat (map (\<lambda>t. deq_values (choice_queue_calls ! t) (rss ! t)) [0 ..< length choice_queue_calls])) +
     nonnull (image_mset (node_val (nodes (mem_cq (snd demo_run_dra_queue)))) (mset (concat (waiting (mem_cq (snd demo_run_dra_queue)) (get_cq (snd demo_run_dra_queue)))))) \<and>
   Fault \<notin> set (fst demo_run_multi_queue) \<and> choice_queue_safe 2 (snd demo_run_multi_queue) \<and> map prog_result (fst demo_run_multi_queue) = map Some rss \<and>
   nonnull (mset (concat (map enq_values choice_queue_calls))) =
     mset (concat (map (\<lambda>t. deq_values (choice_queue_calls ! t) (rss ! t)) [0 ..< length choice_queue_calls])) +
     nonnull (image_mset (node_val (nodes (mem_cq (snd demo_run_multi_queue)))) (mset (concat (waiting (mem_cq (snd demo_run_multi_queue)) (get_cq (snd demo_run_multi_queue))))))"
proof -
  have d: "pool_reaches (\<lambda>_. True) (client_pool (dra_queue_call (Some 2) bump_alloc 3 2) choice_queue_calls [fresh_cqtl (1, 2, 3), fresh_cqtl (4, 5, 6)],
      create_queue_dra bump_alloc 0 \<lparr>n_key = 0, n_val = 0, n_next = 0\<rparr> (\<lambda>_. 0) 2 2 0) (fst demo_run_dra_queue, snd demo_run_dra_queue)"
    unfolding demo_run_dra_queue_def prod.collapse by (rule sched_reaches)
  have m: "pool_reaches (\<lambda>_. True) (client_pool (multi_queue_call (\<lambda>t n. 100 * n + t) (Some 2) bump_alloc 3 2) choice_queue_calls [fresh_cqtl (1, 2, 3), fresh_cqtl (4, 5, 6)],
      create_queue_multi bump_alloc 0 \<lparr>n_key = 0, n_val = 0, n_next = 0\<rparr> (\<lambda>_. 0) 2 2 0) (fst demo_run_multi_queue, snd demo_run_multi_queue)"
    unfolding demo_run_multi_queue_def prod.collapse by (rule sched_reaches)
  note D = choice_queues_threads_safe [OF _ bump_alloc_fresh _ _ d, of 2 "Some 2" 3 0 "\<lparr>n_key = 0, n_val = 0, n_next = 0\<rparr>" "\<lambda>_. 0" 2 0 _ "[[1, 10], [1]]"]
  note M = choice_queues_threads_safe [OF _ bump_alloc_fresh _ _ m, of 2 "Some 2" 3 0 "\<lparr>n_key = 0, n_val = 0, n_next = 0\<rparr>" "\<lambda>_. 0" 2 0 "\<lambda>t n. 100 * n + t" "[[1, 10], [1]]"]
  show ?thesis by (rule exI [of _ "[[1, 10], [1]]"], use D M demo_choice_queue_results in \<open>simp add: choice_queue_calls_def filter_filter_mset\<close>)
qed

end
