(* ===== verification/Multi_Counters.thy ===== *)
theory Multi_Counters
  imports Relaxed_Counter Thread_Random
begin

text \<open>
  The relaxed counters that pick a sub-counter by random choice:
  \<^verbatim>\<open>src/multi-counter_random-relaxed/multi-counter_random-relaxed.c\<close>, whose sub-counters change by
  compare-and-swap, with (\<open>Some c\<close>) and without (\<open>None\<close>) the build option \<^verbatim>\<open>NUM_CHOICES\<close>, and
  \<^verbatim>\<open>src/multi-counter-faa_random-relaxed/multi-counter-faa_random-relaxed.c\<close>, whose sub-counters change by an atomic
  increment or decrement.

  A count is an \<^verbatim>\<open>int64_t\<close>. In the first its arithmetic is signed, so that an overflow is undefined
  (a fault); in the second the atomic operations wrap. The ghost lists \<open>incs_mc\<close> and \<open>decs_mc\<close> hold the threads of the increments
  and decrements that took effect.
\<close>

section \<open>The multi-counter\<close>

record mc_desc =
  mc_count :: int
  mc_version :: u64

record mcounter =
  array_mc :: "mc_desc list"
  incs_mc :: "nat list"
  decs_mc :: "nat list"

record mctl = tls +
  thread_index_mc :: nat

definition INT64_MAX :: int where
  "INT64_MAX = 9223372036854775807"

text \<open>The answer \<^verbatim>\<open>count * set->width\<close>: the signed count is converted to 64 bits unsigned.\<close>

definition scaled :: "int \<Rightarrow> u64 \<Rightarrow> u64" where
  "scaled n w = nat ((n * int w) mod int W64)"

definition random_index_mc :: "nat \<Rightarrow> mctl \<Rightarrow> (mcounter, nat \<times> mctl) prog" where
  "random_index_mc w l = random_mod w l"

definition load_version_mc :: "nat \<Rightarrow> (mcounter, u64) prog" where
  "load_version_mc i = rd_opt (\<lambda>g. map_option mc_version (at (array_mc g) i))"

definition load_count_mc :: "nat \<Rightarrow> (mcounter, int) prog" where
  "load_count_mc i = rd_opt (\<lambda>g. map_option mc_count (at (array_mc g) i))"

definition cae_mc :: "nat \<Rightarrow> mc_desc \<Rightarrow> mc_desc \<Rightarrow> (mcounter \<Rightarrow> mcounter) \<Rightarrow> (mcounter, bool) prog" where
  "cae_mc i old new ghost =
     Act (\<lambda>g. if at (array_mc g) i = Some old then ghost (g\<lparr>array_mc := (array_mc g)[i := new]\<rparr>) else g)
         (\<lambda>g. Ret (at (array_mc g) i = Some old))"

definition cas_count_mc :: "nat \<Rightarrow> int \<Rightarrow> int \<Rightarrow> (mcounter \<Rightarrow> mcounter) \<Rightarrow> (mcounter, bool) prog" where
  "cas_count_mc i old new ghost =
     Act (\<lambda>g. if map_option mc_count (at (array_mc g) i) = Some old
              then ghost (g\<lparr>array_mc := (array_mc g)[i := (array_mc g ! i)\<lparr>mc_count := new\<rparr>]\<rparr>) else g)
         (\<lambda>g. Ret (map_option mc_count (at (array_mc g) i) = Some old))"

fun get_increment_index_loop :: "nat \<Rightarrow> nat \<Rightarrow> mc_desc \<Rightarrow> mctl \<Rightarrow> (mcounter, mc_desc \<times> mctl) prog" where
  "get_increment_index_loop 0 w descriptor l = Ret (descriptor, l)"
| "get_increment_index_loop (Suc n) w descriptor l =
     pbind (random_index_mc w l) (\<lambda>(index2, l).
     pbind (load_version_mc index2) (\<lambda>v.
     pbind (load_count_mc index2) (\<lambda>c.
     if c < mc_count descriptor
     then get_increment_index_loop n w \<lparr>mc_count = c, mc_version = v\<rparr> (l\<lparr>thread_index_mc := index2\<rparr>)
     else get_increment_index_loop n w descriptor l)))"

definition get_increment_index :: "nat \<Rightarrow> nat \<Rightarrow> mctl \<Rightarrow> (mcounter, mc_desc \<times> mctl) prog" where
  "get_increment_index choices w l =
     pbind (random_index_mc w l) (\<lambda>(index, l).
     pbind (load_version_mc index) (\<lambda>v.
     pbind (load_count_mc index) (\<lambda>_.
     pbind (load_count_mc index) (\<lambda>c.
     get_increment_index_loop (choices - 1) w \<lparr>mc_count = c, mc_version = v\<rparr> (l\<lparr>thread_index_mc := index\<rparr>)))))"

fun get_decrement_index_loop :: "nat \<Rightarrow> nat \<Rightarrow> mc_desc \<Rightarrow> mctl \<Rightarrow> (mcounter, mc_desc \<times> mctl) prog" where
  "get_decrement_index_loop 0 w descriptor l = Ret (descriptor, l)"
| "get_decrement_index_loop (Suc n) w descriptor l =
     pbind (random_index_mc w l) (\<lambda>(index2, l).
     pbind (load_version_mc index2) (\<lambda>v.
     pbind (load_count_mc index2) (\<lambda>c.
     if c > mc_count descriptor
     then get_decrement_index_loop n w \<lparr>mc_count = c, mc_version = v\<rparr> (l\<lparr>thread_index_mc := index2\<rparr>)
     else get_decrement_index_loop n w descriptor l)))"

definition get_decrement_index :: "nat \<Rightarrow> nat \<Rightarrow> mctl \<Rightarrow> (mcounter, mc_desc \<times> mctl) prog" where
  "get_decrement_index choices w l =
     pbind (random_index_mc w l) (\<lambda>(index, l).
     pbind (load_version_mc index) (\<lambda>v.
     pbind (load_count_mc index) (\<lambda>c.
     get_decrement_index_loop (choices - 1) w \<lparr>mc_count = c, mc_version = v\<rparr> (l\<lparr>thread_index_mc := index\<rparr>))))"

definition inc_ghost :: "nat \<Rightarrow> mcounter \<Rightarrow> mcounter" where
  "inc_ghost t g = g\<lparr>incs_mc := t # incs_mc g\<rparr>"

definition dec_ghost :: "nat \<Rightarrow> mcounter \<Rightarrow> mcounter" where
  "dec_ghost t g = g\<lparr>decs_mc := t # decs_mc g\<rparr>"

fun increment_mc :: "nat option \<Rightarrow> nat \<Rightarrow> nat \<Rightarrow> nat \<Rightarrow> mctl \<Rightarrow> (mcounter, u64 \<times> mctl) prog" where
  "increment_mc ch w 0 t l = NoFuel"
| "increment_mc ch w (Suc n) t l =
     (let fail = (\<lambda>l. increment_mc ch w n t (l\<lparr>my_put_cas_fail_count := add64 (my_put_cas_fail_count l) 1\<rparr>))
      in case ch of
        Some c \<Rightarrow>
          pbind (get_increment_index c w l) (\<lambda>(d, l).
          pbind (assert (mc_count d < INT64_MAX)) (\<lambda>_.
          let new = \<lparr>mc_count = mc_count d + 1, mc_version = add64 (mc_version d) 1\<rparr>
          in pbind (cae_mc (thread_index_mc l) d new (inc_ghost t)) (\<lambda>success.
             if success then Ret (scaled (mc_count new) w, l) else fail l)))
      | None \<Rightarrow>
          pbind (random_index_mc w l) (\<lambda>(index, l).
          let l = l\<lparr>thread_index_mc := index\<rparr>
          in pbind (load_count_mc index) (\<lambda>count.
             pbind (assert (count < INT64_MAX)) (\<lambda>_.
             pbind (cas_count_mc index count (count + 1) (inc_ghost t)) (\<lambda>success.
             if success then Ret (scaled (count + 1) w, l) else fail l)))))"

fun decrement_mc :: "bool \<Rightarrow> nat option \<Rightarrow> nat \<Rightarrow> nat \<Rightarrow> nat \<Rightarrow> mctl \<Rightarrow> (mcounter, u64 \<times> mctl) prog" where
  "decrement_mc vs ch w 0 t l = NoFuel"
| "decrement_mc vs ch w (Suc n) t l =
     (let fail = (\<lambda>l. decrement_mc vs ch w n t (l\<lparr>my_get_cas_fail_count := add64 (my_get_cas_fail_count l) 1\<rparr>));
          null = (\<lambda>l. Ret (0, l\<lparr>my_null_count := add64 (my_null_count l) 1\<rparr>))
      in case ch of
        Some c \<Rightarrow>
          pbind (get_decrement_index c w l) (\<lambda>(d, l).
          if mc_count d = 0 then null l
          else
            pbind (assert (- INT64_MAX - 1 < mc_count d)) (\<lambda>_.
            let new = \<lparr>mc_count = mc_count d - 1, mc_version = add64 (mc_version d) 1\<rparr>
            in pbind (cae_mc (thread_index_mc l) d new (dec_ghost t)) (\<lambda>success.
               if success then Ret (if vs then 1 else scaled (mc_count new) w, l) else fail l)))
      | None \<Rightarrow>
          pbind (random_index_mc w l) (\<lambda>(index, l).
          let l = l\<lparr>thread_index_mc := index\<rparr>
          in pbind (load_count_mc index) (\<lambda>count.
             if count \<noteq> 0 then
               pbind (assert (- INT64_MAX - 1 < count)) (\<lambda>_.
               pbind (cas_count_mc index count (count - 1) (dec_ghost t)) (\<lambda>success.
               if success then Ret (if vs then 1 else scaled (count - 1) w, l) else fail l))
             else null l)))"

definition create_counter_mc :: "u64 \<Rightarrow> mcounter" where
  "create_counter_mc w = \<lparr>array_mc = replicate w \<lparr>mc_count = 0, mc_version = 0\<rparr>, incs_mc = [], decs_mc = []\<rparr>"

fun counter_size_loop_mc :: "nat list \<Rightarrow> u64 \<Rightarrow> (mcounter, u64) prog" where
  "counter_size_loop_mc [] sz = Ret sz"
| "counter_size_loop_mc (i # is) sz =
     pbind (load_count_mc i) (\<lambda>c. counter_size_loop_mc is (nat ((int sz + c) mod int W64)))"

definition counter_size_mc :: "nat \<Rightarrow> (mcounter, u64) prog" where
  "counter_size_mc w = counter_size_loop_mc [0 ..< w] 0"

section \<open>The multi-counter with fetch-and-add\<close>

text \<open>Here a count is the 64-bit pattern of the \<^verbatim>\<open>int64_t\<close>, which \<^verbatim>\<open>IAF_U64\<close> and \<^verbatim>\<open>DAF_U64\<close> treat as unsigned.\<close>

record faa_counter =
  array_faa :: "u64 list"
  incs_faa :: "nat list"
  decs_faa :: "nat list"

definition random_index_faa :: "nat \<Rightarrow> mctl \<Rightarrow> (faa_counter, nat \<times> mctl) prog" where
  "random_index_faa w l = random_mod w l"

definition add_fetch :: "nat \<Rightarrow> (u64 \<Rightarrow> u64) \<Rightarrow> (faa_counter \<Rightarrow> faa_counter) \<Rightarrow> (faa_counter, u64) prog" where
  "add_fetch i f ghost =
     Act (\<lambda>g. if i < length (array_faa g) then ghost (g\<lparr>array_faa := (array_faa g)[i := f (array_faa g ! i)]\<rparr>) else g)
         (\<lambda>g. if i < length (array_faa g) then Ret (f (array_faa g ! i)) else Fault)"

definition increment_faa :: "nat \<Rightarrow> nat \<Rightarrow> mctl \<Rightarrow> (faa_counter, u64 \<times> mctl) prog" where
  "increment_faa w t l =
     pbind (random_index_faa w l) (\<lambda>(index, l).
     let l = l\<lparr>thread_index_mc := index\<rparr>
     in pbind (add_fetch index (\<lambda>c. add64 c 1) (\<lambda>g. g\<lparr>incs_faa := t # incs_faa g\<rparr>)) (\<lambda>count. Ret (1, l)))"

definition decrement_faa :: "nat \<Rightarrow> nat \<Rightarrow> mctl \<Rightarrow> (faa_counter, u64 \<times> mctl) prog" where
  "decrement_faa w t l =
     pbind (random_index_faa w l) (\<lambda>(index, l).
     let l = l\<lparr>thread_index_mc := index\<rparr>
     in pbind (add_fetch index (\<lambda>c. sub64 c 1) (\<lambda>g. g\<lparr>decs_faa := t # decs_faa g\<rparr>)) (\<lambda>count. Ret (1, l)))"

definition create_counter_faa :: "u64 \<Rightarrow> faa_counter" where
  "create_counter_faa w = \<lparr>array_faa = replicate w 0, incs_faa = [], decs_faa = []\<rparr>"

fun counter_size_loop_faa :: "nat list \<Rightarrow> u64 \<Rightarrow> (faa_counter, u64) prog" where
  "counter_size_loop_faa [] sz = Ret sz"
| "counter_size_loop_faa (i # is) sz = pbind (rd_opt (\<lambda>g. at (array_faa g) i)) (\<lambda>c. counter_size_loop_faa is (add64 sz c))"

definition counter_size_faa :: "nat \<Rightarrow> (faa_counter, u64) prog" where
  "counter_size_faa w = counter_size_loop_faa [0 ..< w] 0"

definition mc_call :: "bool \<Rightarrow> nat option \<Rightarrow> nat \<Rightarrow> nat \<Rightarrow> nat \<Rightarrow> counter_call \<Rightarrow> mctl \<Rightarrow> (mcounter, u64 \<times> mctl) prog" where
  "mc_call vs ch w fuel t c l = (case c of Inc \<Rightarrow> increment_mc ch w fuel t l | Dec \<Rightarrow> decrement_mc vs ch w fuel t l)"

definition faa_call :: "nat \<Rightarrow> nat \<Rightarrow> counter_call \<Rightarrow> mctl \<Rightarrow> (faa_counter, u64 \<times> mctl) prog" where
  "faa_call w t c l = (case c of Inc \<Rightarrow> increment_faa w t l | Dec \<Rightarrow> decrement_faa w t l)"

lemmas multi_counter_unfold [prog_unfold] =
  INT64_MAX_def scaled_def random_index_mc_def load_version_mc_def load_count_mc_def cae_mc_def cas_count_mc_def get_increment_index_def
  get_decrement_index_def inc_ghost_def dec_ghost_def create_counter_mc_def counter_size_mc_def random_index_faa_def add_fetch_def
  increment_faa_def decrement_faa_def create_counter_faa_def counter_size_faa_def mc_call_def faa_call_def
  get_increment_index_loop.simps(2) [of "pred_numeral k" for k, folded numeral_eq_Suc]
  get_decrement_index_loop.simps(2) [of "pred_numeral k" for k, folded numeral_eq_Suc]
  increment_mc.simps(2) [of _ _ "pred_numeral k" for k, folded numeral_eq_Suc]
  decrement_mc.simps(2) [of _ _ _ "pred_numeral k" for k, folded numeral_eq_Suc]

section \<open>The multi-counter under interference\<close>

abbreviation counts_mc :: "mcounter \<Rightarrow> int list" where
  "counts_mc g \<equiv> map mc_count (array_mc g)"

inductive mc_step :: "nat \<Rightarrow> mcounter \<Rightarrow> mcounter \<Rightarrow> bool" for t g where
  mc_inc: "i < length (array_mc g) \<Longrightarrow> mc_count d = mc_count (array_mc g ! i) + 1 \<Longrightarrow>
     mc_step t g (g\<lparr>array_mc := (array_mc g)[i := d], incs_mc := t # incs_mc g\<rparr>)"
| mc_dec: "i < length (array_mc g) \<Longrightarrow> mc_count (array_mc g ! i) \<noteq> 0 \<Longrightarrow> mc_count d = mc_count (array_mc g ! i) - 1 \<Longrightarrow>
     mc_step t g (g\<lparr>array_mc := (array_mc g)[i := d], decs_mc := t # decs_mc g\<rparr>)"

definition mc_left :: "mcounter \<Rightarrow> bool" where
  "mc_left g \<longleftrightarrow> (\<forall>c \<in> set (counts_mc g). c < INT64_MAX)"

definition mc_inv :: "nat \<Rightarrow> mcounter \<Rightarrow> bool" where
  "mc_inv w g \<longleftrightarrow> 0 < w \<and> length (array_mc g) = w \<and> (\<forall>c \<in> set (counts_mc g). 0 \<le> c) \<and>
     sum_list (counts_mc g) + int (length (decs_mc g)) = int (length (incs_mc g))"

lemma sum_list_update_int:
  fixes xs :: "int list"
  shows "i < length xs \<Longrightarrow> sum_list (xs[i := v]) = sum_list xs + v - xs ! i"
proof (induction xs arbitrary: i)
  case (Cons x xs)
  then show ?case by (cases i) auto
qed simp

lemma mc_inv_update:
  assumes "mc_inv w g" "i < length (array_mc g)" "0 \<le> mc_count d" "array_mc g' = (array_mc g)[i := d]"
    and "int (length (incs_mc g')) - int (length (decs_mc g')) =
      int (length (incs_mc g)) - int (length (decs_mc g)) + mc_count d - mc_count (array_mc g ! i)"
  shows "mc_inv w g'"
proof -
  have "counts_mc g' = (counts_mc g)[i := mc_count d]" using assms(4) by (simp add: map_update)
  moreover have "set ((counts_mc g)[i := mc_count d]) \<subseteq> insert (mc_count d) (set (counts_mc g))" by (rule set_update_subset_insert)
  ultimately show ?thesis
    using assms sum_list_update_int [of i "counts_mc g" "mc_count d"] unfolding mc_inv_def by auto
qed

interpretation mc: counter_protocol mc_step mc_left "mc_inv w" incs_mc decs_mc for w
proof (unfold_locales, goal_cases)
  case (1 g t g')
  have pos: "0 \<le> mc_count (array_mc g ! i)" if "i < length (array_mc g)" for i using 1(1) that by (auto simp: mc_inv_def)
  from 1(2) show ?case
  proof cases
    case (mc_inc i d)
    show ?thesis using mc_inc(3) pos [OF mc_inc(2)] by (intro mc_inv_update [OF 1(1) mc_inc(2), of d]) (simp_all add: mc_inc(1))
  next
    case (mc_dec i d)
    show ?thesis using mc_dec(3,4) pos [OF mc_dec(2)] by (intro mc_inv_update [OF 1(1) mc_dec(2), of d]) (simp_all add: mc_dec(1))
  qed
next
  case (2 t g g')
  then show ?case by cases auto
qed

lemma mc_count_bounds:
  "mc.known w t s g \<Longrightarrow> i < w \<Longrightarrow> i < length (array_mc g) \<and> 0 \<le> mc_count (array_mc g ! i) \<and> mc_count (array_mc g ! i) < INT64_MAX"
  using mc.knownD [of w t s g] by (auto simp: mc_inv_def mc_left_def)

lemma ok_load_version_mc:
  assumes "mc.known w t s g" "i < w" "\<And>h v. mc.known w t s h \<Longrightarrow> ok mc_step mc_left t (k v) Q h"
  shows "ok mc_step mc_left t (pbind (load_version_mc i) k) Q g"
  unfolding load_version_mc_def using assms(3) mc_count_bounds [OF _ assms(2)] by (intro mc.ok_read [OF assms(1)]) auto

lemma ok_load_count_mc:
  assumes "mc.known w t s g" "i < w"
    "\<And>h c. mc.known w t s h \<Longrightarrow> 0 \<le> c \<Longrightarrow> c < INT64_MAX \<Longrightarrow> ok mc_step mc_left t (k c) Q h"
  shows "ok mc_step mc_left t (pbind (load_count_mc i) k) Q g"
  unfolding load_count_mc_def using assms(3) mc_count_bounds [OF _ assms(2)] by (intro mc.ok_read [OF assms(1)]) auto

text \<open>What the two search functions hand out: an index in range and a count that has been in that place or another.\<close>

definition mc_handed :: "nat \<Rightarrow> nat \<Rightarrow> nat \<times> nat \<Rightarrow> mc_desc \<times> mctl \<Rightarrow> mcounter \<Rightarrow> bool" where
  "mc_handed w t s = (\<lambda>(d, l) g. mc.known w t s g \<and> thread_index_mc l < w \<and> 0 \<le> mc_count d \<and> mc_count d < INT64_MAX)"

lemma mc_handed_Ret: "mc_handed w t s (d, l) g \<Longrightarrow> ok mc_step mc_left t (Ret (d, l)) (mc_handed w t s) g"
  using mc.known_envs [of t g _ w s] by (auto simp: mc_handed_def)

lemma get_increment_index_loop_ok:
  "0 < w \<Longrightarrow> mc_handed w t s (d, l) g \<Longrightarrow> ok mc_step mc_left t (get_increment_index_loop n w d l) (mc_handed w t s) g"
proof (induction n arbitrary: d l g)
  case (Suc n)
  then have "mc.known w t s g" by (simp add: mc_handed_def)
  then show ?case unfolding get_increment_index_loop.simps random_index_mc_def
    using Suc.prems by (intro ok_random_mod, simp, unfold prod.case, intro ok_load_version_mc ok_load_count_mc ok_if Suc.IH)
      (auto simp: mc_handed_def)
qed (simp only: get_increment_index_loop.simps mc_handed_Ret)

lemma get_decrement_index_loop_ok:
  "0 < w \<Longrightarrow> mc_handed w t s (d, l) g \<Longrightarrow> ok mc_step mc_left t (get_decrement_index_loop n w d l) (mc_handed w t s) g"
proof (induction n arbitrary: d l g)
  case (Suc n)
  then have "mc.known w t s g" by (simp add: mc_handed_def)
  then show ?case unfolding get_decrement_index_loop.simps random_index_mc_def
    using Suc.prems by (intro ok_random_mod, simp, unfold prod.case, intro ok_load_version_mc ok_load_count_mc ok_if Suc.IH)
      (auto simp: mc_handed_def)
qed (simp only: get_decrement_index_loop.simps mc_handed_Ret)

lemma get_index_ok:
  assumes "mc.known w t s g"
  shows "ok mc_step mc_left t (get_increment_index c w l) (mc_handed w t s) g"
    and "ok mc_step mc_left t (get_decrement_index c w l) (mc_handed w t s) g"
proof -
  have w: "0 < w" using mc.knownD [OF assms] by (simp add: mc_inv_def)
  show "ok mc_step mc_left t (get_increment_index c w l) (mc_handed w t s) g"
    unfolding get_increment_index_def random_index_mc_def using w assms
    by (intro ok_random_mod, simp, unfold prod.case, intro ok_load_version_mc ok_load_count_mc get_increment_index_loop_ok)
      (auto simp: mc_handed_def)
  show "ok mc_step mc_left t (get_decrement_index c w l) (mc_handed w t s) g"
    unfolding get_decrement_index_def random_index_mc_def using w assms
    by (intro ok_random_mod, simp, unfold prod.case, intro ok_load_version_mc ok_load_count_mc get_decrement_index_loop_ok)
      (auto simp: mc_handed_def)
qed

abbreviation mc_post :: "nat \<Rightarrow> nat \<Rightarrow> counter_call \<Rightarrow> nat \<times> nat \<Rightarrow> nat \<times> mctl \<Rightarrow> mcounter \<Rightarrow> bool" where
  "mc_post w t c s \<equiv> (\<lambda>(r, l) h. True \<and> (\<exists>s'. counter_hist c s r s' \<and> mc.known w t s' h))"

text \<open>The two ways to change a count, and what a thread has to show for each.\<close>

lemma ok_cae_mc:
  assumes k: "mc.known w t (a, b) g" and i: "i < w"
    and step: "\<And>h. mc.known w t (a, b) h \<Longrightarrow> i < length (array_mc h) \<Longrightarrow> array_mc h ! i = old \<Longrightarrow>
      mc_step t h (gh (h\<lparr>array_mc := (array_mc h)[i := new]\<rparr>)) \<and>
      s = (count_list (incs_mc (gh (h\<lparr>array_mc := (array_mc h)[i := new]\<rparr>))) t, count_list (decs_mc (gh (h\<lparr>array_mc := (array_mc h)[i := new]\<rparr>))) t)"
    and finish: "\<And>h. mc.known w t s h \<Longrightarrow> ok mc_step mc_left t (f True) Q h"
    and retry: "\<And>h. mc.known w t (a, b) h \<Longrightarrow> ok mc_step mc_left t (f False) Q h"
  shows "ok mc_step mc_left t (pbind (cae_mc i old new gh) f) Q g"
  unfolding cae_mc_def pbind.simps
proof (rule mc.ok_attempt [OF k, where s = s], goal_cases)
  case (1 h)
  then show ?case using step [OF 1(1)] finish by (simp add: at_eq_Some del: ok.simps)
next
  case (2 h)
  then show ?case using retry [OF 2(1)] by (simp del: ok.simps)
qed

lemma ok_cas_count_mc:
  assumes k: "mc.known w t (a, b) g" and i: "i < w"
    and step: "\<And>h. mc.known w t (a, b) h \<Longrightarrow> i < length (array_mc h) \<Longrightarrow> mc_count (array_mc h ! i) = old \<Longrightarrow>
      mc_step t h (gh (h\<lparr>array_mc := (array_mc h)[i := (array_mc h ! i)\<lparr>mc_count := new\<rparr>]\<rparr>)) \<and>
      s = (count_list (incs_mc (gh (h\<lparr>array_mc := (array_mc h)[i := (array_mc h ! i)\<lparr>mc_count := new\<rparr>]\<rparr>))) t,
           count_list (decs_mc (gh (h\<lparr>array_mc := (array_mc h)[i := (array_mc h ! i)\<lparr>mc_count := new\<rparr>]\<rparr>))) t)"
    and finish: "\<And>h. mc.known w t s h \<Longrightarrow> ok mc_step mc_left t (f True) Q h"
    and retry: "\<And>h. mc.known w t (a, b) h \<Longrightarrow> ok mc_step mc_left t (f False) Q h"
  shows "ok mc_step mc_left t (pbind (cas_count_mc i old new gh) f) Q g"
  unfolding cas_count_mc_def pbind.simps
proof (rule mc.ok_attempt [OF k, where s = s], goal_cases)
  case (1 h)
  then have "i < length (array_mc h)" "mc_count (array_mc h ! i) = old" using mc_count_bounds [OF 1(1) i] by simp_all
  note st = step [OF 1(1) this]
  show ?case using 1(2) st finish by (simp del: ok.simps)
next
  case (2 h)
  then show ?case using retry [OF 2(1)] by (simp del: ok.simps map_option_eq_Some)
qed

lemma increment_mc_ok:
  assumes "mc.known w t (a, b) g"
  shows "ok mc_step mc_left t (increment_mc ch w n t l) (mc_post w t Inc (a, b)) g"
  using assms
proof (induction n arbitrary: l g)
  case (Suc n)
  have w: "0 < w" using mc.knownD [OF Suc.prems] by (simp add: mc_inv_def)
  show ?case
  proof (cases ch)
    case (Some c)
    show ?thesis
      unfolding increment_mc.simps Let_def Some option.case
    proof (rule ok_bind_mono [OF get_index_ok(1) [OF Suc.prems]], clarify, rule ok_assert, goal_cases)
      case (2 d l' h)
      then have d: "mc.known w t (a, b) h" "thread_index_mc l' < w" by (simp_all add: mc_handed_def)
      show ?case
      proof (rule ok_cae_mc [OF d, where s = "(a + 1, b)"], goal_cases)
        case (1 h')
        then show ?case using mc_inc [of "thread_index_mc l'" h' "\<lparr>mc_count = mc_count d + 1, mc_version = add64 (mc_version d) 1\<rparr>" t]
          by (simp add: inc_ghost_def mc.known_def)
      next
        case (2 h')
        show ?case unfolding if_True by (rule mc.ok_done [OF 2]) simp_all
      next
        case (3 h')
        show ?case unfolding if_False by (rule Suc.IH [unfolded Some, OF 3])
      qed
    qed (simp add: mc_handed_def)
  next
    case None
    show ?thesis
      unfolding increment_mc.simps Let_def None option.case random_index_mc_def
    proof (rule ok_random_mod [OF w], unfold prod.case, rule ok_load_count_mc [OF Suc.prems], assumption, rule ok_assert, goal_cases)
      case (2 i sd h c)
      show ?case
      proof (rule ok_cas_count_mc [OF 2(2,1), where s = "(a + 1, b)"], goal_cases)
        case (1 h')
        then show ?case using mc_inc [of i h' "(array_mc h' ! i)\<lparr>mc_count := c + 1\<rparr>" t]
          by (simp add: inc_ghost_def mc.known_def)
      next
        case (2 h')
        show ?case unfolding if_True by (rule mc.ok_done [OF 2]) simp_all
      next
        case (3 h')
        show ?case unfolding if_False by (rule Suc.IH [unfolded None, OF 3])
      qed
    qed
  qed
qed simp

lemma decrement_mc_ok:
  assumes "mc.known w t (a, b) g"
  shows "ok mc_step mc_left t (decrement_mc True ch w n t l) (mc_post w t Dec (a, b)) g"
  using assms
proof (induction n arbitrary: l g)
  case (Suc n)
  have w: "0 < w" using mc.knownD [OF Suc.prems] by (simp add: mc_inv_def)
  have null: "ok mc_step mc_left t (Ret (0, l\<lparr>my_null_count := m\<rparr>)) (mc_post w t Dec (a, b)) h"
    if "mc.known w t (a, b) h" for l :: mctl and m h by (rule mc.ok_done [OF that]) simp_all
  show ?case
  proof (cases ch)
    case (Some c)
    show ?thesis
      unfolding decrement_mc.simps Let_def Some option.case
    proof (rule ok_bind_mono [OF get_index_ok(2) [OF Suc.prems]], clarify, rule ok_if, goal_cases)
      case (1 d l' h)
      then show ?case by (intro null) (simp add: mc_handed_def)
    next
      case (2 d l' h)
      then have d: "mc.known w t (a, b) h" "thread_index_mc l' < w" "0 \<le> mc_count d" by (simp_all add: mc_handed_def)
      show ?case
      proof (rule ok_assert, simp add: INT64_MAX_def d(3) order.strict_trans2 [OF _ d(3)],
          rule ok_cae_mc [OF d(1,2), where s = "(a, b + 1)"], goal_cases)
        case (1 h')
        then show ?case using 2(2) mc_dec [of "thread_index_mc l'" h' "\<lparr>mc_count = mc_count d - 1, mc_version = add64 (mc_version d) 1\<rparr>" t]
          by (simp add: dec_ghost_def mc.known_def)
      next
        case (2 h')
        show ?case unfolding if_True by (rule mc.ok_done [OF 2]) simp_all
      next
        case (3 h')
        show ?case unfolding if_False by (rule Suc.IH [unfolded Some, OF 3])
      qed
    qed
  next
    case None
    show ?thesis
      unfolding decrement_mc.simps Let_def None option.case random_index_mc_def
    proof (rule ok_random_mod [OF w], unfold prod.case, rule ok_load_count_mc [OF Suc.prems], assumption, rule ok_if, goal_cases)
      case (1 i sd h c)
      show ?case
      proof (rule ok_assert, simp add: INT64_MAX_def order.strict_trans2 [OF _ 1(3)],
          rule ok_cas_count_mc [OF 1(2,1), where s = "(a, b + 1)"], goal_cases)
        case (1 h')
        then show ?case using \<open>c \<noteq> 0\<close> mc_dec [of i h' "(array_mc h' ! i)\<lparr>mc_count := c - 1\<rparr>" t]
          by (simp add: dec_ghost_def mc.known_def)
      next
        case (2 h')
        show ?case unfolding if_True by (rule mc.ok_done [OF 2]) simp_all
      next
        case (3 h')
        show ?case unfolding if_False by (rule Suc.IH [unfolded None, OF 3])
      qed
    next
      case (2 i sd h c)
      then show ?case by (intro null)
    qed
  qed
qed simp

interpretation mc_threads: threads mc_step mc_left "mc_inv w" "mc_call True ch w fuel" "mc.known w" "\<lambda>_. True" counter_hist for w ch fuel
proof (unfold_locales, goal_cases)
  case (1 t s g g')
  then show ?case by (rule mc.known_env)
next
  case (2 t s g l c)
  obtain a b where s: "s = (a, b)" by (cases s)
  show ?case using increment_mc_ok decrement_mc_ok 2(1) unfolding s
    by (cases c) (simp_all only: mc_call_def counter_call.case)
qed

lemma map_nth_upt: "map (\<lambda>i. f (xs ! i)) [0 ..< length xs] = map f xs"
  by (rule nth_equalityI) simp_all

lemma run_counter_size_loop_mc:
  assumes "\<forall>i \<in> set is. i < length (array_mc g)" "sz < W64"
  shows "run (counter_size_loop_mc is sz) g = (Done (nat ((int sz + (\<Sum>i\<leftarrow>is. mc_count (array_mc g ! i))) mod int W64)), g)"
  using assms
proof (induction "is" arbitrary: sz)
  case (Cons i "is")
  let ?sz = "nat ((int sz + mc_count (array_mc g ! i)) mod int W64)"
  have "?sz < W64" by (simp add: nat_less_iff)
  then show ?case using Cons by (simp add: load_count_mc_def rd_opt_def mod_add_left_eq add.assoc)
qed simp

lemma run_counter_size_mc:
  "length (array_mc g) = w \<Longrightarrow> run (counter_size_mc w) g = (Done (nat (sum_list (counts_mc g) mod int W64)), g)"
  using run_counter_size_loop_mc [of "[0 ..< w]" g 0] map_nth_upt [of mc_count "array_mc g"] by (simp add: counter_size_mc_def)

lemma multi_counter_total:
  assumes w: "0 < w" and ls: "length ls = length css"
    and run: "pool_reaches mc_left (client_pool (mc_call True ch w fuel) css ls, create_counter_mc w) (ps, g)"
    and rss: "map prog_result ps = map Some rss"
  shows "Fault \<notin> set ps \<and> filter (\<lambda>c. c < 0) (counts_mc g) = [] \<and>
    sum_list (counts_mc g) = (\<Sum>t < length css. int (count_list (css ! t) Inc)) - (\<Sum>t < length css. int (dec_results (css ! t) (rss ! t))) \<and>
    run (counter_size_mc w) g = (Done (nat (sum_list (counts_mc g) mod int W64)), g)"
proof -
  have k: "mc.known w t (0, 0) (create_counter_mc w)" for t
    using w by (auto simp: mc.known_def mc_inv_def mc_left_def create_counter_mc_def INT64_MAX_def sum_list_replicate map_replicate_const)
  have fit: "\<forall>l \<in> set ls. True" by simp
  note p = mc_threads.pool_clients [OF run, of "(0, 0)", OF k ls fit conjunct1 [OF mc.knownD [OF k [of 0]]]]
  have inv: "Fault \<notin> set ps" "mc_inv w g" using p(1) by simp_all
  note logs = mc.logs_of_threads [OF p(2) [OF rss] p(3)]
  have "sum_list (counts_mc g) = int (length (incs_mc g)) - int (length (decs_mc g))" using inv(2) by (simp add: mc_inv_def)
  moreover have "int (length (incs_mc g)) = (\<Sum>t < length css. int (count_list (css ! t) Inc))"
    "int (length (decs_mc g)) = (\<Sum>t < length css. int (dec_results (css ! t) (rss ! t)))" by (simp_all add: logs)
  ultimately show ?thesis using inv run_counter_size_mc [of g w] by (auto simp: mc_inv_def filter_empty_conv not_less)
qed

definition fresh_mctl :: "seeds \<Rightarrow> mctl" where
  "fresh_mctl s = \<lparr>seeds = s, my_put_cas_fail_count = 0, my_get_cas_fail_count = 0, my_null_count = 0, my_hop_count = 0,
     my_slide_count = 0, my_slide_fail_count = 0, thread_index_mc = 0\<rparr>"

definition demo_mc_run :: "(mcounter, nat list) prog list \<times> mcounter" where
  "demo_mc_run = sched mc_left (concat (replicate 25 [0, 1]))
     (client_pool (mc_call True (Some 2) 2 5) [[Inc, Dec], [Inc, Inc]] [fresh_mctl (1, 2, 3), fresh_mctl (4, 5, 6)], create_counter_mc 2)"

section \<open>The counter with fetch-and-add under interference\<close>

inductive faa_step :: "nat \<Rightarrow> faa_counter \<Rightarrow> faa_counter \<Rightarrow> bool" for t g where
  faa_inc: "i < length (array_faa g) \<Longrightarrow>
     faa_step t g (g\<lparr>array_faa := (array_faa g)[i := add64 (array_faa g ! i) 1], incs_faa := t # incs_faa g\<rparr>)"
| faa_dec: "i < length (array_faa g) \<Longrightarrow>
     faa_step t g (g\<lparr>array_faa := (array_faa g)[i := sub64 (array_faa g ! i) 1], decs_faa := t # decs_faa g\<rparr>)"

definition faa_inv :: "nat \<Rightarrow> faa_counter \<Rightarrow> bool" where
  "faa_inv w g \<longleftrightarrow> 0 < w \<and> length (array_faa g) = w \<and>
     (sum_list (array_faa g) + length (decs_faa g)) mod W64 = length (incs_faa g) mod W64"

lemma sum_list_update_mod:
  fixes xs :: "nat list"
  assumes "i < length xs" "(v + b) mod W = (xs ! i + a) mod W"
  shows "(sum_list (xs[i := v]) + (b + m)) mod W = (sum_list xs + (a + m)) mod W"
proof -
  define r where "r = sum_list (xs[i := 0])"
  have r: "sum_list (xs[i := v]) = r + v" "sum_list xs = r + xs ! i"
    using sum_list_update_nat [OF assms(1), of v] sum_list_update_nat [OF assms(1), of 0] by (simp_all add: r_def)
  have "((v + b) + (r + m)) mod W = ((xs ! i + a) + (r + m)) mod W" by (rule mod_add_cong [OF assms(2) refl])
  then show ?thesis unfolding r by (simp only: ac_simps)
qed

lemma sub64_back: "(sub64 a 1 + 1) mod W64 = a mod W64"
proof -
  have "(sub64 a 1 + 1) mod W64 = (a + (W64 - 1) + 1) mod W64" unfolding sub64_def mod_add_left_eq by (simp add: W64_def)
  also have "\<dots> = a mod W64" by (simp add: W64_def)
  finally show ?thesis .
qed

interpretation faa: counter_protocol faa_step "\<lambda>_. True" "faa_inv w" incs_faa decs_faa for w
proof (unfold_locales, goal_cases)
  case (1 g t g')
  from 1(2) show ?case
  proof cases
    case (faa_inc i)
    have "(add64 (array_faa g ! i) 1 + 0) mod W64 = (array_faa g ! i + 1) mod W64" by (simp add: add64_def)
    note upd = sum_list_update_mod [OF faa_inc(2) this, of "length (decs_faa g)"]
    have "(sum_list (array_faa g) + (1 + length (decs_faa g))) mod W64 = (length (incs_faa g) + 1) mod W64"
      using 1(1) mod_add_cong [of "sum_list (array_faa g) + length (decs_faa g)" W64 "length (incs_faa g)" 1 1]
      by (simp add: faa_inv_def ac_simps)
    then show ?thesis using 1(1) upd by (simp add: faa_inc(1) faa_inv_def Suc_eq_plus1)
  next
    case (faa_dec i)
    have "(sub64 (array_faa g ! i) 1 + 1) mod W64 = (array_faa g ! i + 0) mod W64" using sub64_back by simp
    from sum_list_update_mod [OF faa_dec(2) this, of "length (decs_faa g)"]
    show ?thesis using 1(1) by (simp add: faa_dec(1) faa_inv_def Suc_eq_plus1 ac_simps)
  qed
next
  case (2 t g g')
  then show ?case by cases auto
qed

lemma ok_add_fetch:
  assumes k: "faa.known w t (a, b) g" and i: "i < w"
    and step: "\<And>h. i < length (array_faa h) \<Longrightarrow> count_list (incs_faa h) t = a \<Longrightarrow> count_list (decs_faa h) t = b \<Longrightarrow>
      faa_step t h (gh (h\<lparr>array_faa := (array_faa h)[i := f (array_faa h ! i)]\<rparr>)) \<and>
      s = (count_list (incs_faa (gh (h\<lparr>array_faa := (array_faa h)[i := f (array_faa h ! i)]\<rparr>))) t,
           count_list (decs_faa (gh (h\<lparr>array_faa := (array_faa h)[i := f (array_faa h ! i)]\<rparr>))) t)"
    and finish: "\<And>h v. faa.known w t s h \<Longrightarrow> ok faa_step (\<lambda>_. True) t (k v) Q h"
  shows "ok faa_step (\<lambda>_. True) t (pbind (add_fetch i f gh) k) Q g"
  unfolding add_fetch_def pbind.simps
proof (rule faa.ok_attempt [OF k, where s = s], goal_cases)
  case (1 h)
  then show ?case using step [OF 1(2)] finish by (simp add: faa.known_def del: ok.simps)
next
  case (2 h)
  then show ?case using i by (simp add: faa.known_def faa_inv_def)
qed

interpretation faa_threads: threads faa_step "\<lambda>_. True" "faa_inv w" "faa_call w" "faa.known w" "\<lambda>_. True" counter_hist for w
proof (unfold_locales, goal_cases)
  case (1 t s g g')
  then show ?case by (rule faa.known_env)
next
  case (2 t s g l c)
  obtain a b where s: "s = (a, b)" by (cases s)
  have k: "faa.known w t (a, b) g" using 2(1) s by simp
  then have w: "0 < w" by (simp add: faa.known_def faa_inv_def)
  have fin: "ok faa_step (\<lambda>_. True) t (Ret (1, l)) (\<lambda>(r, l) h. True \<and> (\<exists>s'. counter_hist c (a, b) r s' \<and> faa.known w t s' h)) h"
    if "faa.known w t (case c of Inc \<Rightarrow> (a + 1, b) | Dec \<Rightarrow> (a, b + 1)) h" for l :: mctl and h
    by (rule faa.ok_done [OF that]) (cases c, simp_all)
  show ?case unfolding s faa_call_def
  proof (cases c, goal_cases)
    case 1
    show ?case unfolding 1 counter_call.case increment_faa_def random_index_faa_def Let_def
    proof (rule ok_random_mod [OF w], unfold prod.case, rule ok_add_fetch [OF k, where s = "(a + 1, b)"], assumption, goal_cases)
      case (1 i sd h)
      then show ?case using faa_inc [of i h t] by simp
    next
      case (2 i sd h v)
      then show ?case using fin \<open>c = Inc\<close> by simp
    qed
  next
    case 2
    show ?case unfolding 2 counter_call.case decrement_faa_def random_index_faa_def Let_def
    proof (rule ok_random_mod [OF w], unfold prod.case, rule ok_add_fetch [OF k, where s = "(a, b + 1)"], assumption, goal_cases)
      case (1 i sd h)
      then show ?case using faa_dec [of i h t] by simp
    next
      case (2 i sd h v)
      then show ?case using fin \<open>c = Dec\<close> by simp
    qed
  qed
qed

lemma run_counter_size_loop_faa:
  assumes "\<forall>i \<in> set is. i < length (array_faa g)" "sz < W64"
  shows "run (counter_size_loop_faa is sz) g = (Done ((sz + (\<Sum>i\<leftarrow>is. array_faa g ! i)) mod W64), g)"
  using assms
proof (induction "is" arbitrary: sz)
  case (Cons i "is")
  then show ?case by (simp add: rd_opt_def add64_def mod_add_left_eq add.assoc)
qed simp

lemma run_counter_size_faa: "length (array_faa g) = w \<Longrightarrow> run (counter_size_faa w) g = (Done (sum_list (array_faa g) mod W64), g)"
  using run_counter_size_loop_faa [of "[0 ..< w]" g 0] map_nth_upt [of "\<lambda>x. x" "array_faa g"] by (simp add: counter_size_faa_def)

lemma faa_counter_total:
  assumes w: "0 < w" and ls: "length ls = length css"
    and run: "pool_reaches (\<lambda>_. True) (client_pool (faa_call w) css ls, create_counter_faa w) (ps, g)"
    and rss: "map prog_result ps = map Some rss"
  shows "Fault \<notin> set ps \<and> (\<exists>n < W64. run (counter_size_faa w) g = (Done n, g) \<and>
    (n + (\<Sum>t < length css. dec_results (css ! t) (rss ! t))) mod W64 = (\<Sum>t < length css. count_list (css ! t) Inc) mod W64)"
proof -
  have k: "faa.known w t (0, 0) (create_counter_faa w)" for t
    using w by (simp add: faa.known_def faa_inv_def create_counter_faa_def sum_list_replicate)
  have fit: "\<forall>l \<in> set ls. True" by simp
  note p = faa_threads.pool_clients [OF run, of "(0, 0)", OF k ls fit conjunct1 [OF faa.knownD [OF k [of 0]]]]
  have inv: "Fault \<notin> set ps" "faa_inv w g" using p(1) by simp_all
  note logs = faa.logs_of_threads [OF p(2) [OF rss] p(3)]
  have "(sum_list (array_faa g) mod W64 + length (decs_faa g)) mod W64 = length (incs_faa g) mod W64"
    using inv(2) by (simp add: faa_inv_def mod_add_left_eq)
  moreover have "run (counter_size_faa w) g = (Done (sum_list (array_faa g) mod W64), g)"
    using inv(2) by (simp add: faa_inv_def run_counter_size_faa)
  moreover have "length (incs_faa g) = (\<Sum>t < length css. count_list (css ! t) Inc)"
    "length (decs_faa g) = (\<Sum>t < length css. dec_results (css ! t) (rss ! t))" by (simp_all add: logs)
  ultimately show ?thesis using inv(1) by (auto intro!: exI [of _ "sum_list (array_faa g) mod W64"])
qed

text \<open>
  C20. The counters spread over an array of sub-counters lose no update under concurrency. Any number of threads run any lists of
  increments and decrements from a new counter, interleaved at every access to shared memory. No thread faults. For the
  multi-counter, with and without \<^verbatim>\<open>NUM_CHOICES\<close> and as long as no
  sub-counter reaches the largest \<^verbatim>\<open>int64_t\<close>, no sub-counter is negative, and when all threads have finished, the sum of
  the sub-counters is the number of increments less the number of decrements that returned 1
  (with \<^verbatim>\<open>VALIDATESIZE\<close>), and \<^verbatim>\<open>counter_size\<close> returns it. The fetch-and-add counter is exact at rest on the 64-bit circle, for runs of any
  length: when all calls have returned \<^verbatim>\<open>counter_size\<close> returns the number \<open>n\<close> that
  with the number of decrements added is the number of increments, modulo \<open>2 ^ 64\<close>. A decrement of an empty counter makes it negative
  (\<open>n\<close> is \<open>2 ^ 64\<close> less the missing increments): the code has no empty test.
\<close>

theorem multi_counters_no_lost_update:
  assumes "0 < w" "length ls = length css"
    and "pool_reaches mc_left (client_pool (mc_call True ch w fuel) css ls, create_counter_mc w) (ps, g)" "map prog_result ps = map Some rss"
    and "pool_reaches (\<lambda>_. True) (client_pool (faa_call w) css ls, create_counter_faa w) (qs, h)" "map prog_result qs = map Some uss"
  shows "(Fault \<notin> set ps \<and> filter (\<lambda>c. c < 0) (counts_mc g) = [] \<and>
    sum_list (counts_mc g) = (\<Sum>t < length css. int (count_list (css ! t) Inc)) - (\<Sum>t < length css. int (dec_results (css ! t) (rss ! t))) \<and>
    run (counter_size_mc w) g = (Done (nat (sum_list (counts_mc g) mod int W64)), g)) \<and>
   Fault \<notin> set qs \<and> (\<exists>n < W64. run (counter_size_faa w) h = (Done n, h) \<and>
    (n + (\<Sum>t < length css. dec_results (css ! t) (uss ! t))) mod W64 = (\<Sum>t < length css. count_list (css ! t) Inc) mod W64)"
  using multi_counter_total [OF assms(1-4)] faa_counter_total [OF assms(1,2,5,6)] by (rule conjI)

definition demo_faa_run :: "(faa_counter, nat list) prog list \<times> faa_counter" where
  "demo_faa_run = sched (\<lambda>_. True) [0, 1, 1, 0]
     (client_pool (faa_call 2) [[Inc, Dec], [Inc, Inc]] [fresh_mctl (1, 2, 3), fresh_mctl (4, 5, 6)], create_counter_faa 2)"

theorem multi_counters_no_lost_update_witness:
  "(Fault \<notin> set (fst demo_mc_run) \<and> filter (\<lambda>c. c < 0) (counts_mc (snd demo_mc_run)) = [] \<and>
    sum_list (counts_mc (snd demo_mc_run)) =
      (\<Sum>t < length [[Inc, Dec], [Inc, Inc]]. int (count_list ([[Inc, Dec], [Inc, Inc]] ! t) Inc)) -
      (\<Sum>t < length [[Inc, Dec], [Inc, Inc]]. int (dec_results ([[Inc, Dec], [Inc, Inc]] ! t) ([[2, 1], [2, 2]] ! t))) \<and>
    run (counter_size_mc 2) (snd demo_mc_run) = (Done (nat (sum_list (counts_mc (snd demo_mc_run)) mod int W64)), snd demo_mc_run)) \<and>
   Fault \<notin> set (fst demo_faa_run) \<and> (\<exists>n < W64. run (counter_size_faa 2) (snd demo_faa_run) = (Done n, snd demo_faa_run) \<and>
    (n + (\<Sum>t < length [[Inc, Dec], [Inc, Inc]]. dec_results ([[Inc, Dec], [Inc, Inc]] ! t) ([[1, 1], [1, 1]] ! t))) mod W64 =
    (\<Sum>t < length [[Inc, Dec], [Inc, Inc]]. count_list ([[Inc, Dec], [Inc, Inc]] ! t) Inc) mod W64)"
proof (rule multi_counters_no_lost_update)
  show "pool_reaches mc_left
     (client_pool (mc_call True (Some 2) 2 5) [[Inc, Dec], [Inc, Inc]] [fresh_mctl (1, 2, 3), fresh_mctl (4, 5, 6)], create_counter_mc 2)
     (fst demo_mc_run, snd demo_mc_run)"
    unfolding demo_mc_run_def prod.collapse by (rule sched_reaches)
  show "map prog_result (fst demo_mc_run) = map Some [[2, 1], [2, 2]]"
    by (simp add: demo_mc_run_def client_pool_def fresh_mctl_def mc_left_def prog_unfold upt_rec cong: eval_cong)
  show "pool_reaches (\<lambda>_. True)
     (client_pool (faa_call 2) [[Inc, Dec], [Inc, Inc]] [fresh_mctl (1, 2, 3), fresh_mctl (4, 5, 6)], create_counter_faa 2)
     (fst demo_faa_run, snd demo_faa_run)"
    unfolding demo_faa_run_def prod.collapse by (rule sched_reaches)
  show "map prog_result (fst demo_faa_run) = map Some [[1, 1], [1, 1]]"
    by (simp add: demo_faa_run_def client_pool_def fresh_mctl_def prog_unfold upt_rec cong: eval_cong)
qed simp_all

end
