(* ===== verification/Single_Counters.thy ===== *)
theory Single_Counters
  imports Relaxed_Counter Thread_Random
begin

text \<open>
  The exact counters the relaxed ones are measured against: \<^verbatim>\<open>src/single-cas/single-cas.h\<close>, one 64-bit integer
  changed by a compare-and-swap loop, and \<^verbatim>\<open>src/single-faa/single-faa.h\<close>, one changed by \<^verbatim>\<open>atomic_fetch_add\<close>.
  Both are linearizable: the calls of all threads have one common order, which keeps the order
  of each thread, in which their answers are those of a counter used by one thread.

  The integer is a 64-bit word read as signed. \<^verbatim>\<open>atomic_fetch_add\<close> wraps silently; the
  \<^verbatim>\<open>oldValue + 1\<close> of the compare-and-swap loop is signed arithmetic, whose overflow is undefined and a fault here.
  The ghost list \<open>lin\<close> logs every call at the action that gives it effect.
\<close>

section \<open>The counters\<close>

type_synonym i64 = "64 word"

record scounter =
  value_s :: i64
  lin :: "(nat \<times> counter_call \<times> i64) list"

definition commit :: "nat \<Rightarrow> counter_call \<Rightarrow> i64 \<Rightarrow> i64 \<Rightarrow> scounter \<Rightarrow> scounter" where
  "commit t c r v g = g\<lparr>value_s := v, lin := lin g @ [(t, c, r)]\<rparr>"

definition create_single :: scounter where
  "create_single = \<lparr>value_s = 0, lin = []\<rparr>"

text \<open>
  \<^verbatim>\<open>atomic_compare_exchange_weak\<close> may fail although the value is the expected one. \<open>sp n\<close> tells whether it does so
  when \<open>n\<close> attempts are left; on failure it hands back the value found.
\<close>

definition cae_weak :: "bool \<Rightarrow> nat \<Rightarrow> counter_call \<Rightarrow> i64 \<Rightarrow> i64 \<Rightarrow> i64 \<Rightarrow> (scounter, bool \<times> i64) prog" where
  "cae_weak spurious t c r expected desired =
     Act (\<lambda>g. if value_s g = expected \<and> \<not> spurious then commit t c r desired g else g)
         (\<lambda>g. Ret (value_s g = expected \<and> \<not> spurious, value_s g))"

fun inc_cas_loop :: "(nat \<Rightarrow> bool) \<Rightarrow> nat \<Rightarrow> nat \<Rightarrow> i64 \<Rightarrow> tls \<Rightarrow> (scounter, i64 \<times> tls) prog" where
  "inc_cas_loop sp 0 t oldValue l = NoFuel"
| "inc_cas_loop sp (Suc n) t oldValue l =
     pbind (assert (oldValue \<noteq> 0x7FFFFFFFFFFFFFFF)) (\<lambda>_.
     pbind (cae_weak (sp n) t Inc oldValue oldValue (oldValue + 1)) (\<lambda>(success, found).
     if success then Ret (oldValue, l)
     else inc_cas_loop sp n t found (l\<lparr>my_put_cas_fail_count := add64 (my_put_cas_fail_count l) 1\<rparr>)))"

definition inc_cas :: "(nat \<Rightarrow> bool) \<Rightarrow> nat \<Rightarrow> nat \<Rightarrow> tls \<Rightarrow> (scounter, i64 \<times> tls) prog" where
  "inc_cas sp fuel t l = pbind (rd value_s) (\<lambda>oldValue. inc_cas_loop sp fuel t oldValue l)"

fun dec_cas_loop :: "(nat \<Rightarrow> bool) \<Rightarrow> nat \<Rightarrow> nat \<Rightarrow> i64 \<Rightarrow> tls \<Rightarrow> (scounter, i64 \<times> tls) prog" where
  "dec_cas_loop sp 0 t oldValue l = NoFuel"
| "dec_cas_loop sp (Suc n) t oldValue l =
     pbind (assert (oldValue \<noteq> 0x8000000000000000)) (\<lambda>_.
     pbind (cae_weak (sp n) t Dec (oldValue - 1) oldValue (oldValue - 1)) (\<lambda>(success, found).
     if success then Ret (oldValue - 1, l)
     else dec_cas_loop sp n t found (l\<lparr>my_get_cas_fail_count := add64 (my_get_cas_fail_count l) 1\<rparr>)))"

definition dec_cas :: "(nat \<Rightarrow> bool) \<Rightarrow> nat \<Rightarrow> nat \<Rightarrow> tls \<Rightarrow> (scounter, i64 \<times> tls) prog" where
  "dec_cas sp fuel t l = pbind (rd value_s) (\<lambda>oldValue. dec_cas_loop sp fuel t oldValue l)"

definition read_single :: "(scounter, i64) prog" where
  "read_single = rd value_s"

definition fetch_add :: "nat \<Rightarrow> counter_call \<Rightarrow> i64 \<Rightarrow> (scounter, i64) prog" where
  "fetch_add t c d = Act (\<lambda>g. commit t c (value_s g) (value_s g + d) g) (\<lambda>g. Ret (value_s g))"

definition inc_faa :: "nat \<Rightarrow> tls \<Rightarrow> (scounter, i64 \<times> tls) prog" where
  "inc_faa t l = pbind (fetch_add t Inc 1) (\<lambda>v. Ret (v, l))"

definition dec_faa :: "nat \<Rightarrow> tls \<Rightarrow> (scounter, i64 \<times> tls) prog" where
  "dec_faa t l = pbind (fetch_add t Dec (- 1)) (\<lambda>v. Ret (v, l))"

definition cas_call :: "(nat \<Rightarrow> bool) \<Rightarrow> nat \<Rightarrow> nat \<Rightarrow> counter_call \<Rightarrow> tls \<Rightarrow> (scounter, i64 \<times> tls) prog" where
  "cas_call sp fuel t c l = (case c of Inc \<Rightarrow> inc_cas sp fuel t l | Dec \<Rightarrow> dec_cas sp fuel t l)"

definition faa_single_call :: "nat \<Rightarrow> counter_call \<Rightarrow> tls \<Rightarrow> (scounter, i64 \<times> tls) prog" where
  "faa_single_call t c l = (case c of Inc \<Rightarrow> inc_faa t l | Dec \<Rightarrow> dec_faa t l)"

lemmas single_unfold [prog_unfold] = commit_def create_single_def cae_weak_def inc_cas_def dec_cas_def read_single_def fetch_add_def
  inc_faa_def dec_faa_def cas_call_def faa_single_call_def
  inc_cas_loop.simps(2) [of _ "pred_numeral k" for k, folded numeral_eq_Suc]
  dec_cas_loop.simps(2) [of _ "pred_numeral k" for k, folded numeral_eq_Suc]

section \<open>The counter of one thread\<close>

definition moved :: "counter_call \<Rightarrow> i64 \<Rightarrow> i64" where
  "moved c v = (case c of Inc \<Rightarrow> v + 1 | Dec \<Rightarrow> v - 1)"

text \<open>
  \<open>legal ans v log\<close>: the answers of the calls in \<open>log\<close>, made one after the other from value \<open>v\<close>, are what \<open>ans\<close> gives for
  the call and the value it finds; \<open>replayed v log\<close> is the value they leave.
\<close>

fun legal :: "(counter_call \<Rightarrow> i64 \<Rightarrow> i64) \<Rightarrow> i64 \<Rightarrow> (nat \<times> counter_call \<times> i64) list \<Rightarrow> bool" where
  "legal ans v [] = True"
| "legal ans v ((t, c, r) # log) = (r = ans c v \<and> legal ans (moved c v) log)"

fun replayed :: "i64 \<Rightarrow> (nat \<times> counter_call \<times> i64) list \<Rightarrow> i64" where
  "replayed v [] = v"
| "replayed v ((t, c, r) # log) = replayed (moved c v) log"

definition cas_answer :: "counter_call \<Rightarrow> i64 \<Rightarrow> i64" where
  "cas_answer c v = (case c of Inc \<Rightarrow> v | Dec \<Rightarrow> v - 1)"

definition faa_answer :: "counter_call \<Rightarrow> i64 \<Rightarrow> i64" where
  "faa_answer c v = v"

definition thread_log :: "nat \<Rightarrow> (nat \<times> counter_call \<times> i64) list \<Rightarrow> (counter_call \<times> i64) list" where
  "thread_log t log = map snd (filter (\<lambda>e. fst e = t) log)"

lemma legal_append: "legal ans v (log @ [(t, c, r)]) \<longleftrightarrow> legal ans v log \<and> r = ans c (replayed v log)"
  by (induction ans v log rule: legal.induct) auto

lemma replayed_append: "replayed v (log @ [(t, c, r)]) = moved c (replayed v log)"
  by (induction v log rule: replayed.induct) auto

lemma thread_log_append: "thread_log t (log @ [(u, c, r)]) = thread_log t log @ (if u = t then [(c, r)] else [])"
  by (simp add: thread_log_def)

text \<open>A value is the number of increments less the number of decrements, on the 64-bit circle.\<close>

lemma replayed_counts:
  "replayed v log = v + of_nat (count_list (map (fst \<circ> snd) log) Inc) - of_nat (count_list (map (fst \<circ> snd) log) Dec)"
proof (induction v log rule: replayed.induct)
  case (2 v t c r log)
  then show ?case by (cases c) (simp_all add: moved_def algebra_simps)
qed simp

section \<open>The protocol\<close>

inductive single_step :: "(counter_call \<Rightarrow> i64 \<Rightarrow> i64) \<Rightarrow> nat \<Rightarrow> scounter \<Rightarrow> scounter \<Rightarrow> bool" for ans t g where
  single_call: "single_step ans t g (commit t c (ans c (value_s g)) (moved c (value_s g)) g)"

definition single_inv :: "(counter_call \<Rightarrow> i64 \<Rightarrow> i64) \<Rightarrow> scounter \<Rightarrow> bool" where
  "single_inv ans g \<longleftrightarrow> legal ans 0 (lin g) \<and> value_s g = replayed 0 (lin g)"

text \<open>For the compare-and-swap loops: the value has not reached either end of \<^verbatim>\<open>int64_t\<close>.\<close>

definition inside :: "scounter \<Rightarrow> bool" where
  "inside g \<longleftrightarrow> value_s g \<noteq> 0x7FFFFFFFFFFFFFFF \<and> value_s g \<noteq> 0x8000000000000000"

interpretation single: protocol "single_step ans" A "single_inv ans" for ans A
  by unfold_locales (auto elim!: single_step.cases simp: single_inv_def commit_def legal_append replayed_append)

definition single_rest :: "(counter_call \<Rightarrow> i64 \<Rightarrow> i64) \<Rightarrow> (scounter \<Rightarrow> bool) \<Rightarrow> nat \<Rightarrow> (counter_call \<times> i64) list \<Rightarrow> scounter \<Rightarrow> bool" where
  "single_rest ans A t s g \<longleftrightarrow> single_inv ans g \<and> A g \<and> thread_log t (lin g) = s"

definition logged :: "counter_call \<Rightarrow> (counter_call \<times> i64) list \<Rightarrow> i64 \<Rightarrow> (counter_call \<times> i64) list \<Rightarrow> bool" where
  "logged c s r s' \<longleftrightarrow> s' = s @ [(c, r)]"

lemma single_rest_env:
  "single_rest ans A t s g \<Longrightarrow> env1 (single_step ans) A t g g' \<Longrightarrow> single_rest ans A t s g'"
  by (auto simp: single_rest_def env1_def single_inv_def commit_def legal_append replayed_append thread_log_append
      elim!: single_step.cases)

lemma single_rest_envs: "env (single_step ans) A t g h \<Longrightarrow> single_rest ans A t s g \<Longrightarrow> single_rest ans A t s h"
  by (induction rule: rtranclp_induct) (auto intro: single_rest_env)

lemma single_rest_call:
  assumes "single_rest ans A t s g" "A (commit t c r v g)" "r = ans c (value_s g)" "v = moved c (value_s g)"
  shows "single_step ans t g (commit t c r v g) \<and> single_rest ans A t (s @ [(c, r)]) (commit t c r v g)"
  using assms single_call [of ans t g c]
  by (auto simp: single_rest_def single_inv_def commit_def legal_append replayed_append thread_log_append)

definition single_post where
  "single_post ans A t c s = (\<lambda>(r, l) h. True \<and> (\<exists>s'. logged c s r s' \<and> single_rest ans A t s' h))"

lemma single_post_Ret: "single_rest ans A t (s @ [(c, r)]) g \<Longrightarrow> ok (single_step ans) A t (Ret (r, l)) (single_post ans A t c s) g"
  using single_rest_envs [of ans A t g] by (auto simp: single_post_def logged_def)

lemma ok_cae_weak:
  assumes k: "single_rest ans A t s g" "r = ans c old" "new = moved c old"
    and fin: "\<And>h. single_rest ans A t (s @ [(c, r)]) h \<Longrightarrow> ok (single_step ans) A t (f (True, old)) Q h"
    and retry: "\<And>h. single_rest ans A t s h \<Longrightarrow> ok (single_step ans) A t (f (False, value_s h)) Q h"
  shows "ok (single_step ans) A t (pbind (cae_weak b t c r old new) f) Q g"
  unfolding cae_weak_def pbind.simps
proof (rule ok_Act, goal_cases)
  case (1 h)
  note k' = single_rest_envs [OF 1(1) k(1)]
  show ?case
  proof (cases "value_s h = old \<and> \<not> b")
    case True
    then have "A (commit t c r new h)" using 1(2) by simp
    from single_rest_call [OF k' this] show ?thesis using True k(2,3) fin by simp
  next
    case False
    then show ?thesis using retry [OF k'] by auto
  qed
qed

lemma inc_cas_loop_ok:
  "single_rest cas_answer inside t s g \<Longrightarrow> old \<noteq> 0x7FFFFFFFFFFFFFFF \<Longrightarrow>
    ok (single_step cas_answer) inside t (inc_cas_loop sp n t old l) (single_post cas_answer inside t Inc s) g"
proof (induction n arbitrary: old l g)
  case (Suc n)
  show ?case unfolding inc_cas_loop.simps
  proof (rule ok_assert [OF Suc.prems(2)], rule ok_cae_weak [OF Suc.prems(1)], goal_cases)
    case (3 h)
    then show ?case unfolding prod.case if_True by (rule single_post_Ret)
  next
    case (4 h)
    then show ?case unfolding prod.case if_False by (intro Suc.IH) (simp_all add: single_rest_def inside_def)
  qed (simp_all add: cas_answer_def moved_def)
qed simp

lemma dec_cas_loop_ok:
  "single_rest cas_answer inside t s g \<Longrightarrow> old \<noteq> 0x8000000000000000 \<Longrightarrow>
    ok (single_step cas_answer) inside t (dec_cas_loop sp n t old l) (single_post cas_answer inside t Dec s) g"
proof (induction n arbitrary: old l g)
  case (Suc n)
  show ?case unfolding dec_cas_loop.simps
  proof (rule ok_assert [OF Suc.prems(2)], rule ok_cae_weak [OF Suc.prems(1)], goal_cases)
    case (3 h)
    then show ?case unfolding prod.case if_True by (rule single_post_Ret)
  next
    case (4 h)
    then show ?case unfolding prod.case if_False by (intro Suc.IH) (simp_all add: single_rest_def inside_def)
  qed (simp_all add: cas_answer_def moved_def)
qed simp

interpretation cas_threads: threads "single_step cas_answer" inside "single_inv cas_answer" "cas_call sp fuel"
  "single_rest cas_answer inside" "\<lambda>_. True" logged for sp fuel
proof (unfold_locales, goal_cases)
  case (1 t s g g')
  then show ?case by (rule single_rest_env)
next
  case (2 t s g l c)
  have "ok (single_step cas_answer) inside t (cas_call sp fuel t c l) (single_post cas_answer inside t c s) g"
    unfolding cas_call_def inc_cas_def dec_cas_def
    by (cases c; simp only: counter_call.case; intro ok_rd inc_cas_loop_ok dec_cas_loop_ok)
      (use single_rest_envs [OF _ 2(1)] in \<open>auto simp: single_rest_def inside_def\<close>)
  then show ?case by (simp only: single_post_def)
qed

lemma ok_fetch_add:
  assumes k: "single_rest faa_answer A t s g" and A: "\<And>h. A h" and d: "\<And>v. v + d = moved c v"
  shows "ok (single_step faa_answer) A t (pbind (fetch_add t c d) (\<lambda>v. Ret (v, l))) (single_post faa_answer A t c s) g"
  unfolding fetch_add_def pbind.simps
proof (rule ok_Act, goal_cases)
  case (1 h)
  note k' = single_rest_call [OF single_rest_envs [OF 1(1) k] A, where c = c and r = "value_s h" and v = "value_s h + d"]
  have "single_rest faa_answer A t (s @ [(c, value_s h)]) (commit t c (value_s h) (value_s h + d) h)"
    and "single_step faa_answer t h (commit t c (value_s h) (value_s h + d) h)"
    using k' d by (simp_all add: faa_answer_def)
  then show ?case using single_post_Ret by (simp del: ok.simps)
qed

interpretation faa_single: threads "single_step faa_answer" "\<lambda>_. True" "single_inv faa_answer" faa_single_call
  "single_rest faa_answer (\<lambda>_. True)" "\<lambda>_. True" logged
proof (unfold_locales, goal_cases)
  case (1 t s g g')
  then show ?case by (rule single_rest_env)
next
  case (2 t s g l c)
  have "ok (single_step faa_answer) (\<lambda>_. True) t (faa_single_call t c l) (single_post faa_answer (\<lambda>_. True) t c s) g"
    unfolding faa_single_call_def inc_faa_def dec_faa_def
    by (cases c; simp only: counter_call.case; intro ok_fetch_add [OF 2(1)]) (simp_all add: moved_def)
  then show ?case by (simp only: single_post_def)
qed

section \<open>Properties\<close>

text \<open>
  What linearizability says of finished threads \<open>css\<close> with the answers \<open>rss\<close>: one list holds the calls of all
  threads and nothing else, every thread's calls stand in it in their order with the answers
  the thread got, the answers are those of a counter used by one thread, and the counter has the value that one has.
\<close>

definition linearized :: "(counter_call \<Rightarrow> i64 \<Rightarrow> i64) \<Rightarrow> counter_call list list \<Rightarrow> i64 list list \<Rightarrow>
  (nat \<times> counter_call \<times> i64) list \<Rightarrow> i64 \<Rightarrow> bool" where
  "linearized ans css rss log v \<longleftrightarrow>
     map (\<lambda>t. thread_log t log) [0 ..< length css] = map2 zip css rss \<and> list_all (\<lambda>e. fst e < length css) log \<and>
     legal ans 0 log \<and> v = replayed 0 log"

lemma logged_run: "spec_run logged cs s rs s' \<Longrightarrow> s' = s @ zip cs rs"
proof (induction cs arbitrary: s rs)
  case (Cons c cs)
  then show ?case
  proof (cases rs)
    case (Cons r rs')
    then obtain s1 where "logged c s r s1" "spec_run logged cs s1 rs' s'" using Cons.prems by auto
    from Cons.IH [OF this(2)] this(1) show ?thesis using Cons by (simp add: logged_def)
  qed simp
next
  case Nil
  then show ?case by (cases rs) simp_all
qed

lemma single_linearized:
  assumes "\<And>t. t < length css \<Longrightarrow> \<exists>s. spec_run logged (css ! t) [] (rss ! t) s \<and> single_rest ans A t s g"
    and "\<And>t. length css \<le> t \<Longrightarrow> single_rest ans A t [] g" and "length rss = length css" and "single_inv ans g"
  shows "linearized ans css rss (lin g) (value_s g)"
proof -
  have "thread_log t (lin g) = zip (css ! t) (rss ! t)" if "t < length css" for t
    using assms(1) [OF that] by (auto simp: single_rest_def dest: logged_run)
  then have "map (\<lambda>t. thread_log t (lin g)) [0 ..< length css] = map2 zip css rss"
    using assms(3) by (intro nth_equalityI) simp_all
  moreover have "fst e < length css" if "e \<in> set (lin g)" for e
  proof (rule ccontr)
    assume "\<not> fst e < length css"
    then have "thread_log (fst e) (lin g) = []" using assms(2) by (simp add: single_rest_def)
    then show False using that by (auto simp: thread_log_def filter_empty_conv)
  qed
  ultimately show ?thesis using assms(4) by (simp add: linearized_def single_inv_def list_all_iff)
qed

lemma create_single_rest: "A create_single \<Longrightarrow> single_rest ans A t [] create_single" "single_inv ans create_single"
  by (simp_all add: single_rest_def single_inv_def create_single_def thread_log_def)

lemma cas_linearizable:
  assumes ls: "length ls = length css"
    and run: "pool_reaches inside (client_pool (cas_call sp fuel) css ls, create_single) (ps, g)"
    and rss: "map prog_result ps = map Some rss"
  shows "Fault \<notin> set ps \<and> (\<exists>log v. linearized cas_answer css rss log v \<and> run read_single g = (Done v, g))"
proof -
  have k: "single_rest cas_answer inside t [] create_single" for t by (rule create_single_rest) (simp add: inside_def create_single_def One_nat_def)
  have fit: "\<forall>l \<in> set ls. True" by simp
  note p = cas_threads.pool_clients [OF run, of "[]", OF k ls fit create_single_rest(2)]
  have "length ps = length css"
    using run by (induction rule: rtranclp_induct2) (auto simp: client_pool_def elim!: pool_step.cases)
  then have "length rss = length css" using map_eq_imp_length_eq [OF rss] by simp
  then have "linearized cas_answer css rss (lin g) (value_s g)"
    using p(1) by (intro single_linearized [OF p(2) [OF rss] p(3)]) simp_all
  then show ?thesis using p(1) by (auto simp: read_single_def rd_def)
qed

lemma faa_linearizable:
  assumes ls: "length ls = length css"
    and run: "pool_reaches (\<lambda>_. True) (client_pool faa_single_call css ls, create_single) (ps, g)"
    and rss: "map prog_result ps = map Some rss"
  shows "Fault \<notin> set ps \<and> (\<exists>log v. linearized faa_answer css rss log v \<and> run read_single g = (Done v, g))"
proof -
  have k: "single_rest faa_answer (\<lambda>_. True) t [] create_single" for t by (rule create_single_rest) simp
  have fit: "\<forall>l \<in> set ls. True" by simp
  note p = faa_single.pool_clients [OF run, of "[]", OF k ls fit create_single_rest(2)]
  have "length ps = length css"
    using run by (induction rule: rtranclp_induct2) (auto simp: client_pool_def elim!: pool_step.cases)
  then have "length rss = length css" using map_eq_imp_length_eq [OF rss] by simp
  then have "linearized faa_answer css rss (lin g) (value_s g)"
    using p(1) by (intro single_linearized [OF p(2) [OF rss] p(3)]) simp_all
  then show ?thesis using p(1) by (auto simp: read_single_def rd_def)
qed


definition fresh_single :: "seeds \<Rightarrow> tls" where
  "fresh_single s = \<lparr>seeds = s, my_put_cas_fail_count = 0, my_get_cas_fail_count = 0, my_null_count = 0, my_hop_count = 0,
     my_slide_count = 0, my_slide_fail_count = 0\<rparr>"

definition demo_cas_run :: "(scounter, i64 list) prog list \<times> scounter" where
  "demo_cas_run = sched inside [0, 1, 0, 1, 1, 0, 0, 0, 1, 1, 1, 1, 1]
     (client_pool (cas_call (\<lambda>n. n = 3) 5) [[Inc, Dec], [Inc, Inc]] [fresh_single (1, 2, 3), fresh_single (4, 5, 6)], create_single)"

definition demo_faa_single :: "(scounter, i64 list) prog list \<times> scounter" where
  "demo_faa_single = sched (\<lambda>_. True) [1, 0, 1, 0]
     (client_pool faa_single_call [[Inc, Dec], [Dec, Inc]] [fresh_single (1, 2, 3), fresh_single (4, 5, 6)], create_single)"


end
