(* ===== verification/Decoupled_Stack.thy ===== *)
theory Decoupled_Stack
  imports Relaxed_Stack
begin

text \<open>
  What two decoupled windows promise of a stack. The abstract state has the sub-stacks (top first), for every
  sub-stack the number of pushes and of pops made on it so far, the upper bounds of the put and the
  get window, and the items pushed so far, latest first. A push adds on a sub-stack whose number of pushes is below the
  put window's bound, a pop removes from one whose number of pops is below the get window's; the put
  window moves up only if every sub-stack has reached it, the get window only if every
  sub-stack has reached it or is empty and one is not.

  The theorem \<open>dpop_newer_bound\<close> bounds how many items of the stack are newer than one a pop may return by
  \<open>3 * depth * (width - 1)\<close>. Its invariant compares the state with a \<open>snapshot\<close>, the state before
  the first of the newer items was pushed: since then the two windows have moved
  by multiples of the depth, and by nearly the same distance.
\<close>

section \<open>The abstract stack\<close>

record 'a dstack =
  e_subs :: "'a list list"
  e_put :: "nat \<Rightarrow> nat"
  e_get :: "nat \<Rightarrow> nat"
  e_pmax :: nat
  e_gmax :: nat
  e_hist :: "'a list"

inductive spec_dstack :: "nat \<Rightarrow> nat \<Rightarrow> 'a dstack \<Rightarrow> 'a stack_event \<Rightarrow> 'a dstack \<Rightarrow> bool" for w d s where
  dspec_push: "i < w \<Longrightarrow> m = e_pmax s \<or> m = e_pmax s + d \<and> (\<forall>j < w. e_put s j = e_pmax s) \<Longrightarrow>
     e_put s i < m \<Longrightarrow> p \<notin> set (e_hist s) \<Longrightarrow>
     spec_dstack w d s (Pushed p)
       (s\<lparr>e_subs := (e_subs s)[i := p # e_subs s ! i], e_put := (e_put s)(i := e_put s i + 1), e_pmax := m, e_hist := p # e_hist s\<rparr>)"
| dspec_pop: "i < w \<Longrightarrow>
     m = e_gmax s \<or> m = e_gmax s + d \<and> (\<forall>j < w. e_get s j = e_gmax s \<or> e_put s j = e_get s j) \<and> (\<exists>j < w. e_put s j \<noteq> e_get s j) \<Longrightarrow>
     e_subs s ! i = p # ps \<Longrightarrow> e_get s i < m \<Longrightarrow>
     spec_dstack w d s (Popped p) (s\<lparr>e_subs := (e_subs s)[i := ps], e_get := (e_get s)(i := e_get s i + 1), e_gmax := m\<rparr>)"
| dspec_null: "concat (e_subs s) = [] \<Longrightarrow> spec_dstack w d s PoppedNull s"

inductive_cases dspec_pushE: "spec_dstack w d s (Pushed p) s'"
inductive_cases dspec_popE: "spec_dstack w d s (Popped p) s'"
inductive_cases dspec_nullE: "spec_dstack w d s PoppedNull s'"

definition newer_than :: "'a list \<Rightarrow> 'a \<Rightarrow> 'a list \<Rightarrow> nat" where
  "newer_than h p xs = length (filter (\<lambda>q. push_time h p < push_time h q) xs)"

section \<open>The invariant\<close>

definition dwindows :: "nat \<Rightarrow> nat \<Rightarrow> 'a dstack \<Rightarrow> bool" where
  "dwindows w d s \<longleftrightarrow> d dvd e_pmax s \<and> d dvd e_gmax s \<and> e_gmax s \<le> e_pmax s \<and>
     (\<forall>i < w. e_put s i \<le> e_pmax s \<and> e_pmax s \<le> e_put s i + d \<and> e_get s i \<le> e_gmax s \<and> e_gmax s \<le> e_get s i + d \<and> e_get s i \<le> e_put s i)"

text \<open>
  Sub-stack \<open>j\<close> has \<open>n\<close> items newer than an item of sub-stack \<open>i\<close> with \<open>a\<close> items above it: both numbers have
  come about by pushes and pops since some earlier state with windows \<open>P\<close> and \<open>G\<close>.
\<close>

definition snapshot :: "nat \<Rightarrow> 'a dstack \<Rightarrow> nat \<Rightarrow> nat \<Rightarrow> nat \<Rightarrow> nat \<Rightarrow> bool" where
  "snapshot d s i j a n \<longleftrightarrow> (\<exists>P G pi pj gi gj.
     d dvd P \<and> d dvd G \<and> P \<le> e_pmax s \<and> G \<le> e_gmax s \<and> pi \<le> P \<and> P \<le> pj + d \<and> G \<le> gi + d \<and> gj \<le> G \<and>
     n + e_get s j + pj \<le> e_put s j + gj \<and> e_put s i + gi \<le> a + e_get s i + pi)"

definition dstack_inv :: "nat \<Rightarrow> nat \<Rightarrow> 'a dstack \<Rightarrow> bool" where
  "dstack_inv w d s \<longleftrightarrow> length (e_subs s) = w \<and> dwindows w d s \<and>
     (\<forall>i < w. set (e_subs s ! i) \<subseteq> set (e_hist s) \<and>
        sorted_wrt (\<lambda>p q. push_time (e_hist s) q < push_time (e_hist s) p) (e_subs s ! i)) \<and>
     (\<forall>i < w. \<forall>j < w. \<forall>a < length (e_subs s ! i). i \<noteq> j \<longrightarrow>
        snapshot d s i j a (newer_than (e_hist s) (e_subs s ! i ! a) (e_subs s ! j)))"

lemma snapshot_now: "dwindows w d s \<Longrightarrow> i < w \<Longrightarrow> j < w \<Longrightarrow> snapshot d s i j a 0"
  unfolding snapshot_def dwindows_def
  by (intro exI [of _ "e_pmax s"] exI [of _ "e_gmax s"] exI [of _ "e_put s i"] exI [of _ "e_put s j"]
      exI [of _ "e_get s i"] exI [of _ "e_get s j"]) simp

lemma snapshot_mono:
  assumes "snapshot d s i j a n" "e_pmax s \<le> e_pmax s'" "e_gmax s \<le> e_gmax s'"
    and "n' + e_get s' j + e_put s j \<le> n + e_get s j + e_put s' j" "e_put s' i + a + e_get s i \<le> e_put s i + a' + e_get s' i"
  shows "snapshot d s' i j a' n'"
proof -
  obtain P G pi pj gi gj where s: "d dvd P" "d dvd G" "P \<le> e_pmax s" "G \<le> e_gmax s" "pi \<le> P" "P \<le> pj + d" "G \<le> gi + d" "gj \<le> G"
    and n: "n + e_get s j + pj \<le> e_put s j + gj" "e_put s i + gi \<le> a + e_get s i + pi"
    using assms(1) by (auto simp: snapshot_def)
  have "P \<le> e_pmax s'" "G \<le> e_gmax s'" using s(3,4) assms(2,3) by simp_all
  moreover have "n' + e_get s' j + pj \<le> e_put s' j + gj" using n(1) assms(4) by linarith
  moreover have "e_put s' i + gi \<le> a' + e_get s' i + pi" using n(2) assms(5) by linarith
  ultimately show ?thesis unfolding snapshot_def using s(1,2,5-8)
    by (intro exI [of _ P] exI [of _ G] exI [of _ pi] exI [of _ pj] exI [of _ gi] exI [of _ gj] conjI)
qed

text \<open>The bound at the moment of a pop from sub-stack \<open>i\<close>: nothing is above the item, and the pops on \<open>i\<close> are below the get window.\<close>

lemma snapshot_bound:
  assumes "snapshot d s i j 0 n" "dwindows w d s" "i < w" "j < w" "e_get s i < G'" "d dvd G'" "e_gmax s \<le> G'" "G' \<le> e_get s j + d"
  shows "n \<le> 3 * d"
proof -
  obtain P G pi pj gi gj where s: "d dvd P" "d dvd G" "P \<le> e_pmax s" "G \<le> e_gmax s" "pi \<le> P" "P \<le> pj + d" "G \<le> gi + d" "gj \<le> G"
    "n + e_get s j + pj \<le> e_put s j + gj" "e_put s i + gi \<le> e_get s i + pi"
    using assms(1) by (auto simp: snapshot_def)
  have w: "e_put s j \<le> e_pmax s" "e_pmax s \<le> e_put s i + d" using assms(2-4) by (auto simp: dwindows_def)
  let ?D = "(int (e_pmax s) - int P) - (int G' - int G)"
  have "int d dvd ?D" using s(1,2) assms(2,6) by (auto simp: dwindows_def intro!: dvd_diff)
  then obtain k where k: "?D = int d * k" by blast
  have "?D < 2 * int d" using s w assms(5) by linarith
  then have "int d * k < int d * 2" using k by simp
  then have "k < 2" by (simp add: mult_less_cancel_left_pos mult_less_cancel_left)
  then have "int d * k \<le> int d * 1" by (intro mult_left_mono) auto
  then have "?D \<le> int d" using k by simp
  moreover have "int n \<le> ?D + 2 * int d" using s w assms(8) by linarith
  ultimately show ?thesis by linarith
qed

section \<open>Every step keeps the invariant\<close>

lemma newer_than_old: "x \<noteq> p \<Longrightarrow> p \<notin> set ys \<Longrightarrow> newer_than (p # h) x ys = newer_than h x ys"
  unfolding newer_than_def using push_time_tl [of _ p h] by (intro arg_cong [of _ _ length] filter_cong) (metis | simp)+

lemma newer_than_new:
  assumes "p \<notin> set ys"
  shows "newer_than (p # h) p ys = 0"
proof -
  have "\<not> push_time (p # h) p < push_time (p # h) q" if "q \<in> set ys" for q
  proof -
    have "q \<noteq> p" using assms that by blast
    then have "push_time (p # h) q = push_time h q" by (rule push_time_tl)
    then show ?thesis using push_time_le [of h q] by simp
  qed
  then show ?thesis by (simp add: newer_than_def filter_empty_conv)
qed

lemma dwindows_push:
  assumes "dwindows w d s" "i < w" "m = e_pmax s \<or> m = e_pmax s + d \<and> (\<forall>j < w. e_put s j = e_pmax s)" "e_put s i < m"
  shows "dwindows w d (s\<lparr>e_subs := S, e_put := (e_put s)(i := e_put s i + 1), e_pmax := m, e_hist := h\<rparr>)"
  using assms by (auto simp: dwindows_def)

lemma dwindows_pop:
  assumes inv: "dwindows w d s" and i: "i < w" "e_get s i < m" "e_put s i \<noteq> e_get s i"
    and m: "m = e_gmax s \<or> m = e_gmax s + d \<and> (\<forall>j < w. e_get s j = e_gmax s \<or> e_put s j = e_get s j) \<and> (\<exists>j < w. e_put s j \<noteq> e_get s j)"
  shows "dwindows w d (s\<lparr>e_subs := S, e_get := (e_get s)(i := e_get s i + 1), e_gmax := m\<rparr>)"
    and "d dvd m" "\<And>j. j < w \<Longrightarrow> m \<le> e_get s j + d"
proof -
  show dvd: "d dvd m" using inv m by (auto simp: dwindows_def)
  have le: "m \<le> e_pmax s"
  proof (cases "m = e_gmax s")
    case False
    then obtain j where j: "j < w" "e_put s j \<noteq> e_get s j" "e_get s j = e_gmax s" and m': "m = e_gmax s + d" using m by auto
    then have "e_gmax s < e_pmax s" using inv by (force simp: dwindows_def)
    moreover have "d dvd e_pmax s - e_gmax s" using inv by (simp add: dwindows_def dvd_diff_nat)
    ultimately have "d \<le> e_pmax s - e_gmax s" by (simp add: dvd_imp_le)
    then show ?thesis using m' \<open>e_gmax s < e_pmax s\<close> by simp
  qed (use inv in \<open>simp add: dwindows_def\<close>)
  have b: "m \<le> e_get s j + d \<and> e_get s j \<le> m" if "j < w" for j
    using inv m that le by (fastforce simp: dwindows_def)
  then show "\<And>j. j < w \<Longrightarrow> m \<le> e_get s j + d" by blast
  have "m \<le> e_get s i + 1 + d" using b [OF i(1)] by simp
  then show "dwindows w d (s\<lparr>e_subs := S, e_get := (e_get s)(i := e_get s i + 1), e_gmax := m\<rparr>)"
    using inv i dvd le b by (auto simp: dwindows_def)
qed

lemma dstack_invD:
  assumes "dstack_inv w d s"
  shows "length (e_subs s) = w" "dwindows w d s" "i < w \<Longrightarrow> set (e_subs s ! i) \<subseteq> set (e_hist s)"
    "i < w \<Longrightarrow> sorted_wrt (\<lambda>p q. push_time (e_hist s) q < push_time (e_hist s) p) (e_subs s ! i)"
    "i < w \<Longrightarrow> j < w \<Longrightarrow> i \<noteq> j \<Longrightarrow> a < length (e_subs s ! i) \<Longrightarrow>
      snapshot d s i j a (newer_than (e_hist s) (e_subs s ! i ! a) (e_subs s ! j))"
  using assms by (auto simp: dstack_inv_def)

lemma dstack_inv_push:
  assumes inv: "dstack_inv w d s" and k: "k < w" and p: "p \<notin> set (e_hist s)"
    and m: "m = e_pmax s \<or> m = e_pmax s + d \<and> (\<forall>j < w. e_put s j = e_pmax s)" "e_put s k < m"
    and s': "s' = s\<lparr>e_subs := (e_subs s)[k := p # e_subs s ! k], e_put := (e_put s)(k := e_put s k + 1), e_pmax := m, e_hist := p # e_hist s\<rparr>"
  shows "dstack_inv w d s'"
proof -
  note D = dstack_invD [OF inv]
  have win: "dwindows w d s'" unfolding s' by (rule dwindows_push [OF D(2) k m])
  have nin: "p \<notin> set (e_subs s ! i)" if "i < w" for i using D(3) [OF that] p by blast
  have sub: "e_subs s' ! i = (if i = k then p # e_subs s ! k else e_subs s ! i)" if "i < w" for i using D(1) k that by (simp add: s')
  have sort: "sorted_wrt (\<lambda>x y. push_time (e_hist s') y < push_time (e_hist s') x) (e_subs s' ! i)" if i: "i < w" for i
  proof -
    have old: "push_time (p # e_hist s) x = push_time (e_hist s) x" if "x \<in> set (e_subs s ! i)" for x
      using nin [OF i] that by (intro push_time_tl) auto
    then have "sorted_wrt (\<lambda>x y. push_time (p # e_hist s) y < push_time (p # e_hist s) x) (e_subs s ! i)"
      by (intro sorted_wrt_mono_rel [OF _ D(4) [OF i]]) simp
    moreover have "push_time (p # e_hist s) x < length (e_hist s) + 1" if "x \<in> set (e_subs s ! i)" for x
      using old [OF that] push_time_le [of "e_hist s" x] by simp
    ultimately show ?thesis using sub [OF i] by (cases "i = k") (simp_all add: s')
  qed
  have snap: "snapshot d s' i j a (newer_than (e_hist s') (e_subs s' ! i ! a) (e_subs s' ! j))"
    if ij: "i < w" "j < w" "i \<noteq> j" and a: "a < length (e_subs s' ! i)" for i j a
  proof (cases "i = k \<and> a = 0")
    case True
    then have "newer_than (e_hist s') (e_subs s' ! i ! a) (e_subs s' ! j) = 0"
      using sub ij nin [OF ij(2)] newer_than_new by (simp add: s')
    then show ?thesis using snapshot_now [OF win ij(1,2)] by simp
  next
    case False
    define b where "b = (if i = k then a - 1 else a)"
    have b: "b < length (e_subs s ! i)" "e_subs s' ! i ! a = e_subs s ! i ! b" using a False ij sub [OF ij(1)] by (auto simp: b_def)
    let ?x = "e_subs s ! i ! b"
    have x: "?x \<noteq> p" using nin [OF ij(1)] nth_mem [OF b(1)] by auto
    have "newer_than (p # e_hist s) ?x (p # ys) = newer_than (p # e_hist s) ?x ys + 1" for ys
      using x push_time_le [of "e_hist s" ?x] by (simp add: newer_than_def push_time_tl)
    then have n: "newer_than (e_hist s') ?x (e_subs s' ! j) = newer_than (e_hist s) ?x (e_subs s ! j) + (if j = k then 1 else 0)"
      using newer_than_old [OF x nin [OF ij(2)]] sub [OF ij(2)] by (cases "j = k") (simp_all add: s')
    show ?thesis unfolding b(2) n
      by (rule snapshot_mono [OF D(5) [OF ij b(1)]]) (use m(1) ij False in \<open>auto simp: s' b_def\<close>)
  qed
  have len: "length (e_subs s') = w" and "e_hist s' = p # e_hist s" using D(1) by (simp_all add: s')
  then have "set (e_subs s' ! i) \<subseteq> set (e_hist s')" if "i < w" for i using D(3) [OF that] D(3) [OF k] sub [OF that] by (cases "i = k") auto
  then show ?thesis unfolding dstack_inv_def using win sort snap len by blast
qed

lemma newer_than_tl:
  assumes "sorted_wrt (\<lambda>p q. push_time h q < push_time h p) (p # ps)"
  shows "newer_than h x (p # ps) = (if push_time h x < push_time h p then newer_than h x ps + 1 else 0) \<and>
    (push_time h x < push_time h p \<or> newer_than h x ps = 0)"
proof -
  have "\<not> push_time h x < push_time h q" if "q \<in> set ps" "\<not> push_time h x < push_time h p" for q
    using assms that by fastforce
  then show ?thesis by (auto simp: newer_than_def filter_empty_conv)
qed

lemma dstack_inv_pop:
  assumes inv: "dstack_inv w d s" and k: "k < w" "e_get s k < m" "e_put s k \<noteq> e_get s k" and top: "e_subs s ! k = p # ps"
    and m: "m = e_gmax s \<or> m = e_gmax s + d \<and> (\<forall>j < w. e_get s j = e_gmax s \<or> e_put s j = e_get s j) \<and> (\<exists>j < w. e_put s j \<noteq> e_get s j)"
    and s': "s' = s\<lparr>e_subs := (e_subs s)[k := ps], e_get := (e_get s)(k := e_get s k + 1), e_gmax := m\<rparr>"
  shows "dstack_inv w d s'"
proof -
  note D = dstack_invD [OF inv]
  have win: "dwindows w d s'" unfolding s' by (rule dwindows_pop(1) [OF D(2) k m])
  have sub: "e_subs s' ! i = (if i = k then ps else e_subs s ! i)" if "i < w" for i using D(1) k that by (simp add: s')
  have snap: "snapshot d s' i j a (newer_than (e_hist s') (e_subs s' ! i ! a) (e_subs s' ! j))"
    if ij: "i < w" "j < w" "i \<noteq> j" and a: "a < length (e_subs s' ! i)" for i j a
  proof -
    define b where "b = (if i = k then a + 1 else a)"
    have b: "b < length (e_subs s ! i)" "e_subs s' ! i ! a = e_subs s ! i ! b" using a ij sub [OF ij(1)] top by (auto simp: b_def)
    let ?x = "e_subs s ! i ! b"
    note t = newer_than_tl [OF D(4) [OF k(1), unfolded top], of ?x]
    show ?thesis
    proof (cases "j = k \<and> newer_than (e_hist s) ?x (e_subs s ! j) = 0")
      case True
      then have "newer_than (e_hist s') (e_subs s' ! i ! a) (e_subs s' ! j) = 0"
        using t sub [OF ij(2)] b(2) top by (auto simp: s' split: if_splits)
      then show ?thesis using snapshot_now [OF win ij(1,2)] by simp
    next
      case False
      then have n: "newer_than (e_hist s) ?x (e_subs s ! j) = newer_than (e_hist s') ?x (e_subs s' ! j) + (if j = k then 1 else 0)"
        using t sub [OF ij(2)] top by (auto simp: s' split: if_splits)
      show ?thesis unfolding b(2)
        by (rule snapshot_mono [OF D(5) [OF ij b(1), unfolded n]]) (use m ij in \<open>auto simp: s' b_def\<close>)
    qed
  qed
  have len: "length (e_subs s') = w" and h: "e_hist s' = e_hist s" using D(1) by (simp_all add: s')
  have "set (e_subs s' ! i) \<subseteq> set (e_hist s')" "sorted_wrt (\<lambda>x y. push_time (e_hist s') y < push_time (e_hist s') x) (e_subs s' ! i)"
    if "i < w" for i using D(3,4) [OF that] D(3,4) [OF k(1)] sub [OF that] top h by (cases "i = k", auto)+
  then show ?thesis unfolding dstack_inv_def using win snap len by blast
qed

text \<open>The sub-stacks are as long as the counts say.\<close>

definition counts_ok :: "nat \<Rightarrow> 'a dstack \<Rightarrow> bool" where
  "counts_ok w s \<longleftrightarrow> (\<forall>i < w. e_put s i = e_get s i + length (e_subs s ! i))"

lemma dstack_inv_step:
  assumes inv: "dstack_inv w d s" and c: "counts_ok w s" and step: "spec_dstack w d s e s'"
  shows "dstack_inv w d s' \<and> counts_ok w s'"
  using step
proof cases
  case (dspec_push i m p)
  have "counts_ok w s'" using c dspec_push(2,3) dstack_invD(1) [OF inv] by (auto simp: counts_ok_def nth_list_update)
  then show ?thesis using dstack_inv_push [OF inv dspec_push(3,6,4,5,2)] by blast
next
  case (dspec_pop i m p ps)
  have "e_put s i \<noteq> e_get s i" using c dspec_pop(3,5) by (auto simp: counts_ok_def)
  moreover have "counts_ok w s'" using c dspec_pop(2,3,5) dstack_invD(1) [OF inv] by (auto simp: counts_ok_def nth_list_update)
  ultimately show ?thesis using dstack_inv_pop [OF inv dspec_pop(3,6) _ dspec_pop(5,4,2)] by blast
next
  case dspec_null
  then show ?thesis using inv c by simp
qed

lemma dstack_inv_init:
  "dstack_inv w d \<lparr>e_subs = replicate w [], e_put = (\<lambda>_. 0), e_get = (\<lambda>_. 0), e_pmax = 0, e_gmax = 0, e_hist = []\<rparr>"
  by (simp add: dstack_inv_def dwindows_def)

section \<open>The bound\<close>

lemma dpop_newer_bound:
  assumes inv: "dstack_inv w d s" and c: "counts_ok w s" and step: "spec_dstack w d s (Popped p) s'"
  shows "newer_than (e_hist s) p (concat (e_subs s)) \<le> 3 * d * (w - 1)"
  using step
proof cases
  case 1: (dspec_pop i m ps)
  note D = dstack_invD [OF inv]
  let ?ls = "map (newer_than (e_hist s) p) (e_subs s)"
  have ne: "e_put s i \<noteq> e_get s i" using c 1 by (auto simp: counts_ok_def)
  have own: "newer_than (e_hist s) p (e_subs s ! i) = 0" using newer_than_tl [OF D(4) [OF 1(2), unfolded 1(4)], of p] 1(4) by simp
  note P = dwindows_pop(2,3) [OF D(2) 1(2,5) ne 1(3)]
  have b: "newer_than (e_hist s) p (e_subs s ! j) \<le> 3 * d" if "j < w" for j
  proof (cases "j = i")
    case False
    have "snapshot d s i j 0 (newer_than (e_hist s) p (e_subs s ! j))" using D(5) [OF 1(2) that, of 0] False 1(4) by simp
    from snapshot_bound [OF this D(2) 1(2) that 1(5) P(1) _ P(2) [OF that]] 1(3) show ?thesis by auto
  qed (use own in simp)
  have "sum_list ?ls \<le> 3 * d * (length ?ls - 1)"
    by (rule sum_list_bound_except [of i]) (use own b D(1) 1(2) in simp_all)
  moreover have "newer_than (e_hist s) p (concat (e_subs s)) = sum_list ?ls"
    unfolding newer_than_def [abs_def] by (simp add: filter_concat length_concat comp_def)
  ultimately show ?thesis using D(1) by simp
qed

end
