(* ===== verification/Stack2Dd.thy ===== *)
theory Stack2Dd
  imports Window2Dd Decoupled_Stack Params Stack_Threads
begin

text \<open>
  The 2Dd stack of \<^verbatim>\<open>src/2Dd-stack/2Dd-stack.c\<close>: an array of linked stacks under the decoupled windows of
  \<open>Window2Dd\<close>. A descriptor has the top pointer and two 32-bit counts, of the pushes and of the pops made on
  the sub-stack, and is changed by a 16-byte compare-and-exchange. \<^verbatim>\<open>put_array\<close> and \<^verbatim>\<open>get_array\<close> are one array.

  This theory has the operations, what they do when they run alone (they refine the stack of
  \<open>Decoupled_Stack\<close>), and that they are k-out-of-order with the bound \<open>3 * depth * (width - 1)\<close> that
  \<^verbatim>\<open>create_stack\<close> computes with.
\<close>

section \<open>State\<close>

record descriptor2Ds =
  s_node :: ptr
  s_put :: nat
  s_get :: nat

record stack2Dd = sh2Dd +
  array_2Ds :: "descriptor2Ds list"
  smem :: node_mem

text \<open>The counts are 32 bits wide.\<close>

definition add32 :: "nat \<Rightarrow> nat \<Rightarrow> nat" where
  "add32 a b = (a + b) mod 4294967296"

lemma add32_eq: "a + b < 4294967296 \<Longrightarrow> add32 a b = a + b"
  by (simp add: add32_def)

section \<open>Operations\<close>

definition create_node_2Ds :: "allocator \<Rightarrow> nat \<Rightarrow> int \<Rightarrow> int \<Rightarrow> ptr \<Rightarrow> (stack2Dd, ptr) prog" where
  "create_node_2Ds al t key val nxt =
     Act (\<lambda>g. g\<lparr>smem := mem_alloc t (al t (allocd (smem g))) \<lparr>n_key = key, n_val = val, n_next = nxt\<rparr> (smem g)\<rparr>)
         (\<lambda>g. Ret (al t (allocd (smem g))))"

text \<open>A descriptor is loaded field by field.\<close>

definition load_descriptor_2Ds :: "u64 \<Rightarrow> (stack2Dd, descriptor2Ds) prog" where
  "load_descriptor_2Ds i =
     pbind (rd_opt (\<lambda>g. map_option s_node (at (array_2Ds g) i))) (\<lambda>n.
     pbind (rd_opt (\<lambda>g. map_option s_put (at (array_2Ds g) i))) (\<lambda>p.
     pbind (rd_opt (\<lambda>g. map_option s_get (at (array_2Ds g) i))) (\<lambda>c.
     Ret \<lparr>s_node = n, s_put = p, s_get = c\<rparr>)))"

definition load_put_count_2Ds :: "u64 \<Rightarrow> (stack2Dd, u64) prog" where
  "load_put_count_2Ds i = rd_opt (\<lambda>g. map_option s_put (at (array_2Ds g) i))"

definition do_cae :: "u64 \<Rightarrow> descriptor2Ds \<Rightarrow> descriptor2Ds \<Rightarrow> (node_mem \<Rightarrow> node_mem) \<Rightarrow> (stack2Dd, bool) prog" where
  "do_cae i read_des new_des ghost =
     Act (\<lambda>g. if at (array_2Ds g) i = Some read_des
              then g\<lparr>array_2Ds := (array_2Ds g)[i := new_des], smem := ghost (smem g)\<rparr> else g)
         (\<lambda>g. Ret (at (array_2Ds g) i = Some read_des))"

fun push_loop_2Dd ::
  "nat \<Rightarrow> nat \<Rightarrow> ds2Dd \<Rightarrow> nat \<Rightarrow> ptr \<Rightarrow> tl2Dd \<Rightarrow> bool \<Rightarrow> (stack2Dd, int \<times> tl2Dd) prog" where
  "push_loop_2Dd 0 fuel cfg t new_node l contention = NoFuel"
| "push_loop_2Dd (Suc n) fuel cfg t new_node l contention =
     pbind (put_window_2Dd fuel cfg load_descriptor_2Ds s_put l contention) (\<lambda>(descriptor, l).
     pbind (wr (\<lambda>g. g\<lparr>smem := mem_set_next new_node (s_node descriptor) (smem g)\<rparr>)) (\<lambda>_.
     let new_descriptor = \<lparr>s_node = new_node, s_put = add32 (s_put descriptor) 1, s_get = s_get descriptor\<rparr>
     in pbind (do_cae (thread_index l) descriptor new_descriptor (mem_publish new_node)) (\<lambda>success.
        if success then Ret (1, l)
        else push_loop_2Dd n fuel cfg t new_node
               (l\<lparr>my_put_cas_fail_count := add64 (my_put_cas_fail_count l) 1\<rparr>) True)))"

definition push_2Dd ::
  "allocator \<Rightarrow> nat \<Rightarrow> ds2Dd \<Rightarrow> nat \<Rightarrow> int \<Rightarrow> int \<Rightarrow> tl2Dd \<Rightarrow> (stack2Dd, int \<times> tl2Dd) prog" where
  "push_2Dd al fuel cfg t key val l =
     pbind (create_node_2Ds al t key val NULL) (\<lambda>new_node.
     push_loop_2Dd fuel fuel cfg t new_node l False)"

fun pop_loop_2Dd ::
  "nat \<Rightarrow> nat \<Rightarrow> ds2Dd \<Rightarrow> nat \<Rightarrow> tl2Dd \<Rightarrow> bool \<Rightarrow> (stack2Dd, int \<times> tl2Dd) prog" where
  "pop_loop_2Dd 0 fuel cfg t l contention = NoFuel"
| "pop_loop_2Dd (Suc n) fuel cfg t l contention =
     pbind (get_window_2Dd fuel cfg load_descriptor_2Ds load_put_count_2Ds s_get l contention) (\<lambda>(descriptor, l).
     if s_node descriptor \<noteq> NULL then
       pbind (rd_opt (\<lambda>g. map_option n_next (heap (smem g) (s_node descriptor)))) (\<lambda>nxt.
       let new_descriptor = \<lparr>s_node = nxt, s_put = s_put descriptor, s_get = add32 (s_get descriptor) 1\<rparr>
       in pbind (do_cae (thread_index l) descriptor new_descriptor (mem_remove t (s_node descriptor))) (\<lambda>success.
          if success then
            pbind (rd_opt (\<lambda>g. map_option n_val (heap (smem g) (s_node descriptor)))) (\<lambda>node_val.
            pbind (wr (\<lambda>g. g\<lparr>smem := mem_free t (s_node descriptor) (smem g)\<rparr>)) (\<lambda>_.
            Ret (node_val, l)))
          else pop_loop_2Dd n fuel cfg t
                 (l\<lparr>my_get_cas_fail_count := add64 (my_get_cas_fail_count l) 1\<rparr>) True))
     else Ret (0, l\<lparr>my_null_count := add64 (my_null_count l) 1\<rparr>))"

definition pop_2Dd :: "nat \<Rightarrow> ds2Dd \<Rightarrow> nat \<Rightarrow> tl2Dd \<Rightarrow> (stack2Dd, int \<times> tl2Dd) prog" where
  "pop_2Dd fuel cfg t l = pop_loop_2Dd fuel fuel cfg t l False"

definition stack_size_2Dd :: "nat \<Rightarrow> ds2Dd \<Rightarrow> (stack2Dd, u64) prog" where
  "stack_size_2Dd fuel cfg = size_loop smem (\<lambda>g i. map_option s_node (at (array_2Ds g) i)) fuel [0 ..< width cfg] 0"

text \<open>\<^verbatim>\<open>create_stack\<close> leaves the global windows at 0, the value of static variables.\<close>

definition create_stack_2Dd :: "u64 \<Rightarrow> u64 \<Rightarrow> u64 \<Rightarrow> nat \<Rightarrow> u64 \<Rightarrow> (ds2Dd \<times> stack2Dd) option" where
  "create_stack_2Dd num_threads w d mode bound =
     (case calc_params 3 keep64 keep64 (bound64 3) mode num_threads w d bound of
        None \<Rightarrow> None
      | Some (w, d, bound) \<Rightarrow> Some
          (\<lparr>random_hops = 2, width = w, depth = d, relaxation_bound = bound, k_mode = mode\<rparr>,
           \<lparr>global_PWindow = 0, global_GWindow = 0,
            array_2Ds = replicate w \<lparr>s_node = NULL, s_put = 0, s_get = 0\<rparr>, smem = empty_mem\<rparr>))"

definition stack_call_2Dd :: "allocator \<Rightarrow> nat \<Rightarrow> ds2Dd \<Rightarrow> nat \<Rightarrow> stack_call \<Rightarrow> tl2Dd \<Rightarrow> (stack2Dd, int \<times> tl2Dd) prog" where
  "stack_call_2Dd al fuel cfg t c l =
     (case c of Push key val \<Rightarrow> push_2Dd al fuel cfg t key val l | Pop \<Rightarrow> pop_2Dd fuel cfg t l)"

lemmas stack2Dd_unfold [prog_unfold] =
  add32_def create_node_2Ds_def load_descriptor_2Ds_def load_put_count_2Ds_def do_cae_def push_2Dd_def pop_2Dd_def stack_size_2Dd_def
  stack_call_2Dd_def
  push_loop_2Dd.simps(2) [of "pred_numeral k" for k, folded numeral_eq_Suc]
  pop_loop_2Dd.simps(2) [of "pred_numeral k" for k, folded numeral_eq_Suc]

section \<open>Abstraction\<close>

definition tops_2Ds :: "stack2Dd \<Rightarrow> tops" where
  "tops_2Ds g = map (\<lambda>d. (s_node d, s_put d - s_get d)) (array_2Ds g)"

definition sub_stacks_2Dd :: "stack2Dd \<Rightarrow> ptr list list" where
  "sub_stacks_2Dd g = subs (smem g) (tops_2Ds g)"

abbreviation puts_2Ds :: "stack2Dd \<Rightarrow> nat \<Rightarrow> nat" where
  "puts_2Ds g i \<equiv> s_put (array_2Ds g ! i)"

abbreviation gets_2Ds :: "stack2Dd \<Rightarrow> nat \<Rightarrow> nat" where
  "gets_2Ds g i \<equiv> s_get (array_2Ds g ! i)"

definition abs_2Dd :: "stack2Dd \<Rightarrow> ptr dstack" where
  "abs_2Dd g = \<lparr>e_subs = sub_stacks_2Dd g, e_put = puts_2Ds g, e_get = gets_2Ds g,
     e_pmax = global_PWindow g, e_gmax = global_GWindow g, e_hist = hist (smem g)\<rparr>"

text \<open>The structure is sound and no sub-stack has had more pops than pushes.\<close>

definition stack_inv_2Dd :: "ds2Dd \<Rightarrow> stack2Dd \<Rightarrow> bool" where
  "stack_inv_2Dd cfg g \<longleftrightarrow> length (array_2Ds g) = width cfg \<and> stacks_ok (smem g) (tops_2Ds g) \<and>
     (\<forall>i < width cfg. gets_2Ds g i \<le> puts_2Ds g i)"

lemma tops_2Ds_simps [simp]:
  "length (tops_2Ds g) = length (array_2Ds g)"
  "i < length (array_2Ds g) \<Longrightarrow> tops_2Ds g ! i = (s_node (array_2Ds g ! i), s_put (array_2Ds g ! i) - s_get (array_2Ds g ! i))"
  "tops_2Ds (g\<lparr>global_PWindow := w\<rparr>) = tops_2Ds g" "tops_2Ds (g\<lparr>global_GWindow := w\<rparr>) = tops_2Ds g"
  "tops_2Ds (g\<lparr>smem := m\<rparr>) = tops_2Ds g"
  "tops_2Ds (g\<lparr>array_2Ds := (array_2Ds g)[i := d]\<rparr>) = (tops_2Ds g)[i := (s_node d, s_put d - s_get d)]"
  by (simp_all add: tops_2Ds_def map_update)

lemma stack_inv_2DdD:
  assumes "stack_inv_2Dd cfg g"
  shows "length (array_2Ds g) = width cfg" "stacks_ok (smem g) (tops_2Ds g)" "i < width cfg \<Longrightarrow> gets_2Ds g i \<le> puts_2Ds g i"
    "i < width cfg \<Longrightarrow> length (sub_stacks_2Dd g ! i) = puts_2Ds g i - gets_2Ds g i"
    "i < width cfg \<Longrightarrow> s_node (array_2Ds g ! i) = NULL \<longleftrightarrow> puts_2Ds g i = gets_2Ds g i"
    "length (sub_stacks_2Dd g) = width cfg"
proof -
  show len: "length (array_2Ds g) = width cfg" and ok: "stacks_ok (smem g) (tops_2Ds g)" and le: "i < width cfg \<Longrightarrow> gets_2Ds g i \<le> puts_2Ds g i"
    using assms by (auto simp: stack_inv_2Dd_def)
  show "length (sub_stacks_2Dd g) = width cfg" using len by (simp add: sub_stacks_2Dd_def)
  show "length (sub_stacks_2Dd g ! i) = puts_2Ds g i - gets_2Ds g i" if "i < width cfg"
    using stacks_okD(4) [OF ok, of i] that len by (simp add: sub_stacks_2Dd_def)
  show "s_node (array_2Ds g ! i) = NULL \<longleftrightarrow> puts_2Ds g i = gets_2Ds g i" if "i < width cfg"
    using stacks_okD(3,4) [OF ok, of i] that len le
    by (cases "subs (smem g) (tops_2Ds g) ! i") (auto split: option.splits)
qed

section \<open>Running alone\<close>

lemma descriptor2Ds_eta [simp]: "\<lparr>s_node = s_node d, s_put = s_put d, s_get = s_get d\<rparr> = (d :: descriptor2Ds)"
  by simp

interpretation dst: loads2Dd load_descriptor_2Ds load_descriptor_2Ds load_put_count_2Ds s_put s_get
  "\<lambda>g. (!) (array_2Ds g)" "\<lambda>g. (!) (array_2Ds g)" "\<lambda>g. length (array_2Ds g)"
  by unfold_locales (simp_all add: load_descriptor_2Ds_def load_put_count_2Ds_def)

text \<open>
  What a call starts from: the structural invariant, the windows, and room for one more shift below the largest
  32-bit number, which also bounds the counts.
\<close>

definition quiet_2Dd :: "ds2Dd \<Rightarrow> stack2Dd \<Rightarrow> bool" where
  "quiet_2Dd cfg g \<longleftrightarrow> stack_inv_2Dd cfg g \<and> ds2Dd_ok cfg \<and> global_PWindow g + depth cfg < 4294967296 \<and>
     dwindows (width cfg) (depth cfg) (abs_2Dd g)"

lemma quiet_2DdD:
  assumes "quiet_2Dd cfg g"
  shows "stack_inv_2Dd cfg g" "dst.quiet cfg g" "global_PWindow g + depth cfg < 4294967296" "ds2Dd_ok cfg"
proof -
  show i: "stack_inv_2Dd cfg g" and w: "global_PWindow g + depth cfg < 4294967296" and c: "ds2Dd_ok cfg"
    using assms by (auto simp: quiet_2Dd_def)
  show "dst.quiet cfg g" using assms c w stack_inv_2DdD(1) [OF i]
    by (auto simp: quiet_2Dd_def dst.quiet_def room2Dd_def win_inv2Dd_def dwindows_def abs_2Dd_def W64_def)
qed

text \<open>What a call leaves behind: the abstract stack has made a step, and a pop has returned the value of the node it popped.\<close>

definition pushed_2Dd :: "ds2Dd \<Rightarrow> stack2Dd \<Rightarrow> ptr \<Rightarrow> int \<times> tl2Dd \<Rightarrow> stack2Dd \<Rightarrow> bool" where
  "pushed_2Dd cfg g p = (\<lambda>(r, l') g'. r = 1 \<and> thread_index l' < width cfg \<and> stack_inv_2Dd cfg g' \<and>
     spec_dstack (width cfg) (depth cfg) (abs_2Dd g) (Pushed p) (abs_2Dd g'))"

definition popped_2Dd :: "ds2Dd \<Rightarrow> stack2Dd \<Rightarrow> int \<times> tl2Dd \<Rightarrow> stack2Dd \<Rightarrow> bool" where
  "popped_2Dd cfg g = (\<lambda>(r, l') g'. thread_index l' < width cfg \<and> stack_inv_2Dd cfg g' \<and>
     (r = 0 \<and> spec_dstack (width cfg) (depth cfg) (abs_2Dd g) PoppedNull (abs_2Dd g') \<or>
      (\<exists>p nd. heap (smem g) p = Some nd \<and> r = n_val nd \<and> p \<in> set (concat (sub_stacks_2Dd g)) \<and>
         spec_dstack (width cfg) (depth cfg) (abs_2Dd g) (Popped p) (abs_2Dd g'))))"

lemma abs_2Dd_push:
  assumes inv: "stack_inv_2Dd cfg g" and p: "p \<noteq> NULL" "p \<notin> set (allocd (smem g))" and i: "i < width cfg"
    and m: "m = global_PWindow g \<or> m = global_PWindow g + depth cfg \<and> (\<forall>j < width cfg. puts_2Ds g j = global_PWindow g)" "puts_2Ds g i < m"
    and h: "h = g\<lparr>global_PWindow := m, array_2Ds := (array_2Ds g)[i := \<lparr>s_node = p, s_put = puts_2Ds g i + 1, s_get = gets_2Ds g i\<rparr>],
      smem := mem_publish p (mem_set_next p (s_node (array_2Ds g ! i)) (mem_alloc t p nd (smem g)))\<rparr>"
  shows "stack_inv_2Dd cfg h" "spec_dstack (width cfg) (depth cfg) (abs_2Dd g) (Pushed p) (abs_2Dd h)"
proof -
  note D = stack_inv_2DdD [OF inv]
  have il: "i < length (tops_2Ds g)" "i < length (array_2Ds g)" using i D(1) by simp_all
  have tp: "tops_2Ds g ! i = (s_node (array_2Ds g ! i), puts_2Ds g i - gets_2Ds g i)" using il by simp
  note S = stacks_push_alone [OF D(2) il(1) p, of "smem h" t nd, unfolded tp fst_conv snd_conv]
  have t: "tops_2Ds h = (tops_2Ds g)[i := (p, puts_2Ds g i - gets_2Ds g i + 1)]"
    using D(3) [OF i] by (simp add: h tops_2Ds_def map_update Suc_diff_le Suc_eq_plus1 [symmetric])
  have mh: "smem h = mem_publish p (mem_set_next p (s_node (array_2Ds g ! i)) (mem_alloc t p nd (smem g)))" by (simp add: h)
  have sub: "sub_stacks_2Dd h = (sub_stacks_2Dd g)[i := p # sub_stacks_2Dd g ! i]" unfolding sub_stacks_2Dd_def t by (rule S(2) [OF mh])
  show "stack_inv_2Dd cfg h" using S(1) [OF mh] D(1,3) il t by (auto simp: stack_inv_2Dd_def h nth_list_update intro: trans_le_add1)
  have "abs_2Dd h = (abs_2Dd g)\<lparr>e_subs := (e_subs (abs_2Dd g))[i := p # e_subs (abs_2Dd g) ! i],
      e_put := (e_put (abs_2Dd g))(i := e_put (abs_2Dd g) i + 1), e_pmax := m, e_hist := p # e_hist (abs_2Dd g)\<rparr>"
    using sub S(5) [OF mh] il by (auto simp: abs_2Dd_def h nth_list_update fun_eq_iff)
  then show "spec_dstack (width cfg) (depth cfg) (abs_2Dd g) (Pushed p) (abs_2Dd h)"
    using dspec_push [of i "width cfg" m "abs_2Dd g" "depth cfg" p] i m S(6) [OF mh] by (simp add: abs_2Dd_def)
qed

lemma push_seq_2Dd:
  assumes al: "alloc_fresh al" and q: "quiet_2Dd cfg g" and l: "thread_index l < width cfg" and f: "fuel2Dd cfg \<le> fuel"
  shows "wp (push_2Dd al fuel cfg t key val l) (pushed_2Dd cfg g (al t (allocd (smem g)))) g"
proof -
  note D = quiet_2DdD [OF q]
  let ?p = "al t (allocd (smem g))" and ?nd = "\<lparr>n_key = key, n_val = val, n_next = NULL\<rparr>"
  let ?g = "g\<lparr>smem := mem_alloc t ?p ?nd (smem g)\<rparr>"
  obtain n where n: "fuel = Suc n" using f by (cases fuel) (auto simp: fuel2Dd_def)
  have p: "?p \<noteq> NULL" "?p \<notin> set (allocd (smem g))" using al by (auto simp: alloc_fresh_def)
  have "dst.quiet cfg ?g" using D(2) by (simp add: dst.quiet_def room2Dd_def)
  note put = dst.put_window_seq_2Dd [OF this l f, of False]
  have commit: "wp (pbind (wr (\<lambda>g. g\<lparr>smem := mem_set_next ?p (s_node d) (smem g)\<rparr>)) (\<lambda>_.
       pbind (do_cae (thread_index l') d \<lparr>s_node = ?p, s_put = add32 (s_put d) 1, s_get = s_get d\<rparr> (mem_publish ?p)) (\<lambda>success.
        if success then Ret (1, l') else R))) (pushed_2Dd cfg g ?p) g'"
    if post: "put_post_2Dd cfg ((!) (array_2Ds ?g)) s_put ?g (d, l') g'" for d l' g' R
  proof -
    let ?i = "thread_index l'" and ?m = "global_PWindow g'"
    have P: "?i < width cfg" "d = array_2Ds g ! ?i" "s_put d < ?m"
      "?m = global_PWindow g \<or> ?m = global_PWindow g + depth cfg \<and> (\<forall>j < width cfg. puts_2Ds g j = global_PWindow g)"
      "g' = g\<lparr>smem := mem_alloc t ?p ?nd (smem g), global_PWindow := ?m\<rparr>"
      using post by (auto simp: put_post_2Dd_def)
    have add: "add32 (s_put d) 1 = s_put d + 1" using P(3,4) D(3) by (intro add32_eq) auto
    have sel: "array_2Ds g' = array_2Ds g" "smem g' = mem_alloc t ?p ?nd (smem g)"
      using arg_cong [OF P(5), of array_2Ds] arg_cong [OF P(5), of smem] by simp_all
    have at: "at (array_2Ds g') ?i = Some d" using P(1,2) sel(1) stack_inv_2DdD(1) [OF D(1)] by simp
    let ?h = "g\<lparr>global_PWindow := ?m, array_2Ds := (array_2Ds g)[?i := \<lparr>s_node = ?p, s_put = s_put d + 1, s_get = s_get d\<rparr>],
      smem := mem_publish ?p (mem_set_next ?p (s_node d) (mem_alloc t ?p ?nd (smem g)))\<rparr>"
    note A = abs_2Dd_push [OF D(1) p P(1,4) _ , where h = ?h, folded P(2), OF P(3) refl]
    have "pushed_2Dd cfg g ?p (1, l') ?h" using A P(1) by (simp add: pushed_2Dd_def)
    moreover have "g'\<lparr>array_2Ds := (array_2Ds g)[?i := \<lparr>s_node = ?p, s_put = s_put d + 1, s_get = s_get d\<rparr>],
       smem := mem_publish ?p (mem_set_next ?p (s_node d) (mem_alloc t ?p ?nd (smem g)))\<rparr> = ?h" by (subst P(5)) simp
    ultimately show ?thesis using at by (simp add: do_cae_def add sel)
  qed
  have "wp (push_loop_2Dd (Suc n) fuel cfg t ?p l False) (pushed_2Dd cfg g ?p) ?g"
    unfolding push_loop_2Dd.simps wp_bind [of "put_window_2Dd _ _ _ _ _ _"] Let_def
    by (rule wp_mono [OF put]) (use commit in \<open>auto simp del: wp_bind\<close>)
  then show ?thesis by (simp add: push_2Dd_def create_node_2Ds_def n)
qed

lemma abs_2Dd_pop:
  assumes inv: "stack_inv_2Dd cfg g" and i: "i < width cfg" and p: "s_node (array_2Ds g ! i) \<noteq> NULL"
    and m: "m = global_GWindow g \<or> m = global_GWindow g + depth cfg \<and>
      (\<forall>j < width cfg. gets_2Ds g j = global_GWindow g \<or> puts_2Ds g j = gets_2Ds g j) \<and> (\<exists>j < width cfg. puts_2Ds g j \<noteq> gets_2Ds g j)"
      "gets_2Ds g i < m"
  obtains nd where "heap (smem g) (s_node (array_2Ds g ! i)) = Some nd" "s_node (array_2Ds g ! i) \<in> set (concat (sub_stacks_2Dd g))"
    "\<And>h. h = g\<lparr>global_GWindow := m, array_2Ds := (array_2Ds g)[i := \<lparr>s_node = n_next nd, s_put = puts_2Ds g i, s_get = gets_2Ds g i + 1\<rparr>],
      smem := mem_free t (s_node (array_2Ds g ! i)) (mem_remove t (s_node (array_2Ds g ! i)) (smem g))\<rparr> \<Longrightarrow>
     stack_inv_2Dd cfg h \<and> spec_dstack (width cfg) (depth cfg) (abs_2Dd g) (Popped (s_node (array_2Ds g ! i))) (abs_2Dd h)"
proof -
  note D = stack_inv_2DdD [OF inv]
  let ?p = "s_node (array_2Ds g ! i)"
  have il: "i < length (tops_2Ds g)" "i < length (array_2Ds g)" using i D(1) by simp_all
  have tp: "tops_2Ds g ! i = (?p, puts_2Ds g i - gets_2Ds g i)" using il by simp
  obtain nd where nd: "heap (smem g) ?p = Some nd" and top: "subs (smem g) (tops_2Ds g) ! i = ?p # tl (subs (smem g) (tops_2Ds g) ! i)"
    and pos: "0 < puts_2Ds g i - gets_2Ds g i"
    and ok: "stacks_ok (mem_free t ?p (mem_remove t ?p (smem g))) ((tops_2Ds g)[i := (n_next nd, puts_2Ds g i - gets_2Ds g i - 1)])"
    and sub: "subs (mem_free t ?p (mem_remove t ?p (smem g))) ((tops_2Ds g)[i := (n_next nd, puts_2Ds g i - gets_2Ds g i - 1)]) =
      (subs (smem g) (tops_2Ds g))[i := tl (subs (smem g) (tops_2Ds g) ! i)]"
    using stacks_pop_alone [OF D(2) il(1), of ?p t] p tp by (metis fst_conv snd_conv)
  have "?p \<in> set (sub_stacks_2Dd g ! i)" unfolding sub_stacks_2Dd_def by (subst top) simp
  then have mem: "?p \<in> set (concat (sub_stacks_2Dd g))" using nth_mem [of i "sub_stacks_2Dd g"] D(6) i by auto
  show thesis
  proof (rule that [OF nd mem])
    fix h
    assume h: "h = g\<lparr>global_GWindow := m, array_2Ds := (array_2Ds g)[i := \<lparr>s_node = n_next nd, s_put = puts_2Ds g i, s_get = gets_2Ds g i + 1\<rparr>],
      smem := mem_free t ?p (mem_remove t ?p (smem g))\<rparr>"
    have t: "tops_2Ds h = (tops_2Ds g)[i := (n_next nd, puts_2Ds g i - gets_2Ds g i - 1)]"
      by (simp add: h tops_2Ds_def map_update)
    have sh: "sub_stacks_2Dd h = (sub_stacks_2Dd g)[i := tl (sub_stacks_2Dd g ! i)]"
      using sub by (simp add: sub_stacks_2Dd_def t) (simp add: h)
    have inv': "stack_inv_2Dd cfg h" using ok D(1,3) pos il t by (auto simp: stack_inv_2Dd_def h nth_list_update)
    have "abs_2Dd h = (abs_2Dd g)\<lparr>e_subs := (e_subs (abs_2Dd g))[i := tl (sub_stacks_2Dd g ! i)],
        e_get := (e_get (abs_2Dd g))(i := e_get (abs_2Dd g) i + 1), e_gmax := m\<rparr>"
      using sh il by (auto simp: abs_2Dd_def h nth_list_update fun_eq_iff mem_free_def mem_remove_def)
    then show "stack_inv_2Dd cfg h \<and> spec_dstack (width cfg) (depth cfg) (abs_2Dd g) (Popped ?p) (abs_2Dd h)"
      using dspec_pop [of i "width cfg" m "abs_2Dd g" "depth cfg" ?p "tl (sub_stacks_2Dd g ! i)"] i m top inv'
      by (simp add: abs_2Dd_def sub_stacks_2Dd_def)
  qed
qed

lemma pop_seq_2Dd:
  assumes q: "quiet_2Dd cfg g" and l: "thread_index l < width cfg" and f: "fuel2Dd cfg \<le> fuel"
  shows "wp (pop_2Dd fuel cfg t l) (popped_2Dd cfg g) g"
proof -
  note D = quiet_2DdD [OF q]
  note I = stack_inv_2DdD [OF D(1)]
  obtain n where n: "fuel = Suc n" using f by (cases fuel) (auto simp: fuel2Dd_def)
  note get = dst.get_window_seq_2Dd [OF D(2) l f, of False]
  have commit: "wp (if s_node d \<noteq> NULL then
       pbind (rd_opt (\<lambda>g. map_option n_next (heap (smem g) (s_node d)))) (\<lambda>nxt.
       pbind (do_cae (thread_index l') d \<lparr>s_node = nxt, s_put = s_put d, s_get = add32 (s_get d) 1\<rparr> (mem_remove t (s_node d))) (\<lambda>success.
          if success then
            pbind (rd_opt (\<lambda>g. map_option n_val (heap (smem g) (s_node d)))) (\<lambda>node_val.
            pbind (wr (\<lambda>g. g\<lparr>smem := mem_free t (s_node d) (smem g)\<rparr>)) (\<lambda>_.
            Ret (node_val, l')))
          else R))
     else Ret (0, l'\<lparr>my_null_count := c\<rparr>)) (popped_2Dd cfg g) g'"
    if post: "get_post_2Dd cfg (dst.pc g) ((!) (array_2Ds g)) s_get g (d, l') g'" for d l' g' R c
  proof -
    let ?i = "thread_index l'" and ?m = "global_GWindow g'"
    have i: "?i < width cfg" "d = array_2Ds g ! ?i" using post by (auto simp: get_post_2Dd_def)
    have null: "s_node d = NULL \<longleftrightarrow> puts_2Ds g ?i = gets_2Ds g ?i" using I(5) [OF i(1)] i(2) by simp
    show ?thesis
    proof (cases "s_node d = NULL")
      case True
      then have "g' = g" "\<forall>j < width cfg. puts_2Ds g j = gets_2Ds g j" using post null i(2) by (auto simp: get_post_2Dd_def)
      moreover from this have "\<forall>j < width cfg. sub_stacks_2Dd g ! j = []" using I(4) by auto
      then have "concat (sub_stacks_2Dd g) = []" using I(6) by (auto simp: in_set_conv_nth)
      ultimately show ?thesis using True i D(1) dspec_null [of "abs_2Dd g"] by (simp add: popped_2Dd_def abs_2Dd_def)
    next
      case False
      have P: "gets_2Ds g ?i < ?m" "g' = g\<lparr>global_GWindow := ?m\<rparr>"
        "?m = global_GWindow g \<or> ?m = global_GWindow g + depth cfg \<and>
          (\<forall>j < width cfg. gets_2Ds g j = global_GWindow g \<or> puts_2Ds g j = gets_2Ds g j) \<and> (\<exists>j < width cfg. puts_2Ds g j \<noteq> gets_2Ds g j)"
        using post null i False by (auto simp: get_post_2Dd_def)
      from abs_2Dd_pop [OF D(1) i(1) _ P(3,1), where t = t, folded i(2), OF False]
      obtain nd where nd: "heap (smem g) (s_node d) = Some nd" and mem: "s_node d \<in> set (concat (sub_stacks_2Dd g))"
        and st: "\<And>h. h = g\<lparr>global_GWindow := ?m, array_2Ds := (array_2Ds g)[?i := \<lparr>s_node = n_next nd, s_put = s_put d, s_get = s_get d + 1\<rparr>],
            smem := mem_free t (s_node d) (mem_remove t (s_node d) (smem g))\<rparr> \<Longrightarrow>
          stack_inv_2Dd cfg h \<and> spec_dstack (width cfg) (depth cfg) (abs_2Dd g) (Popped (s_node d)) (abs_2Dd h)"
        by blast
      have sel: "array_2Ds g' = array_2Ds g" "smem g' = smem g"
        using arg_cong [OF P(2), of array_2Ds] arg_cong [OF P(2), of smem] by simp_all
      have "s_get d \<le> s_put d" "s_put d \<le> global_PWindow g" using I(3) [OF i(1)] i q by (auto simp: quiet_2Dd_def dwindows_def abs_2Dd_def)
      then have add: "add32 (s_get d) 1 = s_get d + 1" using D(3) D(4) by (intro add32_eq) (auto simp: ds2Dd_ok_def)
      have at: "at (array_2Ds g') ?i = Some d" using i sel(1) I(1) by simp
      let ?h = "g\<lparr>global_GWindow := ?m, array_2Ds := (array_2Ds g)[?i := \<lparr>s_node = n_next nd, s_put = s_put d, s_get = s_get d + 1\<rparr>],
            smem := mem_free t (s_node d) (mem_remove t (s_node d) (smem g))\<rparr>"
      have "popped_2Dd cfg g (n_val nd, l') ?h" using st [OF refl] i(1) nd mem by (auto simp: popped_2Dd_def)
      moreover have "g'\<lparr>array_2Ds := (array_2Ds g)[?i := \<lparr>s_node = n_next nd, s_put = s_put d, s_get = s_get d + 1\<rparr>],
            smem := mem_free t (s_node d) (mem_remove t (s_node d) (smem g))\<rparr> = ?h" by (subst P(2)) simp
      ultimately show ?thesis using False at nd sel by (simp add: do_cae_def add mem_remove_def)
    qed
  qed
  have "wp (pop_loop_2Dd (Suc n) fuel cfg t l False) (popped_2Dd cfg g) g"
    unfolding pop_loop_2Dd.simps wp_bind [of "get_window_2Dd _ _ _ _ _ _ _"] Let_def
    by (rule wp_mono [OF get]) (use commit in \<open>auto simp del: wp_bind wp_if\<close>)
  then show ?thesis by (simp add: pop_2Dd_def n)
qed

section \<open>Calls one after the other\<close>

definition dstack_spec :: "nat \<Rightarrow> nat \<Rightarrow> stack_call \<Rightarrow> ptr dstack \<Rightarrow> int \<Rightarrow> ptr dstack \<Rightarrow> bool" where
  "dstack_spec w d c s r s' \<longleftrightarrow>
     (case c of
        Push key val \<Rightarrow> r = 1 \<and> (\<exists>p. spec_dstack w d s (Pushed p) s')
      | Pop \<Rightarrow> r = 0 \<and> spec_dstack w d s PoppedNull s' \<or> (\<exists>p. spec_dstack w d s (Popped p) s'))"

text \<open>The invariant between calls, with a budget of \<open>n\<close> more calls before a 32-bit count may wrap.\<close>

definition dcalls_inv :: "allocator \<Rightarrow> nat \<Rightarrow> ds2Dd \<Rightarrow> nat \<Rightarrow> tl2Dd list \<Rightarrow> stack2Dd \<Rightarrow> bool" where
  "dcalls_inv al fuel cfg n ls g \<longleftrightarrow> alloc_fresh al \<and> fuel2Dd cfg \<le> fuel \<and> stack_inv_2Dd cfg g \<and> ds2Dd_ok cfg \<and>
     dstack_inv (width cfg) (depth cfg) (abs_2Dd g) \<and> (\<forall>l \<in> set ls. thread_index l < width cfg) \<and>
     global_PWindow g + (n + 1) * depth cfg < 4294967296"

lemma dcalls_quiet: "dcalls_inv al fuel cfg n ls g \<Longrightarrow> quiet_2Dd cfg g"
  by (auto simp: dcalls_inv_def quiet_2Dd_def dstack_inv_def algebra_simps)

lemma abs_counts: "stack_inv_2Dd cfg g \<Longrightarrow> counts_ok (width cfg) (abs_2Dd g)"
  using stack_inv_2DdD(3,4) [of cfg g] by (auto simp: counts_ok_def abs_2Dd_def)

lemma spec_dstack_max: "spec_dstack w d s e s' \<Longrightarrow> e_pmax s' \<le> e_pmax s + d"
  by (cases rule: spec_dstack.cases) auto

lemma dcalls_step:
  assumes inv: "dcalls_inv al fuel cfg (Suc n) ls g" and "stack_inv_2Dd cfg g'" "thread_index l < width cfg"
    and step: "spec_dstack (width cfg) (depth cfg) (abs_2Dd g) e (abs_2Dd g')"
  shows "dcalls_inv al fuel cfg n (ls[t := l]) g'"
proof -
  have "dstack_inv (width cfg) (depth cfg) (abs_2Dd g')"
    using dstack_inv_step [OF _ abs_counts step] inv by (simp add: dcalls_inv_def)
  moreover have "global_PWindow g' \<le> global_PWindow g + depth cfg" using spec_dstack_max [OF step] by (simp add: abs_2Dd_def)
  moreover have "\<forall>k \<in> set (ls[t := l]). thread_index k < width cfg"
    using inv assms(3) set_update_subset_insert [of ls t l] by (auto simp: dcalls_inv_def)
  ultimately show ?thesis using inv assms(2) by (auto simp: dcalls_inv_def)
qed

interpretation dst_calls: budgeted_calls "stack_call_2Dd al fuel cfg" "dcalls_inv al fuel cfg" abs_2Dd
  "dstack_spec (width cfg) (depth cfg)" for al fuel cfg
proof
  fix n ls g t c
  assume inv: "dcalls_inv al fuel cfg (Suc n) ls g" and t: "t < length ls"
  then have c: "alloc_fresh al" "thread_index (ls ! t) < width cfg" "fuel2Dd cfg \<le> fuel" by (simp_all add: dcalls_inv_def)
  note q = dcalls_quiet [OF inv]
  show "wp (stack_call_2Dd al fuel cfg t c (ls ! t)) (\<lambda>(r, l) g'. dcalls_inv al fuel cfg n (ls[t := l]) g' \<and>
      dstack_spec (width cfg) (depth cfg) c (abs_2Dd g) r (abs_2Dd g')) g"
  proof (cases c)
    case (Push key val)
    show ?thesis unfolding Push stack_call_2Dd_def stack_call.case
      by (rule wp_mono [OF push_seq_2Dd [OF c(1) q c(2,3)]])
        (auto simp: pushed_2Dd_def dstack_spec_def intro: dcalls_step [OF inv])
  next
    case Pop
    show ?thesis unfolding Pop stack_call_2Dd_def stack_call.case
      by (rule wp_mono [OF pop_seq_2Dd [OF q c(2,3)]])
        (auto simp: popped_2Dd_def dstack_spec_def intro: dcalls_step [OF inv])
  qed
qed

lemma create_stack_2Dd_ok:
  assumes c: "create_stack_2Dd nt w d mode bound = Some (cfg, g)" and u: "1 \<le> width cfg" "width cfg < 4294967296" "1 \<le> depth cfg"
  shows "ds2Dd_ok cfg" "stack_inv_2Dd cfg g" "dstack_inv (width cfg) (depth cfg) (abs_2Dd g)" "global_PWindow g = 0" "global_GWindow g = 0"
    "fuel2Dd cfg = 2 * width cfg + 5" "smem g = empty_mem" "i < width cfg \<Longrightarrow> puts_2Ds g i = 0"
proof -
  obtain w' d' k' where cfg: "cfg = \<lparr>random_hops = 2, width = w', depth = d', relaxation_bound = k', k_mode = mode\<rparr>"
    and g: "g = \<lparr>global_PWindow = 0, global_GWindow = 0, array_2Ds = replicate w' \<lparr>s_node = NULL, s_put = 0, s_get = 0\<rparr>, smem = empty_mem\<rparr>"
    using c by (auto simp: create_stack_2Dd_def split: option.splits)
  have tops: "tops_2Ds g = replicate w' (NULL, 0)" by (simp add: g tops_2Ds_def)
  have subs: "sub_stacks_2Dd g = replicate w' []"
    unfolding sub_stacks_2Dd_def tops by (simp add: subs_def map_replicate_const)
  show "ds2Dd_ok cfg" "fuel2Dd cfg = 2 * width cfg + 5" using u by (auto simp: cfg ds2Dd_ok_def fuel2Dd_def W64_def)
  show "global_PWindow g = 0" "global_GWindow g = 0" "smem g = empty_mem" by (simp_all add: g)
  show "stack_inv_2Dd cfg g" using stacks_ok_empty [of w'] tops by (simp add: stack_inv_2Dd_def g cfg)
  show "i < width cfg \<Longrightarrow> puts_2Ds g i = 0" by (simp add: g cfg)
  show "dstack_inv (width cfg) (depth cfg) (abs_2Dd g)"
    using subs by (simp add: dstack_inv_def dwindows_def abs_2Dd_def) (simp add: g cfg)
qed

section \<open>Properties\<close>

text \<open>
  C22. The 2Dd stack is k-out-of-order, for calls that do not overlap, with the factor 3 that its
  \<^verbatim>\<open>create_stack\<close> uses. Take the stack that \<^verbatim>\<open>create_stack\<close> returns, with any parameters for which it has computed a depth of at least 1 and a
  width between 1 and \<open>2 ^ 32 - 1\<close>, and any list of pushes and pops by any threads, short enough for the 32-bit counts not to
  wrap. Every call returns. A pop that follows them returns too: the null value only if every
  sub-stack is empty, and else the value of a node of the stack after which at most \<open>3 * depth * (width - 1)\<close> of the nodes now
  in the stack were pushed.
\<close>

theorem stack_2Dd_k_out_of_order:
  assumes "create_stack_2Dd nt w d mode bound = Some (cfg, g0)" "1 \<le> width cfg" "width cfg < 4294967296" "1 \<le> depth cfg"
    and "alloc_fresh al" "2 * width cfg + 5 \<le> fuel" "(length cs + 2) * depth cfg < 4294967296"
    and "\<forall>l \<in> set ls. thread_index l < width cfg" "\<forall>(t, c) \<in> set cs. t < length ls" "t < length ls"
  shows "\<exists>rs ls' g r l g'. exec_calls (stack_call_2Dd al fuel cfg) cs (ls, g0) = Some (rs, ls', g) \<and>
    run (pop_2Dd fuel cfg t (ls' ! t)) g = (Done (r, l), g') \<and>
    (r = 0 \<and> concat (sub_stacks_2Dd g) = [] \<or>
     (\<exists>p nd. p \<in> set (concat (sub_stacks_2Dd g)) \<and> heap (smem g) p = Some nd \<and> r = n_val nd \<and>
        newer_than (hist (smem g)) p (concat (sub_stacks_2Dd g)) \<le> 3 * depth cfg * (width cfg - 1)))"
proof -
  note C = create_stack_2Dd_ok [OF assms(1-4)]
  have "dcalls_inv al fuel cfg (length cs + 1) ls g0" using C(1-6) assms(5-8) by (simp add: dcalls_inv_def algebra_simps)
  then obtain rs ls' g where e: "exec_calls (stack_call_2Dd al fuel cfg) cs (ls, g0) = Some (rs, ls', g)"
    and inv: "dcalls_inv al fuel cfg 1 ls' g" and len: "length ls' = length ls"
    using dst_calls.exec_calls_returns [of al fuel cfg cs 1 ls g0] assms(9) by auto
  have "wp (pop_2Dd fuel cfg t (ls' ! t)) (popped_2Dd cfg g) g"
    using inv len assms(10) by (intro pop_seq_2Dd [OF dcalls_quiet [OF inv]]) (auto simp: dcalls_inv_def)
  then obtain r l g' where r: "run (pop_2Dd fuel cfg t (ls' ! t)) g = (Done (r, l), g')" and p: "popped_2Dd cfg g (r, l) g'"
    by (auto simp: wp_run)
  have i: "dstack_inv (width cfg) (depth cfg) (abs_2Dd g)" "counts_ok (width cfg) (abs_2Dd g)"
    using inv abs_counts by (auto simp: dcalls_inv_def)
  have "r = 0 \<and> concat (sub_stacks_2Dd g) = [] \<or>
     (\<exists>p nd. p \<in> set (concat (sub_stacks_2Dd g)) \<and> heap (smem g) p = Some nd \<and> r = n_val nd \<and>
        newer_than (hist (smem g)) p (concat (sub_stacks_2Dd g)) \<le> 3 * depth cfg * (width cfg - 1))"
    using p dpop_newer_bound [OF i] by (fastforce simp: popped_2Dd_def abs_2Dd_def elim: dspec_nullE)
  then show ?thesis using e r by blast
qed

text \<open>A stack for two threads with width 2 and depth 2, as mode 0 creates it.\<close>

definition demo_2Dd :: "ds2Dd \<times> stack2Dd" where
  "demo_2Dd = the (create_stack_2Dd 2 2 2 0 0)"

definition fresh_tl2Dd :: "seeds \<Rightarrow> u64 \<Rightarrow> tl2Dd" where
  "fresh_tl2Dd s i = \<lparr>seeds = s, my_put_cas_fail_count = 0, my_get_cas_fail_count = 0, my_null_count = 0,
     my_hop_count = 0, my_slide_count = 0, my_slide_fail_count = 0, thread_PWindow = 0, thread_GWindow = 0, thread_index = i\<rparr>"

lemma demo_2Dd_eq:
  "demo_2Dd = (\<lparr>random_hops = 2, width = 2, depth = 2, relaxation_bound = 6, k_mode = 0\<rparr>,
     \<lparr>global_PWindow = 0, global_GWindow = 0, array_2Ds = replicate 2 \<lparr>s_node = NULL, s_put = 0, s_get = 0\<rparr>, smem = empty_mem\<rparr>)"
  "create_stack_2Dd 2 2 2 0 0 = Some (fst demo_2Dd, snd demo_2Dd)"
  by (simp_all add: demo_2Dd_def create_stack_2Dd_def calc_params_def bound64_def mul64_def sub64_def W64_def)

lemmas demo_2Dd_unfold [prog_unfold] = demo_2Dd_eq(1) fresh_tl2Dd_def

theorem stack_2Dd_k_out_of_order_witness:
  "\<exists>rs ls' g r l g'. exec_calls (stack_call_2Dd bump_alloc 9 (fst demo_2Dd))
       [(0, Push 1 10), (1, Push 2 20), (0, Pop)] ([fresh_tl2Dd (1, 2, 3) 0, fresh_tl2Dd (4, 5, 6) 1], snd demo_2Dd) = Some (rs, ls', g) \<and>
    run (pop_2Dd 9 (fst demo_2Dd) 1 (ls' ! 1)) g = (Done (r, l), g') \<and>
    (r = 0 \<and> concat (sub_stacks_2Dd g) = [] \<or>
     (\<exists>p nd. p \<in> set (concat (sub_stacks_2Dd g)) \<and> heap (smem g) p = Some nd \<and> r = n_val nd \<and>
        newer_than (hist (smem g)) p (concat (sub_stacks_2Dd g)) \<le> 3 * depth (fst demo_2Dd) * (width (fst demo_2Dd) - 1)))"
  by (rule stack_2Dd_k_out_of_order [OF demo_2Dd_eq(2) _ _ _ bump_alloc_fresh])
    (simp_all add: demo_2Dd_eq(1) fresh_tl2Dd_def)

text \<open>
  \<^verbatim>\<open>stack_size\<close> of the 2Dd stack, run alone on a well-formed stack with less than \<open>2 ^ 64\<close> nodes, returns the number
  of nodes of all sub-stacks, which is the number of pushes less the number of pops the descriptors have counted, and changes nothing.
\<close>

lemma run_stack_size_2Dd:
  assumes "stack_inv_2Dd cfg g" "length (concat (sub_stacks_2Dd g)) < W64"
    and "\<forall>xs \<in> set (sub_stacks_2Dd g). length xs < fuel"
  shows "run (stack_size_2Dd fuel cfg) g = (Done (length (concat (sub_stacks_2Dd g))), g) \<and>
    length (concat (sub_stacks_2Dd g)) = (\<Sum>d \<leftarrow> array_2Ds g. s_put d - s_get d)"
proof
  note D = stack_inv_2DdD [OF assms(1)]
  have len: "length (tops_2Ds g) = width cfg" using D(1) by simp
  from run_size_loop [where getm = smem, OF D(2), of "\<lambda>g i. map_option s_node (at (array_2Ds g) i)" fuel] assms(2,3) len
  show "run (stack_size_2Dd fuel cfg) g = (Done (length (concat (sub_stacks_2Dd g))), g)"
    by (simp add: stack_size_2Dd_def sub_stacks_2Dd_def)
  have "map length (sub_stacks_2Dd g) = map (\<lambda>d. s_put d - s_get d) (array_2Ds g)"
    using D(1,4,6) by (intro nth_equalityI) simp_all
  then show "length (concat (sub_stacks_2Dd g)) = (\<Sum>d \<leftarrow> array_2Ds g. s_put d - s_get d)" by (simp add: length_concat)
qed

lemma demo_2Dd_sized:
  "stack_inv_2Dd (fst demo_2Dd) (snd demo_2Dd)" "concat (sub_stacks_2Dd (snd demo_2Dd)) = []"
proof -
  show "stack_inv_2Dd (fst demo_2Dd) (snd demo_2Dd)" by (rule create_stack_2Dd_ok(2) [OF demo_2Dd_eq(2)]) (simp_all add: demo_2Dd_eq(1))
  show "concat (sub_stacks_2Dd (snd demo_2Dd)) = []"
    by (simp add: demo_2Dd_eq(1) sub_stacks_2Dd_def tops_2Ds_def subs_def map_replicate_const)
qed

end
