(* ===== verification/Stack2Dd_Conc.thy ===== *)
theory Stack2Dd_Conc
  imports Stack2Dd
begin

text \<open>
  The 2Dd stack under concurrency: any number of threads, each running its own list of pushes and pops,
  interleaved at every access to shared memory, the three loads of a descriptor included. The
  linked stacks obey \<open>Stack_Threads\<close>; a push is counted only below the put window, and the put window
  is shifted only when every sub-stack has reached it.
\<close>

section \<open>The protocol\<close>

text \<open>What a step on the nodes does to the rest: windows stay, counts grow, stay balanced and below the put window.\<close>

definition counts_grow :: "stack2Dd \<Rightarrow> stack2Dd \<Rightarrow> bool" where
  "counts_grow g g' \<longleftrightarrow> global_PWindow g' = global_PWindow g \<and> global_GWindow g' = global_GWindow g \<and>
     length (array_2Ds g') = length (array_2Ds g) \<and>
     (\<forall>i < length (array_2Ds g). puts_2Ds g i \<le> puts_2Ds g' i \<and>
        (gets_2Ds g i \<le> puts_2Ds g i \<longrightarrow> gets_2Ds g' i \<le> puts_2Ds g' i) \<and>
        (puts_2Ds g i \<le> global_PWindow g \<longrightarrow> puts_2Ds g' i \<le> global_PWindow g))"

definition dstack_step :: "ds2Dd \<Rightarrow> stack2Dd protocol" where
  "dstack_step cfg t g g' \<longleftrightarrow>
     node_step t (smem g, tops_2Ds g) (smem g', tops_2Ds g') \<and> counts_grow g g' \<or>
     g' = g\<lparr>global_PWindow := global_PWindow g + depth cfg\<rparr> \<and> (\<forall>i < width cfg. global_PWindow g \<le> puts_2Ds g i) \<or>
     g' = g\<lparr>global_GWindow := global_GWindow g + depth cfg\<rparr>"

definition room_2Ds :: "ds2Dd \<Rightarrow> stack2Dd \<Rightarrow> bool" where
  "room_2Ds cfg g \<longleftrightarrow> global_PWindow g + depth cfg < 4294967296 \<and> global_GWindow g + depth cfg < W64"

definition dstack_conc_inv :: "ds2Dd \<Rightarrow> stack2Dd \<Rightarrow> bool" where
  "dstack_conc_inv cfg g \<longleftrightarrow> ds2Dd_ok cfg \<and> stack_inv_2Dd cfg g \<and>
     (\<forall>i < width cfg. puts_2Ds g i \<le> global_PWindow g \<and> global_PWindow g \<le> puts_2Ds g i + depth cfg)"

lemma dstack_step_inv:
  assumes inv: "dstack_conc_inv cfg g" and st: "dstack_step cfg t g g'"
  shows "dstack_conc_inv cfg g'"
proof -
  note D = stack_inv_2DdD [of cfg g]
  have i: "stack_inv_2Dd cfg g" "ds2Dd_ok cfg" using inv by (auto simp: dstack_conc_inv_def)
  show ?thesis
  proof (cases "node_step t (smem g, tops_2Ds g) (smem g', tops_2Ds g') \<and> counts_grow g g'")
    case True
    then have "stacks_ok (smem g') (tops_2Ds g')" using node_step_ok D(2) [OF i(1)] by blast
    then show ?thesis using True inv D(1,3) [OF i(1)] unfolding dstack_conc_inv_def stack_inv_2Dd_def counts_grow_def
      by (fastforce intro: order_trans)
  next
    case False
    then show ?thesis using st inv by (auto simp: dstack_step_def dstack_conc_inv_def stack_inv_2Dd_def intro: order_trans)
  qed
qed

interpretation dsc: stack_protocol "dstack_step cfg" "room_2Ds cfg" "dstack_conc_inv cfg" smem "\<lambda>m g. g\<lparr>smem := m\<rparr>" tops_2Ds counts_grow for cfg
proof (unfold_locales, goal_cases)
  case (1 g t g')
  then show ?case by (blast intro: dstack_step_inv)
next
  case (2 g)
  then show ?case by (simp add: dstack_conc_inv_def stack_inv_2Dd_def)
qed (auto simp: dstack_step_def counts_grow_def room_2Ds_def)

section \<open>What a thread knows\<close>

definition put_counts :: "stack2Dd \<Rightarrow> nat \<Rightarrow> nat" where
  "put_counts g i = (if i < length (array_2Ds g) then puts_2Ds g i else 0)"

definition later_2Ds :: "stack2Dd \<Rightarrow> stack2Dd \<Rightarrow> bool" where
  "later_2Ds g h \<longleftrightarrow> global_PWindow g \<le> global_PWindow h \<and> (\<forall>i. put_counts g i \<le> put_counts h i)"

lemma later_2Ds_trans: "later_2Ds g h \<Longrightarrow> later_2Ds h k \<Longrightarrow> later_2Ds g k"
  by (auto simp: later_2Ds_def intro: order_trans)

lemma dstack_step_later: "dstack_step cfg t g g' \<Longrightarrow> later_2Ds g g'"
  by (auto simp: dstack_step_def counts_grow_def later_2Ds_def put_counts_def)

lemma dsc_later: "env (dstack_step cfg) (room_2Ds cfg) t g h \<Longrightarrow> later_2Ds g h"
proof (induction rule: rtranclp_induct)
  case (step y z)
  then have "later_2Ds y z" by (auto simp: env1_def intro: dstack_step_later)
  then show ?case using step later_2Ds_trans by blast
qed (simp add: later_2Ds_def)

lemma dsc_len: "dsc.known cfg t po fo xs ys g \<Longrightarrow> length (array_2Ds g) = width cfg \<and> ds2Dd_ok cfg"
  using dsc.knownD(1) [of cfg t po fo xs ys g] by (auto simp: dstack_conc_inv_def stack_inv_2Dd_def)

text \<open>A loaded descriptor: its count has been reached, its pointer is null or published.\<close>

definition loaded_2Ds :: "u64 \<Rightarrow> descriptor2Ds \<Rightarrow> stack2Dd \<Rightarrow> bool" where
  "loaded_2Ds i d g \<longleftrightarrow> s_put d \<le> put_counts g i \<and> dsc.published (s_node d) g"

lemma loaded_envs:
  assumes "env (dstack_step cfg) (room_2Ds cfg) t g h" "dsc.known cfg t po fo xs ys g" "loaded_2Ds i d g"
  shows "loaded_2Ds i d h"
  using assms(3) dsc.afterD(1) [OF dsc.known_envs(2) [OF assms(1,2)]] dsc_later [OF assms(1)]
  by (auto simp: loaded_2Ds_def later_2Ds_def intro: order_trans)

lemma ok_load_field:
  assumes k: "dsc.known cfg t po fo xs ys g" and i: "i < width cfg"
    and go: "\<And>h. dsc.known cfg t po fo xs ys h \<Longrightarrow> dsc.after g h \<Longrightarrow> later_2Ds g h \<Longrightarrow> i < length (array_2Ds h) \<Longrightarrow>
      ok (dstack_step cfg) (room_2Ds cfg) t (f (sel (array_2Ds h ! i))) Q h"
  shows "ok (dstack_step cfg) (room_2Ds cfg) t (pbind (rd_opt (\<lambda>g. map_option sel (at (array_2Ds g) i))) f) Q g"
proof (rule ok_rd_opt, goal_cases)
  case (1 h)
  note E = dsc.known_envs [OF 1 k]
  show ?case using go [OF E dsc_later [OF 1]] dsc_len [OF E(1)] i by simp
qed

lemma load_descriptor_2Ds_ok:
  assumes k: "dsc.known cfg t po fo xs ys g" and i: "i < width cfg"
  shows "ok (dstack_step cfg) (room_2Ds cfg) t (load_descriptor_2Ds i)
    (\<lambda>d h. dsc.known cfg t po fo xs ys h \<and> loaded_2Ds i d h \<and> later_2Ds g h) g"
  unfolding load_descriptor_2Ds_def
proof (rule ok_load_field [OF k i], rule ok_load_field [OF _ i], assumption, rule ok_load_field [OF _ i], assumption, rule ok_Ret, goal_cases)
  case (1 h1 h2 h3 h)
  note K = dsc.known_envs [OF 1(13) 1(9)]
  have "dsc.published (s_node (array_2Ds h1 ! i)) h1" using dsc.top_published [OF dsc.knownD(3) [OF 1(1)], of i] 1(4) by simp
  then have "dsc.published (s_node (array_2Ds h1 ! i)) h"
    using dsc.afterD(1) [OF 1(6)] dsc.afterD(1) [OF 1(10)] dsc.afterD(1) [OF K(2)] by blast
  moreover have "s_put (array_2Ds h2 ! i) \<le> put_counts h i"
  proof -
    have "s_put (array_2Ds h2 ! i) = put_counts h2 i" using 1(8) by (simp add: put_counts_def)
    then show ?thesis using later_2Ds_trans [OF 1(11) dsc_later [OF 1(13)]] by (simp add: later_2Ds_def)
  qed
  ultimately show ?case using K(1) later_2Ds_trans [OF 1(3) later_2Ds_trans [OF 1(7) later_2Ds_trans [OF 1(11) dsc_later [OF 1(13)]]]]
    by (simp add: loaded_2Ds_def)
qed

interpretation dsc_win: window2Dd_env "dstack_step cfg" "room_2Ds cfg" t cfg load_descriptor_2Ds load_descriptor_2Ds
  load_put_count_2Ds s_put s_get "dsc.known cfg t po fo xs ys" loaded_2Ds loaded_2Ds put_counts for cfg t po fo xs ys
proof (unfold_locales, goal_cases)
  case (1 g)
  then show ?case using dsc_len by blast
next
  case (2 g g')
  then show ?case by (rule dsc.known_env(1))
next
  case (3 g i d g')
  then show ?case using loaded_envs [of cfg t g g' po fo xs ys i d] by blast
next
  case (4 g g')
  then show ?case using dstack_step_later by (auto simp: env1_def later_2Ds_def)
next
  case (5 g g' i)
  then show ?case using dstack_step_later by (auto simp: env1_def later_2Ds_def)
next
  case (6 g i d)
  then show ?case by (simp add: loaded_2Ds_def)
next
  case (7 g w)
  then show ?case by (simp add: put_counts_def fun_eq_iff)
next
  case (8 g i)
  show ?case by (rule ok_mono [OF load_descriptor_2Ds_ok [OF 8]]) (simp add: later_2Ds_def)
next
  case (9 g i)
  show ?case by (rule ok_mono [OF load_descriptor_2Ds_ok [OF 9]]) simp
next
  case (10 g i d)
  have "ok (dstack_step cfg) (room_2Ds cfg) t (pbind (load_put_count_2Ds i) Ret) (\<lambda>c h. dsc.known cfg t po fo xs ys h \<and> loaded_2Ds i d h) g"
    unfolding load_put_count_2Ds_def
  proof (rule ok_rd_opt, goal_cases)
    case (1 h)
    have k: "dsc.known cfg t po fo xs ys h" "loaded_2Ds i d h" using dsc.known_envs(1) [OF 1 10(1)] loaded_envs [OF 1 10(1,3)] by auto
    then show ?case using dsc_len [OF k(1)] 10(2) dsc.known_envs(1) [OF _ k(1)] loaded_envs [OF _ k] by simp
  qed
  then show ?case by (simp only: pbind_Ret)
next
  case (11 g w)
  then have "w = global_PWindow g + depth cfg" using dsc.knownD(2) [OF 11(1)] by (simp add: room_2Ds_def add64_eq W64_def)
  moreover have "\<forall>i < width cfg. global_PWindow g \<le> puts_2Ds g i" using 11(4) dsc_len [OF 11(1)] by (auto simp: put_counts_def)
  ultimately have "dstack_step cfg t g (g\<lparr>global_PWindow := w\<rparr>)" by (simp add: dstack_step_def)
  then show ?case using dsc.own_other [OF 11(1) _ 11(3)] by simp
next
  case (12 g w)
  then have "w = global_GWindow g + depth cfg" using dsc.knownD(2) [OF 12(1)] by (simp add: room_2Ds_def add64_eq)
  then have "dstack_step cfg t g (g\<lparr>global_GWindow := w\<rparr>)" by (simp add: dstack_step_def)
  then show ?case using dsc.own_other [OF 12(1) _ 12(3)] by simp
qed

section \<open>Push and pop under interference\<close>

text \<open>Exchanging the descriptor at an index that has not changed.\<close>

lemma publish_2Ds:
  assumes k: "dsc.known cfg t po fo xs ys h" and at: "at (array_2Ds h) i = Some d"
    and P: "s_put d + 1 \<le> global_PWindow h"
    and u: "u = h\<lparr>array_2Ds := (array_2Ds h)[i := \<lparr>s_node = q, s_put = s_put d + 1, s_get = s_get d\<rparr>], smem := m\<rparr>"
  shows "counts_grow h u" "i < length (tops_2Ds h)" "fst (tops_2Ds h ! i) = s_node d"
    "tops_2Ds u = (tops_2Ds h)[i := (q, snd (tops_2Ds h ! i) + 1)]"
proof -
  have i: "i < length (array_2Ds h)" "array_2Ds h ! i = d" using at by (auto simp: at_eq_Some)
  have inv: "stack_inv_2Dd cfg h" using dsc.knownD(1) [OF k] by (simp add: dstack_conc_inv_def)
  have "i < width cfg" using i(1) stack_inv_2DdD(1) [OF inv] by simp
  then have le: "s_get d \<le> s_put d" using stack_inv_2DdD(3) [OF inv] i(2) by blast
  show "i < length (tops_2Ds h)" "fst (tops_2Ds h ! i) = s_node d" using i by simp_all
  show "counts_grow h u" using i P le by (auto simp: counts_grow_def u nth_list_update)
  show "tops_2Ds u = (tops_2Ds h)[i := (q, snd (tops_2Ds h ! i) + 1)]"
    using i le by (simp add: u tops_2Ds_def map_update)
qed

lemma unlink_2Ds:
  assumes k: "dsc.known cfg t po fo xs ys h" and at: "at (array_2Ds h) i = Some d" and d: "s_node d \<noteq> NULL"
    and u: "u = h\<lparr>array_2Ds := (array_2Ds h)[i := \<lparr>s_node = q, s_put = s_put d, s_get = s_get d + 1\<rparr>], smem := m\<rparr>"
  shows "counts_grow h u" "i < length (tops_2Ds h)" "fst (tops_2Ds h ! i) = s_node d"
    "tops_2Ds u = (tops_2Ds h)[i := (q, snd (tops_2Ds h ! i) - 1)]" "s_get d + 1 < 4294967296"
proof -
  have i: "i < length (array_2Ds h)" "array_2Ds h ! i = d" using at by (auto simp: at_eq_Some)
  have inv: "stack_inv_2Dd cfg h" and w: "\<forall>i < width cfg. puts_2Ds h i \<le> global_PWindow h" "ds2Dd_ok cfg"
    using dsc.knownD(1) [OF k] by (auto simp: dstack_conc_inv_def)
  have "i < width cfg" using i(1) stack_inv_2DdD(1) [OF inv] by simp
  from stack_inv_2DdD(3,5) [OF inv this] this have less: "s_get d < s_put d" "s_put d \<le> global_PWindow h" using i(2) d w(1) by auto
  show "i < length (tops_2Ds h)" "fst (tops_2Ds h ! i) = s_node d" using i by simp_all
  show "counts_grow h u" using i less by (auto simp: counts_grow_def u nth_list_update)
  show "tops_2Ds u = (tops_2Ds h)[i := (q, snd (tops_2Ds h ! i) - 1)]" using i by (simp add: u tops_2Ds_def map_update)
  show "s_get d + 1 < 4294967296" using less dsc.knownD(2) [OF k] by (simp add: room_2Ds_def)
qed

lemma push_ok_2Dd:
  assumes al: "alloc_fresh al" and k: "dsc.known cfg t (Some (q, nd)) None xs ys g" and v: "n_val nd = val" and l: "thread_index l < width cfg"
  shows "ok (dstack_step cfg) (room_2Ds cfg) t (push_loop_2Dd n fuel cfg t q l c)
    (dsc.post cfg al t (Push key val) (xs, ys) (\<lambda>l. thread_index l < width cfg)) g"
  using k v l
proof (induction n arbitrary: l nd c g)
  case (Suc n)
  show ?case
    unfolding push_loop_2Dd.simps
  proof (rule ok_bind_mono [OF dsc_win.put_window_ok [OF Suc.prems(1,3)]], clarify, goal_cases)
    case (1 d l' h)
    have k1: "dsc.known cfg t (Some (q, nd)) None xs ys h" and i: "thread_index l' < width cfg" and P: "s_put d + 1 \<le> global_PWindow h"
      using 1 by (auto simp: dsc_win.handed_put_def)
    show ?case
    proof (rule dsc.ok_set_next_env [OF k1], unfold Let_def do_cae_def, goal_cases)
      case (1 h1 h2)
      have P2: "s_put d + 1 \<le> global_PWindow h2" using dsc_later [OF 1(1)] P by (simp add: 1(2) later_2Ds_def)
      show ?case
      proof (rule dsc.ok_publish_env [OF 1(3)], goal_cases)
        case (1 h3)
        have P3: "s_put d + 1 \<le> global_PWindow h3" using dsc_later [OF 1(1)] P2 by (simp add: later_2Ds_def)
        have "add32 (s_put d) 1 = s_put d + 1" using P3 dsc.knownD(2) [OF 1(2)] by (intro add32_eq) (simp add: room_2Ds_def)
        then show ?case using publish_2Ds [where q = q and m = "mem_publish q (smem h3)", OF 1(2,3) P3 refl]
          by (auto intro!: exI [of _ "thread_index l'"])
      next
        case (2 h3)
        then show ?case using Suc.prems i al by (simp del: ok.simps) (rule dsc.post_Ret, auto)
      next
        case (3 h3)
        then show ?case using Suc.IH Suc.prems(2) i by (simp del: ok.simps)
      qed
    qed
  qed
qed simp

lemma pop_ok_2Dd:
  assumes al: "alloc_fresh al" and k: "dsc.known cfg t None None xs ys g" and l: "thread_index l < width cfg"
  shows "ok (dstack_step cfg) (room_2Ds cfg) t (pop_loop_2Dd n fuel cfg t l c)
    (dsc.post cfg al t Pop (xs, ys) (\<lambda>l. thread_index l < width cfg)) g"
  using k l
proof (induction n arbitrary: l c g)
  case (Suc n)
  show ?case
    unfolding pop_loop_2Dd.simps
  proof (rule ok_bind_mono [OF dsc_win.get_window_ok [OF Suc.prems]], clarify, goal_cases)
    case (1 d l' h)
    have k1: "dsc.known cfg t None None xs ys h" and i: "thread_index l' < width cfg" and pub: "dsc.published (s_node d) h"
      using 1 by (auto simp: dsc_win.handed_get_def loaded_2Ds_def)
    show ?case
    proof (cases "s_node d = NULL")
      case True
      have "ok (dstack_step cfg) (room_2Ds cfg) t (Ret (0, l'\<lparr>my_null_count := m\<rparr>))
          (dsc.post cfg al t Pop (xs, ys) (\<lambda>l. thread_index l < width cfg)) h" for m
        using k1 al i by (intro dsc.post_Ret) (auto simp: took_def)
      then show ?thesis using True by (simp del: ok.simps)
    next
      case False
      then have p: "s_node d \<in> set (hist (smem h))" using pub by (simp add: dsc.published_def)
      show ?thesis unfolding if_P [OF False]
      proof (rule dsc.ok_node_field [OF k1 p], unfold Let_def do_cae_def, goal_cases)
        case (1 h1 nd)
        have p1: "s_node d \<in> set (hist (smem h1))" by (rule dsc.afterD(4) [OF 1(2) p])
        show ?case
        proof (rule dsc.ok_unlink [OF 1(1) False p1 1(4)], goal_cases)
          case (1 h2)
          note U = unlink_2Ds [where q = "n_next nd" and m = "mem_remove t (s_node d) (smem h2)", OF 1(1,3) False refl]
          then show ?case by (auto simp: add32_eq intro!: exI [of _ "thread_index l'"])
        next
          case (2 h2)
          show ?case unfolding if_P [OF TrueI]
          proof (rule dsc.ok_node_field [OF 2(1,2)], goal_cases)
            case (1 h3 nd')
            then have "nd' = nd" using 2(3) by simp
            then show ?case using 1(1) al i by (intro dsc.ok_free) (auto simp: took_def simp del: ok.simps intro!: dsc.post_Ret)
          qed
        next
          case (3 h2)
          then show ?case using Suc.IH i by (simp del: ok.simps)
        qed
      qed
    qed
  qed
qed simp

interpretation dst_threads: threads "dstack_step cfg" "room_2Ds cfg" "dstack_conc_inv cfg" "stack_call_2Dd al fuel cfg" "dsc.rest cfg al"
  "\<lambda>l. thread_index l < width cfg" stack_hist for al fuel cfg
proof (unfold_locales, goal_cases)
  case (1 t s g g')
  then show ?case by (rule dsc.rest_env)
next
  case (2 t s g l c)
  obtain xs ys where s: "s = (xs, ys)" by (cases s)
  have al: "alloc_fresh al" and k: "dsc.known cfg t None None xs ys g" using 2(1) by (simp_all add: dsc.rest_def s)
  have "ok (dstack_step cfg) (room_2Ds cfg) t (stack_call_2Dd al fuel cfg t c l) (dsc.post cfg al t c (xs, ys) (\<lambda>l. thread_index l < width cfg)) g"
  proof (cases c)
    case (Push key val)
    show ?thesis unfolding Push stack_call_2Dd_def stack_call.case push_2Dd_def create_node_2Ds_def
      by (rule dsc.ok_new_node [OF k al], rule push_ok_2Dd [OF al _ _ 2(2)], assumption) simp
  next
    case Pop
    show ?thesis unfolding Pop stack_call_2Dd_def stack_call.case pop_2Dd_def by (rule pop_ok_2Dd [OF al k 2(2)])
  qed
  then show ?case unfolding dsc.post_def s .
qed

section \<open>Properties\<close>

lemma create_stack_2Dd_rest:
  assumes c: "create_stack_2Dd nt w d mode bound = Some (cfg, g)"
    and u: "1 \<le> width cfg" "width cfg < 4294967296" "1 \<le> depth cfg" "depth cfg < 4294967296" and al: "alloc_fresh al"
  shows "dstack_conc_inv cfg g" "dsc.rest cfg al t ([], {#}) g"
proof -
  note C = create_stack_2Dd_ok [OF c u(1-3)]
  show i: "dstack_conc_inv cfg g" using C(1,2,4,8) by (simp add: dstack_conc_inv_def)
  then show "dsc.rest cfg al t ([], {#}) g"
    using al u C by (simp add: dsc.rest_def dsc.known_def room_2Ds_def W64_def empty_mem_def pushed_by_def popped_by_def)
qed

text \<open>
  C23. The 2Dd stack under concurrency. Any number of threads run any lists of pushes and pops, interleaved at every access to
  shared memory, from a new stack and as long as the windows have room: the put window below \<open>2 ^ 32\<close>, the width of the
  counts. At every moment no thread has followed a null or dangling pointer or left the array, every sub-stack is a linear list
  as long as its counts say, its number of pushes lies in the put window (no push above it, and the window not more than one
  depth ahead), and no node is freed twice or while it is in the stack. When all have finished, the values pushed are
  those popped and those still in the stack (0 left out, the answer for an empty stack).
\<close>

theorem stack_2Dd_threads_safe:
  assumes c: "create_stack_2Dd nt w d mode bound = Some (cfg, g0)"
    and u: "1 \<le> width cfg" "width cfg < 4294967296" "1 \<le> depth cfg" "depth cfg < 4294967296"
    and al: "alloc_fresh al" and ls: "length ls = length css" "\<forall>l \<in> set ls. thread_index l < width cfg"
    and run: "pool_reaches (room_2Ds cfg) (client_pool (stack_call_2Dd al fuel cfg) css ls, g0) (ps, g)"
  shows "Fault \<notin> set ps \<and> dstack_conc_inv cfg g \<and> distinct (map fst (freed (smem g))) \<and>
    fst ` set (freed (smem g)) \<inter> set (concat (sub_stacks_2Dd g)) = {} \<and>
    (map prog_result ps \<noteq> map Some rss \<or>
     nonnull (mset (concat (map push_values css))) =
       mset (concat (map (\<lambda>t. pop_values (css ! t) (rss ! t)) [0 ..< length css])) +
       nonnull (image_mset (node_val (smem g)) (mset (concat (sub_stacks_2Dd g)))))"
proof -
  note C = create_stack_2Dd_rest [OF c u al]
  note p = dst_threads.pool_clients [OF run C(2) ls C(1)]
  have inv: "dstack_conc_inv cfg g" "Fault \<notin> set ps" using p(1) by auto
  have "stacks_ok (smem g) (tops_2Ds g)" using inv(1) by (simp add: dstack_conc_inv_def stack_inv_2Dd_def)
  note fr = stacks_ok_freed [OF this]
  have "nonnull (mset (concat (map push_values css))) =
       mset (concat (map (\<lambda>t. pop_values (css ! t) (rss ! t)) [0 ..< length css])) +
       nonnull (image_mset (node_val (smem g)) (mset (concat (sub_stacks_2Dd g))))"
    if "map prog_result ps = map Some rss"
    using dsc.histories [OF inv(1) p(2) [OF that] p(3)] by (simp add: sub_stacks_2Dd_def)
  then show ?thesis using inv fr by (auto simp: sub_stacks_2Dd_def)
qed

definition demo_run_2Dd :: "(stack2Dd, int list) prog list \<times> stack2Dd" where
  "demo_run_2Dd = sched (room_2Ds (fst demo_2Dd)) (concat (replicate 40 [0, 1]) @ replicate 60 0)
     (client_pool (stack_call_2Dd bump_alloc 9 (fst demo_2Dd)) [[Push 1 10, Pop], [Push 2 20]]
        [fresh_tl2Dd (1, 2, 3) 0, fresh_tl2Dd (4, 5, 6) 1], snd demo_2Dd)"

theorem stack_2Dd_threads_safe_witness:
  "Fault \<notin> set (fst demo_run_2Dd) \<and> map prog_result (fst demo_run_2Dd) = map Some [[1, 10], [1]] \<and>
   nonnull (mset (concat (map push_values [[Push 1 10, Pop], [Push 2 20]]))) =
     mset (concat (map (\<lambda>t. pop_values ([[Push 1 10, Pop], [Push 2 20]] ! t) ([[1, 10], [1]] ! t)) [0 ..< length [[Push 1 10, Pop], [Push 2 20]]])) +
     nonnull (image_mset (node_val (smem (snd demo_run_2Dd))) (mset (concat (sub_stacks_2Dd (snd demo_run_2Dd)))))"
proof -
  have r: "map prog_result (fst demo_run_2Dd) = map Some [[1, 10], [1]]"
    by (simp add: demo_run_2Dd_def client_pool_def room_2Ds_def prog_unfold upt_rec cong: eval_cong)
  have "pool_reaches (room_2Ds (fst demo_2Dd)) (client_pool (stack_call_2Dd bump_alloc 9 (fst demo_2Dd)) [[Push 1 10, Pop], [Push 2 20]]
        [fresh_tl2Dd (1, 2, 3) 0, fresh_tl2Dd (4, 5, 6) 1], snd demo_2Dd) (fst demo_run_2Dd, snd demo_run_2Dd)"
    unfolding demo_run_2Dd_def prod.collapse by (rule sched_reaches)
  from stack_2Dd_threads_safe [OF demo_2Dd_eq(2) _ _ _ _ bump_alloc_fresh _ _ this, of "[[1, 10], [1]]"] r show ?thesis
    by (simp add: demo_2Dd_eq(1) fresh_tl2Dd_def filter_filter_mset)
qed

end
