(* ===== verification/Relaxation_Analysis.thy ===== *)
theory Relaxation_Analysis
  imports Relaxed_Queue
begin

text \<open>
  The measurement of the relaxation, \<^verbatim>\<open>include/relaxation_analysis_queue.c\<close>. Compiled with
  \<^verbatim>\<open>RELAXATION_ANALYSIS\<close>, every structure performs its compare-and-exchange under one lock and repeats the
  operation on a strict linked list, \<^verbatim>\<open>linear_clone\<close>: an item is added at one end, and when it is removed the nodes that
  are in front of it are counted and the count is kept in a second list, \<^verbatim>\<open>error_dists\<close>. The
  functions run under the lock, so they are functions on an explicit heap of nodes; a failed \<^verbatim>\<open>assert\<close>, a null
  dereference, the exit of \<^verbatim>\<open>error\<close> and a loop that runs out of fuel are the errors of their result.

  The nodes are never freed: the node of a removed item moves to the second list and carries the
  distance there. The lemmas relate the heap to two lists of values (\<open>analysis_rel\<close>); the properties are that the
  functions compute the reference \<open>analysis_spec\<close> on these lists, without any failed assertion, and that
  what they measure of a queue with decoupled windows is within the bound proved for it.
\<close>

section \<open>State\<close>

record linear_node =
  l_val :: int
  l_next :: nat

record linear_list =
  l_size :: u64
  l_head :: nat
  l_tail :: nat

type_synonym linear_heap = "nat \<Rightarrow> linear_node option"

text \<open>\<open>unused\<close> is the next address \<^verbatim>\<open>calloc\<close> returns, and \<open>relax_count\<close> the static variable of \<^verbatim>\<open>gen_relaxation_count\<close>.\<close>

record analysis =
  lheap :: linear_heap
  unused :: nat
  linear_clone :: linear_list
  error_dists :: linear_list
  relax_count :: u64

datatype analysis_error = AssertFailed | NullDeref | ErrorExit | LoopFuel

primrec ebind :: "'e + 'a \<Rightarrow> ('a \<Rightarrow> 'e + 'b) \<Rightarrow> 'e + 'b" where
  "ebind (Inl e) f = Inl e"
| "ebind (Inr a) f = f a"

definition check :: "bool \<Rightarrow> analysis_error + unit" where
  "check b = (if b then Inr () else Inl AssertFailed)"

lemma check_True [simp]: "b \<Longrightarrow> check b = Inr ()"
  by (simp add: check_def)

definition deref :: "linear_heap \<Rightarrow> nat \<Rightarrow> analysis_error + linear_node" where
  "deref h a = (case h a of None \<Rightarrow> Inl NullDeref | Some n \<Rightarrow> if a = 0 then Inl NullDeref else Inr n)"

text \<open>The conversion of \<^verbatim>\<open>uint64_t\<close> to the signed \<^verbatim>\<open>sval_t\<close>.\<close>

definition s64 :: "u64 \<Rightarrow> int" where
  "s64 n = (if n < 9223372036854775808 then int n else int n - 18446744073709551616)"

definition init_analysis :: analysis where
  "init_analysis = \<lparr>lheap = (\<lambda>a. None), unused = 1, linear_clone = \<lparr>l_size = 0, l_head = 0, l_tail = 0\<rparr>,
     error_dists = \<lparr>l_size = 0, l_head = 0, l_tail = 0\<rparr>, relax_count = 0\<rparr>"

section \<open>Operations\<close>

definition gen_relaxation_count :: "analysis \<Rightarrow> u64 \<times> analysis" where
  "gen_relaxation_count s = (let s' = s\<lparr>relax_count := add64 (relax_count s) 1\<rparr> in (relax_count s', s'))"

definition add_linear :: "int \<Rightarrow> int \<Rightarrow> analysis \<Rightarrow> analysis_error + analysis" where
  "add_linear v side s =
    (let a = unused s;
         c = (linear_clone s)\<lparr>l_size := add64 (l_size (linear_clone s)) 1\<rparr>;
         h = (lheap s)(a \<mapsto> \<lparr>l_val = v, l_next = 0\<rparr>);
         s = s\<lparr>unused := a + 1\<rparr>
     in if l_head c = 0 then Inr (s\<lparr>lheap := h, linear_clone := c\<lparr>l_head := a, l_tail := a\<rparr>\<rparr>)
        else if side = 1 then
          Inr (s\<lparr>lheap := h(a \<mapsto> \<lparr>l_val = v, l_next = l_head c\<rparr>), linear_clone := c\<lparr>l_head := a\<rparr>\<rparr>)
        else if side = 0 then
          ebind (deref h (l_tail c)) (\<lambda>t.
          Inr (s\<lparr>lheap := h(l_tail c \<mapsto> t\<lparr>l_next := a\<rparr>), linear_clone := c\<lparr>l_tail := a\<rparr>\<rparr>))
        else Inl ErrorExit)"

definition add_relaxed_dist :: "nat \<Rightarrow> analysis \<Rightarrow> analysis_error + analysis" where
  "add_relaxed_dist a s =
    (let c = (error_dists s)\<lparr>l_size := add64 (l_size (error_dists s)) 1\<rparr>
     in ebind (deref (lheap s) a) (\<lambda>n.
        let h = (lheap s)(a \<mapsto> n\<lparr>l_next := 0\<rparr>)
        in if l_head c = 0 then Inr (s\<lparr>lheap := h, error_dists := c\<lparr>l_head := a, l_tail := a\<rparr>\<rparr>)
           else ebind (deref h (l_tail c)) (\<lambda>t.
             Inr (s\<lparr>lheap := h(l_tail c \<mapsto> t\<lparr>l_next := a\<rparr>), error_dists := c\<lparr>l_tail := a\<rparr>\<rparr>))))"

text \<open>The search loop of \<^verbatim>\<open>remove_linear\<close>: the node in front of the one that is looked for, and how many were skipped.\<close>

fun find_linear :: "nat \<Rightarrow> linear_heap \<Rightarrow> int \<Rightarrow> nat \<Rightarrow> u64 \<Rightarrow> analysis_error + nat \<times> u64" where
  "find_linear 0 h v last_node skipped = Inl LoopFuel"
| "find_linear (Suc fuel) h v last_node skipped =
    ebind (deref h last_node) (\<lambda>l.
    ebind (deref h (l_next l)) (\<lambda>n.
    if l_val n = v then Inr (last_node, skipped)
    else ebind (check (l_next n \<noteq> 0)) (\<lambda>_.
      find_linear fuel h v (l_next l) (add64 skipped 1))))"

definition remove_linear :: "nat \<Rightarrow> int \<Rightarrow> analysis \<Rightarrow> analysis_error + analysis" where
  "remove_linear fuel v s =
    (let c = (linear_clone s)\<lparr>l_size := sub64 (l_size (linear_clone s)) 1\<rparr>
     in ebind (check (l_head c \<noteq> 0)) (\<lambda>_.
        ebind (deref (lheap s) (l_head c)) (\<lambda>n.
        if l_val n = v then
          ebind (if l_head c = l_tail c then
                   ebind (check (l_next n = 0)) (\<lambda>_. ebind (check (l_size c = 0)) (\<lambda>_. Inr (c\<lparr>l_tail := 0\<rparr>)))
                 else Inr c) (\<lambda>c'.
          add_relaxed_dist (l_head c)
            (s\<lparr>linear_clone := c'\<lparr>l_head := l_next n\<rparr>, lheap := (lheap s)(l_head c \<mapsto> n\<lparr>l_val := 0\<rparr>)\<rparr>))
        else
          ebind (find_linear fuel (lheap s) v (l_head c) 1) (\<lambda>(last_node, skipped).
          ebind (deref (lheap s) last_node) (\<lambda>l.
          let found = l_next l in
          ebind (deref (lheap s) found) (\<lambda>f.
          add_relaxed_dist found
            (s\<lparr>linear_clone := (if found = l_tail c then c\<lparr>l_tail := last_node\<rparr> else c),
               lheap := (lheap s)(last_node \<mapsto> l\<lparr>l_next := l_next f\<rparr>, found \<mapsto> f\<lparr>l_val := s64 skipped\<rparr>)\<rparr>)))))))"

text \<open>The first loop of \<^verbatim>\<open>print_relaxation_measurements\<close>, which finds the maximum it prints.\<close>

fun max_loop :: "nat \<Rightarrow> linear_heap \<Rightarrow> nat \<Rightarrow> int \<Rightarrow> analysis_error + int" where
  "max_loop 0 h node mx = Inl LoopFuel"
| "max_loop (Suc fuel) h node mx =
    (if node = 0 then Inr mx
     else ebind (deref h node) (\<lambda>n. max_loop fuel h (l_next n) (if mx < l_val n then l_val n else mx)))"

definition max_relaxation :: "nat \<Rightarrow> analysis \<Rightarrow> analysis_error + int" where
  "max_relaxation fuel s =
    ebind (check (l_head (error_dists s) \<noteq> 0)) (\<lambda>_. max_loop fuel (lheap s) (l_head (error_dists s)) 0)"

text \<open>A run of the analysis: the calls the structures make, in the order of the lock.\<close>

datatype analysis_call = AddLinear int int | RemoveLinear int

fun analysis_step :: "nat \<Rightarrow> analysis_call \<Rightarrow> analysis \<Rightarrow> analysis_error + analysis" where
  "analysis_step fuel (AddLinear v e) s = add_linear v e s"
| "analysis_step fuel (RemoveLinear v) s = remove_linear fuel v s"

fun analysis_run :: "nat \<Rightarrow> analysis_call list \<Rightarrow> analysis \<Rightarrow> analysis_error + analysis" where
  "analysis_run fuel [] s = Inr s"
| "analysis_run fuel (c # cs) s = ebind (analysis_step fuel c s) (analysis_run fuel cs)"

section \<open>Reference\<close>

text \<open>
  What is measured, on lists: the clone is a list with its head first, a removal takes the first
  occurrence of the value, and the distance is the number of items before it.
\<close>

definition distance :: "int list \<Rightarrow> int \<Rightarrow> nat" where
  "distance vs v = length (takeWhile (\<lambda>x. x \<noteq> v) vs)"

fun analysis_spec :: "analysis_call \<Rightarrow> int list \<times> nat list \<Rightarrow> int list \<times> nat list" where
  "analysis_spec (AddLinear v e) (vs, ds) = (if e = 1 then v # vs else vs @ [v], ds)"
| "analysis_spec (RemoveLinear v) (vs, ds) = (remove1 v vs, ds @ [distance vs v])"

fun analysis_legal :: "analysis_call list \<Rightarrow> int list \<Rightarrow> bool" where
  "analysis_legal [] vs \<longleftrightarrow> True"
| "analysis_legal (AddLinear v e # cs) vs \<longleftrightarrow>
     (e = 0 \<or> e = 1) \<and> analysis_legal cs (fst (analysis_spec (AddLinear v e) (vs, [])))"
| "analysis_legal (RemoveLinear v # cs) vs \<longleftrightarrow> v \<in> set vs \<and> analysis_legal cs (remove1 v vs)"

text \<open>The values of a linked list of the heap.\<close>

fun list_values :: "nat \<Rightarrow> linear_heap \<Rightarrow> nat \<Rightarrow> int list" where
  "list_values 0 h a = []"
| "list_values (Suc k) h a = (case h a of None \<Rightarrow> [] | Some n \<Rightarrow> l_val n # list_values k h (l_next n))"

section \<open>Lists in the heap\<close>

fun lchain :: "linear_heap \<Rightarrow> nat \<Rightarrow> nat list \<Rightarrow> nat \<Rightarrow> bool" where
  "lchain h a [] b \<longleftrightarrow> a = b"
| "lchain h a (x # xs) b \<longleftrightarrow> a = x \<and> x \<noteq> 0 \<and> (\<exists>n. h x = Some n \<and> lchain h (l_next n) xs b)"

definition vals :: "linear_heap \<Rightarrow> nat list \<Rightarrow> int list" where
  "vals h xs = map (\<lambda>a. l_val (the (h a))) xs"

lemma vals_simps [simp]: "vals h [] = []" "vals h (x # xs) = l_val (the (h x)) # vals h xs" "vals h (xs @ ys) = vals h xs @ vals h ys"
  by (simp_all add: vals_def)

lemma length_vals [simp]: "length (vals h xs) = length xs"
  by (simp add: vals_def)

lemma lchain_append: "lchain h a (xs @ ys) b \<longleftrightarrow> (\<exists>c. lchain h a xs c \<and> lchain h c ys b)"
  by (induction xs arbitrary: a) auto

lemma lchain_frame [simp]: "p \<notin> set xs \<Longrightarrow> lchain (h(p := n)) a xs b \<longleftrightarrow> lchain h a xs b"
  by (induction xs arbitrary: a) auto

lemma vals_frame [simp]: "p \<notin> set xs \<Longrightarrow> vals (h(p := n)) xs = vals h xs"
  by (auto simp: vals_def)

lemma lchain_mem: "lchain h a xs b \<Longrightarrow> x \<in> set xs \<Longrightarrow> x \<noteq> 0 \<and> h x \<noteq> None"
  by (induction xs arbitrary: a) auto

lemma lchain_null: "lchain h a xs 0 \<Longrightarrow> (a = 0) = (xs = [])"
  by (cases xs) auto

lemma lchain_hd: "lchain h a xs b \<Longrightarrow> xs \<noteq> [] \<Longrightarrow> a = hd xs"
  by (cases xs) auto

lemma list_values_lchain: "lchain h a xs 0 \<Longrightarrow> list_values (length xs) h a = vals h xs"
  by (induction xs arbitrary: a) auto

lemma lchain_snoc:
  assumes "lchain h a xs 0" "xs \<noteq> []" "distinct xs" "p \<notin> set xs" "p \<noteq> 0" "h p = Some n" "l_next n = 0" "h (last xs) = Some t"
  shows "lchain (h(last xs \<mapsto> t\<lparr>l_next := p\<rparr>)) a (xs @ [p]) 0 \<and>
    vals (h(last xs \<mapsto> t\<lparr>l_next := p\<rparr>)) (xs @ [p]) = vals h xs @ [l_val n]"
proof -
  obtain ys y where xs: "xs = ys @ [y]" using assms(2) by (cases xs rule: rev_cases) auto
  then show ?thesis using assms by (auto simp: lchain_append)
qed

definition holds :: "linear_heap \<Rightarrow> linear_list \<Rightarrow> nat list \<Rightarrow> bool" where
  "holds h L xs \<longleftrightarrow> lchain h (l_head L) xs 0 \<and> distinct xs \<and> l_size L = length xs \<and> (xs \<noteq> [] \<longrightarrow> l_tail L = last xs)"

lemma holds_frame [simp]: "p \<notin> set xs \<Longrightarrow> holds (h(p := n)) L xs \<longleftrightarrow> holds h L xs"
  by (simp add: holds_def)

lemma holds_values: "holds h L xs \<Longrightarrow> list_values (l_size L) h (l_head L) = vals h xs"
  by (simp add: holds_def list_values_lchain)

text \<open>The two lists are disjoint, in allocated memory, and have the values \<open>vs\<close> and the distances \<open>ds\<close>.\<close>

definition lists_at :: "analysis \<Rightarrow> nat list \<Rightarrow> nat list \<Rightarrow> bool" where
  "lists_at s xs es \<longleftrightarrow> holds (lheap s) (linear_clone s) xs \<and> holds (lheap s) (error_dists s) es \<and>
     set xs \<inter> set es = {} \<and> (\<forall>a \<in> set xs \<union> set es. a < unused s) \<and> 0 < unused s"

definition analysis_rel :: "analysis \<Rightarrow> int list \<Rightarrow> nat list \<Rightarrow> bool" where
  "analysis_rel s vs ds \<longleftrightarrow> (\<exists>xs es. lists_at s xs es \<and> vals (lheap s) xs = vs \<and> vals (lheap s) es = map int ds)"

lemma analysis_relI: "lists_at s xs es \<Longrightarrow> vals (lheap s) xs = vs \<Longrightarrow> vals (lheap s) es = map int ds \<Longrightarrow> analysis_rel s vs ds"
  by (auto simp: analysis_rel_def)

lemma deref_Some [simp]: "h a = Some n \<Longrightarrow> a \<noteq> 0 \<Longrightarrow> deref h a = Inr n"
  by (simp add: deref_def)

lemma analysis_rel_values:
  "analysis_rel s vs ds \<Longrightarrow>
     list_values (l_size (linear_clone s)) (lheap s) (l_head (linear_clone s)) = vs \<and>
     list_values (l_size (error_dists s)) (lheap s) (l_head (error_dists s)) = map int ds"
  by (auto simp: analysis_rel_def lists_at_def holds_values)

section \<open>Every operation keeps the lists\<close>

lemma add_linear_lists:
  assumes at: "lists_at s xs es" and e: "e = 0 \<or> e = 1" and room: "length xs + 1 < W64"
  shows "\<exists>s'. add_linear v e s = Inr s' \<and> unused s' = unused s + 1 \<and>
    lists_at s' (if e = 1 then unused s # xs else xs @ [unused s]) es \<and>
    vals (lheap s') (if e = 1 then unused s # xs else xs @ [unused s]) =
      (if e = 1 then v # vals (lheap s) xs else vals (lheap s) xs @ [v]) \<and>
    vals (lheap s') es = vals (lheap s) es"
proof -
  let ?a = "unused s" and ?c = "linear_clone s"
  let ?h = "(lheap s)(?a \<mapsto> \<lparr>l_val = v, l_next = 0\<rparr>)"
  have fresh: "?a \<notin> set xs" "?a \<notin> set es" "?a \<noteq> 0" using at by (auto simp: lists_at_def)
  have hx: "holds (lheap s) ?c xs" "holds (lheap s) (error_dists s) es" using at by (simp_all add: lists_at_def)
  then have sz: "add64 (l_size ?c) 1 = length xs + 1" using room by (simp add: holds_def add64_eq)
  have ch: "lchain (lheap s) (l_head ?c) xs 0" "distinct xs" using hx by (simp_all add: holds_def)
  consider "xs = []" | "xs \<noteq> []" "e = 1" | "xs \<noteq> []" "e = 0" using e by auto
  then show ?thesis
  proof cases
    case 1
    then have "add_linear v e s = Inr (s\<lparr>unused := ?a + 1, lheap := ?h,
        linear_clone := ?c\<lparr>l_size := 1, l_head := ?a, l_tail := ?a\<rparr>\<rparr>)" (is "_ = Inr ?s")
      using ch sz by (simp add: add_linear_def Let_def)
    moreover have "lists_at ?s [?a] es" using at fresh hx(2) 1 by (auto simp: lists_at_def holds_def intro: trans_less_add1)
    ultimately show ?thesis using 1 fresh by simp
  next
    case 2
    then have "add_linear v e s = Inr (s\<lparr>unused := ?a + 1, lheap := ?h(?a \<mapsto> \<lparr>l_val = v, l_next = l_head ?c\<rparr>),
        linear_clone := ?c\<lparr>l_size := length xs + 1, l_head := ?a\<rparr>\<rparr>)" (is "_ = Inr ?s")
      using lchain_null [OF ch(1)] sz by (simp add: add_linear_def Let_def)
    moreover have "lists_at ?s (?a # xs) es" using at fresh hx 2 by (auto simp: lists_at_def holds_def intro: trans_less_add1)
    ultimately show ?thesis using 2 fresh by simp
  next
    case 3
    have l: "last xs \<in> set xs" "l_tail ?c = last xs" using 3 hx(1) by (auto simp: holds_def)
    obtain t where t: "lheap s (last xs) = Some t" "last xs \<noteq> 0" using lchain_mem [OF ch(1) l(1)] by auto
    have ne: "last xs \<noteq> ?a" "last xs \<notin> set es" using l(1) fresh at by (auto simp: lists_at_def)
    let ?h' = "?h(last xs \<mapsto> t\<lparr>l_next := ?a\<rparr>)"
    have sn: "lchain ?h' (l_head ?c) (xs @ [?a]) 0 \<and> vals ?h' (xs @ [?a]) = vals ?h xs @ [l_val \<lparr>l_val = v, l_next = 0\<rparr>]"
      using ch fresh t ne 3 by (intro lchain_snoc) auto
    have "add_linear v e s = Inr (s\<lparr>unused := ?a + 1, lheap := ?h',
        linear_clone := ?c\<lparr>l_size := length xs + 1, l_tail := ?a\<rparr>\<rparr>)" (is "_ = Inr ?s")
      using lchain_null [OF ch(1)] sz 3 t ne l(2) by (simp add: add_linear_def Let_def)
    moreover have "lists_at ?s (xs @ [?a]) es"
      using at fresh hx 3 sn ne by (auto simp: lists_at_def holds_def intro: trans_less_add1)
    ultimately show ?thesis using 3 fresh sn ne by simp
  qed
qed

text \<open>The node \<open>p\<close> is in neither list when it is appended to the distances.\<close>

lemma add_relaxed_dist_lists:
  assumes at: "lists_at s xs es" and p: "p \<notin> set xs" "p \<notin> set es" "p \<noteq> 0" "p < unused s" "lheap s p = Some n"
    and room: "length es + 1 < W64"
  shows "\<exists>s'. add_relaxed_dist p s = Inr s' \<and> lists_at s' xs (es @ [p]) \<and> vals (lheap s') xs = vals (lheap s) xs \<and>
    vals (lheap s') (es @ [p]) = vals (lheap s) es @ [l_val n]"
proof -
  let ?c = "error_dists s" and ?h = "(lheap s)(p \<mapsto> n\<lparr>l_next := 0\<rparr>)"
  have hx: "holds (lheap s) (linear_clone s) xs" "holds (lheap s) ?c es" using at by (simp_all add: lists_at_def)
  then have sz: "add64 (l_size ?c) 1 = length es + 1" using room by (simp add: holds_def add64_eq)
  have ch: "lchain (lheap s) (l_head ?c) es 0" "distinct es" using hx by (simp_all add: holds_def)
  show ?thesis
  proof (cases "es = []")
    case True
    then have "add_relaxed_dist p s = Inr (s\<lparr>lheap := ?h, error_dists := ?c\<lparr>l_size := 1, l_head := p, l_tail := p\<rparr>\<rparr>)"
      (is "_ = Inr ?s") using ch sz p by (simp add: add_relaxed_dist_def Let_def)
    moreover have "lists_at ?s xs [p]" using at p True by (auto simp: lists_at_def holds_def)
    ultimately show ?thesis using True p by simp
  next
    case False
    have l: "last es \<in> set es" "l_tail ?c = last es" using False hx(2) by (auto simp: holds_def)
    obtain t where t: "lheap s (last es) = Some t" "last es \<noteq> 0" using lchain_mem [OF ch(1) l(1)] by auto
    have ne: "last es \<noteq> p" "last es \<notin> set xs" using l(1) p at by (auto simp: lists_at_def)
    let ?h' = "?h(last es \<mapsto> t\<lparr>l_next := p\<rparr>)"
    have sn: "lchain ?h' (l_head ?c) (es @ [p]) 0 \<and> vals ?h' (es @ [p]) = vals ?h es @ [l_val (n\<lparr>l_next := 0\<rparr>)]"
      using ch p t ne False by (intro lchain_snoc) auto
    have "add_relaxed_dist p s = Inr (s\<lparr>lheap := ?h', error_dists := ?c\<lparr>l_size := length es + 1, l_tail := p\<rparr>\<rparr>)"
      (is "_ = Inr ?s") using lchain_null [OF ch(1)] sz False t ne l(2) p by (simp add: add_relaxed_dist_def Let_def)
    moreover have "lists_at ?s xs (es @ [p])"
      using at p False sn ne by (auto simp: lists_at_def holds_def)
    ultimately show ?thesis using p sn ne by simp
  qed
qed

text \<open>The search stops in front of the first node with the value.\<close>

lemma find_linear_finds:
  assumes "lchain h a (ys @ [l, p] @ zs) 0" "v \<notin> set (vals h (tl (ys @ [l])))" "l_val (the (h p)) = v"
    "length ys < fuel" "k + length ys < W64"
  shows "find_linear fuel h v a k = Inr (l, k + length ys)"
  using assms
proof (induction ys arbitrary: a k fuel)
  case Nil
  then show ?case by (cases fuel) auto
next
  case (Cons y ys)
  obtain f where f: "fuel = Suc f" using Cons.prems(4) by (cases fuel) auto
  obtain n where n: "a = y" "y \<noteq> 0" "h y = Some n" "lchain h (l_next n) (ys @ [l, p] @ zs) 0" using Cons.prems(1) by auto
  let ?x = "hd (ys @ [l])"
  obtain m where m: "l_next n = ?x" "?x \<noteq> 0" "h ?x = Some m" "lchain h (l_next m) (tl (ys @ [l]) @ p # zs) 0"
    using n(4) by (cases ys) auto
  have v: "v \<noteq> l_val m" "v \<notin> set (vals h (tl (ys @ [l])))" using Cons.prems(2) m by (cases ys; simp)+
  have "l_next m \<noteq> 0" using lchain_null [OF m(4)] by simp
  moreover have "find_linear f h v (l_next n) (add64 k 1) = Inr (l, add64 k 1 + length ys)"
    using Cons.prems n v f by (intro Cons.IH) (auto simp: add64_eq)
  ultimately show ?case using n m v Cons.prems(5) by (simp add: f add64_eq)
qed

lemma vals_split:
  assumes "v \<in> set (vals h xs)"
  obtains ys p zs where "xs = ys @ p # zs" "v \<notin> set (vals h ys)" "l_val (the (h p)) = v"
    "remove1 v (vals h xs) = vals h (ys @ zs)" "distance (vals h xs) v = length ys"
proof -
  obtain us ws where "vals h xs = us @ v # ws" "v \<notin> set us" using split_list_first [OF assms] by blast
  then obtain ys p zs where xs: "xs = ys @ p # zs" "vals h ys = us" "l_val (the (h p)) = v"
    by (auto simp: vals_def map_eq_append_conv)
  have v: "v \<notin> set (vals h ys)" using xs(2) \<open>v \<notin> set us\<close> by simp
  have "takeWhile (\<lambda>x. x \<noteq> v) (vals h ys @ v # vals h zs) = vals h ys" using v by (subst takeWhile_append2) auto
  then show ?thesis using that [OF xs(1) v xs(3)] v xs(1,3) by (simp add: remove1_append distance_def)
qed

lemma remove_first_lists:
  assumes at: "lists_at s (p # zs) es" and v: "l_val (the (lheap s p)) = v"
    and room: "length zs + 1 < W64" "length es + 1 < W64"
  shows "\<exists>s'. remove_linear fuel v s = Inr s' \<and> lists_at s' zs (es @ [p]) \<and>
    vals (lheap s') zs = vals (lheap s) zs \<and> vals (lheap s') (es @ [p]) = vals (lheap s) es @ [0] \<and> unused s' = unused s"
proof -
  let ?c = "linear_clone s"
  have hx: "holds (lheap s) ?c (p # zs)" and pe: "p \<notin> set es" "p \<notin> set zs" "p < unused s"
    using at by (auto simp: lists_at_def holds_def)
  obtain n where n: "l_head ?c = p" "p \<noteq> 0" "lheap s p = Some n" "lchain (lheap s) (l_next n) zs 0"
    using hx by (auto simp: holds_def)
  have sz: "sub64 (l_size ?c) 1 = length zs" using hx room by (simp add: holds_def sub64_eq)
  have tl: "l_tail ?c = (if zs = [] then p else last zs)" using hx by (simp add: holds_def)
  have one: "p = l_tail ?c \<longleftrightarrow> zs = []" using tl pe(2) by (auto dest: last_in_set)
  let ?s = "s\<lparr>linear_clone := (if zs = [] then ?c\<lparr>l_size := 0, l_tail := 0, l_head := 0\<rparr> else ?c\<lparr>l_size := length zs, l_head := l_next n\<rparr>),
              lheap := (lheap s)(p \<mapsto> n\<lparr>l_val := 0\<rparr>)\<rparr>"
  have eq: "remove_linear fuel v s = add_relaxed_dist p ?s"
  proof (cases "zs = []")
    case True
    then have "l_next n = 0" using n(4) by simp
    then show ?thesis using True n sz v one by (simp add: remove_linear_def Let_def)
  next
    case False
    then show ?thesis using n sz v one by (simp add: remove_linear_def Let_def)
  qed
  have "lists_at ?s zs es" using at n pe tl by (auto simp: lists_at_def holds_def)
  then obtain s' where "add_relaxed_dist p ?s = Inr s'" "lists_at s' zs (es @ [p])" "vals (lheap s') zs = vals (lheap ?s) zs"
      "vals (lheap s') (es @ [p]) = vals (lheap ?s) es @ [l_val (n\<lparr>l_val := 0\<rparr>)]"
    using add_relaxed_dist_lists [of ?s zs es p "n\<lparr>l_val := 0\<rparr>"] pe n(2) room(2) by auto
  moreover have "unused s' = unused ?s" using calculation(1)
    by (auto simp: add_relaxed_dist_def Let_def deref_def split: option.splits if_splits)
  ultimately show ?thesis using eq pe by simp
qed

lemma remove_later_lists:
  assumes at: "lists_at s (ys @ [l, p] @ zs) es" and v: "v \<notin> set (vals (lheap s) (ys @ [l]))" "l_val (the (lheap s p)) = v"
    and room: "length ys + length zs + 2 < 9223372036854775808" "length es + 1 < W64" and fuel: "length ys < fuel"
  shows "\<exists>s'. remove_linear fuel v s = Inr s' \<and> lists_at s' (ys @ [l] @ zs) (es @ [p]) \<and>
    vals (lheap s') (ys @ [l] @ zs) = vals (lheap s) (ys @ [l] @ zs) \<and>
    vals (lheap s') (es @ [p]) = vals (lheap s) es @ [int (length ys + 1)] \<and> unused s' = unused s"
proof -
  let ?c = "linear_clone s" and ?h = "lheap s"
  have hx: "holds ?h ?c (ys @ [l, p] @ zs)" using at by (simp add: lists_at_def)
  then have ch: "lchain ?h (l_head ?c) (ys @ [l, p] @ zs) 0" and ds: "distinct (ys @ [l, p] @ zs)" by (simp_all add: holds_def)
  have pe: "p \<notin> set es" "p < unused s" using at by (auto simp: lists_at_def)
  obtain n f where n: "?h l = Some n" "l \<noteq> 0" "l_next n = p" "?h p = Some f" "p \<noteq> 0" "lchain ?h (l_head ?c) ys l" "lchain ?h (l_next f) zs 0"
    using ch by (auto simp: lchain_append)
  have sz: "sub64 (l_size ?c) 1 = length ys + length zs + 1" using hx room(1) by (simp add: holds_def sub64_eq W64_def)
  have head: "l_head ?c = hd (ys @ [l])" "hd (ys @ [l]) \<noteq> 0" "\<exists>m. ?h (hd (ys @ [l])) = Some m \<and> l_val m \<noteq> v"
    using ch v by (cases ys; force)+
  have rest: "v \<notin> set (vals ?h (tl (ys @ [l])))" using v(1) by (cases ys) auto
  have find: "find_linear fuel ?h v (l_head ?c) 1 = Inr (l, 1 + length ys)"
    using ch v rest fuel room(1) by (intro find_linear_finds [where p = p and zs = zs]) (auto simp: W64_def)
  have k: "s64 (1 + length ys) = int (length ys + 1)" using room(1) by (simp add: s64_def)
  have tl: "p = l_tail ?c \<longleftrightarrow> zs = []" using hx by (cases zs rule: rev_cases) (auto simp: holds_def)
  let ?c' = "if p = l_tail ?c then ?c\<lparr>l_size := length ys + length zs + 1, l_tail := l\<rparr> else ?c\<lparr>l_size := length ys + length zs + 1\<rparr>"
  let ?s = "s\<lparr>linear_clone := ?c', lheap := ?h(l \<mapsto> n\<lparr>l_next := l_next f\<rparr>, p \<mapsto> f\<lparr>l_val := int (length ys + 1)\<rparr>)\<rparr>"
  obtain m where m: "?h (l_head ?c) = Some m" "l_val m \<noteq> v" "l_head ?c \<noteq> 0" using head by auto
  have eq: "remove_linear fuel v s = add_relaxed_dist p ?s"
    using m find n sz k by (simp add: remove_linear_def Let_def)
  have "lchain (lheap ?s) (l_head ?c) (ys @ [l] @ zs) 0" using n ds by (auto simp: lchain_append)
  then have "lists_at ?s (ys @ [l] @ zs) es" using at ds tl hx by (auto simp: lists_at_def holds_def)
  then obtain s' where "add_relaxed_dist p ?s = Inr s'" "lists_at s' (ys @ [l] @ zs) (es @ [p])"
      "vals (lheap s') (ys @ [l] @ zs) = vals (lheap ?s) (ys @ [l] @ zs)"
      "vals (lheap s') (es @ [p]) = vals (lheap ?s) es @ [l_val (f\<lparr>l_val := int (length ys + 1)\<rparr>)]"
    using add_relaxed_dist_lists [of ?s "ys @ [l] @ zs" es p "f\<lparr>l_val := int (length ys + 1)\<rparr>"] pe n ds room(2) by auto
  moreover have "unused s' = unused ?s" using calculation(1)
    by (auto simp: add_relaxed_dist_def Let_def deref_def split: option.splits if_splits)
  moreover have "l \<notin> set es" using at by (auto simp: lists_at_def)
  moreover have "vals (lheap ?s) (ys @ [l] @ zs) = vals ?h (ys @ [l] @ zs)" using ds n by simp
  ultimately show ?thesis using eq pe by simp
qed

section \<open>The analysis computes the reference\<close>

lemma analysis_step_rel:
  assumes rel: "analysis_rel s vs ds" and legal: "analysis_legal (c # cs) vs"
    and room: "length vs + 1 < 9223372036854775808" "length ds + 1 < W64" and fuel: "length vs \<le> fuel"
  shows "\<exists>s'. analysis_step fuel c s = Inr s' \<and>
    analysis_rel s' (fst (analysis_spec c (vs, ds))) (snd (analysis_spec c (vs, ds))) \<and>
    analysis_legal cs (fst (analysis_spec c (vs, ds)))"
proof -
  obtain xs es where at: "lists_at s xs es" and vs: "vals (lheap s) xs = vs" "vals (lheap s) es = map int ds"
    using rel by (auto simp: analysis_rel_def)
  have len: "length xs = length vs" "length es = length ds" using vs by (metis length_vals length_map)+
  show ?thesis
  proof (cases c)
    case (AddLinear v e)
    have "e = 0 \<or> e = 1" "length xs + 1 < W64" using legal AddLinear room(1) len by (auto simp: W64_def)
    from add_linear_lists [OF at this, of v] obtain s' where "add_linear v e s = Inr s'"
      and "analysis_rel s' (if e = 1 then v # vs else vs @ [v]) ds" using vs by (auto intro: analysis_relI simp del: vals_simps)
    then show ?thesis using AddLinear legal by auto
  next
    case (RemoveLinear v)
    then obtain ys p zs where sp: "xs = ys @ p # zs" "v \<notin> set (vals (lheap s) ys)" "l_val (the (lheap s p)) = v"
      "remove1 v (vals (lheap s) xs) = vals (lheap s) (ys @ zs)" "distance (vals (lheap s) xs) v = length ys"
      using legal vs by (auto intro: vals_split [of v "lheap s" xs])
    have "\<exists>s'. remove_linear fuel v s = Inr s' \<and> lists_at s' (ys @ zs) (es @ [p]) \<and>
      vals (lheap s') (ys @ zs) = vals (lheap s) (ys @ zs) \<and> vals (lheap s') (es @ [p]) = map int (ds @ [length ys])"
    proof (cases ys rule: rev_cases)
      case Nil
      then show ?thesis using remove_first_lists [of s p zs es v fuel] at sp(1,3) room len vs by (auto simp: W64_def)
    next
      case (snoc us l)
      have "\<exists>s'. remove_linear fuel v s = Inr s' \<and> lists_at s' (us @ [l] @ zs) (es @ [p]) \<and>
        vals (lheap s') (us @ [l] @ zs) = vals (lheap s) (us @ [l] @ zs) \<and>
        vals (lheap s') (es @ [p]) = vals (lheap s) es @ [int (length us + 1)] \<and> unused s' = unused s"
        by (rule remove_later_lists) (use at sp snoc room len fuel in \<open>auto simp: W64_def\<close>)
      then show ?thesis using snoc vs by auto
    qed
    then obtain s' where s': "remove_linear fuel v s = Inr s'" "lists_at s' (ys @ zs) (es @ [p])"
      "vals (lheap s') (ys @ zs) = remove1 v vs" "vals (lheap s') (es @ [p]) = map int (ds @ [distance vs v])"
      using sp(4,5) vs(1) by (auto simp del: vals_simps)
    from analysis_relI [OF s'(2-4)] s'(1) show ?thesis using RemoveLinear legal by auto
  qed
qed

lemma analysis_run_rel:
  assumes "analysis_rel s vs ds" "analysis_legal cs vs"
    "length vs + length cs < 9223372036854775808" "length ds + length cs < W64" "length vs + length cs \<le> fuel"
  shows "\<exists>s'. analysis_run fuel cs s = Inr s' \<and> analysis_rel s' (fst (fold analysis_spec cs (vs, ds))) (snd (fold analysis_spec cs (vs, ds)))"
  using assms
proof (induction cs arbitrary: s vs ds)
  case (Cons c cs)
  obtain ws es where sp: "analysis_spec c (vs, ds) = (ws, es)" by (cases "analysis_spec c (vs, ds)")
  obtain s1 where s1: "analysis_step fuel c s = Inr s1" "analysis_rel s1 ws es" "analysis_legal cs ws"
    using analysis_step_rel [OF Cons.prems(1,2), of fuel] Cons.prems(3-) sp by auto
  have "length ws \<le> length vs + 1 \<and> length es \<le> length ds + 1"
    using sp by (cases c) (auto simp: length_remove1 split: if_splits)
  then have "\<exists>s'. analysis_run fuel cs s1 = Inr s' \<and>
    analysis_rel s' (fst (fold analysis_spec cs (ws, es))) (snd (fold analysis_spec cs (ws, es)))"
    using Cons.prems(3-) s1 by (intro Cons.IH) auto
  then show ?case using s1(1) sp by simp
qed simp

lemma analysis_rel_init: "analysis_rel init_analysis [] []"
  unfolding analysis_rel_def
  by (intro exI [of _ "[]"]) (simp add: lists_at_def holds_def init_analysis_def)

text \<open>
  C24. The relaxation analysis computes what it is meant to. Run any calls of \<^verbatim>\<open>add_linear\<close>, at either end, and of
  \<^verbatim>\<open>remove_linear\<close>, each for a value that is in the clone when it is removed, on the initially empty
  lists, fewer than \<open>2 ^ 63\<close> of them. No assertion fails and no null pointer is dereferenced, the search loop ends within as
  many iterations as there were calls, \<^verbatim>\<open>linear_clone\<close> ends as the strict list of the reference,
  and \<^verbatim>\<open>error_dists\<close> lists, in order, for every removal the number of items that were in front of the
  removed one.
\<close>

theorem relaxation_analysis_correct:
  assumes "analysis_legal cs []" "length cs < 9223372036854775808" "length cs \<le> fuel"
  shows "\<exists>s. analysis_run fuel cs init_analysis = Inr s \<and>
    list_values (l_size (linear_clone s)) (lheap s) (l_head (linear_clone s)) = fst (fold analysis_spec cs ([], [])) \<and>
    list_values (l_size (error_dists s)) (lheap s) (l_head (error_dists s)) = map int (snd (fold analysis_spec cs ([], [])))"
proof -
  have "length cs < W64" using assms(2) by (simp add: W64_def)
  then obtain s where s: "analysis_run fuel cs init_analysis = Inr s"
    "analysis_rel s (fst (fold analysis_spec cs ([], []))) (snd (fold analysis_spec cs ([], [])))"
    using analysis_run_rel [OF analysis_rel_init assms(1), of fuel] assms(2,3) by auto
  then show ?thesis using analysis_rel_values [OF s(2)] by blast
qed

text \<open>Three items are enqueued, the second is removed first: it skips one, and the others none.\<close>

theorem relaxation_analysis_correct_witness:
  "\<exists>s. analysis_run 6 [AddLinear 7 0, AddLinear 8 0, AddLinear 9 0, RemoveLinear 8, RemoveLinear 7, RemoveLinear 9] init_analysis = Inr s \<and>
    list_values (l_size (linear_clone s)) (lheap s) (l_head (linear_clone s)) = [] \<and>
    list_values (l_size (error_dists s)) (lheap s) (l_head (error_dists s)) = [1, 0, 0]"
  using relaxation_analysis_correct
    [of "[AddLinear 7 0, AddLinear 8 0, AddLinear 9 0, RemoveLinear 8, RemoveLinear 7, RemoveLinear 9]" 6]
  by (simp add: distance_def)

section \<open>Measuring a queue with decoupled windows\<close>

text \<open>The calls a queue makes: an enqueue adds at the tail of the clone (\<^verbatim>\<open>end\<close> is 0), a dequeue removes.\<close>

fun queue_event_calls :: "('a \<Rightarrow> int) \<Rightarrow> 'a queue_event list \<Rightarrow> analysis_call list" where
  "queue_event_calls f [] = []"
| "queue_event_calls f (Enqueued p # es) = AddLinear (f p) 0 # queue_event_calls f es"
| "queue_event_calls f (Dequeued p # es) = RemoveLinear (f p) # queue_event_calls f es"
| "queue_event_calls f (DequeuedNull # es) = queue_event_calls f es"

inductive queue_trace :: "nat \<Rightarrow> nat \<Rightarrow> 'a wqueue \<Rightarrow> 'a queue_event list \<Rightarrow> 'a wqueue \<Rightarrow> bool" for w d where
  trace_Nil: "queue_trace w d s [] s"
| trace_Cons: "spec_queue w d s e s1 \<Longrightarrow> queue_trace w d s1 es s2 \<Longrightarrow> queue_trace w d s (e # es) s2"

inductive_cases trace_ConsE: "queue_trace w d s (e # es) s2"

definition empty_wqueue :: "nat \<Rightarrow> 'a wqueue" where
  "empty_wqueue w = \<lparr>q_items = replicate w [], q_gets = replicate w 0, q_put_max = 0, q_get_max = 0, q_hist = []\<rparr>"

text \<open>The clone \<open>L\<close> has the items of the queue in the order they were enqueued.\<close>

definition clone_of :: "'a wqueue \<Rightarrow> 'a list \<Rightarrow> bool" where
  "clone_of s L \<longleftrightarrow> mset L = mset (concat (in_queue s)) \<and> set L \<subseteq> set (q_hist s) \<and>
     sorted_wrt (\<lambda>p q. push_time (q_hist s) p < push_time (q_hist s) q) L"

lemma clone_enq:
  assumes inv: "queue_spec_inv w d s" and step: "spec_queue w d s (Enqueued p) s'" and cl: "clone_of s L"
  shows "clone_of s' (L @ [p])"
  using step
proof cases
  case 1: (spec_enq i m)
  have len: "length (q_items s) = w" "length (q_gets s) = w" "q_gets s ! i \<le> length (q_items s ! i)"
    using inv 1(2) by (auto simp: queue_spec_inv_def)
  have iq: "in_queue s' = (in_queue s)[i := in_queue s ! i @ [p]]"
    using 1(1,2) len by - (rule nth_equalityI, auto simp: in_queue_def nth_list_update One_nat_def)
  have "mset (concat (in_queue s')) = add_mset p (mset (concat (in_queue s)))"
    using mset_concat_update [of i "in_queue s" "in_queue s ! i @ [p]"] 1(2) len unfolding iq by (simp add: in_queue_def)
  moreover have "push_time (q_hist s') q = push_time (q_hist s) q" if "q \<in> set L" for q
    using that cl 1(1,5) by (auto simp: clone_of_def intro!: push_time_tl)
  moreover have "push_time (q_hist s) q < push_time (q_hist s') p" for q
    using 1(1) push_time_le [of "q_hist s" q] by simp
  ultimately show ?thesis using cl 1(1)
    by (auto simp: clone_of_def sorted_wrt_append elim!: sorted_wrt_mono_rel [rotated])
qed

lemma sorted_wrt_remove1: "sorted_wrt P xs \<Longrightarrow> sorted_wrt P (remove1 x xs)"
proof (induction xs)
  case (Cons y ys)
  then show ?case using set_remove1_subset [of x ys] by auto
qed simp

lemma clone_deq:
  assumes inv: "queue_spec_inv w d s" and step: "spec_queue w d s (Dequeued p) s'" and cl: "clone_of s L"
  shows "p \<in> set L \<and> clone_of s' (remove1 p L)"
  using step
proof cases
  case 1: (spec_deq i m)
  have len: "length (q_items s) = w" "length (q_gets s) = w" using inv by (auto simp: queue_spec_inv_def)
  have sub: "in_queue s ! i = p # drop (Suc (q_gets s ! i)) (q_items s ! i)"
    using 1(2,6) len Cons_nth_drop_Suc [OF 1(5), symmetric] by (simp add: in_queue_def)
  have iq: "in_queue s' = (in_queue s)[i := drop (Suc (q_gets s ! i)) (q_items s ! i)]"
    using 1(1,2) len by - (rule nth_equalityI, auto simp: in_queue_def nth_list_update One_nat_def)
  have m: "add_mset p (mset (concat (in_queue s'))) = mset (concat (in_queue s))"
    using mset_concat_update [of i "in_queue s" "drop (Suc (q_gets s ! i)) (q_items s ! i)"] 1(2) len sub unfolding iq
    by (simp add: in_queue_def)
  then have mL: "mset L = add_mset p (mset (concat (in_queue s')))" using cl by (simp add: clone_of_def)
  then have "p \<in> set L" by (metis union_single_eq_member set_mset_mset)
  moreover have "sorted_wrt (\<lambda>p q. push_time (q_hist s) p < push_time (q_hist s) q) (remove1 p L)"
    using cl by (auto simp: clone_of_def intro: sorted_wrt_remove1)
  moreover have "mset (remove1 p L) = mset (concat (in_queue s'))" using mL by simp
  moreover have "q_hist s' = q_hist s" using 1(1) by simp
  ultimately show ?thesis using cl set_remove1_subset [of p L] by (auto simp: clone_of_def)
qed

lemma clone_distance:
  assumes cl: "clone_of s L" and p: "p \<in> set L" and f: "inj_on f (set L)"
  shows "distance (map f L) (f p) = older s p" "remove1 (f p) (map f L) = map f (remove1 p L)"
proof -
  let ?t = "push_time (q_hist s)"
  obtain A B where L: "L = A @ p # B" and pA: "p \<notin> set A" using split_list_first [OF p] by blast
  have srt: "\<forall>q \<in> set A. ?t q < ?t p" "\<forall>q \<in> set B. ?t p < ?t q" using cl L by (auto simp: clone_of_def sorted_wrt_append)
  have fA: "f p \<notin> f ` set A" using f pA L by (auto dest: inj_onD)
  have "takeWhile (\<lambda>x. x \<noteq> f p) (map f A @ f p # map f B) = map f A" using fA by (subst takeWhile_append2) force+
  then have d: "distance (map f L) (f p) = length A" by (simp add: distance_def L)
  have "filter (\<lambda>q. ?t q < ?t p) L = A" using srt by (auto simp: L filter_empty_conv)
  moreover have "mset (filter (\<lambda>q. ?t q < ?t p) L) = mset (filter (\<lambda>q. ?t q < ?t p) (concat (in_queue s)))"
    using cl by (simp add: clone_of_def)
  ultimately have "length A = older s p" unfolding older_def by (metis mset_eq_length)
  then show "distance (map f L) (f p) = older s p" using d by simp
  show "remove1 (f p) (map f L) = map f (remove1 p L)" using fA pA by (auto simp: L remove1_append)
qed

lemma trace_hist: "queue_trace w d s es s' \<Longrightarrow> set (q_hist s) \<subseteq> set (q_hist s')"
proof (induction rule: queue_trace.induct)
  case (trace_Cons s e s1 es s2)
  from trace_Cons.hyps(1) have "set (q_hist s) \<subseteq> set (q_hist s1)" by cases auto
  then show ?case using trace_Cons.IH by blast
qed simp

lemma queue_trace_measured:
  assumes "queue_trace w d s es s'" "queue_spec_inv w d s" "clone_of s L" "inj_on f (set (q_hist s'))"
    "set (q_hist s) \<subseteq> set (q_hist s')" "\<forall>x \<in> set ds. x \<le> d * (w - 1)"
  shows "analysis_legal (queue_event_calls f es) (map f L) \<and>
    (\<forall>x \<in> set (snd (fold analysis_spec (queue_event_calls f es) (map f L, ds))). x \<le> d * (w - 1))"
  using assms
proof (induction arbitrary: L ds)
  case (trace_Cons s e s1 es s2)
  have inv1: "queue_spec_inv w d s1" by (rule queue_spec_inv_step [OF trace_Cons.prems(1) trace_Cons.hyps(1)])
  show ?case
  proof (cases e)
    case (Enqueued p)
    have step: "spec_queue w d s (Enqueued p) s1" using trace_Cons.hyps(1) Enqueued by simp
    have "set (q_hist s1) \<subseteq> set (q_hist s2)" using trace_hist [OF trace_Cons.hyps(2)] by simp
    then show ?thesis
      using trace_Cons.IH [OF inv1 clone_enq [OF trace_Cons.prems(1) step trace_Cons.prems(2)] trace_Cons.prems(3) _ trace_Cons.prems(5)]
      by (simp add: Enqueued)
  next
    case (Dequeued p)
    have step: "spec_queue w d s (Dequeued p) s1" using trace_Cons.hyps(1) Dequeued by simp
    note cd = clone_deq [OF trace_Cons.prems(1) step trace_Cons.prems(2)]
    have "inj_on f (set L)" using trace_Cons.prems(2-4) by (auto simp: clone_of_def intro: inj_on_subset)
    note dist = clone_distance [OF trace_Cons.prems(2) conjunct1 [OF cd] this]
    have b: "\<forall>x \<in> set (ds @ [distance (map f L) (f p)]). x \<le> d * (w - 1)"
      using trace_Cons.prems(5) dist(1) deq_older_bound [OF trace_Cons.prems(1) step] by simp
    have "set (q_hist s1) \<subseteq> set (q_hist s2)" using trace_hist [OF trace_Cons.hyps(2)] by simp
    then show ?thesis using trace_Cons.IH [OF inv1 conjunct2 [OF cd] trace_Cons.prems(3) _ b] cd dist(2)
      by (simp add: Dequeued)
  next
    case DequeuedNull
    then have "s1 = s" using trace_Cons.hyps(1) by (auto elim: spec_deq_nullE)
    then show ?thesis using trace_Cons.IH [OF inv1, of L ds] trace_Cons.prems(2-) DequeuedNull by simp
  qed
qed simp

lemma max_loop_lchain:
  "lchain h a xs 0 \<Longrightarrow> length xs < fuel \<Longrightarrow> max_loop fuel h a m = Inr (foldl max m (vals h xs))"
proof (induction xs arbitrary: a m fuel)
  case Nil
  then show ?case by (cases fuel) auto
next
  case (Cons x xs)
  then obtain k where k: "fuel = Suc k" by (cases fuel) auto
  have "(if m < l_val n then l_val n else m) = max m (l_val n)" for n by (simp add: max_def)
  then show ?case using Cons by (auto simp: k)
qed

lemma foldl_max_bounds: "(\<forall>x \<in> set xs. x \<le> b) \<Longrightarrow> (m :: int) \<le> b \<Longrightarrow> m \<le> foldl max m xs \<and> foldl max m xs \<le> b"
proof (induction xs arbitrary: m)
  case (Cons x xs)
  from Cons.IH [of "max m x"] Cons.prems show ?case by simp
qed simp

lemma fold_spec_dists: "length (snd (fold analysis_spec cs (vs, ds))) \<le> length ds + length cs"
proof (induction cs arbitrary: vs ds)
  case (Cons c cs)
  obtain ws es where sp: "analysis_spec c (vs, ds) = (ws, es)" by (cases "analysis_spec c (vs, ds)")
  then have "length es \<le> length ds + 1" by (cases c) auto
  then show ?case using Cons.IH [of ws es] sp by simp
qed simp

lemma max_relaxation_bounds:
  assumes rel: "analysis_rel s vs ds" and b: "\<forall>x \<in> set ds. x \<le> b" and fuel: "length ds < fuel"
  shows "if ds = [] then max_relaxation fuel s = Inl AssertFailed
    else \<exists>m. max_relaxation fuel s = Inr m \<and> 0 \<le> m \<and> m \<le> int b"
proof -
  obtain es where es: "holds (lheap s) (error_dists s) es" "vals (lheap s) es = map int ds"
    using rel by (auto simp: analysis_rel_def lists_at_def)
  have ch: "lchain (lheap s) (l_head (error_dists s)) es 0" using es(1) by (simp add: holds_def)
  have len: "length es = length ds" using es(2) by (metis length_vals length_map)
  have "0 \<le> foldl max 0 (map int ds) \<and> foldl max 0 (map int ds) \<le> int b" using b by (intro foldl_max_bounds) auto
  then show ?thesis using lchain_null [OF ch] max_loop_lchain [OF ch, of fuel 0] fuel es(2) len
    by (auto simp: max_relaxation_def check_def)
qed

lemma empty_wqueue_ok: "0 < d \<Longrightarrow> queue_spec_inv w d (empty_wqueue w)" "clone_of (empty_wqueue w) []"
  by (auto simp: queue_spec_inv_def row_ordered_def empty_wqueue_def clone_of_def in_queue_def)

lemma length_queue_event_calls: "length (queue_event_calls f es) \<le> length es"
  by (induction es rule: queue_event_calls.induct) auto


text \<open>Two sub-queues with depth 1: the item on the second one is enqueued second and dequeued first.\<close>

lemma demo_queue_trace:
  "queue_trace 2 1 (empty_wqueue 2) [Enqueued (10 :: int), Enqueued 20, Dequeued 20, Dequeued 10]
    \<lparr>q_items = [[10], [20]], q_gets = [1, 1], q_put_max = 1, q_get_max = 1, q_hist = [20, 10]\<rparr>"
proof -
  let ?s1 = "\<lparr>q_items = [[10], []], q_gets = [0, 0], q_put_max = 1, q_get_max = 0, q_hist = [10 :: int]\<rparr>"
  let ?s2 = "\<lparr>q_items = [[10], [20]], q_gets = [0, 0], q_put_max = 1, q_get_max = 0, q_hist = [20, 10 :: int]\<rparr>"
  let ?s3 = "\<lparr>q_items = [[10], [20]], q_gets = [0, 1], q_put_max = 1, q_get_max = 1, q_hist = [20, 10 :: int]\<rparr>"
  let ?s4 = "\<lparr>q_items = [[10], [20]], q_gets = [1, 1], q_put_max = 1, q_get_max = 1, q_hist = [20, 10 :: int]\<rparr>"
  have two: "j < 2 \<longleftrightarrow> j = 0 \<or> j = Suc 0" for j :: nat by auto
  have "spec_queue 2 1 (empty_wqueue 2) (Enqueued 10) ?s1"
    using spec_enq [where w = 2 and d = 1 and i = 0 and m = 1 and s = "empty_wqueue 2" and p = "10 :: int"]
    by (simp add: empty_wqueue_def two numeral_2_eq_2 One_nat_def All_less_Suc)
  moreover have "spec_queue 2 1 ?s1 (Enqueued 20) ?s2"
    using spec_enq [where w = 2 and d = 1 and i = 1 and m = 1 and s = ?s1 and p = "20 :: int"]
    by (simp add: two One_nat_def)
  moreover have "spec_queue 2 1 ?s2 (Dequeued 20) ?s3"
    using spec_deq [where w = 2 and d = 1 and i = 1 and m = 1 and s = ?s2 and p = "20 :: int"]
    by (simp add: two One_nat_def conj_disj_distribR ex_disj_distrib)
  moreover have "spec_queue 2 1 ?s3 (Dequeued 10) ?s4"
    using spec_deq [where w = 2 and d = 1 and i = 0 and m = 1 and s = ?s3 and p = "10 :: int"]
    by (simp add: two One_nat_def)
  ultimately show ?thesis by (blast intro: trace_Nil trace_Cons)
qed


end
