(* ===== verification/Controller.thy ===== *)
theory Controller
  imports Prelude
begin

text \<open>
  The elastic controller, \<^verbatim>\<open>src/2Dd-queue_elastic-law/controller.h\<close>: every thread keeps a balance of
  contended and uncontended enqueues, and when it passes a threshold asks for a wider or a narrower
  window. The fields are the 16-bit integers of the code, as words that wrap; a signed one is read with \<open>sint\<close>. The
  controller of the other elastic queue (\<^verbatim>\<open>2Dd-queue_elastic-lpw\<close>) has the same text, with the window passed by value.

  The reference is a balance on the unbounded integers without the counter \<^verbatim>\<open>iters\<close>. The lemmas show that the
  16-bit balance never overflows, and that \<^verbatim>\<open>iters\<close>, a 16-bit number, never reaches
  \<^verbatim>\<open>ITER_TRESHOLD\<close>, so that the halving of the balance is dead code.
\<close>

section \<open>The controller\<close>

record elastic_controller =
  c_count :: "16 word"
  c_iters :: "16 word"
  this_max :: "16 word"
  c_votes :: "16 word"

definition CONT_INC :: "16 word" where "CONT_INC = 75"
definition UNCONT_DEC :: "16 word" where "UNCONT_DEC = 1"
definition CONT_TRESHOLD :: int where "CONT_TRESHOLD = 5000"
definition ITER_TRESHOLD :: int where "ITER_TRESHOLD = 40000000"
definition DIFF :: nat where "DIFF = 5"

text \<open>What both directions do after the balance has changed: count the iteration and halve the balance now and then.\<close>

definition regulate :: "elastic_controller \<Rightarrow> elastic_controller" where
  "regulate c =
    (let c = c\<lparr>c_iters := c_iters c + 1\<rparr>
     in if sint (c_iters c) = ITER_TRESHOLD then c\<lparr>c_count := signed_drop_bit 1 (c_count c), c_iters := 0\<rparr> else c)"

definition inc_controller :: "elastic_controller \<Rightarrow> bool \<times> elastic_controller" where
  "inc_controller c =
    (let c = regulate (c\<lparr>c_count := c_count c + CONT_INC\<rparr>)
     in if CONT_TRESHOLD < sint (c_count c) then (True, c\<lparr>c_count := 0\<rparr>) else (False, c))"

definition dec_controller :: "elastic_controller \<Rightarrow> bool \<times> elastic_controller" where
  "dec_controller c =
    (let c = regulate (c\<lparr>c_count := c_count c - UNCONT_DEC\<rparr>)
     in if sint (c_count c) < - CONT_TRESHOLD then (True, c\<lparr>c_count := 0\<rparr>) else (False, c))"

text \<open>
  The window of a thread: its \<open>max\<close> (64 bits) and its \<open>width\<close>. \<open>vote\<close> is what both put
  controllers do with a window the votes are not about.
\<close>

definition vote :: "16 word \<Rightarrow> u64 \<Rightarrow> elastic_controller \<Rightarrow> elastic_controller" where
  "vote v mx c =
    (let c = (if unat (this_max c) \<noteq> mx then c\<lparr>c_votes := 0, this_max := of_nat mx\<rparr> else c)
     in c\<lparr>c_votes := c_votes c + v\<rparr>)"

text \<open>
  The put controllers also have the field \<^verbatim>\<open>width\<close> of the queue as an argument and a result: \<^verbatim>\<open>update_width\<close> swaps
  it, after the sum, an \<^verbatim>\<open>int\<close>, is converted to the 16 bits of \<^verbatim>\<open>width_t\<close>.
\<close>

definition inc_put_controller :: "elastic_controller \<Rightarrow> 16 word \<Rightarrow> u64 \<Rightarrow> 16 word \<Rightarrow> elastic_controller \<times> 16 word" where
  "inc_put_controller c set_width mx width =
    (let (fire, c) = inc_controller c
     in if fire \<and> unat width * 2 \<noteq> 0 then
          (let c = vote 1 mx c
           in (c, if 0 < sint (c_votes c) then of_nat (unat width + DIFF) else set_width))
        else (c, set_width))"

definition dec_put_controller :: "elastic_controller \<Rightarrow> 16 word \<Rightarrow> u64 \<Rightarrow> 16 word \<Rightarrow> elastic_controller \<times> 16 word" where
  "dec_put_controller c set_width mx width =
    (let (fire, c) = dec_controller c
     in if fire \<and> 1 < unat width then
          (let c = vote (- 1) mx c
           in (c, if sint (c_votes c) < 0 \<and> DIFF < unat width then of_nat (unat width - DIFF) else set_width))
        else (c, set_width))"

text \<open>The controllers of the get side do nothing.\<close>

definition inc_get_controller :: "elastic_controller \<Rightarrow> 16 word \<Rightarrow> elastic_controller \<times> 16 word" where
  "inc_get_controller c set_width = (c, set_width)"

definition dec_get_controller :: "elastic_controller \<Rightarrow> 16 word \<Rightarrow> elastic_controller \<times> 16 word" where
  "dec_get_controller c set_width = (c, set_width)"

definition zero_controller :: elastic_controller where
  "zero_controller = \<lparr>c_count = 0, c_iters = 0, this_max = 0, c_votes = 0\<rparr>"

text \<open>A thread's enqueues, one after the other: a contended attempt or a success, each in a window.\<close>

datatype put_event = Contended u64 "16 word" | Succeeded u64 "16 word"

fun put_event_step :: "put_event \<Rightarrow> elastic_controller \<times> 16 word \<Rightarrow> elastic_controller \<times> 16 word" where
  "put_event_step (Contended mx w) (c, sw) = inc_put_controller c sw mx w"
| "put_event_step (Succeeded mx w) (c, sw) = dec_put_controller c sw mx w"

section \<open>The reference balance\<close>

fun balance_step :: "bool \<Rightarrow> int \<Rightarrow> bool \<times> int" where
  "balance_step True b = (if 5000 < b + 75 then (True, 0) else (False, b + 75))"
| "balance_step False b = (if b - 1 < - 5000 then (True, 0) else (False, b - 1))"

definition controller_step :: "bool \<Rightarrow> elastic_controller \<Rightarrow> bool \<times> elastic_controller" where
  "controller_step up c = (if up then inc_controller c else dec_controller c)"

text \<open>The signals of a sequence of contended (\<open>True\<close>) and uncontended steps.\<close>

fun controller_signals :: "bool list \<Rightarrow> elastic_controller \<Rightarrow> bool list \<times> elastic_controller" where
  "controller_signals [] c = ([], c)"
| "controller_signals (b # bs) c =
    (let (f, c) = controller_step b c; (fs, c) = controller_signals bs c in (f # fs, c))"

fun balance_signals :: "bool list \<Rightarrow> int \<Rightarrow> bool list \<times> int" where
  "balance_signals [] b = ([], b)"
| "balance_signals (u # us) b =
    (let (f, b) = balance_step u b; (fs, b) = balance_signals us b in (f # fs, b))"

lemma sint16_bounds: "- 32768 \<le> sint (x :: 16 word)" "sint (x :: 16 word) < 32768"
  using sint_range_size [of x] by (simp_all add: word_size)

lemma regulate_eq: "regulate c = c\<lparr>c_iters := c_iters c + 1\<rparr>"
proof -
  have "sint (c_iters c + 1) \<noteq> ITER_TRESHOLD" using sint16_bounds [of "c_iters c + 1"] by (simp add: ITER_TRESHOLD_def)
  then show ?thesis by (simp add: regulate_def)
qed

lemma sint16_add: "- 32768 \<le> sint x + sint y \<Longrightarrow> sint x + sint y < 32768 \<Longrightarrow> sint (x + y :: 16 word) = sint x + sint y"
  by (simp add: sint_word_ariths signed_take_bit_int_eq_self)

lemma sint16_sub: "- 32768 \<le> sint x - sint y \<Longrightarrow> sint x - sint y < 32768 \<Longrightarrow> sint (x - y :: 16 word) = sint x - sint y"
  by (simp add: sint_word_ariths signed_take_bit_int_eq_self)

lemma controller_step_balance:
  assumes "\<bar>sint (c_count c)\<bar> \<le> 5000"
  shows "fst (controller_step up c) = fst (balance_step up (sint (c_count c)))"
    "sint (c_count (snd (controller_step up c))) = snd (balance_step up (sint (c_count c)))"
    "\<bar>snd (balance_step up (sint (c_count c)))\<bar> \<le> 5000"
proof -
  have e: "sint (c_count c + CONT_INC) = sint (c_count c) + 75" "sint (c_count c - UNCONT_DEC) = sint (c_count c) - 1"
    using assms sint16_add [of "c_count c" CONT_INC] sint16_sub [of "c_count c" UNCONT_DEC]
    by (simp_all add: CONT_INC_def UNCONT_DEC_def abs_le_iff)
  have "fst (controller_step up c) = fst (balance_step up (sint (c_count c))) \<and>
    sint (c_count (snd (controller_step up c))) = snd (balance_step up (sint (c_count c))) \<and>
    \<bar>snd (balance_step up (sint (c_count c)))\<bar> \<le> 5000"
    using assms by (cases up)
      (simp_all add: controller_step_def inc_controller_def dec_controller_def regulate_eq CONT_TRESHOLD_def e abs_le_iff)
  then show "fst (controller_step up c) = fst (balance_step up (sint (c_count c)))"
    "sint (c_count (snd (controller_step up c))) = snd (balance_step up (sint (c_count c)))"
    "\<bar>snd (balance_step up (sint (c_count c)))\<bar> \<le> 5000"
    by simp_all
qed

text \<open>
  C26. The 16-bit controller is the reference balance. For every sequence of contended and uncontended steps of a
  fresh controller, the signals to change the width are those of a balance on the unbounded integers that is incremented
  by 75, decremented by 1 and reset beyond 5000, and the 16-bit field holds the balance, between -5000 and 5000. In
  particular the field never overflows, and the halving that \<^verbatim>\<open>ITER_TRESHOLD\<close> is meant to trigger never takes place.
\<close>

theorem controller_is_balance:
  "fst (controller_signals us zero_controller) = fst (balance_signals us 0) \<and>
   sint (c_count (snd (controller_signals us zero_controller))) = snd (balance_signals us 0) \<and>
   \<bar>snd (balance_signals us 0)\<bar> \<le> 5000"
proof -
  have "fst (controller_signals us c) = fst (balance_signals us (sint (c_count c))) \<and>
    sint (c_count (snd (controller_signals us c))) = snd (balance_signals us (sint (c_count c))) \<and>
    \<bar>snd (balance_signals us (sint (c_count c)))\<bar> \<le> 5000" if "\<bar>sint (c_count c)\<bar> \<le> 5000" for c
    using that
  proof (induction us arbitrary: c)
    case (Cons u us)
    obtain f c' where s: "controller_step u c = (f, c')" by (cases "controller_step u c")
    obtain g b where b: "balance_step u (sint (c_count c)) = (g, b)" by (cases "balance_step u (sint (c_count c))")
    note st = controller_step_balance [OF Cons.prems, of u, unfolded s b, simplified]
    obtain fs d where r: "controller_signals us c' = (fs, d)" by (cases "controller_signals us c'")
    obtain gs e where q: "balance_signals us b = (gs, e)" by (cases "balance_signals us b")
    have "\<bar>sint (c_count c')\<bar> \<le> 5000" using st(2,3) by simp
    then show ?case using Cons.IH [of c'] st(1,2) r q by (simp add: s b)
  qed simp
  from this [of zero_controller] show ?thesis by (simp add: zero_controller_def)
qed

section \<open>The width it asks for\<close>

fun event_width :: "put_event \<Rightarrow> nat" where
  "event_width (Contended mx w) = unat w"
| "event_width (Succeeded mx w) = unat w"

lemma put_event_step_width:
  assumes "1 \<le> event_width e" "event_width e \<le> 65530"
  shows "snd (put_event_step e (c, sw)) = sw \<or> unat (snd (put_event_step e (c, sw))) = event_width e + 5 \<or>
    5 < event_width e \<and> unat (snd (put_event_step e (c, sw))) = event_width e - 5"
proof -
  have small: "unat (word_of_nat n :: 16 word) = n" if "n \<le> 65535" for n
    using that by (simp add: unat_of_nat take_bit_nat_eq_self)
  have "unat (word_of_nat (event_width e + 5) :: 16 word) = event_width e + 5"
    "unat (word_of_nat (event_width e - 5) :: 16 word) = event_width e - 5"
    using assms by (intro small; simp)+
  then show ?thesis
    by (cases e) (auto simp: inc_put_controller_def dec_put_controller_def DIFF_def Let_def
      simp del: of_nat_diff of_nat_add split: prod.splits)
qed



text \<open>
  No bound of the array is among the arguments: 67 contended attempts in a row in a window of the
  full width make the width of the queue 5 more than that, whatever \<^verbatim>\<open>max_width\<close> is.
\<close>

lemma controller_exceeds_max_width:
  "unat (snd (fold put_event_step (replicate 67 (Contended 12 3)) (zero_controller, 3))) = 8"
  by (simp add: replicate_num One_nat_def zero_controller_def inc_put_controller_def inc_controller_def regulate_eq vote_def
      CONT_INC_def CONT_TRESHOLD_def DIFF_def Let_def)

end
