(* ===== verification/Elastic_Queue.thy ===== *)
theory Elastic_Queue
  imports Relaxed_Queue
begin

text \<open>
  What an elastic 2D queue promises: a queue whose windows differ in width and depth. A row is a number from 1 on; the
  windows, in the order they were opened, cut the rows into intervals, and an item has a sub-queue and a row.
  An enqueue takes the next row of a sub-queue that belongs to the last window, a dequeue takes the first item
  of a sub-queue that belongs to the get window, and a new window may be opened only when the last one is full, with any width up to the
  number of sub-queues and any depth. The theorem \<open>elastic_older_bound\<close> is the relaxation bound: what a dequeue
  returns was enqueued after at most \<open>depth * (width - 1)\<close> of the items that are in the queue, for the depth and the width of the window
  the item is in, whatever the others are.
\<close>

section \<open>The abstract queue\<close>

record ewin =
  ew_max :: nat
  ew_width :: nat
  ew_depth :: nat

record 'a equeue =
  e_items :: "('a \<times> nat) list list"
  e_gets :: "nat list"
  e_wins :: "ewin list"
  e_get :: nat
  e_hist :: "'a list"

datatype 'a eevent = ShiftPut | ShiftGet | EEnq 'a | EDeq 'a | ENull

definition rows :: "'a equeue \<Rightarrow> nat \<Rightarrow> nat list" where
  "rows s i = map snd (e_items s ! i)"

text \<open>The row of the last item enqueued on a sub-queue, and of the last one dequeued from it.\<close>

definition last_row :: "'a equeue \<Rightarrow> nat \<Rightarrow> nat" where
  "last_row s i = (if e_items s ! i = [] then 0 else last (rows s i))"

definition got_row :: "'a equeue \<Rightarrow> nat \<Rightarrow> nat" where
  "got_row s i = (if e_gets s ! i = 0 then 0 else rows s i ! (e_gets s ! i - 1))"

abbreviation put_win :: "'a equeue \<Rightarrow> ewin" where
  "put_win s \<equiv> last (e_wins s)"

abbreviation get_win :: "'a equeue \<Rightarrow> ewin" where
  "get_win s \<equiv> e_wins s ! e_get s"

definition bottom :: "ewin \<Rightarrow> nat" where
  "bottom w = ew_max w - ew_depth w"

inductive estep :: "nat \<Rightarrow> 'a equeue \<Rightarrow> 'a eevent \<Rightarrow> 'a equeue \<Rightarrow> bool" for n where
  e_shift_put: "\<forall>j < ew_width (put_win s). ew_max (put_win s) \<le> last_row s j \<Longrightarrow> 1 \<le> w \<Longrightarrow> w \<le> n \<Longrightarrow> 1 \<le> d \<Longrightarrow>
     estep n s ShiftPut (s\<lparr>e_wins := e_wins s @ [\<lparr>ew_max = ew_max (put_win s) + d, ew_width = w, ew_depth = d\<rparr>]\<rparr>)"
| e_enq: "i < ew_width (put_win s) \<Longrightarrow> last_row s i < ew_max (put_win s) \<Longrightarrow> p \<notin> set (e_hist s) \<Longrightarrow>
     r = max (last_row s i) (bottom (put_win s)) + 1 \<Longrightarrow>
     estep n s (EEnq p) (s\<lparr>e_items := (e_items s)[i := e_items s ! i @ [(p, r)]], e_hist := p # e_hist s\<rparr>)"
| e_shift_get: "e_get s + 1 < length (e_wins s) \<Longrightarrow> \<forall>j < ew_width (get_win s). ew_max (get_win s) \<le> got_row s j \<Longrightarrow>
     estep n s ShiftGet (s\<lparr>e_get := e_get s + 1\<rparr>)"
| e_deq: "i < ew_width (get_win s) \<Longrightarrow> got_row s i < ew_max (get_win s) \<Longrightarrow> e_gets s ! i < length (e_items s ! i) \<Longrightarrow>
     p = fst (e_items s ! i ! (e_gets s ! i)) \<Longrightarrow>
     estep n s (EDeq p) (s\<lparr>e_gets := (e_gets s)[i := e_gets s ! i + 1]\<rparr>)"
| e_null: "\<forall>i < n. e_gets s ! i = length (e_items s ! i) \<Longrightarrow> estep n s ENull s"

inductive_cases e_deqE: "estep n s (EDeq p) s'"

section \<open>The invariant\<close>

text \<open>The top row of window \<open>k\<close>; window \<open>k + 1\<close> has the rows above it.\<close>

definition top_row :: "'a equeue \<Rightarrow> nat \<Rightarrow> nat" where
  "top_row s k = ew_max (e_wins s ! k)"

definition wins_ok :: "nat \<Rightarrow> ewin list \<Rightarrow> bool" where
  "wins_ok n ws \<longleftrightarrow> 2 \<le> length ws \<and> ew_max (ws ! 0) = 0 \<and>
     (\<forall>k. k + 1 < length ws \<longrightarrow> ew_max (ws ! (k + 1)) = ew_max (ws ! k) + ew_depth (ws ! (k + 1)) \<and>
        1 \<le> ew_depth (ws ! (k + 1)) \<and> 1 \<le> ew_width (ws ! (k + 1)) \<and> ew_width (ws ! (k + 1)) \<le> n)"

definition rows_ok :: "'a equeue \<Rightarrow> nat \<Rightarrow> bool" where
  "rows_ok s i \<longleftrightarrow> sorted_wrt (<) (rows s i) \<and> (\<forall>r \<in> set (rows s i). 1 \<le> r \<and> r \<le> ew_max (put_win s)) \<and>
     (\<forall>k r. k + 1 < length (e_wins s) \<longrightarrow> r \<in> set (rows s i) \<longrightarrow> top_row s k < r \<longrightarrow> r \<le> top_row s (k + 1) \<longrightarrow>
        i < ew_width (e_wins s ! (k + 1)) \<and> (\<forall>r'. top_row s k < r' \<longrightarrow> r' < r \<longrightarrow> r' \<in> set (rows s i))) \<and>
     (\<forall>k. k + 2 < length (e_wins s) \<longrightarrow> i < ew_width (e_wins s ! (k + 1)) \<longrightarrow> top_row s (k + 1) \<in> set (rows s i)) \<and>
     e_gets s ! i \<le> length (rows s i) \<and>
     (\<forall>a < e_gets s ! i. rows s i ! a \<le> top_row s (e_get s)) \<and>
     (\<forall>a < length (rows s i). e_gets s ! i \<le> a \<longrightarrow> top_row s (e_get s - 1) < rows s i ! a)"

definition time_ok :: "nat \<Rightarrow> 'a equeue \<Rightarrow> bool" where
  "time_ok n s \<longleftrightarrow> (\<forall>i < n. \<forall>j < n. \<forall>a < length (e_items s ! i). \<forall>b < length (e_items s ! j).
     ((\<exists>k < length (e_wins s). rows s i ! a \<le> top_row s k \<and> top_row s k < rows s j ! b) \<or> i = j \<and> a < b) \<longrightarrow>
     push_time (e_hist s) (fst (e_items s ! i ! a)) < push_time (e_hist s) (fst (e_items s ! j ! b)))"

definition equeue_inv :: "nat \<Rightarrow> 'a equeue \<Rightarrow> bool" where
  "equeue_inv n s \<longleftrightarrow> length (e_items s) = n \<and> length (e_gets s) = n \<and> wins_ok n (e_wins s) \<and>
     1 \<le> e_get s \<and> e_get s < length (e_wins s) \<and> (\<forall>i < n. rows_ok s i) \<and> time_ok n s \<and>
     (\<forall>i < n. fst ` set (e_items s ! i) \<subseteq> set (e_hist s))"

lemma wins_mono:
  assumes "wins_ok n ws" "k < k'" "k' < length ws"
  shows "ew_max (ws ! k) < ew_max (ws ! k')"
  using assms(2,3)
proof (induction k')
  case (Suc m)
  have step: "ew_max (ws ! m) < ew_max (ws ! Suc m)"
    using assms(1) Suc.prems(2) by (auto simp: wins_ok_def Suc_eq_plus1 dest!: spec [of _ m])
  show ?case
  proof (cases "k = m")
    case False
    then show ?thesis using Suc step by simp
  qed (use step in simp)
qed simp

lemma wins_mono_le: "wins_ok n ws \<Longrightarrow> k \<le> k' \<Longrightarrow> k' < length ws \<Longrightarrow> ew_max (ws ! k) \<le> ew_max (ws ! k')"
  using wins_mono [of n ws k k'] by (cases "k = k'") auto

lemma wins_last: "wins_ok n ws \<Longrightarrow> last ws = ws ! (length ws - 1)"
  by (auto simp: wins_ok_def intro!: last_conv_nth)

lemma wins_bottom:
  assumes "wins_ok n ws" "1 \<le> k" "k < length ws"
  shows "bottom (ws ! k) = ew_max (ws ! (k - 1))" "1 \<le> ew_width (ws ! k)" "ew_width (ws ! k) \<le> n" "1 \<le> ew_depth (ws ! k)"
    "ew_max (ws ! k) = bottom (ws ! k) + ew_depth (ws ! k)"
  using assms unfolding wins_ok_def bottom_def by (auto dest!: spec [of _ "k - 1"])

lemma rows_nth: "a < length (e_items s ! i) \<Longrightarrow> rows s i ! a = snd (e_items s ! i ! a)"
  by (simp add: rows_def)

lemma length_rows [simp]: "length (rows s i) = length (e_items s ! i)"
  by (simp add: rows_def)

lemma last_row_in: "e_items s ! i \<noteq> [] \<Longrightarrow> last_row s i \<in> set (rows s i)"
  using last_in_set [of "rows s i"] by (simp add: last_row_def rows_def)

lemma rows_okD:
  assumes "rows_ok s i"
  shows "sorted_wrt (<) (rows s i)" "r \<in> set (rows s i) \<Longrightarrow> 1 \<le> r \<and> r \<le> ew_max (put_win s)"
    "k + 1 < length (e_wins s) \<Longrightarrow> r \<in> set (rows s i) \<Longrightarrow> top_row s k < r \<Longrightarrow> r \<le> top_row s (k + 1) \<Longrightarrow> i < ew_width (e_wins s ! (k + 1))"
    "k + 1 < length (e_wins s) \<Longrightarrow> r \<in> set (rows s i) \<Longrightarrow> top_row s k < r \<Longrightarrow> r \<le> top_row s (k + 1) \<Longrightarrow>
       top_row s k < r' \<Longrightarrow> r' < r \<Longrightarrow> r' \<in> set (rows s i)"
    "k + 2 < length (e_wins s) \<Longrightarrow> i < ew_width (e_wins s ! (k + 1)) \<Longrightarrow> top_row s (k + 1) \<in> set (rows s i)"
    "e_gets s ! i \<le> length (e_items s ! i)"
    "a < e_gets s ! i \<Longrightarrow> rows s i ! a \<le> top_row s (e_get s)"
    "a < length (e_items s ! i) \<Longrightarrow> e_gets s ! i \<le> a \<Longrightarrow> top_row s (e_get s - 1) < rows s i ! a"
  using assms unfolding rows_ok_def length_rows by blast+

lemma sorted_nth_le: "sorted_wrt (<) xs \<Longrightarrow> a \<le> b \<Longrightarrow> b < length xs \<Longrightarrow> xs ! a \<le> (xs ! b :: nat)"
  using sorted_wrt_nth_less [of "(<)" xs a b] by (cases "a = b") auto

lemma sorted_nth_less_iff: "sorted_wrt (<) xs \<Longrightarrow> a < length xs \<Longrightarrow> b < length xs \<Longrightarrow> xs ! a < (xs ! b :: nat) \<longleftrightarrow> a < b"
  using sorted_nth_le [of xs b a] sorted_wrt_nth_less [of "(<)" xs a b] by (cases "a < b") auto

lemma last_row_nth: "e_items s ! i \<noteq> [] \<Longrightarrow> last_row s i = rows s i ! (length (e_items s ! i) - 1)"
  by (simp add: last_row_def last_conv_nth rows_def)

lemma last_row_max:
  assumes "rows_ok s i" "r \<in> set (rows s i)"
  shows "r \<le> last_row s i"
proof -
  obtain a where a: "a < length (e_items s ! i)" "r = rows s i ! a" using assms(2) by (auto simp: in_set_conv_nth)
  have "rows s i ! a \<le> rows s i ! (length (e_items s ! i) - 1)"
    by (rule sorted_nth_le [OF rows_okD(1) [OF assms(1)]]) (use a in auto)
  moreover have "e_items s ! i \<noteq> []" using a(1) by auto
  ultimately show ?thesis using a last_row_nth [of s i] by simp
qed

lemma got_row_nth: "0 < e_gets s ! i \<Longrightarrow> got_row s i = rows s i ! (e_gets s ! i - 1)"
  by (simp add: got_row_def)

lemma got_row_less:
  assumes "rows_ok s i" "a < length (e_items s ! i)"
  shows "got_row s i < rows s i ! a \<longleftrightarrow> e_gets s ! i \<le> a"
proof (cases "e_gets s ! i = 0")
  case True
  then show ?thesis using rows_okD(2) [OF assms(1), of "rows s i ! a"] assms(2) by (force simp: got_row_def)
next
  case False
  have "e_gets s ! i - 1 < length (rows s i)" using rows_okD(6) [OF assms(1)] False by simp
  then have "got_row s i < rows s i ! a \<longleftrightarrow> e_gets s ! i - 1 < a"
    using sorted_nth_less_iff [OF rows_okD(1) [OF assms(1)]] assms(2) False by (simp add: got_row_nth)
  then show ?thesis using False by linarith
qed

lemma got_row_le_last: "rows_ok s i \<Longrightarrow> got_row s i \<le> last_row s i"
proof (cases "e_gets s ! i = 0")
  case False
  assume ok: "rows_ok s i"
  then have "e_gets s ! i - 1 < length (rows s i)" using rows_okD(6) [OF ok] False by simp
  then show ?thesis using last_row_max [OF ok nth_mem] False by (simp add: got_row_nth)
qed (simp add: got_row_def)

lemma equeue_invD:
  assumes "equeue_inv n s"
  shows "length (e_items s) = n" "length (e_gets s) = n" "wins_ok n (e_wins s)" "1 \<le> e_get s" "e_get s < length (e_wins s)"
    "i < n \<Longrightarrow> rows_ok s i" "time_ok n s" "i < n \<Longrightarrow> fst ` set (e_items s ! i) \<subseteq> set (e_hist s)"
  using assms by (auto simp: equeue_inv_def)

lemma get_win_row:
  assumes "equeue_inv n s"
  shows "ew_max (get_win s) = top_row s (e_get s)" "bottom (get_win s) = top_row s (e_get s - 1)"
    "ew_width (get_win s) \<le> n" "bottom (get_win s) < ew_max (get_win s)" "1 \<le> ew_width (get_win s)"
    "ew_max (get_win s) = bottom (get_win s) + ew_depth (get_win s)"
  using wins_bottom [OF equeue_invD(3-5) [OF assms]] by (simp_all add: top_row_def)

lemma put_win_row:
  assumes "equeue_inv n s"
  shows "put_win s = e_wins s ! (length (e_wins s) - 1)" "bottom (put_win s) = top_row s (length (e_wins s) - 2)"
    "ew_width (put_win s) \<le> n" "bottom (put_win s) < ew_max (put_win s)" "ew_max (put_win s) = top_row s (length (e_wins s) - 1)"
    "1 \<le> ew_width (put_win s)" "ew_max (put_win s) = bottom (put_win s) + ew_depth (put_win s)"
proof -
  have ok: "wins_ok n (e_wins s)" by (rule equeue_invD(3) [OF assms])
  then have l: "2 \<le> length (e_wins s)" by (simp add: wins_ok_def)
  have eq: "length (e_wins s) - 1 - 1 = length (e_wins s) - 2" by simp
  have b: "1 \<le> length (e_wins s) - 1" "length (e_wins s) - 1 < length (e_wins s)" using l by simp_all
  show p: "put_win s = e_wins s ! (length (e_wins s) - 1)" by (rule wins_last [OF ok])
  show "bottom (put_win s) = top_row s (length (e_wins s) - 2)" "ew_width (put_win s) \<le> n" "bottom (put_win s) < ew_max (put_win s)"
    "ew_max (put_win s) = top_row s (length (e_wins s) - 1)" "1 \<le> ew_width (put_win s)"
    "ew_max (put_win s) = bottom (put_win s) + ew_depth (put_win s)"
    unfolding p using wins_bottom [OF ok b] eq by (simp_all add: top_row_def)
qed

text \<open>The item that a sub-queue of the get window gives next is in that window.\<close>

lemma next_row_le:
  assumes inv: "equeue_inv n s" and i: "i < ew_width (get_win s)" "got_row s i < ew_max (get_win s)" "e_gets s ! i < length (e_items s ! i)"
  shows "rows s i ! (e_gets s ! i) \<le> ew_max (get_win s)"
proof -
  have n: "i < n" using i(1) get_win_row(3) [OF inv] by simp
  note ok = equeue_invD(6) [OF inv n]
  show ?thesis
  proof (cases "e_get s + 1 < length (e_wins s)")
    case False
    then have "e_get s = length (e_wins s) - 1" using equeue_invD(5) [OF inv] by simp
    then show ?thesis using put_win_row(1) [OF inv] rows_okD(2) [OF ok nth_mem] i(3) by simp
  next
    case True
    have "e_get s - 1 + 2 < length (e_wins s)" "e_get s - 1 + 1 = e_get s" using True equeue_invD(4) [OF inv] by simp_all
    then have "top_row s (e_get s) \<in> set (rows s i)" using rows_okD(5) [OF ok, of "e_get s - 1"] i(1) by simp
    then obtain a where a: "a < length (e_items s ! i)" "rows s i ! a = ew_max (get_win s)"
      by (auto simp: in_set_conv_nth get_win_row(1) [OF inv])
    then have "e_gets s ! i \<le> a" using got_row_less [OF ok a(1)] i(2) by simp
    then show ?thesis using sorted_nth_le [OF rows_okD(1) [OF ok], of "e_gets s ! i" a] a by simp
  qed
qed

text \<open>Its row is the one after the last one taken, or the first of the window.\<close>

lemma next_row:
  assumes inv: "equeue_inv n s" and i: "i < ew_width (get_win s)" "got_row s i < ew_max (get_win s)" "e_gets s ! i < length (e_items s ! i)"
  shows "rows s i ! (e_gets s ! i) = max (got_row s i) (bottom (get_win s)) + 1"
proof -
  let ?r = "rows s i ! (e_gets s ! i)" and ?m = "max (got_row s i) (bottom (get_win s)) + 1"
  have n: "i < n" using i(1) get_win_row(3) [OF inv] by simp
  note ok = equeue_invD(6) [OF inv n]
  have mem: "?r \<in> set (rows s i)" using i(3) by simp
  have lo: "bottom (get_win s) < ?r" using rows_okD(8) [OF ok i(3)] get_win_row(2) [OF inv] by simp
  have got: "got_row s i < ?r" using got_row_less [OF ok i(3)] by simp
  have hi: "?r \<le> ew_max (get_win s)" by (rule next_row_le [OF inv i])
  have False if lt: "?m < ?r"
  proof -
    have k: "e_get s - 1 + 1 = e_get s" "e_get s < length (e_wins s)" using equeue_invD(4,5) [OF inv] by simp_all
    then have "?m \<in> set (rows s i)"
      using rows_okD(4) [OF ok, of "e_get s - 1" ?r ?m] mem lo hi lt get_win_row(1,2) [OF inv] by auto
    then obtain a where a: "a < length (e_items s ! i)" "rows s i ! a = ?m" by (auto simp: in_set_conv_nth)
    have "got_row s i < rows s i ! a" unfolding a(2) by linarith
    then have "e_gets s ! i \<le> a" using got_row_less [OF ok a(1)] by simp
    then show False using sorted_nth_le [OF rows_okD(1) [OF ok], of "e_gets s ! i" a] a lt by simp
  qed
  then have "?r \<le> ?m" using leI [of ?m ?r] by blast
  then show ?thesis using lo got by linarith
qed

section \<open>Every step keeps the invariant\<close>

lemma rows_cong: "e_items s' ! i = e_items s ! i \<Longrightarrow> rows s' i = rows s i \<and> last_row s' i = last_row s i"
  by (simp add: rows_def last_row_def)

lemma time_okD:
  "time_ok n s \<Longrightarrow> i < n \<Longrightarrow> j < n \<Longrightarrow> a < length (e_items s ! i) \<Longrightarrow> b < length (e_items s ! j) \<Longrightarrow>
   (\<exists>k < length (e_wins s). rows s i ! a \<le> top_row s k \<and> top_row s k < rows s j ! b) \<or> i = j \<and> a < b \<Longrightarrow>
   push_time (e_hist s) (fst (e_items s ! i ! a)) < push_time (e_hist s) (fst (e_items s ! j ! b))"
  unfolding time_ok_def by blast

lemma shift_put_inv:
  assumes inv: "equeue_inv n s" and full: "\<forall>j < ew_width (put_win s). ew_max (put_win s) \<le> last_row s j"
    and w: "1 \<le> ew_width W" "ew_width W \<le> n" "1 \<le> ew_depth W" "ew_max W = ew_max (put_win s) + ew_depth W"
    and s': "e_wins s' = e_wins s @ [W]" "e_items s' = e_items s" "e_gets s' = e_gets s" "e_get s' = e_get s" "e_hist s' = e_hist s"
  shows "equeue_inv n s'"
proof -
  let ?L = "length (e_wins s)"
  note I = equeue_invD [OF inv]
  have L: "2 \<le> ?L" using I(3) by (simp add: wins_ok_def)
  have nth: "e_wins s' ! k = (if k < ?L then e_wins s ! k else W)" if "k \<le> ?L" for k using that s'(1) by (simp add: nth_append)
  have top: "top_row s' k = (if k < ?L then top_row s k else ew_max W)" if "k \<le> ?L" for k
    using nth [OF that] by (simp add: top_row_def)
  have rw: "rows s' = rows s" "last_row s' = last_row s" using s'(2) by (auto simp: rows_def last_row_def fun_eq_iff)
  have ws: "wins_ok n (e_wins s')" unfolding wins_ok_def
  proof (intro conjI allI impI)
    show "2 \<le> length (e_wins s')" "ew_max (e_wins s' ! 0) = 0" using L I(3) nth [of 0] s'(1) by (auto simp: wins_ok_def)
    fix k
    assume k: "k + 1 < length (e_wins s')"
    have "ew_max (e_wins s' ! (k + 1)) = ew_max (e_wins s' ! k) + ew_depth (e_wins s' ! (k + 1)) \<and>
        1 \<le> ew_depth (e_wins s' ! (k + 1)) \<and> 1 \<le> ew_width (e_wins s' ! (k + 1)) \<and> ew_width (e_wins s' ! (k + 1)) \<le> n"
    proof (cases "k + 1 < ?L")
      case True
      then show ?thesis using I(3) nth [of k] nth [of "k + 1"] unfolding wins_ok_def by simp
    next
      case False
      then have "k = ?L - 1" "k + 1 = ?L" using k L s'(1) by simp_all
      then show ?thesis using nth [of k] nth [of "k + 1"] w put_win_row(1) [OF inv] L by simp
    qed
    then show "ew_max (e_wins s' ! (k + 1)) = ew_max (e_wins s' ! k) + ew_depth (e_wins s' ! (k + 1))"
      "1 \<le> ew_depth (e_wins s' ! (k + 1))" "1 \<le> ew_width (e_wins s' ! (k + 1))" "ew_width (e_wins s' ! (k + 1)) \<le> n" by simp_all
  qed
  have ro: "rows_ok s' i" if i: "i < n" for i
  proof -
    note ok = I(6) [OF i]
    have le: "r \<le> ew_max (put_win s)" if "r \<in> set (rows s i)" for r using rows_okD(2) [OF ok that] by simp
    have win: "i < ew_width (e_wins s' ! (k + 1)) \<and> (\<forall>r'. top_row s' k < r' \<longrightarrow> r' < r \<longrightarrow> r' \<in> set (rows s i))"
      if k: "k + 1 < length (e_wins s')" "r \<in> set (rows s i)" "top_row s' k < r" "r \<le> top_row s' (k + 1)" for k r
    proof -
      have "k + 1 < ?L"
      proof (rule ccontr)
        assume "\<not> k + 1 < ?L"
        then have "k = ?L - 1" "k < ?L" using k(1) L s'(1) by simp_all
        then show False using k(2,3) top [of k] le [of r] put_win_row(5) [OF inv] by simp
      qed
      then show ?thesis using k top [of k] top [of "k + 1"] nth [of "k + 1"] rows_okD(3,4) [OF ok, of k r] by auto
    qed
    have fl: "top_row s' (k + 1) \<in> set (rows s i)" if k: "k + 2 < length (e_wins s')" "i < ew_width (e_wins s' ! (k + 1))" for k
    proof (cases "k + 2 < ?L")
      case True
      then show ?thesis using k(2) nth [of "k + 1"] top [of "k + 1"] rows_okD(5) [OF ok] by simp
    next
      case False
      then have k': "k + 1 = ?L - 1" "k + 1 < ?L" using k(1) L s'(1) by simp_all
      then have iw: "i < ew_width (put_win s)" using k(2) nth [of "k + 1"] put_win_row(1) [OF inv] by simp
      then have lr: "ew_max (put_win s) \<le> last_row s i" using full by blast
      then have "e_items s ! i \<noteq> []" using put_win_row(4) [OF inv] by (auto simp: last_row_def)
      then have "last_row s i \<in> set (rows s i)" by (rule last_row_in)
      then have "last_row s i = ew_max (put_win s)" "last_row s i \<in> set (rows s i)" using lr le [of "last_row s i"] by simp_all
      then show ?thesis using k' top [of "k + 1"] put_win_row(5) [OF inv] by simp
    qed
    have mx: "1 \<le> r \<and> r \<le> ew_max (put_win s')" if "r \<in> set (rows s i)" for r using rows_okD(2) [OF ok that] s'(1) w(4) by simp
    have tops: "top_row s' (e_get s) = top_row s (e_get s)" "top_row s' (e_get s - 1) = top_row s (e_get s - 1)"
      using top [of "e_get s"] top [of "e_get s - 1"] I(5) less_imp_diff_less [OF I(5), of 1] by simp_all
    show ?thesis unfolding rows_ok_def rw s'(2-4) tops length_rows
      using rows_okD(1,6-8) [OF ok] win fl mx by blast
  qed
  have tm: "time_ok n s'" unfolding time_ok_def rw s'(2,5)
  proof (intro allI impI)
    fix i j a b
    assume ij: "i < n" "j < n" and a: "a < length (e_items s ! i)" and b: "b < length (e_items s ! j)"
      and ord: "(\<exists>k < length (e_wins s'). rows s i ! a \<le> top_row s' k \<and> top_row s' k < rows s j ! b) \<or> i = j \<and> a < b"
    have le: "rows s j ! b \<le> ew_max (put_win s)" using rows_okD(2) [OF I(6) [OF ij(2)] nth_mem, of b] b by simp
    have "k < ?L \<and> top_row s' k = top_row s k" if "k < length (e_wins s')" "top_row s' k < rows s j ! b" for k
      using that top [of k] le w(4) s'(1) by (cases "k < ?L") auto
    then have "(\<exists>k < ?L. rows s i ! a \<le> top_row s k \<and> top_row s k < rows s j ! b) \<or> i = j \<and> a < b" using ord by metis
    then show "push_time (e_hist s) (fst (e_items s ! i ! a)) < push_time (e_hist s) (fst (e_items s ! j ! b))"
      by (rule time_okD [OF I(7) ij a b])
  qed
  show ?thesis using I ws ro tm s' by (simp add: equeue_inv_def)
qed

lemma shift_get_inv:
  assumes inv: "equeue_inv n s" and lt: "e_get s + 1 < length (e_wins s)"
    and all: "\<forall>j < ew_width (get_win s). ew_max (get_win s) \<le> got_row s j"
  shows "equeue_inv n (s\<lparr>e_get := e_get s + 1\<rparr>)"
proof -
  note I = equeue_invD [OF inv]
  have ro: "rows_ok (s\<lparr>e_get := e_get s + 1\<rparr>) i" if i: "i < n" for i
  proof -
    note ok = I(6) [OF i]
    have "top_row s (e_get s) < rows s i ! a" if a: "a < length (e_items s ! i)" "e_gets s ! i \<le> a" for a
    proof (rule ccontr)
      assume le: "\<not> top_row s (e_get s) < rows s i ! a"
      have "e_get s - 1 + 1 = e_get s" using I(4) by simp
      then have "i < ew_width (get_win s)"
        using rows_okD(3) [OF ok, of "e_get s - 1" "rows s i ! a"] rows_okD(8) [OF ok a] le I(5) a(1) by simp
      then have "ew_max (get_win s) \<le> got_row s i" using all by blast
      then show False using got_row_less [OF ok a(1)] a(2) le get_win_row(1) [OF inv] by simp
    qed
    moreover have "top_row s (e_get s) \<le> top_row s (e_get s + 1)" using wins_mono_le [OF I(3), of "e_get s"] lt by (simp add: top_row_def)
    ultimately show ?thesis using rows_okD [OF ok] unfolding rows_ok_def
      by (simp add: rows_def top_row_def) (meson le_trans)
  qed
  show ?thesis using I lt ro by (auto simp: equeue_inv_def time_ok_def rows_def top_row_def)
qed

text \<open>An enqueue into sub-queue \<open>i\<close>, and what it does to the rows.\<close>

definition enq_at :: "nat \<Rightarrow> 'a equeue \<Rightarrow> nat \<Rightarrow> 'a \<Rightarrow> nat \<Rightarrow> 'a equeue \<Rightarrow> bool" where
  "enq_at n s i p r s' \<longleftrightarrow> equeue_inv n s \<and> i < ew_width (put_win s) \<and> last_row s i < ew_max (put_win s) \<and> p \<notin> set (e_hist s) \<and>
     r = max (last_row s i) (bottom (put_win s)) + 1 \<and> e_items s' = (e_items s)[i := e_items s ! i @ [(p, r)]] \<and> e_hist s' = p # e_hist s \<and>
     e_wins s' = e_wins s \<and> e_gets s' = e_gets s \<and> e_get s' = e_get s"

lemma enq_atD:
  assumes "enq_at n s i p r s'"
  shows "equeue_inv n s" "i < ew_width (put_win s)" "last_row s i < ew_max (put_win s)" "p \<notin> set (e_hist s)"
    "r = max (last_row s i) (bottom (put_win s)) + 1" "e_hist s' = p # e_hist s" "e_wins s' = e_wins s" "e_gets s' = e_gets s" "e_get s' = e_get s"
    "i < n" "top_row s' = top_row s"
  using assms put_win_row(3) [of n s] by (auto simp: enq_at_def top_row_def fun_eq_iff)

lemma enq_at_items:
  assumes "enq_at n s i p r s'" "j < n"
  shows "e_items s' ! j = (if j = i then e_items s ! i @ [(p, r)] else e_items s ! j)" "rows s' j = (if j = i then rows s i @ [r] else rows s j)"
  using assms equeue_invD(1) [OF enq_atD(1) [OF assms(1)]] enq_atD(10) [OF assms(1)] by (auto simp: rows_def enq_at_def)

lemma enq_at_row:
  assumes "enq_at n s i p r s'"
  shows "last_row s i < r" "bottom (put_win s) < r" "r \<le> ew_max (put_win s)"
  using enq_atD(3,5) [OF assms] put_win_row(4) [OF enq_atD(1) [OF assms]] by auto

text \<open>The windows before the put window lie below it.\<close>

lemma top_row_below_put:
  assumes inv: "equeue_inv n s" and k: "k + 2 \<le> length (e_wins s)"
  shows "top_row s k \<le> bottom (put_win s)"
  using wins_mono_le [OF equeue_invD(3) [OF inv], of k "length (e_wins s) - 2"] k put_win_row(2) [OF inv] by (simp add: top_row_def)

lemma enq_at_window:
  assumes E: "enq_at n s i p r s'" and k: "k + 1 < length (e_wins s)" "top_row s k < r" "r \<le> top_row s (k + 1)"
  shows "i < ew_width (e_wins s ! (k + 1))" "\<And>r'. top_row s k < r' \<Longrightarrow> r' < r \<Longrightarrow> r' \<in> set (rows s i)"
proof -
  note D = enq_atD [OF E]
  note P = put_win_row [OF D(1)] and ok = equeue_invD(6) [OF D(1) D(10)]
  have "k = length (e_wins s) - 2"
    using top_row_below_put [OF D(1), of "k + 1"] k(1,3) enq_at_row(2) [OF E] by (cases "k + 3 \<le> length (e_wins s)") auto
  then have kl: "k + 1 = length (e_wins s) - 1" "top_row s k = bottom (put_win s)" using k(1) P(2) by simp_all
  show "i < ew_width (e_wins s ! (k + 1))" using D(2) kl(1) P(1) by simp
  show "r' \<in> set (rows s i)" if r': "top_row s k < r'" "r' < r" for r'
  proof -
    have gt: "bottom (put_win s) < last_row s i" "r' \<le> last_row s i" using r' D(5) kl(2) by auto
    then have "e_items s ! i \<noteq> []" by (auto simp: last_row_def)
    note mem = last_row_in [OF this]
    then have "last_row s i \<le> top_row s (k + 1)" using rows_okD(2) [OF ok mem] P(5) kl(1) by simp
    then show ?thesis using rows_okD(4) [OF ok k(1) mem, of r'] gt r' kl(2) mem by (cases "r' = last_row s i") auto
  qed
qed

lemma enq_rows_ok:
  assumes E: "enq_at n s i p r s'" and j: "j < n"
  shows "rows_ok s' j"
proof (cases "j = i")
  case False
  then show ?thesis unfolding rows_ok_def enq_at_items(2) [OF E j] enq_atD(7-9,11) [OF E] if_not_P [OF False] length_rows
    using rows_okD [OF equeue_invD(6) [OF enq_atD(1) [OF E] j]] by blast
next
  case True
  note D = enq_atD [OF E]
  note I = equeue_invD [OF D(1)] and r1 = enq_at_row [OF E] and n = D(10)
  note ok = I(6) [OF n]
  let ?L = "length (e_wins s)"
  have low: "r' < r" if "r' \<in> set (rows s i)" for r' using last_row_max [OF ok that] r1(1) by simp
  have srt: "sorted_wrt (<) (rows s i @ [r])" using rows_okD(1) [OF ok] low by (auto simp: sorted_wrt_append)
  have mx: "1 \<le> x \<and> x \<le> ew_max (put_win s)" if "x \<in> set (rows s i @ [r])" for x using that rows_okD(2) [OF ok, of x] r1 by auto
  have win: "i < ew_width (e_wins s ! (k + 1)) \<and> (\<forall>r'. top_row s k < r' \<longrightarrow> r' < x \<longrightarrow> r' \<in> set (rows s i @ [r]))"
    if k: "k + 1 < ?L" "x \<in> set (rows s i @ [r])" "top_row s k < x" "x \<le> top_row s (k + 1)" for k x
  proof (cases "x = r")
    case True
    then show ?thesis using enq_at_window [OF E k(1)] k(3,4) by auto
  next
    case False
    then show ?thesis using k rows_okD(3,4) [OF ok, of k x] by auto
  qed
  have fl: "top_row s (k + 1) \<in> set (rows s i @ [r])" if "k + 2 < ?L" "i < ew_width (e_wins s ! (k + 1))" for k
    using rows_okD(5) [OF ok that] by simp
  have got: "a < e_gets s ! i \<Longrightarrow> (rows s i @ [r]) ! a \<le> top_row s (e_get s)" for a
    using rows_okD(6) [OF ok] rows_okD(7) [OF ok, of a] by (simp add: nth_append)
  have wait: "top_row s (e_get s - 1) < (rows s i @ [r]) ! a" if "a < length (rows s i @ [r])" "e_gets s ! i \<le> a" for a
  proof (cases "a < length (e_items s ! i)")
    case True
    then show ?thesis using rows_okD(8) [OF ok True that(2)] by (simp add: nth_append)
  next
    case False
    then have a: "(rows s i @ [r]) ! a = r" using that(1) by (simp add: nth_append less_Suc_eq)
    have "top_row s (e_get s - 1) \<le> bottom (put_win s)" by (rule top_row_below_put [OF D(1)]) (use I(4,5) in simp)
    then show ?thesis using r1(2) a by simp
  qed
  have le: "e_gets s ! i \<le> length (rows s i @ [r])" using rows_okD(6) [OF ok] by simp
  show ?thesis unfolding True rows_ok_def enq_at_items(2) [OF E n] D(7-9,11) if_P [OF refl] using srt mx win fl got wait le by blast
qed

text \<open>The places of the other items, and their times, stay; the new item is in no earlier window than another one.\<close>

lemma enq_at_old:
  assumes E: "enq_at n s i p r s'" and y: "y < n" "x < length (e_items s' ! y)" "\<not> (y = i \<and> x = length (e_items s ! i))"
  shows "x < length (e_items s ! y)" "e_items s' ! y ! x = e_items s ! y ! x" "rows s' y ! x = rows s y ! x"
    "push_time (p # e_hist s) (fst (e_items s ! y ! x)) = push_time (e_hist s) (fst (e_items s ! y ! x))"
proof -
  note itm = enq_at_items [OF E y(1)]
  show x: "x < length (e_items s ! y)" using y itm(1) by (auto split: if_splits)
  then have "fst (e_items s ! y ! x) \<in> set (e_hist s)" using equeue_invD(8) [OF enq_atD(1) [OF E] y(1)] by (meson image_eqI nth_mem subsetD)
  then show "e_items s' ! y ! x = e_items s ! y ! x" "rows s' y ! x = rows s y ! x"
    "push_time (p # e_hist s) (fst (e_items s ! y ! x)) = push_time (e_hist s) (fst (e_items s ! y ! x))"
    using x itm enq_atD(4) [OF E] by (auto simp: nth_append intro!: push_time_tl)
qed

lemma enq_at_latest:
  assumes E: "enq_at n s i p r s'" and k: "k < n" "b < length (e_items s' ! k)" and m: "m < length (e_wins s)" "r \<le> top_row s m"
  shows "rows s' k ! b \<le> top_row s m"
proof (cases "m + 2 \<le> length (e_wins s)")
  case True
  then show ?thesis using top_row_below_put [OF enq_atD(1) [OF E] True] enq_at_row(2) [OF E] m(2) by simp
next
  case False
  then have "m = length (e_wins s) - 1" using m(1) by simp
  then show ?thesis using rows_okD(2) [OF enq_rows_ok [OF E k(1)] nth_mem, of b] k(2) enq_atD(7) [OF E] put_win_row(5) [OF enq_atD(1) [OF E]] by simp
qed

lemma enq_time_ok:
  assumes E: "enq_at n s i p r s'"
  shows "time_ok n s'"
  unfolding time_ok_def enq_atD(6,7,11) [OF E]
proof (intro allI impI)
  fix j k a b
  assume jk: "j < n" "k < n" and a: "a < length (e_items s' ! j)" and b: "b < length (e_items s' ! k)"
    and ord: "(\<exists>m < length (e_wins s). rows s' j ! a \<le> top_row s m \<and> top_row s m < rows s' k ! b) \<or> j = k \<and> a < b"
  have new: "e_items s' ! i ! length (e_items s ! i) = (p, r)" "rows s' i ! length (e_items s ! i) = r"
    using enq_at_items [OF E enq_atD(10) [OF E]] by (simp_all add: nth_append)
  have "\<not> (j = i \<and> a = length (e_items s ! i))"
    using ord b new(2) enq_at_items(1) [OF E jk(2)] enq_at_latest [OF E jk(2) b] by (auto simp: not_less [symmetric])
  note oa = enq_at_old [OF E jk(1) a this]
  show "push_time (p # e_hist s) (fst (e_items s' ! j ! a)) < push_time (p # e_hist s) (fst (e_items s' ! k ! b))"
  proof (cases "k = i \<and> b = length (e_items s ! i)")
    case True
    have "push_time (e_hist s) (fst (e_items s ! j ! a)) < length (e_hist s) + 1"
      using push_time_le [of "e_hist s" "fst (e_items s ! j ! a)"] by simp
    then show ?thesis using True oa new by simp
  next
    case False
    note ob = enq_at_old [OF E jk(2) b False]
    have "push_time (e_hist s) (fst (e_items s ! j ! a)) < push_time (e_hist s) (fst (e_items s ! k ! b))"
      by (rule time_okD [OF equeue_invD(7) [OF enq_atD(1) [OF E]] jk]) (use oa ob ord in simp_all)
    then show ?thesis using oa ob by simp
  qed
qed

lemma enq_inv:
  assumes "equeue_inv n s" "i < ew_width (put_win s)" "last_row s i < ew_max (put_win s)"
    and "p \<notin> set (e_hist s)" "r = max (last_row s i) (bottom (put_win s)) + 1"
    and s': "e_items s' = (e_items s)[i := e_items s ! i @ [(p, r)]]" "e_hist s' = p # e_hist s"
      "e_wins s' = e_wins s" "e_gets s' = e_gets s" "e_get s' = e_get s"
  shows "equeue_inv n s'"
proof -
  have E: "enq_at n s i p r s'" unfolding enq_at_def using assms by blast
  note I = equeue_invD [OF enq_atD(1) [OF E]]
  have "fst ` set (e_items s' ! j) \<subseteq> set (e_hist s')" if "j < n" for j using I(8) [OF that] enq_at_items(1) [OF E that] s'(2) by auto
  then show ?thesis using I enq_rows_ok [OF E] enq_time_ok [OF E] s' by (simp add: equeue_inv_def)
qed

lemma deq_inv:
  assumes inv: "equeue_inv n s" and i: "i < ew_width (get_win s)" "got_row s i < ew_max (get_win s)" "e_gets s ! i < length (e_items s ! i)"
  shows "equeue_inv n (s\<lparr>e_gets := (e_gets s)[i := e_gets s ! i + 1]\<rparr>)" (is "equeue_inv n ?s")
proof -
  note I = equeue_invD [OF inv]
  have n: "i < n" using i(1) get_win_row(3) [OF inv] by simp
  have fr: "rows ?s = rows s" "top_row ?s = top_row s" by (auto simp: rows_def top_row_def fun_eq_iff)
  have ro: "rows_ok ?s j" if j: "j < n" for j
  proof -
    note ok = I(6) [OF j]
    have "rows s i ! (e_gets s ! i) \<le> top_row s (e_get s)" using next_row_le [OF inv i] get_win_row(1) [OF inv] by simp
    then have "rows s j ! a \<le> top_row s (e_get s)" if "a < e_gets ?s ! j" for a
      using that rows_okD(7) [OF ok, of a] j n I(2) by (cases "j = i"; cases "a = e_gets s ! i") auto
    moreover have "e_gets s ! j \<le> e_gets ?s ! j" "e_gets ?s ! j \<le> length (e_items s ! j)"
      using rows_okD(6) [OF ok] i(3) n j I(2) by (cases "j = i"; simp)+
    moreover have "e_wins ?s = e_wins s" "e_get ?s = e_get s" "e_items ?s = e_items s" by simp_all
    moreover have "top_row s (e_get s - 1) < rows s j ! a" if "a < length (e_items s ! j)" "e_gets ?s ! j \<le> a" for a
      using rows_okD(8) [OF ok that(1)] that(2) calculation(2) by (meson le_trans)
    ultimately show ?thesis unfolding rows_ok_def fr length_rows using rows_okD(1-5) [OF ok] by (simp only:) blast
  qed
  then show ?thesis using I by (simp add: equeue_inv_def time_ok_def fr)
qed

theorem estep_inv:
  assumes "estep n s e s'" "equeue_inv n s"
  shows "equeue_inv n s'"
  using assms
proof cases
  case (e_shift_put w d)
  show ?thesis by (rule shift_put_inv [OF assms(2) e_shift_put(3)]) (use e_shift_put in simp_all)
next
  case (e_enq i p r)
  show ?thesis by (rule enq_inv [OF assms(2) e_enq(3-6)]) (use e_enq in simp_all)
next
  case e_shift_get
  then show ?thesis using shift_get_inv [OF assms(2)] by simp
next
  case (e_deq i p)
  then show ?thesis using deq_inv [OF assms(2)] by simp
qed simp

section \<open>The bound\<close>

definition e_waiting :: "'a equeue \<Rightarrow> 'a list list" where
  "e_waiting s = map2 (\<lambda>g xs. map fst (drop g xs)) (e_gets s) (e_items s)"

definition e_older :: "'a equeue \<Rightarrow> 'a \<Rightarrow> nat" where
  "e_older s p = length (filter (\<lambda>q. push_time (e_hist s) q < push_time (e_hist s) p) (concat (e_waiting s)))"

text \<open>Strictly increasing numbers up to \<open>b + d\<close> have at most \<open>d\<close> beyond \<open>b\<close>.\<close>

lemma sorted_few:
  assumes "sorted_wrt (<) xs" "\<And>x. x \<in> set xs \<Longrightarrow> b < x \<and> x \<le> b + d"
  shows "length xs \<le> (d :: nat)"
proof -
  have "distinct xs" using assms(1) by (simp add: strict_sorted_iff)
  then have "length xs = card (set xs)" by (simp add: distinct_card)
  also have "\<dots> \<le> card {b <.. b + d}" using assms(2) by (intro card_mono) auto
  finally show ?thesis by simp
qed

lemma sum_list_prefix_bound:
  fixes ls :: "nat list"
  assumes "w \<le> length ls" "i < w" "ls ! i = 0" "\<And>j. j < w \<Longrightarrow> ls ! j \<le> d" "\<And>j. w \<le> j \<Longrightarrow> j < length ls \<Longrightarrow> ls ! j = 0"
  shows "sum_list ls \<le> d * (w - 1)"
proof -
  have "length (take w ls) = w" using assms(1) by simp
  moreover have "sum_list (take w ls) \<le> d * (length (take w ls) - 1)" by (rule sum_list_bound_except [of i]) (use assms in auto)
  moreover have "sum_list (drop w ls) = 0" using assms(1,5) by (auto simp: sum_list_eq_0_iff in_set_conv_nth)
  moreover have "sum_list ls = sum_list (take w ls) + sum_list (drop w ls)" by (metis append_take_drop_id sum_list_append)
  ultimately show ?thesis by (simp only: add_0_right)
qed

lemma elastic_older_bound:
  assumes inv: "equeue_inv n s" and i: "i < ew_width (get_win s)" "got_row s i < ew_max (get_win s)" "e_gets s ! i < length (e_items s ! i)"
    and p: "p = fst (e_items s ! i ! (e_gets s ! i))"
  shows "e_older s p \<le> ew_depth (get_win s) * (ew_width (get_win s) - 1)"
proof -
  let ?P = "\<lambda>q. push_time (e_hist s) q < push_time (e_hist s) p" and ?W = "ew_width (get_win s)"
  let ?ls = "map (\<lambda>xs. length (filter ?P xs)) (e_waiting s)"
  note I = equeue_invD [OF inv] and G = get_win_row [OF inv]
  have n: "i < n" using i(1) G(3) by simp
  have len: "length ?ls = n" using I(1,2) by (simp add: e_waiting_def)
  have nth: "?ls ! j = length (filter (\<lambda>x. ?P (fst x)) (drop (e_gets s ! j) (e_items s ! j)))" if "j < n" for j
    using that I(1,2) by (simp add: e_waiting_def filter_map comp_def)
  have pr: "rows s i ! (e_gets s ! i) \<le> top_row s (e_get s)" using next_row_le [OF inv i] G(1) by simp
  have here: "bottom (get_win s) < rows s j ! a \<and> rows s j ! a \<le> ew_max (get_win s) \<and> j < ?W \<and> j \<noteq> i"
    if j: "j < n" and a: "a < length (e_items s ! j)" "e_gets s ! j \<le> a" and old: "?P (fst (e_items s ! j ! a))" for j a
  proof -
    note ok = I(6) [OF j]
    have lo: "top_row s (e_get s - 1) < rows s j ! a" by (rule rows_okD(8) [OF ok a])
    have no: "\<not> ((\<exists>k < length (e_wins s). rows s i ! (e_gets s ! i) \<le> top_row s k \<and> top_row s k < rows s j ! a) \<or> i = j \<and> e_gets s ! i < a)"
      using time_okD [OF I(7) n j i(3) a(1)] old p by auto
    then have hi: "rows s j ! a \<le> top_row s (e_get s)" using pr I(5) by (meson not_le)
    have "j \<noteq> i" using no a(2) old p by (cases "a = e_gets s ! i") auto
    moreover have "e_get s - 1 + 1 = e_get s" using I(4) by simp
    then have "j < ?W" using rows_okD(3) [OF ok, of "e_get s - 1" "rows s j ! a"] lo hi I(5) a(1) by simp
    ultimately show ?thesis using lo hi G(1,2) by simp
  qed
  have few: "?ls ! j \<le> ew_depth (get_win s)" if j: "j < n" for j
  proof -
    let ?xs = "filter (\<lambda>x. ?P (fst x)) (drop (e_gets s ! j) (e_items s ! j))"
    have "sorted_wrt (<) (map snd (e_items s ! j))" using rows_okD(1) [OF I(6) [OF j]] by (simp add: rows_def)
    then have "sorted_wrt (\<lambda>x y. snd x < snd y) (drop (e_gets s ! j) (e_items s ! j))" by (simp add: sorted_wrt_map sorted_wrt_drop)
    then have "sorted_wrt (<) (map snd ?xs)" by (simp add: sorted_wrt_map sorted_wrt_filter)
    moreover have "bottom (get_win s) < r \<and> r \<le> bottom (get_win s) + ew_depth (get_win s)" if r: "r \<in> set (map snd ?xs)" for r
    proof -
      obtain x where x: "x \<in> set (drop (e_gets s ! j) (e_items s ! j))" "?P (fst x)" "r = snd x" using r by auto
      then obtain b where "b < length (e_items s ! j) - e_gets s ! j" "x = e_items s ! j ! (e_gets s ! j + b)"
        using rows_okD(6) [OF I(6) [OF j]] by (auto simp: in_set_conv_nth)
      then show ?thesis using here [OF j, of "e_gets s ! j + b"] x G(6) by (simp add: rows_nth)
    qed
    ultimately have "length (map snd ?xs) \<le> ew_depth (get_win s)" by (rule sorted_few)
    then show ?thesis using nth [OF j] by simp
  qed
  have none: "?ls ! j = 0" if j: "j < n" "j = i \<or> ?W \<le> j" for j
  proof -
    have "\<not> ?P (fst x)" if x: "x \<in> set (drop (e_gets s ! j) (e_items s ! j))" for x
    proof -
      obtain b where b: "b < length (e_items s ! j) - e_gets s ! j" "x = e_items s ! j ! (e_gets s ! j + b)"
        using x rows_okD(6) [OF I(6) [OF j(1)]] by (auto simp: in_set_conv_nth)
      have "e_gets s ! j + b < length (e_items s ! j)" using b(1) by simp
      then show ?thesis using here [OF j(1), of "e_gets s ! j + b"] j(2) b(2) by auto
    qed
    then show ?thesis using nth [OF j(1)] by (simp add: filter_empty_conv)
  qed
  have "sum_list ?ls \<le> ew_depth (get_win s) * (?W - 1)"
    by (rule sum_list_prefix_bound [where i = i]) (use len G(3) i(1) n few none in auto)
  then show ?thesis by (simp add: e_older_def filter_concat length_concat comp_def)
qed

section \<open>The order of the windows, and the items that wait\<close>

lemma wins_order:
  assumes "equeue_inv n s"
  shows "ew_max (get_win s) < ew_max (put_win s) \<longleftrightarrow> e_get s + 1 < length (e_wins s)"
    "e_get s + 1 < length (e_wins s) \<Longrightarrow> ew_max (get_win s) \<le> bottom (put_win s)"
    "e_get s + 1 = length (e_wins s) \<Longrightarrow> get_win s = put_win s"
proof -
  note I = equeue_invD [OF assms] and P = put_win_row [OF assms]
  have n: "2 \<le> length (e_wins s)" using I(3) by (simp add: wins_ok_def)
  show eq: "get_win s = put_win s" if "e_get s + 1 = length (e_wins s)"
  proof -
    have "e_get s = length (e_wins s) - 1" using that by simp
    then show ?thesis using P(1) by simp
  qed
  show le: "ew_max (get_win s) \<le> bottom (put_win s)" if "e_get s + 1 < length (e_wins s)"
    using wins_mono_le [OF I(3), of "e_get s" "length (e_wins s) - 2"] that n P(2) by (simp add: top_row_def)
  show "ew_max (get_win s) < ew_max (put_win s) \<longleftrightarrow> e_get s + 1 < length (e_wins s)"
    using eq le P(4) I(5) by (cases "e_get s + 1 < length (e_wins s)") auto
qed

lemma got_row_top:
  assumes "equeue_inv n s" "j < n"
  shows "got_row s j \<le> ew_max (get_win s)"
proof (cases "e_gets s ! j = 0")
  case False
  then have "e_gets s ! j - 1 < e_gets s ! j" by simp
  then show ?thesis using rows_okD(7) [OF equeue_invD(6) [OF assms]] False get_win_row(1) [OF assms(1)] by (simp add: got_row_def)
qed (simp add: got_row_def)

lemma e_waiting_shift: "estep n s ShiftPut s' \<or> estep n s ShiftGet s' \<Longrightarrow> e_waiting s' = e_waiting s \<and> e_hist s' = e_hist s"
  by (auto simp: e_waiting_def elim!: estep.cases)

lemma map2_both_update:
  "i < length xs \<Longrightarrow> length ys = length xs \<Longrightarrow> map2 f xs (ys[i := y]) = (map2 f xs ys)[i := f (xs ! i) y]"
  "i < length xs \<Longrightarrow> length ys = length xs \<Longrightarrow> map2 f (xs[i := x]) ys = (map2 f xs ys)[i := f x (ys ! i)]"
  by (auto intro!: nth_equalityI simp: nth_list_update)

lemma e_waiting_enq:
  assumes st: "estep n s (EEnq p) s'" and inv: "equeue_inv n s"
  shows "mset (concat (e_waiting s')) = add_mset p (mset (concat (e_waiting s))) \<and> e_hist s' = p # e_hist s"
  using st
proof cases
  case (e_enq i r)
  note I = equeue_invD [OF inv]
  have i: "i < n" using e_enq(2) put_win_row(3) [OF inv] by simp
  then have ei: "e_waiting s ! i = map fst (drop (e_gets s ! i) (e_items s ! i))" "i < length (e_waiting s)"
    using I(1,2) by (simp_all add: e_waiting_def)
  have "e_waiting s' = (e_waiting s)[i := e_waiting s ! i @ [p]]"
    using i I(1,2) rows_okD(6) [OF I(6) [OF i]] ei by (simp add: e_enq(1) e_waiting_def map2_both_update)
  then show ?thesis using mset_concat_update [OF ei(2), of "e_waiting s ! i @ [p]"] by (simp add: e_enq(1))
qed

lemma e_waiting_deq:
  assumes st: "estep n s (EDeq p) s'" and inv: "equeue_inv n s"
  shows "mset (concat (e_waiting s)) = add_mset p (mset (concat (e_waiting s'))) \<and> e_hist s' = e_hist s"
  using st
proof cases
  case (e_deq i)
  note I = equeue_invD [OF inv]
  have i: "i < n" using e_deq(2) get_win_row(3) [OF inv] by simp
  then have ei: "e_waiting s ! i = map fst (drop (e_gets s ! i) (e_items s ! i))" "i < length (e_waiting s)"
    using I(1,2) by (simp_all add: e_waiting_def)
  then have hd: "e_waiting s ! i = p # map fst (drop (e_gets s ! i + 1) (e_items s ! i))"
    using e_deq(4,5) by (simp add: Cons_nth_drop_Suc [symmetric] Suc_eq_plus1)
  have "e_waiting s' = (e_waiting s)[i := map fst (drop (e_gets s ! i + 1) (e_items s ! i))]"
    using i I(1,2) by (simp add: e_deq(1) e_waiting_def map2_both_update)
  then show ?thesis using mset_concat_update [OF ei(2), of "map fst (drop (e_gets s ! i + 1) (e_items s ! i))"] hd
    by (simp add: e_deq(1))
qed

text \<open>A sub-queue of a window that is not the last one has all rows of the window.\<close>

lemma closed_window_item:
  assumes inv: "equeue_inv n s" and j: "j < ew_width (get_win s)" and lt: "e_get s + 1 < length (e_wins s)" "got_row s j < ew_max (get_win s)"
  shows "e_gets s ! j < length (e_items s ! j)"
proof -
  have n: "j < n" using j get_win_row(3) [OF inv] by simp
  note ok = equeue_invD(6) [OF inv n]
  have k: "e_get s - 1 + 1 = e_get s" "e_get s - 1 + 2 < length (e_wins s)" using lt(1) equeue_invD(4) [OF inv] by simp_all
  have "top_row s (e_get s) \<in> set (rows s j)" using rows_okD(5) [OF ok k(2)] j k(1) by simp
  then obtain a where a: "a < length (e_items s ! j)" "rows s j ! a = ew_max (get_win s)"
    by (auto simp: in_set_conv_nth get_win_row(1) [OF inv])
  then have "e_gets s ! j \<le> a" using got_row_less [OF ok a(1)] lt(2) by simp
  then show ?thesis using a(1) by simp
qed

text \<open>In the last window every item that waits is in the window.\<close>

lemma open_window_item:
  assumes inv: "equeue_inv n s" and last: "e_get s + 1 = length (e_wins s)" and j: "j < n"
    and a: "a < length (e_items s ! j)" "e_gets s ! j \<le> a"
  shows "j < ew_width (get_win s)" "bottom (get_win s) < rows s j ! a" "rows s j ! a \<le> ew_max (get_win s)" "got_row s j < ew_max (get_win s)"
proof -
  note ok = equeue_invD(6) [OF inv j]
  have lo: "top_row s (e_get s - 1) < rows s j ! a" by (rule rows_okD(8) [OF ok a])
  show hi: "rows s j ! a \<le> ew_max (get_win s)" using rows_okD(2) [OF ok nth_mem] a(1) wins_order(3) [OF inv last] by simp
  have "e_get s - 1 + 1 = e_get s" using equeue_invD(4) [OF inv] by simp
  then show "j < ew_width (get_win s)"
    using rows_okD(3) [OF ok, of "e_get s - 1" "rows s j ! a"] equeue_invD(5) [OF inv] a(1) lo hi get_win_row(1) [OF inv] by simp
  show "bottom (get_win s) < rows s j ! a" using lo get_win_row(2) [OF inv] by simp
  have "got_row s j < rows s j ! a" using got_row_less [OF ok a(1)] a(2) by simp
  then show "got_row s j < ew_max (get_win s)" using hi by simp
qed

text \<open>If a sub-queue of the last window is empty, at most \<open>depth * (width - 1)\<close> items wait.\<close>

lemma open_window_few:
  assumes inv: "equeue_inv n s" and last: "e_get s + 1 = length (e_wins s)"
    and i: "i < ew_width (get_win s)" "e_gets s ! i = length (e_items s ! i)"
  shows "length (concat (e_waiting s)) \<le> ew_depth (get_win s) * (ew_width (get_win s) - 1)"
proof -
  let ?ls = "map length (e_waiting s)" and ?W = "ew_width (get_win s)"
  note I = equeue_invD [OF inv] and G = get_win_row [OF inv]
  have len: "length ?ls = n" using I(1,2) by (simp add: e_waiting_def)
  have nth: "?ls ! j = length (e_items s ! j) - e_gets s ! j" if "j < n" for j using that I(1,2) by (simp add: e_waiting_def)
  have few: "?ls ! j \<le> ew_depth (get_win s)" if j: "j < n" for j
  proof -
    have "sorted_wrt (<) (drop (e_gets s ! j) (rows s j))" using rows_okD(1) [OF I(6) [OF j]] by (rule sorted_wrt_drop)
    moreover have "bottom (get_win s) < r \<and> r \<le> bottom (get_win s) + ew_depth (get_win s)" if r: "r \<in> set (drop (e_gets s ! j) (rows s j))" for r
    proof -
      obtain b where "b < length (e_items s ! j) - e_gets s ! j" "r = rows s j ! (e_gets s ! j + b)"
        using r rows_okD(6) [OF I(6) [OF j]] by (auto simp: in_set_conv_nth)
      then show ?thesis using open_window_item(2,3) [OF inv last j, of "e_gets s ! j + b"] G(6) by simp
    qed
    ultimately have "length (drop (e_gets s ! j) (rows s j)) \<le> ew_depth (get_win s)" by (rule sorted_few)
    then show ?thesis using nth [OF j] by simp
  qed
  have none: "?ls ! j = 0" if j: "j < n" "?W \<le> j" for j
    using open_window_item(1) [OF inv last j(1), of "e_gets s ! j"] j nth [OF j(1)] by (cases "e_gets s ! j < length (e_items s ! j)") auto
  have "sum_list ?ls \<le> ew_depth (get_win s) * (?W - 1)"
    by (rule sum_list_prefix_bound [where i = i]) (use len G(3) i nth [of i] few none in auto)
  then show ?thesis by (simp add: length_concat)
qed

end
