(* ===== verification/Elastic_Parts.thy ===== *)
theory Elastic_Parts
  imports Queue2Dd Elastic_Queue
begin

text \<open>
  The parts that the two elastic 2Dd queues, \<^verbatim>\<open>src/2Dd-queue_elastic-law\<close> and \<^verbatim>\<open>src/2Dd-queue_elastic-lpw\<close>, have in common: the two arrays of
  descriptors over Michael-Scott lists, the width and depth that the next windows take over, the thread's two indices, the functions on them that do
  not look at a window, and the relation of all this with the abstract queue of \<open>Elastic_Queue\<close>.

  The counts of the descriptors are rows: they jump over the rows of windows the sub-queue did not belong
  to. \<^verbatim>\<open>width_t\<close> and \<^verbatim>\<open>depth_t\<close> are 16-bit, \<^verbatim>\<open>row_t\<close> is 64-bit. The
  code is the one without \<^verbatim>\<open>RELAXATION_ANALYSIS\<close>, \<^verbatim>\<open>DIFF_DEPTHS\<close> and \<^verbatim>\<open>ELASTIC_CONTROLLER\<close>, with \<^verbatim>\<open>GC == 1\<close>.
\<close>

section \<open>State\<close>

record elastic =
  sub_get :: "qdescriptor2Dd list"
  sub_put :: "qdescriptor2Dd list"
  cur_depth :: nat
  cur_width :: nat
  sub_mem :: queue_mem

record elastic_cfg =
  elastic_hops :: u64
  max_width :: nat
  elastic_bound :: u64
  elastic_mode :: nat

record elastic_tl = tls +
  thread_put_index :: nat
  thread_get_index :: nat

section \<open>Operations\<close>

definition hop_elastic :: "elastic_cfg \<Rightarrow> 'l tls_scheme \<Rightarrow> nat \<Rightarrow> nat \<Rightarrow> nat \<Rightarrow> nat \<Rightarrow> ('g, nat \<times> nat \<times> nat \<times> 'l tls_scheme) prog" where
  "hop_elastic cfg l index random hops w =
     (let l = l\<lparr>my_hop_count := add64 (my_hop_count l) 1\<rparr>
      in if random < elastic_hops cfg
         then pbind (random_mod w l) (\<lambda>(index, l). Ret (index, add16 random 1, hops, l))
         else let index = add16 index 1
              in Ret (if index \<ge> w then 0 else index, random, add16 hops 1, l))"

definition load_desc_elastic :: "('g \<Rightarrow> qdescriptor2Dd list) \<Rightarrow> nat \<Rightarrow> ('g, qdescriptor2Dd) prog" where
  "load_desc_elastic arr i =
     pbind (rd_opt (\<lambda>g. map_option qd_node (at (arr g) i))) (\<lambda>n.
     pbind (rd_opt (\<lambda>g. map_option qd_count (at (arr g) i))) (\<lambda>c.
     Ret \<lparr>qd_node = n, qd_count = c\<rparr>))"

definition load_count_elastic :: "nat \<Rightarrow> ('z elastic_scheme, u64) prog" where
  "load_count_elastic i = rd_opt (\<lambda>g. map_option qd_count (at (sub_put g) i))"

definition create_node_elastic :: "allocator \<Rightarrow> nat \<Rightarrow> int \<Rightarrow> int \<Rightarrow> ptr \<Rightarrow> ('z elastic_scheme, ptr) prog" where
  "create_node_elastic al t key val nxt =
     Act (\<lambda>g. g\<lparr>sub_mem := qm_alloc t (al t (allocd (nodes (sub_mem g)))) \<lparr>n_key = key, n_val = val, n_next = nxt\<rparr> (sub_mem g)\<rparr>)
         (\<lambda>g. let p = al t (allocd (nodes (sub_mem g))) in if p = NULL then Fault else Ret p)"

definition free_node_elastic :: "nat \<Rightarrow> ptr \<Rightarrow> ('z elastic_scheme, unit) prog" where
  "free_node_elastic t p = wr (\<lambda>g. g\<lparr>sub_mem := qm_free t p (sub_mem g)\<rparr>)"

definition load_next_elastic :: "ptr \<Rightarrow> ('z elastic_scheme, ptr) prog" where
  "load_next_elastic p = rd_opt (\<lambda>g. map_option n_next (heap (nodes (sub_mem g)) p))"

definition load_val_elastic :: "ptr \<Rightarrow> ('z elastic_scheme, int) prog" where
  "load_val_elastic p = rd_opt (\<lambda>g. map_option n_val (heap (nodes (sub_mem g)) p))"

definition put_cae_elastic :: "nat \<Rightarrow> qdescriptor2Dd \<Rightarrow> qdescriptor2Dd \<Rightarrow> ('z elastic_scheme, bool) prog" where
  "put_cae_elastic i descriptor new_descriptor =
     Act (\<lambda>g. if at (sub_put g) i = Some descriptor then g\<lparr>sub_put := (sub_put g)[i := new_descriptor]\<rparr> else g)
         (\<lambda>g. Ret (at (sub_put g) i = Some descriptor))"

text \<open>The sub-queue \<open>i\<close> of \<^verbatim>\<open>enq_cae\<close> and the last argument of \<^verbatim>\<open>deq_cae\<close> are for the ghost fields only.\<close>

definition enq_cae_elastic :: "nat \<Rightarrow> ptr \<Rightarrow> ptr \<Rightarrow> ('z elastic_scheme, bool) prog" where
  "enq_cae_elastic i tail new_node =
     Act (\<lambda>g. if map_option n_next (heap (nodes (sub_mem g)) tail) = Some NULL
              then g\<lparr>sub_mem := qm_link i tail new_node (sub_mem g)\<rparr> else g)
         (\<lambda>g. case heap (nodes (sub_mem g)) tail of None \<Rightarrow> Fault | Some nd \<Rightarrow> Ret (n_next nd = NULL))"

definition deq_cae_elastic :: "nat \<Rightarrow> qdescriptor2Dd \<Rightarrow> qdescriptor2Dd \<Rightarrow> (queue_mem \<Rightarrow> queue_mem) \<Rightarrow> ('z elastic_scheme, bool) prog" where
  "deq_cae_elastic i read_des new_des ghost =
     Act (\<lambda>g. if at (sub_get g) i = Some read_des
              then g\<lparr>sub_get := (sub_get g)[i := new_des], sub_mem := ghost (sub_mem g)\<rparr> else g)
         (\<lambda>g. Ret (at (sub_get g) i = Some read_des))"

text \<open>\<^verbatim>\<open>update_depth\<close> and \<^verbatim>\<open>update_width\<close> return the old value; the new one is for the windows opened later.\<close>

definition update_depth_elastic :: "nat \<Rightarrow> ('z elastic_scheme, nat) prog" where
  "update_depth_elastic d = swp cur_depth (\<lambda>d g. g\<lparr>cur_depth := d\<rparr>) d"

definition update_width_elastic :: "nat \<Rightarrow> ('z elastic_scheme, nat) prog" where
  "update_width_elastic w = swp cur_width (\<lambda>w g. g\<lparr>cur_width := w\<rparr>) w"

definition get_depth_elastic :: "('z elastic_scheme, nat) prog" where
  "get_depth_elastic = rd cur_depth"

definition get_width_elastic :: "('z elastic_scheme, nat) prog" where
  "get_width_elastic = rd cur_width"

fun queue_walk_elastic :: "nat \<Rightarrow> ptr \<Rightarrow> ptr \<Rightarrow> u64 \<Rightarrow> ('z elastic_scheme, u64) prog" where
  "queue_walk_elastic 0 head tail sz = NoFuel"
| "queue_walk_elastic (Suc n) head tail sz =
     (if head \<noteq> tail then pbind (load_next_elastic head) (\<lambda>head. queue_walk_elastic n head tail (add64 sz 1)) else Ret sz)"

fun queue_size_loop_elastic :: "nat \<Rightarrow> nat list \<Rightarrow> u64 \<Rightarrow> ('z elastic_scheme, u64) prog" where
  "queue_size_loop_elastic fuel [] sz = Ret sz"
| "queue_size_loop_elastic fuel (q # qs) sz =
     pbind (rd_opt (\<lambda>g. map_option qd_node (at (sub_get g) q))) (\<lambda>head.
     pbind (rd_opt (\<lambda>g. map_option qd_node (at (sub_put g) q))) (\<lambda>tail.
     pbind (queue_walk_elastic fuel head tail sz) (\<lambda>sz.
     queue_size_loop_elastic fuel qs sz)))"

definition queue_size_elastic :: "nat \<Rightarrow> elastic_cfg \<Rightarrow> ('z elastic_scheme, u64) prog" where
  "queue_size_elastic fuel cfg = queue_size_loop_elastic fuel [0 ..< max_width cfg] 0"

lemmas elastic_unfold [prog_unfold] =
  hop_elastic_def load_desc_elastic_def load_count_elastic_def create_node_elastic_def free_node_elastic_def load_next_elastic_def
  load_val_elastic_def put_cae_elastic_def enq_cae_elastic_def deq_cae_elastic_def update_depth_elastic_def update_width_elastic_def

section \<open>The sub-queues\<close>

lemma wp_descs:
  "i < length (arr g) \<Longrightarrow> wp (load_desc_elastic arr i) Q g = Q (arr g ! i) g"
  "i < length (sub_put g) \<Longrightarrow> wp (load_count_elastic i) R g = R (qd_count (sub_put g ! i)) g"
  by (simp_all add: load_desc_elastic_def load_count_elastic_def)

interpretation elastic_hop: hopping "hop_elastic cfg" "elastic_hops cfg" "\<lambda>w _. w < 65536 \<and> elastic_hops cfg < 65536" for cfg
proof (unfold_locales, goal_cases)
  case 1
  then show ?case by (auto simp: hop_elastic_def add16_eq intro!: wp_random_mod)
next
  case 2
  then show ?case by (auto simp: hop_elastic_def add16_eq Let_def next_index_def split: if_splits)
qed

abbreviation heads_elastic :: "'z elastic_scheme \<Rightarrow> ptr equeue \<Rightarrow> tops" where
  "heads_elastic g s \<equiv> zip (map qd_node (sub_get g)) (e_gets s)"

abbreviation tails_elastic :: "'z elastic_scheme \<Rightarrow> ptr equeue \<Rightarrow> tops" where
  "tails_elastic g s \<equiv> zip (map qd_node (sub_put g)) (map length (e_items s))"

definition sub_rel :: "nat \<Rightarrow> 'z elastic_scheme \<Rightarrow> ptr equeue \<Rightarrow> bool" where
  "sub_rel n g s \<longleftrightarrow> length (sub_get g) = n \<and> length (sub_put g) = n \<and> length (links (sub_mem g)) = n \<and>
     queues_ok (sub_mem g) (heads_elastic g s) (tails_elastic g s) \<and>
     (\<forall>i < n. tl (links (sub_mem g) ! i) = map fst (e_items s ! i) \<and>
        qd_count (sub_put g ! i) = last_row s i \<and> qd_count (sub_get g ! i) = got_row s i) \<and>
     e_hist s = hist (nodes (sub_mem g))"

definition elastic_cfg_ok :: "elastic_cfg \<Rightarrow> 'z elastic_scheme \<Rightarrow> bool" where
  "elastic_cfg_ok cfg g \<longleftrightarrow> max_width cfg < 65536 \<and> elastic_hops cfg < 65536 \<and>
     1 \<le> cur_width g \<and> cur_width g \<le> max_width cfg \<and> 1 \<le> cur_depth g \<and> cur_depth g < 65536"

text \<open>Nothing but the windows has changed.\<close>

definition same_items :: "'z elastic_scheme \<Rightarrow> 'z elastic_scheme \<Rightarrow> bool" where
  "same_items g g' \<longleftrightarrow> sub_get g' = sub_get g \<and> sub_put g' = sub_put g \<and> sub_mem g' = sub_mem g \<and>
     cur_depth g' = cur_depth g \<and> cur_width g' = cur_width g"

lemma sub_relD:
  assumes "sub_rel n g s"
  shows "length (sub_get g) = n" "length (sub_put g) = n" "length (links (sub_mem g)) = n"
    "queues_ok (sub_mem g) (heads_elastic g s) (tails_elastic g s)" "i < n \<Longrightarrow> tl (links (sub_mem g) ! i) = map fst (e_items s ! i)"
    "i < n \<Longrightarrow> qd_count (sub_put g ! i) = last_row s i" "i < n \<Longrightarrow> qd_count (sub_get g ! i) = got_row s i"
    "e_hist s = hist (nodes (sub_mem g))"
  using assms by (auto simp: sub_rel_def)

lemma sub_rel_place:
  assumes sub: "sub_rel n g s" and len: "length (e_items s) = n" "length (e_gets s) = n" and i: "i < n"
  shows "place (sub_mem g) i (length (e_items s ! i)) (qd_node (sub_put g ! i))" "place (sub_mem g) i (e_gets s ! i) (qd_node (sub_get g ! i))"
    "length (links (sub_mem g) ! i) = length (e_items s ! i) + 1" "e_gets s ! i \<le> length (e_items s ! i)"
    "a < length (e_items s ! i) \<Longrightarrow> links (sub_mem g) ! i ! (a + 1) = fst (e_items s ! i ! a)"
proof -
  note S = sub_relD [OF sub]
  have ok: "sub_ok (heap (nodes (sub_mem g))) (links (sub_mem g) ! i) (heads_elastic g s ! i) (tails_elastic g s ! i)"
    using queues_okD(6) [OF S(4)] i S(3) by simp
  then have ne: "links (sub_mem g) ! i \<noteq> []" by (simp add: sub_ok_def linked_def)
  have "length (tl (links (sub_mem g) ! i)) = length (e_items s ! i)" using S(5) [OF i] by simp
  then show l: "length (links (sub_mem g) ! i) = length (e_items s ! i) + 1" using ne by (cases "links (sub_mem g) ! i") auto
  show "place (sub_mem g) i (length (e_items s ! i)) (qd_node (sub_put g ! i))" "place (sub_mem g) i (e_gets s ! i) (qd_node (sub_get g ! i))"
    "e_gets s ! i \<le> length (e_items s ! i)"
    using ok i S(1-3) len l by (auto simp: sub_ok_def place_def)
  assume a: "a < length (e_items s ! i)"
  have "links (sub_mem g) ! i ! (a + 1) = tl (links (sub_mem g) ! i) ! a" using a l by (simp add: nth_tl Suc_eq_plus1)
  then show "links (sub_mem g) ! i ! (a + 1) = fst (e_items s ! i ! a)" using a S(5) [OF i] by simp
qed

lemma sub_rel_alloc:
  assumes sub: "sub_rel n g s" and p: "p \<notin> set (allocd (nodes (sub_mem g)))" "p \<noteq> NULL"
  shows "sub_rel n (g\<lparr>sub_mem := qm_alloc t p nd (sub_mem g)\<rparr>) s"
  using sub queues_ok_alloc [OF sub_relD(4) [OF sub] p, of t nd] by (simp add: sub_rel_def qm_alloc_def)

lemma sub_rel_link:
  assumes sub: "sub_rel n g s" and len: "length (e_items s) = n" "length (e_gets s) = n" and i: "i < n"
    and p: "p \<notin> set (concat (links (sub_mem g)))" "p \<in> set (allocd (nodes (sub_mem g)))" "heap (nodes (sub_mem g)) p = Some nd" "n_next nd = NULL"
    and gr: "e_gets s ! i \<le> length (e_items s ! i)"
  shows "sub_rel n (g\<lparr>sub_mem := qm_link i (qd_node (sub_put g ! i)) p (sub_mem g), sub_put := (sub_put g)[i := \<lparr>qd_node = p, qd_count = r\<rparr>]\<rparr>)
    (s\<lparr>e_items := (e_items s)[i := e_items s ! i @ [(p, r)]], e_hist := p # e_hist s\<rparr>)" (is "sub_rel n ?g ?s")
proof -
  note S = sub_relD [OF sub] and P = sub_rel_place [OF sub len i]
  let ?m = "qm_link i (qd_node (sub_put g ! i)) p (sub_mem g)" and ?k = "length (e_items s ! i)"
  have tail: "snd (tails_elastic g s ! i) = ?k" using i S(2) len by simp
  have e: "links (sub_mem g) ! i ! snd (tails_elastic g s ! i) = qd_node (sub_put g ! i)" using P(1) tail by (simp add: place_def)
  have lst: "snd (tails_elastic g s ! i) + 1 = length (links (sub_mem g) ! i)" using P(3) tail by simp
  have ok1: "queues_ok ?m (heads_elastic g s) (tails_elastic g s)" using i S(3) by (intro queues_ok_link [OF S(4) _ e lst p]) simp
  have lk: "links ?m ! i = links (sub_mem g) ! i @ [p]" "i < length (links ?m)" using i S(3) by (simp_all add: qm_link_links)
  have "queues_ok ?m (heads_elastic g s) ((tails_elastic g s)[i := (links ?m ! i ! (snd (tails_elastic g s ! i) + 1), snd (tails_elastic g s ! i) + 1)])"
    using lk lst by (intro queues_ok_advance [OF ok1]) simp_all
  moreover have "links ?m ! i ! (snd (tails_elastic g s ! i) + 1) = p" using lk lst by (simp add: nth_append)
  moreover have "tails_elastic ?g ?s = (tails_elastic g s)[i := (p, ?k + 1)]"
    using S(2) len by (simp add: map_update zip_update Suc_eq_plus1)
  moreover have "heads_elastic ?g ?s = heads_elastic g s" by simp
  ultimately have ok: "queues_ok ?m (heads_elastic ?g ?s) (tails_elastic ?g ?s)" using tail by simp
  have lr: "last_row ?s j = (if j = i then r else last_row s j)" "got_row ?s j = got_row s j" if "j < n" for j
    using that i len gr by (cases "j = i"; auto simp: last_row_def got_row_def rows_def nth_append)+
  have "links ?m ! j = (if j = i then links (sub_mem g) ! i @ [p] else links (sub_mem g) ! j)" if "j < n" for j
    using that i S(3) by (simp add: qm_link_links)
  then have "tl (links ?m ! j) = map fst (e_items ?s ! j)" if "j < n" for j
    using that i len S(5) [OF that] P(3) by (auto simp: tl_append split: list.split)
  moreover have "hist (nodes ?m) = p # hist (nodes (sub_mem g))" by (simp add: qm_link_def mem_publish_def)
  ultimately show ?thesis using S ok lr i by (auto simp: sub_rel_def qm_link_links nth_list_update)
qed

lemma sub_rel_take:
  assumes sub: "sub_rel n g s" and len: "length (e_items s) = n" "length (e_gets s) = n" and i: "i < n"
    and lt: "e_gets s ! i < length (e_items s ! i)" and p: "p = fst (e_items s ! i ! (e_gets s ! i))" and r: "r = rows s i ! (e_gets s ! i)"
    and h: "h = qd_node (sub_get g ! i)"
  shows "sub_rel n (g\<lparr>sub_get := (sub_get g)[i := \<lparr>qd_node = p, qd_count = r\<rparr>], sub_mem := qm_free t h (qm_take t h p (sub_mem g))\<rparr>)
    (s\<lparr>e_gets := (e_gets s)[i := e_gets s ! i + 1]\<rparr>)" (is "sub_rel n ?g ?s")
proof -
  note S = sub_relD [OF sub] and P = sub_rel_place [OF sub len i]
  let ?k = "e_gets s ! i" and ?m = "qm_take t h p (sub_mem g)"
  have hd: "snd (heads_elastic g s ! i) = ?k" "snd (tails_elastic g s ! i) = length (e_items s ! i)" using i S(1,2) len by simp_all
  have lk: "links (sub_mem g) ! i ! ?k = h" "links (sub_mem g) ! i ! (?k + 1) = p" using P(2) P(5) [OF lt] p h by (simp_all add: place_def)
  have "queues_ok (qm_take t (links (sub_mem g) ! i ! ?k) (links (sub_mem g) ! i ! (?k + 1)) (sub_mem g))
      ((heads_elastic g s)[i := (links (sub_mem g) ! i ! (?k + 1), ?k + 1)]) (tails_elastic g s)"
    by (rule queues_ok_take [OF S(4)]) (use i S(3) hd lt in simp_all)
  then have "queues_ok ?m ((heads_elastic g s)[i := (p, ?k + 1)]) (tails_elastic g s)" unfolding lk .
  then have "queues_ok (qm_free t h ?m) ((heads_elastic g s)[i := (p, ?k + 1)]) (tails_elastic g s)"
    by (rule queues_ok_free) (simp add: qm_take_def mem_remove_def)
  moreover have "heads_elastic ?g ?s = (heads_elastic g s)[i := (p, ?k + 1)]" "tails_elastic ?g ?s = tails_elastic g s" by (simp_all add: map_update zip_update)
  ultimately have ok: "queues_ok (sub_mem ?g) (heads_elastic ?g ?s) (tails_elastic ?g ?s)" by simp
  have gr: "last_row ?s j = last_row s j" "got_row ?s j = (if j = i then r else got_row s j)" if "j < n" for j
    using that i len r by (auto simp: last_row_def got_row_def rows_def)
  show ?thesis using S ok gr i
    by (auto simp: sub_rel_def qm_take_def qm_free_def mem_remove_def mem_free_def nth_list_update)
qed

lemma wp_elastic_steps:
  "wp (load_next_elastic p) Q g = (\<exists>nd. heap (nodes (sub_mem g)) p = Some nd \<and> Q (n_next nd) g)"
  "wp (load_val_elastic p) R g = (\<exists>nd. heap (nodes (sub_mem g)) p = Some nd \<and> R (n_val nd) g)"
  "wp (put_cae_elastic i d d') U g =
     (if at (sub_put g) i = Some d then U True (g\<lparr>sub_put := (sub_put g)[i := d']\<rparr>) else U False g)"
  "wp (deq_cae_elastic i d d' gh) U g =
     (if at (sub_get g) i = Some d then U True (g\<lparr>sub_get := (sub_get g)[i := d'], sub_mem := gh (sub_mem g)\<rparr>) else U False g)"
  "heap (nodes (sub_mem g)) p = Some nd \<Longrightarrow> wp (enq_cae_elastic i p x) U g =
     (if n_next nd = NULL then U True (g\<lparr>sub_mem := qm_link i p x (sub_mem g)\<rparr>) else U False g)"
  "wp (free_node_elastic t p) V g = V () (g\<lparr>sub_mem := qm_free t p (sub_mem g)\<rparr>)"
  by (auto simp: load_next_elastic_def load_val_elastic_def put_cae_elastic_def deq_cae_elastic_def enq_cae_elastic_def free_node_elastic_def)

section \<open>The two steps of the operations\<close>

lemma enq_commit:
  assumes inv: "equeue_inv n s" and sub: "sub_rel n g s" and i: "i < ew_width (put_win s)" "last_row s i < ew_max (put_win s)"
    and p: "unlinked (sub_mem g) t p" "heap (nodes (sub_mem g)) p = Some nd" "n_next nd = NULL"
    and r: "r = max (last_row s i) (bottom (put_win s)) + 1"
    and h: "h = g\<lparr>sub_mem := qm_link i (qd_node (sub_put g ! i)) p (sub_mem g), sub_put := (sub_put g)[i := \<lparr>qd_node = p, qd_count = r\<rparr>]\<rparr>"
    and s': "s' = s\<lparr>e_items := (e_items s)[i := e_items s ! i @ [(p, r)]], e_hist := p # e_hist s\<rparr>"
  shows "estep n s (EEnq p) s'" "equeue_inv n s'" "sub_rel n h s'"
proof -
  note S = sub_relD [OF sub]
  have n: "i < n" using i(1) put_win_row(3) [OF inv] by simp
  have "p \<notin> set (hist (nodes (sub_mem g)))" using queues_hist [OF S(4)] p(1) by (auto simp: unlinked_def)
  then show st: "estep n s (EEnq p) s'" unfolding s' using i r S(8) by (intro e_enq) auto
  then show "equeue_inv n s'" by (rule estep_inv [OF _ inv])
  have al: "p \<in> set (allocd (nodes (sub_mem g)))" using p(2) queues_okD(1) [OF S(4)] by auto
  show "sub_rel n h s'" unfolding h s'
    by (rule sub_rel_link [OF sub equeue_invD(1,2) [OF inv] n _ al p(2,3)])
      (use p(1) sub_rel_place(4) [OF sub equeue_invD(1,2) [OF inv] n] in \<open>auto simp: unlinked_def\<close>)
qed

lemma deq_commit:
  assumes inv: "equeue_inv n s" and sub: "sub_rel n g s" and i: "i < ew_width (get_win s)" "got_row s i < ew_max (get_win s)" "e_gets s ! i < length (e_items s ! i)"
    and p: "p = fst (e_items s ! i ! (e_gets s ! i))" and r: "r = max (got_row s i) (bottom (get_win s)) + 1" and d: "d = sub_get g ! i"
    and h: "h = g\<lparr>sub_get := (sub_get g)[i := \<lparr>qd_node = p, qd_count = r\<rparr>], sub_mem := qm_free t (qd_node d) (qm_take t (qd_node d) p (sub_mem g))\<rparr>"
    and s': "s' = s\<lparr>e_gets := (e_gets s)[i := e_gets s ! i + 1]\<rparr>"
  shows "estep n s (EDeq p) s'" "equeue_inv n s'" "sub_rel n h s'" "e_older s p \<le> ew_depth (get_win s) * (ew_width (get_win s) - 1)"
    "\<exists>nd. heap (nodes (sub_mem g)) (qd_node d) = Some nd \<and> n_next nd = p" "\<exists>nn. heap (nodes (sub_mem g)) p = Some nn"
    "qd_count d = got_row s i"
proof -
  note S = sub_relD [OF sub]
  have n: "i < n" using i(1) get_win_row(3) [OF inv] by simp
  note pl = sub_rel_place [OF sub equeue_invD(1,2) [OF inv] n]
  show st: "estep n s (EDeq p) s'" unfolding s' using i p by (intro e_deq) auto
  then show "equeue_inv n s'" by (rule estep_inv [OF _ inv])
  have rr: "r = rows s i ! (e_gets s ! i)" using next_row [OF inv i] r by simp
  show "sub_rel n h s'" unfolding h s' by (rule sub_rel_take [OF sub equeue_invD(1,2) [OF inv] n i(3) p rr]) (simp add: d)
  show "e_older s p \<le> ew_depth (get_win s) * (ew_width (get_win s) - 1)" by (rule elastic_older_bound [OF inv i p])
  have lt: "e_gets s ! i + 1 < length (links (sub_mem g) ! i)" using pl(3) i(3) by simp
  obtain nd where nd: "heap (nodes (sub_mem g)) (qd_node d) = Some nd" "place (sub_mem g) i (e_gets s ! i + 1) (n_next nd)"
    using place_next [OF S(4) pl(2)] lt d by metis
  have np: "n_next nd = p" using nd(2) pl(5) [OF i(3)] p by (simp add: place_def)
  then show "\<exists>nd. heap (nodes (sub_mem g)) (qd_node d) = Some nd \<and> n_next nd = p" using nd(1) by blast
  show "\<exists>nn. heap (nodes (sub_mem g)) p = Some nn" using place_next [OF S(4) nd(2)] np by metis
  show "qd_count d = got_row s i" using S(7) [OF n] d by simp
qed

lemma get_le_put: "equeue_inv n s \<Longrightarrow> ew_max (get_win s) \<le> ew_max (put_win s)"
  using wins_mono_le [OF equeue_invD(3), of n s "e_get s" "length (e_wins s) - 1"] put_win_row(1) [of n s] equeue_invD(5) [of n s] by simp

lemma next_row_arith:
  assumes inv: "equeue_inv n s" and room: "ew_max (put_win s) < W64" and c: "c < ew_max (get_win s)"
  shows "sub64 (ew_max (get_win s)) (ew_depth (get_win s)) = bottom (get_win s)"
    "(if add64 c 1 < add64 (bottom (get_win s)) 1 then add64 (bottom (get_win s)) 1 else add64 c 1) = max c (bottom (get_win s)) + 1"
proof -
  note G = get_win_row(4,6) [OF inv] and mx = get_le_put [OF inv]
  have "ew_depth (get_win s) \<le> ew_max (get_win s)" using G(2) by linarith
  then show "sub64 (ew_max (get_win s)) (ew_depth (get_win s)) = bottom (get_win s)"
    using mx room sub64_eq [of "ew_depth (get_win s)" "ew_max (get_win s)"] by (simp add: bottom_def)
  have "add64 c 1 = c + 1" "add64 (bottom (get_win s)) 1 = bottom (get_win s) + 1" using c G(1) mx room by (simp_all add: add64_eq)
  then show "(if add64 c 1 < add64 (bottom (get_win s)) 1 then add64 (bottom (get_win s)) 1 else add64 c 1) = max c (bottom (get_win s)) + 1" by simp
qed

text \<open>Head and tail of a sub-queue are the same node just if nothing waits in it.\<close>

lemma head_is_tail:
  assumes inv: "equeue_inv n s" and sub: "sub_rel n g s" and i: "i < n"
  shows "qd_node (sub_get g ! i) = qd_node (sub_put g ! i) \<longleftrightarrow> e_gets s ! i = length (e_items s ! i)"
    "e_gets s ! i = length (e_items s ! i) \<Longrightarrow> \<exists>nd. heap (nodes (sub_mem g)) (qd_node (sub_get g ! i)) = Some nd \<and> n_next nd = NULL"
proof -
  note S = sub_relD [OF sub] and pl = sub_rel_place [OF sub equeue_invD(1,2) [OF inv] i]
  show "qd_node (sub_get g ! i) = qd_node (sub_put g ! i) \<longleftrightarrow> e_gets s ! i = length (e_items s ! i)"
    using place_inj [OF S(4) pl(1)] pl(1,2) by (metis place_def)
  show "\<exists>nd. heap (nodes (sub_mem g)) (qd_node (sub_get g ! i)) = Some nd \<and> n_next nd = NULL" if "e_gets s ! i = length (e_items s ! i)"
    using place_next [OF S(4) pl(2)] pl(3) that by metis
qed

section \<open>The items that wait\<close>

text \<open>The nodes behind the head of each sub-queue.\<close>

definition elastic_waiting :: "'z elastic_scheme \<Rightarrow> ptr list list" where
  "elastic_waiting g = map2 (\<lambda>d q. tl (dropWhile (\<lambda>p. p \<noteq> qd_node d) q)) (sub_get g) (links (sub_mem g))"

definition elastic_older :: "'z elastic_scheme \<Rightarrow> ptr \<Rightarrow> nat" where
  "elastic_older g p = length (filter (\<lambda>q. push_time (hist (nodes (sub_mem g))) q < push_time (hist (nodes (sub_mem g))) p) (concat (elastic_waiting g)))"

abbreviation pool :: "'z elastic_scheme \<Rightarrow> ptr multiset" where
  "pool g \<equiv> mset (concat (elastic_waiting g))"

lemma dropWhile_nth: "distinct xs \<Longrightarrow> k < length xs \<Longrightarrow> dropWhile (\<lambda>x. x \<noteq> xs ! k) xs = drop k xs"
proof (induction xs arbitrary: k)
  case (Cons x xs)
  then show ?case by (cases k) (auto simp: in_set_conv_nth)
qed simp

lemma elastic_waiting_rel:
  assumes inv: "equeue_inv n s" and sub: "sub_rel n g s"
  shows "elastic_waiting g = e_waiting s"
proof (rule nth_equalityI)
  note S = sub_relD [OF sub] and I = equeue_invD [OF inv]
  show len: "length (elastic_waiting g) = length (e_waiting s)" using S(1,3) I(1,2) by (simp add: elastic_waiting_def e_waiting_def)
  fix i assume "i < length (elastic_waiting g)"
  then have i: "i < n" using S(1,3) by (simp add: elastic_waiting_def)
  have pl: "place (sub_mem g) i (e_gets s ! i) (qd_node (sub_get g ! i))" by (rule sub_rel_place(2) [OF sub I(1,2) i])
  have "distinct (links (sub_mem g) ! i)" using queues_okD(7) [OF S(4)] i S(3) by (auto simp: distinct_concat_iff)
  then have "dropWhile (\<lambda>p. p \<noteq> qd_node (sub_get g ! i)) (links (sub_mem g) ! i) = drop (e_gets s ! i) (links (sub_mem g) ! i)"
    using dropWhile_nth [of "links (sub_mem g) ! i" "e_gets s ! i"] pl by (simp add: place_def)
  then have "elastic_waiting g ! i = drop (e_gets s ! i) (tl (links (sub_mem g) ! i))"
    using i S(1,3) by (simp add: elastic_waiting_def tl_drop)
  then show "elastic_waiting g ! i = e_waiting s ! i" using i S(5) [OF i] I(1,2) by (simp add: e_waiting_def drop_map)
qed

lemma elastic_older_rel: "equeue_inv n s \<Longrightarrow> sub_rel n g s \<Longrightarrow> elastic_older g p = e_older s p"
  by (simp add: elastic_older_def e_older_def elastic_waiting_rel sub_relD(8))

lemma queue_walk_elastic_seq:
  assumes ok: "queues_ok (sub_mem g) hs ts" and "place (sub_mem g) i k p" "place (sub_mem g) i k' p'" "k \<le> k'" "k' - k < n" "sz + (k' - k) < W64"
  shows "wp (queue_walk_elastic n p p' sz) (\<lambda>r h. r = sz + (k' - k) \<and> h = g) g"
  using assms(2-)
proof (induction n arbitrary: k p sz)
  case (Suc n)
  show ?case
  proof (cases "k = k'")
    case True
    then show ?thesis using Suc.prems by (auto simp: place_def)
  next
    case False
    then have ne: "p \<noteq> p'" using place_inj [OF ok Suc.prems(1)] Suc.prems(2) by blast
    have lt: "k + 1 < length (links (sub_mem g) ! i)" using Suc.prems(2,3) False by (auto simp: place_def)
    obtain nd where nd: "heap (nodes (sub_mem g)) p = Some nd" "place (sub_mem g) i (k + 1) (n_next nd)"
      using place_next [OF ok Suc.prems(1)] lt by metis
    have "wp (queue_walk_elastic n (n_next nd) p' (sz + 1)) (\<lambda>r h. r = (sz + 1) + (k' - (k + 1)) \<and> h = g) g"
      using Suc.prems False nd by (intro Suc.IH) auto
    moreover have "(sz + 1) + (k' - (k + 1)) = sz + (k' - k)" "add64 sz 1 = sz + 1"
      using Suc.prems False by (auto simp: add64_eq)
    ultimately show ?thesis using ne nd by (simp add: wp_elastic_steps)
  qed
qed simp

lemma queue_size_loop_elastic_seq:
  assumes inv: "equeue_inv n s" and sub: "sub_rel n g s"
    and "\<forall>j \<in> set is. j < n \<and> length (e_waiting s ! j) < fuel" "sz + (\<Sum>j \<leftarrow> is. length (e_waiting s ! j)) < W64"
  shows "wp (queue_size_loop_elastic fuel is sz) (\<lambda>r h. r = sz + (\<Sum>j \<leftarrow> is. length (e_waiting s ! j)) \<and> h = g) g"
  using assms(3,4)
proof (induction "is" arbitrary: sz)
  case (Cons i "is")
  note S = sub_relD [OF sub] and I = equeue_invD [OF inv]
  have i: "i < n" using Cons.prems by simp
  note pl = sub_rel_place [OF sub I(1,2) i]
  let ?n = "length (e_waiting s ! i)" and ?m = "\<Sum>j \<leftarrow> is. length (e_waiting s ! j)"
  have n: "?n = length (e_items s ! i) - e_gets s ! i" using i I(1,2) by (simp add: e_waiting_def)
  have rest: "wp (queue_size_loop_elastic fuel is (sz + ?n)) (\<lambda>r h. r = (sz + ?n) + ?m \<and> h = g) g"
    using Cons.prems by (intro Cons.IH) auto
  have "wp (queue_walk_elastic fuel (qd_node (sub_get g ! i)) (qd_node (sub_put g ! i)) sz)
     (\<lambda>r. wp (queue_size_loop_elastic fuel is r) (\<lambda>r h. r = sz + (\<Sum>j \<leftarrow> i # is. length (e_waiting s ! j)) \<and> h = g)) g"
    using Cons.prems rest unfolding n
    by (intro wp_mono [OF queue_walk_elastic_seq [OF S(4) pl(2,1,4)]]) (auto simp: add.assoc n)
  then show ?case using i S(1,2) by simp
qed simp

lemma elastic_waiting_le_hist:
  assumes inv: "equeue_inv n s" and sub: "sub_rel n g s"
  shows "length (concat (e_waiting s)) \<le> length (hist (nodes (sub_mem g)))"
proof -
  note S = sub_relD [OF sub] and I = equeue_invD [OF inv]
  have "length (concat (map tl (links (sub_mem g)))) = length (hist (nodes (sub_mem g)))"
    using queues_okD(9) [OF S(4)] by (metis size_mset)
  moreover have "sum_list (map length (e_waiting s)) \<le> sum_list (map (\<lambda>q. length (tl q)) (links (sub_mem g)))"
    unfolding sum_list_sum_nth using S(1,3) I(1,2) sub_rel_place(3) [OF sub I(1,2)] by (auto simp: e_waiting_def intro!: sum_mono)
  ultimately show ?thesis by (simp add: length_concat comp_def)
qed

lemma queue_size_elastic_seq:
  assumes inv: "equeue_inv (max_width cfg) s" and sub: "sub_rel (max_width cfg) g s" and len: "length (hist (nodes (sub_mem g))) < fuel" "length (hist (nodes (sub_mem g))) < W64"
  shows "wp (queue_size_elastic fuel cfg) (\<lambda>r h. r = length (concat (elastic_waiting g)) \<and> h = g) g"
proof -
  note I = equeue_invD [OF inv] and le = elastic_waiting_le_hist [OF inv sub]
  have n: "length (e_waiting s) = max_width cfg" using I(1,2) by (simp add: e_waiting_def)
  then have sum: "(\<Sum>j \<leftarrow> [0 ..< max_width cfg]. length (e_waiting s ! j)) = length (concat (e_waiting s))"
    by (simp add: length_concat sum_list_sum_nth interv_sum_list_conv_sum_set_nat)
  have "length (e_waiting s ! j) \<le> length (concat (e_waiting s))" if "j < max_width cfg" for j
    using that n member_le_sum_list [of "length (e_waiting s ! j)" "map length (e_waiting s)"] by (simp add: length_concat)
  then have "\<forall>j \<in> set [0 ..< max_width cfg]. j < max_width cfg \<and> length (e_waiting s ! j) < fuel" using le len(1) by fastforce
  from queue_size_loop_elastic_seq [OF inv sub this, of 0] show ?thesis
    using le len(2) sum by (simp add: queue_size_elastic_def elastic_waiting_rel [OF inv sub])
qed

text \<open>What an enqueue and a dequeue, each with at most one move of its window, do to the pool.\<close>

lemma pool_enq:
  assumes inv: "equeue_inv n s" "sub_rel n g s" "equeue_inv n s'" "sub_rel n g' s'"
    and st: "s1 = s \<or> estep n s ShiftPut s1" "estep n s1 (EEnq p) s'"
  shows "p \<notin># pool g" "pool g' = add_mset p (pool g)" "hist (nodes (sub_mem g')) = p # hist (nodes (sub_mem g))"
proof -
  have inv1: "equeue_inv n s1" using st(1) inv(1) by (auto intro: estep_inv)
  have eq: "e_waiting s1 = e_waiting s" "e_hist s1 = e_hist s" using st(1) e_waiting_shift [of n s s1] by auto
  note W = e_waiting_enq [OF st(2) inv1, unfolded eq] and I = equeue_invD [OF inv(1)]
  have "p \<notin> set (e_hist s)" using st(2) eq(2) by (auto elim: estep.cases)
  moreover have "set (concat (e_waiting s)) \<subseteq> set (e_hist s)"
    using I(1,2) I(8) by (fastforce simp: e_waiting_def set_zip dest!: in_set_dropD)
  ultimately have "p \<notin> set (concat (e_waiting s))" by blast
  then show "p \<notin># pool g" "pool g' = add_mset p (pool g)" "hist (nodes (sub_mem g')) = p # hist (nodes (sub_mem g))"
    using W elastic_waiting_rel [OF inv(1,2)] elastic_waiting_rel [OF inv(3,4)] sub_relD(8) [OF inv(2)] sub_relD(8) [OF inv(4)] by simp_all
qed

lemma pool_deq:
  assumes inv: "equeue_inv n s" "sub_rel n g s" "equeue_inv n s'" "sub_rel n g' s'"
    and st: "s1 = s \<or> estep n s ShiftGet s1" "s' = s1 \<or> estep n s1 (EDeq p) s'"
  shows "hist (nodes (sub_mem g')) = hist (nodes (sub_mem g))" "s' = s1 \<Longrightarrow> pool g' = pool g" "estep n s1 (EDeq p) s' \<Longrightarrow> pool g = add_mset p (pool g')"
proof -
  have inv1: "equeue_inv n s1" using st(1) inv(1) by (auto intro: estep_inv)
  have eq: "e_waiting s1 = e_waiting s" "e_hist s1 = e_hist s" using st(1) e_waiting_shift [of n s s1] by auto
  note R = elastic_waiting_rel [OF inv(1,2)] elastic_waiting_rel [OF inv(3,4)] sub_relD(8) [OF inv(2)] sub_relD(8) [OF inv(4)]
  show "hist (nodes (sub_mem g')) = hist (nodes (sub_mem g))" using st(2) eq(2) e_waiting_deq [OF _ inv1, of p s'] R(3,4) by auto
  show "pool g' = pool g" if "s' = s1" using that eq(1) R(1,2) by simp
  show "pool g = add_mset p (pool g')" if "estep n s1 (EDeq p) s'" using e_waiting_deq [OF that inv1] eq(1) R(1,2) by simp
qed

section \<open>The empty queue\<close>

definition empty_equeue :: "nat \<Rightarrow> nat \<Rightarrow> nat \<Rightarrow> ptr equeue" where
  "empty_equeue n w d = \<lparr>e_items = replicate n [], e_gets = replicate n 0,
     e_wins = [\<lparr>ew_max = 0, ew_width = w, ew_depth = 0\<rparr>, \<lparr>ew_max = d, ew_width = w, ew_depth = d\<rparr>], e_get = 1, e_hist = []\<rparr>"

lemma empty_equeue_inv: "1 \<le> w \<Longrightarrow> w \<le> n \<Longrightarrow> 1 \<le> d \<Longrightarrow> equeue_inv n (empty_equeue n w d)"
  by (auto simp: equeue_inv_def empty_equeue_def wins_ok_def rows_ok_def time_ok_def rows_def)

lemma empty_sub_rel:
  assumes al: "alloc_fresh al" and m: "sub_mem g = add_sentinels al t junk n"
    and arr: "sub_get g = map (\<lambda>q. \<lparr>qd_node = hd q, qd_count = 0\<rparr>) (links (add_sentinels al t junk n))"
      "sub_put g = map (\<lambda>q. \<lparr>qd_node = hd q, qd_count = 0\<rparr>) (links (add_sentinels al t junk n))"
  shows "sub_rel n g (empty_equeue n w d)"
proof -
  let ?m = "add_sentinels al t junk n"
  note S = add_sentinels_ok [OF al, of t junk n]
  have l1: "length (links ?m ! i) = 1" if "i < n" for i using S(2,3) that by simp
  have "tl (links ?m ! i) = []" if "i < n" for i using l1 [OF that] by (cases "links ?m ! i") auto
  moreover have "zip (map hd (links ?m)) (replicate n 0) = map (\<lambda>q. (hd q, 0 :: nat)) (links ?m)"
    using S(2) by (intro nth_equalityI) auto
  ultimately show ?thesis using S by (simp add: sub_rel_def m arr empty_equeue_def comp_def last_row_def got_row_def)
qed

text \<open>The calls of the two queues.\<close>

datatype elastic_call = LEnq int int | LDeq | LSize | SetWidth nat | SetDepth nat | GetWidth | GetDepth

end
