(* ===== verification/Elastic_Law.thy ===== *)
theory Elastic_Law
  imports Elastic_Parts
begin

text \<open>
  The elastic 2Dd queue of \<^verbatim>\<open>src/2Dd-queue_elastic-law\<close>: width and depth may be changed while the queue is in use
  (\<^verbatim>\<open>update_width\<close>, \<^verbatim>\<open>update_depth\<close>), and every window keeps its own. The windows are the nodes of a lateral queue
  (\<^verbatim>\<open>lateral_queue.c\<close>), a Michael-Scott list: its tail is the put window, the node behind its head is the get window.
  \<^verbatim>\<open>2Dd-window_elastic.c\<close> has \<^verbatim>\<open>put_window\<close> and \<^verbatim>\<open>get_window\<close>, \<^verbatim>\<open>2Dd-queue_elastic.c\<close> the operations.
  A field of a lateral node except \<^verbatim>\<open>next\<close> is never changed; \<open>lat_info\<close> reads them. What does not depend on the windows is in \<open>Elastic_Parts\<close>.
\<close>

section \<open>State\<close>

record lateral_node =
  ln_next :: ptr
  ln_max :: u64
  ln_width :: nat
  ln_depth :: nat

text \<open>\<open>lat_used\<close> is for the allocator: the addresses of lateral nodes in use.\<close>

record law = elastic +
  lat_heap :: "ptr \<Rightarrow> lateral_node option"
  lat_used :: "ptr list"
  lat_tail :: ptr
  lat_head :: ptr

record law_tl = elastic_tl +
  thread_put_window :: ptr
  thread_get_window :: ptr
  thread_lhead_pointer :: ptr
  thread_ltail_pointer :: ptr

section \<open>The lateral queue\<close>

definition lat_info :: "ptr \<Rightarrow> (law, lateral_node) prog" where
  "lat_info p = rd_opt (\<lambda>g. lat_heap g p)"

definition lat_next :: "ptr \<Rightarrow> (law, ptr) prog" where
  "lat_next p = rd_opt (\<lambda>g. map_option ln_next (lat_heap g p))"

definition create_lateral_node :: "allocator \<Rightarrow> nat \<Rightarrow> u64 \<Rightarrow> nat \<Rightarrow> nat \<Rightarrow> (law, ptr) prog" where
  "create_lateral_node al t mx w d =
     Act (\<lambda>g. let p = al t (lat_used g)
              in g\<lparr>lat_heap := (lat_heap g)(p \<mapsto> \<lparr>ln_next = NULL, ln_max = mx, ln_width = w, ln_depth = d\<rparr>), lat_used := p # lat_used g\<rparr>)
         (\<lambda>g. Ret (al t (lat_used g)))"

definition cae_lat_next :: "ptr \<Rightarrow> ptr \<Rightarrow> (law, unit) prog" where
  "cae_lat_next p node =
     Act (\<lambda>g. case lat_heap g p of None \<Rightarrow> g
              | Some nd \<Rightarrow> if ln_next nd = NULL then g\<lparr>lat_heap := (lat_heap g)(p \<mapsto> nd\<lparr>ln_next := node\<rparr>)\<rparr> else g)
         (\<lambda>g. if lat_heap g p = None then Fault else Ret ())"

definition cae_lat_tail :: "ptr \<Rightarrow> ptr \<Rightarrow> (law, unit) prog" where
  "cae_lat_tail old new = Act (\<lambda>g. if lat_tail g = old then g\<lparr>lat_tail := new\<rparr> else g) (\<lambda>g. Ret ())"

definition cae_lat_head :: "ptr \<Rightarrow> ptr \<Rightarrow> (law, unit) prog" where
  "cae_lat_head old new = Act (\<lambda>g. if lat_head g = old then g\<lparr>lat_head := new\<rparr> else g) (\<lambda>g. Ret ())"

definition shift_put :: "allocator \<Rightarrow> nat \<Rightarrow> ptr \<Rightarrow> u64 \<Rightarrow> nat \<Rightarrow> nat \<Rightarrow> (law, unit) prog" where
  "shift_put al t tail_pointer mx d w =
     pbind (rd lat_tail) (\<lambda>tl.
     if tl = tail_pointer then
       pbind (lat_next tail_pointer) (\<lambda>nxt.
       pbind (if nxt = NULL
              then pbind (create_lateral_node al t mx w d) (\<lambda>node. cae_lat_next tail_pointer node)
              else Ret ()) (\<lambda>_.
       pbind (lat_next tail_pointer) (\<lambda>nxt. cae_lat_tail tail_pointer nxt)))
     else Ret ())"

definition shift_get :: "ptr \<Rightarrow> (law, unit) prog" where
  "shift_get head_pointer =
     pbind (lat_next head_pointer) (\<lambda>nxt.
     pbind (assert (nxt \<noteq> NULL)) (\<lambda>_.
     pbind (lat_next head_pointer) (\<lambda>nxt. cae_lat_head head_pointer nxt)))"

text \<open>\<^verbatim>\<open>create_lateral_queue\<close>: an empty window below the first row, and the first window.\<close>

definition create_lateral_queue :: "allocator \<Rightarrow> nat \<Rightarrow> nat \<Rightarrow> nat \<Rightarrow> (ptr \<Rightarrow> lateral_node option) \<times> ptr list \<times> ptr \<times> ptr" where
  "create_lateral_queue al t d w =
     (let p = al t []; q = al t [p]
      in ((\<lambda>a. None)(p \<mapsto> \<lparr>ln_next = q, ln_max = 0, ln_width = w, ln_depth = 0\<rparr>,
                     q \<mapsto> \<lparr>ln_next = NULL, ln_max = d, ln_width = w, ln_depth = d\<rparr>),
          [q, p], q, p))"

section \<open>The windows\<close>

text \<open>Both loops set an index that a narrower window does not have to 0.\<close>

definition to_put_window :: "ptr \<Rightarrow> law_tl \<Rightarrow> (law, law_tl) prog" where
  "to_put_window p l =
     (let l = l\<lparr>thread_put_window := p, thread_ltail_pointer := p\<rparr>
      in pbind (lat_info p) (\<lambda>w. Ret (if thread_put_index l \<ge> ln_width w then l\<lparr>thread_put_index := 0\<rparr> else l)))"

definition to_get_window :: "ptr \<Rightarrow> ptr \<Rightarrow> law_tl \<Rightarrow> (law, law_tl) prog" where
  "to_get_window lhead p l =
     (let l = l\<lparr>thread_get_window := p, thread_lhead_pointer := lhead\<rparr>
      in pbind (lat_info p) (\<lambda>w. Ret (if thread_get_index l \<ge> ln_width w then l\<lparr>thread_get_index := 0\<rparr> else l)))"

fun put_window_loop_law :: "nat \<Rightarrow> allocator \<Rightarrow> elastic_cfg \<Rightarrow> nat \<Rightarrow> law_tl \<Rightarrow> nat \<Rightarrow> nat \<Rightarrow> (law, qdescriptor2Dd \<times> law_tl) prog" where
  "put_window_loop_law 0 al cfg t l hops random = NoFuel"
| "put_window_loop_law (Suc n) al cfg t l hops random =
     pbind (load_desc_elastic sub_put (thread_put_index l)) (\<lambda>descriptor.
     pbind (rd lat_tail) (\<lambda>ltail.
     if ltail \<noteq> thread_ltail_pointer l then
       pbind (to_put_window ltail l) (\<lambda>l. put_window_loop_law n al cfg t l 0 random)
     else
       pbind (lat_info (thread_put_window l)) (\<lambda>w.
       if qd_count descriptor < ln_max w then
         pbind (assert (thread_put_index l < ln_width w)) (\<lambda>_.
         if thread_get_window l \<noteq> NULL then
           pbind (lat_info (thread_get_window l)) (\<lambda>gw.
           Ret (descriptor, if ln_width gw = ln_width w then l\<lparr>thread_get_index := thread_put_index l\<rparr> else l))
         else Ret (descriptor, l))
       else if hops < ln_width w then
         pbind (hop_elastic cfg l (thread_put_index l) random hops (ln_width w)) (\<lambda>(index, random, hops, l).
         put_window_loop_law n al cfg t (l\<lparr>thread_put_index := index\<rparr>) hops random)
       else
         pbind (rd lat_tail) (\<lambda>ltail.
         pbind (if thread_ltail_pointer l = ltail then
                  pbind (rd cur_depth) (\<lambda>d.
                  pbind (rd cur_width) (\<lambda>sw.
                  shift_put al t (thread_ltail_pointer l) (add64 (ln_max w) d) d sw))
                else Ret ()) (\<lambda>_.
         pbind (rd lat_tail) (\<lambda>ltail.
         pbind (to_put_window ltail l) (\<lambda>l. put_window_loop_law n al cfg t l 0 random)))))))"

definition put_window_law :: "nat \<Rightarrow> allocator \<Rightarrow> elastic_cfg \<Rightarrow> nat \<Rightarrow> law_tl \<Rightarrow> bool \<Rightarrow> (law, qdescriptor2Dd \<times> law_tl) prog" where
  "put_window_law fuel al cfg t l contention =
     pbind (rd lat_tail) (\<lambda>ltail.
     let l = l\<lparr>thread_put_window := ltail, thread_ltail_pointer := ltail\<rparr>
     in pbind (lat_info ltail) (\<lambda>w.
        pbind (if contention \<or> thread_put_index l \<ge> ln_width w
               then pbind (random_mod (ln_width w) l) (\<lambda>(i, l). Ret (l\<lparr>thread_put_index := i\<rparr>))
               else Ret l) (\<lambda>l.
        put_window_loop_law fuel al cfg t l 0 0)))"

text \<open>The end of \<^verbatim>\<open>get_window\<close>, reached by every \<^verbatim>\<open>break\<close>.\<close>

definition get_window_exit :: "qdescriptor2Dd \<Rightarrow> law_tl \<Rightarrow> (law, qdescriptor2Dd \<times> law_tl) prog" where
  "get_window_exit descriptor l =
     (if thread_put_window l \<noteq> NULL then
        pbind (lat_info (thread_get_window l)) (\<lambda>gw.
        pbind (lat_info (thread_put_window l)) (\<lambda>pw.
        Ret (descriptor, if ln_width gw = ln_width pw then l\<lparr>thread_put_index := thread_get_index l\<rparr> else l)))
      else Ret (descriptor, l))"

fun get_window_loop_law :: "nat \<Rightarrow> elastic_cfg \<Rightarrow> law_tl \<Rightarrow> nat \<Rightarrow> nat \<Rightarrow> (law, qdescriptor2Dd \<times> law_tl) prog" where
  "get_window_loop_law 0 cfg l hops random = NoFuel"
| "get_window_loop_law (Suc n) cfg l hops random =
     pbind (load_desc_elastic sub_get (thread_get_index l)) (\<lambda>descriptor.
     pbind (lat_info (thread_put_window l)) (\<lambda>pw.
     pbind (lat_info (thread_get_window l)) (\<lambda>gw.
     pbind (if ln_max pw > ln_max gw then Ret (sub64 (ln_max pw) (ln_depth pw)) else load_count_elastic (thread_get_index l)) (\<lambda>put_count.
     pbind (rd lat_head) (\<lambda>lhead.
     if lhead \<noteq> thread_lhead_pointer l then
       pbind (lat_next lhead) (\<lambda>nxt.
       if nxt = NULL then get_window_exit descriptor l
       else
         pbind (lat_next lhead) (\<lambda>nxt.
         pbind (to_get_window lhead nxt l) (\<lambda>l. get_window_loop_law n cfg l hops random)))
     else if qd_count descriptor < ln_max gw \<and> qd_count descriptor < put_count then
       get_window_exit descriptor l
     else if hops \<noteq> ln_width gw then
       pbind (hop_elastic cfg l (thread_get_index l) random hops (ln_width gw)) (\<lambda>(index, random, hops, l).
       get_window_loop_law n cfg (l\<lparr>thread_get_index := index\<rparr>) hops random)
     else
       pbind (rd lat_tail) (\<lambda>ltail.
       if thread_get_window l \<noteq> ltail then
         pbind (lat_next (thread_get_window l)) (\<lambda>nxt.
         pbind (assert (nxt \<noteq> NULL)) (\<lambda>_.
         pbind (shift_get (thread_lhead_pointer l)) (\<lambda>_.
         pbind (rd lat_head) (\<lambda>lhead.
         pbind (lat_next lhead) (\<lambda>nxt.
         pbind (assert (nxt \<noteq> NULL)) (\<lambda>_.
         pbind (to_get_window lhead nxt l) (\<lambda>l. get_window_loop_law n cfg l 0 random)))))))
       else get_window_exit descriptor l))))))"

definition get_window_law :: "nat \<Rightarrow> elastic_cfg \<Rightarrow> law_tl \<Rightarrow> bool \<Rightarrow> (law, qdescriptor2Dd \<times> law_tl) prog" where
  "get_window_law fuel cfg l contention =
     pbind (if contention then
              pbind (lat_info (thread_get_window l)) (\<lambda>gw.
              pbind (random_mod (ln_width gw) l) (\<lambda>(i, l). Ret (l\<lparr>thread_get_index := i\<rparr>)))
            else Ret l) (\<lambda>l.
     pbind (rd lat_head) (\<lambda>lhead.
     pbind (if lhead \<noteq> thread_lhead_pointer l then
              pbind (lat_next lhead) (\<lambda>nxt.
              if nxt \<noteq> NULL then pbind (lat_next lhead) (\<lambda>nxt. to_get_window lhead nxt l) else Ret l)
            else Ret l) (\<lambda>l.
     get_window_loop_law fuel cfg l 0 0)))"

definition init_thread_windows :: "law_tl \<Rightarrow> (law, law_tl) prog" where
  "init_thread_windows l =
     pbind (rd lat_head) (\<lambda>lhead.
     pbind (rd lat_tail) (\<lambda>ltail.
     pbind (lat_next lhead) (\<lambda>nxt.
     Ret (l\<lparr>thread_lhead_pointer := lhead, thread_ltail_pointer := ltail, thread_get_window := nxt, thread_put_window := ltail\<rparr>))))"

section \<open>The queue\<close>

text \<open>The row of the next item above row \<open>c\<close> in a window: the first of the window if \<open>c\<close> is below it.\<close>

definition row_above :: "u64 \<Rightarrow> lateral_node \<Rightarrow> u64" where
  "row_above c w =
     (let low = sub64 (ln_max w) (ln_depth w) in if c \<ge> low then add64 c 1 else add64 low 1)"

fun enqueue_loop_law :: "nat \<Rightarrow> nat \<Rightarrow> allocator \<Rightarrow> elastic_cfg \<Rightarrow> nat \<Rightarrow> ptr \<Rightarrow> law_tl \<Rightarrow> bool \<Rightarrow> (law, int \<times> law_tl) prog" where
  "enqueue_loop_law 0 fuel al cfg t new_node l contention = NoFuel"
| "enqueue_loop_law (Suc n) fuel al cfg t new_node l contention =
     pbind (put_window_law fuel al cfg t l contention) (\<lambda>(descriptor, l).
     pbind (assert (qd_node descriptor \<noteq> NULL)) (\<lambda>_.
     pbind (lat_info (thread_put_window l)) (\<lambda>w.
     pbind (assert (qd_count descriptor < ln_max w)) (\<lambda>_.
     let tail = qd_node descriptor;
         new_count = row_above (qd_count descriptor) w;
         fail_l = l\<lparr>my_put_cas_fail_count := add64 (my_put_cas_fail_count l) 1\<rparr>
     in pbind (load_count_elastic (thread_put_index l)) (\<lambda>count.
        if count \<ge> ln_max w then enqueue_loop_law n fuel al cfg t new_node l contention
        else
          pbind (assert (new_node \<noteq> NULL)) (\<lambda>_.
          pbind (load_next_elastic tail) (\<lambda>nxt.
          if nxt = NULL then
            pbind (enq_cae_elastic (thread_put_index l) tail new_node) (\<lambda>success.
            if success then
              pbind (assert (thread_put_index l \<le> ln_width w)) (\<lambda>_.
              pbind (put_cae_elastic (thread_put_index l) descriptor \<lparr>qd_node = new_node, qd_count = new_count\<rparr>) (\<lambda>_. Ret (1, l)))
            else enqueue_loop_law n fuel al cfg t new_node fail_l True)
          else
            pbind (load_next_elastic tail) (\<lambda>nxt.
            pbind (put_cae_elastic (thread_put_index l) descriptor \<lparr>qd_node = nxt, qd_count = new_count\<rparr>) (\<lambda>success.
            if \<not> success then enqueue_loop_law n fuel al cfg t new_node fail_l True
            else
              pbind (assert (new_count \<le> ln_max w)) (\<lambda>_.
              enqueue_loop_law n fuel al cfg t new_node fail_l contention))))))))))"

definition enqueue_law :: "allocator \<Rightarrow> nat \<Rightarrow> elastic_cfg \<Rightarrow> nat \<Rightarrow> int \<Rightarrow> int \<Rightarrow> law_tl \<Rightarrow> (law, int \<times> law_tl) prog" where
  "enqueue_law al fuel cfg t key val l =
     pbind (create_node_elastic al t key val NULL) (\<lambda>new_node. enqueue_loop_law fuel fuel al cfg t new_node l False)"

text \<open>The part of \<^verbatim>\<open>dequeue\<close> at the label \<^verbatim>\<open>safe_deq\<close>.\<close>

definition safe_deq :: "nat \<Rightarrow> qdescriptor2Dd \<Rightarrow> law_tl \<Rightarrow> (law_tl \<Rightarrow> (law, int \<times> law_tl) prog) \<Rightarrow> (law, int \<times> law_tl) prog" where
  "safe_deq t deq_descriptor l retry =
     (let head = qd_node deq_descriptor
      in pbind (load_next_elastic head) (\<lambda>nxt.
         pbind (lat_info (thread_get_window l)) (\<lambda>gw.
         let count = add64 (qd_count deq_descriptor) 1;
             mn = add64 (sub64 (ln_max gw) (ln_depth gw)) 1;
             new_count = (if count < mn then mn else count)
         in pbind (deq_cae_elastic (thread_get_index l) deq_descriptor \<lparr>qd_node = nxt, qd_count = new_count\<rparr> (qm_take t head nxt)) (\<lambda>success.
            if success then
              pbind (free_node_elastic t head) (\<lambda>_.
              pbind (load_val_elastic nxt) (\<lambda>val. Ret (val, l)))
            else retry (l\<lparr>my_get_cas_fail_count := add64 (my_get_cas_fail_count l) 1\<rparr>)))))"

fun dequeue_loop_law :: "nat \<Rightarrow> nat \<Rightarrow> elastic_cfg \<Rightarrow> nat \<Rightarrow> law_tl \<Rightarrow> bool \<Rightarrow> (law, int \<times> law_tl) prog" where
  "dequeue_loop_law 0 fuel cfg t l contention = NoFuel"
| "dequeue_loop_law (Suc n) fuel cfg t l contention =
     pbind (get_window_law fuel cfg l contention) (\<lambda>(deq_descriptor, l).
     pbind (lat_info (thread_put_window l)) (\<lambda>pw.
     pbind (lat_info (thread_get_window l)) (\<lambda>gw.
     let head = qd_node deq_descriptor;
         again = (\<lambda>l. dequeue_loop_law n fuel cfg t l True)
     in if ln_max pw > ln_max gw then safe_deq t deq_descriptor l again
        else
          pbind (load_desc_elastic sub_put (thread_get_index l)) (\<lambda>enq_descriptor.
          let tail = qd_node enq_descriptor
          in if head = tail then
               pbind (load_next_elastic head) (\<lambda>nxt.
               if nxt = NULL then Ret (0, l\<lparr>my_null_count := add64 (my_null_count l) 1\<rparr>)
               else
                 pbind (load_next_elastic tail) (\<lambda>nxt.
                 pbind (rd lat_tail) (\<lambda>ltail.
                 pbind (lat_info ltail) (\<lambda>tw.
                 pbind (put_cae_elastic (thread_get_index l) enq_descriptor
                          \<lparr>qd_node = nxt, qd_count = row_above (qd_count enq_descriptor) tw\<rparr>) (\<lambda>success.
                 dequeue_loop_law n fuel cfg t l (contention \<or> \<not> success))))))
             else safe_deq t deq_descriptor l again))))"

definition dequeue_law :: "nat \<Rightarrow> elastic_cfg \<Rightarrow> nat \<Rightarrow> law_tl \<Rightarrow> (law, int \<times> law_tl) prog" where
  "dequeue_law fuel cfg t l =
     pbind (rd lat_tail) (\<lambda>ltail.
     dequeue_loop_law fuel fuel cfg t (l\<lparr>thread_put_window := ltail, thread_ltail_pointer := ltail\<rparr>) False)"

definition get_put_width_law :: "law_tl \<Rightarrow> (law, nat) prog" where
  "get_put_width_law l = pbind (lat_info (thread_put_window l)) (\<lambda>w. Ret (ln_width w))"

definition get_get_width_law :: "law_tl \<Rightarrow> (law, nat) prog" where
  "get_get_width_law l = pbind (lat_info (thread_get_window l)) (\<lambda>w. Ret (ln_width w))"

definition create_queue_law ::
  "allocator \<Rightarrow> nat \<Rightarrow> mnode \<Rightarrow> u64 \<Rightarrow> nat \<Rightarrow> nat \<Rightarrow> nat \<Rightarrow> nat \<Rightarrow> u64 \<Rightarrow> (elastic_cfg \<times> law) option" where
  "create_queue_law al t junk num_threads w d mw mode bound =
     (case calc_params 1 keep16 keep16 (bound16 1) mode num_threads w d bound of
        None \<Rightarrow> None
      | Some (w, d, bound) \<Rightarrow>
          let mw = (if mw < w then w else mw);
              m = add_sentinels al t junk mw;
              arr = map (\<lambda>q. \<lparr>qd_node = hd q, qd_count = 0\<rparr>) (links m);
              (h, used, tail, head) = create_lateral_queue al t d w
          in Some (\<lparr>elastic_hops = 2, max_width = mw, elastic_bound = bound, elastic_mode = mode\<rparr>,
                   \<lparr>sub_get = arr, sub_put = arr, cur_depth = d, cur_width = w, sub_mem = m,
                    lat_heap = h, lat_used = used, lat_tail = tail, lat_head = head\<rparr>))"

lemmas law_unfold [prog_unfold] =
  lat_info_def lat_next_def create_lateral_node_def cae_lat_next_def cae_lat_tail_def cae_lat_head_def shift_put_def shift_get_def
  to_put_window_def to_get_window_def put_window_law_def get_window_exit_def
  get_window_law_def init_thread_windows_def
  row_above_def enqueue_law_def safe_deq_def dequeue_law_def
  put_window_loop_law.simps(2) [of "pred_numeral k" for k, folded numeral_eq_Suc]
  get_window_loop_law.simps(2) [of "pred_numeral k" for k, folded numeral_eq_Suc]
  enqueue_loop_law.simps(2) [of "pred_numeral k" for k, folded numeral_eq_Suc]
  dequeue_loop_law.simps(2) [of "pred_numeral k" for k, folded numeral_eq_Suc]

end
