(* ===== verification/Elastic_Law_Seq.thy ===== *)
theory Elastic_Law_Seq
  imports Elastic_Law
begin

text \<open>
  The elastic queue, for calls that do not overlap: it refines the abstract elastic queue of
  \<open>Elastic_Queue\<close>. The relation \<open>law_rel\<close> says that the lateral list has the windows of the abstract queue, and that the
  descriptors have the rows of its items. \<^verbatim>\<open>put_window\<close> and \<^verbatim>\<open>get_window\<close> move a window at most once per call,
  and \<^verbatim>\<open>enqueue\<close> and \<^verbatim>\<open>dequeue\<close> then make the abstract step.
\<close>

section \<open>The relation\<close>

definition lat_of :: "ewin list \<Rightarrow> ptr list \<Rightarrow> nat \<Rightarrow> lateral_node" where
  "lat_of W ws k = \<lparr>ln_next = (if k + 1 < length ws then ws ! (k + 1) else NULL),
     ln_max = ew_max (W ! k), ln_width = ew_width (W ! k), ln_depth = ew_depth (W ! k)\<rparr>"

definition lat_rel :: "law \<Rightarrow> ptr equeue \<Rightarrow> ptr list \<Rightarrow> bool" where
  "lat_rel g s ws \<longleftrightarrow> length ws = length (e_wins s) \<and> distinct ws \<and> NULL \<notin> set ws \<and> set ws \<subseteq> set (lat_used g) \<and>
     lat_tail g = last ws \<and> lat_head g = ws ! (e_get s - 1) \<and>
     (\<forall>k < length ws. lat_heap g (ws ! k) = Some (lat_of (e_wins s) ws k))"

definition law_rel :: "elastic_cfg \<Rightarrow> law \<Rightarrow> ptr equeue \<Rightarrow> ptr list \<Rightarrow> bool" where
  "law_rel cfg g s ws \<longleftrightarrow> equeue_inv (max_width cfg) s \<and> lat_rel g s ws \<and> sub_rel (max_width cfg) g s \<and> elastic_cfg_ok cfg g"

text \<open>What a thread remembers: nothing yet, or a window that was the get window at some time.\<close>

definition tl_ok :: "ptr equeue \<Rightarrow> ptr list \<Rightarrow> law_tl \<Rightarrow> bool" where
  "tl_ok s ws l \<longleftrightarrow> thread_lhead_pointer l = NULL \<and> thread_get_window l = NULL \<or>
     (\<exists>k. k + 1 < length ws \<and> thread_lhead_pointer l = ws ! k \<and> thread_get_window l = ws ! (k + 1) \<and>
        thread_get_index l < ew_width (e_wins s ! (k + 1)))"

definition elastic_fuel :: "elastic_cfg \<Rightarrow> nat" where
  "elastic_fuel cfg = elastic_hops cfg + 2 * max_width cfg + 4"

lemma law_relD:
  assumes "law_rel cfg g s ws"
  shows "equeue_inv (max_width cfg) s" "lat_rel g s ws" "sub_rel (max_width cfg) g s" "elastic_cfg_ok cfg g"
  using assms by (simp_all add: law_rel_def)

lemma lat_relD:
  assumes "lat_rel g s ws"
  shows "length ws = length (e_wins s)" "distinct ws" "NULL \<notin> set ws" "set ws \<subseteq> set (lat_used g)" "lat_tail g = last ws"
    "lat_head g = ws ! (e_get s - 1)" "k < length (e_wins s) \<Longrightarrow> lat_heap g (ws ! k) = Some (lat_of (e_wins s) ws k)"
  using assms by (auto simp: lat_rel_def)

lemma lat_of_simps [simp]:
  "ln_max (lat_of W ws k) = ew_max (W ! k)" "ln_width (lat_of W ws k) = ew_width (W ! k)" "ln_depth (lat_of W ws k) = ew_depth (W ! k)"
  by (simp_all add: lat_of_def)

text \<open>The put window is the last node of the lateral list.\<close>

lemma put_node:
  assumes "law_rel cfg g s ws"
  shows "last ws = ws ! (length (e_wins s) - 1)" "lat_heap g (last ws) = Some (lat_of (e_wins s) ws (length (e_wins s) - 1))"
    "last ws \<noteq> NULL" "e_wins s ! (length (e_wins s) - 1) = put_win s" "0 < length ws" "1 < length (e_wins s)"
proof -
  note L = lat_relD [OF law_relD(2) [OF assms]] and P = put_win_row [OF law_relD(1) [OF assms]]
  have n: "2 \<le> length (e_wins s)" using equeue_invD(3) [OF law_relD(1) [OF assms]] by (simp add: wins_ok_def)
  then have ne: "ws \<noteq> []" using L(1) by auto
  show e: "last ws = ws ! (length (e_wins s) - 1)" using ne L(1) by (simp add: last_conv_nth)
  show "lat_heap g (last ws) = Some (lat_of (e_wins s) ws (length (e_wins s) - 1))" unfolding e using n by (intro L(7)) simp
  show "last ws \<noteq> NULL" using ne L(3) by (metis last_in_set)
  show "e_wins s ! (length (e_wins s) - 1) = put_win s" "0 < length ws" "1 < length (e_wins s)" using P(1) ne n by simp_all
qed

lemma wp_lat:
  "lat_heap g p = Some nd \<Longrightarrow> wp (lat_info p) Q g = Q nd g"
  "lat_heap g p = Some nd \<Longrightarrow> wp (lat_next p) R g = R (ln_next nd) g"
  by (simp_all add: lat_info_def lat_next_def)

lemma wp_to_windows:
  "lat_heap g p = Some nd \<Longrightarrow> wp (to_put_window p l) Q g =
     Q (if thread_put_index l \<ge> ln_width nd then l\<lparr>thread_put_window := p, thread_ltail_pointer := p, thread_put_index := 0\<rparr>
        else l\<lparr>thread_put_window := p, thread_ltail_pointer := p\<rparr>) g"
  "lat_heap g q = Some nd \<Longrightarrow> wp (to_get_window p q l) Q g =
     Q (if thread_get_index l \<ge> ln_width nd then l\<lparr>thread_get_window := q, thread_lhead_pointer := p, thread_get_index := 0\<rparr>
        else l\<lparr>thread_get_window := q, thread_lhead_pointer := p\<rparr>) g"
  by (simp_all add: to_put_window_def to_get_window_def wp_lat Let_def)

section \<open>The put window\<close>

definition put_post_law :: "elastic_cfg \<Rightarrow> law \<Rightarrow> ptr equeue \<Rightarrow> ptr list \<Rightarrow> qdescriptor2Dd \<times> law_tl \<Rightarrow> law \<Rightarrow> bool" where
  "put_post_law cfg g s ws = (\<lambda>(d, l') g'. \<exists>s' ws'. law_rel cfg g' s' ws' \<and> same_items g g' \<and> tl_ok s' ws' l' \<and>
     (s' = s \<or> estep (max_width cfg) s ShiftPut s') \<and> e_items s' = e_items s \<and> e_get s' = e_get s \<and>
     ew_max (put_win s') \<le> ew_max (put_win s) + cur_depth g \<and>
     (\<forall>k. tl_ok s ws k \<longrightarrow> tl_ok s' ws' k) \<and> e_hist s' = e_hist s \<and> e_gets s' = e_gets s \<and>
     thread_put_window l' = last ws' \<and> thread_put_index l' < ew_width (put_win s') \<and>
     d = sub_put g ! thread_put_index l' \<and> last_row s (thread_put_index l') < ew_max (put_win s'))"

text \<open>Opening a window.\<close>

lemma shift_put_rel:
  assumes rel: "law_rel cfg g s ws" and al: "alloc_fresh al"
    and full: "\<forall>j < ew_width (put_win s). ew_max (put_win s) \<le> last_row s j"
  shows "wp (shift_put al t (last ws) (ew_max (put_win s) + cur_depth g) (cur_depth g) (cur_width g))
    (\<lambda>_ g'. \<exists>s' p. estep (max_width cfg) s ShiftPut s' \<and> law_rel cfg g' s' (ws @ [p]) \<and> same_items g g' \<and> e_items s' = e_items s \<and>
       e_get s' = e_get s \<and> e_wins s' = e_wins s @ [\<lparr>ew_max = ew_max (put_win s) + cur_depth g, ew_width = cur_width g, ew_depth = cur_depth g\<rparr>] \<and>
       e_hist s' = e_hist s \<and> e_gets s' = e_gets s) g"
proof -
  let ?p = "al t (lat_used g)" and ?W = "\<lparr>ew_max = ew_max (put_win s) + cur_depth g, ew_width = cur_width g, ew_depth = cur_depth g\<rparr>"
  let ?s = "s\<lparr>e_wins := e_wins s @ [?W]\<rparr>"
  let ?L = "length (e_wins s)"
  note P = put_node [OF rel] and L = lat_relD [OF law_relD(2) [OF rel]] and C = law_relD(4) [OF rel]
  let ?nd = "lat_of (e_wins s) ws (?L - 1)"
  have p: "?p \<noteq> NULL" "?p \<notin> set (lat_used g)" using al by (auto simp: alloc_fresh_def)
  then have pw: "?p \<notin> set ws" "?p \<noteq> last ws" using L(4) P(5) by (auto dest: last_in_set)
  have nx: "ln_next ?nd = NULL" using L(1) P(6) by (simp add: lat_of_def)
  let ?new = "\<lparr>ln_next = NULL, ln_max = ew_max (put_win s) + cur_depth g, ln_width = cur_width g, ln_depth = cur_depth g\<rparr>"
  let ?g = "g\<lparr>lat_used := ?p # lat_used g, lat_heap := (lat_heap g)(?p \<mapsto> ?new, last ws \<mapsto> ?nd\<lparr>ln_next := ?p\<rparr>), lat_tail := ?p\<rparr>"
  have st: "estep (max_width cfg) s ShiftPut ?s"
    by (rule e_shift_put [OF full]) (use C in \<open>auto simp: elastic_cfg_ok_def\<close>)
  have "lat_heap ?g ((ws @ [?p]) ! k) = Some (lat_of (e_wins ?s) (ws @ [?p]) k)" if k: "k < length (ws @ [?p])" for k
  proof -
    consider "k = ?L" | "k = ?L - 1" "k < ?L" | "k + 1 < ?L" using k L(1) by fastforce
    then show ?thesis
    proof cases
      case 1
      then show ?thesis using L(1) pw by (simp add: lat_of_def nth_append)
    next
      case 2
      have "k + 1 = length ws" using 2 P(6) L(1) by simp
      then show ?thesis using 2 L(1) P(1) by (auto simp: lat_of_def nth_append)
    next
      case 3
      have "ws ! k \<in> set ws" using 3 L(1) by simp
      then have "ws ! k \<noteq> ?p" using pw(1) by metis
      moreover have "ws ! k \<noteq> last ws" using 3 L(1,2) P(1) by (simp add: nth_eq_iff_index_eq)
      ultimately have ne: "ws ! k \<noteq> last ws" "ws ! k \<noteq> ?p" by simp_all
      then show ?thesis using 3 L(1) L(7) [of k] by (auto simp: lat_of_def nth_append)
    qed
  qed
  then have "lat_rel ?g ?s (ws @ [?p])"
    using L pw p equeue_invD(4,5) [OF law_relD(1) [OF rel]] by (auto simp: lat_rel_def nth_append)
  moreover have "sub_rel (max_width cfg) ?g ?s" using law_relD(3) [OF rel] by (simp add: sub_rel_def last_row_def got_row_def rows_def)
  ultimately have "law_rel cfg ?g ?s (ws @ [?p])"
    using estep_inv [OF st law_relD(1) [OF rel]] C by (simp add: law_rel_def elastic_cfg_ok_def)
  then have post: "\<exists>s' p. estep (max_width cfg) s ShiftPut s' \<and> law_rel cfg ?g s' (ws @ [p]) \<and> same_items g ?g \<and> e_items s' = e_items s \<and>
      e_get s' = e_get s \<and> e_wins s' = e_wins s @ [?W] \<and> e_hist s' = e_hist s \<and> e_gets s' = e_gets s"
    using st by (intro exI [of _ ?s] exI [of _ ?p]) (simp add: same_items_def)
  show ?thesis using P(2) L(5) nx pw(2) post
    by (simp add: shift_put_def wp_lat create_lateral_node_def cae_lat_next_def cae_lat_tail_def lat_next_def Let_def)
qed

lemma tl_ok_mono:
  assumes "tl_ok s ws l" "e_wins s' = e_wins s @ xs" "length ws = length (e_wins s)"
  shows "tl_ok s' (ws @ ys) l"
  using assms by (auto simp: tl_ok_def nth_append)

lemma tl_ok_put [simp]:
  "tl_ok s ws (l\<lparr>thread_put_window := p\<rparr>) = tl_ok s ws l" "tl_ok s ws (l\<lparr>thread_ltail_pointer := p\<rparr>) = tl_ok s ws l"
  "tl_ok s ws (l\<lparr>thread_put_index := i\<rparr>) = tl_ok s ws l" "tl_ok s ws (l\<lparr>my_hop_count := c\<rparr>) = tl_ok s ws l"
  "tl_ok s ws (l\<lparr>seeds := sd\<rparr>) = tl_ok s ws l" "tl_ok s ws (l\<lparr>my_null_count := c\<rparr>) = tl_ok s ws l"
  by (simp_all add: tl_ok_def)

text \<open>A hit: the sub-queue has room in the put window.\<close>

lemma put_loop_hit_law:
  assumes rel: "law_rel cfg g s ws" and l: "thread_ltail_pointer l = last ws" "thread_put_window l = last ws" "tl_ok s ws l"
    and i: "thread_put_index l < ew_width (put_win s)" "last_row s (thread_put_index l) < ew_max (put_win s)"
    and Q: "\<And>l'. tl_ok s ws l' \<Longrightarrow> thread_put_window l' = last ws \<Longrightarrow> thread_put_index l' = thread_put_index l \<Longrightarrow>
      Q (sub_put g ! thread_put_index l, l') g"
  shows "wp (put_window_loop_law (Suc n) al cfg t l hops random) Q g"
proof -
  note P = put_node [OF rel] and L = lat_relD [OF law_relD(2) [OF rel]] and S = sub_relD [OF law_relD(3) [OF rel]]
  have n: "thread_put_index l < max_width cfg" using i(1) put_win_row(3) [OF law_relD(1) [OF rel]] by simp
  have here: "wp (put_window_loop_law (Suc n) al cfg t l hops random) Q g \<longleftrightarrow>
    wp (if thread_get_window l \<noteq> NULL then
           pbind (lat_info (thread_get_window l)) (\<lambda>gw.
           Ret (sub_put g ! thread_put_index l, if ln_width gw = ew_width (put_win s) then l\<lparr>thread_get_index := thread_put_index l\<rparr> else l))
         else Ret (sub_put g ! thread_put_index l, l)) Q g"
    using n S(2) S(6) [OF n] L(5) l(1,2) P(2,4) i by (simp add: wp_descs wp_lat)
  show ?thesis
  proof (cases "thread_get_window l = NULL")
    case True
    then show ?thesis using Q [OF l(3,2) refl] unfolding here by simp
  next
    case False
    then obtain k where k: "k + 1 < length ws" "thread_lhead_pointer l = ws ! k" "thread_get_window l = ws ! (k + 1)"
      "thread_get_index l < ew_width (e_wins s ! (k + 1))" using l(3) by (auto simp: tl_ok_def)
    have "tl_ok s ws (l\<lparr>thread_get_index := thread_put_index l\<rparr>)" if "ew_width (e_wins s ! (k + 1)) = ew_width (put_win s)"
      using k that i(1) by (auto simp: tl_ok_def)
    then show ?thesis using False Q [OF l(3,2) refl] Q [of "l\<lparr>thread_get_index := thread_put_index l\<rparr>"] k(1) L(1) L(7) [of "k + 1"] l(2)
      unfolding here k(3) by (simp add: wp_lat)
  qed
qed

lemma put_loop_seq_law:
  assumes rel: "law_rel cfg g s ws" and al: "alloc_fresh al" and room: "ew_max (put_win s) + cur_depth g < W64"
    and "thread_ltail_pointer l = last ws" "thread_put_window l = last ws" "tl_ok s ws l"
    and "thread_put_index l < ew_width (put_win s)" "hops \<le> ew_width (put_win s)" "random \<le> elastic_hops cfg" "random < elastic_hops cfg \<longrightarrow> hops = 0"
    and "seen (ew_width (put_win s)) (thread_put_index l) hops (\<lambda>j. ew_max (put_win s) \<le> last_row s j)"
    and "(elastic_hops cfg - random) + (ew_width (put_win s) - hops) + 2 \<le> n"
  shows "wp (put_window_loop_law n al cfg t l hops random) (put_post_law cfg g s ws) g"
  using assms(4-)
proof (induction n arbitrary: l hops random)
  case 0
  then show ?case by simp
next
  case (Suc n)
  let ?i = "thread_put_index l" and ?W = "ew_width (put_win s)" and ?M = "ew_max (put_win s)"
  note P = put_node [OF rel] and L = lat_relD [OF law_relD(2) [OF rel]] and S = sub_relD [OF law_relD(3) [OF rel]]
  have W: "?W \<le> max_width cfg" "1 \<le> ?W" using put_win_row(3,6) [OF law_relD(1) [OF rel]] by simp_all
  have C: "max_width cfg < 65536" "elastic_hops cfg < 65536" using law_relD(4) [OF rel] by (simp_all add: elastic_cfg_ok_def)
  have i: "?i < max_width cfg" using Suc.prems(4) W by simp
  show ?case
  proof (cases "last_row s ?i < ?M")
    case True
    show ?thesis
      by (rule put_loop_hit_law [OF rel Suc.prems(1-4) True])
        (use rel True Suc.prems(4) in \<open>auto simp: put_post_law_def same_items_def intro!: exI [of _ s] exI [of _ ws]\<close>)
  next
    case miss: False
    show ?thesis
    proof (cases "hops = ?W")
      case False
      then have hops: "hops < ?W" using Suc.prems by simp
      have "wp (hop_elastic cfg l ?i random hops ?W)
        (\<lambda>(index, random, hops, l). wp (put_window_loop_law n al cfg t (l\<lparr>thread_put_index := index\<rparr>) hops random) (put_post_law cfg g s ws)) g"
        by (rule elastic_hop.hop_search [OF _ Suc.prems(4) hops Suc.prems(6-8)]) (use Suc.prems miss W(1) C in \<open>auto intro!: Suc.IH\<close>)
      then show ?thesis using Suc.prems(1,2) miss hops i S(2) S(6) [OF i] L(5) P(2,4)
        by (simp add: wp_descs wp_lat case_prod_unfold)
    next
      case True
      have all: "\<forall>j < ?W. ?M \<le> last_row s j" using Suc.prems True by (intro seen_all) auto
      obtain n' where n': "n = Suc n'" using Suc.prems(9) by (cases n) auto
      have "wp (shift_put al t (last ws) (?M + cur_depth g) (cur_depth g) (cur_width g))
        (\<lambda>_. wp (pbind (rd lat_tail) (\<lambda>ltail. pbind (to_put_window ltail l) (\<lambda>l. put_window_loop_law n al cfg t l 0 random)))
           (put_post_law cfg g s ws)) g"
      proof (rule wp_mono [OF shift_put_rel [OF rel al all]], goal_cases)
        case (1 u g')
        then obtain s' p where s': "estep (max_width cfg) s ShiftPut s'" "law_rel cfg g' s' (ws @ [p])" "same_items g g'" "e_items s' = e_items s"
          "e_get s' = e_get s" "e_wins s' = e_wins s @ [\<lparr>ew_max = ?M + cur_depth g, ew_width = cur_width g, ew_depth = cur_depth g\<rparr>]"
          "e_hist s' = e_hist s" "e_gets s' = e_gets s" by blast
        note P' = put_node [OF s'(2)] and L' = lat_relD [OF law_relD(2) [OF s'(2)]]
        have pw: "put_win s' = \<lparr>ew_max = ?M + cur_depth g, ew_width = cur_width g, ew_depth = cur_depth g\<rparr>" using s'(6) by simp
        have d: "1 \<le> cur_depth g" "1 \<le> cur_width g" using law_relD(4) [OF rel] by (simp_all add: elastic_cfg_ok_def)
        have lr: "last_row s' j = last_row s j" for j using s'(4) by (simp add: last_row_def rows_def)
        have lt: "last_row s j < ew_max (put_win s')" if "j < max_width cfg" for j
        proof -
          have "last_row s j \<le> ?M"
            using rows_okD(2) [OF equeue_invD(6) [OF law_relD(1) [OF rel] that] last_row_in [of s j]] by (cases "e_items s ! j = []") (auto simp: last_row_def)
          then show ?thesis using pw d by simp
        qed
        let ?l = "if cur_width g \<le> ?i then l\<lparr>thread_put_window := p, thread_ltail_pointer := p, thread_put_index := 0\<rparr>
          else l\<lparr>thread_put_window := p, thread_ltail_pointer := p\<rparr>"
        have tl: "tl_ok s' (ws @ [p]) ?l" using tl_ok_mono [OF Suc.prems(3) s'(6) L(1), of "[p]"] by simp
        have idx: "thread_put_index ?l < cur_width g" "thread_put_index ?l < max_width cfg" using d(2) i W by auto
        have "wp (put_window_loop_law n al cfg t ?l 0 random) (put_post_law cfg g s ws) g'"
          unfolding n'
        proof (rule put_loop_hit_law [OF s'(2) _ _ tl], goal_cases)
          case (5 l')
          show ?case unfolding put_post_law_def prod.case
            by (intro exI [of _ s'] exI [of _ "ws @ [p]"])
              (use 5 s' pw idx lt [OF idx(2)] tl_ok_mono [OF _ s'(6) L(1), of _ "[p]"] in \<open>simp add: same_items_def\<close>)
        qed (use pw idx lt [OF idx(2)] lr in simp_all)
        moreover have "lat_heap g' p = Some (lat_of (e_wins s') (ws @ [p]) (length (e_wins s') - 1))" using P'(2) by simp
        moreover have "ew_width (e_wins s' ! (length (e_wins s') - 1)) = cur_width g" using P'(4) pw by simp
        ultimately show ?case using L'(5) by (simp add: wp_to_windows if_distrib)
      qed
      then show ?thesis using Suc.prems(1,2) miss True i S(2) S(6) [OF i] L(5) P(2,4) add64_eq [OF room]
        by (simp add: wp_descs wp_lat)
    qed
  qed
qed

lemma put_window_seq_law:
  assumes rel: "law_rel cfg g s ws" and al: "alloc_fresh al" and room: "ew_max (put_win s) + cur_depth g < W64"
    and l: "tl_ok s ws l" and fuel: "elastic_fuel cfg \<le> n"
  shows "wp (put_window_law n al cfg t l contention) (put_post_law cfg g s ws) g"
proof -
  note P = put_node [OF rel] and L = lat_relD [OF law_relD(2) [OF rel]] and W = put_win_row(3,6) [OF law_relD(1) [OF rel]]
  have loop: "wp (put_window_loop_law n al cfg t l' 0 0) (put_post_law cfg g s ws) g"
    if "thread_ltail_pointer l' = last ws" "thread_put_window l' = last ws" "tl_ok s ws l'" "thread_put_index l' < ew_width (put_win s)" for l'
    using fuel W that by (intro put_loop_seq_law [OF rel al room]) (auto simp: elastic_fuel_def)
  show ?thesis using L(5) P(2,4) l W(2) by (auto simp: put_window_law_def wp_lat Let_def intro!: wp_random_mod loop)
qed

section \<open>The get window\<close>

text \<open>
  The answer of \<^verbatim>\<open>get_window\<close>: a sub-queue of the get window that has an item, after at most one move, or the
  news that the queue is empty.
\<close>

definition get_post_law :: "elastic_cfg \<Rightarrow> law \<Rightarrow> ptr equeue \<Rightarrow> ptr list \<Rightarrow> qdescriptor2Dd \<times> law_tl \<Rightarrow> law \<Rightarrow> bool" where
  "get_post_law cfg g s ws = (\<lambda>(d, l') g'. \<exists>s'. law_rel cfg g' s' ws \<and> same_items g g' \<and>
     (s' = s \<or> estep (max_width cfg) s ShiftGet s') \<and> e_items s' = e_items s \<and> e_gets s' = e_gets s \<and> e_wins s' = e_wins s \<and>
     thread_lhead_pointer l' = ws ! (e_get s' - 1) \<and> thread_get_window l' = ws ! e_get s' \<and> thread_put_window l' = last ws \<and>
     thread_get_index l' < ew_width (get_win s') \<and> d = sub_get g ! thread_get_index l' \<and>
     (got_row s (thread_get_index l') < ew_max (get_win s') \<and> e_gets s ! thread_get_index l' < length (e_items s ! thread_get_index l') \<or>
      get_win s' = put_win s \<and> e_get s' + 1 = length ws \<and> (\<forall>j < max_width cfg. e_gets s ! j = length (e_items s ! j))))"

text \<open>The get window and its predecessor in the list.\<close>

lemma get_node:
  assumes "law_rel cfg g s ws"
  shows "e_get s < length ws" "1 \<le> e_get s" "lat_heap g (ws ! e_get s) = Some (lat_of (e_wins s) ws (e_get s))"
    "lat_heap g (ws ! (e_get s - 1)) = Some (lat_of (e_wins s) ws (e_get s - 1))"
    "ln_next (lat_of (e_wins s) ws (e_get s - 1)) = ws ! e_get s" "ws ! e_get s \<noteq> NULL"
    "ws ! e_get s = last ws \<longleftrightarrow> e_get s + 1 = length ws"
    "ws ! (e_get s - 1) \<noteq> NULL"
proof -
  note L = lat_relD [OF law_relD(2) [OF assms]] and I = equeue_invD(4,5) [OF law_relD(1) [OF assms]] and P = put_node [OF assms]
  show e: "e_get s < length ws" "1 \<le> e_get s" using I L(1) by simp_all
  show "lat_heap g (ws ! e_get s) = Some (lat_of (e_wins s) ws (e_get s))" "lat_heap g (ws ! (e_get s - 1)) = Some (lat_of (e_wins s) ws (e_get s - 1))"
    using I by (intro L(7); simp)+
  show "ln_next (lat_of (e_wins s) ws (e_get s - 1)) = ws ! e_get s" using e by (simp add: lat_of_def)
  have "e_get s - 1 < length ws" using e by simp
  then show "ws ! e_get s \<noteq> NULL" "ws ! (e_get s - 1) \<noteq> NULL" using e(1) L(3) nth_mem by metis+
  show "ws ! e_get s = last ws \<longleftrightarrow> e_get s + 1 = length ws" using P(1,6) e L(1,2) by (auto simp: nth_eq_iff_index_eq)
qed

text \<open>What the loop compares with: whether sub-queue \<open>j\<close> has an item in the get window.\<close>

definition put_count_law :: "ptr equeue \<Rightarrow> nat \<Rightarrow> nat" where
  "put_count_law s j = (if ew_max (get_win s) < ew_max (put_win s) then bottom (put_win s) else last_row s j)"

definition ready_law :: "ptr equeue \<Rightarrow> nat \<Rightarrow> bool" where
  "ready_law s j \<longleftrightarrow> got_row s j < ew_max (get_win s) \<and> got_row s j < put_count_law s j"

lemma ready_item:
  assumes inv: "equeue_inv n s" and j: "j < ew_width (get_win s)"
  shows "ready_law s j \<longleftrightarrow> got_row s j < ew_max (get_win s) \<and> e_gets s ! j < length (e_items s ! j)"
proof -
  have n: "j < n" using j get_win_row(3) [OF inv] by simp
  note ok = equeue_invD(6) [OF inv n]
  show ?thesis
  proof (cases "e_get s + 1 < length (e_wins s)")
    case True
    have "got_row s j < put_count_law s j" if "got_row s j < ew_max (get_win s)"
      using that wins_order(1,2) [OF inv] True by (simp add: put_count_law_def)
    moreover have "e_gets s ! j < length (e_items s ! j)" if "got_row s j < ew_max (get_win s)"
      by (rule closed_window_item [OF inv j True that])
    ultimately show ?thesis by (auto simp: ready_law_def)
  next
    case False
    then have last: "e_get s + 1 = length (e_wins s)" using equeue_invD(5) [OF inv] by simp
    have "got_row s j < last_row s j \<longleftrightarrow> e_gets s ! j < length (e_items s ! j)"
    proof (cases "e_items s ! j = []")
      case True
      then show ?thesis using rows_okD(6) [OF ok] by (simp add: last_row_def)
    next
      case ne: False
      then have pos: "length (e_items s ! j) - 1 < length (e_items s ! j)" by simp
      have "got_row s j < last_row s j \<longleftrightarrow> e_gets s ! j \<le> length (e_items s ! j) - 1"
        using got_row_less [OF ok pos] last_row_nth [OF ne] by simp
      then show ?thesis using pos by linarith
    qed
    then show ?thesis using wins_order(1) [OF inv] False by (simp add: ready_law_def put_count_law_def)
  qed
qed

text \<open>If no sub-queue of the last window has an item, the queue is empty.\<close>

lemma none_ready_empty:
  assumes inv: "equeue_inv n s" and last: "e_get s + 1 = length (e_wins s)" and none: "\<forall>j < ew_width (get_win s). \<not> ready_law s j"
  shows "\<forall>j < n. e_gets s ! j = length (e_items s ! j)"
proof (intro allI impI, rule ccontr)
  fix j
  assume j: "j < n" and ne: "e_gets s ! j \<noteq> length (e_items s ! j)"
  have lt: "e_gets s ! j < length (e_items s ! j)" using rows_okD(6) [OF equeue_invD(6) [OF inv j]] ne by simp
  note O = open_window_item [OF inv last j lt order_refl]
  then show False using ready_item [OF inv O(1)] none O(1) lt by auto
qed

definition at_win :: "ptr equeue \<Rightarrow> ptr list \<Rightarrow> law_tl \<Rightarrow> bool" where
  "at_win s ws l \<longleftrightarrow> thread_lhead_pointer l = ws ! (e_get s - 1) \<and> thread_get_window l = ws ! e_get s \<and>
     thread_put_window l = last ws \<and> thread_get_index l < ew_width (get_win s)"

lemma at_win_upd [simp]:
  "at_win s ws (l\<lparr>my_hop_count := c\<rparr>) = at_win s ws l" "at_win s ws (l\<lparr>seeds := sd\<rparr>) = at_win s ws l"
  "at_win s ws (l\<lparr>thread_put_index := i\<rparr>) = at_win s ws l"
  by (simp_all add: at_win_def)

lemma at_win_index: "at_win s ws l \<Longrightarrow> i < ew_width (get_win s) \<Longrightarrow> at_win s ws (l\<lparr>thread_get_index := i\<rparr>)"
  by (simp add: at_win_def)

lemma wp_get_exit:
  assumes "law_rel cfg g s ws" "at_win s ws l" "\<And>i. Q (d, l\<lparr>thread_put_index := i\<rparr>) g"
  shows "wp (get_window_exit d l) Q g"
proof -
  have "Q (d, l) g" using assms(3) [of "thread_put_index l"] by simp
  then show ?thesis using get_node(3) [OF assms(1)] put_node(2) [OF assms(1)] assms(2,3)
    by (simp add: get_window_exit_def at_win_def wp_lat)
qed

text \<open>One pass of the loop at the get window.\<close>

lemma wp_get_pass:
  assumes rel: "law_rel cfg g s ws" and l: "at_win s ws l" and room: "ew_max (put_win s) < W64"
  shows "wp (get_window_loop_law (Suc n) cfg l hops random) Q g \<longleftrightarrow>
    (if ready_law s (thread_get_index l) then wp (get_window_exit (sub_get g ! thread_get_index l) l) Q g
     else if hops \<noteq> ew_width (get_win s) then
       wp (hop_elastic cfg l (thread_get_index l) random hops (ew_width (get_win s)))
         (\<lambda>(index, random, hops, l). wp (get_window_loop_law n cfg (l\<lparr>thread_get_index := index\<rparr>) hops random) Q) g
     else if e_get s + 1 \<noteq> length ws then
       wp (pbind (lat_next (ws ! e_get s)) (\<lambda>nxt.
         pbind (assert (nxt \<noteq> NULL)) (\<lambda>_.
         pbind (shift_get (ws ! (e_get s - 1))) (\<lambda>_.
         pbind (rd lat_head) (\<lambda>lhead.
         pbind (lat_next lhead) (\<lambda>nxt.
         pbind (assert (nxt \<noteq> NULL)) (\<lambda>_.
         pbind (to_get_window lhead nxt l) (\<lambda>l. get_window_loop_law n cfg l 0 random)))))))) Q g
     else wp (get_window_exit (sub_get g ! thread_get_index l) l) Q g)"
proof -
  note P = put_node [OF rel] and G = get_node [OF rel] and L = lat_relD [OF law_relD(2) [OF rel]] and S = sub_relD [OF law_relD(3) [OF rel]]
  have i: "thread_get_index l < max_width cfg" using l get_win_row(3) [OF law_relD(1) [OF rel]] by (simp add: at_win_def)
  have "ew_depth (put_win s) \<le> ew_max (put_win s)" using put_win_row(7) [OF law_relD(1) [OF rel]] by simp
  then have sub: "sub64 (ew_max (put_win s)) (ew_depth (put_win s)) = bottom (put_win s)" using room by (simp add: sub64_eq bottom_def)
  show ?thesis using l i S(1,2) S(6,7) [OF i] L(5,6) G(3,7) P(2,4) sub
    by (simp add: at_win_def wp_descs wp_lat ready_law_def put_count_law_def case_prod_unfold)
qed

text \<open>The walk over the sub-queues of the get window.\<close>

lemma get_walk_law:
  assumes rel: "law_rel cfg g s ws" and room: "ew_max (put_win s) < W64"
    and hit: "\<And>l'. at_win s ws l' \<Longrightarrow> ready_law s (thread_get_index l') \<Longrightarrow> wp (get_window_exit (sub_get g ! thread_get_index l') l') Q g"
    and stop: "\<And>l' m. at_win s ws l' \<Longrightarrow> \<forall>j < ew_width (get_win s). \<not> ready_law s j \<Longrightarrow> extra \<le> m \<Longrightarrow>
      wp (get_window_loop_law (Suc m) cfg l' (ew_width (get_win s)) (elastic_hops cfg)) Q g"
    and "at_win s ws l" "hops \<le> ew_width (get_win s)" "random \<le> elastic_hops cfg" "random < elastic_hops cfg \<longrightarrow> hops = 0"
    and "seen (ew_width (get_win s)) (thread_get_index l) hops (\<lambda>j. \<not> ready_law s j)"
    and "(elastic_hops cfg - random) + (ew_width (get_win s) - hops) + 1 + extra \<le> n"
  shows "wp (get_window_loop_law n cfg l hops random) Q g"
  using assms(5-)
proof (induction n arbitrary: l hops random)
  case 0
  then show ?case by simp
next
  case (Suc n)
  let ?i = "thread_get_index l" and ?W = "ew_width (get_win s)"
  have W: "?W \<le> max_width cfg" "1 \<le> ?W" using get_win_row(3,5) [OF law_relD(1) [OF rel]] by simp_all
  have C: "max_width cfg < 65536" "elastic_hops cfg < 65536" using law_relD(4) [OF rel] by (simp_all add: elastic_cfg_ok_def)
  have i: "?i < ?W" using Suc.prems(1) by (simp add: at_win_def)
  show ?case
  proof (cases "ready_law s ?i")
    case True
    then show ?thesis using hit [OF Suc.prems(1)] wp_get_pass [OF rel Suc.prems(1) room] by simp
  next
    case miss: False
    show ?thesis
    proof (cases "hops = ?W")
      case False
      then have hops: "hops < ?W" using Suc.prems by simp
      have "wp (hop_elastic cfg l ?i random hops ?W)
        (\<lambda>(index, random, hops, l). wp (get_window_loop_law n cfg (l\<lparr>thread_get_index := index\<rparr>) hops random) Q) g"
        by (rule elastic_hop.hop_search [OF _ i hops Suc.prems(3-5)]) (use Suc.prems miss W(1) C in \<open>auto intro!: Suc.IH at_win_index\<close>)
      then show ?thesis using miss hops wp_get_pass [OF rel Suc.prems(1) room] by simp
    next
      case True
      have "\<forall>j < ?W. \<not> ready_law s j" using Suc.prems True i by (intro seen_all) auto
      moreover have "random = elastic_hops cfg" using Suc.prems(3,4) True W(2) by auto
      ultimately show ?thesis using stop [OF Suc.prems(1)] Suc.prems(6) True by (simp del: get_window_loop_law.simps)
    qed
  qed
qed

text \<open>Moving the get window.\<close>

lemma shift_get_rel:
  assumes rel: "law_rel cfg g s ws" and lt: "e_get s + 1 < length ws" and none: "\<forall>j < ew_width (get_win s). \<not> ready_law s j"
  shows "estep (max_width cfg) s ShiftGet (s\<lparr>e_get := e_get s + 1\<rparr>)"
    "law_rel cfg (g\<lparr>lat_head := ws ! e_get s\<rparr>) (s\<lparr>e_get := e_get s + 1\<rparr>) ws"
    "\<forall>j < ew_width (get_win (s\<lparr>e_get := e_get s + 1\<rparr>)). e_get s + 2 < length ws \<longrightarrow> ready_law (s\<lparr>e_get := e_get s + 1\<rparr>) j"
proof -
  let ?s = "s\<lparr>e_get := e_get s + 1\<rparr>"
  note I = law_relD(1) [OF rel] and L = lat_relD [OF law_relD(2) [OF rel]]
  have lt': "e_get s + 1 < length (e_wins s)" using lt L(1) by simp
  have "ew_max (get_win s) \<le> got_row s j" if "j < ew_width (get_win s)" for j
    using none that wins_order(1,2) [OF I] lt' by (force simp: ready_law_def put_count_law_def)
  then show st: "estep (max_width cfg) s ShiftGet ?s" using lt' by (intro e_shift_get) auto
  have inv: "equeue_inv (max_width cfg) ?s" by (rule estep_inv [OF st I])
  have "sub_rel (max_width cfg) (g\<lparr>lat_head := ws ! e_get s\<rparr>) ?s" using law_relD(3) [OF rel] by (simp add: sub_rel_def last_row_def got_row_def rows_def)
  moreover have "lat_rel (g\<lparr>lat_head := ws ! e_get s\<rparr>) ?s ws" using law_relD(2) [OF rel] by (simp add: lat_rel_def)
  ultimately show "law_rel cfg (g\<lparr>lat_head := ws ! e_get s\<rparr>) ?s ws" using inv law_relD(4) [OF rel] by (simp add: law_rel_def elastic_cfg_ok_def)
  show "\<forall>j < ew_width (get_win ?s). e_get s + 2 < length ws \<longrightarrow> ready_law ?s j"
  proof (intro allI impI)
    fix j
    assume j: "j < ew_width (get_win ?s)" "e_get s + 2 < length ws"
    have "j < max_width cfg" using j(1) get_win_row(3) [OF inv] by simp
    then have "got_row s j \<le> ew_max (get_win s)" by (rule got_row_top [OF I])
    also have "\<dots> < ew_max (get_win ?s)" using wins_mono [OF equeue_invD(3) [OF I], of "e_get s" "e_get s + 1"] lt' by simp
    finally have "got_row s j < ew_max (get_win ?s)" .
    moreover have "got_row ?s j = got_row s j" by (simp add: got_row_def rows_def)
    ultimately have "got_row ?s j < ew_max (get_win ?s)" by (simp only:)
    moreover have "e_get ?s + 1 < length (e_wins ?s)" using j(2) L(1) by simp
    ultimately show "ready_law ?s j" using wins_order(1,2) [OF inv] by (simp add: ready_law_def put_count_law_def)
  qed
qed

lemma get_postI:
  assumes "law_rel cfg g' s' ws" "same_items g g'" "s' = s \<or> estep (max_width cfg) s ShiftGet s'" "e_items s' = e_items s" "e_gets s' = e_gets s"
    "e_wins s' = e_wins s" "at_win s' ws l'"
    "ready_law s' (thread_get_index l') \<or> e_get s' + 1 = length ws \<and> (\<forall>j < ew_width (get_win s'). \<not> ready_law s' j)"
  shows "get_post_law cfg g s ws (sub_get g ! thread_get_index l', l'\<lparr>thread_put_index := i\<rparr>) g'"
proof -
  let ?j = "thread_get_index l'"
  note I = law_relD(1) [OF assms(1)] and L = lat_relD(1) [OF law_relD(2) [OF assms(1)]]
  have got: "got_row s' = got_row s" using assms(4,5) by (simp add: got_row_def rows_def fun_eq_iff)
  have j: "?j < ew_width (get_win s')" using assms(7) by (simp add: at_win_def)
  have "got_row s ?j < ew_max (get_win s') \<and> e_gets s ! ?j < length (e_items s ! ?j) \<or>
      get_win s' = put_win s \<and> e_get s' + 1 = length ws \<and> (\<forall>j < max_width cfg. e_gets s ! j = length (e_items s ! j))"
    using assms(8)
  proof
    assume "ready_law s' ?j"
    then show ?thesis using ready_item [OF I j] got assms(4,5) by simp
  next
    assume e: "e_get s' + 1 = length ws \<and> (\<forall>j < ew_width (get_win s'). \<not> ready_law s' j)"
    then show ?thesis using none_ready_empty [OF I] wins_order(3) [OF I] L assms(4-6) by simp
  qed
  then show ?thesis using assms(1-7) unfolding get_post_law_def prod.case by (intro exI [of _ s']) (simp add: at_win_def)
qed

lemma get_loop_seq_law:
  assumes rel: "law_rel cfg g s ws" and room: "ew_max (put_win s) < W64" and l: "at_win s ws l" and fuel: "elastic_fuel cfg \<le> n"
  shows "wp (get_window_loop_law n cfg l 0 0) (get_post_law cfg g s ws) g"
proof (rule get_walk_law [OF rel room, where extra = "max_width cfg + 1"])
  show "at_win s ws l" "0 \<le> ew_width (get_win s)" "0 \<le> elastic_hops cfg" "0 < elastic_hops cfg \<longrightarrow> (0 :: nat) = 0"
    "seen (ew_width (get_win s)) (thread_get_index l) 0 (\<lambda>j. \<not> ready_law s j)" using l by simp_all
  show "elastic_hops cfg - 0 + (ew_width (get_win s) - 0) + 1 + (max_width cfg + 1) \<le> n"
    using fuel get_win_row(3) [OF law_relD(1) [OF rel]] by (simp add: elastic_fuel_def)
  have same: "same_items g g" by (simp add: same_items_def)
  fix l'
  assume l': "at_win s ws l'"
  {
    assume "ready_law s (thread_get_index l')"
    then show "wp (get_window_exit (sub_get g ! thread_get_index l') l') (get_post_law cfg g s ws) g"
      by (intro wp_get_exit [OF rel l'] get_postI [OF rel same]) (use l' in simp_all)
  }
  fix m
  assume none: "\<forall>j < ew_width (get_win s). \<not> ready_law s j" and m: "max_width cfg + 1 \<le> m"
  note G = get_node [OF rel]
  have miss: "\<not> ready_law s (thread_get_index l')" using none l' by (simp add: at_win_def)
  show "wp (get_window_loop_law (Suc m) cfg l' (ew_width (get_win s)) (elastic_hops cfg)) (get_post_law cfg g s ws) g"
  proof (cases "e_get s + 1 = length ws")
    case True
    have "wp (get_window_exit (sub_get g ! thread_get_index l') l') (get_post_law cfg g s ws) g"
      by (intro wp_get_exit [OF rel l'] get_postI [OF rel same]) (use l' True none in simp_all)
    then show ?thesis using wp_get_pass [OF rel l' room] miss True by simp
  next
    case False
    then have lt: "e_get s + 1 < length ws" using G(1) by simp
    let ?s = "s\<lparr>e_get := e_get s + 1\<rparr>" and ?g = "g\<lparr>lat_head := ws ! e_get s\<rparr>"
    note sh = shift_get_rel [OF rel lt none]
    note G' = get_node [OF sh(2)]
    let ?l = "\<lambda>l. if ew_width (get_win ?s) \<le> thread_get_index l
      then l\<lparr>thread_get_window := ws ! (e_get s + 1), thread_lhead_pointer := ws ! e_get s, thread_get_index := 0\<rparr>
      else l\<lparr>thread_get_window := ws ! (e_get s + 1), thread_lhead_pointer := ws ! e_get s\<rparr>"
    have at: "at_win ?s ws (?l l')" using l' get_win_row(5) [OF law_relD(1) [OF sh(2)]] by (simp add: at_win_def)
    have same': "same_items g ?g" by (simp add: same_items_def)
    have loop: "wp (get_window_loop_law m cfg (?l l') 0 (elastic_hops cfg)) (get_post_law cfg g s ws) ?g"
    proof (rule get_walk_law [OF sh(2), where extra = 0])
      show "ew_max (put_win ?s) < W64" "0 \<le> ew_width (get_win ?s)" "elastic_hops cfg \<le> elastic_hops cfg"
        "elastic_hops cfg < elastic_hops cfg \<longrightarrow> (0 :: nat) = 0" "seen (ew_width (get_win ?s)) (thread_get_index (?l l')) 0 (\<lambda>j. \<not> ready_law ?s j)"
        using room by simp_all
      show "at_win ?s ws (?l l')" by (rule at)
      show "elastic_hops cfg - elastic_hops cfg + (ew_width (get_win ?s) - 0) + 1 + 0 \<le> m"
        using m get_win_row(3) [OF law_relD(1) [OF sh(2)]] by simp
      fix l2
      assume l2: "at_win ?s ws l2"
      {
        assume "ready_law ?s (thread_get_index l2)"
        then have "wp (get_window_exit (sub_get g ! thread_get_index l2) l2) (get_post_law cfg g s ws) ?g"
          by (intro wp_get_exit [OF sh(2) l2] get_postI [OF sh(2) same']) (use l2 sh(1) in simp_all)
        then show "wp (get_window_exit (sub_get ?g ! thread_get_index l2) l2) (get_post_law cfg g s ws) ?g" by simp
      }
      fix m2
      assume none2: "\<forall>j < ew_width (get_win ?s). \<not> ready_law ?s j"
      then have miss2: "\<not> ready_law ?s (thread_get_index l2)" using l2 by (simp add: at_win_def)
      have lst: "e_get ?s + 1 = length ws" using miss2 none2 sh(3) l2 lt by (auto simp: at_win_def)
      have "wp (get_window_exit (sub_get g ! thread_get_index l2) l2) (get_post_law cfg g s ws) ?g"
        by (intro wp_get_exit [OF sh(2) l2] get_postI [OF sh(2) same']) (use l2 sh(1) lst none2 in simp_all)
      then show "wp (get_window_loop_law (Suc m2) cfg l2 (ew_width (get_win ?s)) (elastic_hops cfg)) (get_post_law cfg g s ws) ?g"
        using wp_get_pass [OF sh(2) l2] room miss2 lst by simp
    qed
    have nx: "ln_next (lat_of (e_wins s) ws (e_get s)) = ws ! (e_get s + 1)" "ws ! (e_get s + 1) \<noteq> NULL"
      using lt G'(6) by (simp_all add: lat_of_def)
    have hd: "lat_head g = ws ! (e_get s - 1)" by (rule lat_relD(6) [OF law_relD(2) [OF rel]])
    have "wp (pbind (lat_next (ws ! e_get s)) (\<lambda>nxt.
         pbind (assert (nxt \<noteq> NULL)) (\<lambda>_.
         pbind (shift_get (ws ! (e_get s - 1))) (\<lambda>_.
         pbind (rd lat_head) (\<lambda>lhead.
         pbind (lat_next lhead) (\<lambda>nxt.
         pbind (assert (nxt \<noteq> NULL)) (\<lambda>_.
         pbind (to_get_window lhead nxt l') (\<lambda>l. get_window_loop_law m cfg l 0 (elastic_hops cfg))))))))) (get_post_law cfg g s ws) g"
      using G(3-6) G'(3) nx hd loop by (simp add: wp_lat shift_get_def cae_lat_head_def wp_to_windows)
    then show ?thesis using wp_get_pass [OF rel l' room] miss False by simp
  qed
qed

lemma get_window_seq_law:
  assumes rel: "law_rel cfg g s ws" and room: "ew_max (put_win s) < W64" and l: "tl_ok s ws l" "thread_put_window l = last ws"
    and fuel: "elastic_fuel cfg \<le> n"
  shows "wp (get_window_law n cfg l False) (get_post_law cfg g s ws) g"
proof -
  note G = get_node [OF rel] and L = lat_relD [OF law_relD(2) [OF rel]]
  show ?thesis
  proof (cases "thread_lhead_pointer l = lat_head g")
    case True
    then obtain k where k: "k + 1 < length ws" "ws ! (e_get s - 1) = ws ! k" "thread_get_window l = ws ! (k + 1)"
      "thread_get_index l < ew_width (e_wins s ! (k + 1))" using l(1) L(6) G(8) by (auto simp: tl_ok_def)
    have "e_get s - 1 = k" using k(1,2) L(2) G(1) by (simp add: nth_eq_iff_index_eq)
    then have "k + 1 = e_get s" using G(2) by simp
    then have "at_win s ws l" using k True L(6) l(2) by (simp add: at_win_def)
    then show ?thesis using get_loop_seq_law [OF rel room _ fuel] True by (simp add: get_window_law_def)
  next
    case False
    let ?l = "if ew_width (get_win s) \<le> thread_get_index l
      then l\<lparr>thread_get_window := ws ! e_get s, thread_lhead_pointer := lat_head g, thread_get_index := 0\<rparr>
      else l\<lparr>thread_get_window := ws ! e_get s, thread_lhead_pointer := lat_head g\<rparr>"
    have "at_win s ws ?l" using l(2) L(6) get_win_row(5) [OF law_relD(1) [OF rel]] by (simp add: at_win_def)
    then have "wp (get_window_loop_law n cfg ?l 0 0) (get_post_law cfg g s ws) g" by (rule get_loop_seq_law [OF rel room _ fuel])
    then show ?thesis using False G(3-6) L(6)
      by (cases "ew_width (get_win s) \<le> thread_get_index l") (simp_all add: get_window_law_def wp_lat wp_to_windows)
  qed
qed

section \<open>Enqueue and dequeue\<close>

text \<open>What an enqueue does: at most one new window, then the item \<open>p\<close> with the given value.\<close>

definition enqueued_law :: "elastic_cfg \<Rightarrow> law \<Rightarrow> ptr equeue \<Rightarrow> ptr list \<Rightarrow> ptr \<Rightarrow> int \<Rightarrow> int \<times> law_tl \<Rightarrow> law \<Rightarrow> bool" where
  "enqueued_law cfg g s ws p val = (\<lambda>(r, l') g'. \<exists>s1 s' ws'. r = 1 \<and> law_rel cfg g' s' ws' \<and> tl_ok s' ws' l' \<and>
     (s1 = s \<or> estep (max_width cfg) s ShiftPut s1) \<and> estep (max_width cfg) s1 (EEnq p) s' \<and>
     ew_max (put_win s') \<le> ew_max (put_win s) + cur_depth g \<and> cur_depth g' = cur_depth g \<and> cur_width g' = cur_width g \<and>
     (\<forall>k. tl_ok s ws k \<longrightarrow> tl_ok s' ws' k) \<and>
     node_val (nodes (sub_mem g')) p = val \<and> taken (sub_mem g') = taken (sub_mem g) \<and>
     (\<forall>q \<in> set (allocd (nodes (sub_mem g))). q \<noteq> p \<longrightarrow> node_val (nodes (sub_mem g')) q = node_val (nodes (sub_mem g)) q))"

lemma row_above_eq:
  assumes "ln_depth w \<le> ln_max w" "ln_max w < W64" "c < ln_max w" "0 < ln_depth w"
  shows "row_above c w = max c (ln_max w - ln_depth w) + 1"
  using assms by (auto simp: row_above_def Let_def sub64_eq add64_eq)

lemma enqueue_commit_law:
  assumes rel: "law_rel cfg g s ws" and room: "ew_max (put_win s) < W64"
    and i: "i < ew_width (put_win s)" "last_row s i < ew_max (put_win s)"
    and p: "unlinked (sub_mem g) t p" "heap (nodes (sub_mem g)) p = Some nd" "n_next nd = NULL"
    and w: "w = lat_of (e_wins s) ws (length (e_wins s) - 1)" and r: "r = row_above (last_row s i) w"
    and h: "h = g\<lparr>sub_mem := qm_link i (qd_node (sub_put g ! i)) p (sub_mem g), sub_put := (sub_put g)[i := \<lparr>qd_node = p, qd_count = r\<rparr>]\<rparr>"
    and s': "s' = s\<lparr>e_items := (e_items s)[i := e_items s ! i @ [(p, r)]], e_hist := p # e_hist s\<rparr>"
  shows "estep (max_width cfg) s (EEnq p) s'" "law_rel cfg h s' ws"
proof -
  note I = law_relD(1) [OF rel] and S = sub_relD [OF law_relD(3) [OF rel]]
  have n: "i < max_width cfg" using i(1) put_win_row(3) [OF I] by simp
  have wd: "ln_max w = ew_max (put_win s)" "ln_depth w = ew_depth (put_win s)" using w put_node(4) [OF rel] by simp_all
  have "ew_depth (put_win s) \<le> ew_max (put_win s)" "0 < ew_depth (put_win s)" using put_win_row(4,7) [OF I] by linarith+
  then have r': "r = max (last_row s i) (bottom (put_win s)) + 1"
    unfolding r bottom_def using i(2) room row_above_eq [of w "last_row s i", unfolded wd] by simp
  note E = enq_commit [OF I law_relD(3) [OF rel] i p r' h s']
  show "estep (max_width cfg) s (EEnq p) s'" by (rule E(1))
  have "lat_rel h s' ws" using law_relD(2) [OF rel] by (simp add: h s' lat_rel_def)
  then show "law_rel cfg h s' ws" using E(2,3) law_relD(4) [OF rel] by (simp add: law_rel_def h elastic_cfg_ok_def)
qed

lemma law_rel_alloc:
  assumes rel: "law_rel cfg g s ws" and p: "p \<notin> set (allocd (nodes (sub_mem g)))" "p \<noteq> NULL"
  shows "law_rel cfg (g\<lparr>sub_mem := qm_alloc t p nd (sub_mem g)\<rparr>) s ws"
  using rel sub_rel_alloc [OF law_relD(3) [OF rel] p, of t nd] by (simp add: law_rel_def lat_rel_def elastic_cfg_ok_def)

lemma enqueue_seq_law:
  assumes rel: "law_rel cfg g s ws" and al: "alloc_fresh al" and room: "ew_max (put_win s) + cur_depth g < W64"
    and l: "tl_ok s ws l" and fuel: "elastic_fuel cfg \<le> fuel" and p: "p = al t (allocd (nodes (sub_mem g)))"
  shows "wp (enqueue_law al fuel cfg t key val l) (enqueued_law cfg g s ws p val) g"
proof -
  obtain n where n: "fuel = Suc n" using fuel by (cases fuel) (auto simp: elastic_fuel_def)
  let ?nd = "\<lparr>n_key = key, n_val = val, n_next = NULL\<rparr>"
  let ?g = "g\<lparr>sub_mem := qm_alloc t p ?nd (sub_mem g)\<rparr>"
  have fresh: "p \<notin> set (allocd (nodes (sub_mem g)))" "p \<noteq> NULL" using al p by (auto simp: alloc_fresh_def)
  have rel1: "law_rel cfg ?g s ws" by (rule law_rel_alloc [OF rel fresh])
  have "p \<notin> set (concat (links (sub_mem g)))" using queues_okD(8) [OF sub_relD(4) [OF law_relD(3) [OF rel]]] fresh(1) by blast
  then have un: "unlinked (sub_mem ?g) t p" "heap (nodes (sub_mem ?g)) p = Some ?nd"
    using fresh(1) queues_hist [OF sub_relD(4) [OF law_relD(3) [OF rel]]]
    by (auto simp: unlinked_def mine_def qm_alloc_def mem_alloc_def)
  have vals: "\<forall>q \<in> set (allocd (nodes (sub_mem g))). q \<noteq> p \<longrightarrow> node_val (nodes (sub_mem ?g)) q = node_val (nodes (sub_mem g)) q"
    by (simp add: node_val_def qm_alloc_def mem_alloc_def)
  have room1: "ew_max (put_win s) + cur_depth ?g < W64" using room by simp
  have "wp (enqueue_loop_law fuel fuel al cfg t p l False) (enqueued_law cfg g s ws p val) ?g"
    unfolding n enqueue_loop_law.simps wp_bind
  proof (rule wp_mono [OF put_window_seq_law [OF rel1 al room1 l fuel, unfolded n]], goal_cases)
    case (1 x h)
    obtain d l' where x: "x = (d, l')" by (cases x)
    obtain s1 ws1 where q: "law_rel cfg h s1 ws1" "same_items ?g h" "tl_ok s1 ws1 l'" "s1 = s \<or> estep (max_width cfg) s ShiftPut s1"
      "e_items s1 = e_items s" "ew_max (put_win s1) \<le> ew_max (put_win s) + cur_depth g" "\<forall>k. tl_ok s ws k \<longrightarrow> tl_ok s1 ws1 k"
      "thread_put_window l' = last ws1" "thread_put_index l' < ew_width (put_win s1)" "d = sub_put g ! thread_put_index l'"
      "last_row s (thread_put_index l') < ew_max (put_win s1)"
      using 1 unfolding x put_post_law_def by auto
    let ?i = "thread_put_index l'" and ?w = "lat_of (e_wins s1) ws1 (length (e_wins s1) - 1)"
    let ?r = "row_above (last_row s1 ?i) ?w"
    note same = q(2) [unfolded same_items_def, simplified]
    note I = law_relD(1) [OF q(1)] and S = sub_relD [OF law_relD(3) [OF q(1)]] and P = put_node [OF q(1)]
    have lr: "last_row s1 ?i = last_row s ?i" using q(5) by (simp add: last_row_def rows_def)
    have i: "?i < max_width cfg" using q(9) put_win_row(3) [OF I] by simp
    note pl = sub_rel_place [OF law_relD(3) [OF q(1)] equeue_invD(1,2) [OF I] i]
    have cnt: "qd_count d = last_row s1 ?i" "d = sub_put h ! ?i" using S(6) [OF i] same q(10) by simp_all
    obtain nd where nd: "heap (nodes (sub_mem h)) (qd_node d) = Some nd" "n_next nd = NULL"
      using place_next [OF S(4) pl(1)] pl(3) cnt(2) by metis
    have d0: "qd_node d \<noteq> NULL" using links_null(1) [OF S(4), of ?i "length (e_items s1 ! ?i)"] pl(1) cnt(2) by (auto simp: place_def)
    have rm: "ew_max (put_win s1) < W64" using q(6) room by simp
    let ?h = "h\<lparr>sub_mem := qm_link ?i (qd_node (sub_put h ! ?i)) p (sub_mem h), sub_put := (sub_put h)[?i := \<lparr>qd_node = p, qd_count = ?r\<rparr>]\<rparr>"
    let ?s = "s1\<lparr>e_items := (e_items s1)[?i := e_items s1 ! ?i @ [(p, ?r)]], e_hist := p # e_hist s1\<rparr>"
    have "last_row s1 ?i < ew_max (put_win s1)" using q(11) lr by simp
    note C = enqueue_commit_law [OF q(1) rm q(9) this, where t = t and p = p and nd = ?nd, OF _ _ _ refl refl refl refl]
    have un': "unlinked (sub_mem h) t p" "heap (nodes (sub_mem h)) p = Some ?nd" using un same by simp_all
    have nv: "node_val (nodes (sub_mem ?h)) = node_val (nodes (sub_mem h))"
      by (auto simp: qm_link_def mem_publish_def mem_set_next_def node_val_def fun_eq_iff split: option.split)
    have tl: "tl_ok ?s ws1 k = tl_ok s1 ws1 k" for k by (simp add: tl_ok_def)
    have keep: "cur_depth ?h = cur_depth g" "cur_width ?h = cur_width g" "taken (sub_mem ?h) = taken (sub_mem g)"
      "node_val (nodes (sub_mem h)) p = val" "node_val (nodes (sub_mem h)) = node_val (nodes (sub_mem ?g))"
      using same un'(2) by (simp_all add: qm_link_def qm_alloc_def node_val_def)
    have "enqueued_law cfg g s ws p val (1, l') ?h"
      unfolding enqueued_law_def prod.case nv keep tl
      by (rule exI [of _ s1], rule exI [of _ ?s], rule exI [of _ ws1])
        (use C [OF un'] q(3,4,6,7) keep(4,5) vals tl in simp)
    then show ?case unfolding x prod.case
      using d0 P(2,4) q(8,9,11) lr cnt nd fresh(2) i S(2)
      by (simp add: wp_lat wp_descs wp_elastic_steps Let_def)
  qed
  then show ?thesis using p fresh(2) by (simp add: enqueue_law_def create_node_elastic_def Let_def)
qed

text \<open>
  What a dequeue does: at most one move of the get window, then it takes an item that at most
  \<open>depth * (width - 1)\<close> waiting items are older than, or it finds the queue empty.
\<close>

definition dequeued_law :: "elastic_cfg \<Rightarrow> nat \<Rightarrow> law \<Rightarrow> ptr equeue \<Rightarrow> ptr list \<Rightarrow> int \<times> law_tl \<Rightarrow> law \<Rightarrow> bool" where
  "dequeued_law cfg t g s ws = (\<lambda>(r, l') g'. \<exists>s1 s'. law_rel cfg g' s' ws \<and> tl_ok s' ws l' \<and>
     (s1 = s \<or> estep (max_width cfg) s ShiftGet s1) \<and> (\<forall>k. tl_ok s ws k \<longrightarrow> tl_ok s' ws k) \<and> e_wins s' = e_wins s \<and>
     cur_depth g' = cur_depth g \<and> cur_width g' = cur_width g \<and> heap (nodes (sub_mem g')) = heap (nodes (sub_mem g)) \<and>
     (r = 0 \<and> s' = s1 \<and> taken (sub_mem g') = taken (sub_mem g) \<and> (\<forall>j < max_width cfg. e_gets s ! j = length (e_items s ! j)) \<or>
      (\<exists>p i. r = node_val (nodes (sub_mem g)) p \<and> estep (max_width cfg) s1 (EDeq p) s' \<and> taken (sub_mem g') = (p, t) # taken (sub_mem g) \<and>
         i < max_width cfg \<and> e_gets s ! i < length (e_items s ! i) \<and> p = fst (e_items s ! i ! (e_gets s ! i)) \<and>
         e_older s p \<le> ew_depth (get_win s1) * (ew_width (get_win s1) - 1))))"

lemma tl_ok_cong: "e_wins s' = e_wins s \<Longrightarrow> tl_ok s' ws l = tl_ok s ws l"
  by (simp add: tl_ok_def)

lemma at_win_tl_ok:
  assumes "law_rel cfg g s ws" "thread_lhead_pointer l = ws ! (e_get s - 1)" "thread_get_window l = ws ! e_get s"
    "thread_get_index l < ew_width (get_win s)"
  shows "tl_ok s ws l"
proof -
  have "e_get s - 1 + 1 = e_get s" "e_get s < length ws" using get_node(1,2) [OF assms(1)] by simp_all
  then show ?thesis using assms(2-) unfolding tl_ok_def by (intro disjI2 exI [of _ "e_get s - 1"]) simp
qed

lemma safe_deq_seq:
  assumes rel: "law_rel cfg h s1 ws" and room: "ew_max (put_win s1) < W64"
    and l: "thread_lhead_pointer l = ws ! (e_get s1 - 1)" "thread_get_window l = ws ! e_get s1" "thread_get_index l < ew_width (get_win s1)"
    and d: "d = sub_get h ! thread_get_index l"
    and i: "got_row s1 (thread_get_index l) < ew_max (get_win s1)" "e_gets s1 ! thread_get_index l < length (e_items s1 ! thread_get_index l)"
    and s1: "s1 = s \<or> estep (max_width cfg) s ShiftGet s1" "e_items s1 = e_items s" "e_gets s1 = e_gets s" "e_wins s1 = e_wins s"
      "e_hist s1 = e_hist s"
    and same: "same_items g h"
  shows "wp (safe_deq t d l again) (dequeued_law cfg t g s ws) h"
proof -
  let ?i = "thread_get_index l" and ?G = "lat_of (e_wins s1) ws (e_get s1)"
  note I = law_relD(1) [OF rel] and S = sub_relD [OF law_relD(3) [OF rel]] and G = get_win_row [OF law_relD(1) [OF rel]]
  have n: "?i < max_width cfg" using l(3) G(3) by simp
  let ?p = "fst (e_items s1 ! ?i ! (e_gets s1 ! ?i))" and ?r = "max (got_row s1 ?i) (bottom (get_win s1)) + 1"
  let ?s = "s1\<lparr>e_gets := (e_gets s1)[?i := e_gets s1 ! ?i + 1]\<rparr>"
  let ?h = "h\<lparr>sub_get := (sub_get h)[?i := \<lparr>qd_node = ?p, qd_count = ?r\<rparr>], sub_mem := qm_free t (qd_node d) (qm_take t (qd_node d) ?p (sub_mem h))\<rparr>"
  note D = deq_commit [where t = t, OF I law_relD(3) [OF rel] l(3) i refl refl d refl refl] and A = next_row_arith [OF I room i(1)]
  obtain nd nn where nd: "heap (nodes (sub_mem h)) (qd_node d) = Some nd" "n_next nd = ?p" and nn: "heap (nodes (sub_mem h)) ?p = Some nn" using D(5,6) by blast
  have row: "(if add64 (qd_count d) 1 < add64 (bottom (get_win s1)) 1 then add64 (bottom (get_win s1)) 1 else add64 (qd_count d) 1) = ?r"
    unfolding D(7) by (rule A(2))
  have "lat_rel ?h ?s ws" using law_relD(2) [OF rel] by (simp add: lat_rel_def)
  then have rel': "law_rel cfg ?h ?s ws" using D(2,3) law_relD(4) [OF rel] by (simp add: law_rel_def elastic_cfg_ok_def)
  note st = D(1)
  have old: "e_older s ?p \<le> ew_depth (get_win s1) * (ew_width (get_win s1) - 1)" using D(4) s1 by (simp add: e_older_def e_waiting_def)
  have tl: "tl_ok ?s ws k = tl_ok s ws k" for k using s1(4) by (simp add: tl_ok_def)
  have tlk: "tl_ok s ws l" using at_win_tl_ok [OF rel l] tl_ok_cong [OF s1(4)] by simp
  have keep: "cur_depth ?h = cur_depth g" "cur_width ?h = cur_width g" "heap (nodes (sub_mem ?h)) = heap (nodes (sub_mem g))"
    "taken (sub_mem ?h) = (?p, t) # taken (sub_mem g)" "n_val nn = node_val (nodes (sub_mem g)) ?p" "e_wins ?s = e_wins s"
    using same nn s1(4) by (simp_all add: same_items_def qm_take_def qm_free_def mem_remove_def mem_free_def node_val_def)
  have it: "e_gets s ! ?i < length (e_items s ! ?i)" "?p = fst (e_items s ! ?i ! (e_gets s ! ?i))" using i(2) s1(2,3) by simp_all
  have "dequeued_law cfg t g s ws (n_val nn, l) ?h"
    unfolding dequeued_law_def prod.case
    by (rule exI [of _ s1], rule exI [of _ ?s], intro conjI disjI2 exI [of _ ?p] exI [of _ ?i] keep it st old n rel' s1(1))
      (use tl tlk in simp_all)
  moreover have "heap (nodes (qm_free t x (qm_take t x y m))) = heap (nodes m)" for x y m
    by (simp add: qm_take_def qm_free_def mem_remove_def mem_free_def)
  ultimately show ?thesis
    unfolding safe_deq_def using nd nn l(2) get_node(3) [OF rel] A(1) row d n S(1)
    by (cases "add64 (qd_count d) 1 < add64 (bottom (get_win s1)) 1") (simp_all add: wp_elastic_steps wp_lat Let_def)
qed

lemma dequeue_seq_law:
  assumes rel: "law_rel cfg g s ws" and room: "ew_max (put_win s) < W64" and l: "tl_ok s ws l" and fuel: "elastic_fuel cfg \<le> fuel"
  shows "wp (dequeue_law fuel cfg t l) (dequeued_law cfg t g s ws) g"
proof -
  obtain n where n: "fuel = Suc n" using fuel by (cases fuel) (auto simp: elastic_fuel_def)
  let ?l = "l\<lparr>thread_put_window := last ws, thread_ltail_pointer := last ws\<rparr>"
  have tl: "tl_ok s ws ?l" "thread_put_window ?l = last ws" using l by simp_all
  have "wp (dequeue_loop_law fuel fuel cfg t ?l False) (dequeued_law cfg t g s ws) g"
    unfolding n dequeue_loop_law.simps wp_bind
  proof (rule wp_mono [OF get_window_seq_law [OF rel room tl fuel, unfolded n]], goal_cases)
    case (1 x h)
    obtain d l' where x: "x = (d, l')" by (cases x)
    obtain s1 where q: "law_rel cfg h s1 ws" "same_items g h" "s1 = s \<or> estep (max_width cfg) s ShiftGet s1"
      "e_items s1 = e_items s" "e_gets s1 = e_gets s" "e_wins s1 = e_wins s"
      "thread_lhead_pointer l' = ws ! (e_get s1 - 1)" "thread_get_window l' = ws ! e_get s1" "thread_put_window l' = last ws"
      "thread_get_index l' < ew_width (get_win s1)" "d = sub_get g ! thread_get_index l'"
      and r: "got_row s (thread_get_index l') < ew_max (get_win s1) \<and> e_gets s ! thread_get_index l' < length (e_items s ! thread_get_index l') \<or>
        get_win s1 = put_win s \<and> e_get s1 + 1 = length ws \<and> (\<forall>j < max_width cfg. e_gets s ! j = length (e_items s ! j))"
      using 1 unfolding x get_post_law_def by auto
    let ?i = "thread_get_index l'" and ?again = "\<lambda>l. dequeue_loop_law n (Suc n) cfg t l True"
    note I = law_relD(1) [OF q(1)] and S = sub_relD [OF law_relD(3) [OF q(1)]] and P = put_node [OF q(1)] and G = get_node [OF q(1)]
    have hist: "e_hist s1 = e_hist s" using S(8) sub_relD(8) [OF law_relD(3) [OF rel]] q(2) by (simp add: same_items_def)
    have room1: "ew_max (put_win s1) < W64" using room q(6) by simp
    have i: "?i < max_width cfg" using q(10) get_win_row(3) [OF I] by simp
    have d: "d = sub_get h ! ?i" using q(2,11) by (simp add: same_items_def)
    note H = head_is_tail [OF I law_relD(3) [OF q(1)] i]
    have got: "got_row s1 ?i = got_row s ?i" using q(4,5) by (simp add: got_row_def rows_def)
    have safe: "wp (safe_deq t d l' ?again) (dequeued_law cfg t g s ws) h"
      if "got_row s ?i < ew_max (get_win s1)" "e_gets s ! ?i < length (e_items s ! ?i)"
      by (rule safe_deq_seq [OF q(1) room1 q(7,8,10) d _ _ q(3-6) hist q(2)]) (use that got q(4,5) in simp_all)
    have ht: "qd_node d = qd_node (sub_put h ! ?i) \<longleftrightarrow> e_gets s ! ?i = length (e_items s ! ?i)" using H(1) d q(4,5) by simp
    have empty: "dequeued_law cfg t g s ws (0, l'\<lparr>my_null_count := c\<rparr>) h"
      if all: "\<forall>j < max_width cfg. e_gets s ! j = length (e_items s ! j)" for c
      unfolding dequeued_law_def prod.case
      by (rule exI [of _ s1], rule exI [of _ s1])
        (use q at_win_tl_ok [OF q(1,7,8,10)] tl_ok_cong [OF q(6)] all in \<open>simp add: same_items_def\<close>)
    have "wp (if ew_max (put_win s1) > ew_max (get_win s1) then safe_deq t d l' ?again
        else pbind (load_desc_elastic sub_put ?i) (\<lambda>enq_descriptor.
          let tail = qd_node enq_descriptor
          in if qd_node d = tail then
               pbind (load_next_elastic (qd_node d)) (\<lambda>nxt.
               if nxt = NULL then Ret (0, l'\<lparr>my_null_count := add64 (my_null_count l') 1\<rparr>)
               else
                 pbind (load_next_elastic tail) (\<lambda>nxt.
                 pbind (rd lat_tail) (\<lambda>ltail.
                 pbind (lat_info ltail) (\<lambda>tw.
                 pbind (put_cae_elastic ?i enq_descriptor \<lparr>qd_node = nxt, qd_count = row_above (qd_count enq_descriptor) tw\<rparr>) (\<lambda>success.
                 dequeue_loop_law n (Suc n) cfg t l' (False \<or> \<not> success))))))
             else safe_deq t d l' ?again)) (dequeued_law cfg t g s ws) h"
    proof (cases "e_gets s ! ?i = length (e_items s ! ?i)")
      case True
      then have e: "get_win s1 = put_win s" "\<forall>j < max_width cfg. e_gets s ! j = length (e_items s ! j)" using r by auto
      obtain nd where "heap (nodes (sub_mem h)) (qd_node d) = Some nd" "n_next nd = NULL" using H(2) True d q(4,5) by auto
      then show ?thesis using e(1) q(6) ht True empty [OF e(2)] i S(2) by (simp add: wp_descs wp_elastic_steps Let_def)
    next
      case False
      then show ?thesis using r i ht safe S(2) by (auto simp: wp_descs Let_def)
    qed
    then show ?case unfolding x prod.case using P(2,4) G(3) q(8,9) by (simp add: wp_lat Let_def)
  qed
  then show ?thesis using lat_relD(5) [OF law_relD(2) [OF rel]] by (simp add: dequeue_law_def)
qed

end
