(* ===== verification/Elastic_Law_Calls.thy ===== *)
theory Elastic_Law_Calls
  imports Elastic_Law_Seq
begin

text \<open>
  Calls on the elastic queue one after the other, \<^verbatim>\<open>update_width\<close> and \<^verbatim>\<open>update_depth\<close> among them: every call
  returns, the queue is a pool of nodes from which a dequeue takes one that is among the oldest, and
  the bound is that of the window the node was enqueued in. \<open>queue_size_elastic\<close> counts the pool.
\<close>

section \<open>The window the dequeues work in\<close>

definition open_get_window :: "law \<Rightarrow> lateral_node option" where
  "open_get_window g = (case lat_heap g (lat_head g) of None \<Rightarrow> None | Some nd \<Rightarrow> lat_heap g (ln_next nd))"

lemma open_get_window_rel:
  assumes rel: "law_rel cfg g s ws"
  shows "open_get_window g = Some (lat_of (e_wins s) ws (e_get s))"
proof -
  note L = lat_relD [OF law_relD(2) [OF rel]] and I = equeue_invD [OF law_relD(1) [OF rel]]
  have e: "e_get s - 1 < length (e_wins s)" "e_get s - 1 + 1 = e_get s" "e_get s < length ws" using I(4,5) L(1) by simp_all
  have "lat_heap g (lat_head g) = Some (lat_of (e_wins s) ws (e_get s - 1))" using L(6) L(7) [OF e(1)] by simp
  moreover have "ln_next (lat_of (e_wins s) ws (e_get s - 1)) = ws ! e_get s" using e by (simp add: lat_of_def)
  ultimately show ?thesis using L(7) [OF I(5)] by (simp add: open_get_window_def)
qed

section \<open>Calls\<close>

definition law_call :: "allocator \<Rightarrow> nat \<Rightarrow> elastic_cfg \<Rightarrow> nat \<Rightarrow> elastic_call \<Rightarrow> law_tl \<Rightarrow> (law, int \<times> law_tl) prog" where
  "law_call al fuel cfg t c l =
     (case c of
        LEnq key val \<Rightarrow> enqueue_law al fuel cfg t key val l
      | LDeq \<Rightarrow> dequeue_law fuel cfg t l
      | LSize \<Rightarrow> pbind (queue_size_elastic fuel cfg) (\<lambda>r. Ret (int r, l))
      | SetWidth w \<Rightarrow> pbind (update_width_elastic w) (\<lambda>r. Ret (int r, l))
      | SetDepth d \<Rightarrow> pbind (update_depth_elastic d) (\<lambda>r. Ret (int r, l))
      | GetWidth \<Rightarrow> pbind get_width_elastic (\<lambda>r. Ret (int r, l))
      | GetDepth \<Rightarrow> pbind get_depth_elastic (\<lambda>r. Ret (int r, l)))"

text \<open>The operations do not check what they are given.\<close>

definition law_legal :: "elastic_cfg \<Rightarrow> elastic_call \<Rightarrow> bool" where
  "law_legal cfg c \<longleftrightarrow>
     (case c of SetWidth w \<Rightarrow> 1 \<le> w \<and> w \<le> max_width cfg | SetDepth d \<Rightarrow> 1 \<le> d \<and> d < 65536 | _ \<Rightarrow> True)"

definition law_calls_inv :: "allocator \<Rightarrow> nat \<Rightarrow> elastic_cfg \<Rightarrow> nat \<Rightarrow> law_tl list \<Rightarrow> law \<Rightarrow> bool" where
  "law_calls_inv al fuel cfg n ls g \<longleftrightarrow> alloc_fresh al \<and> elastic_fuel cfg \<le> fuel \<and>
     length (hist (nodes (sub_mem g))) + n < fuel \<and> length (hist (nodes (sub_mem g))) + n < W64 \<and>
     (\<exists>s ws. law_rel cfg g s ws \<and> (\<forall>l \<in> set ls. tl_ok s ws l) \<and> ew_max (put_win s) + (n + 1) * 65536 < W64)"

text \<open>
  What a call does, in terms of the pool. The bound of a dequeue is for the window that is open for dequeues when it
  returns, the one it took its node from.
\<close>

definition law_spec :: "elastic_call \<Rightarrow> law \<Rightarrow> int \<Rightarrow> law \<Rightarrow> bool" where
  "law_spec c g r g' \<longleftrightarrow>
     (case c of
        LEnq key val \<Rightarrow> r = 1 \<and> (\<exists>p. p \<notin># pool g \<and> pool g' = add_mset p (pool g) \<and> node_val (nodes (sub_mem g')) p = val \<and>
          hist (nodes (sub_mem g')) = p # hist (nodes (sub_mem g)))
      | LDeq \<Rightarrow> hist (nodes (sub_mem g')) = hist (nodes (sub_mem g)) \<and>
          (r = 0 \<and> pool g = {#} \<and> pool g' = {#} \<or>
           (\<exists>p w. pool g = add_mset p (pool g') \<and> r = node_val (nodes (sub_mem g)) p \<and> open_get_window g' = Some w \<and>
              elastic_older g p \<le> ln_depth w * (ln_width w - 1)))
      | LSize \<Rightarrow> r = int (size (pool g)) \<and> g' = g
      | SetWidth w \<Rightarrow> r = int (cur_width g) \<and> g' = g\<lparr>cur_width := w\<rparr>
      | SetDepth d \<Rightarrow> r = int (cur_depth g) \<and> g' = g\<lparr>cur_depth := d\<rparr>
      | GetWidth \<Rightarrow> r = int (cur_width g) \<and> g' = g
      | GetDepth \<Rightarrow> r = int (cur_depth g) \<and> g' = g)"

lemma tl_ok_upd:
  "\<forall>l \<in> set ls. tl_ok s ws l \<Longrightarrow> tl_ok s ws l' \<Longrightarrow> \<forall>l \<in> set (ls[t := l']). tl_ok s ws l"
  using set_update_subset_insert [of ls t l'] by blast

lemma law_rel_set:
  assumes rel: "law_rel cfg g s ws"
  shows "1 \<le> w \<Longrightarrow> w \<le> max_width cfg \<Longrightarrow> law_rel cfg (g\<lparr>cur_width := w\<rparr>) s ws"
    "1 \<le> d \<Longrightarrow> d < 65536 \<Longrightarrow> law_rel cfg (g\<lparr>cur_depth := d\<rparr>) s ws"
  using rel by (auto simp: law_rel_def elastic_cfg_ok_def lat_rel_def sub_rel_def)

lemma enqueued_law_spec:
  assumes rel: "law_rel cfg g s ws" and E: "enqueued_law cfg g s ws p val (r, l') g'"
  shows "law_spec (LEnq key val) g r g'"
proof -
  obtain s1 s' ws' where e: "r = 1" "law_rel cfg g' s' ws'" "s1 = s \<or> estep (max_width cfg) s ShiftPut s1"
    "estep (max_width cfg) s1 (EEnq p) s'" "node_val (nodes (sub_mem g')) p = val"
    using E by (auto simp: enqueued_law_def)
  show ?thesis using e(1,5) pool_enq [OF law_relD(1,3) [OF rel] law_relD(1,3) [OF e(2)] e(3,4)] by (auto simp: law_spec_def intro!: exI [of _ p])
qed

lemma dequeued_law_spec:
  assumes rel: "law_rel cfg g s ws" and D: "dequeued_law cfg t g s ws (r, l') g'"
  shows "law_spec LDeq g r g'"
proof -
  obtain s1 s' where d: "law_rel cfg g' s' ws" "s1 = s \<or> estep (max_width cfg) s ShiftGet s1" "e_wins s' = e_wins s"
    and alt: "r = 0 \<and> s' = s1 \<and> (\<forall>j < max_width cfg. e_gets s ! j = length (e_items s ! j)) \<or>
      (\<exists>p. r = node_val (nodes (sub_mem g)) p \<and> estep (max_width cfg) s1 (EDeq p) s' \<and>
         e_older s p \<le> ew_depth (get_win s1) * (ew_width (get_win s1) - 1))"
    using D by (auto simp: dequeued_law_def)
  note I = equeue_invD [OF law_relD(1) [OF rel]] and P = pool_deq [OF law_relD(1,3) [OF rel] law_relD(1,3) [OF d(1)] d(2)]
  have wins: "e_wins s1 = e_wins s" using d(2) by (auto elim: estep.cases)
  from alt show ?thesis
  proof (elim disjE exE conjE)
    assume n: "r = 0" "s' = s1" "\<forall>j < max_width cfg. e_gets s ! j = length (e_items s ! j)"
    have "concat (e_waiting s) = []" using n(3) I(1,2) by (auto simp: e_waiting_def set_zip)
    then show ?thesis using n P elastic_waiting_rel [OF law_relD(1,3) [OF rel]] by (simp add: law_spec_def)
  next
    fix p assume p: "r = node_val (nodes (sub_mem g)) p" "estep (max_width cfg) s1 (EDeq p) s'"
      "e_older s p \<le> ew_depth (get_win s1) * (ew_width (get_win s1) - 1)"
    have "e_get s' = e_get s1" using p(2) by (auto elim: e_deqE)
    then have "get_win s' = get_win s1" using d(3) wins by simp
    then show ?thesis
      using p P [of p] open_get_window_rel [OF d(1)] elastic_older_rel [OF law_relD(1,3) [OF rel], of p]
      by (auto simp: law_spec_def intro!: exI [of _ p])
  qed
qed

interpretation law_calls: guarded_calls "law_call al fuel cfg" "law_calls_inv al fuel cfg" "\<lambda>g. g" law_spec "law_legal cfg" for al fuel cfg
proof
  fix n ls g t c
  assume inv: "law_calls_inv al fuel cfg (Suc n) ls g" and t: "t < length ls" and c: "law_legal cfg c"
  let ?H = "length (hist (nodes (sub_mem g)))"
  obtain s ws where al: "alloc_fresh al" "elastic_fuel cfg \<le> fuel" and H: "?H + Suc n < fuel" "?H + Suc n < W64"
    and rel: "law_rel cfg g s ws" and ls: "\<forall>l \<in> set ls. tl_ok s ws l"
    and room: "ew_max (put_win s) + (Suc n + 1) * 65536 < W64" using inv unfolding law_calls_inv_def by blast
  have l: "tl_ok s ws (ls ! t)" and less: "ew_max (put_win s) + (n + 1) * 65536 < W64" using ls t room by simp_all
  have dp: "cur_depth g < 65536" using law_relD(4) [OF rel] by (simp add: elastic_cfg_ok_def)
  have keep: "law_calls_inv al fuel cfg n ls' g'"
    if "law_rel cfg g' s' ws'" "\<forall>l \<in> set ls'. tl_ok s' ws' l" "ew_max (put_win s') \<le> ew_max (put_win s) + 65536"
      "length (hist (nodes (sub_mem g'))) \<le> ?H + 1" for ls' g' s' ws'
  proof -
    have "ew_max (put_win s') + (n + 1) * 65536 < W64" using that(3) room by simp
    then show ?thesis using al H that(1,2,4) unfolding law_calls_inv_def by (intro conjI exI [of _ s'] exI [of _ ws']) simp_all
  qed
  have same: "law_calls_inv al fuel cfg n (ls[t := ls ! t]) g'" if "law_rel cfg g' s ws" "sub_mem g' = sub_mem g" for g'
    using keep [OF that(1)] ls that(2) by simp
  show "wp (law_call al fuel cfg t c (ls ! t)) (\<lambda>(r, l) g'. law_calls_inv al fuel cfg n (ls[t := l]) g' \<and> law_spec c g r g') g"
  proof (cases c)
    case (LEnq key val)
    have "ew_max (put_win s) + cur_depth g < W64" using room dp by simp
    note wp = enqueue_seq_law [OF rel al(1) this l al(2) refl]
    show ?thesis unfolding LEnq law_call_def elastic_call.case
    proof (rule wp_mono [OF wp], clarify)
      fix r l' g'
      assume E: "enqueued_law cfg g s ws (al t (allocd (nodes (sub_mem g)))) val (r, l') g'"
      then obtain s' ws' where e: "law_rel cfg g' s' ws'" "tl_ok s' ws' l'" "ew_max (put_win s') \<le> ew_max (put_win s) + cur_depth g"
        "\<forall>k. tl_ok s ws k \<longrightarrow> tl_ok s' ws' k" by (auto simp: enqueued_law_def)
      note sp = enqueued_law_spec [OF rel E, of key]
      have "\<forall>k \<in> set (ls[t := l']). tl_ok s' ws' k" using ls e(2,4) by (intro tl_ok_upd) blast+
      moreover have "length (hist (nodes (sub_mem g'))) \<le> ?H + 1" using sp by (auto simp: law_spec_def)
      ultimately show "law_calls_inv al fuel cfg n (ls[t := l']) g' \<and> law_spec (LEnq key val) g r g'"
        using sp e(3) dp keep [OF e(1)] by simp
    qed
  next
    case LDeq
    have rm: "ew_max (put_win s) < W64" using room by simp
    show ?thesis unfolding LDeq law_call_def elastic_call.case
    proof (rule wp_mono [OF dequeue_seq_law [OF rel rm l al(2)]], clarify)
      fix r l' g'
      assume D: "dequeued_law cfg t g s ws (r, l') g'"
      then obtain s' where d: "law_rel cfg g' s' ws" "tl_ok s' ws l'" "\<forall>k. tl_ok s ws k \<longrightarrow> tl_ok s' ws k" "e_wins s' = e_wins s"
        by (auto simp: dequeued_law_def)
      note sp = dequeued_law_spec [OF rel D]
      have "\<forall>k \<in> set (ls[t := l']). tl_ok s' ws k" using ls d(2,3) by (intro tl_ok_upd) blast+
      moreover have "length (hist (nodes (sub_mem g'))) \<le> ?H + 1" using sp by (simp add: law_spec_def)
      ultimately show "law_calls_inv al fuel cfg n (ls[t := l']) g' \<and> law_spec LDeq g r g'"
        using sp keep [OF d(1)] d(4) by simp
    qed
  next
    case LSize
    have "wp (queue_size_elastic fuel cfg) (\<lambda>r h. r = length (concat (elastic_waiting g)) \<and> h = g) g"
      using H by (intro queue_size_elastic_seq [OF law_relD(1) [OF rel] law_relD(3) [OF rel]]) simp_all
    then show ?thesis unfolding LSize law_call_def elastic_call.case wp_bind
      by (rule wp_mono) (use same [OF rel] in \<open>simp add: law_spec_def\<close>)
  next
    case (SetWidth w)
    have "law_rel cfg (g\<lparr>cur_width := w\<rparr>) s ws" using law_rel_set(1) [OF rel, of w] c SetWidth by (simp add: law_legal_def)
    then show ?thesis using same by (simp add: SetWidth law_call_def update_width_elastic_def law_spec_def)
  next
    case (SetDepth d)
    have "law_rel cfg (g\<lparr>cur_depth := d\<rparr>) s ws" using law_rel_set(2) [OF rel, of d] c SetDepth by (simp add: law_legal_def)
    then show ?thesis using same by (simp add: SetDepth law_call_def update_depth_elastic_def law_spec_def)
  qed (use same [OF rel] in \<open>simp_all add: law_call_def get_width_elastic_def get_depth_elastic_def law_spec_def\<close>)
qed

section \<open>What create\_queue sets up\<close>

text \<open>A thread before its first call: \<^verbatim>\<open>thread_lhead_pointer\<close> and \<^verbatim>\<open>thread_get_window\<close> are static and start as null.\<close>

definition fresh_ltl :: "seeds \<Rightarrow> law_tl" where
  "fresh_ltl sd = \<lparr>seeds = sd, my_put_cas_fail_count = 0, my_get_cas_fail_count = 0, my_null_count = 0,
     my_hop_count = 0, my_slide_count = 0, my_slide_fail_count = 0, thread_put_index = 0, thread_get_index = 0,
     thread_put_window = NULL, thread_get_window = NULL, thread_lhead_pointer = NULL, thread_ltail_pointer = NULL\<rparr>"

lemma alloc_fresh_ne: "alloc_fresh al \<Longrightarrow> al t (p # ps) \<noteq> p"
  unfolding alloc_fresh_def by (metis list.set_intros(1))

lemma create_queue_law_rel:
  assumes c: "create_queue_law al t junk nt w d mw mode bound = Some (cfg, g)" and al: "alloc_fresh al"
    and u: "1 \<le> cur_width g" "max_width cfg < 65536" "1 \<le> cur_depth g" "cur_depth g < 65536"
  shows "law_rel cfg g (empty_equeue (max_width cfg) (cur_width g) (cur_depth g)) [al t [], al t [al t []]]"
proof -
  let ?n = "max_width cfg" and ?p = "al t []" and ?q = "al t [al t []]"
  let ?s = "empty_equeue ?n (cur_width g) (cur_depth g)"
  let ?m = "add_sentinels al t junk ?n"
  obtain arr where g: "sub_get g = arr" "sub_put g = arr" "arr = map (\<lambda>q. \<lparr>qd_node = hd q, qd_count = 0\<rparr>) (links ?m)" "sub_mem g = ?m"
    "lat_used g = [?q, ?p]" "lat_tail g = ?q" "lat_head g = ?p" "cur_width g \<le> ?n" "elastic_hops cfg = 2"
    "lat_heap g = (\<lambda>a. None)(?p \<mapsto> \<lparr>ln_next = ?q, ln_max = 0, ln_width = cur_width g, ln_depth = 0\<rparr>,
                     ?q \<mapsto> \<lparr>ln_next = NULL, ln_max = cur_depth g, ln_width = cur_width g, ln_depth = cur_depth g\<rparr>)"
    using c by (auto simp: create_queue_law_def create_lateral_queue_def Let_def split: option.splits)
  have pq: "?p \<noteq> NULL" "?q \<noteq> NULL" "?q \<noteq> ?p" using al alloc_fresh_ne [OF al, of t] by (simp_all add: alloc_fresh_def)
  have "lat_rel g ?s [?p, ?q]"
    using pq by (auto simp: lat_rel_def empty_equeue_def g lat_of_def less_Suc_eq)
  moreover have "sub_rel ?n g ?s" by (rule empty_sub_rel [OF al g(4), folded g(3), OF g(1,2)])
  moreover have "elastic_cfg_ok cfg g" using u g by (simp add: elastic_cfg_ok_def)
  ultimately show ?thesis using empty_equeue_inv [OF u(1) g(8) u(3)] by (simp add: law_rel_def)
qed

lemma create_queue_law_calls:
  assumes c: "create_queue_law al t junk nt w d mw mode bound = Some (cfg, g)" and al: "alloc_fresh al"
    and u: "1 \<le> cur_width g" "max_width cfg < 65536" "1 \<le> cur_depth g" "cur_depth g < 65536"
    and fuel: "elastic_fuel cfg + n < fuel" and n: "(n + 2) * 65536 < W64"
  shows "law_calls_inv al fuel cfg n (map fresh_ltl sds) g"
proof -
  let ?s = "empty_equeue (max_width cfg) (cur_width g) (cur_depth g)" and ?ws = "[al t [], al t [al t []]]"
  have "\<forall>l \<in> set (map fresh_ltl sds). tl_ok ?s ?ws l" by (simp add: tl_ok_def fresh_ltl_def)
  moreover have "ew_max (put_win ?s) + (n + 1) * 65536 < W64" using n u(4) by (simp add: empty_equeue_def)
  moreover have "hist (nodes (sub_mem g)) = []" using create_queue_law_rel [OF c al u] by (simp add: law_rel_def sub_rel_def empty_equeue_def)
  then have "length (hist (nodes (sub_mem g))) + n < fuel" "length (hist (nodes (sub_mem g))) + n < W64" using fuel n by simp_all
  moreover have "elastic_fuel cfg \<le> fuel" using fuel by simp
  ultimately show ?thesis using al create_queue_law_rel [OF c al u] unfolding law_calls_inv_def by blast
qed

section \<open>Properties\<close>

text \<open>
  C28. The elastic queue is out of order by no more than its windows allow, whatever the widths and depths it is switched
  to. Take the queue that \<^verbatim>\<open>create_queue\<close> returns, for a width and depth of at least 1, and any list of calls that do not overlap, by threads that start
  with no window: enqueues, dequeues, \<^verbatim>\<open>queue_size\<close>, \<^verbatim>\<open>update_width\<close> with a width of 1 to \<open>max_width\<close>, and \<^verbatim>\<open>update_depth\<close> with a depth of 1 to \<open>2 ^ 16 - 1\<close>.
  Every call returns. An enqueue adds one new node that holds its value; a dequeue returns 0 only if the queue is empty, and
  else it removes a node, returns its value, and at most \<open>depth * (width - 1)\<close> of the nodes in the queue were enqueued before it,
  for the depth and width of the window that is open for dequeues; \<^verbatim>\<open>queue_size\<close> returns the number of nodes in the queue; the updates return the old value and change nothing else,
  and \<^verbatim>\<open>get_width\<close> and \<^verbatim>\<open>get_depth\<close> return the value set last.
\<close>

theorem law_queue_k_out_of_order:
  assumes "create_queue_law al t0 junk nt w d mw mode bound = Some (cfg, g0)" "alloc_fresh al"
    and "1 \<le> cur_width g0" "max_width cfg < 65536" "1 \<le> cur_depth g0" "cur_depth g0 < 65536"
    and "elastic_fuel cfg + length cs < fuel" "(length cs + 2) * 65536 < W64"
    and "\<forall>(t, c) \<in> set cs. t < length sds \<and> law_legal cfg c"
  shows "\<exists>rs ls' g. exec_calls (law_call al fuel cfg) cs (map fresh_ltl sds, g0) = Some (rs, ls', g) \<and>
    spec_run law_spec (map snd cs) g0 rs g"
proof -
  have "law_calls_inv al fuel cfg (length cs + 0) (map fresh_ltl sds) g0" using create_queue_law_calls [OF assms(1-8)] by simp
  moreover have "\<forall>(t, c) \<in> set cs. t < length (map fresh_ltl sds) \<and> law_legal cfg c" using assms(9) by simp
  ultimately show ?thesis using law_calls.guarded_returns [of al fuel cfg cs 0 "map fresh_ltl sds" g0] by blast
qed

definition demo_law :: "elastic_cfg \<times> law" where
  "demo_law = the (create_queue_law bump_alloc 0 \<lparr>n_key = 0, n_val = 0, n_next = 0\<rparr> 2 2 1 4 0 0)"

lemma demo_law_created:
  "create_queue_law bump_alloc 0 \<lparr>n_key = 0, n_val = 0, n_next = 0\<rparr> 2 2 1 4 0 0 = Some (fst demo_law, snd demo_law)"
  by (simp add: demo_law_def create_queue_law_def calc_params_def bound16_def Let_def create_lateral_queue_def)

lemma demo_law_cfg:
  "fst demo_law = \<lparr>elastic_hops = 2, max_width = 4, elastic_bound = 1, elastic_mode = 0\<rparr>" "cur_width (snd demo_law) = 2" "cur_depth (snd demo_law) = 1"
  by (simp_all add: demo_law_def create_queue_law_def calc_params_def bound16_def Let_def create_lateral_queue_def)

theorem law_queue_k_out_of_order_witness:
  "\<exists>rs ls' g. exec_calls (law_call bump_alloc 30 (fst demo_law))
     [(0, LEnq 1 10), (0, SetWidth 4), (0, SetDepth 3), (1, LEnq 2 20), (0, LEnq 3 30), (1, LDeq), (0, LSize), (0, LDeq)]
     (map fresh_ltl [(1, 2, 3), (4, 5, 6)], snd demo_law) = Some (rs, ls', g) \<and>
   spec_run law_spec (map snd [(0 :: nat, LEnq 1 10), (0, SetWidth 4), (0, SetDepth 3), (1, LEnq 2 20), (0, LEnq 3 30), (1, LDeq), (0, LSize), (0, LDeq)])
     (snd demo_law) rs g"
  by (rule law_queue_k_out_of_order [OF demo_law_created bump_alloc_fresh])
    (simp_all add: demo_law_cfg elastic_fuel_def W64_def law_legal_def)

end
