(* ===== verification/Elastic_Law_Conc.thy ===== *)
theory Elastic_Law_Conc
  imports Elastic_Law_Calls
begin

text \<open>
  The elastic queue under concurrency: an interleaving of two threads after which an item is stranded. \<^verbatim>\<open>put_window\<close> sets \<^verbatim>\<open>hops\<close> to 0
  when it finds that the window has moved, \<^verbatim>\<open>get_window\<close> does not. A thread that has hopped over the
  sub-queues of a window another thread has just left counts these hops for the next window, moves on
  without having looked at it, and leaves the items in it behind; if the windows that follow are narrower,
  no dequeue finds them.
\<close>

section \<open>A queue of width 2 and depth 1\<close>

definition strand_law :: "elastic_cfg \<times> law" where
  "strand_law = the (create_queue_law bump_alloc 0 \<lparr>n_key = 0, n_val = 0, n_next = 0\<rparr> 2 2 1 2 0 0)"

lemma strand_law_eq: "strand_law = (\<lparr>elastic_hops = 2, max_width = 2, elastic_bound = 1, elastic_mode = 0\<rparr>,
   \<lparr>sub_get = [\<lparr>qd_node = 1, qd_count = 0\<rparr>, \<lparr>qd_node = 2, qd_count = 0\<rparr>],
    sub_put = [\<lparr>qd_node = 1, qd_count = 0\<rparr>, \<lparr>qd_node = 2, qd_count = 0\<rparr>],
    cur_depth = 1, cur_width = 2, sub_mem = add_sentinels bump_alloc 0 \<lparr>n_key = 0, n_val = 0, n_next = 0\<rparr> 2,
    lat_heap = [1 \<mapsto> \<lparr>ln_next = 2, ln_max = 0, ln_width = 2, ln_depth = 0\<rparr>, 2 \<mapsto> \<lparr>ln_next = 0, ln_max = 1, ln_width = 2, ln_depth = 1\<rparr>],
    lat_used = [2, 1], lat_tail = 2, lat_head = 1\<rparr>)"
proof -
  have "bump_alloc 0 [] = 1" "bump_alloc 0 [1] = 2" by (simp_all add: bump_alloc_def)
  then show ?thesis
    by (simp add: strand_law_def create_queue_law_def calc_params_def bound16_def Let_def create_lateral_queue_def two_sentinels)
qed

lemmas strand_unfold [prog_unfold] = strand_law_eq two_sentinels law_call_def fresh_ltl_def
  queue_size_elastic_def queue_walk_elastic.simps(2) [of "pred_numeral k" for k, folded numeral_eq_Suc] upt_rec

section \<open>The interleaving\<close>

text \<open>
  Thread 0, alone: it fills the windows of the rows 1 and 2, sets the width to 1, opens the window of row 3, and dequeues the items of
  row 1.
\<close>

definition strand_start :: "(int list \<times> law_tl list \<times> law) option" where
  "strand_start = exec_calls (law_call bump_alloc 9 (fst strand_law))
     [(0, LEnq 1 11), (0, LEnq 2 12), (0, LEnq 3 13), (0, SetWidth 1), (0, LEnq 4 14), (0, LEnq 5 15), (0, LDeq), (0, LDeq)]
     (map fresh_ltl [(3, 2, 3), (4, 5, 6)], snd strand_law)"

text \<open>
  Then thread 1 starts a dequeue and hops twice over the window of row 1, of which nothing is left. Thread 0
  dequeues, moves to the window of row 2, and takes the item of sub-queue 0. Thread 1 goes on until it is done with two
  dequeues and \<^verbatim>\<open>queue_size\<close>.
\<close>

definition strand_run :: "(law, int list) prog list \<times> law" where
  "strand_run =
     (case strand_start of
        None \<Rightarrow> ([], snd strand_law)
      | Some (rs, ls, g) \<Rightarrow>
          sched (\<lambda>_. True) (replicate 25 1 @ replicate 60 0 @ replicate 110 1)
            (client_pool (law_call bump_alloc 9 (fst strand_law)) [[LDeq], [LDeq, LDeq, LSize]] ls, g))"

text \<open>
  C29. A flaw of the elastic queue under concurrency: there is an interleaving of two threads after which a dequeue returns 0, an empty queue, although an
  item was enqueued before all dequeues started, is still in the queue, and no other call is in progress; \<^verbatim>\<open>queue_size\<close> counts it. The first dequeue of thread 1 has moved the window past the item, 13,
  which it had not looked for, because \<^verbatim>\<open>get_window\<close> does not reset \<^verbatim>\<open>hops\<close> when it finds that the window was moved by thread 0. The calls before
  did not overlap.
\<close>

theorem law_dequeue_strands_item:
  "map_option fst strand_start = Some [1, 1, 1, 2, 1, 1, 11, 12] \<and>
   map prog_result (fst strand_run) = [Some [14], Some [15, 0, 1]] \<and>
   map (node_val (nodes (sub_mem (snd strand_run)))) (concat (elastic_waiting (snd strand_run))) = [13]"
proof -
  have s: "map_option fst strand_start = Some [1, 1, 1, 2, 1, 1, 11, 12]"
    by (simp add: strand_start_def prog_unfold cong: eval_cong)
  have r: "\<exists>ps g. strand_run = (ps, g) \<and> map prog_result ps = [Some [14], Some [15, 0, 1]] \<and>
      map (node_val (nodes (sub_mem g))) (concat (elastic_waiting g)) = [13]"
    by (simp add: strand_run_def strand_start_def client_pool_def elastic_waiting_def node_val_def prog_unfold cong: eval_cong)
  show ?thesis using r
  proof (elim exE conjE)
    fix ps g
    assume e: "strand_run = (ps, g)" and p: "map prog_result ps = [Some [14], Some [15, 0, 1]]"
      "map (node_val (nodes (sub_mem g))) (concat (elastic_waiting g)) = [13]"
    show ?thesis unfolding e fst_conv snd_conv using s p by (intro conjI)
  qed
qed

end
