(* ===== verification/Queue2Dd_Opt.thy ===== *)
theory Queue2Dd_Opt
  imports Queue2Dd
begin

text \<open>
  The optimized 2Dd queue of \<^verbatim>\<open>src/2Dd-queue_optimized\<close>: the structure of the 2Dd queue with windows
  (\<^verbatim>\<open>2Dd-window_optimized.c\<close>) that read less. Put and get have indexes of their own; width and depth are copied to
  thread-local variables; and where the put window is ahead of the get window \<^verbatim>\<open>get_window\<close> takes the bottom of the put window for the number of enqueues on
  a sub-queue instead of reading it, and \<^verbatim>\<open>dequeue\<close> does not compare the head with the tail.
  The shared state is that of \<open>Queue2Dd\<close>, and so is the abstract queue that the queue refines.
\<close>

section \<open>State\<close>

record opt_tl = tls +
  opt_PWindow :: u64
  opt_GWindow :: u64
  thread_depth :: nat
  thread_width :: nat
  opt_put_index :: nat
  opt_get_index :: nat

section \<open>The windows\<close>

definition hop_opt :: "ds2Dd \<Rightarrow> opt_tl \<Rightarrow> nat \<Rightarrow> nat \<Rightarrow> nat \<Rightarrow> nat \<Rightarrow> ('g, nat \<times> nat \<times> nat \<times> opt_tl) prog" where
  "hop_opt cfg l index random hops w =
     (let l = l\<lparr>my_hop_count := add64 (my_hop_count l) 1\<rparr>
      in if random < random_hops cfg
         then pbind (random_mod w l) (\<lambda>(index, l). Ret (index, add16 random 1, hops, l))
         else let index = add16 index 1
              in Ret (if index \<ge> w then 0 else index, random, add16 hops 1, l))"

fun put_window_loop_opt :: "nat \<Rightarrow> ds2Dd \<Rightarrow> opt_tl \<Rightarrow> nat \<Rightarrow> nat \<Rightarrow> (queue2Dd, qdescriptor2Dd \<times> opt_tl) prog" where
  "put_window_loop_opt 0 cfg l hops random = NoFuel"
| "put_window_loop_opt (Suc n) cfg l hops random =
     pbind (load_desc put_array (opt_put_index l)) (\<lambda>descriptor.
     pbind (rd global_PWindow) (\<lambda>gmax.
     if opt_PWindow l \<noteq> gmax then
       put_window_loop_opt n cfg (l\<lparr>opt_PWindow := gmax\<rparr>) 0 random
     else if qd_count descriptor < opt_PWindow l then
       Ret (descriptor, l\<lparr>opt_get_index := opt_put_index l\<rparr>)
     else if hops < thread_width l then
       pbind (hop_opt cfg l (opt_put_index l) random hops (thread_width l)) (\<lambda>(index, random, hops, l).
       put_window_loop_opt n cfg (l\<lparr>opt_put_index := index\<rparr>) hops random)
     else
       pbind (rd global_PWindow) (\<lambda>gp.
       pbind (if opt_PWindow l = gp then
                (let new_window = add64 (opt_PWindow l) (thread_depth l)
                 in pbind (cae_PWindow (opt_PWindow l) new_window) (\<lambda>(success, found).
                    Ret (if success then l\<lparr>my_slide_count := add64 (my_slide_count l) 1, opt_PWindow := new_window\<rparr>
                         else l\<lparr>opt_PWindow := found\<rparr>)))
              else Ret l) (\<lambda>l.
       put_window_loop_opt n cfg l 0 random))))"

definition put_window_opt :: "nat \<Rightarrow> ds2Dd \<Rightarrow> opt_tl \<Rightarrow> bool \<Rightarrow> (queue2Dd, qdescriptor2Dd \<times> opt_tl) prog" where
  "put_window_opt fuel cfg l contention =
     pbind (if contention
            then pbind (random_mod (thread_width l) l) (\<lambda>(i, l). Ret (l\<lparr>opt_put_index := i\<rparr>))
            else Ret l) (\<lambda>l.
     pbind (rd global_PWindow) (\<lambda>w.
     put_window_loop_opt fuel cfg (l\<lparr>opt_PWindow := w\<rparr>) 0 0))"

definition read_put_count :: "opt_tl \<Rightarrow> (queue2Dd, u64) prog" where
  "read_put_count l =
     (if opt_GWindow l < opt_PWindow l then Ret (sub64 (opt_PWindow l) (thread_depth l)) else load_count (opt_get_index l))"

fun get_window_loop_opt :: "nat \<Rightarrow> ds2Dd \<Rightarrow> opt_tl \<Rightarrow> nat \<Rightarrow> nat \<Rightarrow> bool \<Rightarrow> (queue2Dd, qdescriptor2Dd \<times> opt_tl) prog" where
  "get_window_loop_opt 0 cfg l hops random notempty = NoFuel"
| "get_window_loop_opt (Suc n) cfg l hops random notempty =
     pbind (load_desc get_array (opt_get_index l)) (\<lambda>descriptor.
     pbind (read_put_count l) (\<lambda>put_count.
     pbind (rd global_GWindow) (\<lambda>gmax.
     if opt_GWindow l \<noteq> gmax then
       get_window_loop_opt n cfg (l\<lparr>opt_GWindow := gmax\<rparr>) 0 random False
     else if qd_count descriptor < opt_GWindow l \<and> qd_count descriptor < put_count then
       Ret (descriptor, l\<lparr>opt_put_index := opt_get_index l\<rparr>)
     else if hops \<noteq> thread_width l then
       (let notempty = (if \<not> notempty \<and> qd_count descriptor < put_count then True else notempty)
        in pbind (hop_opt cfg l (opt_get_index l) random hops (thread_width l)) (\<lambda>(index, random, hops, l).
           get_window_loop_opt n cfg (l\<lparr>opt_get_index := index\<rparr>) hops random notempty))
     else
       pbind (if notempty then Ret True else pbind (rd global_PWindow) (\<lambda>gp. Ret (opt_GWindow l \<noteq> gp))) (\<lambda>shift.
       if shift then
         (let new_window = add64 (opt_GWindow l) (thread_depth l)
          in pbind (rd global_GWindow) (\<lambda>gg.
             pbind (if opt_GWindow l = gg then
                      pbind (cae_GWindow (opt_GWindow l) new_window) (\<lambda>(success, found).
                      Ret (if success then l\<lparr>my_slide_count := add64 (my_slide_count l) 1, opt_GWindow := new_window\<rparr>
                           else l\<lparr>opt_GWindow := found\<rparr>))
                    else Ret l) (\<lambda>l.
             get_window_loop_opt n cfg l 0 random False)))
       else Ret (descriptor, l\<lparr>opt_put_index := opt_get_index l\<rparr>)))))"

definition get_window_opt :: "nat \<Rightarrow> ds2Dd \<Rightarrow> opt_tl \<Rightarrow> bool \<Rightarrow> (queue2Dd, qdescriptor2Dd \<times> opt_tl) prog" where
  "get_window_opt fuel cfg l contention =
     pbind (if contention
            then pbind (random_mod (thread_width l) l) (\<lambda>(i, l). Ret (l\<lparr>opt_get_index := i\<rparr>))
            else Ret l) (\<lambda>l.
     pbind (rd global_GWindow) (\<lambda>w.
     get_window_loop_opt fuel cfg (l\<lparr>opt_GWindow := w\<rparr>) 0 0 False))"

text \<open>\<^verbatim>\<open>initialize_global_window\<close> asserts that the depth is not 0.\<close>

definition initialize_global_window_opt :: "nat \<Rightarrow> (u64 \<times> u64) option" where
  "initialize_global_window_opt d = (if d = 0 then None else Some (d, d))"

definition ds_thread_init :: "ds2Dd \<Rightarrow> opt_tl \<Rightarrow> opt_tl" where
  "ds_thread_init cfg l = l\<lparr>thread_depth := depth cfg, thread_width := width cfg\<rparr>"

section \<open>The queue\<close>

fun enqueue_loop_opt :: "nat \<Rightarrow> nat \<Rightarrow> ds2Dd \<Rightarrow> ptr \<Rightarrow> opt_tl \<Rightarrow> bool \<Rightarrow> (queue2Dd, int \<times> opt_tl) prog" where
  "enqueue_loop_opt 0 fuel cfg new_node l contention = NoFuel"
| "enqueue_loop_opt (Suc n) fuel cfg new_node l contention =
     pbind (put_window_opt fuel cfg l contention) (\<lambda>(descriptor, l).
     pbind (assert (opt_PWindow l \<ge> opt_GWindow l)) (\<lambda>_.
     pbind (assert (qd_count descriptor < opt_PWindow l)) (\<lambda>_.
     let tail = qd_node descriptor;
         new_count = add64 (qd_count descriptor) 1;
         fail_l = l\<lparr>my_put_cas_fail_count := add64 (my_put_cas_fail_count l) 1\<rparr>
     in pbind (load_count (opt_put_index l)) (\<lambda>count.
        if count \<ge> opt_PWindow l then enqueue_loop_opt n fuel cfg new_node l contention
        else
          pbind (load_next tail) (\<lambda>nxt.
          if nxt = NULL then
            pbind (enq_cas_q2Dd (opt_put_index l) tail new_node) (\<lambda>success.
            if success then
              pbind (put_cae_q2Dd (opt_put_index l) descriptor \<lparr>qd_node = new_node, qd_count = new_count\<rparr>) (\<lambda>_. Ret (1, l))
            else enqueue_loop_opt n fuel cfg new_node fail_l True)
          else
            pbind (load_next tail) (\<lambda>nxt.
            pbind (put_cae_q2Dd (opt_put_index l) descriptor \<lparr>qd_node = nxt, qd_count = new_count\<rparr>) (\<lambda>success.
            enqueue_loop_opt n fuel cfg new_node fail_l (contention \<or> \<not> success))))))))"

definition enqueue_opt :: "allocator \<Rightarrow> nat \<Rightarrow> ds2Dd \<Rightarrow> nat \<Rightarrow> int \<Rightarrow> int \<Rightarrow> opt_tl \<Rightarrow> (queue2Dd, int \<times> opt_tl) prog" where
  "enqueue_opt al fuel cfg t key val l =
     pbind (create_node_q2Dd al t key val NULL) (\<lambda>new_node. enqueue_loop_opt fuel fuel cfg new_node l False)"

text \<open>The part of \<^verbatim>\<open>dequeue\<close> at the label \<^verbatim>\<open>safe_deq\<close>.\<close>

definition safe_deq_opt ::
  "nat \<Rightarrow> qdescriptor2Dd \<Rightarrow> opt_tl \<Rightarrow> (opt_tl \<Rightarrow> (queue2Dd, int \<times> opt_tl) prog) \<Rightarrow> (queue2Dd, int \<times> opt_tl) prog" where
  "safe_deq_opt t deq_descriptor l retry =
     (let head = qd_node deq_descriptor
      in pbind (load_next head) (\<lambda>nxt.
         pbind (deq_cae_q2Dd (opt_get_index l) deq_descriptor \<lparr>qd_node = nxt, qd_count = add64 (qd_count deq_descriptor) 1\<rparr>
                  (qm_take t head nxt)) (\<lambda>success.
         if success then
           pbind (free_node_q2Dd t head) (\<lambda>_.
           pbind (load_val nxt) (\<lambda>val. Ret (val, l)))
         else retry (l\<lparr>my_get_cas_fail_count := add64 (my_get_cas_fail_count l) 1\<rparr>))))"

fun dequeue_loop_opt :: "nat \<Rightarrow> nat \<Rightarrow> ds2Dd \<Rightarrow> nat \<Rightarrow> opt_tl \<Rightarrow> bool \<Rightarrow> (queue2Dd, int \<times> opt_tl) prog" where
  "dequeue_loop_opt 0 fuel cfg t l contention = NoFuel"
| "dequeue_loop_opt (Suc n) fuel cfg t l contention =
     pbind (get_window_opt fuel cfg l contention) (\<lambda>(deq_descriptor, l).
     let head = qd_node deq_descriptor;
         again = (\<lambda>l. dequeue_loop_opt n fuel cfg t l True)
     in pbind (load_desc put_array (opt_get_index l)) (\<lambda>enq_descriptor.
        if opt_PWindow l > opt_GWindow l then safe_deq_opt t deq_descriptor l again
        else
          let tail = qd_node enq_descriptor
          in if head = tail then
               pbind (load_next head) (\<lambda>nxt.
               if nxt = NULL then Ret (0, l\<lparr>my_null_count := add64 (my_null_count l) 1\<rparr>)
               else
                 pbind (load_next tail) (\<lambda>nxt.
                 pbind (put_cae_q2Dd (opt_get_index l) enq_descriptor
                          \<lparr>qd_node = nxt, qd_count = add64 (qd_count enq_descriptor) 1\<rparr>) (\<lambda>success.
                 dequeue_loop_opt n fuel cfg t l (contention \<or> \<not> success))))
             else safe_deq_opt t deq_descriptor l again))"

definition dequeue_opt :: "nat \<Rightarrow> ds2Dd \<Rightarrow> nat \<Rightarrow> opt_tl \<Rightarrow> (queue2Dd, int \<times> opt_tl) prog" where
  "dequeue_opt fuel cfg t l =
     pbind (rd global_PWindow) (\<lambda>w. dequeue_loop_opt fuel fuel cfg t (l\<lparr>opt_PWindow := w\<rparr>) False)"

text \<open>\<^verbatim>\<open>queue_size\<close> is that of the 2Dd queue.\<close>

definition queue_size_opt :: "nat \<Rightarrow> ds2Dd \<Rightarrow> (queue2Dd, u64) prog" where
  "queue_size_opt fuel cfg = queue_size_loop_2Dd fuel [0 ..< width cfg] 0"

definition create_queue_opt ::
  "allocator \<Rightarrow> nat \<Rightarrow> mnode \<Rightarrow> u64 \<Rightarrow> nat \<Rightarrow> nat \<Rightarrow> nat \<Rightarrow> u64 \<Rightarrow> (ds2Dd \<times> queue2Dd) option" where
  "create_queue_opt al t junk num_threads w d mode bound =
     (case calc_params 1 keep16 keep16 (bound16 1) mode num_threads w d bound of
        None \<Rightarrow> None
      | Some (w, d, bound) \<Rightarrow>
          (case initialize_global_window_opt d of
             None \<Rightarrow> None
           | Some (pw, gw) \<Rightarrow>
               let m = add_sentinels al t junk w;
                   arr = map (\<lambda>q. \<lparr>qd_node = hd q, qd_count = 0\<rparr>) (links m)
               in Some (\<lparr>random_hops = 2, width = w, depth = d, relaxation_bound = bound, k_mode = mode\<rparr>,
                        \<lparr>global_PWindow = pw, global_GWindow = gw, get_array = arr, put_array = arr, qmem = m\<rparr>)))"

section \<open>Running alone\<close>

text \<open>The posts of the windows of \<open>Window2Dd\<close> say what these windows do too, for the index that is used.\<close>

definition as_tl :: "nat \<Rightarrow> opt_tl \<Rightarrow> tl2Dd" where
  "as_tl i l = \<lparr>seeds = seeds l, my_put_cas_fail_count = my_put_cas_fail_count l, my_get_cas_fail_count = my_get_cas_fail_count l,
     my_null_count = my_null_count l, my_hop_count = my_hop_count l, my_slide_count = my_slide_count l,
     my_slide_fail_count = my_slide_fail_count l, thread_PWindow = opt_PWindow l, thread_GWindow = opt_GWindow l, thread_index = i\<rparr>"

lemma as_tl_simps [simp]:
  "thread_index (as_tl i l) = i" "thread_PWindow (as_tl i l) = opt_PWindow l" "thread_GWindow (as_tl i l) = opt_GWindow l"
  by (simp_all add: as_tl_def)

definition opt_tl_ok :: "ds2Dd \<Rightarrow> queue2Dd \<Rightarrow> opt_tl \<Rightarrow> bool" where
  "opt_tl_ok cfg g l \<longleftrightarrow> thread_width l = width cfg \<and> thread_depth l = depth cfg \<and> opt_put_index l < width cfg \<and>
     opt_get_index l < width cfg \<and> opt_GWindow l \<le> global_GWindow g"

text \<open>
  The queue at rest, with room for one more move of a window. When the put window has been moved, the enqueue
  that moved it has used it.
\<close>

definition opt_quiet :: "ds2Dd \<Rightarrow> queue2Dd \<Rightarrow> bool" where
  "opt_quiet cfg g \<longleftrightarrow> quiet_queue_2Dd cfg g \<and> width cfg < 65536 \<and> random_hops cfg < 65536 \<and> 0 < global_GWindow g \<and>
     (depth cfg < global_PWindow g \<longrightarrow> (\<exists>j < width cfg. global_PWindow g - depth cfg < qd_count (put_array g ! j)))"

abbreviation pc_opt :: "queue2Dd \<Rightarrow> nat \<Rightarrow> nat" where
  "pc_opt g i \<equiv> qd_count (put_array g ! i)"

abbreviation gc_opt :: "queue2Dd \<Rightarrow> nat \<Rightarrow> nat" where
  "gc_opt g i \<equiv> qd_count (get_array g ! i)"

lemma opt_quietD:
  assumes "opt_quiet cfg g"
  shows "quiet_queue_2Dd cfg g" "0 < width cfg" "1 \<le> depth cfg" "width cfg < 65536" "random_hops cfg < 65536"
    "length (get_array g) = width cfg" "length (put_array g) = width cfg"
    "win_inv2Dd cfg (global_PWindow g) (global_GWindow g) (pc_opt g) (gc_opt g)"
    "depth cfg < global_PWindow g \<Longrightarrow> \<exists>j < width cfg. global_PWindow g - depth cfg < pc_opt g j" "0 < global_GWindow g"
  using assms queue_invD(3,4) [of cfg g] by (auto simp: opt_quiet_def quiet_queue_2Dd_def ds2Dd_ok_def)

lemma win_invD:
  assumes "win_inv2Dd cfg P G pc gc"
  shows "depth cfg dvd P" "depth cfg dvd G" "G \<le> P" "i < width cfg \<Longrightarrow> pc i \<le> P \<and> P \<le> pc i + depth cfg"
    "i < width cfg \<Longrightarrow> gc i \<le> G \<and> G \<le> gc i + depth cfg" "i < width cfg \<Longrightarrow> gc i \<le> pc i" "G < P \<Longrightarrow> G + depth cfg \<le> P"
proof -
  show "depth cfg dvd P" "depth cfg dvd G" "G \<le> P" "i < width cfg \<Longrightarrow> pc i \<le> P \<and> P \<le> pc i + depth cfg"
    "i < width cfg \<Longrightarrow> gc i \<le> G \<and> G \<le> gc i + depth cfg" "i < width cfg \<Longrightarrow> gc i \<le> pc i"
    using assms by (auto simp: win_inv2Dd_def)
  assume lt: "G < P"
  have "depth cfg dvd P - G" using assms by (simp add: win_inv2Dd_def dvd_diff_nat)
  then have "depth cfg \<le> P - G" using lt by (simp add: dvd_imp_le)
  then show "G + depth cfg \<le> P" using lt by simp
qed

interpretation opt_hop: hopping "hop_opt cfg" "random_hops cfg" "\<lambda>w _. w < 65536 \<and> random_hops cfg < 65536" for cfg
proof (unfold_locales, goal_cases)
  case 1
  then show ?case by (auto simp: hop_opt_def add16_eq intro!: wp_random_mod)
next
  case 2
  then show ?case by (auto simp: hop_opt_def add16_eq Let_def next_index_def split: if_splits)
qed

lemma opt_tl_ok_upd [simp]:
  "opt_tl_ok cfg g (l\<lparr>my_hop_count := c\<rparr>) = opt_tl_ok cfg g l" "opt_tl_ok cfg g (l\<lparr>seeds := sd\<rparr>) = opt_tl_ok cfg g l"
  "opt_tl_ok cfg g (l\<lparr>my_slide_count := c\<rparr>) = opt_tl_ok cfg g l" "opt_tl_ok cfg g (l\<lparr>opt_PWindow := w\<rparr>) = opt_tl_ok cfg g l"
  "opt_tl_ok cfg g (l\<lparr>my_null_count := c\<rparr>) = opt_tl_ok cfg g l"
  by (simp_all add: opt_tl_ok_def)

lemma opt_tl_ok_index:
  "opt_tl_ok cfg g l \<Longrightarrow> i < width cfg \<Longrightarrow> opt_tl_ok cfg g (l\<lparr>opt_put_index := i\<rparr>)"
  "opt_tl_ok cfg g l \<Longrightarrow> i < width cfg \<Longrightarrow> opt_tl_ok cfg g (l\<lparr>opt_get_index := i\<rparr>)"
  "opt_tl_ok cfg g l \<Longrightarrow> opt_tl_ok cfg g (l\<lparr>opt_GWindow := global_GWindow g\<rparr>)"
  "opt_tl_ok cfg g l \<Longrightarrow> opt_put_index l < width cfg \<and> opt_get_index l < width cfg"
  by (simp_all add: opt_tl_ok_def)

section \<open>The put window\<close>

definition put_post_opt :: "ds2Dd \<Rightarrow> queue2Dd \<Rightarrow> qdescriptor2Dd \<times> opt_tl \<Rightarrow> queue2Dd \<Rightarrow> bool" where
  "put_post_opt cfg g = (\<lambda>(d, l') g'. opt_tl_ok cfg g' l' \<and>
     put_post_2Dd cfg ((!) (put_array g)) qd_count g (d, as_tl (opt_put_index l') l') g')"

lemma put_loop_hit_opt:
  assumes q: "opt_quiet cfg g" and l: "opt_tl_ok cfg g' l" "opt_PWindow l = global_PWindow g'"
    and g': "g' = g \<or> g' = g\<lparr>global_PWindow := global_PWindow g + depth cfg\<rparr> \<and> (\<forall>j < width cfg. pc_opt g j = global_PWindow g)"
    and hit: "pc_opt g (opt_put_index l) < global_PWindow g'"
  shows "wp (put_window_loop_opt (Suc n) cfg l hops random) (put_post_opt cfg g) g'"
proof -
  have i: "opt_put_index l < width cfg" using l(1) by (simp add: opt_tl_ok_def)
  have a: "put_array g' = put_array g" using g' by auto
  have "put_post_opt cfg g (put_array g ! opt_put_index l, l\<lparr>opt_get_index := opt_put_index l\<rparr>) g'"
    unfolding put_post_opt_def prod.case using i l g' hit opt_tl_ok_index(2) [OF l(1) i] by (simp add: put_post_2Dd_def)
  then show ?thesis using i a l(2) hit opt_quietD(7) [OF q] by (simp add: wp_loads)
qed

lemma put_loop_seq_opt:
  assumes q: "opt_quiet cfg g" and room: "room2Dd cfg g"
    and "opt_tl_ok cfg g l" "opt_PWindow l = global_PWindow g" "hops \<le> width cfg"
    and "random \<le> random_hops cfg" "random < random_hops cfg \<longrightarrow> hops = 0"
    and "seen (width cfg) (opt_put_index l) hops (\<lambda>j. global_PWindow g \<le> pc_opt g j)"
    and "(random_hops cfg - random) + (width cfg - hops) + 2 \<le> n"
  shows "wp (put_window_loop_opt n cfg l hops random) (put_post_opt cfg g) g"
  using assms(3-)
proof (induction n arbitrary: l hops random)
  case 0
  then show ?case by simp
next
  case (Suc n)
  let ?i = "opt_put_index l" and ?P = "global_PWindow g"
  note O = opt_quietD [OF q]
  have l: "?i < width cfg" "thread_width l = width cfg" "thread_depth l = depth cfg" using Suc.prems(1) by (simp_all add: opt_tl_ok_def)
  show ?case
  proof (cases "pc_opt g ?i < ?P")
    case True
    then show ?thesis using Suc.prems by (intro put_loop_hit_opt [OF q]) auto
  next
    case miss: False
    show ?thesis
    proof (cases "hops = width cfg")
      case False
      then have hops: "hops < width cfg" using Suc.prems(3) by simp
      have "wp (hop_opt cfg l ?i random hops (width cfg))
        (\<lambda>(index, random, hops, l). wp (put_window_loop_opt n cfg (l\<lparr>opt_put_index := index\<rparr>) hops random) (put_post_opt cfg g)) g"
        by (rule opt_hop.hop_search [OF _ l(1) hops Suc.prems(4-6)]) (use O(4,5) Suc.prems miss in \<open>auto intro!: Suc.IH opt_tl_ok_index\<close>)
      then show ?thesis using Suc.prems miss hops l O(7) by (simp add: wp_loads case_prod_unfold)
    next
      case True
      have all: "\<forall>j < width cfg. ?P \<le> pc_opt g j" using Suc.prems True l(1) by (intro seen_all) auto
      then have eq: "\<forall>j < width cfg. pc_opt g j = ?P" using win_invD(4) [OF O(8)] by (meson antisym)
      have new: "add64 ?P (depth cfg) = ?P + depth cfg" using room by (simp add: room2Dd_def add64_eq)
      obtain n' where n': "n = Suc n'" using Suc.prems by (cases n) auto
      let ?g = "g\<lparr>global_PWindow := ?P + depth cfg\<rparr>"
      let ?l = "l\<lparr>my_slide_count := add64 (my_slide_count l) 1, opt_PWindow := ?P + depth cfg\<rparr>"
      have "wp (put_window_loop_opt n cfg ?l 0 random) (put_post_opt cfg g) ?g"
        unfolding n' using Suc.prems(1) eq l(1) O(3) by (intro put_loop_hit_opt [OF q]) (auto simp: opt_tl_ok_def)
      then show ?thesis using Suc.prems(2) miss True l O(7) by (simp add: wp_loads new cae_PWindow_def Let_def)
    qed
  qed
qed

lemma put_window_seq_opt:
  assumes q: "opt_quiet cfg g" and room: "room2Dd cfg g" and l: "opt_tl_ok cfg g l" and fuel: "fuel2Dd cfg \<le> n"
  shows "wp (put_window_opt n cfg l contention) (put_post_opt cfg g) g"
proof -
  have w: "thread_width l = width cfg" using l by (simp add: opt_tl_ok_def)
  have loop: "wp (put_window_loop_opt n cfg (l'\<lparr>opt_PWindow := global_PWindow g\<rparr>) 0 0) (put_post_opt cfg g) g"
    if "opt_tl_ok cfg g l'" for l' using that fuel by (intro put_loop_seq_opt [OF q room]) (auto simp: fuel2Dd_def)
  show ?thesis using l opt_quietD(2) [OF q] opt_tl_ok_index(1) [OF l]
    by (auto simp: put_window_opt_def w intro!: wp_random_mod loop opt_tl_ok_index)
qed

section \<open>The get window\<close>

definition get_post_opt :: "ds2Dd \<Rightarrow> queue2Dd \<Rightarrow> qdescriptor2Dd \<times> opt_tl \<Rightarrow> queue2Dd \<Rightarrow> bool" where
  "get_post_opt cfg g = (\<lambda>(d, l') g'. opt_tl_ok cfg g' l' \<and> opt_PWindow l' = global_PWindow g \<and> opt_GWindow l' = global_GWindow g' \<and>
     global_GWindow g' \<le> global_PWindow g \<and>
     get_post_2Dd cfg (pc_opt g) ((!) (get_array g)) qd_count g (d, as_tl (opt_get_index l') l') g')"

text \<open>What \<^verbatim>\<open>get_window\<close> takes for the number of enqueues on a sub-queue, and when it accepts the sub-queue.\<close>

definition put_count_opt :: "ds2Dd \<Rightarrow> queue2Dd \<Rightarrow> nat \<Rightarrow> nat" where
  "put_count_opt cfg g i = (if global_GWindow g < global_PWindow g then global_PWindow g - depth cfg else pc_opt g i)"

definition ready_opt :: "queue2Dd \<Rightarrow> nat \<Rightarrow> bool" where
  "ready_opt g i \<longleftrightarrow> gc_opt g i < global_GWindow g \<and> gc_opt g i \<noteq> pc_opt g i"

lemma ready_opt_iff:
  assumes win: "win_inv2Dd cfg (global_PWindow g) (global_GWindow g) (pc_opt g) (gc_opt g)" and i: "i < width cfg"
  shows "gc_opt g i < global_GWindow g \<and> gc_opt g i < put_count_opt cfg g i \<longleftrightarrow> ready_opt g i"
    "\<not> ready_opt g i \<Longrightarrow> gc_opt g i < put_count_opt cfg g i \<Longrightarrow> global_GWindow g < global_PWindow g"
  using win_invD(3,7) [OF win] win_invD(4,5,6) [OF win i] by (auto simp: put_count_opt_def ready_opt_def split: if_splits)

lemma wp_put_count_opt:
  assumes "opt_tl_ok cfg g l" "opt_PWindow l = global_PWindow g" "opt_GWindow l = global_GWindow g" "length (put_array g) = width cfg"
    and "win_inv2Dd cfg (global_PWindow g) (global_GWindow g) (pc_opt g) (gc_opt g)" "global_PWindow g < W64"
  shows "wp (read_put_count l) Q g \<longleftrightarrow> Q (put_count_opt cfg g (opt_get_index l)) g"
proof -
  have "depth cfg \<le> global_PWindow g" if "global_GWindow g < global_PWindow g" using win_invD(7) [OF assms(5) that] by simp
  then show ?thesis using assms by (auto simp: read_put_count_def put_count_opt_def opt_tl_ok_def wp_loads sub64_eq)
qed

text \<open>One pass over the sub-queues.\<close>

lemma get_walk_opt:
  assumes q: "0 < width cfg" "width cfg < 65536" "random_hops cfg < 65536" "length (get_array g) = width cfg" "length (put_array g) = width cfg"
    and win: "win_inv2Dd cfg (global_PWindow g) (global_GWindow g) (pc_opt g) (gc_opt g)" and room: "global_PWindow g < W64"
    and hit: "\<And>l'. opt_tl_ok cfg g l' \<Longrightarrow> opt_PWindow l' = global_PWindow g \<Longrightarrow> opt_GWindow l' = global_GWindow g \<Longrightarrow>
        ready_opt g (opt_get_index l') \<Longrightarrow> Q (get_array g ! opt_get_index l', l'\<lparr>opt_put_index := opt_get_index l'\<rparr>) g"
    and stop: "\<And>l' m ne'. opt_tl_ok cfg g l' \<Longrightarrow> opt_PWindow l' = global_PWindow g \<Longrightarrow> opt_GWindow l' = global_GWindow g \<Longrightarrow>
        \<forall>j < width cfg. \<not> ready_opt g j \<Longrightarrow> (ne' \<Longrightarrow> global_GWindow g < global_PWindow g) \<Longrightarrow> extra \<le> m \<Longrightarrow>
        wp (get_window_loop_opt (Suc m) cfg l' (width cfg) (random_hops cfg) ne') Q g"
    and "opt_tl_ok cfg g l" "opt_PWindow l = global_PWindow g" "opt_GWindow l = global_GWindow g" "hops \<le> width cfg"
    and "random \<le> random_hops cfg" "random < random_hops cfg \<longrightarrow> hops = 0"
    and "seen (width cfg) (opt_get_index l) hops (\<lambda>j. \<not> ready_opt g j)" "ne \<Longrightarrow> global_GWindow g < global_PWindow g"
    and "(random_hops cfg - random) + (width cfg - hops) + 1 + extra \<le> n"
  shows "wp (get_window_loop_opt n cfg l hops random ne) Q g"
  using assms(10-)
proof (induction n arbitrary: l hops random ne)
  case 0
  then show ?case by simp
next
  case (Suc n)
  let ?i = "opt_get_index l" and ?p = "put_count_opt cfg g (opt_get_index l)"
  have l: "?i < width cfg" "thread_width l = width cfg" using Suc.prems(1) by (simp_all add: opt_tl_ok_def)
  note R = ready_opt_iff [OF win l(1)] and C = wp_put_count_opt [OF Suc.prems(1-3) q(5) win room]
  show ?case
  proof (cases "ready_opt g ?i")
    case True
    then have "gc_opt g ?i < global_GWindow g" "gc_opt g ?i < ?p" using R(1) by simp_all
    then show ?thesis using hit [OF Suc.prems(1-3) True] l(1) q(4) Suc.prems(3)
      by (simp add: wp_loads C)
  next
    case miss: False
    show ?thesis
    proof (cases "hops = width cfg")
      case False
      then have hops: "hops < width cfg" using Suc.prems(4) by simp
      define e where "e = (if \<not> ne \<and> gc_opt g ?i < ?p then True else ne)"
      have e: "e \<Longrightarrow> global_GWindow g < global_PWindow g" using Suc.prems(8) R(2) [OF miss] by (auto simp: e_def split: if_splits)
      have "wp (hop_opt cfg l ?i random hops (width cfg))
        (\<lambda>(index, random, hops, l). wp (get_window_loop_opt n cfg (l\<lparr>opt_get_index := index\<rparr>) hops random e) Q) g"
        by (rule opt_hop.hop_search [OF _ l(1) hops Suc.prems(5-7)]) (use q(2,3) Suc.prems miss e in \<open>auto intro!: Suc.IH opt_tl_ok_index\<close>)
      moreover have "\<not> (gc_opt g ?i < global_GWindow g \<and> gc_opt g ?i < ?p)" using R(1) miss by simp
      ultimately show ?thesis using l q(4) Suc.prems(3) False
        by (simp add: wp_loads C case_prod_unfold e_def Let_def) blast
    next
      case True
      have all: "\<forall>j < width cfg. \<not> ready_opt g j" using Suc.prems True l(1) by (intro seen_all) auto
      have "random = random_hops cfg" using Suc.prems(5,6) True q(1) by auto
      then show ?thesis using stop [OF Suc.prems(1-3) all Suc.prems(8)] Suc.prems(9) True by (simp del: get_window_loop_opt.simps)
    qed
  qed
qed

text \<open>If nothing is ready, the window moves at most once, and then something is.\<close>

lemma get_loop_seq_opt:
  assumes q: "opt_quiet cfg g" and room: "room2Dd cfg g" and l: "opt_tl_ok cfg g l" "opt_PWindow l = global_PWindow g" "opt_GWindow l = global_GWindow g"
    and n: "fuel2Dd cfg \<le> n"
  shows "wp (get_window_loop_opt n cfg l 0 0 False) (get_post_opt cfg g) g"
proof -
  note O = opt_quietD [OF q]
  note W = win_invD [OF O(8)]
  let ?G = "global_GWindow g" and ?P = "global_PWindow g"
  have P: "?P < W64" using room by (simp add: room2Dd_def)
  show ?thesis
  proof (rule get_walk_opt [OF O(2,4,5,6,7,8) P, where extra = "width cfg + 1"])
    show "get_post_opt cfg g (get_array g ! opt_get_index k, k\<lparr>opt_put_index := opt_get_index k\<rparr>) g"
      if "opt_tl_ok cfg g k" "opt_PWindow k = ?P" "opt_GWindow k = ?G" "ready_opt g (opt_get_index k)" for k
      using that W(3) by (auto simp: get_post_opt_def opt_tl_ok_def get_post_2Dd_def ready_opt_def)
    fix k m ne
    assume k: "opt_tl_ok cfg g k" "opt_PWindow k = ?P" "opt_GWindow k = ?G" and none: "\<forall>j < width cfg. \<not> ready_opt g j"
      and ne: "ne \<Longrightarrow> ?G < ?P" and m: "width cfg + 1 \<le> m"
    have i: "opt_get_index k < width cfg" "thread_width k = width cfg" "thread_depth k = depth cfg" using k(1) by (simp_all add: opt_tl_ok_def)
    have miss: "\<not> (gc_opt g (opt_get_index k) < ?G \<and> gc_opt g (opt_get_index k) < put_count_opt cfg g (opt_get_index k))"
      using ready_opt_iff(1) [OF O(8) i(1)] none i(1) by simp
    note C = wp_put_count_opt [OF k O(7,8) P]
    show "wp (get_window_loop_opt (Suc m) cfg k (width cfg) (random_hops cfg) ne) (get_post_opt cfg g) g"
    proof (cases "?G = ?P")
      case True
      have "pc_opt g j = gc_opt g j" if "j < width cfg" for j
        using none that W(4,5,6) [OF that] True by (auto simp: ready_opt_def)
      then have "get_post_opt cfg g (get_array g ! opt_get_index k, k\<lparr>opt_put_index := opt_get_index k\<rparr>) g"
        using k i(1) W(3) by (auto simp: get_post_opt_def opt_tl_ok_def get_post_2Dd_def)
      then show ?thesis using miss k i True ne O(6) by (simp add: wp_loads C) blast
    next
      case False
      then have lt: "?G < ?P" using W(3) by simp
      let ?g = "g\<lparr>global_GWindow := ?G + depth cfg\<rparr>"
      let ?k = "k\<lparr>my_slide_count := add64 (my_slide_count k) 1, opt_GWindow := ?G + depth cfg\<rparr>"
      have new: "add64 ?G (depth cfg) = ?G + depth cfg" using room by (simp add: room2Dd_def add64_eq)
      have at: "gc_opt g j = ?G" if "j < width cfg" for j
        using none that W(4,5) [OF that] W(7) [OF lt] by (auto simp: ready_opt_def)
      have le: "?G + depth cfg \<le> ?P" by (rule W(7) [OF lt])
      have "depth cfg dvd ?G" "depth cfg \<noteq> 0" using W(2) O(3) by simp_all
      then have "depth cfg \<le> ?G" using O(10) by (simp add: dvd_imp_le)
      then have "depth cfg < ?P" using lt by simp
      then obtain j where j: "j < width cfg" "?P - depth cfg < pc_opt g j" using O(9) by blast
      then have jG: "pc_opt g j \<noteq> gc_opt g j" using at [OF j(1)] le by simp
      have rj: "ready_opt ?g j" using jG at [OF j(1)] O(3) by (simp add: ready_opt_def)
      have win': "win_inv2Dd cfg (global_PWindow ?g) (global_GWindow ?g) (pc_opt ?g) (gc_opt ?g)"
        using O(8) at le by (auto simp: win_inv2Dd_def)
      have "wp (get_window_loop_opt m cfg ?k 0 (random_hops cfg) False) (get_post_opt cfg g) ?g"
      proof (rule get_walk_opt [OF O(2,4,5) _ _ win', where extra = 0])
        show "get_post_opt cfg g (get_array ?g ! opt_get_index k', k'\<lparr>opt_put_index := opt_get_index k'\<rparr>) ?g"
          if "opt_tl_ok cfg ?g k'" "opt_PWindow k' = global_PWindow ?g" "opt_GWindow k' = global_GWindow ?g" "ready_opt ?g (opt_get_index k')" for k'
        proof -
          have "get_post_2Dd cfg (pc_opt g) ((!) (get_array g)) qd_count g (get_array g ! opt_get_index k', as_tl (opt_get_index k') (k'\<lparr>opt_put_index := opt_get_index k'\<rparr>)) ?g"
            using that(1,4) at j(1) jG by (auto simp: get_post_2Dd_def ready_opt_def opt_tl_ok_def)
          then show ?thesis using that le by (simp add: get_post_opt_def opt_tl_ok_def)
        qed
        show "wp (get_window_loop_opt (Suc a) cfg k' (width cfg) (random_hops cfg) e) (get_post_opt cfg g) ?g"
          if "\<forall>j < width cfg. \<not> ready_opt ?g j" for a e k' using that rj j(1) by blast
      qed (use k m O(6,7) P in \<open>auto simp: opt_tl_ok_def\<close>)
      then show ?thesis using miss k i lt O(6) by (simp add: wp_loads C new cae_GWindow_def Let_def) blast
    qed
  qed (use l n in \<open>simp_all add: fuel2Dd_def\<close>)
qed

lemma get_window_seq_opt:
  assumes q: "opt_quiet cfg g" and room: "room2Dd cfg g" and l: "opt_tl_ok cfg g l" "opt_PWindow l = global_PWindow g"
    and fuel: "fuel2Dd cfg \<le> n"
  shows "wp (get_window_opt n cfg l contention) (get_post_opt cfg g) g"
proof -
  have w: "thread_width l = width cfg" using l by (simp add: opt_tl_ok_def)
  have loop: "wp (get_window_loop_opt n cfg (l'\<lparr>opt_GWindow := global_GWindow g\<rparr>) 0 0 False) (get_post_opt cfg g) g"
    if "opt_tl_ok cfg g l'" "opt_PWindow l' = global_PWindow g" for l'
    using that fuel opt_tl_ok_index(3) [OF that(1)] by (intro get_loop_seq_opt [OF q room]) auto
  show ?thesis using l opt_quietD(2) [OF q]
    by (auto simp: get_window_opt_def w intro!: wp_random_mod loop opt_tl_ok_index)
qed

section \<open>Enqueue and dequeue\<close>

definition enqueued_opt :: "ds2Dd \<Rightarrow> queue2Dd \<Rightarrow> int \<times> opt_tl \<Rightarrow> queue2Dd \<Rightarrow> bool" where
  "enqueued_opt cfg g = (\<lambda>(r, l') g'. r = 1 \<and> opt_quiet cfg g' \<and> opt_tl_ok cfg g' l' \<and>
     global_PWindow g' \<le> global_PWindow g + depth cfg \<and> global_GWindow g \<le> global_GWindow g' \<and>
     (\<exists>p. spec_queue (width cfg) (depth cfg) (abs_queue_2Dd g) (Enqueued p) (abs_queue_2Dd g')))"

definition dequeued_opt :: "ds2Dd \<Rightarrow> queue2Dd \<Rightarrow> int \<times> opt_tl \<Rightarrow> queue2Dd \<Rightarrow> bool" where
  "dequeued_opt cfg g = (\<lambda>(r, l') g'. opt_quiet cfg g' \<and> opt_tl_ok cfg g' l' \<and>
     global_PWindow g' = global_PWindow g \<and> global_GWindow g \<le> global_GWindow g' \<and>
     (\<exists>k. dequeued_2Dd cfg g (r, k) g'))"

lemma enqueue_loop_seq_opt:
  assumes q: "opt_quiet cfg g" and room: "room2Dd cfg g" and l: "opt_tl_ok cfg g l" and fuel: "fuel2Dd cfg \<le> fuel"
    and p: "unlinked (qmem g) t p" "heap (nodes (qmem g)) p = Some nd" "n_next nd = NULL"
  shows "wp (enqueue_loop_opt (Suc n) fuel cfg p l False) (enqueued_opt cfg g) g"
  unfolding enqueue_loop_opt.simps wp_bind
proof (rule wp_mono [OF put_window_seq_opt [OF q room l fuel]], goal_cases)
  case (1 r h)
  obtain d l' where r: "r = (d, l')" by (cases r)
  note O = opt_quietD [OF q]
  let ?i = "opt_put_index l'"
  have ok: "opt_tl_ok cfg h l'" and post: "put_post_2Dd cfg ((!) (put_array g)) qd_count g (d, as_tl ?i l') h"
    using 1 by (simp_all add: put_post_opt_def r)
  have h: "?i < width cfg" "d = put_array g ! ?i" "opt_PWindow l' = global_PWindow h" "qd_count d < global_PWindow h"
    "put_array h = put_array g" "qmem h = qmem g" "global_GWindow h = global_GWindow g"
    and mv: "global_PWindow h = global_PWindow g \<or>
      global_PWindow h = global_PWindow g + depth cfg \<and> (\<forall>j < width cfg. pc_opt g j = global_PWindow g)"
    using post by (auto simp: put_post_2Dd_def)
  have inv: "queue_inv_2Dd cfg g" and len: "qd_count d + 1 = length (links (qmem g) ! ?i)"
    using O(1) h(1,2) by (simp_all add: quiet_queue_2Dd_def)
  have "place (qmem g) ?i (qd_count d) (qd_node d)" using queue_inv_place(2) [OF inv h(1)] h(2) by simp
  then obtain nl where nl: "heap (nodes (qmem g)) (qd_node d) = Some nl" "n_next nl = NULL"
    using place_next [OF queue_invD(2) [OF inv]] len by metis
  let ?d = "\<lparr>qd_node = p, qd_count = add64 (qd_count d) 1\<rparr>"
  let ?h = "h\<lparr>qmem := qm_link ?i (qd_node d) p (qmem h), put_array := (put_array h)[?i := ?d]\<rparr>"
  have e: "enqueued_2Dd cfg g p (n_val nd) (1, as_tl ?i l') ?h"
    by (rule enqueue_commit_2Dd [OF O(1) room p(1,2,3) refl post]) simp
  have low: "global_PWindow h - depth cfg \<le> qd_count d" using mv win_invD(4) [OF O(8) h(1)] h(1,2) by auto
  have "global_PWindow h < W64" using mv room by (auto simp: room2Dd_def)
  then have "qd_count ?d = qd_count d + 1" using h(4) by (simp add: add64_eq)
  then have used: "global_PWindow ?h - depth cfg < qd_count (put_array ?h ! ?i)" using low h(1,5) O(7) by simp
  have "opt_quiet cfg ?h"
    using e O(4,5,10) used h(1,7) by (auto simp: opt_quiet_def enqueued_2Dd_def)
  moreover have "opt_tl_ok cfg ?h l'" using ok by (simp add: opt_tl_ok_def)
  ultimately have "enqueued_opt cfg g (1, l') ?h" using e h(7) by (auto simp: enqueued_opt_def enqueued_2Dd_def)
  moreover have "opt_GWindow l' \<le> global_PWindow h"
    using ok h(7) win_invD(3) [OF O(8)] mv by (auto simp: opt_tl_ok_def)
  ultimately show ?case unfolding r prod.case Let_def using nl h O(7) by (simp add: wp_loads wp_cas)
qed

lemma opt_quiet_alloc:
  assumes "opt_quiet cfg g" "p \<noteq> NULL" "p \<notin> set (allocd (nodes (qmem g)))"
  shows "opt_quiet cfg (g\<lparr>qmem := qm_alloc t p nd (qmem g)\<rparr>)"
  using assms quiet_alloc_2Dd(1) [OF opt_quietD(1) [OF assms(1)] assms(2,3)] by (simp add: opt_quiet_def)

lemma enqueue_seq_opt:
  assumes al: "alloc_fresh al" and q: "opt_quiet cfg g" and room: "room2Dd cfg g" and l: "opt_tl_ok cfg g l" and fuel: "fuel2Dd cfg \<le> fuel"
  shows "wp (enqueue_opt al fuel cfg t key val l) (enqueued_opt cfg g) g"
proof -
  let ?p = "al t (allocd (nodes (qmem g)))" and ?nd = "\<lparr>n_key = key, n_val = val, n_next = NULL\<rparr>"
  let ?g = "g\<lparr>qmem := qm_alloc t ?p ?nd (qmem g)\<rparr>"
  obtain n where n: "fuel = Suc n" using fuel by (cases fuel) (auto simp: fuel2Dd_def)
  have np: "?p \<noteq> NULL" "?p \<notin> set (allocd (nodes (qmem g)))" using al by (auto simp: alloc_fresh_def)
  note A = quiet_alloc_2Dd [OF opt_quietD(1) [OF q] np, of t ?nd]
  have abs: "abs_queue_2Dd ?g = abs_queue_2Dd g" by (simp add: abs_queue_2Dd_def qm_alloc_def)
  have "wp (enqueue_loop_opt (Suc n) fuel cfg ?p l False) (enqueued_opt cfg ?g) ?g"
    by (rule enqueue_loop_seq_opt [OF opt_quiet_alloc [OF q np] _ _ fuel])
      (use room l A(2,3) in \<open>auto simp: room2Dd_def opt_tl_ok_def\<close>)
  then have "wp (enqueue_loop_opt fuel fuel cfg ?p l False) (enqueued_opt cfg g) ?g"
    unfolding n by (rule wp_mono) (simp add: enqueued_opt_def abs)
  then show ?thesis by (simp add: enqueue_opt_def wp_cas)
qed

lemma opt_quiet_dequeued:
  assumes q: "opt_quiet cfg g" and d: "dequeued_2Dd cfg g (r, k) g'" and "put_array g' = put_array g" "global_GWindow g \<le> global_GWindow g'"
  shows "opt_quiet cfg g'"
  using assms opt_quietD(4,5,9,10) [OF q] by (auto simp: opt_quiet_def dequeued_2Dd_def)

text \<open>The dequeue of the item behind the head.\<close>

lemma safe_deq_seq_opt:
  assumes q: "opt_quiet cfg g" and room: "room2Dd cfg g" and ok: "opt_tl_ok cfg h l'"
    and post: "get_post_2Dd cfg (pc_opt g) ((!) (get_array g)) qd_count g (d, as_tl (opt_get_index l') l') h"
    and ne: "pc_opt g (opt_get_index l') \<noteq> qd_count d"
  shows "wp (safe_deq_opt t d l' retry) (dequeued_opt cfg g) h"
proof -
  note O = opt_quietD [OF q]
  let ?i = "opt_get_index l'"
  have h: "?i < width cfg" "d = get_array g ! ?i" "put_array h = put_array g" "get_array h = get_array g" "qmem h = qmem g"
    "global_GWindow g \<le> global_GWindow h" using post by (auto simp: get_post_2Dd_def)
  have inv: "queue_inv_2Dd cfg g" using O(1) by (simp add: quiet_queue_2Dd_def)
  have "place (qmem g) ?i (qd_count d) (qd_node d)" using queue_inv_place(1) [OF inv h(1)] h(2) by simp
  then obtain nd where nd: "heap (nodes (qmem g)) (qd_node d) = Some nd" using place_next [OF queue_invD(2) [OF inv]] by metis
  let ?h = "h\<lparr>get_array := (get_array h)[?i := \<lparr>qd_node = n_next nd, qd_count = add64 (qd_count d) 1\<rparr>],
                   qmem := qm_free t (qd_node d) (qm_take t (qd_node d) (n_next nd) (qmem h))\<rparr>"
  have D: "dequeued_2Dd cfg g (node_val (nodes (qmem g)) (n_next nd), as_tl ?i l') ?h"
    and ex: "\<exists>nn. heap (nodes (qmem g)) (n_next nd) = Some nn"
    using dequeue_commit_2Dd [OF O(1) room post _ nd, of ?h] ne by simp_all
  obtain nn where nn: "heap (nodes (qmem g)) (n_next nd) = Some nn" using ex by blast
  have "opt_quiet cfg ?h" by (rule opt_quiet_dequeued [OF q D]) (use h in simp_all)
  moreover have "opt_tl_ok cfg ?h l'" using ok by (simp add: opt_tl_ok_def)
  moreover have "dequeued_2Dd cfg g (n_val nn, as_tl ?i l') ?h" using D nn by (simp add: node_val_def)
  moreover have "global_PWindow ?h = global_PWindow g" using D by (simp add: dequeued_2Dd_def)
  ultimately have "dequeued_opt cfg g (n_val nn, l') ?h"
    unfolding dequeued_opt_def prod.case using h(6) by (intro conjI exI [of _ "as_tl ?i l'"]) simp_all
  then show ?thesis using nd nn h O(6)
    by (simp add: safe_deq_opt_def wp_loads wp_cas Let_def qm_free_def qm_take_def mem_remove_def mem_free_def)
qed

lemma dequeue_seq_opt:
  assumes q: "opt_quiet cfg g" and room: "room2Dd cfg g" and l: "opt_tl_ok cfg g l" and fuel: "fuel2Dd cfg \<le> fuel"
  shows "wp (dequeue_opt fuel cfg t l) (dequeued_opt cfg g) g"
proof -
  obtain n where n: "fuel = Suc n" using fuel by (cases fuel) (auto simp: fuel2Dd_def)
  note O = opt_quietD [OF q]
  let ?l = "l\<lparr>opt_PWindow := global_PWindow g\<rparr>"
  have inv: "queue_inv_2Dd cfg g" using O(1) by (simp add: quiet_queue_2Dd_def)
  have l1: "opt_tl_ok cfg g ?l" "opt_PWindow ?l = global_PWindow g" using l by simp_all
  have "wp (dequeue_loop_opt fuel fuel cfg t ?l False) (dequeued_opt cfg g) g"
    unfolding n dequeue_loop_opt.simps wp_bind
  proof (rule wp_mono [OF get_window_seq_opt [OF q room l1 fuel, unfolded n]], goal_cases)
    case (1 r h)
    obtain d l' where r: "r = (d, l')" by (cases r)
    let ?i = "opt_get_index l'" and ?again = "\<lambda>l. dequeue_loop_opt n (Suc n) cfg t l True"
    have ok: "opt_tl_ok cfg h l'" and w: "opt_PWindow l' = global_PWindow g" "opt_GWindow l' = global_GWindow h"
      "global_GWindow h \<le> global_PWindow g"
      and post: "get_post_2Dd cfg (pc_opt g) ((!) (get_array g)) qd_count g (d, as_tl ?i l') h"
      using 1 by (simp_all add: get_post_opt_def r)
    have h: "?i < width cfg" "d = get_array g ! ?i" "put_array h = put_array g" "qmem h = qmem g"
      using post by (auto simp: get_post_2Dd_def)
    note safe = safe_deq_seq_opt [OF q room ok post]
    have pl: "place (qmem g) ?i (qd_count d) (qd_node d)" "place (qmem g) ?i (pc_opt g ?i) (qd_node (put_array g ! ?i))"
      using queue_inv_place(1,2) [OF inv h(1)] h(2) by simp_all
    show ?case
    proof (cases "pc_opt g ?i = qd_count d")
      case True
      have g': "h = g" and all: "\<forall>j < width cfg. pc_opt g j = gc_opt g j" using post True by (auto simp: get_post_2Dd_def)
      have "\<not> global_GWindow g < global_PWindow g"
      proof
        assume lt: "global_GWindow g < global_PWindow g"
        have "depth cfg \<le> global_GWindow g" using win_invD(2) [OF O(8)] O(10) by (simp add: dvd_imp_le)
        then obtain j where j: "j < width cfg" "global_PWindow g - depth cfg < pc_opt g j" using O(9) lt by auto
        have "pc_opt g j = gc_opt g j" using all j(1) by blast
        then show False using j(2) win_invD(5) [OF O(8) j(1)] win_invD(7) [OF O(8) lt] by linarith
      qed
      then have nlt: "\<not> opt_PWindow l' > opt_GWindow l'" using w g' by simp
      have same: "qd_node (put_array g ! ?i) = qd_node d" using pl True by (simp add: place_def)
      obtain nd where nd: "heap (nodes (qmem g)) (qd_node d) = Some nd" "n_next nd = NULL \<longleftrightarrow> qd_count d + 1 = length (links (qmem g) ! ?i)"
        using place_next [OF queue_invD(2) [OF inv] pl(1)] by metis
      then have null: "n_next nd = NULL" using O(1) h(1) True by (simp add: quiet_queue_2Dd_def)
      have D: "dequeued_2Dd cfg g (0, (as_tl ?i l')\<lparr>my_null_count := add64 (my_null_count l') 1\<rparr>) g"
        using dequeue_null_2Dd [OF O(1) post] True g' by simp
      have "dequeued_opt cfg g (0, l'\<lparr>my_null_count := add64 (my_null_count l') 1\<rparr>) g"
        using q ok D g' by (auto simp: dequeued_opt_def)
      then show ?thesis unfolding r prod.case Let_def using nd(1) null same nlt h O(7) g' by (simp add: wp_loads)
    next
      case False
      then have "qd_node d \<noteq> qd_node (put_array g ! ?i)" using pl place_inj [OF queue_invD(2) [OF inv]] by metis
      then show ?thesis unfolding r prod.case Let_def using safe [OF False] h O(7) by (simp add: wp_loads)
    qed
  qed
  then show ?thesis by (simp add: dequeue_opt_def)
qed

section \<open>Calls one after the other\<close>

definition queue_call_opt :: "allocator \<Rightarrow> nat \<Rightarrow> ds2Dd \<Rightarrow> nat \<Rightarrow> queue_call \<Rightarrow> opt_tl \<Rightarrow> (queue2Dd, int \<times> opt_tl) prog" where
  "queue_call_opt al fuel cfg t c l =
     (case c of Enq key val \<Rightarrow> enqueue_opt al fuel cfg t key val l | Deq \<Rightarrow> dequeue_opt fuel cfg t l)"

definition queue_calls_inv_opt :: "allocator \<Rightarrow> nat \<Rightarrow> ds2Dd \<Rightarrow> nat \<Rightarrow> opt_tl list \<Rightarrow> queue2Dd \<Rightarrow> bool" where
  "queue_calls_inv_opt al fuel cfg n ls g \<longleftrightarrow> alloc_fresh al \<and> fuel2Dd cfg \<le> fuel \<and> opt_quiet cfg g \<and>
     queue_spec_inv (width cfg) (depth cfg) (abs_queue_2Dd g) \<and> (\<forall>l \<in> set ls. opt_tl_ok cfg g l) \<and>
     global_PWindow g + (n + 1) * depth cfg < W64"

lemma queue_calls_opt_room: "queue_calls_inv_opt al fuel cfg n ls g \<Longrightarrow> room2Dd cfg g"
  using win_invD(3) [OF opt_quietD(8), of cfg g] by (simp add: queue_calls_inv_opt_def room2Dd_def distrib_right)

lemma queue_calls_opt_step:
  assumes inv: "queue_calls_inv_opt al fuel cfg (Suc n) ls g" and q: "opt_quiet cfg g'" and l: "opt_tl_ok cfg g' l"
    and P: "global_PWindow g' \<le> global_PWindow g + depth cfg" "global_GWindow g \<le> global_GWindow g'"
    and st: "spec_queue (width cfg) (depth cfg) (abs_queue_2Dd g) e (abs_queue_2Dd g')"
  shows "queue_calls_inv_opt al fuel cfg n (ls[t := l]) g'"
proof -
  have "opt_tl_ok cfg g' k" if "opt_tl_ok cfg g k" for k using that P(2) by (auto simp: opt_tl_ok_def)
  then have "\<forall>k \<in> set (ls[t := l]). opt_tl_ok cfg g' k"
    using inv l set_update_subset_insert [of ls t l] by (auto simp: queue_calls_inv_opt_def)
  moreover have "queue_spec_inv (width cfg) (depth cfg) (abs_queue_2Dd g')"
    using queue_spec_inv_step [OF _ st] inv by (simp add: queue_calls_inv_opt_def)
  ultimately show ?thesis using inv q P by (simp add: queue_calls_inv_opt_def algebra_simps)
qed

interpretation opt_calls: budgeted_calls "queue_call_opt al fuel cfg" "queue_calls_inv_opt al fuel cfg" abs_queue_2Dd
  "queue_spec (width cfg) (depth cfg)" for al fuel cfg
proof
  fix n ls g t c
  assume inv: "queue_calls_inv_opt al fuel cfg (Suc n) ls g" and t: "t < length ls"
  then have c: "alloc_fresh al" "opt_quiet cfg g" "opt_tl_ok cfg g (ls ! t)" "fuel2Dd cfg \<le> fuel"
    by (simp_all add: queue_calls_inv_opt_def)
  note r = queue_calls_opt_room [OF inv]
  show "wp (queue_call_opt al fuel cfg t c (ls ! t)) (\<lambda>(r, l) g'. queue_calls_inv_opt al fuel cfg n (ls[t := l]) g' \<and>
      queue_spec (width cfg) (depth cfg) c (abs_queue_2Dd g) r (abs_queue_2Dd g')) g"
  proof (cases c)
    case (Enq key val)
    show ?thesis unfolding Enq queue_call_opt_def queue_call.case
      by (rule wp_mono [OF enqueue_seq_opt [OF c(1,2) r c(3,4)]])
        (auto simp: enqueued_opt_def queue_spec_def intro: queue_calls_opt_step [OF inv])
  next
    case Deq
    show ?thesis unfolding Deq queue_call_opt_def queue_call.case
      by (rule wp_mono [OF dequeue_seq_opt [OF c(2) r c(3,4)]])
        (auto simp: dequeued_opt_def dequeued_2Dd_def queue_spec_def intro: queue_calls_opt_step [OF inv])
  qed
qed

section \<open>What create\_queue sets up\<close>

definition zero_opt_tl :: "seeds \<Rightarrow> opt_tl" where
  "zero_opt_tl sd = \<lparr>seeds = sd, my_put_cas_fail_count = 0, my_get_cas_fail_count = 0, my_null_count = 0, my_hop_count = 0,
     my_slide_count = 0, my_slide_fail_count = 0, opt_PWindow = 0, opt_GWindow = 0, thread_depth = 0, thread_width = 0,
     opt_put_index = 0, opt_get_index = 0\<rparr>"

lemma thread_init_ok: "0 < width cfg \<Longrightarrow> opt_tl_ok cfg g (ds_thread_init cfg (zero_opt_tl sd))"
  by (simp add: opt_tl_ok_def ds_thread_init_def zero_opt_tl_def)

lemma create_queue_opt_ok:
  assumes c: "create_queue_opt al t junk nt w d mode bound = Some (cfg, g)" and al: "alloc_fresh al"
    and u: "1 \<le> width cfg" "width cfg < 65536"
  shows "opt_quiet cfg g" "queue_spec_inv (width cfg) (depth cfg) (abs_queue_2Dd g)" "global_PWindow g = depth cfg"
proof -
  let ?m = "add_sentinels al t junk (width cfg)"
  have g: "g = \<lparr>global_PWindow = depth cfg, global_GWindow = depth cfg,
      get_array = map (\<lambda>q. \<lparr>qd_node = hd q, qd_count = 0\<rparr>) (links ?m), put_array = map (\<lambda>q. \<lparr>qd_node = hd q, qd_count = 0\<rparr>) (links ?m),
      qmem = ?m\<rparr>" and hops: "random_hops cfg = 2" and d: "1 \<le> depth cfg"
    using c by (auto simp: create_queue_opt_def initialize_global_window_opt_def Let_def split: option.splits if_splits)
  note S = add_sentinels_ok [OF al, of t junk "width cfg"]
  have one: "length (links ?m ! i) = 1" if "i < width cfg" for i using S(2,3) that by simp
  have "heads_2Dd g = map (\<lambda>q. (hd q, 0)) (links ?m)" "tails_2Dd g = map (\<lambda>q. (hd q, 0)) (links ?m)" by (simp_all add: g ends_def)
  then have "queue_inv_2Dd cfg g" using S(1,2) by (simp add: queue_inv_2Dd_def g)
  then have "quiet_queue_2Dd cfg g"
    using u d hops S(2) one by (simp add: quiet_queue_2Dd_def g ds2Dd_ok_def win_inv2Dd_def W64_def)
  then show "opt_quiet cfg g" using u(2) d hops by (simp add: opt_quiet_def g)
  have "tl (links ?m ! i) = []" if "i < width cfg" for i using one [OF that] by (cases "links ?m ! i") auto
  then have "map tl (links ?m) = replicate (width cfg) []" using S(2) by (intro nth_equalityI) auto
  then have "abs_queue_2Dd g = \<lparr>q_items = replicate (width cfg) [], q_gets = replicate (width cfg) 0, q_put_max = depth cfg,
      q_get_max = depth cfg, q_hist = []\<rparr>"
    using S(2,4) by (simp add: abs_queue_2Dd_def g map_replicate_const comp_def)
  then show "queue_spec_inv (width cfg) (depth cfg) (abs_queue_2Dd g)" using u d by (simp add: queue_spec_inv_def row_ordered_def)
  show "global_PWindow g = depth cfg" by (simp add: g)
qed

section \<open>Properties\<close>

text \<open>
  C30. The optimized 2Dd queue keeps the promise of the 2Dd queue, for calls that do not overlap: reading less does not make it less strict. Take the queue that
  \<^verbatim>\<open>create_queue\<close> returns, with a width of 1 to \<open>2 ^ 16 - 1\<close>, and threads that have called \<^verbatim>\<open>ds_thread_init\<close>, and any
  list of enqueues and dequeues by them, short enough for the 64-bit windows not to wrap. Every call returns and the answers are ones the abstract queue of the windows gives. A dequeue that follows
  returns 0 only if the queue is empty, and else the value of a node of the queue before which at most
  \<open>depth * (width - 1)\<close> of the nodes now in the queue were enqueued.
\<close>

theorem queue_opt_k_out_of_order:
  assumes c: "create_queue_opt al t0 junk nt w d mode bound = Some (cfg, g0)" and al: "alloc_fresh al"
    and u: "1 \<le> width cfg" "width cfg < 65536" "fuel2Dd cfg \<le> fuel" "(length cs + 3) * depth cfg < W64"
    and ls: "\<forall>(t, c) \<in> set cs. t < length sds" "t < length sds"
  shows "\<exists>rs ls' g r l g'. exec_calls (queue_call_opt al fuel cfg) cs (map (\<lambda>sd. ds_thread_init cfg (zero_opt_tl sd)) sds, g0) = Some (rs, ls', g) \<and>
    spec_run (queue_spec (width cfg) (depth cfg)) (map snd cs) (abs_queue_2Dd g0) rs (abs_queue_2Dd g) \<and>
    run (dequeue_opt fuel cfg t (ls' ! t)) g = (Done (r, l), g') \<and>
    (r = 0 \<and> concat (in_queue (abs_queue_2Dd g)) = [] \<or>
     (\<exists>p. p \<in> set (concat (in_queue (abs_queue_2Dd g))) \<and> r = node_val (nodes (qmem g)) p \<and>
        older (abs_queue_2Dd g) p \<le> depth cfg * (width cfg - 1)))"
proof -
  let ?ls = "map (\<lambda>sd. ds_thread_init cfg (zero_opt_tl sd)) sds"
  note C = create_queue_opt_ok [OF c al u(1,2)]
  have "queue_calls_inv_opt al fuel cfg (length cs + 1) ?ls g0"
    using C al u(3,4) thread_init_ok [of cfg g0] u(1) by (auto simp: queue_calls_inv_opt_def algebra_simps)
  then obtain rs ls' g where e: "exec_calls (queue_call_opt al fuel cfg) cs (?ls, g0) = Some (rs, ls', g)"
    and inv: "queue_calls_inv_opt al fuel cfg 1 ls' g" and len: "length ls' = length sds"
    and sp: "spec_run (queue_spec (width cfg) (depth cfg)) (map snd cs) (abs_queue_2Dd g0) rs (abs_queue_2Dd g)"
    using opt_calls.exec_calls_returns [of al fuel cfg cs 1 ?ls g0] ls(1) by auto
  have "wp (dequeue_opt fuel cfg t (ls' ! t)) (dequeued_opt cfg g) g"
    using inv len ls(2) queue_calls_opt_room [OF inv] by (intro dequeue_seq_opt) (auto simp: queue_calls_inv_opt_def)
  then obtain r l g' k where "run (dequeue_opt fuel cfg t (ls' ! t)) g = (Done (r, l), g')" "dequeued_2Dd cfg g (r, k) g'"
    by (auto simp: wp_run dequeued_opt_def)
  moreover have "queue_calls_inv_2Dd al fuel cfg 1 [] g"
    using inv opt_quietD(1) by (simp add: queue_calls_inv_opt_def queue_calls_inv_2Dd_def)
  ultimately show ?thesis using e sp dequeued_older [of al fuel cfg 1 "[]" g r k g']
    by (intro exI [of _ rs] exI [of _ ls'] exI [of _ g] exI [of _ r] exI [of _ l] exI [of _ g']) simp
qed

definition demo_queue_opt :: "ds2Dd \<times> queue2Dd" where
  "demo_queue_opt = the (create_queue_opt bump_alloc 0 \<lparr>n_key = 0, n_val = 0, n_next = 0\<rparr> 2 3 2 0 0)"

lemma demo_queue_opt_created:
  "create_queue_opt bump_alloc 0 \<lparr>n_key = 0, n_val = 0, n_next = 0\<rparr> 2 3 2 0 0 = Some (fst demo_queue_opt, snd demo_queue_opt)"
  by (simp add: demo_queue_opt_def create_queue_opt_def calc_params_def bound16_def initialize_global_window_opt_def Let_def)

lemma demo_queue_opt_cfg:
  "fst demo_queue_opt = \<lparr>random_hops = 2, width = 3, depth = 2, relaxation_bound = 4, k_mode = 0\<rparr>"
  by (simp add: demo_queue_opt_def create_queue_opt_def calc_params_def bound16_def initialize_global_window_opt_def Let_def)

theorem queue_opt_k_out_of_order_witness:
  "\<exists>rs ls' g r l g'. exec_calls (queue_call_opt bump_alloc 11 (fst demo_queue_opt)) [(0, Enq 1 10), (1, Enq 2 20), (0, Deq)]
       (map (\<lambda>sd. ds_thread_init (fst demo_queue_opt) (zero_opt_tl sd)) [(1, 2, 3), (4, 5, 6)], snd demo_queue_opt) = Some (rs, ls', g) \<and>
    spec_run (queue_spec (width (fst demo_queue_opt)) (depth (fst demo_queue_opt))) (map snd [(0 :: nat, Enq 1 10), (1, Enq 2 20), (0, Deq)])
      (abs_queue_2Dd (snd demo_queue_opt)) rs (abs_queue_2Dd g) \<and>
    run (dequeue_opt 11 (fst demo_queue_opt) 1 (ls' ! 1)) g = (Done (r, l), g') \<and>
    (r = 0 \<and> concat (in_queue (abs_queue_2Dd g)) = [] \<or>
     (\<exists>p. p \<in> set (concat (in_queue (abs_queue_2Dd g))) \<and> r = node_val (nodes (qmem g)) p \<and>
        older (abs_queue_2Dd g) p \<le> depth (fst demo_queue_opt) * (width (fst demo_queue_opt) - 1)))"
  by (rule queue_opt_k_out_of_order [OF demo_queue_opt_created bump_alloc_fresh])
    (simp_all add: demo_queue_opt_cfg fuel2Dd_def W64_def)

end
