(* ===== verification/Stack2Dc_Opt.thy ===== *)
theory Stack2Dc_Opt
  imports Stack2Dc
begin

text \<open>
  The optimized 2Dc stack of \<^verbatim>\<open>src/2Dc-stack_optimized\<close>: the 2Dc stack with narrow integers (a row is 32 bits wide, a version, a
  depth and a width 16 bits), an assertion in place of the guard of \<^verbatim>\<open>get_window\<close> on the lower end, another shift, and functions that
  change the width and the depth while the stack is used.

  The window, the descriptors and the nodes are the state \<open>stack2Dc\<close> of the 2Dc stack; the width and the depth are shared too
  here. The array has \<^verbatim>\<open>max_width\<close> cells, those from \<^verbatim>\<open>width\<close> on are not initialized. A compare-and-exchange of a window
  compares its two fields, not the padding between them.
\<close>

section \<open>Programs on a part of the state\<close>

text \<open>A program that works on a part of the state, which \<open>get\<close> reads and \<open>put\<close> replaces.\<close>

primrec zoom :: "('g \<Rightarrow> 'h) \<Rightarrow> ('h \<Rightarrow> 'g \<Rightarrow> 'g) \<Rightarrow> ('h, 'a) prog \<Rightarrow> ('g, 'a) prog" where
  "zoom get put (Ret a) = Ret a"
| "zoom get put Fault = Fault"
| "zoom get put NoFuel = NoFuel"
| "zoom get put (Act u k) = Act (\<lambda>g. put (u (get g)) g) (\<lambda>g. zoom get put (k (get g)))"

lemma zoom_if [simp]: "zoom get put (if b then p else q) = (if b then zoom get put p else zoom get put q)"
  by simp

lemma zoom_pbind: "zoom get put (pbind p f) = pbind (zoom get put p) (\<lambda>a. zoom get put (f a))"
  by (induction p) auto

text \<open>It does to the part what the program does to it, and nothing else, if the two functions fit.\<close>

locale part_of =
  fixes get :: "'g \<Rightarrow> 'h" and put :: "'h \<Rightarrow> 'g \<Rightarrow> 'g"
  assumes get_put [simp]: "get (put h g) = h" and put_put [simp]: "put h' (put h g) = put h' g" and put_get [simp]: "put (get g) g = g"
begin

lemma wp_zoom_put: "wp (zoom get put p) Q (put h g) = wp p (\<lambda>a h. Q a (put h g)) h"
  by (induction p arbitrary: h) auto

lemma wp_zoom: "wp (zoom get put p) Q g = wp p (\<lambda>a h. Q a (put h g)) (get g)"
  using wp_zoom_put [of p Q "get g" g] by simp

end

section \<open>State\<close>

record opt_ds =
  o_random_hops :: u64
  o_shift :: nat
  o_relaxation_bound :: u64
  o_k_mode :: nat

record opt_stack =
  st :: stack2Dc
  set_width :: nat
  set_depth :: nat

abbreviation on_stack :: "(stack2Dc, 'a) prog \<Rightarrow> (opt_stack, 'a) prog" where
  "on_stack \<equiv> zoom st (\<lambda>s. st_update (\<lambda>_. s))"

abbreviation rd_version :: "(opt_stack, nat) prog" where
  "rd_version \<equiv> rd (\<lambda>g. win_version (global_Window (st g)))"

interpretation on_stack: part_of st "\<lambda>s. st_update (\<lambda>_. s)"
  by unfold_locales simp_all

section \<open>The windows\<close>

definition add32 :: "nat \<Rightarrow> nat \<Rightarrow> nat" where
  "add32 a b = (a + b) mod 4294967296"

definition sub32 :: "nat \<Rightarrow> nat \<Rightarrow> nat" where
  "sub32 a b = (a + (4294967296 - b mod 4294967296)) mod 4294967296"

text \<open>The counter of random hops is a \<^verbatim>\<open>uint8_t\<close>.\<close>

definition hop_so :: "opt_ds \<Rightarrow> tl2Dc \<Rightarrow> u64 \<Rightarrow> nat \<Rightarrow> nat \<Rightarrow> nat \<Rightarrow> ('g, u64 \<times> nat \<times> nat \<times> tl2Dc) prog" where
  "hop_so c l index random hops w =
     (let l = l\<lparr>my_hop_count := add64 (my_hop_count l) 1\<rparr>
      in if random < o_random_hops c
         then pbind (random_mod w l) (\<lambda>(index, l). Ret (index, (random + 1) mod 256, hops, l))
         else let index = add64 index 1
              in Ret (if index \<ge> w then 0 else index, random, add16 hops 1, l))"

text \<open>The common first lines of \<^verbatim>\<open>put_window\<close> and \<^verbatim>\<open>get_window\<close>.\<close>

definition enter_window_so :: "tl2Dc \<Rightarrow> bool \<Rightarrow> (opt_stack, tl2Dc) prog" where
  "enter_window_so l contention =
     pbind rd_version (\<lambda>gv.
     pbind (if win_version (thread_Window l) \<noteq> gv
            then pbind (on_stack read_window) (\<lambda>w. Ret (l\<lparr>thread_Window := w\<rparr>)) else Ret l) (\<lambda>l.
     if contention
     then pbind (rd set_width) (\<lambda>w. pbind (random_mod w l) (\<lambda>(i, l). Ret (l\<lparr>thread_index := i\<rparr>)))
     else Ret l))"

text \<open>The common lines at the end of both loops: the compare-and-exchange of the window.\<close>

definition shift_window_so :: "tl2Dc \<Rightarrow> window2Dc \<Rightarrow> (opt_stack, tl2Dc) prog" where
  "shift_window_so l new_window =
     pbind rd_version (\<lambda>gv.
     if win_version (thread_Window l) = gv then
       pbind (on_stack (cae_window (thread_Window l) new_window)) (\<lambda>(success, found).
       if success then Ret (l\<lparr>thread_Window := new_window, my_slide_count := add64 (my_slide_count l) 1\<rparr>)
       else pbind (on_stack read_window) (\<lambda>w.
            Ret (l\<lparr>thread_Window := w, my_slide_fail_count := add64 (my_slide_fail_count l) 1\<rparr>)))
     else Ret l)"

fun put_window_loop_so :: "nat \<Rightarrow> opt_ds \<Rightarrow> tl2Dc \<Rightarrow> nat \<Rightarrow> nat \<Rightarrow> (opt_stack, descriptor2Dc \<times> tl2Dc) prog" where
  "put_window_loop_so 0 c l hops random = NoFuel"
| "put_window_loop_so (Suc n) c l hops random =
     pbind (on_stack (load_descriptor_2Dc (thread_index l))) (\<lambda>descriptor.
     pbind rd_version (\<lambda>gv.
     if gv \<noteq> win_version (thread_Window l) then
       pbind (on_stack read_window) (\<lambda>w. put_window_loop_so n c (l\<lparr>thread_Window := w\<rparr>) 0 random)
     else if d_count descriptor < win_max (thread_Window l) then
       Ret (descriptor, l)
     else
       pbind (rd set_width) (\<lambda>w.
       if hops \<noteq> w then
         pbind (rd set_width) (\<lambda>w.
         pbind (hop_so c l (thread_index l) random hops w) (\<lambda>(index, random, hops, l).
         put_window_loop_so n c (l\<lparr>thread_index := index\<rparr>) hops random))
       else
         pbind (shift_window_so l \<lparr>win_max = add32 (win_max (thread_Window l)) (o_shift c),
                                   win_version = add16 (win_version (thread_Window l)) 1\<rparr>) (\<lambda>l.
         put_window_loop_so n c l 0 random))))"

definition put_window_so :: "nat \<Rightarrow> opt_ds \<Rightarrow> tl2Dc \<Rightarrow> bool \<Rightarrow> (opt_stack, descriptor2Dc \<times> tl2Dc) prog" where
  "put_window_so fuel c l contention = pbind (enter_window_so l contention) (\<lambda>l. put_window_loop_so fuel c l 0 0)"

fun get_window_loop_so :: "nat \<Rightarrow> opt_ds \<Rightarrow> tl2Dc \<Rightarrow> nat \<Rightarrow> nat \<Rightarrow> bool \<Rightarrow> (opt_stack, descriptor2Dc \<times> tl2Dc) prog" where
  "get_window_loop_so 0 c l hops random emp = NoFuel"
| "get_window_loop_so (Suc n) c l hops random emp =
     pbind (on_stack (load_descriptor_2Dc (thread_index l))) (\<lambda>descriptor.
     pbind rd_version (\<lambda>gv.
     if gv \<noteq> win_version (thread_Window l) then
       pbind (on_stack read_window) (\<lambda>w. get_window_loop_so n c (l\<lparr>thread_Window := w\<rparr>) 0 random True)
     else
       pbind (rd set_depth) (\<lambda>d.
       if d_count descriptor > sub32 (win_max (thread_Window l)) d then Ret (descriptor, l)
       else
         pbind (rd set_width) (\<lambda>w.
         if hops \<noteq> w then
           (let emp = (if d_count descriptor > 0 then False else emp)
            in pbind (rd set_width) (\<lambda>w.
               pbind (hop_so c l (thread_index l) random hops w) (\<lambda>(index, random, hops, l).
               get_window_loop_so n c (l\<lparr>thread_index := index\<rparr>) hops random emp)))
         else if emp then Ret (descriptor, l)
         else
           let new_window = \<lparr>win_max = sub32 (win_max (thread_Window l)) (o_shift c),
                             win_version = add16 (win_version (thread_Window l)) 1\<rparr>
           in pbind (rd set_depth) (\<lambda>d.
              pbind (assert (win_max new_window \<ge> d)) (\<lambda>_.
              pbind (shift_window_so l new_window) (\<lambda>l.
              get_window_loop_so n c l 0 random True)))))))"

definition get_window_so :: "nat \<Rightarrow> opt_ds \<Rightarrow> tl2Dc \<Rightarrow> bool \<Rightarrow> (opt_stack, descriptor2Dc \<times> tl2Dc) prog" where
  "get_window_so fuel c l contention = pbind (enter_window_so l contention) (\<lambda>l. get_window_loop_so fuel c l 0 0 True)"

definition initialize_global_window_so :: "nat \<Rightarrow> window2Dc" where
  "initialize_global_window_so d = \<lparr>win_max = d, win_version = 1\<rparr>"

section \<open>The stack\<close>

fun push_loop_so :: "nat \<Rightarrow> nat \<Rightarrow> opt_ds \<Rightarrow> ptr \<Rightarrow> tl2Dc \<Rightarrow> bool \<Rightarrow> (opt_stack, int \<times> tl2Dc) prog" where
  "push_loop_so 0 fuel c new_node l contention = NoFuel"
| "push_loop_so (Suc n) fuel c new_node l contention =
     pbind (put_window_so fuel c l contention) (\<lambda>(descriptor, l).
     pbind (on_stack (wr (\<lambda>s. s\<lparr>mem := mem_set_next new_node (d_node descriptor) (mem s)\<rparr>))) (\<lambda>_.
     let new_descriptor = \<lparr>d_node = new_node, d_count = add64 (d_count descriptor) 1\<rparr>
     in pbind (on_stack (stack_cae_2Dc (thread_index l) descriptor new_descriptor (mem_publish new_node))) (\<lambda>success.
        if success then Ret (1, l)
        else push_loop_so n fuel c new_node (l\<lparr>my_put_cas_fail_count := add64 (my_put_cas_fail_count l) 1\<rparr>) True)))"

definition push_so :: "allocator \<Rightarrow> nat \<Rightarrow> opt_ds \<Rightarrow> nat \<Rightarrow> int \<Rightarrow> int \<Rightarrow> tl2Dc \<Rightarrow> (opt_stack, int \<times> tl2Dc) prog" where
  "push_so al fuel c t key val l =
     pbind (on_stack (create_node_2Dc al t key val NULL)) (\<lambda>new_node. push_loop_so fuel fuel c new_node l False)"

fun pop_loop_so :: "nat \<Rightarrow> nat \<Rightarrow> opt_ds \<Rightarrow> nat \<Rightarrow> tl2Dc \<Rightarrow> bool \<Rightarrow> (opt_stack, int \<times> tl2Dc) prog" where
  "pop_loop_so 0 fuel c t l contention = NoFuel"
| "pop_loop_so (Suc n) fuel c t l contention =
     pbind (get_window_so fuel c l contention) (\<lambda>(descriptor, l).
     if d_node descriptor \<noteq> NULL then
       pbind (rd_opt (\<lambda>g. map_option n_next (heap (mem (st g)) (d_node descriptor)))) (\<lambda>nxt.
       let new_descriptor = \<lparr>d_node = nxt, d_count = sub64 (d_count descriptor) 1\<rparr>
       in pbind (on_stack (stack_cae_2Dc (thread_index l) descriptor new_descriptor (mem_remove t (d_node descriptor)))) (\<lambda>success.
          if success then
            pbind (rd_opt (\<lambda>g. map_option n_val (heap (mem (st g)) (d_node descriptor)))) (\<lambda>node_val.
            pbind (on_stack (wr (\<lambda>s. s\<lparr>mem := mem_free t (d_node descriptor) (mem s)\<rparr>))) (\<lambda>_.
            Ret (node_val, l)))
          else pop_loop_so n fuel c t (l\<lparr>my_get_cas_fail_count := add64 (my_get_cas_fail_count l) 1\<rparr>) True))
     else Ret (0, l\<lparr>my_null_count := add64 (my_null_count l) 1\<rparr>))"

definition pop_so :: "nat \<Rightarrow> opt_ds \<Rightarrow> nat \<Rightarrow> tl2Dc \<Rightarrow> (opt_stack, int \<times> tl2Dc) prog" where
  "pop_so fuel c t l = pop_loop_so fuel fuel c t l False"

text \<open>\<^verbatim>\<open>stack_size\<close> reads the width in every iteration.\<close>

fun stack_size_loop_so :: "nat \<Rightarrow> nat \<Rightarrow> u64 \<Rightarrow> u64 \<Rightarrow> (opt_stack, u64) prog" where
  "stack_size_loop_so 0 fuel i sz = NoFuel"
| "stack_size_loop_so (Suc n) fuel i sz =
     pbind (rd set_width) (\<lambda>w.
     if i < w then
       pbind (rd_opt (\<lambda>g. map_option d_node (at (set_array (st g)) i))) (\<lambda>node.
       pbind (on_stack (size_walk_2Dc fuel node sz)) (\<lambda>sz.
       stack_size_loop_so n fuel (add64 i 1) sz))
     else Ret sz)"

definition stack_size_so :: "nat \<Rightarrow> (opt_stack, u64) prog" where
  "stack_size_so fuel = stack_size_loop_so fuel fuel 0 0"

fun update_depth_loop_so :: "nat \<Rightarrow> nat \<Rightarrow> nat \<Rightarrow> (opt_stack, nat) prog" where
  "update_depth_loop_so 0 old_depth d = NoFuel"
| "update_depth_loop_so (Suc n) old_depth d =
     pbind (cae set_depth (\<lambda>d g. g\<lparr>set_depth := d\<rparr>) old_depth d) (\<lambda>(success, found).
     if success then Ret old_depth else update_depth_loop_so n found d)"

definition update_depth_so :: "nat \<Rightarrow> nat \<Rightarrow> (opt_stack, nat) prog" where
  "update_depth_so fuel d = pbind (rd set_depth) (\<lambda>old_depth. update_depth_loop_so fuel old_depth d)"

fun update_width_loop_so :: "nat \<Rightarrow> nat \<Rightarrow> nat \<Rightarrow> (opt_stack, nat) prog" where
  "update_width_loop_so 0 old_width w = NoFuel"
| "update_width_loop_so (Suc n) old_width w =
     pbind (cae set_width (\<lambda>w g. g\<lparr>set_width := w\<rparr>) old_width w) (\<lambda>(success, found).
     if success then Ret old_width else update_width_loop_so n found w)"

definition update_width_so :: "nat \<Rightarrow> nat \<Rightarrow> (opt_stack, nat) prog" where
  "update_width_so fuel w =
     pbind (rd set_width) (\<lambda>old_width.
     pbind (rd set_width) (\<lambda>cur.
     pbind (assert (w \<le> cur)) (\<lambda>_. update_width_loop_so fuel old_width w)))"

definition create_stack_so ::
  "descriptor2Dc \<Rightarrow> u64 \<Rightarrow> nat \<Rightarrow> nat \<Rightarrow> nat \<Rightarrow> nat \<Rightarrow> u64 \<Rightarrow> (opt_ds \<times> opt_stack) option" where
  "create_stack_so junk num_threads w d max_width mode bound =
     (case calc_params 2 keep16 keep16 (bound16 2) mode num_threads w d bound of
        None \<Rightarrow> None
      | Some (w, d, bound) \<Rightarrow>
          let max_width = (if max_width < w then w else max_width)
          in Some (\<lparr>o_random_hops = 2, o_shift = (d + 1) div 2, o_relaxation_bound = bound, o_k_mode = mode\<rparr>,
                   \<lparr>st = \<lparr>global_Window = initialize_global_window_so d,
                          set_array = replicate w \<lparr>d_node = NULL, d_count = 0\<rparr> @ replicate (max_width - w) junk, mem = empty_mem\<rparr>,
                    set_width = w, set_depth = d\<rparr>))"

section \<open>Running alone\<close>

text \<open>The parameters as the 2Dc stack has them, and the state without the cells of the array that are not in use.\<close>

definition ds_of :: "opt_ds \<Rightarrow> opt_stack \<Rightarrow> ds2Dc" where
  "ds_of c g = \<lparr>random_hops = o_random_hops c, width = set_width g, depth = set_depth g, shift = o_shift c,
     relaxation_bound = o_relaxation_bound c, k_mode = o_k_mode c\<rparr>"

definition active :: "opt_stack \<Rightarrow> stack2Dc" where
  "active g = (st g)\<lparr>set_array := take (set_width g) (set_array (st g))\<rparr>"

lemma ds_of_simps [simp]:
  "random_hops (ds_of c g) = o_random_hops c" "width (ds_of c g) = set_width g" "depth (ds_of c g) = set_depth g"
  "shift (ds_of c g) = o_shift c" "ds_of c (g\<lparr>st := s\<rparr>) = ds_of c g"
  by (simp_all add: ds_of_def)

lemma active_simps [simp]:
  "global_Window (active g) = global_Window (st g)" "mem (active g) = mem (st g)"
  "set_array (active g) = take (set_width g) (set_array (st g))"
  "active (g\<lparr>st := (st g)\<lparr>global_Window := w\<rparr>\<rparr>) = (active g)\<lparr>global_Window := w\<rparr>"
  by (simp_all add: active_def)

lemma sub32_eq: "b \<le> a \<Longrightarrow> a < 4294967296 \<Longrightarrow> sub32 a b = a - b"
  by (simp add: sub32_def mod_if)

text \<open>Room left for one more move of the window.\<close>

definition room_so :: "opt_ds \<Rightarrow> opt_stack \<Rightarrow> bool" where
  "room_so c g \<longleftrightarrow> win_max (global_Window (st g)) + set_depth g + o_shift c < 4294967296 \<and>
     win_version (global_Window (st g)) + 1 < 65536 \<and> o_random_hops c < 256"

text \<open>The window functions do what those of the 2Dc stack do.\<close>

definition windows_post :: "(stack2Dc \<Rightarrow> descriptor2Dc \<times> tl2Dc \<Rightarrow> stack2Dc \<Rightarrow> bool) \<Rightarrow> opt_stack \<Rightarrow> descriptor2Dc \<times> tl2Dc \<Rightarrow> opt_stack \<Rightarrow> bool" where
  "windows_post P g x g' \<longleftrightarrow> P (active g) x (active g') \<and> (\<exists>w. g' = g\<lparr>st := (st g)\<lparr>global_Window := w\<rparr>\<rparr>)"

lemma windows_post_refl: "P (active g) x (active g) \<Longrightarrow> windows_post P g x g"
  unfolding windows_post_def by (intro conjI exI [of _ "global_Window (st g)"]) simp_all

lemma wp_load_so:
  assumes "win_inv2Dc (ds_of c g) d_count (active g)" "i < set_width g"
  shows "wp (on_stack (load_descriptor_2Dc i)) Q g = Q (set_array (st g) ! i) g"
proof -
  have "i < length (set_array (st g))" using assms by (auto simp: win_inv2Dc_def)
  then show ?thesis by (simp add: on_stack.wp_zoom stk.wp_load)
qed

lemma wp_shift_so:
  assumes "thread_Window l = global_Window (st g)"
    and "Q (l\<lparr>thread_Window := w, my_slide_count := add64 (my_slide_count l) 1\<rparr>) (g\<lparr>st := (st g)\<lparr>global_Window := w\<rparr>\<rparr>)"
  shows "wp (shift_window_so l w) Q g"
  using assms by (simp add: shift_window_so_def on_stack.wp_zoom cae_window_def)

interpretation so_hop: hopping "hop_so c" "o_random_hops c" "\<lambda>w _. w < 65536 \<and> o_random_hops c < 256" for c
proof (unfold_locales, goal_cases)
  case 1
  then show ?case by (auto simp: hop_so_def add64_eq add16_eq W64_def intro!: wp_random_mod)
next
  case 2
  then show ?case by (auto simp: hop_so_def add64_eq add16_eq W64_def Let_def next_index_def split: if_splits)
qed

lemma put_loop_hit_so:
  assumes "win_inv2Dc (ds_of c g) d_count (active g)" "thread_Window l = global_Window (st g)" "thread_index l < set_width g"
    and "d_count (set_array (st g) ! thread_index l) < win_max (global_Window (st g))"
  shows "wp (put_window_loop_so (Suc n) k l hops random) Q g = Q (set_array (st g) ! thread_index l, l) g"
  using assms by (simp add: wp_load_so)

lemma get_loop_hit_so:
  assumes "win_inv2Dc (ds_of c g) d_count (active g)" "thread_Window l = global_Window (st g)" "thread_index l < set_width g"
    and "sub32 (win_max (global_Window (st g))) (set_depth g) < d_count (set_array (st g) ! thread_index l)"
  shows "wp (get_window_loop_so (Suc n) k l hops random emp) Q g = Q (set_array (st g) ! thread_index l, l) g"
  using assms by (simp add: wp_load_so)

lemma put_loop_seq_so:
  assumes ok: "ds2Dc_ok (ds_of c g)" and inv: "win_inv2Dc (ds_of c g) d_count (active g)" and room: "room_so c g"
    and "thread_Window l = global_Window (st g)" "thread_index l < set_width g" "hops \<le> set_width g"
    and "random \<le> o_random_hops c" "random < o_random_hops c \<longrightarrow> hops = 0"
    and "seen (set_width g) (thread_index l) hops (\<lambda>j. win_max (global_Window (st g)) \<le> d_count (set_array (st g) ! j))"
    and "(o_random_hops c - random) + (set_width g - hops) + 2 \<le> n"
  shows "wp (put_window_loop_so n c l hops random) (windows_post (put_post (ds_of c g) d_count) g) g"
  using assms(4-)
proof (induction n arbitrary: l hops random)
  case (Suc n)
  let ?i = "thread_index l" and ?m = "win_max (global_Window (st g))" and ?c = "\<lambda>j. d_count (set_array (st g) ! j)"
  have rh: "o_random_hops c < 256" using room by (simp add: room_so_def)
  show ?case
  proof (cases "?c ?i < ?m")
    case True
    then show ?thesis using Suc.prems inv
      by (subst put_loop_hit_so) (auto simp: put_post_def intro!: windows_post_refl)
  next
    case full: False
    show ?thesis
    proof (cases "hops = set_width g")
      case False
      then have hops: "hops < set_width g" using Suc.prems by simp
      have "wp (hop_so c l ?i random hops (set_width g))
        (\<lambda>(index, random, hops, l). wp (put_window_loop_so n c (l\<lparr>thread_index := index\<rparr>) hops random)
           (windows_post (put_post (ds_of c g) d_count) g)) g"
        by (rule so_hop.hop_search [OF _ Suc.prems(2) hops Suc.prems(4-6)]) (use Suc.prems full rh ok in \<open>auto simp: ds2Dc_ok_def intro!: Suc.IH\<close>)
      then show ?thesis using Suc.prems full False inv by (simp add: wp_load_so case_prod_unfold)
    next
      case True
      have "\<forall>j < set_width g. ?m \<le> ?c j" using Suc.prems True by (intro seen_all) auto
      then have eq: "\<forall>j < set_width g. ?c j = ?m" using inv by (auto simp: win_inv2Dc_def intro: antisym)
      let ?new = "shifted_up (ds_of c g) (global_Window (st g))"
      have new: "\<lparr>win_max = add32 ?m (o_shift c), win_version = add16 (win_version (global_Window (st g))) 1\<rparr> = ?new"
        using room by (simp add: shifted_up_def add32_def add16_eq room_so_def)
      obtain n' where n': "n = Suc n'" using Suc.prems by (cases n) auto
      let ?g = "g\<lparr>st := (st g)\<lparr>global_Window := ?new\<rparr>\<rparr>"
      let ?l = "l\<lparr>thread_Window := ?new, my_slide_count := add64 (my_slide_count l) 1\<rparr>"
      have inv': "win_inv2Dc (ds_of c ?g) d_count (active ?g)"
        using win_inv2Dc_shifted_up [OF inv ok] eq inv by (simp add: win_inv2Dc_def)
      have "wp (put_window_loop_so n c ?l 0 random) (windows_post (put_post (ds_of c g) d_count) g) ?g"
        unfolding n' using Suc.prems eq ok
        by (subst put_loop_hit_so [OF inv']) (auto simp: put_post_def windows_post_def shifted_up_def ds2Dc_ok_def)
      then have "wp (shift_window_so l ?new) (\<lambda>l. wp (put_window_loop_so n c l 0 random) (windows_post (put_post (ds_of c g) d_count) g)) g"
        by (rule wp_shift_so [OF Suc.prems(1)])
      then show ?thesis using Suc.prems full True inv by (simp add: wp_load_so new)
    qed
  qed
qed simp

lemma wp_enter_window_so:
  assumes "synced l (active g)" "thread_index l < set_width g"
    and Q: "\<And>i s. i < set_width g \<Longrightarrow> Q (l\<lparr>thread_Window := global_Window (st g), seeds := s, thread_index := i\<rparr>) g"
  shows "wp (enter_window_so l contention) Q g"
proof -
  have "win_version (thread_Window l) = win_version (global_Window (st g)) \<Longrightarrow> l\<lparr>thread_Window := global_Window (st g)\<rparr> = l"
    using assms(1) by (simp add: synced_def)
  moreover have "Q (l\<lparr>thread_Window := global_Window (st g)\<rparr>) g" using Q [OF assms(2), of "seeds l"] by simp
  moreover have "wp (random_mod (set_width g) (l\<lparr>thread_Window := global_Window (st g)\<rparr>)) (\<lambda>(i, l). Q (l\<lparr>thread_index := i\<rparr>)) g"
    using assms(2) Q by (auto intro!: wp_random_mod)
  ultimately show ?thesis
    by (auto simp: enter_window_so_def read_window_def on_stack.wp_zoom case_prod_unfold)
qed

lemma put_window_seq_so:
  assumes "ds2Dc_ok (ds_of c g)" "win_inv2Dc (ds_of c g) d_count (active g)" "room_so c g" "synced l (active g)"
    and "thread_index l < set_width g" "fuel2Dc (ds_of c g) \<le> n"
  shows "wp (put_window_so n c l contention) (windows_post (put_post (ds_of c g) d_count) g) g"
  unfolding put_window_so_def wp_bind
  by (rule wp_enter_window_so [OF assms(4,5)]) (use assms in \<open>auto intro!: put_loop_seq_so simp: fuel2Dc_def\<close>)

lemma get_loop_seq_so:
  assumes ok: "ds2Dc_ok (ds_of c g)" and inv: "win_inv2Dc (ds_of c g) d_count (active g)" and room: "room_so c g"
    and "thread_Window l = global_Window (st g)" "thread_index l < set_width g" "hops \<le> set_width g"
    and "random \<le> o_random_hops c" "random < o_random_hops c \<longrightarrow> hops = 0"
    and "seen (set_width g) (thread_index l) hops (\<lambda>j. d_count (set_array (st g) ! j) + set_depth g \<le> win_max (global_Window (st g)) \<and>
           (emp \<longrightarrow> d_count (set_array (st g) ! j) = 0))"
    and "\<not> emp \<longrightarrow> set_depth g < win_max (global_Window (st g))"
    and "(o_random_hops c - random) + (set_width g - hops) + 2 \<le> n"
  shows "wp (get_window_loop_so n c l hops random emp) (windows_post (get_post (ds_of c g) d_count) g) g"
  using assms(4-)
proof (induction n arbitrary: l hops random emp)
  case (Suc n)
  let ?i = "thread_index l" and ?m = "win_max (global_Window (st g))" and ?c = "\<lambda>j. d_count (set_array (st g) ! j)"
  let ?P = "\<lambda>e j. ?c j + set_depth g \<le> ?m \<and> (e \<longrightarrow> ?c j = 0)" and ?Q = "windows_post (get_post (ds_of c g) d_count) g"
  have rh: "o_random_hops c < 256" using room by (simp add: room_so_def)
  have bound: "?c j \<le> ?m" "?m \<le> ?c j + set_depth g" if "j < set_width g" for j
    using inv that by (auto simp: win_inv2Dc_def)
  have m: "set_depth g \<le> ?m" "sub32 ?m (set_depth g) = ?m - set_depth g"
    using inv room by (auto simp: win_inv2Dc_def room_so_def intro!: sub32_eq)
  show ?case
  proof (cases "?m < ?c ?i + set_depth g")
    case True
    then show ?thesis using Suc.prems inv m
      by (subst get_loop_hit_so) (auto simp: get_post_def intro!: windows_post_refl)
  next
    case miss: False
    show ?thesis
    proof (cases "hops = set_width g")
      case False
      then have hops: "hops < set_width g" using Suc.prems by simp
      define e where "e = (if 0 < ?c ?i then False else emp)"
      have e: "\<not> e \<longrightarrow> set_depth g < ?m" using Suc.prems miss by (auto simp: e_def split: if_splits)
      have pe: "?P e ?i" using miss by (simp add: e_def)
      have sn: "seen (set_width g) ?i hops (?P e)" using Suc.prems(6) by (rule seen_mono) (auto simp: e_def split: if_splits)
      have "wp (hop_so c l ?i random hops (set_width g))
        (\<lambda>(index, random, hops, l). wp (get_window_loop_so n c (l\<lparr>thread_index := index\<rparr>) hops random e) ?Q) g"
        by (rule so_hop.hop_search [OF _ Suc.prems(2) hops Suc.prems(4,5) sn pe]) (use Suc.prems rh ok e in \<open>auto simp: ds2Dc_ok_def intro!: Suc.IH\<close>)
      then show ?thesis using Suc.prems miss False inv m
        by (auto simp: wp_load_so case_prod_unfold e_def split: if_splits)
    next
      case True
      have all: "\<forall>j < set_width g. ?P emp j" using Suc.prems True by (intro seen_all) auto
      show ?thesis
      proof (cases emp)
        case emp: True
        then show ?thesis using Suc.prems miss True inv m all
          by (auto simp: wp_load_so get_post_def intro!: windows_post_refl)
      next
        case nonempty: False
        have eq: "\<forall>j < set_width g. ?c j + set_depth g = ?m" using all bound by (auto intro: antisym)
        have "o_shift c dvd ?m - set_depth g" "0 < ?m - set_depth g"
          using inv Suc.prems nonempty by (auto simp: win_inv2Dc_def)
        then have "o_shift c \<le> ?m - set_depth g" by (rule dvd_imp_le)
        then have le: "set_depth g + o_shift c \<le> ?m" using Suc.prems nonempty by simp
        let ?new = "shifted_down (ds_of c g) (global_Window (st g))"
        have new: "\<lparr>win_max = sub32 ?m (o_shift c), win_version = add16 (win_version (global_Window (st g))) 1\<rparr> = ?new"
          using room le by (simp add: shifted_down_def add16_eq sub32_eq room_so_def)
        obtain n' where n': "n = Suc n'" using Suc.prems by (cases n) auto
        let ?g = "g\<lparr>st := (st g)\<lparr>global_Window := ?new\<rparr>\<rparr>"
        let ?l = "l\<lparr>thread_Window := ?new, my_slide_count := add64 (my_slide_count l) 1\<rparr>"
        have inv': "win_inv2Dc (ds_of c ?g) d_count (active ?g)"
          using win_inv2Dc_shifted_down [OF inv ok] eq inv le by (simp add: win_inv2Dc_def)
        have "sub32 (?m - o_shift c) (set_depth g) = ?m - o_shift c - set_depth g"
          using le room by (intro sub32_eq) (auto simp: room_so_def)
        moreover have "?m - o_shift c - set_depth g < ?c ?i" "1 \<le> o_shift c" using eq Suc.prems ok le by (auto simp: ds2Dc_ok_def)
        ultimately have "wp (get_window_loop_so n c ?l 0 random True) ?Q ?g"
          unfolding n' using Suc.prems eq le
          by (subst get_loop_hit_so [OF inv']) (auto simp: get_post_def windows_post_def shifted_down_def)
        then have "wp (shift_window_so l ?new) (\<lambda>l. wp (get_window_loop_so n c l 0 random True) ?Q) g"
          by (rule wp_shift_so [OF Suc.prems(1)])
        moreover have "set_depth g \<le> win_max ?new" "\<not> ?m - set_depth g < ?c ?i" using le miss by (simp_all add: shifted_down_def)
        ultimately show ?thesis using Suc.prems True nonempty inv m by (simp add: wp_load_so Let_def new)
      qed
    qed
  qed
qed simp

lemma get_window_seq_so:
  assumes "ds2Dc_ok (ds_of c g)" "win_inv2Dc (ds_of c g) d_count (active g)" "room_so c g" "synced l (active g)"
    and "thread_index l < set_width g" "fuel2Dc (ds_of c g) \<le> n"
  shows "wp (get_window_so n c l contention) (windows_post (get_post (ds_of c g) d_count) g) g"
  unfolding get_window_so_def wp_bind
  by (rule wp_enter_window_so [OF assms(4,5)]) (use assms in \<open>auto intro!: get_loop_seq_so simp: fuel2Dc_def\<close>)

text \<open>The calls do to the active part what those of the 2Dc stack do, and leave the width and the depth alone.\<close>

definition active_post :: "(stack2Dc \<Rightarrow> int \<times> tl2Dc \<Rightarrow> stack2Dc \<Rightarrow> bool) \<Rightarrow> opt_stack \<Rightarrow> int \<times> tl2Dc \<Rightarrow> opt_stack \<Rightarrow> bool" where
  "active_post P g x g' \<longleftrightarrow> P (active g) x (active g') \<and> set_width g' = set_width g \<and> set_depth g' = set_depth g"

lemma active_update:
  "active (g\<lparr>st := (st g)\<lparr>mem := m\<rparr>\<rparr>) = (active g)\<lparr>mem := m\<rparr>"
  "active (g\<lparr>st := (st g)\<lparr>set_array := (set_array (st g))[i := d], mem := m\<rparr>\<rparr>) =
     (active g)\<lparr>set_array := (set_array (active g))[i := d], mem := m\<rparr>"
  by (simp_all add: active_def take_update_swap)

lemma room_so_room: "room_so c g \<Longrightarrow> room2Dc (ds_of c g) (active g)"
  by (simp add: room_so_def room2Dc_def W64_def)

lemma windows_at:
  assumes "windows_post P g (d, l) g'" "thread_index l < set_width g" "d = set_array (active g') ! thread_index l"
    and "quiet_2Dc cfg k (active g)" "width cfg = set_width g"
  shows "at (set_array (st g')) (thread_index l) = Some d"
proof -
  have "length (take (set_width g) (set_array (st g))) = set_width g"
    using assms(4,5) by (simp add: quiet_2Dc_def stack_inv_2Dc_def)
  then have "thread_index l < length (set_array (st g))" using assms(2) by simp
  then show ?thesis using assms(1-3) by (auto simp: windows_post_def)
qed

lemma push_loop_seq_so:
  assumes "ds2Dc_ok (ds_of c g)" "room_so c g" "quiet_2Dc (ds_of c g) l (active g)" "fuel2Dc (ds_of c g) \<le> fuel"
    and p: "mine (mem (st g)) t p" "heap (mem (st g)) p = Some \<lparr>n_key = key, n_val = val, n_next = nx\<rparr>"
  shows "wp (push_loop_so (Suc n) fuel c p l k) (active_post (\<lambda>s. pushed_2Dc (ds_of c g) s p key val) g) g"
proof -
  note q = assms(3) [unfolded quiet_2Dc_def]
  have put: "wp (put_window_so fuel c l k) (windows_post (put_post (ds_of c g) d_count) g) g"
    using assms q by (intro put_window_seq_so) (auto intro: past_synced)
  have "active_post (\<lambda>s. pushed_2Dc (ds_of c g) s p key val) g (1, l')
      (h\<lparr>st := (st h)\<lparr>set_array := (set_array (st h))[thread_index l' := \<lparr>d_node = p, d_count = add64 (d_count d) 1\<rparr>],
          mem := mem_publish p (mem_set_next p (d_node d) (mem (st h)))\<rparr>\<rparr>) \<and>
      at (set_array (st h)) (thread_index l') = Some d"
    if w: "windows_post (put_post (ds_of c g) d_count) g (d, l') h" for d l' h
  proof
    have post: "put_post (ds_of c g) d_count (active g) (d, l') (active h)" using w by (simp add: windows_post_def)
    show "at (set_array (st h)) (thread_index l') = Some d"
      using put_postD(1,2) [OF post] by (intro windows_at [OF w _ _ assms(3)]) simp_all
    have "set_width h = set_width g" "set_depth h = set_depth g" using w by (auto simp: windows_post_def)
    then show "active_post (\<lambda>s. pushed_2Dc (ds_of c g) s p key val) g (1, l')
      (h\<lparr>st := (st h)\<lparr>set_array := (set_array (st h))[thread_index l' := \<lparr>d_node = p, d_count = add64 (d_count d) 1\<rparr>],
          mem := mem_publish p (mem_set_next p (d_node d) (mem (st h)))\<rparr>\<rparr>)"
      using push_commit_2Dc [OF assms(1) room_so_room [OF assms(2)] assms(3) _ _ post, of t p key val nx] p
      unfolding active_post_def active_update by simp
  qed
  then show ?thesis
    unfolding push_loop_so.simps wp_bind
    by (intro wp_mono [OF put]) (auto simp: on_stack.wp_zoom wp_stack_cae_2Dc Let_def)
qed

lemma push_seq_so:
  assumes "alloc_fresh al" "ds2Dc_ok (ds_of c g)" "room_so c g" "quiet_2Dc (ds_of c g) l (active g)" "fuel2Dc (ds_of c g) \<le> fuel"
    and p: "p = al t (allocd (mem (st g)))"
  shows "wp (push_so al fuel c t key val l) (active_post (\<lambda>s. pushed_2Dc (ds_of c g) s p key val) g) g"
proof -
  let ?nd = "\<lparr>n_key = key, n_val = val, n_next = NULL\<rparr>"
  let ?g = "g\<lparr>st := (st g)\<lparr>mem := mem_alloc t p ?nd (mem (st g))\<rparr>\<rparr>"
  obtain n where n: "fuel = Suc n" using assms(5) by (cases fuel) (auto simp: fuel2Dc_def)
  have np: "p \<noteq> NULL" "p \<notin> set (allocd (mem (st g)))" using assms(1) p by (auto simp: alloc_fresh_def)
  have h: "p \<notin> set (hist (mem (st g)))"
    using np(2) stacks_okD(6) assms(4) by (fastforce simp: quiet_2Dc_def stack_inv_2Dc_def)
  from np have "quiet_2Dc (ds_of c ?g) l (active ?g)" and s: "sub_stacks_2Dc (active ?g) = sub_stacks_2Dc (active g)"
    using assms(4) stack_inv_alloc [of "ds_of c g" "active g" p t ?nd] by (auto simp: quiet_2Dc_def active_update)
  then have "wp (push_loop_so (Suc n) fuel c p l False) (active_post (\<lambda>s. pushed_2Dc (ds_of c ?g) s p key val) ?g) ?g"
    using assms h by (intro push_loop_seq_so) (auto simp: mine_def mem_alloc_def room_so_def)
  moreover have "pushed_2Dc (ds_of c ?g) (active ?g) p key val = pushed_2Dc (ds_of c g) (active g) p key val"
    using h s by (auto simp: pushed_2Dc_def abs_2Dc_def active_update win_next_def fun_eq_iff)
  ultimately have "wp (push_loop_so (Suc n) fuel c p l False) (active_post (\<lambda>s. pushed_2Dc (ds_of c g) s p key val) g) ?g"
    by (simp add: active_post_def [abs_def])
  then show ?thesis by (simp add: push_so_def on_stack.wp_zoom wp_create_node_2Dc p n)
qed

lemma pop_seq_so:
  assumes "ds2Dc_ok (ds_of c g)" "room_so c g" "quiet_2Dc (ds_of c g) l (active g)" "fuel2Dc (ds_of c g) \<le> fuel"
  shows "wp (pop_so fuel c t l) (active_post (popped_2Dc (ds_of c g)) g) g"
proof -
  note q = assms(3) [unfolded quiet_2Dc_def]
  obtain n where n: "fuel = Suc n" using assms(4) by (cases fuel) (auto simp: fuel2Dc_def)
  have get: "wp (get_window_so fuel c l False) (windows_post (get_post (ds_of c g) d_count) g) g"
    using assms q by (intro get_window_seq_so) (auto intro: past_synced)
  have null: "active_post (popped_2Dc (ds_of c g)) g (0, l'\<lparr>my_null_count := k\<rparr>) h"
    if w: "windows_post (get_post (ds_of c g) d_count) g (d, l') h" "d_node d = NULL" for d l' h k
    using w pop_null_2Dc [OF assms(3), of d l' "active h" k] by (auto simp: windows_post_def active_post_def)
  have pop: "\<exists>nd. heap (mem (st h)) (d_node d) = Some nd \<and> active_post (popped_2Dc (ds_of c g)) g (n_val nd, l')
      (h\<lparr>st := (st h)\<lparr>set_array := (set_array (st h))[thread_index l' := \<lparr>d_node = n_next nd, d_count = sub64 (d_count d) 1\<rparr>],
          mem := mem_free t (d_node d) (mem_remove t (d_node d) (mem (st h)))\<rparr>\<rparr>) \<and>
      at (set_array (st h)) (thread_index l') = Some d"
    if w: "windows_post (get_post (ds_of c g) d_count) g (d, l') h" and d: "d_node d \<noteq> NULL" for d l' h
  proof -
    have post: "get_post (ds_of c g) d_count (active g) (d, l') (active h)" using w by (simp add: windows_post_def)
    have "set_width h = set_width g" "set_depth h = set_depth g" using w by (auto simp: windows_post_def)
    moreover have "at (set_array (st h)) (thread_index l') = Some d"
      using get_postD(1,2) [OF post] by (intro windows_at [OF w _ _ assms(3)]) simp_all
    ultimately show ?thesis
      using pop_commit_2Dc [OF assms(1) room_so_room [OF assms(2)] assms(3) post d, of t]
      unfolding active_post_def active_update by auto
  qed
  show ?thesis
    unfolding pop_so_def n pop_loop_so.simps wp_bind
    by (rule wp_mono [OF get [unfolded n]])
      (use null pop in \<open>fastforce simp: on_stack.wp_zoom wp_stack_cae_2Dc Let_def mem_remove_def\<close>)
qed

lemma size_loop_seq_so:
  assumes ok: "stacks_ok (mem (st g)) (tops_2Dc (active g))" and len: "set_width g \<le> length (set_array (st g))" "set_width g < W64"
    and f: "\<forall>j < set_width g. length (sub_stacks_2Dc (active g) ! j) < fuel"
    and "i \<le> set_width g" "set_width g - i < n" "sz + (\<Sum>j = i ..< set_width g. length (sub_stacks_2Dc (active g) ! j)) < W64"
  shows "wp (stack_size_loop_so n fuel i sz) (\<lambda>r h. r = sz + (\<Sum>j = i ..< set_width g. length (sub_stacks_2Dc (active g) ! j)) \<and> h = g) g"
  using assms(5-)
proof (induction n arbitrary: i sz)
  case (Suc n)
  show ?case
  proof (cases "i < set_width g")
    case True
    let ?xs = "sub_stacks_2Dc (active g) ! i"
    have i: "i < length (set_array (st g))" "i < length (tops_2Dc (active g))" using True len by simp_all
    have "tops_2Dc (active g) ! i = (d_node (set_array (st g) ! i), d_count (set_array (st g) ! i))"
      using i True by (subst tops_2Dc_simps(2)) simp_all
    then have "chain (heap (mem (st g))) (d_node (set_array (st g) ! i)) ?xs"
      using stacks_okD(3) [OF ok i(2)] by (simp add: sub_stacks_2Dc_def)
    moreover have sum: "(\<Sum>j = i ..< set_width g. length (sub_stacks_2Dc (active g) ! j)) =
        length ?xs + (\<Sum>j = i + 1 ..< set_width g. length (sub_stacks_2Dc (active g) ! j))"
      using True by (simp add: sum.atLeast_Suc_lessThan One_nat_def)
    ultimately have "wp (size_walk_2Dc fuel (d_node (set_array (st g) ! i)) sz) (\<lambda>r h. r = sz + length ?xs \<and> h = st g) (st g)"
      using f True Suc.prems(3) unfolding size_walk_2Dc_def by (intro size_walk_seq) auto
    moreover have "wp (stack_size_loop_so n fuel (i + 1) (sz + length ?xs))
        (\<lambda>r h. r = sz + length ?xs + (\<Sum>j = i + 1 ..< set_width g. length (sub_stacks_2Dc (active g) ! j)) \<and> h = g) g"
      using Suc.prems True sum by (intro Suc.IH) auto
    ultimately have "wp (size_walk_2Dc fuel (d_node (set_array (st g) ! i)) sz)
        (\<lambda>r h. wp (stack_size_loop_so n fuel (i + 1) r)
          (\<lambda>r h. r = sz + (\<Sum>j = i ..< set_width g. length (sub_stacks_2Dc (active g) ! j)) \<and> h = g) (g\<lparr>st := h\<rparr>)) (st g)"
      using sum by (elim wp_mono) (auto simp: add.assoc)
    then show ?thesis using True i len(2) by (simp add: on_stack.wp_zoom add64_eq)
  next
    case False
    then show ?thesis using Suc.prems by simp
  qed
qed simp

lemma stack_size_seq_so:
  assumes "quiet_2Dc (ds_of c g) l (active g)" "set_width g < 65536"
    and b: "win_max (global_Window (st g)) \<le> b" "b < 4294967296" "set_width g + b < n"
  shows "run (stack_size_so n) g = (Done (length (concat (sub_stacks_2Dc (active g)))), g)"
proof -
  let ?sub = "sub_stacks_2Dc (active g)"
  have q: "stack_inv_2Dc (ds_of c g) (active g)" "win_inv2Dc (ds_of c g) d_count (active g)" using assms(1) by (simp_all add: quiet_2Dc_def)
  have len: "length ?sub = set_width g" "set_width g \<le> length (set_array (st g))" and ok: "stacks_ok (mem (st g)) (tops_2Dc (active g))"
    using q by (auto simp: win_inv2Dc_def stack_inv_2Dc_def sub_stacks_2Dc_def)
  have le: "length (?sub ! j) \<le> b" if "j < set_width g" for j
    using stack_inv_empty(3) [OF q(1), of j] q(2) that b(1) by (force simp: win_inv2Dc_def)
  have sum: "(\<Sum>j = 0 ..< set_width g. length (?sub ! j)) = length (concat ?sub)"
    using len(1) by (simp add: length_concat sum_list_sum_nth)
  have "(\<Sum>j = 0 ..< set_width g. length (?sub ! j)) \<le> set_width g * b"
    using sum_bounded_above [of "{0 ..< set_width g}" "\<lambda>j. length (?sub ! j)" b] le by simp
  also have "\<dots> \<le> 65536 * 4294967296" using assms(2) b(2) by (intro mult_le_mono) simp_all
  finally have "(\<Sum>j = 0 ..< set_width g. length (?sub ! j)) < W64" by (simp add: W64_def)
  moreover have "\<forall>j < set_width g. length (?sub ! j) < n" using le b(3) by fastforce
  ultimately have "wp (stack_size_loop_so n n 0 0) (\<lambda>r h. r = 0 + (\<Sum>j = 0 ..< set_width g. length (?sub ! j)) \<and> h = g) g"
    using ok len b assms(2) by (intro size_loop_seq_so) (auto simp: W64_def)
  then show ?thesis using sum by (simp add: stack_size_so_def wp_run)
qed

section \<open>Calls one after the other\<close>

definition stack_call_so :: "allocator \<Rightarrow> nat \<Rightarrow> opt_ds \<Rightarrow> nat \<Rightarrow> stack_call \<Rightarrow> tl2Dc \<Rightarrow> (opt_stack, int \<times> tl2Dc) prog" where
  "stack_call_so al fuel c t call l = (case call of Push key val \<Rightarrow> push_so al fuel c t key val l | Pop \<Rightarrow> pop_so fuel c t l)"

text \<open>The invariant between calls is that of the 2Dc stack, for its narrower integers: \<open>b\<close> is a row that the window does not pass.\<close>

definition calls_inv_so :: "allocator \<Rightarrow> nat \<Rightarrow> opt_ds \<Rightarrow> ds2Dc \<Rightarrow> nat \<Rightarrow> nat \<Rightarrow> tl2Dc list \<Rightarrow> opt_stack \<Rightarrow> bool" where
  "calls_inv_so al fuel c cfg b n ls g \<longleftrightarrow>
     calls_inv_2Dc al fuel cfg n ls (active g) \<and> cfg = ds_of c g \<and> o_random_hops c < 256 \<and>
     win_max (global_Window (st g)) + n * o_shift c \<le> b \<and> b + set_depth g + o_shift c < 4294967296 \<and>
     win_version (global_Window (st g)) + n + 1 < 65536"

lemma calls_inv_room_so: "calls_inv_so al fuel c cfg b n ls g \<Longrightarrow> room_so c g"
  by (simp add: calls_inv_so_def room_so_def)

lemma calls_inv_step_so:
  assumes inv: "calls_inv_so al fuel c cfg b (Suc n) ls g" and "quiet_2Dc cfg l (active g')" "win_next (active g) (active g')"
    and step: "spec_stack (width cfg) (depth cfg) (shift cfg) (abs_2Dc (active g)) e (abs_2Dc (active g'))"
    and same: "set_width g' = set_width g" "set_depth g' = set_depth g"
  shows "calls_inv_so al fuel c cfg b n (ls[t := l]) g'"
proof -
  have "calls_inv_2Dc al fuel cfg n (ls[t := l]) (active g')"
    using inv assms(2-4) by (intro calls_inv_step) (auto simp: calls_inv_so_def)
  moreover have "cfg = ds_of c g'" using inv same by (simp add: calls_inv_so_def ds_of_def)
  moreover have "win_max (global_Window (st g')) \<le> win_max (global_Window (st g)) + o_shift c"
    using spec_stack_max [OF step] inv by (simp add: abs_2Dc_def calls_inv_so_def)
  moreover have "win_version (global_Window (st g')) \<le> win_version (global_Window (st g)) + 1"
    using assms(3) by (auto simp: win_next_def)
  ultimately show ?thesis using inv same by (auto simp: calls_inv_so_def)
qed

interpretation stk_calls_so: budgeted_calls "stack_call_so al fuel c" "calls_inv_so al fuel c cfg b" "\<lambda>g. abs_2Dc (active g)"
  "stack_spec (width cfg) (depth cfg) (shift cfg)" for al fuel c cfg b
proof
  fix n ls g t call
  assume inv: "calls_inv_so al fuel c cfg b (Suc n) ls g" and t: "t < length ls"
  then have q: "quiet_2Dc (ds_of c g) (ls ! t) (active g)" and cs: "alloc_fresh al" "ds2Dc_ok (ds_of c g)" "fuel2Dc (ds_of c g) \<le> fuel"
    and cfg: "cfg = ds_of c g"
    by (auto simp: calls_inv_so_def calls_inv_2Dc_def)
  note r = calls_inv_room_so [OF inv] and step = calls_inv_step_so [OF inv, unfolded cfg]
  show "wp (stack_call_so al fuel c t call (ls ! t)) (\<lambda>(r, l) g'. calls_inv_so al fuel c cfg b n (ls[t := l]) g' \<and>
      stack_spec (width cfg) (depth cfg) (shift cfg) call (abs_2Dc (active g)) r (abs_2Dc (active g'))) g"
  proof (cases call)
    case (Push key val)
    show ?thesis unfolding Push stack_call_so_def stack_call.case cfg
      by (rule wp_mono [OF push_seq_so [OF cs(1,2) r q cs(3) refl]])
        (auto simp: active_post_def pushed_2Dc_def stack_spec_def intro: step)
  next
    case Pop
    show ?thesis unfolding Pop stack_call_so_def stack_call.case cfg
      by (rule wp_mono [OF pop_seq_so [OF cs(2) r q cs(3)]])
        (auto simp: active_post_def popped_2Dc_def stack_spec_def intro: step)
  qed
qed

lemma create_stack_ok_so:
  assumes c: "create_stack_so junk nt w d mw mode bound = Some (c, g)"
    and u: "1 \<le> set_width g" "set_width g < 65536" "1 \<le> set_depth g" "set_depth g < 65536"
  shows "ds2Dc_ok (ds_of c g)" "stack_inv_2Dc (ds_of c g) (active g)" "win_inv2Dc (ds_of c g) d_count (active g)"
    "global_Window (st g) = \<lparr>win_max = set_depth g, win_version = 1\<rparr>"
    "spec_reach (set_width g) (set_depth g) (o_shift c) (abs_2Dc (active g))"
    "fuel2Dc (ds_of c g) = set_width g + 4" "o_shift c \<le> set_depth g" "o_shift c \<le> 32768" "o_random_hops c = 2"
proof -
  obtain w' d' k' where
    c': "c = \<lparr>o_random_hops = 2, o_shift = (d' + 1) div 2, o_relaxation_bound = k', o_k_mode = mode\<rparr>" and
    g': "set_width g = w'" "set_depth g = d'" "active g = \<lparr>global_Window = \<lparr>win_max = d', win_version = 1\<rparr>,
           set_array = replicate w' \<lparr>d_node = NULL, d_count = 0\<rparr>, mem = empty_mem\<rparr>"
    using c by (auto simp: create_stack_so_def Let_def active_def initialize_global_window_so_def split: option.splits)
  have cfg: "ds_of c g = \<lparr>random_hops = 2, width = w', depth = d', shift = (d' + 1) div 2, relaxation_bound = k', k_mode = mode\<rparr>"
    by (simp add: ds_of_def c' g')
  have tops: "tops_2Dc (active g) = replicate w' (NULL, 0)" by (simp add: g' tops_2Dc_def)
  have subs: "sub_stacks_2Dc (active g) = replicate w' []"
    unfolding sub_stacks_2Dc_def tops by (simp add: subs_def map_replicate_const)
  have win: "global_Window (st g) = \<lparr>win_max = d', win_version = 1\<rparr>" using active_simps(1) [of g] g'(3) by simp
  then show "global_Window (st g) = \<lparr>win_max = set_depth g, win_version = 1\<rparr>" by (simp add: g')
  show "ds2Dc_ok (ds_of c g)" "fuel2Dc (ds_of c g) = set_width g + 4" "o_shift c \<le> set_depth g" "o_shift c \<le> 32768" "o_random_hops c = 2"
    using u by (auto simp: cfg c' g' ds2Dc_ok_def fuel2Dc_def W64_def)
  show "stack_inv_2Dc (ds_of c g) (active g)" using stacks_ok_empty [of w'] tops by (simp add: stack_inv_2Dc_def g' cfg)
  show "win_inv2Dc (ds_of c g) d_count (active g)" by (simp add: win_inv2Dc_def g'(3) cfg)
  have "abs_2Dc (active g) = \<lparr>w_subs = replicate w' [], w_max = d', w_hist = []\<rparr>"
    using subs by (simp add: abs_2Dc_def win) (simp add: g'(3) empty_mem_def flip: active_simps(2))
  then show "spec_reach (set_width g) (set_depth g) (o_shift c) (abs_2Dc (active g))" by (simp add: g' c' spec_init)
qed

lemma calls_inv_init_so:
  assumes c: "create_stack_so junk nt w d mw mode bound = Some (c, g)"
    and u: "1 \<le> set_width g" "set_width g < 65536" "1 \<le> set_depth g" "set_depth g < 65536"
    and "alloc_fresh al" "set_width g + 4 \<le> fuel" "n + 2 < 65536"
    and ls: "\<forall>l \<in> set ls. thread_Window l = \<lparr>win_max = 0, win_version = 0\<rparr> \<and> thread_index l < set_width g"
  shows "calls_inv_so al fuel c (ds_of c g) (set_depth g + n * o_shift c) n ls g"
proof -
  note C = create_stack_ok_so [OF c u]
  have "(n + 1) * o_shift c \<le> 65536 * 32768" using assms(8) C(8) by (intro mult_le_mono) simp_all
  then have b: "set_depth g + n * o_shift c + set_depth g + o_shift c < 4294967296" using u(4) by (simp add: distrib_right)
  then have "set_depth g + set_depth g + (n + 1) * o_shift c < W64" by (simp add: W64_def distrib_right)
  then have "calls_inv_2Dc al fuel (ds_of c g) n ls (active g)"
    using C assms(6-) by (auto simp: calls_inv_2Dc_def quiet_2Dc_def past_def W64_def)
  then show ?thesis using b C(4,9) assms(8) by (simp add: calls_inv_so_def)
qed

section \<open>Properties\<close>

text \<open>
  C31. The optimized 2Dc stack keeps the promise of the 2Dc stack, for calls that do not overlap, as long as width and depth are not changed and
  fewer than 65533 calls are made, so that the 16-bit version of the window does not wrap. Take the stack that \<^verbatim>\<open>create_stack\<close> returns, with a
  width and a depth of 1 to 65535 and any \<^verbatim>\<open>max_width\<close>, and any list of
  pushes and pops by any threads. Every call returns: no assertion fails and the 32-bit rows do not wrap. The answers are ones the abstract stack of the window gives.
  \<^verbatim>\<open>stack_size\<close> then returns the number of nodes in the stack. A pop returns 0 only if the stack is empty, and
  else the value of a node of the stack after which at most \<open>(2 * depth - 1) * (width - 1)\<close> of the nodes now in the stack were pushed.
\<close>

theorem stack_opt_k_out_of_order:
  assumes c: "create_stack_so junk nt w d mw mode bound = Some (c, g0)"
    and u: "1 \<le> set_width g0" "set_width g0 < 65536" "1 \<le> set_depth g0" "set_depth g0 < 65536"
    and "alloc_fresh al" "set_width g0 + 4 \<le> fuel" "length cs + 3 < 65536"
    and n: "set_width g0 + set_depth g0 * (length cs + 2) < n"
    and ls: "\<forall>l \<in> set ls. thread_Window l = \<lparr>win_max = 0, win_version = 0\<rparr> \<and> thread_index l < set_width g0"
      "\<forall>(t, call) \<in> set cs. t < length ls" "t < length ls"
  shows "\<exists>rs ls' g r l g'. exec_calls (stack_call_so al fuel c) cs (ls, g0) = Some (rs, ls', g) \<and>
    spec_run (stack_spec (set_width g0) (set_depth g0) (o_shift c)) (map snd cs) (abs_2Dc (active g0)) rs (abs_2Dc (active g)) \<and>
    run (stack_size_so n) g = (Done (length (concat (sub_stacks_2Dc (active g)))), g) \<and>
    run (pop_so fuel c t (ls' ! t)) g = (Done (r, l), g') \<and>
    (r = 0 \<and> concat (sub_stacks_2Dc (active g)) = [] \<or>
     (\<exists>p nd. p \<in> set (concat (sub_stacks_2Dc (active g))) \<and> heap (mem (st g)) p = Some nd \<and> r = n_val nd \<and>
        newer (abs_2Dc (active g)) p \<le> (2 * set_depth g0 - 1) * (set_width g0 - 1)))"
proof -
  let ?n = "length cs + 1" and ?cfg = "ds_of c g0"
  let ?b = "set_depth g0 + ?n * o_shift c"
  have "calls_inv_so al fuel c ?cfg ?b (length cs + 1) ls g0"
    using assms(6-8) ls(1) by (intro calls_inv_init_so [OF c u]) simp_all
  then obtain rs ls' g where e: "exec_calls (stack_call_so al fuel c) cs (ls, g0) = Some (rs, ls', g)"
    and inv: "calls_inv_so al fuel c ?cfg ?b 1 ls' g" and len: "length ls' = length ls"
    and sp: "spec_run (stack_spec (set_width g0) (set_depth g0) (o_shift c)) (map snd cs) (abs_2Dc (active g0)) rs (abs_2Dc (active g))"
    using stk_calls_so.exec_calls_returns [of al fuel c ?cfg ?b cs 1 ls g0] ls(2) by auto
  have inv2: "calls_inv_2Dc al fuel ?cfg 1 ls' (active g)" and cfg: "?cfg = ds_of c g" using inv unfolding calls_inv_so_def by blast+
  have same: "set_width g = set_width g0" "set_depth g = set_depth g0" using cfg by (simp_all add: ds_of_def)
  have q: "quiet_2Dc (ds_of c g) (ls' ! t) (active g)" "ds2Dc_ok (ds_of c g)" "fuel2Dc (ds_of c g) \<le> fuel"
    using inv2 len ls(3) cfg by (auto simp: calls_inv_2Dc_def)
  have "?n * o_shift c \<le> ?n * set_depth g0" using create_stack_ok_so(7) [OF c u] by (intro mult_le_mono2)
  then have b: "set_width g + ?b < n" using n same by (simp add: algebra_simps)
  have size: "run (stack_size_so n) g = (Done (length (concat (sub_stacks_2Dc (active g)))), g)"
    by (rule stack_size_seq_so [OF q(1) _ _ _ b]) (use inv u same in \<open>simp_all add: calls_inv_so_def\<close>)
  obtain r l g' where p: "run (pop_so fuel c t (ls' ! t)) g = (Done (r, l), g')" and "active_post (popped_2Dc ?cfg) g (r, l) g'"
    using pop_seq_so [OF q(2) calls_inv_room_so [OF inv] q(1,3), of t] cfg by (auto simp: wp_run)
  then have "popped_2Dc ?cfg (active g) (r, l) (active g')" by (simp add: active_post_def)
  from popped_newer [OF inv2 this] show ?thesis using e sp size p same
    by (intro exI [of _ rs] exI [of _ ls'] exI [of _ g] exI [of _ r] exI [of _ l] exI [of _ g']) simp
qed

text \<open>A stack of width 2 and depth 2, in an array of 3 cells, and two threads.\<close>

definition demo_so :: "opt_ds \<times> opt_stack" where
  "demo_so = the (create_stack_so \<lparr>d_node = 7, d_count = 7\<rparr> 2 2 2 3 0 0)"

definition demo_tls_so :: "tl2Dc list" where
  "demo_tls_so = [fresh_tl2Dc (1, 2, 3) 0, fresh_tl2Dc (4, 5, 6) 1]"

lemma demo_so_eq:
  "demo_so = (\<lparr>o_random_hops = 2, o_shift = 1, o_relaxation_bound = 4, o_k_mode = 0\<rparr>,
     \<lparr>st = \<lparr>global_Window = \<lparr>win_max = 2, win_version = 1\<rparr>,
            set_array = [\<lparr>d_node = NULL, d_count = 0\<rparr>, \<lparr>d_node = NULL, d_count = 0\<rparr>, \<lparr>d_node = 7, d_count = 7\<rparr>], mem = empty_mem\<rparr>,
      set_width = 2, set_depth = 2\<rparr>)"
  "create_stack_so \<lparr>d_node = 7, d_count = 7\<rparr> 2 2 2 3 0 0 = Some demo_so"
  by (simp_all add: demo_so_def create_stack_so_def calc_params_def bound16_def initialize_global_window_so_def)
    (simp add: numeral_2_eq_2)

theorem stack_opt_k_out_of_order_witness:
  "\<exists>rs ls' g r l g'. exec_calls (stack_call_so bump_alloc 6 (fst demo_so))
       [(0, Push 1 10), (1, Push 2 20), (0, Pop)] (demo_tls_so, snd demo_so) = Some (rs, ls', g) \<and>
    spec_run (stack_spec (set_width (snd demo_so)) (set_depth (snd demo_so)) (o_shift (fst demo_so)))
      (map snd [(0 :: nat, Push 1 10), (1, Push 2 20), (0, Pop)]) (abs_2Dc (active (snd demo_so))) rs (abs_2Dc (active g)) \<and>
    run (stack_size_so 13) g = (Done (length (concat (sub_stacks_2Dc (active g)))), g) \<and>
    run (pop_so 6 (fst demo_so) 1 (ls' ! 1)) g = (Done (r, l), g') \<and>
    (r = 0 \<and> concat (sub_stacks_2Dc (active g)) = [] \<or>
     (\<exists>p nd. p \<in> set (concat (sub_stacks_2Dc (active g))) \<and> heap (mem (st g)) p = Some nd \<and> r = n_val nd \<and>
        newer (abs_2Dc (active g)) p \<le> (2 * set_depth (snd demo_so) - 1) * (set_width (snd demo_so) - 1)))"
  by (rule stack_opt_k_out_of_order [of "\<lparr>d_node = 7, d_count = 7\<rparr>" 2 2 2 3 0 0])
    (use bump_alloc_fresh in \<open>simp_all add: demo_so_eq demo_tls_so_def fresh_tl2Dc_def\<close>)

lemmas stack_so_unfold [prog_unfold] =
  add32_def sub32_def hop_so_def enter_window_so_def shift_window_so_def put_window_so_def get_window_so_def push_so_def pop_so_def
  update_depth_so_def update_width_so_def stack_call_so_def stack_size_so_def
  stack_size_loop_so.simps(2) [of "pred_numeral k" for k, folded numeral_eq_Suc]
  put_window_loop_so.simps(2) [of "pred_numeral k" for k, folded numeral_eq_Suc]
  get_window_loop_so.simps(2) [of "pred_numeral k" for k, folded numeral_eq_Suc]
  push_loop_so.simps(2) [of "pred_numeral k" for k, folded numeral_eq_Suc]
  pop_loop_so.simps(2) [of "pred_numeral k" for k, folded numeral_eq_Suc]
  update_depth_loop_so.simps(2) [of "pred_numeral k" for k, folded numeral_eq_Suc]
  update_width_loop_so.simps(2) [of "pred_numeral k" for k, folded numeral_eq_Suc]


end
