(* ===== verification/KSegment_Queue.thy ===== *)
theory KSegment_Queue
  imports Queue_MS Thread_Random
begin

text \<open>
  The k-segment queue of \<^verbatim>\<open>src/queue-k-segment/queue-q_relaxed-k-segment.c\<close>: a linked list of segments with \<^verbatim>\<open>segment_size\<close>
  slots each. An enqueue puts its node into any free slot of the last segment and appends a segment when there is none; a dequeue takes the node of any
  slot of the first segment, by setting its \<^verbatim>\<open>deleted\<close> flag, and removes the segment when every node of it is taken.

  A segment and its array of slots come from one allocator (\<^verbatim>\<open>alloc_segment\<close>, ssmem) and have one address in the model; \<open>z\<close> is what the
  allocator hands out as the contents of an array. The memory of the nodes is \<open>node_mem\<close>; its history \<open>hist\<close> has the nodes put
  into slots, \<open>removed\<close> and \<open>freed\<close> those taken.
\<close>

section \<open>State\<close>

record slot =
  s_node :: ptr
  s_deleted :: u64

record segment =
  indices :: "slot list"
  seg_next :: ptr

record kqueue =
  kq_head :: ptr
  kq_tail :: ptr
  segs :: "ptr \<Rightarrow> segment option"
  seg_used :: "ptr list"
  seg_freed :: "ptr list"
  kq_mem :: node_mem

record kq_tl = tls +
  push_slot :: u64
  pop_slot :: u64
  walk_count :: u64
  current_segment :: ptr
  current_node :: ptr
  deleted_node :: u64

section \<open>Operations\<close>

definition load_slot :: "ptr \<Rightarrow> u64 \<Rightarrow> (slot \<Rightarrow> 'a) \<Rightarrow> (kqueue, 'a) prog" where
  "load_slot s i f = rd_opt (\<lambda>g. case segs g s of None \<Rightarrow> None | Some sg \<Rightarrow> map_option f (at (indices sg) i))"

definition load_seg_next :: "ptr \<Rightarrow> (kqueue, ptr) prog" where
  "load_seg_next s = rd_opt (\<lambda>g. map_option seg_next (segs g s))"

definition set_slot :: "ptr \<Rightarrow> u64 \<Rightarrow> (slot \<Rightarrow> slot) \<Rightarrow> kqueue \<Rightarrow> kqueue" where
  "set_slot s i u g =
     (case segs g s of
        None \<Rightarrow> g
      | Some sg \<Rightarrow> g\<lparr>segs := (segs g)(s \<mapsto> sg\<lparr>indices := (indices sg)[i := u (indices sg ! i)]\<rparr>)\<rparr>)"

text \<open>\<^verbatim>\<open>CAS(&current_segment->indices[i].node, NULL, new_node)\<close> in \<^verbatim>\<open>enq_cae\<close>, and the one of \<^verbatim>\<open>deleted\<close>.\<close>

definition enq_cae_kq :: "ptr \<Rightarrow> u64 \<Rightarrow> ptr \<Rightarrow> (kqueue, bool) prog" where
  "enq_cae_kq s i new_node =
     pbind (Act (\<lambda>g. if (case segs g s of None \<Rightarrow> None | Some sg \<Rightarrow> map_option s_node (at (indices sg) i)) = Some NULL
                     then (set_slot s i (s_node_update (\<lambda>_. new_node)) g)\<lparr>kq_mem := mem_publish new_node (kq_mem g)\<rparr> else g)
             (\<lambda>g. Ret (case segs g s of None \<Rightarrow> None | Some sg \<Rightarrow> map_option s_node (at (indices sg) i)))) (\<lambda>found.
     case found of None \<Rightarrow> Fault | Some p \<Rightarrow> Ret (p = NULL))"

definition cas_deleted :: "nat \<Rightarrow> ptr \<Rightarrow> u64 \<Rightarrow> ptr \<Rightarrow> (kqueue, bool) prog" where
  "cas_deleted t s i node =
     pbind (Act (\<lambda>g. if (case segs g s of None \<Rightarrow> None | Some sg \<Rightarrow> map_option s_deleted (at (indices sg) i)) = Some 0
                     then (set_slot s i (s_deleted_update (\<lambda>_. 1)) g)\<lparr>kq_mem := mem_remove t node (kq_mem g)\<rparr> else g)
             (\<lambda>g. Ret (case segs g s of None \<Rightarrow> None | Some sg \<Rightarrow> map_option s_deleted (at (indices sg) i)))) (\<lambda>found.
     case found of None \<Rightarrow> Fault | Some d \<Rightarrow> Ret (d = 0))"

definition cas_seg_next :: "ptr \<Rightarrow> ptr \<Rightarrow> (kqueue, bool) prog" where
  "cas_seg_next s new =
     pbind (Act (\<lambda>g. case segs g s of
                       None \<Rightarrow> g
                     | Some sg \<Rightarrow> if seg_next sg = NULL then g\<lparr>segs := (segs g)(s \<mapsto> sg\<lparr>seg_next := new\<rparr>)\<rparr> else g)
             (\<lambda>g. Ret (map_option seg_next (segs g s)))) (\<lambda>found.
     case found of None \<Rightarrow> Fault | Some p \<Rightarrow> Ret (p = NULL))"

definition cas_tail_kq :: "ptr \<Rightarrow> ptr \<Rightarrow> (kqueue, bool \<times> ptr) prog" where
  "cas_tail_kq = cae kq_tail (\<lambda>p g. g\<lparr>kq_tail := p\<rparr>)"

definition cas_head_kq :: "ptr \<Rightarrow> ptr \<Rightarrow> (kqueue, bool \<times> ptr) prog" where
  "cas_head_kq = cae kq_head (\<lambda>p g. g\<lparr>kq_head := p\<rparr>)"

definition free_segment :: "ptr \<Rightarrow> (kqueue, unit) prog" where
  "free_segment s = wr (\<lambda>g. g\<lparr>seg_freed := s # seg_freed g\<rparr>)"

definition alloc_seg :: "allocator \<Rightarrow> slot list \<Rightarrow> nat \<Rightarrow> (kqueue, ptr) prog" where
  "alloc_seg al z t =
     Act (\<lambda>g. g\<lparr>segs := (segs g)(al t (seg_used g) \<mapsto> \<lparr>indices = z, seg_next = NULL\<rparr>), seg_used := al t (seg_used g) # seg_used g\<rparr>)
         (\<lambda>g. Ret (al t (seg_used g)))"

definition try_create_segment :: "allocator \<Rightarrow> slot list \<Rightarrow> nat \<Rightarrow> kq_tl \<Rightarrow> (kqueue, kq_tl) prog" where
  "try_create_segment al z t l =
     pbind (alloc_seg al z t) (\<lambda>new_segment.
     pbind (assert (new_segment \<noteq> NULL)) (\<lambda>_.
     pbind (cas_seg_next (current_segment l) new_segment) (\<lambda>linked.
     if linked then
       pbind (cas_tail_kq (current_segment l) new_segment) (\<lambda>(moved, _).
       Ret (if moved then l\<lparr>my_slide_count := add64 (my_slide_count l) 1\<rparr> else l))
     else
       pbind (load_seg_next (current_segment l)) (\<lambda>nxt.
       pbind (if nxt \<noteq> NULL then pbind (rd kq_tail) (\<lambda>tail. Ret (tail = current_segment l)) else Ret False) (\<lambda>help.
       pbind (if help then
                pbind (load_seg_next (current_segment l)) (\<lambda>nxt.
                pbind (cas_tail_kq (current_segment l) nxt) (\<lambda>_. Ret ()))
              else Ret ()) (\<lambda>_.
       pbind (free_segment new_segment) (\<lambda>_. Ret l)))))))"

fun get_push_slot_loop :: "nat \<Rightarrow> nat \<Rightarrow> allocator \<Rightarrow> slot list \<Rightarrow> nat \<Rightarrow> kq_tl \<Rightarrow> (kqueue, kq_tl) prog" where
  "get_push_slot_loop 0 segment_size al z t l = NoFuel"
| "get_push_slot_loop (Suc n) segment_size al z t l =
     (let l = (if push_slot l \<ge> segment_size then l\<lparr>push_slot := 0\<rparr> else l)
      in pbind (load_slot (current_segment l) (push_slot l) s_node) (\<lambda>node.
         let l = l\<lparr>current_node := node\<rparr>
         in if node = NULL then Ret l
            else
              pbind (rd kq_tail) (\<lambda>tail.
              pbind (if current_segment l = tail then
                       Ret (l\<lparr>push_slot := add64 (push_slot l) 1, my_hop_count := add64 (my_hop_count l) 1\<rparr>)
                     else pbind (rd kq_tail) (\<lambda>tail. Ret (l\<lparr>current_segment := tail, walk_count := 0\<rparr>))) (\<lambda>l.
              if walk_count l \<ge> segment_size then
                pbind (try_create_segment al z t l) (\<lambda>l.
                pbind (rd kq_tail) (\<lambda>tail.
                get_push_slot_loop n segment_size al z t (l\<lparr>current_segment := tail, walk_count := 0\<rparr>)))
              else get_push_slot_loop n segment_size al z t (l\<lparr>walk_count := add64 (walk_count l) 1\<rparr>)))))"

definition get_push_slot :: "nat \<Rightarrow> nat \<Rightarrow> allocator \<Rightarrow> slot list \<Rightarrow> nat \<Rightarrow> kq_tl \<Rightarrow> (kqueue, kq_tl) prog" where
  "get_push_slot fuel segment_size al z t l =
     pbind (random_mod segment_size l) (\<lambda>(i, l).
     pbind (rd kq_tail) (\<lambda>tail.
     get_push_slot_loop fuel segment_size al z t (l\<lparr>push_slot := i, current_segment := tail, walk_count := 0\<rparr>)))"

definition queue_new_node_kq :: "allocator \<Rightarrow> nat \<Rightarrow> int \<Rightarrow> int \<Rightarrow> ptr \<Rightarrow> (kqueue, ptr) prog" where
  "queue_new_node_kq al t key val nxt =
     Act (\<lambda>g. g\<lparr>kq_mem := mem_alloc t (al t (allocd (kq_mem g))) \<lparr>n_key = key, n_val = val, n_next = nxt\<rparr> (kq_mem g)\<rparr>)
         (\<lambda>g. Ret (al t (allocd (kq_mem g))))"

fun queue_relaxed_insert_loop :: "nat \<Rightarrow> nat \<Rightarrow> nat \<Rightarrow> allocator \<Rightarrow> slot list \<Rightarrow> nat \<Rightarrow> ptr \<Rightarrow> kq_tl \<Rightarrow> (kqueue, int \<times> kq_tl) prog" where
  "queue_relaxed_insert_loop 0 fuel segment_size al z t new_node l = NoFuel"
| "queue_relaxed_insert_loop (Suc n) fuel segment_size al z t new_node l =
     pbind (get_push_slot fuel segment_size al z t l) (\<lambda>l.
     pbind (enq_cae_kq (current_segment l) (push_slot l) new_node) (\<lambda>success.
     if success then Ret (1, l)
     else queue_relaxed_insert_loop n fuel segment_size al z t new_node
            (l\<lparr>my_put_cas_fail_count := add64 (my_put_cas_fail_count l) 1\<rparr>)))"

definition queue_relaxed_insert ::
  "allocator \<Rightarrow> slot list \<Rightarrow> nat \<Rightarrow> nat \<Rightarrow> nat \<Rightarrow> int \<Rightarrow> int \<Rightarrow> kq_tl \<Rightarrow> (kqueue, int \<times> kq_tl) prog" where
  "queue_relaxed_insert al z fuel segment_size t key val l =
     pbind (queue_new_node_kq al t key val NULL) (\<lambda>new_node.
     queue_relaxed_insert_loop fuel fuel segment_size al z t new_node l)"

text \<open>The first lines of the loop of \<^verbatim>\<open>get_pop_slot\<close>: \<open>True\<close> is the \<^verbatim>\<open>break\<close> at the last segment.\<close>

definition pop_walked :: "nat \<Rightarrow> bool \<Rightarrow> kq_tl \<Rightarrow> (kqueue, bool \<times> kq_tl) prog" where
  "pop_walked segment_size pending_slot l =
     (if walk_count l \<ge> segment_size then
        pbind (rd kq_tail) (\<lambda>tail.
        if current_segment l = tail then Ret (True, l)
        else if \<not> pending_slot then
          pbind (load_seg_next (current_segment l)) (\<lambda>nxt.
          pbind (cas_head_kq (current_segment l) nxt) (\<lambda>(success, _).
          pbind (if success then free_segment (current_segment l) else Ret ()) (\<lambda>_.
          pbind (rd kq_head) (\<lambda>head. Ret (False, l\<lparr>current_segment := head, walk_count := 0\<rparr>)))))
        else Ret (False, l))
      else Ret (False, l\<lparr>walk_count := add64 (walk_count l) 1\<rparr>))"

fun get_pop_slot_loop :: "nat \<Rightarrow> nat \<Rightarrow> bool \<Rightarrow> kq_tl \<Rightarrow> (kqueue, kq_tl) prog" where
  "get_pop_slot_loop 0 segment_size pending_slot l = NoFuel"
| "get_pop_slot_loop (Suc n) segment_size pending_slot l =
     pbind (pop_walked segment_size pending_slot l) (\<lambda>(leave, l).
     if leave then Ret l
     else
       let l = (if pop_slot l \<ge> segment_size then l\<lparr>pop_slot := 0\<rparr> else l)
       in pbind (load_slot (current_segment l) (pop_slot l) s_node) (\<lambda>node.
          pbind (load_slot (current_segment l) (pop_slot l) s_deleted) (\<lambda>deleted.
          let l = l\<lparr>current_node := node, deleted_node := deleted\<rparr>
          in if node \<noteq> NULL \<and> deleted = 0 then Ret l
             else
               pbind (rd kq_head) (\<lambda>head.
               if current_segment l = head then
                 get_pop_slot_loop n segment_size (if node = NULL then True else pending_slot)
                   (l\<lparr>pop_slot := add64 (pop_slot l) 1, my_hop_count := add64 (my_hop_count l) 1\<rparr>)
               else
                 pbind (rd kq_head) (\<lambda>head.
                 get_pop_slot_loop n segment_size pending_slot (l\<lparr>current_segment := head, walk_count := 0\<rparr>))))))"

definition get_pop_slot :: "nat \<Rightarrow> nat \<Rightarrow> kq_tl \<Rightarrow> (kqueue, kq_tl) prog" where
  "get_pop_slot fuel segment_size l =
     pbind (rd kq_head) (\<lambda>head.
     pbind (random_mod segment_size (l\<lparr>current_segment := head, walk_count := 0\<rparr>)) (\<lambda>(i, l).
     get_pop_slot_loop fuel segment_size False (l\<lparr>pop_slot := i\<rparr>)))"

fun queue_relaxed_delete_loop :: "nat \<Rightarrow> nat \<Rightarrow> nat \<Rightarrow> nat \<Rightarrow> kq_tl \<Rightarrow> (kqueue, int \<times> kq_tl) prog" where
  "queue_relaxed_delete_loop 0 fuel segment_size t l = NoFuel"
| "queue_relaxed_delete_loop (Suc n) fuel segment_size t l =
     pbind (get_pop_slot fuel segment_size l) (\<lambda>l.
     if deleted_node l = 1 \<or> current_node l = NULL then Ret (0, l\<lparr>my_null_count := add64 (my_null_count l) 1\<rparr>)
     else
       pbind (cas_deleted t (current_segment l) (pop_slot l) (current_node l)) (\<lambda>success.
       if success then
         pbind (rd_opt (\<lambda>g. map_option n_val (heap (kq_mem g) (current_node l)))) (\<lambda>node_val.
         pbind (wr (\<lambda>g. g\<lparr>kq_mem := mem_free t (current_node l) (kq_mem g)\<rparr>)) (\<lambda>_.
         Ret (node_val, l)))
       else queue_relaxed_delete_loop n fuel segment_size t (l\<lparr>my_get_cas_fail_count := add64 (my_get_cas_fail_count l) 1\<rparr>)))"

definition queue_relaxed_delete :: "nat \<Rightarrow> nat \<Rightarrow> nat \<Rightarrow> kq_tl \<Rightarrow> (kqueue, int \<times> kq_tl) prog" where
  "queue_relaxed_delete fuel segment_size t l = queue_relaxed_delete_loop fuel fuel segment_size t l"

definition queue_relaxed_find :: "int \<Rightarrow> (kqueue, int) prog" where
  "queue_relaxed_find key = Ret 1"

text \<open>\<^verbatim>\<open>queue_size\<close>: the inner loop counts the slots of a segment that hold a node not deleted.\<close>

fun size_slots :: "u64 list \<Rightarrow> ptr \<Rightarrow> int \<Rightarrow> (kqueue, int) prog" where
  "size_slots [] s sz = Ret sz"
| "size_slots (i # is) s sz =
     pbind (load_slot s i s_node) (\<lambda>node.
     pbind (if node \<noteq> NULL then pbind (load_slot s i s_deleted) (\<lambda>d. Ret (d = 0)) else Ret False) (\<lambda>there.
     if there then pbind (assert (sz < 2147483647)) (\<lambda>_. size_slots is s (sz + 1))
     else size_slots is s sz))"

fun queue_size_loop_kq :: "nat \<Rightarrow> nat \<Rightarrow> ptr \<Rightarrow> int \<Rightarrow> (kqueue, int) prog" where
  "queue_size_loop_kq 0 segment_size s sz = NoFuel"
| "queue_size_loop_kq (Suc n) segment_size s sz =
     pbind (size_slots [0 ..< segment_size] s sz) (\<lambda>sz.
     pbind (rd kq_tail) (\<lambda>tail.
     if s = tail then Ret sz
     else pbind (load_seg_next s) (\<lambda>s. queue_size_loop_kq n segment_size s sz)))"

definition queue_size_kq :: "nat \<Rightarrow> nat \<Rightarrow> (kqueue, int) prog" where
  "queue_size_kq fuel segment_size = pbind (rd kq_head) (\<lambda>s. queue_size_loop_kq fuel segment_size s 0)"

text \<open>The first segment, as the main program sets it up, with zeroed slots.\<close>

definition free_slot :: slot where
  "free_slot = \<lparr>s_node = NULL, s_deleted = 0\<rparr>"

definition kqueue_init :: "ptr \<Rightarrow> nat \<Rightarrow> kqueue" where
  "kqueue_init s segment_size =
     \<lparr>kq_head = s, kq_tail = s, segs = [s \<mapsto> \<lparr>indices = replicate segment_size free_slot, seg_next = NULL\<rparr>],
      seg_used = [s], seg_freed = [], kq_mem = empty_mem\<rparr>"

definition kqueue_call :: "allocator \<Rightarrow> slot list \<Rightarrow> nat \<Rightarrow> nat \<Rightarrow> nat \<Rightarrow> queue_call \<Rightarrow> kq_tl \<Rightarrow> (kqueue, int \<times> kq_tl) prog" where
  "kqueue_call al z fuel segment_size t c l =
     (case c of Enq key val \<Rightarrow> queue_relaxed_insert al z fuel segment_size t key val l | Deq \<Rightarrow> queue_relaxed_delete fuel segment_size t l)"

section \<open>The abstract queue\<close>

text \<open>A queue whose dequeue may return any of the \<open>k\<close> oldest values.\<close>

fun kfifo :: "nat \<Rightarrow> queue_call \<Rightarrow> int list \<Rightarrow> int \<Rightarrow> int list \<Rightarrow> bool" where
  "kfifo k (Enq key val) xs r ys = (r = 1 \<and> ys = xs @ [val])"
| "kfifo k Deq xs r ys =
     (xs = [] \<and> r = 0 \<and> ys = [] \<or> (\<exists>i < length xs. i < k \<and> r = xs ! i \<and> ys = take i xs @ drop (i + 1) xs))"

definition kq_taken :: "node_mem \<Rightarrow> ptr \<Rightarrow> bool" where
  "kq_taken m p \<longleftrightarrow> p \<in> fst ` set (removed m) \<or> p \<in> fst ` set (freed m)"

definition kq_items :: "node_mem \<Rightarrow> ptr list" where
  "kq_items m = filter (\<lambda>p. \<not> kq_taken m p) (rev (hist m))"

definition kq_values :: "kqueue \<Rightarrow> int list" where
  "kq_values g = map (node_val (kq_mem g)) (kq_items (kq_mem g))"

section \<open>The invariant between calls\<close>

text \<open>
  \<open>seg_ok\<close>: a segment that holds the nodes \<open>h\<close>, those taken marked as deleted. \<open>full_path\<close>: full segments linked from \<open>p\<close> to \<open>q\<close>. The queue is
  a path of full segments and the last segment; the nodes of a segment were put in before those of the next, and
  all nodes taken are in the first segment or in segments already removed.
\<close>

definition seg_ok :: "nat \<Rightarrow> node_mem \<Rightarrow> segment \<Rightarrow> ptr list \<Rightarrow> bool" where
  "seg_ok k m sg h \<longleftrightarrow> length (indices sg) = k \<and> filter_mset (\<lambda>p. p \<noteq> NULL) (mset (map s_node (indices sg))) = mset h \<and>
     (\<forall>x \<in> set (indices sg). s_deleted x = (if s_node x \<noteq> NULL \<and> kq_taken m (s_node x) then 1 else 0))"

fun full_path :: "nat \<Rightarrow> node_mem \<Rightarrow> (ptr \<Rightarrow> segment option) \<Rightarrow> ptr \<Rightarrow> (ptr \<times> ptr list) list \<Rightarrow> ptr \<Rightarrow> bool" where
  "full_path k m sgs p [] q = (p = q)"
| "full_path k m sgs p ((s, h) # xs) q =
     (p = s \<and> (\<exists>sg. sgs s = Some sg \<and> seg_ok k m sg h \<and> length h = k \<and> full_path k m sgs (seg_next sg) xs q))"

definition kq_mem_ok :: "node_mem \<Rightarrow> bool" where
  "kq_mem_ok m \<longleftrightarrow> distinct (hist m) \<and> NULL \<notin> set (hist m) \<and> set (hist m) \<subseteq> set (allocd m) \<and>
     (\<forall>p \<in> set (hist m). heap m p \<noteq> None) \<and> (\<forall>p. kq_taken m p \<longrightarrow> p \<in> set (hist m))"

definition kq_ok :: "nat \<Rightarrow> kqueue \<Rightarrow> (ptr \<times> ptr list) list \<Rightarrow> ptr list \<Rightarrow> bool" where
  "kq_ok k g xs h \<longleftrightarrow> full_path k (kq_mem g) (segs g) (kq_head g) xs (kq_tail g) \<and>
     (\<exists>sg. segs g (kq_tail g) = Some sg \<and> seg_ok k (kq_mem g) sg h \<and> seg_next sg = NULL) \<and>
     distinct (map fst xs @ [kq_tail g]) \<and> set (map fst xs @ [kq_tail g]) \<subseteq> set (seg_used g) \<and>
     kq_mem_ok (kq_mem g) \<and>
     (\<exists>dead. rev (hist (kq_mem g)) = dead @ concat (map snd xs) @ h \<and> (\<forall>p \<in> set dead. kq_taken (kq_mem g) p)) \<and>
     (\<forall>hs \<in> set (tl (map snd xs @ [h])). \<forall>p \<in> set hs. \<not> kq_taken (kq_mem g) p)"

lemma full_path_snoc:
  "full_path k m sgs p (xs @ [(s, h)]) q \<longleftrightarrow>
     full_path k m sgs p xs s \<and> (\<exists>sg. sgs s = Some sg \<and> seg_ok k m sg h \<and> length h = k \<and> seg_next sg = q)"
  by (induction xs arbitrary: p) auto

lemma seg_ok_cong:
  assumes "\<And>p. p \<in> set h \<Longrightarrow> kq_taken m' p = kq_taken m p"
  shows "seg_ok k m' sg h = seg_ok k m sg h"
proof -
  have "s_node x \<in> set h" if "x \<in> set (indices sg)" "s_node x \<noteq> NULL"
    "filter_mset (\<lambda>p. p \<noteq> NULL) (mset (map s_node (indices sg))) = mset h" for x
  proof -
    have "s_node x \<in># filter_mset (\<lambda>p. p \<noteq> NULL) (mset (map s_node (indices sg)))" using that(1,2) by simp
    then show ?thesis unfolding that(3) by simp
  qed
  then show ?thesis using assms unfolding seg_ok_def by (intro conj_cong ball_cong refl) auto
qed

lemma full_path_cong:
  assumes "\<And>s. s \<in> fst ` set xs \<Longrightarrow> sgs' s = sgs s" "\<And>p. p \<in> set (concat (map snd xs)) \<Longrightarrow> kq_taken m' p = kq_taken m p"
  shows "full_path k m' sgs' p xs q = full_path k m sgs p xs q"
  using assms
proof (induction xs arbitrary: p)
  case (Cons a xs)
  obtain s h where a: "a = (s, h)" by (cases a)
  have "seg_ok k m' sg h = seg_ok k m sg h" for sg using Cons.prems(2) a by (intro seg_ok_cong) simp
  moreover have "full_path k m' sgs' r xs q = full_path k m sgs r xs q" for r using Cons.prems by (intro Cons.IH) auto
  ultimately show ?case using Cons.prems(1) [of s] a by simp
qed simp

lemma seg_ok_nodes:
  assumes "seg_ok k m sg h"
  shows "set h = {s_node x | x. x \<in> set (indices sg) \<and> s_node x \<noteq> NULL}" "length h \<le> k"
    "length h = k \<longleftrightarrow> (\<forall>x \<in> set (indices sg). s_node x \<noteq> NULL)"
proof -
  have h: "filter_mset (\<lambda>p. p \<noteq> NULL) (mset (map s_node (indices sg))) = mset h" and len: "length (indices sg) = k"
    using assms by (simp_all add: seg_ok_def)
  have "set h = set_mset (filter_mset (\<lambda>p. p \<noteq> NULL) (mset (map s_node (indices sg))))" unfolding h by simp
  also have "\<dots> = {s_node x | x. x \<in> set (indices sg) \<and> s_node x \<noteq> NULL}" by auto
  finally show "set h = {s_node x | x. x \<in> set (indices sg) \<and> s_node x \<noteq> NULL}" .
  have m: "mset h = mset (filter (\<lambda>p. p \<noteq> NULL) (map s_node (indices sg)))" unfolding mset_filter h ..
  then have l: "length h = length (filter (\<lambda>p. p \<noteq> NULL) (map s_node (indices sg)))" by (metis size_mset)
  then show "length h \<le> k" using len length_filter_le [of "\<lambda>p. p \<noteq> NULL" "map s_node (indices sg)"] by simp
  show "length h = k \<longleftrightarrow> (\<forall>x \<in> set (indices sg). s_node x \<noteq> NULL)"
  proof
    assume k: "length h = k"
    show "\<forall>x \<in> set (indices sg). s_node x \<noteq> NULL"
    proof (intro ballI notI)
      fix x
      assume "x \<in> set (indices sg)" "s_node x = NULL"
      then have "length (filter (\<lambda>p. p \<noteq> NULL) (map s_node (indices sg))) < length (map s_node (indices sg))"
        by (intro length_filter_less [of NULL]) (auto intro: rev_image_eqI)
      then show False using k l len by simp
    qed
  next
    assume "\<forall>x \<in> set (indices sg). s_node x \<noteq> NULL"
    then show "length h = k" using l len by (simp add: filter_id_conv)
  qed
qed

section \<open>Running alone\<close>

lemma wp_load_slot: "segs g s = Some sg \<Longrightarrow> i < length (indices sg) \<Longrightarrow> wp (load_slot s i f) Q g = Q (f (indices sg ! i)) g"
  by (simp add: load_slot_def)

text \<open>A new segment at the end of a queue whose last segment is full.\<close>

definition appended :: "ptr \<Rightarrow> segment \<Rightarrow> slot list \<Rightarrow> kqueue \<Rightarrow> kqueue" where
  "appended p sg z g = g\<lparr>seg_used := p # seg_used g,
     segs := (segs g)(p \<mapsto> \<lparr>indices = z, seg_next = NULL\<rparr>, kq_tail g \<mapsto> sg\<lparr>seg_next := p\<rparr>), kq_tail := p\<rparr>"

lemma seg_ok_next [simp]: "seg_ok k m (sg\<lparr>seg_next := p\<rparr>) h = seg_ok k m sg h"
  by (simp add: seg_ok_def)

lemma seg_ok_empty: "seg_ok k m \<lparr>indices = replicate k free_slot, seg_next = p\<rparr> []"
  by (simp add: seg_ok_def free_slot_def)

lemma kq_ok_appended:
  assumes ok: "kq_ok k g xs h" and sg: "segs g (kq_tail g) = Some sg" "\<forall>x \<in> set (indices sg). s_node x \<noteq> NULL"
    and p: "p \<notin> set (seg_used g)"
  shows "kq_ok k (appended p sg (replicate k free_slot) g) (xs @ [(kq_tail g, h)]) []"
proof -
  note d = ok [unfolded kq_ok_def]
  have so: "seg_ok k (kq_mem g) sg h" using d sg(1) by auto
  then have len: "length h = k" using seg_ok_nodes(3) sg(2) by blast
  have np: "p \<notin> set (map fst xs)" "p \<noteq> kq_tail g" "kq_tail g \<notin> set (map fst xs)" using d p by auto
  have "full_path k (kq_mem g) ((segs g)(p \<mapsto> v, kq_tail g \<mapsto> v')) (kq_head g) xs (kq_tail g)" for v v'
    using d np by (subst full_path_cong [of _ _ "segs g" _ "kq_mem g"]) (auto simp: image_iff)
  then have "full_path k (kq_mem g) (segs (appended p sg (replicate k free_slot) g)) (kq_head g) (xs @ [(kq_tail g, h)]) p"
    using so len np by (simp add: full_path_snoc appended_def)
  moreover have "segs (appended p sg (replicate k free_slot) g) p = Some \<lparr>indices = replicate k free_slot, seg_next = NULL\<rparr>"
    using np by (simp add: appended_def)
  moreover have "\<forall>hs \<in> set (tl (map snd (xs @ [(kq_tail g, h)]) @ [[]])). \<forall>q \<in> set hs. \<not> kq_taken (kq_mem g) q"
    using d by (cases xs) auto
  ultimately show ?thesis
    using d np seg_ok_empty by (auto simp: kq_ok_def appended_def)
qed

lemma wp_try_create_segment:
  assumes "alloc_fresh al" "segs g (kq_tail g) = Some sg" "seg_next sg = NULL" "current_segment l = kq_tail g" "p = al t (seg_used g)"
    and "kq_tail g \<in> set (seg_used g)"
    and "Q (l\<lparr>my_slide_count := add64 (my_slide_count l) 1\<rparr>) (appended p sg z g)"
  shows "wp (try_create_segment al z t l) Q g"
proof -
  have "p \<noteq> NULL" "p \<notin> set (seg_used g)" using assms(1,5) by (simp_all add: alloc_fresh_def)
  moreover from this(2) have "p \<noteq> kq_tail g" using assms(6) by blast
  ultimately show ?thesis using assms
    by (simp add: try_create_segment_def alloc_seg_def cas_seg_next_def cas_tail_kq_def appended_def)
qed

text \<open>What \<^verbatim>\<open>get_push_slot\<close> leaves behind: a free slot of the last segment, which may be a new one.\<close>

definition push_post :: "nat \<Rightarrow> kqueue \<Rightarrow> kq_tl \<Rightarrow> kqueue \<Rightarrow> bool" where
  "push_post k g l g' \<longleftrightarrow> kq_mem g' = kq_mem g \<and> current_segment l = kq_tail g' \<and> push_slot l < k \<and>
     (\<exists>xs h sg. kq_ok k g' xs h \<and> segs g' (kq_tail g') = Some sg \<and> s_node (indices sg ! push_slot l) = NULL)"

definition wrap :: "nat \<Rightarrow> nat \<Rightarrow> nat" where
  "wrap k i = (if i \<ge> k then 0 else i)"

lemma wrap_less [simp]: "0 < k \<Longrightarrow> wrap k i < k"
  by (simp add: wrap_def)

lemma wrap_next: "i < k \<Longrightarrow> k < W64 \<Longrightarrow> wrap k (add64 i 1) = next_index k i"
  by (simp add: wrap_def next_index_def add64_eq)

lemma wrap_slot:
  "(if push_slot l \<ge> k then l\<lparr>push_slot := 0\<rparr> else l) = l\<lparr>push_slot := wrap k (push_slot l)\<rparr>"
  "(if pop_slot l \<ge> k then l\<lparr>pop_slot := 0\<rparr> else l) = l\<lparr>pop_slot := wrap k (pop_slot l)\<rparr>"
  by (simp_all add: wrap_def)

lemma push_hit:
  assumes ok: "kq_ok k g xs h" and sg: "segs g (kq_tail g) = Some sg" and l: "current_segment l = kq_tail g" "0 < k"
    and "s_node (indices sg ! wrap k (push_slot l)) = NULL" "kq_mem g = kq_mem g0"
  shows "wp (get_push_slot_loop (Suc n) k al z t l) (push_post k g0) g"
proof -
  have len: "length (indices sg) = k" using ok sg by (auto simp: kq_ok_def seg_ok_def)
  have "wp (load_slot (kq_tail g) (wrap k (push_slot l)) s_node) Q g = Q NULL g" for Q
    using sg len l(2) assms(5) by (subst wp_load_slot) auto
  moreover have "push_post k g0 (l\<lparr>push_slot := wrap k (push_slot l), current_node := NULL\<rparr>) g"
    using assms by (auto simp: push_post_def)
  ultimately show ?thesis using l unfolding get_push_slot_loop.simps wrap_slot by (simp add: Let_def)
qed

definition push_hopped :: "nat \<Rightarrow> segment \<Rightarrow> kq_tl \<Rightarrow> kq_tl" where
  "push_hopped k sg l = l\<lparr>current_node := s_node (indices sg ! wrap k (push_slot l)), push_slot := add64 (wrap k (push_slot l)) 1,
     my_hop_count := add64 (my_hop_count l) 1\<rparr>"

lemma push_hopped_simps [simp]:
  "walk_count (push_hopped k sg l) = walk_count l" "current_segment (push_hopped k sg l) = current_segment l"
  "push_slot (push_hopped k sg l) = add64 (wrap k (push_slot l)) 1"
  by (simp_all add: push_hopped_def)

lemma push_miss:
  assumes "segs g (kq_tail g) = Some sg" "length (indices sg) = k" "0 < k" "current_segment l = kq_tail g"
    and "s_node (indices sg ! wrap k (push_slot l)) \<noteq> NULL"
  shows "wp (get_push_slot_loop (Suc n) k al z t l) Q g =
    (if walk_count l \<ge> k
     then wp (try_create_segment al z t (push_hopped k sg l))
            (\<lambda>l. wp (pbind (rd kq_tail) (\<lambda>tail. get_push_slot_loop n k al z t (l\<lparr>current_segment := tail, walk_count := 0\<rparr>))) Q) g
     else wp (get_push_slot_loop n k al z t ((push_hopped k sg l)\<lparr>walk_count := add64 (walk_count l) 1\<rparr>)) Q g)"
proof -
  have "wp (load_slot (kq_tail g) (wrap k (push_slot l)) s_node) R g = R (s_node (indices sg ! wrap k (push_slot l))) g" for R
    using assms by (subst wp_load_slot) auto
  then show ?thesis using assms(4,5) unfolding get_push_slot_loop.simps wrap_slot
    by (simp add: Let_def push_hopped_def del: get_push_slot_loop.simps)
qed

lemma push_loop_seq:
  assumes al: "alloc_fresh al" and ok: "kq_ok k g xs h" and k: "0 < k" "k < W64"
    and sg: "segs g (kq_tail g) = Some sg"
    and "current_segment l = kq_tail g" "walk_count l \<le> k" "k - walk_count l + 2 \<le> n"
    and "seen k (wrap k (push_slot l)) (walk_count l) (\<lambda>j. s_node (indices sg ! j) \<noteq> NULL)"
  shows "wp (get_push_slot_loop n k al (replicate k free_slot) t l) (push_post k g) g"
  using assms(6-)
proof (induction n arbitrary: l)
  case (Suc n)
  let ?i = "wrap k (push_slot l)" and ?P = "\<lambda>j. s_node (indices sg ! j) \<noteq> NULL"
  have so: "seg_ok k (kq_mem g) sg h" and nx: "seg_next sg = NULL" and used: "kq_tail g \<in> set (seg_used g)"
    using ok sg by (auto simp: kq_ok_def)
  have len: "length (indices sg) = k" using so by (simp add: seg_ok_def)
  have i: "?i < k" using k by simp
  show ?case
  proof (cases "?P ?i")
    case False
    then show ?thesis using push_hit [OF ok sg Suc.prems(1) k(1)] by simp
  next
    case True
    let ?l = "push_hopped k sg l"
    note miss = push_miss [OF sg len k(1) Suc.prems(1) True]
    have nxt: "wrap k (add64 ?i 1) = next_index k ?i" by (rule wrap_next [OF i k(2)])
    show ?thesis
    proof (cases "walk_count l = k")
      case w: False
      then have "walk_count l < k" using Suc.prems by simp
      moreover have "add64 (walk_count l) 1 = walk_count l + 1" using calculation k by (intro add64_eq) simp
      moreover have "seen k (next_index k ?i) (walk_count l + 1) ?P"
        using Suc.prems(4) True i calculation(1) by (intro seen_next)
      ultimately have "wp (get_push_slot_loop n k al (replicate k free_slot) t (?l\<lparr>walk_count := add64 (walk_count l) 1\<rparr>)) (push_post k g) g"
        using Suc.prems nxt by (intro Suc.IH) simp_all
      then show ?thesis unfolding miss using \<open>walk_count l < k\<close> by simp
    next
      case w: True
      have "\<forall>j < k. ?P j" using Suc.prems(4) w i by (intro seen_all) auto
      then have full: "\<forall>x \<in> set (indices sg). s_node x \<noteq> NULL" using len by (auto simp: in_set_conv_nth)
      let ?p = "al t (seg_used g)"
      let ?g = "appended ?p sg (replicate k free_slot) g"
      have fresh: "?p \<notin> set (seg_used g)" using al by (simp add: alloc_fresh_def)
      have ok': "kq_ok k ?g (xs @ [(kq_tail g, h)]) []" by (rule kq_ok_appended [OF ok sg full fresh])
      obtain n' where n': "n = Suc n'" using Suc.prems w by (cases n) auto
      have st: "segs ?g (kq_tail ?g) = Some \<lparr>indices = replicate k free_slot, seg_next = NULL\<rparr>" "kq_mem ?g = kq_mem g" "kq_tail ?g = ?p"
        using fresh used by (auto simp: appended_def)
      have "wp (get_push_slot_loop n k al (replicate k free_slot) t
          (?l\<lparr>my_slide_count := c, current_segment := ?p, walk_count := 0\<rparr>)) (push_post k g) ?g" for c
        unfolding n' by (rule push_hit [OF ok' st(1)]) (use k nxt next_index_less [OF k(1), of ?i] st in \<open>simp_all add: free_slot_def\<close>)
      then have "wp (try_create_segment al (replicate k free_slot) t ?l) (\<lambda>l. wp (pbind (rd kq_tail) (\<lambda>tail. get_push_slot_loop n k al (replicate k free_slot) t
          (l\<lparr>current_segment := tail, walk_count := 0\<rparr>))) (push_post k g)) g"
        using Suc.prems(1) used st(3) by (intro wp_try_create_segment [OF al sg nx _ refl]) simp_all
      then show ?thesis unfolding miss using w by simp
    qed
  qed
qed simp

lemma taken_simps [simp]:
  "kq_taken (mem_alloc t p nd m) = kq_taken m" "kq_taken (mem_publish p m) = kq_taken m"
  "kq_taken (m\<lparr>hist := xs\<rparr>) = kq_taken m"
  by (simp_all add: kq_taken_def mem_publish_def fun_eq_iff)

lemma kq_ok_cong_mem:
  assumes "kq_ok k g xs h" "kq_mem_ok m" "kq_taken m = kq_taken (kq_mem g)" "hist m = hist (kq_mem g)"
  shows "kq_ok k (g\<lparr>kq_mem := m\<rparr>) xs h"
proof -
  have "full_path k m (segs g) (kq_head g) xs (kq_tail g) = full_path k (kq_mem g) (segs g) (kq_head g) xs (kq_tail g)"
    using assms(3) by (intro full_path_cong) simp_all
  moreover have "seg_ok k m sg h = seg_ok k (kq_mem g) sg h" for sg using assms(3) by (intro seg_ok_cong) simp
  ultimately show ?thesis using assms by (simp add: kq_ok_def)
qed

lemma kq_ok_alloc:
  assumes "kq_ok k g xs h" "p \<notin> set (allocd (kq_mem g))"
  shows "kq_ok k (g\<lparr>kq_mem := mem_alloc t p nd (kq_mem g)\<rparr>) xs h" "kq_values (g\<lparr>kq_mem := mem_alloc t p nd (kq_mem g)\<rparr>) = kq_values g"
proof -
  have m: "kq_mem_ok (kq_mem g)" using assms(1) by (simp add: kq_ok_def)
  then show "kq_ok k (g\<lparr>kq_mem := mem_alloc t p nd (kq_mem g)\<rparr>) xs h"
    by (intro kq_ok_cong_mem [OF assms(1)]) (auto simp: kq_mem_ok_def)
  have "node_val (mem_alloc t p nd (kq_mem g)) q = node_val (kq_mem g) q" if "q \<in> set (hist (kq_mem g))" for q
    using that m assms(2) by (auto simp: node_val_def kq_mem_ok_def)
  then show "kq_values (g\<lparr>kq_mem := mem_alloc t p nd (kq_mem g)\<rparr>) = kq_values g"
    by (simp add: kq_values_def kq_items_def)
qed

text \<open>A node in a free slot of the last segment.\<close>

definition filled :: "u64 \<Rightarrow> ptr \<Rightarrow> segment \<Rightarrow> segment" where
  "filled i p sg = sg\<lparr>indices := (indices sg)[i := (indices sg ! i)\<lparr>s_node := p\<rparr>]\<rparr>"

lemma seg_ok_filled:
  assumes "seg_ok k m sg h" "i < k" "s_node (indices sg ! i) = NULL" "p \<noteq> NULL" "\<not> kq_taken m p"
  shows "seg_ok k m (filled i p sg) (h @ [p])"
proof -
  let ?f = "filter_mset (\<lambda>p. p \<noteq> NULL)"
  have i: "i < length (indices sg)" using assms(1,2) by (simp add: seg_ok_def)
  have "map s_node (indices (filled i p sg)) = (map s_node (indices sg))[i := p]" by (simp add: filled_def map_update)
  then have "mset (map s_node (indices (filled i p sg))) = add_mset p (mset (map s_node (indices sg)) - {#NULL#})"
    using i assms(3) by (simp only: mset_update length_map nth_map)
  then have "?f (mset (map s_node (indices (filled i p sg)))) = add_mset p (?f (mset (map s_node (indices sg))))"
    using assms(4) by simp
  also have "\<dots> = mset (h @ [p])" using assms(1) by (simp add: seg_ok_def)
  finally have "?f (mset (map s_node (indices (filled i p sg)))) = mset (h @ [p])" .
  moreover have "s_deleted x = (if s_node x \<noteq> NULL \<and> kq_taken m (s_node x) then 1 else 0)" if "x \<in> set (indices (filled i p sg))" for x
  proof -
    have "x \<in> set (indices sg) \<or> x = (indices sg ! i)\<lparr>s_node := p\<rparr>"
      using that set_update_subset_insert [of "indices sg" i] by (auto simp: filled_def)
    moreover have "s_deleted (indices sg ! i) = 0" using assms(1,3) i by (auto simp: seg_ok_def)
    ultimately show ?thesis using assms(1,5) by (auto simp: seg_ok_def)
  qed
  ultimately show ?thesis using i assms(1) by (simp add: seg_ok_def filled_def)
qed

lemma kq_ok_publish:
  assumes ok: "kq_ok k g xs h" and sg: "segs g (kq_tail g) = Some sg" "i < k" "s_node (indices sg ! i) = NULL"
    and p: "p \<noteq> NULL" "p \<in> set (allocd (kq_mem g))" "heap (kq_mem g) p = Some nd" "p \<notin> set (hist (kq_mem g))"
    and g': "g' = g\<lparr>segs := (segs g)(kq_tail g \<mapsto> filled i p sg), kq_mem := mem_publish p (kq_mem g)\<rparr>"
  shows "kq_ok k g' xs (h @ [p])" "kq_values g' = kq_values g @ [n_val nd]"
proof -
  note d = ok [unfolded kq_ok_def]
  have nt: "\<not> kq_taken (kq_mem g) p" using d p(4) by (auto simp: kq_mem_ok_def)
  have "full_path k (kq_mem g') (segs g') (kq_head g) xs (kq_tail g) = full_path k (kq_mem g) (segs g) (kq_head g) xs (kq_tail g)"
    using d by (intro full_path_cong) (force simp: g')+
  moreover have "seg_ok k (kq_mem g) (filled i p sg) (h @ [p])" using d sg nt p(1) by (intro seg_ok_filled) auto
  then have "seg_ok k (kq_mem g') (filled i p sg) (h @ [p])" using seg_ok_cong [of "h @ [p]" "kq_mem g'" "kq_mem g"] by (simp add: g')
  moreover have "kq_mem_ok (kq_mem g')" using d p by (auto simp: g' kq_mem_ok_def mem_publish_def kq_taken_def)
  moreover have "\<forall>hs \<in> set (tl (map snd xs @ [h @ [p]])). \<forall>q \<in> set hs. \<not> kq_taken (kq_mem g) q"
    using d nt by (cases xs) auto
  moreover have "seg_next (filled i p sg) = NULL" using d sg(1) by (auto simp: filled_def)
  ultimately show "kq_ok k g' xs (h @ [p])" using d by (auto simp: kq_ok_def g' mem_publish_def)
  have "node_val (mem_publish p (kq_mem g)) = node_val (kq_mem g)" by (simp add: node_val_def mem_publish_def fun_eq_iff)
  then show "kq_values g' = kq_values g @ [n_val nd]"
    using nt p(3) by (simp add: kq_values_def kq_items_def g' node_val_def) (simp add: mem_publish_def node_val_def)
qed

lemma wp_enq_cae:
  assumes "segs g s = Some sg" "i < length (indices sg)" "s_node (indices sg ! i) = NULL"
  shows "wp (enq_cae_kq s i p) Q g = Q True (g\<lparr>segs := (segs g)(s \<mapsto> filled i p sg), kq_mem := mem_publish p (kq_mem g)\<rparr>)"
  using assms by (simp add: enq_cae_kq_def set_slot_def filled_def)

text \<open>What an enqueue and a dequeue leave behind.\<close>

definition kq_rest :: "nat \<Rightarrow> kqueue \<Rightarrow> bool" where
  "kq_rest k g \<longleftrightarrow> (\<exists>xs h. kq_ok k g xs h)"

lemma insert_seq_kq:
  assumes al: "alloc_fresh al" and rest: "kq_rest k g" and k: "0 < k" "k < W64" "k + 2 \<le> fuel"
  shows "wp (queue_relaxed_insert al (replicate k free_slot) fuel k t key val l)
    (\<lambda>(r, l') g'. kq_rest k g' \<and> kfifo k (Enq key val) (kq_values g) r (kq_values g')) g"
proof -
  obtain xs h where ok0: "kq_ok k g xs h" using rest by (auto simp: kq_rest_def)
  let ?p = "al t (allocd (kq_mem g))" and ?nd = "\<lparr>n_key = key, n_val = val, n_next = NULL\<rparr>"
  let ?g = "g\<lparr>kq_mem := mem_alloc t ?p ?nd (kq_mem g)\<rparr>"
  have p: "?p \<noteq> NULL" "?p \<notin> set (allocd (kq_mem g))" using al by (simp_all add: alloc_fresh_def)
  note ok = kq_ok_alloc [OF ok0 p(2), of t ?nd]
  obtain sg where sg: "segs ?g (kq_tail ?g) = Some sg" using ok(1) by (auto simp: kq_ok_def)
  obtain n where n: "fuel = Suc n" using k(3) by (cases fuel) auto
  have hist: "?p \<notin> set (hist (kq_mem g))" using ok0 p(2) by (auto simp: kq_ok_def kq_mem_ok_def)
  have fin: "wp (enq_cae_kq (current_segment l') (push_slot l') ?p) (\<lambda>success. wp (if success then Ret (1, l')
        else queue_relaxed_insert_loop n fuel k al (replicate k free_slot) t ?p (l'\<lparr>my_put_cas_fail_count := add64 (my_put_cas_fail_count l') 1\<rparr>))
      (\<lambda>(r, l') g'. kq_rest k g' \<and> kfifo k (Enq key val) (kq_values g) r (kq_values g'))) g'"
    if post: "push_post k ?g l' g'" for l' g'
  proof -
    obtain xs' h' sg' where w: "kq_ok k g' xs' h'" "segs g' (kq_tail g') = Some sg'" "s_node (indices sg' ! push_slot l') = NULL"
      "kq_mem g' = kq_mem ?g" "current_segment l' = kq_tail g'" "push_slot l' < k"
      using post by (auto simp: push_post_def)
    have len: "length (indices sg') = k" using w(1,2) by (auto simp: kq_ok_def seg_ok_def)
    have v: "kq_values g' = kq_values g" using w(4) ok(2) by (simp add: kq_values_def)
    show ?thesis
      using kq_ok_publish [OF w(1,2,6,3), of ?p ?nd, OF p(1) _ _ _ refl] w(4-6) len v hist wp_enq_cae [OF w(2) _ w(3), of ?p]
      by (auto simp: kq_rest_def)
  qed
  have "wp (get_push_slot fuel k al (replicate k free_slot) t l) (push_post k ?g) ?g"
    unfolding get_push_slot_def wp_bind using k sg
    by (intro wp_random_mod) (auto intro!: push_loop_seq [OF al ok(1)])
  then show ?thesis unfolding queue_relaxed_insert_def
    by (simp add: queue_new_node_kq_def n) (rule wp_mono, assumption, use fin [unfolded n] in simp)
qed

text \<open>The first segment.\<close>

lemma kq_items_eq:
  assumes "kq_ok k g xs h"
  shows "kq_items (kq_mem g) = filter (\<lambda>p. \<not> kq_taken (kq_mem g) p) (concat (map snd xs) @ h)"
proof -
  obtain dead where d: "rev (hist (kq_mem g)) = dead @ concat (map snd xs) @ h" "\<forall>p \<in> set dead. kq_taken (kq_mem g) p"
    using assms by (auto simp: kq_ok_def)
  have "filter (\<lambda>p. \<not> kq_taken (kq_mem g) p) dead = []" using d(2) by simp
  then show ?thesis unfolding kq_items_def d(1) by simp
qed

lemma kq_ok_first:
  assumes "kq_ok k g xs h" "segs g (kq_head g) = Some sg"
  shows "xs = [] \<Longrightarrow> kq_head g = kq_tail g \<and> seg_ok k (kq_mem g) sg h"
    and "xs = (s, hh) # xs' \<Longrightarrow> kq_head g = s \<and> kq_head g \<noteq> kq_tail g \<and> seg_ok k (kq_mem g) sg hh \<and> length hh = k \<and>
       full_path k (kq_mem g) (segs g) (seg_next sg) xs' (kq_tail g)"
  using assms by (auto simp: kq_ok_def)

lemma kq_ok_head: "kq_ok k g xs h \<Longrightarrow> \<exists>sg. segs g (kq_head g) = Some sg \<and> length (indices sg) = k"
  by (cases xs) (auto simp: kq_ok_def seg_ok_def)

definition advanced :: "ptr \<Rightarrow> kqueue \<Rightarrow> kqueue" where
  "advanced p g = g\<lparr>kq_head := p, seg_freed := kq_head g # seg_freed g\<rparr>"

lemma kq_ok_advanced:
  assumes ok: "kq_ok k g ((s, hh) # xs) h" and sg: "segs g (kq_head g) = Some sg" and taken: "\<forall>p \<in> set hh. kq_taken (kq_mem g) p"
  shows "kq_ok k (advanced (seg_next sg) g) xs h"
proof -
  note d = ok [unfolded kq_ok_def]
  obtain dead where dead: "rev (hist (kq_mem g)) = dead @ concat (map snd ((s, hh) # xs)) @ h" "\<forall>p \<in> set dead. kq_taken (kq_mem g) p"
    using d by blast
  have "rev (hist (kq_mem g)) = (dead @ hh) @ concat (map snd xs) @ h" "\<forall>p \<in> set (dead @ hh). kq_taken (kq_mem g) p"
    using dead taken by auto
  moreover have "\<forall>hs \<in> set (tl (map snd xs @ [h])). \<forall>p \<in> set hs. \<not> kq_taken (kq_mem g) p"
    using d by (cases xs) auto
  ultimately show ?thesis using d sg unfolding kq_ok_def advanced_def by auto
qed

definition pop_read :: "nat \<Rightarrow> segment \<Rightarrow> kq_tl \<Rightarrow> kq_tl" where
  "pop_read k sg l = l\<lparr>pop_slot := wrap k (pop_slot l), current_node := s_node (indices sg ! wrap k (pop_slot l)),
     deleted_node := s_deleted (indices sg ! wrap k (pop_slot l))\<rparr>"

definition pop_hopped :: "nat \<Rightarrow> segment \<Rightarrow> kq_tl \<Rightarrow> kq_tl" where
  "pop_hopped k sg l = l\<lparr>current_node := s_node (indices sg ! wrap k (pop_slot l)), deleted_node := s_deleted (indices sg ! wrap k (pop_slot l)),
     pop_slot := add64 (wrap k (pop_slot l)) 1, my_hop_count := add64 (my_hop_count l) 1\<rparr>"

lemma pop_read_simps [simp]:
  "pop_slot (pop_read k sg l) = wrap k (pop_slot l)" "current_node (pop_read k sg l) = s_node (indices sg ! wrap k (pop_slot l))"
  "deleted_node (pop_read k sg l) = s_deleted (indices sg ! wrap k (pop_slot l))" "current_segment (pop_read k sg l) = current_segment l"
  "pop_slot (pop_hopped k sg l) = add64 (wrap k (pop_slot l)) 1" "current_node (pop_hopped k sg l) = s_node (indices sg ! wrap k (pop_slot l))"
  "deleted_node (pop_hopped k sg l) = s_deleted (indices sg ! wrap k (pop_slot l))" "current_segment (pop_hopped k sg l) = current_segment l"
  "walk_count (pop_hopped k sg l) = walk_count l"
  by (simp_all add: pop_read_def pop_hopped_def)

abbreviation takeable :: "slot \<Rightarrow> bool" where
  "takeable x \<equiv> s_node x \<noteq> NULL \<and> s_deleted x = 0"

lemma wp_pop_walked:
  "walk_count l < k \<Longrightarrow> wp (pop_walked k pend l) R g = R (False, l\<lparr>walk_count := add64 (walk_count l) 1\<rparr>) g"
  "k \<le> walk_count l \<Longrightarrow> current_segment l = kq_tail g \<Longrightarrow> wp (pop_walked k pend l) R g = R (True, l) g"
  "k \<le> walk_count l \<Longrightarrow> current_segment l = kq_head g \<Longrightarrow> kq_head g \<noteq> kq_tail g \<Longrightarrow> segs g (kq_head g) = Some sg \<Longrightarrow>
     wp (pop_walked k False l) R g = R (False, l\<lparr>current_segment := seg_next sg, walk_count := 0\<rparr>) (advanced (seg_next sg) g)"
  by (simp_all add: pop_walked_def load_seg_next_def cas_head_kq_def free_segment_def advanced_def)

lemma pop_look:
  assumes w: "\<And>R. wp (pop_walked k pend l) R g = R (False, l') g'"
    and "current_segment l' = kq_head g'" "segs g' (kq_head g') = Some sg" "length (indices sg) = k" "0 < k"
  shows "wp (get_pop_slot_loop (Suc n) k pend l) Q g =
    (if takeable (indices sg ! wrap k (pop_slot l')) then Q (pop_read k sg l') g'
     else wp (get_pop_slot_loop n k (s_node (indices sg ! wrap k (pop_slot l')) = NULL \<or> pend) (pop_hopped k sg l')) Q g')"
proof -
  have "wp (load_slot (kq_head g') (wrap k (pop_slot l')) f) R g' = R (f (indices sg ! wrap k (pop_slot l'))) g'" for R and f :: "slot \<Rightarrow> nat"
    using assms(3-) by (subst wp_load_slot) auto
  then show ?thesis unfolding get_pop_slot_loop.simps wrap_slot wp_bind w using assms(2)
    by (simp add: Let_def pop_read_def pop_hopped_def del: get_pop_slot_loop.simps)
qed

text \<open>
  What \<^verbatim>\<open>get_pop_slot\<close> leaves behind: a slot of the first segment whose node is not taken, or none if there is no node in the
  queue. It may have removed the segment that was first.
\<close>

definition pop_post :: "nat \<Rightarrow> node_mem \<Rightarrow> kq_tl \<Rightarrow> kqueue \<Rightarrow> bool" where
  "pop_post k m l g \<longleftrightarrow> kq_mem g = m \<and> kq_rest k g \<and>
     ((deleted_node l = 1 \<or> current_node l = NULL) \<and> kq_items m = [] \<or>
      current_segment l = kq_head g \<and> pop_slot l < k \<and> deleted_node l = 0 \<and> current_node l \<noteq> NULL \<and>
      (\<exists>sg. segs g (kq_head g) = Some sg \<and> indices sg ! pop_slot l = \<lparr>s_node = current_node l, s_deleted = 0\<rparr>))"

lemma seg_ok_slot:
  assumes "seg_ok k m sg h" "i < k"
  shows "s_node (indices sg ! i) \<noteq> NULL \<Longrightarrow> s_node (indices sg ! i) \<in> set h"
    and "takeable (indices sg ! i) \<longleftrightarrow> s_node (indices sg ! i) \<noteq> NULL \<and> \<not> kq_taken m (s_node (indices sg ! i))"
    and "\<not> takeable (indices sg ! i) \<Longrightarrow> s_deleted (indices sg ! i) = 1 \<or> s_node (indices sg ! i) = NULL"
proof -
  have i: "indices sg ! i \<in> set (indices sg)" using assms by (simp add: seg_ok_def)
  show "s_node (indices sg ! i) \<in> set h" if "s_node (indices sg ! i) \<noteq> NULL"
    unfolding seg_ok_nodes(1) [OF assms(1)] using that i by blast
  show "takeable (indices sg ! i) \<longleftrightarrow> s_node (indices sg ! i) \<noteq> NULL \<and> \<not> kq_taken m (s_node (indices sg ! i))"
    "\<not> takeable (indices sg ! i) \<Longrightarrow> s_deleted (indices sg ! i) = 1 \<or> s_node (indices sg ! i) = NULL"
    using assms(1) i by (auto simp: seg_ok_def)
qed

lemma seg_ok_all_taken:
  assumes "seg_ok k m sg h" "\<forall>j < k. \<not> takeable (indices sg ! j)"
  shows "\<forall>p \<in> set h. kq_taken m p"
  unfolding seg_ok_nodes(1) [OF assms(1)]
proof (clarsimp)
  fix x
  assume x: "x \<in> set (indices sg)" "NULL < s_node x"
  then obtain j where "j < length (indices sg)" "x = indices sg ! j" by (auto simp: in_set_conv_nth)
  then show "kq_taken m (s_node x)" using assms x(2) seg_ok_slot(2) [OF assms(1), of j] by (auto simp: seg_ok_def)
qed

lemma seg_ok_fresh:
  assumes "seg_ok k m sg h" "length h = k" "\<forall>p \<in> set h. \<not> kq_taken m p" "i < k"
  shows "takeable (indices sg ! i)"
proof -
  have "indices sg ! i \<in> set (indices sg)" using assms(1,4) by (simp add: seg_ok_def)
  then have "s_node (indices sg ! i) \<noteq> NULL" using seg_ok_nodes(3) [OF assms(1)] assms(2) by blast
  then show ?thesis using seg_ok_slot(1,2) [OF assms(1,4)] assms(3) by blast
qed

lemma pop_found:
  assumes "kq_ok k g xs h" "kq_mem g = m" "current_segment l = kq_head g" "segs g (kq_head g) = Some sg" "0 < k"
    and "takeable (indices sg ! wrap k (pop_slot l))"
  shows "pop_post k m (pop_read k sg l) g"
  using assms by (auto simp: pop_post_def kq_rest_def)

lemma pop_loop_seq:
  assumes "kq_ok k g xs h" "0 < k" "k < W64" "current_segment l = kq_head g" "walk_count l \<le> k" "pend \<longrightarrow> xs = []"
    and "segs g (kq_head g) = Some sg"
    and "seen k (wrap k (pop_slot l)) (walk_count l) (\<lambda>j. \<not> takeable (indices sg ! j))"
    and "0 < walk_count l \<longrightarrow> deleted_node l = 1 \<or> current_node l = NULL"
    and "k - walk_count l + 2 + (if xs = [] then 0 else k + 2) \<le> n"
  shows "wp (get_pop_slot_loop n k pend l) (pop_post k (kq_mem g)) g"
  using assms
proof (induction n arbitrary: g xs sg l pend)
  case (Suc n)
  note ok = Suc.prems(1) and k = Suc.prems(2,3) and cur = Suc.prems(4) and sg = Suc.prems(7) and fuel = Suc.prems(10)
  let ?x = "indices sg ! wrap k (pop_slot l)"
  obtain hh where so: "seg_ok k (kq_mem g) sg hh" and hh: "xs = [] \<longrightarrow> hh = h" "xs \<noteq> [] \<longrightarrow> length hh = k \<and> hd xs = (kq_head g, hh)"
  proof (cases xs)
    case Nil
    then show thesis using kq_ok_first(1) [OF ok sg] by (intro that [of h]) simp_all
  next
    case (Cons a ys)
    obtain s hs where a: "a = (s, hs)" by (cases a)
    show thesis using kq_ok_first(2) [OF ok sg Cons [unfolded a]] Cons a by (intro that [of hs]) simp_all
  qed
  have len: "length (indices sg) = k" using so by (simp add: seg_ok_def)
  show ?case
  proof (cases "walk_count l < k")
    case True
    let ?l = "l\<lparr>walk_count := add64 (walk_count l) 1\<rparr>"
    have add: "add64 (walk_count l) 1 = walk_count l + 1" using True k by (intro add64_eq) simp
    have cur': "current_segment ?l = kq_head g" using cur by simp
    note look = pop_look [OF wp_pop_walked(1) [OF True] cur' sg len k(1)]
    show ?thesis
    proof (cases "takeable ?x")
      case t: True
      then show ?thesis unfolding look using pop_found [OF ok refl _ sg k(1), of ?l] cur by simp
    next
      case t: False
      have "?x \<in> set (indices sg)" using len k(1) by simp
      then have "s_node ?x = NULL \<longrightarrow> xs = []" using hh(2) seg_ok_nodes(3) [OF so] by blast
      moreover have "seen k (next_index k (wrap k (pop_slot l))) (walk_count l + 1) (\<lambda>j. \<not> takeable (indices sg ! j))"
        using Suc.prems(8) t k True by (intro seen_next) simp_all
      moreover have "s_deleted ?x = 1 \<or> s_node ?x = NULL" by (rule seg_ok_slot(3) [OF so]) (use k t in simp_all)
      ultimately have "wp (get_pop_slot_loop n k (s_node ?x = NULL \<or> pend) (pop_hopped k sg ?l)) (pop_post k (kq_mem g)) g"
        using Suc.prems True add wrap_next [OF wrap_less [OF k(1)] k(2), of "pop_slot l"] by (intro Suc.IH [OF ok k _ _ _ sg]) auto
      then show ?thesis unfolding look using t by auto
    qed
  next
    case False
    then have w: "walk_count l = k" using Suc.prems(5) by simp
    have "\<forall>j < k. \<not> takeable (indices sg ! j)"
      by (rule seen_all [of k "wrap k (pop_slot l)"]) (use Suc.prems(8) w k in simp_all)
    then have taken: "\<forall>p \<in> set hh. kq_taken (kq_mem g) p" by (rule seg_ok_all_taken [OF so])
    show ?thesis
    proof (cases xs)
      case Nil
      then have "current_segment l = kq_tail g" using kq_ok_first(1) [OF ok sg] cur by simp
      moreover have "kq_items (kq_mem g) = []" using kq_items_eq [OF ok] Nil hh taken by simp
      ultimately show ?thesis using w Suc.prems(9) k(1) ok wp_pop_walked(2) [of k l g]
        by (auto simp: pop_post_def kq_rest_def)
    next
      case (Cons a xs')
      then have xs: "xs = (kq_head g, hh) # xs'" using hh by simp
      have pend: "pend = False" using Suc.prems(6) Cons by simp
      let ?g = "advanced (seg_next sg) g" and ?l = "l\<lparr>current_segment := seg_next sg, walk_count := 0\<rparr>"
      have ok': "kq_ok k ?g xs' h" by (rule kq_ok_advanced [OF _ sg taken]) (use ok xs in simp)
      obtain sg' where sg': "segs ?g (kq_head ?g) = Some sg'" "length (indices sg') = k" using kq_ok_head [OF ok'] by blast
      have head: "kq_head g \<noteq> kq_tail g" using kq_ok_first(2) [OF ok sg xs] by simp
      have cur': "current_segment ?l = kq_head ?g" "kq_mem ?g = kq_mem g" by (simp_all add: advanced_def)
      note look = pop_look [OF wp_pop_walked(3) [OF eq_refl [OF w [symmetric]] cur head sg] cur'(1) sg' k(1)]
      let ?y = "indices sg' ! wrap k (pop_slot ?l)"
      show ?thesis
      proof (cases "takeable ?y")
        case True
        then show ?thesis unfolding pend look using pop_found [OF ok' cur'(2,1) sg'(1) k(1)] by simp
      next
        case t: False
        have "xs' = []"
        proof (rule ccontr)
          assume "xs' \<noteq> []"
          then obtain s' h' xs'' where xs': "xs' = (s', h') # xs''" by (cases xs') auto
          note f = kq_ok_first(2) [OF ok' sg'(1) xs']
          have "\<forall>p \<in> set h'. \<not> kq_taken (kq_mem g) p" using ok xs xs' by (simp add: kq_ok_def)
          then have "takeable ?y" using f cur'(2) k(1) by (intro seg_ok_fresh [of k "kq_mem ?g" sg' h']) simp_all
          then show False using t by blast
        qed
        then have "wp (get_pop_slot_loop n k (s_node ?y = NULL) (pop_hopped k sg' ?l)) (pop_post k (kq_mem ?g)) ?g"
          using fuel w Cons cur' by (intro Suc.IH [OF ok' k _ _ _ sg'(1)]) (simp_all add: seen_def)
        then show ?thesis unfolding pend look using t cur'(2) by auto
      qed
    qed
  qed
qed simp

lemma get_pop_slot_seq:
  assumes "kq_rest k g" "0 < k" "k < W64" "2 * k + 4 \<le> n"
  shows "wp (get_pop_slot n k l) (pop_post k (kq_mem g)) g"
proof -
  obtain xs h where ok: "kq_ok k g xs h" using assms(1) by (auto simp: kq_rest_def)
  then obtain sg where sg: "segs g (kq_head g) = Some sg" using kq_ok_head by blast
  show ?thesis unfolding get_pop_slot_def using assms(2-)
    by (auto intro!: wp_random_mod pop_loop_seq [OF ok _ _ _ _ _ sg])
qed

section \<open>Taking a node\<close>

lemma filter_unique_nth:
  assumes "distinct (filter P xs)" "i < length xs" "j < length xs" "i \<noteq> j" "P (xs ! i)" "P (xs ! j)"
  shows "xs ! i \<noteq> xs ! j"
proof
  assume e: "xs ! i = xs ! j"
  define a b where "a = min i j" and "b = max i j"
  have ab: "a < b" "b < length xs" "xs ! a = xs ! b" "P (xs ! b)" using assms e by (auto simp: a_def b_def min_def max_def)
  have "distinct (filter P (take b xs @ drop b xs))" using assms(1) by simp
  then have d: "set (filter P (take b xs)) \<inter> set (filter P (drop b xs)) = {}" unfolding filter_append by simp
  have "xs ! a \<in> set (take b xs)" "xs ! b \<in> set (drop b xs)"
    using ab nth_mem [of a "take b xs"] nth_mem [of 0 "drop b xs"] by simp_all
  then show False using d ab(3,4) by auto
qed

lemma filter_not_mid: "z \<notin> set ys \<Longrightarrow> z \<notin> set zs \<Longrightarrow> filter (\<lambda>x. x \<noteq> z) (ys @ z # zs) = ys @ zs"
proof -
  assume "z \<notin> set ys" "z \<notin> set zs"
  then have "filter (\<lambda>x. x \<noteq> z) ys = ys" "filter (\<lambda>x. x \<noteq> z) zs = zs" by (auto simp: filter_id_conv)
  then show ?thesis by simp
qed

lemma filter_not_nth:
  assumes "distinct xs" "i < length xs"
  shows "filter (\<lambda>x. x \<noteq> xs ! i) xs = take i xs @ drop (i + 1) xs"
proof -
  define y where "y = xs ! i"
  have xs: "xs = take i xs @ y # drop (i + 1) xs" unfolding y_def using id_take_nth_drop [OF assms(2)] by (simp add: Suc_eq_plus1)
  have "distinct (take i xs @ y # drop (i + 1) xs)" using assms(1) by (subst xs [symmetric])
  then have "filter (\<lambda>x. x \<noteq> y) (take i xs @ y # drop (i + 1) xs) = take i xs @ drop (i + 1) xs" by (intro filter_not_mid) auto
  then show ?thesis unfolding y_def [symmetric] xs [symmetric] .
qed

definition taken_slot :: "u64 \<Rightarrow> segment \<Rightarrow> segment" where
  "taken_slot i sg = sg\<lparr>indices := (indices sg)[i := (indices sg ! i)\<lparr>s_deleted := 1\<rparr>]\<rparr>"

lemma seg_ok_taken_slot:
  assumes so: "seg_ok k m sg h" "distinct h" and i: "i < k" "s_node (indices sg ! i) = p" "p \<noteq> NULL"
    and m': "\<And>q. kq_taken m' q \<longleftrightarrow> kq_taken m q \<or> q = p"
  shows "seg_ok k m' (taken_slot i sg) h"
proof -
  let ?n = "map s_node (indices sg)"
  have len: "length (indices sg) = k" using so by (simp add: seg_ok_def)
  have nodes: "map s_node (indices (taken_slot i sg)) = ?n"
    using i len by (simp add: taken_slot_def map_update list_update_same_conv)
  have "mset (filter (\<lambda>p. p \<noteq> NULL) ?n) = mset h" using so(1) by (simp add: seg_ok_def)
  then have d: "distinct (filter (\<lambda>p. p \<noteq> NULL) ?n)" using so(2) mset_eq_imp_distinct_iff by blast
  have "s_deleted x = (if s_node x \<noteq> NULL \<and> kq_taken m' (s_node x) then 1 else 0)" if x: "x \<in> set (indices (taken_slot i sg))" for x
  proof -
    obtain j where j: "j < k" "x = indices (taken_slot i sg) ! j" using x len by (auto simp: in_set_conv_nth taken_slot_def)
    show ?thesis
    proof (cases "j = i")
      case True
      then show ?thesis using j i len m' by (simp add: taken_slot_def)
    next
      case False
      then have "x = indices sg ! j" "x \<in> set (indices sg)" using j len by (auto simp: taken_slot_def)
      moreover have "s_node x \<noteq> p" if "s_node x \<noteq> NULL"
        using filter_unique_nth [OF d, of i j] False i j(1) len that calculation(1) by auto
      ultimately show ?thesis using so(1) m' by (auto simp: seg_ok_def)
    qed
  qed
  then show ?thesis using so(1) len nodes by (simp add: seg_ok_def) (simp add: taken_slot_def)
qed

lemma kq_ok_distinct:
  assumes "kq_ok k g xs h"
  shows "distinct (concat (map snd xs) @ h)" "distinct (kq_items (kq_mem g))"
proof -
  obtain dead where "rev (hist (kq_mem g)) = dead @ concat (map snd xs) @ h" using assms by (auto simp: kq_ok_def)
  moreover have "distinct (rev (hist (kq_mem g)))" using assms by (simp add: kq_ok_def kq_mem_ok_def)
  ultimately show "distinct (concat (map snd xs) @ h)" by simp
  then show "distinct (kq_items (kq_mem g))" unfolding kq_items_eq [OF assms] by (rule distinct_filter)
qed

lemma kq_ok_hist: "kq_ok k g xs h \<Longrightarrow> set (concat (map snd xs) @ h) \<subseteq> set (hist (kq_mem g))"
proof -
  assume "kq_ok k g xs h"
  then obtain dead where "rev (hist (kq_mem g)) = dead @ concat (map snd xs) @ h" by (auto simp: kq_ok_def)
  then have "set (rev (hist (kq_mem g))) = set (dead @ concat (map snd xs) @ h)" by (rule arg_cong)
  then show ?thesis by auto
qed

text \<open>The memory after a dequeue of \<open>p\<close>: unlinked, and handed to the reclaimer.\<close>

abbreviation mem_took :: "nat \<Rightarrow> ptr \<Rightarrow> node_mem \<Rightarrow> node_mem" where
  "mem_took t p m \<equiv> mem_free t p (mem_remove t p m)"

lemma mem_took_simps [simp]:
  "kq_taken (mem_took t p m) q \<longleftrightarrow> kq_taken m q \<or> q = p" "hist (mem_took t p m) = hist m" "heap (mem_took t p m) = heap m"
  "allocd (mem_took t p m) = allocd m" "node_val (mem_took t p m) q = node_val m q"
  by (auto simp: kq_taken_def mem_free_def mem_remove_def node_val_def)

lemma kq_ok_took:
  assumes ok: "kq_ok k g xs h" and sg: "segs g (kq_head g) = Some sg" and i: "i < k" "s_node (indices sg ! i) = p" "p \<noteq> NULL"
    and g': "g' = g\<lparr>segs := (segs g)(kq_head g \<mapsto> taken_slot i sg), kq_mem := mem_took t p (kq_mem g)\<rparr>"
  shows "kq_ok k g' xs h"
proof -
  note d = ok [unfolded kq_ok_def] and D = kq_ok_distinct(1) [OF ok]
  have new: "seg_ok k (kq_mem g') (taken_slot i sg) hh" if "seg_ok k (kq_mem g) sg hh" "distinct hh" for hh
    using that i by (rule seg_ok_taken_slot) (simp add: g')
  have other: "seg_ok k (kq_mem g') s hh = seg_ok k (kq_mem g) s hh" if "p \<notin> set hh" for s hh
    by (rule seg_ok_cong) (use that in \<open>auto simp: g'\<close>)
  have p: "p \<in> set hh" if "seg_ok k (kq_mem g) sg hh" for hh using seg_ok_slot(1) [OF that i(1)] i(2,3) by simp
  have nx: "seg_next (taken_slot i sg) = seg_next sg" by (simp add: taken_slot_def)
  have "full_path k (kq_mem g') (segs g') (kq_head g) xs (kq_tail g) \<and>
     (\<exists>sg. segs g' (kq_tail g) = Some sg \<and> seg_ok k (kq_mem g') sg h \<and> seg_next sg = NULL) \<and>
     (\<forall>hs \<in> set (tl (map snd xs @ [h])). \<forall>q \<in> set hs. \<not> kq_taken (kq_mem g') q) \<and> p \<in> set (hist (kq_mem g))"
  proof (cases xs)
    case Nil
    note f = kq_ok_first(1) [OF ok sg Nil]
    have "p \<in> set (hist (kq_mem g))" using kq_ok_hist [OF ok] p f Nil by auto
    then show ?thesis using d Nil f new [of h] D sg nx by (auto simp: g')
  next
    case (Cons a xs')
    obtain s hh where a: "a = (s, hh)" by (cases a)
    note f = kq_ok_first(2) [OF ok sg Cons [unfolded a]]
    have ph: "p \<in> set hh" using p f by blast
    then have no: "p \<notin> set (concat (map snd xs'))" "p \<notin> set h" "distinct hh" using D Cons a by auto
    have "kq_head g \<notin> fst ` set xs'" using d Cons a f by auto
    then have sx: "segs g' q = segs g q" if "q \<in> fst ` set xs'" for q using that by (cases "q = kq_head g") (simp_all add: g')
    have "full_path k (kq_mem g') (segs g') (seg_next sg) xs' (kq_tail g) = full_path k (kq_mem g) (segs g) (seg_next sg) xs' (kq_tail g)"
      by (rule full_path_cong [OF sx]) (use no(1) in \<open>auto simp: g'\<close>)
    moreover have "p \<in> set (hist (kq_mem g))" using kq_ok_hist [OF ok] ph Cons a by auto
    moreover have "seg_ok k (kq_mem g') (taken_slot i sg) hh" using new f no(3) by blast
    moreover have "segs g' (kq_head g) = Some (taken_slot i sg)" "segs g' (kq_tail g) = segs g (kq_tail g)" using f by (simp_all add: g')
    moreover have "\<forall>hs \<in> set (tl (map snd xs @ [h])). \<forall>q \<in> set hs. \<not> kq_taken (kq_mem g') q"
      using d no(1,2) Cons by (auto simp: g')
    ultimately show ?thesis using d Cons a f other [OF no(2)] nx by auto
  qed
  then show ?thesis using d by (auto simp: kq_ok_def g' kq_mem_ok_def)
qed

lemma kq_values_took:
  assumes ok: "kq_ok k g xs h" and sg: "segs g (kq_head g) = Some sg" and i: "i < k" "takeable (indices sg ! i)" "s_node (indices sg ! i) = p"
    and m: "kq_mem g' = mem_took t p (kq_mem g)"
  shows "kfifo k Deq (kq_values g) (node_val (kq_mem g) p) (kq_values g')"
proof -
  let ?nt = "\<lambda>q. \<not> kq_taken (kq_mem g) q" and ?is = "kq_items (kq_mem g)"
  obtain hh rest where so: "seg_ok k (kq_mem g) sg hh" and it: "?is = filter ?nt hh @ rest"
  proof (cases xs)
    case Nil
    then show thesis using kq_ok_first(1) [OF ok sg] kq_items_eq [OF ok] by (intro that [of h "[]"]) simp_all
  next
    case (Cons a ys)
    obtain s hs where a: "a = (s, hs)" by (cases a)
    show thesis using kq_ok_first(2) [OF ok sg Cons [unfolded a]] kq_items_eq [OF ok] Cons a
      by (intro that [of hs "filter ?nt (concat (map snd ys) @ h)"]) simp_all
  qed
  have "p \<in> set (filter ?nt hh)" using seg_ok_slot(1,2) [OF so i(1)] i(2,3) by auto
  then obtain j where j: "j < length (filter ?nt hh)" "filter ?nt hh ! j = p" unfolding in_set_conv_nth by blast
  then have j': "j < length ?is" "?is ! j = p" using it by (simp_all add: nth_append)
  have "j < k" using j(1) seg_ok_nodes(2) [OF so] length_filter_le [of ?nt hh] by linarith
  moreover have "kq_items (kq_mem g') = take j ?is @ drop (j + 1) ?is"
  proof -
    have "kq_items (kq_mem g') = filter (\<lambda>q. q \<noteq> ?is ! j) ?is" using j'(2) by (auto simp: kq_items_def m intro: filter_cong)
    then show ?thesis using filter_not_nth [OF kq_ok_distinct(2) [OF ok] j'(1)] by simp
  qed
  ultimately show ?thesis using j' by (auto simp: kq_values_def m take_map drop_map intro!: exI [of _ j])
qed

lemma wp_cas_deleted:
  assumes "segs g s = Some sg" "i < length (indices sg)" "s_deleted (indices sg ! i) = 0"
  shows "wp (cas_deleted t s i p) Q g = Q True (g\<lparr>segs := (segs g)(s \<mapsto> taken_slot i sg), kq_mem := mem_remove t p (kq_mem g)\<rparr>)"
  using assms by (simp add: cas_deleted_def set_slot_def taken_slot_def)

lemma delete_seq_kq:
  assumes rest: "kq_rest k g" and k: "0 < k" "k < W64" "2 * k + 4 \<le> fuel"
  shows "wp (queue_relaxed_delete fuel k t l) (\<lambda>(r, l') g'. kq_rest k g' \<and> kfifo k Deq (kq_values g) r (kq_values g')) g"
proof -
  obtain n where n: "fuel = Suc n" using k(3) by (cases fuel) auto
  let ?Q = "\<lambda>(r, l') g'. kq_rest k g' \<and> kfifo k Deq (kq_values g) r (kq_values g')"
  have fin: "wp (if deleted_node l' = 1 \<or> current_node l' = NULL then Ret (0, l'\<lparr>my_null_count := add64 (my_null_count l') 1\<rparr>)
     else pbind (cas_deleted t (current_segment l') (pop_slot l') (current_node l')) (\<lambda>success.
       if success then
         pbind (rd_opt (\<lambda>g. map_option n_val (heap (kq_mem g) (current_node l')))) (\<lambda>node_val.
         pbind (wr (\<lambda>g. g\<lparr>kq_mem := mem_free t (current_node l') (kq_mem g)\<rparr>)) (\<lambda>_. Ret (node_val, l')))
       else queue_relaxed_delete_loop n fuel k t (l'\<lparr>my_get_cas_fail_count := add64 (my_get_cas_fail_count l') 1\<rparr>))) ?Q g'"
    if post: "pop_post k (kq_mem g) l' g'" for l' g'
  proof (cases "deleted_node l' = 1 \<or> current_node l' = NULL")
    case True
    then have "kq_items (kq_mem g) = []" using post by (auto simp: pop_post_def)
    moreover have "kq_mem g' = kq_mem g" "kq_rest k g'" using post by (simp_all add: pop_post_def)
    ultimately show ?thesis using True by (simp add: kq_values_def)
  next
    case False
    let ?p = "current_node l'" and ?i = "pop_slot l'"
    obtain sg where w: "kq_mem g' = kq_mem g" "kq_rest k g'" "current_segment l' = kq_head g'" "?i < k" "?p \<noteq> NULL"
      "segs g' (kq_head g') = Some sg" "indices sg ! ?i = \<lparr>s_node = ?p, s_deleted = 0\<rparr>"
      using post False by (auto simp: pop_post_def)
    obtain xs h where ok: "kq_ok k g' xs h" using w(2) by (auto simp: kq_rest_def)
    have len: "?i < length (indices sg)" using kq_ok_head [OF ok] w(4,6) by auto
    let ?g = "g'\<lparr>segs := (segs g')(kq_head g' \<mapsto> taken_slot ?i sg), kq_mem := mem_took t ?p (kq_mem g')\<rparr>"
    have ok': "kq_ok k ?g xs h" by (rule kq_ok_took [OF ok w(6,4) _ w(5) refl]) (simp add: w)
    then have "?p \<in> set (hist (kq_mem g))" using w(1) by (auto simp: kq_ok_def kq_mem_ok_def)
    then obtain nd where nd: "heap (kq_mem g) ?p = Some nd" using ok w(1) by (auto simp: kq_ok_def kq_mem_ok_def)
    have "kfifo k Deq (kq_values g') (node_val (kq_mem g') ?p) (kq_values ?g)"
      by (rule kq_values_took [OF ok w(6,4)]) (use w(5,7) in simp_all)
    moreover have "kq_values g' = kq_values g" "node_val (kq_mem g') ?p = n_val nd" using w(1) nd by (simp_all add: kq_values_def node_val_def)
    moreover have "kq_rest k ?g" using ok' by (auto simp: kq_rest_def)
    ultimately show ?thesis using False w len nd wp_cas_deleted [OF w(6) len, of t ?p] by (simp add: mem_remove_def)
  qed
  have get: "wp (get_pop_slot fuel k l) (pop_post k (kq_mem g)) g" using assms by (intro get_pop_slot_seq)
  show ?thesis unfolding queue_relaxed_delete_def n queue_relaxed_delete_loop.simps
    by (subst wp_bind, rule wp_mono [OF get [unfolded n]], rule fin [unfolded n])
qed

section \<open>Calls one after the other\<close>

definition kq_calls_inv :: "allocator \<Rightarrow> nat \<Rightarrow> nat \<Rightarrow> nat \<Rightarrow> kq_tl list \<Rightarrow> kqueue \<Rightarrow> bool" where
  "kq_calls_inv al fuel k n ls g \<longleftrightarrow> alloc_fresh al \<and> 0 < k \<and> k < W64 \<and> 2 * k + 4 \<le> fuel \<and> kq_rest k g"

interpretation kq_calls: budgeted_calls "kqueue_call al (replicate k free_slot) fuel k" "kq_calls_inv al fuel k" kq_values "kfifo k" for al fuel k
proof
  fix n ls g t c
  assume inv: "kq_calls_inv al fuel k (Suc n) ls g" "t < length ls"
  show "wp (kqueue_call al (replicate k free_slot) fuel k t c (ls ! t))
    (\<lambda>(r, l) g'. kq_calls_inv al fuel k n (ls[t := l]) g' \<and> kfifo k c (kq_values g) r (kq_values g')) g"
  proof (cases c)
    case (Enq key val)
    show ?thesis unfolding kqueue_call_def Enq queue_call.case
      by (rule wp_mono [OF insert_seq_kq]) (use inv in \<open>auto simp: kq_calls_inv_def\<close>)
  next
    case Deq
    show ?thesis unfolding kqueue_call_def Deq queue_call.case
      by (rule wp_mono [OF delete_seq_kq]) (use inv in \<open>auto simp: kq_calls_inv_def\<close>)
  qed
qed

lemma kqueue_init_rest: "kq_rest k (kqueue_init s k)" "kq_values (kqueue_init s k) = []"
proof -
  have "kq_ok k (kqueue_init s k) [] []"
    using seg_ok_empty [of k empty_mem NULL] by (simp add: kq_ok_def kqueue_init_def kq_mem_ok_def kq_taken_def) (simp_all add: empty_mem_def)
  then show "kq_rest k (kqueue_init s k)" unfolding kq_rest_def by blast
  show "kq_values (kqueue_init s k) = []" by (simp add: kq_values_def kq_items_def kqueue_init_def empty_mem_def)
qed

lemma kq_exec:
  assumes "alloc_fresh al" "0 < k" "k < W64" "2 * k + 4 \<le> fuel" "\<forall>(t, c) \<in> set cs. t < length ls"
  shows "\<exists>rs ls' g. exec_calls (kqueue_call al (replicate k free_slot) fuel k) cs (ls, kqueue_init s k) = Some (rs, ls', g) \<and>
    spec_run (kfifo k) (map snd cs) [] rs (kq_values g)"
  using kq_calls.exec_calls_returns [of al fuel k cs 0 ls "kqueue_init s k"] assms kqueue_init_rest
  by (auto simp: kq_calls_inv_def)

section \<open>The abstract queue, drained\<close>

lemma kfifo_enqs:
  "spec_run (kfifo k) (map (Enq key) vs @ cs) xs rs ys \<longleftrightarrow>
     (\<exists>rs'. rs = replicate (length vs) 1 @ rs' \<and> spec_run (kfifo k) cs (xs @ vs) rs' ys)"
proof (induction vs arbitrary: xs rs)
  case (Cons v vs)
  then show ?case by (cases rs) auto
qed simp

lemma kfifo_drain:
  assumes "spec_run (kfifo k) (replicate (length xs) Deq) xs rs ys"
  shows "mset rs = mset xs \<and> ys = [] \<and> (k = 1 \<longrightarrow> rs = xs)"
  using assms
proof (induction "length xs" arbitrary: xs rs)
  case 0
  then show ?case by (cases rs) auto
next
  case (Suc n)
  then obtain r rs' where rs: "rs = r # rs'" by (cases rs) (auto simp: Suc.hyps(2) [symmetric])
  have "\<exists>s1. kfifo k Deq xs r s1 \<and> spec_run (kfifo k) (replicate n Deq) s1 rs' ys"
    using Suc.prems unfolding rs Suc.hyps(2) [symmetric] by simp
  then obtain i where i: "i < length xs" "i < k" "r = xs ! i"
    and run: "spec_run (kfifo k) (replicate n Deq) (take i xs @ drop (i + 1) xs) rs' ys"
    using Suc.hyps(2) by auto
  let ?xs = "take i xs @ drop (i + 1) xs"
  have len: "n = length ?xs" using i Suc.hyps(2) by simp
  have IH: "mset rs' = mset ?xs \<and> ys = [] \<and> (k = 1 \<longrightarrow> rs' = ?xs)"
    by (rule Suc.hyps(1) [OF len]) (use run len in \<open>simp only:\<close>)
  have xs: "xs = take i xs @ xs ! i # drop (i + 1) xs" using id_take_nth_drop [OF i(1)] by (simp add: Suc_eq_plus1)
  have "mset xs = add_mset (xs ! i) (mset ?xs)" by (subst xs) simp
  moreover have "rs = xs" if "k = 1" using xs IH i that rs by auto
  ultimately show ?case using IH rs i(3) by auto
qed

section \<open>Properties\<close>


definition fresh_kq_tl :: "seeds \<Rightarrow> kq_tl" where
  "fresh_kq_tl sd = \<lparr>seeds = sd, my_put_cas_fail_count = 0, my_get_cas_fail_count = 0, my_null_count = 0, my_hop_count = 0, my_slide_count = 0,
     my_slide_fail_count = 0, push_slot = 0, pop_slot = 0, walk_count = 0, current_segment = NULL, current_node = NULL, deleted_node = 0\<rparr>"




section \<open>A dequeue that does not return\<close>

text \<open>
  A dequeue that has seen a free slot never removes the first segment: \<^verbatim>\<open>pending_slot\<close> stays set when other threads fill the
  slot, and stays set for every later walk. When all nodes of the segment are taken the loop goes on for ever.
\<close>

lemma run_pbind_oof: "run p g = (OutOfFuel, g') \<Longrightarrow> run (pbind p f) g = (OutOfFuel, g')"
  by (induction p arbitrary: g) auto

lemma pending_spins:
  assumes "current_segment l = kq_head g" "kq_head g \<noteq> kq_tail g" "segs g (kq_head g) = Some sg" "length (indices sg) = k" "0 < k"
    and "\<forall>x \<in> set (indices sg). s_deleted x = 1"
  shows "run (get_pop_slot_loop n k True l) g = (OutOfFuel, g)"
  using assms(1)
proof (induction n arbitrary: l)
  case (Suc n)
  let ?i = "wrap k (pop_slot l)"
  have "s_deleted (indices sg ! ?i) = 1" using assms(4-6) by simp
  moreover have "run (pbind (load_slot (kq_head g) ?i f) h) g = run (h (f (indices sg ! ?i))) g" for h :: "nat \<Rightarrow> (kqueue, kq_tl) prog" and f
    using assms(3-5) by (simp add: load_slot_def rd_opt_def)
  ultimately show ?case unfolding get_pop_slot_loop.simps wrap_slot using Suc assms(2)
    by (simp add: pop_walked_def rd_def Let_def wrap_slot del: get_pop_slot_loop.simps)
qed simp

lemmas kqueue_unfold [prog_unfold] =
  load_slot_def load_seg_next_def set_slot_def enq_cae_kq_def cas_deleted_def cas_seg_next_def cas_tail_kq_def cas_head_kq_def free_segment_def
  alloc_seg_def try_create_segment_def get_push_slot_def queue_new_node_kq_def queue_relaxed_insert_def pop_walked_def get_pop_slot_def
  queue_relaxed_delete_def kqueue_init_def free_slot_def kqueue_call_def fresh_kq_tl_def
  get_push_slot_loop.simps(2) [of "pred_numeral k" for k, folded numeral_eq_Suc]
  get_pop_slot_loop.simps(2) [of "pred_numeral k" for k, folded numeral_eq_Suc]
  queue_relaxed_insert_loop.simps(2) [of "pred_numeral k" for k, folded numeral_eq_Suc]
  queue_relaxed_delete_loop.simps(2) [of "pred_numeral k" for k, folded numeral_eq_Suc]

text \<open>
  Segments of two slots. Thread 0 starts a dequeue and sees a free slot. Thread 1 enqueues 11, 12 and 13, which needs a second segment, and dequeues twice.
  Then thread 0 goes on, alone.
\<close>

definition spin_pool :: "nat \<Rightarrow> (kqueue, int list) prog list \<times> kqueue" where
  "spin_pool fuel = sched (\<lambda>_. True) (replicate 4 0 @ replicate 80 1)
     (client_pool (\<lambda>t. kqueue_call bump_alloc (replicate 2 free_slot) (if t = 0 then Suc fuel else 9) 2 t)
        [[Deq], [Enq 1 11, Enq 2 12, Enq 3 13, Deq, Deq]] [fresh_kq_tl (1, 2, 3), fresh_kq_tl (4, 5, 6)], kqueue_init 1 2)"

lemma run_pbind_spins:
  assumes "current_segment l = kq_head g" "kq_head g \<noteq> kq_tail g" "0 < k"
    and "case segs g (kq_head g) of None \<Rightarrow> False | Some sg \<Rightarrow> length (indices sg) = k \<and> (\<forall>x \<in> set (indices sg). s_deleted x = 1)"
  shows "run (pbind (pbind (get_pop_slot_loop n k True l) h) f) g = (OutOfFuel, g)"
proof -
  obtain sg where "segs g (kq_head g) = Some sg" "length (indices sg) = k" "\<forall>x \<in> set (indices sg). s_deleted x = 1"
    using assms(4) by (cases "segs g (kq_head g)") auto
  then show ?thesis using assms by (intro run_pbind_oof pending_spins)
qed

text \<open>
  C35. A dequeue of the k-segment queue may never return although it runs alone and the queue is not empty. In the execution above both calls of thread 1 that
  dequeue return, and 13 is in the queue; thread 0, which runs alone from then on, is still in the loop of \<^verbatim>\<open>get_pop_slot\<close> after any number \<open>fuel\<close>
  of iterations, and changes nothing. The operation is therefore not lock-free.
\<close>

theorem kqueue_delete_spins:
  "\<exists>q g. spin_pool fuel = ([q, Ret [1, 1, 1, 12, 11]], g) \<and> kq_values g = [13] \<and> run q g = (OutOfFuel, g)"
  by (simp add: spin_pool_def client_pool_def prog_unfold kq_values_def kq_items_def kq_taken_def node_val_def run_pbind_spins cong: eval_cong)

end
