(* ===== verification/Elastic_Stack.thy ===== *)
theory Elastic_Stack
  imports Stack2Dc_Opt
begin

text \<open>
  The elastic 2Dc stack of \<^verbatim>\<open>src/2Dc-stack_elastic-lpw\<close>: the 2Dc stack whose width and depth can be changed while it is used. A change takes effect with
  the next window; where the width has changed, a \<^emph>\<open>lateral\<close> stack records up to which row the sub-stacks of an earlier width reach, so that \<^verbatim>\<open>get_window\<close> visits them
  too. A node remembers the count of the descriptor it was pushed on (\<^verbatim>\<open>next_count\<close>), because a push may skip rows.

  \<^verbatim>\<open>next_count\<close> of the nodes is a field of its own (\<open>next_count\<close>), beside the node memory of \<open>Node_Stacks\<close>. Two things that the source leaves open are parameters: the
  value of \<^verbatim>\<open>last_shift\<close> of a new window, which is not assigned, and what is in the padding of the cells of the array, which \<^verbatim>\<open>push_wider_count\<close> reads
  because it gets the array of 64-byte cells as one of 16-byte descriptors.
\<close>

section \<open>State\<close>

record ewindow =
  ew_max :: nat
  ew_depth :: nat
  ew_get_width :: nat
  ew_put_width :: nat
  ew_old_put_width :: nat
  ew_version :: nat
  ew_last_shift :: nat

record slat_node =
  sn_next :: ptr
  sn_next_count :: nat
  sn_width :: nat

record slat_descriptor =
  sd_node :: ptr
  sd_count :: nat
  sd_version :: nat

record estack =
  es_window :: ewindow
  es_array :: "descriptor2Dc list"
  es_lateral :: slat_descriptor
  es_width :: nat
  es_depth :: nat
  es_mem :: node_mem
  next_count :: "ptr \<Rightarrow> nat"
  lat_heap :: "ptr \<Rightarrow> slat_node option"
  lat_allocd :: "ptr list"
  lat_freed :: "ptr list"

record es_cfg =
  ec_max_width :: nat
  ec_random_hops :: u64
  ec_bound :: u64
  ec_mode :: nat

record es_env =
  env_alloc :: allocator
  env_padding :: "nat \<Rightarrow> nat"
  env_last_shift :: "nat \<Rightarrow> nat"

record es_tl = tls +
  es_Window :: ewindow
  put_index :: u64
  get_index :: u64

section \<open>The lateral stack\<close>

definition load_slat :: "ptr \<Rightarrow> (estack, slat_node) prog" where
  "load_slat p = rd_opt (\<lambda>g. lat_heap g p)"

definition load_slat_descriptor :: "(estack, slat_descriptor) prog" where
  "load_slat_descriptor =
     pbind (rd (\<lambda>g. sd_node (es_lateral g))) (\<lambda>n.
     pbind (rd (\<lambda>g. (sd_count (es_lateral g), sd_version (es_lateral g)))) (\<lambda>(c, v).
     Ret \<lparr>sd_node = n, sd_count = c, sd_version = v\<rparr>))"

definition create_slat_node :: "es_env \<Rightarrow> nat \<Rightarrow> ptr \<Rightarrow> nat \<Rightarrow> nat \<Rightarrow> (estack, ptr) prog" where
  "create_slat_node e t nxt nxt_count w =
     Act (\<lambda>g. g\<lparr>lat_heap := (lat_heap g)(env_alloc e t (lat_allocd g) \<mapsto> \<lparr>sn_next = nxt, sn_next_count = nxt_count, sn_width = w\<rparr>),
               lat_allocd := env_alloc e t (lat_allocd g) # lat_allocd g\<rparr>)
         (\<lambda>g. Ret (env_alloc e t (lat_allocd g)))"

fun free_nodes_until :: "nat \<Rightarrow> ptr \<Rightarrow> ptr \<Rightarrow> (estack, unit) prog" where
  "free_nodes_until 0 node base_node = NoFuel"
| "free_nodes_until (Suc n) node base_node =
     (if node \<noteq> base_node \<and> node \<noteq> NULL then
        pbind (load_slat node) (\<lambda>nd.
        pbind (free_nodes_until n (sn_next nd) base_node) (\<lambda>_.
        wr (\<lambda>g. g\<lparr>lat_freed := node # lat_freed g\<rparr>)))
      else Ret ())"

text \<open>
  \<^verbatim>\<open>substructures[i].count\<close>, for \<^verbatim>\<open>substructures\<close> the array of 64-byte cells taken as an array of 16-byte descriptors: every fourth one is the descriptor of
  a cell, the others are padding.
\<close>

fun push_wider_count :: "es_env \<Rightarrow> nat list \<Rightarrow> nat \<Rightarrow> (estack, nat) prog" where
  "push_wider_count e [] mx = Ret mx"
| "push_wider_count e (i # is) mx =
     pbind (if i mod 4 = 0 then rd_opt (\<lambda>g. map_option d_count (at (es_array g) (i div 4))) else rd (\<lambda>_. env_padding e i)) (\<lambda>c.
     let count = c mod 4294967296
     in push_wider_count e is (if count > mx then count else mx))"

definition push_narrower_count :: "ewindow \<Rightarrow> nat" where
  "push_narrower_count w = add32 (sub32 (ew_max w) (ew_depth w)) 1"

definition lower_narrower_count :: "ewindow \<Rightarrow> nat" where
  "lower_narrower_count w = add32 (sub32 (ew_max w) (ew_depth w)) 1"

definition lateral_new_count :: "ewindow \<Rightarrow> nat \<Rightarrow> nat \<Rightarrow> nat \<Rightarrow> nat \<Rightarrow> nat" where
  "lateral_new_count w lateral_count lower_limit lateral_width put_width =
     (if lateral_width > put_width \<and> ew_last_shift w \<noteq> 0 then
        let last_bottom = sub32 (ew_max w) (ew_depth w div 2)
        in if last_bottom < lateral_count then last_bottom else lateral_count
      else if lateral_width \<le> put_width \<and> lateral_count > lower_limit then lower_limit
      else lateral_count)"

text \<open>The result is the tuple of count, node and base.\<close>

fun replace_lateral_node :: "nat \<Rightarrow> es_env \<Rightarrow> nat \<Rightarrow> ewindow \<Rightarrow> ptr \<Rightarrow> nat \<Rightarrow> (estack, nat \<times> ptr \<times> ptr) prog" where
  "replace_lateral_node 0 e t w node cnt = NoFuel"
| "replace_lateral_node (Suc n) e t w node cnt =
     (if cnt < lower_narrower_count w then Ret (cnt, node, node)
      else
        pbind (load_slat node) (\<lambda>nd.
        pbind (replace_lateral_node n e t w (sn_next nd) (sn_next_count nd)) (\<lambda>(n_count, n_node, n_base).
        let new_count = lateral_new_count w cnt (lower_narrower_count w) (sn_width nd) (ew_put_width w)
        in if n_node = sn_next nd \<and> n_count = sn_next_count nd \<and> new_count = cnt then Ret (cnt, node, node)
           else if n_node = sn_next nd \<and> n_count = sn_next_count nd \<and> new_count \<le> sn_next_count nd then Ret (n_count, n_node, n_base)
           else if n_node = sn_next nd \<and> n_count = sn_next_count nd \<and> new_count < cnt then Ret (new_count, node, node)
           else if new_count \<le> sn_next_count nd then Ret (n_count, n_node, n_base)
           else pbind (create_slat_node e t n_node n_count (sn_width nd)) (\<lambda>p. Ret (new_count, p, n_base)))))"

definition push_lateral :: "es_env \<Rightarrow> nat \<Rightarrow> nat \<times> ptr \<Rightarrow> nat \<Rightarrow> nat \<Rightarrow> (estack, nat \<times> ptr) prog" where
  "push_lateral e t d cnt w = pbind (create_slat_node e t (snd d) (fst d) w) (\<lambda>p. Ret (cnt, p))"

definition maybe_push_lateral :: "es_env \<Rightarrow> nat \<Rightarrow> ewindow \<Rightarrow> nat \<times> ptr \<Rightarrow> (estack, nat \<times> ptr) prog" where
  "maybe_push_lateral e t w d =
     (if ew_put_width w > ew_old_put_width w \<and> fst d < push_narrower_count w then
        push_lateral e t d (push_narrower_count w) (ew_old_put_width w)
      else if ew_put_width w < ew_old_put_width w then
        pbind (push_wider_count e [ew_put_width w ..< ew_old_put_width w] 0) (\<lambda>upper_bound.
        if fst d < upper_bound then push_lateral e t d upper_bound (ew_old_put_width w) else Ret d)
      else Ret d)"

definition synchronize_lateral :: "nat \<Rightarrow> es_env \<Rightarrow> nat \<Rightarrow> es_tl \<Rightarrow> (estack, unit) prog" where
  "synchronize_lateral fuel e t l =
     pbind load_slat_descriptor (\<lambda>read_descriptor.
     pbind (rd (\<lambda>g. ew_version (es_window g))) (\<lambda>gv.
     if gv \<noteq> ew_version (es_Window l) then Ret ()
     else if sd_version read_descriptor = ew_version (es_Window l) then Ret ()
     else
       pbind (replace_lateral_node fuel e t (es_Window l) (sd_node read_descriptor) (sd_count read_descriptor)) (\<lambda>(count, node, base_node).
       pbind (if ew_put_width (es_Window l) \<noteq> ew_old_put_width (es_Window l)
              then maybe_push_lateral e t (es_Window l) (count, node) else Ret (count, node)) (\<lambda>(count, node).
       if count \<noteq> sd_count read_descriptor \<or> node \<noteq> sd_node read_descriptor then
         pbind (cae es_lateral (\<lambda>d g. g\<lparr>es_lateral := d\<rparr>) read_descriptor \<lparr>sd_node = node, sd_count = count, sd_version = ew_version (es_Window l)\<rparr>)
           (\<lambda>(success, found).
         if success then free_nodes_until fuel (sd_node read_descriptor) base_node
         else free_nodes_until fuel node base_node)
       else Ret ()))))"

section \<open>The windows\<close>

fun shift_width_loop :: "nat \<Rightarrow> nat \<Rightarrow> nat \<Rightarrow> ptr \<Rightarrow> nat \<Rightarrow> (estack, nat) prog" where
  "shift_width_loop 0 bottom nxt_count nxt max_width = NoFuel"
| "shift_width_loop (Suc n) bottom nxt_count nxt max_width =
     (if nxt_count > add32 bottom 1 then
        pbind (load_slat nxt) (\<lambda>nd.
        shift_width_loop n bottom (sn_next_count nd) (sn_next nd) (if sn_width nd > max_width then sn_width nd else max_width))
      else Ret max_width)"

definition shift_width :: "nat \<Rightarrow> nat \<Rightarrow> nat \<Rightarrow> nat \<Rightarrow> (estack, nat) prog" where
  "shift_width fuel bottom old_put_width new_put_width =
     pbind load_slat_descriptor (\<lambda>d.
     shift_width_loop fuel bottom (sd_count d) (sd_node d) (if new_put_width \<ge> old_put_width then new_put_width else old_put_width))"

definition put_shift_max :: "nat \<Rightarrow> nat \<Rightarrow> nat" where
  "put_shift_max old_max new_depth =
     (let new_max = add32 old_max ((new_depth + 1) div 2) in if new_max < new_depth then new_depth else new_max)"

definition get_shift_max :: "nat \<Rightarrow> nat \<Rightarrow> nat \<Rightarrow> nat" where
  "get_shift_max old_max new_depth old_depth =
     (let shift = (new_depth + 1) div 2
      in if old_depth = new_depth then
           (if old_max \<ge> shift + new_depth then sub32 old_max shift else new_depth)
         else
           (if old_max \<ge> old_depth + shift then add32 (sub32 (sub32 old_max old_depth) shift) new_depth else new_depth))"

definition hop_el :: "es_cfg \<Rightarrow> es_tl \<Rightarrow> u64 \<Rightarrow> nat \<Rightarrow> nat \<Rightarrow> nat \<Rightarrow> ('g, u64 \<times> nat \<times> nat \<times> es_tl) prog" where
  "hop_el c l index random hops w =
     (let l = l\<lparr>my_hop_count := add64 (my_hop_count l) 1\<rparr>
      in if random < ec_random_hops c
         then pbind (random_mod w l) (\<lambda>(index, l). Ret (index, (random + 1) mod 256, hops, l))
         else let index = add64 index 1
              in Ret (if index \<ge> w then 0 else index, random, add16 hops 1, l))"

definition sync_index :: "nat \<Rightarrow> u64 \<Rightarrow> u64" where
  "sync_index w i = (let index = i mod 65536 in if index < w then index else 0)"

definition read_window_el :: "(estack, ewindow) prog" where
  "read_window_el = rd es_window"

definition load_descriptor_el :: "u64 \<Rightarrow> (estack, descriptor2Dc) prog" where
  "load_descriptor_el i =
     pbind (rd_opt (\<lambda>g. map_option d_node (at (es_array g) i))) (\<lambda>n.
     pbind (rd_opt (\<lambda>g. map_option d_count (at (es_array g) i))) (\<lambda>c.
     Ret \<lparr>d_node = n, d_count = c\<rparr>))"

text \<open>The lines that \<^verbatim>\<open>put_window\<close> and \<^verbatim>\<open>get_window\<close> have in common: the new window for a given computation of its maximum, and the compare-and-exchange.\<close>

definition slide_window_el :: "nat \<Rightarrow> es_env \<Rightarrow> (nat \<Rightarrow> nat) \<Rightarrow> es_tl \<Rightarrow> (estack, es_tl) prog" where
  "slide_window_el fuel e new_max l =
     pbind (rd es_width) (\<lambda>new_put_width.
     pbind (rd es_depth) (\<lambda>new_depth.
     let mx = new_max new_depth; v = add16 (ew_version (es_Window l)) 1
     in pbind (shift_width fuel (sub32 mx new_depth) (ew_put_width (es_Window l)) new_put_width) (\<lambda>new_get_width.
        let new_window = \<lparr>ew_max = mx, ew_depth = new_depth, ew_get_width = new_get_width, ew_put_width = new_put_width,
              ew_old_put_width = ew_put_width (es_Window l), ew_version = v, ew_last_shift = env_last_shift e v\<rparr>
        in pbind (assert (mx \<ge> new_depth)) (\<lambda>_.
           pbind (rd (\<lambda>g. ew_version (es_window g))) (\<lambda>gv.
           if ew_version (es_Window l) = gv then
             pbind (cae es_window (\<lambda>w g. g\<lparr>es_window := w\<rparr>) (es_Window l) new_window) (\<lambda>(success, found).
             if success then Ret (l\<lparr>es_Window := new_window, my_slide_count := add64 (my_slide_count l) 1\<rparr>)
             else pbind read_window_el (\<lambda>w. Ret (l\<lparr>es_Window := w, my_slide_fail_count := add64 (my_slide_fail_count l) 1\<rparr>)))
           else Ret l)))))"

definition shift_window_el :: "nat \<Rightarrow> es_env \<Rightarrow> nat \<Rightarrow> (nat \<Rightarrow> nat) \<Rightarrow> es_tl \<Rightarrow> (estack, es_tl) prog" where
  "shift_window_el fuel e t new_max l = pbind (synchronize_lateral fuel e t l) (\<lambda>_. slide_window_el fuel e new_max l)"

fun put_window_loop_el :: "nat \<Rightarrow> nat \<Rightarrow> es_env \<Rightarrow> es_cfg \<Rightarrow> nat \<Rightarrow> es_tl \<Rightarrow> nat \<Rightarrow> nat \<Rightarrow> (estack, descriptor2Dc \<times> es_tl) prog" where
  "put_window_loop_el 0 fuel e c t l hops random = NoFuel"
| "put_window_loop_el (Suc n) fuel e c t l hops random =
     pbind (load_descriptor_el (put_index l)) (\<lambda>descriptor.
     pbind (rd (\<lambda>g. ew_version (es_window g))) (\<lambda>gv.
     if gv \<noteq> ew_version (es_Window l) then
       pbind read_window_el (\<lambda>w.
       put_window_loop_el n fuel e c t (l\<lparr>es_Window := w, put_index := sync_index (ew_put_width w) (put_index l)\<rparr>) 0 random)
     else if d_count descriptor < ew_max (es_Window l) then
       Ret (descriptor, if ew_put_width (es_Window l) > get_index l then l\<lparr>get_index := put_index l\<rparr> else l)
     else if hops \<noteq> ew_put_width (es_Window l) then
       pbind (hop_el c l (put_index l) random hops (ew_put_width (es_Window l))) (\<lambda>(index, random, hops, l).
       put_window_loop_el n fuel e c t (l\<lparr>put_index := index\<rparr>) hops random)
     else
       pbind (shift_window_el fuel e t (put_shift_max (ew_max (es_Window l))) l) (\<lambda>l.
       put_window_loop_el n fuel e c t (l\<lparr>put_index := sync_index (ew_put_width (es_Window l)) (put_index l)\<rparr>) 0 random)))"

definition put_window_el :: "nat \<Rightarrow> es_env \<Rightarrow> es_cfg \<Rightarrow> nat \<Rightarrow> es_tl \<Rightarrow> bool \<Rightarrow> (estack, descriptor2Dc \<times> es_tl) prog" where
  "put_window_el fuel e c t l contention =
     pbind (rd (\<lambda>g. ew_version (es_window g))) (\<lambda>gv.
     pbind (if ew_version (es_Window l) \<noteq> gv
            then pbind read_window_el (\<lambda>w. Ret (l\<lparr>es_Window := w, put_index := sync_index (ew_put_width w) (put_index l)\<rparr>)) else Ret l) (\<lambda>l.
     pbind (if contention \<or> put_index l \<ge> ew_put_width (es_Window l)
            then pbind (random_mod (ew_put_width (es_Window l)) l) (\<lambda>(i, l). Ret (l\<lparr>put_index := i\<rparr>)) else Ret l) (\<lambda>l.
     put_window_loop_el fuel fuel e c t l 0 0)))"

text \<open>The lines after the loop of \<^verbatim>\<open>get_window\<close>.\<close>

definition get_window_exit_el :: "descriptor2Dc \<Rightarrow> es_tl \<Rightarrow> (estack, descriptor2Dc \<times> es_tl) prog" where
  "get_window_exit_el descriptor l =
     Ret (descriptor, if ew_put_width (es_Window l) > get_index l then l\<lparr>put_index := get_index l\<rparr> else l)"

fun get_window_loop_el ::
  "nat \<Rightarrow> nat \<Rightarrow> es_env \<Rightarrow> es_cfg \<Rightarrow> nat \<Rightarrow> es_tl \<Rightarrow> nat \<Rightarrow> nat \<Rightarrow> bool \<Rightarrow> (estack, descriptor2Dc \<times> es_tl) prog" where
  "get_window_loop_el 0 fuel e c t l hops random emp = NoFuel"
| "get_window_loop_el (Suc n) fuel e c t l hops random emp =
     pbind (load_descriptor_el (get_index l)) (\<lambda>descriptor.
     pbind (rd (\<lambda>g. ew_version (es_window g))) (\<lambda>gv.
     if gv \<noteq> ew_version (es_Window l) then
       pbind read_window_el (\<lambda>w.
       get_window_loop_el n fuel e c t (l\<lparr>es_Window := w, get_index := sync_index (ew_get_width w) (get_index l)\<rparr>) 0 random True)
     else if d_count descriptor > sub32 (ew_max (es_Window l)) (ew_depth (es_Window l)) then get_window_exit_el descriptor l
     else if hops \<noteq> ew_get_width (es_Window l) then
       (let emp = (if d_count descriptor > 0 then False else emp)
        in pbind (hop_el c l (get_index l) random hops (ew_get_width (es_Window l))) (\<lambda>(index, random, hops, l).
           get_window_loop_el n fuel e c t (l\<lparr>get_index := index\<rparr>) hops random emp))
     else if emp then get_window_exit_el descriptor l
     else
       pbind (shift_window_el fuel e t (\<lambda>d. get_shift_max (ew_max (es_Window l)) d (ew_depth (es_Window l))) l) (\<lambda>l.
       get_window_loop_el n fuel e c t (l\<lparr>get_index := sync_index (ew_get_width (es_Window l)) (get_index l)\<rparr>) 0 random True)))"

definition get_window_el :: "nat \<Rightarrow> es_env \<Rightarrow> es_cfg \<Rightarrow> nat \<Rightarrow> es_tl \<Rightarrow> bool \<Rightarrow> (estack, descriptor2Dc \<times> es_tl) prog" where
  "get_window_el fuel e c t l contention =
     pbind (rd (\<lambda>g. ew_version (es_window g))) (\<lambda>gv.
     pbind (if ew_version (es_Window l) \<noteq> gv
            then pbind read_window_el (\<lambda>w. Ret (l\<lparr>es_Window := w, get_index := sync_index (ew_get_width w) (get_index l)\<rparr>)) else Ret l) (\<lambda>l.
     pbind (if contention \<or> get_index l \<ge> ew_get_width (es_Window l)
            then pbind (random_mod (ew_get_width (es_Window l)) l) (\<lambda>(i, l). Ret (l\<lparr>get_index := i\<rparr>)) else Ret l) (\<lambda>l.
     get_window_loop_el fuel fuel e c t l 0 0 True)))"

definition initialize_global_window_el :: "nat \<Rightarrow> nat \<Rightarrow> ewindow" where
  "initialize_global_window_el d w = \<lparr>ew_max = d, ew_depth = d, ew_get_width = w, ew_put_width = w, ew_old_put_width = w, ew_version = 1, ew_last_shift = 0\<rparr>"

section \<open>The stack\<close>

definition create_node_el :: "es_env \<Rightarrow> nat \<Rightarrow> int \<Rightarrow> int \<Rightarrow> ptr \<Rightarrow> (estack, ptr) prog" where
  "create_node_el e t key val nxt =
     Act (\<lambda>g. g\<lparr>es_mem := mem_alloc t (env_alloc e t (allocd (es_mem g))) \<lparr>n_key = key, n_val = val, n_next = nxt\<rparr> (es_mem g)\<rparr>)
         (\<lambda>g. Ret (env_alloc e t (allocd (es_mem g))))"

definition stack_cae_el :: "u64 \<Rightarrow> descriptor2Dc \<Rightarrow> descriptor2Dc \<Rightarrow> (node_mem \<Rightarrow> node_mem) \<Rightarrow> (estack, bool) prog" where
  "stack_cae_el i read_des new_des ghost =
     Act (\<lambda>g. if at (es_array g) i = Some read_des
              then g\<lparr>es_array := (es_array g)[i := new_des], es_mem := ghost (es_mem g)\<rparr> else g)
         (\<lambda>g. Ret (at (es_array g) i = Some read_des))"

fun push_loop_el :: "nat \<Rightarrow> nat \<Rightarrow> es_env \<Rightarrow> es_cfg \<Rightarrow> nat \<Rightarrow> ptr \<Rightarrow> es_tl \<Rightarrow> bool \<Rightarrow> (estack, int \<times> es_tl) prog" where
  "push_loop_el 0 fuel e c t new_node l contention = NoFuel"
| "push_loop_el (Suc n) fuel e c t new_node l contention =
     pbind (put_window_el fuel e c t l contention) (\<lambda>(descriptor, l).
     pbind (wr (\<lambda>g. g\<lparr>es_mem := mem_set_next new_node (d_node descriptor) (es_mem g)\<rparr>)) (\<lambda>_.
     pbind (wr (\<lambda>g. g\<lparr>next_count := (next_count g)(new_node := d_count descriptor mod 4294967296)\<rparr>)) (\<lambda>_.
     let w = es_Window l;
         new_count = (if add64 (d_count descriptor) (ew_depth w) \<ge> ew_max w then add64 (d_count descriptor) 1 else sub32 (ew_max w) (ew_depth w))
     in pbind (stack_cae_el (put_index l) descriptor \<lparr>d_node = new_node, d_count = new_count\<rparr> (mem_publish new_node)) (\<lambda>success.
        if success then Ret (1, l)
        else push_loop_el n fuel e c t new_node (l\<lparr>my_put_cas_fail_count := add64 (my_put_cas_fail_count l) 1\<rparr>) True))))"

definition push_el :: "nat \<Rightarrow> es_env \<Rightarrow> es_cfg \<Rightarrow> nat \<Rightarrow> int \<Rightarrow> int \<Rightarrow> es_tl \<Rightarrow> (estack, int \<times> es_tl) prog" where
  "push_el fuel e c t key val l =
     pbind (create_node_el e t key val NULL) (\<lambda>new_node. push_loop_el fuel fuel e c t new_node l False)"

fun pop_loop_el :: "nat \<Rightarrow> nat \<Rightarrow> es_env \<Rightarrow> es_cfg \<Rightarrow> nat \<Rightarrow> es_tl \<Rightarrow> bool \<Rightarrow> (estack, int \<times> es_tl) prog" where
  "pop_loop_el 0 fuel e c t l contention = NoFuel"
| "pop_loop_el (Suc n) fuel e c t l contention =
     pbind (get_window_el fuel e c t l contention) (\<lambda>(descriptor, l).
     if d_node descriptor \<noteq> NULL then
       pbind (rd_opt (\<lambda>g. map_option n_next (heap (es_mem g) (d_node descriptor)))) (\<lambda>nxt.
       pbind (rd (\<lambda>g. next_count g (d_node descriptor))) (\<lambda>nxt_count.
       pbind (stack_cae_el (get_index l) descriptor \<lparr>d_node = nxt, d_count = nxt_count\<rparr> (mem_remove t (d_node descriptor))) (\<lambda>success.
       if success then
         pbind (rd_opt (\<lambda>g. map_option n_val (heap (es_mem g) (d_node descriptor)))) (\<lambda>node_val.
         pbind (wr (\<lambda>g. g\<lparr>es_mem := mem_free t (d_node descriptor) (es_mem g)\<rparr>)) (\<lambda>_.
         Ret (node_val, l)))
       else pop_loop_el n fuel e c t (l\<lparr>my_get_cas_fail_count := add64 (my_get_cas_fail_count l) 1\<rparr>) True)))
     else Ret (0, l\<lparr>my_null_count := add64 (my_null_count l) 1\<rparr>))"

definition pop_el :: "nat \<Rightarrow> es_env \<Rightarrow> es_cfg \<Rightarrow> nat \<Rightarrow> es_tl \<Rightarrow> (estack, int \<times> es_tl) prog" where
  "pop_el fuel e c t l = pop_loop_el fuel fuel e c t l False"

definition stack_size_el :: "nat \<Rightarrow> es_cfg \<Rightarrow> (estack, u64) prog" where
  "stack_size_el fuel c = size_loop es_mem (\<lambda>g i. map_option d_node (at (es_array g) i)) fuel [0 ..< ec_max_width c] 0"

fun update_depth_loop_el :: "nat \<Rightarrow> nat \<Rightarrow> nat \<Rightarrow> (estack, nat) prog" where
  "update_depth_loop_el 0 old_depth d = NoFuel"
| "update_depth_loop_el (Suc n) old_depth d =
     pbind (cae es_depth (\<lambda>d g. g\<lparr>es_depth := d\<rparr>) old_depth d) (\<lambda>(success, found).
     if success then Ret old_depth else update_depth_loop_el n found d)"

definition update_depth_el :: "nat \<Rightarrow> nat \<Rightarrow> (estack, nat) prog" where
  "update_depth_el fuel d = pbind (rd es_depth) (\<lambda>old_depth. update_depth_loop_el fuel old_depth d)"

fun update_width_loop_el :: "nat \<Rightarrow> nat \<Rightarrow> nat \<Rightarrow> (estack, nat) prog" where
  "update_width_loop_el 0 old_width w = NoFuel"
| "update_width_loop_el (Suc n) old_width w =
     pbind (cae es_width (\<lambda>w g. g\<lparr>es_width := w\<rparr>) old_width w) (\<lambda>(success, found).
     if success then Ret old_width else update_width_loop_el n found w)"

definition update_width_el :: "nat \<Rightarrow> es_cfg \<Rightarrow> nat \<Rightarrow> (estack, nat) prog" where
  "update_width_el fuel c w =
     pbind (rd es_width) (\<lambda>old_width.
     pbind (assert (w \<le> ec_max_width c)) (\<lambda>_. update_width_loop_el fuel old_width w))"

definition create_lateral_stack :: "es_env \<Rightarrow> nat \<Rightarrow> nat \<Rightarrow> slat_descriptor \<times> (ptr \<Rightarrow> slat_node option) \<times> ptr list" where
  "create_lateral_stack e t max_width =
     (let node = env_alloc e t []
      in (\<lparr>sd_node = node, sd_count = 0, sd_version = 0\<rparr>,
          [node \<mapsto> \<lparr>sn_next = NULL, sn_next_count = 0, sn_width = add16 max_width 1\<rparr>], [node]))"

definition create_stack_el :: "es_env \<Rightarrow> nat \<Rightarrow> u64 \<Rightarrow> nat \<Rightarrow> nat \<Rightarrow> nat \<Rightarrow> nat \<Rightarrow> u64 \<Rightarrow> (es_cfg \<times> estack) option" where
  "create_stack_el e t num_threads w d max_width mode bound =
     (case calc_params 2 keep16 keep16 (bound16 2) mode num_threads w d bound of
        None \<Rightarrow> None
      | Some (w, d, bound) \<Rightarrow>
          let max_width = (if max_width < w then w else max_width); (des, h, al) = create_lateral_stack e t max_width
          in Some (\<lparr>ec_max_width = max_width, ec_random_hops = 2, ec_bound = bound, ec_mode = mode\<rparr>,
                   \<lparr>es_window = initialize_global_window_el d w, es_array = replicate max_width \<lparr>d_node = NULL, d_count = 0\<rparr>,
                    es_lateral = des, es_width = w, es_depth = d, es_mem = empty_mem, next_count = (\<lambda>_. 0),
                    lat_heap = h, lat_allocd = al, lat_freed = []\<rparr>))"

datatype es_call = EPush int int | EPop | ESize | EWidth nat | EDepth nat

definition es_call :: "nat \<Rightarrow> es_env \<Rightarrow> es_cfg \<Rightarrow> nat \<Rightarrow> es_call \<Rightarrow> es_tl \<Rightarrow> (estack, int \<times> es_tl) prog" where
  "es_call fuel e c t call l =
     (case call of
        EPush key val \<Rightarrow> push_el fuel e c t key val l
      | EPop \<Rightarrow> pop_el fuel e c t l
      | ESize \<Rightarrow> pbind (stack_size_el fuel c) (\<lambda>r. Ret (int r, l))
      | EWidth w \<Rightarrow> pbind (update_width_el fuel c w) (\<lambda>r. Ret (int r, l))
      | EDepth d \<Rightarrow> pbind (update_depth_el fuel d) (\<lambda>r. Ret (int r, l)))"

lemmas estack_unfold [prog_unfold] =
  load_slat_def load_slat_descriptor_def create_slat_node_def push_narrower_count_def lower_narrower_count_def lateral_new_count_def
  push_lateral_def maybe_push_lateral_def synchronize_lateral_def shift_width_def put_shift_max_def get_shift_max_def hop_el_def sync_index_def
  read_window_el_def load_descriptor_el_def slide_window_el_def shift_window_el_def put_window_el_def get_window_exit_el_def get_window_el_def initialize_global_window_el_def
  create_node_el_def stack_cae_el_def push_el_def pop_el_def stack_size_el_def update_depth_el_def update_width_el_def create_lateral_stack_def
  free_nodes_until.simps(2) [of "pred_numeral k" for k, folded numeral_eq_Suc]
  replace_lateral_node.simps(2) [of "pred_numeral k" for k, folded numeral_eq_Suc]
  shift_width_loop.simps(2) [of "pred_numeral k" for k, folded numeral_eq_Suc]
  put_window_loop_el.simps(2) [of "pred_numeral k" for k, folded numeral_eq_Suc]
  get_window_loop_el.simps(2) [of "pred_numeral k" for k, folded numeral_eq_Suc]
  push_loop_el.simps(2) [of "pred_numeral k" for k, folded numeral_eq_Suc]
  pop_loop_el.simps(2) [of "pred_numeral k" for k, folded numeral_eq_Suc]
  update_depth_loop_el.simps(2) [of "pred_numeral k" for k, folded numeral_eq_Suc]
  update_width_loop_el.simps(2) [of "pred_numeral k" for k, folded numeral_eq_Suc]

definition fresh_etl :: "seeds \<Rightarrow> es_tl" where
  "fresh_etl s = \<lparr>seeds = s, my_put_cas_fail_count = 0, my_get_cas_fail_count = 0, my_null_count = 0, my_hop_count = 0, my_slide_count = 0, my_slide_fail_count = 0,
     es_Window = \<lparr>ew_max = 0, ew_depth = 0, ew_get_width = 0, ew_put_width = 0, ew_old_put_width = 0, ew_version = 0, ew_last_shift = 0\<rparr>, put_index = 0, get_index = 0\<rparr>"

end
