(* ===== verification/Elastic_Stack_Seq.thy ===== *)
theory Elastic_Stack_Seq
  imports Elastic_Stack
begin

text \<open>
  The elastic 2Dc stack running alone, while its width only grows: the lateral stack stays linked and uses no freed node, the windows are found, and the calls
  refine an array of stacks whose items have rows. At the end there is an execution in which a shrinking width hides an item.
\<close>

section \<open>The lateral stack, running alone\<close>

text \<open>
  \<open>lat_chain h p c ns b\<close>: from \<open>p\<close> with count \<open>c\<close> the lateral nodes are \<open>ns\<close>, down to the first node, which has count 0; counts and widths
  fall on the way, and the widths are below \<open>b\<close>.
\<close>

fun lat_chain :: "(ptr \<Rightarrow> slat_node option) \<Rightarrow> ptr \<Rightarrow> nat \<Rightarrow> ptr list \<Rightarrow> nat \<Rightarrow> bool" where
  "lat_chain h p c [] b \<longleftrightarrow> c = 0"
| "lat_chain h p c (x # xs) b \<longleftrightarrow> p = x \<and> x \<noteq> NULL \<and>
     (case h x of None \<Rightarrow> False
      | Some nd \<Rightarrow> sn_next_count nd < c \<and> sn_width nd < b \<and> lat_chain h (sn_next nd) (sn_next_count nd) xs (sn_width nd))"

lemma lat_chain_length: "lat_chain h p c ns b \<Longrightarrow> length ns \<le> b"
  by (induction ns arbitrary: p c b) (auto split: option.splits, fastforce)

lemma lat_chain_mono: "lat_chain h p c ns b \<Longrightarrow> b \<le> b' \<Longrightarrow> lat_chain h p c ns b'"
  by (cases ns) (auto split: option.splits)

lemma lat_chain_upd: "q \<notin> set ns \<Longrightarrow> lat_chain (h(q := v)) p c ns b = lat_chain h p c ns b"
  by (induction ns arbitrary: p c b) (auto split: option.splits)

text \<open>A node may be raised or lowered as long as it stays above the next one.\<close>

lemma lat_chain_count:
  assumes "lat_chain h p c (x # xs) b" "h x = Some nd" "sn_next_count nd < c'"
  shows "lat_chain h p c' (x # xs) b"
  using assms by simp

lemma shift_width_loop_seq:
  assumes "lat_chain (lat_heap g) p c ns b" "b \<le> mw" "length ns < n"
  shows "wp (shift_width_loop n bottom c p mw) (\<lambda>r g'. r = mw \<and> g' = g) g"
  using assms
proof (induction n arbitrary: p c ns b)
  case (Suc n)
  show ?case
  proof (cases ns)
    case Nil
    then show ?thesis using Suc.prems by simp
  next
    case (Cons x xs)
    then obtain nd where nd: "p = x" "lat_heap g x = Some nd" "sn_width nd < b" "lat_chain (lat_heap g) (sn_next nd) (sn_next_count nd) xs (sn_width nd)"
      using Suc.prems(1) by (auto split: option.splits)
    have "wp (shift_width_loop n bottom (sn_next_count nd) (sn_next nd) mw) (\<lambda>r g'. r = mw \<and> g' = g) g"
      using Suc.IH [OF nd(4)] nd(3) Suc.prems(2,3) Cons by simp
    then show ?thesis using nd Suc.prems(2) by (simp add: load_slat_def)
  qed
qed simp

text \<open>While widths only grow, the nodes above the limit are dropped but for the lowest one, which is lowered to the limit.\<close>

lemma replace_lateral_seq:
  assumes "lat_chain (lat_heap g) p c ns b" "b \<le> ew_put_width w" "length ns < n"
  defines "L \<equiv> lower_narrower_count w"
  assumes L: "0 < L"
  shows "wp (replace_lateral_node n e t w p c) (\<lambda>(c', p', base) g'. g' = g \<and> base = p' \<and>
    (if c < L then c' = c \<and> p' = p else c' = L \<and> (\<exists>k < length ns. p' = ns ! k \<and> lat_chain (lat_heap g) p' L (drop k ns) b))) g"
  using assms(1-3)
proof (induction n arbitrary: p c ns b)
  case (Suc n)
  show ?case
  proof (cases "c < L")
    case True
    then show ?thesis by (simp flip: L_def)
  next
    case False
    then obtain x xs where ns: "ns = x # xs" using Suc.prems(1) L by (cases ns) auto
    then obtain nd where nd: "p = x" "lat_heap g x = Some nd" "sn_next_count nd < c" "sn_width nd < b"
      "lat_chain (lat_heap g) (sn_next nd) (sn_next_count nd) xs (sn_width nd)"
      using Suc.prems(1) by (auto split: option.splits)
    let ?nc = "lateral_new_count w c L (sn_width nd) (ew_put_width w)"
    have new: "?nc = L" using False nd(4) Suc.prems(2) by (auto simp: lateral_new_count_def)
    have IH: "wp (replace_lateral_node n e t w (sn_next nd) (sn_next_count nd)) (\<lambda>(c', p', base) g'. g' = g \<and> base = p' \<and>
      (if sn_next_count nd < L then c' = sn_next_count nd \<and> p' = sn_next nd
       else c' = L \<and> (\<exists>k < length xs. p' = xs ! k \<and> lat_chain (lat_heap g) p' L (drop k xs) (sn_width nd)))) g"
      by (rule Suc.IH [OF nd(5)]) (use nd(4) Suc.prems(2,3) ns in auto)
    show ?thesis
    proof (cases "sn_next_count nd < L")
      case low: True
      have ch: "lat_chain (lat_heap g) x L ns b" using Suc.prems(1) nd(1,2) low unfolding ns by simp
      have "\<exists>k < length ns. x = ns ! k \<and> lat_chain (lat_heap g) x L (drop k ns) b" using ch ns by (intro exI [of _ 0]) simp
      then show ?thesis using False low nd(1,2) new
        by (auto simp: load_slat_def L_def [symmetric] intro!: wp_mono [OF IH])
    next
      case high: False
      define G where "G q \<longleftrightarrow> (\<exists>k < length ns. q = ns ! k \<and> lat_chain (lat_heap g) q L (drop k ns) b)" for q
      have "G (xs ! k)" if "k < length xs" "lat_chain (lat_heap g) (xs ! k) L (drop k xs) (sn_width nd)" for k
        unfolding G_def using that lat_chain_mono [OF that(2), of b] nd(4) ns by (intro exI [of _ "Suc k"]) auto
      then have "wp (replace_lateral_node n e t w (sn_next nd) (sn_next_count nd)) (\<lambda>(c', p', base) g'. g' = g \<and> base = p' \<and> c' = L \<and> G p') g"
        using high by (intro wp_mono [OF IH]) auto
      then show ?thesis unfolding G_def [symmetric] using False high nd(1-3) new
        by (auto simp: load_slat_def L_def [symmetric] Let_def elim!: wp_mono)
    qed
  qed
qed simp

lemma free_nodes_seq:
  assumes "lat_chain (lat_heap g) p c ns b" "distinct ns" "k < length ns" "base = ns ! k" "k < n"
  shows "wp (free_nodes_until n p base) (\<lambda>_ g'. g' = g\<lparr>lat_freed := take k ns @ lat_freed g\<rparr>) g"
  using assms
proof (induction n arbitrary: p c ns b k)
  case (Suc n)
  then obtain x xs where ns: "ns = x # xs" by (cases ns) auto
  then obtain nd where nd: "p = x" "x \<noteq> NULL" "lat_heap g x = Some nd" "lat_chain (lat_heap g) (sn_next nd) (sn_next_count nd) xs (sn_width nd)"
    using Suc.prems(1) by (auto split: option.splits)
  show ?case
  proof (cases k)
    case 0
    then show ?thesis using Suc.prems nd ns by simp
  next
    case (Suc j)
    have "x \<noteq> base" using Suc.prems(2-4) ns Suc by (auto simp: in_set_conv_nth)
    moreover have "wp (free_nodes_until n (sn_next nd) base) (\<lambda>_ g'. g' = g\<lparr>lat_freed := take j xs @ lat_freed g\<rparr>) g"
      using Suc.prems ns Suc by (intro Suc.IH [OF nd(4)]) auto
    ultimately show ?thesis using nd ns Suc by (auto simp: load_slat_def elim!: wp_mono)
  qed
qed simp

lemma lat_chain_widths: "lat_chain h p c ns b \<Longrightarrow> x \<in> set ns \<Longrightarrow> \<exists>nd. h x = Some nd \<and> sn_width nd < b"
  by (induction ns arbitrary: p c b) (fastforce split: option.splits)+

lemma lat_chain_distinct: "lat_chain h p c ns b \<Longrightarrow> distinct ns"
proof (induction ns arbitrary: p c b)
  case (Cons x xs)
  then obtain nd where nd: "h x = Some nd" "lat_chain h (sn_next nd) (sn_next_count nd) xs (sn_width nd)" by (auto split: option.splits)
  have "x \<notin> set xs" using lat_chain_widths [OF nd(2)] nd(1) by force
  then show ?case using Cons.IH [OF nd(2)] by simp
qed simp

lemma lat_chain_cong: "\<forall>q \<in> set ns. h' q = h q \<Longrightarrow> lat_chain h' p c ns b = lat_chain h p c ns b"
  by (induction ns arbitrary: p c b) (auto split: option.splits)

text \<open>The lateral stack is sound: its nodes are linked, none of them has been freed, and their widths are below \<open>b\<close>.\<close>

definition lat_ok :: "nat \<Rightarrow> estack \<Rightarrow> bool" where
  "lat_ok b g \<longleftrightarrow> (\<exists>ns. lat_chain (lat_heap g) (sd_node (es_lateral g)) (sd_count (es_lateral g)) ns b \<and>
     set ns \<subseteq> set (lat_allocd g) - set (lat_freed g)) \<and> set (lat_freed g) \<subseteq> set (lat_allocd g)"

lemma lat_ok_mono: "lat_ok b g \<Longrightarrow> b \<le> b' \<Longrightarrow> lat_ok b' g"
  unfolding lat_ok_def by (blast intro: lat_chain_mono)

text \<open>What the windows leave alone.\<close>

definition same_data :: "estack \<Rightarrow> estack \<Rightarrow> bool" where
  "same_data g g' \<longleftrightarrow> es_array g' = es_array g \<and> es_width g' = es_width g \<and> es_depth g' = es_depth g \<and> es_mem g' = es_mem g \<and>
     next_count g' = next_count g"

lemma same_data_refl [simp]: "same_data g g"
  by (simp add: same_data_def)

lemma same_data_trans: "same_data g g' \<Longrightarrow> same_data g' g'' \<Longrightarrow> same_data g g''"
  by (simp add: same_data_def)

lemma same_data_upd [simp]:
  "same_data g (g\<lparr>es_window := w\<rparr>)" "same_data g (g\<lparr>es_lateral := d\<rparr>)" "same_data g (g\<lparr>lat_freed := f\<rparr>)"
  "same_data g (g\<lparr>lat_heap := h, lat_allocd := a\<rparr>)"
  by (simp_all add: same_data_def)

text \<open>The new top of the lateral stack: an old node, perhaps lowered, and perhaps a new node on it.\<close>

definition lat_pushed :: "nat \<Rightarrow> estack \<Rightarrow> ptr list \<Rightarrow> nat \<times> ptr \<Rightarrow> nat \<times> ptr \<Rightarrow> estack \<Rightarrow> bool" where
  "lat_pushed b g ns cp x g' \<longleftrightarrow> x = cp \<and> g' = g \<or>
     snd x \<notin> set (lat_allocd g) \<and> (\<exists>h. g' = g\<lparr>lat_heap := h, lat_allocd := snd x # lat_allocd g\<rparr> \<and>
       lat_chain h (snd x) (fst x) (snd x # ns) b \<and> (\<forall>q \<in> set (lat_allocd g). h q = lat_heap g q))"

lemma maybe_push_seq:
  assumes ch: "lat_chain (lat_heap g) p c ns opw" and sub: "set ns \<subseteq> set (lat_allocd g)" and al: "alloc_fresh (env_alloc e)"
    and "opw = ew_old_put_width w" "opw \<le> ew_put_width w" "c \<le> push_narrower_count w"
  shows "wp (if ew_put_width w \<noteq> ew_old_put_width w then maybe_push_lateral e t w (c, p) else Ret (c, p)) (lat_pushed (ew_put_width w) g ns (c, p)) g"
proof (cases "opw < ew_put_width w \<and> c < push_narrower_count w")
  case True
  let ?p = "env_alloc e t (lat_allocd g)"
  have p: "?p \<noteq> NULL" "?p \<notin> set (lat_allocd g)" using al by (auto simp: alloc_fresh_def)
  let ?nd = "\<lparr>sn_next = p, sn_next_count = c, sn_width = opw\<rparr>"
  have "lat_chain ((lat_heap g)(?p \<mapsto> ?nd)) p c ns opw" using ch p sub by (subst lat_chain_upd) auto
  then show ?thesis using True p assms(4) by (auto simp: maybe_push_lateral_def push_lateral_def create_slat_node_def lat_pushed_def)
next
  case False
  then show ?thesis using assms(4,5) by (auto simp: maybe_push_lateral_def lat_pushed_def)
qed

text \<open>The end of \<^verbatim>\<open>synchronize_lateral\<close>: the new descriptor is installed, and the nodes no longer used are freed.\<close>

definition install_lateral :: "nat \<Rightarrow> slat_descriptor \<Rightarrow> nat \<Rightarrow> ptr \<Rightarrow> nat \<times> ptr \<Rightarrow> (estack, unit) prog" where
  "install_lateral fuel d v base_node = (\<lambda>(cnt, node).
     if cnt \<noteq> sd_count d \<or> node \<noteq> sd_node d then
       pbind (cae es_lateral (\<lambda>d g. g\<lparr>es_lateral := d\<rparr>) d \<lparr>sd_node = node, sd_count = cnt, sd_version = v\<rparr>)
         (\<lambda>(success, found). if success then free_nodes_until fuel (sd_node d) base_node else free_nodes_until fuel node base_node)
     else Ret ())"

lemma wp_bind_fun: "wp (pbind p f) Q = wp p (\<lambda>a. wp (f a) Q)"
  by (rule ext) simp

lemma wp_load_slat_descriptor [simp]: "wp load_slat_descriptor Q g = Q (es_lateral g) g"
  by (cases "es_lateral g") (simp add: load_slat_descriptor_def)

lemma install_seq:
  assumes old: "lat_chain (lat_heap g) (sd_node d) (sd_count d) ns b'" "length ns < fuel" and d: "d = es_lateral g"
    and pk: "k < length ns \<and> base = ns ! k \<or> k = 0 \<and> base = sd_node d"
    and new: "lat_chain (lat_heap g) p c ms b" "set ms \<subseteq> set (lat_allocd g) - set (take k ns @ lat_freed g)"
    and sub: "set (take k ns @ lat_freed g) \<subseteq> set (lat_allocd g)"
  shows "wp (install_lateral fuel d v base (c, p)) (\<lambda>_ g'. same_data g g' \<and> es_window g' = es_window g \<and> lat_ok b g') g"
proof (cases "c = sd_count d \<and> p = sd_node d")
  case True
  then have "lat_ok b g" using new sub unfolding lat_ok_def d by fastforce
  then show ?thesis using True by (simp add: install_lateral_def)
next
  case False
  let ?g = "g\<lparr>es_lateral := \<lparr>sd_node = p, sd_count = c, sd_version = v\<rparr>\<rparr>"
  obtain f where f: "fuel = Suc f" using old(2) by (cases fuel) auto
  have fr: "wp (free_nodes_until fuel (sd_node d) base) (\<lambda>_ g'. g' = ?g\<lparr>lat_freed := take k ns @ lat_freed g\<rparr>) ?g"
    using pk
  proof
    assume "k < length ns \<and> base = ns ! k"
    then show ?thesis using free_nodes_seq [of ?g "sd_node d" "sd_count d" ns b' k base fuel] old lat_chain_distinct [OF old(1)] by simp
  next
    assume "k = 0 \<and> base = sd_node d"
    then show ?thesis using f by simp
  qed
  have "wp (free_nodes_until fuel (sd_node d) base) (\<lambda>_ g'. same_data g g' \<and> es_window g' = es_window g \<and> lat_ok b g') ?g"
  proof (rule wp_mono [OF fr])
    fix a g'
    assume "g' = ?g\<lparr>lat_freed := take k ns @ lat_freed g\<rparr>"
    then show "same_data g g' \<and> es_window g' = es_window g \<and> lat_ok b g'" using new sub by (auto simp: same_data_def lat_ok_def)
  qed
  then show ?thesis using False d by (simp add: install_lateral_def)
qed

lemma synchronize_seq:
  assumes ok: "lat_ok (ew_old_put_width w) g" and w: "es_Window l = w" "es_window g = w" "ew_old_put_width w \<le> ew_put_width w"
    and "ew_put_width w < fuel" "0 < lower_narrower_count w" and al: "alloc_fresh (env_alloc e)"
  shows "wp (synchronize_lateral fuel e t l) (\<lambda>_ g'. same_data g g' \<and> es_window g' = w \<and> lat_ok (ew_put_width w) g') g"
proof -
  let ?d = "es_lateral g" and ?L = "lower_narrower_count w" and ?o = "ew_old_put_width w" and ?b = "ew_put_width w"
  let ?Q = "\<lambda>g'. same_data g g' \<and> es_window g' = w \<and> lat_ok ?b g'"
  obtain ns where ns: "lat_chain (lat_heap g) (sd_node ?d) (sd_count ?d) ns ?o" "set ns \<subseteq> set (lat_allocd g) - set (lat_freed g)"
    "set (lat_freed g) \<subseteq> set (lat_allocd g)"
    using ok by (auto simp: lat_ok_def)
  have len: "length ns < fuel" using lat_chain_length [OF ns(1)] assms(4,5) w(3) by simp
  have fin: "wp (if ?b \<noteq> ?o then maybe_push_lateral e t w (c, p) else Ret (c, p))
      (\<lambda>x. wp (install_lateral fuel ?d (ew_version w) p x) (\<lambda>_. ?Q)) g"
    if new: "lat_chain (lat_heap g) p c (drop k ns) ?o" "c \<le> ?L" and pk: "k < length ns \<and> p = ns ! k \<or> k = 0 \<and> p = sd_node ?d" for c p k
  proof (rule wp_mono [OF maybe_push_seq [OF new(1) _ al refl w(3)]])
    have k: "k \<le> length ns" using pk by auto
    have free: "set (drop k ns) \<subseteq> set (lat_allocd g) - set (take k ns @ lat_freed g)"
      using ns(2) lat_chain_distinct [OF ns(1)] set_drop_subset [of k ns] set_take_disj_set_drop_if_distinct [of ns k k] by auto
    have sub: "set (take k ns @ lat_freed g) \<subseteq> set (lat_allocd g)" using ns(2,3) set_take_subset [of k ns] by auto
    show "set (drop k ns) \<subseteq> set (lat_allocd g)" using free by blast
    show "c \<le> push_narrower_count w" using new(2) by (simp add: push_narrower_count_def lower_narrower_count_def)
    fix x :: "nat \<times> ptr" and g'
    obtain c' p' where x: "x = (c', p')" by (cases x)
    assume "lat_pushed ?b g (drop k ns) (c, p) x g'"
    then consider "x = (c, p)" "g' = g"
      | h where "p' \<notin> set (lat_allocd g)" "g' = g\<lparr>lat_heap := h, lat_allocd := p' # lat_allocd g\<rparr>"
        "lat_chain h p' c' (p' # drop k ns) ?b" "\<forall>q \<in> set (lat_allocd g). h q = lat_heap g q"
      unfolding lat_pushed_def x by auto
    then show "wp (install_lateral fuel ?d (ew_version w) p x) (\<lambda>_. ?Q) g'"
    proof cases
      case 1
      then show ?thesis using install_seq [OF ns(1) len refl pk lat_chain_mono [OF new(1) w(3)] free sub] w(2) by simp
    next
      case 2
      have "\<forall>q \<in> set ns. lat_heap g' q = lat_heap g q" using ns(2) 2(2,4) by auto
      then have "lat_chain (lat_heap g') (sd_node ?d) (sd_count ?d) ns ?o" using ns(1) by (simp only: lat_chain_cong)
      then have "wp (install_lateral fuel ?d (ew_version w) p (c', p')) (\<lambda>_ g''. same_data g' g'' \<and> es_window g'' = es_window g' \<and> lat_ok ?b g'') g'"
        by (rule install_seq [OF _ len _ pk, where ms = "p' # drop k ns"]) (use 2 free sub in auto)
      moreover have "same_data g g'" "es_window g' = w" using 2(2) w(2) by simp_all
      ultimately show ?thesis unfolding x by (auto elim!: wp_mono intro: same_data_trans)
    qed
  qed
  define T where "T c p \<longleftrightarrow> (\<exists>k. lat_chain (lat_heap g) p c (drop k ns) ?o \<and> c \<le> ?L \<and> (k < length ns \<and> p = ns ! k \<or> k = 0 \<and> p = sd_node ?d))" for c p
  have "T (sd_count ?d) (sd_node ?d)" if "sd_count ?d < ?L" unfolding T_def using ns(1) that by (intro exI [of _ 0]) simp
  moreover have "T ?L (ns ! k)" if "k < length ns" "lat_chain (lat_heap g) (ns ! k) ?L (drop k ns) ?o" for k unfolding T_def using that by blast
  ultimately have top: "wp (replace_lateral_node fuel e t w (sd_node ?d) (sd_count ?d)) (\<lambda>(c, p, base) g'. g' = g \<and> base = p \<and> T c p) g"
    by (intro wp_mono [OF replace_lateral_seq [OF ns(1) w(3) len assms(6)]]) (auto split: if_splits)
  have all: "wp (replace_lateral_node fuel e t w (sd_node ?d) (sd_count ?d)) (\<lambda>(c, p, base).
      wp (if ?b \<noteq> ?o then maybe_push_lateral e t w (c, p) else Ret (c, p)) (\<lambda>x. wp (install_lateral fuel ?d (ew_version w) base x) (\<lambda>_. ?Q))) g"
    by (rule wp_mono [OF top]) (auto simp: T_def dest: fin)
  show ?thesis unfolding synchronize_lateral_def w(1) using all lat_ok_mono [OF ok w(3)] w(2,3)
    by (simp add: install_lateral_def case_prod_unfold wp_bind_fun)
qed

section \<open>The windows, running alone\<close>

definition bottom :: "ewindow \<Rightarrow> nat" where
  "bottom w = ew_max w - ew_depth w"

text \<open>
  The window and the counts, while widths only grow: every sub-stack that was ever used is below the put width, which is the get width too, and no count is above the
  maximum of the window. \<open>D\<close> bounds the depths.
\<close>

definition win_el :: "es_cfg \<Rightarrow> nat \<Rightarrow> estack \<Rightarrow> bool" where
  "win_el c D g \<longleftrightarrow> (let w = es_window g in
     length (es_array g) = ec_max_width c \<and> ec_max_width c < 65536 \<and> ec_random_hops c < 256 \<and> D < 65536 \<and>
     1 \<le> ew_old_put_width w \<and> ew_old_put_width w \<le> ew_put_width w \<and> ew_put_width w \<le> es_width g \<and> es_width g \<le> ec_max_width c \<and>
     ew_get_width w = ew_put_width w \<and> 1 \<le> ew_depth w \<and> ew_depth w \<le> D \<and> ew_depth w \<le> ew_max w \<and> 1 \<le> es_depth g \<and> es_depth g \<le> D \<and>
     (\<forall>j < ec_max_width c. d_count (es_array g ! j) \<le> ew_max w \<and> (ew_put_width w \<le> j \<longrightarrow> d_count (es_array g ! j) = 0)) \<and>
     ew_version w + bottom w < 65536 \<and> lat_ok (ew_old_put_width w) g)"

lemma win_elD:
  assumes "win_el c D g"
  shows "length (es_array g) = ec_max_width c" "ec_max_width c < 65536" "ec_random_hops c < 256" "D < 65536"
    "1 \<le> ew_old_put_width (es_window g)" "ew_old_put_width (es_window g) \<le> ew_put_width (es_window g)" "ew_put_width (es_window g) \<le> es_width g"
    "es_width g \<le> ec_max_width c" "ew_get_width (es_window g) = ew_put_width (es_window g)" "1 \<le> ew_depth (es_window g)" "ew_depth (es_window g) \<le> D"
    "ew_depth (es_window g) \<le> ew_max (es_window g)" "1 \<le> es_depth g" "es_depth g \<le> D"
    "j < ec_max_width c \<Longrightarrow> d_count (es_array g ! j) \<le> ew_max (es_window g)"
    "j < ec_max_width c \<Longrightarrow> ew_put_width (es_window g) \<le> j \<Longrightarrow> d_count (es_array g ! j) = 0"
    "ew_version (es_window g) + bottom (es_window g) < 65536" "lat_ok (ew_old_put_width (es_window g)) g"
    "ew_max (es_window g) = bottom (es_window g) + ew_depth (es_window g)"
    "sub32 (ew_max (es_window g)) (ew_depth (es_window g)) = bottom (es_window g)"
    "lower_narrower_count (es_window g) = bottom (es_window g) + 1"
proof -
  show eq: "ew_max (es_window g) = bottom (es_window g) + ew_depth (es_window g)" using assms by (simp add: win_el_def Let_def bottom_def)
  show s: "sub32 (ew_max (es_window g)) (ew_depth (es_window g)) = bottom (es_window g)"
    unfolding eq using assms by (subst sub32_eq) (simp_all add: win_el_def Let_def)
  show "lower_narrower_count (es_window g) = bottom (es_window g) + 1"
    unfolding lower_narrower_count_def s using assms by (simp add: win_el_def Let_def add32_def)
qed (use assms in \<open>simp_all add: win_el_def Let_def\<close>)

lemma wp_load_el:
  assumes "i < length (es_array g)"
  shows "wp (load_descriptor_el i) Q g = Q (es_array g ! i) g"
  using assms by (cases "es_array g ! i") (simp add: load_descriptor_el_def at_def)

text \<open>The window that follows, given its maximum.\<close>

definition next_window :: "es_env \<Rightarrow> nat \<Rightarrow> estack \<Rightarrow> ewindow" where
  "next_window e mx g = (let w = es_window g; v = ew_version w + 1
     in \<lparr>ew_max = mx, ew_depth = es_depth g, ew_get_width = es_width g, ew_put_width = es_width g,
         ew_old_put_width = ew_put_width w, ew_version = v, ew_last_shift = env_last_shift e v\<rparr>)"

lemma shift_window_seq:
  assumes inv: "win_el c D g" and l: "es_Window l = es_window g" and al: "alloc_fresh (env_alloc e)" and fuel: "ec_max_width c < fuel"
    and v: "ew_version (es_window g) + 1 < 65536" and mx: "mx = new_max (es_depth g)" "es_depth g \<le> mx"
  shows "wp (shift_window_el fuel e t new_max l) (\<lambda>l' g'. same_data g g' \<and> es_window g' = next_window e mx g \<and>
    l' = l\<lparr>es_Window := next_window e mx g, my_slide_count := add64 (my_slide_count l) 1\<rparr> \<and> lat_ok (ew_put_width (es_window g)) g') g"
proof -
  let ?w = "es_window g"
  note W = win_elD [OF inv]
  have pf: "ew_put_width ?w < fuel" using W(7,8) fuel by simp
  have L: "0 < lower_narrower_count ?w" using W(21) by simp
  have v': "add16 (ew_version ?w) 1 = ew_version ?w + 1" using v by (simp add: add16_eq)
  show ?thesis unfolding shift_window_el_def wp_bind
  proof (rule wp_mono [OF synchronize_seq [OF W(18) l refl W(6) pf L al]])
    fix u g'
    assume g': "same_data g g' \<and> es_window g' = ?w \<and> lat_ok (ew_put_width ?w) g'"
    obtain ns where ns: "lat_chain (lat_heap g') (sd_node (es_lateral g')) (sd_count (es_lateral g')) ns (ew_put_width ?w)"
      using g' by (auto simp: lat_ok_def)
    have len: "length ns < fuel" using lat_chain_length [OF ns] pf by simp
    have sw: "wp (shift_width_loop fuel (sub32 mx (es_depth g)) (sd_count (es_lateral g')) (sd_node (es_lateral g')) (es_width g)) Q g'"
      if "Q (es_width g) g'" for Q
      by (rule wp_mono [OF shift_width_loop_seq [OF ns W(7) len]]) (use that in simp)
    have d: "es_width g' = es_width g" "es_depth g' = es_depth g" using g' by (simp_all add: same_data_def)
    show "wp (slide_window_el fuel e new_max l) (\<lambda>l' g'. same_data g g' \<and> es_window g' = next_window e mx g \<and>
        l' = l\<lparr>es_Window := next_window e mx g, my_slide_count := add64 (my_slide_count l) 1\<rparr> \<and> lat_ok (ew_put_width ?w) g') g'"
      using g' W(7) mx
      by (auto simp: slide_window_el_def l d Let_def shift_width_def mx(1) [symmetric] v' next_window_def same_data_def lat_ok_def intro!: sw)
  qed
qed

lemma win_el_next:
  assumes inv: "win_el c D g" and g': "same_data g g'" "es_window g' = next_window e mx g" "lat_ok (ew_put_width (es_window g)) g'"
    and "es_depth g \<le> mx" "\<forall>j < ec_max_width c. d_count (es_array g ! j) \<le> mx" "ew_version (es_window g) + 1 + (mx - es_depth g) < 65536"
  shows "win_el c D g'"
proof -
  note W = win_elD [OF inv]
  have "\<forall>j < ec_max_width c. es_width g \<le> j \<longrightarrow> d_count (es_array g ! j) = 0" using W(7,16) by simp
  then show ?thesis using W(1-8,13,14) g' assms(5-7) by (simp add: win_el_def next_window_def Let_def same_data_def bottom_def)
qed

interpretation el_hop: hopping "hop_el c" "ec_random_hops c" "\<lambda>w _. w < 65536 \<and> ec_random_hops c < 256" for c
proof (unfold_locales, goal_cases)
  case 1
  then show ?case by (auto simp: hop_el_def add64_eq add16_eq W64_def intro!: wp_random_mod)
next
  case 2
  then show ?case by (auto simp: hop_el_def add64_eq add16_eq W64_def Let_def next_index_def split: if_splits)
qed

lemma half_up: "1 \<le> (d :: nat) \<Longrightarrow> 1 \<le> (d + 1) div 2 \<and> (d + 1) div 2 \<le> d"
  by linarith

lemma put_shift_max_bounds:
  assumes "1 \<le> d'" "old_max + d' < 4294967296"
  shows "d' \<le> put_shift_max old_max d'" "old_max < put_shift_max old_max d'" "put_shift_max old_max d' - d' \<le> old_max"
proof -
  have s: "1 \<le> (d' + 1) div 2" "(d' + 1) div 2 \<le> d'" using half_up [OF assms(1)] by auto
  then have "put_shift_max old_max d' = max (old_max + (d' + 1) div 2) d'" using assms(2) by (simp add: put_shift_max_def add32_def max_def Let_def)
  then show "d' \<le> put_shift_max old_max d'" "old_max < put_shift_max old_max d'" "put_shift_max old_max d' - d' \<le> old_max"
    using s by (auto simp: max_def)
qed

lemma get_shift_max_eq:
  assumes "old_max = b + d" "b + d + d' < 65536 * 4" "1 \<le> d'"
  shows "get_shift_max old_max d' d = b - (d' + 1) div 2 + d'"
proof -
  let ?s = "(d' + 1) div 2"
  have "sub32 old_max d = b" unfolding assms(1) using assms(2) by (subst sub32_eq) simp_all
  moreover have "sub32 b ?s = b - ?s" if "?s \<le> b" using that assms(2) by (subst sub32_eq) simp_all
  moreover have "sub32 old_max ?s = old_max - ?s" if "?s \<le> old_max" using that assms(1,2) by (subst sub32_eq) simp_all
  moreover have "add32 (b - ?s) d' = b - ?s + d'" using assms(2) by (simp add: add32_def)
  ultimately show ?thesis using assms(1) by (auto simp: get_shift_max_def Let_def)
qed

section \<open>Finding a sub-stack to push on\<close>

definition put_post_el :: "es_cfg \<Rightarrow> nat \<Rightarrow> estack \<Rightarrow> descriptor2Dc \<times> es_tl \<Rightarrow> estack \<Rightarrow> bool" where
  "put_post_el c D g = (\<lambda>(d, l) g'. same_data g g' \<and> win_el c D g' \<and> es_Window l = es_window g' \<and> put_index l < ew_put_width (es_window g') \<and>
     d = es_array g ! put_index l \<and> d_count d < ew_max (es_window g') \<and> ew_version (es_window g) \<le> ew_version (es_window g') \<and>
     (es_window g' = es_window g \<or> ew_version (es_window g) < ew_version (es_window g')) \<and>
     ew_version (es_window g') + bottom (es_window g') \<le> ew_version (es_window g) + bottom (es_window g) + D + 1)"

lemma put_loop_hit_el:
  assumes "win_el c D g" "es_Window l = es_window g" "put_index l < ew_put_width (es_window g)"
    and "d_count (es_array g ! put_index l) < ew_max (es_window g)"
  shows "wp (put_window_loop_el (Suc n) fuel e k t l hops random) Q g =
    Q (es_array g ! put_index l, if ew_put_width (es_window g) > get_index l then l\<lparr>get_index := put_index l\<rparr> else l) g"
proof -
  have "put_index l < length (es_array g)" using win_elD(1,7,8) [OF assms(1)] assms(3) by simp
  then show ?thesis using assms by (simp add: wp_load_el)
qed

lemma put_loop_seq_el:
  assumes inv: "win_el c D g" and al: "alloc_fresh (env_alloc e)" and fuel: "ec_max_width c < fuel"
    and room: "ew_version (es_window g) + bottom (es_window g) + D + 1 < 65536"
    and "es_Window l = es_window g" "put_index l < ew_put_width (es_window g)" "hops \<le> ew_put_width (es_window g)"
    and "random \<le> ec_random_hops c" "random < ec_random_hops c \<longrightarrow> hops = 0"
    and "seen (ew_put_width (es_window g)) (put_index l) hops (\<lambda>j. ew_max (es_window g) \<le> d_count (es_array g ! j))"
    and "(ec_random_hops c - random) + (ew_put_width (es_window g) - hops) + 2 \<le> n"
  shows "wp (put_window_loop_el n fuel e c t l hops random) (put_post_el c D g) g"
  using assms(5-)
proof (induction n arbitrary: l hops random)
  case (Suc n)
  let ?w = "es_window g" and ?i = "put_index l"
  let ?p = "ew_put_width ?w" and ?m = "ew_max ?w" and ?c = "\<lambda>j. d_count (es_array g ! j)"
  note W = win_elD [OF inv]
  have i: "?i < length (es_array g)" using Suc.prems(2) W(1,7,8) by simp
  show ?case
  proof (cases "?c ?i < ?m")
    case True
    then show ?thesis using Suc.prems inv
      by (subst put_loop_hit_el [OF inv]) (auto simp: put_post_el_def)
  next
    case full: False
    show ?thesis
    proof (cases "hops = ?p")
      case False
      then have hops: "hops < ?p" and p: "?p < 65536" using Suc.prems W(2,7,8) by simp_all
      have "wp (hop_el c l ?i random hops ?p)
        (\<lambda>(index, random, hops, l). wp (put_window_loop_el n fuel e c t (l\<lparr>put_index := index\<rparr>) hops random) (put_post_el c D g)) g"
        by (rule el_hop.hop_search [OF _ Suc.prems(2) hops Suc.prems(4-6)]) (use Suc.prems full p W(3) in \<open>auto intro!: Suc.IH\<close>)
      then show ?thesis using Suc.prems full False i by (simp add: wp_load_el case_prod_unfold)
    next
      case True
      let ?mx = "put_shift_max ?m (es_depth g)"
      have small: "?m + es_depth g < 4294967296" using W(4,11,14,17,19) by linarith
      note M = put_shift_max_bounds [OF W(13) small]
      have v: "ew_version ?w + 1 < 65536" using room by simp
      have cnt: "\<forall>j < ec_max_width c. ?c j \<le> ?mx" using W(15) M(2) by fastforce
      have bot: "?mx - es_depth g \<le> bottom ?w + D" using M(3) W(11,19) by linarith
      obtain n' where n': "n = Suc n'" using Suc.prems by (cases n) auto
      have "wp (shift_window_el fuel e t (put_shift_max ?m) l) (\<lambda>l. wp (put_window_loop_el n fuel e c t
          (l\<lparr>put_index := sync_index (ew_put_width (es_Window l)) (put_index l)\<rparr>) 0 random) (put_post_el c D g)) g"
      proof (rule wp_mono [OF shift_window_seq [where new_max = "put_shift_max ?m", OF inv Suc.prems(1) al fuel v refl M(1)]], elim conjE)
        fix l' :: es_tl and g'
        let ?l = "l'\<lparr>put_index := sync_index (ew_put_width (es_Window l')) (put_index l')\<rparr>"
        assume g': "same_data g g'" "es_window g' = next_window e ?mx g" "lat_ok ?p g'"
          and l': "l' = l\<lparr>es_Window := next_window e ?mx g, my_slide_count := add64 (my_slide_count l) 1\<rparr>"
        have inv': "win_el c D g'" using win_el_next [OF inv g' M(1) cnt] bot room by simp
        have nw: "ew_max (es_window g') = ?mx" "ew_put_width (es_window g') = es_width g" "ew_version (es_window g') = ew_version ?w + 1"
          "bottom (es_window g') = ?mx - es_depth g"
          using g'(2) by (simp_all add: next_window_def Let_def bottom_def)
        have w0: "0 < es_width g" using W(5-7) by simp
        have idx: "put_index ?l < ew_put_width (es_window g')" using w0 by (simp add: l' sync_index_def Let_def nw(2) next_window_def)
        have j: "put_index ?l < ec_max_width c" using idx nw(2) W(8) by simp
        have arr: "es_array g' = es_array g" using g'(1) by (simp add: same_data_def)
        have hit: "d_count (es_array g' ! put_index ?l) < ew_max (es_window g')" using W(15) [OF j] M(2) by (simp add: nw(1) arr)
        have lw: "es_Window ?l = es_window g'" by (simp add: l' g'(2))
        show "wp (put_window_loop_el n fuel e c t ?l 0 random) (put_post_el c D g) g'"
          unfolding n' put_loop_hit_el [OF inv' lw idx hit] using g'(1) inv' lw idx hit nw bot W(20)
          by (auto simp: put_post_el_def arr)
      qed
      then show ?thesis using Suc.prems full True i by (simp add: wp_load_el)
    qed
  qed
qed simp

section \<open>Finding a sub-stack to pop from\<close>

definition get_post_el :: "es_cfg \<Rightarrow> nat \<Rightarrow> estack \<Rightarrow> descriptor2Dc \<times> es_tl \<Rightarrow> estack \<Rightarrow> bool" where
  "get_post_el c D g = (\<lambda>(d, l) g'. same_data g g' \<and> win_el c D g' \<and> es_Window l = es_window g' \<and> get_index l < ec_max_width c \<and>
     d = es_array g ! get_index l \<and> ew_version (es_window g) \<le> ew_version (es_window g') \<and>
     (es_window g' = es_window g \<or> ew_version (es_window g) < ew_version (es_window g')) \<and>
     ew_version (es_window g') + bottom (es_window g') \<le> ew_version (es_window g) + bottom (es_window g) \<and>
     (bottom (es_window g') < d_count d \<or> (\<forall>j < ec_max_width c. d_count (es_array g ! j) = 0)))"

lemma get_post_trans:
  assumes "get_post_el c D g' x h" "same_data g g'" "ew_version (es_window g) < ew_version (es_window g')"
    "ew_version (es_window g') + bottom (es_window g') \<le> ew_version (es_window g) + bottom (es_window g)"
  shows "get_post_el c D g x h"
  using assms by (auto simp: get_post_el_def same_data_def)

lemma get_exit_el:
  assumes "win_el c D g" "es_Window l = es_window g" "get_index l < ew_get_width (es_window g)"
    and "bottom (es_window g) < d_count (es_array g ! get_index l) \<or> (\<forall>j < ec_max_width c. d_count (es_array g ! j) = 0)"
  shows "wp (get_window_exit_el (es_array g ! get_index l) l) (get_post_el c D g) g"
  using assms win_elD(7-9) [OF assms(1)] by (auto simp: get_window_exit_el_def get_post_el_def)

lemma get_loop_seq_el:
  assumes "win_el c D g" and al: "alloc_fresh (env_alloc e)" and fuel: "ec_max_width c < fuel"
    and "es_Window l = es_window g" "get_index l < ew_get_width (es_window g)" "hops \<le> ew_get_width (es_window g)"
    and "random \<le> ec_random_hops c" "random < ec_random_hops c \<longrightarrow> hops = 0"
    and "seen (ew_get_width (es_window g)) (get_index l) hops (\<lambda>j. d_count (es_array g ! j) \<le> bottom (es_window g) \<and>
           (emp \<longrightarrow> d_count (es_array g ! j) = 0))"
    and "\<not> emp \<longrightarrow> (\<exists>j < ec_max_width c. 0 < d_count (es_array g ! j))"
    and "(ec_random_hops c - random) + (ew_get_width (es_window g) - hops) + 2 + bottom (es_window g) * (ec_max_width c + 2) \<le> n"
  shows "wp (get_window_loop_el n fuel e c t l hops random emp) (get_post_el c D g) g"
  using assms(1,4-)
proof (induction n arbitrary: g l hops random emp)
  case (Suc n)
  let ?w = "es_window g" and ?i = "get_index l"
  let ?p = "ew_get_width ?w" and ?m = "ew_max ?w" and ?b = "bottom ?w" and ?c = "\<lambda>j. d_count (es_array g ! j)"
  note inv = Suc.prems(1) and W = win_elD [OF Suc.prems(1)]
  have i: "?i < length (es_array g)" using Suc.prems(3) W(1,7-9) by simp
  show ?case
  proof (cases "?b < ?c ?i")
    case True
    then show ?thesis using Suc.prems i W(20) get_exit_el [OF inv Suc.prems(2,3)] by (simp add: wp_load_el)
  next
    case low: False
    show ?thesis
    proof (cases "hops = ?p")
      case False
      then have hops: "hops < ?p" and p: "?p < 65536" using Suc.prems W(2,7-9) by simp_all
      let ?e = "if 0 < ?c ?i then False else emp"
      have ne: "\<not> ?e \<longrightarrow> (\<exists>j < ec_max_width c. 0 < ?c j)" using Suc.prems(8) i W(1) by auto
      have sn: "seen ?p ?i hops (\<lambda>j. ?c j \<le> ?b \<and> (?e \<longrightarrow> ?c j = 0))" by (rule seen_mono [OF Suc.prems(7)]) (auto split: if_splits)
      have "wp (hop_el c l ?i random hops ?p)
        (\<lambda>(index, random, hops, l). wp (get_window_loop_el n fuel e c t (l\<lparr>get_index := index\<rparr>) hops random ?e) (get_post_el c D g)) g"
        by (rule el_hop.hop_search [OF _ Suc.prems(3) hops Suc.prems(5,6) sn]) (use Suc.prems(1,2,9) low ne p W(3) in \<open>simp_all add: Suc.IH\<close>)
      then show ?thesis using Suc.prems(2) low False i W(20) by (simp add: wp_load_el case_prod_unfold Let_def)
    next
      case True
      have all: "\<forall>j < ?p. ?c j \<le> ?b \<and> (emp \<longrightarrow> ?c j = 0)" using Suc.prems(3,7) True by (intro seen_all) auto
      show ?thesis
      proof (cases emp)
        case True
        then have "\<forall>j < ec_max_width c. ?c j = 0" using all W(9,16) by (metis not_le)
        then show ?thesis using Suc.prems(2) low \<open>hops = ?p\<close> True i W(20) get_exit_el [OF inv Suc.prems(2,3)] by (simp add: wp_load_el)
      next
        case False
        have cb: "\<forall>j < ec_max_width c. ?c j \<le> ?b" using all W(9,16) by (metis not_le le0)
        have b: "0 < ?b" using Suc.prems(8) False cb by fastforce
        let ?s = "(es_depth g + 1) div 2" and ?mx = "get_shift_max ?m (es_depth g) (ew_depth ?w)"
        have s: "1 \<le> ?s" "?s \<le> es_depth g" using half_up [OF W(13)] by auto
        have mx: "?mx = ?b - ?s + es_depth g" using W(4,11,14,17) by (intro get_shift_max_eq [OF W(19) _ W(13)]) linarith
        have v: "ew_version ?w + 1 < 65536" using W(17) b by simp
        have dm: "es_depth g \<le> ?mx" using mx by simp
        have cnt: "\<forall>j < ec_max_width c. ?c j \<le> ?mx" using cb s(2) mx by fastforce
        have "wp (shift_window_el fuel e t (\<lambda>d. get_shift_max ?m d (ew_depth ?w)) l) (\<lambda>l. wp (get_window_loop_el n fuel e c t
            (l\<lparr>get_index := sync_index (ew_get_width (es_Window l)) (get_index l)\<rparr>) 0 random True) (get_post_el c D g)) g"
        proof (rule wp_mono [OF shift_window_seq [where new_max = "\<lambda>d. get_shift_max ?m d (ew_depth ?w)", OF inv Suc.prems(2) al fuel v refl dm]], elim conjE)
          fix l' :: es_tl and g'
          let ?l = "l'\<lparr>get_index := sync_index (ew_get_width (es_Window l')) (get_index l')\<rparr>"
          assume g': "same_data g g'" "es_window g' = next_window e ?mx g" "lat_ok (ew_put_width ?w) g'"
            and l': "l' = l\<lparr>es_Window := next_window e ?mx g, my_slide_count := add64 (my_slide_count l) 1\<rparr>"
          have nw: "ew_get_width (es_window g') = es_width g" "ew_version (es_window g') = ew_version ?w + 1" "bottom (es_window g') = ?b - ?s"
            using g'(2) mx by (simp_all add: next_window_def Let_def bottom_def)
          have inv': "win_el c D g'" using win_el_next [OF inv g' _ cnt] mx W(17) b s by simp
          have w0: "0 < es_width g" using W(5-7) by simp
          have idx: "get_index ?l < ew_get_width (es_window g')" using w0 by (simp add: l' sync_index_def Let_def nw(1) next_window_def)
          have lw: "es_Window ?l = es_window g'" by (simp add: l' g'(2))
          have "(?b - ?s + 1) * (ec_max_width c + 2) \<le> ?b * (ec_max_width c + 2)" using b s(1) by (intro mult_right_mono) auto
          then have fu: "(ec_random_hops c - random) + (es_width g - 0) + 2 + (?b - ?s) * (ec_max_width c + 2) \<le> n"
            using Suc.prems(9) True \<open>hops = ?p\<close> W(8) by (simp add: add_mult_distrib)
          have "wp (get_window_loop_el n fuel e c t ?l 0 random True) (get_post_el c D g') g'"
            using Suc.prems(5) fu nw by (intro Suc.IH [OF inv' lw idx]) simp_all
          then show "wp (get_window_loop_el n fuel e c t ?l 0 random True) (get_post_el c D g) g'"
            by (rule wp_mono) (erule get_post_trans [OF _ g'(1)]; use nw b s(1) in simp)
        qed
        then show ?thesis using Suc.prems(2) low \<open>hops = ?p\<close> False i W(20) by (simp add: wp_load_el)
      qed
    qed
  qed
qed simp

section \<open>Entering a window\<close>

definition synced_el :: "estack \<Rightarrow> es_tl \<Rightarrow> bool" where
  "synced_el g l \<longleftrightarrow> ew_version (es_Window l) \<le> ew_version (es_window g) \<and>
     (ew_version (es_Window l) = ew_version (es_window g) \<longrightarrow> es_Window l = es_window g)"

lemma synced_el_later:
  assumes "synced_el g l" "ew_version (es_window g) \<le> ew_version (es_window g')"
    "es_window g' = es_window g \<or> ew_version (es_window g) < ew_version (es_window g')"
  shows "synced_el g' l"
  using assms by (auto simp: synced_el_def)

lemma sync_index_less: "0 < w \<Longrightarrow> sync_index w i < w"
  by (simp add: sync_index_def Let_def)

text \<open>Enough iterations for a window whose bottom is at most \<open>K\<close>.\<close>

definition es_fuel :: "es_cfg \<Rightarrow> nat \<Rightarrow> nat \<Rightarrow> nat" where
  "es_fuel c D K = ec_random_hops c + (ec_max_width c + 2) * (K + 2) + D + 2"

lemma es_fuelD:
  assumes "es_fuel c D K \<le> fuel" "b \<le> K" "w \<le> ec_max_width c"
  shows "ec_random_hops c + w + 2 + b * (ec_max_width c + 2) \<le> fuel" "ec_random_hops c + w + 2 \<le> fuel" "ec_max_width c < fuel" "0 < fuel" "K + D < fuel"
proof -
  have "b * (ec_max_width c + 2) \<le> K * (ec_max_width c + 2)" using assms(2) by (rule mult_right_mono) simp
  then show *: "ec_random_hops c + w + 2 + b * (ec_max_width c + 2) \<le> fuel" "ec_random_hops c + w + 2 \<le> fuel" "ec_max_width c < fuel" "0 < fuel" "K + D < fuel"
    using assms by (auto simp: es_fuel_def algebra_simps)
qed

lemma put_window_seq_el:
  assumes inv: "win_el c D g" "synced_el g l" and al: "alloc_fresh (env_alloc e)" and fuel: "es_fuel c D K \<le> fuel"
    and room: "ew_version (es_window g) + bottom (es_window g) + D + 1 < 65536"
  shows "wp (put_window_el fuel e c t l contention) (put_post_el c D g) g"
proof -
  note W = win_elD [OF inv(1)]
  have p: "0 < ew_put_width (es_window g)" "ew_put_width (es_window g) \<le> ec_max_width c" using W(5-8) by simp_all
  note F = es_fuelD [OF fuel le0 p(2)]
  have loop: "wp (put_window_loop_el fuel fuel e c t l' 0 0) (put_post_el c D g) g"
    if "es_Window l' = es_window g" "put_index l' < ew_put_width (es_window g)" for l'
    by (rule put_loop_seq_el [OF inv(1) al F(3) room that]) (use F(2) in simp_all)
  have "es_Window l = es_window g" if "ew_version (es_Window l) = ew_version (es_window g)" using inv(2) that by (simp add: synced_el_def)
  then show ?thesis unfolding put_window_el_def
    using p by (cases "ew_version (es_Window l) = ew_version (es_window g)") (auto simp: read_window_el_def sync_index_less intro!: wp_random_mod loop)
qed

lemma get_window_seq_el:
  assumes inv: "win_el c D g" "synced_el g l" and al: "alloc_fresh (env_alloc e)" and fuel: "es_fuel c D K \<le> fuel" "bottom (es_window g) \<le> K"
  shows "wp (get_window_el fuel e c t l contention) (get_post_el c D g) g"
proof -
  note W = win_elD [OF inv(1)]
  have p: "0 < ew_get_width (es_window g)" "ew_get_width (es_window g) \<le> ec_max_width c" using W(5-9) by simp_all
  note F = es_fuelD [OF fuel p(2)]
  have loop: "wp (get_window_loop_el fuel fuel e c t l' 0 0 True) (get_post_el c D g) g"
    if "es_Window l' = es_window g" "get_index l' < ew_get_width (es_window g)" for l'
    by (rule get_loop_seq_el [OF inv(1) al F(3) that]) (use F(1) in simp_all)
  have "es_Window l = es_window g" if "ew_version (es_Window l) = ew_version (es_window g)" using inv(2) that by (simp add: synced_el_def)
  then show ?thesis unfolding get_window_el_def
    using p by (cases "ew_version (es_Window l) = ew_version (es_window g)") (auto simp: read_window_el_def sync_index_less intro!: wp_random_mod loop)
qed

section \<open>The sub-stacks\<close>

text \<open>The nodes from \<open>p\<close> on, at most \<open>n\<close> of them.\<close>

fun trail :: "heap \<Rightarrow> ptr \<Rightarrow> nat \<Rightarrow> ptr list" where
  "trail h p 0 = []"
| "trail h p (Suc n) = (if p = NULL then [] else case h p of None \<Rightarrow> [] | Some nd \<Rightarrow> p # trail h (n_next nd) n)"

lemma chain_trail: "chain h p xs \<Longrightarrow> length xs \<le> n \<Longrightarrow> trail h p n = xs"
proof (induction n arbitrary: p xs)
  case (Suc n)
  then show ?case by (cases xs) (auto split: option.splits)
qed simp

text \<open>The rows of the nodes fall on the way down, from the count of the descriptor to 0.\<close>

fun falling :: "(ptr \<Rightarrow> nat) \<Rightarrow> ptr list \<Rightarrow> nat \<Rightarrow> bool" where
  "falling nc [] c \<longleftrightarrow> c = 0"
| "falling nc (x # xs) c \<longleftrightarrow> nc x < c \<and> falling nc xs (nc x)"

lemma falling_length: "falling nc xs c \<Longrightarrow> length xs \<le> c"
  by (induction xs arbitrary: c) fastforce+

lemma falling_cong: "\<forall>x \<in> set xs. nc' x = nc x \<Longrightarrow> falling nc' xs c = falling nc xs c"
  by (induction xs arbitrary: c) auto

fun row_items :: "(ptr \<Rightarrow> nat) \<Rightarrow> (ptr \<Rightarrow> int) \<Rightarrow> ptr list \<Rightarrow> nat \<Rightarrow> (nat \<times> int) list" where
  "row_items nc val [] c = []"
| "row_items nc val (x # xs) c = (c, val x) # row_items nc val xs (nc x)"

lemma row_items_cong: "\<forall>x \<in> set xs. nc' x = nc x \<and> val' x = val x \<Longrightarrow> row_items nc' val' xs c = row_items nc val xs c"
  by (induction xs arbitrary: c) auto

lemma length_row_items [simp]: "length (row_items nc val xs c) = length xs"
  by (induction xs arbitrary: c) auto

definition top_row :: "(nat \<times> int) list \<Rightarrow> nat" where
  "top_row s = (case s of [] \<Rightarrow> 0 | (r, v) # rest \<Rightarrow> r)"

lemma top_row_items: "falling nc xs c \<Longrightarrow> top_row (row_items nc val xs c) = c"
  by (cases xs) (auto simp: top_row_def)

definition es_items :: "estack \<Rightarrow> (nat \<times> int) list list" where
  "es_items g = map (\<lambda>d. row_items (next_count g) (node_val (es_mem g)) (trail (heap (es_mem g)) (d_node d) (d_count d)) (d_count d)) (es_array g)"

definition es_data :: "estack \<Rightarrow> tops \<Rightarrow> bool" where
  "es_data g ts \<longleftrightarrow> stacks_ok (es_mem g) ts \<and> length ts = length (es_array g) \<and>
     (\<forall>i < length ts. fst (ts ! i) = d_node (es_array g ! i) \<and> falling (next_count g) (subs (es_mem g) ts ! i) (d_count (es_array g ! i)))"

lemma es_dataD:
  assumes "es_data g ts"
  shows "stacks_ok (es_mem g) ts" "length ts = length (es_array g)"
    "i < length (es_array g) \<Longrightarrow> fst (ts ! i) = d_node (es_array g ! i)"
    "i < length (es_array g) \<Longrightarrow> falling (next_count g) (subs (es_mem g) ts ! i) (d_count (es_array g ! i))"
    "i < length (es_array g) \<Longrightarrow> es_items g ! i = row_items (next_count g) (node_val (es_mem g)) (subs (es_mem g) ts ! i) (d_count (es_array g ! i))"
    "i < length (es_array g) \<Longrightarrow> top_row (es_items g ! i) = d_count (es_array g ! i)"
proof -
  show *: "stacks_ok (es_mem g) ts" "length ts = length (es_array g)" using assms by (simp_all add: es_data_def)
  show f: "fst (ts ! i) = d_node (es_array g ! i)" "falling (next_count g) (subs (es_mem g) ts ! i) (d_count (es_array g ! i))"
    if "i < length (es_array g)" for i
    using assms that by (auto simp: es_data_def)
  show it: "es_items g ! i = row_items (next_count g) (node_val (es_mem g)) (subs (es_mem g) ts ! i) (d_count (es_array g ! i))"
    if i: "i < length (es_array g)" for i
  proof -
    have "chain (heap (es_mem g)) (d_node (es_array g ! i)) (subs (es_mem g) ts ! i)" using stacks_okD(3) [OF *(1), of i] i *(2) f(1) [OF i] by simp
    then show ?thesis using chain_trail falling_length [OF f(2) [OF i]] i by (simp add: es_items_def)
  qed
  show "top_row (es_items g ! i) = d_count (es_array g ! i)" if i: "i < length (es_array g)" for i using it [OF i] top_row_items [OF f(2) [OF i]] by simp
qed

lemma es_items_same: "same_data g g' \<Longrightarrow> es_items g' = es_items g" "same_data g g' \<Longrightarrow> es_data g' ts = es_data g ts"
  by (simp_all add: same_data_def es_items_def es_data_def)

lemma length_es_items [simp]: "length (es_items g) = length (es_array g)"
  by (simp add: es_items_def)

lemma es_data_push:
  assumes data: "es_data g ts" and i: "i < length (es_array g)" and p: "p \<noteq> NULL" "p \<notin> set (allocd (es_mem g))" and c: "d_count (es_array g ! i) < c'"
    and g': "es_mem g' = mem_publish p (mem_set_next p (d_node (es_array g ! i)) (mem_alloc t p nd (es_mem g)))"
      "next_count g' = (next_count g)(p := d_count (es_array g ! i))" "es_array g' = (es_array g)[i := \<lparr>d_node = p, d_count = c'\<rparr>]"
  shows "es_data g' (ts[i := (p, snd (ts ! i) + 1)])" "es_items g' = (es_items g)[i := (c', n_val nd) # es_items g ! i]"
proof -
  note D = es_dataD [OF data]
  let ?ts = "ts[i := (p, snd (ts ! i) + 1)]" and ?c = "d_count (es_array g ! i)"
  have i': "i < length ts" using i D(2) by simp
  have m': "es_mem g' = mem_publish p (mem_set_next p (fst (ts ! i)) (mem_alloc t p nd (es_mem g)))" using g'(1) D(3) [OF i] by simp
  note P = stacks_push_alone [OF D(1) i' p m']
  have old: "q \<noteq> p \<and> q \<in> set (hist (es_mem g))" if "q \<in> set (subs (es_mem g) ts ! j)" "j < length (es_array g)" for j q
    using in_subs_hist [OF D(1) _ that(1)] that(2) D(2) P(6) by auto
  have nv: "node_val (es_mem g') q = node_val (es_mem g) q" if "q \<in> set (subs (es_mem g) ts ! j)" "j < length (es_array g)" for j q
    using P(4) old [OF that] by (simp add: node_val_def)
  have fall: "falling (next_count g') (subs (es_mem g) ts ! j) k = falling (next_count g) (subs (es_mem g) ts ! j) k" if "j < length (es_array g)" for j k
    using old [OF _ that] by (intro falling_cong) (simp add: g'(2))
  show data': "es_data g' ?ts"
    unfolding es_data_def using P(1,2) D(2-4) c i g'(3) fall by (auto simp: nth_list_update g'(2))
  note D' = es_dataD [OF data']
  have row: "row_items (next_count g') (node_val (es_mem g')) (subs (es_mem g) ts ! j) k = row_items (next_count g) (node_val (es_mem g)) (subs (es_mem g) ts ! j) k"
    if "j < length (es_array g)" for j k
    using old [OF _ that] nv [OF _ that] by (intro row_items_cong) (simp add: g'(2))
  show "es_items g' = (es_items g)[i := (c', n_val nd) # es_items g ! i]"
  proof (rule nth_equalityI)
    fix j assume "j < length (es_items g')"
    then have j: "j < length (es_array g)" "j < length (es_array g')" by (simp_all add: g'(3))
    show "es_items g' ! j = (es_items g)[i := (c', n_val nd) # es_items g ! i] ! j"
      using D'(5) [OF j(2)] D(5) [OF j(1)] P(2,3) row [OF j(1)] j i i'
      by (auto simp: nth_list_update g'(2,3) node_val_def)
  qed (simp add: g'(3))
qed

lemma es_data_pop:
  assumes data: "es_data g ts" and i: "i < length (es_array g)" and p: "d_node (es_array g ! i) = p" "p \<noteq> NULL"
  obtains nd where "heap (es_mem g) p = Some nd" "es_items g ! i = (d_count (es_array g ! i), n_val nd) # tl (es_items g ! i)"
    "next_count g p < d_count (es_array g ! i)"
    "\<And>g'. es_mem g' = mem_free t p (mem_remove t p (es_mem g)) \<Longrightarrow> next_count g' = next_count g \<Longrightarrow>
       es_array g' = (es_array g)[i := \<lparr>d_node = n_next nd, d_count = next_count g p\<rparr>] \<Longrightarrow>
       es_data g' (ts[i := (n_next nd, snd (ts ! i) - 1)]) \<and> es_items g' = (es_items g)[i := tl (es_items g ! i)]"
proof -
  note D = es_dataD [OF data]
  have i': "i < length ts" using i D(2) by simp
  let ?m = "mem_free t p (mem_remove t p (es_mem g))"
  obtain nd where nd: "heap (es_mem g) p = Some nd" "subs (es_mem g) ts ! i = p # tl (subs (es_mem g) ts ! i)"
    and ok: "stacks_ok ?m (ts[i := (n_next nd, snd (ts ! i) - 1)])"
    and sub: "subs ?m (ts[i := (n_next nd, snd (ts ! i) - 1)]) = (subs (es_mem g) ts)[i := tl (subs (es_mem g) ts ! i)]"
    using stacks_pop_alone [OF D(1) i' _ p(2), of t] D(3) [OF i] p(1) by metis
  obtain xs where xs: "subs (es_mem g) ts ! i = p # xs" using nd(2) by metis
  have fall: "next_count g p < d_count (es_array g ! i)" "falling (next_count g) xs (next_count g p)" using D(4) [OF i] xs by simp_all
  have it: "es_items g ! i = (d_count (es_array g ! i), n_val nd) # row_items (next_count g) (node_val (es_mem g)) xs (next_count g p)"
    using D(5) [OF i] xs nd(1) by (simp add: node_val_def)
  have nv: "node_val ?m = node_val (es_mem g)" by (rule ext) (simp add: node_val_def mem_free_def mem_remove_def)
  have "es_data g' (ts[i := (n_next nd, snd (ts ! i) - 1)]) \<and> es_items g' = (es_items g)[i := tl (es_items g ! i)]"
    if g': "es_mem g' = ?m" "next_count g' = next_count g" "es_array g' = (es_array g)[i := \<lparr>d_node = n_next nd, d_count = next_count g p\<rparr>]" for g'
  proof -
    have data': "es_data g' (ts[i := (n_next nd, snd (ts ! i) - 1)])"
      unfolding es_data_def using ok sub D(2-4) fall(2) xs i by (auto simp: nth_list_update g')
    note D' = es_dataD [OF data']
    have "es_items g' = (es_items g)[i := tl (es_items g ! i)]"
    proof (rule nth_equalityI)
      fix j assume "j < length (es_items g')"
      then have j: "j < length (es_array g)" "j < length (es_array g')" by (simp_all add: g'(3))
      show "es_items g' ! j = (es_items g)[i := tl (es_items g ! i)] ! j"
        using D'(5) [OF j(2)] D(5) [OF j(1)] sub xs it j i i' nv by (auto simp: nth_list_update g')
    qed (simp add: g'(3))
    then show ?thesis using data' by simp
  qed
  then show thesis using that [OF nd(1)] it fall(1) by simp
qed

section \<open>Whole calls\<close>

definition es_inv :: "es_cfg \<Rightarrow> nat \<Rightarrow> estack \<Rightarrow> bool" where
  "es_inv c D g \<longleftrightarrow> win_el c D g \<and> (\<exists>ts. es_data g ts)"

text \<open>What a call leaves of the windows: they have moved on, and a call of \<open>n\<close> units moves them that far.\<close>

definition moved :: "nat \<Rightarrow> estack \<Rightarrow> es_tl \<Rightarrow> estack \<Rightarrow> bool" where
  "moved n g l g' \<longleftrightarrow> es_Window l = es_window g' \<and> es_width g' = es_width g \<and> es_depth g' = es_depth g \<and>
     ew_version (es_window g) \<le> ew_version (es_window g') \<and>
     (es_window g' = es_window g \<or> ew_version (es_window g) < ew_version (es_window g')) \<and>
     ew_version (es_window g') + bottom (es_window g') \<le> ew_version (es_window g) + bottom (es_window g) + n"

lemma win_el_array:
  assumes "win_el c D g" "i < ew_put_width (es_window g)" "d_count d \<le> ew_max (es_window g)"
    and "es_array g' = (es_array g)[i := d]" "es_window g' = es_window g" "es_width g' = es_width g" "es_depth g' = es_depth g"
    "es_lateral g' = es_lateral g" "lat_heap g' = lat_heap g" "lat_allocd g' = lat_allocd g" "lat_freed g' = lat_freed g"
  shows "win_el c D g'"
  using assms by (auto simp: win_el_def Let_def nth_list_update lat_ok_def)

definition es_pushed :: "es_cfg \<Rightarrow> nat \<Rightarrow> int \<Rightarrow> estack \<Rightarrow> int \<times> es_tl \<Rightarrow> estack \<Rightarrow> bool" where
  "es_pushed c D val g = (\<lambda>(r, l) g'. r = 1 \<and> es_inv c D g' \<and> moved (D + 1) g l g' \<and>
     (\<exists>i < es_width g. \<exists>row. top_row (es_items g ! i) < row \<and> (\<forall>s \<in> set (es_items g). top_row s \<le> row + D) \<and>
        es_items g' = (es_items g)[i := (row, val) # es_items g ! i]))"

lemma push_seq_el:
  assumes inv: "es_inv c D g" "synced_el g l" and al: "alloc_fresh (env_alloc e)" and fuel: "es_fuel c D K \<le> fuel"
    and room: "ew_version (es_window g) + bottom (es_window g) + D + 1 < 65536"
  shows "wp (push_el fuel e c t key val l) (es_pushed c D val g) g"
proof -
  obtain ts where data: "es_data g ts" and win: "win_el c D g" using inv(1) by (auto simp: es_inv_def)
  note W = win_elD [OF win]
  let ?p = "env_alloc e t (allocd (es_mem g))"
  let ?nd = "\<lparr>n_key = key, n_val = val, n_next = NULL\<rparr>"
  let ?g = "g\<lparr>es_mem := mem_alloc t ?p ?nd (es_mem g)\<rparr>"
  have p: "?p \<noteq> NULL" "?p \<notin> set (allocd (es_mem g))" using al by (auto simp: alloc_fresh_def)
  obtain f where f: "fuel = Suc f" using es_fuelD(4) [OF fuel le0 W(8)] by (cases fuel) auto
  have win': "win_el c D ?g" using win by (simp add: win_el_def lat_ok_def)
  have sync': "synced_el ?g l" using inv(2) by (simp add: synced_el_def)
  have room': "ew_version (es_window ?g) + bottom (es_window ?g) + D + 1 < 65536" using room by simp
  have "wp (push_loop_el (Suc f) fuel e c t ?p l False) (es_pushed c D val g) ?g"
    unfolding push_loop_el.simps(2) wp_bind
  proof (rule wp_mono [OF put_window_seq_el [OF win' sync' al fuel room']])
    fix x :: "descriptor2Dc \<times> es_tl" and h :: estack
    obtain d l' where x: "x = (d, l')" by (cases x)
    assume "put_post_el c D ?g x h"
    then have P: "same_data ?g h" "win_el c D h" "es_Window l' = es_window h" "put_index l' < ew_put_width (es_window h)"
      "d = es_array g ! put_index l'" "d_count d < ew_max (es_window h)" and mv: "moved (D + 1) g l' h"
      by (auto simp: put_post_el_def x moved_def same_data_def)
    let ?i = "put_index l'" and ?w = "es_window h"
    note H = win_elD [OF P(2)]
    have arr: "es_array h = es_array g" "es_mem h = mem_alloc t ?p ?nd (es_mem g)" "next_count h = next_count g" "es_width h = es_width g"
      using P(1) by (simp_all add: same_data_def)
    have i: "?i < length (es_array g)" "?i < es_width g" "?i < ec_max_width c" using P(4) H(1,7,8) arr by simp_all
    have small: "d_count d + D < 196608" "bottom ?w < 65536" using P(6) H(4,11,17,19) by simp_all
    define c' where "c' = (if d_count d + ew_depth ?w \<ge> ew_max ?w then d_count d + 1 else bottom ?w)"
    have c': "(if add64 (d_count d) (ew_depth ?w) \<ge> ew_max ?w then add64 (d_count d) 1 else sub32 (ew_max ?w) (ew_depth ?w)) = c'"
      unfolding c'_def H(20) using small H(11) by (simp add: add64_eq W64_def)
    have row: "d_count d < c'" "c' \<le> ew_max ?w" "ew_max ?w \<le> c' + D" unfolding c'_def using P(6) H(11,19) by auto
    let ?h = "h\<lparr>next_count := (next_count h)(?p := d_count d), es_array := (es_array h)[?i := \<lparr>d_node = ?p, d_count = c'\<rparr>],
      es_mem := mem_publish ?p (mem_set_next ?p (d_node d) (es_mem h))\<rparr>"
    have up: "es_data ?h (ts[?i := (?p, snd (ts ! ?i) + 1)])" "es_items ?h = (es_items g)[?i := (c', val) # es_items g ! ?i]"
      using es_data_push [OF data i(1) p row(1) [unfolded P(5)], of ?h t ?nd] arr P(5) by simp_all
    have "win_el c D ?h" using row(2) by (intro win_el_array [OF P(2,4)]) simp_all
    then have inv': "es_inv c D ?h" using up(1) by (auto simp: es_inv_def)
    have tops: "\<forall>s \<in> set (es_items g). top_row s \<le> c' + D"
    proof
      fix s assume "s \<in> set (es_items g)"
      then obtain j where j: "j < length (es_array g)" "s = es_items g ! j" by (auto simp: in_set_conv_nth)
      then have "top_row s = d_count (es_array h ! j)" using es_dataD(6) [OF data] arr by simp
      then show "top_row s \<le> c' + D" using H(15) [of j] j row(3) H(1) arr by simp
    qed
    have "top_row (es_items g ! ?i) < c'" using row(1) es_dataD(6) [OF data i(1)] P(5) by simp
    then have "\<exists>i < es_width g. \<exists>row. top_row (es_items g ! i) < row \<and> (\<forall>s \<in> set (es_items g). top_row s \<le> row + D) \<and>
        es_items ?h = (es_items g)[i := (row, val) # es_items g ! i]"
      using up(2) tops i(2) by blast
    moreover have "moved (D + 1) g l' ?h" using mv by (simp add: moved_def)
    ultimately have "es_pushed c D val g (1, l') ?h" using inv' by (simp add: es_pushed_def)
    moreover have "at (es_array h) ?i = Some d" using i arr P(5) by simp
    moreover have "d_count d mod 4294967296 = d_count d" using small by simp
    ultimately show "wp (case x of (descriptor, l) \<Rightarrow>
       pbind (wr (\<lambda>g. g\<lparr>es_mem := mem_set_next ?p (d_node descriptor) (es_mem g)\<rparr>)) (\<lambda>_.
       pbind (wr (\<lambda>g. g\<lparr>next_count := (next_count g)(?p := d_count descriptor mod 4294967296)\<rparr>)) (\<lambda>_.
       let w = es_Window l;
           new_count = (if add64 (d_count descriptor) (ew_depth w) \<ge> ew_max w then add64 (d_count descriptor) 1 else sub32 (ew_max w) (ew_depth w))
       in pbind (stack_cae_el (put_index l) descriptor \<lparr>d_node = ?p, d_count = new_count\<rparr> (mem_publish ?p)) (\<lambda>success.
          if success then Ret (1, l)
          else push_loop_el f fuel e c t ?p (l\<lparr>my_put_cas_fail_count := add64 (my_put_cas_fail_count l) 1\<rparr>) True)))) (es_pushed c D val g) h"
      unfolding x prod.case Let_def P(3) c' using i by (simp add: stack_cae_el_def)
  qed
  then show ?thesis unfolding f [symmetric] by (simp add: push_el_def create_node_el_def)
qed

definition es_popped :: "es_cfg \<Rightarrow> nat \<Rightarrow> estack \<Rightarrow> int \<times> es_tl \<Rightarrow> estack \<Rightarrow> bool" where
  "es_popped c D g = (\<lambda>(r, l) g'. es_inv c D g' \<and> moved 0 g l g' \<and>
     (r = 0 \<and> (\<forall>s \<in> set (es_items g). s = []) \<and> es_items g' = es_items g \<or>
      (\<exists>i < length (es_items g). \<exists>row rest. es_items g ! i = (row, r) # rest \<and> (\<forall>s \<in> set (es_items g). top_row s < row + D) \<and>
         es_items g' = (es_items g)[i := rest])))"

lemma pop_empty_el:
  assumes data: "es_data g ts" and zero: "\<forall>j < length (es_array g). d_count (es_array g ! j) = 0"
  shows "\<forall>s \<in> set (es_items g). s = []" "j < length (es_array g) \<Longrightarrow> d_node (es_array g ! j) = NULL"
proof -
  note D = es_dataD [OF data]
  have e: "subs (es_mem g) ts ! j = []" if "j < length (es_array g)" for j
    using D(4) [OF that] zero that by (cases "subs (es_mem g) ts ! j") auto
  then show "\<forall>s \<in> set (es_items g). s = []" using D(5) by (auto simp: in_set_conv_nth)
  show "d_node (es_array g ! j) = NULL" if "j < length (es_array g)"
    using stacks_okD(3) [OF D(1), of j] e [OF that] D(2,3) that by simp
qed

lemma pop_seq_el:
  assumes inv: "es_inv c D g" "synced_el g l" and al: "alloc_fresh (env_alloc e)" and fuel: "es_fuel c D K \<le> fuel" "bottom (es_window g) \<le> K"
  shows "wp (pop_el fuel e c t l) (es_popped c D g) g"
proof -
  obtain ts where data: "es_data g ts" and win: "win_el c D g" using inv(1) by (auto simp: es_inv_def)
  obtain f where f: "fuel = Suc f" using es_fuelD(4) [OF fuel win_elD(8) [OF win]] by (cases fuel) auto
  have "wp (pop_loop_el (Suc f) fuel e c t l False) (es_popped c D g) g"
    unfolding pop_loop_el.simps(2) wp_bind
  proof (rule wp_mono [OF get_window_seq_el [OF win inv(2) al fuel]])
    fix x :: "descriptor2Dc \<times> es_tl" and h :: estack
    obtain d l' where x: "x = (d, l')" by (cases x)
    let ?i = "get_index l'" and ?w = "es_window h"
    assume "get_post_el c D g x h"
    then have P: "same_data g h" "win_el c D h" "es_Window l' = es_window h" "?i < ec_max_width c" "d = es_array g ! ?i"
      and or: "bottom ?w < d_count d \<or> (\<forall>j < ec_max_width c. d_count (es_array g ! j) = 0)" and mv: "moved 0 g l' h"
      by (auto simp: get_post_el_def x moved_def same_data_def)
    note H = win_elD [OF P(2)]
    have arr: "es_array h = es_array g" "es_mem h = es_mem g" "next_count h = next_count g" "es_items h = es_items g" "es_data h ts"
      using P(1) data by (simp_all add: same_data_def es_items_same [OF P(1)])
    have i: "?i < length (es_array g)" using P(4) H(1) arr by simp
    show "wp (case x of (descriptor, l) \<Rightarrow>
       if d_node descriptor \<noteq> NULL then
         pbind (rd_opt (\<lambda>g. map_option n_next (heap (es_mem g) (d_node descriptor)))) (\<lambda>nxt.
         pbind (rd (\<lambda>g. next_count g (d_node descriptor))) (\<lambda>nxt_count.
         pbind (stack_cae_el (get_index l) descriptor \<lparr>d_node = nxt, d_count = nxt_count\<rparr> (mem_remove t (d_node descriptor))) (\<lambda>success.
         if success then
           pbind (rd_opt (\<lambda>g. map_option n_val (heap (es_mem g) (d_node descriptor)))) (\<lambda>node_val.
           pbind (wr (\<lambda>g. g\<lparr>es_mem := mem_free t (d_node descriptor) (es_mem g)\<rparr>)) (\<lambda>_.
           Ret (node_val, l)))
         else pop_loop_el f fuel e c t (l\<lparr>my_get_cas_fail_count := add64 (my_get_cas_fail_count l) 1\<rparr>) True)))
       else Ret (0, l\<lparr>my_null_count := add64 (my_null_count l) 1\<rparr>)) (es_popped c D g) h"
    proof (cases "d_node d = NULL")
      case True
      have "d_count d = 0" using True es_dataD(3,4) [OF data i] stacks_okD(3) [OF es_dataD(1) [OF data], of ?i] es_dataD(2) [OF data] i P(5)
        by (auto dest: chain_null)
      then have "\<forall>j < length (es_array g). d_count (es_array g ! j) = 0" using or H(1) arr by simp
      then have "es_popped c D g (0, l'\<lparr>my_null_count := add64 (my_null_count l') 1\<rparr>) h"
        using pop_empty_el(1) [OF data] P(2) arr(4,5) mv by (auto simp: es_popped_def es_inv_def moved_def)
      then show ?thesis using True by (simp add: x)
    next
      case False
      let ?p = "d_node d"
      obtain nd where nd: "heap (es_mem g) ?p = Some nd" "es_items g ! ?i = (d_count d, n_val nd) # tl (es_items g ! ?i)" "next_count g ?p < d_count d"
        and up: "\<And>g'. es_mem g' = mem_free t ?p (mem_remove t ?p (es_mem g)) \<Longrightarrow> next_count g' = next_count g \<Longrightarrow>
          es_array g' = (es_array g)[?i := \<lparr>d_node = n_next nd, d_count = next_count g ?p\<rparr>] \<Longrightarrow>
          es_data g' (ts[?i := (n_next nd, snd (ts ! ?i) - 1)]) \<and> es_items g' = (es_items g)[?i := tl (es_items g ! ?i)]"
        using es_data_pop [OF data i _ False, of t] P(5) by metis
      have pos: "0 < d_count d" using nd(3) by simp
      then have b: "bottom ?w < d_count d" using or P(4,5) by auto
      have iw: "?i < ew_put_width ?w" using H(16) [OF P(4)] pos arr P(5) by (metis not_le less_irrefl)
      let ?h = "h\<lparr>es_array := (es_array h)[?i := \<lparr>d_node = n_next nd, d_count = next_count g ?p\<rparr>], es_mem := mem_free t ?p (mem_remove t ?p (es_mem h))\<rparr>"
      have U: "es_data ?h (ts[?i := (n_next nd, snd (ts ! ?i) - 1)])" "es_items ?h = (es_items g)[?i := tl (es_items g ! ?i)]"
        using up [of ?h] arr by simp_all
      have le: "next_count g ?p \<le> ew_max ?w" using nd(3) H(15) [OF P(4)] arr P(5) by simp
      have "win_el c D ?h" using le by (intro win_el_array [OF P(2) iw]) simp_all
      then have inv': "es_inv c D ?h" using U(1) by (auto simp: es_inv_def)
      have tops: "\<forall>s \<in> set (es_items g). top_row s < d_count d + D"
      proof
        fix s assume "s \<in> set (es_items g)"
        then obtain j where j: "j < length (es_array g)" "s = es_items g ! j" by (auto simp: in_set_conv_nth)
        then have "top_row s = d_count (es_array h ! j)" using es_dataD(6) [OF data] arr by simp
        then show "top_row s < d_count d + D" using H(15) [of j] j b H(1,11,19) arr by simp
      qed
      have "\<exists>i < length (es_items g). \<exists>row rest. es_items g ! i = (row, n_val nd) # rest \<and> (\<forall>s \<in> set (es_items g). top_row s < row + D) \<and>
         es_items ?h = (es_items g)[i := rest]"
        using U(2) tops i nd(2) by (metis length_es_items)
      moreover have "moved 0 g l' ?h" using mv by (simp add: moved_def)
      ultimately have "es_popped c D g (n_val nd, l') ?h" using inv' by (simp add: es_popped_def)
      moreover have "at (es_array h) ?i = Some d" using i arr P(5) by simp
      ultimately show ?thesis using False nd(1) arr i by (simp add: x stack_cae_el_def mem_remove_def)
    qed
  qed
  then show ?thesis unfolding f [symmetric] by (simp add: pop_el_def)
qed

section \<open>Calls one after the other\<close>

text \<open>
  The contract of a component whose legal calls depend on the calls before: \<open>after q c\<close> is what the client knows after call \<open>c\<close>, if it
  knew \<open>q\<close> before.
\<close>

fun legal_calls :: "('q \<Rightarrow> 'c \<Rightarrow> bool) \<Rightarrow> ('q \<Rightarrow> 'c \<Rightarrow> 'q) \<Rightarrow> 'q \<Rightarrow> 'c list \<Rightarrow> bool" where
  "legal_calls legal after q [] \<longleftrightarrow> True"
| "legal_calls legal after q (c # cs) \<longleftrightarrow> legal q c \<and> legal_calls legal after (after q c) cs"

locale phased_calls =
  fixes f :: "nat \<Rightarrow> 'c \<Rightarrow> 'l \<Rightarrow> ('g, 'r \<times> 'l) prog" and I :: "nat \<Rightarrow> 'q \<Rightarrow> 'l list \<Rightarrow> 'g \<Rightarrow> bool"
    and abs :: "'g \<Rightarrow> 's" and sp :: "'c \<Rightarrow> 's \<Rightarrow> 'r \<Rightarrow> 's \<Rightarrow> bool" and legal :: "'q \<Rightarrow> 'c \<Rightarrow> bool" and after :: "'q \<Rightarrow> 'c \<Rightarrow> 'q"
  assumes phased_step: "I (Suc n) q ls g \<Longrightarrow> t < length ls \<Longrightarrow> legal q c \<Longrightarrow>
    wp (f t c (ls ! t)) (\<lambda>(r, l) g'. I n (after q c) (ls[t := l]) g' \<and> sp c (abs g) r (abs g')) g"
begin

lemma phased_returns:
  assumes "I (length cs + n) q ls g" "\<forall>(t, c) \<in> set cs. t < length ls" "legal_calls legal after q (map snd cs)"
  shows "\<exists>rs ls' g'. exec_calls f cs (ls, g) = Some (rs, ls', g') \<and> spec_run sp (map snd cs) (abs g) rs (abs g')"
  using assms
proof (induction cs arbitrary: q ls g)
  case (Cons tc cs)
  obtain t c where tc: "tc = (t, c)" by (cases tc)
  have t: "t < length ls" "legal q c" using Cons.prems(2,3) tc by simp_all
  have "wp (f t c (ls ! t)) (\<lambda>(r, l) g'. I (length cs + n) (after q c) (ls[t := l]) g' \<and> sp c (abs g) r (abs g')) g"
    using Cons.prems(1) t by (intro phased_step) simp_all
  then obtain r l g' where r: "run (f t c (ls ! t)) g = (Done (r, l), g')" "sp c (abs g) r (abs g')"
    and I: "I (length cs + n) (after q c) (ls[t := l]) g'"
    by (auto simp: wp_run)
  show ?case using Cons.IH [OF I] Cons.prems(2,3) r t tc by auto
qed simp

end

text \<open>
  The abstract stack: the width and the depth, and for every sub-stack its items, top first, each with its row. A push chooses a row above the top of
  its sub-stack and at most \<open>D\<close> below the highest row in use; a pop takes the top of a sub-stack that is less than \<open>D\<close> below the highest row.
\<close>

definition es_spec :: "nat \<Rightarrow> es_call \<Rightarrow> nat \<times> nat \<times> (nat \<times> int) list list \<Rightarrow> int \<Rightarrow> nat \<times> nat \<times> (nat \<times> int) list list \<Rightarrow> bool" where
  "es_spec D call = (\<lambda>(w, d, S) r (w', d', S').
     (case call of
        EPush key val \<Rightarrow> r = 1 \<and> w' = w \<and> d' = d \<and>
          (\<exists>i < w. \<exists>row. top_row (S ! i) < row \<and> (\<forall>s \<in> set S. top_row s \<le> row + D) \<and> S' = S[i := (row, val) # S ! i])
      | EPop \<Rightarrow> w' = w \<and> d' = d \<and>
          (r = 0 \<and> (\<forall>s \<in> set S. s = []) \<and> S' = S \<or>
           (\<exists>i < length S. \<exists>row rest. S ! i = (row, r) # rest \<and> (\<forall>s \<in> set S. top_row s < row + D) \<and> S' = S[i := rest]))
      | ESize \<Rightarrow> r = int (length (concat S)) \<and> w' = w \<and> d' = d \<and> S' = S
      | EWidth v \<Rightarrow> r = int w \<and> w' = v \<and> d' = d \<and> S' = S
      | EDepth v \<Rightarrow> r = int d \<and> w' = w \<and> d' = v \<and> S' = S))"

text \<open>Widths may only grow, up to the length of the array; depths are between 1 and \<open>D\<close>.\<close>

definition es_legal :: "es_cfg \<Rightarrow> nat \<Rightarrow> nat \<Rightarrow> es_call \<Rightarrow> bool" where
  "es_legal c D w call \<longleftrightarrow> (case call of EWidth v \<Rightarrow> w \<le> v \<and> v \<le> ec_max_width c | EDepth d \<Rightarrow> 1 \<le> d \<and> d \<le> D | _ \<Rightarrow> True)"

definition es_after :: "nat \<Rightarrow> es_call \<Rightarrow> nat" where
  "es_after w call = (case call of EWidth v \<Rightarrow> v | _ \<Rightarrow> w)"

definition es_state :: "estack \<Rightarrow> nat \<times> nat \<times> (nat \<times> int) list list" where
  "es_state g = (es_width g, es_depth g, es_items g)"

definition es_calls_inv :: "es_env \<Rightarrow> es_cfg \<Rightarrow> nat \<Rightarrow> nat \<Rightarrow> nat \<Rightarrow> nat \<Rightarrow> nat \<Rightarrow> es_tl list \<Rightarrow> estack \<Rightarrow> bool" where
  "es_calls_inv e c D K fuel n q ls g \<longleftrightarrow> alloc_fresh (env_alloc e) \<and> es_fuel c D K \<le> fuel \<and> K < 65536 \<and> es_inv c D g \<and> es_width g = q \<and>
     (\<forall>l \<in> set ls. synced_el g l) \<and> ew_version (es_window g) + bottom (es_window g) + n * (D + 1) \<le> K"

lemma moved_same: "moved n g l g' \<Longrightarrow> es_width g' = es_width g" "moved n g l g' \<Longrightarrow> es_depth g' = es_depth g"
  by (simp_all add: moved_def)

lemma calls_inv_moved:
  assumes "es_calls_inv e c D K fuel (Suc n) q ls g" "es_inv c D g'" "moved k g l g'" "k \<le> D + 1"
  shows "es_calls_inv e c D K fuel n q (ls[t := l]) g'"
proof -
  have "synced_el g' l'" if "l' \<in> set (ls[t := l])" for l'
  proof -
    have "l' = l \<or> l' \<in> set ls" using that set_update_subset_insert [of ls t l] by blast
    then show ?thesis using assms(1,3) by (auto simp: es_calls_inv_def moved_def synced_el_def)
  qed
  then show ?thesis using assms by (auto simp: es_calls_inv_def moved_def)
qed

lemma size_seq_el:
  assumes inv: "es_inv c D g" and fuel: "es_fuel c D K \<le> fuel" "bottom (es_window g) \<le> K" and K: "K < 65536"
  shows "run (stack_size_el fuel c) g = (Done (length (concat (es_items g))), g)"
proof -
  obtain ts where data: "es_data g ts" and win: "win_el c D g" using inv by (auto simp: es_inv_def)
  note D = es_dataD [OF data] and W = win_elD [OF win]
  let ?S = "subs (es_mem g) ts"
  have len: "map length ?S = map length (es_items g)" using D(2,5) by (intro nth_equalityI) simp_all
  have each: "length xs \<le> K + D" if xs: "xs \<in> set ?S" for xs
  proof -
    obtain j where j: "j < length (es_array g)" "xs = ?S ! j" using xs D(2) by (auto simp: in_set_conv_nth)
    have "length xs \<le> d_count (es_array g ! j)" using falling_length [OF D(4) [OF j(1)]] j(2) by simp
    then show ?thesis using W(15) [of j] W(1,11,19) j(1) fuel(2) by simp
  qed
  have "length (concat ?S) \<le> length ?S * (K + D)"
    using sum_list_mono [of ?S length "\<lambda>_. K + D"] each by (simp add: sum_list_triv length_concat)
  also have "\<dots> \<le> 65536 * 131072" using W(1,2,4) D(2) K by (intro mult_mono) simp_all
  finally have small: "length (concat ?S) < W64" by (simp add: W64_def)
  have "\<forall>xs \<in> set ?S. length xs < fuel" using each es_fuelD(5) [OF fuel W(8)] by fastforce
  from run_size_loop [where getm = es_mem, OF D(1) _ small this, of "\<lambda>g i. map_option d_node (at (es_array g) i)"] D(2,3) W(1)
  show ?thesis using len by (simp add: stack_size_el_def length_concat)
qed

interpretation es_calls: phased_calls "es_call fuel e c" "es_calls_inv e c D K fuel" es_state "es_spec D" "es_legal c D" es_after for fuel e c D K
proof
  fix n q ls g t call
  assume I: "es_calls_inv e c D K fuel (Suc n) q ls g" and t: "t < length ls" and legal: "es_legal c D q call"
  let ?l = "ls ! t"
  have A: "alloc_fresh (env_alloc e)" "es_fuel c D K \<le> fuel" "K < 65536" "es_inv c D g" "es_width g = q" "synced_el g ?l"
    "ew_version (es_window g) + bottom (es_window g) + n * (D + 1) + (D + 1) \<le> K"
    using I t by (auto simp: es_calls_inv_def)
  have b: "bottom (es_window g) \<le> K" "ew_version (es_window g) + bottom (es_window g) + D + 1 < 65536" using A(3,7) by linarith+
  obtain f where f: "fuel = Suc f" using es_fuelD(4) [OF A(2) le0 order.refl] by (cases fuel) auto
  have win: "win_el c D g" using A(4) by (simp add: es_inv_def)
  let ?Q = "\<lambda>(r, l) g'. es_calls_inv e c D K fuel n (es_after q call) (ls[t := l]) g' \<and> es_spec D call (es_state g) r (es_state g')"
  have keep: "es_calls_inv e c D K fuel n q' (ls[t := ?l]) g'"
    if "es_inv c D g'" "es_window g' = es_window g" "es_width g' = q'" for g' q'
    using I that t by (auto simp: es_calls_inv_def synced_el_def)
  show "wp (es_call fuel e c t call ?l) ?Q g"
  proof (cases call)
    case (EPush key val)
    show ?thesis unfolding es_call_def EPush es_call.case
      by (rule wp_mono [OF push_seq_el [OF A(4,6,1,2) b(2)]])
        (use A(5) EPush in \<open>auto simp: es_pushed_def es_spec_def es_state_def es_after_def moved_same intro: calls_inv_moved [OF I [folded A(5)]]\<close>)
  next
    case EPop
    show ?thesis unfolding es_call_def EPop es_call.case
      by (rule wp_mono [OF pop_seq_el [OF A(4,6,1,2) b(1)]])
        (use A(5) EPop in \<open>auto simp: es_popped_def es_spec_def es_state_def es_after_def moved_same intro: calls_inv_moved [OF I [folded A(5)]]\<close>)
  next
    case ESize
    have "wp (stack_size_el fuel c) (\<lambda>r g'. r = length (concat (es_items g)) \<and> g' = g) g" using size_seq_el [OF A(4,2) b(1) A(3)] by (simp add: wp_run)
    then show ?thesis unfolding es_call_def ESize es_call.case wp_bind
      by (rule wp_mono) (use keep [OF A(4) refl] A(5) in \<open>simp add: es_after_def es_spec_def es_state_def\<close>)
  next
    case (EWidth v)
    have "es_inv c D (g\<lparr>es_width := v\<rparr>)" using A(4,5) legal EWidth
      by (auto simp: es_inv_def win_el_def Let_def lat_ok_def es_data_def es_legal_def)
    then show ?thesis using keep [of "g\<lparr>es_width := v\<rparr>" v] legal EWidth f
      by (simp add: es_call_def update_width_el_def es_after_def es_spec_def es_state_def es_items_def es_legal_def)
  next
    case (EDepth v)
    have "es_inv c D (g\<lparr>es_depth := v\<rparr>)" using A(4) legal EDepth
      by (auto simp: es_inv_def win_el_def Let_def lat_ok_def es_data_def es_legal_def)
    then show ?thesis using keep [of "g\<lparr>es_depth := v\<rparr>" q] A(5) EDepth f
      by (simp add: es_call_def update_depth_el_def es_after_def es_spec_def es_state_def es_items_def)
  qed
qed

lemma create_stack_el_inv:
  assumes "create_stack_el e t nt w d mw mode bound = Some (c, g)"
    and "1 \<le> es_width g" "ec_max_width c < 65536" "1 \<le> es_depth g" "es_depth g \<le> D" "D < 65536"
  shows "es_inv c D g" "ew_version (es_window g) = 1" "bottom (es_window g) = 0" "es_items g = replicate (ec_max_width c) []"
proof -
  have ts: "stacks_ok empty_mem (replicate k (NULL, 0))" "subs empty_mem (replicate k (NULL, 0)) = replicate k []" for k
    using stacks_ok_empty by (simp_all add: subs_def)
  show "ew_version (es_window g) = 1" "bottom (es_window g) = 0" "es_items g = replicate (ec_max_width c) []"
    using assms(1) by (auto simp: create_stack_el_def Let_def initialize_global_window_el_def bottom_def es_items_def split: option.splits prod.splits)
  have "es_data g (replicate (ec_max_width c) (NULL, 0))"
    using assms(1) ts by (auto simp: create_stack_el_def Let_def es_data_def split: option.splits prod.splits)
  moreover have "win_el c D g" using assms
    by (auto simp: create_stack_el_def create_lateral_stack_def Let_def initialize_global_window_el_def win_el_def bottom_def lat_ok_def
        intro!: exI [of _ "[]"] split: option.splits prod.splits if_splits)
  ultimately show "es_inv c D g" by (auto simp: es_inv_def)
qed

section \<open>Properties\<close>

text \<open>
  C36. The elastic 2Dc stack, while its width only grows. Take the stack that \<^verbatim>\<open>create_stack\<close> returns, for a width and a depth of at least 1, and any list of calls that do not overlap, by
  threads that start with no window: pushes, pops, \<^verbatim>\<open>stack_size\<close>, \<^verbatim>\<open>update_depth\<close> with depths from 1 to \<open>D\<close>, up or down, and \<^verbatim>\<open>update_width\<close> with a width that is at least the one before and at
  most \<^verbatim>\<open>max_width\<close>; there are so few calls that the 16-bit version of the windows does not wrap. Every call returns, no assertion fails and no null pointer is followed, not in the lateral
  stack either. Every item has a row. A push puts its item on top of one of the sub-stacks, above all others there, in a row that is at most \<open>D\<close> below the highest one in use;
  a pop returns 0 only if all sub-stacks are empty, and else the top item of a sub-stack that is less than \<open>D\<close> rows below the highest one; \<^verbatim>\<open>stack_size\<close> returns the number of items; the updates return
  the old value and change nothing else.
\<close>

theorem estack_growing_refines:
  assumes "create_stack_el e t0 nt w d mw mode bound = Some (c, g0)" "alloc_fresh (env_alloc e)"
    and "1 \<le> es_width g0" "ec_max_width c < 65536" "1 \<le> es_depth g0" "es_depth g0 \<le> D"
    and "length cs * (D + 1) + 1 < 65536" "es_fuel c D (length cs * (D + 1) + 1) \<le> fuel" "D < 65536"
    and "\<forall>(t, call) \<in> set cs. t < length sds" "legal_calls (es_legal c D) es_after (es_width g0) (map snd cs)"
  shows "\<exists>rs ls' g. exec_calls (es_call fuel e c) cs (map fresh_etl sds, g0) = Some (rs, ls', g) \<and>
    spec_run (es_spec D) (map snd cs) (es_width g0, es_depth g0, replicate (ec_max_width c) []) rs (es_width g, es_depth g, es_items g)"
proof -
  note C = create_stack_el_inv [OF assms(1,3-6,9)]
  have "\<forall>l \<in> set (map fresh_etl sds). synced_el g0 l" using C(2) by (auto simp: synced_el_def fresh_etl_def)
  then have "es_calls_inv e c D (length cs * (D + 1) + 1) fuel (length cs + 0) (es_width g0) (map fresh_etl sds) g0"
    unfolding es_calls_inv_def using C assms(2,7,8) by simp
  from es_calls.phased_returns [OF this _ assms(11)] assms(10) show ?thesis by (simp add: es_state_def C(4))
qed

definition demo_env :: es_env where
  "demo_env = \<lparr>env_alloc = bump_alloc, env_padding = (\<lambda>_. 0), env_last_shift = (\<lambda>_. 0)\<rparr>"

definition demo_estack :: "nat \<Rightarrow> es_cfg \<times> estack" where
  "demo_estack mw = the (create_stack_el demo_env 0 1 2 1 mw 0 0)"

lemma demo_estack_created:
  "create_stack_el demo_env 0 1 2 1 4 0 0 = Some (fst (demo_estack 4), snd (demo_estack 4))"
  "fst (demo_estack 4) = \<lparr>ec_max_width = 4, ec_random_hops = 2, ec_bound = 2, ec_mode = 0\<rparr>" "es_width (snd (demo_estack 4)) = 2" "es_depth (snd (demo_estack 4)) = 1"
  by (simp_all add: demo_estack_def create_stack_el_def calc_params_def bound16_def Let_def create_lateral_stack_def)

theorem estack_growing_refines_witness:
  "\<exists>rs ls' g. exec_calls (es_call 250 demo_env (fst (demo_estack 4)))
     [(0, EPush 1 10), (0, EWidth 4), (1, EPush 2 20), (1, EDepth 3), (0, EPush 3 30), (1, EPop), (0, ESize), (0, EPop)]
     (map fresh_etl [(1, 2, 3), (4, 5, 6)], snd (demo_estack 4)) = Some (rs, ls', g) \<and>
   spec_run (es_spec 3) (map snd [(0 :: nat, EPush 1 10), (0, EWidth 4), (1, EPush 2 20), (1, EDepth 3), (0, EPush 3 30), (1, EPop), (0, ESize), (0, EPop)])
     (es_width (snd (demo_estack 4)), es_depth (snd (demo_estack 4)), replicate (ec_max_width (fst (demo_estack 4))) []) rs (es_width g, es_depth g, es_items g)"
  by (rule estack_growing_refines [OF demo_estack_created(1)])
    (simp_all add: demo_estack_created es_fuel_def es_legal_def es_after_def demo_env_def bump_alloc_fresh)


end
