(* ===== verification/Elastic_Lpw.thy ===== *)
theory Elastic_Lpw
  imports Elastic_Parts
begin

text \<open>
  The elastic 2Dd queue of \<^verbatim>\<open>src/2Dd-queue_elastic-lpw\<close>. The put window and the get window are two global words, each with its own depth and width
  (\<^verbatim>\<open>2Dd-window_elastic.c\<close>), and a lateral queue (\<^verbatim>\<open>lateral_queue.c\<close>) beside them has a node for every change of the width: the first row
  with the new width. A put window holds the width of the window after it, so that the node is in the list before that window is opened; a get window is
  cut off where the list has a change.

  The threads read the two words of a window one after the other and take it for unchanged if its first word is, the maximum. The padding of the structs,
  which the compare-and-exchange of a window compares too, is left out. What does not depend on the windows is in \<open>Elastic_Parts\<close>.
\<close>

section \<open>State\<close>

record width_node =
  wn_next :: ptr
  wn_count :: u64
  wn_width :: nat

record pwindow =
  pw_max :: u64
  pw_depth :: nat
  pw_width :: nat
  pw_next_width :: nat

record gwindow =
  gw_max :: u64
  gw_depth :: nat
  gw_width :: nat

text \<open>\<open>wq_used\<close> is for the allocator, and \<open>wq_freed\<close> has what \<^verbatim>\<open>free_lateral_node\<close> was given.\<close>

record lpw = elastic +
  global_PWindow :: pwindow
  global_GWindow :: gwindow
  wq_heap :: "ptr \<Rightarrow> width_node option"
  wq_used :: "ptr list"
  wq_freed :: "ptr list"
  wq_tail :: ptr
  wq_head :: ptr

record lpw_tl = elastic_tl +
  thread_PWindow :: pwindow
  thread_GWindow :: gwindow

section \<open>The lateral queue\<close>

text \<open>The count and the width of a node are never changed, its successor is.\<close>

definition wq_info :: "ptr \<Rightarrow> (lpw, width_node) prog" where
  "wq_info p = rd_opt (\<lambda>g. wq_heap g p)"

definition wq_next :: "ptr \<Rightarrow> (lpw, ptr) prog" where
  "wq_next p = rd_opt (\<lambda>g. map_option wn_next (wq_heap g p))"

definition free_lateral_node_lpw :: "ptr \<Rightarrow> (lpw, unit) prog" where
  "free_lateral_node_lpw p = wr (\<lambda>g. g\<lparr>wq_freed := p # wq_freed g\<rparr>)"

definition create_lateral_node_lpw :: "allocator \<Rightarrow> nat \<Rightarrow> u64 \<Rightarrow> nat \<Rightarrow> (lpw, ptr) prog" where
  "create_lateral_node_lpw al t c w =
     Act (\<lambda>g. g\<lparr>wq_heap := (wq_heap g)(al t (wq_used g) \<mapsto> \<lparr>wn_next = NULL, wn_count = c, wn_width = w\<rparr>), wq_used := al t (wq_used g) # wq_used g\<rparr>)
         (\<lambda>g. Ret (al t (wq_used g)))"

definition cae_wq_next :: "ptr \<Rightarrow> ptr \<Rightarrow> (lpw, bool \<times> ptr) prog" where
  "cae_wq_next p node =
     Act (\<lambda>g. case wq_heap g p of None \<Rightarrow> g
              | Some nd \<Rightarrow> if wn_next nd = NULL then g\<lparr>wq_heap := (wq_heap g)(p \<mapsto> nd\<lparr>wn_next := node\<rparr>)\<rparr> else g)
         (\<lambda>g. case wq_heap g p of None \<Rightarrow> Fault | Some nd \<Rightarrow> Ret (wn_next nd = NULL, wn_next nd))"

definition try_enq_lateral :: "allocator \<Rightarrow> nat \<Rightarrow> u64 \<Rightarrow> nat \<Rightarrow> (lpw, unit) prog" where
  "try_enq_lateral al t c w =
     pbind (rd wq_tail) (\<lambda>read_tail.
     pbind (wq_info read_tail) (\<lambda>nd.
     if wn_count nd < c then
       pbind (wq_next read_tail) (\<lambda>next_tail.
       pbind (if next_tail = NULL then
                pbind (create_lateral_node_lpw al t c w) (\<lambda>new_node.
                pbind (cae_wq_next read_tail new_node) (\<lambda>(success, found).
                if success then Ret new_node
                else pbind (free_lateral_node_lpw new_node) (\<lambda>_. Ret found)))
              else Ret next_tail) (\<lambda>next_tail.
       pbind (assert (next_tail \<noteq> NULL)) (\<lambda>_.
       pbind (cae wq_tail (\<lambda>p g. g\<lparr>wq_tail := p\<rparr>) read_tail next_tail) (\<lambda>_. Ret ()))))
     else Ret ()))"

definition maybe_enq_lateral :: "allocator \<Rightarrow> nat \<Rightarrow> u64 \<Rightarrow> nat \<Rightarrow> nat \<Rightarrow> (lpw, unit) prog" where
  "maybe_enq_lateral al t window_max w next_width =
     (if w \<noteq> next_width then try_enq_lateral al t (add64 window_max 1) next_width else Ret ())"

text \<open>The loop of \<^verbatim>\<open>get_next_window_lateral\<close>, and of \<^verbatim>\<open>deq_lateral\<close>: to the last node whose count is at most \<open>limit\<close>, and to its successor.\<close>

fun wq_walk :: "nat \<Rightarrow> u64 \<Rightarrow> ptr \<Rightarrow> ptr \<Rightarrow> (lpw, ptr \<times> ptr) prog" where
  "wq_walk 0 limit current_node lookahead = NoFuel"
| "wq_walk (Suc n) limit current_node lookahead =
     (if lookahead = NULL then Ret (current_node, lookahead)
      else
        pbind (wq_info lookahead) (\<lambda>nd.
        if wn_count nd \<le> limit then pbind (wq_next lookahead) (\<lambda>nxt. wq_walk n limit lookahead nxt)
        else Ret (current_node, lookahead)))"

text \<open>The result is the width and the maximum of the next get window.\<close>

definition get_next_window_lateral :: "nat \<Rightarrow> u64 \<Rightarrow> u64 \<Rightarrow> (lpw, nat \<times> u64) prog" where
  "get_next_window_lateral fuel prev_max next_max =
     pbind (rd wq_head) (\<lambda>current_node.
     pbind (wq_next current_node) (\<lambda>lookahead.
     pbind (wq_info current_node) (\<lambda>nd.
     pbind (assert (wn_count nd \<le> next_max)) (\<lambda>_.
     pbind (wq_walk fuel (add64 prev_max 1) current_node lookahead) (\<lambda>(current_node, lookahead).
     pbind (if lookahead = NULL then Ret next_max
            else pbind (wq_info lookahead) (\<lambda>nd. Ret (if wn_count nd \<le> next_max then sub64 (wn_count nd) 1 else next_max))) (\<lambda>next_max.
     pbind (wq_info current_node) (\<lambda>nd.
     pbind (assert (wn_width nd \<noteq> 0)) (\<lambda>_.
     Ret (wn_width nd, next_max)))))))))"

definition deq_lateral :: "nat \<Rightarrow> u64 \<Rightarrow> (lpw, unit) prog" where
  "deq_lateral fuel mx =
     pbind (rd wq_head) (\<lambda>read_head.
     pbind (wq_next read_head) (\<lambda>probe.
     pbind (wq_walk fuel mx read_head probe) (\<lambda>(new_head, probe).
     if read_head \<noteq> new_head then pbind (cae wq_head (\<lambda>p g. g\<lparr>wq_head := p\<rparr>) read_head new_head) (\<lambda>_. Ret ()) else Ret ())))"

definition create_lateral_queue_lpw :: "allocator \<Rightarrow> nat \<Rightarrow> nat \<Rightarrow> (ptr \<Rightarrow> width_node option) \<times> ptr" where
  "create_lateral_queue_lpw al t w = (let node = al t [] in ([node \<mapsto> \<lparr>wn_next = NULL, wn_count = 0, wn_width = w\<rparr>], node))"

section \<open>The windows\<close>

text \<open>The second word of a window is read after the first one, \<open>mx\<close>.\<close>

definition read_pwindow :: "u64 \<Rightarrow> lpw_tl \<Rightarrow> (lpw, lpw_tl) prog" where
  "read_pwindow mx l =
     pbind (rd (\<lambda>g. (pw_depth (global_PWindow g), pw_width (global_PWindow g), pw_next_width (global_PWindow g)))) (\<lambda>(d, w, nw).
     Ret (l\<lparr>thread_PWindow := \<lparr>pw_max = mx, pw_depth = d, pw_width = w, pw_next_width = nw\<rparr>\<rparr>))"

definition read_gwindow :: "u64 \<Rightarrow> lpw_tl \<Rightarrow> (lpw, lpw_tl) prog" where
  "read_gwindow mx l =
     pbind (rd (\<lambda>g. (gw_depth (global_GWindow g), gw_width (global_GWindow g)))) (\<lambda>(d, w).
     Ret (l\<lparr>thread_GWindow := \<lparr>gw_max = mx, gw_depth = d, gw_width = w\<rparr>\<rparr>))"

text \<open>Both loops set an index that the window does not have to 0.\<close>

definition clip_put :: "lpw_tl \<Rightarrow> lpw_tl" where
  "clip_put l = (if thread_put_index l \<ge> pw_width (thread_PWindow l) then l\<lparr>thread_put_index := 0\<rparr> else l)"

definition clip_get :: "lpw_tl \<Rightarrow> lpw_tl" where
  "clip_get l = (if thread_get_index l \<ge> gw_width (thread_GWindow l) then l\<lparr>thread_get_index := 0\<rparr> else l)"

definition put_depth :: "(lpw, nat) prog" where
  "put_depth = rd cur_depth"

definition get_shift_max_lpw :: "lpw_tl \<Rightarrow> (lpw, u64) prog" where
  "get_shift_max_lpw l =
     pbind (rd cur_depth) (\<lambda>d.
     let mx = add64 (gw_max (thread_GWindow l)) d
     in if mx > pw_max (thread_PWindow l) then rd (\<lambda>g. pw_max (global_PWindow g))
        else
          pbind (rd (\<lambda>g. pw_max (global_PWindow g))) (\<lambda>pm.
          if mx > pm then rd (\<lambda>g. pw_max (global_PWindow g)) else Ret mx))"

text \<open>The part of \<^verbatim>\<open>put_window\<close> that opens a window.\<close>

definition shift_pwindow :: "allocator \<Rightarrow> nat \<Rightarrow> lpw_tl \<Rightarrow> (lpw, lpw_tl) prog" where
  "shift_pwindow al t l =
     pbind (rd (\<lambda>g. pw_max (global_PWindow g))) (\<lambda>gm.
     if pw_max (thread_PWindow l) = gm then
       pbind (maybe_enq_lateral al t (pw_max (thread_PWindow l)) (pw_width (thread_PWindow l)) (pw_next_width (thread_PWindow l))) (\<lambda>_.
       pbind put_depth (\<lambda>d.
       pbind (rd cur_width) (\<lambda>w.
       let new_window = \<lparr>pw_max = add64 (pw_max (thread_PWindow l)) d, pw_depth = d, pw_width = pw_next_width (thread_PWindow l), pw_next_width = w\<rparr>
       in pbind (cae global_PWindow (\<lambda>w g. g\<lparr>global_PWindow := w\<rparr>) (thread_PWindow l) new_window) (\<lambda>(success, found).
          Ret (if success then l\<lparr>my_slide_count := add64 (my_slide_count l) 1, thread_PWindow := new_window\<rparr> else l\<lparr>thread_PWindow := found\<rparr>)))))
     else Ret l)"

fun put_window_loop_lpw :: "nat \<Rightarrow> allocator \<Rightarrow> elastic_cfg \<Rightarrow> nat \<Rightarrow> lpw_tl \<Rightarrow> nat \<Rightarrow> nat \<Rightarrow> (lpw, qdescriptor2Dd \<times> lpw_tl) prog" where
  "put_window_loop_lpw 0 al cfg t l hops random = NoFuel"
| "put_window_loop_lpw (Suc n) al cfg t l hops random =
     pbind (load_desc_elastic sub_put (thread_put_index l)) (\<lambda>descriptor.
     pbind (rd (\<lambda>g. pw_max (global_PWindow g))) (\<lambda>window_word1.
     if pw_max (thread_PWindow l) \<noteq> window_word1 then
       pbind (read_pwindow window_word1 l) (\<lambda>l. put_window_loop_lpw n al cfg t (clip_put l) 0 random)
     else if qd_count descriptor < pw_max (thread_PWindow l) then
       pbind (assert (thread_put_index l < pw_width (thread_PWindow l))) (\<lambda>_.
       Ret (descriptor, if gw_width (thread_GWindow l) = pw_width (thread_PWindow l) then l\<lparr>thread_get_index := thread_put_index l\<rparr> else l))
     else if hops < pw_width (thread_PWindow l) then
       pbind (hop_elastic cfg l (thread_put_index l) random hops (pw_width (thread_PWindow l))) (\<lambda>(index, random, hops, l).
       put_window_loop_lpw n al cfg t (l\<lparr>thread_put_index := index\<rparr>) hops random)
     else pbind (shift_pwindow al t l) (\<lambda>l. put_window_loop_lpw n al cfg t (clip_put l) 0 random)))"

definition put_window_lpw :: "nat \<Rightarrow> allocator \<Rightarrow> elastic_cfg \<Rightarrow> nat \<Rightarrow> lpw_tl \<Rightarrow> bool \<Rightarrow> (lpw, qdescriptor2Dd \<times> lpw_tl) prog" where
  "put_window_lpw fuel al cfg t l contention =
     pbind (rd (\<lambda>g. pw_max (global_PWindow g))) (\<lambda>window_word1.
     pbind (if pw_max (thread_PWindow l) \<noteq> window_word1 then
              pbind (read_pwindow window_word1 l) (\<lambda>l.
              pbind (assert (pw_depth (thread_PWindow l) \<noteq> 0)) (\<lambda>_. Ret l))
            else Ret l) (\<lambda>l.
     pbind (if contention \<or> thread_put_index l \<ge> pw_width (thread_PWindow l)
            then pbind (random_mod (pw_width (thread_PWindow l)) l) (\<lambda>(i, l). Ret (l\<lparr>thread_put_index := i\<rparr>))
            else Ret l) (\<lambda>l.
     put_window_loop_lpw fuel al cfg t l 0 0)))"

text \<open>The part of \<^verbatim>\<open>get_window\<close> that moves the window.\<close>

definition shift_gwindow :: "nat \<Rightarrow> lpw_tl \<Rightarrow> (lpw, lpw_tl) prog" where
  "shift_gwindow fuel l =
     pbind (get_shift_max_lpw l) (\<lambda>mx.
     pbind (get_next_window_lateral fuel (gw_max (thread_GWindow l)) mx) (\<lambda>(w, mx).
     let new_window = \<lparr>gw_max = mx, gw_depth = sub64 mx (gw_max (thread_GWindow l)) mod 65536, gw_width = w\<rparr>
     in pbind (rd (\<lambda>g. gw_max (global_GWindow g))) (\<lambda>gm.
        if gw_max (thread_GWindow l) = gm then
          pbind (assert (mx \<ge> gw_max (thread_GWindow l))) (\<lambda>_.
          pbind (cae global_GWindow (\<lambda>w g. g\<lparr>global_GWindow := w\<rparr>) (thread_GWindow l) new_window) (\<lambda>(success, found).
          if success then
            pbind (deq_lateral fuel mx) (\<lambda>_. Ret (l\<lparr>my_slide_count := add64 (my_slide_count l) 1, thread_GWindow := new_window\<rparr>))
          else Ret (l\<lparr>thread_GWindow := found\<rparr>)))
        else Ret l)))"

text \<open>The end of \<^verbatim>\<open>get_window\<close>, reached by every \<^verbatim>\<open>break\<close>.\<close>

definition get_exit_lpw :: "qdescriptor2Dd \<Rightarrow> lpw_tl \<Rightarrow> (lpw, qdescriptor2Dd \<times> lpw_tl) prog" where
  "get_exit_lpw descriptor l =
     Ret (descriptor, if gw_width (thread_GWindow l) = pw_width (thread_PWindow l) then l\<lparr>thread_put_index := thread_get_index l\<rparr> else l)"

fun get_window_loop_lpw :: "nat \<Rightarrow> nat \<Rightarrow> elastic_cfg \<Rightarrow> u64 \<Rightarrow> lpw_tl \<Rightarrow> nat \<Rightarrow> nat \<Rightarrow> bool \<Rightarrow> (lpw, qdescriptor2Dd \<times> lpw_tl) prog" where
  "get_window_loop_lpw 0 fuel cfg put_count_lower_bound l hops random notempty = NoFuel"
| "get_window_loop_lpw (Suc n) fuel cfg put_count_lower_bound l hops random notempty =
     pbind (load_desc_elastic sub_get (thread_get_index l)) (\<lambda>descriptor.
     pbind (if put_count_lower_bound \<ge> qd_count descriptor then Ret put_count_lower_bound else load_count_elastic (thread_get_index l)) (\<lambda>put_count.
     pbind (rd (\<lambda>g. gw_max (global_GWindow g))) (\<lambda>window_word1.
     if gw_max (thread_GWindow l) \<noteq> window_word1 then
       pbind (read_gwindow window_word1 l) (\<lambda>l. get_window_loop_lpw n fuel cfg put_count_lower_bound (clip_get l) 0 random False)
     else if qd_count descriptor < gw_max (thread_GWindow l) \<and> qd_count descriptor < put_count then get_exit_lpw descriptor l
     else if hops \<noteq> gw_width (thread_GWindow l) then
       let notempty = (notempty \<or> qd_count descriptor < put_count)
       in pbind (hop_elastic cfg l (thread_get_index l) random hops (gw_width (thread_GWindow l))) (\<lambda>(index, random, hops, l).
          get_window_loop_lpw n fuel cfg put_count_lower_bound (l\<lparr>thread_get_index := index\<rparr>) hops random notempty)
     else
       pbind (if notempty then Ret True else pbind (rd (\<lambda>g. pw_max (global_PWindow g))) (\<lambda>pm. Ret (gw_max (thread_GWindow l) \<noteq> pm))) (\<lambda>shift.
       if shift then
         pbind (shift_gwindow fuel l) (\<lambda>l. get_window_loop_lpw n fuel cfg put_count_lower_bound (clip_get l) 0 random False)
       else get_exit_lpw descriptor l))))"

definition get_window_lpw :: "nat \<Rightarrow> elastic_cfg \<Rightarrow> lpw_tl \<Rightarrow> bool \<Rightarrow> (lpw, qdescriptor2Dd \<times> lpw_tl) prog" where
  "get_window_lpw fuel cfg l contention =
     pbind (if contention then pbind (random_mod (gw_width (thread_GWindow l)) l) (\<lambda>(i, l). Ret (l\<lparr>thread_get_index := i\<rparr>)) else Ret l) (\<lambda>l.
     pbind (rd (\<lambda>g. gw_max (global_GWindow g))) (\<lambda>window_word1.
     pbind (if gw_max (thread_GWindow l) \<noteq> window_word1 then pbind (read_gwindow window_word1 l) (\<lambda>l. Ret (clip_get l)) else Ret l) (\<lambda>l.
     get_window_loop_lpw fuel fuel cfg (sub64 (pw_max (thread_PWindow l)) (pw_depth (thread_PWindow l))) l 0 0 False)))"

definition initialize_global_window_lpw :: "nat \<Rightarrow> nat \<Rightarrow> (pwindow \<times> gwindow) option" where
  "initialize_global_window_lpw d w =
     (if d \<noteq> 0 then Some (\<lparr>pw_max = d, pw_depth = d, pw_width = w, pw_next_width = w\<rparr>, \<lparr>gw_max = d, gw_depth = d, gw_width = w\<rparr>) else None)"

section \<open>The queue\<close>

text \<open>The row of the next item above row \<open>c\<close> in a window: the first of the window if \<open>c\<close> is below it.\<close>

definition row_above_lpw :: "u64 \<Rightarrow> u64 \<Rightarrow> u64" where
  "row_above_lpw c low = (if c \<ge> low then add64 c 1 else add64 low 1)"

fun enqueue_loop_lpw :: "nat \<Rightarrow> nat \<Rightarrow> allocator \<Rightarrow> elastic_cfg \<Rightarrow> nat \<Rightarrow> ptr \<Rightarrow> lpw_tl \<Rightarrow> bool \<Rightarrow> (lpw, int \<times> lpw_tl) prog" where
  "enqueue_loop_lpw 0 fuel al cfg t new_node l contention = NoFuel"
| "enqueue_loop_lpw (Suc n) fuel al cfg t new_node l contention =
     pbind (put_window_lpw fuel al cfg t l contention) (\<lambda>(descriptor, l).
     pbind (assert (pw_max (thread_PWindow l) \<ge> gw_max (thread_GWindow l))) (\<lambda>_.
     pbind (assert (qd_count descriptor < pw_max (thread_PWindow l))) (\<lambda>_.
     let tail = qd_node descriptor;
         new_count = row_above_lpw (qd_count descriptor) (sub64 (pw_max (thread_PWindow l)) (pw_depth (thread_PWindow l)));
         fail_l = l\<lparr>my_put_cas_fail_count := add64 (my_put_cas_fail_count l) 1\<rparr>
     in pbind (load_count_elastic (thread_put_index l)) (\<lambda>count.
        if count \<ge> pw_max (thread_PWindow l) then enqueue_loop_lpw n fuel al cfg t new_node l contention
        else
          pbind (load_next_elastic tail) (\<lambda>nxt.
          if nxt = NULL then
            pbind (enq_cae_elastic (thread_put_index l) tail new_node) (\<lambda>success.
            if success then
              pbind (assert (thread_put_index l \<le> pw_width (thread_PWindow l))) (\<lambda>_.
              pbind (put_cae_elastic (thread_put_index l) descriptor \<lparr>qd_node = new_node, qd_count = new_count\<rparr>) (\<lambda>_. Ret (1, l)))
            else enqueue_loop_lpw n fuel al cfg t new_node fail_l True)
          else
            pbind (load_next_elastic tail) (\<lambda>nxt.
            pbind (put_cae_elastic (thread_put_index l) descriptor \<lparr>qd_node = nxt, qd_count = new_count\<rparr>) (\<lambda>success.
            if \<not> success then enqueue_loop_lpw n fuel al cfg t new_node fail_l True
            else
              pbind (assert (new_count \<le> pw_max (thread_PWindow l))) (\<lambda>_.
              enqueue_loop_lpw n fuel al cfg t new_node fail_l contention))))))))"

definition enqueue_lpw :: "allocator \<Rightarrow> nat \<Rightarrow> elastic_cfg \<Rightarrow> nat \<Rightarrow> int \<Rightarrow> int \<Rightarrow> lpw_tl \<Rightarrow> (lpw, int \<times> lpw_tl) prog" where
  "enqueue_lpw al fuel cfg t key val l =
     pbind (create_node_elastic al t key val NULL) (\<lambda>new_node. enqueue_loop_lpw fuel fuel al cfg t new_node l False)"

text \<open>The part of \<^verbatim>\<open>dequeue\<close> at the label \<^verbatim>\<open>non_overlap\<close>.\<close>

definition non_overlap :: "nat \<Rightarrow> qdescriptor2Dd \<Rightarrow> lpw_tl \<Rightarrow> (lpw_tl \<Rightarrow> (lpw, int \<times> lpw_tl) prog) \<Rightarrow> (lpw, int \<times> lpw_tl) prog" where
  "non_overlap t deq_descriptor l retry =
     (let head = qd_node deq_descriptor
      in pbind (load_next_elastic head) (\<lambda>nxt.
         let count = add64 (qd_count deq_descriptor) 1;
             mn = add64 (sub64 (gw_max (thread_GWindow l)) (gw_depth (thread_GWindow l))) 1;
             new_count = (if count < mn then mn else count)
         in pbind (deq_cae_elastic (thread_get_index l) deq_descriptor \<lparr>qd_node = nxt, qd_count = new_count\<rparr> (qm_take t head nxt)) (\<lambda>success.
            if success then
              pbind (free_node_elastic t head) (\<lambda>_.
              pbind (load_val_elastic nxt) (\<lambda>val. Ret (val, l)))
            else retry (l\<lparr>my_get_cas_fail_count := add64 (my_get_cas_fail_count l) 1\<rparr>))))"

fun dequeue_loop_lpw :: "nat \<Rightarrow> nat \<Rightarrow> elastic_cfg \<Rightarrow> nat \<Rightarrow> lpw_tl \<Rightarrow> bool \<Rightarrow> (lpw, int \<times> lpw_tl) prog" where
  "dequeue_loop_lpw 0 fuel cfg t l contention = NoFuel"
| "dequeue_loop_lpw (Suc n) fuel cfg t l contention =
     pbind (get_window_lpw fuel cfg l contention) (\<lambda>(deq_descriptor, l).
     let head = qd_node deq_descriptor;
         again = (\<lambda>l. dequeue_loop_lpw n fuel cfg t l True)
     in if sub64 (pw_max (thread_PWindow l)) (pw_depth (thread_PWindow l)) < gw_max (thread_GWindow l) then
          pbind (load_desc_elastic sub_put (thread_get_index l)) (\<lambda>enq_descriptor.
          let tail = qd_node enq_descriptor
          in if head = tail then
               pbind (load_next_elastic head) (\<lambda>nxt.
               if nxt = NULL then Ret (0, l\<lparr>my_null_count := add64 (my_null_count l) 1\<rparr>)
               else
                 pbind (load_next_elastic tail) (\<lambda>nxt.
                 pbind (rd (\<lambda>g. pw_max (global_PWindow g))) (\<lambda>mx.
                 pbind (rd (\<lambda>g. pw_depth (global_PWindow g))) (\<lambda>d.
                 pbind (put_cae_elastic (thread_get_index l) enq_descriptor
                          \<lparr>qd_node = nxt, qd_count = row_above_lpw (qd_count enq_descriptor) (sub64 mx d)\<rparr>) (\<lambda>success.
                 dequeue_loop_lpw n fuel cfg t l (contention \<or> \<not> success))))))
             else non_overlap t deq_descriptor l again)
        else non_overlap t deq_descriptor l again)"

definition dequeue_lpw :: "nat \<Rightarrow> elastic_cfg \<Rightarrow> nat \<Rightarrow> lpw_tl \<Rightarrow> (lpw, int \<times> lpw_tl) prog" where
  "dequeue_lpw fuel cfg t l =
     pbind (rd (\<lambda>g. pw_max (global_PWindow g))) (\<lambda>mx.
     pbind (read_pwindow mx l) (\<lambda>l. dequeue_loop_lpw fuel fuel cfg t l False))"

text \<open>\<^verbatim>\<open>queue_size\<close>, \<^verbatim>\<open>update_depth\<close>, \<^verbatim>\<open>update_width\<close>, \<^verbatim>\<open>get_depth\<close> and \<^verbatim>\<open>get_width\<close> are, to the letter, those of the other queue.\<close>

definition queue_size_lpw :: "nat \<Rightarrow> elastic_cfg \<Rightarrow> (lpw, u64) prog" where
  "queue_size_lpw fuel cfg = queue_size_elastic fuel cfg"

definition update_depth_lpw :: "nat \<Rightarrow> (lpw, nat) prog" where
  "update_depth_lpw d = update_depth_elastic d"

definition update_width_lpw :: "nat \<Rightarrow> (lpw, nat) prog" where
  "update_width_lpw w = update_width_elastic w"

definition get_depth_lpw :: "(lpw, nat) prog" where
  "get_depth_lpw = get_depth_elastic"

definition get_width_lpw :: "(lpw, nat) prog" where
  "get_width_lpw = get_width_elastic"

definition get_put_width_lpw :: "lpw_tl \<Rightarrow> nat" where
  "get_put_width_lpw l = pw_width (thread_PWindow l)"

definition get_get_width_lpw :: "lpw_tl \<Rightarrow> nat" where
  "get_get_width_lpw l = gw_width (thread_GWindow l)"

definition create_queue_lpw ::
  "allocator \<Rightarrow> nat \<Rightarrow> mnode \<Rightarrow> u64 \<Rightarrow> nat \<Rightarrow> nat \<Rightarrow> nat \<Rightarrow> nat \<Rightarrow> u64 \<Rightarrow> (elastic_cfg \<times> lpw) option" where
  "create_queue_lpw al t junk num_threads w d mw mode bound =
     (case calc_params 1 keep16 keep16 (bound16 1) mode num_threads w d bound of
        None \<Rightarrow> None
      | Some (w, d, bound) \<Rightarrow>
          let mw = (if mw < w then w else mw);
              m = add_sentinels al t junk mw;
              arr = map (\<lambda>q. \<lparr>qd_node = hd q, qd_count = 0\<rparr>) (links m);
              (h, node) = create_lateral_queue_lpw al t w
          in case initialize_global_window_lpw d w of
               None \<Rightarrow> None
             | Some (pw, gw) \<Rightarrow>
                 Some (\<lparr>elastic_hops = 2, max_width = mw, elastic_bound = bound, elastic_mode = mode\<rparr>,
                       \<lparr>sub_get = arr, sub_put = arr, cur_depth = d, cur_width = w, sub_mem = m, global_PWindow = pw, global_GWindow = gw,
                        wq_heap = h, wq_used = [node], wq_freed = [], wq_tail = node, wq_head = node\<rparr>))"

text \<open>A thread before its first call: its windows are static and start as 0.\<close>

definition fresh_lpw :: "seeds \<Rightarrow> lpw_tl" where
  "fresh_lpw sd = \<lparr>seeds = sd, my_put_cas_fail_count = 0, my_get_cas_fail_count = 0, my_null_count = 0,
     my_hop_count = 0, my_slide_count = 0, my_slide_fail_count = 0, thread_put_index = 0, thread_get_index = 0,
     thread_PWindow = \<lparr>pw_max = 0, pw_depth = 0, pw_width = 0, pw_next_width = 0\<rparr>, thread_GWindow = \<lparr>gw_max = 0, gw_depth = 0, gw_width = 0\<rparr>\<rparr>"

definition lpw_call :: "allocator \<Rightarrow> nat \<Rightarrow> elastic_cfg \<Rightarrow> nat \<Rightarrow> elastic_call \<Rightarrow> lpw_tl \<Rightarrow> (lpw, int \<times> lpw_tl) prog" where
  "lpw_call al fuel cfg t c l =
     (case c of
        LEnq key val \<Rightarrow> enqueue_lpw al fuel cfg t key val l
      | LDeq \<Rightarrow> dequeue_lpw fuel cfg t l
      | LSize \<Rightarrow> pbind (queue_size_lpw fuel cfg) (\<lambda>r. Ret (int r, l))
      | SetWidth w \<Rightarrow> pbind (update_width_lpw w) (\<lambda>r. Ret (int r, l))
      | SetDepth d \<Rightarrow> pbind (update_depth_lpw d) (\<lambda>r. Ret (int r, l))
      | GetWidth \<Rightarrow> pbind get_width_lpw (\<lambda>r. Ret (int r, l))
      | GetDepth \<Rightarrow> pbind get_depth_lpw (\<lambda>r. Ret (int r, l)))"

lemmas lpw_unfold [prog_unfold] =
  wq_info_def wq_next_def free_lateral_node_lpw_def create_lateral_node_lpw_def cae_wq_next_def try_enq_lateral_def maybe_enq_lateral_def
  get_next_window_lateral_def deq_lateral_def read_pwindow_def read_gwindow_def clip_put_def clip_get_def put_depth_def get_shift_max_lpw_def
  shift_pwindow_def put_window_lpw_def shift_gwindow_def get_exit_lpw_def get_window_lpw_def row_above_lpw_def enqueue_lpw_def non_overlap_def
  dequeue_lpw_def queue_size_lpw_def update_depth_lpw_def update_width_lpw_def lpw_call_def fresh_lpw_def
  wq_walk.simps(2) [of "pred_numeral k" for k, folded numeral_eq_Suc]
  put_window_loop_lpw.simps(2) [of "pred_numeral k" for k, folded numeral_eq_Suc]
  get_window_loop_lpw.simps(2) [of "pred_numeral k" for k, folded numeral_eq_Suc]
  enqueue_loop_lpw.simps(2) [of "pred_numeral k" for k, folded numeral_eq_Suc]
  dequeue_loop_lpw.simps(2) [of "pred_numeral k" for k, folded numeral_eq_Suc]

end
