(* ===== verification/Elastic_Lpw_Seq.thy ===== *)
theory Elastic_Lpw_Seq
  imports Elastic_Lpw
begin

text \<open>
  The elastic queue with a lateral queue beside its windows, for calls that do not overlap and while the depth stays as it was when the queue was created. Then
  every get window has the rows of a put window, and the queue refines the abstract elastic queue of \<open>Elastic_Queue\<close> but for one thing: a
  dequeue that works in the put window may return 0 because the one sub-queue it looked at is empty.
\<close>

section \<open>The changes of the width\<close>

text \<open>The windows below \<open>m\<close> after which the width changes, and the nodes of the lateral queue for the windows \<open>W\<close>: first row and width.\<close>

definition changes :: "ewin list \<Rightarrow> nat \<Rightarrow> nat list" where
  "changes W m = filter (\<lambda>k. ew_width (W ! (k + 1)) \<noteq> ew_width (W ! k)) [1 ..< m]"

definition laterals :: "ewin list \<Rightarrow> (nat \<times> nat) list" where
  "laterals W = (0, ew_width (W ! 1)) # map (\<lambda>k. (ew_max (W ! k) + 1, ew_width (W ! (k + 1)))) (changes W (length W - 1))"

lemma changes_Suc:
  "1 \<le> m \<Longrightarrow> changes W (m + 1) = changes W m @ (if ew_width (W ! (m + 1)) \<noteq> ew_width (W ! m) then [m] else [])"
proof -
  assume "1 \<le> m"
  then have "[1 ..< m + 1] = [1 ..< m] @ [m]" by (simp flip: Suc_eq_plus1)
  then show ?thesis by (simp add: changes_def)
qed

lemma changes_split: "m \<le> m' \<Longrightarrow> \<exists>ks. changes W m' = changes W m @ ks \<and> (\<forall>k \<in> set ks. m \<le> k \<and> k < m')"
proof (induction m' rule: nat_induct_at_least [of m])
  case (Suc n)
  then obtain ks where ks: "changes W n = changes W m @ ks" "\<forall>k \<in> set ks. m \<le> k \<and> k < n" by blast
  show ?case
  proof (cases "n = 0")
    case True
    then show ?thesis using Suc by (simp add: changes_def)
  next
    case False
    then have "changes W (Suc n) = changes W m @ (ks @ (if ew_width (W ! (n + 1)) \<noteq> ew_width (W ! n) then [n] else []))"
      using changes_Suc [of n W] ks(1) by (simp add: Suc_eq_plus1)
    then show ?thesis using ks(2) Suc.hyps by (intro exI conjI) (auto simp: less_Suc_eq)
  qed
qed simp

lemma changes_append: "m < length W \<Longrightarrow> changes (W @ xs) m = changes W m"
  unfolding changes_def by (rule filter_cong) (auto simp: nth_append)

lemma laterals_append:
  assumes "2 \<le> length W"
  shows "laterals (W @ [x]) = laterals W @ (if ew_width x \<noteq> ew_width (last W) then [(ew_max (last W) + 1, ew_width x)] else [])"
proof -
  let ?L = "length W"
  have l: "last W = W ! (?L - 1)" using assms by (intro last_conv_nth) auto
  have e: "length (W @ [x]) - 1 = (?L - 1) + 1" "1 \<le> ?L - 1" "?L - 1 < ?L" "?L - 1 + 1 = ?L" using assms by simp_all
  have m: "map (\<lambda>k. (ew_max ((W @ [x]) ! k) + 1, ew_width ((W @ [x]) ! (k + 1)))) (changes W (?L - 1)) =
    map (\<lambda>k. (ew_max (W ! k) + 1, ew_width (W ! (k + 1)))) (changes W (?L - 1))"
    by (rule map_cong) (auto simp: changes_def nth_append)
  have nths: "(W @ [x]) ! 1 = W ! 1" "(W @ [x]) ! (?L - 1) = last W" "(W @ [x]) ! (?L - 1 + 1) = x"
    unfolding e(4) l using assms e(3) by (simp_all add: nth_append)
  show ?thesis unfolding laterals_def e(1) changes_Suc [OF e(2)] changes_append [OF e(3)] map_append m
    using nths by simp
qed

text \<open>The node for window \<open>m\<close> is the one after the changes below \<open>m\<close>: it has the width of the window.\<close>

lemma lateral_nth:
  assumes "k < length (changes W (length W - 1))"
  shows "laterals W ! (k + 1) = (ew_max (W ! (changes W (length W - 1) ! k)) + 1, ew_width (W ! (changes W (length W - 1) ! k + 1)))"
  using assms by (simp add: laterals_def)

lemma length_laterals: "length (laterals W) = length (changes W (length W - 1)) + 1"
  by (simp add: laterals_def)

lemma lateral_width:
  assumes "1 \<le> m" "m < length W"
  shows "length (changes W m) < length (laterals W) \<and> snd (laterals W ! length (changes W m)) = ew_width (W ! m)"
  using assms
proof (induction m rule: nat_induct_at_least)
  case base
  then show ?case by (simp add: laterals_def changes_def)
next
  case (Suc m)
  let ?cs = "changes W (length W - 1)"
  have m: "m < length W" "Suc m = m + 1" using Suc.prems by simp_all
  show ?case
  proof (cases "ew_width (W ! (m + 1)) = ew_width (W ! m)")
    case True
    then show ?thesis unfolding m(2) using Suc.IH [OF m(1)] changes_Suc [OF Suc.hyps, of W] by simp
  next
    case False
    then have e: "changes W (m + 1) = changes W m @ [m]" using changes_Suc [OF Suc.hyps, of W] by simp
    have "m + 1 \<le> length W - 1" using Suc.prems by simp
    from changes_split [OF this, of W] obtain ks where ks: "?cs = changes W m @ [m] @ ks" using e by auto
    then have "length (changes W m) < length ?cs" "?cs ! length (changes W m) = m" by (simp_all add: nth_append)
    then show ?thesis unfolding m(2) using lateral_nth [of "length (changes W m)" W] e by (simp add: length_laterals Suc_eq_plus1)
  qed
qed

text \<open>And it is the last one whose row is in the window or below it.\<close>

lemma lateral_count:
  assumes W: "wins_ok n W" and m: "1 \<le> m" "m < length W"
  shows "k \<le> length (changes W m) \<Longrightarrow> fst (laterals W ! k) \<le> ew_max (W ! (m - 1)) + 1"
    "k < length (laterals W) \<Longrightarrow> length (changes W m) < k \<Longrightarrow> ew_max (W ! m) < fst (laterals W ! k)"
proof -
  let ?cs = "changes W (length W - 1)"
  have "m \<le> length W - 1" using m(2) by simp
  from changes_split [OF this, of W] obtain ks where ks: "?cs = changes W m @ ks" "\<forall>k \<in> set ks. m \<le> k \<and> k < length W - 1" by blast
  show "fst (laterals W ! k) \<le> ew_max (W ! (m - 1)) + 1" if k: "k \<le> length (changes W m)"
  proof (cases k)
    case (Suc j)
    have j: "j < length (changes W m)" "j < length ?cs" using k Suc ks(1) by simp_all
    have "changes W m ! j \<in> set (changes W m)" using j(1) by simp
    then have "changes W m ! j \<le> m - 1" "m - 1 < length W" using m by (auto simp: changes_def)
    then have "ew_max (W ! (changes W m ! j)) \<le> ew_max (W ! (m - 1))" by (rule wins_mono_le [OF W])
    then show ?thesis using lateral_nth [OF j(2)] Suc ks(1) j(1) by (simp add: nth_append Suc_eq_plus1)
  qed (simp add: laterals_def)
  show "ew_max (W ! m) < fst (laterals W ! k)" if k: "k < length (laterals W)" "length (changes W m) < k"
  proof -
    obtain j where j: "k = j + 1" "length (changes W m) \<le> j" "j < length ?cs"
      using k length_laterals [of W] by (cases k) (auto simp: Suc_eq_plus1)
    have "?cs ! j \<in> set ks" using j ks(1) by (auto simp: nth_append)
    then have "m \<le> ?cs ! j" "?cs ! j < length W" using ks(2) by fastforce+
    then have "ew_max (W ! m) \<le> ew_max (W ! (?cs ! j))" by (rule wins_mono_le [OF W])
    then show ?thesis using lateral_nth [OF j(3)] j(1) by simp
  qed
qed

section \<open>The relation\<close>

text \<open>The pointer to node \<open>k\<close> of a list.\<close>

definition ptr_at :: "ptr list \<Rightarrow> nat \<Rightarrow> ptr" where
  "ptr_at ws k = (if k < length ws then ws ! k else NULL)"

definition wq_of :: "ewin list \<Rightarrow> ptr list \<Rightarrow> nat \<Rightarrow> width_node" where
  "wq_of W ws k = \<lparr>wn_next = ptr_at ws (k + 1), wn_count = fst (laterals W ! k), wn_width = snd (laterals W ! k)\<rparr>"

definition wq_rel :: "lpw \<Rightarrow> ptr equeue \<Rightarrow> ptr list \<Rightarrow> bool" where
  "wq_rel g s ws \<longleftrightarrow> length ws = length (laterals (e_wins s)) \<and> distinct ws \<and> NULL \<notin> set ws \<and> set ws \<subseteq> set (wq_used g) \<and>
     wq_tail g = last ws \<and> wq_head g = ws ! length (changes (e_wins s) (e_get s)) \<and>
     (\<forall>k < length ws. wq_heap g (ws ! k) = Some (wq_of (e_wins s) ws k))"

definition win_rel :: "elastic_cfg \<Rightarrow> lpw \<Rightarrow> ptr equeue \<Rightarrow> bool" where
  "win_rel cfg g s \<longleftrightarrow> (\<forall>k. 1 \<le> k \<longrightarrow> k < length (e_wins s) \<longrightarrow> ew_depth (e_wins s ! k) = cur_depth g) \<and>
     pw_max (global_PWindow g) = ew_max (put_win s) \<and> pw_depth (global_PWindow g) = cur_depth g \<and>
     pw_width (global_PWindow g) = ew_width (put_win s) \<and> 1 \<le> pw_next_width (global_PWindow g) \<and>
     pw_next_width (global_PWindow g) \<le> max_width cfg \<and>
     global_GWindow g = \<lparr>gw_max = ew_max (get_win s), gw_depth = cur_depth g, gw_width = ew_width (get_win s)\<rparr>"

definition lpw_rel :: "elastic_cfg \<Rightarrow> lpw \<Rightarrow> ptr equeue \<Rightarrow> ptr list \<Rightarrow> bool" where
  "lpw_rel cfg g s ws \<longleftrightarrow> equeue_inv (max_width cfg) s \<and> sub_rel (max_width cfg) g s \<and> elastic_cfg_ok cfg g \<and> win_rel cfg g s \<and> wq_rel g s ws"

text \<open>What a thread remembers of a window is out of date, and then older, or correct.\<close>

definition tl_lpw :: "lpw \<Rightarrow> lpw_tl \<Rightarrow> bool" where
  "tl_lpw g l \<longleftrightarrow> pw_max (thread_PWindow l) \<le> pw_max (global_PWindow g) \<and>
     (pw_max (thread_PWindow l) = pw_max (global_PWindow g) \<longrightarrow> thread_PWindow l = global_PWindow g) \<and>
     gw_max (thread_GWindow l) \<le> gw_max (global_GWindow g) \<and>
     (gw_max (thread_GWindow l) = gw_max (global_GWindow g) \<longrightarrow>
        thread_GWindow l = global_GWindow g \<and> thread_get_index l < gw_width (global_GWindow g))"

definition lpw_fuel :: "elastic_cfg \<Rightarrow> nat" where
  "lpw_fuel cfg = elastic_hops cfg + 2 * max_width cfg + 4"

lemma lpw_relD:
  assumes "lpw_rel cfg g s ws"
  shows "equeue_inv (max_width cfg) s" "sub_rel (max_width cfg) g s" "elastic_cfg_ok cfg g" "win_rel cfg g s" "wq_rel g s ws"
  using assms by (simp_all add: lpw_rel_def)

lemma win_relD:
  assumes "win_rel cfg g s"
  shows "1 \<le> k \<Longrightarrow> k < length (e_wins s) \<Longrightarrow> ew_depth (e_wins s ! k) = cur_depth g"
    "pw_max (global_PWindow g) = ew_max (put_win s)" "pw_depth (global_PWindow g) = cur_depth g"
    "pw_width (global_PWindow g) = ew_width (put_win s)" "1 \<le> pw_next_width (global_PWindow g)"
    "pw_next_width (global_PWindow g) \<le> max_width cfg"
    "global_GWindow g = \<lparr>gw_max = ew_max (get_win s), gw_depth = cur_depth g, gw_width = ew_width (get_win s)\<rparr>"
  using assms by (auto simp: win_rel_def)

lemma wq_relD:
  assumes "wq_rel g s ws"
  shows "length ws = length (laterals (e_wins s))" "distinct ws" "NULL \<notin> set ws" "set ws \<subseteq> set (wq_used g)" "wq_tail g = last ws"
    "wq_head g = ws ! length (changes (e_wins s) (e_get s))" "k < length ws \<Longrightarrow> wq_heap g (ws ! k) = Some (wq_of (e_wins s) ws k)"
  using assms by (auto simp: wq_rel_def)

lemma wq_of_simps [simp]:
  "wn_next (wq_of W ws k) = ptr_at ws (k + 1)" "wn_count (wq_of W ws k) = fst (laterals W ! k)" "wn_width (wq_of W ws k) = snd (laterals W ! k)"
  by (simp_all add: wq_of_def)

text \<open>All windows have the depth of the queue.\<close>

lemma same_depth:
  assumes "lpw_rel cfg g s ws"
  shows "ew_depth (put_win s) = cur_depth g" "ew_depth (get_win s) = cur_depth g" "1 \<le> cur_depth g" "cur_depth g < 65536"
    "sub64 (ew_max (put_win s)) (cur_depth g) = bottom (put_win s) \<or> W64 \<le> ew_max (put_win s)"
proof -
  note I = lpw_relD(1) [OF assms] and D = win_relD(1) [OF lpw_relD(4) [OF assms]]
  have n: "2 \<le> length (e_wins s)" using equeue_invD(3) [OF I] by (simp add: wins_ok_def)
  show p: "ew_depth (put_win s) = cur_depth g" using D [of "length (e_wins s) - 1"] n put_win_row(1) [OF I] by simp
  show "ew_depth (get_win s) = cur_depth g" using D [of "e_get s"] equeue_invD(4,5) [OF I] by simp
  show "1 \<le> cur_depth g" "cur_depth g < 65536" using lpw_relD(3) [OF assms] by (simp_all add: elastic_cfg_ok_def)
  have "cur_depth g \<le> ew_max (put_win s)" using put_win_row(7) [OF I] p by simp
  then show "sub64 (ew_max (put_win s)) (cur_depth g) = bottom (put_win s) \<or> W64 \<le> ew_max (put_win s)"
    using p sub64_eq [of "cur_depth g" "ew_max (put_win s)"] by (cases "ew_max (put_win s) < W64") (auto simp: bottom_def)
qed

section \<open>The lateral queue\<close>

lemma wp_wq:
  "wq_heap g p = Some nd \<Longrightarrow> wp (wq_info p) Q g = Q nd g"
  "wq_heap g p = Some nd \<Longrightarrow> wp (wq_next p) R g = R (wn_next nd) g"
  by (simp_all add: wq_info_def wq_next_def)

lemma ptr_at_null: "NULL \<notin> set ws \<Longrightarrow> ptr_at ws k = NULL \<longleftrightarrow> length ws \<le> k"
  by (auto simp: ptr_at_def in_set_conv_nth)

lemma wq_walk_seq:
  assumes rel: "wq_rel g s ws" and j: "j < length ws" "j + 1 < length ws \<Longrightarrow> limit < fst (laterals (e_wins s) ! (j + 1))"
    and "i \<le> j" "\<forall>k. i < k \<longrightarrow> k \<le> j \<longrightarrow> fst (laterals (e_wins s) ! k) \<le> limit" "j - i < n"
  shows "wp (wq_walk n limit (ws ! i) (ptr_at ws (i + 1))) (\<lambda>x h. x = (ws ! j, ptr_at ws (j + 1)) \<and> h = g) g"
  using assms(4-)
proof (induction n arbitrary: i)
  case (Suc n)
  note R = wq_relD [OF rel]
  show ?case
  proof (cases "i = j")
    case True
    then show ?thesis using j R(1,3) R(7) [of "j + 1"] by (cases "j + 1 < length ws") (auto simp: ptr_at_null wp_wq, simp add: ptr_at_def wp_wq)
  next
    case False
    then have i: "i + 1 < length ws" "i + 1 \<le> j" using Suc.prems j(1) by simp_all
    have "wp (wq_walk n limit (ws ! (i + 1)) (ptr_at ws (i + 1 + 1))) (\<lambda>x h. x = (ws ! j, ptr_at ws (j + 1)) \<and> h = g) g"
      using Suc.prems False by (intro Suc.IH) auto
    moreover have "ptr_at ws (i + 1) = ws ! (i + 1)" "ptr_at ws (i + 1) \<noteq> NULL" using i(1) ptr_at_null [OF R(3), of "i + 1"] by (simp_all add: ptr_at_def)
    moreover have "fst (laterals (e_wins s) ! (i + 1)) \<le> limit" using Suc.prems(2) i(2) by simp
    ultimately show ?thesis using R(7) [OF i(1)] by (simp add: wp_wq)
  qed
qed simp

text \<open>The next get window, for a queue whose put window is further up.\<close>

lemma next_index_wq:
  assumes rel: "lpw_rel cfg g s ws" and lt: "e_get s + 1 < length (e_wins s)"
  defines "i \<equiv> length (changes (e_wins s) (e_get s))" and "j \<equiv> length (changes (e_wins s) (e_get s + 1))"
  shows "i \<le> j" "j \<le> i + 1" "j < length ws" "wq_head g = ws ! i" "wq_heap g (ws ! i) = Some (wq_of (e_wins s) ws i)"
    "wq_heap g (ws ! j) = Some (wq_of (e_wins s) ws j)" "snd (laterals (e_wins s) ! j) = ew_width (e_wins s ! (e_get s + 1))"
    "k \<le> j \<Longrightarrow> fst (laterals (e_wins s) ! k) \<le> ew_max (get_win s) + 1"
    "k < length ws \<Longrightarrow> j < k \<Longrightarrow> ew_max (e_wins s ! (e_get s + 1)) < fst (laterals (e_wins s) ! k)"
    "fst (laterals (e_wins s) ! i) \<le> ew_max (e_wins s ! (e_get s + 1))"
proof -
  note I = equeue_invD [OF lpw_relD(1) [OF rel]] and R = wq_relD [OF lpw_relD(5) [OF rel]]
  have e: "1 \<le> e_get s + 1" "e_get s + 1 - 1 = e_get s" using I(4) by simp_all
  show ij: "i \<le> j" "j \<le> i + 1" using changes_Suc [OF I(4), of "e_wins s"] by (simp_all add: i_def j_def)
  note W = lateral_width [OF e(1) lt]
  show j: "j < length ws" "snd (laterals (e_wins s) ! j) = ew_width (e_wins s ! (e_get s + 1))" using W R(1) by (simp_all add: j_def)
  show "wq_head g = ws ! i" using R(6) by (simp add: i_def)
  show "wq_heap g (ws ! i) = Some (wq_of (e_wins s) ws i)" "wq_heap g (ws ! j) = Some (wq_of (e_wins s) ws j)" using R(7) j(1) ij(1) by simp_all
  note C = lateral_count [OF I(3) e(1) lt, folded j_def, unfolded e(2)]
  show c: "fst (laterals (e_wins s) ! k) \<le> ew_max (get_win s) + 1" if "k \<le> j" for k by (rule C(1) [OF that])
  show "ew_max (e_wins s ! (e_get s + 1)) < fst (laterals (e_wins s) ! k)" if "k < length ws" "j < k" using C(2) that R(1) by simp
  have "ew_max (get_win s) < ew_max (e_wins s ! (e_get s + 1))" using wins_mono [OF I(3) _ lt] by simp
  then show "fst (laterals (e_wins s) ! i) \<le> ew_max (e_wins s ! (e_get s + 1))" using c [OF ij(1)] by simp
qed

lemma wp_exact: "wp p (\<lambda>x h. x = a \<and> h = g') g \<Longrightarrow> wp p Q g \<longleftrightarrow> Q a g'"
  by (auto simp: wp_run)

lemma next_window_seq:
  assumes rel: "lpw_rel cfg g s ws" and lt: "e_get s + 1 < length (e_wins s)" and room: "ew_max (put_win s) < W64" and fuel: "2 \<le> fuel"
  shows "wp (get_next_window_lateral fuel (ew_max (get_win s)) (ew_max (e_wins s ! (e_get s + 1)))) Q g \<longleftrightarrow>
    Q (ew_width (e_wins s ! (e_get s + 1)), ew_max (e_wins s ! (e_get s + 1))) g"
proof -
  let ?i = "length (changes (e_wins s) (e_get s))" and ?j = "length (changes (e_wins s) (e_get s + 1))"
  let ?M = "ew_max (e_wins s ! (e_get s + 1))"
  note N = next_index_wq [OF rel lt] and I = equeue_invD [OF lpw_relD(1) [OF rel]] and R = wq_relD [OF lpw_relD(5) [OF rel]]
  have "ew_max (get_win s) < ?M" using wins_mono [OF I(3) _ lt] by simp
  moreover have "?M \<le> ew_max (put_win s)" using wins_mono_le [OF I(3), of "e_get s + 1" "length (e_wins s) - 1"] lt put_win_row(1) [OF lpw_relD(1) [OF rel]] by simp
  ultimately have lim: "add64 (ew_max (get_win s)) 1 = ew_max (get_win s) + 1" "ew_max (get_win s) + 1 \<le> ?M" using room by (simp_all add: add64_eq)
  have up: "?M < fst (laterals (e_wins s) ! (?j + 1))" if "?j + 1 < length ws" using N(9) [OF that] by simp
  have "wp (wq_walk fuel (ew_max (get_win s) + 1) (ws ! ?i) (ptr_at ws (?i + 1))) (\<lambda>x h. x = (ws ! ?j, ptr_at ws (?j + 1)) \<and> h = g) g"
    by (rule wq_walk_seq [OF lpw_relD(5) [OF rel] N(3)]) (use N(1,2,8) lim(2) fuel up in \<open>fastforce+\<close>)
  note walk = wp_exact [OF this]
  have w: "snd (laterals (e_wins s) ! ?j) \<noteq> 0" using N(7) wins_bottom(2) [OF I(3) _ lt] by simp
  show ?thesis
  proof (cases "?j + 1 < length ws")
    case True
    then have "ptr_at ws (?j + 1) = ws ! (?j + 1)" "ptr_at ws (?j + 1) \<noteq> NULL" using ptr_at_null [OF R(3), of "?j + 1"] by (simp_all add: ptr_at_def)
    then show ?thesis using N(4-7,10) walk lim(1) w up [OF True] R(7) [OF True] by (simp add: get_next_window_lateral_def wp_wq)
  next
    case False
    then have "ptr_at ws (?j + 1) = NULL" using ptr_at_null [OF R(3), of "?j + 1"] by simp
    then show ?thesis using N(4-7,10) walk lim(1) w by (simp add: get_next_window_lateral_def wp_wq)
  qed
qed

lemma deq_lateral_seq:
  assumes rel: "lpw_rel cfg g s ws" and lt: "e_get s + 1 < length (e_wins s)" and fuel: "2 \<le> fuel"
  shows "wp (deq_lateral fuel (ew_max (e_wins s ! (e_get s + 1)))) Q (g\<lparr>global_GWindow := G\<rparr>) \<longleftrightarrow>
    Q () (g\<lparr>global_GWindow := G, wq_head := ws ! length (changes (e_wins s) (e_get s + 1))\<rparr>)"
proof -
  let ?i = "length (changes (e_wins s) (e_get s))" and ?j = "length (changes (e_wins s) (e_get s + 1))"
  let ?M = "ew_max (e_wins s ! (e_get s + 1))" and ?g = "g\<lparr>global_GWindow := G\<rparr>"
  note N = next_index_wq [OF rel lt] and I = equeue_invD [OF lpw_relD(1) [OF rel]]
  have r: "wq_rel ?g s ws" using lpw_relD(5) [OF rel] by (simp add: wq_rel_def)
  have M: "ew_max (get_win s) + 1 \<le> ?M" using wins_mono [OF I(3) _ lt, of "e_get s"] by simp
  have up: "?M < fst (laterals (e_wins s) ! (?j + 1))" if "?j + 1 < length ws" using N(9) [OF that] by simp
  have "wp (wq_walk fuel ?M (ws ! ?i) (ptr_at ws (?i + 1))) (\<lambda>x h. x = (ws ! ?j, ptr_at ws (?j + 1)) \<and> h = ?g) ?g"
    by (rule wq_walk_seq [OF r N(3)]) (use N(1,2,8) M fuel up in \<open>fastforce+\<close>)
  note walk = wp_exact [OF this]
  have "wp (deq_lateral fuel ?M) Q ?g \<longleftrightarrow> Q () (if ws ! ?i = ws ! ?j then ?g else g\<lparr>global_GWindow := G, wq_head := ws ! ?j\<rparr>)"
    using N(4-6) walk by (cases "ws ! ?i = ws ! ?j") (simp_all add: deq_lateral_def wp_wq cae_def)
  moreover have "?g = g\<lparr>global_GWindow := G, wq_head := ws ! ?j\<rparr>" if "ws ! ?i = ws ! ?j" by (rule lpw.equality) (use that N(4) in simp_all)
  ultimately show ?thesis by presburger
qed

section \<open>Moving the windows\<close>

lemma shift_gwindow_seq:
  assumes rel: "lpw_rel cfg g s ws" and lt: "e_get s + 1 < length (e_wins s)" and room: "ew_max (put_win s) < W64" and fuel: "2 \<le> fuel"
    and all: "\<forall>j < ew_width (get_win s). ew_max (get_win s) \<le> got_row s j"
    and l: "thread_GWindow l = global_GWindow g" "thread_PWindow l = global_PWindow g"
    and s': "s' = s\<lparr>e_get := e_get s + 1\<rparr>"
  shows "estep (max_width cfg) s ShiftGet s'"
    "wp (shift_gwindow fuel l) (\<lambda>l' g'. lpw_rel cfg g' s' ws \<and> same_items g g' \<and> global_PWindow g' = global_PWindow g \<and>
       gw_max (global_GWindow g) < gw_max (global_GWindow g') \<and>
       l' = l\<lparr>my_slide_count := add64 (my_slide_count l) 1, thread_GWindow := global_GWindow g'\<rparr>) g"
proof -
  let ?w = "e_wins s ! (e_get s + 1)"
  let ?G = "\<lparr>gw_max = ew_max ?w, gw_depth = cur_depth g, gw_width = ew_width ?w\<rparr>"
  let ?g = "g\<lparr>global_GWindow := ?G, wq_head := ws ! length (changes (e_wins s) (e_get s + 1))\<rparr>"
  note I = equeue_invD [OF lpw_relD(1) [OF rel]] and W = win_relD [OF lpw_relD(4) [OF rel]]
  show st: "estep (max_width cfg) s ShiftGet s'" unfolding s' using lt all by (intro e_shift_get) auto
  have up: "ew_max ?w = ew_max (get_win s) + cur_depth g" using I(3) lt W(1) [OF _ lt] unfolding wins_ok_def by simp
  have M: "ew_max ?w \<le> ew_max (put_win s)"
    using wins_mono_le [OF I(3), of "e_get s + 1" "length (e_wins s) - 1"] lt put_win_row(1) [OF lpw_relD(1) [OF rel]] by simp
  note d = same_depth(3,4) [OF rel]
  have ar: "add64 (ew_max (get_win s)) (cur_depth g) = ew_max ?w" "sub64 (ew_max ?w) (ew_max (get_win s)) mod 65536 = cur_depth g"
    using up M room d by (simp_all add: add64_eq sub64_eq)
  have "sub_rel (max_width cfg) ?g s'" using lpw_relD(2) [OF rel] by (simp add: s' sub_rel_def last_row_def got_row_def rows_def)
  moreover have "win_rel cfg ?g s'" using lpw_relD(4) [OF rel] by (simp add: s' win_rel_def)
  moreover have "wq_rel ?g s' ws" using lpw_relD(5) [OF rel] by (simp add: s' wq_rel_def)
  ultimately have "lpw_rel cfg ?g s' ws" using estep_inv [OF st lpw_relD(1) [OF rel]] lpw_relD(3) [OF rel] by (simp add: lpw_rel_def elastic_cfg_ok_def)
  then show "wp (shift_gwindow fuel l) (\<lambda>l' g'. lpw_rel cfg g' s' ws \<and> same_items g g' \<and> global_PWindow g' = global_PWindow g \<and>
       gw_max (global_GWindow g) < gw_max (global_GWindow g') \<and>
       l' = l\<lparr>my_slide_count := add64 (my_slide_count l) 1, thread_GWindow := global_GWindow g'\<rparr>) g"
    using l W(2,7) ar M up d next_window_seq [OF rel lt room fuel] deq_lateral_seq [OF rel lt fuel]
    by (simp add: shift_gwindow_def get_shift_max_lpw_def cae_def Let_def same_items_def)
qed

text \<open>A node for a change of the width after the put window.\<close>

definition wq_add :: "ptr \<Rightarrow> ptr list \<Rightarrow> width_node \<Rightarrow> nat \<Rightarrow> nat \<Rightarrow> lpw \<Rightarrow> lpw" where
  "wq_add p ws nd c w g =
     g\<lparr>wq_used := p # wq_used g, wq_heap := (wq_heap g)(p \<mapsto> \<lparr>wn_next = NULL, wn_count = c, wn_width = w\<rparr>, last ws \<mapsto> nd\<lparr>wn_next := p\<rparr>), wq_tail := p\<rparr>"

lemma last_lateral:
  assumes rel: "lpw_rel cfg g s ws"
  defines "k \<equiv> length (laterals (e_wins s)) - 1"
  shows "last ws = ws ! k" "k + 1 = length ws" "wq_heap g (last ws) = Some (wq_of (e_wins s) ws k)" "wn_next (wq_of (e_wins s) ws k) = NULL"
    "wn_count (wq_of (e_wins s) ws k) \<le> ew_max (put_win s)"
proof -
  let ?W = "e_wins s"
  note I = equeue_invD [OF lpw_relD(1) [OF rel]] and R = wq_relD [OF lpw_relD(5) [OF rel]]
  have n: "2 \<le> length ?W" using I(3) by (simp add: wins_ok_def)
  show k: "k + 1 = length ws" using R(1) by (simp add: k_def length_laterals)
  then have "ws \<noteq> []" by auto
  then show l: "last ws = ws ! k" using k by (metis add_diff_cancel_right' last_conv_nth)
  show "wq_heap g (last ws) = Some (wq_of ?W ws k)" unfolding l using k by (intro R(7)) simp
  show "wn_next (wq_of ?W ws k) = NULL" using k by (simp add: ptr_at_def)
  have m: "1 \<le> length ?W - 1" "length ?W - 1 < length ?W" using n by simp_all
  have "k \<le> length (changes ?W (length ?W - 1))" by (simp add: k_def length_laterals)
  then have "fst (laterals ?W ! k) \<le> ew_max (?W ! (length ?W - 1 - 1)) + 1" by (rule lateral_count(1) [OF I(3) m])
  moreover have "ew_max (?W ! (length ?W - 1 - 1)) < ew_max (?W ! (length ?W - 1))" using wins_mono [OF I(3) _ m(2)] m(1) by simp
  ultimately show "wn_count (wq_of ?W ws k) \<le> ew_max (put_win s)" using put_win_row(1) [OF lpw_relD(1) [OF rel]] by simp
qed

lemma try_enq_seq:
  assumes rel: "lpw_rel cfg g s ws" and al: "alloc_fresh al"
    and p_def: "p = al t (wq_used g)" and nd_def: "nd = wq_of (e_wins s) ws (length (laterals (e_wins s)) - 1)"
  shows "wp (try_enq_lateral al t (ew_max (put_win s) + 1) w) Q g \<longleftrightarrow> Q () (wq_add p ws nd (ew_max (put_win s) + 1) w g)"
proof -
  note L = last_lateral [OF rel, folded nd_def] and R = wq_relD [OF lpw_relD(5) [OF rel]]
  have p: "p \<noteq> NULL" "p \<notin> set (wq_used g)" using al by (auto simp: alloc_fresh_def p_def)
  have "last ws \<in> set ws" using L(2) by (intro last_in_set) auto
  then have "p \<noteq> last ws" using p(2) R(4) by auto
  then show ?thesis using p L(3-5) R(5)
    by (simp add: try_enq_lateral_def wp_wq create_lateral_node_lpw_def cae_wq_next_def cae_def wq_add_def p_def)
qed

lemma wq_rel_same:
  assumes rel: "wq_rel g s ws" and n: "2 \<le> length (e_wins s)" "e_get s < length (e_wins s)" and w: "ew_width x = ew_width (put_win s)"
    and g: "wq_heap g' = wq_heap g" "wq_used g' = wq_used g" "wq_tail g' = wq_tail g" "wq_head g' = wq_head g"
    and s': "e_wins s' = e_wins s @ [x]" "e_get s' = e_get s"
  shows "wq_rel g' s' ws"
  using rel w laterals_append [OF n(1), of x] changes_append [OF n(2), of "[x]"] by (simp add: wq_rel_def wq_of_def g s')

lemma wq_rel_add:
  assumes rel: "wq_rel g s ws" and n: "2 \<le> length (e_wins s)" "e_get s < length (e_wins s)" "1 \<le> e_get s" and w: "ew_width x \<noteq> ew_width (put_win s)"
    and nd: "nd = wq_of (e_wins s) ws (length (laterals (e_wins s)) - 1)" and p: "p \<noteq> NULL" "p \<notin> set (wq_used g)"
    and s': "e_wins s' = e_wins s @ [x]" "e_get s' = e_get s"
  shows "wq_rel (wq_add p ws nd (ew_max (put_win s) + 1) (ew_width x) g) s' (ws @ [p])" (is "wq_rel ?g s' ?ws")
proof -
  let ?L = "length (laterals (e_wins s))"
  note R = wq_relD [OF rel]
  have lat: "laterals (e_wins s') = laterals (e_wins s) @ [(ew_max (put_win s) + 1, ew_width x)]" using laterals_append [OF n(1), of x] w s'(1) by simp
  have ne: "ws \<noteq> []" "1 \<le> ?L" using R(1) by (auto simp: length_laterals)
  then have L: "1 \<le> ?L" "last ws = ws ! (?L - 1)" using R(1) by (simp_all add: last_conv_nth)
  have pw: "p \<notin> set ws" using p(2) R(4) by blast
  have heap: "wq_heap ?g (?ws ! k) = Some (wq_of (e_wins s') ?ws k)" if k: "k < length ?ws" for k
  proof -
    consider "k = ?L" | "k = ?L - 1" "k < ?L" | "k + 1 < ?L" using k R(1) by fastforce
    then show ?thesis
    proof cases
      case 1
      have "last ws \<noteq> p" using pw last_in_set [OF ne(1)] by auto
      then show ?thesis using 1 R(1) lat by (simp add: wq_add_def wq_of_def ptr_at_def nth_append)
    next
      case 2
      have "k + 1 = length ws" using 2 R(1) by simp
      then show ?thesis using 2 R(1) L lat nd by (simp add: wq_add_def wq_of_def ptr_at_def nth_append)
    next
      case 3
      have "ws ! k \<noteq> last ws" using 3 R(1,2) L by (simp add: nth_eq_iff_index_eq)
      moreover have "ws ! k \<noteq> p" using pw 3 R(1) nth_mem [of k ws] by auto
      ultimately show ?thesis using 3 R(1) R(7) [of k] lat by (simp add: wq_add_def wq_of_def ptr_at_def nth_append)
    qed
  qed
  have hd: "wq_head ?g = ?ws ! length (changes (e_wins s') (e_get s'))"
  proof -
    have "length (changes (e_wins s) (e_get s)) < ?L" using lateral_width [OF n(3,2)] by simp
    then show ?thesis using R(1,6) changes_append [OF n(2), of "[x]"] s' by (simp add: wq_add_def nth_append)
  qed
  show ?thesis unfolding wq_rel_def using R heap hd lat pw p by (auto simp: wq_add_def)
qed

lemma shift_pwindow_seq:
  assumes rel: "lpw_rel cfg g s ws" and al: "alloc_fresh al" and room: "ew_max (put_win s) + cur_depth g < W64"
    and full: "\<forall>j < ew_width (put_win s). ew_max (put_win s) \<le> last_row s j" and l: "thread_PWindow l = global_PWindow g"
    and s': "s' = s\<lparr>e_wins := e_wins s @ [\<lparr>ew_max = ew_max (put_win s) + cur_depth g, ew_width = pw_next_width (global_PWindow g), ew_depth = cur_depth g\<rparr>]\<rparr>"
  shows "estep (max_width cfg) s ShiftPut s'"
    "wp (shift_pwindow al t l) (\<lambda>l' g'. \<exists>ws'. lpw_rel cfg g' s' ws' \<and> same_items g g' \<and> global_GWindow g' = global_GWindow g \<and>
       l' = l\<lparr>my_slide_count := add64 (my_slide_count l) 1, thread_PWindow := global_PWindow g'\<rparr>) g"
proof -
  let ?x = "\<lparr>ew_max = ew_max (put_win s) + cur_depth g, ew_width = pw_next_width (global_PWindow g), ew_depth = cur_depth g\<rparr>"
  let ?P = "\<lparr>pw_max = ew_max (put_win s) + cur_depth g, pw_depth = cur_depth g, pw_width = pw_next_width (global_PWindow g), pw_next_width = cur_width g\<rparr>"
  let ?p = "al t (wq_used g)" and ?nd = "wq_of (e_wins s) ws (length (laterals (e_wins s)) - 1)"
  let ?add = "wq_add ?p ws ?nd (ew_max (put_win s) + 1) (pw_next_width (global_PWindow g))"
  let ?post = "\<lambda>l' g'. \<exists>ws'. lpw_rel cfg g' s' ws' \<and> same_items g g' \<and> global_GWindow g' = global_GWindow g \<and>
       l' = l\<lparr>my_slide_count := add64 (my_slide_count l) 1, thread_PWindow := global_PWindow g'\<rparr>"
  note I = equeue_invD [OF lpw_relD(1) [OF rel]] and W = win_relD [OF lpw_relD(4) [OF rel]]
  have C: "max_width cfg < 65536" "elastic_hops cfg < 65536" "1 \<le> cur_width g" "cur_width g \<le> max_width cfg" "1 \<le> cur_depth g" "cur_depth g < 65536"
    using lpw_relD(3) [OF rel] by (simp_all add: elastic_cfg_ok_def)
  have n: "2 \<le> length (e_wins s)" using I(3) by (simp add: wins_ok_def)
  show st: "estep (max_width cfg) s ShiftPut s'" unfolding s' by (rule e_shift_put [OF full W(5,6) C(5)])
  have dep: "\<forall>k. 1 \<le> k \<longrightarrow> k < length (e_wins s') \<longrightarrow> ew_depth (e_wins s' ! k) = cur_depth g"
    using W(1) by (auto simp: s' nth_append less_Suc_eq)
  have post: "?post (l\<lparr>my_slide_count := add64 (my_slide_count l) 1, thread_PWindow := ?P\<rparr>) (h\<lparr>global_PWindow := ?P\<rparr>)"
    if h: "same_items g h" "global_GWindow h = global_GWindow g" "wq_rel (h\<lparr>global_PWindow := ?P\<rparr>) s' ws'" for h ws'
  proof -
    have "sub_rel (max_width cfg) (h\<lparr>global_PWindow := ?P\<rparr>) s'"
      using lpw_relD(2) [OF rel] h(1) by (simp add: s' sub_rel_def same_items_def last_row_def got_row_def rows_def)
    moreover have "win_rel cfg (h\<lparr>global_PWindow := ?P\<rparr>) s'" using dep h(1,2) W(5-7) C I(5) by (simp add: win_rel_def s' same_items_def nth_append)
    ultimately show ?thesis using estep_inv [OF st lpw_relD(1) [OF rel]] h C by (auto simp: lpw_rel_def elastic_cfg_ok_def same_items_def)
  qed
  have ar: "add64 (ew_max (put_win s)) (cur_depth g) = ew_max (put_win s) + cur_depth g" "add64 (ew_max (put_win s)) 1 = ew_max (put_win s) + 1"
    using room C(5) by (simp_all add: add64_eq)
  show "wp (shift_pwindow al t l) ?post g"
  proof (cases "ew_width (put_win s) = pw_next_width (global_PWindow g)")
    case True
    have "wq_rel (g\<lparr>global_PWindow := ?P\<rparr>) s' ws"
      by (rule wq_rel_same [OF lpw_relD(5) [OF rel] n I(5), where x = ?x]) (use True in \<open>simp_all add: s'\<close>)
    then have "?post (l\<lparr>my_slide_count := add64 (my_slide_count l) 1, thread_PWindow := ?P\<rparr>) (g\<lparr>global_PWindow := ?P\<rparr>)"
      by (intro post) (simp_all add: same_items_def)
    then show ?thesis using True l W(2-4) ar by (simp add: shift_pwindow_def maybe_enq_lateral_def put_depth_def cae_def Let_def)
  next
    case False
    have p: "?p \<noteq> NULL" "?p \<notin> set (wq_used g)" using al by (auto simp: alloc_fresh_def)
    have "wq_rel (?add g) s' (ws @ [?p])"
      using wq_rel_add [OF lpw_relD(5) [OF rel] n I(5,4) _ refl p, where x = ?x and s' = s'] False by (simp add: s')
    then have "?post (l\<lparr>my_slide_count := add64 (my_slide_count l) 1, thread_PWindow := ?P\<rparr>) ((?add g)\<lparr>global_PWindow := ?P\<rparr>)"
      by (intro post [where ws' = "ws @ [?p]"]) (simp_all add: same_items_def wq_add_def wq_rel_def)
    moreover have "global_PWindow (?add g) = global_PWindow g" "cur_depth (?add g) = cur_depth g" "cur_width (?add g) = cur_width g" by (simp_all add: wq_add_def)
    ultimately show ?thesis using False l W(2-4) ar try_enq_seq [OF rel al refl refl]
      by (simp add: shift_pwindow_def maybe_enq_lateral_def put_depth_def cae_def Let_def)
  qed
qed

section \<open>The put window\<close>

lemma tl_lpw_upd [simp]:
  "tl_lpw g (l\<lparr>my_hop_count := c\<rparr>) = tl_lpw g l" "tl_lpw g (l\<lparr>seeds := sd\<rparr>) = tl_lpw g l" "tl_lpw g (l\<lparr>my_slide_count := c\<rparr>) = tl_lpw g l"
  "tl_lpw g (l\<lparr>thread_put_index := i\<rparr>) = tl_lpw g l" "tl_lpw g (l\<lparr>my_null_count := c\<rparr>) = tl_lpw g l"
  by (simp_all add: tl_lpw_def)

lemma wp_read_windows:
  "wp (read_pwindow (pw_max (global_PWindow g)) l) Q g = Q (l\<lparr>thread_PWindow := global_PWindow g\<rparr>) g"
  "wp (read_gwindow (gw_max (global_GWindow g)) l) Q g = Q (l\<lparr>thread_GWindow := global_GWindow g\<rparr>) g"
  unfolding read_pwindow_def read_gwindow_def by (cases "global_PWindow g", simp) (cases "global_GWindow g", simp)

lemma tl_lpw_mono:
  assumes "tl_lpw g k" "global_PWindow g' = global_PWindow g \<or> pw_max (global_PWindow g) < pw_max (global_PWindow g')"
    "global_GWindow g' = global_GWindow g \<or> gw_max (global_GWindow g) < gw_max (global_GWindow g')"
  shows "tl_lpw g' k"
  using assms by (auto simp: tl_lpw_def)

lemma tl_lpw_sync: "tl_lpw g l \<Longrightarrow> tl_lpw g (l\<lparr>thread_PWindow := global_PWindow g\<rparr>)"
  by (simp add: tl_lpw_def)

definition put_post_lpw :: "elastic_cfg \<Rightarrow> lpw \<Rightarrow> ptr equeue \<Rightarrow> qdescriptor2Dd \<times> lpw_tl \<Rightarrow> lpw \<Rightarrow> bool" where
  "put_post_lpw cfg g s = (\<lambda>(d, l') g'. \<exists>s' ws'. lpw_rel cfg g' s' ws' \<and> same_items g g' \<and> tl_lpw g' l' \<and>
     (s' = s \<or> estep (max_width cfg) s ShiftPut s') \<and> e_items s' = e_items s \<and>
     ew_max (put_win s') \<le> ew_max (put_win s) + cur_depth g \<and> (\<forall>k. tl_lpw g k \<longrightarrow> tl_lpw g' k) \<and>
     thread_PWindow l' = global_PWindow g' \<and> thread_put_index l' < ew_width (put_win s') \<and>
     d = sub_put g ! thread_put_index l' \<and> last_row s (thread_put_index l') < ew_max (put_win s'))"

text \<open>A hit: the sub-queue has room in the put window.\<close>

lemma put_loop_hit_lpw:
  assumes rel: "lpw_rel cfg g s ws" and l: "thread_PWindow l = global_PWindow g" "tl_lpw g l"
    and i: "thread_put_index l < ew_width (put_win s)" "last_row s (thread_put_index l) < ew_max (put_win s)"
    and Q: "\<And>l'. tl_lpw g l' \<Longrightarrow> thread_PWindow l' = global_PWindow g \<Longrightarrow> thread_put_index l' = thread_put_index l \<Longrightarrow>
      Q (sub_put g ! thread_put_index l, l') g"
  shows "wp (put_window_loop_lpw (Suc n) al cfg t l hops random) Q g"
proof -
  note S = sub_relD [OF lpw_relD(2) [OF rel]] and W = win_relD [OF lpw_relD(4) [OF rel]]
  have n: "thread_put_index l < max_width cfg" using i(1) put_win_row(3) [OF lpw_relD(1) [OF rel]] by simp
  have "tl_lpw g (l\<lparr>thread_get_index := thread_put_index l\<rparr>)" if "gw_width (thread_GWindow l) = ew_width (put_win s)"
    using l(2) i(1) that by (auto simp: tl_lpw_def)
  then show ?thesis using n S(2) S(6) [OF n] l W(2,4) i Q [OF l(2,1) refl] Q [of "l\<lparr>thread_get_index := thread_put_index l\<rparr>"]
    by (simp add: wp_descs)
qed

lemma put_loop_seq_lpw:
  assumes rel: "lpw_rel cfg g s ws" and al: "alloc_fresh al" and room: "ew_max (put_win s) + cur_depth g < W64"
    and "thread_PWindow l = global_PWindow g" "tl_lpw g l"
    and "thread_put_index l < ew_width (put_win s)" "hops \<le> ew_width (put_win s)" "random \<le> elastic_hops cfg" "random < elastic_hops cfg \<longrightarrow> hops = 0"
    and "seen (ew_width (put_win s)) (thread_put_index l) hops (\<lambda>j. ew_max (put_win s) \<le> last_row s j)"
    and "(elastic_hops cfg - random) + (ew_width (put_win s) - hops) + 2 \<le> n"
  shows "wp (put_window_loop_lpw n al cfg t l hops random) (put_post_lpw cfg g s) g"
  using assms(4-)
proof (induction n arbitrary: l hops random)
  case 0
  then show ?case by simp
next
  case (Suc n)
  let ?i = "thread_put_index l" and ?W = "ew_width (put_win s)" and ?M = "ew_max (put_win s)"
  note S = sub_relD [OF lpw_relD(2) [OF rel]] and V = win_relD [OF lpw_relD(4) [OF rel]] and I = lpw_relD(1) [OF rel]
  have W: "?W \<le> max_width cfg" "1 \<le> ?W" using put_win_row(3,6) [OF I] by simp_all
  have C: "max_width cfg < 65536" "elastic_hops cfg < 65536" "1 \<le> cur_depth g" using lpw_relD(3) [OF rel] by (simp_all add: elastic_cfg_ok_def)
  have i: "?i < max_width cfg" using Suc.prems(3) W by simp
  show ?case
  proof (cases "last_row s ?i < ?M")
    case True
    show ?thesis
      by (rule put_loop_hit_lpw [OF rel Suc.prems(1-3) True])
        (use rel True Suc.prems(3) in \<open>auto simp: put_post_lpw_def same_items_def intro!: exI [of _ s] exI [of _ ws]\<close>)
  next
    case miss: False
    show ?thesis
    proof (cases "hops = ?W")
      case False
      then have hops: "hops < ?W" using Suc.prems by simp
      have "wp (hop_elastic cfg l ?i random hops ?W)
        (\<lambda>(index, random, hops, l). wp (put_window_loop_lpw n al cfg t (l\<lparr>thread_put_index := index\<rparr>) hops random) (put_post_lpw cfg g s)) g"
        by (rule elastic_hop.hop_search [OF _ Suc.prems(3) hops Suc.prems(5-7)]) (use Suc.prems miss W(1) C in \<open>auto intro!: Suc.IH\<close>)
      then show ?thesis using Suc.prems(1) miss hops i S(2) S(6) [OF i] V(2,4)
        by (simp add: wp_descs case_prod_unfold)
    next
      case True
      have all: "\<forall>j < ?W. ?M \<le> last_row s j" using Suc.prems True by (intro seen_all) auto
      obtain n' where n': "n = Suc n'" using Suc.prems(8) by (cases n) auto
      let ?nw = "pw_next_width (global_PWindow g)"
      let ?s = "s\<lparr>e_wins := e_wins s @ [\<lparr>ew_max = ?M + cur_depth g, ew_width = ?nw, ew_depth = cur_depth g\<rparr>]\<rparr>"
      note sh = shift_pwindow_seq [OF rel al room all Suc.prems(1) refl]
      have lt: "last_row s j < ew_max (put_win ?s)" if "j < max_width cfg" for j
      proof -
        have "last_row s j \<le> ?M"
          using rows_okD(2) [OF equeue_invD(6) [OF I that] last_row_in [of s j]] by (cases "e_items s ! j = []") (auto simp: last_row_def)
        then show ?thesis using C(3) by simp
      qed
      have lr: "last_row ?s j = last_row s j" for j by (simp add: last_row_def rows_def)
      have "wp (shift_pwindow al t l) (\<lambda>l. wp (put_window_loop_lpw n al cfg t (clip_put l) 0 random) (put_post_lpw cfg g s)) g"
      proof (rule wp_mono [OF sh(2)], elim exE conjE)
        fix l' g' ws'
        assume r: "lpw_rel cfg g' ?s ws'" "same_items g g'" "global_GWindow g' = global_GWindow g"
          and l': "l' = l\<lparr>my_slide_count := add64 (my_slide_count l) 1, thread_PWindow := global_PWindow g'\<rparr>"
        note V' = win_relD [OF lpw_relD(4) [OF r(1)]]
        have pw: "pw_max (global_PWindow g) < pw_max (global_PWindow g')" "pw_width (global_PWindow g') = ?nw" using V(2) V'(2,4) C(3) by simp_all
        have keep: "tl_lpw g' k" if "tl_lpw g k" for k using tl_lpw_mono [OF that] pw(1) r(3) by simp
        let ?l = "clip_put l'"
        have idx: "thread_put_index ?l < ?nw" "thread_put_index ?l < max_width cfg" using V(5,6) i pw(2) by (auto simp: clip_put_def l')
        have tl: "thread_PWindow ?l = global_PWindow g'" "tl_lpw g' ?l"
          using keep [OF Suc.prems(2)] by (simp_all add: clip_put_def l' tl_lpw_def)
        show "wp (put_window_loop_lpw n al cfg t ?l 0 random) (put_post_lpw cfg g s) g'"
          unfolding n'
        proof (rule put_loop_hit_lpw [OF r(1) tl], goal_cases)
          case (3 l2)
          show ?case unfolding put_post_lpw_def prod.case
            by (intro exI [of _ ?s] exI [of _ ws'])
              (use 3 r sh(1) idx lt [OF idx(2)] keep in \<open>simp add: same_items_def\<close>)
        qed (use idx lt [OF idx(2)] lr in simp_all)
      qed
      then show ?thesis using Suc.prems(1) miss True i S(2) S(6) [OF i] V(2,4) by (simp add: wp_descs)
    qed
  qed
qed

lemma put_window_seq_lpw:
  assumes rel: "lpw_rel cfg g s ws" and al: "alloc_fresh al" and room: "ew_max (put_win s) + cur_depth g < W64"
    and l: "tl_lpw g l" and fuel: "lpw_fuel cfg \<le> n"
  shows "wp (put_window_lpw n al cfg t l contention) (put_post_lpw cfg g s) g"
proof -
  note V = win_relD [OF lpw_relD(4) [OF rel]] and W = put_win_row(3,6) [OF lpw_relD(1) [OF rel]]
  have loop: "wp (put_window_loop_lpw n al cfg t l' 0 0) (put_post_lpw cfg g s) g"
    if "thread_PWindow l' = global_PWindow g" "tl_lpw g l'" "thread_put_index l' < ew_width (put_win s)" for l'
    using fuel W that by (intro put_loop_seq_lpw [OF rel al room]) (auto simp: lpw_fuel_def)
  have go: "wp (pbind (if contention \<or> thread_put_index l' \<ge> pw_width (thread_PWindow l')
            then pbind (random_mod (pw_width (thread_PWindow l')) l') (\<lambda>(i, l). Ret (l\<lparr>thread_put_index := i\<rparr>))
            else Ret l') (\<lambda>l. put_window_loop_lpw n al cfg t l 0 0)) (put_post_lpw cfg g s) g"
    if "thread_PWindow l' = global_PWindow g" "tl_lpw g l'" for l'
    using that V(4) W(2) by (auto intro!: wp_random_mod loop)
  have d: "0 < cur_depth g" using same_depth(3) [OF rel] by simp
  show ?thesis
  proof (cases "pw_max (thread_PWindow l) = pw_max (global_PWindow g)")
    case True
    then show ?thesis using go [of l] l by (simp add: put_window_lpw_def tl_lpw_def)
  next
    case False
    then show ?thesis using go [OF _ tl_lpw_sync [OF l]] V(3) d by (simp add: put_window_lpw_def wp_read_windows)
  qed
qed

section \<open>The get window\<close>

text \<open>What the loop compares with, and when it takes sub-queue \<open>j\<close>.\<close>

definition put_count_lpw :: "ptr equeue \<Rightarrow> nat \<Rightarrow> nat" where
  "put_count_lpw s j = (if got_row s j \<le> bottom (put_win s) then bottom (put_win s) else last_row s j)"

definition ready_lpw :: "ptr equeue \<Rightarrow> nat \<Rightarrow> bool" where
  "ready_lpw s j \<longleftrightarrow> got_row s j < ew_max (get_win s) \<and> got_row s j < put_count_lpw s j"

lemma ready_closed:
  assumes inv: "equeue_inv n s" and lt: "e_get s + 1 < length (e_wins s)"
  shows "ready_lpw s j \<longleftrightarrow> got_row s j < ew_max (get_win s)"
  using wins_order(2) [OF inv lt] by (auto simp: ready_lpw_def put_count_lpw_def)

text \<open>In the last window no sub-queue has an item above the window.\<close>

lemma never_above:
  assumes inv: "equeue_inv n s" and j: "j < n" and last: "e_get s + 1 = length (e_wins s)" and lt: "got_row s j < put_count_lpw s j"
  shows "ready_lpw s j"
proof -
  note G = wins_order(3) [OF inv last] and P = put_win_row(4) [OF inv]
  have "last_row s j \<le> ew_max (put_win s)"
    using rows_okD(2) [OF equeue_invD(6) [OF inv j] last_row_in [of s j]] by (cases "e_items s ! j = []") (auto simp: last_row_def)
  then have "put_count_lpw s j \<le> ew_max (get_win s)" using G P by (auto simp: put_count_lpw_def)
  then show ?thesis using lt by (simp add: ready_lpw_def)
qed

definition at_lpw :: "lpw \<Rightarrow> ptr equeue \<Rightarrow> lpw_tl \<Rightarrow> bool" where
  "at_lpw g s l \<longleftrightarrow> thread_GWindow l = global_GWindow g \<and> thread_PWindow l = global_PWindow g \<and> thread_get_index l < ew_width (get_win s)"

lemma at_lpw_upd [simp]:
  "at_lpw g s (l\<lparr>my_hop_count := c\<rparr>) = at_lpw g s l" "at_lpw g s (l\<lparr>seeds := sd\<rparr>) = at_lpw g s l"
  "at_lpw g s (l\<lparr>thread_put_index := i\<rparr>) = at_lpw g s l"
  by (simp_all add: at_lpw_def)

lemma at_lpw_index: "at_lpw g s l \<Longrightarrow> i < ew_width (get_win s) \<Longrightarrow> at_lpw g s (l\<lparr>thread_get_index := i\<rparr>)"
  by (simp add: at_lpw_def)

lemma wp_get_exit_lpw: "(\<And>i. Q (d, l\<lparr>thread_put_index := i\<rparr>) g) \<Longrightarrow> wp (get_exit_lpw d l) Q g"
proof -
  assume Q: "\<And>i. Q (d, l\<lparr>thread_put_index := i\<rparr>) g"
  have "Q (d, l) g" using Q [of "thread_put_index l"] by simp
  then show ?thesis using Q by (simp add: get_exit_lpw_def)
qed

text \<open>One pass of the loop at the get window.\<close>

lemma wp_get_pass_lpw:
  assumes rel: "lpw_rel cfg g s ws" and l: "at_lpw g s l" and room: "ew_max (put_win s) < W64"
  shows "wp (get_window_loop_lpw (Suc n) fuel cfg (bottom (put_win s)) l hops random notempty) Q g \<longleftrightarrow>
    (if ready_lpw s (thread_get_index l) then wp (get_exit_lpw (sub_get g ! thread_get_index l) l) Q g
     else if hops \<noteq> ew_width (get_win s) then
       wp (hop_elastic cfg l (thread_get_index l) random hops (ew_width (get_win s)))
         (\<lambda>(index, random, hops, l'). wp (get_window_loop_lpw n fuel cfg (bottom (put_win s)) (l'\<lparr>thread_get_index := index\<rparr>) hops random
            (notempty \<or> got_row s (thread_get_index l) < put_count_lpw s (thread_get_index l))) Q) g
     else if notempty \<or> e_get s + 1 < length (e_wins s) then
       wp (shift_gwindow fuel l) (\<lambda>l. wp (get_window_loop_lpw n fuel cfg (bottom (put_win s)) (clip_get l) 0 random False) Q) g
     else wp (get_exit_lpw (sub_get g ! thread_get_index l) l) Q g)"
proof -
  note S = sub_relD [OF lpw_relD(2) [OF rel]] and V = win_relD [OF lpw_relD(4) [OF rel]] and I = lpw_relD(1) [OF rel]
  have i: "thread_get_index l < max_width cfg" using l get_win_row(3) [OF I] by (simp add: at_lpw_def)
  have ne: "ew_max (get_win s) \<noteq> ew_max (put_win s) \<longleftrightarrow> e_get s + 1 < length (e_wins s)" using wins_order(1) [OF I] get_le_put [OF I] by linarith
  show ?thesis using l i S(1,2) S(6,7) [OF i] V(2,7) ne
    by (simp add: at_lpw_def wp_descs ready_lpw_def put_count_lpw_def case_prod_unfold Let_def)
qed

text \<open>The walk over the sub-queues of the get window.\<close>

lemma get_walk_lpw:
  assumes rel: "lpw_rel cfg g s ws" and room: "ew_max (put_win s) < W64"
    and hit: "\<And>l'. at_lpw g s l' \<Longrightarrow> ready_lpw s (thread_get_index l') \<Longrightarrow> wp (get_exit_lpw (sub_get g ! thread_get_index l') l') Q g"
    and stop: "\<And>l' m ne. at_lpw g s l' \<Longrightarrow> \<forall>j < ew_width (get_win s). \<not> ready_lpw s j \<Longrightarrow> extra \<le> m \<Longrightarrow> (ne \<longrightarrow> e_get s + 1 < length (e_wins s)) \<Longrightarrow>
      wp (get_window_loop_lpw (Suc m) fuel cfg (bottom (put_win s)) l' (ew_width (get_win s)) (elastic_hops cfg) ne) Q g"
    and "at_lpw g s l" "hops \<le> ew_width (get_win s)" "random \<le> elastic_hops cfg" "random < elastic_hops cfg \<longrightarrow> hops = 0"
    and "seen (ew_width (get_win s)) (thread_get_index l) hops (\<lambda>j. \<not> ready_lpw s j)" "notempty \<longrightarrow> e_get s + 1 < length (e_wins s)"
    and "(elastic_hops cfg - random) + (ew_width (get_win s) - hops) + 1 + extra \<le> n"
  shows "wp (get_window_loop_lpw n fuel cfg (bottom (put_win s)) l hops random notempty) Q g"
  using assms(5-)
proof (induction n arbitrary: l hops random notempty)
  case 0
  then show ?case by simp
next
  case (Suc n)
  let ?i = "thread_get_index l" and ?W = "ew_width (get_win s)"
  let ?ne = "notempty \<or> got_row s ?i < put_count_lpw s ?i"
  have W: "?W \<le> max_width cfg" "1 \<le> ?W" using get_win_row(3,5) [OF lpw_relD(1) [OF rel]] by simp_all
  have C: "max_width cfg < 65536" "elastic_hops cfg < 65536" using lpw_relD(3) [OF rel] by (simp_all add: elastic_cfg_ok_def)
  have i: "?i < ?W" using Suc.prems(1) by (simp add: at_lpw_def)
  note pass = wp_get_pass_lpw [OF rel Suc.prems(1) room]
  show ?case
  proof (cases "ready_lpw s ?i")
    case True
    then show ?thesis using hit [OF Suc.prems(1)] pass by simp
  next
    case miss: False
    have "e_get s + 1 < length (e_wins s)" if "got_row s ?i < put_count_lpw s ?i"
      using never_above [OF lpw_relD(1) [OF rel] _ _ that] miss i W(1) equeue_invD(5) [OF lpw_relD(1) [OF rel]] by fastforce
    then have ne: "?ne \<longrightarrow> e_get s + 1 < length (e_wins s)" using Suc.prems(6) by blast
    show ?thesis
    proof (cases "hops = ?W")
      case False
      then have hops: "hops < ?W" using Suc.prems by simp
      have "wp (hop_elastic cfg l ?i random hops ?W) (\<lambda>(index, random, hops, l).
        wp (get_window_loop_lpw n fuel cfg (bottom (put_win s)) (l\<lparr>thread_get_index := index\<rparr>) hops random ?ne) Q) g"
        by (rule elastic_hop.hop_search [OF _ i hops Suc.prems(3-5)]) (use Suc.prems miss W(1) C ne in \<open>auto intro!: Suc.IH at_lpw_index\<close>)
      then show ?thesis using miss hops pass by simp
    next
      case True
      have "\<forall>j < ?W. \<not> ready_lpw s j" using Suc.prems True i by (intro seen_all) auto
      moreover have "random = elastic_hops cfg" using Suc.prems(3,4) True W(2) by auto
      ultimately show ?thesis using stop [OF Suc.prems(1)] Suc.prems(6,7) True by (simp del: get_window_loop_lpw.simps)
    qed
  qed
qed

text \<open>
  The answer of \<^verbatim>\<open>get_window\<close>: a sub-queue of the get window, after at most one move. If the window is not the last one, the sub-queue has an item in it.
\<close>

definition get_post_lpw :: "elastic_cfg \<Rightarrow> lpw \<Rightarrow> ptr equeue \<Rightarrow> ptr list \<Rightarrow> qdescriptor2Dd \<times> lpw_tl \<Rightarrow> lpw \<Rightarrow> bool" where
  "get_post_lpw cfg g s ws = (\<lambda>(d, l') g'. \<exists>s'. lpw_rel cfg g' s' ws \<and> same_items g g' \<and>
     (s' = s \<or> estep (max_width cfg) s ShiftGet s') \<and> e_items s' = e_items s \<and> e_gets s' = e_gets s \<and> e_wins s' = e_wins s \<and> e_hist s' = e_hist s \<and>
     (\<forall>k. tl_lpw g k \<longrightarrow> tl_lpw g' k) \<and> at_lpw g' s' l' \<and> d = sub_get g ! thread_get_index l' \<and>
     (e_get s' + 1 = length (e_wins s') \<or>
      got_row s' (thread_get_index l') < ew_max (get_win s') \<and> e_gets s' ! thread_get_index l' < length (e_items s' ! thread_get_index l')))"

lemma get_postI_lpw:
  assumes rel: "lpw_rel cfg g' s' ws" and eqs: "same_items g g'" "s' = s \<or> estep (max_width cfg) s ShiftGet s'" "e_items s' = e_items s" "e_gets s' = e_gets s"
    "e_wins s' = e_wins s" "e_hist s' = e_hist s" "\<forall>k. tl_lpw g k \<longrightarrow> tl_lpw g' k" and l: "at_lpw g' s' l'"
    and r: "ready_lpw s' (thread_get_index l') \<or> e_get s' + 1 = length (e_wins s')"
  shows "get_post_lpw cfg g s ws (sub_get g ! thread_get_index l', l'\<lparr>thread_put_index := i\<rparr>) g'"
proof -
  let ?j = "thread_get_index l'"
  note I = lpw_relD(1) [OF rel]
  have "got_row s' ?j < ew_max (get_win s') \<and> e_gets s' ! ?j < length (e_items s' ! ?j)" if ne: "e_get s' + 1 \<noteq> length (e_wins s')"
  proof -
    have lt: "e_get s' + 1 < length (e_wins s')" using ne equeue_invD(5) [OF I] by simp
    have "got_row s' ?j < ew_max (get_win s')" using r ne ready_closed [OF I lt] by simp
    then show ?thesis using closed_window_item [OF I _ lt] l by (simp add: at_lpw_def)
  qed
  then show ?thesis unfolding get_post_lpw_def prod.case by (intro exI [of _ s']) (use rel eqs l in auto)
qed

lemma shift_get_ready:
  assumes rel: "lpw_rel cfg g s ws" and rel': "lpw_rel cfg g' (s\<lparr>e_get := e_get s + 1\<rparr>) ws"
    and lt: "e_get s + 2 < length (e_wins s)" and j: "j < max_width cfg"
  shows "ready_lpw (s\<lparr>e_get := e_get s + 1\<rparr>) j"
proof -
  let ?s = "s\<lparr>e_get := e_get s + 1\<rparr>"
  have "got_row s j \<le> ew_max (get_win s)" by (rule got_row_top [OF lpw_relD(1) [OF rel] j])
  also have "\<dots> < ew_max (get_win ?s)" using wins_mono [OF equeue_invD(3) [OF lpw_relD(1) [OF rel]], of "e_get s" "e_get s + 1"] lt by simp
  finally have "got_row s j < ew_max (get_win ?s)" .
  moreover have "got_row ?s j = got_row s j" by (simp add: got_row_def rows_def)
  ultimately have "got_row ?s j < ew_max (get_win ?s)" by (simp only:)
  then show ?thesis using ready_closed [OF lpw_relD(1) [OF rel']] lt by simp
qed

lemma get_loop_seq_lpw:
  assumes rel: "lpw_rel cfg g s ws" and room: "ew_max (put_win s) < W64" and l: "at_lpw g s l" and fuel: "lpw_fuel cfg \<le> n" "2 \<le> fuel"
  shows "wp (get_window_loop_lpw n fuel cfg (bottom (put_win s)) l 0 0 False) (get_post_lpw cfg g s ws) g"
proof (rule get_walk_lpw [OF rel room, where extra = "max_width cfg + 1"])
  show "at_lpw g s l" "0 \<le> ew_width (get_win s)" "0 \<le> elastic_hops cfg" "0 < elastic_hops cfg \<longrightarrow> (0 :: nat) = 0" "False \<longrightarrow> e_get s + 1 < length (e_wins s)"
    "seen (ew_width (get_win s)) (thread_get_index l) 0 (\<lambda>j. \<not> ready_lpw s j)" using l by simp_all
  show "elastic_hops cfg - 0 + (ew_width (get_win s) - 0) + 1 + (max_width cfg + 1) \<le> n"
    using fuel get_win_row(3) [OF lpw_relD(1) [OF rel]] by (simp add: lpw_fuel_def)
  have same: "same_items g g" by (simp add: same_items_def)
  fix l'
  assume l': "at_lpw g s l'"
  {
    assume "ready_lpw s (thread_get_index l')"
    then show "wp (get_exit_lpw (sub_get g ! thread_get_index l') l') (get_post_lpw cfg g s ws) g"
      by (intro wp_get_exit_lpw get_postI_lpw [OF rel same]) (use l' in simp_all)
  }
  fix m ne
  assume none: "\<forall>j < ew_width (get_win s). \<not> ready_lpw s j" and m: "max_width cfg + 1 \<le> m" and ne: "ne \<longrightarrow> e_get s + 1 < length (e_wins s)"
  have miss: "\<not> ready_lpw s (thread_get_index l')" using none l' by (simp add: at_lpw_def)
  note pass = wp_get_pass_lpw [OF rel l' room, of m fuel "ew_width (get_win s)" "elastic_hops cfg" ne]
  show "wp (get_window_loop_lpw (Suc m) fuel cfg (bottom (put_win s)) l' (ew_width (get_win s)) (elastic_hops cfg) ne) (get_post_lpw cfg g s ws) g"
  proof (cases "e_get s + 1 < length (e_wins s)")
    case False
    then have "e_get s + 1 = length (e_wins s)" using equeue_invD(5) [OF lpw_relD(1) [OF rel]] by simp
    then have "wp (get_exit_lpw (sub_get g ! thread_get_index l') l') (get_post_lpw cfg g s ws) g"
      by (intro wp_get_exit_lpw get_postI_lpw [OF rel same]) (use l' in simp_all)
    then show ?thesis unfolding pass using miss ne False by simp
  next
    case lt: True
    let ?s = "s\<lparr>e_get := e_get s + 1\<rparr>"
    have "\<forall>j < ew_width (get_win s). ew_max (get_win s) \<le> got_row s j" using none ready_closed [OF lpw_relD(1) [OF rel] lt] by (simp add: not_less)
    note sh = shift_gwindow_seq [OF rel lt room fuel(2) this, where l = l', OF _ _ refl]
    have lw: "thread_GWindow l' = global_GWindow g" "thread_PWindow l' = global_PWindow g" using l' by (simp_all add: at_lpw_def)
    have "wp (shift_gwindow fuel l') (\<lambda>l. wp (get_window_loop_lpw m fuel cfg (bottom (put_win s)) (clip_get l) 0 (elastic_hops cfg) False) (get_post_lpw cfg g s ws)) g"
    proof (rule wp_mono [OF sh(2) [OF lw]], elim conjE)
      fix l1 h
      assume rel': "lpw_rel cfg h ?s ws" and eqs: "same_items g h" "global_PWindow h = global_PWindow g" "gw_max (global_GWindow g) < gw_max (global_GWindow h)"
        and l1: "l1 = l'\<lparr>my_slide_count := add64 (my_slide_count l') 1, thread_GWindow := global_GWindow h\<rparr>"
      have tl: "\<forall>k. tl_lpw g k \<longrightarrow> tl_lpw h k" using tl_lpw_mono eqs(2,3) by blast
      have W: "1 \<le> ew_width (get_win ?s)" "ew_width (get_win ?s) \<le> max_width cfg" using get_win_row(3,5) [OF lpw_relD(1) [OF rel']] by simp_all
      have room': "ew_max (put_win ?s) < W64" using room by simp
      have at: "at_lpw h ?s (clip_get l1)" using lw(2) eqs(2) W(1) win_relD(7) [OF lpw_relD(4) [OF rel']] by (simp add: at_lpw_def l1 clip_get_def)
      have post: "wp (get_exit_lpw (sub_get h ! thread_get_index l2) l2) (get_post_lpw cfg g s ws) h"
        if "at_lpw h ?s l2" "ready_lpw ?s (thread_get_index l2) \<or> e_get ?s + 1 = length (e_wins ?s)" for l2
      proof -
        have "sub_get h = sub_get g" using eqs(1) by (simp add: same_items_def)
        then show ?thesis using sh(1) [OF lw] by (simp only:) (intro wp_get_exit_lpw get_postI_lpw [OF rel' eqs(1) _ _ _ _ _ tl]; use that in simp)
      qed
      have "wp (get_window_loop_lpw m fuel cfg (bottom (put_win ?s)) (clip_get l1) 0 (elastic_hops cfg) False) (get_post_lpw cfg g s ws) h"
      proof (rule get_walk_lpw [OF rel' _ post _ at, where extra = 0])
        show "elastic_hops cfg - elastic_hops cfg + (ew_width (get_win ?s) - 0) + 1 + 0 \<le> m" using m W(2) by simp
        fix l2 m2 ne2
        assume l2: "at_lpw h ?s l2" and none2: "\<forall>j < ew_width (get_win ?s). \<not> ready_lpw ?s j" and ne2: "ne2 \<longrightarrow> e_get ?s + 1 < length (e_wins ?s)"
        have lst: "e_get ?s + 1 = length (e_wins ?s)"
        proof (rule ccontr)
          assume "e_get ?s + 1 \<noteq> length (e_wins ?s)"
          then have "e_get s + 2 < length (e_wins s)" using lt by simp
          then show False using shift_get_ready [OF rel rel', of 0] none2 W by auto
        qed
        have "\<not> ready_lpw ?s (thread_get_index l2)" using none2 l2 by (simp add: at_lpw_def)
        then show "wp (get_window_loop_lpw (Suc m2) fuel cfg (bottom (put_win ?s)) l2 (ew_width (get_win ?s)) (elastic_hops cfg) ne2) (get_post_lpw cfg g s ws) h"
          unfolding wp_get_pass_lpw [OF rel' l2 room'] using post [OF l2] lst ne2 by simp
      qed (use room in simp_all)
      then show "wp (get_window_loop_lpw m fuel cfg (bottom (put_win s)) (clip_get l1) 0 (elastic_hops cfg) False) (get_post_lpw cfg g s ws) h" by simp
    qed
    then show ?thesis unfolding pass using miss lt by simp
  qed
qed

lemma get_window_seq_lpw:
  assumes rel: "lpw_rel cfg g s ws" and room: "ew_max (put_win s) < W64" and l: "tl_lpw g l" "thread_PWindow l = global_PWindow g"
    and fuel: "lpw_fuel cfg \<le> n"
  shows "wp (get_window_lpw n cfg l False) (get_post_lpw cfg g s ws) g"
proof -
  note V = win_relD [OF lpw_relD(4) [OF rel]]
  have lb: "sub64 (pw_max (global_PWindow g)) (pw_depth (global_PWindow g)) = bottom (put_win s)" using same_depth(5) [OF rel] V(2,3) room by simp
  have f: "2 \<le> n" using fuel by (simp add: lpw_fuel_def)
  show ?thesis
  proof (cases "gw_max (thread_GWindow l) = gw_max (global_GWindow g)")
    case True
    then have "at_lpw g s l" using l V(7) by (simp add: at_lpw_def tl_lpw_def)
    then show ?thesis using get_loop_seq_lpw [OF rel room _ fuel f] True lb l(2) by (simp add: get_window_lpw_def)
  next
    case False
    have "at_lpw g s (clip_get (l\<lparr>thread_GWindow := global_GWindow g\<rparr>))"
      using l(2) V(7) get_win_row(5) [OF lpw_relD(1) [OF rel]] by (simp add: at_lpw_def clip_get_def)
    moreover have "thread_PWindow (clip_get (l\<lparr>thread_GWindow := global_GWindow g\<rparr>)) = global_PWindow g" using l(2) by (simp add: clip_get_def)
    ultimately show ?thesis using get_loop_seq_lpw [OF rel room _ fuel f] False lb by (simp add: get_window_lpw_def wp_read_windows)
  qed
qed

section \<open>Enqueue and dequeue\<close>

lemma lpw_rel_items:
  assumes "lpw_rel cfg g s ws" "equeue_inv (max_width cfg) s'" "sub_rel (max_width cfg) h s'" "e_wins s' = e_wins s" "e_get s' = e_get s"
    "global_PWindow h = global_PWindow g" "global_GWindow h = global_GWindow g" "cur_depth h = cur_depth g" "cur_width h = cur_width g"
    "wq_heap h = wq_heap g" "wq_used h = wq_used g" "wq_tail h = wq_tail g" "wq_head h = wq_head g"
  shows "lpw_rel cfg h s' ws"
  using assms by (simp add: lpw_rel_def win_rel_def wq_rel_def elastic_cfg_ok_def)

lemma row_above_lpw_eq: "c < m \<Longrightarrow> low < m \<Longrightarrow> m < W64 \<Longrightarrow> row_above_lpw c low = max c low + 1"
  by (auto simp: row_above_lpw_def add64_eq)

text \<open>What an enqueue does: at most one new window, then the item \<open>p\<close> with the given value.\<close>

definition enqueued_lpw :: "elastic_cfg \<Rightarrow> lpw \<Rightarrow> ptr equeue \<Rightarrow> ptr \<Rightarrow> int \<Rightarrow> int \<times> lpw_tl \<Rightarrow> lpw \<Rightarrow> bool" where
  "enqueued_lpw cfg g s p val = (\<lambda>(r, l') g'. \<exists>s1 s' ws'. r = 1 \<and> lpw_rel cfg g' s' ws' \<and> tl_lpw g' l' \<and>
     (s1 = s \<or> estep (max_width cfg) s ShiftPut s1) \<and> estep (max_width cfg) s1 (EEnq p) s' \<and>
     ew_max (put_win s') \<le> ew_max (put_win s) + cur_depth g \<and> (\<forall>k. tl_lpw g k \<longrightarrow> tl_lpw g' k) \<and> cur_depth g' = cur_depth g \<and> cur_width g' = cur_width g \<and>
     node_val (nodes (sub_mem g')) p = val \<and>
     (\<forall>q \<in> set (allocd (nodes (sub_mem g))). q \<noteq> p \<longrightarrow> node_val (nodes (sub_mem g')) q = node_val (nodes (sub_mem g)) q))"

lemma enqueue_seq_lpw:
  assumes rel: "lpw_rel cfg g s ws" and al: "alloc_fresh al" and room: "ew_max (put_win s) + cur_depth g < W64"
    and l: "tl_lpw g l" and fuel: "lpw_fuel cfg \<le> fuel" and p: "p = al t (allocd (nodes (sub_mem g)))"
  shows "wp (enqueue_lpw al fuel cfg t key val l) (enqueued_lpw cfg g s p val) g"
proof -
  obtain n where n: "fuel = Suc n" using fuel by (cases fuel) (auto simp: lpw_fuel_def)
  let ?nd = "\<lparr>n_key = key, n_val = val, n_next = NULL\<rparr>"
  let ?g = "g\<lparr>sub_mem := qm_alloc t p ?nd (sub_mem g)\<rparr>"
  note S0 = sub_relD(4) [OF lpw_relD(2) [OF rel]]
  have fresh: "p \<notin> set (allocd (nodes (sub_mem g)))" "p \<noteq> NULL" using al p by (auto simp: alloc_fresh_def)
  have rel1: "lpw_rel cfg ?g s ws"
    by (rule lpw_rel_items [OF rel lpw_relD(1) [OF rel] sub_rel_alloc [OF lpw_relD(2) [OF rel] fresh]]) simp_all
  have "p \<notin> set (concat (links (sub_mem g)))" using queues_okD(8) [OF S0] fresh(1) by blast
  then have un: "unlinked (sub_mem ?g) t p" "heap (nodes (sub_mem ?g)) p = Some ?nd"
    using fresh(1) queues_hist [OF S0] by (auto simp: unlinked_def mine_def qm_alloc_def mem_alloc_def)
  have vals: "\<forall>q \<in> set (allocd (nodes (sub_mem g))). q \<noteq> p \<longrightarrow> node_val (nodes (sub_mem ?g)) q = node_val (nodes (sub_mem g)) q"
    by (simp add: node_val_def qm_alloc_def mem_alloc_def)
  have room1: "ew_max (put_win s) + cur_depth ?g < W64" and l1: "tl_lpw ?g l" using room l by (simp_all add: tl_lpw_def)
  have "wp (enqueue_loop_lpw fuel fuel al cfg t p l False) (enqueued_lpw cfg g s p val) ?g"
    unfolding n enqueue_loop_lpw.simps wp_bind
  proof (rule wp_mono [OF put_window_seq_lpw [OF rel1 al room1 l1 fuel, unfolded n]], goal_cases)
    case (1 x h)
    obtain d l' where x: "x = (d, l')" by (cases x)
    obtain s1 ws1 where q: "lpw_rel cfg h s1 ws1" "same_items ?g h" "tl_lpw h l'" "s1 = s \<or> estep (max_width cfg) s ShiftPut s1"
      "e_items s1 = e_items s" "ew_max (put_win s1) \<le> ew_max (put_win s) + cur_depth g" "\<forall>k. tl_lpw ?g k \<longrightarrow> tl_lpw h k"
      "thread_PWindow l' = global_PWindow h" "thread_put_index l' < ew_width (put_win s1)" "d = sub_put g ! thread_put_index l'"
      "last_row s (thread_put_index l') < ew_max (put_win s1)"
      using 1 unfolding x put_post_lpw_def by auto
    let ?i = "thread_put_index l'" and ?r = "row_above_lpw (last_row s1 (thread_put_index l')) (bottom (put_win s1))"
    note same = q(2) [unfolded same_items_def, simplified]
    note I = lpw_relD(1) [OF q(1)] and S = sub_relD [OF lpw_relD(2) [OF q(1)]] and V = win_relD [OF lpw_relD(4) [OF q(1)]]
    have lr: "last_row s1 ?i = last_row s ?i" using q(5) by (simp add: last_row_def rows_def)
    have i: "?i < max_width cfg" using q(9) put_win_row(3) [OF I] by simp
    note pl = sub_rel_place [OF lpw_relD(2) [OF q(1)] equeue_invD(1,2) [OF I] i]
    have cnt: "qd_count d = last_row s1 ?i" "d = sub_put h ! ?i" using S(6) [OF i] same q(10) by simp_all
    obtain nd where nd: "heap (nodes (sub_mem h)) (qd_node d) = Some nd" "n_next nd = NULL"
      using place_next [OF S(4) pl(1)] pl(3) cnt(2) by metis
    have rm: "ew_max (put_win s1) < W64" using q(6) room by simp
    have lb: "sub64 (ew_max (put_win s1)) (cur_depth h) = bottom (put_win s1)" using same_depth(5) [OF q(1)] rm by simp
    have lt: "last_row s1 ?i < ew_max (put_win s1)" using q(11) lr by simp
    have row: "?r = max (last_row s1 ?i) (bottom (put_win s1)) + 1" by (rule row_above_lpw_eq [OF lt put_win_row(4) [OF I] rm])
    let ?h = "h\<lparr>sub_mem := qm_link ?i (qd_node (sub_put h ! ?i)) p (sub_mem h), sub_put := (sub_put h)[?i := \<lparr>qd_node = p, qd_count = ?r\<rparr>]\<rparr>"
    let ?s = "s1\<lparr>e_items := (e_items s1)[?i := e_items s1 ! ?i @ [(p, ?r)]], e_hist := p # e_hist s1\<rparr>"
    have un': "unlinked (sub_mem h) t p" "heap (nodes (sub_mem h)) p = Some ?nd" "n_next ?nd = NULL" using un same by simp_all
    note C = enq_commit [OF I lpw_relD(2) [OF q(1)] q(9) lt un' row refl refl]
    have rel2: "lpw_rel cfg ?h ?s ws1" by (rule lpw_rel_items [OF q(1) C(2,3)]) simp_all
    have nv: "node_val (nodes (sub_mem ?h)) = node_val (nodes (sub_mem h))"
      by (auto simp: qm_link_def mem_publish_def mem_set_next_def node_val_def fun_eq_iff split: option.split)
    have keep: "node_val (nodes (sub_mem h)) p = val" "node_val (nodes (sub_mem h)) = node_val (nodes (sub_mem ?g))"
      using same un'(2) by (simp_all add: node_val_def)
    have tl: "tl_lpw ?h k = tl_lpw h k" "tl_lpw ?g k = tl_lpw g k" for k by (simp_all add: tl_lpw_def)
    have "enqueued_lpw cfg g s p val (1, l') ?h"
      unfolding enqueued_lpw_def prod.case nv tl
      by (rule exI [of _ s1], rule exI [of _ ?s], rule exI [of _ ws1])
        (use rel2 C(1) q(3,4,6) q(7) [unfolded tl(2)] keep vals same in simp)
    moreover have "gw_max (thread_GWindow l') \<le> ew_max (put_win s1)" using q(3) V(7) get_le_put [OF I] by (auto simp: tl_lpw_def)
    ultimately show ?case unfolding x prod.case
      using V(2-4) q(8,9,11) lr cnt nd i S(2) lb lt by (simp add: wp_descs wp_elastic_steps Let_def)
  qed
  then show ?thesis using p fresh(2) by (simp add: enqueue_lpw_def create_node_elastic_def Let_def)
qed

text \<open>
  What a dequeue does: at most one move of the get window, then it takes an item that at most
  \<open>depth * (width - 1)\<close> waiting items are older than, or it returns 0 with no more than as many items waiting.
\<close>

definition dequeued_lpw :: "elastic_cfg \<Rightarrow> lpw \<Rightarrow> ptr equeue \<Rightarrow> ptr list \<Rightarrow> int \<times> lpw_tl \<Rightarrow> lpw \<Rightarrow> bool" where
  "dequeued_lpw cfg g s ws = (\<lambda>(r, l') g'. \<exists>s1 s'. lpw_rel cfg g' s' ws \<and> tl_lpw g' l' \<and>
     (s1 = s \<or> estep (max_width cfg) s ShiftGet s1) \<and> (\<forall>k. tl_lpw g k \<longrightarrow> tl_lpw g' k) \<and> e_wins s1 = e_wins s \<and> e_wins s' = e_wins s \<and> e_get s' = e_get s1 \<and>
     heap (nodes (sub_mem g')) = heap (nodes (sub_mem g)) \<and> cur_depth g' = cur_depth g \<and> cur_width g' = cur_width g \<and>
     (r = 0 \<and> s' = s1 \<and> length (concat (e_waiting s)) \<le> ew_depth (get_win s1) * (ew_width (get_win s1) - 1) \<or>
      (\<exists>p. r = node_val (nodes (sub_mem g)) p \<and> estep (max_width cfg) s1 (EDeq p) s' \<and>
         e_older s p \<le> ew_depth (get_win s1) * (ew_width (get_win s1) - 1))))"

lemma at_lpw_tl: "lpw_rel cfg g s ws \<Longrightarrow> at_lpw g s l \<Longrightarrow> tl_lpw g l"
  using win_relD(7) [OF lpw_relD(4)] by (auto simp: at_lpw_def tl_lpw_def)

lemma non_overlap_seq:
  assumes rel: "lpw_rel cfg h s1 ws" and room: "ew_max (put_win s1) < W64" and l: "at_lpw h s1 l" and d: "d = sub_get h ! thread_get_index l"
    and i: "got_row s1 (thread_get_index l) < ew_max (get_win s1)" "e_gets s1 ! thread_get_index l < length (e_items s1 ! thread_get_index l)"
    and s1: "s1 = s \<or> estep (max_width cfg) s ShiftGet s1" "e_items s1 = e_items s" "e_gets s1 = e_gets s" "e_wins s1 = e_wins s" "e_hist s1 = e_hist s"
    and same: "same_items g h" "\<forall>k. tl_lpw g k \<longrightarrow> tl_lpw h k"
  shows "wp (non_overlap t d l again) (dequeued_lpw cfg g s ws) h"
proof -
  let ?i = "thread_get_index l"
  note I = lpw_relD(1) [OF rel] and S = sub_relD [OF lpw_relD(2) [OF rel]] and V = win_relD [OF lpw_relD(4) [OF rel]]
  have iw: "?i < ew_width (get_win s1)" and lw: "thread_GWindow l = global_GWindow h" using l by (simp_all add: at_lpw_def)
  have n: "?i < max_width cfg" using iw get_win_row(3) [OF I] by simp
  let ?p = "fst (e_items s1 ! ?i ! (e_gets s1 ! ?i))" and ?r = "max (got_row s1 ?i) (bottom (get_win s1)) + 1"
  let ?s = "s1\<lparr>e_gets := (e_gets s1)[?i := e_gets s1 ! ?i + 1]\<rparr>"
  let ?h = "h\<lparr>sub_get := (sub_get h)[?i := \<lparr>qd_node = ?p, qd_count = ?r\<rparr>], sub_mem := qm_free t (qd_node d) (qm_take t (qd_node d) ?p (sub_mem h))\<rparr>"
  note D = deq_commit [where t = t, OF I lpw_relD(2) [OF rel] iw i refl refl d refl refl] and A = next_row_arith [OF I room i(1)]
  obtain nd nn where nd: "heap (nodes (sub_mem h)) (qd_node d) = Some nd" "n_next nd = ?p" and nn: "heap (nodes (sub_mem h)) ?p = Some nn" using D(5,6) by blast
  have row: "(if add64 (qd_count d) 1 < add64 (bottom (get_win s1)) 1 then add64 (bottom (get_win s1)) 1 else add64 (qd_count d) 1) = ?r"
    unfolding D(7) by (rule A(2))
  have rel': "lpw_rel cfg ?h ?s ws" by (rule lpw_rel_items [OF rel D(2,3)]) simp_all
  have old: "e_older s ?p \<le> ew_depth (get_win s1) * (ew_width (get_win s1) - 1)" using D(4) s1 by (simp add: e_older_def e_waiting_def)
  have tl: "tl_lpw ?h k = tl_lpw h k" for k by (simp add: tl_lpw_def)
  have keep: "heap (nodes (sub_mem ?h)) = heap (nodes (sub_mem g))" "cur_depth ?h = cur_depth g" "cur_width ?h = cur_width g" "n_val nn = node_val (nodes (sub_mem g)) ?p" "e_wins ?s = e_wins s"
    using same(1) nn s1(4) by (simp_all add: same_items_def qm_take_def qm_free_def mem_remove_def mem_free_def node_val_def)
  have "dequeued_lpw cfg g s ws (n_val nn, l) ?h"
    unfolding dequeued_lpw_def prod.case tl
    by (rule exI [of _ s1], rule exI [of _ ?s], intro conjI disjI2 exI [of _ ?p] keep D(1) old rel' s1(1,4) same(2) at_lpw_tl [OF rel l]) simp
  moreover have "heap (nodes (qm_free t x (qm_take t x y m))) = heap (nodes m)" for x y m
    by (simp add: qm_take_def qm_free_def mem_remove_def mem_free_def)
  moreover have "sub64 (gw_max (thread_GWindow l)) (gw_depth (thread_GWindow l)) = bottom (get_win s1)" using A(1) V(7) lw same_depth(2) [OF rel] by simp
  ultimately show ?thesis
    unfolding non_overlap_def using nd nn row d n S(1)
    by (cases "add64 (qd_count d) 1 < add64 (bottom (get_win s1)) 1") (simp_all add: wp_elastic_steps Let_def)
qed

lemma dequeue_seq_lpw:
  assumes rel: "lpw_rel cfg g s ws" and room: "ew_max (put_win s) < W64" and l: "tl_lpw g l" and fuel: "lpw_fuel cfg \<le> fuel"
  shows "wp (dequeue_lpw fuel cfg t l) (dequeued_lpw cfg g s ws) g"
proof -
  obtain n where n: "fuel = Suc n" using fuel by (cases fuel) (auto simp: lpw_fuel_def)
  let ?l = "l\<lparr>thread_PWindow := global_PWindow g\<rparr>"
  have tl: "tl_lpw g ?l" "thread_PWindow ?l = global_PWindow g" using tl_lpw_sync [OF l] by simp_all
  have "wp (dequeue_loop_lpw fuel fuel cfg t ?l False) (dequeued_lpw cfg g s ws) g"
    unfolding n dequeue_loop_lpw.simps wp_bind
  proof (rule wp_mono [OF get_window_seq_lpw [OF rel room tl fuel, unfolded n]], goal_cases)
    case (1 x h)
    obtain d l' where x: "x = (d, l')" by (cases x)
    obtain s1 where q: "lpw_rel cfg h s1 ws" "same_items g h" "s1 = s \<or> estep (max_width cfg) s ShiftGet s1"
      "e_items s1 = e_items s" "e_gets s1 = e_gets s" "e_wins s1 = e_wins s" "e_hist s1 = e_hist s" "\<forall>k. tl_lpw g k \<longrightarrow> tl_lpw h k"
      "at_lpw h s1 l'" "d = sub_get g ! thread_get_index l'"
      and r: "e_get s1 + 1 = length (e_wins s1) \<or>
        got_row s1 (thread_get_index l') < ew_max (get_win s1) \<and> e_gets s1 ! thread_get_index l' < length (e_items s1 ! thread_get_index l')"
      using 1 unfolding x get_post_lpw_def by auto
    let ?i = "thread_get_index l'" and ?again = "\<lambda>l. dequeue_loop_lpw n (Suc n) cfg t l True"
    note I = lpw_relD(1) [OF q(1)] and S = sub_relD [OF lpw_relD(2) [OF q(1)]] and V = win_relD [OF lpw_relD(4) [OF q(1)]]
    have room1: "ew_max (put_win s1) < W64" using room q(6) by simp
    have iw: "?i < ew_width (get_win s1)" and lw: "thread_GWindow l' = global_GWindow h" "thread_PWindow l' = global_PWindow h"
      using q(9) by (simp_all add: at_lpw_def)
    have i: "?i < max_width cfg" using iw get_win_row(3) [OF I] by simp
    have d: "d = sub_get h ! ?i" using q(2,10) by (simp add: same_items_def)
    note H = head_is_tail [OF I lpw_relD(2) [OF q(1)] i]
    have lb: "sub64 (pw_max (thread_PWindow l')) (pw_depth (thread_PWindow l')) = bottom (put_win s1)" using same_depth(5) [OF q(1)] V(2,3) lw room1 by simp
    have gm: "gw_max (thread_GWindow l') = ew_max (get_win s1)" using V(7) lw by simp
    have take: "wp (non_overlap t d l' ?again) (dequeued_lpw cfg g s ws) h" if "e_gets s1 ! ?i < length (e_items s1 ! ?i)"
    proof -
      have "got_row s1 ?i < ew_max (get_win s1)" using r open_window_item(4) [OF I _ i that order_refl] by blast
      then show ?thesis by (rule non_overlap_seq [OF q(1) room1 q(9) d _ that q(3-7) q(2,8)])
    qed
    have empty: "dequeued_lpw cfg g s ws (0, l'\<lparr>my_null_count := c\<rparr>) h"
      if "e_get s1 + 1 = length (e_wins s1)" "e_gets s1 ! ?i = length (e_items s1 ! ?i)" for c
    proof -
      have "length (concat (e_waiting s)) \<le> ew_depth (get_win s1) * (ew_width (get_win s1) - 1)"
        using open_window_few [OF I that(1) iw that(2)] q(4,5) by (simp add: e_waiting_def)
      then show ?thesis unfolding dequeued_lpw_def prod.case
        by (intro exI [of _ s1]) (use q at_lpw_tl [OF q(1,9)] in \<open>simp add: same_items_def\<close>)
    qed
    show ?case
    proof (cases "e_get s1 + 1 = length (e_wins s1)")
      case last: True
      have lt: "bottom (put_win s1) < ew_max (get_win s1)" using wins_order(3) [OF I last] put_win_row(4) [OF I] by simp
      show ?thesis
      proof (cases "e_gets s1 ! ?i = length (e_items s1 ! ?i)")
        case True
        obtain nd where "heap (nodes (sub_mem h)) (qd_node d) = Some nd" "n_next nd = NULL" using H(2) [OF True] d by blast
        then show ?thesis unfolding x prod.case using lb gm lt i S(2) H(1) True d empty [OF last True] by (simp add: wp_descs wp_elastic_steps Let_def)
      next
        case False
        then have "e_gets s1 ! ?i < length (e_items s1 ! ?i)" using sub_rel_place(4) [OF lpw_relD(2) [OF q(1)] equeue_invD(1,2) [OF I] i] by simp
        then show ?thesis unfolding x prod.case using lb gm lt i S(2) H(1) False d take by (simp add: wp_descs Let_def)
      qed
    next
      case False
      then have "e_get s1 + 1 < length (e_wins s1)" using equeue_invD(5) [OF I] by simp
      then have "\<not> bottom (put_win s1) < ew_max (get_win s1)" using wins_order(2) [OF I] by simp
      then show ?thesis unfolding x prod.case using lb gm r False take by (simp add: Let_def)
    qed
  qed
  then show ?thesis by (simp add: dequeue_lpw_def wp_read_windows)
qed

end
