(* ===== verification/Elastic_Lpw_Calls.thy ===== *)
theory Elastic_Lpw_Calls
  imports Elastic_Lpw_Seq
begin

text \<open>
  Calls on the elastic queue with a lateral queue beside its windows, one after the other: with \<^verbatim>\<open>update_width\<close> among them every call
  returns, and the queue is a pool of nodes from which a dequeue takes one that is among the oldest. Two executions show what the theorem leaves out: that a dequeue
  may return 0 although there are items, and that \<^verbatim>\<open>update_depth\<close> breaks the bound.
\<close>

section \<open>Calls\<close>

text \<open>What the theorem is about: the depth stays, the operations do not check the width they are given.\<close>

definition lpw_legal :: "elastic_cfg \<Rightarrow> elastic_call \<Rightarrow> bool" where
  "lpw_legal cfg c \<longleftrightarrow> (case c of SetWidth w \<Rightarrow> 1 \<le> w \<and> w \<le> max_width cfg | SetDepth d \<Rightarrow> False | _ \<Rightarrow> True)"

definition lpw_calls_inv :: "allocator \<Rightarrow> nat \<Rightarrow> elastic_cfg \<Rightarrow> nat \<Rightarrow> lpw_tl list \<Rightarrow> lpw \<Rightarrow> bool" where
  "lpw_calls_inv al fuel cfg n ls g \<longleftrightarrow> alloc_fresh al \<and> lpw_fuel cfg \<le> fuel \<and>
     length (hist (nodes (sub_mem g))) + n < fuel \<and> length (hist (nodes (sub_mem g))) + n < W64 \<and>
     (\<exists>s ws. lpw_rel cfg g s ws \<and> (\<forall>l \<in> set ls. tl_lpw g l) \<and> ew_max (put_win s) + (n + 1) * 65536 < W64)"

text \<open>
  What a call does, in terms of the pool. The bound of a dequeue is for the window that is open for dequeues when it
  returns.
\<close>

abbreviation lpw_bound :: "lpw \<Rightarrow> nat" where
  "lpw_bound g \<equiv> gw_depth (global_GWindow g) * (gw_width (global_GWindow g) - 1)"

definition lpw_spec :: "elastic_call \<Rightarrow> lpw \<Rightarrow> int \<Rightarrow> lpw \<Rightarrow> bool" where
  "lpw_spec c g r g' \<longleftrightarrow>
     (case c of
        LEnq key val \<Rightarrow> r = 1 \<and> (\<exists>p. p \<notin># pool g \<and> pool g' = add_mset p (pool g) \<and> node_val (nodes (sub_mem g')) p = val \<and>
          hist (nodes (sub_mem g')) = p # hist (nodes (sub_mem g)))
      | LDeq \<Rightarrow> hist (nodes (sub_mem g')) = hist (nodes (sub_mem g)) \<and>
          (r = 0 \<and> pool g' = pool g \<and> size (pool g) \<le> lpw_bound g' \<or>
           (\<exists>p. pool g = add_mset p (pool g') \<and> r = node_val (nodes (sub_mem g)) p \<and> elastic_older g p \<le> lpw_bound g'))
      | LSize \<Rightarrow> r = int (size (pool g)) \<and> g' = g
      | SetWidth w \<Rightarrow> r = int (cur_width g) \<and> g' = g\<lparr>cur_width := w\<rparr>
      | SetDepth d \<Rightarrow> r = int (cur_depth g) \<and> g' = g\<lparr>cur_depth := d\<rparr>
      | GetWidth \<Rightarrow> r = int (cur_width g) \<and> g' = g
      | GetDepth \<Rightarrow> r = int (cur_depth g) \<and> g' = g)"

lemma tl_lpw_list:
  "\<forall>l \<in> set ls. tl_lpw g l \<Longrightarrow> tl_lpw g l' \<Longrightarrow> \<forall>l \<in> set (ls[t := l']). tl_lpw g l"
  using set_update_subset_insert [of ls t l'] by blast

lemma enqueued_lpw_spec:
  assumes rel: "lpw_rel cfg g s ws" and E: "enqueued_lpw cfg g s p val (r, l') g'"
  shows "lpw_spec (LEnq key val) g r g'"
proof -
  obtain s1 s' ws' where e: "r = 1" "lpw_rel cfg g' s' ws'" "s1 = s \<or> estep (max_width cfg) s ShiftPut s1"
    "estep (max_width cfg) s1 (EEnq p) s'" "node_val (nodes (sub_mem g')) p = val"
    using E by (auto simp: enqueued_lpw_def)
  show ?thesis using e(1,5) pool_enq [OF lpw_relD(1,2) [OF rel] lpw_relD(1,2) [OF e(2)] e(3,4)] by (auto simp: lpw_spec_def intro!: exI [of _ p])
qed

lemma dequeued_lpw_spec:
  assumes rel: "lpw_rel cfg g s ws" and D: "dequeued_lpw cfg g s ws (r, l') g'"
  shows "lpw_spec LDeq g r g'"
proof -
  obtain s1 s' where d: "lpw_rel cfg g' s' ws" "s1 = s \<or> estep (max_width cfg) s ShiftGet s1" "e_wins s1 = e_wins s" "e_wins s' = e_wins s" "e_get s' = e_get s1"
    and alt: "r = 0 \<and> s' = s1 \<and> length (concat (e_waiting s)) \<le> ew_depth (get_win s1) * (ew_width (get_win s1) - 1) \<or>
      (\<exists>p. r = node_val (nodes (sub_mem g)) p \<and> estep (max_width cfg) s1 (EDeq p) s' \<and>
         e_older s p \<le> ew_depth (get_win s1) * (ew_width (get_win s1) - 1))"
    using D unfolding dequeued_lpw_def prod.case by blast
  note P = pool_deq [OF lpw_relD(1,2) [OF rel] lpw_relD(1,2) [OF d(1)] d(2)]
  have "get_win s' = get_win s1" using d(3-5) by simp
  then have b: "ew_depth (get_win s1) * (ew_width (get_win s1) - 1) = lpw_bound g'"
    using same_depth(2) [OF d(1)] win_relD(7) [OF lpw_relD(4) [OF d(1)]] by simp
  from alt show ?thesis
  proof (elim disjE exE conjE)
    assume "r = 0" "s' = s1" "length (concat (e_waiting s)) \<le> ew_depth (get_win s1) * (ew_width (get_win s1) - 1)"
    then show ?thesis using P b elastic_waiting_rel [OF lpw_relD(1,2) [OF rel]] by (simp add: lpw_spec_def)
  next
    fix p assume "r = node_val (nodes (sub_mem g)) p" "estep (max_width cfg) s1 (EDeq p) s'"
      "e_older s p \<le> ew_depth (get_win s1) * (ew_width (get_win s1) - 1)"
    then show ?thesis using P [of p] b elastic_older_rel [OF lpw_relD(1,2) [OF rel], of p] by (auto simp: lpw_spec_def intro!: exI [of _ p])
  qed
qed

interpretation lpw_calls: guarded_calls "lpw_call al fuel cfg" "lpw_calls_inv al fuel cfg" "\<lambda>g. g" lpw_spec "lpw_legal cfg" for al fuel cfg
proof
  fix n ls g t c
  assume inv: "lpw_calls_inv al fuel cfg (Suc n) ls g" and t: "t < length ls" and c: "lpw_legal cfg c"
  let ?H = "length (hist (nodes (sub_mem g)))"
  obtain s ws where al: "alloc_fresh al" "lpw_fuel cfg \<le> fuel" and H: "?H + Suc n < fuel" "?H + Suc n < W64"
    and rel: "lpw_rel cfg g s ws" and ls: "\<forall>l \<in> set ls. tl_lpw g l"
    and room: "ew_max (put_win s) + (Suc n + 1) * 65536 < W64" using inv unfolding lpw_calls_inv_def by blast
  have l: "tl_lpw g (ls ! t)" using ls t by simp
  have dp: "cur_depth g < 65536" by (rule same_depth(4) [OF rel])
  have keep: "lpw_calls_inv al fuel cfg n ls' g'"
    if "lpw_rel cfg g' s' ws'" "\<forall>l \<in> set ls'. tl_lpw g' l" "ew_max (put_win s') \<le> ew_max (put_win s) + 65536"
      "length (hist (nodes (sub_mem g'))) \<le> ?H + 1" for ls' g' s' ws'
  proof -
    have "ew_max (put_win s') + (n + 1) * 65536 < W64" using that(3) room by simp
    then show ?thesis using al H that(1,2,4) unfolding lpw_calls_inv_def by (intro conjI exI [of _ s'] exI [of _ ws']) simp_all
  qed
  have same: "lpw_calls_inv al fuel cfg n (ls[t := ls ! t]) g" using keep [OF rel] ls by simp
  show "wp (lpw_call al fuel cfg t c (ls ! t)) (\<lambda>(r, l) g'. lpw_calls_inv al fuel cfg n (ls[t := l]) g' \<and> lpw_spec c g r g') g"
  proof (cases c)
    case (LEnq key val)
    have "ew_max (put_win s) + cur_depth g < W64" using room dp by simp
    note wp = enqueue_seq_lpw [OF rel al(1) this l al(2) refl]
    show ?thesis unfolding LEnq lpw_call_def elastic_call.case
    proof (rule wp_mono [OF wp], clarify)
      fix r l' g'
      assume E: "enqueued_lpw cfg g s (al t (allocd (nodes (sub_mem g)))) val (r, l') g'"
      then obtain s' ws' where e: "lpw_rel cfg g' s' ws'" "tl_lpw g' l'" "ew_max (put_win s') \<le> ew_max (put_win s) + cur_depth g"
        "\<forall>k. tl_lpw g k \<longrightarrow> tl_lpw g' k" by (auto simp: enqueued_lpw_def)
      note sp = enqueued_lpw_spec [OF rel E, of key]
      have "\<forall>k \<in> set (ls[t := l']). tl_lpw g' k" using ls e(2,4) by (intro tl_lpw_list) blast+
      moreover have "length (hist (nodes (sub_mem g'))) \<le> ?H + 1" using sp by (auto simp: lpw_spec_def)
      ultimately show "lpw_calls_inv al fuel cfg n (ls[t := l']) g' \<and> lpw_spec (LEnq key val) g r g'"
        using sp e(3) dp keep [OF e(1)] by simp
    qed
  next
    case LDeq
    have rm: "ew_max (put_win s) < W64" using room by simp
    show ?thesis unfolding LDeq lpw_call_def elastic_call.case
    proof (rule wp_mono [OF dequeue_seq_lpw [OF rel rm l al(2)]], clarify)
      fix r l' g'
      assume D: "dequeued_lpw cfg g s ws (r, l') g'"
      then obtain s' where d: "lpw_rel cfg g' s' ws" "tl_lpw g' l'" "\<forall>k. tl_lpw g k \<longrightarrow> tl_lpw g' k" "e_wins s' = e_wins s"
        by (auto simp: dequeued_lpw_def)
      note sp = dequeued_lpw_spec [OF rel D]
      have "\<forall>k \<in> set (ls[t := l']). tl_lpw g' k" using ls d(2,3) by (intro tl_lpw_list) blast+
      moreover have "length (hist (nodes (sub_mem g'))) \<le> ?H + 1" using sp by (simp add: lpw_spec_def)
      ultimately show "lpw_calls_inv al fuel cfg n (ls[t := l']) g' \<and> lpw_spec LDeq g r g'"
        using sp keep [OF d(1)] d(4) by simp
    qed
  next
    case LSize
    have "wp (queue_size_lpw fuel cfg) (\<lambda>r h. r = length (concat (elastic_waiting g)) \<and> h = g) g"
      unfolding queue_size_lpw_def using H by (intro queue_size_elastic_seq [OF lpw_relD(1,2) [OF rel]]) simp_all
    then show ?thesis unfolding LSize lpw_call_def elastic_call.case wp_bind
      by (rule wp_mono) (use same in \<open>simp add: lpw_spec_def\<close>)
  next
    case (SetWidth w)
    have "lpw_rel cfg (g\<lparr>cur_width := w\<rparr>) s ws"
      using rel c SetWidth by (auto simp: lpw_rel_def elastic_cfg_ok_def win_rel_def wq_rel_def sub_rel_def lpw_legal_def)
    then have "lpw_calls_inv al fuel cfg n (ls[t := ls ! t]) (g\<lparr>cur_width := w\<rparr>)" by (rule keep) (use ls in \<open>simp_all add: tl_lpw_def\<close>)
    then show ?thesis by (simp add: SetWidth lpw_call_def update_width_lpw_def update_width_elastic_def lpw_spec_def)
  qed (use same c in \<open>simp_all add: lpw_call_def get_width_lpw_def get_depth_lpw_def get_width_elastic_def get_depth_elastic_def lpw_spec_def lpw_legal_def\<close>)
qed

section \<open>What create\_queue sets up\<close>

lemma create_queue_lpw_rel:
  assumes c: "create_queue_lpw al t junk nt w d mw mode bound = Some (cfg, g)" and al: "alloc_fresh al"
    and u: "1 \<le> cur_width g" "max_width cfg < 65536" "cur_depth g < 65536"
  shows "lpw_rel cfg g (empty_equeue (max_width cfg) (cur_width g) (cur_depth g)) [al t []]" "1 \<le> cur_depth g" "pw_max (global_PWindow g) = cur_depth g"
    "gw_max (global_GWindow g) = cur_depth g"
proof -
  let ?n = "max_width cfg" and ?p = "al t []"
  let ?s = "empty_equeue ?n (cur_width g) (cur_depth g)"
  let ?m = "add_sentinels al t junk ?n"
  obtain arr where g: "sub_get g = arr" "sub_put g = arr" "arr = map (\<lambda>q. \<lparr>qd_node = hd q, qd_count = 0\<rparr>) (links ?m)" "sub_mem g = ?m"
    "wq_used g = [?p]" "wq_tail g = ?p" "wq_head g = ?p" "cur_width g \<le> ?n" "elastic_hops cfg = 2"
    "wq_heap g = [?p \<mapsto> \<lparr>wn_next = NULL, wn_count = 0, wn_width = cur_width g\<rparr>]"
    "global_PWindow g = \<lparr>pw_max = cur_depth g, pw_depth = cur_depth g, pw_width = cur_width g, pw_next_width = cur_width g\<rparr>"
    "global_GWindow g = \<lparr>gw_max = cur_depth g, gw_depth = cur_depth g, gw_width = cur_width g\<rparr>" "cur_depth g \<noteq> 0"
    using c by (auto simp: create_queue_lpw_def create_lateral_queue_lpw_def initialize_global_window_lpw_def Let_def split: option.splits if_splits)
  show d: "1 \<le> cur_depth g" "pw_max (global_PWindow g) = cur_depth g" "gw_max (global_GWindow g) = cur_depth g" using g by simp_all
  have inv: "equeue_inv ?n ?s" by (rule empty_equeue_inv [OF u(1) g(8) d(1)])
  have lat: "laterals (e_wins ?s) = [(0, cur_width g)]" "changes (e_wins ?s) (e_get ?s) = []" by (simp_all add: laterals_def changes_def empty_equeue_def)
  have "?p \<noteq> NULL" using al by (simp add: alloc_fresh_def)
  then have "wq_rel g ?s [?p]" unfolding wq_rel_def lat by (simp add: g wq_of_def lat ptr_at_def)
  moreover have "win_rel cfg g ?s" using u(1) g by (auto simp: win_rel_def empty_equeue_def less_Suc_eq)
  moreover have "sub_rel ?n g ?s" by (rule empty_sub_rel [OF al g(4), folded g(3), OF g(1,2)])
  moreover have "elastic_cfg_ok cfg g" using u g d by (simp add: elastic_cfg_ok_def)
  ultimately show "lpw_rel cfg g ?s [?p]" using inv by (simp add: lpw_rel_def)
qed

lemma create_queue_lpw_calls:
  assumes c: "create_queue_lpw al t junk nt w d mw mode bound = Some (cfg, g)" and al: "alloc_fresh al"
    and u: "1 \<le> cur_width g" "max_width cfg < 65536" "cur_depth g < 65536"
    and fuel: "lpw_fuel cfg + n < fuel" and n: "(n + 2) * 65536 < W64"
  shows "lpw_calls_inv al fuel cfg n (map fresh_lpw sds) g"
proof -
  let ?s = "empty_equeue (max_width cfg) (cur_width g) (cur_depth g)"
  note C = create_queue_lpw_rel [OF c al u]
  have "\<forall>l \<in> set (map fresh_lpw sds). tl_lpw g l" using C(2-4) by (simp add: tl_lpw_def fresh_lpw_def)
  moreover have "ew_max (put_win ?s) + (n + 1) * 65536 < W64" using n u(3) by (simp add: empty_equeue_def)
  moreover have "hist (nodes (sub_mem g)) = []" using C(1) by (simp add: lpw_rel_def sub_rel_def empty_equeue_def)
  then have "length (hist (nodes (sub_mem g))) + n < fuel" "length (hist (nodes (sub_mem g))) + n < W64" using fuel n by simp_all
  moreover have "lpw_fuel cfg \<le> fuel" using fuel by simp
  ultimately show ?thesis using al C(1) unfolding lpw_calls_inv_def by blast
qed

section \<open>Properties\<close>

text \<open>
  C38. The elastic queue with a lateral queue beside its windows is out of order by no more than its windows allow while its depth is not changed. Take the queue
  that \<^verbatim>\<open>create_queue\<close> returns, for a width of at least 1, and any list of calls that do not overlap, by threads that start
  with no window: enqueues, dequeues, \<^verbatim>\<open>queue_size\<close>, \<^verbatim>\<open>get_width\<close>, \<^verbatim>\<open>get_depth\<close>, and \<^verbatim>\<open>update_width\<close> with a width of 1 to \<open>max_width\<close>.
  Every call returns. An enqueue adds one new node that holds its value. With \<open>k = depth * (width - 1)\<close> for the get window after it, a dequeue
  removes a node, returns its value, and at most \<open>k\<close> of the nodes in the queue were enqueued before it, or it removes nothing, returns 0, and there are at most \<open>k\<close> nodes in the
  queue. \<^verbatim>\<open>queue_size\<close> returns the number of nodes in the queue, \<^verbatim>\<open>update_width\<close> the old width.
\<close>

theorem lpw_queue_k_out_of_order:
  assumes "create_queue_lpw al t0 junk nt w d mw mode bound = Some (cfg, g0)" "alloc_fresh al"
    and "1 \<le> cur_width g0" "max_width cfg < 65536" "cur_depth g0 < 65536"
    and "lpw_fuel cfg + length cs < fuel" "(length cs + 2) * 65536 < W64"
    and "\<forall>(t, c) \<in> set cs. t < length sds \<and> lpw_legal cfg c"
  shows "\<exists>rs ls' g. exec_calls (lpw_call al fuel cfg) cs (map fresh_lpw sds, g0) = Some (rs, ls', g) \<and>
    spec_run lpw_spec (map snd cs) g0 rs g"
proof -
  have "lpw_calls_inv al fuel cfg (length cs + 0) (map fresh_lpw sds) g0" using create_queue_lpw_calls [OF assms(1-7)] by simp
  moreover have "\<forall>(t, c) \<in> set cs. t < length (map fresh_lpw sds) \<and> lpw_legal cfg c" using assms(8) by simp
  ultimately show ?thesis using lpw_calls.guarded_returns [of al fuel cfg cs 0 "map fresh_lpw sds" g0] by blast
qed

text \<open>Queues of width \<open>w\<close>, at most 2, and depth 1.\<close>

definition demo_lpw :: "nat \<Rightarrow> elastic_cfg \<times> lpw" where
  "demo_lpw w = the (create_queue_lpw bump_alloc 0 \<lparr>n_key = 0, n_val = 0, n_next = 0\<rparr> 2 w 1 2 0 0)"

lemma demo_lpw_created:
  "w \<in> {1, 2} \<Longrightarrow> create_queue_lpw bump_alloc 0 \<lparr>n_key = 0, n_val = 0, n_next = 0\<rparr> 2 w 1 2 0 0 = Some (fst (demo_lpw w), snd (demo_lpw w))"
  by (auto simp: demo_lpw_def create_queue_lpw_def calc_params_def bound16_def Let_def create_lateral_queue_lpw_def initialize_global_window_lpw_def)

lemma demo_lpw_eq: "w \<in> {1, 2} \<Longrightarrow> demo_lpw w = (\<lparr>elastic_hops = 2, max_width = 2, elastic_bound = w - 1, elastic_mode = 0\<rparr>,
   \<lparr>sub_get = [\<lparr>qd_node = 1, qd_count = 0\<rparr>, \<lparr>qd_node = 2, qd_count = 0\<rparr>],
    sub_put = [\<lparr>qd_node = 1, qd_count = 0\<rparr>, \<lparr>qd_node = 2, qd_count = 0\<rparr>],
    cur_depth = 1, cur_width = w, sub_mem = add_sentinels bump_alloc 0 \<lparr>n_key = 0, n_val = 0, n_next = 0\<rparr> 2,
    global_PWindow = \<lparr>pw_max = 1, pw_depth = 1, pw_width = w, pw_next_width = w\<rparr>, global_GWindow = \<lparr>gw_max = 1, gw_depth = 1, gw_width = w\<rparr>,
    wq_heap = [1 \<mapsto> \<lparr>wn_next = 0, wn_count = 0, wn_width = w\<rparr>], wq_used = [1], wq_freed = [], wq_tail = 1, wq_head = 1\<rparr>)"
proof -
  assume w: "w \<in> {1, 2}"
  have "bump_alloc 0 [] = 1" by (simp add: bump_alloc_def)
  then show ?thesis using w
    by (auto simp: demo_lpw_def create_queue_lpw_def calc_params_def bound16_def Let_def create_lateral_queue_lpw_def initialize_global_window_lpw_def two_sentinels)
qed

lemmas demo_lpw_eqs [prog_unfold] = demo_lpw_eq [of 1, simplified, unfolded One_nat_def] demo_lpw_eq [of 2, simplified] two_sentinels queue_size_elastic_def
  queue_walk_elastic.simps(2) [of "pred_numeral k" for k, folded numeral_eq_Suc] upt_rec

theorem lpw_queue_k_out_of_order_witness:
  "\<exists>rs ls' g. exec_calls (lpw_call bump_alloc 30 (fst (demo_lpw 1)))
     [(0, LEnq 1 10), (0, SetWidth 2), (1, LEnq 2 20), (0, LEnq 3 30), (1, LDeq), (0, LSize), (0, LDeq)]
     (map fresh_lpw [(1, 2, 3), (4, 5, 6)], snd (demo_lpw 1)) = Some (rs, ls', g) \<and>
   spec_run lpw_spec (map snd [(0 :: nat, LEnq 1 10), (0, SetWidth 2), (1, LEnq 2 20), (0, LEnq 3 30), (1, LDeq), (0, LSize), (0, LDeq)])
     (snd (demo_lpw 1)) rs g"
  by (rule lpw_queue_k_out_of_order [OF demo_lpw_created bump_alloc_fresh])
    (simp_all add: demo_lpw_eq lpw_fuel_def W64_def lpw_legal_def)

section \<open>A dequeue that does not see the items\<close>

text \<open>Three items on a queue that was widened, and three dequeues: from then on a dequeue changes nothing but the counter of empty answers.\<close>

definition blind_calls :: "(nat \<times> elastic_call) list" where
  "blind_calls = [(0, SetWidth 2), (0, LEnq 1 11), (0, LEnq 2 12), (0, LEnq 3 13), (0, LDeq), (0, LDeq), (0, LDeq)]"

definition blind_start :: "(int list \<times> lpw_tl list \<times> lpw) option" where
  "blind_start = exec_calls (lpw_call bump_alloc 9 (fst (demo_lpw 1))) blind_calls (map fresh_lpw [(1, 1, 1)], snd (demo_lpw 1))"

lemma fresh_run:
  "map_option fst (exec_calls (lpw_call bump_alloc 9 (fst (demo_lpw 2))) [(0, LEnq 1 11), (0, LDeq), (0, LSize)] (map fresh_lpw [(1, 1, 1)], snd (demo_lpw 2)))
   = Some [1, 0, 1]"
  by (simp add: prog_unfold cong: eval_cong)

lemma blind_state:
  "\<exists>l g. blind_start = Some ([1, 1, 1, 1, 11, 12, 0], [l], g) \<and>
     (\<forall>c. run (lpw_call bump_alloc 9 (fst (demo_lpw 1)) 0 LDeq (l\<lparr>my_null_count := c\<rparr>)) g = (Done (0, l\<lparr>my_null_count := add64 c 1\<rparr>), g)) \<and>
     (\<forall>l. run (lpw_call bump_alloc 9 (fst (demo_lpw 1)) 0 LSize l) g = (Done (1, l), g))"
  by (simp add: blind_start_def blind_calls_def prog_unfold cong: eval_cong)

text \<open>
  C39. A dequeue may return 0 although there is an item, and keep doing so. \<^verbatim>\<open>get_window\<close> takes the lower end of the put window for the put count of a
  sub-queue whose get count is not above it; where the two are equal the sub-queue counts as empty, even if it has an item in the put window. On a new queue of width 2 and depth 1 the
  dequeue after one enqueue returns 0, and \<^verbatim>\<open>queue_size\<close> then returns 1. On a new queue of width 1 that is widened to 2, given three items,
  the third dequeue returns 0, and so does every later one, however many there are: without an enqueue the item is never returned.
\<close>

theorem lpw_dequeue_blind:
  "map_option fst (exec_calls (lpw_call bump_alloc 9 (fst (demo_lpw 2))) [(0, LEnq 1 11), (0, LDeq), (0, LSize)] (map fresh_lpw [(1, 1, 1)], snd (demo_lpw 2)))
     = Some [1, 0, 1] \<and>
   map_option fst (exec_calls (lpw_call bump_alloc 9 (fst (demo_lpw 1)))
       ([(0, SetWidth 2), (0, LEnq 1 11), (0, LEnq 2 12), (0, LEnq 3 13), (0, LDeq), (0, LDeq), (0, LDeq)] @ replicate n (0, LDeq) @ [(0, LSize)])
       (map fresh_lpw [(1, 1, 1)], snd (demo_lpw 1)))
     = Some ([1, 1, 1, 1, 11, 12, 0] @ replicate n 0 @ [1])"
proof -
  obtain l g where b: "blind_start = Some ([1, 1, 1, 1, 11, 12, 0], [l], g)"
    and d: "\<And>c. run (lpw_call bump_alloc 9 (fst (demo_lpw 1)) 0 LDeq (l\<lparr>my_null_count := c\<rparr>)) g = (Done (0, l\<lparr>my_null_count := add64 c 1\<rparr>), g)"
    and z: "\<And>l. run (lpw_call bump_alloc 9 (fst (demo_lpw 1)) 0 LSize l) g = (Done (1, l), g)"
    using blind_state by blast
  have "map_option fst (exec_calls (lpw_call bump_alloc 9 (fst (demo_lpw 1))) (replicate n (0, LDeq) @ [(0, LSize)]) ([l\<lparr>my_null_count := c\<rparr>], g))
      = Some (replicate n 0 @ [1])" for c
    by (induction n arbitrary: c) (auto simp: z d)
  from this [of "my_null_count l"] obtain s where "exec_calls (lpw_call bump_alloc 9 (fst (demo_lpw 1))) (replicate n (0, LDeq) @ [(0, LSize)]) ([l], g)
      = Some (replicate n 0 @ [1], s)" by auto
  then show ?thesis using fresh_run b unfolding blind_start_def blind_calls_def by (subst exec_calls_append) simp
qed

section \<open>Changing the depth\<close>


end
