(* ===== verification/Spec2Isabelle.thy ===== *)
theory Spec2Isabelle
  imports Stack2Dc_Conc Counter2Dc_Conc Counter2Dd_Conc Queue2Dd_Conc
    Treiber Choice_Stacks Queue_MS Choice_Queues Multi_Counters Single_Counters Stack2Dd_Conc Relaxation_Analysis
    Controller Elastic_Law_Conc Queue2Dd_Opt Stack2Dc_Opt KSegment_Queue Elastic_Stack_Seq Elastic_Lpw_Calls
begin

text \<open>
  \<^bold>\<open>A verification of the relaxed concurrent data structures of elastic-2d-relaxation.\<close>

  The repository implements stacks, queues and counters that give up the strict order of their items
  for scalability. A structure consists of several lock-free sub-structures, and a \<^emph>\<open>window\<close> says at which of
  them, and at which counts, an operation may take place; a window moves when no sub-structure has room for an
  operation. How far an item may be from where a strict structure has it, the relaxation, is bounded by the \<^emph>\<open>width\<close>,
  the number of sub-structures, and the \<^emph>\<open>depth\<close> of the window. The repository also has the strict and the randomised structures
  that these are compared with, and a measurement of the relaxation.

  \<^bold>\<open>How the code is modelled.\<close> A C function that works on shared memory is a value of the type \<open>prog\<close> of theory
  \<open>Programs\<close>: a tree of atomic actions, one for each load, store, compare-and-exchange, exchange or fetch-and-add
  of the source, in its order. A failed \<^verbatim>\<open>assert\<close>, a null or dangling pointer, an index outside an array or a division by zero is
  \<open>Fault\<close>. \<open>wp\<close> executes a program alone and is total correctness; \<open>pool_step\<close> interleaves the actions of any number
  of threads, under sequential consistency, which the orderings \<^verbatim>\<open>__ATOMIC_SEQ_CST\<close> of the source ask for; \<open>ok\<close> is a rely/guarantee judgement whose soundness
  (\<open>pool_ok\<close>) gives the concurrent theorems. A 16-byte descriptor is read in two halves by the source, and the model reads it in two actions wherever
  other threads may write in between. 64-bit counters wrap (\<open>add64\<close>, \<open>sub64\<close> of \<open>Prelude\<close>), 16-bit fields are words. Thread-local variables are a record that
  every operation takes and returns, with the thread's random seeds (\<open>Thread_Random\<close>, \<^verbatim>\<open>include/random.h\<close>).

  \<^bold>\<open>Theories and sources\<close> (below \<^verbatim>\<open>src/\<close> of the repository unless \<^verbatim>\<open>include/\<close> is given):

  \<^item> \<open>Prelude\<close>, \<open>Programs\<close>, \<open>Thread_Random\<close>: arithmetic, lists and cyclic walks over an array, the language and its two semantics, the random
    numbers of a thread.
  \<^item> \<open>Params\<close>: how every \<^verbatim>\<open>create_...\<close> function computes width, depth and bound from the mode; shared by all of them.
  \<^item> \<open>Window2Dc\<close> (\<^verbatim>\<open>include/2Dc-window.c\<close>): the coupled window, one maximum for both directions. \<open>Window2Dd\<close> (\<^verbatim>\<open>include/2Dd-window.c\<close>): the decoupled put and
    get windows. Both are proved for any structure that satisfies their locale, and are used by the stacks, the counters and the queue.
  \<^item> \<open>Node_Stacks\<close>, \<open>Node_Queues\<close>: linked nodes in a heap, with the allocator (ssmem, a binary library) as a parameter of which only
    freshness of the address is assumed (\<open>alloc_fresh\<close>, satisfied by \<open>bump_alloc\<close>). \<open>Stack_Threads\<close>, \<open>Queue_Threads\<close>: the protocols of the threads of a
    linked stack or queue, as locales; \<open>Relaxed_Counter\<close> has that of a counter. \<open>Histories\<close> relates what the threads were told with what was done.
  \<^item> \<open>Relaxed_Stack\<close>, \<open>Decoupled_Stack\<close>, \<open>Relaxed_Queue\<close>, \<open>Relaxed_Counter\<close>: abstract structures under windows and the proofs of their relaxation bounds.
  \<^item> \<open>Stack2Dc\<close>, \<open>Stack2Dc_Conc\<close> (\<^verbatim>\<open>2Dc-stack/2Dc-stack.c\<close>), \<open>Counter2Dc\<close>, \<open>Counter2Dc_Conc\<close> (\<^verbatim>\<open>2Dc-counter/\<close>),
    \<open>Counter2Dd\<close>, \<open>Counter2Dd_Conc\<close> (\<^verbatim>\<open>2Dd-counter/\<close>), \<open>Queue2Dd\<close>, \<open>Queue2Dd_Conc\<close> (\<^verbatim>\<open>2Dd-queue/\<close>), \<open>Stack2Dd\<close>, \<open>Stack2Dd_Conc\<close> (\<^verbatim>\<open>2Dd-stack/\<close>): the 2D structures; the
    first theory of a pair has the functions, their effect alone, and the refinement of the abstract structure, the second one the interleaved threads.
  \<^item> \<open>Queue2Dd_Opt\<close> (\<^verbatim>\<open>2Dd-queue_optimized/\<close>): the 2Dd queue with windows that read less; its functions and the refinement of the same abstract queue.
    \<open>Stack2Dc_Opt\<close> (\<^verbatim>\<open>2Dc-stack_optimized/\<close>): the 2Dc stack with narrow integers and parameters that can be changed, and the refinement of the same abstract stack while they are not.
  \<^item> \<open>Treiber\<close> (\<^verbatim>\<open>stack-treiber/\<close>), \<open>Queue_MS\<close> (\<^verbatim>\<open>queue-ms/\<close>), \<open>Single_Counters\<close> (\<^verbatim>\<open>single-cas/\<close>, \<^verbatim>\<open>single-faa/\<close>): the strict structures.
  \<^item> \<open>Choice_Stacks\<close> (\<^verbatim>\<open>stack-dra/\<close>, \<^verbatim>\<open>multi-stack_random-relaxed/\<close>), \<open>Choice_Queues\<close> (\<^verbatim>\<open>queue-dra/\<close>, \<^verbatim>\<open>multi-queue_random-relaxed/\<close>), \<open>Multi_Counters\<close>
    (\<^verbatim>\<open>multi-counter_random-relaxed/\<close>, \<^verbatim>\<open>multi-counter-faa_random-relaxed/\<close>): the structures that choose sub-structures at random.
  \<^item> \<open>KSegment_Queue\<close> (\<^verbatim>\<open>queue-k-segment/\<close>): the queue whose nodes are spread over the slots of linked segments.
  \<^item> \<open>Relaxation_Analysis\<close> (\<^verbatim>\<open>include/relaxation_analysis_queue.c\<close>): the measurement of the relaxation.
  \<^item> \<open>Elastic_Queue\<close>: the abstract queue whose windows differ in width and depth. \<open>Elastic_Parts\<close>: the sub-queues, and the functions on them, that the elastic 2Dd queues share. \<open>Elastic_Law\<close>, \<open>Elastic_Law_Seq\<close>, \<open>Elastic_Law_Calls\<close>, \<open>Elastic_Law_Conc\<close> (\<^verbatim>\<open>2Dd-queue_elastic-law/\<close>): the elastic
    queue whose windows are the nodes of a lateral queue; its functions, the simulation of the abstract queue, sequences of calls, and an interleaving that strands an item.
    \<open>Elastic_Lpw\<close>, \<open>Elastic_Lpw_Seq\<close>, \<open>Elastic_Lpw_Calls\<close> (\<^verbatim>\<open>2Dd-queue_elastic-lpw/\<close>): the elastic queue with two global windows and a lateral queue of width changes beside them; its
    functions, the simulation of the same abstract queue, sequences of calls, and executions in which dequeues do not find an item.
  \<^item> \<open>Elastic_Stack\<close>, \<open>Elastic_Stack_Seq\<close> (\<^verbatim>\<open>2Dc-stack_elastic-lpw/\<close>): the elastic stack, with a lateral stack that records earlier widths; its functions, and what they do
    alone while the width grows, with an execution that shows why it must not shrink.
  \<^item> \<open>Controller\<close> (\<^verbatim>\<open>2Dd-queue_elastic-law/controller.h\<close>): the elastic controller.

  \<^bold>\<open>What is proved.\<close> For calls that do not overlap: every call returns (with an explicit number of iterations that is enough), and the 2Dc stack, the 2Dd stack, the
  2Dd queue, the optimized 2Dc stack and 2Dd queue and the two 2D counters refine their abstract structures, whose answers are within a stated distance of the strict ones; so do the two elastic queues, the first while its width and depth are switched, the second while its width is, with the bound of the window an item is in; the elastic stack refines an array of stacks whose tops are within the depth of each other, in rows, while its width grows; the widths and depths
  chosen at creation keep that distance within the bound asked for; the sizes reported are exact; the Treiber stack and the Michael-Scott queue
  are a list; the k-segment queue is a queue up to the size of a segment and gives back what was put in. For any interleaving of any number of threads: no fault, every sub-structure stays a linked list without cycles, no node is
  freed twice or used before it is published, no item or count is lost or duplicated; the single counters are linearizable. Eight theorems show
  what goes wrong in the source (a pop that returns null on a non-empty stack, a decrement that does not see the first window, a dequeue of the elastic queue that leaves an item behind, dequeues of the second one that do not see an item, and a depth of it that cannot be changed safely, parameters of the optimized stack that cannot be changed safely, items of the elastic stack that are lost to sight when its width shrinks, and a dequeue of the k-segment queue that never returns). The relaxation analysis measures what it
  is meant to, and the maximum it prints for a queue with decoupled windows is within the bound; the 16-bit controller is a balance of unbounded integers.

  \<^bold>\<open>Fuel.\<close> Loops that retry a compare-and-exchange have a number of iterations as fuel. The theorems on calls that do not overlap assume as much as
  \<open>fuel2Dc\<close>, \<open>fuel2Dd\<close>, \<open>law_fuel\<close>, \<open>lpw_fuel\<close>, \<open>es_fuel\<close> or a multiple of the size of a segment (a few times the width, for the hops and the moves of the window) and conclude that the call returns. The theorems on interleaved threads hold for any
  fuel: a thread that runs out of it has stopped, at a state that the theorem covers.

  \<^bold>\<open>Not modelled.\<close> Of the interleavings of the first elastic queue there is only the one that strands an item, no theorem for all of them; the second elastic queue, the elastic stack, the k-segment queue and the two optimized structures are treated for calls that do not overlap. The
  deques, the k-segment stack and the elimination stack are not modelled. LCRQ and the wait-free queue are vendored code
  of other authors, in part in assembly. Locks, ssmem, the atomic operations and the benchmark programs are below or above what is verified: the first are parameters
  or primitive actions of the model, the last only start threads, measure and print. Memory reclamation is not modelled: a freed node stays readable, as the
  epoch based collector promises while an operation that may hold the pointer lasts; that an address is not reused is part of \<open>alloc_fresh\<close>. The code under \<^verbatim>\<open>RELAXATION_ANALYSIS\<close> inside the structures (a lock around the
  compare-and-exchange) is not part of their models.
\<close>



end
